(* ===== verification/Prelude.thy ===== *)
theory Prelude
  imports Main "HOL-Library.Word"
begin

text \<open>
  Shared vocabulary of the development: type synonyms for the C integer types as the shipped
  Windows build fixes them (\<open>my_config.h\<close>: 4-byte \<open>int\<close> and \<open>long\<close>, 8-byte \<open>long long\<close> and
  \<open>size_t\<close>), and the generic lemmas on words, lists and maps that more than one component uses.
\<close>

unbundle bit_operations_syntax

section \<open>C integer types\<close>

type_synonym uchar = "8 word"
type_synonym uint8 = "8 word"
type_synonym uint16 = "16 word"
type_synonym uint32 = "32 word"
type_synonym uint = "32 word"
type_synonym ulong = "32 word"
type_synonym ulonglong = "64 word"
type_synonym csize = "64 word"
type_synonym cint = "32 word"
type_synonym ptr = nat  \<comment> \<open>an address; 0 is the null pointer\<close>

section \<open>Lemma collections\<close>

named_theorems word_masks \<open>closed masks written as \<^term>\<open>NOT (mask n)\<close> or \<^term>\<open>mask n\<close>\<close>
named_theorems bit_ops \<open>bit-level behaviour of the modelled operations\<close>

section \<open>Arithmetic\<close>

lemma two_power_lessD: "(2::nat) ^ m < 2 ^ n \<Longrightarrow> m < n"
  by simp

section \<open>Words\<close>

lemma unat_less_2p: "unat v < 2 ^ LENGTH('a)" for v :: "'a::len word"
  by (rule unsigned_less)

lemma unat_ucast_small: "unat v < 2 ^ LENGTH('b) \<Longrightarrow> unat (ucast v :: 'b::len word) = unat v"
  for v :: "'a::len word"
  by (simp add: unsigned_ucast_eq take_bit_nat_eq_self)

lemma unat_of_nat_small: "n < 2 ^ LENGTH('a) \<Longrightarrow> unat (of_nat n :: 'a::len word) = n"
  by (simp add: unsigned_of_nat take_bit_nat_eq_self)

lemma unat_two_power: "k < LENGTH('a) \<Longrightarrow> unat (2 ^ k :: 'a::len word) = 2 ^ k"
  using unat_of_nat_small [of "2 ^ k", where 'a = 'a] by simp

lemma take_bit_same_iff: "take_bit n v = v \<longleftrightarrow> unat v < 2 ^ n" for v :: "'a::len word"
  using take_bit_nat_eq_self_iff [of n "unat v"]
  by (simp flip: unsigned_take_bit_eq add: word_unat_eq_iff)

lemma and_not_mask_eq_0: "v AND NOT (mask n) = 0 \<longleftrightarrow> unat v < 2 ^ n" for v :: "'a::len word"
proof -
  have "v AND NOT (mask n) = 0 \<longleftrightarrow> take_bit n v = v"
    by (auto simp: bit_eq_iff bit_simps)
  then show ?thesis by (simp add: take_bit_same_iff)
qed

lemma unat_drop_bit: "unat (drop_bit n v) = unat v div 2 ^ n" for v :: "'a::len word"
  unfolding unat_drop_bit_eq by (rule drop_bit_eq_div)

lemma unat_lt_2p_bit: "unat v < 2 ^ n \<Longrightarrow> n \<le> i \<Longrightarrow> \<not> bit v i" for v :: "'a::len word"
  by (metis bit_take_bit_iff linorder_not_less take_bit_same_iff)

lemma bit_highest:
  fixes v :: "'a::len word"
  assumes "2 ^ n \<le> unat v" and "unat v < 2 ^ Suc n"
  shows "bit v n"
proof -
  have "unat v div 2 ^ n = 1"
    using assms by (simp add: div_nat_eqI)
  then have "bit (unat v) n" by (simp add: bit_iff_odd)
  then show ?thesis by (simp add: bit_unsigned_iff)
qed

text \<open>Signed readings.\<close>

lemma sint_eq_uint_pos:
  fixes v :: "'a::len word"
  assumes "0 \<le> sint v"
  shows "sint v = uint v"
proof -
  have "sint v < 2 ^ (LENGTH('a) - 1)" by (rule sint_lt)
  also have "\<dots> \<le> 2 ^ LENGTH('a)" by (simp add: power_increasing)
  finally have "take_bit LENGTH('a) (sint v) = sint v" using assms by (simp add: take_bit_int_eq_self)
  then show "sint v = uint v" by (simp add: uint_sint)
qed

lemma sint_le_uint: "sint v \<le> uint v" for v :: "'a::len word"
  using sint_eq_uint_pos [of v] by (cases "0 \<le> sint v") (auto intro: order_trans [of _ 0])

text \<open>Lists joined by a separator that does not occur in the first part.\<close>

lemma separator_eq: "z \<notin> set a \<Longrightarrow> z \<notin> set b \<Longrightarrow> a @ z # xs = b @ z # ys \<longleftrightarrow> a = b \<and> xs = ys"
proof (induction a arbitrary: b)
  case Nil
  then show ?case by (cases b) auto
next
  case (Cons x a)
  then show ?case by (cases b) auto
qed

text \<open>Exhaustive checks of a bounded value by evaluation.\<close>

lemma all_below: "list_all P [0..<k] \<Longrightarrow> n < k \<Longrightarrow> P (n :: nat)"
  by (simp add: list_all_iff)

lemma byte_cases: "list_all (\<lambda>n. P (of_nat n)) [0..<256] \<Longrightarrow> P v" for v :: "8 word"
  using all_below [of "\<lambda>n. P (of_nat n)" 256 "unat v"] unsigned_less [of v] by simp

end
