(* ===== verification/My_Bit.thy ===== *)
theory My_Bit
  imports Prelude
begin

text \<open>
  \<open>my_bit.h\<close>: the bit tricks of the server. Logarithms, population count, rounding to a power of
  two, clearing the highest bit, masks, and the search for the lowest set bit (the portable branch
  of \<open>my_find_first_bit\<close>). Each routine is proved equal to a plain arithmetic or set-based reading.
\<close>

section \<open>Binary logarithm\<close>

definition my_bit_log2_hex_digit :: "uint8 \<Rightarrow> uint" where
  "my_bit_log2_hex_digit value =
     (if value AND 0x0C \<noteq> 0 then (if value AND 0x08 \<noteq> 0 then 3 else 2)
      else (if value AND 0x02 \<noteq> 0 then 1 else 0))"

definition my_bit_log2_uint8 :: "uint8 \<Rightarrow> uint" where
  "my_bit_log2_uint8 value =
     (if value AND 0xF0 \<noteq> 0 then my_bit_log2_hex_digit (drop_bit 4 value) + 4
      else my_bit_log2_hex_digit value)"

definition my_bit_log2_uint16 :: "uint16 \<Rightarrow> uint" where
  "my_bit_log2_uint16 value =
     (if value AND 0xFF00 \<noteq> 0 then my_bit_log2_uint8 (ucast (drop_bit 8 value)) + 8
      else my_bit_log2_uint8 (ucast value))"

definition my_bit_log2_uint32 :: "uint32 \<Rightarrow> uint" where
  "my_bit_log2_uint32 value =
     (if value AND 0xFFFF0000 \<noteq> 0 then my_bit_log2_uint16 (ucast (drop_bit 16 value)) + 16
      else my_bit_log2_uint16 (ucast value))"

definition my_bit_log2_uint64 :: "ulonglong \<Rightarrow> uint" where
  "my_bit_log2_uint64 value =
     (if value AND 0xFFFFFFFF00000000 \<noteq> 0 then my_bit_log2_uint32 (ucast (drop_bit 32 value)) + 32
      else my_bit_log2_uint32 (ucast value))"

definition my_bit_log2_size_t :: "csize \<Rightarrow> uint" where
  "my_bit_log2_size_t value = my_bit_log2_uint64 value"

definition is_log2 :: "nat \<Rightarrow> nat \<Rightarrow> bool" where
  "is_log2 n r \<longleftrightarrow> (if n = 0 then r = 0 else 2 ^ r \<le> n \<and> n < 2 ^ Suc r)"

lemma is_log2_bound: "is_log2 n r \<Longrightarrow> n < 2 ^ k \<Longrightarrow> 0 < k \<Longrightarrow> r < k"
  by (metis is_log2_def le_less_trans less_2_cases_iff nat_power_less_imp_less)

lemma is_log2_shift:
  assumes "is_log2 (n div 2 ^ k) r" and "2 ^ k \<le> n"
  shows "is_log2 n (r + k)"
proof -
  have "n div 2 ^ k \<noteq> 0" using assms(2) by (simp add: div_eq_0_iff)
  then have "2 ^ r \<le> n div 2 ^ k" "n div 2 ^ k < 2 ^ Suc r"
    using assms(1) by (auto simp: is_log2_def)
  then have "2 ^ r * 2 ^ k \<le> n" "n < 2 ^ Suc r * 2 ^ k"
    by (simp_all add: less_eq_div_iff_mult_less_eq div_less_iff_less_mult)
  then show ?thesis by (auto simp: is_log2_def power_add ac_simps)
qed

text \<open>
  One halving step of the family: the high half decides, the halves are taken by shift and
  truncating cast, and the result of the high half is raised by the shift.
\<close>

lemma log2_step:
  fixes v :: "'a::len word" and f :: "'b::len word \<Rightarrow> uint"
  assumes f: "\<And>w. unat w < 2 ^ k \<Longrightarrow> is_log2 (unat w) (unat (f w))"
    and k: "0 < k" "k \<le> LENGTH('b)" and small: "unat v < 2 ^ (2 * k)" and kb: "k \<le> 32"
  shows "is_log2 (unat v)
    (unat (if v AND NOT (mask k) \<noteq> 0 then f (ucast (drop_bit k v)) + of_nat k else f (ucast v)))"
proof (cases "unat v < 2 ^ k")
  case True
  then have "unat v < 2 ^ LENGTH('b)"
    using k(2) by (meson less_le_trans one_le_numeral power_increasing)
  then have "unat (ucast v :: 'b word) = unat v"
    by (rule unat_ucast_small)
  with True show ?thesis using f [of "ucast v"] by (simp add: and_not_mask_eq_0)
next
  case False
  let ?h = "ucast (drop_bit k v) :: 'b word"
  have lt: "unat v div 2 ^ k < 2 ^ k"
    using small by (simp add: div_less_iff_less_mult mult_2 power_add)
  then have "unat v div 2 ^ k < 2 ^ LENGTH('b)"
    using k(2) by (meson less_le_trans one_le_numeral power_increasing)
  then have h: "unat ?h = unat v div 2 ^ k"
    by (simp add: unat_ucast_small unat_drop_bit)
  with lt have l: "is_log2 (unat v div 2 ^ k) (unat (f ?h))" using f [of ?h] by simp
  with lt k have "unat (f ?h) < k" by (blast intro: is_log2_bound)
  with kb have "unat (f ?h) + k < 2 ^ 32" by simp
  then have "unat (f ?h + of_nat k) = unat (f ?h) + k"
    using kb by (simp add: unat_word_ariths unat_of_nat)
  with l False show ?thesis
    by (simp add: and_not_mask_eq_0 is_log2_shift)
qed

lemma log2_masks [word_masks]:
  "(0xF0 :: 8 word) = NOT (mask 4)" "(0xFF00 :: 16 word) = NOT (mask 8)"
  "(0xFFFF0000 :: 32 word) = NOT (mask 16)" "(0xFFFFFFFF00000000 :: 64 word) = NOT (mask 32)"
  by code_simp+

lemma log2_hex_digit:
  assumes "unat v < 2 ^ 4"
  shows "is_log2 (unat v) (unat (my_bit_log2_hex_digit v))"
proof -
  have "list_all (\<lambda>n. is_log2 n (unat (my_bit_log2_hex_digit (of_nat n)))) [0..<16]"
    by code_simp
  from all_below [OF this, of "unat v"] assms show ?thesis by simp
qed

lemma log2_uint8: "is_log2 (unat v) (unat (my_bit_log2_uint8 v))"
  using log2_step [of 4 my_bit_log2_hex_digit v, OF log2_hex_digit] unat_less_2p [of v]
  by (simp add: my_bit_log2_uint8_def word_masks split: if_splits)

lemma log2_uint16: "is_log2 (unat v) (unat (my_bit_log2_uint16 v))"
  using log2_step [of 8 my_bit_log2_uint8 v, OF log2_uint8] unat_less_2p [of v]
  by (simp add: my_bit_log2_uint16_def word_masks split: if_splits)

lemma log2_uint32: "is_log2 (unat v) (unat (my_bit_log2_uint32 v))"
  using log2_step [of 16 my_bit_log2_uint16 v, OF log2_uint16] unat_less_2p [of v]
  by (simp add: my_bit_log2_uint32_def word_masks split: if_splits)

lemma log2_uint64: "is_log2 (unat v) (unat (my_bit_log2_uint64 v))"
  using log2_step [of 32 my_bit_log2_uint32 v, OF log2_uint32] unat_less_2p [of v]
  by (simp add: my_bit_log2_uint64_def word_masks split: if_splits)


section \<open>Population count\<close>

definition my_count_bits_uint32 :: "uint32 \<Rightarrow> uint" where
  "my_count_bits_uint32 v =
     (let v = v - (drop_bit 1 v AND 0x55555555);
          v = (v AND 0x33333333) + (drop_bit 2 v AND 0x33333333)
      in drop_bit 24 (((v + drop_bit 4 v) AND 0xF0F0F0F) * 0x1010101))"

definition my_count_bits :: "ulonglong \<Rightarrow> uint" where
  "my_count_bits x = my_count_bits_uint32 (ucast x) + my_count_bits_uint32 (ucast (drop_bit 32 x))"

text \<open>
  The reference is the digit sum of the binary expansion. The proof reads the 32-bit value as four
  byte lanes: every step of the routine but the final multiplication works on the lanes separately,
  a byte is two nibble lanes in turn, and for a nibble the steps are checked by evaluation.
\<close>

fun popcount :: "nat \<Rightarrow> nat" where
  "popcount n = (if n = 0 then 0 else n mod 2 + popcount (n div 2))"

declare popcount.simps [simp del]

lemma and_lane: 
  fixes a b m n :: nat
  assumes "a < 2 ^ k" "m < 2 ^ k"
  shows "(a + 2 ^ k * b) AND (m + 2 ^ k * n) = (a AND m) + 2 ^ k * (b AND n)"
proof -
  let ?z = "(a + 2 ^ k * b) AND (m + 2 ^ k * n)"
  have t: "take_bit k (x + 2 ^ k * y) = x" if "x < 2 ^ k" for x y :: nat
    using that by (simp add: take_bit_eq_mod)
  have d: "drop_bit k (x + 2 ^ k * y) = y" if "x < 2 ^ k" for x y :: nat
    using that by (simp add: drop_bit_eq_div)
  have "take_bit k ?z = a AND m" "drop_bit k ?z = b AND n"
    using assms by (simp_all add: t d)
  then show ?thesis using bits_ident [of k ?z] by (simp add: push_bit_eq_mult ac_simps)
qed

lemma lane_shift_and:
  fixes a r m :: nat
  assumes "a < 2 ^ w" "s \<le> w" "m < 2 ^ (w - s)"
  shows "((a + 2 ^ w * r) div 2 ^ s) AND (m + 2 ^ w * M) =
    (a div 2 ^ s AND m) + 2 ^ w * (r div 2 ^ s AND M)"
proof -
  have p: "(2::nat) ^ w = 2 ^ s * 2 ^ (w - s)" using assms(2) by (simp flip: power_add)
  have c: "2 ^ w * x = 2 ^ (w - s) * (2 ^ s * x)" for x :: nat by (simp add: p)
  have a: "a div 2 ^ s < 2 ^ (w - s)"
    using assms(1) p by (simp add: div_less_iff_less_mult mult.commute)
  have "(a + 2 ^ w * r) div 2 ^ s = (a + 2 ^ s * (2 ^ (w - s) * r)) div 2 ^ s"
    by (simp only: p mult.assoc)
  also have "\<dots> = a div 2 ^ s + 2 ^ (w - s) * r" by (simp add: div_mult_self2 add.commute)
  finally have "((a + 2 ^ w * r) div 2 ^ s) AND (m + 2 ^ w * M)
      = (a div 2 ^ s AND m) + 2 ^ (w - s) * (r AND 2 ^ s * M)"
    by (simp only: c [of M] and_lane [OF a assms(3)])
  also have "r AND 2 ^ s * M = 2 ^ s * (r div 2 ^ s AND M)"
    using and_lane [of "r mod 2 ^ s" s 0 "r div 2 ^ s" M] by simp
  finally show ?thesis by (simp only: c)
qed

lemma byte_shift_and:
  fixes a r m :: nat
  assumes "a < 256" "s \<le> 8" "m < 2 ^ (8 - s)"
  shows "((a + 256 * r) div 2 ^ s) AND (m + 256 * M) = (a div 2 ^ s AND m) + 256 * (r div 2 ^ s AND M)"
  using lane_shift_and [of a 8 s m r M] assms by simp

lemma nibble_shift_and:
  fixes a r m :: nat
  assumes "a < 16" "s \<le> 4" "m < 2 ^ (4 - s)"
  shows "((a + 16 * r) div 2 ^ s) AND (m + 16 * M) = (a div 2 ^ s AND m) + 16 * (r div 2 ^ s AND M)"
  using lane_shift_and [of a 4 s m r M] assms by simp

definition lanes :: "nat \<Rightarrow> nat \<Rightarrow> nat \<Rightarrow> nat \<Rightarrow> nat" where
  "lanes a b c d = a + 256 * (b + 256 * (c + 256 * (d + 256 * 0)))"

lemma lanes_shift_and:
  assumes "a < 256" "b < 256" "c < 256" "d < 256" "s \<le> 8" "m < 2 ^ (8 - s)"
  shows "lanes a b c d div 2 ^ s AND lanes m m m m =
    lanes (a div 2 ^ s AND m) (b div 2 ^ s AND m) (c div 2 ^ s AND m) (d div 2 ^ s AND m)"
  unfolding lanes_def using assms by (simp only: byte_shift_and) simp

lemma lanes_diff:
  "a' \<le> a \<Longrightarrow> b' \<le> b \<Longrightarrow> c' \<le> c \<Longrightarrow> d' \<le> d \<Longrightarrow>
    lanes a b c d - lanes a' b' c' d' = lanes (a - a') (b - b') (c - c') (d - d')"
  by (simp add: lanes_def)

lemma lanes_add: "lanes a b c d + lanes a' b' c' d' = lanes (a + a') (b + b') (c + c') (d + d')"
  by (simp add: lanes_def)

lemma nibble_add: "(a + 256 * r) + (a + 256 * r) div 16 =
    (a + a div 16 + 16 * (r mod 16)) + 256 * (r + r div 16)" for a r :: nat
proof -
  have "(a + 256 * r) div 16 = a div 16 + 16 * r" by (simp add: div_mult_self2 [of 16 a "16 * r"])
  moreover have "16 * (r mod 16) + 256 * (r div 16) = 16 * r"
    using mult_div_mod_eq [of 16 r] by linarith
  ultimately show ?thesis by simp
qed

lemma nat_and_15: "x AND 15 = x mod 16" for x :: nat
proof -
  have e: "(15 :: nat) = mask 4" by (simp add: mask_eq_exp_minus_1)
  show ?thesis unfolding e by (simp add: take_bit_eq_mod flip: take_bit_eq_mask)
qed

lemma lanes_nibbles:
  assumes "a \<le> 68" "b \<le> 68" "c \<le> 68" "d \<le> 68" "b mod 16 \<le> 4" "c mod 16 \<le> 4" "d mod 16 \<le> 4"
  shows "(lanes a b c d + lanes a b c d div 16) AND lanes 15 15 15 15 =
    lanes ((a + a div 16) mod 16) ((b + b div 16) mod 16) ((c + c div 16) mod 16) ((d + d div 16) mod 16)"
proof -
  have m: "(x + 256 * r) mod 16 = x mod 16" for x r :: nat
    using mod_mult_self2 [of x 16 "16 * r"] by simp
  have e: "lanes a b c d + lanes a b c d div 16 =
    lanes (a + a div 16 + 16 * (b mod 16)) (b + b div 16 + 16 * (c mod 16))
      (c + c div 16 + 16 * (d mod 16)) (d + d div 16 + 16 * (0 mod 16))"
    (is "_ = lanes ?a ?b ?c ?d")
    unfolding lanes_def by (simp only: nibble_add m) simp
  have "?a < 256" "?b < 256" "?c < 256" "?d < 256" using assms by linarith+
  from lanes_shift_and [OF this, of 0 15] show ?thesis unfolding e by (simp add: nat_and_15)
qed

definition pc1 :: "nat \<Rightarrow> nat" where "pc1 a = a - (a div 2 AND 0x55)"
definition pc2 :: "nat \<Rightarrow> nat" where "pc2 a = (a AND 0x33) + (a div 4 AND 0x33)"
definition pc3 :: "nat \<Rightarrow> nat" where "pc3 a = (a + a div 16) mod 16"

lemma popcount_0 [simp]: "popcount 0 = 0"
  by (simp add: popcount.simps)

lemma popcount_rec: "popcount n = n mod 2 + popcount (n div 2)"
  by (cases "n = 0") (simp_all add: popcount.simps [of n])

lemma popcount_split: "a < 2 ^ k \<Longrightarrow> popcount (a + 2 ^ k * b) = popcount a + popcount b"
proof (induction k arbitrary: a)
  case 0
  then show ?case by simp
next
  case (Suc k)
  have "a div 2 < 2 ^ k" using Suc.prems by auto
  from Suc.IH [OF this] have ih: "popcount (a div 2 + 2 ^ k * b) = popcount (a div 2) + popcount b" .
  have d: "(a + 2 ^ Suc k * b) div 2 = a div 2 + 2 ^ k * b" by simp
  have m: "(a + 2 ^ Suc k * b) mod 2 = a mod 2"
    using mod_mult_self2 [of a 2 "2 ^ k * b"] by (simp add: mult.assoc)
  show ?case unfolding popcount_rec [of "a + _"] popcount_rec [of a] d m ih by simp
qed

lemma nibble_facts:
  assumes "a < 16"
  shows "a div 2 AND 5 \<le> a" "a - (a div 2 AND 5) < 16"
    "(a - (a div 2 AND 5) AND 3) + ((a - (a div 2 AND 5)) div 4 AND 3) = popcount a" "popcount a \<le> 4"
proof -
  have "list_all (\<lambda>a::nat. a div 2 AND 5 \<le> a \<and> a - (a div 2 AND 5) < 16 \<and>
      (a - (a div 2 AND 5) AND 3) + ((a - (a div 2 AND 5)) div 4 AND 3) = popcount a \<and>
      popcount a \<le> 4) [0..<16]"
    by code_simp
  from all_below [OF this assms] show "a div 2 AND 5 \<le> a" "a - (a div 2 AND 5) < 16"
    "(a - (a div 2 AND 5) AND 3) + ((a - (a div 2 AND 5)) div 4 AND 3) = popcount a" "popcount a \<le> 4"
    by blast+
qed

lemma byte_facts:
  assumes "a < 256"
  shows "a div 2 AND 0x55 \<le> a" "pc1 a < 256" "pc2 (pc1 a) \<le> 68" "pc2 (pc1 a) mod 16 \<le> 4"
    "pc3 (pc2 (pc1 a)) = popcount a" "popcount a \<le> 8"
proof -
  define l h where "l = a mod 16" and "h = a div 16"
  have a: "a = l + 16 * h" and lt: "l < 16" "h < 16"
    using assms by (auto simp: l_def h_def)
  define l1 h1 where "l1 = l - (l div 2 AND 5)" and "h1 = h - (h div 2 AND 5)"
  have nl: "l div 2 AND 5 \<le> l" "l1 < 16" "(l1 AND 3) + (l1 div 4 AND 3) = popcount l" "popcount l \<le> 4"
    and nh: "h div 2 AND 5 \<le> h" "h1 < 16" "(h1 AND 3) + (h1 div 4 AND 3) = popcount h" "popcount h \<le> 4"
    unfolding l1_def h1_def using nibble_facts [OF lt(1)] nibble_facts [OF lt(2)] by blast+
  have m1: "a div 2 AND 0x55 = (l div 2 AND 5) + 16 * (h div 2 AND 5)"
    using nibble_shift_and [of l 1 5 h 5] lt by (simp add: a)
  show "a div 2 AND 0x55 \<le> a"
    unfolding m1 unfolding a using nl(1) nh(1) by (intro add_mono mult_le_mono order_refl)
  have p1: "pc1 a = l1 + 16 * h1"
    unfolding pc1_def m1 unfolding a l1_def h1_def using nl(1) nh(1) by (simp add: diff_mult_distrib2)
  with nl(2) nh(2) show "pc1 a < 256" by linarith
  have "(l1 + 16 * h1) AND 0x33 = (l1 AND 3) + 16 * (h1 AND 3)"
    "(l1 + 16 * h1) div 4 AND 0x33 = (l1 div 4 AND 3) + 16 * (h1 div 4 AND 3)"
    using nibble_shift_and [OF nl(2), of 0 3 h1 3] nibble_shift_and [OF nl(2), of 2 3 h1 3] by simp_all
  then have p2: "pc2 (pc1 a) = popcount l + 16 * popcount h"
    unfolding pc2_def p1 nl(3) [symmetric] nh(3) [symmetric] by (simp only: distrib_left ac_simps)
  with nl(4) nh(4) show "pc2 (pc1 a) \<le> 68" "pc2 (pc1 a) mod 16 \<le> 4" by simp_all
  have pa: "popcount a = popcount l + popcount h" using popcount_split [of l 4 h] lt by (simp add: a)
  show "popcount a \<le> 8" using nl(4) nh(4) by (simp add: pa)
  have "(popcount l + 16 * popcount h) div 16 = popcount h" using nl(4) by simp
  then have "pc3 (pc2 (pc1 a)) = (popcount l + popcount h + 16 * popcount h) mod 16"
    unfolding pc3_def p2 by (simp only: ac_simps)
  also have "\<dots> = (popcount l + popcount h) mod 16" by (rule mod_mult_self2)
  also have "\<dots> = popcount l + popcount h" using nl(4) nh(4) by simp
  finally show "pc3 (pc2 (pc1 a)) = popcount a" by (simp only: pa)
qed

lemma popcount_lanes:
  assumes "a < 256" "b < 256" "c < 256" "d < 256"
  shows "popcount (lanes a b c d) = popcount a + popcount b + popcount c + popcount d"
proof -
  have "popcount (x + 256 * r) = popcount x + popcount r" if "x < 256" for x r
    using popcount_split [of x 8 r] that by simp
  with assms show ?thesis unfolding lanes_def by (simp only: popcount_0 add_0_right add.assoc)
qed

lemma lanes_exist:
  assumes "n < 2 ^ 32"
  obtains a b c d where "n = lanes a b c d" "a < 256" "b < 256" "c < 256" "d < 256"
proof
  show "n = lanes (n mod 256) (n div 256 mod 256) (n div 256 div 256 mod 256) (n div 256 div 256 div 256)"
    unfolding lanes_def by simp
  show "n div 256 div 256 div 256 < 256" using assms by (simp add: div_mult2_eq [symmetric] less_mult_imp_div_less)
qed simp_all

lemma lanes_sum:
  assumes "a \<le> 8" "b \<le> 8" "c \<le> 8" "d \<le> 8"
  shows "lanes a b c d * 0x1010101 mod 2 ^ 32 div 2 ^ 24 = a + b + c + d"
proof -
  have "lanes a b c d * 0x1010101 = lanes a (a + b) (a + b + c) (a + b + c + d)
      + 2 ^ 32 * lanes (b + c + d) (c + d) d 0"
    by (simp add: lanes_def algebra_simps)
  moreover have "lanes a (a + b) (a + b + c) (a + b + c + d) < 2 ^ 32"
    using assms by (simp add: lanes_def)
  ultimately have "lanes a b c d * 0x1010101 mod 2 ^ 32 = lanes a (a + b) (a + b + c) (a + b + c + d)"
    by (simp add: mod_mult_self2)
  then show ?thesis using assms by (simp add: lanes_def)
qed

lemma count_bits_uint32: "unat (my_count_bits_uint32 v) = popcount (unat v)"
proof -
  obtain a b c d where v: "unat v = lanes a b c d" and l: "a < 256" "b < 256" "c < 256" "d < 256"
    by (rule lanes_exist [of "unat v"]) (use unat_less_2p [of v] in simp_all)
  note bf = byte_facts [OF l(1)] byte_facts [OF l(2)] byte_facts [OF l(3)] byte_facts [OF l(4)]
  define v1 where "v1 = v - (drop_bit 1 v AND 0x55555555)"
  define v2 where "v2 = (v1 AND 0x33333333) + (drop_bit 2 v1 AND 0x33333333)"
  have k: "(0x55555555::nat) = lanes 85 85 85 85" "(0x33333333::nat) = lanes 51 51 51 51"
     "(0xF0F0F0F::nat) = lanes 15 15 15 15"
    by (simp_all add: lanes_def)
  have m1: "unat (drop_bit 1 v AND 0x55555555) =
      lanes (a div 2 AND 85) (b div 2 AND 85) (c div 2 AND 85) (d div 2 AND 85)"
    using lanes_shift_and [OF l, of 1 85] by (simp add: unsigned_and_eq unat_drop_bit v flip: k)
  have le: "unat (drop_bit 1 v AND 0x55555555) \<le> unat v"
    unfolding m1 v lanes_def using bf(1,7,13,19) by (intro add_mono mult_le_mono order_refl)
  then have "unat v1 = lanes a b c d - lanes (a div 2 AND 85) (b div 2 AND 85) (c div 2 AND 85) (d div 2 AND 85)"
    unfolding v1_def by (simp only: unat_sub word_le_nat_alt m1 v)
  also have "\<dots> = lanes (pc1 a) (pc1 b) (pc1 c) (pc1 d)"
    unfolding pc1_def using bf(1,7,13,19) by (rule lanes_diff)
  finally have v1: "unat v1 = lanes (pc1 a) (pc1 b) (pc1 c) (pc1 d)" .
  have "unat (v1 AND 0x33333333) + unat (drop_bit 2 v1 AND 0x33333333) = 
      lanes (pc2 (pc1 a)) (pc2 (pc1 b)) (pc2 (pc1 c)) (pc2 (pc1 d))" (is "_ = ?l2")
    using lanes_shift_and [OF bf(2,8,14,20), of 0 51] lanes_shift_and [OF bf(2,8,14,20), of 2 51]
    by (simp add: unsigned_and_eq unat_drop_bit v1 lanes_add pc2_def flip: k)
  moreover have "?l2 < 2 ^ 32" unfolding lanes_def using bf(3,9,15,21) by simp
  ultimately have v2: "unat v2 = ?l2"
    unfolding v2_def by (simp add: unat_word_ariths)
  have "?l2 < 2 ^ 31" unfolding lanes_def using bf(3,9,15,21) by simp
  then have l2: "?l2 + ?l2 div 16 < 2 ^ 32" using div_le_dividend [of ?l2 16] by simp
  have "unat ((v2 + drop_bit 4 v2) AND 0xF0F0F0F) = (?l2 + ?l2 div 16) AND lanes 15 15 15 15"
    using l2 by (simp add: unsigned_and_eq unat_word_ariths unat_drop_bit v2 flip: k)
  also have "\<dots> = lanes (popcount a) (popcount b) (popcount c) (popcount d)"
    using lanes_nibbles [OF bf(3,9,15,21) bf(10,16,22)] bf(5,11,17,23) by (simp add: pc3_def)
  finally have "unat (drop_bit 24 (((v2 + drop_bit 4 v2) AND 0xF0F0F0F) * 0x1010101))
      = popcount a + popcount b + popcount c + popcount d"
    using lanes_sum [OF bf(6,12,18,24)] by (simp add: unat_drop_bit unat_word_ariths)
  then show ?thesis
    using popcount_lanes [OF l] by (simp add: my_count_bits_uint32_def v1_def v2_def v Let_def)
qed
lemma count_bits: "unat (my_count_bits x) = popcount (unat x)"
proof -
  have lo: "unat (ucast x :: 32 word) = unat x mod 2 ^ 32"
    by (simp add: unsigned_ucast_eq take_bit_eq_mod)
  have "unat x < 2 ^ 32 * 2 ^ 32" using unat_less_2p [of x] by simp
  then have "unat x div 2 ^ 32 < 2 ^ 32" by (simp add: div_less_iff_less_mult)
  then have hi: "unat (ucast (drop_bit 32 x) :: 32 word) = unat x div 2 ^ 32"
    by (simp add: unat_ucast_small unat_drop_bit)
  have le: "popcount (unat (w :: 32 word)) \<le> 32" for w
  proof -
    obtain a b c d where "unat w = lanes a b c d" "a < 256" "b < 256" "c < 256" "d < 256"
      by (rule lanes_exist [of "unat w"]) (use unat_less_2p [of w] in simp_all)
    then show ?thesis using popcount_lanes [of a b c d] byte_facts(6) [of a] byte_facts(6) [of b]
        byte_facts(6) [of c] byte_facts(6) [of d] by simp
  qed
  have "popcount (unat x) = popcount (unat x mod 2 ^ 32) + popcount (unat x div 2 ^ 32)"
    using popcount_split [of "unat x mod 2 ^ 32" 32 "unat x div 2 ^ 32"] by simp
  then show ?thesis
    using le [of "ucast x"] le [of "ucast (drop_bit 32 x)"]
    by (simp add: my_count_bits_def unat_word_ariths count_bits_uint32 lo hi)
qed

lemma bits_rec: "{i. bit n i} = (if odd n then {0} else {}) \<union> Suc ` {i. bit (n div 2) i}" for n :: nat
  by (auto simp: bit_0 bit_Suc image_iff) (metis bit_0 bit_Suc not0_implies_Suc)+

lemma popcount_card: "finite {i. bit n i} \<and> popcount n = card {i. bit n i}"
proof (induction n rule: popcount.induct)
  case (1 n)
  show ?case
  proof (cases "n = 0")
    case True
    then show ?thesis by simp
  next
    case False
    with 1 have ih: "finite {i. bit (n div 2) i}" "popcount (n div 2) = card {i. bit (n div 2) i}"
      by auto
    have "card ({0} \<union> Suc ` {i. bit (n div 2) i}) = Suc (card {i. bit (n div 2) i})"
      using ih by (simp add: card_insert_if card_image)
    with ih show ?thesis
      unfolding bits_rec [of n] popcount_rec [of n] by (auto simp: card_image odd_iff_mod_2_eq_one)
  qed
qed

lemma count_bits_card: "unat (my_count_bits x) = card {i. bit x i}"
  using popcount_card [of "unat x"] by (simp add: count_bits bit_unsigned_iff)

section \<open>Smearing: rounding to a power of two, clearing the highest bit\<close>

definition my_round_up_to_next_power :: "uint32 \<Rightarrow> uint32" where
  "my_round_up_to_next_power v =
     (let v = v - 1;
          v = v OR drop_bit 1 v;
          v = v OR drop_bit 2 v;
          v = v OR drop_bit 4 v;
          v = v OR drop_bit 8 v;
          v = v OR drop_bit 16 v
      in v + 1)"

definition my_clear_highest_bit :: "uint32 \<Rightarrow> uint32" where
  "my_clear_highest_bit v =
     (let w = drop_bit 1 v;
          w = w OR drop_bit 1 w;
          w = w OR drop_bit 2 w;
          w = w OR drop_bit 4 w;
          w = w OR drop_bit 8 w;
          w = w OR drop_bit 16 w
      in v AND w)"

text \<open>
  \<open>smeared m v w\<close>: bit \<open>i\<close> of \<open>w\<close> is set iff one of the \<open>m\<close> bits of \<open>v\<close> from \<open>i\<close> upwards is.
\<close>

definition smeared :: "nat \<Rightarrow> uint32 \<Rightarrow> uint32 \<Rightarrow> bool" where
  "smeared m v w \<longleftrightarrow> (\<forall>i. bit w i \<longleftrightarrow> (\<exists>j. i \<le> j \<and> j < i + m \<and> bit v j))"

lemma smeared_1: "smeared 1 v v"
  by (auto simp: smeared_def less_Suc_eq)

lemma smeared_step:
  assumes "smeared m v w" and "k = m" and "n = m + m"
  shows "smeared n v (w OR drop_bit k w)"
proof -
  have split: "(i \<le> j \<and> j < i + (m + m)) \<and> P \<longleftrightarrow>
      (i \<le> j \<and> j < i + m) \<and> P \<or> (m + i \<le> j \<and> j < m + i + m) \<and> P" for i j P
    by auto
  have "(\<exists>j. (i \<le> j \<and> j < i + (m + m)) \<and> bit v j) \<longleftrightarrow>
      (\<exists>j. (i \<le> j \<and> j < i + m) \<and> bit v j) \<or>
      (\<exists>j. (m + i \<le> j \<and> j < m + i + m) \<and> bit v j)" for i
    by (subst split) blast
  with assms show ?thesis by (simp add: smeared_def bit_simps)
qed

lemma smeared_steps:
  "smeared 32 v (let v = v OR drop_bit 1 v; v = v OR drop_bit 2 v; v = v OR drop_bit 4 v;
                     v = v OR drop_bit 8 v in v OR drop_bit 16 v)"
  unfolding Let_def
  by (rule smeared_step [where m = 16], rule smeared_step [where m = 8],
      rule smeared_step [where m = 4], rule smeared_step [where m = 2],
      rule smeared_step [where m = 1], rule smeared_1) simp_all

lemma smeared_mask:
  assumes "smeared 32 v w" and "v \<noteq> 0"
  shows "w = mask (Suc (unat (my_bit_log2_uint32 v)))"
proof (rule bit_word_eqI)
  fix i :: nat
  let ?r = "unat (my_bit_log2_uint32 v)"
  assume "i < LENGTH(32)"
  have r: "2 ^ ?r \<le> unat v" "unat v < 2 ^ Suc ?r"
    using log2_uint32 [of v] assms(2) by (auto simp: is_log2_def unat_eq_0)
  have top: "bit v ?r" by (rule bit_highest [OF r])
  have above: "\<not> bit v j" if "?r < j" for j
    using unat_lt_2p_bit [OF r(2)] that by (simp add: Suc_le_eq)
  have "bit w i \<longleftrightarrow> i \<le> ?r"
  proof
    assume "bit w i"
    then obtain j where "i \<le> j" "bit v j" using assms(1) by (auto simp: smeared_def)
    with above show "i \<le> ?r" by (meson le_trans linorder_not_less)
  next
    assume "i \<le> ?r"
    moreover have "?r < 32" using bit_imp_le_length [OF top] by simp
    ultimately show "bit w i" using assms(1) top by (auto simp: smeared_def)
  qed
  then show "bit w i \<longleftrightarrow> bit (mask (Suc ?r) :: 32 word) i"
    using \<open>i < LENGTH(32)\<close> by (auto simp: bit_simps)
qed

text \<open>The least power of two that is not below \<open>v\<close>; 0 for 0 and above \<open>2 ^ 31\<close>.\<close>

lemma round_up_eq: "my_round_up_to_next_power v =
    (if v = 1 then 1 else 2 ^ Suc (unat (my_bit_log2_uint32 (v - 1))))"
proof -
  define u where "u = v - 1"
  have sm: "my_round_up_to_next_power v = (let u = u OR drop_bit 1 u; u = u OR drop_bit 2 u;
      u = u OR drop_bit 4 u; u = u OR drop_bit 8 u in u OR drop_bit 16 u) + 1"
    by (simp add: my_round_up_to_next_power_def u_def Let_def)
  show ?thesis
  proof (cases "u = 0")
    case True
    then show ?thesis unfolding sm by (simp add: u_def)
  next
    case False
    with smeared_mask [OF smeared_steps False] show ?thesis
      unfolding sm by (simp add: mask_eq_exp_minus_1 flip: u_def) (simp add: u_def)
  qed
qed

text \<open>For a value between 1 and 2^31, rounding up gives the least power of two that is not below it.\<close>

theorem round_up_is_least_power:
  assumes "0 < unat v" and "unat v \<le> 2 ^ 31"
  shows "\<exists>r. unat (my_round_up_to_next_power v) = 2 ^ r \<and> unat v \<le> 2 ^ r
           \<and> (\<forall>k. unat v \<le> 2 ^ k \<longrightarrow> r \<le> k)"
proof (cases "v = 1")
  case True
  then show ?thesis by (intro exI [of _ 0]) (simp add: round_up_eq)
next
  case False
  let ?r = "unat (my_bit_log2_uint32 (v - 1))"
  have gt: "1 < unat v"
    using assms(1) False word_unat_eq_iff [of v 1] by simp
  then have "v \<noteq> 0" by auto
  then have m: "unat (v - 1) = unat v - 1" by (rule unat_minus_one)
  have l: "2 ^ ?r \<le> unat v - 1" "unat v - 1 < 2 ^ Suc ?r"
    using log2_uint32 [of "v - 1"] gt by (auto simp: is_log2_def m)
  from l(1) assms(2) gt have "(2::nat) ^ ?r < 2 ^ 31" by linarith
  then have "Suc ?r \<le> 31" by (rule Suc_leI [OF two_power_lessD])
  then have "unat (2 ^ Suc ?r :: 32 word) = 2 ^ Suc ?r" by (intro unat_two_power) simp
  then have "unat (my_round_up_to_next_power v) = 2 ^ Suc ?r"
    using False by (simp add: round_up_eq)
  moreover have "unat v \<le> 2 ^ Suc ?r" using l(2) by linarith
  moreover have "Suc ?r \<le> k" if "unat v \<le> 2 ^ k" for k
  proof -
    from l(1) gt that have "(2::nat) ^ ?r < 2 ^ k" by linarith
    then show ?thesis by (rule Suc_leI [OF two_power_lessD])
  qed
  ultimately show ?thesis by blast
qed

lemma round_up_zero: "my_round_up_to_next_power 0 = 0"
  by code_simp

lemma round_up_overflow:
  assumes "2 ^ 31 < unat v"
  shows "my_round_up_to_next_power v = 0"
proof -
  have "v \<noteq> 0" using assms by auto
  then have m: "unat (v - 1) = unat v - 1" by (rule unat_minus_one)
  let ?r = "unat (my_bit_log2_uint32 (v - 1))"
  have l: "is_log2 (unat v - 1) ?r" using log2_uint32 [of "v - 1"] by (simp add: m)
  have "unat v - 1 < 2 ^ 32" using unat_less_2p [of v] by simp
  with l have "?r < 32" by (rule is_log2_bound) simp
  moreover have "unat v - 1 < 2 ^ Suc ?r" using l assms by (simp add: is_log2_def)
  moreover from this assms have "(2::nat) ^ 31 < 2 ^ Suc ?r" by linarith
  then have "31 < Suc ?r" by (rule two_power_lessD)
  ultimately have "?r = 31" by linarith
  moreover have "v \<noteq> 1" using assms by auto
  ultimately show ?thesis by (simp add: round_up_eq)
qed

text \<open>Clearing the highest bit removes exactly the bit the logarithm finds.\<close>

lemma clear_highest_bit_iff:
  "bit (my_clear_highest_bit v) i \<longleftrightarrow> bit v i \<and> (\<exists>j>i. bit v j)"
proof -
  define u where "u = drop_bit 1 v"
  have "my_clear_highest_bit v = v AND (let w = u OR drop_bit 1 u; w = w OR drop_bit 2 w;
      w = w OR drop_bit 4 w; w = w OR drop_bit 8 w in w OR drop_bit 16 w)"
    by (simp add: my_clear_highest_bit_def u_def Let_def)
  moreover have "(\<exists>j. i \<le> j \<and> j < i + 32 \<and> bit u j) \<longleftrightarrow> (\<exists>j>i. bit v j)" 
  proof
    assume "\<exists>j. i \<le> j \<and> j < i + 32 \<and> bit u j"
    then show "\<exists>j>i. bit v j" by (auto simp: u_def bit_simps) (metis less_Suc_eq_le)
  next
    assume "\<exists>j>i. bit v j"
    then obtain j where "bit v (Suc j)" "i \<le> j" by (metis less_imp_Suc_add less_iff_Suc_add le_add1)
    moreover from this have "j < 32" using bit_imp_le_length [of v "Suc j"] by simp
    ultimately show "\<exists>j. i \<le> j \<and> j < i + 32 \<and> bit u j" by (auto simp: u_def bit_simps)
  qed
  ultimately show ?thesis
    using smeared_steps [of u] by (simp add: smeared_def bit_simps)
qed

section \<open>Reversing the bits\<close>

text \<open>The table of reversed bytes is defined outside the repository; it is a parameter.\<close>

definition my_reverse_bits :: "(nat \<Rightarrow> uchar) \<Rightarrow> uint32 \<Rightarrow> uint32" where
  "my_reverse_bits table key =
     push_bit 24 (ucast (table (unat (key AND 255)))) OR push_bit 16 (ucast (table (unat (drop_bit 8 key AND 255)))) OR
     push_bit 8 (ucast (table (unat (drop_bit 16 key AND 255)))) OR ucast (table (unat (drop_bit 24 key)))"

definition reverses_bytes :: "(nat \<Rightarrow> uchar) \<Rightarrow> bool" where
  "reverses_bytes table \<longleftrightarrow> (\<forall>b < 256. \<forall>i < 8. bit (table b) i \<longleftrightarrow> bit b (7 - i))"

lemma reversed_byte:
  fixes v :: uint32
  assumes "reverses_bytes table" and "unat v < 256" and "i < 8"
  shows "bit (table (unat v)) i \<longleftrightarrow> bit v (7 - i)"
  using assms by (simp add: reverses_bytes_def bit_unsigned_iff)

lemma unat_byte: "unat (v AND 255) < 256" "unat (drop_bit 24 v) < 256" for v :: uint32
proof -
  have "v AND 255 = take_bit 8 v" by (simp add: take_bit_eq_mask mask_eq_exp_minus_1)
  then have "unat (v AND 255) = take_bit 8 (unat v)" by (simp add: unsigned_take_bit_eq)
  then show "unat (v AND 255) < 256" using take_bit_nat_less_exp [of 8 "unat v"] by simp
  show "unat (drop_bit 24 v) < 256" using unat_less_2p [of v] by (simp add: unat_drop_bit less_mult_imp_div_less)
qed

text \<open>With a table of reversed bytes the bits of the number are those of the argument in the opposite order.\<close>

lemma reverse_bits_reverses:
  assumes t: "reverses_bytes table" and i: "i < 32"
  shows "bit (my_reverse_bits table key) i \<longleftrightarrow> bit key (31 - i)"
proof -
  have low: "bit (255 :: uint32) j \<longleftrightarrow> j < 8" for j using bit_mask_iff [where 'a = "32 word", of 8 j] by (auto simp: mask_eq_exp_minus_1)
  have b: "bit (table (unat (drop_bit k key AND 255))) j \<longleftrightarrow> bit key (k + (7 - j))" if "j < 8" "k \<le> 24" for j k
    using reversed_byte [OF t unat_byte(1) [of "drop_bit k key"] that(1)] low [of "7 - j"] that less_imp_diff_less [of 7 8 j]
    by (simp add: bit_and_iff bit_drop_bit_eq)
  have h: "bit (table (unat (drop_bit 24 key))) j \<longleftrightarrow> bit key (31 - j)" if "j < 8" for j
    using reversed_byte [OF t unat_byte(2) that] that by (simp add: bit_simps)
  have out: "\<not> bit (table x) j" if "8 \<le> j" for x j using that bit_imp_le_length [of "table x" j] by auto
  consider "i < 8" | "8 \<le> i" "i < 16" | "16 \<le> i" "i < 24" | "24 \<le> i" using i by linarith
  then show ?thesis
  proof cases
    case 1
    then show ?thesis using h [of i] by (simp add: my_reverse_bits_def bit_simps)
  next
    case 2
    then show ?thesis using b [of "i - 8" 16] out i less_imp_diff_less [OF i, of 8] by (simp add: my_reverse_bits_def bit_simps)
  next
    case 3
    then show ?thesis using b [of "i - 16" 8] out i less_imp_diff_less [OF i, of 16] by (simp add: my_reverse_bits_def bit_simps)
  next
    case 4
    then show ?thesis using b [of "i - 24" 0] out i less_imp_diff_less [OF i, of 24] by (simp add: my_reverse_bits_def bit_simps)
  qed
qed

lemma reverse_bits_involution: "reverses_bytes table \<Longrightarrow> my_reverse_bits table (my_reverse_bits table key) = key"
  by (rule bit_word_eqI) (simp add: reverse_bits_reverses)

section \<open>Masks and sizes\<close>

definition my_set_bits :: "nat \<Rightarrow> ulonglong" where
  "my_set_bits n = push_bit 1 (push_bit (n - 1) 1 - 1) OR 1"

definition last_byte_mask :: "uint \<Rightarrow> uchar" where
  "last_byte_mask bits =
     (let used = (bits - 1) AND 7
      in ucast (push_bit (unat used) (2 :: uint) - 1))"

definition my_bits_in_bytes :: "uint \<Rightarrow> uint" where
  "my_bits_in_bytes n = (n + 7) div 8"

lemma my_set_bits_mask:
  assumes "1 \<le> n" and "n \<le> 64"
  shows "my_set_bits n = mask n"
proof -
  have "push_bit (n - 1) 1 - 1 = (mask (n - 1) :: 64 word)"
    by (simp add: mask_eq_exp_minus_1 push_bit_eq_mult)
  then have "my_set_bits n = push_bit 1 (mask (n - 1)) OR 1" by (simp only: my_set_bits_def)
  also have "\<dots> = mask n"
    by (rule bit_word_eqI)
      (use assms in \<open>auto simp only: bit_or_iff bit_push_bit_iff bit_mask_iff bit_1_iff possible_bit_word\<close>)
  finally show ?thesis .
qed

text \<open>The mask of the significant bits of the last byte of a bitmap of \<open>bits\<close> bits.\<close>

lemma last_byte_mask_eq: "last_byte_mask bits = mask (Suc (unat ((bits - 1) AND 7)))"
proof -
  have e: "(7 :: uint) = mask 3" by code_simp
  have "unat ((bits - 1) AND 7) < 8"
    using take_bit_same_iff [of 3 "(bits - 1) AND 7"] by (simp add: take_bit_eq_mask e)
  moreover have "list_all (\<lambda>k. ucast (push_bit k (2 :: uint) - 1) = (mask (Suc k) :: uchar)) [0..<8]"
    by code_simp
  ultimately show ?thesis
    using all_below [of _ 8 "unat ((bits - 1) AND 7)"] by (simp add: last_byte_mask_def Let_def)
qed

section \<open>Lowest set bit\<close>

definition last_bit :: "uint list" where
  "last_bit = [32, 0, 1, 0, 2, 0, 1, 0, 3, 0, 1, 0, 2, 0, 1, 0]"

partial_function (option) find_first_loop :: "ulonglong \<Rightarrow> nat \<Rightarrow> uint option" where
  "find_first_loop n shift =
     (if 64 \<le> shift then None
      else let bit = last_bit ! unat (drop_bit shift n AND 0xF)
           in if bit = 32 then find_first_loop n (shift + 4) else Some (of_nat shift + bit))"

definition my_find_first_bit :: "ulonglong \<Rightarrow> uint option" where
  "my_find_first_bit n = (if n = 0 then Some 64 else find_first_loop n 0)"

text \<open>The table holds, for a non-zero hex digit, the position of its lowest set bit.\<close>

lemma last_bit_spec:
  fixes d :: ulonglong
  assumes "unat d < 16" and "d \<noteq> 0"
  shows "\<exists>p<4. last_bit ! unat d = of_nat p \<and> bit d p \<and> (\<forall>q<p. \<not> bit d q)"
proof -
  have "list_all (\<lambda>n. n = 0 \<or> list_ex (\<lambda>p. last_bit ! n = of_nat p \<and> bit (of_nat n :: ulonglong) p
      \<and> list_all (\<lambda>q. \<not> bit (of_nat n :: ulonglong) q) [0..<p]) [0..<4]) [0..<16]"
    by code_simp
  from all_below [OF this assms(1)] assms(2) show ?thesis
    by (auto simp: list_ex_iff list_all_iff Bex_def unat_eq_0)
qed

lemma nibble_bit: "bit (drop_bit s n AND 0xF) i \<longleftrightarrow> i < 4 \<and> bit n (s + i)" for n :: ulonglong
proof -
  have e: "(0xF :: ulonglong) = mask 4" by code_simp
  show ?thesis unfolding e by (auto simp: bit_simps dest: bit_imp_le_length)
qed

lemma nibble_small: "unat (drop_bit s n AND 0xF) < 16" for n :: ulonglong
proof -
  have "(0xF :: ulonglong) = mask 4" by code_simp
  then show ?thesis
    using take_bit_same_iff [of 4 "drop_bit s n AND 0xF"] by (simp add: take_bit_eq_mask)
qed

text \<open>The loop returns, and returns the least set bit at or above the shift.\<close>

lemma find_first_loop_least:
  assumes "\<forall>j<4 * k. \<not> bit n j" and "bit n m" and "\<forall>j<m. \<not> bit n j" and "m < 64"
  shows "find_first_loop n (4 * k) = Some (of_nat m)"
  using assms(1)
proof (induction "m - 4 * k" arbitrary: k rule: less_induct)
  case less
  have le: "4 * k \<le> m" using less.prems assms(2) by (meson linorder_not_less)
  let ?d = "drop_bit (4 * k) n AND 0xF"
  show ?case
  proof (cases "?d = 0")
    case True
    then have z: "\<not> bit n (4 * k + i)" if "i < 4" for i
      using nibble_bit [of "4 * k" n i] that by simp
    have all: "\<forall>j<4 * Suc k. \<not> bit n j"
    proof (intro allI impI)
      fix j assume "j < 4 * Suc k"
      then show "\<not> bit n j"
        using less.prems z [of "j - 4 * k"] by (cases "j < 4 * k") auto
    qed
    with assms(2) have "4 * Suc k \<le> m" by (meson linorder_not_less)
    then have "find_first_loop n (4 * Suc k) = Some (of_nat m)"
      by (intro less.hyps all) arith
    moreover have "last_bit ! 0 = 32" by (simp add: last_bit_def)
    ultimately show ?thesis
      using True le assms(4) by (subst find_first_loop.simps) (simp add: Let_def add.commute)
  next
    case False
    obtain p where p: "p < 4" "last_bit ! unat ?d = of_nat p" "bit ?d p" "\<forall>q<p. \<not> bit ?d q"
      using last_bit_spec [OF nibble_small False] by blast
    have set: "bit n (4 * k + p)" using p(3) nibble_bit by blast
    have low: "\<not> bit n j" if "j < 4 * k + p" for j
    proof (cases "j < 4 * k")
      case True
      then show ?thesis using less.prems by blast
    next
      case False
      with that p(1,4) nibble_bit [of "4 * k" n "j - 4 * k"] show ?thesis by auto
    qed
    have "m = 4 * k + p"
      using set low assms(2,3) by (meson linorder_neqE_nat)
    moreover have "unat (of_nat p :: uint) = p" using p(1) by (intro unat_of_nat_small) simp
    then have "(of_nat p :: uint) \<noteq> 32" using p(1) by auto
    ultimately show ?thesis
      using p(2) assms(4) by (subst find_first_loop.simps) (simp add: Let_def)
  qed
qed

definition lowest_bit :: "ulonglong \<Rightarrow> nat" where
  "lowest_bit n = (LEAST i. bit n i)"

lemma find_first_bit_lowest:
  assumes "n \<noteq> 0"
  shows "my_find_first_bit n = Some (of_nat (lowest_bit n))" "bit n (lowest_bit n)"
    "lowest_bit n < 64" "j < lowest_bit n \<Longrightarrow> \<not> bit n j"
proof -
  from assms obtain i where "bit n i" by (auto simp: bit_eq_iff)
  then show b: "bit n (lowest_bit n)" unfolding lowest_bit_def by (rule LeastI)
  show l: "j < lowest_bit n \<Longrightarrow> \<not> bit n j" for j
    unfolding lowest_bit_def by (rule not_less_Least)
  show m: "lowest_bit n < 64" using bit_imp_le_length [OF b] by simp
  show "my_find_first_bit n = Some (of_nat (lowest_bit n))"
    using find_first_loop_least [of 0 n "lowest_bit n"] assms b l m
    by (simp add: my_find_first_bit_def)
qed

section \<open>Properties\<close>

lemma round_up_is_least_power_witness:
  "\<exists>r. unat (my_round_up_to_next_power 1000) = 2 ^ r \<and> unat (1000 :: uint32) \<le> 2 ^ r
     \<and> (\<forall>k. unat (1000 :: uint32) \<le> 2 ^ k \<longrightarrow> r \<le> k)"
  by (rule round_up_is_least_power) simp_all

text \<open>
  The binary logarithms of all widths return the floor of the logarithm, and 0 for 0.
\<close>

theorem log2_floor:
  "is_log2 (unat a) (unat (my_bit_log2_uint8 a)) \<and> is_log2 (unat b) (unat (my_bit_log2_uint16 b))
   \<and> is_log2 (unat c) (unat (my_bit_log2_uint32 c)) \<and> is_log2 (unat d) (unat (my_bit_log2_uint64 d))
   \<and> is_log2 (unat e) (unat (my_bit_log2_size_t e))"
  by (simp add: log2_uint8 log2_uint16 log2_uint32 log2_uint64 my_bit_log2_size_t_def)

text \<open>
  The parallel population count of a 64-bit value is the number of its set bits.
\<close>

theorem count_bits_counts: "unat (my_count_bits x) = card {i. bit x i}"
  by (rule count_bits_card)

text \<open>
  The search for the lowest set bit returns on every input: 64 for 0, and otherwise a position
  whose bit is set and below which no bit is set.
\<close>

theorem find_first_bit_total:
  "\<exists>r. my_find_first_bit n = Some r \<and>
     (if n = 0 then r = 64 else bit n (unat r) \<and> \<not> (\<exists>j. j < unat r \<and> bit n j))"
proof (cases "n = 0")
  case False
  note f = find_first_bit_lowest [OF False]
  have "unat (of_nat (lowest_bit n) :: uint) = lowest_bit n"
    using f(3) by (intro unat_of_nat_small) simp
  with False f show ?thesis by auto
qed (simp add: my_find_first_bit_def)

end
