(* ===== verification/Bit_Store.thy ===== *)
theory Bit_Store
  imports Prelude
begin

text \<open>
  The interface both bitmap classes of the server offer, and the array of 64-bit words they are
  built on. \<open>arr_bit ws i\<close> reads bit \<open>i\<close> of an array of words; the locale \<open>bit_store\<close> is the
  contract of set, clear and test, from which the set-valued behaviour of any sequence of calls
  follows once for both classes. \<open>bit_algebra\<close> extends it with the operations on two bitmaps.
\<close>

section \<open>Arrays of words\<close>

definition arr_bit :: "ulonglong list \<Rightarrow> nat \<Rightarrow> bool" where
  "arr_bit ws i \<longleftrightarrow> bit (ws ! (i div 64)) (i mod 64)"

lemma arr_bit_or:
  assumes "n div 64 < length ws"
  shows "arr_bit (ws[n div 64 := ws ! (n div 64) OR push_bit (n mod 64) 1]) m \<longleftrightarrow> m = n \<or> arr_bit ws m"
proof (cases "m div 64 = n div 64")
  case True
  then have "m = n \<longleftrightarrow> m mod 64 = n mod 64" by (metis div_mult_mod_eq)
  with True assms show ?thesis by (auto simp: arr_bit_def bit_simps)
qed (auto simp: arr_bit_def nth_list_update)

lemma arr_bit_and_not:
  assumes "n div 64 < length ws"
  shows "arr_bit (ws[n div 64 := ws ! (n div 64) AND NOT (push_bit (n mod 64) 1)]) m \<longleftrightarrow>
    m \<noteq> n \<and> arr_bit ws m"
proof (cases "m div 64 = n div 64")
  case True
  then have "m = n \<longleftrightarrow> m mod 64 = n mod 64" by (metis div_mult_mod_eq)
  with True assms show ?thesis by (auto simp: arr_bit_def bit_simps)
qed (auto simp: arr_bit_def nth_list_update)

lemma arr_bit_xor:
  assumes "n div 64 < length ws"
  shows "arr_bit (ws[n div 64 := ws ! (n div 64) XOR push_bit (n mod 64) 1]) m \<longleftrightarrow>
    (if m = n then \<not> arr_bit ws m else arr_bit ws m)"
proof (cases "m div 64 = n div 64")
  case True
  then have "m = n \<longleftrightarrow> m mod 64 = n mod 64" by (metis div_mult_mod_eq)
  with True assms show ?thesis by (auto simp: arr_bit_def bit_simps)
qed (auto simp: arr_bit_def nth_list_update)

lemma bit_one_at: "bit (push_bit k 1 :: ulonglong) i \<longleftrightarrow> i = k \<and> k < 64"
  by (subst push_bit_of_1, subst bit_exp_iff) auto

lemma bit_below_64: "bit x i \<Longrightarrow> i < 64" for x :: ulonglong
  using bit_imp_le_length [of x i] by simp

lemma and_one_bit_neq_0: "w AND push_bit k 1 \<noteq> 0 \<longleftrightarrow> bit w k" for w :: ulonglong
proof -
  have b: "bit (w AND push_bit k 1) i \<longleftrightarrow> i = k \<and> bit w k" for i
    using bit_below_64 [of w k] by (auto simp only: bit_and_iff bit_one_at)
  show ?thesis
  proof
    assume "w AND push_bit k 1 \<noteq> 0"
    then obtain i where "bit (w AND push_bit k 1) i" by (auto simp: bit_eq_iff)
    with b show "bit w k" by blast
  next
    assume "bit w k"
    with b [of k] show "w AND push_bit k 1 \<noteq> 0" by force
  qed
qed

text \<open>Two arrays of the same length agree iff they agree bit by bit.\<close>

lemma arr_bit_ext:
  assumes "length ws = length vs" and "\<And>i. i < 64 * length ws \<Longrightarrow> arr_bit ws i = arr_bit vs i"
  shows "ws = vs"
proof (rule nth_equalityI)
  fix k assume k: "k < length ws"
  show "ws ! k = vs ! k"
  proof (rule bit_word_eqI)
    fix b :: nat assume "b < LENGTH(64)"
    with k assms(2) [of "64 * k + b"] show "bit (ws ! k) b \<longleftrightarrow> bit (vs ! k) b"
      by (simp add: arr_bit_def)
  qed
qed (rule assms(1))

lemma arr_word_0_iff:
  assumes "k < length ws"
  shows "ws ! k = 0 \<longleftrightarrow> (\<forall>b<64. \<not> arr_bit ws (64 * k + b))"
proof -
  have "arr_bit ws (64 * k + b) \<longleftrightarrow> bit (ws ! k) b" if "b < 64" for b
    using that by (simp add: arr_bit_def)
  then have "(\<forall>b<64. \<not> arr_bit ws (64 * k + b)) \<longleftrightarrow> (\<forall>b<64. \<not> bit (ws ! k) b)" by simp
  moreover have "ws ! k = 0 \<longleftrightarrow> (\<forall>b<64. \<not> bit (ws ! k) b)"
    by (auto intro!: bit_word_eqI)
  ultimately show ?thesis by simp
qed

section \<open>The contract of a single bitmap\<close>

locale bit_store =
  fixes valid :: "'s \<Rightarrow> bool"
    and width :: "'s \<Rightarrow> nat"
    and set_b :: "'s \<Rightarrow> nat \<Rightarrow> 's"
    and clear_b :: "'s \<Rightarrow> nat \<Rightarrow> 's"
    and test_b :: "'s \<Rightarrow> nat \<Rightarrow> bool"
  assumes set_valid: "valid s \<Longrightarrow> n < width s \<Longrightarrow> valid (set_b s n) \<and> width (set_b s n) = width s"
    and clear_valid: "valid s \<Longrightarrow> n < width s \<Longrightarrow> valid (clear_b s n) \<and> width (clear_b s n) = width s"
    and test_set: "valid s \<Longrightarrow> n < width s \<Longrightarrow> m < width s \<Longrightarrow>
      test_b (set_b s n) m \<longleftrightarrow> m = n \<or> test_b s m"
    and test_clear: "valid s \<Longrightarrow> n < width s \<Longrightarrow> m < width s \<Longrightarrow>
      test_b (clear_b s n) m \<longleftrightarrow> m \<noteq> n \<and> test_b s m"
begin

definition elems :: "'s \<Rightarrow> nat set" where
  "elems s = {i. i < width s \<and> test_b s i}"

lemma elems_bound: "elems s \<subseteq> {..<width s}"
  by (auto simp: elems_def)

lemma elems_set: "valid s \<Longrightarrow> n < width s \<Longrightarrow> elems (set_b s n) = insert n (elems s)"
  using set_valid by (auto simp: elems_def test_set)

lemma elems_clear: "valid s \<Longrightarrow> n < width s \<Longrightarrow> elems (clear_b s n) = elems s - {n}"
  using clear_valid by (auto simp: elems_def test_clear)

text \<open>A program of set and clear calls computes the set it reads as.\<close>

definition run_op :: "nat \<times> bool \<Rightarrow> 's \<Rightarrow> 's" where
  "run_op c s = (if snd c then set_b s (fst c) else clear_b s (fst c))"

definition abs_op :: "nat \<times> bool \<Rightarrow> nat set \<Rightarrow> nat set" where
  "abs_op c S = (if snd c then insert (fst c) S else S - {fst c})"

lemma run_op_ok:
  "valid s \<Longrightarrow> fst c < width s \<Longrightarrow>
    valid (run_op c s) \<and> width (run_op c s) = width s \<and> elems (run_op c s) = abs_op c (elems s)"
  using set_valid clear_valid by (auto simp: run_op_def abs_op_def elems_set elems_clear)

lemma run_program:
  "valid s \<Longrightarrow> \<forall>c \<in> set cs. fst c < width s \<Longrightarrow>
    valid (fold run_op cs s) \<and> width (fold run_op cs s) = width s
      \<and> elems (fold run_op cs s) = fold abs_op cs (elems s)"
  by (induction cs arbitrary: s) (auto simp: run_op_ok)

end

section \<open>The contract of the operations on two bitmaps\<close>

locale bit_algebra = bit_store +
  fixes merge_b :: "'a \<Rightarrow> 'a \<Rightarrow> 'a"
    and intersect_b :: "'a \<Rightarrow> 'a \<Rightarrow> 'a"
    and subtract_b :: "'a \<Rightarrow> 'a \<Rightarrow> 'a"
    and subset_b :: "'a \<Rightarrow> 'a \<Rightarrow> bool"
    and overlap_b :: "'a \<Rightarrow> 'a \<Rightarrow> bool"
    and eq_b :: "'a \<Rightarrow> 'a \<Rightarrow> bool"
  assumes merge_valid: "valid s \<Longrightarrow> valid t \<Longrightarrow> width s = width t \<Longrightarrow>
      valid (merge_b s t) \<and> width (merge_b s t) = width s"
    and intersect_valid: "valid s \<Longrightarrow> valid t \<Longrightarrow> width s = width t \<Longrightarrow>
      valid (intersect_b s t) \<and> width (intersect_b s t) = width s"
    and subtract_valid: "valid s \<Longrightarrow> valid t \<Longrightarrow> width s = width t \<Longrightarrow>
      valid (subtract_b s t) \<and> width (subtract_b s t) = width s"
    and elems_merge: "valid s \<Longrightarrow> valid t \<Longrightarrow> width s = width t \<Longrightarrow>
      elems (merge_b s t) = elems s \<union> elems t"
    and elems_intersect: "valid s \<Longrightarrow> valid t \<Longrightarrow> width s = width t \<Longrightarrow>
      elems (intersect_b s t) = elems s \<inter> elems t"
    and elems_subtract: "valid s \<Longrightarrow> valid t \<Longrightarrow> width s = width t \<Longrightarrow>
      elems (subtract_b s t) = elems s - elems t"
    and subset_iff: "valid s \<Longrightarrow> valid t \<Longrightarrow> width s = width t \<Longrightarrow>
      subset_b s t \<longleftrightarrow> elems s \<subseteq> elems t"
    and overlap_iff: "valid s \<Longrightarrow> valid t \<Longrightarrow> width s = width t \<Longrightarrow>
      overlap_b s t \<longleftrightarrow> elems s \<inter> elems t \<noteq> {}"
    and eq_iff: "valid s \<Longrightarrow> valid t \<Longrightarrow> width s = width t \<Longrightarrow>
      eq_b s t \<longleftrightarrow> elems s = elems t"
begin

text \<open>The optimizer's identities, whatever the representation.\<close>

lemma subtract_disjoint:
  "valid s \<Longrightarrow> valid t \<Longrightarrow> width s = width t \<Longrightarrow> \<not> overlap_b (subtract_b s t) t"
  using subtract_valid [of s t] by (simp add: overlap_iff elems_subtract) blast

lemma merge_upper:
  "valid s \<Longrightarrow> valid t \<Longrightarrow> width s = width t \<Longrightarrow> subset_b s (merge_b s t) \<and> subset_b t (merge_b s t)"
  using merge_valid [of s t] by (auto simp: subset_iff elems_merge)

lemma split_by_subtract:
  "valid s \<Longrightarrow> valid t \<Longrightarrow> width s = width t \<Longrightarrow>
    eq_b (merge_b (subtract_b s t) (intersect_b s t)) s"
  using subtract_valid [of s t] intersect_valid [of s t] merge_valid [of "subtract_b s t" "intersect_b s t"]
  by (simp add: eq_iff elems_merge elems_subtract elems_intersect) blast

lemma subset_merge_eq:
  "valid s \<Longrightarrow> valid t \<Longrightarrow> width s = width t \<Longrightarrow> subset_b s t \<longleftrightarrow> eq_b (merge_b s t) t"
  using merge_valid [of s t] by (simp add: eq_iff subset_iff elems_merge) blast

end

end
