(* ===== verification/My_Bitmap.thy ===== *)
theory My_Bitmap
  imports Bit_Store
begin

text \<open>
  \<open>my_bitmap.h\<close>: the bitmap of arbitrary size used for column sets. The struct keeps a word array,
  a pointer to its last word (an index here) and the mask of the unused bits of that word. The inline
  operations are modelled on the struct; the functions the header only declares live in a library
  that is not part of the repository and are not modelled. Reading or writing outside the array is
  undefined in C and guarded by \<open>DBUG_ASSERT\<close>; the lemmas carry that assertion.
\<close>

section \<open>The struct and its operations\<close>

record MY_BITMAP =
  bitmap :: "ulonglong list"
  last_word_ptr :: nat
  last_bit_mask :: ulonglong
  n_bits :: uint32
  bitmap_allocated :: bool

definition my_bitmap_buffer_size :: "MY_BITMAP \<Rightarrow> csize" where
  "my_bitmap_buffer_size mp = ((ucast (n_bits mp) + (64 - 1)) AND NOT (64 - 1)) div 8"

definition no_words_in_map :: "MY_BITMAP \<Rightarrow> csize" where
  "no_words_in_map mp = (ucast (n_bits mp) + (64 - 1)) div 64"

definition bitmap_set_bit :: "MY_BITMAP \<Rightarrow> uint \<Rightarrow> MY_BITMAP" where
  "bitmap_set_bit mp b =
     (let k = unat b div 64
      in mp\<lparr>bitmap := (bitmap mp)[k := bitmap mp ! k OR push_bit (unat (b AND 63)) 1]\<rparr>)"

definition bitmap_flip_bit :: "MY_BITMAP \<Rightarrow> uint \<Rightarrow> MY_BITMAP" where
  "bitmap_flip_bit mp b =
     (let k = unat b div 64
      in mp\<lparr>bitmap := (bitmap mp)[k := bitmap mp ! k XOR push_bit (unat (b AND 63)) 1]\<rparr>)"

definition bitmap_clear_bit :: "MY_BITMAP \<Rightarrow> uint \<Rightarrow> MY_BITMAP" where
  "bitmap_clear_bit mp b =
     (let k = unat b div 64
      in mp\<lparr>bitmap := (bitmap mp)[k := bitmap mp ! k AND NOT (push_bit (unat (b AND 63)) 1)]\<rparr>)"

definition bitmap_is_set :: "MY_BITMAP \<Rightarrow> uint \<Rightarrow> bool" where
  "bitmap_is_set mp b \<longleftrightarrow> bitmap mp ! (unat b div 64) AND push_bit (unat (b AND 63)) 1 \<noteq> 0"

text \<open>\<open>memcmp\<close> and \<open>memset\<close> over the buffer: both sizes are whole numbers of words.\<close>

definition bitmap_cmp :: "MY_BITMAP \<Rightarrow> MY_BITMAP \<Rightarrow> bool" where
  "bitmap_cmp mp1 mp2 \<longleftrightarrow>
     (let k = unat (my_bitmap_buffer_size mp1) div 8
      in take k (bitmap mp1) = take k (bitmap mp2))"

definition bitmap_clear_all :: "MY_BITMAP \<Rightarrow> MY_BITMAP" where
  "bitmap_clear_all mp =
     (let k = unat (my_bitmap_buffer_size mp) div 8
      in mp\<lparr>bitmap := replicate k 0 @ drop k (bitmap mp)\<rparr>)"

definition bitmap_set_all :: "MY_BITMAP \<Rightarrow> MY_BITMAP" where
  "bitmap_set_all mp =
     (if n_bits mp \<noteq> 0 then
        let k = unat (no_words_in_map mp - 1);
            ws = replicate k (NOT 0) @ drop k (bitmap mp)
        in mp\<lparr>bitmap := ws[last_word_ptr mp := NOT (last_bit_mask mp)]\<rparr>
      else mp)"

section \<open>Well-formed bitmaps\<close>

text \<open>What \<open>my_bitmap_init\<close> and \<open>create_last_bit_mask\<close> set up, and unused bits kept clear.\<close>

definition bm_size :: "MY_BITMAP \<Rightarrow> nat" where
  "bm_size mp = unat (n_bits mp)"

definition bm_words :: "MY_BITMAP \<Rightarrow> nat" where
  "bm_words mp = (bm_size mp + 63) div 64"

definition bm_valid :: "MY_BITMAP \<Rightarrow> bool" where
  "bm_valid mp \<longleftrightarrow>
     length (bitmap mp) = bm_words mp \<and> last_word_ptr mp = bm_words mp - 1
     \<and> last_bit_mask mp = NOT (mask ((bm_size mp - 1) mod 64 + 1))
     \<and> (\<forall>i \<in> {bm_size mp..<64 * bm_words mp}. \<not> arr_bit (bitmap mp) i)"

lemma bm_size_bound: "bm_size mp < 2 ^ 32"
  using unsigned_less [of "n_bits mp"] by (simp add: bm_size_def)

lemma bm_words_bounds: "bm_size mp \<le> 64 * bm_words mp" "64 * bm_words mp < bm_size mp + 64"
  unfolding bm_words_def by linarith+

lemma no_words: "unat (no_words_in_map mp) = bm_words mp"
proof -
  have "unat (ucast (n_bits mp) :: csize) = bm_size mp"
    using bm_size_bound [of mp] by (simp add: unat_ucast_small bm_size_def)
  moreover from this have "unat ((ucast (n_bits mp) :: csize) + 63) = bm_size mp + 63"
    using bm_size_bound [of mp] by (simp add: unat_word_ariths)
  ultimately show ?thesis by (simp add: no_words_in_map_def bm_words_def unat_div)
qed

lemma unat_and_63: "unat (b AND 63) = unat b mod 64" for b :: uint
proof -
  have e: "(63 :: uint) = mask 6" by code_simp
  show ?thesis unfolding e
    unfolding take_bit_eq_mask [symmetric] unsigned_take_bit_eq by (simp add: take_bit_eq_mod)
qed

lemma buffer_size: "unat (my_bitmap_buffer_size mp) = 8 * bm_words mp"
proof -
  define v where "v = (ucast (n_bits mp) :: csize) + 63"
  have "unat (ucast (n_bits mp) :: csize) = bm_size mp"
    using bm_size_bound [of mp] by (simp add: unat_ucast_small bm_size_def)
  then have v: "unat v = bm_size mp + 63"
    using bm_size_bound [of mp] by (simp add: unat_word_ariths v_def)
  have e: "(63 :: csize) = mask 6" by code_simp
  have "v AND NOT (mask 6) = push_bit 6 (drop_bit 6 v)"
    by (rule bit_word_eqI) (auto simp: bit_simps)
  moreover have "unat (push_bit 6 (drop_bit 6 v)) = 64 * (unat v div 64)"
  proof -
    have "unat v div 64 * 64 \<le> unat v" by simp
    also have "\<dots> < 2 ^ 64" using unsigned_less [of v] by simp
    finally show ?thesis
      by (simp add: push_bit_eq_mult unat_word_ariths unat_drop_bit [of 6 v, simplified])
  qed
  ultimately have "unat (v AND NOT (mask 6)) = 64 * (unat v div 64)" by simp
  then have "unat ((v AND NOT (mask 6)) div 8) = 8 * (unat v div 64)"
    by (simp add: unat_div)
  then show ?thesis
    unfolding my_bitmap_buffer_size_def by (simp add: v_def [symmetric] v bm_words_def flip: e)
qed

lemma bit_index_less: "unat b < bm_size mp \<Longrightarrow> bm_valid mp \<Longrightarrow> unat b div 64 < length (bitmap mp)"
  by (simp add: bm_valid_def bm_words_def)

lemma is_set_arr: "bitmap_is_set mp b \<longleftrightarrow> arr_bit (bitmap mp) (unat b)"
  unfolding bitmap_is_set_def unat_and_63 and_one_bit_neq_0 arr_bit_def ..

lemma my_bitmap_simps: "bitmap (mp\<lparr>bitmap := ws\<rparr>) = ws"
  by simp

lemma bits_after:
  assumes "bm_valid mp" "unat b < bm_size mp"
  shows "arr_bit (bitmap (bitmap_set_bit mp b)) m \<longleftrightarrow> m = unat b \<or> arr_bit (bitmap mp) m"
    and "arr_bit (bitmap (bitmap_clear_bit mp b)) m \<longleftrightarrow> m \<noteq> unat b \<and> arr_bit (bitmap mp) m"
    and "arr_bit (bitmap (bitmap_flip_bit mp b)) m \<longleftrightarrow>
      (if m = unat b then \<not> arr_bit (bitmap mp) m else arr_bit (bitmap mp) m)"
  using arr_bit_or [OF bit_index_less [OF assms(2,1)]]
    arr_bit_and_not [OF bit_index_less [OF assms(2,1)]] arr_bit_xor [OF bit_index_less [OF assms(2,1)]]
  unfolding bitmap_set_bit_def bitmap_clear_bit_def bitmap_flip_bit_def Let_def unat_and_63
    my_bitmap_simps .

lemma frame_after:
  "bm_size (bitmap_set_bit mp b) = bm_size mp" "bm_words (bitmap_set_bit mp b) = bm_words mp"
  "bm_size (bitmap_clear_bit mp b) = bm_size mp" "bm_words (bitmap_clear_bit mp b) = bm_words mp"
  "bm_size (bitmap_flip_bit mp b) = bm_size mp" "bm_words (bitmap_flip_bit mp b) = bm_words mp"
  by (simp_all add: bitmap_set_bit_def bitmap_clear_bit_def bitmap_flip_bit_def bm_size_def
      bm_words_def Let_def)

lemma valid_after:
  assumes "bm_valid mp" "unat b < bm_size mp"
  shows "bm_valid (bitmap_set_bit mp b)" "bm_valid (bitmap_clear_bit mp b)"
    "bm_valid (bitmap_flip_bit mp b)"
proof -
  have l: "length (bitmap (bitmap_set_bit mp b)) = length (bitmap mp)"
    "length (bitmap (bitmap_clear_bit mp b)) = length (bitmap mp)"
    "length (bitmap (bitmap_flip_bit mp b)) = length (bitmap mp)"
    "last_word_ptr (bitmap_set_bit mp b) = last_word_ptr mp"
    "last_word_ptr (bitmap_clear_bit mp b) = last_word_ptr mp"
    "last_word_ptr (bitmap_flip_bit mp b) = last_word_ptr mp"
    "last_bit_mask (bitmap_set_bit mp b) = last_bit_mask mp"
    "last_bit_mask (bitmap_clear_bit mp b) = last_bit_mask mp"
    "last_bit_mask (bitmap_flip_bit mp b) = last_bit_mask mp"
    by (simp_all add: bitmap_set_bit_def bitmap_clear_bit_def bitmap_flip_bit_def Let_def)
  show "bm_valid (bitmap_set_bit mp b)" "bm_valid (bitmap_clear_bit mp b)"
    "bm_valid (bitmap_flip_bit mp b)"
    using assms unfolding bm_valid_def frame_after l by (auto simp: bits_after [OF assms])
qed

section \<open>The contract\<close>

lemma bm_unat_index: "k < bm_size mp \<Longrightarrow> unat (of_nat k :: uint) = k"
  using bm_size_bound [of mp] by (intro unat_of_nat_small) simp

interpretation my_bm: bit_store bm_valid bm_size
  "\<lambda>m n. bitmap_set_bit m (of_nat n)" "\<lambda>m n. bitmap_clear_bit m (of_nat n)"
  "\<lambda>m n. bitmap_is_set m (of_nat n)"
  by unfold_locales (simp_all add: is_set_arr valid_after frame_after bits_after bm_unat_index)

text \<open>The set a bitmap stands for.\<close>

abbreviation bm_set :: "MY_BITMAP \<Rightarrow> nat set" where
  "bm_set \<equiv> my_bm.elems"

lemma bm_set_arr: "bm_set mp = {i. i < bm_size mp \<and> arr_bit (bitmap mp) i}"
  unfolding my_bm.elems_def by (auto simp: is_set_arr bm_unat_index)

lemma flip_bit_set:
  assumes "bm_valid mp" "unat b < bm_size mp"
  shows "bm_set (bitmap_flip_bit mp b) =
    (if unat b \<in> bm_set mp then bm_set mp - {unat b} else insert (unat b) (bm_set mp))"
  using assms(2) by (auto simp: bm_set_arr frame_after bits_after [OF assms])

text \<open>
  Comparing the words of two well-formed bitmaps of the same size compares the sets they stand
  for: the unused bits are clear on both sides.
\<close>

theorem cmp_iff_same_set:
  assumes "bm_valid m1" "bm_valid m2" "n_bits m1 = n_bits m2"
  shows "bitmap_cmp m1 m2 \<longleftrightarrow> bm_set m1 = bm_set m2"
proof -
  have sz: "bm_size m2 = bm_size m1" "bm_words m2 = bm_words m1"
    using assms(3) by (simp_all add: bm_size_def bm_words_def)
  have len: "length (bitmap m1) = bm_words m1" "length (bitmap m2) = bm_words m1"
    using assms sz by (simp_all add: bm_valid_def)
  then have cmp: "bitmap_cmp m1 m2 \<longleftrightarrow> bitmap m1 = bitmap m2"
    by (simp add: bitmap_cmp_def buffer_size)
  show ?thesis
  proof
    assume "bitmap_cmp m1 m2"
    with cmp sz show "bm_set m1 = bm_set m2" by (simp add: bm_set_arr)
  next
    assume eq: "bm_set m1 = bm_set m2"
    have "arr_bit (bitmap m1) i = arr_bit (bitmap m2) i" if "i < 64 * length (bitmap m1)" for i
    proof (cases "i < bm_size m1")
      case True
      with eq show ?thesis by (auto simp: bm_set_arr sz set_eq_iff)
    next
      case False
      with that assms show ?thesis by (simp add: bm_valid_def sz len)
    qed
    with len cmp show "bitmap_cmp m1 m2" by (simp add: arr_bit_ext)
  qed
qed

section \<open>Clearing and filling\<close>

lemma clear_all_words: "bm_valid mp \<Longrightarrow> bitmap (bitmap_clear_all mp) = replicate (bm_words mp) 0"
  by (simp add: bitmap_clear_all_def Let_def buffer_size bm_valid_def)

lemma arr_bit_zero: "i < 64 * k \<Longrightarrow> \<not> arr_bit (replicate k 0) i"
  by (simp add: arr_bit_def)

lemma clear_all_empty:
  assumes "bm_valid mp"
  shows "bm_valid (bitmap_clear_all mp)" "bm_set (bitmap_clear_all mp) = {}"
proof -
  have f: "bm_size (bitmap_clear_all mp) = bm_size mp" "bm_words (bitmap_clear_all mp) = bm_words mp"
    "last_word_ptr (bitmap_clear_all mp) = last_word_ptr mp"
    "last_bit_mask (bitmap_clear_all mp) = last_bit_mask mp"
    by (simp_all add: bitmap_clear_all_def bm_size_def bm_words_def Let_def)
  show "bm_valid (bitmap_clear_all mp)"
    using assms clear_all_words [OF assms] unfolding bm_valid_def f by (auto simp: arr_bit_zero)
  show "bm_set (bitmap_clear_all mp) = {}"
    using bm_words_bounds [of mp] by (auto simp: bm_set_arr f clear_all_words [OF assms] arr_bit_zero)
qed

lemma set_all_words:
  assumes "bm_valid mp" "n_bits mp \<noteq> 0"
  shows "bitmap (bitmap_set_all mp) =
    replicate (bm_words mp - 1) (NOT 0) @ [mask ((bm_size mp - 1) mod 64 + 1)]"
proof -
  have "0 < bm_size mp" using assms(2) by (simp add: bm_size_def unat_gt_0)
  then have w: "0 < bm_words mp" by (simp add: bm_words_def)
  then have "no_words_in_map mp \<noteq> 0" using no_words [of mp] by auto
  then have k: "unat (no_words_in_map mp - 1) = bm_words mp - 1"
    by (simp add: unat_minus_one no_words)
  have "length (drop (bm_words mp - 1) (bitmap mp)) = 1" using assms(1) w by (simp add: bm_valid_def)
  then obtain x where "drop (bm_words mp - 1) (bitmap mp) = [x]"
    by (metis One_nat_def length_0_conv length_Suc_conv)
  moreover have "(replicate k (NOT 0) @ [x])[k := y] = replicate k (NOT 0) @ [y]" for k and y :: ulonglong
    by (simp add: list_update_append)
  ultimately show ?thesis using assms k
    unfolding bitmap_set_all_def Let_def bm_valid_def by (simp del: bit.compl_zero)
qed

lemma set_all_bits:
  assumes "bm_valid mp" "n_bits mp \<noteq> 0" "i < 64 * bm_words mp"
  shows "arr_bit (bitmap (bitmap_set_all mp)) i \<longleftrightarrow> i < bm_size mp"
proof -
  have pos: "0 < bm_size mp" using assms(2) by (simp add: bm_size_def unat_gt_0)
  show ?thesis
  proof (cases "i div 64 < bm_words mp - 1")
    case True
    then have "i < bm_size mp" unfolding bm_words_def by linarith
    with True show ?thesis by (simp add: set_all_words [OF assms(1,2)] arr_bit_def nth_append)
  next
    case False
    with assms(3) have e: "i div 64 = bm_words mp - 1" by linarith
    have "bm_words mp - 1 = (bm_size mp - 1) div 64" using pos unfolding bm_words_def by linarith
    with e have d: "i div 64 = (bm_size mp - 1) div 64" by simp
    have "i mod 64 < (bm_size mp - 1) mod 64 + 1 \<longleftrightarrow> i < bm_size mp"
      using d pos mult_div_mod_eq [of 64 i] mult_div_mod_eq [of 64 "bm_size mp - 1"]
      by (intro iffI) linarith+
    moreover have "arr_bit (bitmap (bitmap_set_all mp)) i \<longleftrightarrow>
        bit (mask ((bm_size mp - 1) mod 64 + 1) :: ulonglong) (i mod 64)"
      using e unfolding set_all_words [OF assms(1,2)] arr_bit_def by (simp only: nth_append length_replicate) simp
    moreover have "\<dots> \<longleftrightarrow> i mod 64 < (bm_size mp - 1) mod 64 + 1"
      by (simp only: bit_mask_iff) simp
    ultimately show ?thesis by simp
  qed
qed

lemma set_all_full:
  assumes "bm_valid mp"
  shows "bm_valid (bitmap_set_all mp)" "bm_set (bitmap_set_all mp) = {..<bm_size mp}"
proof -
  have f: "bm_size (bitmap_set_all mp) = bm_size mp" "bm_words (bitmap_set_all mp) = bm_words mp"
    "last_word_ptr (bitmap_set_all mp) = last_word_ptr mp"
    "last_bit_mask (bitmap_set_all mp) = last_bit_mask mp"
    by (simp_all add: bitmap_set_all_def bm_size_def bm_words_def Let_def)
  have n0: "bm_size mp = 0" if "n_bits mp = 0" using that by (simp add: bm_size_def)
  have l: "length (bitmap (bitmap_set_all mp)) = bm_words mp"
  proof (cases "n_bits mp = 0")
    case False
    then have "0 < bm_size mp" by (simp add: bm_size_def unat_gt_0)
    then have "0 < bm_words mp" by (simp add: bm_words_def)
    with False show ?thesis by (simp add: set_all_words [OF assms])
  qed (use assms in \<open>simp add: bitmap_set_all_def bm_valid_def\<close>)
  show "bm_valid (bitmap_set_all mp)"
    using assms set_all_bits [OF assms] l n0 unfolding bm_valid_def f
    by (cases "n_bits mp = 0") (auto simp: bitmap_set_all_def)
  show "bm_set (bitmap_set_all mp) = {..<bm_size mp}"
    using n0 bm_words_bounds [of mp] set_all_bits [OF assms]
    by (cases "n_bits mp = 0") (auto simp: bm_set_arr f)
qed

section \<open>Properties\<close>

definition example_map :: "ulonglong \<Rightarrow> MY_BITMAP" where
  "example_map v = \<lparr>bitmap = [v], last_word_ptr = 0, last_bit_mask = NOT (mask 10), n_bits = 10,
     bitmap_allocated = True\<rparr>"

lemma example_valid:
  assumes "unat v < 2 ^ 10"
  shows "bm_valid (example_map v)"
  using unat_lt_2p_bit [OF assms]
  by (auto simp: example_map_def bm_valid_def bm_size_def bm_words_def arr_bit_def)

lemma cmp_iff_same_set_witness:
  "bitmap_cmp (example_map 5) (example_map 5) \<longleftrightarrow> bm_set (example_map 5) = bm_set (example_map 5)"
  by (rule cmp_iff_same_set) (simp_all add: example_valid)

text \<open>
  On a well-formed bitmap, set, clear, flip, clear-all and set-all are insertion, removal,
  toggling, the empty set and the full range, and each keeps the bitmap well formed, the bits past
  the end clear included.
\<close>

theorem bitmap_operations:
  assumes "bm_valid mp" "unat b < bm_size mp"
  shows "bm_set (bitmap_set_bit mp b) = insert (unat b) (bm_set mp)
    \<and> bm_set (bitmap_clear_bit mp b) = bm_set mp - {unat b}
    \<and> bm_set (bitmap_flip_bit mp b) =
        (if unat b \<in> bm_set mp then bm_set mp - {unat b} else insert (unat b) (bm_set mp))
    \<and> bm_set (bitmap_clear_all mp) = {} \<and> bm_set (bitmap_set_all mp) = {..<bm_size mp}
    \<and> bm_valid (bitmap_set_bit mp b) \<and> bm_valid (bitmap_clear_bit mp b)
    \<and> bm_valid (bitmap_flip_bit mp b) \<and> bm_valid (bitmap_clear_all mp)
    \<and> bm_valid (bitmap_set_all mp)"
  using my_bm.elems_set [OF assms] my_bm.elems_clear [OF assms] flip_bit_set [OF assms]
    clear_all_empty [OF assms(1)] set_all_full [OF assms(1)] valid_after [OF assms]
  by simp

lemma bitmap_operations_witness:
  "bm_set (bitmap_set_bit (example_map 5) 3) = insert (unat (3 :: uint)) (bm_set (example_map 5))"
  using bitmap_operations [of "example_map 5" 3] example_valid [of 5]
  by (simp add: example_map_def bm_size_def)

end
