(* ===== verification/Sql_Bitmap.thy ===== *)
theory Sql_Bitmap
  imports Bit_Store My_Bit
begin

text \<open>
  \<open>sql_bitmap.h\<close>: the fixed-width bitmap template \<open>Bitmap<width>\<close> (key maps are \<open>Bitmap<64>\<close>),
  the iterator over one word and the iterator over a bitmap. The template parameter is the first
  argument \<open>w\<close> of every operation. Both bitmap contracts are discharged for every width, and the
  iterator is proved to enumerate the set in increasing order.
\<close>

section \<open>Iterator over one word\<close>

record Table_map_iterator =
  bmp :: ulonglong

definition tmi_BITMAP_END :: uint where
  "tmi_BITMAP_END = 64"

definition next_bit :: "Table_map_iterator \<Rightarrow> (uint \<times> Table_map_iterator) option" where
  "next_bit t =
     (if bmp t = 0 then Some (tmi_BITMAP_END, t)
      else Option.bind (my_find_first_bit (bmp t))
        (\<lambda>b. Some (b, t\<lparr>bmp := bmp t AND NOT (push_bit (unat b) 1)\<rparr>)))"

section \<open>The bitmap template\<close>

record Bitmap =
  buffer :: "ulonglong list"

definition ARRAY_ELEMENTS :: "uint \<Rightarrow> nat" where
  "ARRAY_ELEMENTS w = unat ((w + 64 - 1) div 64)"

definition bit_index :: "uint \<Rightarrow> uint \<Rightarrow> nat" where
  "bit_index w n = (if ARRAY_ELEMENTS w = 1 then 0 else unat (n div 64))"

definition bit_mask :: "uint \<Rightarrow> uint \<Rightarrow> ulonglong" where
  "bit_mask w n =
     (if ARRAY_ELEMENTS w = 1 then push_bit (unat n) 1 else push_bit (unat (n mod 64)) 1)"

definition last_element_mask :: "uint \<Rightarrow> uint \<Rightarrow> ulonglong" where
  "last_element_mask w n = bit_mask w n - 1"

text \<open>The loops \<open>for (i = lo; i < hi; i++) buffer[i] = v\<close>, and the element-wise updates.\<close>

definition fill :: "nat \<Rightarrow> nat \<Rightarrow> ulonglong \<Rightarrow> Bitmap \<Rightarrow> Bitmap" where
  "fill lo hi v b = fold (\<lambda>i b. b\<lparr>buffer := (buffer b)[i := v]\<rparr>) [lo..<hi] b"

definition each :: "uint \<Rightarrow> (ulonglong \<Rightarrow> ulonglong \<Rightarrow> ulonglong) \<Rightarrow> Bitmap \<Rightarrow> Bitmap \<Rightarrow> Bitmap" where
  "each w f b m =
     fold (\<lambda>i b. b\<lparr>buffer := (buffer b)[i := f (buffer b ! i) (buffer m ! i)]\<rparr>) [0..<ARRAY_ELEMENTS w] b"

definition bitmap_set :: "uint \<Rightarrow> Bitmap \<Rightarrow> uint \<Rightarrow> Bitmap" where
  "bitmap_set w b n =
     b\<lparr>buffer := (buffer b)[bit_index w n := buffer b ! bit_index w n OR bit_mask w n]\<rparr>"

definition clear_bit :: "uint \<Rightarrow> Bitmap \<Rightarrow> uint \<Rightarrow> Bitmap" where
  "clear_bit w b n =
     b\<lparr>buffer := (buffer b)[bit_index w n := buffer b ! bit_index w n AND NOT (bit_mask w n)]\<rparr>"

definition is_set :: "uint \<Rightarrow> Bitmap \<Rightarrow> uint \<Rightarrow> bool" where
  "is_set w b n \<longleftrightarrow> buffer b ! bit_index w n AND bit_mask w n \<noteq> 0"

definition set_prefix :: "uint \<Rightarrow> uint \<Rightarrow> Bitmap \<Rightarrow> Bitmap" where
  "set_prefix w prefix_size b =
     (let p = min prefix_size w;
          idx = unat (p div 64);
          b = fill 0 idx (NOT 0) b;
          (b, idx) = (if p mod 64 \<noteq> 0
                      then (b\<lparr>buffer := (buffer b)[idx := last_element_mask w p]\<rparr>, idx + 1)
                      else (b, idx))
      in fill idx (ARRAY_ELEMENTS w) 0 b)"

definition is_prefix :: "uint \<Rightarrow> uint \<Rightarrow> Bitmap \<Rightarrow> bool" where
  "is_prefix w p b \<longleftrightarrow>
     (let idx = unat (p div 64)
      in if \<not> list_all (\<lambda>i. buffer b ! i = NOT 0) [0..<idx] then False
         else if p mod 64 \<noteq> 0 \<and> buffer b ! idx \<noteq> last_element_mask w p then False
         else list_all (\<lambda>i. buffer b ! i = 0)
                [(if p mod 64 \<noteq> 0 then idx + 1 else idx)..<ARRAY_ELEMENTS w])"

definition set_all :: "uint \<Rightarrow> Bitmap \<Rightarrow> Bitmap" where
  "set_all w b =
     (if w mod 64 \<noteq> 0 then set_prefix w w b
      else if 1 < ARRAY_ELEMENTS w then fill 0 (ARRAY_ELEMENTS w) (NOT 0) b
      else b\<lparr>buffer := (buffer b)[0 := NOT 0]\<rparr>)"

definition clear_all :: "uint \<Rightarrow> Bitmap \<Rightarrow> Bitmap" where
  "clear_all w b =
     (if 1 < ARRAY_ELEMENTS w then fill 0 (ARRAY_ELEMENTS w) 0 b
      else b\<lparr>buffer := (buffer b)[0 := 0]\<rparr>)"

definition intersect :: "uint \<Rightarrow> Bitmap \<Rightarrow> Bitmap \<Rightarrow> Bitmap" where
  "intersect w b m = each w (\<lambda>x y. x AND y) b m"

definition intersect_and_pad :: "uint \<Rightarrow> Bitmap \<Rightarrow> ulonglong \<Rightarrow> bool \<Rightarrow> Bitmap" where
  "intersect_and_pad w b map2buff pad_with_ones =
     (let b = b\<lparr>buffer := (buffer b)[0 := buffer b ! 0 AND map2buff]\<rparr>;
          b = fill 1 (ARRAY_ELEMENTS w) (if pad_with_ones then NOT 0 else 0) b
      in if 1 < ARRAY_ELEMENTS w \<and> w mod 64 \<noteq> 0 \<and> pad_with_ones
         then b\<lparr>buffer := (buffer b)[ARRAY_ELEMENTS w - 1 := last_element_mask w w]\<rparr>
         else b)"

definition intersect_word :: "uint \<Rightarrow> Bitmap \<Rightarrow> ulonglong \<Rightarrow> Bitmap" where
  "intersect_word w b map2buff = intersect_and_pad w b map2buff False"

definition intersect_extended :: "uint \<Rightarrow> Bitmap \<Rightarrow> ulonglong \<Rightarrow> Bitmap" where
  "intersect_extended w b map2buff =
     intersect_and_pad w b map2buff (map2buff AND push_bit 63 1 \<noteq> 0)"

definition subtract :: "uint \<Rightarrow> Bitmap \<Rightarrow> Bitmap \<Rightarrow> Bitmap" where
  "subtract w b m = each w (\<lambda>x y. x AND NOT y) b m"

definition merge :: "uint \<Rightarrow> Bitmap \<Rightarrow> Bitmap \<Rightarrow> Bitmap" where
  "merge w b m = each w (\<lambda>x y. x OR y) b m"

definition is_clear_all :: "uint \<Rightarrow> Bitmap \<Rightarrow> bool" where
  "is_clear_all w b \<longleftrightarrow> \<not> list_ex (\<lambda>i. buffer b ! i \<noteq> 0) [0..<ARRAY_ELEMENTS w]"

definition is_subset :: "uint \<Rightarrow> Bitmap \<Rightarrow> Bitmap \<Rightarrow> bool" where
  "is_subset w b m \<longleftrightarrow>
     \<not> list_ex (\<lambda>i. buffer b ! i AND NOT (buffer m ! i) \<noteq> 0) [0..<ARRAY_ELEMENTS w]"

definition is_overlapping :: "uint \<Rightarrow> Bitmap \<Rightarrow> Bitmap \<Rightarrow> bool" where
  "is_overlapping w b m \<longleftrightarrow>
     list_ex (\<lambda>i. buffer b ! i AND buffer m ! i \<noteq> 0) [0..<ARRAY_ELEMENTS w]"

definition eq_bitmap :: "uint \<Rightarrow> Bitmap \<Rightarrow> Bitmap \<Rightarrow> bool" where
  "eq_bitmap w b m \<longleftrightarrow>
     (if 1 < ARRAY_ELEMENTS w then buffer b = buffer m else buffer b ! 0 = buffer m ! 0)"

definition neq_bitmap :: "uint \<Rightarrow> Bitmap \<Rightarrow> Bitmap \<Rightarrow> bool" where
  "neq_bitmap w b m \<longleftrightarrow> \<not> eq_bitmap w b m"

definition to_ulonglong :: "Bitmap \<Rightarrow> ulonglong" where
  "to_ulonglong b = buffer b ! 0"

definition bits_set :: "uint \<Rightarrow> Bitmap \<Rightarrow> uint" where
  "bits_set w b = fold (\<lambda>i res. res + my_count_bits (buffer b ! i)) [0..<ARRAY_ELEMENTS w] 0"

section \<open>The bitmap iterator\<close>

record Iterator =
  offset :: uint
  tmi :: Table_map_iterator

definition iterator :: "Bitmap \<Rightarrow> Iterator" where
  "iterator m = \<lparr>offset = 0, tmi = \<lparr>bmp = buffer m ! 0\<rparr>\<rparr>"

partial_function (option) iter_next :: "uint \<Rightarrow> Bitmap \<Rightarrow> Iterator \<Rightarrow> (uint \<times> Iterator) option" where
  "iter_next w b it =
     (case next_bit (tmi it) of
        None \<Rightarrow> None
      | Some (nextbit, t) \<Rightarrow>
          if nextbit \<noteq> tmi_BITMAP_END then Some (offset it + nextbit, it\<lparr>tmi := t\<rparr>)
          else if w \<le> offset it + 64 then Some (w, it\<lparr>tmi := t\<rparr>)
          else iter_next w b \<lparr>offset = offset it + 64,
                              tmi = \<lparr>bmp = buffer b ! unat ((offset it + 64) div 64)\<rparr>\<rparr>)"

text \<open>A caller's loop \<open>while ((i = it++) != BITMAP_END)\<close>, with the values it sees.\<close>

fun iter_collect :: "nat \<Rightarrow> uint \<Rightarrow> Bitmap \<Rightarrow> Iterator \<Rightarrow> uint list option" where
  "iter_collect 0 w b it = None"
| "iter_collect (Suc fuel) w b it =
     (case iter_next w b it of
        None \<Rightarrow> None
      | Some (r, it') \<Rightarrow> if r = w then Some [] else map_option ((#) r) (iter_collect fuel w b it'))"

section \<open>Printing\<close>

text \<open>
  \<open>longlong2str\<close> is not part of the repository: \<open>l2s\<close> gives the digits it writes. A shift of a 64-bit
  value by 64 or more is undefined and is the value \<open>None\<close>. The buffer is the list of the characters
  written so far, from its start.
\<close>

definition dig_vec_upper :: string where
  "dig_vec_upper = ''0123456789ABCDEFGHIJKLMNOPQRSTUVWXYZ''"

definition put_at :: "nat \<Rightarrow> string \<Rightarrow> string \<Rightarrow> string" where
  "put_at pos s buf = take pos buf @ s @ drop (pos + length s) buf"

fun print_digits :: "nat \<Rightarrow> ulonglong \<Rightarrow> nat \<Rightarrow> nat \<Rightarrow> string \<Rightarrow> string option" where
  "print_digits 0 num shift pos buf = Some buf"
| "print_digits (Suc j) num shift pos buf =
     (if 64 \<le> shift then None
      else print_digits j num (shift + 4) (pos + 1)
             (put_at pos [dig_vec_upper ! unat (drop_bit shift num AND 0xf)] buf))"

fun last_nonzero :: "ulonglong list \<Rightarrow> nat \<Rightarrow> nat" where
  "last_nonzero ws 0 = 0"
| "last_nonzero ws (Suc k) = (if ws ! Suc k = 0 then last_nonzero ws k else Suc k)"

definition print_word :: "Bitmap \<Rightarrow> nat \<Rightarrow> string option \<Rightarrow> string option" where
  "print_word b i r =
     (case r of None \<Rightarrow> None | Some buf \<Rightarrow> print_digits 16 (buffer b ! i) (64 - 4) (i * 16) buf)"

definition print :: "uint \<Rightarrow> (ulonglong \<Rightarrow> string) \<Rightarrow> Bitmap \<Rightarrow> string \<Rightarrow> string option" where
  "print w l2s b buf =
     (let last = last_nonzero (buffer b) (ARRAY_ELEMENTS w - 1)
      in case fold (print_word b) [0..<last] (Some buf) of
           None \<Rightarrow> None
         | Some buf \<Rightarrow> Some (put_at 0 (l2s (buffer b ! last) @ [CHR 0x00]) buf))"

section \<open>Well-formed bitmaps\<close>

definition bmp_valid :: "uint \<Rightarrow> Bitmap \<Rightarrow> bool" where
  "bmp_valid w b \<longleftrightarrow>
     unat w + 63 < 2 ^ 32 \<and> length (buffer b) = ARRAY_ELEMENTS w
     \<and> (\<forall>i \<in> {unat w..<64 * ARRAY_ELEMENTS w}. \<not> arr_bit (buffer b) i)"

lemma elements: "unat w + 63 < 2 ^ 32 \<Longrightarrow> ARRAY_ELEMENTS w = (unat w + 63) div 64"
  by (simp add: ARRAY_ELEMENTS_def unat_div unat_word_ariths)

lemma elements_bounds:
  assumes "unat w + 63 < 2 ^ 32"
  shows "unat w \<le> 64 * ARRAY_ELEMENTS w" "64 * ARRAY_ELEMENTS w < unat w + 64"
  unfolding elements [OF assms] by linarith+

lemma index_and_mask:
  assumes "unat w + 63 < 2 ^ 32" "unat n < 64 * ARRAY_ELEMENTS w"
  shows "bit_index w n = unat n div 64" "bit_mask w n = push_bit (unat n mod 64) 1"
proof -
  have "unat n div 64 = 0 \<and> unat n mod 64 = unat n" if "ARRAY_ELEMENTS w = 1"
    using assms(2) that by simp
  then show "bit_index w n = unat n div 64" "bit_mask w n = push_bit (unat n mod 64) 1"
    by (auto simp: bit_index_def bit_mask_def unat_div unat_mod)
qed

lemma index_less:
  assumes "bmp_valid w b" "n < unat w"
  shows "n div 64 < length (buffer b)"
  using assms elements_bounds [of w] by (simp add: bmp_valid_def)

lemma index_and_mask_valid:
  assumes "bmp_valid w b" "unat n < unat w"
  shows "bit_index w n = unat n div 64" "bit_mask w n = push_bit (unat n mod 64) 1"
  using assms elements_bounds [of w] by (simp_all add: index_and_mask bmp_valid_def)

lemma buffer_update: "buffer (b\<lparr>buffer := ws\<rparr>) = ws"
  by simp

lemma single_bits:
  assumes "bmp_valid w b" "unat n < unat w"
  shows "is_set w b n \<longleftrightarrow> arr_bit (buffer b) (unat n)"
    and "arr_bit (buffer (bitmap_set w b n)) m \<longleftrightarrow> m = unat n \<or> arr_bit (buffer b) m"
    and "arr_bit (buffer (clear_bit w b n)) m \<longleftrightarrow> m \<noteq> unat n \<and> arr_bit (buffer b) m"
    and "length (buffer (bitmap_set w b n)) = length (buffer b)"
    and "length (buffer (clear_bit w b n)) = length (buffer b)"
  unfolding is_set_def bitmap_set_def clear_bit_def index_and_mask_valid [OF assms] buffer_update
    arr_bit_or [OF index_less [OF assms]] arr_bit_and_not [OF index_less [OF assms]]
    and_one_bit_neq_0 length_list_update
  by (rule refl | rule arr_bit_def [symmetric])+

lemma single_valid:
  assumes "bmp_valid w b" "unat n < unat w"
  shows "bmp_valid w (bitmap_set w b n)" "bmp_valid w (clear_bit w b n)"
  using assms by (auto simp: bmp_valid_def single_bits [OF assms])

lemma unat_index:
  fixes w :: uint
  assumes "k < unat w"
  shows "unat (of_nat k :: uint) = k"
proof (rule unat_of_nat_small)
  show "k < 2 ^ LENGTH(32)" using assms unat_less_2p [of w] by (rule less_trans)
qed

interpretation bmp: bit_store "bmp_valid w" "\<lambda>_. unat w" "\<lambda>b n. bitmap_set w b (of_nat n)"
  "\<lambda>b n. clear_bit w b (of_nat n)" "\<lambda>b n. is_set w b (of_nat n)" for w
  by unfold_locales (simp_all add: single_valid single_bits unat_index)

abbreviation bmp_set :: "uint \<Rightarrow> Bitmap \<Rightarrow> nat set" where
  "bmp_set w \<equiv> bmp.elems w"

lemma bmp_set_arr: "bmp_valid w b \<Longrightarrow> bmp_set w b = {i. i < unat w \<and> arr_bit (buffer b) i}"
  unfolding bmp.elems_def by (auto simp: single_bits unat_index)

lemma bmp_set_all_bits:
  assumes "bmp_valid w b"
  shows "bmp_set w b = {i. i < 64 * ARRAY_ELEMENTS w \<and> arr_bit (buffer b) i}"
  using assms elements_bounds [of w] unfolding bmp_set_arr [OF assms] bmp_valid_def by force

section \<open>Operations on two bitmaps\<close>

lemma fold_each:
  "length (buffer b) = k \<Longrightarrow> j \<le> k \<Longrightarrow>
    fold (\<lambda>i b. b\<lparr>buffer := (buffer b)[i := f (buffer b ! i) (g i)]\<rparr>) [0..<j] b =
    b\<lparr>buffer := map (\<lambda>i. if i < j then f (buffer b ! i) (g i) else buffer b ! i) [0..<k]\<rparr>"
proof (induction j)
  case 0
  then show ?case using map_nth [of "buffer b"] by (cases b) simp
next
  case (Suc j)
  let ?m = "\<lambda>j. map (\<lambda>i. if i < j then f (buffer b ! i) (g i) else buffer b ! i) [0..<k]"
  have "(?m j)[j := f (?m j ! j) (g j)] = ?m (Suc j)"
    using Suc.prems by (intro nth_equalityI) (auto simp: nth_list_update)
  with Suc show ?case by simp
qed

lemma each_nth:
  assumes "length (buffer b) = ARRAY_ELEMENTS w"
  shows "length (buffer (each w f b m)) = ARRAY_ELEMENTS w"
    "i < ARRAY_ELEMENTS w \<Longrightarrow> buffer (each w f b m) ! i = f (buffer b ! i) (buffer m ! i)"
  using fold_each [OF assms order_refl, of f "\<lambda>i. buffer m ! i"] by (simp_all add: each_def)

lemma each_bits:
  assumes "length (buffer b) = ARRAY_ELEMENTS w" "i < 64 * ARRAY_ELEMENTS w"
    and "\<And>x y k. k < 64 \<Longrightarrow> bit (f x y) k \<longleftrightarrow> P (bit x k) (bit y k)"
  shows "arr_bit (buffer (each w f b m)) i \<longleftrightarrow> P (arr_bit (buffer b) i) (arr_bit (buffer m) i)"
proof -
  have "i div 64 < ARRAY_ELEMENTS w" using assms(2) by linarith
  then show ?thesis using assms(3) by (simp add: arr_bit_def each_nth [OF assms(1)])
qed

lemma each_set:
  assumes "bmp_valid w b" "bmp_valid w m" "\<not> P False False"
    and "\<And>x y k. k < 64 \<Longrightarrow> bit (f x y) k \<longleftrightarrow> P (bit x k) (bit y k)"
  shows "bmp_valid w (each w f b m)"
    "bmp_set w (each w f b m) = {i. i < unat w \<and> P (i \<in> bmp_set w b) (i \<in> bmp_set w m)}"
proof -
  have l: "length (buffer b) = ARRAY_ELEMENTS w" using assms(1) by (simp add: bmp_valid_def)
  have e: "arr_bit (buffer (each w f b m)) i \<longleftrightarrow> P (arr_bit (buffer b) i) (arr_bit (buffer m) i)"
    if "i < 64 * ARRAY_ELEMENTS w" for i
    by (rule each_bits [OF l that]) (rule assms(4))
  show v: "bmp_valid w (each w f b m)"
    using assms(1-3) by (auto simp: bmp_valid_def e each_nth [OF l])
  have "unat w \<le> 64 * ARRAY_ELEMENTS w" using assms(1) elements_bounds by (simp add: bmp_valid_def)
  then show "bmp_set w (each w f b m) = {i. i < unat w \<and> P (i \<in> bmp_set w b) (i \<in> bmp_set w m)}"
    by (auto simp: bmp_set_arr [OF v] bmp_set_arr [OF assms(1)] bmp_set_arr [OF assms(2)] e)
qed

lemma word_bits_iff:
  fixes P :: "ulonglong \<Rightarrow> ulonglong \<Rightarrow> bool" and Q :: "bool \<Rightarrow> bool \<Rightarrow> bool"
  assumes PQ: "\<And>x y. P x y \<longleftrightarrow> (\<exists>b<64. Q (bit x b) (bit y b))"
  shows "(\<exists>i<k. P (ws ! i) (vs ! i)) \<longleftrightarrow> (\<exists>i<64 * k. Q (arr_bit ws i) (arr_bit vs i))"
proof
  assume "\<exists>i<k. P (ws ! i) (vs ! i)"
  then obtain i where i: "i < k" "P (ws ! i) (vs ! i)" by blast
  from i(2) obtain b where "b < 64" "Q (bit (ws ! i) b) (bit (vs ! i) b)" unfolding PQ by blast
  with i(1) show "\<exists>i<64 * k. Q (arr_bit ws i) (arr_bit vs i)"
    by (intro exI [of _ "64 * i + b"]) (simp add: arr_bit_def)
next
  assume "\<exists>i<64 * k. Q (arr_bit ws i) (arr_bit vs i)"
  then obtain i where i: "i < 64 * k" "Q (arr_bit ws i) (arr_bit vs i)" by blast
  from i(2) have "P (ws ! (i div 64)) (vs ! (i div 64))"
    unfolding PQ arr_bit_def by (intro exI [of _ "i mod 64"]) simp
  moreover have "i div 64 < k" using i(1) by linarith
  ultimately show "\<exists>i<k. P (ws ! i) (vs ! i)" by blast
qed

lemma word_nonzero: "x \<noteq> 0 \<longleftrightarrow> (\<exists>b<64. bit x b)" for x :: ulonglong
  by (auto simp: bit_eq_iff dest: bit_imp_le_length)

lemma subset_of_iff:
  assumes "bmp_valid w b" "bmp_valid w m"
  shows "is_subset w b m \<longleftrightarrow> bmp_set w b \<subseteq> bmp_set w m"
proof -
  have "\<not> is_subset w b m \<longleftrightarrow> (\<exists>i<ARRAY_ELEMENTS w. buffer b ! i AND NOT (buffer m ! i) \<noteq> 0)"
    by (auto simp: is_subset_def list_ex_iff)
  also have "\<dots> \<longleftrightarrow> (\<exists>i<64 * ARRAY_ELEMENTS w. arr_bit (buffer b) i \<and> \<not> arr_bit (buffer m) i)"
    by (rule word_bits_iff) (auto simp: word_nonzero bit_simps)
  finally show ?thesis by (auto simp: bmp_set_all_bits assms)
qed

lemma overlapping_iff:
  assumes "bmp_valid w b" "bmp_valid w m"
  shows "is_overlapping w b m \<longleftrightarrow> bmp_set w b \<inter> bmp_set w m \<noteq> {}"
proof -
  have "is_overlapping w b m \<longleftrightarrow> (\<exists>i<ARRAY_ELEMENTS w. buffer b ! i AND buffer m ! i \<noteq> 0)"
    by (auto simp: is_overlapping_def list_ex_iff)
  also have "\<dots> \<longleftrightarrow> (\<exists>i<64 * ARRAY_ELEMENTS w. arr_bit (buffer b) i \<and> arr_bit (buffer m) i)"
    by (rule word_bits_iff) (auto simp: word_nonzero bit_simps)
  finally show ?thesis by (auto simp: bmp_set_all_bits assms)
qed

lemma clear_all_iff:
  assumes "bmp_valid w b"
  shows "is_clear_all w b \<longleftrightarrow> bmp_set w b = {}"
proof -
  have "\<not> is_clear_all w b \<longleftrightarrow> (\<exists>i<ARRAY_ELEMENTS w. buffer b ! i \<noteq> 0)"
    by (auto simp: is_clear_all_def list_ex_iff)
  also have "\<dots> \<longleftrightarrow> (\<exists>i<64 * ARRAY_ELEMENTS w. arr_bit (buffer b) i)"
    by (rule word_bits_iff) (auto simp: word_nonzero)
  finally show ?thesis by (auto simp: bmp_set_all_bits assms)
qed

lemma eq_bitmap_iff:
  assumes "bmp_valid w b" "bmp_valid w m"
  shows "eq_bitmap w b m \<longleftrightarrow> bmp_set w b = bmp_set w m"
proof -
  have l: "length (buffer b) = ARRAY_ELEMENTS w" "length (buffer m) = ARRAY_ELEMENTS w"
    using assms by (simp_all add: bmp_valid_def)
  have "eq_bitmap w b m \<longleftrightarrow> buffer b = buffer m"
  proof (cases "1 < ARRAY_ELEMENTS w")
    case False
    then have "ARRAY_ELEMENTS w = 0 \<or> ARRAY_ELEMENTS w = 1" by linarith
    with l False show ?thesis by (auto simp: eq_bitmap_def length_Suc_conv)
  qed (simp add: eq_bitmap_def)
  also have "\<dots> \<longleftrightarrow> bmp_set w b = bmp_set w m"
  proof
    assume "bmp_set w b = bmp_set w m"
    then have "arr_bit (buffer b) i = arr_bit (buffer m) i" if "i < 64 * ARRAY_ELEMENTS w" for i
      using that unfolding bmp_set_all_bits [OF assms(1)] bmp_set_all_bits [OF assms(2)] by blast
    with l show "buffer b = buffer m" by (simp add: arr_bit_ext)
  qed (simp add: bmp_set_all_bits assms)
  finally show ?thesis .
qed

lemma merge_set:
  assumes "bmp_valid w b" "bmp_valid w m"
  shows "bmp_valid w (merge w b m)" "bmp_set w (merge w b m) = bmp_set w b \<union> bmp_set w m"
proof -
  note e = each_set [OF assms, of "\<lambda>x y. x \<or> y" "\<lambda>x y. x OR y", folded merge_def]
  show "bmp_valid w (merge w b m)" by (rule e(1)) (simp_all add: bit_or_iff)
  have "bmp_set w (merge w b m) = {i. i < unat w \<and> (i \<in> bmp_set w b \<or> i \<in> bmp_set w m)}"
    by (rule e(2)) (simp_all add: bit_or_iff)
  then show "bmp_set w (merge w b m) = bmp_set w b \<union> bmp_set w m"
    using bmp.elems_bound [of w b] bmp.elems_bound [of w m] by blast
qed

lemma intersect_set:
  assumes "bmp_valid w b" "bmp_valid w m"
  shows "bmp_valid w (intersect w b m)" "bmp_set w (intersect w b m) = bmp_set w b \<inter> bmp_set w m"
proof -
  note e = each_set [OF assms, of "\<lambda>x y. x \<and> y" "\<lambda>x y. x AND y", folded intersect_def]
  show "bmp_valid w (intersect w b m)" by (rule e(1)) (simp_all add: bit_and_iff)
  have "bmp_set w (intersect w b m) = {i. i < unat w \<and> (i \<in> bmp_set w b \<and> i \<in> bmp_set w m)}"
    by (rule e(2)) (simp_all add: bit_and_iff)
  then show "bmp_set w (intersect w b m) = bmp_set w b \<inter> bmp_set w m"
    using bmp.elems_bound [of w b] by blast
qed

lemma subtract_set:
  assumes "bmp_valid w b" "bmp_valid w m"
  shows "bmp_valid w (subtract w b m)" "bmp_set w (subtract w b m) = bmp_set w b - bmp_set w m"
proof -
  note e = each_set [OF assms, of "\<lambda>x y. x \<and> \<not> y" "\<lambda>x y. x AND NOT y", folded subtract_def]
  show "bmp_valid w (subtract w b m)" by (rule e(1)) (simp_all add: bit_and_iff bit_not_iff)
  have "bmp_set w (subtract w b m) = {i. i < unat w \<and> (i \<in> bmp_set w b \<and> i \<notin> bmp_set w m)}"
    by (rule e(2)) (simp_all add: bit_and_iff bit_not_iff)
  then show "bmp_set w (subtract w b m) = bmp_set w b - bmp_set w m"
    using bmp.elems_bound [of w b] by blast
qed

interpretation bmp_alg: bit_algebra "bmp_valid w" "\<lambda>_. unat w" "\<lambda>b n. bitmap_set w b (of_nat n)"
  "\<lambda>b n. clear_bit w b (of_nat n)" "\<lambda>b n. is_set w b (of_nat n)"
  "merge w" "intersect w" "subtract w" "is_subset w" "is_overlapping w" "eq_bitmap w" for w
  by unfold_locales
    (simp_all only: merge_set intersect_set subtract_set subset_of_iff overlapping_iff eq_bitmap_iff simp_thms)

section \<open>Prefixes and fills\<close>

lemma fill_nth:
  "length (buffer (fill lo hi v b)) = length (buffer b)"
  "i < length (buffer b) \<Longrightarrow> buffer (fill lo hi v b) ! i = (if lo \<le> i \<and> i < hi then v else buffer b ! i)"
proof -
  have "length (buffer (fill lo hi v b)) = length (buffer b) \<and>
    (i < length (buffer b) \<longrightarrow> buffer (fill lo hi v b) ! i = (if lo \<le> i \<and> i < hi then v else buffer b ! i))" for i
  proof (induction hi)
    case (Suc hi)
    then show ?case by (auto simp: fill_def nth_list_update less_Suc_eq)
  qed (simp add: fill_def)
  then show "length (buffer (fill lo hi v b)) = length (buffer b)"
    "i < length (buffer b) \<Longrightarrow> buffer (fill lo hi v b) ! i = (if lo \<le> i \<and> i < hi then v else buffer b ! i)"
    by blast+
qed

text \<open>Word \<open>k\<close> of the bitmap whose members are the numbers below \<open>p\<close>.\<close>

definition prefix_word :: "nat \<Rightarrow> nat \<Rightarrow> ulonglong" where
  "prefix_word p k = (if k < p div 64 then NOT 0 else if k = p div 64 then mask (p mod 64) else 0)"

lemma prefix_word_bit:
  assumes "j < 64"
  shows "bit (prefix_word p k) j \<longleftrightarrow> 64 * k + j < p"
proof -
  have p: "p = 64 * (p div 64) + p mod 64" by simp
  consider "k < p div 64" | "k = p div 64" | "p div 64 < k" by linarith
  then show ?thesis
  proof cases
    case 1
    then have "64 * k + j < p" using assms by linarith
    with 1 assms show ?thesis by (simp add: prefix_word_def)
  next
    case 2
    then have "64 * k + j < p \<longleftrightarrow> j < p mod 64" using p by linarith
    with 2 assms show ?thesis by (simp add: prefix_word_def bit_mask_iff)
  next
    case 3
    then have "\<not> 64 * k + j < p" by linarith
    with 3 show ?thesis by (simp add: prefix_word_def)
  qed
qed

lemma prefix_arr_bit:
  "i < 64 * length ws \<Longrightarrow> (\<And>k. k < length ws \<Longrightarrow> ws ! k = prefix_word p k) \<Longrightarrow> arr_bit ws i \<longleftrightarrow> i < p"
  by (simp add: arr_bit_def prefix_word_bit)

lemma last_mask:
  assumes "unat w + 63 < 2 ^ 32" "unat p \<le> unat w" "unat p mod 64 \<noteq> 0"
  shows "last_element_mask w p = mask (unat p mod 64)"
proof -
  have "unat p < 64 * ARRAY_ELEMENTS w" using elements_bounds [OF assms(1)] assms(2,3)
    by (metis le_eq_less_or_eq le_trans mod_mult_self1_is_0)
  then show ?thesis
    by (simp add: last_element_mask_def index_and_mask [OF assms(1)] mask_eq_exp_minus_1)
qed

lemma set_prefix_words:
  assumes "unat w + 63 < 2 ^ 32" "length (buffer b) = ARRAY_ELEMENTS w" "k < ARRAY_ELEMENTS w"
  shows "buffer (set_prefix w n b) ! k = prefix_word (min (unat n) (unat w)) k"
proof -
  let ?p = "min n w"
  have p: "unat ?p = min (unat n) (unat w)" by (simp add: min_def word_le_nat_alt)
  have m: "?p mod 64 = 0 \<longleftrightarrow> unat ?p mod 64 = 0" by (simp add: word_unat_eq_iff unat_mod)
  have le: "unat ?p \<le> unat w" by (simp add: p)
  show ?thesis
  proof (cases "unat ?p mod 64 = 0")
    case True
    with assms m show ?thesis
      unfolding p [symmetric] by (simp add: set_prefix_def Let_def fill_nth prefix_word_def unat_div)
  next
    case False
    then have "?p mod 64 \<noteq> 0" using m by simp
    with assms show ?thesis
      unfolding p [symmetric]
      by (auto simp: set_prefix_def Let_def fill_nth prefix_word_def unat_div nth_list_update
          last_mask [OF assms(1) le False])
  qed
qed

lemma set_prefix_length: "length (buffer (set_prefix w n b)) = length (buffer b)"
  by (simp add: set_prefix_def Let_def fill_nth)

lemma prefix_words_valid:
  assumes "unat w + 63 < 2 ^ 32" "length (buffer b) = ARRAY_ELEMENTS w" "p \<le> unat w"
    and "\<And>k. k < ARRAY_ELEMENTS w \<Longrightarrow> buffer b ! k = prefix_word p k"
  shows "bmp_valid w b" "bmp_set w b = {..<p}"
proof -
  have a: "arr_bit (buffer b) i \<longleftrightarrow> i < p" if "i < 64 * ARRAY_ELEMENTS w" for i
    using prefix_arr_bit [of i "buffer b" p] that assms(2,4) by simp
  with assms show v: "bmp_valid w b" by (auto simp: bmp_valid_def)
  show "bmp_set w b = {..<p}"
    using a assms(3) elements_bounds [OF assms(1)] by (auto simp: bmp_set_all_bits [OF v])
qed

lemma set_prefix_set:
  assumes "unat w + 63 < 2 ^ 32" "length (buffer b) = ARRAY_ELEMENTS w"
  shows "bmp_valid w (set_prefix w n b)" "bmp_set w (set_prefix w n b) = {..<min (unat n) (unat w)}"
  using prefix_words_valid [OF assms(1) _ min.cobounded2 set_prefix_words [OF assms]]
  by (simp_all add: assms(2) set_prefix_length)

lemma set_all_set:
  assumes "unat w + 63 < 2 ^ 32" "length (buffer b) = ARRAY_ELEMENTS w"
  shows "bmp_valid w (set_all w b)" "bmp_set w (set_all w b) = {..<unat w}"
proof -
  have "bmp_valid w (set_all w b) \<and> bmp_set w (set_all w b) = {..<unat w}"
  proof (cases "w mod 64 = 0")
    case False
    then show ?thesis using set_prefix_set [OF assms, of w] by (simp add: set_all_def)
  next
    case True
    then have z: "unat w mod 64 = 0" by (simp add: word_unat_eq_iff unat_mod)
    then obtain q where q: "unat w = 64 * q" by blast
    then have k: "ARRAY_ELEMENTS w = unat w div 64" unfolding elements [OF assms(1)] q by simp
    have "buffer (set_all w b) ! k = prefix_word (unat w) k" if "k < ARRAY_ELEMENTS w" for k
    proof (cases "1 < ARRAY_ELEMENTS w")
      case True
      with that assms k \<open>w mod 64 = 0\<close> show ?thesis by (simp add: set_all_def fill_nth prefix_word_def)
    next
      case False
      with that have "k = 0" by linarith
      with False that assms k \<open>w mod 64 = 0\<close> show ?thesis by (simp add: set_all_def prefix_word_def)
    qed
    moreover have "length (buffer (set_all w b)) = ARRAY_ELEMENTS w"
      using True assms by (simp add: set_all_def fill_nth)
    ultimately show ?thesis using prefix_words_valid [OF assms(1) _ order_refl] by blast
  qed
  then show "bmp_valid w (set_all w b)" "bmp_set w (set_all w b) = {..<unat w}" by blast+
qed

lemma clear_all_set:
  assumes "unat w + 63 < 2 ^ 32" "length (buffer b) = ARRAY_ELEMENTS w"
  shows "bmp_valid w (clear_all w b)" "bmp_set w (clear_all w b) = {}"
proof -
  have "k < ARRAY_ELEMENTS w \<Longrightarrow> buffer (clear_all w b) ! k = prefix_word 0 k" for k
    using assms by (auto simp: clear_all_def fill_nth prefix_word_def)
  moreover have "length (buffer (clear_all w b)) = ARRAY_ELEMENTS w"
    using assms by (simp add: clear_all_def fill_nth)
  ultimately have "bmp_valid w (clear_all w b) \<and> bmp_set w (clear_all w b) = {..<0}"
    using prefix_words_valid [OF assms(1), of "clear_all w b" 0] by blast
  then show "bmp_valid w (clear_all w b)" "bmp_set w (clear_all w b) = {}" by simp_all
qed

lemma split_range: "(d :: nat) \<le> n \<Longrightarrow> (\<forall>k<n. P k) \<longleftrightarrow> (\<forall>k<d. P k) \<and> (\<forall>k \<in> {d..<n}. P k)"
  by (auto simp: not_less)

lemma is_prefix_iff:
  assumes "bmp_valid w b" "unat n \<le> unat w"
  shows "is_prefix w n b \<longleftrightarrow> bmp_set w b = {..<unat n}"
proof -
  have w: "unat w + 63 < 2 ^ 32" and l: "length (buffer b) = ARRAY_ELEMENTS w"
    using assms(1) by (auto simp: bmp_valid_def)
  have m: "n mod 64 = 0 \<longleftrightarrow> unat n mod 64 = 0" by (simp add: word_unat_eq_iff unat_mod)
  have le: "unat n div 64 \<le> ARRAY_ELEMENTS w" using elements_bounds [OF w] assms(2) by linarith
  have d: "unat n div 64 < ARRAY_ELEMENTS w" if "unat n mod 64 \<noteq> 0"
    using elements_bounds [OF w] assms(2) that mult_div_mod_eq [of 64 "unat n"] by linarith
  have "is_prefix w n b \<longleftrightarrow> (\<forall>k<ARRAY_ELEMENTS w. buffer b ! k = prefix_word (unat n) k)"
  proof (cases "unat n mod 64 = 0")
    case True
    then have "prefix_word (unat n) k = (if k < unat n div 64 then NOT 0 else 0)" for k
      by (simp add: prefix_word_def)
    moreover have "is_prefix w n b \<longleftrightarrow> (\<forall>k<unat n div 64. buffer b ! k = NOT 0)
        \<and> (\<forall>k \<in> {unat n div 64..<ARRAY_ELEMENTS w}. buffer b ! k = 0)"
      using True by (simp add: is_prefix_def Let_def m unat_div list_all_iff Ball_def)
    ultimately show ?thesis unfolding split_range [OF le] by simp
  next
    case False
    let ?d = "unat n div 64"
    have "is_prefix w n b \<longleftrightarrow> (\<forall>k<?d. buffer b ! k = NOT 0) \<and> buffer b ! ?d = mask (unat n mod 64)
        \<and> (\<forall>k \<in> {Suc ?d..<ARRAY_ELEMENTS w}. buffer b ! k = 0)"
      using False by (simp add: is_prefix_def Let_def m unat_div list_all_iff Ball_def
          last_mask [OF w assms(2) False])
    then show ?thesis
      unfolding split_range [OF Suc_leI [OF d [OF False]]] All_less_Suc
      by (auto simp: prefix_word_def)
  qed
  also have "\<dots> \<longleftrightarrow> bmp_set w b = {..<unat n}"
  proof
    assume "\<forall>k<ARRAY_ELEMENTS w. buffer b ! k = prefix_word (unat n) k"
    then show "bmp_set w b = {..<unat n}" using prefix_words_valid [OF w l assms(2)] by blast
  next
    assume e: "bmp_set w b = {..<unat n}"
    define c where "c = set_prefix w n b"
    have c: "bmp_valid w c" "bmp_set w c = {..<unat n}"
      using set_prefix_set [OF w l, of n] assms(2) by (simp_all add: c_def min_absorb1)
    have "arr_bit (buffer b) i = arr_bit (buffer c) i" if "i < 64 * ARRAY_ELEMENTS w" for i
      using e c(2) that unfolding bmp_set_all_bits [OF assms(1)] bmp_set_all_bits [OF c(1)] by blast
    then have "buffer b = buffer c" using l by (intro arr_bit_ext) (simp_all add: c_def set_prefix_length)
    then show "\<forall>k<ARRAY_ELEMENTS w. buffer b ! k = prefix_word (unat n) k"
      using set_prefix_words [OF w l, of _ n] assms(2) by (simp add: c_def min_absorb1)
  qed
  finally show ?thesis .
qed

section \<open>Intersecting with one word\<close>

lemma arr_bit_first: "arr_bit ws i \<longleftrightarrow> (if i < 64 then bit (ws ! 0) i else arr_bit ws i)"
  by (simp add: arr_bit_def)

lemma pad_bits:
  assumes "bmp_valid w b" "i < 64 * ARRAY_ELEMENTS w"
  shows "arr_bit (buffer (intersect_and_pad w b m pad)) i \<longleftrightarrow>
    (if i < 64 then bit (buffer b ! 0) i \<and> bit m i else pad \<and> i < unat w)"
proof -
  have w: "unat w + 63 < 2 ^ 32" and l: "length (buffer b) = ARRAY_ELEMENTS w"
    using assms(1) by (auto simp: bmp_valid_def)
  let ?A = "ARRAY_ELEMENTS w"
  have k: "i div 64 < ?A" using assms(2) by linarith
  have m0: "w mod 64 = 0 \<longleftrightarrow> unat w mod 64 = 0" by (simp add: word_unat_eq_iff unat_mod)
  have word: "buffer (intersect_and_pad w b m pad) ! j =
      (if j = 0 then buffer b ! 0 AND m else if pad then prefix_word (unat w) j else 0)"
    if "j < ?A" for j
  proof (cases "j = 0")
    case True
    with that l show ?thesis by (auto simp: intersect_and_pad_def Let_def fill_nth nth_list_update)
  next
    case False
    have eq: "?A = (if unat w mod 64 = 0 then unat w div 64 else Suc (unat w div 64))"
    proof -
      have "unat w = 64 * (unat w div 64) + unat w mod 64" "unat w mod 64 < 64" by simp_all
      then show ?thesis using elements_bounds [OF w] by (split if_split) linarith
    qed
    with False that l last_mask [OF w order_refl] m0 show ?thesis
      by (auto simp: intersect_and_pad_def Let_def fill_nth nth_list_update prefix_word_def less_Suc_eq)
  qed
  show ?thesis
  proof (cases "i < 64")
    case True
    with k show ?thesis by (simp add: arr_bit_def word bit_and_iff)
  next
    case False
    then have "i div 64 \<noteq> 0" by simp
    with k False show ?thesis by (simp add: arr_bit_def word prefix_word_bit)
  qed
qed

lemma pad_length: "length (buffer (intersect_and_pad w b m pad)) = length (buffer b)"
  by (simp add: intersect_and_pad_def Let_def fill_nth)

lemma intersect_and_pad_set:
  assumes "bmp_valid w b"
  shows "bmp_valid w (intersect_and_pad w b m pad)"
    "bmp_set w (intersect_and_pad w b m pad) =
      {i \<in> bmp_set w b. i < 64 \<and> bit m i} \<union> (if pad then {64..<unat w} else {})"
proof -
  have first: "arr_bit (buffer b) i \<longleftrightarrow> bit (buffer b ! 0) i" if "i < 64" for i
    using that by (simp add: arr_bit_def)
  show v: "bmp_valid w (intersect_and_pad w b m pad)"
    using assms by (auto simp: bmp_valid_def pad_length pad_bits [OF assms] simp flip: first)
  have "unat w \<le> 64 * ARRAY_ELEMENTS w" using assms elements_bounds by (simp add: bmp_valid_def)
  then show "bmp_set w (intersect_and_pad w b m pad) =
      {i \<in> bmp_set w b. i < 64 \<and> bit m i} \<union> (if pad then {64..<unat w} else {})"
    by (auto simp: bmp_set_arr [OF v] bmp_set_arr [OF assms] pad_bits [OF assms] first split: if_splits)
qed

lemma intersect_word_set:
  assumes "bmp_valid w b"
  shows "bmp_set w (intersect_word w b m) = bmp_set w b \<inter> {i. bit m i}"
  using intersect_and_pad_set(2) [OF assms, of m False] bit_below_64 [of m]
  unfolding intersect_word_def by auto

lemma intersect_extended_set:
  assumes "bmp_valid w b"
  shows "bmp_set w (intersect_extended w b m) =
    (bmp_set w b \<inter> {i. bit m i}) \<union> (if bit m 63 then {64..<unat w} else {})"
  unfolding intersect_extended_def and_one_bit_neq_0 intersect_and_pad_set(2) [OF assms]
  using bit_below_64 [of m] by auto

section \<open>Counting\<close>

lemma bits_set_sum: "bits_set w b = (\<Sum>i<ARRAY_ELEMENTS w. my_count_bits (buffer b ! i))"
proof -
  have "fold (\<lambda>i res. res + my_count_bits (buffer b ! i)) [0..<k] 0 = (\<Sum>i<k. my_count_bits (buffer b ! i))"
    for k by (induction k) simp_all
  then show ?thesis by (simp add: bits_set_def)
qed

lemma bits_below_card:
  "card {i. i < 64 * k \<and> arr_bit ws i} = (\<Sum>j<k. card {i. bit (ws ! j) i})"
proof (induction k)
  case (Suc k)
  have "{i. i < 64 * Suc k \<and> arr_bit ws i} =
      {i. i < 64 * k \<and> arr_bit ws i} \<union> (\<lambda>i. 64 * k + i) ` {i. bit (ws ! k) i}" (is "_ = ?L \<union> ?H")
  proof (intro equalityI subsetI)
    fix i assume i: "i \<in> {i. i < 64 * Suc k \<and> arr_bit ws i}"
    show "i \<in> ?L \<union> ?H"
    proof (cases "i < 64 * k")
      case False
      then have e: "i = 64 * k + (i - 64 * k)" "i - 64 * k < 64" using i by auto
      then have "i div 64 = k" "i mod 64 = i - 64 * k"
        by (metis add.commute div_less div_mult_self4 mod_less mod_mult_self4 add_0 zero_neq_numeral, metis e mod_less mod_mult_self4)
      with i e(1) show ?thesis unfolding arr_bit_def by (metis (mono_tags, lifting) UnI2 image_eqI mem_Collect_eq)
    qed (use i in auto)
  next
    fix i assume "i \<in> ?L \<union> ?H"
    then show "i \<in> {i. i < 64 * Suc k \<and> arr_bit ws i}"
      using bit_below_64 [of "ws ! k"] by (auto simp: arr_bit_def)
  qed
  moreover have "finite ?L" "finite ?H" "?L \<inter> ?H = {}"
    by (auto intro: finite_subset [of _ "{..<64}"] dest: bit_imp_le_length)
  moreover have "card ?H = card {i. bit (ws ! k) i}" by (simp add: card_image inj_on_def)
  ultimately show ?case using Suc by (simp add: card_Un_disjoint)
qed simp

lemma bits_set_card:
  assumes "bmp_valid w b"
  shows "unat (bits_set w b) = card (bmp_set w b)"
proof -
  have "(\<Sum>i<ARRAY_ELEMENTS w. my_count_bits (buffer b ! i)) =
      of_nat (\<Sum>i<ARRAY_ELEMENTS w. card {j. bit (buffer b ! i) j})"
    unfolding of_nat_sum count_bits_card [symmetric] by simp
  then have e: "bits_set w b = of_nat (card (bmp_set w b))"
    by (simp add: bits_set_sum bmp_set_all_bits [OF assms] bits_below_card)
  have "card (bmp_set w b) \<le> card {..<unat w}"
    by (rule card_mono) (use bmp.elems_bound [of w b] in auto)
  then have "card (bmp_set w b) < 2 ^ 32" using unat_less_2p [of w] by simp
  then show ?thesis unfolding e by (simp add: unat_of_nat_small)
qed

section \<open>The iterator enumerates the set\<close>

text \<open>The members an iterator still has to report, and what one call does with them.\<close>

definition pending :: "Bitmap \<Rightarrow> Iterator \<Rightarrow> nat set" where
  "pending b it =
     (\<lambda>i. unat (offset it) + i) ` {i. bit (bmp (tmi it)) i}
     \<union> {i. unat (offset it) + 64 \<le> i \<and> i < 64 * length (buffer b) \<and> arr_bit (buffer b) i}"

definition iter_ok :: "uint \<Rightarrow> Bitmap \<Rightarrow> Iterator \<Rightarrow> bool" where
  "iter_ok w b it \<longleftrightarrow> bmp_valid w b \<and> unat (offset it) mod 64 = 0 \<and> unat (offset it) < unat w
     \<and> (\<forall>i \<in> pending b it. i < unat w)"

lemma next_bit_none: "bmp t = 0 \<Longrightarrow> next_bit t = Some (64, t)"
  by (simp add: next_bit_def tmi_BITMAP_END_def)

lemma next_bit_some:
  assumes "bmp t \<noteq> 0"
  shows "next_bit t = Some (of_nat (lowest_bit (bmp t)),
    t\<lparr>bmp := bmp t AND NOT (push_bit (lowest_bit (bmp t)) 1)\<rparr>)"
    "unat (of_nat (lowest_bit (bmp t)) :: uint) = lowest_bit (bmp t)"
proof -
  show u: "unat (of_nat (lowest_bit (bmp t)) :: uint) = lowest_bit (bmp t)"
    using find_first_bit_lowest(3) [OF assms] by (intro unat_of_nat_small) simp
  show "next_bit t = Some (of_nat (lowest_bit (bmp t)),
    t\<lparr>bmp := bmp t AND NOT (push_bit (lowest_bit (bmp t)) 1)\<rparr>)"
    using assms find_first_bit_lowest(1) [OF assms] by (simp add: next_bit_def u del: push_bit_of_1)
qed

lemma clear_lowest: "bit (x AND NOT (push_bit k 1)) i \<longleftrightarrow> bit x i \<and> i \<noteq> k" for x :: ulonglong
  using bit_below_64 [of x] by (auto simp: bit_and_iff bit_not_iff bit_one_at simp del: push_bit_of_1)

lemma iter_offset:
  assumes "iter_ok w b it" "k \<le> 64"
  shows "unat (offset it + of_nat k) = unat (offset it) + k"
proof -
  have "unat (offset it) + k < 2 ^ 32" using assms by (simp add: iter_ok_def bmp_valid_def)
  moreover have "unat (of_nat k :: uint) = k" using assms(2) by (intro unat_of_nat_small) simp
  ultimately show ?thesis by (simp add: unat_word_ariths)
qed

lemma pending_next_word:
  assumes ok: "iter_ok w b it" and zero: "bmp (tmi it) = 0" and more: "unat (offset it) + 64 < unat w"
  defines "it' \<equiv> \<lparr>offset = offset it + 64, tmi = \<lparr>bmp = buffer b ! unat ((offset it + 64) div 64)\<rparr>\<rparr>"
  shows "pending b it' = pending b it" "iter_ok w b it'" "unat (offset it') = unat (offset it) + 64"
proof -
  let ?o = "unat (offset it) + 64"
  show o: "unat (offset it') = ?o" using iter_offset [OF ok, of 64] by (simp add: it'_def)
  have m: "?o mod 64 = 0" using ok by (simp add: iter_ok_def)
  have len: "?o < 64 * length (buffer b)"
    using ok more elements_bounds [of w] by (simp add: iter_ok_def bmp_valid_def)
  from m obtain q where q: "?o = 64 * q" by blast
  then have d: "?o div 64 = q" by simp
  have word: "bit (buffer b ! q) i \<longleftrightarrow> i < 64 \<and> arr_bit (buffer b) (64 * q + i)" for i
    using bit_below_64 [of "buffer b ! q" i] by (auto simp: arr_bit_def)
  have "unat ((offset it + 64) div 64) = q" using o d by (simp add: it'_def unat_div)
  then have "bmp (tmi it') = buffer b ! q" by (simp add: it'_def)
  then have "pending b it' = {i. ?o \<le> i \<and> i < 64 * length (buffer b) \<and> arr_bit (buffer b) i}"
  proof (intro equalityI subsetI)
    fix i assume b: "bmp (tmi it') = buffer b ! q"
      and i: "i \<in> {i. ?o \<le> i \<and> i < 64 * length (buffer b) \<and> arr_bit (buffer b) i}"
    show "i \<in> pending b it'"
    proof (cases "i < ?o + 64")
      case True
      then have "i = ?o + (i - ?o)" "i - ?o < 64" using i by auto
      moreover from this have "bit (buffer b ! q) (i - ?o)" using i by (simp add: word flip: q)
      ultimately show ?thesis unfolding pending_def o b by blast
    next
      case False
      with i show ?thesis by (simp add: pending_def o)
    qed
  next
    fix i assume "bmp (tmi it') = buffer b ! q" "i \<in> pending b it'"
    moreover have "64 * q + j < 64 * length (buffer b)" if "j < 64" for j
    proof -
      have "q < length (buffer b)" using len unfolding q by simp
      with that show ?thesis by linarith
    qed
    ultimately show "i \<in> {i. ?o \<le> i \<and> i < 64 * length (buffer b) \<and> arr_bit (buffer b) i}"
      unfolding pending_def o by (auto simp: word q)
  qed
  then show p: "pending b it' = pending b it" by (auto simp: pending_def zero)
  show "iter_ok w b it'" using ok more m by (simp add: iter_ok_def p o)
qed

lemma iter_step_found:
  assumes ok: "iter_ok w b it" and nz: "bmp (tmi it) \<noteq> 0"
  defines "it' \<equiv> it\<lparr>tmi := \<lparr>bmp = bmp (tmi it) AND NOT (push_bit (lowest_bit (bmp (tmi it))) 1)\<rparr>\<rparr>"
  shows "iter_next w b it = Some (of_nat (Min (pending b it)), it')"
    "Min (pending b it) \<in> pending b it" "pending b it' = pending b it - {Min (pending b it)}"
    "iter_ok w b it'"
proof -
  let ?l = "lowest_bit (bmp (tmi it))"
  note low = find_first_bit_lowest [OF nz]
  have fin: "finite (pending b it)" by (rule finite_subset [of _ "{..<unat w}"]) (use ok in \<open>auto simp: iter_ok_def\<close>)
  have mem: "unat (offset it) + ?l \<in> pending b it" using low(2) by (simp add: pending_def)
  have least: "unat (offset it) + ?l \<le> i" if "i \<in> pending b it" for i
    using that low(3) low(4) by (auto simp: pending_def) (meson not_le)
  have m: "Min (pending b it) = unat (offset it) + ?l" using fin mem least by (intro Min_eqI)
  show "Min (pending b it) \<in> pending b it" using mem by (simp add: m)
  have "offset it + of_nat ?l = of_nat (unat (offset it) + ?l)" by simp
  moreover have "of_nat ?l \<noteq> (64 :: uint)"
    using next_bit_some(2) [OF nz] low(3) by force
  ultimately show "iter_next w b it = Some (of_nat (Min (pending b it)), it')"
    using next_bit_some(1) [OF nz] unfolding m it'_def
    by (subst iter_next.simps) (simp add: tmi_BITMAP_END_def)
  show p: "pending b it' = pending b it - {Min (pending b it)}"
    unfolding m using low(3) by (auto simp: pending_def it'_def clear_lowest simp del: push_bit_of_1)
  show "iter_ok w b it'" using ok unfolding iter_ok_def p by (simp add: it'_def)
qed

text \<open>One call returns: the least pending member and removes it, or the end mark.\<close>

lemma iter_next_spec:
  assumes "iter_ok w b it"
  shows "if pending b it = {} then \<exists>it'. iter_next w b it = Some (w, it')
    else \<exists>it'. iter_next w b it = Some (of_nat (Min (pending b it)), it') \<and> iter_ok w b it'
      \<and> pending b it' = pending b it - {Min (pending b it)}"
  using assms
proof (induction "unat w - unat (offset it)" arbitrary: it rule: less_induct)
  case less
  show ?case
  proof (cases "bmp (tmi it) = 0")
    case False
    with less.prems iter_step_found [OF less.prems False] show ?thesis by auto
  next
    case True
    have o: "unat (offset it + 64) = unat (offset it) + 64" using iter_offset [OF less.prems, of 64] by simp
    show ?thesis
    proof (cases "unat w \<le> unat (offset it) + 64")
      case end_reached: True
      then have "pending b it = {}" using less.prems True by (auto simp: pending_def iter_ok_def)
      moreover have "w \<le> offset it + 64" using end_reached o by (simp add: word_le_nat_alt)
      ultimately show ?thesis
        by (subst iter_next.simps) (simp add: next_bit_none [OF True] tmi_BITMAP_END_def)
    next
      case more: False
      let ?it = "\<lparr>offset = offset it + 64, tmi = \<lparr>bmp = buffer b ! unat ((offset it + 64) div 64)\<rparr>\<rparr>"
      have m: "unat (offset it) + 64 < unat w" using more by simp
      note nw = pending_next_word [OF less.prems True m]
      have "\<not> w \<le> offset it + 64" using m o by (simp add: word_le_nat_alt)
      then have "iter_next w b it = iter_next w b ?it"
        by (subst iter_next.simps) (simp add: next_bit_none [OF True] tmi_BITMAP_END_def)
      moreover have "unat w - unat (offset ?it) < unat w - unat (offset it)" using nw(3) m by linarith
      ultimately show ?thesis using less.hyps [OF _ nw(2)] unfolding nw(1) by presburger
    qed
  qed
qed

lemma iter_collect_pending:
  "iter_ok w b it \<Longrightarrow> card (pending b it) < fuel \<Longrightarrow>
    iter_collect fuel w b it = Some (map of_nat (sorted_list_of_set (pending b it)))"
proof (induction fuel arbitrary: it)
  case (Suc fuel)
  have fin: "finite (pending b it)"
    by (rule finite_subset [of _ "{..<unat w}"]) (use Suc.prems in \<open>auto simp: iter_ok_def\<close>)
  show ?case
  proof (cases "pending b it = {}")
    case True
    from iter_next_spec [OF Suc.prems(1), unfolded if_P [OF True]] obtain it'
      where "iter_next w b it = Some (w, it')" by blast
    with True show ?thesis by simp
  next
    case False
    let ?m = "Min (pending b it)"
    from iter_next_spec [OF Suc.prems(1), unfolded if_not_P [OF False]] obtain it' where it':
      "iter_next w b it = Some (of_nat ?m, it')" "iter_ok w b it'" "pending b it' = pending b it - {?m}"
      by blast
    have m: "?m \<in> pending b it" using fin False by (rule Min_in)
    then have "?m < unat w" using Suc.prems(1) by (simp add: iter_ok_def)
    then have ne: "of_nat ?m \<noteq> w" using unat_index [of ?m w] by auto
    have "card (pending b it') < card (pending b it)"
      unfolding it'(3) using fin m by (rule card_Diff1_less)
    then have "card (pending b it') < fuel" using Suc.prems(2) by linarith
    from Suc.IH [OF it'(2) this] show ?thesis
      unfolding sorted_list_of_set_nonempty [OF fin False] using ne it'(1,3) by simp
  qed
qed simp

lemma iterator_ok:
  assumes "bmp_valid w b" "0 < unat w"
  shows "iter_ok w b (iterator b)" "pending b (iterator b) = bmp_set w b"
proof -
  have l: "length (buffer b) = ARRAY_ELEMENTS w" and w: "unat w \<le> 64 * ARRAY_ELEMENTS w"
    using assms elements_bounds [of w] by (simp_all add: bmp_valid_def)
  have "0 < ARRAY_ELEMENTS w" using w assms(2) by (cases "ARRAY_ELEMENTS w") auto
  then have up: "i < 64 \<Longrightarrow> i < 64 * ARRAY_ELEMENTS w" for i :: nat by linarith
  have first: "bit (buffer b ! 0) i \<longleftrightarrow> i < 64 \<and> arr_bit (buffer b) i" for i
    using bit_below_64 [of "buffer b ! 0" i] by (auto simp: arr_bit_def)
  show p: "pending b (iterator b) = bmp_set w b"
    unfolding pending_def bmp_set_all_bits [OF assms(1)] l
    using up by (auto simp: iterator_def first)
  have "bmp_set w b \<subseteq> {..<unat w}" by (rule bmp.elems_bound)
  then show "iter_ok w b (iterator b)" using assms p by (auto simp: iter_ok_def iterator_def)
qed

text \<open>
  A caller that reads the bitmap iterator until the end mark sees exactly the members, in
  increasing order, and gets to the end mark after as many calls as there are members.
\<close>

theorem iterator_enumerates:
  assumes "bmp_valid w b" "0 < unat w" "card (bmp_set w b) < fuel"
  shows "iter_collect fuel w b (iterator b) = Some (map of_nat (sorted_list_of_set (bmp_set w b)))"
  using iter_collect_pending [of w b "iterator b" fuel] iterator_ok [OF assms(1,2)] assms(3) by simp

section \<open>Printing more than one word is undefined\<close>

lemma print_digits_undefined: "print_digits 16 num 60 pos buf = None"
  by (simp add: numeral_eq_Suc)

lemma print_none:
  assumes "last_nonzero (buffer b) (ARRAY_ELEMENTS w - 1) \<noteq> 0"
  shows "print w l2s b buf = None"
proof -
  have "fold (print_word b) xs None = None" for xs by (induction xs) (simp_all add: print_word_def)
  moreover have "[0..<last_nonzero (buffer b) (ARRAY_ELEMENTS w - 1)] =
      0 # [1..<last_nonzero (buffer b) (ARRAY_ELEMENTS w - 1)]"
    using assms by (simp add: upt_conv_Cons)
  moreover have "print_word b 0 (Some buf) = None" by (simp add: print_word_def print_digits_undefined)
  ultimately show ?thesis by (simp add: print_def Let_def)
qed

lemma last_nonzero_iff: "last_nonzero ws k \<noteq> 0 \<longleftrightarrow> (\<exists>i \<in> {1..k}. ws ! i \<noteq> 0)"
proof (induction k)
  case (Suc k)
  have "{1..Suc k} = insert (Suc k) {1..k}" by auto
  with Suc show ?case by auto
qed simp

section \<open>Properties\<close>

text \<open>A key map is a bitmap of 64 bits; a wider instance exercises the word boundaries.\<close>

definition example_wide :: Bitmap where
  "example_wide = \<lparr>buffer = [5, 6]\<rparr>"

lemma example_wide_valid: "bmp_valid 100 example_wide"
proof -
  have "\<not> arr_bit [5, 6] i" if "100 \<le> i" "i < 128" for i
  proof -
    define j where "j = i - 64"
    have j: "i = 64 + j" "36 \<le> j" "j < 64" using that by (auto simp: j_def)
    have "unat (6 :: ulonglong) < 2 ^ 36" by simp
    from unat_lt_2p_bit [OF this j(2)] j(3) show ?thesis by (simp add: j(1) arr_bit_def)
  qed
  then show ?thesis by (simp add: bmp_valid_def example_wide_def ARRAY_ELEMENTS_def)
qed

lemma iterator_enumerates_witness:
  "iter_collect 101 100 example_wide (iterator example_wide) =
    Some (map of_nat (sorted_list_of_set (bmp_set 100 example_wide)))"
proof (rule iterator_enumerates [OF example_wide_valid])
  have "card (bmp_set 100 example_wide) \<le> card {..<unat (100 :: uint)}"
    by (rule card_mono) (use bmp.elems_bound [of 100 example_wide] in auto)
  then show "card (bmp_set 100 example_wide) < 101" by simp
qed simp

text \<open>
  C35. A sequence of set and clear calls with indexes below the width, run on a cleared bitmap of any
  width, leaves exactly the set the same sequence computes on sets.
\<close>

theorem bitmap_program:
  assumes "unat w + 63 < 2 ^ 32" "length (buffer b) = ARRAY_ELEMENTS w"
    and "\<forall>c \<in> set cs. fst c < unat w"
  shows "bmp_valid w (fold (bmp.run_op w) cs (clear_all w b))
    \<and> bmp_set w (fold (bmp.run_op w) cs (clear_all w b)) = fold bmp.abs_op cs {}"
  using bmp.run_program [OF clear_all_set(1) [OF assms(1,2)] assms(3)] clear_all_set(2) [OF assms(1,2)]
  by simp

lemma bitmap_program_witness:
  "bmp_set 100 (fold (bmp.run_op 100) [(70, True), (3, True), (70, False)] (clear_all 100 example_wide))
    = fold bmp.abs_op [(70, True), (3, True), (70, False)] {}"
  using bitmap_program [of 100 example_wide "[(70, True), (3, True), (70, False)]"]
  by (simp add: example_wide_def ARRAY_ELEMENTS_def)

text \<open>
  Merge, intersect and subtract are union, intersection and difference; the subset, overlap and
  equality tests decide the corresponding relations; the bit count is the cardinality.
\<close>

theorem bitmap_algebra:
  assumes "bmp_valid w b" "bmp_valid w m"
  shows "bmp_set w (merge w b m) = bmp_set w b \<union> bmp_set w m
    \<and> bmp_set w (intersect w b m) = bmp_set w b \<inter> bmp_set w m
    \<and> bmp_set w (subtract w b m) = bmp_set w b - bmp_set w m
    \<and> (is_subset w b m \<longleftrightarrow> bmp_set w b \<subseteq> bmp_set w m)
    \<and> (is_overlapping w b m \<longleftrightarrow> bmp_set w b \<inter> bmp_set w m \<noteq> {})
    \<and> (eq_bitmap w b m \<longleftrightarrow> bmp_set w b = bmp_set w m)
    \<and> (is_clear_all w b \<longleftrightarrow> bmp_set w b = {})
    \<and> unat (bits_set w b) = card (bmp_set w b)"
  using assms
  by (simp add: bmp_alg.elems_merge bmp_alg.elems_intersect bmp_alg.elems_subtract bmp_alg.subset_iff
      bmp_alg.overlap_iff bmp_alg.eq_iff clear_all_iff bits_set_card)

lemma bitmap_algebra_witness:
  "unat (bits_set 100 example_wide) = card (bmp_set 100 example_wide)"
  using bitmap_algebra [OF example_wide_valid example_wide_valid] by simp

text \<open>
  Setting a prefix gives the numbers below the prefix length, cut at the width, and the prefix
  test recognises exactly the bitmaps of that form.
\<close>

theorem prefix_roundtrip:
  assumes "unat w + 63 < 2 ^ 32" "length (buffer b) = ARRAY_ELEMENTS w" "unat n \<le> unat w"
  shows "bmp_set w (set_prefix w n b) = {..<unat n} \<and> is_prefix w n (set_prefix w n b)
    \<and> (bmp_valid w m \<longrightarrow> is_prefix w n m \<longleftrightarrow> bmp_set w m = {..<unat n})"
  using set_prefix_set [OF assms(1,2), of n] assms(3) is_prefix_iff [of w _ n]
  by (simp add: min_absorb1)

lemma prefix_roundtrip_witness:
  "bmp_set 100 (set_prefix 100 70 example_wide) = {..<unat (70 :: uint)}"
  using prefix_roundtrip [of 100 example_wide 70] by (simp add: example_wide_def ARRAY_ELEMENTS_def)

text \<open>
  Intersecting with one extended word keeps the members below 64 that the word has, and replaces
  all the members from 64 on by the full range or by nothing, as the highest bit of the word says.
\<close>

theorem intersect_extended_spec:
  assumes "bmp_valid w b"
  shows "bmp_valid w (intersect_extended w b m) \<and>
    bmp_set w (intersect_extended w b m) =
      (bmp_set w b \<inter> {i. bit m i}) \<union> (if bit m 63 then {64..<unat w} else {})"
  using intersect_extended_set [OF assms] intersect_and_pad_set(1) [OF assms]
  by (simp add: intersect_extended_def)

lemma intersect_extended_spec_witness: "bmp_valid 100 (intersect_extended 100 example_wide 1)"
  using intersect_extended_spec [OF example_wide_valid] by blast

text \<open>
  Printing a bitmap that has a member at or above 64 is undefined: the digit loop moves the
  shift count up from 60, so its second step shifts a 64-bit value by 64.
\<close>

theorem print_undefined:
  assumes "bmp_valid w b" "i \<in> bmp_set w b" "64 \<le> i"
  shows "print w l2s b buf = None"
proof (rule print_none)
  have i: "i < 64 * ARRAY_ELEMENTS w" "arr_bit (buffer b) i"
    using assms(2) by (simp_all add: bmp_set_all_bits [OF assms(1)])
  then have "buffer b ! (i div 64) \<noteq> 0" by (auto simp: arr_bit_def)
  moreover have "i div 64 \<in> {1..ARRAY_ELEMENTS w - 1}"
  proof -
    have "1 \<le> i div 64" "i div 64 < ARRAY_ELEMENTS w" using assms(3) i(1) by linarith+
    then show ?thesis by simp
  qed
  ultimately show "last_nonzero (buffer b) (ARRAY_ELEMENTS w - 1) \<noteq> 0"
    unfolding last_nonzero_iff by blast
qed

lemma print_undefined_witness: "print 100 (\<lambda>_. []) example_wide [] = None"
proof (rule print_undefined [OF example_wide_valid])
  show "65 \<in> bmp_set 100 example_wide"
    unfolding bmp_set_arr [OF example_wide_valid]
    by (simp add: example_wide_def arr_bit_def bit_iff_odd)
qed simp

end
