(* ===== verification/Privilege.thy ===== *)
theory Privilege
  imports My_Bit Bit_Store
begin

text \<open>
  \<open>privilege.h\<close>: the privilege bits, the masks built from them, the privileges that statements and
  system variables require, and the four codecs between a privilege set and the compact form in
  which the grant tables store it (database, table, column and routine level). The codecs share one
  contract, the locale \<open>rights_codec\<close>, which each of them is proved to meet.
\<close>

section \<open>Privilege bits\<close>

type_synonym privilege_t = ulonglong

named_theorems acl_defs \<open>definitions of the privilege bits and masks\<close>
named_theorems requirement_defs \<open>definitions of the required privileges\<close>

text \<open>\<open>1UL\<close> has 32 bits in this build, \<open>1ULL\<close> has 64.\<close>

definition NO_ACL :: privilege_t where [acl_defs]: "NO_ACL = 0"
definition SELECT_ACL :: privilege_t where [acl_defs]:
  "SELECT_ACL =
     ucast (push_bit 0 (1 :: ulong))"
definition INSERT_ACL :: privilege_t where [acl_defs]:
  "INSERT_ACL =
     ucast (push_bit 1 (1 :: ulong))"
definition UPDATE_ACL :: privilege_t where [acl_defs]:
  "UPDATE_ACL =
     ucast (push_bit 2 (1 :: ulong))"
definition DELETE_ACL :: privilege_t where [acl_defs]:
  "DELETE_ACL =
     ucast (push_bit 3 (1 :: ulong))"
definition CREATE_ACL :: privilege_t where [acl_defs]:
  "CREATE_ACL =
     ucast (push_bit 4 (1 :: ulong))"
definition DROP_ACL :: privilege_t where [acl_defs]: "DROP_ACL = ucast (push_bit 5 (1 :: ulong))"
definition RELOAD_ACL :: privilege_t where [acl_defs]:
  "RELOAD_ACL =
     ucast (push_bit 6 (1 :: ulong))"
definition SHUTDOWN_ACL :: privilege_t where [acl_defs]:
  "SHUTDOWN_ACL =
     ucast (push_bit 7 (1 :: ulong))"
definition PROCESS_ACL :: privilege_t where [acl_defs]:
  "PROCESS_ACL =
     ucast (push_bit 8 (1 :: ulong))"
definition FILE_ACL :: privilege_t where [acl_defs]: "FILE_ACL = ucast (push_bit 9 (1 :: ulong))"
definition GRANT_ACL :: privilege_t where [acl_defs]:
  "GRANT_ACL =
     ucast (push_bit 10 (1 :: ulong))"
definition REFERENCES_ACL :: privilege_t where [acl_defs]:
  "REFERENCES_ACL =
     ucast (push_bit 11 (1 :: ulong))"
definition INDEX_ACL :: privilege_t where [acl_defs]:
  "INDEX_ACL =
     ucast (push_bit 12 (1 :: ulong))"
definition ALTER_ACL :: privilege_t where [acl_defs]:
  "ALTER_ACL =
     ucast (push_bit 13 (1 :: ulong))"
definition SHOW_DB_ACL :: privilege_t where [acl_defs]:
  "SHOW_DB_ACL =
     ucast (push_bit 14 (1 :: ulong))"
definition SUPER_ACL :: privilege_t where [acl_defs]:
  "SUPER_ACL =
     ucast (push_bit 15 (1 :: ulong))"
definition CREATE_TMP_ACL :: privilege_t where [acl_defs]:
  "CREATE_TMP_ACL =
     ucast (push_bit 16 (1 :: ulong))"
definition LOCK_TABLES_ACL :: privilege_t where [acl_defs]:
  "LOCK_TABLES_ACL =
     ucast (push_bit 17 (1 :: ulong))"
definition EXECUTE_ACL :: privilege_t where [acl_defs]:
  "EXECUTE_ACL =
     ucast (push_bit 18 (1 :: ulong))"
definition REPL_SLAVE_ACL :: privilege_t where [acl_defs]:
  "REPL_SLAVE_ACL =
     ucast (push_bit 19 (1 :: ulong))"
definition BINLOG_MONITOR_ACL :: privilege_t where [acl_defs]:
  "BINLOG_MONITOR_ACL =
     ucast (push_bit 20 (1 :: ulong))"
definition CREATE_VIEW_ACL :: privilege_t where [acl_defs]:
  "CREATE_VIEW_ACL =
     ucast (push_bit 21 (1 :: ulong))"
definition SHOW_VIEW_ACL :: privilege_t where [acl_defs]:
  "SHOW_VIEW_ACL =
     ucast (push_bit 22 (1 :: ulong))"
definition CREATE_PROC_ACL :: privilege_t where [acl_defs]:
  "CREATE_PROC_ACL =
     ucast (push_bit 23 (1 :: ulong))"
definition ALTER_PROC_ACL :: privilege_t where [acl_defs]:
  "ALTER_PROC_ACL =
     ucast (push_bit 24 (1 :: ulong))"
definition CREATE_USER_ACL :: privilege_t where [acl_defs]:
  "CREATE_USER_ACL =
     ucast (push_bit 25 (1 :: ulong))"
definition EVENT_ACL :: privilege_t where [acl_defs]:
  "EVENT_ACL =
     ucast (push_bit 26 (1 :: ulong))"
definition TRIGGER_ACL :: privilege_t where [acl_defs]:
  "TRIGGER_ACL =
     ucast (push_bit 27 (1 :: ulong))"
definition CREATE_TABLESPACE_ACL :: privilege_t where [acl_defs]:
  "CREATE_TABLESPACE_ACL =
     ucast (push_bit 28 (1 :: ulong))"
definition DELETE_HISTORY_ACL :: privilege_t where [acl_defs]:
  "DELETE_HISTORY_ACL =
     ucast (push_bit 29 (1 :: ulong))"
definition SET_USER_ACL :: privilege_t where [acl_defs]:
  "SET_USER_ACL =
     ucast (push_bit 30 (1 :: ulong))"
definition FEDERATED_ADMIN_ACL :: privilege_t where [acl_defs]:
  "FEDERATED_ADMIN_ACL =
     ucast (push_bit 31 (1 :: ulong))"
definition CONNECTION_ADMIN_ACL :: privilege_t where [acl_defs]:
  "CONNECTION_ADMIN_ACL =
     push_bit 32 1"
definition READ_ONLY_ADMIN_ACL :: privilege_t where [acl_defs]:
  "READ_ONLY_ADMIN_ACL =
     push_bit 33 1"
definition REPL_SLAVE_ADMIN_ACL :: privilege_t where [acl_defs]:
  "REPL_SLAVE_ADMIN_ACL =
     push_bit 34 1"
definition REPL_MASTER_ADMIN_ACL :: privilege_t where [acl_defs]:
  "REPL_MASTER_ADMIN_ACL =
     push_bit 35 1"
definition BINLOG_ADMIN_ACL :: privilege_t where [acl_defs]: "BINLOG_ADMIN_ACL = push_bit 36 1"
definition BINLOG_REPLAY_ACL :: privilege_t where [acl_defs]: "BINLOG_REPLAY_ACL = push_bit 37 1"
definition SLAVE_MONITOR_ACL :: privilege_t where [acl_defs]: "SLAVE_MONITOR_ACL = push_bit 38 1"

definition ALL_KNOWN_BITS :: "privilege_t \<Rightarrow> privilege_t" where [acl_defs]:
  "ALL_KNOWN_BITS x = x OR (x - 1)"

definition LAST_100304_ACL :: privilege_t where [acl_defs]: "LAST_100304_ACL = DELETE_HISTORY_ACL"
definition LAST_100502_ACL :: privilege_t where [acl_defs]: "LAST_100502_ACL = BINLOG_REPLAY_ACL"
definition LAST_100508_ACL :: privilege_t where [acl_defs]: "LAST_100508_ACL = SLAVE_MONITOR_ACL"
definition LAST_CURRENT_ACL :: privilege_t where [acl_defs]: "LAST_CURRENT_ACL = LAST_100508_ACL"
definition ALL_KNOWN_ACL_100304 :: privilege_t where [acl_defs]:
  "ALL_KNOWN_ACL_100304 =
     ALL_KNOWN_BITS LAST_100304_ACL"
definition ALL_KNOWN_ACL_100502 :: privilege_t where [acl_defs]:
  "ALL_KNOWN_ACL_100502 =
     ALL_KNOWN_BITS LAST_100502_ACL"
definition ALL_KNOWN_ACL_100508 :: privilege_t where [acl_defs]:
  "ALL_KNOWN_ACL_100508 =
     ALL_KNOWN_BITS LAST_100508_ACL"
definition ALL_KNOWN_ACL_100509 :: privilege_t where [acl_defs]:
  "ALL_KNOWN_ACL_100509 =
     ALL_KNOWN_ACL_100508"
definition ALL_KNOWN_ACL :: privilege_t where [acl_defs]:
  "ALL_KNOWN_ACL =
     ALL_KNOWN_BITS LAST_CURRENT_ACL"

definition PRIVILEGE_T_MAX_BIT :: uint where [acl_defs]:
  "PRIVILEGE_T_MAX_BIT = my_bit_log2_uint64 LAST_CURRENT_ACL"

section \<open>Operators\<close>

definition priv_compl :: "privilege_t \<Rightarrow> ulonglong" where
  "priv_compl access = NOT access"

definition priv_and :: "privilege_t \<Rightarrow> privilege_t \<Rightarrow> privilege_t" where
  "priv_and a b = a AND b"

definition priv_and_ull :: "ulonglong \<Rightarrow> privilege_t \<Rightarrow> privilege_t" where
  "priv_and_ull a b = a AND b"

definition priv_or :: "privilege_t \<Rightarrow> privilege_t \<Rightarrow> privilege_t" where
  "priv_or a b = a OR b"

text \<open>The assignment operators return the new value of their left operand.\<close>

definition priv_and_assign :: "privilege_t \<Rightarrow> privilege_t \<Rightarrow> privilege_t" where
  "priv_and_assign a b = priv_and a b"

definition priv_or_assign :: "privilege_t \<Rightarrow> privilege_t \<Rightarrow> privilege_t" where
  "priv_or_assign a b = priv_or a b"

section \<open>Masks\<close>

definition GLOBAL_SUPER_ADDED_SINCE_USER_TABLE_ACLS :: privilege_t where [acl_defs]:
  "GLOBAL_SUPER_ADDED_SINCE_USER_TABLE_ACLS =
     SET_USER_ACL OR FEDERATED_ADMIN_ACL OR CONNECTION_ADMIN_ACL OR READ_ONLY_ADMIN_ACL OR
     REPL_SLAVE_ADMIN_ACL OR BINLOG_ADMIN_ACL OR BINLOG_REPLAY_ACL"
definition COL_DML_ACLS :: privilege_t where [acl_defs]:
  "COL_DML_ACLS =
     SELECT_ACL OR INSERT_ACL OR UPDATE_ACL OR DELETE_ACL"
definition VIEW_ACLS :: privilege_t where [acl_defs]:
  "VIEW_ACLS =
     CREATE_VIEW_ACL OR SHOW_VIEW_ACL"
definition STD_TABLE_DDL_ACLS :: privilege_t where [acl_defs]:
  "STD_TABLE_DDL_ACLS =
     CREATE_ACL OR DROP_ACL OR ALTER_ACL"
definition ALL_TABLE_DDL_ACLS :: privilege_t where [acl_defs]:
  "ALL_TABLE_DDL_ACLS =
     STD_TABLE_DDL_ACLS OR INDEX_ACL"
definition COL_ACLS :: privilege_t where [acl_defs]:
  "COL_ACLS =
     SELECT_ACL OR INSERT_ACL OR UPDATE_ACL OR REFERENCES_ACL"
definition PROC_DDL_ACLS :: privilege_t where [acl_defs]:
  "PROC_DDL_ACLS =
     CREATE_PROC_ACL OR ALTER_PROC_ACL"
definition SHOW_PROC_ACLS :: privilege_t where [acl_defs]:
  "SHOW_PROC_ACLS =
     PROC_DDL_ACLS OR EXECUTE_ACL"
definition TABLE_ACLS :: privilege_t where [acl_defs]:
  "TABLE_ACLS =
     COL_DML_ACLS OR ALL_TABLE_DDL_ACLS OR VIEW_ACLS OR GRANT_ACL OR REFERENCES_ACL OR TRIGGER_ACL
     OR DELETE_HISTORY_ACL"
definition DB_ACLS :: privilege_t where [acl_defs]:
  "DB_ACLS =
     TABLE_ACLS OR PROC_DDL_ACLS OR EXECUTE_ACL OR CREATE_TMP_ACL OR LOCK_TABLES_ACL OR EVENT_ACL"
definition PROC_ACLS :: privilege_t where [acl_defs]:
  "PROC_ACLS =
     ALTER_PROC_ACL OR EXECUTE_ACL OR GRANT_ACL"
definition GLOBAL_ACLS :: privilege_t where [acl_defs]:
  "GLOBAL_ACLS =
     DB_ACLS OR SHOW_DB_ACL OR CREATE_USER_ACL OR CREATE_TABLESPACE_ACL OR SUPER_ACL OR RELOAD_ACL
     OR SHUTDOWN_ACL OR PROCESS_ACL OR FILE_ACL OR REPL_SLAVE_ACL OR BINLOG_MONITOR_ACL OR
     GLOBAL_SUPER_ADDED_SINCE_USER_TABLE_ACLS OR REPL_MASTER_ADMIN_ACL OR SLAVE_MONITOR_ACL"
definition DEFAULT_CREATE_PROC_ACLS :: privilege_t where [acl_defs]:
  "DEFAULT_CREATE_PROC_ACLS =
     ALTER_PROC_ACL OR EXECUTE_ACL"
definition SHOW_CREATE_TABLE_ACLS :: privilege_t where [acl_defs]:
  "SHOW_CREATE_TABLE_ACLS =
     COL_DML_ACLS OR ALL_TABLE_DDL_ACLS OR TRIGGER_ACL OR REFERENCES_ACL OR GRANT_ACL OR VIEW_ACLS"
definition TMP_TABLE_ACLS :: privilege_t where [acl_defs]:
  "TMP_TABLE_ACLS =
     COL_DML_ACLS OR ALL_TABLE_DDL_ACLS OR REFERENCES_ACL"

section \<open>Required privileges\<close>

definition PRIV_LOCK_TABLES :: privilege_t where [requirement_defs]:
  "PRIV_LOCK_TABLES =
     SELECT_ACL OR LOCK_TABLES_ACL"
definition PRIV_DEFINER_CLAUSE :: privilege_t where [requirement_defs]:
  "PRIV_DEFINER_CLAUSE =
     SET_USER_ACL OR SUPER_ACL"
definition PRIV_REVEAL_MISSING_DEFINER :: privilege_t where [requirement_defs]:
  "PRIV_REVEAL_MISSING_DEFINER =
     SET_USER_ACL OR SUPER_ACL"
definition PRIV_DES_DECRYPT_ONE_ARG :: privilege_t where [requirement_defs]:
  "PRIV_DES_DECRYPT_ONE_ARG =
     SUPER_ACL"
definition PRIV_LOG_BIN_TRUSTED_SP_CREATOR :: privilege_t where [requirement_defs]:
  "PRIV_LOG_BIN_TRUSTED_SP_CREATOR =
     SUPER_ACL"
definition PRIV_DEBUG :: privilege_t where [requirement_defs]: "PRIV_DEBUG = SUPER_ACL"
definition PRIV_SET_GLOBAL_SYSTEM_VARIABLE :: privilege_t where [requirement_defs]:
  "PRIV_SET_GLOBAL_SYSTEM_VARIABLE =
     SUPER_ACL"
definition PRIV_SET_RESTRICTED_SESSION_SYSTEM_VARIABLE :: privilege_t where [requirement_defs]:
  "PRIV_SET_RESTRICTED_SESSION_SYSTEM_VARIABLE =
     SUPER_ACL"
definition PRIV_SET_SYSTEM_VAR_BINLOG_FORMAT :: privilege_t where [requirement_defs]:
  "PRIV_SET_SYSTEM_VAR_BINLOG_FORMAT =
     SUPER_ACL OR BINLOG_ADMIN_ACL"
definition PRIV_SET_SYSTEM_VAR_BINLOG_DIRECT_NON_TRANSACTIONAL_UPDATES :: privilege_t where [requirement_defs]:
  "PRIV_SET_SYSTEM_VAR_BINLOG_DIRECT_NON_TRANSACTIONAL_UPDATES =
     SUPER_ACL OR BINLOG_ADMIN_ACL"
definition PRIV_SET_SYSTEM_VAR_BINLOG_ANNOTATE_ROW_EVENTS :: privilege_t where [requirement_defs]:
  "PRIV_SET_SYSTEM_VAR_BINLOG_ANNOTATE_ROW_EVENTS =
     SUPER_ACL OR BINLOG_ADMIN_ACL"
definition PRIV_SET_SYSTEM_VAR_BINLOG_ROW_IMAGE :: privilege_t where [requirement_defs]:
  "PRIV_SET_SYSTEM_VAR_BINLOG_ROW_IMAGE =
     SUPER_ACL OR BINLOG_ADMIN_ACL"
definition PRIV_SET_SYSTEM_VAR_SQL_LOG_BIN :: privilege_t where [requirement_defs]:
  "PRIV_SET_SYSTEM_VAR_SQL_LOG_BIN =
     SUPER_ACL OR BINLOG_ADMIN_ACL"
definition PRIV_SET_SYSTEM_GLOBAL_VAR_BINLOG_CACHE_SIZE :: privilege_t where [requirement_defs]:
  "PRIV_SET_SYSTEM_GLOBAL_VAR_BINLOG_CACHE_SIZE =
     SUPER_ACL OR BINLOG_ADMIN_ACL"
definition PRIV_SET_SYSTEM_GLOBAL_VAR_BINLOG_FILE_CACHE_SIZE :: privilege_t where [requirement_defs]:
  "PRIV_SET_SYSTEM_GLOBAL_VAR_BINLOG_FILE_CACHE_SIZE =
     SUPER_ACL OR BINLOG_ADMIN_ACL"
definition PRIV_SET_SYSTEM_GLOBAL_VAR_BINLOG_STMT_CACHE_SIZE :: privilege_t where [requirement_defs]:
  "PRIV_SET_SYSTEM_GLOBAL_VAR_BINLOG_STMT_CACHE_SIZE =
     SUPER_ACL OR BINLOG_ADMIN_ACL"
definition PRIV_SET_SYSTEM_GLOBAL_VAR_BINLOG_COMMIT_WAIT_COUNT :: privilege_t where [requirement_defs]:
  "PRIV_SET_SYSTEM_GLOBAL_VAR_BINLOG_COMMIT_WAIT_COUNT =
     SUPER_ACL OR BINLOG_ADMIN_ACL"
definition PRIV_SET_SYSTEM_GLOBAL_VAR_BINLOG_COMMIT_WAIT_USEC :: privilege_t where [requirement_defs]:
  "PRIV_SET_SYSTEM_GLOBAL_VAR_BINLOG_COMMIT_WAIT_USEC =
     SUPER_ACL OR BINLOG_ADMIN_ACL"
definition PRIV_SET_SYSTEM_GLOBAL_VAR_BINLOG_ROW_METADATA :: privilege_t where [requirement_defs]:
  "PRIV_SET_SYSTEM_GLOBAL_VAR_BINLOG_ROW_METADATA =
     SUPER_ACL OR BINLOG_ADMIN_ACL"
definition PRIV_SET_SYSTEM_GLOBAL_VAR_EXPIRE_LOGS_DAYS :: privilege_t where [requirement_defs]:
  "PRIV_SET_SYSTEM_GLOBAL_VAR_EXPIRE_LOGS_DAYS =
     SUPER_ACL OR BINLOG_ADMIN_ACL"
definition PRIV_SET_SYSTEM_GLOBAL_VAR_LOG_BIN_COMPRESS :: privilege_t where [requirement_defs]:
  "PRIV_SET_SYSTEM_GLOBAL_VAR_LOG_BIN_COMPRESS =
     SUPER_ACL OR BINLOG_ADMIN_ACL"
definition PRIV_SET_SYSTEM_GLOBAL_VAR_LOG_BIN_COMPRESS_MIN_LEN :: privilege_t where [requirement_defs]:
  "PRIV_SET_SYSTEM_GLOBAL_VAR_LOG_BIN_COMPRESS_MIN_LEN =
     SUPER_ACL OR BINLOG_ADMIN_ACL"
definition PRIV_SET_SYSTEM_GLOBAL_VAR_LOG_BIN_TRUST_FUNCTION_CREATORS :: privilege_t where [requirement_defs]:
  "PRIV_SET_SYSTEM_GLOBAL_VAR_LOG_BIN_TRUST_FUNCTION_CREATORS =
     SUPER_ACL OR BINLOG_ADMIN_ACL"
definition PRIV_SET_SYSTEM_GLOBAL_VAR_MAX_BINLOG_CACHE_SIZE :: privilege_t where [requirement_defs]:
  "PRIV_SET_SYSTEM_GLOBAL_VAR_MAX_BINLOG_CACHE_SIZE =
     SUPER_ACL OR BINLOG_ADMIN_ACL"
definition PRIV_SET_SYSTEM_GLOBAL_VAR_MAX_BINLOG_STMT_CACHE_SIZE :: privilege_t where [requirement_defs]:
  "PRIV_SET_SYSTEM_GLOBAL_VAR_MAX_BINLOG_STMT_CACHE_SIZE =
     SUPER_ACL OR BINLOG_ADMIN_ACL"
definition PRIV_SET_SYSTEM_GLOBAL_VAR_MAX_BINLOG_SIZE :: privilege_t where [requirement_defs]:
  "PRIV_SET_SYSTEM_GLOBAL_VAR_MAX_BINLOG_SIZE =
     SUPER_ACL OR BINLOG_ADMIN_ACL"
definition PRIV_SET_SYSTEM_GLOBAL_VAR_SYNC_BINLOG :: privilege_t where [requirement_defs]:
  "PRIV_SET_SYSTEM_GLOBAL_VAR_SYNC_BINLOG =
     SUPER_ACL OR BINLOG_ADMIN_ACL"
definition PRIV_IGNORE_READ_ONLY :: privilege_t where [requirement_defs]:
  "PRIV_IGNORE_READ_ONLY =
     READ_ONLY_ADMIN_ACL"
definition PRIV_SET_SYSTEM_GLOBAL_VAR_READ_ONLY :: privilege_t where [requirement_defs]:
  "PRIV_SET_SYSTEM_GLOBAL_VAR_READ_ONLY =
     READ_ONLY_ADMIN_ACL"
definition PRIV_IGNORE_INIT_CONNECT :: privilege_t where [requirement_defs]:
  "PRIV_IGNORE_INIT_CONNECT =
     CONNECTION_ADMIN_ACL OR SUPER_ACL"
definition PRIV_IGNORE_MAX_USER_CONNECTIONS :: privilege_t where [requirement_defs]:
  "PRIV_IGNORE_MAX_USER_CONNECTIONS =
     CONNECTION_ADMIN_ACL OR SUPER_ACL"
definition PRIV_IGNORE_MAX_CONNECTIONS :: privilege_t where [requirement_defs]:
  "PRIV_IGNORE_MAX_CONNECTIONS =
     CONNECTION_ADMIN_ACL OR SUPER_ACL"
definition PRIV_IGNORE_MAX_PASSWORD_ERRORS :: privilege_t where [requirement_defs]:
  "PRIV_IGNORE_MAX_PASSWORD_ERRORS =
     CONNECTION_ADMIN_ACL OR SUPER_ACL"
definition PRIV_KILL_OTHER_USER_PROCESS :: privilege_t where [requirement_defs]:
  "PRIV_KILL_OTHER_USER_PROCESS =
     CONNECTION_ADMIN_ACL OR SUPER_ACL"
definition PRIV_SET_SYSTEM_GLOBAL_VAR_CONNECT_TIMEOUT :: privilege_t where [requirement_defs]:
  "PRIV_SET_SYSTEM_GLOBAL_VAR_CONNECT_TIMEOUT =
     CONNECTION_ADMIN_ACL OR SUPER_ACL"
definition PRIV_SET_SYSTEM_GLOBAL_VAR_DISCONNECT_ON_EXPIRED_PASSWORD :: privilege_t where [requirement_defs]:
  "PRIV_SET_SYSTEM_GLOBAL_VAR_DISCONNECT_ON_EXPIRED_PASSWORD =
     CONNECTION_ADMIN_ACL OR SUPER_ACL"
definition PRIV_SET_SYSTEM_GLOBAL_VAR_EXTRA_MAX_CONNECTIONS :: privilege_t where [requirement_defs]:
  "PRIV_SET_SYSTEM_GLOBAL_VAR_EXTRA_MAX_CONNECTIONS =
     CONNECTION_ADMIN_ACL OR SUPER_ACL"
definition PRIV_SET_SYSTEM_GLOBAL_VAR_INIT_CONNECT :: privilege_t where [requirement_defs]:
  "PRIV_SET_SYSTEM_GLOBAL_VAR_INIT_CONNECT =
     CONNECTION_ADMIN_ACL OR SUPER_ACL"
definition PRIV_SET_SYSTEM_GLOBAL_VAR_MAX_CONNECTIONS :: privilege_t where [requirement_defs]:
  "PRIV_SET_SYSTEM_GLOBAL_VAR_MAX_CONNECTIONS =
     CONNECTION_ADMIN_ACL OR SUPER_ACL"
definition PRIV_SET_SYSTEM_GLOBAL_VAR_MAX_CONNECT_ERRORS :: privilege_t where [requirement_defs]:
  "PRIV_SET_SYSTEM_GLOBAL_VAR_MAX_CONNECT_ERRORS =
     CONNECTION_ADMIN_ACL OR SUPER_ACL"
definition PRIV_SET_SYSTEM_GLOBAL_VAR_MAX_PASSWORD_ERRORS :: privilege_t where [requirement_defs]:
  "PRIV_SET_SYSTEM_GLOBAL_VAR_MAX_PASSWORD_ERRORS =
     CONNECTION_ADMIN_ACL OR SUPER_ACL"
definition PRIV_SET_SYSTEM_GLOBAL_VAR_PROXY_PROTOCOL_NETWORKS :: privilege_t where [requirement_defs]:
  "PRIV_SET_SYSTEM_GLOBAL_VAR_PROXY_PROTOCOL_NETWORKS =
     CONNECTION_ADMIN_ACL OR SUPER_ACL"
definition PRIV_SET_SYSTEM_GLOBAL_VAR_SECURE_AUTH :: privilege_t where [requirement_defs]:
  "PRIV_SET_SYSTEM_GLOBAL_VAR_SECURE_AUTH =
     CONNECTION_ADMIN_ACL OR SUPER_ACL"
definition PRIV_SET_SYSTEM_GLOBAL_VAR_SLOW_LAUNCH_TIME :: privilege_t where [requirement_defs]:
  "PRIV_SET_SYSTEM_GLOBAL_VAR_SLOW_LAUNCH_TIME =
     CONNECTION_ADMIN_ACL OR SUPER_ACL"
definition PRIV_SET_SYSTEM_GLOBAL_VAR_THREAD_POOL :: privilege_t where [requirement_defs]:
  "PRIV_SET_SYSTEM_GLOBAL_VAR_THREAD_POOL =
     CONNECTION_ADMIN_ACL OR SUPER_ACL"
definition PRIV_STMT_SHOW_BINLOG_STATUS :: privilege_t where [requirement_defs]:
  "PRIV_STMT_SHOW_BINLOG_STATUS =
     BINLOG_MONITOR_ACL OR SUPER_ACL"
definition PRIV_STMT_SHOW_BINARY_LOGS :: privilege_t where [requirement_defs]:
  "PRIV_STMT_SHOW_BINARY_LOGS =
     BINLOG_MONITOR_ACL OR SUPER_ACL"
definition PRIV_STMT_PURGE_BINLOG :: privilege_t where [requirement_defs]:
  "PRIV_STMT_PURGE_BINLOG =
     BINLOG_ADMIN_ACL OR SUPER_ACL"
definition PRIV_STMT_SHOW_BINLOG_EVENTS :: privilege_t where [requirement_defs]:
  "PRIV_STMT_SHOW_BINLOG_EVENTS =
     BINLOG_MONITOR_ACL"
definition PRIV_COM_REGISTER_SLAVE :: privilege_t where [requirement_defs]:
  "PRIV_COM_REGISTER_SLAVE =
     REPL_SLAVE_ACL"
definition PRIV_COM_BINLOG_DUMP :: privilege_t where [requirement_defs]:
  "PRIV_COM_BINLOG_DUMP =
     REPL_SLAVE_ACL"
definition PRIV_STMT_SHOW_SLAVE_HOSTS :: privilege_t where [requirement_defs]:
  "PRIV_STMT_SHOW_SLAVE_HOSTS =
     REPL_MASTER_ADMIN_ACL"
definition PRIV_SET_SYSTEM_GLOBAL_VAR_RPL_SEMI_SYNC_MASTER_ENABLED :: privilege_t where [requirement_defs]:
  "PRIV_SET_SYSTEM_GLOBAL_VAR_RPL_SEMI_SYNC_MASTER_ENABLED =
     REPL_MASTER_ADMIN_ACL OR SUPER_ACL"
definition PRIV_SET_SYSTEM_GLOBAL_VAR_RPL_SEMI_SYNC_MASTER_TIMEOUT :: privilege_t where [requirement_defs]:
  "PRIV_SET_SYSTEM_GLOBAL_VAR_RPL_SEMI_SYNC_MASTER_TIMEOUT =
     REPL_MASTER_ADMIN_ACL OR SUPER_ACL"
definition PRIV_SET_SYSTEM_GLOBAL_VAR_RPL_SEMI_SYNC_MASTER_WAIT_NO_SLAVE :: privilege_t where [requirement_defs]:
  "PRIV_SET_SYSTEM_GLOBAL_VAR_RPL_SEMI_SYNC_MASTER_WAIT_NO_SLAVE =
     REPL_MASTER_ADMIN_ACL OR SUPER_ACL"
definition PRIV_SET_SYSTEM_GLOBAL_VAR_RPL_SEMI_SYNC_MASTER_TRACE_LEVEL :: privilege_t where [requirement_defs]:
  "PRIV_SET_SYSTEM_GLOBAL_VAR_RPL_SEMI_SYNC_MASTER_TRACE_LEVEL =
     REPL_MASTER_ADMIN_ACL OR SUPER_ACL"
definition PRIV_SET_SYSTEM_GLOBAL_VAR_RPL_SEMI_SYNC_MASTER_WAIT_POINT :: privilege_t where [requirement_defs]:
  "PRIV_SET_SYSTEM_GLOBAL_VAR_RPL_SEMI_SYNC_MASTER_WAIT_POINT =
     REPL_MASTER_ADMIN_ACL OR SUPER_ACL"
definition PRIV_SET_SYSTEM_GLOBAL_VAR_MASTER_VERIFY_CHECKSUM :: privilege_t where [requirement_defs]:
  "PRIV_SET_SYSTEM_GLOBAL_VAR_MASTER_VERIFY_CHECKSUM =
     REPL_MASTER_ADMIN_ACL OR SUPER_ACL"
definition PRIV_SET_SYSTEM_GLOBAL_VAR_GTID_BINLOG_STATE :: privilege_t where [requirement_defs]:
  "PRIV_SET_SYSTEM_GLOBAL_VAR_GTID_BINLOG_STATE =
     REPL_MASTER_ADMIN_ACL OR SUPER_ACL"
definition PRIV_SET_SYSTEM_GLOBAL_VAR_SERVER_ID :: privilege_t where [requirement_defs]:
  "PRIV_SET_SYSTEM_GLOBAL_VAR_SERVER_ID =
     REPL_MASTER_ADMIN_ACL OR SUPER_ACL"
definition PRIV_SET_SYSTEM_GLOBAL_VAR_GTID_DOMAIN_ID :: privilege_t where [requirement_defs]:
  "PRIV_SET_SYSTEM_GLOBAL_VAR_GTID_DOMAIN_ID =
     REPL_MASTER_ADMIN_ACL OR SUPER_ACL"
definition PRIV_STMT_START_SLAVE :: privilege_t where [requirement_defs]:
  "PRIV_STMT_START_SLAVE =
     REPL_SLAVE_ADMIN_ACL OR SUPER_ACL"
definition PRIV_STMT_STOP_SLAVE :: privilege_t where [requirement_defs]:
  "PRIV_STMT_STOP_SLAVE =
     REPL_SLAVE_ADMIN_ACL OR SUPER_ACL"
definition PRIV_STMT_CHANGE_MASTER :: privilege_t where [requirement_defs]:
  "PRIV_STMT_CHANGE_MASTER =
     REPL_SLAVE_ADMIN_ACL OR SUPER_ACL"
definition PRIV_STMT_SHOW_SLAVE_STATUS :: privilege_t where [requirement_defs]:
  "PRIV_STMT_SHOW_SLAVE_STATUS =
     SLAVE_MONITOR_ACL OR SUPER_ACL"
definition PRIV_STMT_SHOW_RELAYLOG_EVENTS :: privilege_t where [requirement_defs]:
  "PRIV_STMT_SHOW_RELAYLOG_EVENTS =
     SLAVE_MONITOR_ACL"
definition PRIV_STMT_BINLOG :: privilege_t where [requirement_defs]:
  "PRIV_STMT_BINLOG =
     BINLOG_REPLAY_ACL OR SUPER_ACL"
definition PRIV_SET_SYSTEM_SESSION_VAR_GTID_SEQ_NO :: privilege_t where [requirement_defs]:
  "PRIV_SET_SYSTEM_SESSION_VAR_GTID_SEQ_NO =
     BINLOG_REPLAY_ACL OR SUPER_ACL"
definition PRIV_SET_SYSTEM_SESSION_VAR_PSEUDO_THREAD_ID :: privilege_t where [requirement_defs]:
  "PRIV_SET_SYSTEM_SESSION_VAR_PSEUDO_THREAD_ID =
     BINLOG_REPLAY_ACL OR SUPER_ACL"
definition PRIV_SET_SYSTEM_SESSION_VAR_SERVER_ID :: privilege_t where [requirement_defs]:
  "PRIV_SET_SYSTEM_SESSION_VAR_SERVER_ID =
     BINLOG_REPLAY_ACL OR SUPER_ACL"
definition PRIV_SET_SYSTEM_SESSION_VAR_GTID_DOMAIN_ID :: privilege_t where [requirement_defs]:
  "PRIV_SET_SYSTEM_SESSION_VAR_GTID_DOMAIN_ID =
     BINLOG_REPLAY_ACL OR SUPER_ACL"
definition PRIV_SET_SYSTEM_GLOBAL_VAR_REPLICATE_EVENTS_MARKED_FOR_SKIP :: privilege_t where [requirement_defs]:
  "PRIV_SET_SYSTEM_GLOBAL_VAR_REPLICATE_EVENTS_MARKED_FOR_SKIP =
     REPL_SLAVE_ADMIN_ACL OR SUPER_ACL"
definition PRIV_SET_SYSTEM_GLOBAL_VAR_REPLICATE_REWRITE_DB :: privilege_t where [requirement_defs]:
  "PRIV_SET_SYSTEM_GLOBAL_VAR_REPLICATE_REWRITE_DB =
     REPL_SLAVE_ADMIN_ACL OR SUPER_ACL"
definition PRIV_SET_SYSTEM_GLOBAL_VAR_REPLICATE_DO_DB :: privilege_t where [requirement_defs]:
  "PRIV_SET_SYSTEM_GLOBAL_VAR_REPLICATE_DO_DB =
     REPL_SLAVE_ADMIN_ACL OR SUPER_ACL"
definition PRIV_SET_SYSTEM_GLOBAL_VAR_REPLICATE_DO_TABLE :: privilege_t where [requirement_defs]:
  "PRIV_SET_SYSTEM_GLOBAL_VAR_REPLICATE_DO_TABLE =
     REPL_SLAVE_ADMIN_ACL OR SUPER_ACL"
definition PRIV_SET_SYSTEM_GLOBAL_VAR_REPLICATE_IGNORE_DB :: privilege_t where [requirement_defs]:
  "PRIV_SET_SYSTEM_GLOBAL_VAR_REPLICATE_IGNORE_DB =
     REPL_SLAVE_ADMIN_ACL OR SUPER_ACL"
definition PRIV_SET_SYSTEM_GLOBAL_VAR_REPLICATE_IGNORE_TABLE :: privilege_t where [requirement_defs]:
  "PRIV_SET_SYSTEM_GLOBAL_VAR_REPLICATE_IGNORE_TABLE =
     REPL_SLAVE_ADMIN_ACL OR SUPER_ACL"
definition PRIV_SET_SYSTEM_GLOBAL_VAR_REPLICATE_WILD_DO_TABLE :: privilege_t where [requirement_defs]:
  "PRIV_SET_SYSTEM_GLOBAL_VAR_REPLICATE_WILD_DO_TABLE =
     REPL_SLAVE_ADMIN_ACL OR SUPER_ACL"
definition PRIV_SET_SYSTEM_GLOBAL_VAR_REPLICATE_WILD_IGNORE_TABLE :: privilege_t where [requirement_defs]:
  "PRIV_SET_SYSTEM_GLOBAL_VAR_REPLICATE_WILD_IGNORE_TABLE =
     REPL_SLAVE_ADMIN_ACL OR SUPER_ACL"
definition PRIV_SET_SYSTEM_GLOBAL_VAR_READ_BINLOG_SPEED_LIMIT :: privilege_t where [requirement_defs]:
  "PRIV_SET_SYSTEM_GLOBAL_VAR_READ_BINLOG_SPEED_LIMIT =
     REPL_SLAVE_ADMIN_ACL OR SUPER_ACL"
definition PRIV_SET_SYSTEM_GLOBAL_VAR_SLAVE_COMPRESSED_PROTOCOL :: privilege_t where [requirement_defs]:
  "PRIV_SET_SYSTEM_GLOBAL_VAR_SLAVE_COMPRESSED_PROTOCOL =
     REPL_SLAVE_ADMIN_ACL OR SUPER_ACL"
definition PRIV_SET_SYSTEM_GLOBAL_VAR_SLAVE_DDL_EXEC_MODE :: privilege_t where [requirement_defs]:
  "PRIV_SET_SYSTEM_GLOBAL_VAR_SLAVE_DDL_EXEC_MODE =
     REPL_SLAVE_ADMIN_ACL OR SUPER_ACL"
definition PRIV_SET_SYSTEM_GLOBAL_VAR_SLAVE_DOMAIN_PARALLEL_THREADS :: privilege_t where [requirement_defs]:
  "PRIV_SET_SYSTEM_GLOBAL_VAR_SLAVE_DOMAIN_PARALLEL_THREADS =
     REPL_SLAVE_ADMIN_ACL OR SUPER_ACL"
definition PRIV_SET_SYSTEM_GLOBAL_VAR_SLAVE_EXEC_MODE :: privilege_t where [requirement_defs]:
  "PRIV_SET_SYSTEM_GLOBAL_VAR_SLAVE_EXEC_MODE =
     REPL_SLAVE_ADMIN_ACL OR SUPER_ACL"
definition PRIV_SET_SYSTEM_GLOBAL_VAR_SLAVE_MAX_ALLOWED_PACKET :: privilege_t where [requirement_defs]:
  "PRIV_SET_SYSTEM_GLOBAL_VAR_SLAVE_MAX_ALLOWED_PACKET =
     REPL_SLAVE_ADMIN_ACL OR SUPER_ACL"
definition PRIV_SET_SYSTEM_GLOBAL_VAR_SLAVE_MAX_STATEMENT_TIME :: privilege_t where [requirement_defs]:
  "PRIV_SET_SYSTEM_GLOBAL_VAR_SLAVE_MAX_STATEMENT_TIME =
     REPL_SLAVE_ADMIN_ACL"
definition PRIV_SET_SYSTEM_GLOBAL_VAR_SLAVE_NET_TIMEOUT :: privilege_t where [requirement_defs]:
  "PRIV_SET_SYSTEM_GLOBAL_VAR_SLAVE_NET_TIMEOUT =
     REPL_SLAVE_ADMIN_ACL OR SUPER_ACL"
definition PRIV_SET_SYSTEM_GLOBAL_VAR_SLAVE_PARALLEL_MAX_QUEUED :: privilege_t where [requirement_defs]:
  "PRIV_SET_SYSTEM_GLOBAL_VAR_SLAVE_PARALLEL_MAX_QUEUED =
     REPL_SLAVE_ADMIN_ACL OR SUPER_ACL"
definition PRIV_SET_SYSTEM_GLOBAL_VAR_SLAVE_PARALLEL_MODE :: privilege_t where [requirement_defs]:
  "PRIV_SET_SYSTEM_GLOBAL_VAR_SLAVE_PARALLEL_MODE =
     REPL_SLAVE_ADMIN_ACL OR SUPER_ACL"
definition PRIV_SET_SYSTEM_GLOBAL_VAR_SLAVE_PARALLEL_THREADS :: privilege_t where [requirement_defs]:
  "PRIV_SET_SYSTEM_GLOBAL_VAR_SLAVE_PARALLEL_THREADS =
     REPL_SLAVE_ADMIN_ACL OR SUPER_ACL"
definition PRIV_SET_SYSTEM_GLOBAL_VAR_SLAVE_PARALLEL_WORKERS :: privilege_t where [requirement_defs]:
  "PRIV_SET_SYSTEM_GLOBAL_VAR_SLAVE_PARALLEL_WORKERS =
     REPL_SLAVE_ADMIN_ACL OR SUPER_ACL"
definition PRIV_SET_SYSTEM_GLOBAL_VAR_SLAVE_RUN_TRIGGERS_FOR_RBR :: privilege_t where [requirement_defs]:
  "PRIV_SET_SYSTEM_GLOBAL_VAR_SLAVE_RUN_TRIGGERS_FOR_RBR =
     REPL_SLAVE_ADMIN_ACL OR SUPER_ACL"
definition PRIV_SET_SYSTEM_GLOBAL_VAR_SLAVE_SQL_VERIFY_CHECKSUM :: privilege_t where [requirement_defs]:
  "PRIV_SET_SYSTEM_GLOBAL_VAR_SLAVE_SQL_VERIFY_CHECKSUM =
     REPL_SLAVE_ADMIN_ACL OR SUPER_ACL"
definition PRIV_SET_SYSTEM_GLOBAL_VAR_SLAVE_TRANSACTION_RETRY_INTERVAL :: privilege_t where [requirement_defs]:
  "PRIV_SET_SYSTEM_GLOBAL_VAR_SLAVE_TRANSACTION_RETRY_INTERVAL =
     REPL_SLAVE_ADMIN_ACL OR SUPER_ACL"
definition PRIV_SET_SYSTEM_GLOBAL_VAR_SLAVE_TYPE_CONVERSIONS :: privilege_t where [requirement_defs]:
  "PRIV_SET_SYSTEM_GLOBAL_VAR_SLAVE_TYPE_CONVERSIONS =
     REPL_SLAVE_ADMIN_ACL OR SUPER_ACL"
definition PRIV_SET_SYSTEM_GLOBAL_VAR_INIT_SLAVE :: privilege_t where [requirement_defs]:
  "PRIV_SET_SYSTEM_GLOBAL_VAR_INIT_SLAVE =
     REPL_SLAVE_ADMIN_ACL OR SUPER_ACL"
definition PRIV_SET_SYSTEM_GLOBAL_VAR_RPL_SEMI_SYNC_SLAVE_ENABLED :: privilege_t where [requirement_defs]:
  "PRIV_SET_SYSTEM_GLOBAL_VAR_RPL_SEMI_SYNC_SLAVE_ENABLED =
     REPL_SLAVE_ADMIN_ACL OR SUPER_ACL"
definition PRIV_SET_SYSTEM_GLOBAL_VAR_RPL_SEMI_SYNC_SLAVE_TRACE_LEVEL :: privilege_t where [requirement_defs]:
  "PRIV_SET_SYSTEM_GLOBAL_VAR_RPL_SEMI_SYNC_SLAVE_TRACE_LEVEL =
     REPL_SLAVE_ADMIN_ACL OR SUPER_ACL"
definition PRIV_SET_SYSTEM_GLOBAL_VAR_RPL_SEMI_SYNC_SLAVE_DELAY_MASTER :: privilege_t where [requirement_defs]:
  "PRIV_SET_SYSTEM_GLOBAL_VAR_RPL_SEMI_SYNC_SLAVE_DELAY_MASTER =
     REPL_SLAVE_ADMIN_ACL OR SUPER_ACL"
definition PRIV_SET_SYSTEM_GLOBAL_VAR_RPL_SEMI_SYNC_SLAVE_KILL_CONN_TIMEOUT :: privilege_t where [requirement_defs]:
  "PRIV_SET_SYSTEM_GLOBAL_VAR_RPL_SEMI_SYNC_SLAVE_KILL_CONN_TIMEOUT =
     REPL_SLAVE_ADMIN_ACL OR SUPER_ACL"
definition PRIV_SET_SYSTEM_GLOBAL_VAR_RELAY_LOG_PURGE :: privilege_t where [requirement_defs]:
  "PRIV_SET_SYSTEM_GLOBAL_VAR_RELAY_LOG_PURGE =
     REPL_SLAVE_ADMIN_ACL OR SUPER_ACL"
definition PRIV_SET_SYSTEM_GLOBAL_VAR_RELAY_LOG_RECOVERY :: privilege_t where [requirement_defs]:
  "PRIV_SET_SYSTEM_GLOBAL_VAR_RELAY_LOG_RECOVERY =
     REPL_SLAVE_ADMIN_ACL OR SUPER_ACL"
definition PRIV_SET_SYSTEM_GLOBAL_VAR_SYNC_MASTER_INFO :: privilege_t where [requirement_defs]:
  "PRIV_SET_SYSTEM_GLOBAL_VAR_SYNC_MASTER_INFO =
     REPL_SLAVE_ADMIN_ACL OR SUPER_ACL"
definition PRIV_SET_SYSTEM_GLOBAL_VAR_SYNC_RELAY_LOG :: privilege_t where [requirement_defs]:
  "PRIV_SET_SYSTEM_GLOBAL_VAR_SYNC_RELAY_LOG =
     REPL_SLAVE_ADMIN_ACL OR SUPER_ACL"
definition PRIV_SET_SYSTEM_GLOBAL_VAR_SYNC_RELAY_LOG_INFO :: privilege_t where [requirement_defs]:
  "PRIV_SET_SYSTEM_GLOBAL_VAR_SYNC_RELAY_LOG_INFO =
     REPL_SLAVE_ADMIN_ACL OR SUPER_ACL"
definition PRIV_SET_SYSTEM_GLOBAL_VAR_GTID_CLEANUP_BATCH_SIZE :: privilege_t where [requirement_defs]:
  "PRIV_SET_SYSTEM_GLOBAL_VAR_GTID_CLEANUP_BATCH_SIZE =
     REPL_SLAVE_ADMIN_ACL OR SUPER_ACL"
definition PRIV_SET_SYSTEM_GLOBAL_VAR_GTID_IGNORE_DUPLICATES :: privilege_t where [requirement_defs]:
  "PRIV_SET_SYSTEM_GLOBAL_VAR_GTID_IGNORE_DUPLICATES =
     REPL_SLAVE_ADMIN_ACL OR SUPER_ACL"
definition PRIV_SET_SYSTEM_GLOBAL_VAR_GTID_POS_AUTO_ENGINES :: privilege_t where [requirement_defs]:
  "PRIV_SET_SYSTEM_GLOBAL_VAR_GTID_POS_AUTO_ENGINES =
     REPL_SLAVE_ADMIN_ACL OR SUPER_ACL"
definition PRIV_SET_SYSTEM_GLOBAL_VAR_GTID_SLAVE_POS :: privilege_t where [requirement_defs]:
  "PRIV_SET_SYSTEM_GLOBAL_VAR_GTID_SLAVE_POS =
     REPL_SLAVE_ADMIN_ACL OR SUPER_ACL"
definition PRIV_SET_SYSTEM_GLOBAL_VAR_GTID_STRICT_MODE :: privilege_t where [requirement_defs]:
  "PRIV_SET_SYSTEM_GLOBAL_VAR_GTID_STRICT_MODE =
     REPL_SLAVE_ADMIN_ACL OR SUPER_ACL"
definition PRIV_STMT_CREATE_SERVER :: privilege_t where [requirement_defs]:
  "PRIV_STMT_CREATE_SERVER =
     FEDERATED_ADMIN_ACL OR SUPER_ACL"
definition PRIV_STMT_ALTER_SERVER :: privilege_t where [requirement_defs]:
  "PRIV_STMT_ALTER_SERVER =
     FEDERATED_ADMIN_ACL OR SUPER_ACL"
definition PRIV_STMT_DROP_SERVER :: privilege_t where [requirement_defs]:
  "PRIV_STMT_DROP_SERVER =
     FEDERATED_ADMIN_ACL OR SUPER_ACL"
definition PRIV_COM_PROCESS_INFO :: privilege_t where [requirement_defs]:
  "PRIV_COM_PROCESS_INFO =
     PROCESS_ACL"
definition PRIV_STMT_SHOW_EXPLAIN :: privilege_t where [requirement_defs]:
  "PRIV_STMT_SHOW_EXPLAIN =
     PROCESS_ACL"
definition PRIV_STMT_SHOW_ENGINE_STATUS :: privilege_t where [requirement_defs]:
  "PRIV_STMT_SHOW_ENGINE_STATUS =
     PROCESS_ACL"
definition PRIV_STMT_SHOW_ENGINE_MUTEX :: privilege_t where [requirement_defs]:
  "PRIV_STMT_SHOW_ENGINE_MUTEX =
     PROCESS_ACL"
definition PRIV_STMT_SHOW_PROCESSLIST :: privilege_t where [requirement_defs]:
  "PRIV_STMT_SHOW_PROCESSLIST =
     PROCESS_ACL"

section \<open>Storage forms\<close>

definition DB_CHUNK0 :: privilege_t where [acl_defs]:
  "DB_CHUNK0 =
     COL_DML_ACLS OR CREATE_ACL OR DROP_ACL"
definition DB_CHUNK1 :: privilege_t where [acl_defs]:
  "DB_CHUNK1 =
     GRANT_ACL OR REFERENCES_ACL OR INDEX_ACL OR ALTER_ACL"
definition DB_CHUNK2 :: privilege_t where [acl_defs]:
  "DB_CHUNK2 =
     CREATE_TMP_ACL OR LOCK_TABLES_ACL"
definition DB_CHUNK3 :: privilege_t where [acl_defs]: "DB_CHUNK3 = VIEW_ACLS OR PROC_DDL_ACLS"
definition DB_CHUNK4 :: privilege_t where [acl_defs]: "DB_CHUNK4 = EXECUTE_ACL"
definition DB_CHUNK5 :: privilege_t where [acl_defs]: "DB_CHUNK5 = EVENT_ACL OR TRIGGER_ACL"
definition DB_CHUNK6 :: privilege_t where [acl_defs]: "DB_CHUNK6 = DELETE_HISTORY_ACL"

definition fix_rights_for_db :: "privilege_t \<Rightarrow> privilege_t" where
  "fix_rights_for_db A =
     (A AND DB_CHUNK0) OR
     (push_bit 4 A AND DB_CHUNK1) OR
     (push_bit 6 A AND DB_CHUNK2) OR
     (push_bit 9 A AND DB_CHUNK3) OR
     (push_bit 2 A AND DB_CHUNK4) OR
     (push_bit 9 A AND DB_CHUNK5) OR
     (push_bit 10 A AND DB_CHUNK6)"

definition get_rights_for_db :: "privilege_t \<Rightarrow> privilege_t" where
  "get_rights_for_db A =
     (A AND DB_CHUNK0) OR
     drop_bit 4 (A AND DB_CHUNK1) OR
     drop_bit 6 (A AND DB_CHUNK2) OR
     drop_bit 9 (A AND DB_CHUNK3) OR
     drop_bit 2 (A AND DB_CHUNK4) OR
     drop_bit 9 (A AND DB_CHUNK5) OR
     drop_bit 10 (A AND DB_CHUNK6)"

definition TBL_CHUNK0 :: privilege_t where [acl_defs]: "TBL_CHUNK0 = DB_CHUNK0"
definition TBL_CHUNK1 :: privilege_t where [acl_defs]: "TBL_CHUNK1 = DB_CHUNK1"
definition TBL_CHUNK2 :: privilege_t where [acl_defs]: "TBL_CHUNK2 = CREATE_VIEW_ACL OR SHOW_VIEW_ACL"
definition TBL_CHUNK3 :: privilege_t where [acl_defs]: "TBL_CHUNK3 = TRIGGER_ACL"
definition TBL_CHUNK4 :: privilege_t where [acl_defs]: "TBL_CHUNK4 = DELETE_HISTORY_ACL"

definition fix_rights_for_table :: "privilege_t \<Rightarrow> privilege_t" where
  "fix_rights_for_table A =
     (A AND TBL_CHUNK0) OR
     (push_bit 4 A AND TBL_CHUNK1) OR
     (push_bit 11 A AND TBL_CHUNK2) OR
     (push_bit 15 A AND TBL_CHUNK3) OR
     (push_bit 16 A AND TBL_CHUNK4)"

definition get_rights_for_table :: "privilege_t \<Rightarrow> privilege_t" where
  "get_rights_for_table A =
     (A AND TBL_CHUNK0) OR
     drop_bit 4 (A AND TBL_CHUNK1) OR
     drop_bit 11 (A AND TBL_CHUNK2) OR
     drop_bit 15 (A AND TBL_CHUNK3) OR
     drop_bit 16 (A AND TBL_CHUNK4)"

definition fix_rights_for_column :: "privilege_t \<Rightarrow> privilege_t" where
  "fix_rights_for_column A =
     (let m = SELECT_ACL OR INSERT_ACL OR UPDATE_ACL
      in (A AND m) OR push_bit 8 (A AND NOT m))"

definition get_rights_for_column :: "privilege_t \<Rightarrow> privilege_t" where
  "get_rights_for_column A =
     (let m = SELECT_ACL OR INSERT_ACL OR UPDATE_ACL
      in (A AND m) OR drop_bit 8 A)"

definition fix_rights_for_procedure :: "privilege_t \<Rightarrow> privilege_t" where
  "fix_rights_for_procedure A =
     (push_bit 18 A AND EXECUTE_ACL) OR
     (push_bit 23 A AND ALTER_PROC_ACL) OR
     (push_bit 8 A AND GRANT_ACL)"

definition get_rights_for_procedure :: "privilege_t \<Rightarrow> privilege_t" where
  "get_rights_for_procedure A =
     drop_bit 18 (A AND EXECUTE_ACL) OR
     drop_bit 23 (A AND ALTER_PROC_ACL) OR
     drop_bit 8 (A AND GRANT_ACL)"

section \<open>The contract of a codec\<close>

text \<open>
  \<open>dec\<close> reads the stored form (its \<open>n\<close> low bits), \<open>enc\<close> writes it; \<open>acls\<close> are the privileges of the
  level. Both directions are given bit by bit by an injection \<open>pos\<close> of the stored positions.
\<close>

locale rights_codec =
  fixes dec :: "privilege_t \<Rightarrow> privilege_t"
    and enc :: "privilege_t \<Rightarrow> privilege_t"
    and acls :: privilege_t
    and n :: nat
    and pos :: "nat \<Rightarrow> nat"
  assumes dec_bit: "unat a < 2 ^ n \<Longrightarrow> bit (dec a) i \<longleftrightarrow> (\<exists>k<n. i = pos k \<and> bit a k)"
    and enc_bit: "a AND NOT acls = 0 \<Longrightarrow> bit (enc a) k \<longleftrightarrow> k < n \<and> bit a (pos k)"
    and pos_inj: "k < n \<Longrightarrow> l < n \<Longrightarrow> pos k = pos l \<Longrightarrow> k = l"
    and acls_bit: "bit acls i \<longleftrightarrow> (\<exists>k<n. i = pos k)"
    and width: "n < 64"
begin

lemma within: "a AND NOT acls = 0 \<longleftrightarrow> (\<forall>i. bit a i \<longrightarrow> (\<exists>k<n. i = pos k))"
  unfolding acls_bit [symmetric]
  using bit_below_64 [of a] by (auto simp: bit_eq_iff bit_and_iff bit_not_iff)

lemma below: "unat a < 2 ^ n \<longleftrightarrow> (\<forall>i. bit a i \<longrightarrow> i < n)" for a :: privilege_t
proof
  assume "\<forall>i. bit a i \<longrightarrow> i < n"
  then have "take_bit n a = a" by (auto simp: bit_eq_iff bit_take_bit_iff)
  then show "unat a < 2 ^ n" by (simp add: take_bit_same_iff)
qed (meson not_le unat_lt_2p_bit)

lemma dec_within: "unat a < 2 ^ n \<Longrightarrow> dec a AND NOT acls = 0"
  by (auto simp: within dec_bit)

lemma enc_below: "a AND NOT acls = 0 \<Longrightarrow> unat (enc a) < 2 ^ n"
  by (simp add: below enc_bit)

lemma enc_dec: "unat a < 2 ^ n \<Longrightarrow> enc (dec a) = a"
  using pos_inj by (intro bit_eqI) (auto simp: enc_bit dec_within dec_bit below)

lemma dec_enc: "a AND NOT acls = 0 \<Longrightarrow> dec (enc a) = a"
  by (rule bit_eqI) (auto simp: dec_bit enc_below enc_bit within)

text \<open>Storing a union of privileges stores the union of the bits, so a grant never loses one.\<close>

lemma dec_or:
  assumes "unat a < 2 ^ n" "unat b < 2 ^ n"
  shows "dec (a OR b) = dec a OR dec b"
proof -
  have "unat (a OR b) < 2 ^ n" using assms by (auto simp: below bit_or_iff)
  with assms show ?thesis by (auto simp: bit_eq_iff dec_bit bit_or_iff)
qed

lemma enc_or:
  assumes "a AND NOT acls = 0" "b AND NOT acls = 0"
  shows "enc (a OR b) = enc a OR enc b"
proof -
  have "(a OR b) AND NOT acls = 0" using assms by (auto simp: within bit_or_iff)
  with assms show ?thesis by (auto simp: bit_eq_iff enc_bit bit_or_iff)
qed

lemma codec:
  "(\<forall>a. unat a < 2 ^ n \<longrightarrow> enc (dec a) = a \<and> dec a AND NOT acls = 0)
   \<and> (\<forall>a. a AND NOT acls = 0 \<longrightarrow> dec (enc a) = a \<and> unat (enc a) < 2 ^ n)"
  by (simp add: enc_dec dec_enc dec_within enc_below)

end

section \<open>Chunked codecs\<close>

text \<open>
  A chunk \<open>(s, lo, len)\<close> keeps \<open>len\<close> privileges from bit \<open>lo\<close> on, stored \<open>s\<close> positions lower. The
  routines for databases, tables and routines are lists of chunks written out.
\<close>

type_synonym chunk = "nat \<times> nat \<times> nat"

definition chunk_dec :: "chunk list \<Rightarrow> privilege_t \<Rightarrow> privilege_t" where
  "chunk_dec cs a = foldr (\<lambda>(s, lo, len) r. (push_bit s a AND push_bit lo (mask len)) OR r) cs 0"

definition chunk_enc :: "chunk list \<Rightarrow> privilege_t \<Rightarrow> privilege_t" where
  "chunk_enc cs a = foldr (\<lambda>(s, lo, len) r. drop_bit s (a AND push_bit lo (mask len)) OR r) cs 0"

definition chunk_acls :: "chunk list \<Rightarrow> privilege_t" where
  "chunk_acls cs = foldr (\<lambda>(s, lo, len) r. push_bit lo (mask len) OR r) cs 0"

text \<open>The position of a stored bit, and what makes a list of chunks a partition of \<open>n\<close> stored bits.\<close>

fun chunk_pos :: "chunk list \<Rightarrow> nat \<Rightarrow> nat" where
  "chunk_pos [] k = k"
| "chunk_pos ((s, lo, len) # cs) k = (if lo \<le> k + s \<and> k + s < lo + len then k + s else chunk_pos cs k)"

definition chunks_ok :: "chunk list \<Rightarrow> nat \<Rightarrow> bool" where
  "chunks_ok cs n \<longleftrightarrow> n < 64 \<and> distinct (map (chunk_pos cs) [0..<n])
     \<and> list_all (\<lambda>(s, lo, len). s \<le> lo \<and> lo + len \<le> 64
          \<and> list_all (\<lambda>i. i - s < n \<and> chunk_pos cs (i - s) = i) [lo..<lo + len]) cs
     \<and> list_all (\<lambda>k. list_ex (\<lambda>(s, lo, len). lo \<le> chunk_pos cs k \<and> chunk_pos cs k < lo + len
          \<and> chunk_pos cs k = k + s) cs) [0..<n]"

lemma bit_chunk: "bit (push_bit s (mask m) :: privilege_t) i \<longleftrightarrow> s \<le> i \<and> i < s + m \<and> i < 64"
  by (auto simp: bit_push_bit_iff bit_mask_iff)

lemma bit_dec: "bit (chunk_dec cs a) i \<longleftrightarrow>
    (\<exists>(s, lo, len) \<in> set cs. lo \<le> i \<and> i < lo + len \<and> i < 64 \<and> s \<le> i \<and> bit a (i - s))"
  by (induction cs) (auto simp: chunk_dec_def bit_or_iff bit_and_iff bit_push_bit_iff bit_mask_iff)

lemma bit_enc: "bit (chunk_enc cs a) k \<longleftrightarrow>
    (\<exists>(s, lo, len) \<in> set cs. lo \<le> k + s \<and> k + s < lo + len \<and> bit a (k + s))"
  using bit_below_64 [of a]
  by (induction cs) (auto simp: chunk_enc_def bit_or_iff bit_and_iff bit_chunk bit_drop_bit_eq add.commute)

lemma bit_acls: "bit (chunk_acls cs) i \<longleftrightarrow> (\<exists>(s, lo, len) \<in> set cs. lo \<le> i \<and> i < lo + len \<and> i < 64)"
  by (induction cs) (auto simp: chunk_acls_def bit_or_iff bit_chunk)

lemma chunk_of:
  assumes "chunks_ok cs n" "(s, lo, len) \<in> set cs" "lo \<le> i" "i < lo + len"
  shows "s \<le> i" "i < 64" "i - s < n" "chunk_pos cs (i - s) = i"
  using assms by (fastforce simp: chunks_ok_def list_all_iff)+

lemma chunk_exists:
  assumes "chunks_ok cs n" "k < n"
  obtains s lo len where "(s, lo, len) \<in> set cs" "lo \<le> chunk_pos cs k" "chunk_pos cs k < lo + len"
    "chunk_pos cs k = k + s"
proof -
  have "list_ex (\<lambda>(s, lo, len). lo \<le> chunk_pos cs k \<and> chunk_pos cs k < lo + len
      \<and> chunk_pos cs k = k + s) cs"
    using assms by (simp add: chunks_ok_def list_all_iff)
  then show ?thesis using that by (auto simp: list_ex_iff)
qed

lemma chunk_codec:
  assumes ok: "chunks_ok cs n"
  shows "rights_codec (chunk_dec cs) (chunk_enc cs) (chunk_acls cs) n (chunk_pos cs)"
proof
  fix a i
  show "bit (chunk_dec cs a) i \<longleftrightarrow> (\<exists>k<n. i = chunk_pos cs k \<and> bit a k)"
  proof
    assume "bit (chunk_dec cs a) i"
    then obtain s lo len where c: "(s, lo, len) \<in> set cs" "lo \<le> i" "i < lo + len" "bit a (i - s)"
      unfolding bit_dec by blast
    from chunk_of [OF ok c(1-3)] c(4) show "\<exists>k<n. i = chunk_pos cs k \<and> bit a k" by metis
  next
    assume "\<exists>k<n. i = chunk_pos cs k \<and> bit a k"
    then obtain k where k: "k < n" "i = chunk_pos cs k" "bit a k" by blast
    from chunk_exists [OF ok k(1)] obtain s lo len where
      c: "(s, lo, len) \<in> set cs" "lo \<le> i" "i < lo + len" "i = k + s" unfolding k(2) by metis
    from chunk_of [OF ok c(1-3)] c k(3) show "bit (chunk_dec cs a) i"
      unfolding bit_dec by (intro bexI [OF _ c(1)]) simp
  qed
next
  fix a k
  show "bit (chunk_enc cs a) k \<longleftrightarrow> k < n \<and> bit a (chunk_pos cs k)"
  proof
    assume "bit (chunk_enc cs a) k"
    then obtain s lo len where c: "(s, lo, len) \<in> set cs" "lo \<le> k + s" "k + s < lo + len" "bit a (k + s)"
      unfolding bit_enc by blast
    from chunk_of [OF ok c(1-3)] c(4) show "k < n \<and> bit a (chunk_pos cs k)" by simp
  next
    assume k: "k < n \<and> bit a (chunk_pos cs k)"
    with chunk_exists [OF ok] obtain s lo len where
      "(s, lo, len) \<in> set cs" "lo \<le> k + s" "k + s < lo + len" "chunk_pos cs k = k + s" by metis
    with k show "bit (chunk_enc cs a) k" unfolding bit_enc by force
  qed
next
  fix k l assume "k < n" "l < n" "chunk_pos cs k = chunk_pos cs l"
  then show "k = l" using ok by (auto simp: chunks_ok_def distinct_map inj_on_def)
next
  fix i show "bit (chunk_acls cs) i \<longleftrightarrow> (\<exists>k<n. i = chunk_pos cs k)"
  proof
    assume "bit (chunk_acls cs) i"
    then obtain s lo len where c: "(s, lo, len) \<in> set cs" "lo \<le> i" "i < lo + len"
      unfolding bit_acls by blast
    from chunk_of [OF ok c] show "\<exists>k<n. i = chunk_pos cs k" by metis
  next
    assume "\<exists>k<n. i = chunk_pos cs k"
    then obtain k where k: "k < n" "i = chunk_pos cs k" by blast
    from chunk_exists [OF ok k(1)] obtain s lo len where
      c: "(s, lo, len) \<in> set cs" "lo \<le> i" "i < lo + len" unfolding k(2) by metis
    from chunk_of(2) [OF ok c] c show "bit (chunk_acls cs) i" unfolding bit_acls by blast
  qed
next
  show "n < 64" using ok by (simp add: chunks_ok_def)
qed

section \<open>The four levels\<close>

definition db_chunks :: "chunk list" where
  "db_chunks = [(0, 0, 6), (4, 10, 4), (6, 16, 2), (9, 21, 4), (2, 18, 1), (9, 26, 2), (10, 29, 1)]"

definition table_chunks :: "chunk list" where
  "table_chunks = [(0, 0, 6), (4, 10, 4), (11, 21, 2), (15, 27, 1), (16, 29, 1)]"

definition column_chunks :: "chunk list" where
  "column_chunks = [(0, 0, 3), (8, 11, 1)]"

definition procedure_chunks :: "chunk list" where
  "procedure_chunks = [(18, 18, 1), (23, 24, 1), (8, 10, 1)]"

lemma chunk_masks:
  "DB_CHUNK0 = push_bit 0 (mask 6)" "DB_CHUNK1 = push_bit 10 (mask 4)" "DB_CHUNK2 = push_bit 16 (mask 2)"
  "DB_CHUNK3 = push_bit 21 (mask 4)" "DB_CHUNK4 = push_bit 18 (mask 1)"
  "DB_CHUNK5 = push_bit 26 (mask 2)" "DB_CHUNK6 = push_bit 29 (mask 1)"
  "TBL_CHUNK0 = push_bit 0 (mask 6)" "TBL_CHUNK1 = push_bit 10 (mask 4)"
  "TBL_CHUNK2 = push_bit 21 (mask 2)" "TBL_CHUNK3 = push_bit 27 (mask 1)"
  "TBL_CHUNK4 = push_bit 29 (mask 1)"
  "EXECUTE_ACL = push_bit 18 (mask 1)" "ALTER_PROC_ACL = push_bit 24 (mask 1)"
  "GRANT_ACL = push_bit 10 (mask 1)"
  by code_simp+

lemma level_masks:
  "DB_ACLS = chunk_acls db_chunks" "TABLE_ACLS = chunk_acls table_chunks"
  "COL_ACLS = chunk_acls column_chunks" "PROC_ACLS = chunk_acls procedure_chunks"
  by code_simp+

lemma levels_ok:
  "chunks_ok db_chunks 20" "chunks_ok table_chunks 14" "chunks_ok column_chunks 4"
  "chunks_ok procedure_chunks 3"
  by code_simp+

lemma db_chunked:
  "fix_rights_for_db = chunk_dec db_chunks" "get_rights_for_db = chunk_enc db_chunks"
  by (simp_all add: fun_eq_iff fix_rights_for_db_def get_rights_for_db_def chunk_dec_def chunk_enc_def
      db_chunks_def chunk_masks or.assoc)

lemma table_chunked:
  "fix_rights_for_table = chunk_dec table_chunks" "get_rights_for_table = chunk_enc table_chunks"
  by (simp_all add: fun_eq_iff fix_rights_for_table_def get_rights_for_table_def chunk_dec_def
      chunk_enc_def table_chunks_def chunk_masks or.assoc)

lemma procedure_chunked:
  "fix_rights_for_procedure = chunk_dec procedure_chunks"
  "get_rights_for_procedure = chunk_enc procedure_chunks"
  by (simp_all add: fun_eq_iff fix_rights_for_procedure_def get_rights_for_procedure_def chunk_dec_def
      chunk_enc_def procedure_chunks_def chunk_masks or.assoc)

interpretation db: rights_codec fix_rights_for_db get_rights_for_db DB_ACLS 20 "chunk_pos db_chunks"
  unfolding db_chunked level_masks by (rule chunk_codec [OF levels_ok(1)])

interpretation table: rights_codec fix_rights_for_table get_rights_for_table TABLE_ACLS 14
  "chunk_pos table_chunks"
  unfolding table_chunked level_masks by (rule chunk_codec [OF levels_ok(2)])

interpretation proc: rights_codec fix_rights_for_procedure get_rights_for_procedure PROC_ACLS 3
  "chunk_pos procedure_chunks"
  unfolding procedure_chunked level_masks by (rule chunk_codec [OF levels_ok(4)])

text \<open>The column routines do not mask the upper part; on the privileges of a column it is all they have.\<close>

lemma bits_below: "unat a < 2 ^ n \<Longrightarrow> bit a i \<Longrightarrow> i < n" for a :: privilege_t
  using unat_lt_2p_bit [of a n i] by (cases "i < n") auto

lemma column_mask: "SELECT_ACL OR INSERT_ACL OR UPDATE_ACL = mask 3"
  by code_simp

lemma column_fix:
  assumes "unat a < 2 ^ 4"
  shows "fix_rights_for_column a = chunk_dec column_chunks a"
proof (rule bit_word_eqI)
  fix i :: nat assume i: "i < LENGTH(64)"
  have "bit a (i - 8) \<Longrightarrow> i < 12" using bits_below [OF assms, of "i - 8"] by linarith
  then show "bit (fix_rights_for_column a) i = bit (chunk_dec column_chunks a) i"
    using i unfolding fix_rights_for_column_def Let_def column_mask bit_dec column_chunks_def
    by (auto simp: bit_or_iff bit_and_iff bit_not_iff bit_push_bit_iff bit_mask_iff)
qed

lemma column_get:
  assumes "a AND NOT COL_ACLS = 0"
  shows "get_rights_for_column a = chunk_enc column_chunks a"
proof (rule bit_word_eqI)
  fix i :: nat assume i: "i < LENGTH(64)"
  have "bit COL_ACLS j" if "bit a j" for j
  proof (rule ccontr)
    assume "\<not> bit COL_ACLS j"
    with that bit_below_64 [OF that] have "bit (a AND NOT COL_ACLS) j"
      by (simp add: bit_and_iff bit_not_iff)
    with assms show False by simp
  qed
  then have "j < 3 \<or> j = 11" if "bit a j" for j
    using that unfolding level_masks bit_acls column_chunks_def by force
  from this [of "8 + i"] show "bit (get_rights_for_column a) i = bit (chunk_enc column_chunks a) i"
    using i unfolding get_rights_for_column_def Let_def column_mask bit_enc column_chunks_def
    by (auto simp: bit_or_iff bit_and_iff bit_drop_bit_eq bit_mask_iff add.commute)
qed

interpretation column: rights_codec fix_rights_for_column get_rights_for_column COL_ACLS 4
  "chunk_pos column_chunks"
proof (unfold_locales)
  fix a i
  show "unat a < 2 ^ 4 \<Longrightarrow> bit (fix_rights_for_column a) i \<longleftrightarrow>
      (\<exists>k<4. i = chunk_pos column_chunks k \<and> bit a k)"
    using rights_codec.dec_bit [OF chunk_codec [OF levels_ok(3)]] by (simp add: column_fix)
next
  fix a k
  show "a AND NOT COL_ACLS = 0 \<Longrightarrow> bit (get_rights_for_column a) k \<longleftrightarrow>
      k < 4 \<and> bit a (chunk_pos column_chunks k)"
    using rights_codec.enc_bit [OF chunk_codec [OF levels_ok(3)]] by (simp add: column_get level_masks)
next
  fix k l :: nat
  show "k < 4 \<Longrightarrow> l < 4 \<Longrightarrow> chunk_pos column_chunks k = chunk_pos column_chunks l \<Longrightarrow> k = l"
    using rights_codec.pos_inj [OF chunk_codec [OF levels_ok(3)]] by blast
next
  fix i
  show "bit COL_ACLS i \<longleftrightarrow> (\<exists>k<4. i = chunk_pos column_chunks k)"
    unfolding level_masks by (rule rights_codec.acls_bit [OF chunk_codec [OF levels_ok(3)]])
qed simp

section \<open>Properties\<close>

text \<open>All the requirements the header defines, and the block for slave related global variables.\<close>

definition all_requirements :: "privilege_t list" where
  "all_requirements = [
     PRIV_LOCK_TABLES, PRIV_DEFINER_CLAUSE, PRIV_REVEAL_MISSING_DEFINER, PRIV_DES_DECRYPT_ONE_ARG,
     PRIV_LOG_BIN_TRUSTED_SP_CREATOR, PRIV_DEBUG, PRIV_SET_GLOBAL_SYSTEM_VARIABLE,
     PRIV_SET_RESTRICTED_SESSION_SYSTEM_VARIABLE, PRIV_SET_SYSTEM_VAR_BINLOG_FORMAT,
     PRIV_SET_SYSTEM_VAR_BINLOG_DIRECT_NON_TRANSACTIONAL_UPDATES,
     PRIV_SET_SYSTEM_VAR_BINLOG_ANNOTATE_ROW_EVENTS, PRIV_SET_SYSTEM_VAR_BINLOG_ROW_IMAGE,
     PRIV_SET_SYSTEM_VAR_SQL_LOG_BIN, PRIV_SET_SYSTEM_GLOBAL_VAR_BINLOG_CACHE_SIZE,
     PRIV_SET_SYSTEM_GLOBAL_VAR_BINLOG_FILE_CACHE_SIZE,
     PRIV_SET_SYSTEM_GLOBAL_VAR_BINLOG_STMT_CACHE_SIZE,
     PRIV_SET_SYSTEM_GLOBAL_VAR_BINLOG_COMMIT_WAIT_COUNT,
     PRIV_SET_SYSTEM_GLOBAL_VAR_BINLOG_COMMIT_WAIT_USEC,
     PRIV_SET_SYSTEM_GLOBAL_VAR_BINLOG_ROW_METADATA, PRIV_SET_SYSTEM_GLOBAL_VAR_EXPIRE_LOGS_DAYS,
     PRIV_SET_SYSTEM_GLOBAL_VAR_LOG_BIN_COMPRESS,
     PRIV_SET_SYSTEM_GLOBAL_VAR_LOG_BIN_COMPRESS_MIN_LEN,
     PRIV_SET_SYSTEM_GLOBAL_VAR_LOG_BIN_TRUST_FUNCTION_CREATORS,
     PRIV_SET_SYSTEM_GLOBAL_VAR_MAX_BINLOG_CACHE_SIZE,
     PRIV_SET_SYSTEM_GLOBAL_VAR_MAX_BINLOG_STMT_CACHE_SIZE,
     PRIV_SET_SYSTEM_GLOBAL_VAR_MAX_BINLOG_SIZE, PRIV_SET_SYSTEM_GLOBAL_VAR_SYNC_BINLOG,
     PRIV_IGNORE_READ_ONLY, PRIV_SET_SYSTEM_GLOBAL_VAR_READ_ONLY, PRIV_IGNORE_INIT_CONNECT,
     PRIV_IGNORE_MAX_USER_CONNECTIONS, PRIV_IGNORE_MAX_CONNECTIONS,
     PRIV_IGNORE_MAX_PASSWORD_ERRORS, PRIV_KILL_OTHER_USER_PROCESS,
     PRIV_SET_SYSTEM_GLOBAL_VAR_CONNECT_TIMEOUT,
     PRIV_SET_SYSTEM_GLOBAL_VAR_DISCONNECT_ON_EXPIRED_PASSWORD,
     PRIV_SET_SYSTEM_GLOBAL_VAR_EXTRA_MAX_CONNECTIONS, PRIV_SET_SYSTEM_GLOBAL_VAR_INIT_CONNECT,
     PRIV_SET_SYSTEM_GLOBAL_VAR_MAX_CONNECTIONS, PRIV_SET_SYSTEM_GLOBAL_VAR_MAX_CONNECT_ERRORS,
     PRIV_SET_SYSTEM_GLOBAL_VAR_MAX_PASSWORD_ERRORS,
     PRIV_SET_SYSTEM_GLOBAL_VAR_PROXY_PROTOCOL_NETWORKS, PRIV_SET_SYSTEM_GLOBAL_VAR_SECURE_AUTH,
     PRIV_SET_SYSTEM_GLOBAL_VAR_SLOW_LAUNCH_TIME, PRIV_SET_SYSTEM_GLOBAL_VAR_THREAD_POOL,
     PRIV_STMT_SHOW_BINLOG_STATUS, PRIV_STMT_SHOW_BINARY_LOGS, PRIV_STMT_PURGE_BINLOG,
     PRIV_STMT_SHOW_BINLOG_EVENTS, PRIV_COM_REGISTER_SLAVE, PRIV_COM_BINLOG_DUMP,
     PRIV_STMT_SHOW_SLAVE_HOSTS, PRIV_SET_SYSTEM_GLOBAL_VAR_RPL_SEMI_SYNC_MASTER_ENABLED,
     PRIV_SET_SYSTEM_GLOBAL_VAR_RPL_SEMI_SYNC_MASTER_TIMEOUT,
     PRIV_SET_SYSTEM_GLOBAL_VAR_RPL_SEMI_SYNC_MASTER_WAIT_NO_SLAVE,
     PRIV_SET_SYSTEM_GLOBAL_VAR_RPL_SEMI_SYNC_MASTER_TRACE_LEVEL,
     PRIV_SET_SYSTEM_GLOBAL_VAR_RPL_SEMI_SYNC_MASTER_WAIT_POINT,
     PRIV_SET_SYSTEM_GLOBAL_VAR_MASTER_VERIFY_CHECKSUM,
     PRIV_SET_SYSTEM_GLOBAL_VAR_GTID_BINLOG_STATE, PRIV_SET_SYSTEM_GLOBAL_VAR_SERVER_ID,
     PRIV_SET_SYSTEM_GLOBAL_VAR_GTID_DOMAIN_ID, PRIV_STMT_START_SLAVE, PRIV_STMT_STOP_SLAVE,
     PRIV_STMT_CHANGE_MASTER, PRIV_STMT_SHOW_SLAVE_STATUS, PRIV_STMT_SHOW_RELAYLOG_EVENTS,
     PRIV_STMT_BINLOG, PRIV_SET_SYSTEM_SESSION_VAR_GTID_SEQ_NO,
     PRIV_SET_SYSTEM_SESSION_VAR_PSEUDO_THREAD_ID, PRIV_SET_SYSTEM_SESSION_VAR_SERVER_ID,
     PRIV_SET_SYSTEM_SESSION_VAR_GTID_DOMAIN_ID,
     PRIV_SET_SYSTEM_GLOBAL_VAR_REPLICATE_EVENTS_MARKED_FOR_SKIP,
     PRIV_SET_SYSTEM_GLOBAL_VAR_REPLICATE_REWRITE_DB, PRIV_SET_SYSTEM_GLOBAL_VAR_REPLICATE_DO_DB,
     PRIV_SET_SYSTEM_GLOBAL_VAR_REPLICATE_DO_TABLE, PRIV_SET_SYSTEM_GLOBAL_VAR_REPLICATE_IGNORE_DB,
     PRIV_SET_SYSTEM_GLOBAL_VAR_REPLICATE_IGNORE_TABLE,
     PRIV_SET_SYSTEM_GLOBAL_VAR_REPLICATE_WILD_DO_TABLE,
     PRIV_SET_SYSTEM_GLOBAL_VAR_REPLICATE_WILD_IGNORE_TABLE,
     PRIV_SET_SYSTEM_GLOBAL_VAR_READ_BINLOG_SPEED_LIMIT,
     PRIV_SET_SYSTEM_GLOBAL_VAR_SLAVE_COMPRESSED_PROTOCOL,
     PRIV_SET_SYSTEM_GLOBAL_VAR_SLAVE_DDL_EXEC_MODE,
     PRIV_SET_SYSTEM_GLOBAL_VAR_SLAVE_DOMAIN_PARALLEL_THREADS,
     PRIV_SET_SYSTEM_GLOBAL_VAR_SLAVE_EXEC_MODE,
     PRIV_SET_SYSTEM_GLOBAL_VAR_SLAVE_MAX_ALLOWED_PACKET,
     PRIV_SET_SYSTEM_GLOBAL_VAR_SLAVE_MAX_STATEMENT_TIME,
     PRIV_SET_SYSTEM_GLOBAL_VAR_SLAVE_NET_TIMEOUT,
     PRIV_SET_SYSTEM_GLOBAL_VAR_SLAVE_PARALLEL_MAX_QUEUED,
     PRIV_SET_SYSTEM_GLOBAL_VAR_SLAVE_PARALLEL_MODE,
     PRIV_SET_SYSTEM_GLOBAL_VAR_SLAVE_PARALLEL_THREADS,
     PRIV_SET_SYSTEM_GLOBAL_VAR_SLAVE_PARALLEL_WORKERS,
     PRIV_SET_SYSTEM_GLOBAL_VAR_SLAVE_RUN_TRIGGERS_FOR_RBR,
     PRIV_SET_SYSTEM_GLOBAL_VAR_SLAVE_SQL_VERIFY_CHECKSUM,
     PRIV_SET_SYSTEM_GLOBAL_VAR_SLAVE_TRANSACTION_RETRY_INTERVAL,
     PRIV_SET_SYSTEM_GLOBAL_VAR_SLAVE_TYPE_CONVERSIONS, PRIV_SET_SYSTEM_GLOBAL_VAR_INIT_SLAVE,
     PRIV_SET_SYSTEM_GLOBAL_VAR_RPL_SEMI_SYNC_SLAVE_ENABLED,
     PRIV_SET_SYSTEM_GLOBAL_VAR_RPL_SEMI_SYNC_SLAVE_TRACE_LEVEL,
     PRIV_SET_SYSTEM_GLOBAL_VAR_RPL_SEMI_SYNC_SLAVE_DELAY_MASTER,
     PRIV_SET_SYSTEM_GLOBAL_VAR_RPL_SEMI_SYNC_SLAVE_KILL_CONN_TIMEOUT,
     PRIV_SET_SYSTEM_GLOBAL_VAR_RELAY_LOG_PURGE, PRIV_SET_SYSTEM_GLOBAL_VAR_RELAY_LOG_RECOVERY,
     PRIV_SET_SYSTEM_GLOBAL_VAR_SYNC_MASTER_INFO, PRIV_SET_SYSTEM_GLOBAL_VAR_SYNC_RELAY_LOG,
     PRIV_SET_SYSTEM_GLOBAL_VAR_SYNC_RELAY_LOG_INFO,
     PRIV_SET_SYSTEM_GLOBAL_VAR_GTID_CLEANUP_BATCH_SIZE,
     PRIV_SET_SYSTEM_GLOBAL_VAR_GTID_IGNORE_DUPLICATES,
     PRIV_SET_SYSTEM_GLOBAL_VAR_GTID_POS_AUTO_ENGINES, PRIV_SET_SYSTEM_GLOBAL_VAR_GTID_SLAVE_POS,
     PRIV_SET_SYSTEM_GLOBAL_VAR_GTID_STRICT_MODE, PRIV_STMT_CREATE_SERVER, PRIV_STMT_ALTER_SERVER,
     PRIV_STMT_DROP_SERVER, PRIV_COM_PROCESS_INFO, PRIV_STMT_SHOW_EXPLAIN,
     PRIV_STMT_SHOW_ENGINE_STATUS, PRIV_STMT_SHOW_ENGINE_MUTEX, PRIV_STMT_SHOW_PROCESSLIST]"

definition slave_variable_requirements :: "privilege_t list" where
  "slave_variable_requirements = [
     PRIV_SET_SYSTEM_GLOBAL_VAR_REPLICATE_EVENTS_MARKED_FOR_SKIP,
     PRIV_SET_SYSTEM_GLOBAL_VAR_REPLICATE_REWRITE_DB, PRIV_SET_SYSTEM_GLOBAL_VAR_REPLICATE_DO_DB,
     PRIV_SET_SYSTEM_GLOBAL_VAR_REPLICATE_DO_TABLE, PRIV_SET_SYSTEM_GLOBAL_VAR_REPLICATE_IGNORE_DB,
     PRIV_SET_SYSTEM_GLOBAL_VAR_REPLICATE_IGNORE_TABLE,
     PRIV_SET_SYSTEM_GLOBAL_VAR_REPLICATE_WILD_DO_TABLE,
     PRIV_SET_SYSTEM_GLOBAL_VAR_REPLICATE_WILD_IGNORE_TABLE,
     PRIV_SET_SYSTEM_GLOBAL_VAR_READ_BINLOG_SPEED_LIMIT,
     PRIV_SET_SYSTEM_GLOBAL_VAR_SLAVE_COMPRESSED_PROTOCOL,
     PRIV_SET_SYSTEM_GLOBAL_VAR_SLAVE_DDL_EXEC_MODE,
     PRIV_SET_SYSTEM_GLOBAL_VAR_SLAVE_DOMAIN_PARALLEL_THREADS,
     PRIV_SET_SYSTEM_GLOBAL_VAR_SLAVE_EXEC_MODE,
     PRIV_SET_SYSTEM_GLOBAL_VAR_SLAVE_MAX_ALLOWED_PACKET,
     PRIV_SET_SYSTEM_GLOBAL_VAR_SLAVE_MAX_STATEMENT_TIME,
     PRIV_SET_SYSTEM_GLOBAL_VAR_SLAVE_NET_TIMEOUT,
     PRIV_SET_SYSTEM_GLOBAL_VAR_SLAVE_PARALLEL_MAX_QUEUED,
     PRIV_SET_SYSTEM_GLOBAL_VAR_SLAVE_PARALLEL_MODE,
     PRIV_SET_SYSTEM_GLOBAL_VAR_SLAVE_PARALLEL_THREADS,
     PRIV_SET_SYSTEM_GLOBAL_VAR_SLAVE_PARALLEL_WORKERS,
     PRIV_SET_SYSTEM_GLOBAL_VAR_SLAVE_RUN_TRIGGERS_FOR_RBR,
     PRIV_SET_SYSTEM_GLOBAL_VAR_SLAVE_SQL_VERIFY_CHECKSUM,
     PRIV_SET_SYSTEM_GLOBAL_VAR_SLAVE_TRANSACTION_RETRY_INTERVAL,
     PRIV_SET_SYSTEM_GLOBAL_VAR_SLAVE_TYPE_CONVERSIONS, PRIV_SET_SYSTEM_GLOBAL_VAR_INIT_SLAVE,
     PRIV_SET_SYSTEM_GLOBAL_VAR_RPL_SEMI_SYNC_SLAVE_ENABLED,
     PRIV_SET_SYSTEM_GLOBAL_VAR_RPL_SEMI_SYNC_SLAVE_TRACE_LEVEL,
     PRIV_SET_SYSTEM_GLOBAL_VAR_RPL_SEMI_SYNC_SLAVE_DELAY_MASTER,
     PRIV_SET_SYSTEM_GLOBAL_VAR_RPL_SEMI_SYNC_SLAVE_KILL_CONN_TIMEOUT,
     PRIV_SET_SYSTEM_GLOBAL_VAR_RELAY_LOG_PURGE, PRIV_SET_SYSTEM_GLOBAL_VAR_RELAY_LOG_RECOVERY,
     PRIV_SET_SYSTEM_GLOBAL_VAR_SYNC_MASTER_INFO, PRIV_SET_SYSTEM_GLOBAL_VAR_SYNC_RELAY_LOG,
     PRIV_SET_SYSTEM_GLOBAL_VAR_SYNC_RELAY_LOG_INFO,
     PRIV_SET_SYSTEM_GLOBAL_VAR_GTID_CLEANUP_BATCH_SIZE,
     PRIV_SET_SYSTEM_GLOBAL_VAR_GTID_IGNORE_DUPLICATES,
     PRIV_SET_SYSTEM_GLOBAL_VAR_GTID_POS_AUTO_ENGINES, PRIV_SET_SYSTEM_GLOBAL_VAR_GTID_SLAVE_POS,
     PRIV_SET_SYSTEM_GLOBAL_VAR_GTID_STRICT_MODE]"

lemma required_bits:
  "SELECT_ACL AND NOT (mask 39) = 0" "PROCESS_ACL AND NOT (mask 39) = 0" "SUPER_ACL AND NOT (mask 39) = 0"
  "LOCK_TABLES_ACL AND NOT (mask 39) = 0" "REPL_SLAVE_ACL AND NOT (mask 39) = 0"
  "BINLOG_MONITOR_ACL AND NOT (mask 39) = 0" "SET_USER_ACL AND NOT (mask 39) = 0"
  "FEDERATED_ADMIN_ACL AND NOT (mask 39) = 0" "CONNECTION_ADMIN_ACL AND NOT (mask 39) = 0"
  "READ_ONLY_ADMIN_ACL AND NOT (mask 39) = 0" "REPL_SLAVE_ADMIN_ACL AND NOT (mask 39) = 0"
  "REPL_MASTER_ADMIN_ACL AND NOT (mask 39) = 0" "BINLOG_ADMIN_ACL AND NOT (mask 39) = 0"
  "BINLOG_REPLAY_ACL AND NOT (mask 39) = 0" "SLAVE_MONITOR_ACL AND NOT (mask 39) = 0"
  "SELECT_ACL \<noteq> 0" "PROCESS_ACL \<noteq> 0" "SUPER_ACL \<noteq> 0" "LOCK_TABLES_ACL \<noteq> 0"
  "REPL_SLAVE_ACL \<noteq> 0" "BINLOG_MONITOR_ACL \<noteq> 0" "SET_USER_ACL \<noteq> 0"
  "FEDERATED_ADMIN_ACL \<noteq> 0" "CONNECTION_ADMIN_ACL \<noteq> 0"
  "READ_ONLY_ADMIN_ACL \<noteq> 0" "REPL_SLAVE_ADMIN_ACL \<noteq> 0"
  "REPL_MASTER_ADMIN_ACL \<noteq> 0" "BINLOG_ADMIN_ACL \<noteq> 0" "BINLOG_REPLAY_ACL \<noteq> 0"
  "SLAVE_MONITOR_ACL \<noteq> 0"
  by code_simp+

lemma or_within: "(a OR b) AND c = (a AND c) OR (b AND c)" for a b c :: privilege_t
  by (auto simp: bit_eq_iff bit_and_iff bit_or_iff)

lemma or_zero: "a OR b = 0 \<longleftrightarrow> a = 0 \<and> b = 0" for a b :: privilege_t
  by (auto simp: bit_eq_iff bit_or_iff)

lemma global_mask: "GLOBAL_ACLS = mask 39" "ALL_KNOWN_ACL = mask 39"
  by code_simp+

lemma requirements_within:
  "list_all (\<lambda>p. p \<noteq> NO_ACL \<and> priv_and p (priv_compl GLOBAL_ACLS) = NO_ACL) all_requirements"
  unfolding all_requirements_def global_mask requirement_defs NO_ACL_def priv_and_def priv_compl_def
  by (simp add: or_within or_zero required_bits del: bit.conj_disj_distrib2)

text \<open>
  C32. For each of the four levels, reading a stored privilege set and storing it again gives the
  stored set back, and storing a set of privileges of that level and reading it again gives that set
  back; what is read lies within the level, and what is stored fits the level's bits.
\<close>

theorem rights_roundtrip:
  "(\<forall>a. unat a < 2 ^ 20 \<longrightarrow> get_rights_for_db (fix_rights_for_db a) = a
      \<and> fix_rights_for_db a AND NOT DB_ACLS = 0)
   \<and> (\<forall>a. a AND NOT DB_ACLS = 0 \<longrightarrow> fix_rights_for_db (get_rights_for_db a) = a
      \<and> unat (get_rights_for_db a) < 2 ^ 20)
   \<and> (\<forall>a. unat a < 2 ^ 14 \<longrightarrow> get_rights_for_table (fix_rights_for_table a) = a
      \<and> fix_rights_for_table a AND NOT TABLE_ACLS = 0)
   \<and> (\<forall>a. a AND NOT TABLE_ACLS = 0 \<longrightarrow> fix_rights_for_table (get_rights_for_table a) = a
      \<and> unat (get_rights_for_table a) < 2 ^ 14)
   \<and> (\<forall>a. unat a < 2 ^ 4 \<longrightarrow> get_rights_for_column (fix_rights_for_column a) = a
      \<and> fix_rights_for_column a AND NOT COL_ACLS = 0)
   \<and> (\<forall>a. a AND NOT COL_ACLS = 0 \<longrightarrow> fix_rights_for_column (get_rights_for_column a) = a
      \<and> unat (get_rights_for_column a) < 2 ^ 4)
   \<and> (\<forall>a. unat a < 2 ^ 3 \<longrightarrow> get_rights_for_procedure (fix_rights_for_procedure a) = a
      \<and> fix_rights_for_procedure a AND NOT PROC_ACLS = 0)
   \<and> (\<forall>a. a AND NOT PROC_ACLS = 0 \<longrightarrow> fix_rights_for_procedure (get_rights_for_procedure a) = a
      \<and> unat (get_rights_for_procedure a) < 2 ^ 3)"
  using db.codec table.codec column.codec proc.codec by blast

lemma rights_roundtrip_witness:
  "get_rights_for_db (fix_rights_for_db 0x81234) = 0x81234
   \<and> fix_rights_for_table (get_rights_for_table TABLE_ACLS) = TABLE_ACLS
   \<and> get_rights_for_column (fix_rights_for_column 9) = 9
   \<and> get_rights_for_procedure (fix_rights_for_procedure 5) = 5"
proof -
  have "unat (0x81234 :: privilege_t) < 2 ^ 20" "TABLE_ACLS AND NOT TABLE_ACLS = 0"
    "unat (9 :: privilege_t) < 2 ^ 4" "unat (5 :: privilege_t) < 2 ^ 3"
    by simp_all
  with rights_roundtrip show ?thesis by blast
qed

text \<open>
  Storing the union of two privilege sets of a level stores the union of their stored forms, at
  every level, so adding a grant to a row never drops another.
\<close>

theorem grants_accumulate:
  "(a AND NOT DB_ACLS = 0 \<and> b AND NOT DB_ACLS = 0 \<longrightarrow>
      get_rights_for_db (priv_or a b) = get_rights_for_db a OR get_rights_for_db b)
   \<and> (a AND NOT TABLE_ACLS = 0 \<and> b AND NOT TABLE_ACLS = 0 \<longrightarrow>
      get_rights_for_table (priv_or a b) = get_rights_for_table a OR get_rights_for_table b)
   \<and> (a AND NOT COL_ACLS = 0 \<and> b AND NOT COL_ACLS = 0 \<longrightarrow>
      get_rights_for_column (priv_or a b) = get_rights_for_column a OR get_rights_for_column b)
   \<and> (a AND NOT PROC_ACLS = 0 \<and> b AND NOT PROC_ACLS = 0 \<longrightarrow>
      get_rights_for_procedure (priv_or a b) = get_rights_for_procedure a OR get_rights_for_procedure b)"
  by (simp add: priv_or_def db.enc_or table.enc_or column.enc_or proc.enc_or)

lemma grants_accumulate_witness:
  "get_rights_for_db (priv_or SELECT_ACL EVENT_ACL) = get_rights_for_db SELECT_ACL OR get_rights_for_db EVENT_ACL"
proof -
  have "SELECT_ACL AND NOT DB_ACLS = 0 \<and> EVENT_ACL AND NOT DB_ACLS = 0" by code_simp
  with grants_accumulate [of SELECT_ACL EVENT_ACL] show ?thesis by blast
qed

text \<open>
  The levels are nested (column in table in database in global, routine in database), the global
  mask is exactly the bits known in the current version, the version masks grow, the highest known
  bit is the marker of the current version, and every requirement of a statement or variable asks
  for at least one privilege and only for global ones.
\<close>

theorem privilege_masks:
  "COL_ACLS AND NOT TABLE_ACLS = 0 \<and> TABLE_ACLS AND NOT DB_ACLS = 0 \<and> PROC_ACLS AND NOT DB_ACLS = 0
   \<and> DB_ACLS AND NOT GLOBAL_ACLS = 0 \<and> GLOBAL_ACLS = ALL_KNOWN_ACL \<and> ALL_KNOWN_ACL = mask 39
   \<and> ALL_KNOWN_ACL_100304 AND NOT ALL_KNOWN_ACL_100502 = 0
   \<and> ALL_KNOWN_ACL_100502 AND NOT ALL_KNOWN_ACL_100508 = 0
   \<and> push_bit (unat PRIVILEGE_T_MAX_BIT) 1 = LAST_CURRENT_ACL
   \<and> list_all (\<lambda>p. p \<noteq> NO_ACL \<and> priv_and p (priv_compl GLOBAL_ACLS) = NO_ACL) all_requirements"
  by (intro conjI requirements_within) code_simp+

text \<open>
  Of the privileges required for slave related global variables, which the header says were
  SUPER before, exactly the one for the maximum statement time does not accept SUPER any more.
\<close>

theorem slave_variables_accept_super:
  "filter (\<lambda>p. priv_and p SUPER_ACL = NO_ACL) slave_variable_requirements =
    [PRIV_SET_SYSTEM_GLOBAL_VAR_SLAVE_MAX_STATEMENT_TIME]"
  by code_simp

end
