(* ===== verification/Psi_Core.thy ===== *)
theory Psi_Core
  imports Prelude
begin

text \<open>
  What the instrumented file and socket wrappers share: the state they run on, the notifications
  they send to the performance schema, and the skeletons of a wrapper. The performance schema and
  the operating system are not part of the repository. The state carries the world the system calls
  act on and the trace of notifications and system calls in order; which locker the performance
  schema returns is a parameter that may depend on the query and on the whole trace so far.
\<close>

section \<open>Notifications and state\<close>

type_synonym src_loc = "string \<times> uint"

text \<open>
  \<open>Os\<close> is a system call, \<open>Ask\<close> a query for a locker with its answer (0 is the null pointer),
  \<open>Note\<close> a notification outside a wait.
\<close>

datatype ('q, 'c, 'n) psi_event =
    Os 'c
  | Ask 'q ptr
  | Start_wait ptr csize src_loc
  | Start_open_wait ptr src_loc
  | Start_close_wait ptr src_loc
  | End_wait ptr csize
  | End_open_wait ptr ptr
  | End_bind ptr cint
  | End_temp_bind ptr cint ptr
  | End_close_wait ptr cint
  | End_rename_wait ptr string string cint
  | Note 'n

record ('q, 'c, 'n, 'w) psi_state =
  world :: 'w
  trace :: "('q, 'c, 'n) psi_event list"

definition log :: "('q, 'c, 'n) psi_event \<Rightarrow> ('q, 'c, 'n, 'w, 'z) psi_state_scheme \<Rightarrow>
    ('q, 'c, 'n, 'w, 'z) psi_state_scheme" where
  "log e s = s\<lparr>trace := trace s @ [e]\<rparr>"

definition os_call :: "('c \<Rightarrow> 'w \<Rightarrow> 'r \<times> 'w) \<Rightarrow> 'c \<Rightarrow> ('q, 'c, 'n, 'w, 'z) psi_state_scheme \<Rightarrow>
    'r \<times> ('q, 'c, 'n, 'w, 'z) psi_state_scheme" where
  "os_call f c s = (let (r, w) = f c (world s) in (r, log (Os c) (s\<lparr>world := w\<rparr>)))"

section \<open>Skeletons of the wrappers\<close>

text \<open>
  Ask for a locker; with one, notify the start, do the call, notify the end; without one, do the
  call alone. The source writes the call twice, once in each branch, and so do the skeletons: the
  first copy is the one between the notifications, the last argument before the state is the copy
  that runs alone. The kinds of wait differ in the notifications.
\<close>

type_synonym ('q, 'c, 'n) lockers = "'q \<Rightarrow> ('q, 'c, 'n) psi_event list \<Rightarrow> ptr"

definition instrumented where
  "instrumented lk q start call stop plain s =
     (let l = lk q (trace s);
          s = log (Ask q l) s
      in if l \<noteq> 0 then
           (let s = log (start l) s;
                (result, s) = call s
            in (result, log (stop l result s) s))
         else plain s)"

definition wait_io where
  "wait_io lk q src count f c bytes c' s =
     instrumented lk q (\<lambda>l. Start_wait l count src) (os_call f c) (\<lambda>l r s. End_wait l (bytes r (world s))) (os_call f c') s"

definition rename_io where
  "rename_io lk q src old new f c c' s =
     instrumented lk q (\<lambda>l. Start_wait l 0 src) (os_call f c) (\<lambda>l r s. End_rename_wait l old new r) (os_call f c') s"

definition open_io where
  "open_io lk q src f c c' s =
     instrumented lk q (\<lambda>l. Start_open_wait l src) (os_call f c) (\<lambda>l r s. End_open_wait l r) (os_call f c') s"

definition bind_io where
  "bind_io lk q src f c c' s =
     instrumented lk q (\<lambda>l. Start_open_wait l src) (os_call f c) (\<lambda>l r s. End_bind l r) (os_call f c') s"

definition temp_bind_io where
  "temp_bind_io lk q src name f c c' s =
     instrumented lk q (\<lambda>l. Start_open_wait l src) (os_call f c) (\<lambda>l r s. End_temp_bind l r name) (os_call f c') s"

definition close_io where
  "close_io lk q src f c c' s =
     instrumented lk q (\<lambda>l. Start_close_wait l src) (os_call f c) (\<lambda>l r s. End_close_wait l r) (os_call f c') s"

section \<open>Balanced traces\<close>

text \<open>
  A trace is balanced when every start of a wait is followed by the end of that wait with the same
  locker, waits do not overlap, and none is left open.
\<close>

fun opens :: "('q, 'c, 'n) psi_event \<Rightarrow> ptr" where
  "opens (Start_wait l _ _) = l"
| "opens (Start_open_wait l _) = l"
| "opens (Start_close_wait l _) = l"
| "opens _ = 0"

fun closes :: "('q, 'c, 'n) psi_event \<Rightarrow> ptr" where
  "closes (End_wait l _) = l"
| "closes (End_open_wait l _) = l"
| "closes (End_bind l _) = l"
| "closes (End_temp_bind l _ _) = l"
| "closes (End_close_wait l _) = l"
| "closes (End_rename_wait l _ _ _) = l"
| "closes _ = 0"

fun run_waits :: "ptr \<Rightarrow> ('q, 'c, 'n) psi_event list \<Rightarrow> ptr option" where
  "run_waits cur [] = Some cur"
| "run_waits cur (e # es) =
     (if opens e \<noteq> 0 then (if cur = 0 then run_waits (opens e) es else None)
      else if closes e \<noteq> 0 then (if cur = closes e then run_waits 0 es else None)
      else run_waits cur es)"

definition balanced :: "('q, 'c, 'n) psi_event list \<Rightarrow> bool" where
  "balanced es \<longleftrightarrow> run_waits 0 es = Some 0"

lemma run_waits_append:
  "run_waits cur (es @ fs) = (case run_waits cur es of None \<Rightarrow> None | Some c \<Rightarrow> run_waits c fs)"
  by (induction es arbitrary: cur) auto

lemma balanced_append: "balanced es \<Longrightarrow> balanced fs \<Longrightarrow> balanced (es @ fs)"
  by (simp add: balanced_def run_waits_append)

fun os_of :: "('q, 'c, 'n) psi_event \<Rightarrow> 'c list" where
  "os_of (Os c) = [c]"
| "os_of _ = []"

definition os_calls :: "('q, 'c, 'n) psi_event list \<Rightarrow> 'c list" where
  "os_calls es = concat (map os_of es)"

lemma os_calls_append [simp]: "os_calls (es @ fs) = os_calls es @ os_calls fs"
  by (simp add: os_calls_def)

lemma os_calls_simps [simp]: "os_calls [] = []" "os_calls (e # es) = os_of e @ os_calls es"
  by (simp_all add: os_calls_def)

section \<open>The contract of a wrapper\<close>

text \<open>
  A wrapper of the call \<open>c\<close> with effect \<open>f c\<close> returns what the call returns, leaves the world as the
  call leaves it, makes no other system call, and adds a balanced stretch to the trace.
\<close>

locale psi_call =
  fixes wrapped :: "('q, 'c, 'n, 'w, 'z) psi_state_scheme \<Rightarrow> 'r \<times> ('q, 'c, 'n, 'w, 'z) psi_state_scheme"
    and f :: "'c \<Rightarrow> 'w \<Rightarrow> 'r \<times> 'w"
    and c :: 'c
  assumes effect: "(fst (wrapped s), world (snd (wrapped s))) = f c (world s)"
    and frame: "psi_state.more (snd (wrapped s)) = psi_state.more s"
    and extends: "\<exists>new. trace (snd (wrapped s)) = trace s @ new \<and> balanced new \<and> os_calls new = [c]"
begin

lemma result: "fst (wrapped s) = fst (f c (world s))"
  using effect [of s] by (metis fst_conv)

lemma effect_world: "world (snd (wrapped s)) = snd (f c (world s))"
  using effect [of s] by (metis snd_conv)

lemma calls: "os_calls (trace (snd (wrapped s))) = os_calls (trace s) @ [c]"
  using extends [of s] by auto

lemma keeps_balanced: "balanced (trace s) \<Longrightarrow> balanced (trace (snd (wrapped s)))"
  using extends [of s] by (auto intro: balanced_append)

lemma same_as_raw:
  "fst (wrapped s) = fst (os_call f c s)" "world (snd (wrapped s)) = world (snd (os_call f c s))"
  "os_calls (trace (snd (wrapped s))) = os_calls (trace (snd (os_call f c s)))"
  by (simp_all add: os_call_def result effect_world calls log_def split: prod.split)

end

lemma instrumented_contract:
  assumes "\<And>l. opens (start l) = l" "\<And>l r s. closes (stop l r s) = l" "\<And>l r s. opens (stop l r s) = 0"
    and "\<And>l. os_of (start l) = []" "\<And>l r s. os_of (stop l r s) = []"
  shows "psi_call (instrumented lk q start (os_call f c) stop (os_call f c)) f c"
  by unfold_locales
    (auto simp: instrumented_def os_call_def log_def Let_def balanced_def assms split: prod.split)

text \<open>A wait whose two copies are the same call meets the contract, whatever the lockers answer.\<close>

interpretation wait_io: psi_call "wait_io lk q src count f c bytes c" f c for lk q src count f c bytes
  unfolding wait_io_def by (rule instrumented_contract) simp_all

interpretation rename_io: psi_call "rename_io lk q src old new f c c" f c for lk q src old new f c
  unfolding rename_io_def by (rule instrumented_contract) simp_all

interpretation open_io: psi_call "open_io lk q src f c c" f c for lk q src f c
  unfolding open_io_def by (rule instrumented_contract) simp_all

interpretation bind_io: psi_call "bind_io lk q src f c c" f c for lk q src f c
  unfolding bind_io_def by (rule instrumented_contract) simp_all

interpretation temp_bind_io: psi_call "temp_bind_io lk q src name f c c" f c for lk q src name f c
  unfolding temp_bind_io_def by (rule instrumented_contract) simp_all

interpretation close_io: psi_call "close_io lk q src f c c" f c for lk q src f c
  unfolding close_io_def by (rule instrumented_contract) simp_all

interpretation raw_io: psi_call "os_call f c" f c for f c
  by unfold_locales (auto simp: os_call_def log_def balanced_def split: prod.split)

end
