(* ===== verification/Psi_File.thy ===== *)
theory Psi_File
  imports Psi_Core
begin

text \<open>
  \<open>mysql_file.h\<close>: the instrumented replacements of the file functions. Each wrapper is modelled with
  the query it sends for a locker, the notifications around the call and the byte counts it reports.
  The \<open>my_*\<close> functions they replace and the performance schema are outside the repository: they are
  the fields of the environment. The heap of \<open>MYSQL_FILE\<close> structs is part of the state; reading a
  struct that is not allocated is undefined and the value \<open>None\<close>.
\<close>

section \<open>Types\<close>

type_synonym myf = ulong
type_synonym my_off_t = ulonglong

datatype PSI_file_operation =
    PSI_FILE_CREATE | PSI_FILE_CREATE_TMP | PSI_FILE_OPEN | PSI_FILE_STREAM_OPEN | PSI_FILE_CLOSE
  | PSI_FILE_STREAM_CLOSE | PSI_FILE_READ | PSI_FILE_WRITE | PSI_FILE_SEEK | PSI_FILE_TELL
  | PSI_FILE_FLUSH | PSI_FILE_STAT | PSI_FILE_FSTAT | PSI_FILE_CHSIZE | PSI_FILE_DELETE
  | PSI_FILE_RENAME | PSI_FILE_SYNC

text \<open>The three ways to ask for a locker: by stream, by descriptor, by name and identity.\<close>

datatype file_query =
    Stream_locker ptr PSI_file_operation
  | Descriptor_locker cint PSI_file_operation
  | Name_locker uint PSI_file_operation "string option" ptr

text \<open>The calls the wrappers replace, with their arguments.\<close>

datatype file_call =
    Fgets ptr cint ptr | Fgetc ptr | Fputs ptr ptr | Fputc uchar ptr | Vfprintf ptr ptr ptr
  | Fflush ptr | Feof ptr | My_fstat cint ptr myf | My_stat string ptr myf
  | My_chsize cint my_off_t cint myf | My_fopen string cint myf | My_fclose ptr myf
  | My_fread ptr ptr csize myf | My_fwrite ptr ptr csize myf | My_fseek ptr my_off_t cint myf
  | My_ftell ptr myf | My_create string cint cint myf | Create_temp_file ptr string string cint myf
  | My_open string cint myf | My_close cint myf | My_read cint ptr csize myf
  | My_write cint ptr csize myf | My_pread cint ptr csize my_off_t myf
  | My_pwrite cint ptr csize my_off_t myf | My_seek cint my_off_t cint myf | My_tell cint myf
  | My_delete string myf | My_rename string string myf
  | My_create_with_symlink string string cint cint myf | My_handler_delete_with_symlink string myf
  | My_rename_with_symlink string string myf | My_sync cint myf

datatype file_note = Register_file string ptr cint

record MYSQL_FILE =
  m_file :: ptr
  m_psi :: ptr

record 'w fstate = "(file_query, file_call, file_note, 'w) psi_state" +
  mfiles :: "ptr \<Rightarrow> MYSQL_FILE option"

text \<open>
  The environment: the lockers and the instrument the performance schema hands out, the calls by
  their result type, \<open>strlen\<close>, \<open>fn_format\<close>, the allocator (the address it returns, null when it
  fails), the contents of fresh memory, and the position of \<open>fprintf\<close>'s own source line.
\<close>

record 'w file_env =
  lockers :: "file_query \<Rightarrow> (file_query, file_call, file_note) psi_event list \<Rightarrow> ptr"
  opened_psi :: "(file_query, file_call, file_note) psi_event list \<Rightarrow> ptr"
  call_int :: "file_call \<Rightarrow> 'w \<Rightarrow> cint \<times> 'w"
  call_size :: "file_call \<Rightarrow> 'w \<Rightarrow> csize \<times> 'w"
  call_ptr :: "file_call \<Rightarrow> 'w \<Rightarrow> ptr \<times> 'w"
  strlen :: "'w \<Rightarrow> ptr \<Rightarrow> csize"
  fn_format :: "string \<Rightarrow> string \<Rightarrow> string \<Rightarrow> uint \<Rightarrow> string"
  malloc :: "'w fstate \<Rightarrow> ptr"
  garbage :: MYSQL_FILE
  this_file :: src_loc

definition MY_FNABP :: myf where "MY_FNABP = 2"
definition MY_NABP :: myf where "MY_NABP = 4"
definition MY_FILE_ERROR :: csize where "MY_FILE_ERROR = - 1"
definition MY_UNPACK_FILENAME :: uint where "MY_UNPACK_FILENAME = 4"
definition MY_APPEND_EXT :: uint where "MY_APPEND_EXT = 256"

section \<open>Shared parts of the wrappers\<close>

text \<open>The byte count reported for a read or write.\<close>

definition io_bytes :: "myf \<Rightarrow> csize \<Rightarrow> csize \<Rightarrow> csize" where
  "io_bytes flags count result =
     (if flags AND (MY_NABP OR MY_FNABP) \<noteq> 0 then (if result = 0 then count else 0)
      else (if result \<noteq> MY_FILE_ERROR then result else 0))"

text \<open>A stream wrapper: instrumented only when the struct carries an instrument; the second copy of the call runs otherwise.\<close>

definition stream_io ::
    "'w file_env \<Rightarrow> ptr \<Rightarrow> PSI_file_operation \<Rightarrow> src_loc \<Rightarrow> csize \<Rightarrow> (file_call \<Rightarrow> 'w \<Rightarrow> 'r \<times> 'w) \<Rightarrow>
      (ptr \<Rightarrow> file_call) \<Rightarrow> ('r \<Rightarrow> 'w \<Rightarrow> csize) \<Rightarrow> (ptr \<Rightarrow> file_call) \<Rightarrow> 'w fstate \<Rightarrow> ('r \<times> 'w fstate) option" where
  "stream_io E file op src count f c bytes c' s =
     (case mfiles s file of
        None \<Rightarrow> None
      | Some st \<Rightarrow>
          if m_psi st \<noteq> 0
          then Some (wait_io (lockers E) (Stream_locker (m_psi st) op) src count f (c (m_file st)) bytes (c' (m_file st)) s)
          else Some (os_call f (c' (m_file st)) s))"

text \<open>The heap of \<open>MYSQL_FILE\<close> structs.\<close>

definition my_malloc :: "'w file_env \<Rightarrow> 'w fstate \<Rightarrow> ptr \<times> 'w fstate" where
  "my_malloc E s =
     (let p = malloc E s
      in (p, if p = 0 then s else s\<lparr>mfiles := (mfiles s)(p \<mapsto> garbage E)\<rparr>))"

definition my_free :: "ptr \<Rightarrow> 'w fstate \<Rightarrow> 'w fstate" where
  "my_free p s = s\<lparr>mfiles := (mfiles s)(p := None)\<rparr>"

definition set_file :: "ptr \<Rightarrow> ptr \<Rightarrow> ptr \<Rightarrow> 'w fstate \<Rightarrow> 'w fstate" where
  "set_file p file psi s =
     s\<lparr>mfiles := (mfiles s)(p := map_option (\<lambda>f. f\<lparr>m_file := file, m_psi := psi\<rparr>) (mfiles s p))\<rparr>"

section \<open>The wrappers\<close>

definition inline_mysql_file_register :: "string \<Rightarrow> ptr \<Rightarrow> cint \<Rightarrow> 'w fstate \<Rightarrow> 'w fstate" where
  "inline_mysql_file_register category info count s = log (Note (Register_file category info count)) s"

definition inline_mysql_file_fgets ::
    "'w file_env \<Rightarrow> src_loc \<Rightarrow> ptr \<Rightarrow> cint \<Rightarrow> ptr \<Rightarrow> 'w fstate \<Rightarrow> (ptr \<times> 'w fstate) option" where
  "inline_mysql_file_fgets E src str sz file s =
     stream_io E file PSI_FILE_READ src (scast sz)
       (call_ptr E) (\<lambda>m_file. Fgets str sz m_file) (\<lambda>r w. if r \<noteq> 0 then strlen E w r else 0)
         (\<lambda>m_file. Fgets str sz m_file) s"

definition inline_mysql_file_fgetc ::
    "'w file_env \<Rightarrow> src_loc \<Rightarrow> ptr \<Rightarrow> 'w fstate \<Rightarrow> (cint \<times> 'w fstate) option" where
  "inline_mysql_file_fgetc E src file s =
     stream_io E file PSI_FILE_READ src 1
       (call_int E) (\<lambda>m_file. Fgetc m_file) (\<lambda>r w. 1)
         (\<lambda>m_file. Fgetc m_file) s"

definition inline_mysql_file_fputs ::
    "'w file_env \<Rightarrow> src_loc \<Rightarrow> ptr \<Rightarrow> ptr \<Rightarrow> 'w fstate \<Rightarrow> (cint \<times> 'w fstate) option" where
  "inline_mysql_file_fputs E src str file s =
     (let bytes = (if str \<noteq> 0 then strlen E (world s) str else 0)
      in stream_io E file PSI_FILE_WRITE src bytes
           (call_int E) (\<lambda>m_file. Fputs str m_file) (\<lambda>r w. bytes)
             (\<lambda>m_file. Fputs str m_file) s)"

definition inline_mysql_file_fputc ::
    "'w file_env \<Rightarrow> src_loc \<Rightarrow> uchar \<Rightarrow> ptr \<Rightarrow> 'w fstate \<Rightarrow> (cint \<times> 'w fstate) option" where
  "inline_mysql_file_fputc E src c file s =
     stream_io E file PSI_FILE_WRITE src 1
       (call_int E) (\<lambda>m_file. Fputc c m_file) (\<lambda>r w. 1)
         (\<lambda>m_file. Fputc c m_file) s"

definition inline_mysql_file_fprintf ::
    "'w file_env \<Rightarrow> ptr \<Rightarrow> ptr \<Rightarrow> ptr \<Rightarrow> 'w fstate \<Rightarrow> (cint \<times> 'w fstate) option" where
  "inline_mysql_file_fprintf E file format args s =
     stream_io E file PSI_FILE_WRITE (this_file E) (0)
       (call_int E) (\<lambda>m_file. Vfprintf m_file format args) (\<lambda>r w. scast r)
         (\<lambda>m_file. Vfprintf m_file format args) s"

definition inline_mysql_file_vfprintf ::
    "'w file_env \<Rightarrow> src_loc \<Rightarrow> ptr \<Rightarrow> ptr \<Rightarrow> ptr \<Rightarrow> 'w fstate \<Rightarrow> (cint \<times> 'w fstate) option" where
  "inline_mysql_file_vfprintf E src file format args s =
     stream_io E file PSI_FILE_WRITE src 0
       (call_int E) (\<lambda>m_file. Vfprintf m_file format args) (\<lambda>r w. scast r)
         (\<lambda>m_file. Vfprintf m_file format args) s"

definition inline_mysql_file_fflush ::
    "'w file_env \<Rightarrow> src_loc \<Rightarrow> ptr \<Rightarrow> 'w fstate \<Rightarrow> (cint \<times> 'w fstate) option" where
  "inline_mysql_file_fflush E src file s =
     stream_io E file PSI_FILE_FLUSH src 0
       (call_int E) (\<lambda>m_file. Fflush m_file) (\<lambda>r w. 0)
         (\<lambda>m_file. Fflush m_file) s"

definition inline_mysql_file_feof ::
    "'w file_env \<Rightarrow> ptr \<Rightarrow> 'w fstate \<Rightarrow> (cint \<times> 'w fstate) option" where
  "inline_mysql_file_feof E file s =
     map_option (\<lambda>f. os_call (call_int E) (Feof (m_file f)) s) (mfiles s file)"

definition inline_mysql_file_fstat ::
    "'w file_env \<Rightarrow> src_loc \<Rightarrow> cint \<Rightarrow> ptr \<Rightarrow> myf \<Rightarrow> 'w fstate \<Rightarrow> cint \<times> 'w fstate" where
  "inline_mysql_file_fstat E src filenr stat_area flags s =
     wait_io (lockers E) (Descriptor_locker filenr PSI_FILE_FSTAT) src 0
       (call_int E) (My_fstat filenr stat_area flags) (\<lambda>r w. 0)
         (My_fstat filenr stat_area flags) s"

definition inline_mysql_file_stat ::
    "'w file_env \<Rightarrow> uint \<Rightarrow> src_loc \<Rightarrow> string \<Rightarrow> ptr \<Rightarrow> myf \<Rightarrow> 'w fstate \<Rightarrow> ptr \<times> 'w fstate" where
  "inline_mysql_file_stat E key src path stat_area flags s =
     open_io (lockers E) (Name_locker key PSI_FILE_STAT (Some path) 0) src
       (call_ptr E) (My_stat path stat_area flags) (My_stat path stat_area flags) s"

definition inline_mysql_file_chsize ::
    "'w file_env \<Rightarrow> src_loc \<Rightarrow> cint \<Rightarrow> my_off_t \<Rightarrow> cint \<Rightarrow> myf \<Rightarrow> 'w fstate \<Rightarrow> cint \<times> 'w fstate" where
  "inline_mysql_file_chsize E src file newlength filler flags s =
     wait_io (lockers E) (Descriptor_locker file PSI_FILE_CHSIZE) src newlength
       (call_int E) (My_chsize file newlength filler flags) (\<lambda>r w. newlength)
         (My_chsize file newlength filler flags) s"

definition inline_mysql_file_fopen ::
    "'w file_env \<Rightarrow> uint \<Rightarrow> src_loc \<Rightarrow> string \<Rightarrow> cint \<Rightarrow> myf \<Rightarrow> 'w fstate \<Rightarrow> ptr \<times> 'w fstate" where
  "inline_mysql_file_fopen E key src filename flags myFlags s =
     (let (that, s) = my_malloc E s
      in if that \<noteq> 0 then
           (let q = Name_locker key PSI_FILE_STREAM_OPEN (Some filename) that;
                l = lockers E q (trace s);
                s = log (Ask q l) s
            in if l \<noteq> 0 then
                 (let s = log (Start_open_wait l src) s;
                      (file, s) = os_call (call_ptr E) (My_fopen filename flags myFlags) s;
                      s = log (End_open_wait l file) s;
                      s = set_file that file (opened_psi E (trace s)) s
                  in if file = 0 then (0, my_free that s) else (that, s))
               else
                 (let (file, s) = os_call (call_ptr E) (My_fopen filename flags myFlags) s;
                      s = set_file that file 0 s
                  in if file = 0 then (0, my_free that s) else (that, s)))
         else (that, s))"

definition inline_mysql_file_fclose ::
    "'w file_env \<Rightarrow> src_loc \<Rightarrow> ptr \<Rightarrow> myf \<Rightarrow> 'w fstate \<Rightarrow> (cint \<times> 'w fstate) option" where
  "inline_mysql_file_fclose E src file flags s =
     (if file \<noteq> 0 then
        (case mfiles s file of
           None \<Rightarrow> None
         | Some f \<Rightarrow>
             let (result, s) =
               (if m_psi f \<noteq> 0
                then close_io (lockers E) (Stream_locker (m_psi f) PSI_FILE_STREAM_CLOSE) src
                       (call_int E) (My_fclose (m_file f) flags) (My_fclose (m_file f) flags) s
                else os_call (call_int E) (My_fclose (m_file f) flags) s)
             in Some (result, my_free file s))
      else Some (0, s))"

definition inline_mysql_file_fread ::
    "'w file_env \<Rightarrow> src_loc \<Rightarrow> ptr \<Rightarrow> ptr \<Rightarrow> csize \<Rightarrow> myf \<Rightarrow> 'w fstate \<Rightarrow> (csize \<times> 'w fstate) option" where
  "inline_mysql_file_fread E src file buffer count flags s =
     stream_io E file PSI_FILE_READ src count
       (call_size E) (\<lambda>m_file. My_fread m_file buffer count flags) (\<lambda>r w. io_bytes flags count r)
         (\<lambda>m_file. My_fread m_file buffer count flags) s"

definition inline_mysql_file_fwrite ::
    "'w file_env \<Rightarrow> src_loc \<Rightarrow> ptr \<Rightarrow> ptr \<Rightarrow> csize \<Rightarrow> myf \<Rightarrow> 'w fstate \<Rightarrow> (csize \<times> 'w fstate) option" where
  "inline_mysql_file_fwrite E src file buffer count flags s =
     stream_io E file PSI_FILE_WRITE src count
       (call_size E) (\<lambda>m_file. My_fwrite m_file buffer count flags) (\<lambda>r w. io_bytes flags count r)
         (\<lambda>m_file. My_fwrite m_file buffer count flags) s"

definition inline_mysql_file_fseek ::
    "'w file_env \<Rightarrow> src_loc \<Rightarrow> ptr \<Rightarrow> my_off_t \<Rightarrow> cint \<Rightarrow> myf \<Rightarrow> 'w fstate \<Rightarrow> (my_off_t \<times> 'w fstate) option" where
  "inline_mysql_file_fseek E src file pos whence flags s =
     stream_io E file PSI_FILE_SEEK src 0
       (call_size E) (\<lambda>m_file. My_fseek m_file pos whence flags) (\<lambda>r w. 0)
         (\<lambda>m_file. My_fseek m_file pos whence flags) s"

definition inline_mysql_file_ftell ::
    "'w file_env \<Rightarrow> src_loc \<Rightarrow> ptr \<Rightarrow> myf \<Rightarrow> 'w fstate \<Rightarrow> (my_off_t \<times> 'w fstate) option" where
  "inline_mysql_file_ftell E src file flags s =
     stream_io E file PSI_FILE_TELL src 0
       (call_size E) (\<lambda>m_file. My_ftell m_file flags) (\<lambda>r w. 0)
         (\<lambda>m_file. My_ftell m_file flags) s"

definition inline_mysql_file_create ::
    "'w file_env \<Rightarrow> uint \<Rightarrow> src_loc \<Rightarrow> string \<Rightarrow> cint \<Rightarrow> cint \<Rightarrow> myf \<Rightarrow> 'w fstate \<Rightarrow> cint \<times> 'w fstate" where
  "inline_mysql_file_create E key src filename create_flags access_flags myFlags s =
     bind_io (lockers E) (Name_locker key PSI_FILE_CREATE (Some filename) 0) src
       (call_int E) (My_create filename create_flags access_flags myFlags)
         (My_create filename create_flags access_flags myFlags) s"

definition inline_mysql_file_create_temp ::
    "'w file_env \<Rightarrow> uint \<Rightarrow> src_loc \<Rightarrow> ptr \<Rightarrow> string \<Rightarrow> string \<Rightarrow> cint \<Rightarrow> myf \<Rightarrow> 'w fstate \<Rightarrow> cint \<times> 'w fstate" where
  "inline_mysql_file_create_temp E key src to dir pfx mode myFlags s =
     temp_bind_io (lockers E) (Name_locker key PSI_FILE_CREATE (None) 0) src to
       (call_int E) (Create_temp_file to dir pfx mode myFlags)
         (Create_temp_file to dir pfx mode myFlags) s"

definition inline_mysql_file_open ::
    "'w file_env \<Rightarrow> uint \<Rightarrow> src_loc \<Rightarrow> string \<Rightarrow> cint \<Rightarrow> myf \<Rightarrow> 'w fstate \<Rightarrow> cint \<times> 'w fstate" where
  "inline_mysql_file_open E key src filename flags myFlags s =
     bind_io (lockers E) (Name_locker key PSI_FILE_OPEN (Some filename) 0) src
       (call_int E) (My_open filename flags myFlags) (My_open filename flags myFlags) s"

definition inline_mysql_file_close ::
    "'w file_env \<Rightarrow> src_loc \<Rightarrow> cint \<Rightarrow> myf \<Rightarrow> 'w fstate \<Rightarrow> cint \<times> 'w fstate" where
  "inline_mysql_file_close E src file flags s =
     close_io (lockers E) (Descriptor_locker file PSI_FILE_CLOSE) src
       (call_int E) (My_close file flags) (My_close file flags) s"

definition inline_mysql_file_read ::
    "'w file_env \<Rightarrow> src_loc \<Rightarrow> cint \<Rightarrow> ptr \<Rightarrow> csize \<Rightarrow> myf \<Rightarrow> 'w fstate \<Rightarrow> csize \<times> 'w fstate" where
  "inline_mysql_file_read E src file buffer count flags s =
     wait_io (lockers E) (Descriptor_locker file PSI_FILE_READ) src count
       (call_size E) (My_read file buffer count flags) (\<lambda>r w. io_bytes flags count r)
         (My_read file buffer count flags) s"

definition inline_mysql_file_write ::
    "'w file_env \<Rightarrow> src_loc \<Rightarrow> cint \<Rightarrow> ptr \<Rightarrow> csize \<Rightarrow> myf \<Rightarrow> 'w fstate \<Rightarrow> csize \<times> 'w fstate" where
  "inline_mysql_file_write E src file buffer count flags s =
     wait_io (lockers E) (Descriptor_locker file PSI_FILE_WRITE) src count
       (call_size E) (My_write file buffer count flags) (\<lambda>r w. io_bytes flags count r)
         (My_write file buffer count flags) s"

definition inline_mysql_file_pread ::
    "'w file_env \<Rightarrow> src_loc \<Rightarrow> cint \<Rightarrow> ptr \<Rightarrow> csize \<Rightarrow> my_off_t \<Rightarrow> myf \<Rightarrow> 'w fstate \<Rightarrow> csize \<times> 'w fstate" where
  "inline_mysql_file_pread E src file buffer count offset flags s =
     wait_io (lockers E) (Descriptor_locker file PSI_FILE_READ) src count
       (call_size E) (My_pread file buffer count offset flags) (\<lambda>r w. io_bytes flags count r)
         (My_pread file buffer count offset flags) s"

definition inline_mysql_file_pwrite ::
    "'w file_env \<Rightarrow> src_loc \<Rightarrow> cint \<Rightarrow> ptr \<Rightarrow> csize \<Rightarrow> my_off_t \<Rightarrow> myf \<Rightarrow> 'w fstate \<Rightarrow> csize \<times> 'w fstate" where
  "inline_mysql_file_pwrite E src file buffer count offset flags s =
     wait_io (lockers E) (Descriptor_locker file PSI_FILE_WRITE) src count
       (call_size E) (My_pwrite file buffer count offset flags) (\<lambda>r w. io_bytes flags count r)
         (My_pwrite file buffer count offset flags) s"

definition inline_mysql_file_seek ::
    "'w file_env \<Rightarrow> src_loc \<Rightarrow> cint \<Rightarrow> my_off_t \<Rightarrow> cint \<Rightarrow> myf \<Rightarrow> 'w fstate \<Rightarrow> my_off_t \<times> 'w fstate" where
  "inline_mysql_file_seek E src file pos whence flags s =
     wait_io (lockers E) (Descriptor_locker file PSI_FILE_SEEK) src 0
       (call_size E) (My_seek file pos whence flags) (\<lambda>r w. 0)
         (My_seek file pos whence flags) s"

definition inline_mysql_file_tell ::
    "'w file_env \<Rightarrow> src_loc \<Rightarrow> cint \<Rightarrow> myf \<Rightarrow> 'w fstate \<Rightarrow> my_off_t \<times> 'w fstate" where
  "inline_mysql_file_tell E src file flags s =
     wait_io (lockers E) (Descriptor_locker file PSI_FILE_TELL) src 0
       (call_size E) (My_tell file flags) (\<lambda>r w. 0)
         (My_tell file flags) s"

definition inline_mysql_file_delete ::
    "'w file_env \<Rightarrow> uint \<Rightarrow> src_loc \<Rightarrow> string \<Rightarrow> myf \<Rightarrow> 'w fstate \<Rightarrow> cint \<times> 'w fstate" where
  "inline_mysql_file_delete E key src name flags s =
     close_io (lockers E) (Name_locker key PSI_FILE_DELETE (Some name) 0) src
       (call_int E) (My_delete name flags) (My_delete name flags) s"

definition inline_mysql_file_rename ::
    "'w file_env \<Rightarrow> uint \<Rightarrow> src_loc \<Rightarrow> string \<Rightarrow> string \<Rightarrow> myf \<Rightarrow> 'w fstate \<Rightarrow> cint \<times> 'w fstate" where
  "inline_mysql_file_rename E key src old new flags s =
     rename_io (lockers E) (Name_locker key PSI_FILE_RENAME (Some old) 0) src old new
       (call_int E) (My_rename old new flags) (My_rename old new flags) s"

definition inline_mysql_file_create_with_symlink ::
    "'w file_env \<Rightarrow> uint \<Rightarrow> src_loc \<Rightarrow> string \<Rightarrow> string \<Rightarrow> cint \<Rightarrow> cint \<Rightarrow> myf \<Rightarrow> 'w fstate \<Rightarrow> cint \<times> 'w fstate" where
  "inline_mysql_file_create_with_symlink E key src linkname filename create_flags access_flags flags s =
     bind_io (lockers E) (Name_locker key PSI_FILE_CREATE (Some filename) 0) src
       (call_int E) (My_create_with_symlink linkname filename create_flags access_flags flags)
         (My_create_with_symlink linkname filename create_flags access_flags flags) s"

definition inline_mysql_file_delete_with_symlink ::
    "'w file_env \<Rightarrow> uint \<Rightarrow> src_loc \<Rightarrow> string \<Rightarrow> string \<Rightarrow> myf \<Rightarrow> 'w fstate \<Rightarrow> cint \<times> 'w fstate" where
  "inline_mysql_file_delete_with_symlink E key src name ext flags s =
     (let fullname = fn_format E name [] ext (MY_UNPACK_FILENAME OR MY_APPEND_EXT)
      in close_io (lockers E) (Name_locker key PSI_FILE_DELETE (Some fullname) 0) src
           (call_int E) (My_handler_delete_with_symlink fullname flags)
             (My_handler_delete_with_symlink fullname flags) s)"

definition inline_mysql_file_rename_with_symlink ::
    "'w file_env \<Rightarrow> uint \<Rightarrow> src_loc \<Rightarrow> string \<Rightarrow> string \<Rightarrow> myf \<Rightarrow> 'w fstate \<Rightarrow> cint \<times> 'w fstate" where
  "inline_mysql_file_rename_with_symlink E key src old new flags s =
     rename_io (lockers E) (Name_locker key PSI_FILE_RENAME (Some old) 0) src old new
       (call_int E) (My_rename_with_symlink old new flags) (My_rename_with_symlink old new flags) s"

definition inline_mysql_file_sync ::
    "'w file_env \<Rightarrow> src_loc \<Rightarrow> cint \<Rightarrow> myf \<Rightarrow> 'w fstate \<Rightarrow> cint \<times> 'w fstate" where
  "inline_mysql_file_sync E src fd flags s =
     wait_io (lockers E) (Descriptor_locker fd PSI_FILE_SYNC) src 0
       (call_int E) (My_sync fd flags) (\<lambda>r w. 0)
         (My_sync fd flags) s"

section \<open>Transparency\<close>

lemmas plain_wrapper_defs =
    inline_mysql_file_fgets_def inline_mysql_file_fgetc_def inline_mysql_file_fputs_def
    inline_mysql_file_fputc_def inline_mysql_file_fprintf_def inline_mysql_file_vfprintf_def
    inline_mysql_file_fflush_def inline_mysql_file_feof_def inline_mysql_file_fstat_def
    inline_mysql_file_stat_def inline_mysql_file_chsize_def inline_mysql_file_fread_def inline_mysql_file_fwrite_def
    inline_mysql_file_fseek_def inline_mysql_file_ftell_def inline_mysql_file_create_def
    inline_mysql_file_create_temp_def inline_mysql_file_open_def inline_mysql_file_close_def
    inline_mysql_file_read_def inline_mysql_file_write_def inline_mysql_file_pread_def
    inline_mysql_file_pwrite_def inline_mysql_file_seek_def inline_mysql_file_tell_def
    inline_mysql_file_delete_def inline_mysql_file_rename_def
    inline_mysql_file_create_with_symlink_def inline_mysql_file_delete_with_symlink_def
    inline_mysql_file_rename_with_symlink_def inline_mysql_file_sync_def

lemmas file_wrapper_defs = plain_wrapper_defs inline_mysql_file_fopen_def inline_mysql_file_fclose_def

text \<open>What the caller and the rest of the program can tell: the result, the world, the calls, the heap.\<close>

definition seen :: "'r \<times> 'w fstate \<Rightarrow> 'r \<times> 'w \<times> file_call list \<times> (ptr \<Rightarrow> MYSQL_FILE option)" where
  "seen rs = (fst rs, world (snd rs), os_calls (trace (snd rs)), mfiles (snd rs))"

definition extends :: "'w fstate \<Rightarrow> 'w fstate \<Rightarrow> bool" where
  "extends s s' \<longleftrightarrow> (\<exists>new. trace s' = trace s @ new \<and> balanced new)"

lemma extends_refl [simp]: "extends s s"
  by (simp add: extends_def balanced_def)

lemma extends_trans: "extends s t \<Longrightarrow> extends t u \<Longrightarrow> extends s u"
  unfolding extends_def using balanced_append by fastforce

lemma extends_balanced: "extends s s' \<Longrightarrow> balanced (trace s) \<Longrightarrow> balanced (trace s')"
  unfolding extends_def using balanced_append by force

lemma more_mfiles:
  fixes s t :: "'w fstate"
  assumes "psi_state.more s = psi_state.more t"
  shows "mfiles s = mfiles t"
  using assms by (cases s, cases t) simp

lemma call_seen:
  fixes w :: "'w fstate \<Rightarrow> 'r \<times> 'w fstate"
  assumes "psi_call w f c"
  shows "seen (w s) = seen (os_call f c s)" "mfiles (snd (w s)) = mfiles s" "extends s (snd (w s))"
proof -
  have "psi_state.more (snd (w s)) = psi_state.more s" using psi_call.frame [OF assms] .
  then show m: "mfiles (snd (w s)) = mfiles s" by (rule more_mfiles)
  have "psi_state.more (snd (os_call f c s)) = psi_state.more s" by (rule raw_io.frame)
  then have "mfiles (snd (os_call f c s)) = mfiles s" by (rule more_mfiles)
  with m psi_call.same_as_raw [OF assms] show "seen (w s) = seen (os_call f c s)"
    by (simp add: seen_def)
  show "extends s (snd (w s))" using psi_call.extends [OF assms, of s] by (auto simp: extends_def)
qed

lemmas io_seen = call_seen [OF wait_io.psi_call_axioms] call_seen [OF rename_io.psi_call_axioms]
  call_seen [OF open_io.psi_call_axioms] call_seen [OF bind_io.psi_call_axioms]
  call_seen [OF temp_bind_io.psi_call_axioms] call_seen [OF close_io.psi_call_axioms]
  call_seen(2,3) [OF raw_io.psi_call_axioms]

lemma stream_seen: "map_option seen (stream_io E file op src count f c bytes c s) =
    map_option (\<lambda>st. seen (os_call f (c (m_file st)) s)) (mfiles s file)"
  by (cases "mfiles s file") (simp_all add: stream_io_def io_seen if_distrib [of "map_option seen"]
      del: map_option_eq_Some cong: if_cong)

lemma stream_frame:
  assumes "stream_io E file op src count f c bytes c s = Some (r, s')"
  shows "mfiles s' = mfiles s" "extends s s'"
proof -
  from assms obtain st where st: "mfiles s file = Some st" by (auto simp: stream_io_def split: option.splits)
  consider "(r, s') = wait_io (lockers E) (Stream_locker (m_psi st) op) src count f (c (m_file st)) bytes (c (m_file st)) s"
    | "(r, s') = os_call f (c (m_file st)) s"
    using assms st by (auto simp: stream_io_def split: if_splits)
  then have "mfiles s' = mfiles s \<and> extends s s'"
    by cases (metis call_seen(2,3) [OF wait_io.psi_call_axioms] snd_conv,
        metis call_seen(2,3) [OF raw_io.psi_call_axioms] snd_conv)
  then show "mfiles s' = mfiles s" "extends s s'" by blast+
qed

lemma register_seen: "seen ((), inline_mysql_file_register category info n s) = seen ((), s)"
  by (simp add: inline_mysql_file_register_def seen_def log_def)

text \<open>Opening a stream, and closing one.\<close>

lemma os_call_eq: "os_call f c s =
    (fst (f c (world s)), s\<lparr>world := snd (f c (world s)), trace := trace s @ [Os c]\<rparr>)"
  by (simp add: os_call_def log_def split: prod.split)

lemma fopen_cases:
  fixes E key src filename flags myFlags s
  defines "p \<equiv> malloc E s"
    and "q \<equiv> Name_locker key PSI_FILE_STREAM_OPEN (Some filename) (malloc E s)"
    and "c \<equiv> My_fopen filename flags myFlags"
  defines "l \<equiv> lockers E q (trace s)"
    and "fp \<equiv> fst (call_ptr E c (world s))" and "w \<equiv> snd (call_ptr E c (world s))"
  defines "new \<equiv> (if l \<noteq> 0 then [Ask q l, Start_open_wait l src, Os c, End_open_wait l fp] else [Ask q 0, Os c])"
  shows "inline_mysql_file_fopen E key src filename flags myFlags s =
    (if p = 0 then (0, s)
     else (if fp = 0 then 0 else p,
           s\<lparr>world := w, trace := trace s @ new,
             mfiles := (if fp = 0 then (mfiles s)(p := None)
                        else (mfiles s)(p \<mapsto> \<lparr>m_file = fp,
                          m_psi = (if l \<noteq> 0 then opened_psi E (trace s @ new) else 0)\<rparr>))\<rparr>))"
  by (cases "garbage E")
    (auto simp: inline_mysql_file_fopen_def my_malloc_def my_free_def set_file_def Let_def os_call_eq
      log_def assms)

lemma fopen_seen: "\<exists>psi. seen (inline_mysql_file_fopen E key src filename flags myFlags s) =
    (if malloc E s = 0 then seen (0, s)
     else let (file, w) = call_ptr E (My_fopen filename flags myFlags) (world s)
          in (if file = 0 then 0 else malloc E s, w, os_calls (trace s) @ [My_fopen filename flags myFlags],
              if file = 0 then (mfiles s)(malloc E s := None)
              else (mfiles s)(malloc E s \<mapsto> \<lparr>m_file = file, m_psi = psi\<rparr>)))"
  unfolding fopen_cases seen_def by (auto simp: Let_def case_prod_beta)

lemma fclose_seen: "map_option seen (inline_mysql_file_fclose E src file flags s) =
    (if file = 0 then Some (seen (0, s))
     else map_option (\<lambda>f. let (r, w) = call_int E (My_fclose (m_file f) flags) (world s)
                           in (r, w, os_calls (trace s) @ [My_fclose (m_file f) flags], (mfiles s)(file := None)))
            (mfiles s file))"
proof (cases "mfiles s file")
  case (Some f)
  let ?c = "My_fclose (m_file f) flags"
  have free: "seen (fst x, my_free file (snd x)) = (case seen x of (r, w, cs, m) \<Rightarrow> (r, w, cs, m(file := None)))" for x :: "cint \<times> 'a fstate"
    by (simp add: seen_def my_free_def)
  have io: "seen (close_io lk q src (call_int E) ?c ?c s) = seen (os_call (call_int E) ?c s)" for lk q
    by (rule io_seen)
  show ?thesis using Some
    by (auto simp: inline_mysql_file_fclose_def Let_def case_prod_beta free io) (simp_all add: seen_def os_call_eq)
qed (simp add: inline_mysql_file_fclose_def)

text \<open>
  C40. Instrumentation is transparent: for every wrapper of a call, whatever lockers the performance
  schema hands out, the result, the world, the sequence of system calls and the heap are those of the
  plain call on the same arguments, and a stream wrapper is undefined only on a struct that is not
  allocated. Two wrappers do more than their call, and the same with and without instruments: opening
  a stream allocates a struct, makes no call when there is no memory, and keeps the struct only when
  the call succeeds; closing one frees the struct, and does nothing for a null pointer. The instrument
  kept in a new struct is all that the performance schema decides.
\<close>

theorem file_transparent:
  "seen ((), inline_mysql_file_register category info n s) = seen ((), s)
   \<and> map_option seen (inline_mysql_file_fgets E src str sz file s) =
       map_option (\<lambda>f. seen (os_call (call_ptr E) (Fgets str sz (m_file f)) s)) (mfiles s file)
   \<and> map_option seen (inline_mysql_file_fgetc E src file s) =
       map_option (\<lambda>f. seen (os_call (call_int E) (Fgetc (m_file f)) s)) (mfiles s file)
   \<and> map_option seen (inline_mysql_file_fputs E src str file s) =
       map_option (\<lambda>f. seen (os_call (call_int E) (Fputs str (m_file f)) s)) (mfiles s file)
   \<and> map_option seen (inline_mysql_file_fputc E src c file s) =
       map_option (\<lambda>f. seen (os_call (call_int E) (Fputc c (m_file f)) s)) (mfiles s file)
   \<and> map_option seen (inline_mysql_file_fprintf E file format args s) =
       map_option (\<lambda>f. seen (os_call (call_int E) (Vfprintf (m_file f) format args) s)) (mfiles s file)
   \<and> map_option seen (inline_mysql_file_vfprintf E src file format args s) =
       map_option (\<lambda>f. seen (os_call (call_int E) (Vfprintf (m_file f) format args) s)) (mfiles s file)
   \<and> map_option seen (inline_mysql_file_fflush E src file s) =
       map_option (\<lambda>f. seen (os_call (call_int E) (Fflush (m_file f)) s)) (mfiles s file)
   \<and> map_option seen (inline_mysql_file_feof E file s) =
       map_option (\<lambda>f. seen (os_call (call_int E) (Feof (m_file f)) s)) (mfiles s file)
   \<and> seen (inline_mysql_file_fstat E src filenr stat_area flags s) =
       seen (os_call (call_int E) (My_fstat filenr stat_area flags) s)
   \<and> seen (inline_mysql_file_stat E key src path stat_area flags s) =
       seen (os_call (call_ptr E) (My_stat path stat_area flags) s)
   \<and> seen (inline_mysql_file_chsize E src fd newlength filler flags s) =
       seen (os_call (call_int E) (My_chsize fd newlength filler flags) s)
   \<and> (\<exists>psi. seen (inline_mysql_file_fopen E key src filename flags myFlags s) =
       (if malloc E s = 0 then seen (0, s)
        else let (fp, w) = call_ptr E (My_fopen filename flags myFlags) (world s)
             in (if fp = 0 then 0 else malloc E s, w, os_calls (trace s) @ [My_fopen filename flags myFlags],
                 if fp = 0 then (mfiles s)(malloc E s := None)
                 else (mfiles s)(malloc E s \<mapsto> \<lparr>m_file = fp, m_psi = psi\<rparr>))))
   \<and> map_option seen (inline_mysql_file_fclose E src file flags s) =
       (if file = 0 then Some (seen (0, s))
        else map_option (\<lambda>f. let (r, w) = call_int E (My_fclose (m_file f) flags) (world s)
                              in (r, w, os_calls (trace s) @ [My_fclose (m_file f) flags], (mfiles s)(file := None)))
               (mfiles s file))
   \<and> map_option seen (inline_mysql_file_fread E src file buffer count flags s) =
       map_option (\<lambda>f. seen (os_call (call_size E) (My_fread (m_file f) buffer count flags) s)) (mfiles s file)
   \<and> map_option seen (inline_mysql_file_fwrite E src file buffer count flags s) =
       map_option (\<lambda>f. seen (os_call (call_size E) (My_fwrite (m_file f) buffer count flags) s)) (mfiles s file)
   \<and> map_option seen (inline_mysql_file_fseek E src file pos whence flags s) =
       map_option (\<lambda>f. seen (os_call (call_size E) (My_fseek (m_file f) pos whence flags) s)) (mfiles s file)
   \<and> map_option seen (inline_mysql_file_ftell E src file flags s) =
       map_option (\<lambda>f. seen (os_call (call_size E) (My_ftell (m_file f) flags) s)) (mfiles s file)
   \<and> seen (inline_mysql_file_create E key src filename create_flags access_flags myFlags s) =
       seen (os_call (call_int E) (My_create filename create_flags access_flags myFlags) s)
   \<and> seen (inline_mysql_file_create_temp E key src to dir pfx mode myFlags s) =
       seen (os_call (call_int E) (Create_temp_file to dir pfx mode myFlags) s)
   \<and> seen (inline_mysql_file_open E key src filename flags myFlags s) =
       seen (os_call (call_int E) (My_open filename flags myFlags) s)
   \<and> seen (inline_mysql_file_close E src fd flags s) =
       seen (os_call (call_int E) (My_close fd flags) s)
   \<and> seen (inline_mysql_file_read E src fd buffer count flags s) =
       seen (os_call (call_size E) (My_read fd buffer count flags) s)
   \<and> seen (inline_mysql_file_write E src fd buffer count flags s) =
       seen (os_call (call_size E) (My_write fd buffer count flags) s)
   \<and> seen (inline_mysql_file_pread E src fd buffer count offset flags s) =
       seen (os_call (call_size E) (My_pread fd buffer count offset flags) s)
   \<and> seen (inline_mysql_file_pwrite E src fd buffer count offset flags s) =
       seen (os_call (call_size E) (My_pwrite fd buffer count offset flags) s)
   \<and> seen (inline_mysql_file_seek E src fd pos whence flags s) =
       seen (os_call (call_size E) (My_seek fd pos whence flags) s)
   \<and> seen (inline_mysql_file_tell E src fd flags s) =
       seen (os_call (call_size E) (My_tell fd flags) s)
   \<and> seen (inline_mysql_file_delete E key src name flags s) =
       seen (os_call (call_int E) (My_delete name flags) s)
   \<and> seen (inline_mysql_file_rename E key src old new flags s) =
       seen (os_call (call_int E) (My_rename old new flags) s)
   \<and> seen (inline_mysql_file_create_with_symlink E key src linkname filename create_flags access_flags flags s) =
       seen (os_call (call_int E) (My_create_with_symlink linkname filename create_flags access_flags flags) s)
   \<and> seen (inline_mysql_file_delete_with_symlink E key src name ext flags s) =
       seen (os_call (call_int E) (My_handler_delete_with_symlink
           (fn_format E name [] ext (MY_UNPACK_FILENAME OR MY_APPEND_EXT)) flags) s)
   \<and> seen (inline_mysql_file_rename_with_symlink E key src old new flags s) =
       seen (os_call (call_int E) (My_rename_with_symlink old new flags) s)
   \<and> seen (inline_mysql_file_sync E src fd flags s) =
       seen (os_call (call_int E) (My_sync fd flags) s)"
proof (intro conjI)
  show "\<exists>psi. seen (inline_mysql_file_fopen E key src filename flags myFlags s) =
       (if malloc E s = 0 then seen (0, s)
        else let (fp, w) = call_ptr E (My_fopen filename flags myFlags) (world s)
             in (if fp = 0 then 0 else malloc E s, w, os_calls (trace s) @ [My_fopen filename flags myFlags],
                 if fp = 0 then (mfiles s)(malloc E s := None)
                 else (mfiles s)(malloc E s \<mapsto> \<lparr>m_file = fp, m_psi = psi\<rparr>)))"
    by (rule fopen_seen)
qed (simp_all only: fclose_seen,
    simp_all add: plain_wrapper_defs io_seen stream_seen register_seen Let_def option.map_comp comp_def)

section \<open>Opening and closing streams\<close>

lemma fopen_frame:
  assumes "inline_mysql_file_fopen E key src filename flags myFlags s = (r, s')"
  shows "extends s s'" "r \<noteq> 0 \<Longrightarrow> mfiles s' r \<noteq> None"
    "mfiles s' p = Some f \<Longrightarrow> mfiles s p = Some f \<or> p \<noteq> 0 \<and> m_file f \<noteq> 0"
  using assms unfolding fopen_cases
  by (auto simp: extends_def balanced_def Let_def split: if_splits)

lemma fclose_frame:
  assumes "inline_mysql_file_fclose E src file flags s = Some (r, s')"
  shows "extends s s'" "mfiles s' = (if file = 0 then mfiles s else (mfiles s)(file := None))"
proof -
  have "extends s s' \<and> mfiles s' = (if file = 0 then mfiles s else (mfiles s)(file := None))"
  proof (cases "file = 0")
    case True
    with assms show ?thesis by (simp add: inline_mysql_file_fclose_def)
  next
    case False
    with assms obtain f where f: "mfiles s file = Some f"
      by (auto simp: inline_mysql_file_fclose_def split: option.splits)
    let ?c = "close_io (lockers E) (Stream_locker (m_psi f) PSI_FILE_STREAM_CLOSE) src
      (call_int E) (My_fclose (m_file f) flags) (My_fclose (m_file f) flags)"
    let ?d = "os_call (call_int E) (My_fclose (m_file f) flags)"
    from assms f False have "s' = my_free file (snd ((if m_psi f \<noteq> 0 then ?c else ?d) s))"
      by (auto simp: inline_mysql_file_fclose_def Let_def split: prod.splits if_splits)
    moreover have "extends s (snd (?c s))" "mfiles (snd (?c s)) = mfiles s"
      "extends s (snd (?d s))" "mfiles (snd (?d s)) = mfiles s"
      by (simp_all add: call_seen(2,3) [OF close_io.psi_call_axioms] call_seen(2,3) [OF raw_io.psi_call_axioms])
    ultimately show ?thesis using False by (auto simp: my_free_def extends_def)
  qed
  then show "extends s s'" "mfiles s' = (if file = 0 then mfiles s else (mfiles s)(file := None))" by blast+
qed

section \<open>Programs of wrapper calls\<close>

text \<open>One step calls one wrapper with any arguments.\<close>

inductive file_step :: "'w file_env \<Rightarrow> 'w fstate \<Rightarrow> 'w fstate \<Rightarrow> bool" where
  by_register: "file_step E s (inline_mysql_file_register category info count s)"
| by_fgets: "inline_mysql_file_fgets E src str sz file s = Some (r, s') \<Longrightarrow> file_step E s s'"
| by_fgetc: "inline_mysql_file_fgetc E src file s = Some (r, s') \<Longrightarrow> file_step E s s'"
| by_fputs: "inline_mysql_file_fputs E src str file s = Some (r, s') \<Longrightarrow> file_step E s s'"
| by_fputc: "inline_mysql_file_fputc E src c file s = Some (r, s') \<Longrightarrow> file_step E s s'"
| by_fprintf: "inline_mysql_file_fprintf E file format args s = Some (r, s') \<Longrightarrow>
    file_step E s s'"
| by_vfprintf: "inline_mysql_file_vfprintf E src file format args s = Some (r, s') \<Longrightarrow>
    file_step E s s'"
| by_fflush: "inline_mysql_file_fflush E src file s = Some (r, s') \<Longrightarrow> file_step E s s'"
| by_feof: "inline_mysql_file_feof E file s = Some (r, s') \<Longrightarrow> file_step E s s'"
| by_fstat: "inline_mysql_file_fstat E src filenr stat_area flags s = (r, s') \<Longrightarrow>
    file_step E s s'"
| by_stat: "inline_mysql_file_stat E key src path stat_area flags s = (r, s') \<Longrightarrow>
    file_step E s s'"
| by_chsize: "inline_mysql_file_chsize E src file newlength filler flags s = (r, s') \<Longrightarrow>
    file_step E s s'"
| by_fopen: "inline_mysql_file_fopen E key src filename flags myFlags s = (r, s') \<Longrightarrow>
    file_step E s s'"
| by_fclose: "inline_mysql_file_fclose E src file flags s = Some (r, s') \<Longrightarrow> file_step E s s'"
| by_fread: "inline_mysql_file_fread E src file buffer count flags s = Some (r, s') \<Longrightarrow>
    file_step E s s'"
| by_fwrite: "inline_mysql_file_fwrite E src file buffer count flags s = Some (r, s') \<Longrightarrow>
    file_step E s s'"
| by_fseek: "inline_mysql_file_fseek E src file pos whence flags s = Some (r, s') \<Longrightarrow>
    file_step E s s'"
| by_ftell: "inline_mysql_file_ftell E src file flags s = Some (r, s') \<Longrightarrow> file_step E s s'"
| by_create: "inline_mysql_file_create E key src filename create_flags access_flags myFlags s = (r, s') \<Longrightarrow>
    file_step E s s'"
| by_create_temp: "inline_mysql_file_create_temp E key src to dir pfx mode myFlags s = (r, s') \<Longrightarrow>
    file_step E s s'"
| by_open: "inline_mysql_file_open E key src filename flags myFlags s = (r, s') \<Longrightarrow>
    file_step E s s'"
| by_close: "inline_mysql_file_close E src file flags s = (r, s') \<Longrightarrow> file_step E s s'"
| by_read: "inline_mysql_file_read E src file buffer count flags s = (r, s') \<Longrightarrow>
    file_step E s s'"
| by_write: "inline_mysql_file_write E src file buffer count flags s = (r, s') \<Longrightarrow>
    file_step E s s'"
| by_pread: "inline_mysql_file_pread E src file buffer count offset flags s = (r, s') \<Longrightarrow>
    file_step E s s'"
| by_pwrite: "inline_mysql_file_pwrite E src file buffer count offset flags s = (r, s') \<Longrightarrow>
    file_step E s s'"
| by_seek: "inline_mysql_file_seek E src file pos whence flags s = (r, s') \<Longrightarrow> file_step E s s'"
| by_tell: "inline_mysql_file_tell E src file flags s = (r, s') \<Longrightarrow> file_step E s s'"
| by_delete: "inline_mysql_file_delete E key src name flags s = (r, s') \<Longrightarrow> file_step E s s'"
| by_rename: "inline_mysql_file_rename E key src old new flags s = (r, s') \<Longrightarrow> file_step E s s'"
| by_create_with_symlink: "inline_mysql_file_create_with_symlink E key src linkname filename create_flags access_flags flags s = (r, s') \<Longrightarrow>
    file_step E s s'"
| by_delete_with_symlink: "inline_mysql_file_delete_with_symlink E key src name ext flags s = (r, s') \<Longrightarrow>
    file_step E s s'"
| by_rename_with_symlink: "inline_mysql_file_rename_with_symlink E key src old new flags s = (r, s') \<Longrightarrow>
    file_step E s s'"
| by_sync: "inline_mysql_file_sync E src fd flags s = (r, s') \<Longrightarrow> file_step E s s'"


text \<open>Every struct on the heap is at a real address and holds an open file.\<close>

definition heap_ok :: "'w fstate \<Rightarrow> bool" where
  "heap_ok s \<longleftrightarrow> (\<forall>p f. mfiles s p = Some f \<longrightarrow> p \<noteq> 0 \<and> m_file f \<noteq> 0)"

definition file_inv :: "'w fstate \<Rightarrow> bool" where
  "file_inv s \<longleftrightarrow> balanced (trace s) \<and> heap_ok s"

lemma inv_frame: "file_inv s \<Longrightarrow> extends s s' \<Longrightarrow> mfiles s' = mfiles s \<Longrightarrow> file_inv s'"
  using extends_balanced by (auto simp: file_inv_def heap_ok_def)

lemma inv_call:
  fixes w :: "'w fstate \<Rightarrow> 'r \<times> 'w fstate"
  assumes "psi_call w f c" "w s = (r, s')" "file_inv s"
  shows "file_inv s'"
  using call_seen(2,3) [OF assms(1), of s] assms(2,3) by (auto intro: inv_frame)

lemmas inv_io = inv_call [OF wait_io.psi_call_axioms] inv_call [OF rename_io.psi_call_axioms]
  inv_call [OF open_io.psi_call_axioms] inv_call [OF bind_io.psi_call_axioms]
  inv_call [OF temp_bind_io.psi_call_axioms] inv_call [OF close_io.psi_call_axioms]
  inv_call [OF raw_io.psi_call_axioms]

lemma inv_stream: "stream_io E file op src count f c bytes c s = Some (r, s') \<Longrightarrow> file_inv s \<Longrightarrow> file_inv s'"
  using inv_frame stream_frame by metis

lemma inv_fopen:
  assumes "inline_mysql_file_fopen E key src filename flags myFlags s = (r, s')" "file_inv s"
  shows "file_inv s'"
proof -
  have "p \<noteq> 0 \<and> m_file f \<noteq> 0" if "mfiles s' p = Some f" for p f
    using fopen_frame(3) [OF assms(1) that] assms(2) by (auto simp: file_inv_def heap_ok_def)
  then show ?thesis
    using extends_balanced [OF fopen_frame(1) [OF assms(1)]] assms(2) by (simp add: file_inv_def heap_ok_def)
qed

lemma inv_fclose:
  assumes "inline_mysql_file_fclose E src file flags s = Some (r, s')" "file_inv s"
  shows "file_inv s'"
  using extends_balanced [OF fclose_frame(1) [OF assms(1)]] fclose_frame(2) [OF assms(1)] assms(2)
  by (auto simp: file_inv_def heap_ok_def split: if_splits)

lemma step_inv: "file_step E s s' \<Longrightarrow> file_inv s \<Longrightarrow> file_inv s'"
proof (induction rule: file_step.induct)
  case (by_register s category info count)
  then show ?case
    by (simp add: inline_mysql_file_register_def log_def file_inv_def heap_ok_def balanced_def run_waits_append)
next
  case by_fopen
  then show ?case by (blast intro: inv_fopen)
next
  case by_fclose
  then show ?case by (blast intro: inv_fclose)
next
  case by_feof
  then show ?case by (auto simp: inline_mysql_file_feof_def dest: inv_io)
qed (simp_all add: file_wrapper_defs Let_def, (drule inv_stream inv_io, assumption, assumption)+)

text \<open>
  Any program of wrapper calls, whatever the performance schema and the system calls answer,
  keeps the trace balanced (each wait that starts ends with the same locker before the next one
  starts) and keeps every allocated stream struct at a non-null address with an open file in it.
\<close>

theorem file_programs_balanced:
  assumes "(file_step E)\<^sup>*\<^sup>* s s'" "file_inv s"
  shows "file_inv s'"
  using assms by (induction rule: rtranclp_induct) (auto intro: step_inv)

section \<open>Properties\<close>

text \<open>A system in which every call succeeds, and one in which it fails.\<close>

definition example_env :: "cint \<Rightarrow> csize \<Rightarrow> ptr \<Rightarrow> unit file_env" where
  "example_env i n p = \<lparr>lockers = (\<lambda>q t. 7), opened_psi = (\<lambda>t. 9), call_int = (\<lambda>c w. (i, w)),
     call_size = (\<lambda>c w. (n, w)), call_ptr = (\<lambda>c w. (p, w)), strlen = (\<lambda>w p. 0),
     fn_format = (\<lambda>n d e f. n @ e), malloc = (\<lambda>s. 100), garbage = \<lparr>m_file = 0, m_psi = 0\<rparr>,
     this_file = ([], 0)\<rparr>"

definition example_state :: "unit fstate" where
  "example_state = \<lparr>world = (), trace = [], mfiles = [5 \<mapsto> \<lparr>m_file = 3, m_psi = 4\<rparr>]\<rparr>"

lemma example_inv: "file_inv example_state"
  by (auto simp: example_state_def file_inv_def heap_ok_def balanced_def split: if_splits)

lemma file_programs_balanced_witness:
  "file_inv (snd (inline_mysql_file_read (example_env 0 10 0) ([], 1) 1 200 10 0 example_state))"
proof -
  have "file_step (example_env 0 10 0) example_state
      (snd (inline_mysql_file_read (example_env 0 10 0) ([], 1) 1 200 10 0 example_state))"
    by (rule file_step.by_read [where r = "fst (inline_mysql_file_read (example_env 0 10 0) ([], 1) 1 200 10 0
        example_state)"]) simp
  from file_programs_balanced [OF r_into_rtranclp, of "example_env 0 10 0", OF this example_inv]
  show ?thesis .
qed

text \<open>
  When the allocator returns fresh memory, a failed \<open>fopen\<close> leaves the heap of stream structs as
  it was, a successful one adds exactly one struct with an open file, and closing what was opened
  succeeds and gives back the heap from before the \<open>fopen\<close>: no struct is leaked on any path.
\<close>

theorem fopen_fclose_no_leak:
  assumes fresh: "mfiles s (malloc E s) = None"
    and fopen: "inline_mysql_file_fopen E key src filename flags myFlags s = (p, s1)"
  shows "if p = 0 then mfiles s1 = mfiles s
    else mfiles s p = None \<and> (\<exists>f. mfiles s1 = (mfiles s)(p \<mapsto> f) \<and> m_file f \<noteq> 0)
      \<and> (\<exists>r s2. inline_mysql_file_fclose E src2 p flags2 s1 = Some (r, s2) \<and> mfiles s2 = mfiles s)"
proof (cases "p = 0")
  case True
  with fopen fresh show ?thesis unfolding fopen_cases by (auto split: if_splits)
next
  case False
  with fopen fresh obtain f where f: "p = malloc E s" "mfiles s1 = (mfiles s)(p \<mapsto> f)" "m_file f \<noteq> 0"
    unfolding fopen_cases by (auto simp: Let_def split: if_splits)
  then obtain r s2 where c: "inline_mysql_file_fclose E src2 p flags2 s1 = Some (r, s2)"
    using False by (auto simp: inline_mysql_file_fclose_def Let_def case_prod_beta)
  with f False fresh have "mfiles s2 = mfiles s" by (simp add: fclose_frame(2) [OF c] fun_upd_idem)
  with f c False fresh show ?thesis by auto
qed

lemma fopen_fclose_no_leak_witness:
  "\<exists>p s1. inline_mysql_file_fopen (example_env 0 0 11) 0 ([], 1) ''t'' 0 0 example_state = (p, s1) \<and> p = 100
    \<and> (\<exists>r s2. inline_mysql_file_fclose (example_env 0 0 11) ([], 1) p 0 s1 = Some (r, s2)
        \<and> mfiles s2 = mfiles example_state)"
proof -
  obtain p s1 where o: "inline_mysql_file_fopen (example_env 0 0 11) 0 ([], 1) ''t'' 0 0 example_state = (p, s1)"
    by (cases "inline_mysql_file_fopen (example_env 0 0 11) 0 ([], 1) ''t'' 0 0 example_state") blast
  then have p: "p = 100" unfolding fopen_cases by (simp add: example_env_def)
  have "mfiles example_state (malloc (example_env 0 0 11) example_state) = None"
    by (simp add: example_env_def example_state_def)
  from fopen_fclose_no_leak [OF this o, of "([], 1)" 0] p show ?thesis by (auto simp: o)
qed

text \<open>The byte counts in the notifications that a wrapper added to the trace.\<close>

definition reported :: "'w fstate \<Rightarrow> 'r \<times> 'w fstate \<Rightarrow> csize set" where
  "reported s rs = {b. \<exists>l. End_wait l b \<in> set (drop (length (trace s)) (trace (snd rs)))}"

lemma reported_wait: "reported s (wait_io lk q src count f c bytes c' s) \<subseteq>
    {bytes (fst (f c (world s))) (snd (f c (world s)))}"
  by (auto simp: reported_def wait_io_def instrumented_def Let_def os_call_eq log_def)

lemma reported_raw: "reported s (os_call f c s) = {}"
  by (simp add: reported_def os_call_eq)

lemma io_bytes_le:
  assumes "r \<le> count \<or> r = MY_FILE_ERROR"
  shows "io_bytes flags count r \<le> count" "r = MY_FILE_ERROR \<Longrightarrow> io_bytes flags count r = 0"
  using assms by (auto simp: io_bytes_def MY_FILE_ERROR_def)

text \<open>
  If the call returns at most the count asked for, or its error value, then the six wrappers that
  read or write report at most the count asked for, and report nothing for a failed call.
\<close>

theorem io_bytes_reported:
  assumes ok: "\<forall>c. fst (call_size E c (world s)) \<le> count \<or> fst (call_size E c (world s)) = MY_FILE_ERROR"
  shows "(\<forall>rs \<in> {inline_mysql_file_read E src fd buffer count flags s,
        inline_mysql_file_write E src fd buffer count flags s,
        inline_mysql_file_pread E src fd buffer count offset flags s,
        inline_mysql_file_pwrite E src fd buffer count offset flags s}
      \<union> {rs. Some rs = inline_mysql_file_fread E src file buffer count flags s
           \<or> Some rs = inline_mysql_file_fwrite E src file buffer count flags s}.
      \<forall>b \<in> reported s rs. b \<le> count \<and> (fst rs = MY_FILE_ERROR \<longrightarrow> b = 0))"
proof -
  have wait: "b \<le> count \<and> (fst (wait_io lk q src n (call_size E) c (\<lambda>r w. io_bytes flags count r) c s)
        = MY_FILE_ERROR \<longrightarrow> b = 0)"
    if "b \<in> reported s (wait_io lk q src n (call_size E) c (\<lambda>r w. io_bytes flags count r) c s)"
    for b lk q n c
    using that reported_wait [of s lk q src n "call_size E" c] io_bytes_le [OF spec [OF ok]]
    by (fastforce simp: wait_io.result)
  have stream: "b \<le> count \<and> (fst rs = MY_FILE_ERROR \<longrightarrow> b = 0)"
    if "Some rs = stream_io E file op src n (call_size E) c (\<lambda>r w. io_bytes flags count r) c s"
      "b \<in> reported s rs" for b op n c rs
    using that wait by (auto simp: stream_io_def reported_raw split: option.splits if_splits)
  show ?thesis
    unfolding inline_mysql_file_read_def inline_mysql_file_write_def inline_mysql_file_pread_def
      inline_mysql_file_pwrite_def inline_mysql_file_fread_def inline_mysql_file_fwrite_def
    using wait stream by blast
qed

lemma io_bytes_reported_witness:
  "(3 :: csize) \<le> 10 \<and>
   3 \<in> reported example_state (inline_mysql_file_read (example_env 0 3 0) ([], 1) 1 200 10 0 example_state)"
proof -
  have m: "3 \<in> reported example_state
      (inline_mysql_file_read (example_env 0 3 0) ([], 1) 1 200 10 0 example_state)"
    by (simp add: reported_def inline_mysql_file_read_def wait_io_def instrumented_def os_call_def log_def
        example_state_def example_env_def io_bytes_def Let_def MY_FILE_ERROR_def)
  have "\<forall>c. fst (call_size (example_env 0 3 0) c (world example_state)) \<le> 10 \<or>
      fst (call_size (example_env 0 3 0) c (world example_state)) = MY_FILE_ERROR"
    by (simp add: example_env_def)
  from io_bytes_reported [OF this] m show ?thesis by blast
qed

lemma unat_size_minus_1: "unat (- 1 :: csize) = 2 ^ 64 - 1"
  by (simp add: unsigned_minus_1_eq_mask mask_eq_exp_minus_1)

text \<open>
  When a formatted print to an instrumented stream fails, the wrapper reports 2^64 - 1 bytes: the
  negative result is converted to an unsigned size without a check, where the other wrappers report 0.
\<close>

theorem fprintf_error_bytes:
  assumes "mfiles s file = Some st" "m_psi st \<noteq> 0"
    and "lockers E (Stream_locker (m_psi st) PSI_FILE_WRITE) (trace s) \<noteq> 0"
    and "call_int E (Vfprintf (m_file st) format args) (world s) = (- 1, w)"
  shows "\<exists>s' l b. inline_mysql_file_fprintf E file format args s = Some (- 1, s')
    \<and> last (trace s') = End_wait l b \<and> unat b = 2 ^ 64 - 1"
  using assms
  by (simp add: inline_mysql_file_fprintf_def stream_io_def wait_io_def instrumented_def Let_def
      os_call_eq log_def unat_size_minus_1)

lemma fprintf_error_bytes_witness:
  "\<exists>s' l b. inline_mysql_file_fprintf (example_env (- 1) 0 0) 5 1 2 example_state = Some (- 1, s')
    \<and> last (trace s') = End_wait l b \<and> unat b = 2 ^ 64 - 1"
  by (rule fprintf_error_bytes [where st = "\<lparr>m_file = 3, m_psi = 4\<rparr>" and w = "()"])
    (simp_all add: example_env_def example_state_def)

end
