(* ===== verification/Psi_Socket.thy ===== *)
theory Psi_Socket
  imports Psi_Core
begin

text \<open>
  \<open>mysql_socket.h\<close>: the instrumented replacements of the socket functions, in the Windows build of
  the repository (no \<open>accept4\<close>, no \<open>FD_CLOEXEC\<close>, lengths of buffers cast to \<open>int\<close>). A
  \<open>MYSQL_SOCKET\<close> is passed by value. The socket calls and the performance schema are outside the
  repository and are the fields of the environment.
\<close>

section \<open>Types\<close>

type_synonym my_socket = "64 word"
type_synonym socklen_t = cint
type_synonym ssize_t = "64 word"

datatype PSI_socket_operation =
    PSI_SOCKET_CREATE | PSI_SOCKET_CONNECT | PSI_SOCKET_BIND | PSI_SOCKET_CLOSE | PSI_SOCKET_SEND
  | PSI_SOCKET_RECV | PSI_SOCKET_SENDTO | PSI_SOCKET_RECVFROM | PSI_SOCKET_SENDMSG
  | PSI_SOCKET_RECVMSG | PSI_SOCKET_SEEK | PSI_SOCKET_OPT | PSI_SOCKET_STAT | PSI_SOCKET_SHUTDOWN
  | PSI_SOCKET_SELECT

datatype PSI_socket_state = PSI_SOCKET_STATE_IDLE | PSI_SOCKET_STATE_ACTIVE

datatype socket_query = Socket_locker ptr PSI_socket_operation

datatype socket_call =
    Socket cint cint cint | Bind my_socket ptr cint | Getsockname my_socket ptr ptr
  | Connect my_socket ptr socklen_t | Getpeername my_socket ptr ptr | Send my_socket ptr cint cint
  | Recv my_socket ptr cint cint | Sendto my_socket ptr cint cint ptr socklen_t
  | Recvfrom my_socket ptr cint cint ptr ptr | Getsockopt my_socket cint cint ptr ptr
  | Setsockopt my_socket cint cint ptr socklen_t | Ioctlsocket_fionbio my_socket ulong
  | Listen my_socket cint | Accept my_socket ptr ptr | Closesocket my_socket
  | WSAIoctl_disconnectex my_socket | DisconnectEx_call ptr my_socket | Shutdown my_socket cint

datatype socket_note =
    Register_socket string ptr cint | Set_socket_info ptr ptr socklen_t | Set_thread_owner ptr
  | Set_state ptr PSI_socket_state | Init_socket uint my_socket ptr socklen_t | Destroy_socket ptr

record MYSQL_SOCKET =
  fd :: my_socket
  is_unix_domain_socket :: uchar
  is_extra_port :: uchar
  address_family :: uint16
  s_psi :: ptr

definition INVALID_SOCKET :: my_socket where "INVALID_SOCKET = - 1"
definition SOCK_CLOEXEC :: cint where "SOCK_CLOEXEC = 0"

text \<open>The static function pointer of \<open>shutdown\<close> is part of the state.\<close>

record 'w sstate = "(socket_query, socket_call, socket_note, 'w) psi_state" +
  disconnect_ex :: ptr

text \<open>
  The environment: the lockers and the instruments the performance schema hands out, the calls by
  their result type, the \<open>socklen_t\<close> at an address, and the contents of an uninitialised struct.
\<close>

record 'w sock_env =
  lockers :: "socket_query \<Rightarrow> (socket_query, socket_call, socket_note) psi_event list \<Rightarrow> ptr"
  inited_psi :: "(socket_query, socket_call, socket_note) psi_event list \<Rightarrow> ptr"
  call_int :: "socket_call \<Rightarrow> 'w \<Rightarrow> cint \<times> 'w"
  call_sock :: "socket_call \<Rightarrow> 'w \<Rightarrow> my_socket \<times> 'w"
  call_ptr :: "socket_call \<Rightarrow> 'w \<Rightarrow> ptr \<times> 'w"
  call_bool :: "socket_call \<Rightarrow> 'w \<Rightarrow> bool \<times> 'w"
  len_at :: "'w \<Rightarrow> ptr \<Rightarrow> socklen_t"
  garbage :: MYSQL_SOCKET

section \<open>Helpers of the header\<close>

definition mysql_socket_invalid :: MYSQL_SOCKET where
  "mysql_socket_invalid = \<lparr>fd = INVALID_SOCKET, is_unix_domain_socket = 0, is_extra_port = 0,
     address_family = 0, s_psi = 0\<rparr>"

definition mysql_socket_set_address :: "MYSQL_SOCKET \<Rightarrow> ptr \<Rightarrow> socklen_t \<Rightarrow> 'w sstate \<Rightarrow> 'w sstate" where
  "mysql_socket_set_address sock addr len s =
     (if s_psi sock \<noteq> 0 then log (Note (Set_socket_info (s_psi sock) addr len)) s else s)"

definition mysql_socket_set_thread_owner :: "MYSQL_SOCKET \<Rightarrow> 'w sstate \<Rightarrow> 'w sstate" where
  "mysql_socket_set_thread_owner sock s =
     (if s_psi sock \<noteq> 0 then log (Note (Set_thread_owner (s_psi sock))) s else s)"

definition mysql_socket_getfd :: "MYSQL_SOCKET \<Rightarrow> my_socket" where
  "mysql_socket_getfd sock = fd sock"

text \<open>The argument is a pointer; \<open>None\<close> is the null pointer, which is left alone.\<close>

definition mysql_socket_setfd :: "MYSQL_SOCKET option \<Rightarrow> my_socket \<Rightarrow> MYSQL_SOCKET option" where
  "mysql_socket_setfd sock v = map_option (\<lambda>k. k\<lparr>fd := v\<rparr>) sock"

definition inline_mysql_start_socket_wait ::
    "'w sock_env \<Rightarrow> MYSQL_SOCKET \<Rightarrow> PSI_socket_operation \<Rightarrow> csize \<Rightarrow> src_loc \<Rightarrow> 'w sstate \<Rightarrow> ptr \<times> 'w sstate" where
  "inline_mysql_start_socket_wait E sock op byte_count src s =
     (if s_psi sock \<noteq> 0 then
        (let q = Socket_locker (s_psi sock) op;
             l = lockers E q (trace s);
             s = log (Ask q l) s
         in (l, if l \<noteq> 0 then log (Start_wait l byte_count src) s else s))
      else (0, s))"

definition inline_mysql_end_socket_wait :: "ptr \<Rightarrow> csize \<Rightarrow> 'w sstate \<Rightarrow> 'w sstate" where
  "inline_mysql_end_socket_wait l byte_count s = (if l \<noteq> 0 then log (End_wait l byte_count) s else s)"

definition inline_mysql_socket_set_state :: "MYSQL_SOCKET \<Rightarrow> PSI_socket_state \<Rightarrow> 'w sstate \<Rightarrow> 'w sstate" where
  "inline_mysql_socket_set_state sock st s =
     (if s_psi sock \<noteq> 0 then log (Note (Set_state (s_psi sock) st)) s else s)"

section \<open>Shared parts of the wrappers\<close>

text \<open>An instrumented socket waits around the call, a plain one only makes the second copy of the call.\<close>

definition socket_io ::
    "'w sock_env \<Rightarrow> MYSQL_SOCKET \<Rightarrow> PSI_socket_operation \<Rightarrow> src_loc \<Rightarrow> csize \<Rightarrow> (socket_call \<Rightarrow> 'w \<Rightarrow> 'r \<times> 'w) \<Rightarrow>
      socket_call \<Rightarrow> ('r \<Rightarrow> csize) \<Rightarrow> socket_call \<Rightarrow> 'w sstate \<Rightarrow> 'r \<times> 'w sstate" where
  "socket_io E sock op src count f c bytes c' s =
     (if s_psi sock \<noteq> 0
      then wait_io (lockers E) (Socket_locker (s_psi sock) op) src count f c (\<lambda>r w. bytes r) c' s
      else os_call f c' s)"

text \<open>The result of \<open>send\<close> and \<open>recv\<close> is an \<open>int\<close>, stored in a \<open>ssize_t\<close>.\<close>

definition sent_bytes :: "ssize_t \<Rightarrow> csize" where
  "sent_bytes result = (if 0 <s result then result else 0)"

definition widen :: "cint \<times> 'w sstate \<Rightarrow> ssize_t \<times> 'w sstate" where
  "widen rs = (scast (fst rs), snd rs)"

section \<open>The wrappers\<close>

definition inline_mysql_socket_register :: "string \<Rightarrow> ptr \<Rightarrow> cint \<Rightarrow> 'w sstate \<Rightarrow> 'w sstate" where
  "inline_mysql_socket_register category info count s = log (Note (Register_socket category info count)) s"

definition inline_mysql_socket_fd :: "'w sock_env \<Rightarrow> uint \<Rightarrow> cint \<Rightarrow> 'w sstate \<Rightarrow> MYSQL_SOCKET \<times> 'w sstate" where
  "inline_mysql_socket_fd E key v s =
     (let sock = mysql_socket_invalid\<lparr>fd := scast v\<rparr>;
          s = log (Note (Init_socket key (fd sock) 0 0)) s
      in (sock\<lparr>s_psi := inited_psi E (trace s)\<rparr>, s))"

definition inline_mysql_socket_socket ::
    "'w sock_env \<Rightarrow> uint \<Rightarrow> cint \<Rightarrow> cint \<Rightarrow> cint \<Rightarrow> 'w sstate \<Rightarrow> MYSQL_SOCKET \<times> 'w sstate" where
  "inline_mysql_socket_socket E key domain type protocol s =
     (let (v, s) = os_call (call_sock E) (Socket domain (type OR SOCK_CLOEXEC) protocol) s;
          sock = mysql_socket_invalid\<lparr>fd := v\<rparr>
      in if fd sock \<noteq> INVALID_SOCKET then
           (let s = log (Note (Init_socket key (fd sock) 0 0)) s
            in (sock\<lparr>s_psi := inited_psi E (trace s)\<rparr>, s))
         else (sock, s))"

definition inline_mysql_socket_bind ::
    "'w sock_env \<Rightarrow> src_loc \<Rightarrow> MYSQL_SOCKET \<Rightarrow> ptr \<Rightarrow> csize \<Rightarrow> 'w sstate \<Rightarrow> cint \<times> 'w sstate" where
  "inline_mysql_socket_bind E src sock addr len s =
     (let plain = os_call (call_int E) (Bind (fd sock) addr (ucast len))
      in if s_psi sock \<noteq> 0 then
           instrumented (lockers E) (Socket_locker (s_psi sock) PSI_SOCKET_BIND)
             (\<lambda>l. Start_wait l 0 src)
             (\<lambda>s. let (result, s) = os_call (call_int E) (Bind (fd sock) addr (ucast len)) s
                  in (result, if result = 0
                              then log (Note (Set_socket_info (s_psi sock) addr (ucast len))) s else s))
             (\<lambda>l r s. End_wait l 0) plain s
         else plain s)"

definition inline_mysql_socket_getsockname ::
    "'w sock_env \<Rightarrow> src_loc \<Rightarrow> MYSQL_SOCKET \<Rightarrow> ptr \<Rightarrow> ptr \<Rightarrow> 'w sstate \<Rightarrow> cint \<times> 'w sstate" where
  "inline_mysql_socket_getsockname E src sock addr len s =
     socket_io E sock PSI_SOCKET_BIND src 0 (call_int E)
       (Getsockname (fd sock) addr len) (\<lambda>r. 0)
         (Getsockname (fd sock) addr len) s"

definition inline_mysql_socket_connect ::
    "'w sock_env \<Rightarrow> src_loc \<Rightarrow> MYSQL_SOCKET \<Rightarrow> ptr \<Rightarrow> socklen_t \<Rightarrow> 'w sstate \<Rightarrow> cint \<times> 'w sstate" where
  "inline_mysql_socket_connect E src sock addr len s =
     socket_io E sock PSI_SOCKET_CONNECT src 0 (call_int E)
       (Connect (fd sock) addr len) (\<lambda>r. 0)
         (Connect (fd sock) addr len) s"

definition inline_mysql_socket_getpeername ::
    "'w sock_env \<Rightarrow> src_loc \<Rightarrow> MYSQL_SOCKET \<Rightarrow> ptr \<Rightarrow> ptr \<Rightarrow> 'w sstate \<Rightarrow> cint \<times> 'w sstate" where
  "inline_mysql_socket_getpeername E src sock addr len s =
     socket_io E sock PSI_SOCKET_BIND src 0 (call_int E)
       (Getpeername (fd sock) addr len) (\<lambda>r. 0)
         (Getpeername (fd sock) addr len) s"

definition inline_mysql_socket_send ::
    "'w sock_env \<Rightarrow> src_loc \<Rightarrow> MYSQL_SOCKET \<Rightarrow> ptr \<Rightarrow> csize \<Rightarrow> cint \<Rightarrow> 'w sstate \<Rightarrow> ssize_t \<times> 'w sstate" where
  "inline_mysql_socket_send E src sock buf n flags s =
     widen (socket_io E sock PSI_SOCKET_SEND src n (call_int E)
       (Send (fd sock) buf (ucast n) flags) (\<lambda>r. sent_bytes (scast r))
         (Send (fd sock) buf (ucast n) flags) s)"

definition inline_mysql_socket_recv ::
    "'w sock_env \<Rightarrow> src_loc \<Rightarrow> MYSQL_SOCKET \<Rightarrow> ptr \<Rightarrow> csize \<Rightarrow> cint \<Rightarrow> 'w sstate \<Rightarrow> ssize_t \<times> 'w sstate" where
  "inline_mysql_socket_recv E src sock buf n flags s =
     widen (socket_io E sock PSI_SOCKET_RECV src 0 (call_int E)
       (Recv (fd sock) buf (ucast n) flags) (\<lambda>r. sent_bytes (scast r))
         (Recv (fd sock) buf (ucast n) flags) s)"

definition inline_mysql_socket_sendto ::
    "'w sock_env \<Rightarrow> src_loc \<Rightarrow> MYSQL_SOCKET \<Rightarrow> ptr \<Rightarrow> csize \<Rightarrow> cint \<Rightarrow> ptr \<Rightarrow> socklen_t \<Rightarrow> 'w sstate \<Rightarrow> ssize_t \<times> 'w sstate" where
  "inline_mysql_socket_sendto E src sock buf n flags addr addr_len s =
     widen (socket_io E sock PSI_SOCKET_SEND src n (call_int E)
       (Sendto (fd sock) buf (ucast n) flags addr addr_len) (\<lambda>r. sent_bytes (scast r))
         (Sendto (fd sock) buf (ucast n) flags addr addr_len) s)"

definition inline_mysql_socket_recvfrom ::
    "'w sock_env \<Rightarrow> src_loc \<Rightarrow> MYSQL_SOCKET \<Rightarrow> ptr \<Rightarrow> csize \<Rightarrow> cint \<Rightarrow> ptr \<Rightarrow> ptr \<Rightarrow> 'w sstate \<Rightarrow> ssize_t \<times> 'w sstate" where
  "inline_mysql_socket_recvfrom E src sock buf n flags addr addr_len s =
     widen (socket_io E sock PSI_SOCKET_RECV src 0 (call_int E)
       (Recvfrom (fd sock) buf (ucast n) flags addr addr_len) (\<lambda>r. sent_bytes (scast r))
         (Recvfrom (fd sock) buf (ucast n) flags addr addr_len) s)"

definition inline_mysql_socket_getsockopt ::
    "'w sock_env \<Rightarrow> src_loc \<Rightarrow> MYSQL_SOCKET \<Rightarrow> cint \<Rightarrow> cint \<Rightarrow> ptr \<Rightarrow> ptr \<Rightarrow> 'w sstate \<Rightarrow> cint \<times> 'w sstate" where
  "inline_mysql_socket_getsockopt E src sock level optname optval optlen s =
     socket_io E sock PSI_SOCKET_OPT src 0 (call_int E)
       (Getsockopt (fd sock) level optname optval optlen) (\<lambda>r. 0)
         (Getsockopt (fd sock) level optname optval optlen) s"

definition inline_mysql_socket_setsockopt ::
    "'w sock_env \<Rightarrow> src_loc \<Rightarrow> MYSQL_SOCKET \<Rightarrow> cint \<Rightarrow> cint \<Rightarrow> ptr \<Rightarrow> socklen_t \<Rightarrow> 'w sstate \<Rightarrow> cint \<times> 'w sstate" where
  "inline_mysql_socket_setsockopt E src sock level optname optval optlen s =
     socket_io E sock PSI_SOCKET_OPT src 0 (call_int E)
       (Setsockopt (fd sock) level optname optval optlen) (\<lambda>r. 0)
         (Setsockopt (fd sock) level optname optval optlen) s"

definition set_socket_nonblock :: "my_socket \<Rightarrow> socket_call" where
  "set_socket_nonblock v = Ioctlsocket_fionbio v 1"

definition inline_mysql_sock_set_nonblocking ::
    "'w sock_env \<Rightarrow> src_loc \<Rightarrow> MYSQL_SOCKET \<Rightarrow> 'w sstate \<Rightarrow> cint \<times> 'w sstate" where
  "inline_mysql_sock_set_nonblocking E src sock s =
     socket_io E sock PSI_SOCKET_OPT src 0 (call_int E)
       (set_socket_nonblock (fd sock)) (\<lambda>r. 0)
         (set_socket_nonblock (fd sock)) s"

definition inline_mysql_socket_listen ::
    "'w sock_env \<Rightarrow> src_loc \<Rightarrow> MYSQL_SOCKET \<Rightarrow> cint \<Rightarrow> 'w sstate \<Rightarrow> cint \<times> 'w sstate" where
  "inline_mysql_socket_listen E src sock backlog s =
     socket_io E sock PSI_SOCKET_CONNECT src 0 (call_int E)
       (Listen (fd sock) backlog) (\<lambda>r. 0)
         (Listen (fd sock) backlog) s"

text \<open>
  The accepted socket is an uninitialised struct of which the descriptor is set, and the instrument
  on success. Reading the length behind a null pointer is undefined.
\<close>

definition inline_mysql_socket_accept ::
    "'w sock_env \<Rightarrow> src_loc \<Rightarrow> uint \<Rightarrow> MYSQL_SOCKET \<Rightarrow> ptr \<Rightarrow> ptr \<Rightarrow> 'w sstate \<Rightarrow> (MYSQL_SOCKET \<times> 'w sstate) option" where
  "inline_mysql_socket_accept E src key socket_listen addr addr_len s =
     (let (v, s) = socket_io E socket_listen PSI_SOCKET_CONNECT src 0 (call_sock E)
                     (Accept (fd socket_listen) addr addr_len) (\<lambda>r. 0)
                     (Accept (fd socket_listen) addr addr_len) s;
          sock = (garbage E)\<lparr>fd := v\<rparr>
      in if fd sock \<noteq> INVALID_SOCKET then
           (if addr_len = 0 then None
            else let s = log (Note (Init_socket key (fd sock) addr (len_at E (world s) addr_len))) s
                 in Some (sock\<lparr>s_psi := inited_psi E (trace s)\<rparr>, s))
         else Some (sock, s))"

definition inline_mysql_socket_close ::
    "'w sock_env \<Rightarrow> src_loc \<Rightarrow> MYSQL_SOCKET \<Rightarrow> 'w sstate \<Rightarrow> cint \<times> 'w sstate" where
  "inline_mysql_socket_close E src sock s =
     (let (result, s) = socket_io E sock PSI_SOCKET_CLOSE src 0 (call_int E)
                          (Closesocket (fd sock)) (\<lambda>r. 0)
                          (Closesocket (fd sock)) s
      in (result, if s_psi sock \<noteq> 0 then log (Note (Destroy_socket (s_psi sock))) s else s))"

text \<open>The extension function is looked up at the first call and kept.\<close>

definition load_disconnect_ex :: "'w sock_env \<Rightarrow> MYSQL_SOCKET \<Rightarrow> 'w sstate \<Rightarrow> 'w sstate" where
  "load_disconnect_ex E sock s =
     (if disconnect_ex s = 0 then
        (let (p, s) = os_call (call_ptr E) (WSAIoctl_disconnectex (fd sock)) s
         in s\<lparr>disconnect_ex := p\<rparr>)
      else s)"

definition disconnect_result :: "'w sock_env \<Rightarrow> socket_call \<Rightarrow> 'w \<Rightarrow> cint \<times> 'w" where
  "disconnect_result E c w = (let (ok, w) = call_bool E c w in (if ok then 0 else - 1, w))"

definition inline_mysql_socket_shutdown ::
    "'w sock_env \<Rightarrow> src_loc \<Rightarrow> MYSQL_SOCKET \<Rightarrow> cint \<Rightarrow> 'w sstate \<Rightarrow> cint \<times> 'w sstate" where
  "inline_mysql_socket_shutdown E src sock how s =
     (let s = load_disconnect_ex E sock s
      in if disconnect_ex s \<noteq> 0
         then socket_io E sock PSI_SOCKET_SHUTDOWN src 0 (disconnect_result E)
                (DisconnectEx_call (disconnect_ex s) (fd sock)) (\<lambda>r. 0)
                (DisconnectEx_call (disconnect_ex s) (fd sock)) s
         else socket_io E sock PSI_SOCKET_SHUTDOWN src 0 (call_int E)
                (Shutdown (fd sock) how) (\<lambda>r. 0)
                (Shutdown (fd sock) how) s)"

section \<open>Transparency\<close>

definition seen :: "'r \<times> 'w sstate \<Rightarrow> 'r \<times> 'w \<times> socket_call list" where
  "seen rs = (fst rs, world (snd rs), os_calls (trace (snd rs)))"

lemma socket_io_cases: "socket_io E sock op src count f c bytes c' =
    (if s_psi sock \<noteq> 0
     then wait_io (lockers E) (Socket_locker (s_psi sock) op) src count f c (\<lambda>r w. bytes r) c'
     else os_call f c')"
  by (rule ext) (simp add: socket_io_def)

interpretation socket_io: psi_call "socket_io E sock op src count f c bytes c" f c
  for E :: "'w sock_env" and sock op src count f c bytes
  unfolding socket_io_cases by (simp add: wait_io.psi_call_axioms raw_io.psi_call_axioms)

interpretation socket_bind: psi_call "inline_mysql_socket_bind E src sock addr len" "call_int E"
  "Bind (fd sock) addr (ucast len)" for E :: "'w sock_env" and src sock addr len
  by unfold_locales
    (auto simp: inline_mysql_socket_bind_def instrumented_def os_call_def log_def balanced_def Let_def
      split: prod.splits)

lemma sock_call_seen:
  fixes w :: "'w sstate \<Rightarrow> 'r \<times> 'w sstate"
  assumes "psi_call w f c"
  shows "seen (w s) = seen (os_call f c s)"
  using psi_call.same_as_raw [OF assms] by (simp add: seen_def)

lemma widen_seen: "seen rs = seen rs' \<Longrightarrow> seen (widen rs) = seen (widen rs')"
  by (simp add: seen_def widen_def)

lemmas socket_io_seen = sock_call_seen [OF socket_io.psi_call_axioms]

lemmas socket_wrapper_defs =
  inline_mysql_socket_getsockname_def inline_mysql_socket_connect_def
  inline_mysql_socket_getpeername_def inline_mysql_socket_send_def inline_mysql_socket_recv_def
  inline_mysql_socket_sendto_def inline_mysql_socket_recvfrom_def inline_mysql_socket_getsockopt_def
  inline_mysql_socket_setsockopt_def inline_mysql_sock_set_nonblocking_def
  inline_mysql_socket_listen_def

lemma close_seen: "seen (inline_mysql_socket_close E src sock s) =
    seen (os_call (call_int E) (Closesocket (fd sock)) s)"
proof -
  have "seen (inline_mysql_socket_close E src sock s) =
      seen (socket_io E sock PSI_SOCKET_CLOSE src 0 (call_int E) (Closesocket (fd sock)) (\<lambda>r. 0)
        (Closesocket (fd sock)) s)"
    by (simp add: inline_mysql_socket_close_def seen_def log_def case_prod_beta)
  then show ?thesis by (simp add: socket_io_seen)
qed

text \<open>
  Instrumentation is transparent: every wrapper of a socket call returns what the plain call
  returns, leaves the world as it leaves it and makes no other system call, whatever lockers the
  performance schema hands out; shutdown does what it does on a socket without instrument.
\<close>

theorem socket_transparent:
  "seen (inline_mysql_socket_bind E src sock addr sz s) =
      seen (os_call (call_int E) (Bind (fd sock) addr (ucast sz)) s)
   \<and> seen (inline_mysql_socket_getsockname E src sock addr len s) =
      seen (os_call (call_int E) (Getsockname (fd sock) addr len) s)
   \<and> seen (inline_mysql_socket_connect E src sock addr addrlen s) =
      seen (os_call (call_int E) (Connect (fd sock) addr addrlen) s)
   \<and> seen (inline_mysql_socket_getpeername E src sock addr len s) =
      seen (os_call (call_int E) (Getpeername (fd sock) addr len) s)
   \<and> seen (inline_mysql_socket_send E src sock buf n flags s) =
      seen (widen (os_call (call_int E) (Send (fd sock) buf (ucast n) flags) s))
   \<and> seen (inline_mysql_socket_recv E src sock buf n flags s) =
      seen (widen (os_call (call_int E) (Recv (fd sock) buf (ucast n) flags) s))
   \<and> seen (inline_mysql_socket_sendto E src sock buf n flags addr addrlen s) =
      seen (widen (os_call (call_int E) (Sendto (fd sock) buf (ucast n) flags addr addrlen) s))
   \<and> seen (inline_mysql_socket_recvfrom E src sock buf n flags addr len s) =
      seen (widen (os_call (call_int E) (Recvfrom (fd sock) buf (ucast n) flags addr len) s))
   \<and> seen (inline_mysql_socket_getsockopt E src sock level optname optval len s) =
      seen (os_call (call_int E) (Getsockopt (fd sock) level optname optval len) s)
   \<and> seen (inline_mysql_socket_setsockopt E src sock level optname optval addrlen s) =
      seen (os_call (call_int E) (Setsockopt (fd sock) level optname optval addrlen) s)
   \<and> seen (inline_mysql_sock_set_nonblocking E src sock s) =
      seen (os_call (call_int E) (set_socket_nonblock (fd sock)) s)
   \<and> seen (inline_mysql_socket_listen E src sock backlog s) =
      seen (os_call (call_int E) (Listen (fd sock) backlog) s)
   \<and> seen (inline_mysql_socket_close E src sock s) =
      seen (os_call (call_int E) (Closesocket (fd sock)) s)
   \<and> seen (inline_mysql_socket_shutdown E src sock how s) =
      seen (inline_mysql_socket_shutdown E src (sock\<lparr>s_psi := 0\<rparr>) how s)"
  by (simp add: socket_wrapper_defs socket_io_seen widen_seen [OF socket_io_seen] close_seen
      sock_call_seen [OF socket_bind.psi_call_axioms] inline_mysql_socket_shutdown_def
      load_disconnect_ex_def Let_def)

section \<open>Programs of socket calls\<close>

inductive socket_step :: "'w sock_env \<Rightarrow> 'w sstate \<Rightarrow> 'w sstate \<Rightarrow> bool" for E where
  by_register: "socket_step E s (inline_mysql_socket_register category info n s)"
| by_set_address: "socket_step E s (mysql_socket_set_address sock addr len s)"
| by_set_owner: "socket_step E s (mysql_socket_set_thread_owner sock s)"
| by_set_state: "socket_step E s (inline_mysql_socket_set_state sock st s)"
| by_fd: "socket_step E s (snd (inline_mysql_socket_fd E key v s))"
| by_socket: "socket_step E s (snd (inline_mysql_socket_socket E key domain type protocol s))"
| by_bind: "socket_step E s (snd (inline_mysql_socket_bind E src sock addr sz s))"
| by_getsockname: "socket_step E s (snd (inline_mysql_socket_getsockname E src sock addr len s))"
| by_connect: "socket_step E s (snd (inline_mysql_socket_connect E src sock addr addrlen s))"
| by_getpeername: "socket_step E s (snd (inline_mysql_socket_getpeername E src sock addr len s))"
| by_send: "socket_step E s (snd (inline_mysql_socket_send E src sock buf n flags s))"
| by_recv: "socket_step E s (snd (inline_mysql_socket_recv E src sock buf n flags s))"
| by_sendto: "socket_step E s (snd (inline_mysql_socket_sendto E src sock buf n flags addr addrlen s))"
| by_recvfrom: "socket_step E s (snd (inline_mysql_socket_recvfrom E src sock buf n flags addr len s))"
| by_getsockopt: "socket_step E s (snd (inline_mysql_socket_getsockopt E src sock level optname optval len s))"
| by_setsockopt:
    "socket_step E s (snd (inline_mysql_socket_setsockopt E src sock level optname optval addrlen s))"
| by_nonblocking: "socket_step E s (snd (inline_mysql_sock_set_nonblocking E src sock s))"
| by_listen: "socket_step E s (snd (inline_mysql_socket_listen E src sock backlog s))"
| by_accept: "inline_mysql_socket_accept E src key sock addr len s = Some (r, s') \<Longrightarrow> socket_step E s s'"
| by_close: "socket_step E s (snd (inline_mysql_socket_close E src sock s))"
| by_shutdown: "socket_step E s (snd (inline_mysql_socket_shutdown E src sock how s))"

lemma balanced_note [simp]: "balanced (es @ [Note n]) = balanced es"
  by (simp add: balanced_def run_waits_append split: option.split)

lemma balanced_call [simp]: "balanced (es @ [Os c]) = balanced es"
  by (simp add: balanced_def run_waits_append split: option.split)

lemma balanced_call_note [simp]: "balanced (es @ [Os c, Note n]) = balanced es"
  using balanced_note [of "es @ [Os c]" n] balanced_call [of es c] by simp

lemma step_balanced: "socket_step E s s' \<Longrightarrow> balanced (trace s) \<Longrightarrow> balanced (trace s')"
proof (induction rule: socket_step.induct)
  case by_bind
  then show ?case by (rule socket_bind.keeps_balanced)
next
  case (by_accept src key sock addr len s r s')
  let ?c = "socket_io E sock PSI_SOCKET_CONNECT src 0 (call_sock E) (Accept (fd sock) addr len) (\<lambda>r. 0)
        (Accept (fd sock) addr len) s"
  have "balanced (trace (snd ?c))" by (rule socket_io.keeps_balanced) fact
  with by_accept(1) show ?case
    by (auto simp: inline_mysql_socket_accept_def Let_def log_def case_prod_beta split: if_splits)
next
  case (by_close s src sock)
  let ?c = "socket_io E sock PSI_SOCKET_CLOSE src 0 (call_int E) (Closesocket (fd sock)) (\<lambda>r. 0)
        (Closesocket (fd sock)) s"
  have "balanced (trace (snd ?c))" by (rule socket_io.keeps_balanced) fact
  then show ?case by (simp add: inline_mysql_socket_close_def log_def case_prod_beta)
next
  case (by_shutdown s src sock how)
  then have "balanced (trace (load_disconnect_ex E sock s))"
    by (simp add: load_disconnect_ex_def os_call_def log_def case_prod_beta)
  then show ?case
    by (simp add: inline_mysql_socket_shutdown_def Let_def socket_io.keeps_balanced)
qed (simp_all add: socket_wrapper_defs widen_def socket_io.keeps_balanced log_def Let_def case_prod_beta
    os_call_def inline_mysql_socket_register_def mysql_socket_set_address_def
    mysql_socket_set_thread_owner_def inline_mysql_socket_set_state_def inline_mysql_socket_fd_def
    inline_mysql_socket_socket_def)

section \<open>Properties\<close>

definition example_env :: "cint \<Rightarrow> my_socket \<Rightarrow> unit sock_env" where
  "example_env i v = \<lparr>lockers = (\<lambda>q t. 7), inited_psi = (\<lambda>t. 9), call_int = (\<lambda>c w. (i, w)),
     call_sock = (\<lambda>c w. (v, w)), call_ptr = (\<lambda>c w. (0, w)), call_bool = (\<lambda>c w. (True, w)),
     len_at = (\<lambda>w p. 16), garbage = \<lparr>fd = 1, is_unix_domain_socket = 2, is_extra_port = 3,
       address_family = 4, s_psi = 5\<rparr>\<rparr>"

definition example_sock :: MYSQL_SOCKET where
  "example_sock = mysql_socket_invalid\<lparr>fd := 40, s_psi := 6\<rparr>"

definition example_state :: "unit sstate" where
  "example_state = \<lparr>world = (), trace = [], disconnect_ex = 0\<rparr>"

text \<open>
  Any program of socket wrapper calls keeps the trace balanced: each wait that starts ends with the
  same locker before the next one starts, on successful and on failed calls.
\<close>

theorem socket_programs_balanced:
  assumes "(socket_step E)\<^sup>*\<^sup>* s s'" "balanced (trace s)"
  shows "balanced (trace s')"
  using assms by (induction rule: rtranclp_induct) (auto intro: step_balanced)

lemma socket_programs_balanced_witness:
  "balanced (trace (snd (inline_mysql_socket_close (example_env (- 1) 0) ([], 1) example_sock example_state)))"
proof (rule socket_programs_balanced)
  show "(socket_step (example_env (- 1) 0))\<^sup>*\<^sup>* example_state
      (snd (inline_mysql_socket_close (example_env (- 1) 0) ([], 1) example_sock example_state))"
    by (intro r_into_rtranclp socket_step.by_close)
  show "balanced (trace example_state)" by (simp add: example_state_def balanced_def)
qed

text \<open>
  Accepting a connection leaves the returned struct uninitialised but for its descriptor and, on
  success, its instrument: after a failed call the instrument is whatever the memory held, and the
  address family and port mark are so in both cases.
\<close>

theorem accept_uninitialised:
  assumes "inline_mysql_socket_accept E src key sock addr len s = Some (r, s')"
  shows "(fd r = INVALID_SOCKET \<longrightarrow> s_psi r = s_psi (garbage E))
    \<and> address_family r = address_family (garbage E) \<and> is_extra_port r = is_extra_port (garbage E)"
  using assms
  by (auto simp: inline_mysql_socket_accept_def Let_def case_prod_beta split: if_splits)

lemma accept_uninitialised_witness:
  "\<exists>r s'. inline_mysql_socket_accept (example_env 0 (- 1)) ([], 1) 0 example_sock 1 2 example_state = Some (r, s')
    \<and> fd r = INVALID_SOCKET \<and> s_psi r = 5"
proof -
  obtain r s' where a:
    "inline_mysql_socket_accept (example_env 0 (- 1)) ([], 1) 0 example_sock 1 2 example_state = Some (r, s')"
    "fd r = INVALID_SOCKET"
    by (simp add: inline_mysql_socket_accept_def example_env_def example_sock_def example_state_def
        socket_io_def wait_io_def instrumented_def os_call_def INVALID_SOCKET_def mysql_socket_invalid_def
        case_prod_beta Let_def)
  with accept_uninitialised [OF a(1)] show ?thesis by (auto simp: example_env_def)
qed

text \<open>The byte counts in the notifications that a wrapper added to the trace.\<close>

definition reported :: "'w sstate \<Rightarrow> 'r \<times> 'w sstate \<Rightarrow> csize set" where
  "reported s rs = {b. \<exists>l. End_wait l b \<in> set (drop (length (trace s)) (trace (snd rs)))}"

lemma reported_io: "reported s (widen (socket_io E sock op src count f c bytes c' s)) \<subseteq>
    {bytes (fst (f c (world s)))}"
  by (auto simp: reported_def widen_def socket_io_def wait_io_def instrumented_def Let_def os_call_def
      log_def case_prod_beta split: if_splits)

lemma sent_bytes_bound:
  fixes r :: cint and n :: csize
  assumes "sint r \<le> sint (ucast n :: cint)"
  shows "unat (sent_bytes (scast r)) \<le> unat n" "sint r \<le> 0 \<Longrightarrow> sent_bytes (scast r) = 0"
proof -
  have s: "sint (scast r :: ssize_t) = sint r"
    by (rule sint_up_scast) (simp add: is_up)
  show "sint r \<le> 0 \<Longrightarrow> sent_bytes (scast r) = 0"
    by (simp add: sent_bytes_def word_sless_alt s)
  show "unat (sent_bytes (scast r)) \<le> unat n"
  proof (cases "0 < sint r")
    case True
    then have "uint (sent_bytes (scast r)) = sint r"
      using sint_eq_uint_pos [of "scast r :: ssize_t"] by (simp add: sent_bytes_def word_sless_alt s)
    also have "\<dots> \<le> uint (ucast n :: cint)" using assms sint_le_uint order_trans by blast
    also have "\<dots> \<le> uint n" by (simp add: unsigned_ucast_eq take_bit_int_less_eq_self_iff)
    finally show ?thesis by (simp add: word_le_nat_alt flip: word_le_def)
  qed (simp add: sent_bytes_def word_sless_alt s)
qed

text \<open>
  If a send or receive call returns at most the length it was given, which is the buffer size cut
  to an \<open>int\<close>, then the bytes reported are at most the buffer size, and 0 for a failed call.
\<close>

theorem transfer_bytes_reported:
  assumes doc: "\<forall>c. sint (fst (call_int E c (world s))) \<le> sint (ucast n :: cint)"
    and rs: "rs \<in> {inline_mysql_socket_send E src sock buf n flags s,
      inline_mysql_socket_recv E src sock buf n flags s,
      inline_mysql_socket_sendto E src sock buf n flags addr addrlen s,
      inline_mysql_socket_recvfrom E src sock buf n flags addr len s}"
    and b: "b \<in> reported s rs"
  shows "unat b \<le> unat n \<and> (sint (fst rs) \<le> 0 \<longrightarrow> b = 0)"
proof -
  from rs obtain op count c where
    e: "rs = widen (socket_io E sock op src count (call_int E) c (\<lambda>r. sent_bytes (scast r)) c s)"
    unfolding inline_mysql_socket_send_def inline_mysql_socket_recv_def
      inline_mysql_socket_sendto_def inline_mysql_socket_recvfrom_def by blast
  let ?r = "fst (call_int E c (world s))"
  have b': "b = sent_bytes (scast ?r)" using b reported_io unfolding e by blast
  have "fst rs = scast ?r" unfolding e by (simp add: widen_def socket_io.result)
  then have "sint (fst rs) = sint ?r" using sint_up_scast [of ?r, where 'b = 64] by (simp add: is_up)
  then show ?thesis using sent_bytes_bound [OF spec [OF doc]] b' by simp
qed

lemma transfer_bytes_reported_witness:
  "unat (5 :: csize) \<le> unat (10 :: csize) \<and> 5 \<in> reported example_state
     (inline_mysql_socket_send (example_env 5 0) ([], 1) example_sock 200 10 0 example_state)"
proof -
  have m: "5 \<in> reported example_state
     (inline_mysql_socket_send (example_env 5 0) ([], 1) example_sock 200 10 0 example_state)"
    by (simp add: reported_def inline_mysql_socket_send_def widen_def socket_io_def wait_io_def
        instrumented_def os_call_def log_def example_state_def example_env_def example_sock_def
        mysql_socket_invalid_def sent_bytes_def word_sless_alt)
  have "\<forall>c. sint (fst (call_int (example_env 5 0) c (world example_state))) \<le> sint (ucast (10 :: csize) :: cint)"
    by (simp add: example_env_def)
  from transfer_bytes_reported [OF this _ m] m show ?thesis by blast
qed

end
