(* ===== verification/Sql_Type_Int.thy ===== *)
theory Sql_Type_Int
  imports My_Bit
begin

text \<open>
  \<open>sql_type_int.h\<close>: the integer values of SQL expressions. Nullable signed values with the bit
  operators, unsigned values with overflow-checked multiplication, and the two hybrids that carry
  their signedness or their sign beside the bits. A \<open>longlong\<close> is a 64-bit word read with
  \<^const>\<open>sint\<close>, a \<open>ulonglong\<close> one read with \<^const>\<open>uint\<close>.
\<close>

section \<open>Nullable signed values\<close>

type_synonym longlong = "64 word"

definition LONGLONG_MIN :: longlong where "LONGLONG_MIN = push_bit 63 1"
definition LONGLONG_MAX :: longlong where "LONGLONG_MAX = mask 63"

definition longlong_abs :: "longlong \<Rightarrow> ulonglong" where
  "longlong_abs v =
     (if v = LONGLONG_MIN then LONGLONG_MAX + 1 else if v <s 0 then - v else v)"

record Longlong_null =
  ll_value :: longlong
  ll_is_null :: bool

definition mk_null :: Longlong_null where
  "mk_null = \<lparr>ll_value = 0, ll_is_null = True\<rparr>"

definition mk_ll :: "longlong \<Rightarrow> Longlong_null" where
  "mk_ll nr = \<lparr>ll_value = nr, ll_is_null = False\<rparr>"

definition ll_or :: "Longlong_null \<Rightarrow> Longlong_null \<Rightarrow> Longlong_null" where
  "ll_or a b = (if ll_is_null a \<or> ll_is_null b then mk_null else mk_ll (ll_value a OR ll_value b))"

definition ll_and :: "Longlong_null \<Rightarrow> Longlong_null \<Rightarrow> Longlong_null" where
  "ll_and a b = (if ll_is_null a \<or> ll_is_null b then mk_null else mk_ll (ll_value a AND ll_value b))"

definition ll_xor :: "Longlong_null \<Rightarrow> Longlong_null \<Rightarrow> Longlong_null" where
  "ll_xor a b = (if ll_is_null a \<or> ll_is_null b then mk_null else mk_ll (ll_value a XOR ll_value b))"

definition ll_not :: "Longlong_null \<Rightarrow> Longlong_null" where
  "ll_not a = (if ll_is_null a then a else mk_ll (NOT (ll_value a)))"

definition ll_shl :: "Longlong_null \<Rightarrow> Longlong_null \<Rightarrow> Longlong_null" where
  "ll_shl a b =
     (if ll_is_null a \<or> ll_is_null b then mk_null
      else let shift = ucast (ll_value b) :: uint
           in mk_ll (if shift < 64 then push_bit (unat shift) (ll_value a) else 0))"

definition ll_shr :: "Longlong_null \<Rightarrow> Longlong_null \<Rightarrow> Longlong_null" where
  "ll_shr a b =
     (if ll_is_null a \<or> ll_is_null b then mk_null
      else let shift = ucast (ll_value b) :: uint
           in mk_ll (if shift < 64 then drop_bit (unat shift) (ll_value a) else 0))"

definition ll_bit_count :: "Longlong_null \<Rightarrow> Longlong_null" where
  "ll_bit_count a = (if ll_is_null a then a else mk_ll (ucast (my_count_bits (ll_value a))))"

section \<open>Unsigned values\<close>

definition test_if_sum_overflows_ull :: "ulonglong \<Rightarrow> ulonglong \<Rightarrow> bool" where
  "test_if_sum_overflows_ull arg1 arg2 \<longleftrightarrow> - 1 - arg1 < arg2"

definition ull_neg :: "ulonglong \<Rightarrow> Longlong_null" where
  "ull_neg v =
     (if LONGLONG_MAX < v then
        (if v = LONGLONG_MAX + 1 then mk_ll LONGLONG_MIN else mk_null)
      else mk_ll (- v))"

definition to_longlong_null :: "ulonglong \<Rightarrow> Longlong_null" where
  "to_longlong_null v = (if LONGLONG_MAX < v then mk_null else mk_ll v)"

record ULonglong_null =
  ull_value :: ulonglong
  ull_is_null :: bool

definition ullmul :: "ulonglong \<Rightarrow> ulonglong \<Rightarrow> ULonglong_null" where
  "ullmul a b =
     (let a1 = ucast (drop_bit 32 a) :: ulong; b1 = ucast (drop_bit 32 b) :: ulong
      in if a1 \<noteq> 0 \<and> b1 \<noteq> 0 then \<lparr>ull_value = 0, ull_is_null = True\<rparr>
         else
           let a0 = ucast (0xFFFFFFFF AND a) :: ulong; b0 = ucast (0xFFFFFFFF AND b) :: ulong;
               res1 = ucast a1 * ucast b0 + ucast a0 * ucast b1 :: ulonglong
           in if 0xFFFFFFFF < res1 then \<lparr>ull_value = 0, ull_is_null = True\<rparr>
              else
                let res1 = push_bit 32 res1; res0 = ucast a0 * ucast b0 :: ulonglong
                in if test_if_sum_overflows_ull res1 res0 then \<lparr>ull_value = 0, ull_is_null = True\<rparr>
                   else \<lparr>ull_value = res1 + res0, ull_is_null = False\<rparr>)"

section \<open>Values with a signedness\<close>

record Longlong_hybrid =
  h_value :: longlong
  h_unsigned :: bool

definition cmp_signed :: "Longlong_hybrid \<Rightarrow> Longlong_hybrid \<Rightarrow> cint" where
  "cmp_signed a b = (if h_value a <s h_value b then - 1 else if h_value a = h_value b then 0 else 1)"

definition cmp_unsigned :: "Longlong_hybrid \<Rightarrow> Longlong_hybrid \<Rightarrow> cint" where
  "cmp_unsigned a b = (if h_value a < h_value b then - 1 else if h_value a = h_value b then 0 else 1)"

definition is_unsigned_outside_of_signed_range :: "Longlong_hybrid \<Rightarrow> bool" where
  "is_unsigned_outside_of_signed_range a \<longleftrightarrow> h_unsigned a \<and> LONGLONG_MAX < h_value a"

definition neg :: "Longlong_hybrid \<Rightarrow> bool" where
  "neg a \<longleftrightarrow> h_value a <s 0 \<and> \<not> h_unsigned a"

definition hybrid_abs :: "Longlong_hybrid \<Rightarrow> ulonglong" where
  "hybrid_abs a = (if h_unsigned a then h_value a else longlong_abs (h_value a))"

definition to_ulonglong :: "Longlong_hybrid \<Rightarrow> ulonglong \<Rightarrow> ulonglong" where
  "to_ulonglong a upper_bound =
     (if neg a then 0 else if upper_bound < h_value a then upper_bound else h_value a)"

definition to_uint :: "Longlong_hybrid \<Rightarrow> uint \<Rightarrow> uint" where
  "to_uint a upper_bound = ucast (to_ulonglong a (ucast upper_bound))"

definition val_int_signed :: "Longlong_hybrid \<Rightarrow> Longlong_null" where
  "val_int_signed a = (if h_unsigned a then to_longlong_null (h_value a) else mk_ll (h_value a))"

definition val_int_unsigned :: "Longlong_hybrid \<Rightarrow> Longlong_null" where
  "val_int_unsigned a = (if \<not> h_unsigned a \<and> h_value a <s 0 then mk_null else mk_ll (h_value a))"

definition val_int :: "Longlong_hybrid \<Rightarrow> bool \<Rightarrow> Longlong_null" where
  "val_int a want_unsigned_value = (if want_unsigned_value then val_int_unsigned a else val_int_signed a)"

definition hybrid_cmp :: "Longlong_hybrid \<Rightarrow> Longlong_hybrid \<Rightarrow> cint" where
  "hybrid_cmp a b =
     (if h_unsigned a = h_unsigned b then (if h_unsigned a then cmp_unsigned a b else cmp_signed a b)
      else if is_unsigned_outside_of_signed_range a then 1
      else if is_unsigned_outside_of_signed_range b then - 1
      else cmp_signed a b)"

definition hybrid_eq :: "Longlong_hybrid \<Rightarrow> Longlong_hybrid \<Rightarrow> bool" where
  "hybrid_eq a b \<longleftrightarrow> hybrid_cmp a b = 0"

definition hybrid_eq_ull :: "Longlong_hybrid \<Rightarrow> ulonglong \<Rightarrow> bool" where
  "hybrid_eq_ull a nr \<longleftrightarrow> hybrid_cmp a \<lparr>h_value = nr, h_unsigned = True\<rparr> = 0"

definition hybrid_eq_uint :: "Longlong_hybrid \<Rightarrow> uint \<Rightarrow> bool" where
  "hybrid_eq_uint a nr \<longleftrightarrow> hybrid_cmp a \<lparr>h_value = ucast nr, h_unsigned = True\<rparr> = 0"

definition hybrid_eq_ll :: "Longlong_hybrid \<Rightarrow> longlong \<Rightarrow> bool" where
  "hybrid_eq_ll a nr \<longleftrightarrow> hybrid_cmp a \<lparr>h_value = nr, h_unsigned = False\<rparr> = 0"

definition hybrid_eq_int :: "Longlong_hybrid \<Rightarrow> cint \<Rightarrow> bool" where
  "hybrid_eq_int a nr \<longleftrightarrow> hybrid_cmp a \<lparr>h_value = scast nr, h_unsigned = False\<rparr> = 0"

record Longlong_hybrid_null = Longlong_hybrid +
  hn_is_null :: bool

definition mk_hybrid_null :: "Longlong_null \<Rightarrow> bool \<Rightarrow> Longlong_hybrid_null" where
  "mk_hybrid_null nr unsigned_flag =
     \<lparr>h_value = ll_value nr, h_unsigned = unsigned_flag, hn_is_null = ll_is_null nr\<rparr>"

section \<open>Values with a sign\<close>

record ULonglong_hybrid =
  u_value :: ulonglong
  u_neg :: bool

definition mk_ull_hybrid :: "ulonglong \<Rightarrow> bool \<Rightarrow> ULonglong_hybrid" where
  "mk_ull_hybrid v n = \<lparr>u_value = v, u_neg = (if n \<and> v = 0 then False else n)\<rparr>"

definition u_val_int_unsigned :: "ULonglong_hybrid \<Rightarrow> Longlong_null" where
  "u_val_int_unsigned a = (if u_neg a then mk_null else mk_ll (u_value a))"

definition u_val_int_signed :: "ULonglong_hybrid \<Rightarrow> Longlong_null" where
  "u_val_int_signed a = (if u_neg a then ull_neg (u_value a) else to_longlong_null (u_value a))"

definition u_val_int :: "ULonglong_hybrid \<Rightarrow> bool \<Rightarrow> Longlong_null" where
  "u_val_int a want_unsigned_value =
     (if want_unsigned_value then u_val_int_unsigned a else u_val_int_signed a)"

section \<open>Signed and unsigned readings\<close>

lemma max_numeral: "LONGLONG_MAX = 0x7FFFFFFFFFFFFFFF" "LONGLONG_MIN = 0x8000000000000000"
  by code_simp+

lemma uint_bound: "0 \<le> uint v" "uint v < 0x10000000000000000" for v :: longlong
  using uint_lt2p [of v] by simp_all

lemma sint_bound: "- 0x8000000000000000 \<le> sint v" "sint v < 0x8000000000000000" for v :: longlong
  using sint_ge [of v] sint_lt [of v] by simp_all

lemma sint_cases: "sint v = (if uint v < 0x8000000000000000 then uint v else uint v - 0x10000000000000000)"
  for v :: longlong
proof (cases "0 \<le> sint v")
  case True
  then show ?thesis using sint_eq_uint_pos [OF True] sint_bound [of v] by simp
next
  case False
  have "uint v = sint v mod 0x10000000000000000" by (simp add: uint_sint take_bit_eq_mod)
  also have "\<dots> = (sint v + 0x10000000000000000) mod 0x10000000000000000" by simp
  also have "\<dots> = sint v + 0x10000000000000000"
    using False sint_bound [of v] by (intro mod_pos_pos_trivial) simp_all
  finally show ?thesis using False sint_bound [of v] by simp
qed

lemma word_order: "a < b \<longleftrightarrow> uint a < uint b" "a <s b \<longleftrightarrow> sint a < sint b" "a = b \<longleftrightarrow> uint a = uint b"
  for a b :: longlong
  by (simp_all only: word_less_def word_sless_alt word_uint_eq_iff)

lemma max_readings: "LONGLONG_MAX < v \<longleftrightarrow> 0x8000000000000000 \<le> uint v"
  by (auto simp: max_numeral word_less_def)

section \<open>Comparison and conversion\<close>

definition hval :: "Longlong_hybrid \<Rightarrow> int" where
  "hval a = (if h_unsigned a then uint (h_value a) else sint (h_value a))"

definition three_way :: "int \<Rightarrow> int \<Rightarrow> cint" where
  "three_way x y = (if x < y then - 1 else if x = y then 0 else 1)"

lemma cmp_signed_three_way: "cmp_signed a b = three_way (sint (h_value a)) (sint (h_value b))"
  by (auto simp: cmp_signed_def three_way_def word_sless_alt dest: signed_word_eqI)

lemma cmp_unsigned_three_way: "cmp_unsigned a b = three_way (uint (h_value a)) (uint (h_value b))"
  by (simp add: cmp_unsigned_def three_way_def word_less_def word_uint_eq_iff)

lemma outside_signed_range:
  "is_unsigned_outside_of_signed_range a \<longleftrightarrow> h_unsigned a \<and> 0x8000000000000000 \<le> hval a"
  by (auto simp: is_unsigned_outside_of_signed_range_def max_readings hval_def)

lemma hval_inside: "\<not> is_unsigned_outside_of_signed_range a \<Longrightarrow> sint (h_value a) = hval a"
  by (auto simp: outside_signed_range hval_def sint_cases)

lemma hval_signed_bound: "\<not> h_unsigned a \<Longrightarrow> hval a < 0x8000000000000000"
  using sint_bound(2) [of "h_value a"] by (simp add: hval_def)

lemma cmp_three_way: "hybrid_cmp a b = three_way (hval a) (hval b)"
proof (cases "h_unsigned a = h_unsigned b")
  case True
  then show ?thesis
    by (simp add: hybrid_cmp_def cmp_signed_three_way cmp_unsigned_three_way hval_def)
next
  case False
  then show ?thesis
    using hval_signed_bound [of a] hval_signed_bound [of b]
    by (auto simp: hybrid_cmp_def cmp_signed_three_way hval_inside)
      (auto simp: outside_signed_range three_way_def)
qed

text \<open>A nullable value holds \<open>x\<close> in its signed reading, or is null when \<open>x\<close> does not fit.\<close>

definition holds_signed :: "Longlong_null \<Rightarrow> int \<Rightarrow> bool" where
  "holds_signed r x \<longleftrightarrow>
     (if - (2 ^ 63) \<le> x \<and> x < 2 ^ 63 then \<not> ll_is_null r \<and> sint (ll_value r) = x else ll_is_null r)"

definition holds_unsigned :: "Longlong_null \<Rightarrow> int \<Rightarrow> bool" where
  "holds_unsigned r x \<longleftrightarrow>
     (if 0 \<le> x \<and> x < 2 ^ 64 then \<not> ll_is_null r \<and> uint (ll_value r) = x else ll_is_null r)"

lemma val_int_signed_holds: "holds_signed (val_int_signed a) (hval a)"
  using uint_bound [of "h_value a"] sint_bound [of "h_value a"] sint_cases [of "h_value a"]
  by (auto simp: val_int_signed_def to_longlong_null_def max_readings hval_def holds_signed_def
      mk_null_def mk_ll_def)

lemma val_int_unsigned_holds: "holds_unsigned (val_int_unsigned a) (hval a)"
  using uint_bound [of "h_value a"] sint_cases [of "h_value a"]
  by (auto simp: val_int_unsigned_def word_order hval_def holds_unsigned_def mk_null_def mk_ll_def
      split: if_splits)

definition uval :: "ULonglong_hybrid \<Rightarrow> int" where
  "uval a = (if u_neg a then - uint (u_value a) else uint (u_value a))"

lemma uint_minus: "v \<noteq> 0 \<Longrightarrow> uint (- v) = 0x10000000000000000 - uint v" for v :: longlong
  using uint_bound [of v] by (simp add: uint_word_ariths zmod_zminus1_eq_if word_order)

lemma uint_minus_nonpos: "- uint v \<le> 0" for v :: longlong
  using uint_bound(1) [of v] by simp

lemma mk_ull_uval: "uval (mk_ull_hybrid v n) = (if n then - uint v else uint v)"
  by (simp add: uval_def mk_ull_hybrid_def)

lemma u_val_int_signed_holds: "holds_signed (u_val_int_signed (mk_ull_hybrid v n)) (uval (mk_ull_hybrid v n))"
proof -
  have "sint (- v) = - uint v" if "uint v \<le> 0x8000000000000000"
    using that uint_minus [of v] uint_bound [of v] by (cases "v = 0") (auto simp: sint_cases)
  moreover have "v = 0x8000000000000000 \<Longrightarrow> - v = LONGLONG_MIN" by (simp add: max_numeral)
  moreover have "v = LONGLONG_MAX + 1 \<longleftrightarrow> uint v = 0x8000000000000000"
    by (simp add: max_numeral word_order)
  ultimately show ?thesis
    using uint_bound [of v] sint_cases [of v] max_readings [of v]
    by (auto simp: uval_def u_val_int_signed_def mk_ull_hybrid_def ull_neg_def to_longlong_null_def
        holds_signed_def mk_null_def mk_ll_def max_numeral intro: order_trans [OF _ uint_bound(1)]
        order_le_less_trans [OF uint_minus_nonpos])
qed

lemma u_val_int_unsigned_holds:
  "holds_unsigned (u_val_int_unsigned (mk_ull_hybrid v n)) (uval (mk_ull_hybrid v n))"
  using uint_bound [of v]
  by (auto simp: uval_def u_val_int_unsigned_def mk_ull_hybrid_def holds_unsigned_def mk_null_def
      mk_ll_def word_order)

lemma longlong_abs_value: "uint (longlong_abs v) = \<bar>sint v\<bar>"
  using uint_bound [of v] uint_minus [of v]
  by (auto simp: longlong_abs_def max_numeral word_order sint_cases split: if_splits)

lemma hybrid_abs_value: "uint (hybrid_abs a) = \<bar>hval a\<bar>"
  using uint_bound [of "h_value a"] by (simp add: hybrid_abs_def hval_def longlong_abs_value)

lemma to_ulonglong_clamps: "uint (to_ulonglong a u) = max 0 (min (hval a) (uint u))"
  using uint_bound [of "h_value a"] uint_bound [of u] sint_cases [of "h_value a"]
  by (auto simp: to_ulonglong_def neg_def hval_def word_order split: if_splits)

section \<open>Multiplication\<close>

lemma sum_overflows_iff: "test_if_sum_overflows_ull a b \<longleftrightarrow> 2 ^ 64 \<le> unat a + unat b"
proof -
  have "unat (- 1 - a) = 2 ^ 64 - 1 - unat a"
    using unat_less_2p [of a] by (subst unat_sub) (simp_all add: unsigned_minus_1_eq_mask mask_eq_exp_minus_1)
  then show ?thesis using unat_less_2p [of a] by (auto simp: test_if_sum_overflows_ull_def word_less_nat_alt)
qed

definition hi_half :: "ulonglong \<Rightarrow> ulong" where "hi_half a = ucast (drop_bit 32 a)"
definition lo_half :: "ulonglong \<Rightarrow> ulong" where "lo_half a = ucast (0xFFFFFFFF AND a)"

lemma unat_halves:
  "unat (hi_half a) = unat a div 2 ^ 32" "unat (lo_half a) = unat a mod 2 ^ 32"
proof -
  have "unat a div 2 ^ 32 < 2 ^ 32" using unat_less_2p [of a] by (simp add: less_mult_imp_div_less)
  then show "unat (hi_half a) = unat a div 2 ^ 32"
    unfolding hi_half_def unat_drop_bit [symmetric]
    by (intro unat_ucast_small) simp
  have "0xFFFFFFFF = (mask 32 :: 64 word)" by (simp add: mask_eq_exp_minus_1)
  then have "unat (0xFFFFFFFF AND a) = unat a mod 2 ^ 32"
    by (simp only: and.commute [of "mask 32"] take_bit_eq_mask [symmetric] unsigned_take_bit_eq)
      (simp add: take_bit_eq_mod)
  then show "unat (lo_half a) = unat a mod 2 ^ 32"
    by (simp add: lo_half_def unsigned_ucast_eq take_bit_eq_mod)
qed

lemma halves: "unat a = unat (hi_half a) * 2 ^ 32 + unat (lo_half a)"
  by (simp add: unat_halves)

lemma unat_mult_halves: "unat (ucast x * ucast y :: ulonglong) = unat x * unat y" for x y :: ulong
proof -
  have "unat x * unat y < 2 ^ 32 * 2 ^ 32"
    using unat_less_2p [of x] unat_less_2p [of y] by (intro mult_strict_mono) simp_all
  moreover have "unat (ucast x :: ulonglong) = unat x" "unat (ucast y :: ulonglong) = unat y"
    using unat_less_2p [of x] unat_less_2p [of y] by (simp_all add: unat_ucast_small)
  ultimately show ?thesis by (simp add: unat_word_ariths)
qed

lemma product_halves:
  "unat a * unat b = unat (hi_half a) * unat (hi_half b) * 2 ^ 64
     + (unat (hi_half a) * unat (lo_half b) + unat (lo_half a) * unat (hi_half b)) * 2 ^ 32
     + unat (lo_half a) * unat (lo_half b)"
  unfolding halves [of a] halves [of b] by (simp add: algebra_simps)

definition cross :: "ulonglong \<Rightarrow> ulonglong \<Rightarrow> ulonglong" where
  "cross a b = ucast (hi_half a) * ucast (lo_half b) + ucast (lo_half a) * ucast (hi_half b)"

definition low_product :: "ulonglong \<Rightarrow> ulonglong \<Rightarrow> ulonglong" where
  "low_product a b = ucast (lo_half a) * ucast (lo_half b)"

lemma unat_cross:
  "hi_half a = 0 \<or> hi_half b = 0 \<Longrightarrow>
   unat (cross a b) = unat (hi_half a) * unat (lo_half b) + unat (lo_half a) * unat (hi_half b)"
  by (auto simp: cross_def unat_mult_halves)

lemma ullmul_parts:
  "ullmul a b =
     (if hi_half a \<noteq> 0 \<and> hi_half b \<noteq> 0 \<or> 0xFFFFFFFF < cross a b
         \<or> test_if_sum_overflows_ull (push_bit 32 (cross a b)) (low_product a b)
      then \<lparr>ull_value = 0, ull_is_null = True\<rparr>
      else \<lparr>ull_value = push_bit 32 (cross a b) + low_product a b, ull_is_null = False\<rparr>)"
  by (simp only: ullmul_def Let_def hi_half_def lo_half_def cross_def low_product_def) simp

lemma unat_push_cross:
  assumes "\<not> 0xFFFFFFFF < cross a b"
  shows "unat (push_bit 32 (cross a b)) = unat (cross a b) * 2 ^ 32"
proof -
  have "unat (cross a b) * 2 ^ 32 < 2 ^ 64" using assms by (simp add: word_less_nat_alt)
  then show ?thesis
    unfolding unsigned_push_bit_eq by (simp add: push_bit_eq_mult take_bit_nat_eq_self)
qed

lemma unat_low_product: "unat (low_product a b) = unat (lo_half a) * unat (lo_half b)"
  by (simp add: low_product_def unat_mult_halves)

lemma half_nonzero: "hi_half a \<noteq> 0 \<longleftrightarrow> 1 \<le> unat (hi_half a)"
  by (simp add: Suc_le_eq unat_gt_0)

lemma ullmul_high_overflow:
  assumes "hi_half a \<noteq> 0" and "hi_half b \<noteq> 0"
  shows "2 ^ 64 \<le> unat a * unat b"
proof -
  have "1 * 1 \<le> unat (hi_half a) * unat (hi_half b)"
    using assms by (intro mult_le_mono) (simp_all add: half_nonzero)
  then have "2 ^ 64 \<le> unat (hi_half a) * unat (hi_half b) * 2 ^ 64" by simp
  then show ?thesis unfolding product_halves by linarith
qed

lemma ullmul_low_parts:
  assumes "hi_half a = 0 \<or> hi_half b = 0"
  shows "unat a * unat b = unat (cross a b) * 2 ^ 32 + unat (low_product a b)"
proof -
  have "unat (hi_half a) * unat (hi_half b) = 0" using assms by auto
  then show ?thesis unfolding product_halves unat_cross [OF assms] unat_low_product by simp
qed

lemma ullmul_cross_overflow:
  "hi_half a = 0 \<or> hi_half b = 0 \<Longrightarrow> 0xFFFFFFFF < cross a b \<Longrightarrow> 2 ^ 64 \<le> unat a * unat b"
  by (subst ullmul_low_parts) (simp_all add: word_less_nat_alt)

lemma ullmul_exact:
  "ullmul a b = (if unat a * unat b < 2 ^ 64 then \<lparr>ull_value = a * b, ull_is_null = False\<rparr>
                 else \<lparr>ull_value = 0, ull_is_null = True\<rparr>)"
proof (cases "hi_half a \<noteq> 0 \<and> hi_half b \<noteq> 0 \<or> 0xFFFFFFFF < cross a b")
  case True
  then have "2 ^ 64 \<le> unat a * unat b"
    using ullmul_high_overflow [of a b] ullmul_cross_overflow [of a b] by blast
  then show ?thesis using True by (auto simp: ullmul_parts)
next
  case False
  then have small: "hi_half a = 0 \<or> hi_half b = 0" "\<not> 0xFFFFFFFF < cross a b" by auto
  let ?c = "push_bit 32 (cross a b)" and ?l = "low_product a b"
  have split: "unat a * unat b = unat ?c + unat ?l"
    by (simp only: ullmul_low_parts [OF small(1)] unat_push_cross [OF small(2)])
  then have "test_if_sum_overflows_ull ?c ?l \<longleftrightarrow> \<not> unat a * unat b < 2 ^ 64"
    by (simp only: sum_overflows_iff not_less)
  moreover have "?c + ?l = a * b"
    by (simp only: word_arith_nat_add word_arith_nat_mult split)
  ultimately show ?thesis using small unfolding ullmul_parts by auto
qed

section \<open>Shifts\<close>

definition shifted :: "(nat \<Rightarrow> longlong \<Rightarrow> longlong) \<Rightarrow> longlong \<Rightarrow> longlong \<Rightarrow> longlong" where
  "shifted f v n = (let k = unat n mod 2 ^ 32 in if k < 64 then f k v else 0)"

lemma shift_count: "unat (ucast n :: uint) = unat n mod 2 ^ 32" for n :: longlong
  by (simp add: unsigned_ucast_eq take_bit_eq_mod)

lemma ll_shl_shifted: "ll_shl (mk_ll v) (mk_ll n) = mk_ll (shifted push_bit v n)"
  by (simp add: ll_shl_def shifted_def mk_ll_def Let_def word_less_nat_alt shift_count)

lemma ll_shr_shifted: "ll_shr (mk_ll v) (mk_ll n) = mk_ll (shifted drop_bit v n)"
  by (simp add: ll_shr_def shifted_def mk_ll_def Let_def word_less_nat_alt shift_count)

lemma null_is_absorbing:
  "ll_is_null a \<Longrightarrow> ll_shl a b = mk_null" "ll_is_null b \<Longrightarrow> ll_shl a b = mk_null"
  "ll_is_null a \<Longrightarrow> ll_shr a b = mk_null" "ll_is_null b \<Longrightarrow> ll_shr a b = mk_null"
  "ll_is_null a \<Longrightarrow> ll_or a b = mk_null" "ll_is_null a \<Longrightarrow> ll_and a b = mk_null"
  by (simp_all add: ll_shl_def ll_shr_def ll_or_def ll_and_def)

section \<open>Properties\<close>

text \<open>
  C39. \<open>ULonglong_null::ullmul\<close> is exact: it returns the product of two unsigned 64-bit values when the
  product fits 64 bits and a null otherwise, for all inputs. The 32-bit splitting never reports an
  overflow that is not there and never misses one.
\<close>

theorem ullmul_exact_or_null:
  "ullmul a b = (if unat a * unat b < 2 ^ 64 then \<lparr>ull_value = a * b, ull_is_null = False\<rparr>
                 else \<lparr>ull_value = 0, ull_is_null = True\<rparr>)"
  by (rule ullmul_exact)

text \<open>
  A \<open>Longlong_hybrid\<close> behaves as the integer it denotes, whatever the signedness flags: \<open>cmp\<close> is
  the mathematical three-way comparison, also between a signed and an unsigned value; \<open>abs\<close> is the
  absolute value; \<open>to_ulonglong\<close> clamps into 0 .. bound; \<open>val_int\<close> returns the value when it fits the
  wanted signedness and null when it does not.
\<close>

theorem hybrid_denotes_integer:
  "hybrid_cmp a b = three_way (hval a) (hval b)
   \<and> hybrid_eq a b = (hval a = hval b)
   \<and> uint (hybrid_abs a) = \<bar>hval a\<bar>
   \<and> uint (to_ulonglong a u) = max 0 (min (hval a) (uint u))
   \<and> holds_signed (val_int a False) (hval a)
   \<and> holds_unsigned (val_int a True) (hval a)"
  using val_int_signed_holds [of a] val_int_unsigned_holds [of a]
  by (simp_all add: cmp_three_way hybrid_eq_def three_way_def hybrid_abs_value to_ulonglong_clamps val_int_def)

text \<open>
  A \<open>ULonglong_hybrid\<close> carries any integer from minus to plus \<open>ULONGLONG_MAX\<close>: the constructor
  turns a negative zero into zero, and \<open>val_int\<close> returns the value when it fits the wanted
  signedness, the smallest \<open>longlong\<close> included, and null when it does not.
\<close>

theorem ull_hybrid_denotes_integer:
  "uval (mk_ull_hybrid v n) = (if n then - uint v else uint v)
   \<and> holds_signed (u_val_int (mk_ull_hybrid v n) False) (uval (mk_ull_hybrid v n))
   \<and> holds_unsigned (u_val_int (mk_ull_hybrid v n) True) (uval (mk_ull_hybrid v n))"
  using u_val_int_signed_holds [of v n] u_val_int_unsigned_holds [of v n]
  by (simp_all add: u_val_int_def mk_ull_uval)

text \<open>
  The shift count of \<open><<\<close> and \<open>>>\<close> is cut to 32 bits before it is compared with 64: the operators
  shift by the count modulo \<open>2 ^ 32\<close>, and a shift by \<open>2 ^ 32\<close> is the identity instead of 0.
\<close>

theorem shift_count_truncated:
  "ll_shl (mk_ll v) (mk_ll n) = mk_ll (shifted push_bit v n)
   \<and> ll_shr (mk_ll v) (mk_ll n) = mk_ll (shifted drop_bit v n)
   \<and> ll_shl (mk_ll v) (mk_ll 0x100000000) = mk_ll v"
  by (simp_all add: ll_shl_shifted ll_shr_shifted) (simp add: shifted_def)

end
