(* ===== verification/Select_Limit.thy ===== *)
theory Select_Limit
  imports Prelude
begin

text \<open>
  \<open>sql_limit.h\<close>: the row counters of LIMIT and OFFSET. \<open>select_limit_cnt\<close> counts the skipped rows too,
  so it is the sum of both arguments; \<open>HA_POS_ERROR\<close>, the largest \<open>ha_rows\<close>, stands for no limit.
\<close>

section \<open>Counters\<close>

type_synonym ha_rows = "64 word"

definition HA_POS_ERROR :: ha_rows where "HA_POS_ERROR = NOT 0"

record Select_limit_counters =
  select_limit_cnt :: ha_rows
  offset_limit_cnt :: ha_rows
  with_ties :: bool

definition mk_limit_counters :: Select_limit_counters where
  "mk_limit_counters = \<lparr>select_limit_cnt = 0, offset_limit_cnt = 0, with_ties = False\<rparr>"

definition set_limit :: "ha_rows \<Rightarrow> ha_rows \<Rightarrow> bool \<Rightarrow> Select_limit_counters \<Rightarrow> Select_limit_counters" where
  "set_limit limit offset with_ties_arg c =
     (let offset = (if limit = 0 then 0 else offset);
          c = c\<lparr>offset_limit_cnt := offset, select_limit_cnt := limit, with_ties := with_ties_arg\<rparr>
      in if select_limit_cnt c \<le> select_limit_cnt c + offset_limit_cnt c
         then c\<lparr>select_limit_cnt := select_limit_cnt c + offset_limit_cnt c\<rparr>
         else c\<lparr>select_limit_cnt := HA_POS_ERROR\<rparr>)"

definition set_single_row :: "Select_limit_counters \<Rightarrow> Select_limit_counters" where
  "set_single_row c = c\<lparr>offset_limit_cnt := 0, select_limit_cnt := 1, with_ties := False\<rparr>"

definition send_first_row :: "Select_limit_counters \<Rightarrow> Select_limit_counters" where
  "send_first_row c =
     (let c = c\<lparr>select_limit_cnt := offset_limit_cnt c + 1\<rparr>
      in if select_limit_cnt c = 0 then c\<lparr>select_limit_cnt := offset_limit_cnt c\<rparr> else c)"

definition is_unlimited :: "Select_limit_counters \<Rightarrow> bool" where
  "is_unlimited c \<longleftrightarrow> select_limit_cnt c = HA_POS_ERROR"

definition set_unlimited :: "Select_limit_counters \<Rightarrow> Select_limit_counters" where
  "set_unlimited c = c\<lparr>select_limit_cnt := HA_POS_ERROR\<rparr>"

definition clear_limit :: "Select_limit_counters \<Rightarrow> Select_limit_counters" where
  "clear_limit c = c\<lparr>select_limit_cnt := HA_POS_ERROR, offset_limit_cnt := 0, with_ties := False\<rparr>"

definition check_offset :: "ha_rows \<Rightarrow> Select_limit_counters \<Rightarrow> bool" where
  "check_offset sent c \<longleftrightarrow> sent < offset_limit_cnt c"

definition remove_offset :: "Select_limit_counters \<Rightarrow> Select_limit_counters" where
  "remove_offset c = c\<lparr>offset_limit_cnt := 0\<rparr>"

section \<open>Saturating sums\<close>

lemma unat_max_rows: "unat HA_POS_ERROR = 2 ^ 64 - 1"
  by (simp add: HA_POS_ERROR_def unsigned_minus_1_eq_mask mask_eq_exp_minus_1)

lemma no_wrap_iff: "a \<le> a + b \<longleftrightarrow> unat a + unat b < 2 ^ 64" for a b :: ha_rows
proof
  assume "a \<le> a + b"
  then show "unat a + unat b < 2 ^ 64"
    using unat_less_2p [of a] unat_less_2p [of b]
    by (auto simp: word_le_nat_alt unat_word_ariths mod_if split: if_splits)
next
  assume "unat a + unat b < 2 ^ 64"
  then show "a \<le> a + b" by (simp add: word_le_nat_alt unat_word_ariths)
qed

lemma unat_set_limit:
  "unat (select_limit_cnt (set_limit l k t c)) = (if l = 0 then 0 else min (unat l + unat k) (2 ^ 64 - 1))"
  by (auto simp: set_limit_def Let_def no_wrap_iff unat_max_rows unat_word_ariths min_def)

lemma set_limit_offset: "offset_limit_cnt (set_limit l k t c) = (if l = 0 then 0 else k)"
  by (simp add: set_limit_def Let_def)

lemma send_first_row_offset: "offset_limit_cnt (send_first_row c) = offset_limit_cnt c"
  by (simp add: send_first_row_def Let_def)

lemma not_max_rows: "k \<noteq> HA_POS_ERROR \<longleftrightarrow> unat k < 2 ^ 64 - 1"
proof -
  have "k = HA_POS_ERROR \<longleftrightarrow> unat k = 2 ^ 64 - 1" by (simp only: word_unat_eq_iff unat_max_rows)
  then show ?thesis using unat_less_2p [of k] by auto
qed

lemma is_unlimited_iff: "is_unlimited c \<longleftrightarrow> unat (select_limit_cnt c) = 2 ^ 64 - 1"
  unfolding is_unlimited_def by (simp only: word_unat_eq_iff unat_max_rows)

lemma unat_send_first_row: "unat (select_limit_cnt (send_first_row c)) = min (unat (offset_limit_cnt c) + 1) (2 ^ 64 - 1)"
proof (cases "offset_limit_cnt c = HA_POS_ERROR")
  case True
  then show ?thesis using unat_max_rows by (simp add: send_first_row_def Let_def HA_POS_ERROR_def)
next
  case False
  then have "unat (offset_limit_cnt c) \<noteq> 2 ^ 64 - 1" using unat_max_rows by (metis word_unat_eq_iff)
  then have "unat (offset_limit_cnt c) + 1 < 2 ^ 64" using unat_less_2p [of "offset_limit_cnt c"] by simp
  then have "unat (offset_limit_cnt c + 1) = unat (offset_limit_cnt c) + 1" by (simp add: unat_word_ariths)
  moreover from this have "offset_limit_cnt c + 1 \<noteq> 0" by (metis add_is_0 one_neq_zero unsigned_0)
  ultimately show ?thesis
    using \<open>unat (offset_limit_cnt c) + 1 < 2 ^ 64\<close> by (simp add: send_first_row_def Let_def)
qed

section \<open>Rows sent\<close>

text \<open>
  A consumer of the counters: it numbers the rows of a result from 0, drops the rows \<open>check_offset\<close>
  rejects and stops at \<open>select_limit_cnt\<close>.
\<close>

definition sends_row :: "Select_limit_counters \<Rightarrow> nat \<Rightarrow> bool" where
  "sends_row c i \<longleftrightarrow> i < unat (select_limit_cnt c) \<and> \<not> check_offset (of_nat i) c"

lemma check_offset_nat: "i < 2 ^ 64 \<Longrightarrow> check_offset (of_nat i) c \<longleftrightarrow> i < unat (offset_limit_cnt c)"
  by (simp add: check_offset_def word_less_nat_alt unat_of_nat_small)

lemma sends_row_iff:
  "sends_row c i \<longleftrightarrow> unat (offset_limit_cnt c) \<le> i \<and> i < unat (select_limit_cnt c)"
  using unat_less_2p [of "select_limit_cnt c"] check_offset_nat [of i c]
  by (auto simp: sends_row_def not_less)

section \<open>Properties\<close>

text \<open>
  \<open>set_limit\<close> never wraps: after \<open>LIMIT l OFFSET k\<close> the rows sent are exactly rows k to k + l - 1,
  cut at row \<open>2 ^ 64 - 2\<close> when the sum does not fit \<open>ha_rows\<close> (the counters then say "unlimited"), and
  none at all for \<open>LIMIT 0\<close>; asking for the first row only sends row k unless k is the largest value.
\<close>

theorem limit_window:
  "sends_row (set_limit l k t c) i = (unat k \<le> i \<and> i < unat k + unat l \<and> i < 2 ^ 64 - 1)
   \<and> sends_row (send_first_row (set_limit l k t c)) i =
       (if l = 0 then i = 0 else i = unat k \<and> k \<noteq> HA_POS_ERROR)
   \<and> is_unlimited (set_limit l k t c) = (l \<noteq> 0 \<and> 2 ^ 64 - 1 \<le> unat l + unat k)"
  using unat_less_2p [of k] unat_less_2p [of l]
  by (auto simp: sends_row_iff unat_set_limit unat_send_first_row set_limit_offset send_first_row_offset
      is_unlimited_iff       not_max_rows unat_gt_0)

end
