(* ===== verification/Simulation.thy ===== *)
theory Simulation
  imports Prelude
begin

text \<open>
  The interface between an implementation and its specification as machines that run commands: a step
  takes a command and a state to an output and the next state, and is undefined where the code would
  be. The locale \<open>simulation\<close> is the contract of one step; the refinement of whole programs follows
  once for every component. The budget in the relation counts the steps the implementation has room
  for, for components that count their elements in a machine word.
\<close>

section \<open>Programs\<close>

fun run_cmds :: "('c \<Rightarrow> 's \<Rightarrow> ('o \<times> 's) option) \<Rightarrow> 'c list \<Rightarrow> 's \<Rightarrow> ('o list \<times> 's) option" where
  "run_cmds step [] s = Some ([], s)"
| "run_cmds step (c # cs) s =
     (case step c s of None \<Rightarrow> None
      | Some (x, s') \<Rightarrow> map_option (\<lambda>(xs, t). (x # xs, t)) (run_cmds step cs s'))"

lemma run_cmds_append:
  "run_cmds step (cs @ ds) s =
     (case run_cmds step cs s of None \<Rightarrow> None
      | Some (xs, t) \<Rightarrow> map_option (\<lambda>(ys, u). (xs @ ys, u)) (run_cmds step ds t))"
proof (induction cs arbitrary: s)
  case Nil
  then show ?case by (cases "run_cmds step ds s") auto
next
  case (Cons c cs)
  show ?case
  proof (cases "step c s")
    case (Some xt)
    then show ?thesis
      by (cases xt; cases "run_cmds step cs (snd xt)"; cases "run_cmds step ds (snd (the (run_cmds step cs (snd xt))))")
        (auto simp: Cons.IH)
  qed simp
qed

lemma run_cmds_length: "run_cmds step cs s = Some (xs, t) \<Longrightarrow> length xs = length cs"
  by (induction cs arbitrary: s xs) (auto split: option.splits)

section \<open>Refinement of programs\<close>

locale simulation =
  fixes R :: "nat \<Rightarrow> 's \<Rightarrow> 'a \<Rightarrow> bool"
    and cstep :: "'c \<Rightarrow> 's \<Rightarrow> ('o \<times> 's) option"
    and astep :: "'c \<Rightarrow> 'a \<Rightarrow> ('o \<times> 'a) option"
  assumes step: "R (Suc k) s a \<Longrightarrow> astep c a = Some (x, a') \<Longrightarrow> \<exists>s'. cstep c s = Some (x, s') \<and> R k s' a'"
begin

lemma run_refines:
  "R (length cs + k) s a \<Longrightarrow> run_cmds astep cs a = Some (xs, a') \<Longrightarrow>
   \<exists>s'. run_cmds cstep cs s = Some (xs, s') \<and> R k s' a'"
proof (induction cs arbitrary: s a xs)
  case Nil
  then show ?case by simp
next
  case (Cons c cs)
  from Cons.prems(2) obtain x b ys where b: "astep c a = Some (x, b)" "run_cmds astep cs b = Some (ys, a')"
    "xs = x # ys" by (auto split: option.splits)
  obtain t where t: "cstep c s = Some (x, t)" "R (length cs + k) t b"
    using step [OF _ b(1)] Cons.prems(1) by auto
  from Cons.IH [OF t(2) b(2)] t b(3) show ?case by auto
qed

end

end
