(* ===== verification/Sql_List.thy ===== *)
theory Sql_List
  imports Simulation "HOL-Library.Monad_Syntax"
begin

text \<open>
  \<open>sql_list.h\<close>: the single linked list of the server, \<open>base_list\<close> and its iterators, over an explicit
  heap. A \<open>list_node **\<close> is a \<open>slot\<close>: the \<open>first\<close> field of a list object or the \<open>next\<close> field of a node,
  so that the pointer tricks of the code (a list whose \<open>last\<close> points into itself) are kept. Reading or
  writing through a null or dead pointer is the value \<open>None\<close>. The allocator is a parameter: it maps the
  heap to the address of the new node, 0 when it fails.
\<close>

section \<open>Heap\<close>

record list_node =
  nd_next :: ptr
  nd_info :: ptr

datatype slot = No_slot | First ptr | Next ptr

record base_list =
  bl_first :: ptr
  bl_last :: slot
  bl_elements :: uint

record heap =
  nodes :: "ptr \<Rightarrow> list_node option"
  lists :: "ptr \<Rightarrow> base_list option"

type_synonym allocator = "heap \<Rightarrow> ptr"

definition end_of_list :: ptr where "end_of_list = 1"

definition upd_node :: "ptr \<Rightarrow> (list_node \<Rightarrow> list_node) \<Rightarrow> heap \<Rightarrow> heap option" where
  "upd_node n f h = map_option (\<lambda>x. h\<lparr>nodes := (nodes h)(n \<mapsto> f x)\<rparr>) (nodes h n)"

definition upd_list :: "ptr \<Rightarrow> (base_list \<Rightarrow> base_list) \<Rightarrow> heap \<Rightarrow> heap option" where
  "upd_list a f h = map_option (\<lambda>l. h\<lparr>lists := (lists h)(a \<mapsto> f l)\<rparr>) (lists h a)"

fun read_slot :: "slot \<Rightarrow> heap \<Rightarrow> ptr option" where
  "read_slot No_slot h = None"
| "read_slot (First a) h = map_option bl_first (lists h a)"
| "read_slot (Next n) h = map_option nd_next (nodes h n)"

fun write_slot :: "slot \<Rightarrow> ptr \<Rightarrow> heap \<Rightarrow> heap option" where
  "write_slot No_slot p h = None"
| "write_slot (First a) p h = upd_list a (bl_first_update (\<lambda>_. p)) h"
| "write_slot (Next n) p h = upd_node n (nd_next_update (\<lambda>_. p)) h"

definition new_node :: "allocator \<Rightarrow> ptr \<Rightarrow> ptr \<Rightarrow> heap \<Rightarrow> ptr \<times> heap" where
  "new_node new info_par next_par h =
     (let p = new h in if p = 0 then (0, h)
      else (p, h\<lparr>nodes := (nodes h)(p \<mapsto> \<lparr>nd_next = next_par, nd_info = info_par\<rparr>)\<rparr>))"

definition delete_node :: "ptr \<Rightarrow> heap \<Rightarrow> heap" where
  "delete_node p h = h\<lparr>nodes := (nodes h)(p := None)\<rparr>"

text \<open>The object \<open>end_of_list\<close>: its data pointer is null and its next pointer is itself.\<close>

definition end_node :: list_node where
  "end_node = \<lparr>nd_next = end_of_list, nd_info = 0\<rparr>"

section \<open>Lists\<close>

definition list_eq :: "base_list \<Rightarrow> base_list \<Rightarrow> bool" where
  "list_eq l rhs \<longleftrightarrow> bl_elements l = bl_elements rhs \<and> bl_first l = bl_first rhs \<and> bl_last l = bl_last rhs"

definition assign :: "ptr \<Rightarrow> ptr \<Rightarrow> heap \<Rightarrow> heap option" where
  "assign this rhs h = do {
     r \<leftarrow> lists h rhs;
     h \<leftarrow> upd_list this (bl_elements_update (\<lambda>_. bl_elements r) \<circ> bl_first_update (\<lambda>_. bl_first r)) h;
     l \<leftarrow> lists h this;
     r \<leftarrow> lists h rhs;
     upd_list this (bl_last_update (\<lambda>_. if bl_elements l \<noteq> 0 then bl_last r else First this)) h }"

definition empty :: "ptr \<Rightarrow> heap \<Rightarrow> heap option" where
  "empty this h =
     upd_list this (\<lambda>l. l\<lparr>bl_elements := 0, bl_first := end_of_list, bl_last := First this\<rparr>) h"

definition mk_list :: "ptr \<Rightarrow> heap \<Rightarrow> heap option" where
  "mk_list this h =
     empty this (h\<lparr>lists := (lists h)(this \<mapsto> \<lparr>bl_first = 0, bl_last = No_slot, bl_elements = 0\<rparr>)\<rparr>)"

definition push_back :: "allocator \<Rightarrow> ptr \<Rightarrow> ptr \<Rightarrow> heap \<Rightarrow> (bool \<times> heap) option" where
  "push_back new this info h = do {
     l \<leftarrow> lists h this;
     let (p, h) = new_node new info end_of_list h;
     h \<leftarrow> write_slot (bl_last l) p h;
     if p \<noteq> 0 then do {
       l \<leftarrow> lists h this;
       q \<leftarrow> read_slot (bl_last l) h;
       h \<leftarrow> upd_list this (\<lambda>l. l\<lparr>bl_last := Next q, bl_elements := bl_elements l + 1\<rparr>) h;
       Some (False, h) }
     else Some (True, h) }"

definition push_front_impl :: "ptr \<Rightarrow> ptr \<Rightarrow> heap \<Rightarrow> (bool \<times> heap) option" where
  "push_front_impl this node h =
     (if node \<noteq> 0 then do {
        h \<leftarrow> upd_list this (\<lambda>l. if bl_last l = First this then l\<lparr>bl_last := Next node\<rparr> else l) h;
        h \<leftarrow> upd_list this (\<lambda>l. l\<lparr>bl_first := node, bl_elements := bl_elements l + 1\<rparr>) h;
        Some (False, h) }
      else Some (True, h))"

definition push_front :: "allocator \<Rightarrow> ptr \<Rightarrow> ptr \<Rightarrow> heap \<Rightarrow> (bool \<times> heap) option" where
  "push_front new this info h = do {
     l \<leftarrow> lists h this;
     let (p, h) = new_node new info (bl_first l) h;
     push_front_impl this p h }"

definition remove :: "ptr \<Rightarrow> slot \<Rightarrow> heap \<Rightarrow> heap option" where
  "remove this prev h = do {
     q \<leftarrow> read_slot prev h;
     node \<leftarrow> read_slot (Next q) h;
     h \<leftarrow> upd_list this (\<lambda>l. l\<lparr>bl_elements := bl_elements l - 1\<rparr>) h;
     h \<leftarrow> upd_list this (\<lambda>l. if bl_elements l = 0 then l\<lparr>bl_last := First this\<rparr>
                            else if bl_last l = Next q then l\<lparr>bl_last := prev\<rparr> else l) h;
     write_slot prev node (delete_node q h) }"

definition is_empty :: "ptr \<Rightarrow> heap \<Rightarrow> bool option" where
  "is_empty this h = map_option (\<lambda>l. bl_first l = end_of_list) (lists h this)"

definition append_list :: "ptr \<Rightarrow> ptr \<Rightarrow> heap \<Rightarrow> heap option" where
  "append_list this list h = do {
     e \<leftarrow> is_empty list h;
     if \<not> e then do {
       e \<leftarrow> is_empty this h;
       if e then assign this list h
       else do {
         l \<leftarrow> lists h this;
         r \<leftarrow> lists h list;
         h \<leftarrow> write_slot (bl_last l) (bl_first r) h;
         r \<leftarrow> lists h list;
         upd_list this (\<lambda>l. l\<lparr>bl_last := bl_last r, bl_elements := bl_elements l + bl_elements r\<rparr>) h } }
     else Some h }"

definition pop :: "ptr \<Rightarrow> heap \<Rightarrow> (ptr \<times> heap) option" where
  "pop this h = do {
     l \<leftarrow> lists h this;
     if bl_first l = end_of_list then Some (0, h)
     else do {
       let tmp = bl_first l;
       n \<leftarrow> nodes h tmp;
       h \<leftarrow> upd_list this (\<lambda>l. l\<lparr>bl_first := nd_next n, bl_elements := bl_elements l - 1\<rparr>) h;
       h \<leftarrow> upd_list this (\<lambda>l. if bl_elements l = 0 then l\<lparr>bl_last := First this\<rparr> else l) h;
       Some (nd_info n, h) } }"

text \<open>
  The loop of \<open>disjoin\<close>: \<open>None\<close> in the second component when it left the function early, the tail being
  not in the list; the counter is the field \<open>elements\<close>, which nothing else reads meanwhile.
\<close>

partial_function (option) disjoin_loop ::
    "heap \<Rightarrow> ptr \<Rightarrow> slot \<Rightarrow> ptr \<Rightarrow> uint \<Rightarrow> (uint \<times> slot option) option" where
  "disjoin_loop h list_first prev node count =
     (if node \<noteq> end_of_list \<and> node \<noteq> list_first then do {
        let prev = Next node;
        node \<leftarrow> read_slot (Next node) h;
        let count = count + 1;
        if node = end_of_list then Some (count, None)
        else disjoin_loop h list_first prev node count }
      else Some (count, Some prev))"

definition disjoin :: "ptr \<Rightarrow> ptr \<Rightarrow> heap \<Rightarrow> heap option" where
  "disjoin this list h = do {
     l \<leftarrow> lists h this;
     r \<leftarrow> lists h list;
     (count, prev) \<leftarrow> disjoin_loop h (bl_first r) (First this) (bl_first l) 0;
     h \<leftarrow> upd_list this (\<lambda>l. l\<lparr>bl_elements := count\<rparr>) h;
     (case prev of None \<Rightarrow> Some h
      | Some prev \<Rightarrow> do {
          h \<leftarrow> write_slot prev end_of_list h;
          upd_list this (\<lambda>l. l\<lparr>bl_last := prev\<rparr>) h }) }"

definition prepend :: "ptr \<Rightarrow> ptr \<Rightarrow> heap \<Rightarrow> heap option" where
  "prepend this list h = do {
     e \<leftarrow> is_empty list h;
     if \<not> e then do {
       e \<leftarrow> is_empty this h;
       r \<leftarrow> lists h list;
       h \<leftarrow> (if e then upd_list this (\<lambda>l. l\<lparr>bl_last := bl_last r\<rparr>) h else Some h);
       r \<leftarrow> lists h list;
       l \<leftarrow> lists h this;
       h \<leftarrow> write_slot (bl_last r) (bl_first l) h;
       r \<leftarrow> lists h list;
       upd_list this (\<lambda>l. l\<lparr>bl_first := bl_first r, bl_elements := bl_elements l + bl_elements r\<rparr>) h }
     else Some h }"

definition swap_lists :: "ptr \<Rightarrow> ptr \<Rightarrow> heap \<Rightarrow> heap option" where
  "swap_lists this rhs h = do {
     r \<leftarrow> lists h rhs;
     let rhs_last = bl_last r;
     l \<leftarrow> lists h this;
     h \<leftarrow> upd_list this (\<lambda>l. l\<lparr>bl_first := bl_first r, bl_elements := bl_elements r\<rparr>) h;
     h \<leftarrow> upd_list rhs (\<lambda>r. r\<lparr>bl_first := bl_first l, bl_elements := bl_elements l\<rparr>) h;
     h \<leftarrow> upd_list rhs (\<lambda>r. r\<lparr>bl_last := if bl_last l = First this then First rhs else bl_last l\<rparr>) h;
     upd_list this (\<lambda>l. l\<lparr>bl_last := if rhs_last = First rhs then First this else rhs_last\<rparr>) h }"

definition last_node :: "ptr \<Rightarrow> heap \<Rightarrow> ptr option" where
  "last_node this h = do { l \<leftarrow> lists h this; read_slot (bl_last l) h }"

definition first_node :: "ptr \<Rightarrow> heap \<Rightarrow> ptr option" where
  "first_node this h = read_slot (First this) h"

definition head :: "ptr \<Rightarrow> heap \<Rightarrow> ptr option" where
  "head this h = do { l \<leftarrow> lists h this; n \<leftarrow> nodes h (bl_first l); Some (nd_info n) }"

text \<open>A \<open>void **\<close> to the data of a node is the address of the node, 0 for a null pointer.\<close>

definition head_ref :: "ptr \<Rightarrow> heap \<Rightarrow> ptr option" where
  "head_ref this h = do { l \<leftarrow> lists h this; Some (if bl_first l \<noteq> end_of_list then bl_first l else 0) }"

definition last_ref :: ptr where "last_ref = end_of_list"

partial_function (option) add_unique_loop ::
    "heap \<Rightarrow> (ptr \<Rightarrow> ptr \<Rightarrow> bool) \<Rightarrow> ptr \<Rightarrow> ptr \<Rightarrow> ptr option" where
  "add_unique_loop h eq info node =
     (if node = end_of_list then Some node
      else do {
        n \<leftarrow> nodes h node;
        if eq (nd_info n) info then Some node else add_unique_loop h eq info (nd_next n) })"

definition add_unique :: "allocator \<Rightarrow> ptr \<Rightarrow> ptr \<Rightarrow> (ptr \<Rightarrow> ptr \<Rightarrow> bool) \<Rightarrow> heap \<Rightarrow> (bool \<times> heap) option" where
  "add_unique new this info eq h = do {
     l \<leftarrow> lists h this;
     node \<leftarrow> add_unique_loop h eq info (bl_first l);
     if node = end_of_list then push_back new this info h else Some (True, h) }"

partial_function (option) elem_loop :: "heap \<Rightarrow> uint \<Rightarrow> uint \<Rightarrow> ptr \<Rightarrow> ptr \<Rightarrow> ptr option" where
  "elem_loop h n i node data =
     (if i \<le> n then
        (if node = end_of_list then Some 0
         else do { x \<leftarrow> nodes h node; elem_loop h n (i + 1) (nd_next x) (nd_info x) })
      else Some data)"

definition elem :: "ptr \<Rightarrow> uint \<Rightarrow> heap \<Rightarrow> ptr option" where
  "elem this n h = do { l \<leftarrow> lists h this; elem_loop h n 0 (bl_first l) 0 }"

partial_function (option) check_list_loop :: "heap \<Rightarrow> ptr \<Rightarrow> uint \<Rightarrow> (ptr \<times> uint) option option" where
  "check_list_loop h node cnt = do {
     n \<leftarrow> nodes h node;
     if nd_next n \<noteq> end_of_list then
       (if nd_info n = 0 then Some None else check_list_loop h (nd_next n) (cnt + 1))
     else Some (Some (node, cnt)) }"

definition check_list :: "ptr \<Rightarrow> heap \<Rightarrow> bool option" where
  "check_list this h = do {
     l \<leftarrow> lists h this;
     r \<leftarrow> check_list_loop h (bl_first l) 0;
     Some (case r of None \<Rightarrow> False
           | Some (node, cnt) \<Rightarrow>
               if bl_last l \<noteq> Next node then False
               else if cnt + 1 \<noteq> bl_elements l then False else True) }"

definition after :: "allocator \<Rightarrow> ptr \<Rightarrow> ptr \<Rightarrow> ptr \<Rightarrow> heap \<Rightarrow> heap option" where
  "after new this info node h = do {
     n \<leftarrow> nodes h node;
     let (new_node, h) = new_node new info (nd_next n) h;
     h \<leftarrow> write_slot (Next node) new_node h;
     upd_list this (\<lambda>l. let l = l\<lparr>bl_elements := bl_elements l + 1\<rparr>
       in if bl_last l = Next node then l\<lparr>bl_last := Next new_node\<rparr> else l) h }"

section \<open>Iterators\<close>

record list_iter =
  it_list :: ptr
  it_el :: slot
  it_prev :: slot
  it_current :: ptr

definition mk_iter :: list_iter where
  "mk_iter = \<lparr>it_list = 0, it_el = No_slot, it_prev = No_slot, it_current = 0\<rparr>"

definition init :: "ptr \<Rightarrow> list_iter" where
  "init list_par = \<lparr>it_list = list_par, it_el = First list_par, it_prev = No_slot, it_current = 0\<rparr>"

definition sublist :: "ptr \<Rightarrow> uint \<Rightarrow> list_iter \<Rightarrow> heap \<Rightarrow> heap option" where
  "sublist ls elm it h = do {
     p \<leftarrow> read_slot (it_el it) h;
     h \<leftarrow> upd_list ls (\<lambda>l. l\<lparr>bl_first := p\<rparr>) h;
     l \<leftarrow> lists h (it_list it);
     upd_list ls (\<lambda>s. s\<lparr>bl_last := bl_last l, bl_elements := elm\<rparr>) h }"

definition iter_next :: "list_iter \<Rightarrow> heap \<Rightarrow> (ptr \<times> list_iter) option" where
  "iter_next it h = do {
     let it = it\<lparr>it_prev := it_el it\<rparr>;
     p \<leftarrow> read_slot (it_el it) h;
     let it = it\<lparr>it_current := p, it_el := Next p\<rparr>;
     n \<leftarrow> nodes h p;
     Some (nd_info n, it) }"

definition peek :: "list_iter \<Rightarrow> heap \<Rightarrow> ptr option" where
  "peek it h = do { p \<leftarrow> read_slot (it_el it) h; n \<leftarrow> nodes h p; Some (nd_info n) }"

definition next_fast :: "list_iter \<Rightarrow> heap \<Rightarrow> (ptr \<times> list_iter) option" where
  "next_fast it h = do {
     p \<leftarrow> read_slot (it_el it) h;
     n \<leftarrow> nodes h p;
     Some (nd_info n, it\<lparr>it_el := Next p\<rparr>) }"

definition rewind :: "list_iter \<Rightarrow> list_iter" where
  "rewind it = it\<lparr>it_el := First (it_list it)\<rparr>"

definition replace :: "ptr \<Rightarrow> list_iter \<Rightarrow> heap \<Rightarrow> (ptr \<times> heap) option" where
  "replace element it h = do {
     n \<leftarrow> nodes h (it_current it);
     h \<leftarrow> upd_node (it_current it) (nd_info_update (\<lambda>_. element)) h;
     Some (nd_info n, h) }"

definition replace_list :: "ptr \<Rightarrow> list_iter \<Rightarrow> heap \<Rightarrow> (ptr \<times> heap) option" where
  "replace_list new_list it h = do {
     let current = it_current it;
     c \<leftarrow> nodes h current;
     let ret_value = nd_info c;
     e \<leftarrow> is_empty new_list h;
     if e then Some (ret_value, h)
     else do {
       r \<leftarrow> lists h new_list;
       h \<leftarrow> write_slot (bl_last r) (nd_next c) h;
       r \<leftarrow> lists h new_list;
       f \<leftarrow> nodes h (bl_first r);
       h \<leftarrow> upd_node current (nd_info_update (\<lambda>_. nd_info f)) h;
       f \<leftarrow> nodes h (bl_first r);
       h \<leftarrow> upd_node current (nd_next_update (\<lambda>_. nd_next f)) h;
       h \<leftarrow> upd_list (it_list it) (\<lambda>l. if bl_last l = Next current \<and> 1 < bl_elements r
              then l\<lparr>bl_last := bl_last r\<rparr> else l) h;
       r \<leftarrow> lists h new_list;
       h \<leftarrow> upd_list (it_list it) (\<lambda>l. l\<lparr>bl_elements := bl_elements l + (bl_elements r - 1)\<rparr>) h;
       Some (ret_value, h) } }"

definition iter_remove :: "list_iter \<Rightarrow> heap \<Rightarrow> (list_iter \<times> heap) option" where
  "iter_remove it h = do {
     h \<leftarrow> remove (it_list it) (it_prev it) h;
     Some (it\<lparr>it_el := it_prev it, it_current := 0\<rparr>, h) }"

definition iter_after :: "allocator \<Rightarrow> ptr \<Rightarrow> list_iter \<Rightarrow> heap \<Rightarrow> (list_iter \<times> heap) option" where
  "iter_after new element it h = do {
     h \<leftarrow> after new (it_list it) element (it_current it) h;
     c \<leftarrow> read_slot (Next (it_current it)) h;
     Some (it\<lparr>it_current := c, it_el := Next c\<rparr>, h) }"

definition ref :: "list_iter \<Rightarrow> ptr" where "ref it = it_current it"

definition is_last :: "list_iter \<Rightarrow> bool" where "is_last it \<longleftrightarrow> it_el it = Next last_ref"

definition at_end :: "list_iter \<Rightarrow> bool" where "at_end it \<longleftrightarrow> it_current it = end_of_list"

section \<open>Typed lists\<close>

text \<open>
  Deleting the elements calls a destructor the lists do not define: the model returns the data pointers
  it is called on, in order.
\<close>

partial_function (option) delete_loop :: "heap \<Rightarrow> ptr \<Rightarrow> ptr list \<Rightarrow> ptr list option" where
  "delete_loop h element deleted =
     (if element = end_of_list then Some deleted
      else do { n \<leftarrow> nodes h element; delete_loop h (nd_next n) (deleted @ [nd_info n]) })"

definition delete_elements :: "ptr \<Rightarrow> heap \<Rightarrow> (ptr list \<times> heap) option" where
  "delete_elements this h = do {
     l \<leftarrow> lists h this;
     deleted \<leftarrow> delete_loop h (bl_first l) [];
     h \<leftarrow> empty this h;
     Some (deleted, h) }"

definition make :: "allocator \<Rightarrow> allocator \<Rightarrow> ptr \<Rightarrow> heap \<Rightarrow> (ptr \<times> heap) option" where
  "make new_list new first h =
     (let res = new_list h in
      if res = 0 then Some (0, h)
      else do {
        h \<leftarrow> mk_list res h;
        (failed, h) \<leftarrow> push_back new res first h;
        Some (if failed then 0 else res, h) })"

text \<open>The \<open>begin\<close>, \<open>end\<close>, increment and dereference of the standard iterator, which is a node address.\<close>

definition iterator_begin :: "ptr \<Rightarrow> heap \<Rightarrow> ptr option" where
  "iterator_begin this h = read_slot (First this) h"

definition iterator_end :: ptr where "iterator_end = end_of_list"

definition iterator_incr :: "ptr \<Rightarrow> heap \<Rightarrow> ptr option" where
  "iterator_incr node h = read_slot (Next node) h"

definition iterator_deref :: "ptr \<Rightarrow> heap \<Rightarrow> ptr option" where
  "iterator_deref node h = map_option nd_info (nodes h node)"

definition iterator_eq :: "ptr \<Rightarrow> ptr \<Rightarrow> bool" where "iterator_eq node rhs \<longleftrightarrow> node = rhs"

section \<open>Sorting\<close>

type_synonym cmp_func = "ptr \<Rightarrow> ptr \<Rightarrow> cint"

partial_function (option) bubble_pass ::
    "cmp_func \<Rightarrow> ptr \<Rightarrow> ptr \<Rightarrow> ptr \<Rightarrow> list_iter \<Rightarrow> bool \<Rightarrow> heap \<Rightarrow> (ptr \<times> list_iter \<times> bool \<times> heap) option" where
  "bubble_pass sort_func lastref ref1 item1 it swap h = do {
     (item2, it) \<leftarrow> iter_next it h;
     if item2 \<noteq> 0 \<and> ref it \<noteq> lastref then do {
       let ref2 = ref it;
       if 0 <s sort_func item1 item2 then do {
         h \<leftarrow> upd_node ref1 (nd_info_update (\<lambda>_. item2)) h;
         h \<leftarrow> upd_node ref2 (nd_info_update (\<lambda>_. item1)) h;
         bubble_pass sort_func lastref ref2 item1 it True h }
       else bubble_pass sort_func lastref ref2 item2 it swap h }
     else Some (ref1, it, swap, h) }"

partial_function (option) bubble_loop :: "cmp_func \<Rightarrow> ptr \<Rightarrow> list_iter \<Rightarrow> heap \<Rightarrow> heap option" where
  "bubble_loop sort_func ref1 it h = do {
     let lastref = ref1;
     (item1, it) \<leftarrow> iter_next it h;
     let ref1 = ref it;
     (ref1, it, swap, h) \<leftarrow> bubble_pass sort_func lastref ref1 item1 it False h;
     let it = rewind it;
     if swap then bubble_loop sort_func ref1 it h else Some h }"

definition bubble_sort :: "ptr \<Rightarrow> cmp_func \<Rightarrow> heap \<Rightarrow> heap option" where
  "bubble_sort list_to_sort sort_func h = bubble_loop sort_func 0 (init list_to_sort) h"

section \<open>Lists in the heap\<close>

text \<open>
  \<open>linked h ns q\<close>: the nodes \<open>ns\<close>, pairs of address and data, are chained one after the other and the
  last points to \<open>q\<close>. \<open>prefix_slot a xs\<close> is the slot that holds the pointer to what follows the
  prefix \<open>xs\<close> of the list object \<open>a\<close>.
\<close>

definition start :: "(ptr \<times> ptr) list \<Rightarrow> ptr \<Rightarrow> ptr" where
  "start ns q = (case ns of [] \<Rightarrow> q | n # _ \<Rightarrow> fst n)"

fun linked :: "heap \<Rightarrow> (ptr \<times> ptr) list \<Rightarrow> ptr \<Rightarrow> bool" where
  "linked h [] q \<longleftrightarrow> True"
| "linked h ((a, v) # ns) q \<longleftrightarrow>
     a \<noteq> 0 \<and> a \<noteq> end_of_list \<and> nodes h a = Some \<lparr>nd_next = start ns q, nd_info = v\<rparr> \<and> linked h ns q"

definition prefix_slot :: "ptr \<Rightarrow> (ptr \<times> ptr) list \<Rightarrow> slot" where
  "prefix_slot a xs = (if xs = [] then First a else Next (fst (last xs)))"

definition seg :: "heap \<Rightarrow> ptr \<Rightarrow> base_list \<Rightarrow> (ptr \<times> ptr) list \<Rightarrow> ptr \<Rightarrow> bool" where
  "seg h a l xs q \<longleftrightarrow> lists h a = Some l \<and> bl_first l = start xs q \<and> linked h xs q \<and> distinct (map fst xs)"

definition header :: "ptr \<Rightarrow> (ptr \<times> ptr) list \<Rightarrow> base_list" where
  "header a ns = \<lparr>bl_first = start ns end_of_list, bl_last = prefix_slot a ns, bl_elements = of_nat (length ns)\<rparr>"

definition rep :: "heap \<Rightarrow> ptr \<Rightarrow> (ptr \<times> ptr) list \<Rightarrow> bool" where
  "rep h a ns \<longleftrightarrow> seg h a (header a ns) ns end_of_list \<and> nodes h end_of_list = Some end_node
     \<and> length ns < 2 ^ 32"

text \<open>What a call may change: the nodes in \<open>N\<close> and the list objects in \<open>L\<close>.\<close>

definition touches :: "ptr set \<Rightarrow> ptr set \<Rightarrow> heap \<Rightarrow> heap \<Rightarrow> bool" where
  "touches N L h h' \<longleftrightarrow>
     (\<forall>x. x \<notin> N \<longrightarrow> nodes h' x = nodes h x) \<and> (\<forall>b. b \<notin> L \<longrightarrow> lists h' b = lists h b)"

definition addrs :: "(ptr \<times> ptr) list \<Rightarrow> ptr set" where "addrs ns = fst ` set ns"

lemma addrs_simps [simp]: "addrs [] = {}" "addrs (n # ns) = insert (fst n) (addrs ns)"
  "addrs (xs @ ys) = addrs xs \<union> addrs ys" "fst ` set ns = addrs ns"
  by (auto simp: addrs_def)

lemma start_simps [simp]: "start [] q = q" "start (n # ns) q = fst n"
  "start (xs @ ys) q = start xs (start ys q)"
  by (auto simp: start_def split: list.splits)

lemma linked_append [simp]: "linked h (xs @ ys) q \<longleftrightarrow> linked h xs (start ys q) \<and> linked h ys q"
  by (induction xs) auto

lemma linked_frame: "linked h ns q \<Longrightarrow> \<forall>x \<in> addrs ns. nodes h' x = nodes h x \<Longrightarrow> linked h' ns q"
  by (induction ns) auto

lemma linked_addr: "linked h ns q \<Longrightarrow> x \<in> addrs ns \<Longrightarrow> x \<noteq> 0 \<and> x \<noteq> end_of_list \<and> nodes h x \<noteq> None"
  by (induction ns) auto

lemma linked_lists [simp]: "linked (h\<lparr>lists := ls\<rparr>) ns q = linked h ns q"
  by (induction ns) auto

lemma prefix_slot_simps [simp]:
  "prefix_slot a [] = First a" "prefix_slot a [n] = Next (fst n)" "prefix_slot a (xs @ [n]) = Next (fst n)"
  "ys \<noteq> [] \<Longrightarrow> prefix_slot a (xs @ ys) = prefix_slot a ys"
  "xs \<noteq> [] \<Longrightarrow> prefix_slot a (n # xs) = prefix_slot a xs"
  by (auto simp: prefix_slot_def)

lemma prefix_slot_eq_First [simp]: "prefix_slot a xs = First b \<longleftrightarrow> xs = [] \<and> a = b"
  by (simp add: prefix_slot_def)

lemma prefix_slot_other: "xs \<noteq> [] \<Longrightarrow> prefix_slot a xs = prefix_slot b xs"
  by (simp add: prefix_slot_def)

lemma touches_refl [simp]: "touches N L h h"
  by (simp add: touches_def)

lemma touches_trans: "touches N L h h' \<Longrightarrow> touches N L h' h'' \<Longrightarrow> touches N L h h''"
  by (auto simp: touches_def)

lemma touches_mono: "touches N L h h' \<Longrightarrow> N \<subseteq> N' \<Longrightarrow> L \<subseteq> L' \<Longrightarrow> touches N' L' h h'"
  by (auto simp: touches_def)

text \<open>Reading and writing the slot after a prefix.\<close>

lemma read_prefix: "seg h a l xs q \<Longrightarrow> read_slot (prefix_slot a xs) h = Some q"
  by (cases xs rule: rev_cases) (auto simp: seg_def)

lemma write_prefix:
  assumes "seg h a l xs q"
  shows "\<exists>h'. write_slot (prefix_slot a xs) q' h = Some h' \<and> seg h' a (l\<lparr>bl_first := start xs q'\<rparr>) xs q'
           \<and> touches (addrs xs) {a} h h'"
proof (cases xs rule: rev_cases)
  case Nil
  then show ?thesis using assms by (simp add: seg_def upd_list_def touches_def)
next
  case (snoc ys n)
  obtain x v where n: "n = (x, v)" by (cases n)
  have s: "linked h ys x" "x \<noteq> 0" "x \<noteq> end_of_list" "nodes h x = Some \<lparr>nd_next = q, nd_info = v\<rparr>"
    "x \<notin> addrs ys" "lists h a = Some l" "bl_first l = start ys x" "distinct (map fst ys)"
    using assms by (auto simp: seg_def snoc n)
  let ?h = "h\<lparr>nodes := (nodes h)(x \<mapsto> \<lparr>nd_next = q', nd_info = v\<rparr>)\<rparr>"
  have "linked ?h ys x" using s(1,5) by (auto elim!: linked_frame)
  moreover have "l\<lparr>bl_first := start ys x\<rparr> = l" using s(7) by simp
  ultimately show ?thesis
    using s by (auto simp: seg_def snoc n upd_node_def touches_def)
qed

lemma rep_seg: "rep h a (xs @ ys) \<Longrightarrow> seg h a (header a (xs @ ys)) xs (start ys end_of_list)"
  by (simp add: rep_def seg_def)

lemma rep_end: "rep h a ns \<Longrightarrow> nodes h end_of_list = Some end_node"
  by (simp add: rep_def)

lemma rep_header: "rep h a ns \<Longrightarrow> lists h a = Some (header a ns)"
  by (simp add: rep_def seg_def)

lemma rep_frame:
  "rep h a ns \<Longrightarrow> touches N L h h' \<Longrightarrow> a \<notin> L \<Longrightarrow> addrs ns \<inter> N = {} \<Longrightarrow> end_of_list \<notin> N \<Longrightarrow> rep h' a ns"
  by (auto simp: rep_def seg_def touches_def elim!: linked_frame)

lemma header_sel [simp]: "bl_first (header a ns) = start ns end_of_list" "bl_last (header a ns) = prefix_slot a ns"
  "bl_elements (header a ns) = of_nat (length ns)"
  by (simp_all add: header_def)

lemma start_end: "linked h ns end_of_list \<Longrightarrow> start ns end_of_list = end_of_list \<longleftrightarrow> ns = []"
  by (cases ns) auto

lemma rep_start_end: "rep h a ns \<Longrightarrow> start ns end_of_list = end_of_list \<longleftrightarrow> ns = []"
  by (auto simp: rep_def seg_def start_end)

lemma rep_addr: "rep h a ns \<Longrightarrow> 0 \<notin> addrs ns \<and> end_of_list \<notin> addrs ns"
  using linked_addr by (fastforce simp: rep_def seg_def)

lemma rep_is_empty: "rep h a ns \<Longrightarrow> is_empty a h = Some (ns = [])"
  by (simp add: is_empty_def rep_header rep_start_end)

section \<open>Single operations\<close>

lemma fresh_not_linked: "linked h ns q \<Longrightarrow> nodes h p = None \<Longrightarrow> p \<notin> addrs ns"
  using linked_addr by blast

lemma length_wrap: "length ns < 2 ^ 32 \<Longrightarrow> (of_nat (length ns) = (0 :: uint)) \<longleftrightarrow> ns = []"
  using unat_of_nat_small [of "length ns", where 'a = 32] by (auto simp: word_unat_eq_iff)

lemma rep_mk_list: "nodes h end_of_list = Some end_node \<Longrightarrow>
  \<exists>h'. mk_list a h = Some h' \<and> rep h' a [] \<and> touches {} {a} h h'"
  by (simp add: mk_list_def empty_def upd_list_def rep_def seg_def header_def touches_def)

lemma rep_empty: "rep h a ns \<Longrightarrow> \<exists>h'. empty a h = Some h' \<and> rep h' a [] \<and> touches {} {a} h h'"
  by (simp add: empty_def upd_list_def rep_def seg_def header_def touches_def)

lemma rep_push_back:
  assumes r: "rep h a ns" and p: "new h = p" "p \<noteq> 0" "nodes h p = None"
    and l: "length ns + 1 < 2 ^ 32"
  shows "\<exists>h'. push_back new a v h = Some (False, h') \<and> rep h' a (ns @ [(p, v)])
           \<and> touches (insert p (addrs ns)) {a} h h'"
proof -
  have np: "p \<notin> addrs ns" "p \<noteq> end_of_list" "end_of_list \<notin> addrs ns"
    using r p fresh_not_linked rep_addr [OF r] by (auto simp: rep_def seg_def)
  let ?n = "\<lparr>nd_next = end_of_list, nd_info = v\<rparr>"
  let ?h = "h\<lparr>nodes := (nodes h)(p \<mapsto> ?n)\<rparr>"
  have "seg ?h a (header a ns) ns end_of_list"
    using r np by (auto simp: rep_def seg_def elim!: linked_frame)
  from write_prefix [OF this, of p] obtain h' where h': "write_slot (prefix_slot a ns) p ?h = Some h'"
    and s: "seg h' a ((header a ns)\<lparr>bl_first := start ns p\<rparr>) ns p" and t: "touches (addrs ns) {a} ?h h'"
    by blast
  have hp: "nodes h' p = Some ?n" "nodes h' end_of_list = Some end_node"
    using t np r p by (auto simp: touches_def rep_def)
  have "linked h' (ns @ [(p, v)]) end_of_list" using s hp np p by (simp add: seg_def)
  then show ?thesis
    using h' s t hp np l p read_prefix [OF s]
    by (simp add: push_back_def new_node_def rep_header [OF r] upd_list_def seg_def rep_def touches_def header_def)
qed

lemma rep_push_front:
  assumes r: "rep h a ns" and p: "new h = p" "p \<noteq> 0" "nodes h p = None"
    and l: "length ns + 1 < 2 ^ 32"
  shows "\<exists>h'. push_front new a v h = Some (False, h') \<and> rep h' a ((p, v) # ns)
           \<and> touches {p} {a} h h'"
proof -
  have np: "p \<notin> addrs ns" "p \<noteq> end_of_list"
    using r p fresh_not_linked by (auto simp: rep_def seg_def)
  let ?n = "\<lparr>nd_next = start ns end_of_list, nd_info = v\<rparr>"
  have "linked (h\<lparr>nodes := (nodes h)(p \<mapsto> ?n)\<rparr>) ns end_of_list"
    using r np by (auto simp: rep_def seg_def elim!: linked_frame)
  then show ?thesis
    using r np p l
    by (cases "ns = []") (auto simp: push_front_def push_front_impl_def new_node_def rep_def upd_list_def
        seg_def touches_def header_def)
qed

lemma rep_pop_empty: "rep h a [] \<Longrightarrow> pop a h = Some (0, h)"
  by (simp add: pop_def rep_header)

lemma rep_pop:
  assumes r: "rep h a ((p, v) # ns)"
  shows "\<exists>h'. pop a h = Some (v, h') \<and> rep h' a ns \<and> touches {} {a} h h'"
  using r length_wrap [of ns] by (auto simp: pop_def rep_def upd_list_def seg_def touches_def header_def)

lemma rep_head: "rep h a ns \<Longrightarrow> head a h = Some (case ns of [] \<Rightarrow> 0 | n # _ \<Rightarrow> snd n)"
  by (cases ns) (auto simp: head_def rep_def seg_def end_node_def)

lemma rep_last_node: "rep h a ns \<Longrightarrow> last_node a h = Some end_of_list"
  using read_prefix [of h a "header a ns" ns end_of_list] by (auto simp: last_node_def rep_def seg_def)

section \<open>Splicing\<close>

lemma rep_remove:
  assumes r: "rep h a (xs @ (p, v) # ys)"
  shows "\<exists>h'. remove a (prefix_slot a xs) h = Some h' \<and> rep h' a (xs @ ys)
           \<and> touches (insert p (addrs xs)) {a} h h'"
proof -
  let ?ns = "xs @ (p, v) # ys" and ?q = "start ys end_of_list"
  have s: "seg h a (header a ?ns) xs p" using rep_seg [OF r] by simp
  have l: "lists h a = Some (header a ?ns)" by (rule rep_header [OF r])
  have n: "linked h ys end_of_list" "nodes h p = Some \<lparr>nd_next = ?q, nd_info = v\<rparr>"
    "p \<notin> addrs xs" "p \<notin> addrs ys" "addrs xs \<inter> addrs ys = {}" "distinct (map fst ys)"
    "length (xs @ ys) + 1 < 2 ^ 32" "nodes h end_of_list = Some end_node"
    and e: "end_of_list \<notin> addrs ?ns" "0 \<notin> addrs ?ns"
    using r rep_addr [OF r] by (auto simp: rep_def seg_def)
  let ?l = "\<lparr>bl_first = start xs p, bl_last = prefix_slot a (xs @ ys), bl_elements = of_nat (length (xs @ ys))\<rparr>"
  let ?h = "delete_node p (h\<lparr>lists := (lists h)(a \<mapsto> ?l)\<rparr>)"
  have "linked ?h xs p"
    using s n(3) by (auto simp: seg_def delete_node_def elim!: linked_frame)
  then have "seg ?h a ?l xs p" using s by (auto simp: seg_def delete_node_def)
  from write_prefix [OF this, of ?q] obtain h' where h': "write_slot (prefix_slot a xs) ?q ?h = Some h'"
    and s': "seg h' a (?l\<lparr>bl_first := start xs ?q\<rparr>) xs ?q" and t: "touches (addrs xs) {a} ?h h'"
    by blast
  have ys: "linked h' ys end_of_list"
    using n(1) by (rule linked_frame) (use n t in \<open>auto simp: touches_def delete_node_def\<close>)
  have "nodes h' end_of_list = Some end_node"
    using n(8) e t by (auto simp: touches_def delete_node_def)
  then have "rep h' a (xs @ ys)"
    using s' ys n by (auto simp: rep_def seg_def header_def)
  moreover have "touches (insert p (addrs xs)) {a} h h'"
    using t by (auto simp: touches_def delete_node_def)
  moreover have "remove a (prefix_slot a xs) h = Some h'"
  proof -
    let ?k = "of_nat (length (xs @ ys)) :: uint" and ?h1 = "(header a ?ns)"
    have "prefix_slot a ?ns = Next p \<longleftrightarrow> ys = []"
      using n(4) by (cases ys rule: rev_cases) auto
    moreover have k: "?k = 0 \<longleftrightarrow> xs @ ys = []" using n(7) by (intro length_wrap) simp
    ultimately have upd: "(if ?k = 0 then \<lparr>bl_first = start xs p, bl_last = First a, bl_elements = ?k\<rparr>
        else if prefix_slot a ?ns = Next p
          then \<lparr>bl_first = start xs p, bl_last = prefix_slot a xs, bl_elements = ?k\<rparr>
        else \<lparr>bl_first = start xs p, bl_last = prefix_slot a ?ns, bl_elements = ?k\<rparr>) = ?l"
      by (cases "ys = []"; cases "xs = []") simp_all
    have "header a ?ns = \<lparr>bl_first = start xs p, bl_last = prefix_slot a ?ns, bl_elements = ?k + 1\<rparr>"
      by (simp add: header_def)
    then show ?thesis
      using h' n(2) l upd
      by (simp add: remove_def read_prefix [OF s] upd_list_def cong: if_cong split del: if_split
          del: length_append prefix_slot_simps)
  qed
  ultimately show ?thesis by blast
qed

lemma rep_after:
  assumes r: "rep h a (xs @ (p, v) # ys)" and f: "new h = f" "f \<noteq> 0" "nodes h f = None"
    and l: "length (xs @ (p, v) # ys) + 1 < 2 ^ 32"
  shows "\<exists>h'. after new a w p h = Some h' \<and> rep h' a (xs @ (p, v) # (f, w) # ys)
           \<and> touches (insert f (insert p (addrs xs))) {a} h h'"
proof -
  let ?ns = "xs @ (p, v) # ys" and ?xs = "xs @ [(p, v)]" and ?q = "start ys end_of_list"
  have n: "linked h ys end_of_list" "nodes h p = Some \<lparr>nd_next = ?q, nd_info = v\<rparr>"
    "addrs ?xs \<inter> addrs ys = {}" "distinct (map fst ?ns)" "nodes h end_of_list = Some end_node"
    and e: "end_of_list \<notin> addrs ?ns" "f \<noteq> end_of_list" "f \<notin> addrs ?ns"
    using r f rep_addr [OF r] fresh_not_linked [of h ?ns end_of_list f] by (auto simp: rep_def seg_def)
  let ?h = "h\<lparr>nodes := (nodes h)(f \<mapsto> \<lparr>nd_next = ?q, nd_info = w\<rparr>)\<rparr>"
  have "seg ?h a (header a ?ns) ?xs ?q"
    using r e n(3) by (auto simp: rep_def seg_def elim!: linked_frame)
  from write_prefix [OF this, of f] obtain h' where h': "write_slot (prefix_slot a ?xs) f ?h = Some h'"
    and s: "seg h' a ((header a ?ns)\<lparr>bl_first := start ?xs f\<rparr>) ?xs f" and t: "touches (addrs ?xs) {a} ?h h'"
    by blast
  have o: "nodes h' f = Some \<lparr>nd_next = ?q, nd_info = w\<rparr>" "nodes h' end_of_list = Some end_node"
    using t e n by (auto simp: touches_def)
  have ys: "linked h' ys end_of_list"
    using n(1) by (rule linked_frame) (use n t e in \<open>auto simp: touches_def\<close>)
  have last: "prefix_slot a ?ns = Next p \<longleftrightarrow> ys = []"
    using n(3) by (cases ys rule: rev_cases) auto
  have "heap.lists h' a = Some (header a ?ns)" using s by (simp add: seg_def header_def)
  then show ?thesis
    using h' n(2) f s t o ys e n(4) l last
    by (cases "ys = []") (auto simp: after_def new_node_def upd_list_def rep_def seg_def header_def touches_def)
qed

lemma rep_append_list:
  assumes a: "rep h a ns" and b: "rep h b ms" and ab: "a \<noteq> b" "addrs ns \<inter> addrs ms = {}"
    and l: "length ns + length ms < 2 ^ 32"
  shows "\<exists>h'. append_list a b h = Some h' \<and> rep h' a (ns @ ms) \<and> rep h' b ms \<and> touches (addrs ns) {a} h h'"
proof (cases "ms = [] \<or> ns = []")
  case True
  show ?thesis
  proof (cases "ms = []")
    case True
    then show ?thesis using a b by (simp add: append_list_def rep_is_empty)
  next
    case False
    with True have ns: "ns = []" by simp
    let ?h = "h\<lparr>lists := (lists h)(a \<mapsto> header a ms)\<rparr>"
    have "header a ms = \<lparr>bl_first = start ms end_of_list, bl_last = bl_last (header b ms),
        bl_elements = of_nat (length ms)\<rparr>" "(of_nat (length ms) :: uint) \<noteq> 0"
      using False length_wrap [of ms] l prefix_slot_other [OF False] by (auto simp: header_def)
    then have "append_list a b h = Some ?h"
      using False ns ab by (simp add: append_list_def rep_is_empty [OF a] rep_is_empty [OF b] assign_def
          rep_header [OF a] rep_header [OF b] upd_list_def) (simp add: header_def)
    moreover have "rep ?h a ms" "rep ?h b ms" using b ab by (auto simp: rep_def seg_def)
    ultimately show ?thesis using ns by (auto simp: touches_def)
  qed
next
  case False
  have s: "seg h a (header a ns) ns end_of_list" using a by (simp add: rep_def)
  from write_prefix [OF s, of "start ms end_of_list"] obtain h'
    where h': "write_slot (prefix_slot a ns) (start ms end_of_list) h = Some h'"
    and s': "seg h' a ((header a ns)\<lparr>bl_first := start ns (start ms end_of_list)\<rparr>) ns (start ms end_of_list)"
    and t: "touches (addrs ns) {a} h h'" by blast
  have b': "rep h' b ms" using b t by (rule rep_frame) (use ab rep_addr [OF a] in auto)
  let ?h = "h'\<lparr>lists := (lists h')(a \<mapsto> header a (ns @ ms))\<rparr>"
  have "append_list a b h = Some ?h"
    using False h' s' rep_header [OF b'] prefix_slot_other [of ms b a]
    by (simp add: append_list_def rep_is_empty [OF a] rep_is_empty [OF b] rep_header [OF a] rep_header [OF b]
        upd_list_def seg_def) (simp add: header_def)
  moreover have "rep ?h a (ns @ ms)" "rep ?h b ms"
    using s' b' ab a b l by (auto simp: rep_def seg_def)
  moreover have "touches (addrs ns) {a} h ?h" using t by (auto simp: touches_def)
  ultimately show ?thesis by blast
qed

lemma rep_prepend:
  assumes a: "rep h a ns" and b: "rep h b ms" and ab: "a \<noteq> b" "addrs ns \<inter> addrs ms = {}"
    and l: "length ns + length ms < 2 ^ 32"
  shows "\<exists>h'. prepend a b h = Some h' \<and> rep h' a (ms @ ns) \<and> touches (addrs ms) {a, b} h h'"
proof (cases "ms = []")
  case True
  then show ?thesis using a b by (auto simp: prepend_def rep_is_empty)
next
  case False
  let ?h0 = "h\<lparr>lists := (lists h)(a \<mapsto> (header a ns)\<lparr>bl_last := prefix_slot a (ms @ ns)\<rparr>)\<rparr>"
  have "(header a ns)\<lparr>bl_last := prefix_slot a (ms @ ns)\<rparr> = header a ns" if "ns \<noteq> []"
    using that by (simp add: header_def)
  then have last: "ns \<noteq> [] \<Longrightarrow> ?h0 = h" "prefix_slot b ms = prefix_slot a ms"
    using rep_header [OF a] prefix_slot_other [OF False, of b a] by (simp_all add: fun_upd_idem)
  have "seg ?h0 b (header b ms) ms end_of_list" using b ab by (auto simp: rep_def seg_def)
  from write_prefix [OF this, of "start ns end_of_list"] obtain h'
    where h': "write_slot (prefix_slot a ms) (start ns end_of_list) ?h0 = Some h'"
    and s': "seg h' b ((header b ms)\<lparr>bl_first := start ms (start ns end_of_list)\<rparr>) ms (start ns end_of_list)"
    and t: "touches (addrs ms) {b} ?h0 h'" unfolding last by blast
  have ns: "linked h' ns end_of_list"
    by (rule linked_frame [of h]) (use a t ab in \<open>auto simp: rep_def seg_def touches_def\<close>)
  have ha: "heap.lists h' a = Some ((header a ns)\<lparr>bl_last := prefix_slot a (ms @ ns)\<rparr>)"
    using t ab by (auto simp: touches_def)
  let ?h = "h'\<lparr>lists := (lists h')(a \<mapsto> header a (ms @ ns))\<rparr>"
  have "prepend a b h = Some ?h"
  proof (cases "ns = []")
    case True
    then show ?thesis
      using False h' s' ha ab last(2) rep_header [OF a] rep_header [OF b]
      by (simp add: prepend_def rep_is_empty [OF a] rep_is_empty [OF b] upd_list_def seg_def)
        (simp add: header_def)
  next
    case nonempty: False
    then show ?thesis
      using False h' s' ha ab last rep_header [OF a] rep_header [OF b]
      by (simp add: prepend_def rep_is_empty [OF a] rep_is_empty [OF b] upd_list_def seg_def)
        (simp add: header_def add.commute)
  qed
  moreover have "rep ?h a (ms @ ns)"
    using s' ns ab a b l t rep_addr [OF b] by (auto simp: rep_def seg_def touches_def)
  moreover have "touches (addrs ms) {a, b} h ?h" using t by (auto simp: touches_def)
  ultimately show ?thesis by blast
qed

lemma rep_swap_lists:
  assumes "rep h a ns" and "rep h b ms" and "a \<noteq> b"
  shows "\<exists>h'. swap_lists a b h = Some h' \<and> rep h' a ms \<and> rep h' b ns \<and> touches {} {a, b} h h'"
  using assms
  by (auto simp: swap_lists_def rep_header upd_list_def rep_def seg_def touches_def header_def
      prefix_slot_other [of ns a b] prefix_slot_other [of ms b a])

lemma disjoin_loop_found:
  "linked h (ys @ ms) end_of_list \<Longrightarrow> ms \<noteq> [] \<Longrightarrow> start ms end_of_list \<notin> addrs ys \<Longrightarrow>
   disjoin_loop h (start ms end_of_list) (prefix_slot a xs) (start (ys @ ms) end_of_list) c =
     Some (c + of_nat (length ys), Some (prefix_slot a (xs @ ys)))"
proof (induction ys arbitrary: xs c)
  case Nil
  then show ?case by (subst disjoin_loop.simps) simp
next
  case (Cons y ys)
  obtain x v where y: "y = (x, v)" by (cases y)
  have "linked h (ys @ ms) end_of_list" using Cons.prems(1) by (simp add: y)
  then have ne: "start (ys @ ms) end_of_list \<noteq> end_of_list" using Cons.prems(2) by (simp only: start_end) simp
  have "disjoin_loop h (start ms end_of_list) (Next x) (start (ys @ ms) end_of_list) (c + 1) =
      Some (c + 1 + of_nat (length ys), Some (prefix_slot a ((xs @ [y]) @ ys)))"
    using Cons.IH [of "xs @ [y]" "c + 1"] Cons.prems by (simp add: y)
  then show ?case using Cons.prems ne
    by (subst disjoin_loop.simps) (simp add: y add.assoc)
qed

lemma disjoin_loop_missing:
  "linked h ys end_of_list \<Longrightarrow> ys \<noteq> [] \<Longrightarrow> lf \<notin> addrs ys \<Longrightarrow>
   disjoin_loop h lf prev (start ys end_of_list) c = Some (c + of_nat (length ys), None)"
proof (induction ys arbitrary: prev c)
  case (Cons y ys)
  obtain x v where y: "y = (x, v)" by (cases y)
  show ?case using Cons start_end [of h ys]
    by (subst disjoin_loop.simps) (cases "ys = []"; simp add: y add.assoc)
qed simp

lemma rep_disjoin:
  assumes a: "rep h a (ns @ ms)" and b: "rep h b ms" and ab: "a \<noteq> b"
  shows "\<exists>h'. disjoin a b h = Some h' \<and> rep h' a ns \<and> rep h' b ms \<and> touches (addrs ns) {a} h h'"
proof (cases "ms = [] \<and> ns \<noteq> []")
  case True
  have "rep h a ns" using a True by simp
  moreover from this have "disjoin_loop h end_of_list (First a) (start ns end_of_list) 0
      = Some (of_nat (length ns), None)"
    using True rep_addr [OF a] disjoin_loop_missing [of h ns end_of_list "First a" 0]
    by (simp add: rep_def seg_def)
  moreover have "h\<lparr>lists := (lists h)(a \<mapsto> (header a ns)\<lparr>bl_elements := of_nat (length ns)\<rparr>)\<rparr> = h"
    using rep_header [OF \<open>rep h a ns\<close>] by (simp add: header_def fun_upd_idem)
  ultimately show ?thesis
    using True b rep_header [OF \<open>rep h a ns\<close>] by (simp add: disjoin_def rep_header [OF b] upd_list_def)
next
  case False
  have loop: "disjoin_loop h (start ms end_of_list) (First a) (start (ns @ ms) end_of_list) 0
      = Some (of_nat (length ns), Some (prefix_slot a ns))"
  proof (cases "ms = []")
    case True
    with False show ?thesis by (subst disjoin_loop.simps) simp
  next
    case nonempty: False
    have "start ms end_of_list \<notin> addrs ns" using a nonempty by (cases ms) (auto simp: rep_def seg_def)
    with nonempty a show ?thesis
      using disjoin_loop_found [of h ns ms a "[]" 0] by (simp add: rep_def seg_def)
  qed
  let ?h0 = "h\<lparr>lists := (lists h)(a \<mapsto> (header a (ns @ ms))\<lparr>bl_elements := of_nat (length ns)\<rparr>)\<rparr>"
  have s: "seg ?h0 a ((header a (ns @ ms))\<lparr>bl_elements := of_nat (length ns)\<rparr>) ns (start ms end_of_list)"
    using rep_seg [OF a] by (simp add: seg_def)
  from write_prefix [OF s, of end_of_list] obtain h'
    where h': "write_slot (prefix_slot a ns) end_of_list ?h0 = Some h'"
    and s': "seg h' a ((header a (ns @ ms))\<lparr>bl_elements := of_nat (length ns), bl_first := start ns end_of_list\<rparr>)
        ns end_of_list"
    and t: "touches (addrs ns) {a} ?h0 h'" by auto
  let ?h = "h'\<lparr>lists := (lists h')(a \<mapsto> header a ns)\<rparr>"
  have d: "disjoin a b h = Some ?h"
    using h' s' loop rep_header [OF a] rep_header [OF b]
    by (simp add: disjoin_def upd_list_def seg_def) (simp add: header_def)
  have t': "touches (addrs ns) {a} h ?h" using t by (auto simp: touches_def)
  have "addrs ms \<inter> addrs ns = {}" using a by (auto simp: rep_def seg_def)
  then have "rep ?h b ms" using rep_frame [OF b t'] ab rep_addr [OF a] by auto
  moreover from this have "rep ?h a ns" using s' a by (simp add: rep_def seg_def)
  ultimately show ?thesis using d t' by blast
qed

section \<open>Traversal\<close>

lemma add_unique_loop_result:
  "linked h ns end_of_list \<Longrightarrow>
   add_unique_loop h eq v (start ns end_of_list) =
     Some (start (dropWhile (\<lambda>n. \<not> eq (snd n) v) ns) end_of_list)"
  by (induction ns; subst add_unique_loop.simps) auto

lemma rep_add_unique_present:
  assumes r: "rep h a ns" and "n \<in> set ns" and "eq (snd n) v"
  shows "add_unique new a v eq h = Some (True, h)"
proof -
  let ?ms = "dropWhile (\<lambda>n. \<not> eq (snd n) v) ns"
  have "?ms \<noteq> []" using assms by (auto simp: dropWhile_eq_Nil_conv)
  moreover have "linked h ?ms end_of_list"
    using r linked_append [of h "takeWhile (\<lambda>n. \<not> eq (snd n) v) ns" ?ms end_of_list]
    by (simp add: rep_def seg_def)
  ultimately have "start ?ms end_of_list \<noteq> end_of_list" by (simp add: start_end)
  moreover have "add_unique_loop h eq v (start ns end_of_list) = Some (start ?ms end_of_list)"
    using r by (intro add_unique_loop_result) (simp add: rep_def seg_def)
  ultimately show ?thesis by (simp add: add_unique_def rep_header [OF r])
qed

lemma rep_add_unique_absent:
  assumes r: "rep h a ns" and "\<forall>n \<in> set ns. \<not> eq (snd n) v"
  shows "add_unique new a v eq h = push_back new a v h"
proof -
  have "dropWhile (\<lambda>n. \<not> eq (snd n) v) ns = []" using assms by (simp add: dropWhile_eq_Nil_conv)
  moreover have "linked h ns end_of_list" using r by (simp add: rep_def seg_def)
  ultimately show ?thesis
    using add_unique_loop_result [of h ns eq v] by (simp only: add_unique_def rep_header [OF r]) simp
qed

lemma elem_loop_result:
  "linked h ys end_of_list \<Longrightarrow> i + length ys < 2 ^ 32 \<Longrightarrow> i \<le> unat n + 1 \<Longrightarrow>
   elem_loop h n (of_nat i) (start ys end_of_list) d =
     Some (if i = unat n + 1 then d else if unat n < i + length ys then snd (ys ! (unat n - i)) else 0)"
proof (induction ys arbitrary: i d)
  case Nil
  then have "(of_nat i :: uint) \<le> n \<longleftrightarrow> i \<le> unat n" by (simp add: word_le_nat_alt unat_of_nat_small)
  with Nil show ?case by (subst elem_loop.simps) auto
next
  case (Cons y ys)
  obtain x v where y: "y = (x, v)" by (cases y)
  have le: "(of_nat i :: uint) \<le> n \<longleftrightarrow> i \<le> unat n"
    using Cons.prems(2) by (simp add: word_le_nat_alt unat_of_nat_small)
  have s: "(of_nat i :: uint) + 1 = of_nat (Suc i)" by simp
  show ?case
  proof (cases "i \<le> unat n")
    case False
    with Cons.prems le show ?thesis by (subst elem_loop.simps) simp
  next
    case True
    have "elem_loop h n (of_nat i) (start (y # ys) end_of_list) d
        = elem_loop h n (of_nat (Suc i)) (start ys end_of_list) v"
      using True le Cons.prems(1) by (subst elem_loop.simps) (simp add: y add.commute)
    then show ?thesis using Cons.IH [of "Suc i" v] Cons.prems True
      by (cases "i = unat n") (auto simp: y nth_Cons')
  qed
qed

lemma rep_elem:
  assumes r: "rep h a ns"
  shows "elem a n h = Some (if unat n < length ns then snd (ns ! unat n) else 0)"
  using r elem_loop_result [of h ns 0 n 0] by (auto simp: elem_def rep_header [OF r] rep_def seg_def)

lemma delete_loop_result:
  "linked h ns end_of_list \<Longrightarrow> delete_loop h (start ns end_of_list) vs = Some (vs @ map snd ns)"
  by (induction ns arbitrary: vs; subst delete_loop.simps) auto

lemma rep_delete_elements:
  assumes r: "rep h a ns"
  shows "\<exists>h'. delete_elements a h = Some (map snd ns, h') \<and> rep h' a []"
  using rep_empty [OF r] delete_loop_result [of h ns "[]"] r
  by (auto simp: delete_elements_def rep_header [OF r] rep_def seg_def)

lemma check_list_loop_result:
  "linked h (ys @ [(x, v)]) end_of_list \<Longrightarrow>
   check_list_loop h (start (ys @ [(x, v)]) end_of_list) c =
     Some (if 0 \<in> snd ` set ys then None else Some (x, c + of_nat (length ys)))"
proof (induction ys arbitrary: c)
  case Nil
  then show ?case by (subst check_list_loop.simps) simp
next
  case (Cons y ys)
  obtain z w where y: "y = (z, w)" by (cases y)
  have l: "linked h (ys @ [(x, v)]) end_of_list" using Cons.prems by (simp add: y)
  then have "start (ys @ [(x, v)]) end_of_list \<noteq> end_of_list" by (simp only: start_end) simp
  then show ?case using Cons.prems Cons.IH [OF l, of "c + 1"]
    by (subst check_list_loop.simps) (auto simp: y add.assoc add.commute)
qed

lemma rep_check_list:
  assumes r: "rep h a ns"
  shows "check_list a h = Some (ns \<noteq> [] \<and> 0 \<notin> snd ` set (butlast ns))"
proof (cases ns rule: rev_cases)
  case Nil
  then show ?thesis
    using r by (subst check_list_def, subst check_list_loop.simps) (simp add: rep_def seg_def end_node_def)
next
  case (snoc ys n)
  obtain x v where n: "n = (x, v)" by (cases n)
  show ?thesis
    using r check_list_loop_result [of h ys x v 0]
    by (auto simp: check_list_def rep_header [OF r] snoc n rep_def seg_def)
qed

section \<open>Programs on one list\<close>

text \<open>Allocation succeeds as long as the heap is finite.\<close>

definition memory_available :: "allocator \<Rightarrow> bool" where
  "memory_available new \<longleftrightarrow> (\<forall>h. finite (dom (nodes h)) \<longrightarrow> new h \<noteq> 0 \<and> nodes h (new h) = None)"

lemma finite_addrs [simp]: "finite (addrs ns)"
  unfolding addrs_def by (rule finite_imageI) (rule finite_set)

lemma finite_touches: "touches N L h h' \<Longrightarrow> finite N \<Longrightarrow> finite (dom (nodes h)) \<Longrightarrow> finite (dom (nodes h'))"
  by (rule finite_subset [of _ "dom (nodes h) \<union> N"]) (auto simp: touches_def dom_def)


lemma finite_touches_insert: "finite (dom (nodes h)) \<Longrightarrow> touches (insert f (addrs ns)) L h h' \<Longrightarrow> finite (dom (nodes h'))"
  by (erule finite_touches) simp_all


datatype list_cmd = LPush_back ptr | LPush_front ptr | LPop | LHead | LElem uint | LAdd_unique ptr | LEmpty

fun list_spec :: "(ptr \<Rightarrow> ptr \<Rightarrow> bool) \<Rightarrow> list_cmd \<Rightarrow> ptr list \<Rightarrow> (ptr \<times> ptr list) option" where
  "list_spec eq (LPush_back v) vs = Some (0, vs @ [v])"
| "list_spec eq (LPush_front v) vs = Some (0, v # vs)"
| "list_spec eq LPop vs = Some (case vs of [] \<Rightarrow> (0, []) | w # ws \<Rightarrow> (w, ws))"
| "list_spec eq LHead vs = Some (case vs of [] \<Rightarrow> 0 | w # _ \<Rightarrow> w, vs)"
| "list_spec eq (LElem n) vs = Some (if unat n < length vs then vs ! unat n else 0, vs)"
| "list_spec eq (LAdd_unique v) vs = Some (if list_ex (\<lambda>w. eq w v) vs then (1, vs) else (0, vs @ [v]))"
| "list_spec eq LEmpty vs = Some (0, [])"

definition with_flag :: "(bool \<times> heap) option \<Rightarrow> (ptr \<times> heap) option" where
  "with_flag r = map_option (\<lambda>(b, h). (of_bool b, h)) r"

fun list_step :: "allocator \<Rightarrow> (ptr \<Rightarrow> ptr \<Rightarrow> bool) \<Rightarrow> ptr \<Rightarrow> list_cmd \<Rightarrow> heap \<Rightarrow> (ptr \<times> heap) option" where
  "list_step new eq a (LPush_back v) h = with_flag (push_back new a v h)"
| "list_step new eq a (LPush_front v) h = with_flag (push_front new a v h)"
| "list_step new eq a LPop h = pop a h"
| "list_step new eq a LHead h = map_option (\<lambda>v. (v, h)) (head a h)"
| "list_step new eq a (LElem n) h = map_option (\<lambda>v. (v, h)) (elem a n h)"
| "list_step new eq a (LAdd_unique v) h = with_flag (add_unique new a v eq h)"
| "list_step new eq a LEmpty h = map_option (\<lambda>h. (0, h)) (empty a h)"

definition list_rel :: "ptr \<Rightarrow> nat \<Rightarrow> heap \<Rightarrow> ptr list \<Rightarrow> bool" where
  "list_rel a k h vs \<longleftrightarrow>
     finite (dom (nodes h)) \<and> length vs + k < 2 ^ 32 \<and> (\<exists>ns. rep h a ns \<and> map snd ns = vs)"

lemma list_relI:
  "rep h a ns \<Longrightarrow> finite (dom (nodes h)) \<Longrightarrow> length ns + k < 2 ^ 32 \<Longrightarrow> list_rel a k h (map snd ns)"
  by (auto simp: list_rel_def)

lemma push_back_rel:
  assumes "memory_available new" and r: "rep h a ns" and b: "finite (dom (nodes h))" "length ns + Suc k < 2 ^ 32"
  shows "\<exists>h'. push_back new a v h = Some (False, h') \<and> list_rel a k h' (map snd ns @ [v])"
proof -
  have f: "new h \<noteq> 0" "nodes h (new h) = None" using assms(1) b by (auto simp: memory_available_def)
  have "length ns + 1 < 2 ^ 32" using b(2) by simp
  from rep_push_back [where new = new and v = v, OF r refl f this] obtain h' where h': "push_back new a v h = Some (False, h')"
    "rep h' a (ns @ [(new h, v)])" "touches (insert (new h) (addrs ns)) {a} h h'" by blast
  then show ?thesis using list_relI [OF h'(2) finite_touches_insert [OF b(1) h'(3)], of k] b by auto
qed

lemma list_refines:
  assumes m: "memory_available new" and r0: "list_rel a (Suc k) h vs" and s: "list_spec eq c vs = Some (x, vs')"
  shows "\<exists>h'. list_step new eq a c h = Some (x, h') \<and> list_rel a k h' vs'"
proof -
  obtain ns where r: "rep h a ns" and vs: "vs = map snd ns" and b: "finite (dom (nodes h))" "length ns + Suc k < 2 ^ 32"
    using r0 by (auto simp: list_rel_def)
  have f: "new h \<noteq> 0" "nodes h (new h) = None" using m b by (auto simp: memory_available_def)
  have same: "list_rel a k h vs" using list_relI [OF r b(1)] b(2) vs by auto
  show ?thesis
  proof (cases c)
    case (LPush_back v)
    then show ?thesis using push_back_rel [OF m r b, of v] s vs by (auto simp: with_flag_def)
  next
    case (LPush_front v)
    have "length ns + 1 < 2 ^ 32" using b(2) by simp
    from rep_push_front [where new = new and v = v, OF r refl f this] obtain h' where h': "push_front new a v h = Some (False, h')"
      "rep h' a ((new h, v) # ns)" "touches {new h} {a} h h'" by blast
    have "finite (dom (nodes h'))" using finite_touches [OF h'(3) _ b(1)] by simp
    then show ?thesis using LPush_front s vs b h'(1) list_relI [OF h'(2), of k] by (auto simp: with_flag_def)
  next
    case LPop
    show ?thesis
    proof (cases ns)
      case Nil
      then show ?thesis using LPop s vs same rep_pop_empty r by auto
    next
      case (Cons n ms)
      obtain p v where n: "n = (p, v)" by (cases n)
      obtain h' where "pop a h = Some (v, h')" "rep h' a ms" "touches {} {a} h h'"
        using rep_pop r Cons n by blast
      moreover from this(3) have "finite (dom (nodes h'))" using finite_touches b(1) by blast
      ultimately show ?thesis using LPop s vs Cons n b list_relI [of h' a ms k] by auto
    qed
  next
    case LHead
    then show ?thesis using s vs same rep_head [OF r] by (auto split: list.splits)
  next
    case (LElem n)
    then show ?thesis using s vs same rep_elem [OF r, of n] by auto
  next
    case (LAdd_unique v)
    show ?thesis
    proof (cases "\<exists>n \<in> set ns. eq (snd n) v")
      case True
      then have "add_unique new a v eq h = Some (True, h)" using rep_add_unique_present [OF r] by blast
      then show ?thesis using True LAdd_unique s vs same by (auto simp: with_flag_def list_ex_iff)
    next
      case False
      then have "add_unique new a v eq h = push_back new a v h" using rep_add_unique_absent [OF r] by blast
      then show ?thesis using False LAdd_unique s vs push_back_rel [OF m r b, of v]
        by (auto simp: with_flag_def list_ex_iff)
    qed
  next
    case LEmpty
    obtain h' where "empty a h = Some h'" "rep h' a []" "touches {} {a} h h'" using rep_empty [OF r] by blast
    moreover from this(3) have "finite (dom (nodes h'))" using finite_touches b(1) by blast
    ultimately show ?thesis using LEmpty s b list_relI [of h' a "[]" k] by auto
  qed
qed

interpretation base_list: simulation "\<lambda>k h vs. memory_available new \<and> list_rel a k h vs"
  "list_step new eq a" "list_spec eq" for new eq a
  by unfold_locales (use list_refines in blast)

section \<open>Properties\<close>

definition bump :: allocator where "bump h = Suc (Max (insert end_of_list (dom (nodes h))))"

lemma bump_available: "memory_available bump"
proof -
  have "Suc (Max (insert end_of_list (dom (nodes h)))) \<notin> dom (nodes h)" if "finite (dom (nodes h))" for h :: heap
  proof
    assume "Suc (Max (insert end_of_list (dom (nodes h)))) \<in> dom (nodes h)"
    with that have "Suc (Max (insert end_of_list (dom (nodes h)))) \<le> Max (insert end_of_list (dom (nodes h)))"
      by (intro Max_ge) simp_all
    then show False by simp
  qed
  then show ?thesis by (fastforce simp: memory_available_def bump_def)
qed

definition example_heap :: heap where
  "example_heap = \<lparr>nodes = [1 \<mapsto> end_node], lists = [50 \<mapsto> header 50 [], 60 \<mapsto> header 60 []]\<rparr>"

lemma example_rep: "rep example_heap 50 []" "rep example_heap 60 []" "finite (dom (nodes example_heap))"
  by (simp_all add: rep_def seg_def example_heap_def end_of_list_def)

text \<open>
  C2. Any program of \<open>push_back\<close>, \<open>push_front\<close>, \<open>pop\<close>, \<open>head\<close>, \<open>elem\<close>, \<open>add_unique\<close> and \<open>empty\<close> on a
  \<open>base_list\<close> runs without touching a dead pointer, returns what the same program returns on a list of
  values, and leaves a well-formed list that holds these values; the pointer to the last node and the
  element count are right after every step. Memory has to be available and the count must not wrap.
\<close>

theorem list_program:
  assumes "memory_available new" and "rep h a ns" and "finite (dom (nodes h))"
    and "length ns + length cs < 2 ^ 32"
    and "run_cmds (list_spec eq) cs (map snd ns) = Some (xs, vs)"
  shows "\<exists>h' ns'. run_cmds (list_step new eq a) cs h = Some (xs, h') \<and> rep h' a ns' \<and> map snd ns' = vs"
proof -
  have "memory_available new \<and> list_rel a (length cs + 0) h (map snd ns)"
    using list_relI [OF assms(2,3), of "length cs"] assms(1,4) by simp
  from base_list.run_refines [OF this assms(5)] show ?thesis by (auto simp: list_rel_def)
qed

lemma list_program_witness:
  "\<exists>h' ns'. run_cmds (list_step bump (=) 50) [LPush_back 7, LPush_front 8, LAdd_unique 7, LPop, LElem 0, LPop, LPop]
     example_heap = Some ([0, 0, 1, 8, 7, 7, 0], h') \<and> rep h' 50 ns' \<and> map snd ns' = []"
  by (rule list_program [OF bump_available example_rep(1,3)]) simp_all

text \<open>
  Splicing: \<open>append\<close> makes the list the concatenation and leaves the appended list usable as its tail;
  \<open>disjoin\<close> undoes it; \<open>prepend\<close> puts the other list in front; \<open>swap\<close> exchanges two lists, also when one
  or both are empty and their \<open>last\<close> pointers point into the list objects themselves.
\<close>

theorem splicing:
  assumes "rep h a ns" and "rep h b ms" and "a \<noteq> b" and "addrs ns \<inter> addrs ms = {}"
    and "length ns + length ms < 2 ^ 32"
  shows "(\<exists>h1 h2. append_list a b h = Some h1 \<and> rep h1 a (ns @ ms) \<and> rep h1 b ms
            \<and> disjoin a b h1 = Some h2 \<and> rep h2 a ns \<and> rep h2 b ms)
    \<and> (\<exists>h1. prepend a b h = Some h1 \<and> rep h1 a (ms @ ns))
    \<and> (\<exists>h1. swap_lists a b h = Some h1 \<and> rep h1 a ms \<and> rep h1 b ns)"
  using rep_append_list [OF assms] rep_disjoin [OF _ _ assms(3)] rep_prepend [OF assms]
    rep_swap_lists [OF assms(1-3)] by meson

lemma splicing_witness:
  "\<exists>h1. swap_lists 50 60 example_heap = Some h1 \<and> rep h1 50 [] \<and> rep h1 60 []"
  using splicing [OF example_rep(1,2)] by simp

lemma elem_loop_null:
  "linked h ys q \<Longrightarrow> q \<noteq> end_of_list \<Longrightarrow> nodes h q = None \<Longrightarrow> i + length ys \<le> unat n \<Longrightarrow>
   elem_loop h n (of_nat i) (start ys q) d = None"
proof (induction ys arbitrary: i d)
  case Nil
  then have "(of_nat i :: uint) \<le> n"
    using unat_less_2p [of n] by (simp add: word_le_nat_alt unat_of_nat_small)
  with Nil show ?case by (subst elem_loop.simps) simp
next
  case (Cons y ys)
  obtain x v where y: "y = (x, v)" by (cases y)
  have "(of_nat i :: uint) \<le> n"
    using Cons.prems(4) unat_less_2p [of n] by (simp add: word_le_nat_alt unat_of_nat_small)
  moreover have "elem_loop h n (of_nat (Suc i)) (start ys q) v = None"
    using Cons.IH [of "Suc i" v] Cons.prems by (simp add: y)
  ultimately show ?case using Cons.prems by (subst elem_loop.simps) (simp add: y add.commute)
qed

text \<open>
  A \<open>push_back\<close> whose allocation fails reports it but has already stored the null pointer over the end
  mark: the element count is unchanged and every later walk to the end of the list dereferences null. A
  \<open>push_front\<close> whose allocation fails leaves the list as it was.
\<close>

theorem failed_push_back:
  assumes r: "rep h a ns" and "new h = 0" and "nodes h 0 = None"
  shows "(\<exists>h' l. push_back new a v h = Some (True, h') \<and> lists h' a = Some l
            \<and> bl_elements l = of_nat (length ns) \<and> elem a (of_nat (length ns)) h' = None)
    \<and> push_front new a v h = Some (True, h)"
proof -
  have s: "seg h a (header a ns) ns end_of_list" and n: "length ns < 2 ^ 32" using r by (auto simp: rep_def)
  from write_prefix [OF s, of 0] obtain h' where h': "write_slot (prefix_slot a ns) 0 h = Some h'"
    and s': "seg h' a ((header a ns)\<lparr>bl_first := start ns 0\<rparr>) ns 0" and t: "touches (addrs ns) {a} h h'" by blast
  have "nodes h' 0 = None" using t rep_addr [OF r] assms(3) by (auto simp: touches_def)
  then have "elem_loop h' (of_nat (length ns)) (of_nat 0) (start ns 0) 0 = None"
    using s' n by (intro elem_loop_null) (auto simp: seg_def end_of_list_def unat_of_nat_small)
  then show ?thesis
    using h' s' assms by (auto simp: push_back_def push_front_def push_front_impl_def new_node_def rep_header
        elem_def seg_def)
qed

lemma failed_push_back_witness:
  "\<exists>h' l. push_back (\<lambda>_. 0) 50 7 example_heap = Some (True, h') \<and> lists h' 50 = Some l
     \<and> bl_elements l = 0 \<and> elem 50 0 h' = None"
  using failed_push_back [OF example_rep(1), of "\<lambda>_. 0" 7] by (simp add: example_heap_def end_of_list_def)

end
