(* ===== verification/Sql_List_Iter.thy ===== *)
theory Sql_List_Iter
  imports Sql_List
begin

text \<open>
  The iterators of \<open>sql_list.h\<close> refine a cursor over a list of values: any program of their operations
  returns the values the cursor returns and leaves the list the cursor leaves.
\<close>

section \<open>Iteration\<close>

lemma rep_iter_next:
  assumes r: "rep h a (xs @ (p, v) # ys)" and e: "it_el it = prefix_slot a xs"
  shows "iter_next it h = Some (v, it\<lparr>it_prev := prefix_slot a xs, it_current := p, it_el := Next p\<rparr>)"
  using read_prefix [OF rep_seg [OF r]] r by (auto simp: iter_next_def e rep_def seg_def)

lemma rep_iter_end:
  assumes r: "rep h a ns" and e: "it_el it = prefix_slot a ns"
  shows "iter_next it h = Some (0, it\<lparr>it_prev := prefix_slot a ns, it_current := end_of_list,
      it_el := Next end_of_list\<rparr>)"
  using read_prefix [of h a _ ns end_of_list] r by (auto simp: iter_next_def e rep_def seg_def end_node_def)

lemma rep_iter_ended:
  assumes r: "rep h a ns" and e: "it_el it = Next end_of_list"
  shows "iter_next it h = Some (0, it\<lparr>it_prev := Next end_of_list, it_current := end_of_list\<rparr>)"
  using rep_end [OF r] by (simp add: iter_next_def e end_node_def)

lemma rep_set_info:
  assumes r: "rep h a (xs @ (p, v) # ys)"
  shows "\<exists>h'. upd_node p (nd_info_update (\<lambda>_. w)) h = Some h' \<and> rep h' a (xs @ (p, w) # ys)
           \<and> touches {p} {} h h'"
proof -
  let ?h = "h\<lparr>nodes := (nodes h)(p \<mapsto> \<lparr>nd_next = start ys end_of_list, nd_info = w\<rparr>)\<rparr>"
  have n: "linked h xs p" "linked h ys end_of_list" "nodes h p = Some \<lparr>nd_next = start ys end_of_list, nd_info = v\<rparr>"
    "p \<notin> addrs xs" "p \<notin> addrs ys" "p \<noteq> end_of_list" "p \<noteq> 0"
    using r by (auto simp: rep_def seg_def)
  then have "linked ?h xs p" "linked ?h ys end_of_list" by (auto elim!: linked_frame)
  moreover have "header a (xs @ (p, w) # ys) = header a (xs @ (p, v) # ys)"
    by (cases "ys = []") (simp_all add: header_def)
  ultimately have "rep ?h a (xs @ (p, w) # ys)"
    using r n by (auto simp: rep_def seg_def)
  then show ?thesis using n by (auto simp: upd_node_def touches_def)
qed

text \<open>
  The specification of an iterator: the values before the cursor, those after it, and what the cursor
  knows: nothing, the element before it as the current one, also how to remove it, or the end mark.
\<close>

datatype cursor = Plain | Current | Removable | Ended

datatype iter_cmd = INext | IPeek | IRemove | IAfter ptr | IReplace ptr | IRewind

fun zip_step :: "iter_cmd \<Rightarrow> ptr list \<times> ptr list \<times> cursor \<Rightarrow> (ptr \<times> ptr list \<times> ptr list \<times> cursor) option" where
  "zip_step INext (us, [], m) = Some (0, us, [], Ended)"
| "zip_step INext (us, w # ws, m) = Some (w, us @ [w], ws, Removable)"
| "zip_step IPeek (us, ws, m) = Some (case ws of [] \<Rightarrow> 0 | w # _ \<Rightarrow> w, us, ws, m)"
| "zip_step IRemove (us, ws, m) = (if m = Removable then Some (0, butlast us, ws, Plain) else None)"
| "zip_step (IAfter v) (us, ws, m) =
     (if m = Removable \<or> m = Current then Some (0, us @ [v], ws, Current) else None)"
| "zip_step (IReplace v) (us, ws, m) =
     (if m = Removable \<or> m = Current then Some (last us, butlast us @ [v], ws, m) else None)"
| "zip_step IRewind (us, ws, m) = Some (0, [], us @ ws, Plain)"

fun iter_step :: "allocator \<Rightarrow> iter_cmd \<Rightarrow> list_iter \<times> heap \<Rightarrow> (ptr \<times> list_iter \<times> heap) option" where
  "iter_step new INext (it, h) = do { (v, it) \<leftarrow> iter_next it h; Some (v, it, h) }"
| "iter_step new IPeek (it, h) = do { v \<leftarrow> peek it h; Some (v, it, h) }"
| "iter_step new IRemove (it, h) = do { (it, h) \<leftarrow> iter_remove it h; Some (0, it, h) }"
| "iter_step new (IAfter v) (it, h) = do { (it, h) \<leftarrow> iter_after new v it h; Some (0, it, h) }"
| "iter_step new (IReplace v) (it, h) = do { (v, h) \<leftarrow> replace v it h; Some (v, it, h) }"
| "iter_step new IRewind (it, h) = Some (0, rewind it, h)"

definition cursor_at :: "ptr \<Rightarrow> (ptr \<times> ptr) list \<Rightarrow> (ptr \<times> ptr) list \<Rightarrow> cursor \<Rightarrow> list_iter \<Rightarrow> bool" where
  "cursor_at a xs ys m it \<longleftrightarrow> it_list it = a
     \<and> (if m = Ended then ys = [] \<and> it_el it = Next end_of_list else it_el it = prefix_slot a xs)
     \<and> (m = Current \<or> m = Removable \<longrightarrow> xs \<noteq> [] \<and> it_current it = fst (last xs))
     \<and> (m = Removable \<longrightarrow> it_prev it = prefix_slot a (butlast xs))"

definition iter_rel :: "ptr \<Rightarrow> nat \<Rightarrow> list_iter \<times> heap \<Rightarrow> ptr list \<times> ptr list \<times> cursor \<Rightarrow> bool" where
  "iter_rel a k s z \<longleftrightarrow> (case (s, z) of ((it, h), (us, ws, m)) \<Rightarrow>
     finite (dom (nodes h)) \<and> length us + length ws + k < 2 ^ 32 \<and>
     (\<exists>xs ys. rep h a (xs @ ys) \<and> cursor_at a xs ys m it \<and> map snd xs = us \<and> map snd ys = ws))"

lemma iter_relI:
  "rep h a (xs @ ys) \<Longrightarrow> cursor_at a xs ys m it \<Longrightarrow> finite (dom (nodes h)) \<Longrightarrow>
   length xs + length ys + k < 2 ^ 32 \<Longrightarrow> iter_rel a k (it, h) (map snd xs, map snd ys, m)"
  unfolding iter_rel_def by auto

lemma removable_split: "cursor_at a xs ys m it \<Longrightarrow> m = Current \<or> m = Removable \<Longrightarrow>
    \<exists>us p v. xs = us @ [(p, v)] \<and> it_list it = a \<and> it_current it = p \<and> it_el it = Next p
      \<and> (m = Removable \<longrightarrow> it_prev it = prefix_slot a us)"
  by (cases xs rule: rev_cases) (auto simp: cursor_at_def)

lemma iter_next_rel:
  assumes "iter_rel a (Suc k) (it, h) (us, ws, m)" "zip_step INext (us, ws, m) = Some (x, z')"
  shows "\<exists>s'. iter_step new INext (it, h) = Some (x, s') \<and> iter_rel a k s' z'"
proof -
  obtain xs ys where r: "rep h a (xs @ ys)" and c: "cursor_at a xs ys m it"
    and v: "us = map snd xs" "ws = map snd ys" and b: "finite (dom (nodes h))" "length us + length ws + Suc k < 2 ^ 32"
    using assms(1) by (auto simp: iter_rel_def)
  show ?thesis
  proof (cases ys)
    case Nil
    obtain it' where "iter_next it h = Some (0, it')" "cursor_at a xs [] Ended it'"
    proof (cases "m = Ended")
      case True
      then show ?thesis using that rep_iter_ended [OF r, of it] c by (auto simp: cursor_at_def)
    next
      case False
      then show ?thesis using that rep_iter_end [of h a xs it] r c Nil by (auto simp: cursor_at_def)
    qed
    then show ?thesis using assms(2) r v b Nil iter_relI [of h a xs "[]" Ended it' k] by auto
  next
    case (Cons y zs)
    obtain p w where y: "y = (p, w)" by (cases y)
    have e: "it_el it = prefix_slot a xs" using c Cons by (auto simp: cursor_at_def split: if_splits)
    have r': "rep h a (xs @ (p, w) # zs)" using r by (simp add: Cons y)
    let ?it = "it\<lparr>it_prev := prefix_slot a xs, it_current := p, it_el := Next p\<rparr>"
    have "cursor_at a (xs @ [(p, w)]) zs Removable ?it" using c by (simp add: cursor_at_def)
    then show ?thesis using assms(2) v b r' rep_iter_next [OF r' e]
        iter_relI [of h a "xs @ [(p, w)]" zs Removable ?it k]
      by (auto simp: Cons y)
  qed
qed

lemma iter_cursor_rel:
  assumes "memory_available new" "iter_rel a (Suc k) (it, h) (us, ws, m)" "m = Removable \<or> m = Current"
    "zip_step c (us, ws, m) = Some (x, z')" "c = IRemove \<or> c = IAfter v \<or> c = IReplace v"
  shows "\<exists>s'. iter_step new c (it, h) = Some (x, s') \<and> iter_rel a k s' z'"
proof -
  obtain ns ys where r0: "rep h a (ns @ ys)" and c: "cursor_at a ns ys m it"
    and vs: "us = map snd ns" "ws = map snd ys" and b: "finite (dom (nodes h))" "length us + length ws + Suc k < 2 ^ 32"
    using assms(2) by (auto simp: iter_rel_def)
  obtain xs p w where ns: "ns = xs @ [(p, w)]" "it_list it = a" "it_current it = p" "it_el it = Next p"
    "m = Removable \<Longrightarrow> it_prev it = prefix_slot a xs"
    using removable_split [OF c] assms(3) by blast
  have r: "rep h a (xs @ (p, w) # ys)" using r0 by (simp add: ns)
  consider "c = IRemove" "m = Removable" | "c = IAfter v" | "c = IReplace v"
    using assms(4,5) by (auto split: if_splits)
  then show ?thesis
  proof cases
    case 1
    obtain h' where h': "remove a (prefix_slot a xs) h = Some h'" "rep h' a (xs @ ys)"
      "touches (insert p (addrs xs)) {a} h h'"
      using rep_remove [OF r] by blast
    have "cursor_at a xs ys Plain (it\<lparr>it_el := it_prev it, it_current := 0\<rparr>)"
      using ns 1 by (simp add: cursor_at_def)
    from iter_relI [OF h'(2) this finite_touches_insert [OF b(1) h'(3)], of k] show ?thesis
      using 1 assms(4) ns vs b h'(1) by (auto simp: iter_remove_def)
  next
    case 2
    define f where "f = new h"
    have f: "new h = f" "f \<noteq> 0" "nodes h f = None"
      using assms(1) b(1) by (auto simp: memory_available_def f_def)
    have len: "length (xs @ (p, w) # ys) + 1 < 2 ^ 32" using b(2) vs ns by simp
    obtain h' where h': "after new a v p h = Some h'" "rep h' a (xs @ (p, w) # (f, v) # ys)"
      "touches (insert f (addrs ((p, w) # xs))) {a} h h'"
      using rep_after [where new = new and h = h and f = f and xs = xs and ys = ys and v = w and w = v, OF r f len] by auto
    have "nodes h' p = Some \<lparr>nd_next = f, nd_info = w\<rparr>" using h'(2) by (simp add: rep_def seg_def)
    moreover have "cursor_at a (xs @ [(p, w), (f, v)]) ys Current (it\<lparr>it_current := f, it_el := Next f\<rparr>)"
      using ns by (simp add: cursor_at_def prefix_slot_def)
    moreover have "rep h' a ((xs @ [(p, w), (f, v)]) @ ys)" using h'(2) by simp
    ultimately show ?thesis
      using 2 assms(3,4) ns vs b h'(1) iter_relI [of h' a "xs @ [(p, w), (f, v)]" ys Current _ k]
        finite_touches_insert [OF b(1) h'(3)]
      by (auto simp: iter_after_def)
  next
    case 3
    obtain h' where h': "upd_node p (nd_info_update (\<lambda>_. v)) h = Some h'" "rep h' a (xs @ (p, v) # ys)"
      "touches {p} {} h h'"
      using rep_set_info [OF r] by blast
    have "nodes h p \<noteq> None" "\<exists>n. nodes h p = Some n \<and> nd_info n = w" using r by (auto simp: rep_def seg_def)
    moreover have "finite (dom (nodes h'))" using h'(3) b(1) by (auto elim!: finite_touches)
    moreover have "cursor_at a (xs @ [(p, v)]) ys m it" using ns c by (auto simp: cursor_at_def)
    ultimately show ?thesis
      using 3 assms(3,4) ns vs b h' iter_relI [of h' a "xs @ [(p, v)]" ys m it k]
      by (auto simp: replace_def)
  qed
qed

lemma iter_refines:
  assumes m: "memory_available new" and r: "iter_rel a (Suc k) s z" and z: "zip_step c z = Some (x, z')"
  shows "\<exists>s'. iter_step new c s = Some (x, s') \<and> iter_rel a k s' z'"
proof -
  obtain it h us ws md where s: "s = (it, h)" "z = (us, ws, md)" by (cases s; cases z) auto
  show ?thesis
  proof (cases c)
    case INext
    then show ?thesis using iter_next_rel r z s by blast
  next
    case IPeek
    obtain xs ys where "rep h a (xs @ ys)" "cursor_at a xs ys md it" "us = map snd xs" "ws = map snd ys"
      using r s by (auto simp: iter_rel_def)
    then have "peek it h = Some (case ws of [] \<Rightarrow> 0 | w # _ \<Rightarrow> w)"
      using read_prefix [OF rep_seg, of h a xs ys] rep_end [of h a "xs @ ys"]
      by (cases ys) (auto simp: peek_def cursor_at_def rep_def seg_def end_node_def split: if_splits)
    then show ?thesis using IPeek r z s by (auto simp: iter_rel_def)
  next
    case IRewind
    obtain xs ys where "rep h a ([] @ xs @ ys)" "it_list it = a" "us = map snd xs" "ws = map snd ys"
      "finite (dom (nodes h))" "length us + length ws + Suc k < 2 ^ 32"
      using r s by (auto simp: iter_rel_def cursor_at_def)
    then show ?thesis using IRewind z s iter_relI [of h a "[]" "xs @ ys" Plain "rewind it" k]
      by (auto simp: rewind_def cursor_at_def)
  next
    case IRemove
    then have "md = Removable" using z s by (simp split: if_splits)
    then show ?thesis using iter_cursor_rel [OF m r [unfolded s] _ z [unfolded s], of 0] IRemove s by simp
  next
    case (IAfter v)
    then have "md = Removable \<or> md = Current" using z s by (simp split: if_splits)
    then show ?thesis using iter_cursor_rel [OF m r [unfolded s] _ z [unfolded s], of v] IAfter s by simp
  next
    case (IReplace v)
    then have "md = Removable \<or> md = Current" using z s by (simp split: if_splits)
    then show ?thesis using iter_cursor_rel [OF m r [unfolded s] _ z [unfolded s], of v] IReplace s by simp
  qed
qed

interpretation list_iterator: simulation "\<lambda>k s z. memory_available new \<and> iter_rel a k s z"
  "iter_step new" zip_step for new a
  by unfold_locales (use iter_refines in blast)

section \<open>Removing after inserting\<close>

text \<open>
  \<open>after\<close> moves the current element to the inserted one but leaves the slot \<open>remove\<close> works on: a removal
  right after an insertion takes away the element before the inserted one, not the current element.
\<close>

lemma remove_after_insert:
  assumes m: "memory_available new" and r: "rep h a ((p, v) # ys)" and b: "finite (dom (nodes h))"
    "length ys + 2 < 2 ^ 32"
  shows "\<exists>it' h' f. run_cmds (iter_step new) [INext, IAfter w, IRemove] (init a, h) = Some ([v, 0, 0], it', h')
           \<and> rep h' a ((f, w) # ys)"
proof -
  define f where "f = new h"
  have f: "new h = f" "f \<noteq> 0" "nodes h f = None" using m b by (auto simp: memory_available_def f_def)
  have r0: "rep h a ([] @ (p, v) # ys)" and len: "length ([] @ (p, v) # ys) + 1 < 2 ^ 32" using r b by simp_all
  obtain h1 where h1: "after new a w p h = Some h1" "rep h1 a ([] @ (p, v) # (f, w) # ys)"
    using rep_after [where new = new and f = f and w = w, OF r0 f len] by blast
  obtain h2 where h2: "remove a (prefix_slot a []) h1 = Some h2" "rep h2 a ([] @ (f, w) # ys)"
    using rep_remove [OF h1(2)] by blast
  have "nodes h1 p = Some \<lparr>nd_next = f, nd_info = v\<rparr>" using h1(2) by (simp add: rep_def seg_def)
  then show ?thesis
    using h1(1) h2 rep_iter_next [OF r0, of "init a"]
    by (auto simp: init_def iter_after_def iter_remove_def)
qed

section \<open>Properties\<close>

text \<open>
  C15. Any program of iterator calls, next, peek, remove, insert after, replace and rewind, that the cursor
  over the values accepts (remove only right after next; insert and replace only with a current element)
  runs without touching a dead pointer, returns what the cursor returns, and leaves a well-formed list
  with the values of the cursor. Removing the last element or inserting after it keeps the list's pointer
  to its last node right.
\<close>

theorem iterator_program:
  assumes "memory_available new" and "rep h a ns" and "finite (dom (nodes h))"
    and "length ns + length cs < 2 ^ 32"
    and "run_cmds zip_step cs ([], map snd ns, Plain) = Some (xs, us, ws, m)"
  shows "\<exists>it' h' ns'. run_cmds (iter_step new) cs (init a, h) = Some (xs, it', h')
    \<and> rep h' a ns' \<and> map snd ns' = us @ ws"
proof -
  have "memory_available new \<and> iter_rel a (length cs + 0) (init a, h) ([], map snd ns, Plain)"
    using iter_relI [of h a "[]" ns Plain "init a" "length cs"] assms(1-4)
    by (simp add: cursor_at_def init_def)
  from list_iterator.run_refines [OF this assms(5)] obtain s'
    where "run_cmds (iter_step new) cs (init a, h) = Some (xs, s')" "iter_rel a 0 s' (us, ws, m)" by blast
  then show ?thesis by (cases s') (fastforce simp: iter_rel_def)
qed

definition two_nodes :: heap where
  "two_nodes = \<lparr>nodes = [1 \<mapsto> end_node, 10 \<mapsto> \<lparr>nd_next = 20, nd_info = 7\<rparr>,
     20 \<mapsto> \<lparr>nd_next = 1, nd_info = 8\<rparr>], lists = [50 \<mapsto> header 50 [(10, 7), (20, 8)]]\<rparr>"

lemma two_nodes_rep: "rep two_nodes 50 [(10, 7), (20, 8)]" "finite (dom (nodes two_nodes))"
  by (simp_all add: rep_def seg_def two_nodes_def end_of_list_def)

lemma iterator_program_witness:
  "\<exists>it' h' ns'. run_cmds (iter_step bump) [INext, INext, IRemove, INext, IRewind, INext, IAfter 9, INext, IRewind, INext]
       (init 50, two_nodes) = Some ([7, 8, 0, 0, 0, 7, 0, 0, 0, 7], it', h')
     \<and> rep h' 50 ns' \<and> map snd ns' = [7] @ [9]"
  by (rule iterator_program [OF bump_available two_nodes_rep, where m = Removable]) simp_all

end
