(* ===== verification/Sql_List_Sort.thy ===== *)
theory Sql_List_Sort
  imports Sql_List_Iter "HOL-Library.Multiset"
begin

text \<open>
  \<open>bubble_sort\<close> of \<open>sql_list.h\<close> returns for every comparison function, with a permutation of the values
  in the same nodes; for a comparison that is a total preorder the result is sorted and equal values
  keep their order. The loops over the heap are shown to compute \<open>bubble_values\<close>, a pure function on the
  values, whose recursion is over the part of the list that is not yet known to be in place.
\<close>

section \<open>The sort on values\<close>

fun bubble :: "(ptr \<Rightarrow> ptr \<Rightarrow> bool) \<Rightarrow> ptr \<Rightarrow> ptr list \<Rightarrow> ptr list \<times> bool" where
  "bubble gt x [] = ([x], False)"
| "bubble gt x (y # ys) =
     (if gt x y then (case bubble gt x ys of (zs, b) \<Rightarrow> (y # zs, True))
      else (case bubble gt y ys of (zs, b) \<Rightarrow> (x # zs, b)))"

lemma length_bubble [simp]: "length (fst (bubble gt x ys)) = Suc (length ys)"
  by (induction gt x ys rule: bubble.induct) (auto split: prod.splits)

lemma bubble_not_Nil [simp]: "fst (bubble gt x ys) \<noteq> []"
  using length_bubble [of gt x ys] by (metis length_0_conv nat.distinct(1))

lemma bubble_swapped: "snd (bubble gt x ys) \<Longrightarrow> ys \<noteq> []"
  by (cases ys) auto

lemma mset_bubble: "mset (fst (bubble gt x ys)) = add_mset x (mset ys)"
  by (induction gt x ys rule: bubble.induct) (auto split: prod.splits)

lemma set_bubble: "set (fst (bubble gt x ys)) = insert x (set ys)"
  using mset_bubble [of gt x ys] by (metis set_mset_add_mset_insert set_mset_mset)

text \<open>\<open>bubble_values gt n xs rest\<close>: sort the prefix \<open>xs\<close>, the values \<open>rest\<close> being in place.\<close>

function bubble_values :: "(ptr \<Rightarrow> ptr \<Rightarrow> bool) \<Rightarrow> ptr list \<Rightarrow> ptr list \<Rightarrow> ptr list" where
  "bubble_values gt [] rest = rest"
| "bubble_values gt (x # xs) rest =
     (case bubble gt x xs of (zs, b) \<Rightarrow>
        if b then bubble_values gt (butlast zs) (last zs # rest) else zs @ rest)"
  by pat_completeness auto

termination
  by (relation "measure (\<lambda>(gt, xs, rest). length xs)") (auto dest: arg_cong [of _ _ "\<lambda>r. length (fst r)"])

lemma mset_bubble_values: "mset (bubble_values gt xs rest) = mset xs + mset rest"
proof (induction gt xs rest rule: bubble_values.induct)
  case (2 gt x xs rest)
  obtain zs b where z: "bubble gt x xs = (zs, b)" by (cases "bubble gt x xs")
  have "zs \<noteq> []" "mset zs = add_mset x (mset xs)"
    using bubble_not_Nil [of gt x xs] mset_bubble [of gt x xs] by (simp_all add: z)
  moreover from this(1) have "mset (butlast zs) + {#last zs#} = mset zs"
    by (metis append_butlast_last_id mset.simps(1,2) union_code mset_append)
  ultimately show ?case using 2 z by (auto simp: ac_simps)
qed simp

text \<open>Values a predicate singles out keep their order when no two of them compare as greater.\<close>

lemma filter_bubble:
  "(\<And>x y. P x \<Longrightarrow> P y \<Longrightarrow> \<not> gt x y) \<Longrightarrow> filter P (fst (bubble gt x ys)) = filter P (x # ys)"
  by (induction gt x ys rule: bubble.induct) (auto split: prod.splits)

lemma filter_bubble_values:
  "(\<And>x y. P x \<Longrightarrow> P y \<Longrightarrow> \<not> gt x y) \<Longrightarrow> filter P (bubble_values gt xs rest) = filter P (xs @ rest)"
proof (induction gt xs rest rule: bubble_values.induct)
  case (2 gt x xs rest)
  obtain zs b where z: "bubble gt x xs = (zs, b)" by (cases "bubble gt x xs")
  have "zs \<noteq> []" "filter P zs = filter P (x # xs)"
    using bubble_not_Nil [of gt x xs] filter_bubble [of P gt x xs] 2(2) by (simp_all add: z)
  moreover from this(1) have "filter P (butlast zs) @ filter P [last zs] = filter P zs"
    by (metis append_butlast_last_id filter_append)
  ultimately show ?case using 2(1) [OF z [symmetric] _ 2(2)] z
    by (cases b) (auto simp flip: append_assoc split: if_splits)
qed simp

text \<open>The order of a comparison that is a total preorder.\<close>

definition preorder_cmp :: "(ptr \<Rightarrow> ptr \<Rightarrow> bool) \<Rightarrow> bool" where
  "preorder_cmp gt \<longleftrightarrow> (\<forall>x y. gt x y \<longrightarrow> \<not> gt y x) \<and> (\<forall>x y z. gt x z \<longrightarrow> gt x y \<or> gt y z)"

lemma preorder_trans: "preorder_cmp gt \<Longrightarrow> \<not> gt x y \<Longrightarrow> \<not> gt y z \<Longrightarrow> \<not> gt x z"
  unfolding preorder_cmp_def by blast

abbreviation sorted_by :: "(ptr \<Rightarrow> ptr \<Rightarrow> bool) \<Rightarrow> ptr list \<Rightarrow> bool" where
  "sorted_by gt \<equiv> sorted_wrt (\<lambda>x y. \<not> gt x y)"

lemma bubble_unswapped:
  "preorder_cmp gt \<Longrightarrow> \<not> snd (bubble gt x ys) \<Longrightarrow> fst (bubble gt x ys) = x # ys \<and> sorted_by gt (x # ys)"
proof (induction ys arbitrary: x)
  case (Cons y ys)
  have n: "\<not> gt x y" "\<not> snd (bubble gt y ys)"
    using Cons.prems(2) by (auto split: if_splits prod.splits)
  with Cons.IH [OF Cons.prems(1) n(2)] show ?case
    using preorder_trans [OF Cons.prems(1) n(1)] by (auto split: prod.splits)
qed simp

lemma bubble_last_max: "preorder_cmp gt \<Longrightarrow> z \<in> set (fst (bubble gt x ys)) \<Longrightarrow> \<not> gt z (last (fst (bubble gt x ys)))"
proof (induction ys arbitrary: x z)
  case Nil
  then show ?case by (auto simp: preorder_cmp_def)
next
  case (Cons y ys)
  let ?m = "if gt x y then x else y" and ?o = "if gt x y then y else x"
  have b: "fst (bubble gt x (y # ys)) = ?o # fst (bubble gt ?m ys)" by (auto split: prod.splits)
  have m: "\<not> gt w (last (fst (bubble gt ?m ys)))" if "w \<in> set (fst (bubble gt ?m ys))" for w
    using Cons.IH [OF Cons.prems(1) that] .
  have "\<not> gt ?m (last (fst (bubble gt ?m ys)))" by (rule m) (simp add: set_bubble)
  moreover have "\<not> gt ?o ?m" using Cons.prems(1) by (auto simp: preorder_cmp_def)
  ultimately have "\<not> gt ?o (last (fst (bubble gt ?m ys)))" using Cons.prems(1) unfolding preorder_cmp_def by blast
  with m Cons.prems(2) show ?case unfolding b by auto
qed

lemma sorted_bubble_values:
  "preorder_cmp gt \<Longrightarrow> sorted_by gt rest \<Longrightarrow> \<forall>x \<in> set xs. \<forall>y \<in> set rest. \<not> gt x y \<Longrightarrow>
   sorted_by gt (bubble_values gt xs rest)"
proof (induction gt xs rest rule: bubble_values.induct)
  case (2 gt x xs rest)
  obtain zs b where z: "bubble gt x xs = (zs, b)" by (cases "bubble gt x xs")
  have zs: "zs \<noteq> []" "set zs = insert x (set xs)"
    using bubble_not_Nil [of gt x xs] set_bubble [of gt x xs] by (simp_all add: z)
  show ?case
  proof (cases b)
    case False
    then have "zs = x # xs" "sorted_by gt (x # xs)" using bubble_unswapped [OF 2(2), of x xs] z by auto
    with False z 2 show ?thesis by (auto simp: sorted_wrt_append)
  next
    case True
    have last: "\<not> gt w (last zs)" if "w \<in> set zs" for w
      using bubble_last_max [OF 2(2), of w x xs] that by (simp add: z)
    have "last zs \<in> set zs" using zs(1) by (rule last_in_set)
    then have "sorted_by gt (last zs # rest)" using 2(3,4) zs by auto
    moreover have "\<forall>v \<in> set (butlast zs). \<forall>y \<in> set (last zs # rest). \<not> gt v y"
      using last zs 2(4) by (auto dest!: in_set_butlastD)
    ultimately show ?thesis using 2(1) [OF z [symmetric] True 2(2)] True z by simp
  qed
qed simp

section \<open>The sort on the heap\<close>

definition gt_of :: "cmp_func \<Rightarrow> ptr \<Rightarrow> ptr \<Rightarrow> bool" where "gt_of f x y \<longleftrightarrow> 0 <s f x y"

lemma bubble_pass_end:
  assumes r: "rep h a (pre @ (r1, x) # rest)" and i: "it_list it = a" "it_el it = Next r1"
    and l: "rest = [] \<or> lastref = fst (hd rest)"
  shows "\<exists>it'. bubble_pass f lastref r1 x it sw h = Some (r1, it', sw, h) \<and> it_list it' = a"
proof (cases rest)
  case Nil
  then have "rep h a (pre @ [(r1, x)])" using r by simp
  from rep_iter_end [OF this, of it] i Nil show ?thesis by (subst bubble_pass.simps) simp
next
  case (Cons n ns)
  obtain q w where n: "n = (q, w)" by (cases n)
  have "rep h a ((pre @ [(r1, x)]) @ (q, w) # ns)" using r by (simp add: Cons n)
  from rep_iter_next [OF this, of it] i l Cons n show ?thesis by (subst bubble_pass.simps) (simp add: ref_def)
qed

lemma bubble_pass_values:
  "rep h a (pre @ (r1, x) # mid @ rest) \<Longrightarrow> it_list it = a \<Longrightarrow> it_el it = Next r1 \<Longrightarrow> 0 \<notin> snd ` set mid \<Longrightarrow>
   lastref \<notin> addrs mid \<Longrightarrow> rest = [] \<or> lastref = fst (hd rest) \<Longrightarrow>
   \<exists>it' h' ns. bubble_pass f lastref r1 x it sw h
       = Some (fst (last ns), it', sw \<or> snd (bubble (gt_of f) x (map snd mid)), h')
     \<and> rep h' a (pre @ ns @ rest) \<and> map fst ns = r1 # map fst mid
     \<and> map snd ns = fst (bubble (gt_of f) x (map snd mid)) \<and> it_list it' = a"
proof (induction mid arbitrary: pre r1 x it sw h)
  case Nil
  then show ?case using bubble_pass_end [of h a pre r1 x rest it lastref f sw]
    by (auto intro!: exI [of _ "[(r1, x)]"])
next
  case (Cons n mid)
  obtain r2 y where n: "n = (r2, y)" by (cases n)
  have r: "rep h a ((pre @ [(r1, x)]) @ (r2, y) # mid @ rest)" using Cons.prems(1) by (simp add: n)
  let ?it = "it\<lparr>it_prev := prefix_slot a (pre @ [(r1, x)]), it_current := r2, it_el := Next r2\<rparr>"
  have nx: "iter_next it h = Some (y, ?it)" using rep_iter_next [OF r, of it] Cons.prems(3) by simp
  have prems: "it_list ?it = a" "it_el ?it = Next r2" "0 \<notin> snd ` set mid" "lastref \<notin> addrs mid"
    using Cons.prems by (auto simp: n)
  have c: "y \<noteq> 0" "r2 \<noteq> lastref" using Cons.prems(4,5) by (auto simp: n)
  show ?case
  proof (cases "gt_of f x y")
    case True
    obtain h1 where h1: "upd_node r1 (nd_info_update (\<lambda>_. y)) h = Some h1"
      "rep h1 a (pre @ (r1, y) # (r2, y) # mid @ rest)"
      using rep_set_info [OF Cons.prems(1), of y] by (auto simp: n)
    then have "rep h1 a ((pre @ [(r1, y)]) @ (r2, y) # mid @ rest)" by simp
    from rep_set_info [OF this, of x] obtain h2 where h2: "upd_node r2 (nd_info_update (\<lambda>_. x)) h1 = Some h2"
      "rep h2 a ((pre @ [(r1, y)]) @ (r2, x) # mid @ rest)" by blast
    have "bubble_pass f lastref r1 x it sw h = bubble_pass f lastref r2 x ?it True h2"
      using nx c h1(1) h2(1) True by (subst bubble_pass.simps) (simp add: ref_def gt_of_def)
    moreover from Cons.IH [where sw = True, OF h2(2) prems Cons.prems(6)] obtain it' h' ns
      where "bubble_pass f lastref r2 x ?it True h2
        = Some (fst (last ns), it', True \<or> snd (bubble (gt_of f) x (map snd mid)), h')" "rep h' a ((pre @ [(r1, y)]) @ ns @ rest)"
      "map fst ns = r2 # map fst mid" "map snd ns = fst (bubble (gt_of f) x (map snd mid))" "it_list it' = a"
      by (elim exE conjE)
    ultimately show ?thesis using True n
      by (intro exI [of _ it'] exI [of _ h'] exI [of _ "(r1, y) # ns"]) (auto split: prod.splits)
  next
    case False
    have "bubble_pass f lastref r1 x it sw h = bubble_pass f lastref r2 y ?it sw h"
      using nx c False by (subst bubble_pass.simps) (simp add: ref_def gt_of_def)
    moreover from Cons.IH [where sw = sw, OF r prems Cons.prems(6)] obtain it' h' ns where "bubble_pass f lastref r2 y ?it sw h
        = Some (fst (last ns), it', sw \<or> snd (bubble (gt_of f) y (map snd mid)), h')"
      "rep h' a ((pre @ [(r1, x)]) @ ns @ rest)"
      "map fst ns = r2 # map fst mid" "map snd ns = fst (bubble (gt_of f) y (map snd mid))" "it_list it' = a"
      by (elim exE conjE)
    ultimately show ?thesis using False n
      by (intro exI [of _ it'] exI [of _ h'] exI [of _ "(r1, x) # ns"]) (auto split: prod.splits)
  qed
qed

lemma bubble_loop_empty:
  assumes r: "rep h a []" and i: "it_list it = a" "it_el it = First a"
  shows "bubble_loop f lastref it h = Some h"
proof -
  have "iter_next it h = Some (0, it\<lparr>it_prev := First a, it_current := end_of_list, it_el := Next end_of_list\<rparr>)"
    using rep_iter_end [OF r, of it] i by simp
  then show ?thesis
    using rep_iter_ended [OF r]
    by (subst bubble_loop.simps) (simp add: bubble_pass.simps)
qed

lemma bubble_loop_values:
  "rep h a (xs @ rest) \<Longrightarrow> it_list it = a \<Longrightarrow> it_el it = First a \<Longrightarrow> 0 \<notin> snd ` set xs \<Longrightarrow> lastref \<notin> addrs xs \<Longrightarrow>
   xs \<noteq> [] \<Longrightarrow> rest = [] \<or> lastref = fst (hd rest) \<Longrightarrow>
   \<exists>h' ns. bubble_loop f lastref it h = Some h' \<and> rep h' a ns \<and> map fst ns = map fst (xs @ rest)
     \<and> map snd ns = bubble_values (gt_of f) (map snd xs) (map snd rest)"
proof (induction xs arbitrary: rest it h lastref rule: measure_induct_rule [of length])
  case (less xs)
  then obtain r1 x mid where xs: "xs = (r1, x) # mid" by (cases xs) auto
  let ?it = "it\<lparr>it_prev := First a, it_current := r1, it_el := Next r1\<rparr>"
  have r: "rep h a ([] @ (r1, x) # mid @ rest)" using less.prems(1) by (simp add: xs)
  have nx: "iter_next it h = Some (x, ?it)" using rep_iter_next [OF r, of it] less.prems by simp
  define sw where "sw \<longleftrightarrow> snd (bubble (gt_of f) x (map snd mid))"
  have prems: "it_list ?it = a" "it_el ?it = Next r1" "0 \<notin> snd ` set mid" "lastref \<notin> addrs mid"
    using less.prems by (auto simp: xs)
  from bubble_pass_values [where f = f and sw = False, OF r prems less.prems(7)] obtain it' h' ns where
    p: "bubble_pass f lastref r1 x ?it False h = Some (fst (last ns), it', False \<or> sw, h')"
    and r': "rep h' a ([] @ ns @ rest)" and ns0: "map fst ns = r1 # map fst mid"
    and ns1: "map snd ns = fst (bubble (gt_of f) x (map snd mid))" and i: "it_list it' = a"
    unfolding sw_def by (elim exE conjE)
  have ns: "map fst ns = map fst xs" "map snd ns = fst (bubble (gt_of f) x (map snd mid))"
    using ns0 ns1 by (simp_all add: xs)
  have len: "length ns = length xs" using ns(1) by (metis length_map)
  have loop: "bubble_loop f lastref it h = (if sw then bubble_loop f (fst (last ns)) (rewind it') h' else Some h')"
    using nx p by (subst bubble_loop.simps) (simp add: ref_def)
  have vals: "bubble_values (gt_of f) (map snd xs) (map snd rest) =
      (if sw then bubble_values (gt_of f) (butlast (map snd ns)) (last (map snd ns) # map snd rest)
       else map snd ns @ map snd rest)"
    by (simp add: xs ns(2) sw_def split: prod.splits)
  show ?case
  proof (cases sw)
    case False
    then show ?thesis using loop vals r' ns(1) by (intro exI [of _ h'] exI [of _ "ns @ rest"]) simp
  next
    case True
    then have "mid \<noteq> []" using bubble_swapped by (fastforce simp: sw_def)
    then have ne: "ns \<noteq> []" "butlast ns \<noteq> []" using len by (auto simp: xs butlast_conv_take take_eq_Nil)
    then have sp: "ns = butlast ns @ [last ns]" by simp
    have "rep h' a (butlast ns @ last ns # rest)" using r' sp by (metis append.assoc append_Cons append_Nil)
    moreover have "0 \<notin> snd ` set (butlast ns)"
    proof -
      have "snd ` set ns = set (fst (bubble (gt_of f) x (map snd mid)))" by (metis ns(2) set_map)
      then have "snd ` set ns = snd ` set xs" by (simp add: set_bubble xs)
      then show ?thesis using less.prems(4) in_set_butlastD by (metis (no_types, lifting) imageE image_eqI)
    qed
    moreover have "fst (last ns) \<notin> addrs (butlast ns)"
    proof -
      have "distinct (map fst ns)" using r' by (simp add: rep_def seg_def)
      then show ?thesis by (subst (asm) sp) simp
    qed
    moreover have "length (butlast ns) < length xs" using len by (simp add: xs)
    moreover have "it_list (rewind it') = a" "it_el (rewind it') = First a" using i by (simp_all add: rewind_def)
    moreover have "last ns # rest = [] \<or> fst (last ns) = fst (hd (last ns # rest))" by simp
    ultimately have "\<exists>h'' ms. bubble_loop f (fst (last ns)) (rewind it') h' = Some h'' \<and> rep h'' a ms
        \<and> map fst ms = map fst (butlast ns @ last ns # rest)
        \<and> map snd ms = bubble_values (gt_of f) (map snd (butlast ns)) (map snd (last ns # rest))"
      using ne(2) by (intro less.IH)
    then obtain h'' ms where q: "bubble_loop f (fst (last ns)) (rewind it') h' = Some h''" "rep h'' a ms"
      "map fst ms = map fst (butlast ns @ last ns # rest)"
      "map snd ms = bubble_values (gt_of f) (map snd (butlast ns)) (map snd (last ns # rest))" by (elim exE conjE)
    have "map fst (butlast ns @ last ns # rest) = map fst (xs @ rest)"
      using ns(1) sp by (metis append.assoc append_Cons append_Nil map_append)
    moreover have "map snd ms = bubble_values (gt_of f) (map snd xs) (map snd rest)"
      using True vals q(4) ne(1) by (simp add: map_butlast last_map)
    ultimately show ?thesis using True loop q(1-3) by (intro exI [of _ h''] exI [of _ ms]) (simp only: if_True simp_thms)
  qed
qed

lemma bubble_sort_values:
  assumes r: "rep h a ns" and z: "0 \<notin> snd ` set ns"
  shows "\<exists>h' ms. bubble_sort a f h = Some h' \<and> rep h' a ms \<and> map fst ms = map fst ns
    \<and> map snd ms = bubble_values (gt_of f) (map snd ns) []"
proof (cases "ns = []")
  case True
  then show ?thesis
    using bubble_loop_empty [of h a "init a" f 0] r by (auto simp: bubble_sort_def init_def)
next
  case False
  have "rep h a (ns @ [])" "0 \<notin> addrs ns" using r rep_addr [OF r] by simp_all
  from bubble_loop_values [OF this(1), of "init a" 0 f] z this(2) False show ?thesis
    by (simp add: bubble_sort_def init_def)
qed

definition same_order :: "(ptr \<Rightarrow> ptr \<Rightarrow> bool) \<Rightarrow> ptr list \<Rightarrow> ptr list \<Rightarrow> bool" where
  "same_order gt vs ws \<longleftrightarrow>
     (\<forall>k. filter (\<lambda>v. \<not> gt k v \<and> \<not> gt v k) vs = filter (\<lambda>v. \<not> gt k v \<and> \<not> gt v k) ws)"

section \<open>Properties\<close>

text \<open>
  C16. On a list of non-null values \<open>bubble_sort\<close> returns whatever the comparison function answers, keeps the
  nodes and permutes the values. When the function is the comparison of a total preorder, the result is
  sorted and the sort is stable: the values equal to any given one keep their order.
\<close>

theorem bubble_sort_sorts:
  assumes "rep h a ns" and "0 \<notin> snd ` set ns"
  shows "\<exists>h' ms. bubble_sort a f h = Some h' \<and> rep h' a ms \<and> map fst ms = map fst ns
    \<and> mset (map snd ms) = mset (map snd ns)
    \<and> (preorder_cmp (gt_of f) \<longrightarrow> sorted_by (gt_of f) (map snd ms)
         \<and> same_order (gt_of f) (map snd ms) (map snd ns))"
proof -
  obtain h' ms where s: "bubble_sort a f h = Some h'" "rep h' a ms" "map fst ms = map fst ns"
    "map snd ms = bubble_values (gt_of f) (map snd ns) []"
    using bubble_sort_values [OF assms] by blast
  have m: "mset (map snd ms) = mset (map snd ns)" unfolding s(4) mset_bubble_values by simp
  have srt: "sorted_by (gt_of f) (map snd ms)" if "preorder_cmp (gt_of f)"
    unfolding s(4) by (rule sorted_bubble_values [OF that]) simp_all
  have flt: "same_order (gt_of f) (map snd ms) (map snd ns)" if "preorder_cmp (gt_of f)"
    unfolding same_order_def
  proof
    fix k
    have "filter (\<lambda>v. \<not> gt_of f k v \<and> \<not> gt_of f v k) (bubble_values (gt_of f) (map snd ns) [])
        = filter (\<lambda>v. \<not> gt_of f k v \<and> \<not> gt_of f v k) (map snd ns @ [])"
      by (rule filter_bubble_values) (elim conjE, rule preorder_trans [OF that])
    then show "filter (\<lambda>v. \<not> gt_of f k v \<and> \<not> gt_of f v k) (map snd ms)
        = filter (\<lambda>v. \<not> gt_of f k v \<and> \<not> gt_of f v k) (map snd ns)" unfolding s(4) by simp
  qed
  show ?thesis using s(1-3) m srt flt by blast
qed

definition cmp_ptr :: cmp_func where "cmp_ptr x y = (if y < x then 1 else 0)"

lemma cmp_ptr_preorder: "preorder_cmp (gt_of cmp_ptr)"
  by (auto simp: preorder_cmp_def gt_of_def cmp_ptr_def word_sless_alt)

lemma bubble_sort_sorts_witness:
  "\<exists>h' ms. bubble_sort 50 cmp_ptr two_nodes = Some h' \<and> rep h' 50 ms \<and> map fst ms = [10, 20]
     \<and> sorted_by (gt_of cmp_ptr) (map snd ms)"
proof -
  have "0 \<notin> snd ` set [(10 :: ptr, 7 :: ptr), (20, 8)]" by simp
  from bubble_sort_sorts [OF two_nodes_rep(1) this, of cmp_ptr] cmp_ptr_preorder show ?thesis
    by (simp only: list.map fst_conv) metis
qed

end
