(* ===== verification/Sql_Ilink.thy ===== *)
theory Sql_Ilink
  imports Simulation "HOL-Library.Monad_Syntax"
begin

text \<open>
  The intrusive lists of \<open>sql_list.h\<close>: \<open>ilink\<close>, an object that can be a member of one doubly linked list
  and takes itself out, and \<open>base_ilist\<close>, whose end mark is an \<open>ilink\<close> inside the list object. The
  field \<open>prev\<close> points to the pointer that points to the object: the \<open>next\<close> field of its predecessor or
  the \<open>first\<close> field of the list.
\<close>

section \<open>Objects and lists\<close>

datatype link_ptr = Null_link | Obj nat | Sentinel nat

datatype link_slot = No_link_slot | First_of nat | Next_of link_ptr

record ilink =
  l_prev :: link_slot
  l_next :: link_ptr

record ilink_heap =
  links :: "link_ptr \<Rightarrow> ilink option"
  firsts :: "nat \<Rightarrow> link_ptr option"

definition upd_link :: "link_ptr \<Rightarrow> (ilink \<Rightarrow> ilink) \<Rightarrow> ilink_heap \<Rightarrow> ilink_heap option" where
  "upd_link p f h = map_option (\<lambda>x. h\<lparr>links := (links h)(p \<mapsto> f x)\<rparr>) (links h p)"

fun store_link :: "link_slot \<Rightarrow> link_ptr \<Rightarrow> ilink_heap \<Rightarrow> ilink_heap option" where
  "store_link No_link_slot p h = None"
| "store_link (First_of a) p h = map_option (\<lambda>_. h\<lparr>firsts := (firsts h)(a \<mapsto> p)\<rparr>) (firsts h a)"
| "store_link (Next_of q) p h = upd_link q (l_next_update (\<lambda>_. p)) h"

fun load_link :: "link_slot \<Rightarrow> ilink_heap \<Rightarrow> link_ptr option" where
  "load_link No_link_slot h = None"
| "load_link (First_of a) h = firsts h a"
| "load_link (Next_of q) h = map_option l_next (links h q)"

definition unlinked :: ilink where
  "unlinked = \<lparr>l_prev = No_link_slot, l_next = Null_link\<rparr>"

definition mk_ilink :: "nat \<Rightarrow> ilink_heap \<Rightarrow> ilink_heap" where
  "mk_ilink x h = h\<lparr>links := (links h)(Obj x \<mapsto> unlinked)\<rparr>"

definition unlink :: "link_ptr \<Rightarrow> ilink_heap \<Rightarrow> ilink_heap option" where
  "unlink this h = do {
     l \<leftarrow> links h this;
     h \<leftarrow> (if l_prev l \<noteq> No_link_slot then store_link (l_prev l) (l_next l) h else Some h);
     l \<leftarrow> links h this;
     h \<leftarrow> (if l_next l \<noteq> Null_link then upd_link (l_next l) (l_prev_update (\<lambda>_. l_prev l)) h else Some h);
     upd_link this (\<lambda>_. unlinked) h }"

definition assert_linked :: "link_ptr \<Rightarrow> ilink_heap \<Rightarrow> bool option" where
  "assert_linked this h = map_option (\<lambda>l. l_prev l \<noteq> No_link_slot \<and> l_next l \<noteq> Null_link) (links h this)"

definition assert_not_linked :: "link_ptr \<Rightarrow> ilink_heap \<Rightarrow> bool option" where
  "assert_not_linked this h = map_option (\<lambda>l. l_prev l = No_link_slot \<and> l_next l = Null_link) (links h this)"

text \<open>Deleting an object runs its destructor, which takes it out of its list first.\<close>

definition delete_ilink :: "link_ptr \<Rightarrow> ilink_heap \<Rightarrow> ilink_heap option" where
  "delete_ilink p h = do { h \<leftarrow> unlink p h; Some (h\<lparr>links := (links h)(p := None)\<rparr>) }"

definition il_empty :: "nat \<Rightarrow> ilink_heap \<Rightarrow> ilink_heap option" where
  "il_empty a h = do {
     h \<leftarrow> store_link (First_of a) (Sentinel a) h;
     upd_link (Sentinel a) (l_prev_update (\<lambda>_. First_of a)) h }"

text \<open>The constructor of a list first constructs the end mark inside it.\<close>

definition mk_ilist :: "nat \<Rightarrow> ilink_heap \<Rightarrow> ilink_heap option" where
  "mk_ilist a h = il_empty a (h\<lparr>links := (links h)(Sentinel a \<mapsto> unlinked), firsts := (firsts h)(a \<mapsto> Null_link)\<rparr>)"

definition il_is_empty :: "nat \<Rightarrow> ilink_heap \<Rightarrow> bool option" where
  "il_is_empty a h = map_option (\<lambda>p. p = Sentinel a) (firsts h a)"

definition il_is_last :: "nat \<Rightarrow> link_ptr \<Rightarrow> ilink_heap \<Rightarrow> bool option" where
  "il_is_last a p h = map_option (\<lambda>l. l_next l = Null_link \<or> l_next l = Sentinel a) (links h p)"

definition il_append :: "nat \<Rightarrow> link_ptr \<Rightarrow> ilink_heap \<Rightarrow> ilink_heap option" where
  "il_append this a h = do {
     f \<leftarrow> firsts h this;
     h \<leftarrow> upd_link f (l_prev_update (\<lambda>_. Next_of a)) h;
     h \<leftarrow> upd_link a (l_next_update (\<lambda>_. f)) h;
     h \<leftarrow> upd_link a (l_prev_update (\<lambda>_. First_of this)) h;
     store_link (First_of this) a h }"

definition il_push_back :: "nat \<Rightarrow> link_ptr \<Rightarrow> ilink_heap \<Rightarrow> ilink_heap option" where
  "il_push_back this a h = do {
     s \<leftarrow> links h (Sentinel this);
     h \<leftarrow> store_link (l_prev s) a h;
     h \<leftarrow> upd_link a (l_next_update (\<lambda>_. Sentinel this)) h;
     s \<leftarrow> links h (Sentinel this);
     h \<leftarrow> upd_link a (l_prev_update (\<lambda>_. l_prev s)) h;
     upd_link (Sentinel this) (l_prev_update (\<lambda>_. Next_of a)) h }"

definition il_get :: "nat \<Rightarrow> ilink_heap \<Rightarrow> (link_ptr \<times> ilink_heap) option" where
  "il_get this h = do {
     first_link \<leftarrow> firsts h this;
     if first_link = Sentinel this then Some (Null_link, h)
     else do { h \<leftarrow> unlink first_link h; Some (first_link, h) } }"

definition il_head :: "nat \<Rightarrow> ilink_heap \<Rightarrow> link_ptr option" where
  "il_head this h = map_option (\<lambda>f. if f \<noteq> Sentinel this then f else Null_link) (firsts h this)"

definition move_elements_to :: "nat \<Rightarrow> nat \<Rightarrow> ilink_heap \<Rightarrow> ilink_heap option" where
  "move_elements_to this new_owner h = do {
     f \<leftarrow> firsts h this;
     h \<leftarrow> store_link (First_of new_owner) f h;
     s \<leftarrow> links h (Sentinel this);
     h \<leftarrow> upd_link (Sentinel new_owner) (\<lambda>_. s) h;
     il_empty this h }"

record ilist_iter =
  ii_list :: nat
  ii_el :: link_slot
  ii_current :: link_ptr

definition mk_ilist_iter :: "nat \<Rightarrow> ilist_iter" where
  "mk_ilist_iter a = \<lparr>ii_list = a, ii_el = First_of a, ii_current = Null_link\<rparr>"

definition ii_next :: "ilist_iter \<Rightarrow> ilink_heap \<Rightarrow> (link_ptr \<times> ilist_iter) option" where
  "ii_next it h = do {
     current \<leftarrow> load_link (ii_el it) h;
     let it = it\<lparr>ii_current := current\<rparr>;
     if current = Sentinel (ii_list it) then Some (Null_link, it)
     else Some (current, it\<lparr>ii_el := Next_of current\<rparr>) }"

definition ii_unlink :: "ilist_iter \<Rightarrow> ilink_heap \<Rightarrow> (ilist_iter \<times> ilink_heap) option" where
  "ii_unlink it h = do {
     l \<leftarrow> links h (ii_current it);
     h \<leftarrow> unlink (ii_current it) h;
     Some (it\<lparr>ii_el := l_prev l\<rparr>, h) }"

definition ii_remove :: "ilist_iter \<Rightarrow> ilink_heap \<Rightarrow> (ilist_iter \<times> ilink_heap) option" where
  "ii_remove it h = do {
     (it, h) \<leftarrow> ii_unlink it h;
     h \<leftarrow> delete_ilink (ii_current it) h;
     Some (it\<lparr>ii_current := Null_link\<rparr>, h) }"

section \<open>Lists in the heap\<close>

definition hdp :: "link_ptr \<Rightarrow> nat list \<Rightarrow> link_ptr" where
  "hdp q ns = (case ns of [] \<Rightarrow> q | x # _ \<Rightarrow> Obj x)"

abbreviation nxt :: "nat \<Rightarrow> nat list \<Rightarrow> link_ptr" where "nxt a \<equiv> hdp (Sentinel a)"

fun dlinked :: "ilink_heap \<Rightarrow> nat \<Rightarrow> link_slot \<Rightarrow> nat list \<Rightarrow> bool" where
  "dlinked h a p [] \<longleftrightarrow> (\<exists>n. links h (Sentinel a) = Some \<lparr>l_prev = p, l_next = n\<rparr>)"
| "dlinked h a p (x # xs) \<longleftrightarrow>
     links h (Obj x) = Some \<lparr>l_prev = p, l_next = nxt a xs\<rparr> \<and> dlinked h a (Next_of (Obj x)) xs"

definition pslot :: "link_slot \<Rightarrow> nat list \<Rightarrow> link_slot" where
  "pslot p xs = (if xs = [] then p else Next_of (Obj (last xs)))"

definition ilist_rep :: "ilink_heap \<Rightarrow> nat \<Rightarrow> nat list \<Rightarrow> bool" where
  "ilist_rep h a ns \<longleftrightarrow> firsts h a = Some (nxt a ns) \<and> dlinked h a (First_of a) ns \<and> distinct ns"

lemma hdp_simps [simp]: "hdp q [] = q" "hdp q (x # xs) = Obj x" "hdp q (xs @ ys) = hdp (hdp q ys) xs"
  by (auto simp: hdp_def split: list.splits)

lemma pslot_simps [simp]: "pslot p [] = p" "pslot p (x # xs) = pslot (Next_of (Obj x)) xs"
  "pslot p (xs @ [x]) = Next_of (Obj x)"
  by (simp_all add: pslot_def)

lemma pslot_eq: "xs \<noteq> [] \<Longrightarrow> pslot p xs = Next_of (Obj (last xs))"
  by (simp add: pslot_def)

text \<open>The links of a list from the start to the element before \<open>q\<close>, and the part from there on.\<close>

fun dpath :: "ilink_heap \<Rightarrow> link_slot \<Rightarrow> nat list \<Rightarrow> link_ptr \<Rightarrow> bool" where
  "dpath h p [] q \<longleftrightarrow> True"
| "dpath h p (x # xs) q \<longleftrightarrow>
     links h (Obj x) = Some \<lparr>l_prev = p, l_next = hdp q xs\<rparr>
     \<and> dpath h (Next_of (Obj x)) xs q"

lemma dlinked_append: "dlinked h a p (xs @ ys) \<longleftrightarrow> dpath h p xs (nxt a ys) \<and> dlinked h a (pslot p xs) ys"
  by (induction xs arbitrary: p) auto

lemma dpath_frame: "dpath h p xs q \<Longrightarrow> \<forall>x \<in> set xs. links h' (Obj x) = links h (Obj x) \<Longrightarrow> dpath h' p xs q"
  by (induction xs arbitrary: p) auto

lemma dlinked_frame:
  "dlinked h a p ns \<Longrightarrow> links h' (Sentinel a) = links h (Sentinel a) \<Longrightarrow>
   \<forall>x \<in> set ns. links h' (Obj x) = links h (Obj x) \<Longrightarrow> dlinked h' a p ns"
  by (induction ns arbitrary: p) auto

lemma dpath_snoc:
  "dpath h p (xs @ [x]) q \<longleftrightarrow> dpath h p xs (Obj x) \<and> links h (Obj x) = Some \<lparr>l_prev = pslot p xs, l_next = q\<rparr>"
  by (induction xs arbitrary: p) auto

lemma dlinked_firsts [simp]: "dlinked (h\<lparr>firsts := f\<rparr>) a p ns = dlinked h a p ns"
  by (induction ns arbitrary: p) auto

lemma dpath_firsts [simp]: "dpath (h\<lparr>firsts := f\<rparr>) p ns q = dpath h p ns q"
  by (induction ns arbitrary: p) auto

definition dprefix :: "ilink_heap \<Rightarrow> nat \<Rightarrow> nat list \<Rightarrow> link_ptr \<Rightarrow> bool" where
  "dprefix h a xs q \<longleftrightarrow> firsts h a = Some (hdp q xs)
     \<and> dpath h (First_of a) xs q \<and> distinct xs"

lemma ilist_rep_split:
  "ilist_rep h a (xs @ ys) \<longleftrightarrow> dprefix h a xs (nxt a ys) \<and> dlinked h a (pslot (First_of a) xs) ys
     \<and> distinct ys \<and> set xs \<inter> set ys = {}"
  by (auto simp: ilist_rep_def dprefix_def dlinked_append)

lemma dprefix_whole: "ilist_rep h a ns \<longleftrightarrow> dprefix h a ns (Sentinel a)
    \<and> (\<exists>n. links h (Sentinel a) = Some \<lparr>l_prev = pslot (First_of a) ns, l_next = n\<rparr>)"
  using ilist_rep_split [of h a ns "[]"] by simp

lemma dprefix_frame:
  "dprefix h a xs q \<Longrightarrow> firsts h' a = firsts h a \<Longrightarrow> \<forall>x \<in> set xs. links h' (Obj x) = links h (Obj x) \<Longrightarrow>
   dprefix h' a xs q"
  by (auto simp: dprefix_def intro: dpath_frame)

text \<open>Redirecting the pointer after a prefix, and setting the back pointer of what follows.\<close>

lemma store_prefix:
  assumes "dprefix h a xs q"
  shows "\<exists>h'. store_link (pslot (First_of a) xs) q' h = Some h' \<and> dprefix h' a xs q'
           \<and> (\<forall>p. p \<notin> Obj ` set xs \<longrightarrow> links h' p = links h p) \<and> (\<forall>b. b \<noteq> a \<longrightarrow> firsts h' b = firsts h b)"
proof (cases xs rule: rev_cases)
  case Nil
  then show ?thesis using assms by (simp add: dprefix_def)
next
  case (snoc ys y)
  let ?h = "h\<lparr>links := (links h)(Obj y \<mapsto> \<lparr>l_prev = pslot (First_of a) ys, l_next = q'\<rparr>)\<rparr>"
  have s: "dpath h (First_of a) ys (Obj y)" "links h (Obj y) = Some \<lparr>l_prev = pslot (First_of a) ys, l_next = q\<rparr>"
    "y \<notin> set ys" "distinct ys" "firsts h a = Some (hdp (Obj y) ys)"
    using assms by (auto simp: dprefix_def snoc dpath_snoc)
  have "dpath ?h (First_of a) ys (Obj y)" using s(1) by (rule dpath_frame) (use s(3) in auto)
  then show ?thesis
    using s by (auto simp: snoc upd_link_def dprefix_def dpath_snoc)
qed

lemma set_prev:
  assumes "dlinked h a p ys" and "distinct ys"
  shows "\<exists>h'. upd_link (nxt a ys) (l_prev_update (\<lambda>_. p')) h = Some h' \<and> dlinked h' a p' ys
           \<and> firsts h' = firsts h \<and> (\<forall>q. q \<noteq> nxt a ys \<longrightarrow> links h' q = links h q)"
proof (cases ys)
  case Nil
  then show ?thesis using assms by (auto simp: upd_link_def)
next
  case (Cons y zs)
  let ?h = "h\<lparr>links := (links h)(Obj y \<mapsto> \<lparr>l_prev = p', l_next = nxt a zs\<rparr>)\<rparr>"
  have "dlinked ?h a (Next_of (Obj y)) zs"
    by (rule dlinked_frame [of h]) (use assms in \<open>auto simp: Cons\<close>)
  then show ?thesis using assms by (auto simp: Cons upd_link_def)
qed

text \<open>What a call leaves alone: every object outside \<open>N\<close> and every other list.\<close>

definition keeps :: "nat set \<Rightarrow> nat \<Rightarrow> ilink_heap \<Rightarrow> ilink_heap \<Rightarrow> bool" where
  "keeps N a h h' \<longleftrightarrow> (\<forall>x. x \<notin> N \<longrightarrow> links h' (Obj x) = links h (Obj x))
     \<and> (\<forall>b. b \<noteq> a \<longrightarrow> links h' (Sentinel b) = links h (Sentinel b) \<and> firsts h' b = firsts h b)"

lemma ilist_keeps: "ilist_rep h b ns \<Longrightarrow> keeps N a h h' \<Longrightarrow> b \<noteq> a \<Longrightarrow> set ns \<inter> N = {} \<Longrightarrow> ilist_rep h' b ns"
  unfolding ilist_rep_def keeps_def by (elim conjE, intro conjI, simp, rule dlinked_frame) auto

section \<open>Operations\<close>

lemma ilink_set [simp]: "y\<lparr>l_next := n, l_prev := p\<rparr> = \<lparr>l_prev = p, l_next = n\<rparr>"
  by (cases y) simp

lemma rep_mk_ilist: "\<exists>h'. mk_ilist a h = Some h' \<and> ilist_rep h' a [] \<and> keeps {} a h h'"
  by (simp add: mk_ilist_def il_empty_def upd_link_def ilist_rep_def keeps_def unlinked_def)

lemma rep_il_is_empty: "ilist_rep h a ns \<Longrightarrow> il_is_empty a h = Some (ns = [])"
  by (cases ns) (auto simp: il_is_empty_def ilist_rep_def)

lemma rep_il_head: "ilist_rep h a ns \<Longrightarrow> il_head a h = Some (case ns of [] \<Rightarrow> Null_link | x # _ \<Rightarrow> Obj x)"
  by (cases ns) (auto simp: il_head_def ilist_rep_def)

lemma rep_il_append:
  assumes r: "ilist_rep h a ns" and x: "x \<notin> set ns" "links h (Obj x) \<noteq> None"
  shows "\<exists>h'. il_append a (Obj x) h = Some h' \<and> ilist_rep h' a (x # ns) \<and> keeps (insert x (set ns)) a h h'"
proof -
  have f: "firsts h a = Some (nxt a ns)" and d: "dlinked h a (First_of a) ns" "distinct ns"
    using r by (auto simp: ilist_rep_def)
  obtain h1 where h1: "upd_link (nxt a ns) (l_prev_update (\<lambda>_. Next_of (Obj x))) h = Some h1"
    "dlinked h1 a (Next_of (Obj x)) ns" "firsts h1 = firsts h" "\<forall>q. q \<noteq> nxt a ns \<longrightarrow> links h1 q = links h q"
    using set_prev [OF d] by blast
  have nx: "Obj x \<noteq> nxt a ns" using x by (cases ns) auto
  let ?h = "h1\<lparr>links := (links h1)(Obj x \<mapsto> \<lparr>l_prev = First_of a, l_next = nxt a ns\<rparr>),
      firsts := (firsts h1)(a \<mapsto> Obj x)\<rparr>"
  have "il_append a (Obj x) h = Some ?h"
    using f h1 x nx by (auto simp: il_append_def upd_link_def)
  moreover have "dlinked ?h a (Next_of (Obj x)) ns"
    by (rule dlinked_frame [OF h1(2)]) (use x in auto)
  then have "ilist_rep ?h a (x # ns)" using x d by (simp add: ilist_rep_def)
  moreover have "keeps (insert x (set ns)) a h ?h"
    using h1(3,4) by (cases ns) (auto simp: keeps_def)
  ultimately show ?thesis by blast
qed

lemma rep_il_push_back:
  assumes r: "ilist_rep h a ns" and x: "x \<notin> set ns" "links h (Obj x) \<noteq> None"
  shows "\<exists>h'. il_push_back a (Obj x) h = Some h' \<and> ilist_rep h' a (ns @ [x]) \<and> keeps (insert x (set ns)) a h h'"
proof -
  obtain n where d: "dprefix h a ns (Sentinel a)"
    and s: "links h (Sentinel a) = Some \<lparr>l_prev = pslot (First_of a) ns, l_next = n\<rparr>"
    using r dprefix_whole by blast
  obtain h1 where h1: "store_link (pslot (First_of a) ns) (Obj x) h = Some h1" "dprefix h1 a ns (Obj x)"
    "\<forall>p. p \<notin> Obj ` set ns \<longrightarrow> links h1 p = links h p" "\<forall>b. b \<noteq> a \<longrightarrow> firsts h1 b = firsts h b"
    using store_prefix [OF d] by blast
  let ?h = "h1\<lparr>links := (links h1)(Obj x \<mapsto> \<lparr>l_prev = pslot (First_of a) ns, l_next = Sentinel a\<rparr>,
      Sentinel a \<mapsto> \<lparr>l_prev = Next_of (Obj x), l_next = n\<rparr>)\<rparr>"
  have l: "links h1 (Sentinel a) = Some \<lparr>l_prev = pslot (First_of a) ns, l_next = n\<rparr>" "links h1 (Obj x) \<noteq> None"
    using h1(3) [rule_format, of "Sentinel a"] h1(3) [rule_format, of "Obj x"] s x by (auto simp: image_iff)
  then have "il_push_back a (Obj x) h = Some ?h"
    using s h1(1) by (auto simp: il_push_back_def upd_link_def)
  moreover have "dprefix ?h a ns (Obj x)" using x by (intro dprefix_frame [OF h1(2)]) auto
  then have "ilist_rep ?h a (ns @ [x])" using x by (simp add: ilist_rep_split)
  moreover have "keeps (insert x (set ns)) a h ?h" using h1(3,4) by (auto simp: keeps_def)
  ultimately show ?thesis by blast
qed

lemma rep_unlink:
  assumes r: "ilist_rep h a (xs @ x # ys)"
  shows "\<exists>h'. unlink (Obj x) h = Some h' \<and> ilist_rep h' a (xs @ ys) \<and> links h' (Obj x) = Some unlinked
           \<and> keeps (set (xs @ x # ys)) a h h'"
proof -
  let ?p = "pslot (First_of a) xs"
  have d: "dprefix h a xs (Obj x)" "links h (Obj x) = Some \<lparr>l_prev = ?p, l_next = nxt a ys\<rparr>"
    "dlinked h a (Next_of (Obj x)) ys" "distinct ys" "x \<notin> set ys" "x \<notin> set xs" "set xs \<inter> set ys = {}"
    using r by (auto simp: ilist_rep_split)
  obtain h1 where h1: "store_link ?p (nxt a ys) h = Some h1" "dprefix h1 a xs (nxt a ys)"
    "\<forall>p. p \<notin> Obj ` set xs \<longrightarrow> links h1 p = links h p" "\<forall>b. b \<noteq> a \<longrightarrow> firsts h1 b = firsts h b"
    using store_prefix [OF d(1)] by blast
  have x1: "links h1 (Obj x) = Some \<lparr>l_prev = ?p, l_next = nxt a ys\<rparr>" using h1(3) d by auto
  have "dlinked h1 a (Next_of (Obj x)) ys"
    by (rule dlinked_frame [OF d(3)]) (use d(7) h1(3) in auto)
  from set_prev [OF this d(4), of ?p] obtain h2 where h2: "upd_link (nxt a ys) (l_prev_update (\<lambda>_. ?p)) h1 = Some h2"
    "dlinked h2 a ?p ys" "firsts h2 = firsts h1" "\<forall>q. q \<noteq> nxt a ys \<longrightarrow> links h2 q = links h1 q" by blast
  have nx: "nxt a ys \<noteq> Obj x" "nxt a ys \<notin> Obj ` set xs" "nxt a ys \<noteq> Null_link" "?p \<noteq> No_link_slot"
    using d by (cases ys; auto simp: pslot_def)+
  let ?h = "h2\<lparr>links := (links h2)(Obj x \<mapsto> unlinked)\<rparr>"
  have "links h2 (Obj x) \<noteq> None" using h2(4) x1 nx by auto
  then have "unlink (Obj x) h = Some ?h"
    using d(2) h1(1) x1 h2(1) nx by (auto simp: unlink_def upd_link_def [of "Obj x"])
  moreover have "dprefix h2 a xs (nxt a ys)"
    using h2(3) h2(4) [rule_format, of "Obj _"] nx by (intro dprefix_frame [OF h1(2)]) (auto, metis imageI)
  then have "dprefix ?h a xs (nxt a ys)" by (rule dprefix_frame) (use d in auto)
  moreover have "dlinked ?h a ?p ys" by (rule dlinked_frame [OF h2(2)]) (use d in auto)
  moreover have "keeps (set (xs @ x # ys)) a h ?h"
    using h1(3,4) h2(3,4) by (cases ys) (auto simp: keeps_def)
  ultimately show ?thesis using d by (auto simp: ilist_rep_split)
qed

lemma unlink_unlinked: "links h (Obj x) = Some unlinked \<Longrightarrow> unlink (Obj x) h = Some h"
  by (auto simp: unlink_def unlinked_def upd_link_def fun_upd_idem)

lemma rep_il_get_empty: "ilist_rep h a [] \<Longrightarrow> il_get a h = Some (Null_link, h)"
  by (simp add: il_get_def ilist_rep_def)

lemma rep_il_get:
  assumes r: "ilist_rep h a (x # ys)"
  shows "\<exists>h'. il_get a h = Some (Obj x, h') \<and> ilist_rep h' a ys \<and> links h' (Obj x) = Some unlinked
           \<and> keeps (set (x # ys)) a h h'"
  using rep_unlink [of h a "[]" x ys] r by (auto simp: il_get_def ilist_rep_def)

lemma rep_ii_next:
  assumes r: "ilist_rep h a (us @ ws)" and e: "ii_el it = pslot (First_of a) us" "ii_list it = a"
  shows "ii_next it h = Some (case ws of [] \<Rightarrow> (Null_link, it\<lparr>ii_current := Sentinel a\<rparr>)
           | w # _ \<Rightarrow> (Obj w, it\<lparr>ii_current := Obj w, ii_el := Next_of (Obj w)\<rparr>))"
proof -
  have "load_link (pslot (First_of a) us) h = Some (nxt a ws)"
    using r [unfolded ilist_rep_split] by (cases us rule: rev_cases) (auto simp: dprefix_def dpath_snoc)
  then show ?thesis using e by (cases ws) (simp_all add: ii_next_def)
qed

section \<open>Programs\<close>

text \<open>
  The specification of a list with an iterator on it: the elements the iterator has passed, those
  ahead of it, and whether the last passed one is its current element. \<open>X\<close> are the objects in play.
\<close>

datatype ilist_cmd = C_next | C_iter_unlink | C_push_back nat | C_append nat | C_get | C_head | C_unlink nat

fun ilist_spec :: "nat set \<Rightarrow> ilist_cmd \<Rightarrow> nat list \<times> nat list \<times> bool \<Rightarrow>
    (link_ptr \<times> nat list \<times> nat list \<times> bool) option" where
  "ilist_spec X C_next (us, ws, c) = Some (case ws of [] \<Rightarrow> (Null_link, us, [], False)
     | w # vs \<Rightarrow> (Obj w, us @ [w], vs, True))"
| "ilist_spec X C_iter_unlink (us, ws, c) = (if c then Some (Null_link, butlast us, ws, False) else None)"
| "ilist_spec X (C_push_back x) (us, ws, c) =
     (if x \<in> X \<and> x \<notin> set us \<and> x \<notin> set ws then Some (Null_link, us, ws @ [x], c) else None)"
| "ilist_spec X (C_append x) (us, ws, c) =
     (if x \<in> X \<and> x \<notin> set us \<and> x \<notin> set ws
      then Some (if us = [] then (Null_link, [], x # ws, c) else (Null_link, x # us, ws, c)) else None)"
| "ilist_spec X C_get (us, ws, c) =
     (case us of [] \<Rightarrow> Some (case ws of [] \<Rightarrow> (Null_link, [], [], c) | w # vs \<Rightarrow> (Obj w, [], vs, c))
      | [u] \<Rightarrow> None
      | u # v # ts \<Rightarrow> Some (Obj u, v # ts, ws, c))"
| "ilist_spec X C_head (us, ws, c) = Some (case us @ ws of [] \<Rightarrow> Null_link | x # _ \<Rightarrow> Obj x, us, ws, c)"
| "ilist_spec X (C_unlink x) (us, ws, c) =
     (if x \<in> X \<and> (us \<noteq> [] \<longrightarrow> x \<noteq> last us) then Some (Null_link, remove1 x us, remove1 x ws, c) else None)"

fun ilist_step :: "nat \<Rightarrow> ilist_cmd \<Rightarrow> ilist_iter \<times> ilink_heap \<Rightarrow> (link_ptr \<times> ilist_iter \<times> ilink_heap) option" where
  "ilist_step a C_next (it, h) = do { (p, it) \<leftarrow> ii_next it h; Some (p, it, h) }"
| "ilist_step a C_iter_unlink (it, h) = do { (it, h) \<leftarrow> ii_unlink it h; Some (Null_link, it, h) }"
| "ilist_step a (C_push_back x) (it, h) = do { h \<leftarrow> il_push_back a (Obj x) h; Some (Null_link, it, h) }"
| "ilist_step a (C_append x) (it, h) = do { h \<leftarrow> il_append a (Obj x) h; Some (Null_link, it, h) }"
| "ilist_step a C_get (it, h) = do { (p, h) \<leftarrow> il_get a h; Some (p, it, h) }"
| "ilist_step a C_head (it, h) = do { p \<leftarrow> il_head a h; Some (p, it, h) }"
| "ilist_step a (C_unlink x) (it, h) = do { h \<leftarrow> unlink (Obj x) h; Some (Null_link, it, h) }"

definition objects_ok :: "nat set \<Rightarrow> nat list \<Rightarrow> ilink_heap \<Rightarrow> bool" where
  "objects_ok X ns h \<longleftrightarrow> set ns \<subseteq> X \<and> (\<forall>x \<in> X. x \<notin> set ns \<longrightarrow> links h (Obj x) = Some unlinked)"

definition ilist_rel :: "nat set \<Rightarrow> nat \<Rightarrow> ilist_iter \<times> ilink_heap \<Rightarrow> nat list \<times> nat list \<times> bool \<Rightarrow> bool" where
  "ilist_rel X a s z \<longleftrightarrow> (case (s, z) of ((it, h), (us, ws, c)) \<Rightarrow>
     ilist_rep h a (us @ ws) \<and> objects_ok X (us @ ws) h \<and> ii_list it = a \<and> ii_el it = pslot (First_of a) us
     \<and> (c \<longrightarrow> us \<noteq> [] \<and> ii_current it = Obj (last us)))"

lemma objects_remove: "objects_ok X (xs @ x # ys) h \<Longrightarrow> keeps (set (xs @ x # ys)) a h h' \<Longrightarrow>
    links h' (Obj x) = Some unlinked \<Longrightarrow> objects_ok X (xs @ ys) h'"
  unfolding objects_ok_def keeps_def by (auto 0 3)

lemma objects_insert: "objects_ok X ns h \<Longrightarrow> keeps (insert x (set ns)) a h h' \<Longrightarrow> x \<in> X \<Longrightarrow>
    set ms = insert x (set ns) \<Longrightarrow> objects_ok X ms h'"
  by (auto simp: objects_ok_def keeps_def)

lemma objects_exist: "objects_ok X ns h \<Longrightarrow> x \<in> X \<Longrightarrow> x \<notin> set ns \<Longrightarrow> links h (Obj x) \<noteq> None"
  by (auto simp: objects_ok_def)

lemma unlink_from_list:
  assumes r: "ilist_rep h a (xs @ x # ys)" and o: "objects_ok X (xs @ x # ys) h"
  shows "\<exists>h'. unlink (Obj x) h = Some h' \<and> ilist_rep h' a (xs @ ys) \<and> objects_ok X (xs @ ys) h'"
  using rep_unlink [OF r] objects_remove [OF o] by blast

lemma pslot_nonempty: "us \<noteq> [] \<Longrightarrow> pslot p us = pslot q us"
  by (simp add: pslot_def)

lemma ilist_refines:
  assumes rel: "ilist_rel X a s z" and spec: "ilist_spec X c z = Some (p, z')"
  shows "\<exists>s'. ilist_step a c s = Some (p, s') \<and> ilist_rel X a s' z'"
proof -
  obtain it h us ws b where s: "s = (it, h)" "z = (us, ws, b)" by (cases s; cases z) auto
  have r: "ilist_rep h a (us @ ws)" and o: "objects_ok X (us @ ws) h" and i: "ii_list it = a"
    "ii_el it = pslot (First_of a) us" "b \<Longrightarrow> us \<noteq> [] \<and> ii_current it = Obj (last us)"
    using rel by (auto simp: ilist_rel_def s)
  have d: "distinct (us @ ws)" using r by (simp add: ilist_rep_def)
  show ?thesis
  proof (cases c)
    case C_next
    then show ?thesis using rep_ii_next [OF r i(2,1)] spec r o i
      by (cases ws) (auto simp: s ilist_rel_def)
  next
    case C_iter_unlink
    then have b: "b" "us \<noteq> []" "ii_current it = Obj (last us)" using spec i(3) by (auto simp: s split: if_splits)
    then have us: "us @ ws = butlast us @ last us # ws" by simp
    have "links h (Obj (last us)) = Some \<lparr>l_prev = pslot (First_of a) (butlast us), l_next = nxt a ws\<rparr>"
      using r unfolding us ilist_rep_split by simp
    then show ?thesis
      using unlink_from_list [OF r [unfolded us] o [unfolded us]] C_iter_unlink spec b i
      by (auto simp: s ii_unlink_def ilist_rel_def)
  next
    case (C_push_back x)
    then have x: "x \<in> X" "x \<notin> set (us @ ws)" using spec by (auto simp: s split: if_splits)
    obtain h' where "il_push_back a (Obj x) h = Some h'" "ilist_rep h' a ((us @ ws) @ [x])"
      "keeps (insert x (set (us @ ws))) a h h'"
      using rep_il_push_back [OF r x(2) objects_exist [OF o x]] by blast
    then show ?thesis using objects_insert [OF o _ x(1), of a h' "us @ ws @ [x]"] C_push_back spec i x
      by (auto simp: s ilist_rel_def)
  next
    case (C_append x)
    then have x: "x \<in> X" "x \<notin> set (us @ ws)" using spec by (auto simp: s split: if_splits)
    obtain h' where "il_append a (Obj x) h = Some h'" "ilist_rep h' a (x # us @ ws)"
      "keeps (insert x (set (us @ ws))) a h h'"
      using rep_il_append [OF r x(2) objects_exist [OF o x]] by blast
    then show ?thesis using objects_insert [OF o _ x(1), of a h' "x # us @ ws"] C_append spec i x
        pslot_nonempty [of us "First_of a" "Next_of (Obj x)"]
      by (cases "us = []") (auto simp: s ilist_rel_def)
  next
    case C_get
    show ?thesis
    proof (cases "us @ ws")
      case Nil
      then show ?thesis using C_get spec rel rep_il_get_empty [of h a] r by (auto simp: s)
    next
      case (Cons x ys)
      obtain h' where h': "il_get a h = Some (Obj x, h')" "ilist_rep h' a ys" "links h' (Obj x) = Some unlinked"
        "keeps (set (x # ys)) a h h'"
        using rep_il_get r Cons by metis
      then have "objects_ok X ys h'" using objects_remove [of X "[]" x ys h a h'] o Cons by simp
      then show ?thesis using C_get spec h' i Cons
        by (auto simp: s ilist_rel_def Cons_eq_append_conv split: list.splits)
    qed
  next
    case C_head
    then show ?thesis using rep_il_head [OF r] spec rel by (auto simp: s ilist_rel_def split: list.splits)
  next
    case (C_unlink x)
    then have x: "x \<in> X" "us \<noteq> [] \<Longrightarrow> x \<noteq> last us"
      and p: "p = Null_link" "z' = (remove1 x us, remove1 x ws, b)" using spec by (auto simp: s split: if_splits)
    consider "x \<notin> set (us @ ws)" | xs ys where "us = xs @ x # ys" | xs ys where "x \<notin> set us" "ws = xs @ x # ys"
      using split_list [of x us] split_list [of x ws] by auto
    then show ?thesis
    proof cases
      case 1
      then have "unlink (Obj x) h = Some h" using unlink_unlinked o x by (auto simp: objects_ok_def)
      then show ?thesis using C_unlink p rel 1 by (auto simp: s remove1_idem)
    next
      case 2
      then have ys: "ys \<noteq> []" "x \<notin> set xs" "x \<notin> set ws" using x(2) d by auto
      have "us @ ws = xs @ x # (ys @ ws)" using 2 by simp
      from unlink_from_list [OF r [unfolded this] o [unfolded this]] show ?thesis
        using C_unlink p ys i 2 by (auto simp: s ilist_rel_def remove1_append remove1_idem pslot_def)
    next
      case 3
      then have ys: "x \<notin> set xs" using d by auto
      have "us @ ws = (us @ xs) @ x # ys" using 3 by simp
      from unlink_from_list [OF r [unfolded this] o [unfolded this]] show ?thesis
        using C_unlink p ys i 3 by (auto simp: s ilist_rel_def remove1_append remove1_idem)
    qed
  qed
qed

interpretation ilist: simulation "\<lambda>k. ilist_rel X a" "ilist_step a" "ilist_spec X" for X a
  by unfold_locales (rule ilist_refines)

section \<open>Properties\<close>

text \<open>
  C24. Any program of calls on an intrusive list and an iterator over it (next, unlink of the current
  element, insertion at both ends, removal of the first element, an object unlinking itself) runs without
  touching a null or dead pointer and returns what the specification on lists returns. In particular
  elements pushed during the iteration are visited, the elements unlinked are not, and every object of the
  program is either a member or has null links. Only an object that is the last one the iterator
  passed must not be unlinked behind its back.
\<close>

theorem ilist_program:
  assumes "ilist_rep h a ns" and "objects_ok X ns h"
    and "run_cmds (ilist_spec X) cs ([], ns, False) = Some (ps, us, ws, b)"
  shows "\<exists>it' h'. run_cmds (ilist_step a) cs (mk_ilist_iter a, h) = Some (ps, it', h')
    \<and> ilist_rep h' a (us @ ws) \<and> objects_ok X (us @ ws) h'"
proof -
  have "ilist_rel X a (mk_ilist_iter a, h) ([], ns, False)"
    using assms(1,2) by (simp add: ilist_rel_def mk_ilist_iter_def)
  from ilist.run_refines [OF this assms(3)] show ?thesis by (auto simp: ilist_rel_def)
qed

definition example_links :: ilink_heap where
  "example_links = \<lparr>links = [Sentinel 1 \<mapsto> \<lparr>l_prev = First_of 1, l_next = Null_link\<rparr>,
     Sentinel 2 \<mapsto> \<lparr>l_prev = First_of 2, l_next = Null_link\<rparr>,
     Obj 5 \<mapsto> unlinked, Obj 6 \<mapsto> unlinked, Obj 7 \<mapsto> unlinked], firsts = [1 \<mapsto> Sentinel 1, 2 \<mapsto> Sentinel 2]\<rparr>"

lemma example_links_rep: "ilist_rep example_links 1 []" "ilist_rep example_links 2 []"
  "objects_ok {5, 6, 7} [] example_links"
  by (simp_all add: ilist_rep_def objects_ok_def example_links_def)

lemma ilist_program_witness:
  "\<exists>it' h'. run_cmds (ilist_step 1) [C_push_back 5, C_next, C_push_back 6, C_append 7, C_iter_unlink, C_next, C_unlink 7,
        C_next, C_head] (mk_ilist_iter 1, example_links)
     = Some ([Null_link, Obj 5, Null_link, Null_link, Null_link, Obj 6, Null_link, Null_link, Obj 6], it', h')
     \<and> ilist_rep h' 1 ([6] @ []) \<and> objects_ok {5, 6, 7} ([6] @ []) h'"
  by (rule ilist_program [OF example_links_rep(1,3), where b = False]) simp

text \<open>
  \<open>move_elements_to\<close> copies the end mark of the old owner but the last element still points to the old
  one: the new owner of an empty list is not empty but has the end mark of the old owner as its head,
  and the last element of a moved list is not recognised as the last.
\<close>

theorem moved_list_has_old_end:
  assumes a: "ilist_rep h a ns" and b: "ilist_rep h b []" and ab: "a \<noteq> b"
  shows "\<exists>h'. move_elements_to a b h = Some h' \<and> ilist_rep h' a [] \<and> il_is_empty b h' = Some False
    \<and> (if ns = [] then il_head b h' = Some (Sentinel a) else il_is_last b (Obj (last ns)) h' = Some False)"
proof -
  obtain n m where s: "links h (Sentinel a) = Some \<lparr>l_prev = pslot (First_of a) ns, l_next = n\<rparr>"
    "links h (Sentinel b) = Some m" "firsts h b = Some (Sentinel b)" "firsts h a = Some (nxt a ns)"
    using a b dprefix_whole [of h a ns] by (auto simp: ilist_rep_def)
  have last: "ns \<noteq> [] \<Longrightarrow> \<exists>p. links h (Obj (last ns)) = Some \<lparr>l_prev = p, l_next = Sentinel a\<rparr>"
    using a dpath_snoc [of h "First_of a" "butlast ns" "last ns" "Sentinel a"]
    by (auto simp: dprefix_whole dprefix_def)
  show ?thesis
    using s last ab
    by (cases ns) (auto simp: move_elements_to_def il_empty_def upd_link_def ilist_rep_def il_is_empty_def
        il_head_def il_is_last_def)
qed

lemma moved_list_has_old_end_witness:
  "\<exists>h'. move_elements_to 1 2 example_links = Some h' \<and> il_is_empty 2 h' = Some False
     \<and> il_head 2 h' = Some (Sentinel 1)"
  using moved_list_has_old_end [OF example_links_rep(1,2)] by auto

end
