(* ===== verification/Sql_I_List.thy ===== *)
theory Sql_I_List
  imports Prelude "HOL-Library.Monad_Syntax"
begin

text \<open>
  \<open>SQL_I_List\<close> of \<open>sql_list.h\<close>: a list that links its elements through a pointer of the element chosen by
  the caller. A \<open>T **\<close> is a cell, the \<open>first\<close> field of a list or the link field of an element; the list
  keeps the cell where the next element goes.
\<close>

section \<open>The list\<close>

datatype icell = First_cell nat | Link_cell ptr

record SQL_I_List =
  si_elements :: uint
  si_next :: icell

record iheap =
  cells :: "icell \<Rightarrow> ptr option"
  ilists :: "nat \<Rightarrow> SQL_I_List option"

definition set_cell :: "icell \<Rightarrow> ptr \<Rightarrow> iheap \<Rightarrow> iheap option" where
  "set_cell c p h = map_option (\<lambda>_. h\<lparr>cells := (cells h)(c \<mapsto> p)\<rparr>) (cells h c)"

definition upd_ilist :: "nat \<Rightarrow> (SQL_I_List \<Rightarrow> SQL_I_List) \<Rightarrow> iheap \<Rightarrow> iheap option" where
  "upd_ilist a f h = map_option (\<lambda>l. h\<lparr>ilists := (ilists h)(a \<mapsto> f l)\<rparr>) (ilists h a)"

definition si_empty :: "nat \<Rightarrow> iheap \<Rightarrow> iheap option" where
  "si_empty this h = do {
     h \<leftarrow> upd_ilist this (si_elements_update (\<lambda>_. 0)) h;
     h \<leftarrow> set_cell (First_cell this) 0 h;
     upd_ilist this (si_next_update (\<lambda>_. First_cell this)) h }"

definition si_assign :: "nat \<Rightarrow> nat \<Rightarrow> iheap \<Rightarrow> iheap option" where
  "si_assign this tmp h = do {
     t \<leftarrow> ilists h tmp;
     h \<leftarrow> upd_ilist this (si_elements_update (\<lambda>_. si_elements t)) h;
     f \<leftarrow> cells h (First_cell tmp);
     h \<leftarrow> set_cell (First_cell this) f h;
     t \<leftarrow> ilists h tmp;
     upd_ilist this (\<lambda>l. l\<lparr>si_next := if si_elements l \<noteq> 0 then si_next t else First_cell this\<rparr>) h }"

definition link_in_list :: "nat \<Rightarrow> ptr \<Rightarrow> icell \<Rightarrow> iheap \<Rightarrow> iheap option" where
  "link_in_list this element next_ptr h = do {
     h \<leftarrow> upd_ilist this (\<lambda>l. l\<lparr>si_elements := si_elements l + 1\<rparr>) h;
     l \<leftarrow> ilists h this;
     h \<leftarrow> set_cell (si_next l) element h;
     h \<leftarrow> upd_ilist this (si_next_update (\<lambda>_. next_ptr)) h;
     set_cell next_ptr 0 h }"

definition save_and_clear :: "nat \<Rightarrow> nat \<Rightarrow> iheap \<Rightarrow> iheap option" where
  "save_and_clear this save h = do { h \<leftarrow> si_assign save this h; si_empty this h }"

definition si_push_front :: "nat \<Rightarrow> nat \<Rightarrow> iheap \<Rightarrow> iheap option" where
  "si_push_front this save h = do {
     s \<leftarrow> ilists h save;
     f \<leftarrow> cells h (First_cell this);
     h \<leftarrow> set_cell (si_next s) f h;
     g \<leftarrow> cells h (First_cell save);
     h \<leftarrow> set_cell (First_cell this) g h;
     upd_ilist this (\<lambda>l. l\<lparr>si_elements := si_elements l + si_elements s\<rparr>) h }"

definition si_push_back :: "nat \<Rightarrow> nat \<Rightarrow> iheap \<Rightarrow> iheap option" where
  "si_push_back this save h = do {
     g \<leftarrow> cells h (First_cell save);
     if g \<noteq> 0 then do {
       l \<leftarrow> ilists h this;
       h \<leftarrow> set_cell (si_next l) g h;
       s \<leftarrow> ilists h save;
       upd_ilist this (\<lambda>l. l\<lparr>si_next := si_next s, si_elements := si_elements l + si_elements s\<rparr>) h }
     else Some h }"

section \<open>Lists in the heap\<close>

fun chain :: "iheap \<Rightarrow> icell \<Rightarrow> ptr list \<Rightarrow> ptr \<Rightarrow> bool" where
  "chain h c [] q \<longleftrightarrow> cells h c = Some q"
| "chain h c (e # es) q \<longleftrightarrow> e \<noteq> 0 \<and> cells h c = Some e \<and> chain h (Link_cell e) es q"

definition last_cell :: "icell \<Rightarrow> ptr list \<Rightarrow> icell" where
  "last_cell c es = (if es = [] then c else Link_cell (last es))"

definition si_rep :: "iheap \<Rightarrow> nat \<Rightarrow> ptr list \<Rightarrow> bool" where
  "si_rep h a es \<longleftrightarrow> chain h (First_cell a) es 0 \<and> distinct es \<and> length es < 2 ^ 32
     \<and> ilists h a = Some \<lparr>si_elements = of_nat (length es), si_next = last_cell (First_cell a) es\<rparr>"

lemma last_cell_simps [simp]: "last_cell c [] = c" "last_cell c (e # es) = last_cell (Link_cell e) es"
  "last_cell c (es @ [e]) = Link_cell e" "last_cell c (es @ fs) = last_cell (last_cell c es) fs"
  by (auto simp: last_cell_def)

lemma last_cell_other: "es \<noteq> [] \<Longrightarrow> last_cell c es = last_cell d es"
  by (simp add: last_cell_def)

lemma last_cell_in: "last_cell c es = c \<or> (\<exists>e \<in> set es. last_cell c es = Link_cell e)"
  by (simp add: last_cell_def)

lemma chain_last: "chain h c es q \<Longrightarrow> cells h (last_cell c es) = Some q"
  by (induction es arbitrary: c) auto

lemma chain_first: "chain h c es q \<Longrightarrow> cells h c \<noteq> None"
  by (cases es) auto

lemma chain_frame: "chain h c es q \<Longrightarrow> cells h' c = cells h c \<Longrightarrow>
    \<forall>e \<in> set es. cells h' (Link_cell e) = cells h (Link_cell e) \<Longrightarrow> chain h' c es q"
  by (induction es arbitrary: c) auto

text \<open>Redirecting the end of a chain to another chain.\<close>

lemma chain_extend:
  assumes "chain h c es q" and "distinct es" and "c \<notin> Link_cell ` set es"
    and "q' = (case fs of [] \<Rightarrow> r | f # _ \<Rightarrow> f)" and "0 \<notin> set fs"
    and "\<forall>f gs. fs = f # gs \<longrightarrow> chain h (Link_cell f) gs r \<and> c \<notin> Link_cell ` set fs \<and> set es \<inter> set fs = {}"
  shows "chain (h\<lparr>cells := (cells h)(last_cell c es \<mapsto> q')\<rparr>) c (es @ fs) r"
  using assms
proof (induction es arbitrary: c q)
  case Nil
  show ?case
  proof (cases fs)
    case (Cons f gs)
    then show ?thesis using Nil by (auto intro!: chain_frame [of h "Link_cell f" gs r])
  qed (use Nil in simp)
next
  case (Cons e es)
  have "last_cell (Link_cell e) es \<noteq> c"
    using Cons.prems(3) last_cell_in [of "Link_cell e" es] by auto
  moreover have "chain (h\<lparr>cells := (cells h)(last_cell (Link_cell e) es \<mapsto> q')\<rparr>) (Link_cell e) (es @ fs) r"
    using Cons.prems by (intro Cons.IH) auto
  ultimately show ?case using Cons.prems(1) unfolding append_Cons chain.simps last_cell_simps(2) by simp
qed

lemma chain_ilists [simp]: "chain (h\<lparr>ilists := f\<rparr>) c es q = chain h c es q"
  by (induction es arbitrary: c) auto

lemma chain_ilists_cells [simp]: "chain (h\<lparr>ilists := f, cells := g\<rparr>) c es q = chain (h\<lparr>cells := g\<rparr>) c es q"
  by (induction es arbitrary: c) auto

lemma si_repD: "si_rep h a es \<Longrightarrow> chain h (First_cell a) es 0 \<and> distinct es \<and> 0 \<notin> set es"
proof -
  have "chain h c es q \<Longrightarrow> 0 \<notin> set es" for c q by (induction es arbitrary: c) auto
  then show "si_rep h a es \<Longrightarrow> ?thesis" by (auto simp: si_rep_def)
qed

lemma rep_si_empty: "si_rep h a es \<Longrightarrow> \<exists>h'. si_empty a h = Some h' \<and> si_rep h' a []"
  by (cases es) (auto simp: si_empty_def upd_ilist_def set_cell_def si_rep_def)

lemma rep_link_in_list:
  assumes r: "si_rep h a es" and e: "e \<notin> set es" "e \<noteq> 0" "cells h (Link_cell e) \<noteq> None"
    and l: "length es + 1 < 2 ^ 32"
  shows "\<exists>h'. link_in_list a e (Link_cell e) h = Some h' \<and> si_rep h' a (es @ [e])"
proof -
  let ?c = "last_cell (First_cell a) es"
  have c: "chain h (First_cell a) es 0" "distinct es" "cells h ?c = Some 0"
    "ilists h a = Some \<lparr>si_elements = of_nat (length es), si_next = ?c\<rparr>"
    using r chain_last by (auto simp: si_rep_def)
  let ?g = "h\<lparr>cells := (cells h)(Link_cell e \<mapsto> 0)\<rparr>"
  have "chain ?g (First_cell a) es 0" using c(1) by (rule chain_frame) (use e in auto)
  from chain_extend [OF this c(2) _ refl, of "[e]" 0]
  have "chain (?g\<lparr>cells := (cells ?g)(?c \<mapsto> e)\<rparr>) (First_cell a) (es @ [e]) 0" using e by auto
  moreover have "?c \<noteq> Link_cell e" using last_cell_in [of "First_cell a" es] e by auto
  ultimately have "chain (h\<lparr>cells := (cells h)(?c \<mapsto> e, Link_cell e \<mapsto> 0)\<rparr>) (First_cell a) (es @ [e]) 0"
    by (simp add: fun_upd_twist)
  then show ?thesis using c e l \<open>?c \<noteq> Link_cell e\<close>
    by (auto simp: link_in_list_def upd_ilist_def set_cell_def si_rep_def)
qed

lemma rep_si_push_back:
  assumes r: "si_rep h a es" and s: "si_rep h b fs" and ab: "a \<noteq> b" "set es \<inter> set fs = {}"
    and l: "length es + length fs < 2 ^ 32"
  shows "\<exists>h'. si_push_back a b h = Some h' \<and> si_rep h' a (es @ fs)"
proof (cases fs)
  case Nil
  then show ?thesis using r s by (auto simp: si_push_back_def si_rep_def)
next
  case (Cons f gs)
  let ?c = "last_cell (First_cell a) es"
  have c: "chain h (First_cell a) es 0" "distinct es" "cells h ?c = Some 0"
    "ilists h a = Some \<lparr>si_elements = of_nat (length es), si_next = ?c\<rparr>"
    and d: "chain h (Link_cell f) gs 0" "cells h (First_cell b) = Some f" "0 \<notin> set fs" "distinct fs"
    using r s chain_last si_repD [OF s] by (auto simp: si_rep_def Cons)
  have "chain (h\<lparr>cells := (cells h)(?c \<mapsto> f)\<rparr>) (First_cell a) (es @ fs) 0"
    using chain_extend [OF c(1,2) _ refl, of fs 0] d ab by (auto simp: Cons)
  then show ?thesis
    using c d ab l s by (auto simp: si_push_back_def upd_ilist_def set_cell_def si_rep_def Cons
        last_cell_other [of "f # gs" "First_cell b" ?c])
qed

lemma rep_si_push_front:
  assumes r: "si_rep h a es" and s: "si_rep h b fs" and ab: "a \<noteq> b" "set es \<inter> set fs = {}"
    and l: "length es + length fs < 2 ^ 32"
  shows "\<exists>h'. si_push_front a b h = Some h' \<and> chain h' (First_cell a) (fs @ es) 0
    \<and> ilists h' a = Some \<lparr>si_elements = of_nat (length es) + of_nat (length fs), si_next = last_cell (First_cell a) es\<rparr>
    \<and> (\<forall>x. x \<notin> set fs \<longrightarrow> cells h' (Link_cell x) = cells h (Link_cell x))"
proof -
  let ?c = "last_cell (First_cell b) fs" and ?q = "case es of [] \<Rightarrow> 0 | e # _ \<Rightarrow> e"
  have c: "chain h (First_cell b) fs 0" "distinct fs" "cells h ?c = Some 0"
    "ilists h b = Some \<lparr>si_elements = of_nat (length fs), si_next = ?c\<rparr>"
    "ilists h a = Some \<lparr>si_elements = of_nat (length es), si_next = last_cell (First_cell a) es\<rparr>"
    "cells h (First_cell a) = Some ?q"
    using r s chain_last by (auto simp: si_rep_def split: list.splits)
  let ?g = "h\<lparr>cells := (cells h)(?c \<mapsto> ?q)\<rparr>"
  have g: "chain ?g (First_cell b) (fs @ es) 0"
    using si_repD [OF r] ab by (intro chain_extend [OF c(1,2) _ refl]) (auto simp: si_rep_def)
  let ?p = "case fs @ es of [] \<Rightarrow> 0 | e # _ \<Rightarrow> e"
  have p: "cells ?g (First_cell b) = Some ?p" using g by (cases "fs @ es") auto
  have n: "?c \<noteq> First_cell a" using last_cell_in [of "First_cell b" fs] ab by auto
  let ?h = "?g\<lparr>cells := (cells ?g)(First_cell a \<mapsto> ?p)\<rparr>"
  have "chain ?h (First_cell a) (fs @ es) 0"
  proof (cases "fs @ es")
    case (Cons x xs)
    have "chain ?g (Link_cell x) xs 0" "x \<noteq> 0" using g unfolding Cons by auto
    then show ?thesis unfolding Cons by (auto intro!: chain_frame [of ?g "Link_cell x" xs 0])
  qed simp
  then show ?thesis
    using c p n ab last_cell_in [of "First_cell b" fs] by (auto simp: si_push_front_def upd_ilist_def set_cell_def)
qed

lemma rep_save_and_clear:
  assumes r: "si_rep h a es" and s: "si_rep h b fs" and ab: "a \<noteq> b"
  shows "\<exists>h'. save_and_clear a b h = Some h' \<and> si_rep h' b es \<and> si_rep h' a []"
proof -
  let ?p = "case es of [] \<Rightarrow> 0 | e # _ \<Rightarrow> e"
  have c: "cells h (First_cell a) = Some ?p" "cells h (First_cell b) \<noteq> None"
    using r s by (auto simp: si_rep_def split: list.splits) (cases fs; auto)
  let ?h = "h\<lparr>cells := (cells h)(First_cell b \<mapsto> ?p, First_cell a \<mapsto> 0)\<rparr>"
  have "chain ?h (First_cell b) es 0"
  proof (cases es)
    case (Cons x xs)
    have "chain h (Link_cell x) xs 0" "x \<noteq> 0" using r by (auto simp: si_rep_def Cons)
    then show ?thesis using ab by (auto simp: Cons intro!: chain_frame [of h "Link_cell x" xs 0])
  qed (use ab in simp)
  moreover have "(of_nat (length es) = (0 :: uint)) \<longleftrightarrow> es = []"
    using r unat_of_nat_small [of "length es", where 'a = 32] by (auto simp: word_unat_eq_iff si_rep_def)
  ultimately show ?thesis
    using r s c ab last_cell_other [of es "First_cell a" "First_cell b"]
    by (cases "es = []") (auto simp: save_and_clear_def si_assign_def si_empty_def upd_ilist_def set_cell_def si_rep_def)
qed

section \<open>Properties\<close>

text \<open>
  The list operations are the operations on sequences: linking an element appends it, \<open>push_back\<close>
  appends another list, \<open>save_and_clear\<close> moves the elements to another list and empties this one, and
  \<open>push_front\<close> on a list with elements puts the other list in front. On an empty list, however, \<open>push_front\<close>
  leaves \<open>next\<close> at the list's own \<open>first\<close> field: an element linked afterwards replaces all the others,
  although they stay in the count.
\<close>

theorem i_list_sequences:
  assumes "si_rep h a es" and "si_rep h b fs" and "a \<noteq> b" and "set es \<inter> set fs = {}"
    and "length es + length fs + 1 < 2 ^ 32" and "e \<notin> set es \<union> set fs" and "e \<noteq> 0" and "cells h (Link_cell e) \<noteq> None"
  shows "(\<exists>h'. link_in_list a e (Link_cell e) h = Some h' \<and> si_rep h' a (es @ [e]))
    \<and> (\<exists>h'. si_push_back a b h = Some h' \<and> si_rep h' a (es @ fs))
    \<and> (\<exists>h'. save_and_clear a b h = Some h' \<and> si_rep h' b es \<and> si_rep h' a [])
    \<and> (\<exists>h'. si_push_front a b h = Some h' \<and>
         (if es \<noteq> [] then si_rep h' a (fs @ es)
          else \<exists>h''. link_in_list a e (Link_cell e) h' = Some h'' \<and> chain h'' (First_cell a) [e] 0
            \<and> map_option si_elements (ilists h'' a) = Some (of_nat (length fs) + 1)))"
proof -
  have l: "length es + length fs < 2 ^ 32" using assms(5) by simp
  obtain h' where h': "si_push_front a b h = Some h'" "chain h' (First_cell a) (fs @ es) 0"
    "ilists h' a = Some \<lparr>si_elements = of_nat (length es) + of_nat (length fs), si_next = last_cell (First_cell a) es\<rparr>"
    "\<forall>x. x \<notin> set fs \<longrightarrow> cells h' (Link_cell x) = cells h (Link_cell x)"
    using rep_si_push_front [OF assms(1-4) l] by blast
  have "\<exists>h''. link_in_list a e (Link_cell e) h' = Some h'' \<and> chain h'' (First_cell a) [e] 0
      \<and> map_option si_elements (ilists h'' a) = Some (of_nat (length fs) + 1)" if "es = []"
    using h'(2-4) that assms(6-8) chain_first [OF h'(2)]
    by (auto simp: link_in_list_def upd_ilist_def set_cell_def)
  moreover have "si_rep h' a (fs @ es)" if "es \<noteq> []"
    using h'(2,3) that assms(1-4) l last_cell_other [OF that, of "First_cell a" "last_cell (First_cell a) fs"]
    by (auto simp: si_rep_def add.commute)
  ultimately show ?thesis
    using rep_link_in_list [OF assms(1) _ assms(7,8)] rep_si_push_back [OF assms(1-4) l]
      rep_save_and_clear [OF assms(1-3)] h'(1) assms(5,6) by auto
qed

definition example_iheap :: iheap where
  "example_iheap = \<lparr>cells = [First_cell 1 \<mapsto> 0, First_cell 2 \<mapsto> 8, Link_cell 8 \<mapsto> 0, Link_cell 9 \<mapsto> 0],
     ilists = [1 \<mapsto> \<lparr>si_elements = 0, si_next = First_cell 1\<rparr>, 2 \<mapsto> \<lparr>si_elements = 1, si_next = Link_cell 8\<rparr>]\<rparr>"

lemma i_list_sequences_witness:
  "\<exists>h' h''. si_push_front 1 2 example_iheap = Some h' \<and> link_in_list 1 9 (Link_cell 9) h' = Some h''
     \<and> chain h'' (First_cell 1) [9] 0 \<and> map_option si_elements (ilists h'' 1) = Some 2"
proof -
  have "si_rep example_iheap 1 []" "si_rep example_iheap 2 [8]" "cells example_iheap (Link_cell 9) \<noteq> None"
    by (simp_all add: si_rep_def example_iheap_def)
  from i_list_sequences [OF this(1,2) _ _ _ _ _ this(3)] show ?thesis by auto
qed

end
