(* ===== verification/Heap_Path.thy ===== *)
theory Heap_Path
  imports Prelude
begin

text \<open>
  Chains of objects linked by one pointer field: \<open>path m p bs q\<close> says that following the field \<open>m\<close> from
  \<open>p\<close> goes through the objects \<open>bs\<close> and reaches \<open>q\<close>. The components with null-terminated lists share it.
\<close>

fun path :: "(ptr \<Rightarrow> ptr option) \<Rightarrow> ptr \<Rightarrow> ptr list \<Rightarrow> ptr \<Rightarrow> bool" where
  "path m p [] q \<longleftrightarrow> p = q"
| "path m p (b # bs) q \<longleftrightarrow> p = b \<and> b \<noteq> 0 \<and> (\<exists>n. m b = Some n \<and> path m n bs q)"

definition hd0 :: "ptr list \<Rightarrow> ptr" where "hd0 bs = (case bs of [] \<Rightarrow> 0 | b # _ \<Rightarrow> b)"

lemma hd0_simps [simp]: "hd0 [] = 0" "hd0 (b # bs) = b"
  by (simp_all add: hd0_def)

lemma path_append [simp]: "path m p (xs @ ys) q \<longleftrightarrow> (\<exists>r. path m p xs r \<and> path m r ys q)"
  by (induction xs arbitrary: p) auto

lemma path_frame: "path m p bs q \<Longrightarrow> \<forall>b \<in> set bs. m' b = m b \<Longrightarrow> path m' p bs q"
  by (induction bs arbitrary: p) auto

lemma path_update [simp]: "b \<notin> set bs \<Longrightarrow> path (m(b := n)) p bs q = path m p bs q"
  by (induction bs arbitrary: p) auto

lemma path_hd0: "path m p bs 0 \<Longrightarrow> p = hd0 bs"
  by (cases bs) auto

lemma path_nonnull: "path m p bs q \<Longrightarrow> 0 \<notin> set bs"
  by (induction bs arbitrary: p) auto

lemma path_dom: "path m p bs q \<Longrightarrow> set bs \<subseteq> dom m"
  by (induction bs arbitrary: p) auto

lemma path_next: "path m p (xs @ b # ys) 0 \<Longrightarrow> m b = Some (hd0 ys)"
  by (auto dest: path_hd0)

lemma path_last: "path m p (xs @ [b]) q \<longleftrightarrow> path m p xs b \<and> b \<noteq> 0 \<and> m b = Some q"
  by auto

text \<open>Redirecting the last object.\<close>

lemma path_redirect:
  assumes "path m p bs q" and "distinct bs" and "bs \<noteq> []"
  shows "path (m(last bs \<mapsto> q')) p bs q'"
proof -
  have "bs = butlast bs @ [last bs]" using assms(3) by simp
  then have "path m p (butlast bs @ [last bs]) q" "last bs \<notin> set (butlast bs)"
    using assms(1,2) by (simp_all add: distinct_butlast not_distinct_conv_prefix)
      (metis distinct.simps(2) distinct1_rotate rotate1.simps(2))
  then have "path (m(last bs \<mapsto> q')) p (butlast bs @ [last bs]) q'" unfolding path_last by simp
  then show ?thesis using assms(3) by simp
qed

text \<open>Moving the front of a chain to its rear.\<close>

lemma path_rotate:
  assumes p: "path m p (xs @ ys) 0" and d: "distinct (xs @ ys)" and ne: "xs \<noteq> []" "ys \<noteq> []"
  shows "path (m(last ys \<mapsto> p, last xs \<mapsto> 0)) (hd0 ys) (ys @ xs) 0"
proof -
  obtain r where r: "path m p xs r" "path m r ys 0" using p by auto
  have n: "last xs \<notin> set ys" "last ys \<notin> set xs"
    using d ne last_in_set by fastforce+
  have "path (m(last xs \<mapsto> 0)) p xs 0" using r(1) d ne by (intro path_redirect) auto
  then have "path ((m(last xs \<mapsto> 0))(last ys \<mapsto> p)) p xs 0" using n by simp
  moreover have "path (m(last ys \<mapsto> p)) r ys p" using r(2) d ne by (intro path_redirect) auto
  then have "path ((m(last ys \<mapsto> p))(last xs \<mapsto> 0)) r ys p" using n by simp
  moreover have "last xs \<noteq> last ys" using n ne last_in_set by metis
  ultimately show ?thesis using path_hd0 [OF r(2)] by (auto simp: fun_upd_twist)
qed

text \<open>Taking an object out of a chain, and putting one in front of it or behind it.\<close>

lemma path_remove:
  assumes "path m p (xs @ b # ys) 0" and "distinct (xs @ b # ys)" and "xs \<noteq> []"
  shows "path (m(last xs \<mapsto> hd0 ys)) p (xs @ ys) 0"
proof -
  obtain n where n: "path m p xs b" "m b = Some n" "path m n ys 0" using assms(1) by auto
  have "last xs \<notin> set ys" using assms(2,3) last_in_set by fastforce
  then have "path (m(last xs \<mapsto> hd0 ys)) (hd0 ys) ys 0" using n(3) path_hd0 [OF n(3)] by simp
  moreover have "path (m(last xs \<mapsto> hd0 ys)) p xs (hd0 ys)" using path_redirect [OF n(1)] assms(2,3) by auto
  ultimately show ?thesis by auto
qed

lemma path_push: "path m p xs q \<Longrightarrow> b \<notin> set xs \<Longrightarrow> b \<noteq> 0 \<Longrightarrow> path (m(b \<mapsto> p)) b (b # xs) q"
  by simp

lemma path_extend:
  assumes "path m p xs 0" and "distinct xs" and "xs \<noteq> []" and "b \<notin> set xs" and "b \<noteq> 0"
  shows "path (m(b \<mapsto> 0, last xs \<mapsto> b)) p (xs @ [b]) 0"
proof -
  have "path (m(b \<mapsto> 0)) p xs 0" using assms(1,4) by simp
  then have "path (m(b \<mapsto> 0, last xs \<mapsto> b)) p xs b" by (rule path_redirect) (use assms in auto)
  moreover have "last xs \<noteq> b" using assms(3,4) last_in_set by metis
  ultimately show ?thesis using assms(5) by auto
qed

lemma hd0_append [simp]: "xs \<noteq> [] \<Longrightarrow> hd0 (xs @ ys) = hd0 xs"
  by (cases xs) auto

lemma hd0_rev: "xs \<noteq> [] \<Longrightarrow> hd0 (rev xs) = last xs"
  by (cases xs rule: rev_cases) auto

lemma hd0_hd: "xs \<noteq> [] \<Longrightarrow> hd0 xs = hd xs"
  by (cases xs) auto

end
