(* ===== verification/Tranx_Alloc.thy ===== *)
theory Tranx_Alloc
  imports Heap_Path "HOL-Library.Monad_Syntax"
begin

text \<open>
  The node allocator of semi-synchronous replication (\<open>semisync_master.h\<close>): nodes are handed out in
  sequence from linked blocks of 16, freed blocks go to the rear of the list for reuse, and surplus free
  blocks are returned to the system. Addresses are numbers with the layout of the shipped 64-bit build, so
  that the pointer comparisons of the code are comparisons of numbers.
\<close>

section \<open>Nodes and blocks\<close>

definition BLOCK_TRANX_NODES :: nat where "BLOCK_TRANX_NODES = 16"

record Tranx_node =
  log_name :: string
  thd_valid :: bool
  log_pos :: ulonglong
  thd :: ptr
  tn_next :: ptr
  hash_next :: ptr

definition NODE_SIZE :: nat where "NODE_SIZE = 512 + 8 + 8 + 8 + 8 + 8"

definition node_addr :: "ptr \<Rightarrow> nat \<Rightarrow> ptr" where "node_addr block i = block + 8 + NODE_SIZE * i"

definition BLOCK_SIZE :: nat where "BLOCK_SIZE = 8 + NODE_SIZE * BLOCK_TRANX_NODES"

text \<open>The memory: the \<open>next\<close> pointers of the live blocks, and the contents of the nodes.\<close>

record tranx_alloc =
  reserved_blocks :: uint
  first_block :: ptr
  last_block :: ptr
  current_block :: ptr
  last_node :: int
  block_num :: uint
  block_next :: "ptr \<Rightarrow> ptr option"
  node_at :: "ptr \<Rightarrow> Tranx_node"

definition mk_tranx_alloc :: "uint \<Rightarrow> (ptr \<Rightarrow> Tranx_node) \<Rightarrow> tranx_alloc" where
  "mk_tranx_alloc reserved_nodes memory =
     \<lparr>reserved_blocks = reserved_nodes div 16 + (if 1 < reserved_nodes mod 16 then 2 else 1),
      first_block = 0, last_block = 0, current_block = 0, last_node = - 1, block_num = 0,
      block_next = Map.empty, node_at = memory\<rparr>"

definition set_block_next :: "ptr \<Rightarrow> ptr \<Rightarrow> tranx_alloc \<Rightarrow> tranx_alloc option" where
  "set_block_next b p s = map_option (\<lambda>_. s\<lparr>block_next := (block_next s)(b \<mapsto> p)\<rparr>) (block_next s b)"

definition free_block :: "ptr \<Rightarrow> tranx_alloc \<Rightarrow> tranx_alloc" where
  "free_block block s = s\<lparr>block_next := (block_next s)(block := None), block_num := block_num s - 1\<rparr>"

definition allocate_block :: "(tranx_alloc \<Rightarrow> ptr) \<Rightarrow> tranx_alloc \<Rightarrow> (bool \<times> tranx_alloc) option" where
  "allocate_block malloc s = do {
     let block = malloc s;
     if block \<noteq> 0 then do {
       let s = s\<lparr>block_next := (block_next s)(block \<mapsto> 0)\<rparr>;
       s \<leftarrow> (if first_block s = 0 then Some (s\<lparr>first_block := block\<rparr>) else set_block_next (last_block s) block s);
       Some (False, s\<lparr>last_block := block, current_block := block, block_num := block_num s + 1\<rparr>) }
     else Some (True, s) }"

definition fresh_node :: "Tranx_node \<Rightarrow> Tranx_node" where
  "fresh_node n = n\<lparr>log_name := (log_name n)[0 := CHR 0x00], thd_valid := False, log_pos := 0, thd := 0,
     tn_next := 0, hash_next := 0\<rparr>"

definition allocate_node :: "(tranx_alloc \<Rightarrow> ptr) \<Rightarrow> tranx_alloc \<Rightarrow> (ptr \<times> tranx_alloc) option" where
  "allocate_node malloc s = do {
     let block = current_block s;
     s \<leftarrow> (if last_node s = int BLOCK_TRANX_NODES - 1
            then do { n \<leftarrow> block_next s (current_block s); Some (s\<lparr>current_block := n, last_node := - 1\<rparr>) }
            else Some s);
     (failed, s) \<leftarrow> (if current_block s = 0 then allocate_block malloc s else Some (False, s));
     if failed then
       let s = s\<lparr>current_block := block\<rparr>
       in Some (0, if current_block s \<noteq> 0 then s\<lparr>last_node := int BLOCK_TRANX_NODES - 1\<rparr> else s)
     else do {
       let s = s\<lparr>last_node := last_node s + 1\<rparr>;
       _ \<leftarrow> block_next s (current_block s);
       let trx_node = node_addr (current_block s) (nat (last_node s));
       Some (trx_node, s\<lparr>node_at := (node_at s)(trx_node := fresh_node (node_at s trx_node))\<rparr>) } }"

partial_function (option) free_blocks_loop :: "ptr \<Rightarrow> tranx_alloc \<Rightarrow> (ptr \<times> tranx_alloc) option" where
  "free_blocks_loop block s =
     (if reserved_blocks s < block_num s \<and> block \<noteq> 0 then do {
        nx \<leftarrow> block_next s block;
        free_blocks_loop nx (free_block block s) }
      else Some (block, s))"

definition free_blocks :: "tranx_alloc \<Rightarrow> tranx_alloc option" where
  "free_blocks s =
     (if current_block s = 0 then Some s
      else do {
        n \<leftarrow> block_next s (current_block s);
        if n = 0 then Some s
        else do {
          block \<leftarrow> block_next s n;
          (block, s) \<leftarrow> free_blocks_loop block s;
          n \<leftarrow> block_next s (current_block s);
          s \<leftarrow> set_block_next n block s;
          if block = 0 then do { n \<leftarrow> block_next s (current_block s); Some (s\<lparr>last_block := n\<rparr>) }
          else Some s } })"

definition free_all_nodes :: "tranx_alloc \<Rightarrow> tranx_alloc option" where
  "free_all_nodes s = free_blocks (s\<lparr>current_block := first_block s, last_node := - 1\<rparr>)"

text \<open>The search of the block that holds a node returns it with the block before it, or 0 and the last one.\<close>

partial_function (option) find_block_loop :: "ptr \<Rightarrow> tranx_alloc \<Rightarrow> ptr \<Rightarrow> ptr \<Rightarrow> (ptr \<times> ptr) option" where
  "find_block_loop node s block prev_block = do {
     stop \<leftarrow> block_next s (current_block s);
     if block \<noteq> stop then
       (if node_addr block 0 \<le> node \<and> node \<le> node_addr block BLOCK_TRANX_NODES then Some (block, prev_block)
        else do { nx \<leftarrow> block_next s block; find_block_loop node s nx block })
     else Some (0, prev_block) }"

definition free_nodes_before :: "ptr \<Rightarrow> tranx_alloc \<Rightarrow> (bool \<times> tranx_alloc) option" where
  "free_nodes_before node s = do {
     (block, prev_block) \<leftarrow> find_block_loop node s (first_block s) 0;
     if block \<noteq> 0 then do {
       s \<leftarrow> (if first_block s \<noteq> block then do {
              s \<leftarrow> set_block_next (last_block s) (first_block s) s;
              let s = s\<lparr>first_block := block, last_block := prev_block\<rparr>;
              s \<leftarrow> set_block_next (last_block s) 0 s;
              free_blocks s }
            else Some s);
       Some (False, s) }
     else Some (True, s) }"

partial_function (option) destroy_loop :: "ptr \<Rightarrow> tranx_alloc \<Rightarrow> tranx_alloc option" where
  "destroy_loop block s =
     (if block \<noteq> 0 then do { nx \<leftarrow> block_next s block; destroy_loop nx (free_block block s) }
      else Some s)"

definition destroy_tranx_alloc :: "tranx_alloc \<Rightarrow> tranx_alloc option" where
  "destroy_tranx_alloc s = destroy_loop (first_block s) s"

section \<open>Well-formed allocators\<close>

definition block_range :: "ptr \<Rightarrow> ptr set" where "block_range b = {b ..< b + BLOCK_SIZE}"

definition nodes_of :: "ptr \<Rightarrow> ptr list" where "nodes_of b = map (node_addr b) [0..<BLOCK_TRANX_NODES]"

text \<open>
  \<open>busy s us c vs\<close>: the blocks are \<open>us\<close>, all in use, the current block \<open>c\<close> and the free blocks \<open>vs\<close>.
  \<open>idle s\<close>: no block has been allocated yet.
\<close>

definition disjoint_blocks :: "ptr set \<Rightarrow> bool" where
  "disjoint_blocks B \<longleftrightarrow> (\<forall>a \<in> B. \<forall>b \<in> B. a \<noteq> b \<longrightarrow> block_range a \<inter> block_range b = {})"

definition blocks :: "tranx_alloc \<Rightarrow> ptr list \<Rightarrow> bool" where
  "blocks s bs \<longleftrightarrow> path (block_next s) (first_block s) bs 0 \<and> distinct bs \<and> dom (block_next s) = set bs
     \<and> last_block s = last bs \<and> block_num s = of_nat (length bs) \<and> length bs < 2 ^ 32 \<and> disjoint_blocks (set bs)"

definition busy :: "tranx_alloc \<Rightarrow> ptr list \<Rightarrow> ptr \<Rightarrow> ptr list \<Rightarrow> bool" where
  "busy s us c vs \<longleftrightarrow> blocks s (us @ c # vs) \<and> current_block s = c \<and> - 1 \<le> last_node s \<and> last_node s < 16"

definition idle :: "tranx_alloc \<Rightarrow> bool" where
  "idle s \<longleftrightarrow> first_block s = 0 \<and> current_block s = 0 \<and> last_node s = - 1 \<and> block_num s = 0
     \<and> block_next s = Map.empty"

text \<open>The nodes in use, in the order of their allocation.\<close>

definition used :: "tranx_alloc \<Rightarrow> ptr list \<Rightarrow> ptr \<Rightarrow> ptr list" where
  "used s us c = concat (map nodes_of us) @ map (node_addr c) [0..<nat (last_node s + 1)]"

text \<open>
  What is assumed of \<open>malloc\<close>: a block it returns does not overlap a live one, and it fails when the live
  blocks exhaust the 32-bit block counter (38 TB).
\<close>

definition malloc_ok :: "(tranx_alloc \<Rightarrow> ptr) \<Rightarrow> bool" where
  "malloc_ok malloc \<longleftrightarrow> (\<forall>s. malloc s \<noteq> 0 \<longrightarrow> card (dom (block_next s)) < 2 ^ 32 - 1
     \<and> (\<forall>b \<in> dom (block_next s). block_range (malloc s) \<inter> block_range b = {}))"

lemma disjoint_blocksD: "disjoint_blocks B \<Longrightarrow> a \<in> B \<Longrightarrow> b \<in> B \<Longrightarrow> x \<in> block_range a \<Longrightarrow> x \<in> block_range b \<Longrightarrow> a = b"
  unfolding disjoint_blocks_def by blast

lemma disjoint_blocks_mono: "disjoint_blocks B \<Longrightarrow> A \<subseteq> B \<Longrightarrow> disjoint_blocks A"
  unfolding disjoint_blocks_def by blast

lemma busy_next:
  assumes b: "busy s us c vs"
  shows "block_next s c = Some (hd0 vs) \<and> c \<noteq> 0 \<and> current_block s = c \<and> distinct (us @ c # vs) \<and> first_block s \<noteq> 0"
proof -
  have p: "path (block_next s) (first_block s) (us @ c # vs) 0" and d: "distinct (us @ c # vs)" "current_block s = c"
    using b by (simp_all only: busy_def blocks_def)
  have n: "0 \<notin> set (us @ c # vs)" using p by (rule path_nonnull)
  have "first_block s = hd0 (us @ c # vs)" using p by (rule path_hd0)
  then have "first_block s \<noteq> 0" using n by (cases us) auto
  with path_next [OF p] n d show ?thesis by simp
qed

lemma blocks_update [simp]: "blocks (s\<lparr>current_block := c\<rparr>) bs = blocks s bs"
  "blocks (s\<lparr>last_node := n\<rparr>) bs = blocks s bs" "blocks (s\<lparr>node_at := m\<rparr>) bs = blocks s bs"
  by (simp_all add: blocks_def)

lemma block_range_self: "b \<in> block_range b"
  by (simp add: block_range_def BLOCK_SIZE_def NODE_SIZE_def BLOCK_TRANX_NODES_def)

lemma node_in_range: "i < 16 \<Longrightarrow> node_addr b i \<in> block_range b"
  by (simp add: node_addr_def block_range_def BLOCK_SIZE_def NODE_SIZE_def BLOCK_TRANX_NODES_def)

lemma node_addr_inj: "node_addr b i = node_addr b k \<longleftrightarrow> i = k"
  by (simp add: node_addr_def NODE_SIZE_def)

lemma nodes_of_range: "x \<in> set (nodes_of b) \<Longrightarrow> x \<in> block_range b"
  by (auto simp: nodes_of_def BLOCK_TRANX_NODES_def intro: node_in_range)

lemma length_nodes_of [simp]: "length (nodes_of b) = 16"
  by (simp add: nodes_of_def BLOCK_TRANX_NODES_def)

lemma used_range:
  "x \<in> set (used s us c) \<Longrightarrow> last_node s < 16 \<Longrightarrow> \<exists>b \<in> set (us @ [c]). x \<in> block_range b"
  by (auto simp: used_def dest!: nodes_of_range intro!: node_in_range)

lemma distinct_nodes_of: "distinct bs \<Longrightarrow> disjoint_blocks (set bs) \<Longrightarrow> distinct (concat (map nodes_of bs))"
proof (induction bs)
  case (Cons b bs)
  have "distinct (nodes_of b)" by (auto simp: nodes_of_def distinct_map inj_on_def node_addr_inj)
  moreover have "x \<notin> set (nodes_of e)" if "x \<in> set (nodes_of b)" "e \<in> set bs" for x e
    using that Cons.prems disjoint_blocksD [of "set (b # bs)" b e x] nodes_of_range by auto
  moreover have "disjoint_blocks (set bs)" using Cons.prems(2) by (rule disjoint_blocks_mono) auto
  ultimately show ?case using Cons by auto
qed simp

lemma busy_used_distinct:
  assumes "busy s us c vs"
  shows "distinct (used s us c)"
proof -
  have b: "distinct (us @ c # vs)" "disjoint_blocks (set (us @ c # vs))" "last_node s < 16"
    using assms by (simp_all add: busy_def blocks_def)
  have "distinct (concat (map nodes_of us))"
    using b(1,2) by (intro distinct_nodes_of) (auto elim: disjoint_blocks_mono)
  moreover have "distinct (map (node_addr c) [0..<nat (last_node s + 1)])"
    by (auto simp: distinct_map inj_on_def node_addr_inj)
  moreover have "x \<notin> set (concat (map nodes_of us))" if "x \<in> block_range c" for x
  proof
    assume "x \<in> set (concat (map nodes_of us))"
    then obtain b where "b \<in> set us" "x \<in> block_range b" using nodes_of_range by auto
    then show False using that b disjoint_blocksD [OF b(2), of b c x] by auto
  qed
  moreover have "set (map (node_addr c) [0..<nat (last_node s + 1)]) \<subseteq> block_range c"
    using b(3) by (auto intro!: node_in_range)
  ultimately show ?thesis unfolding used_def distinct_append by blast
qed

section \<open>Allocation\<close>

definition node_ready :: "tranx_alloc \<Rightarrow> ptr \<Rightarrow> bool" where
  "node_ready s x \<longleftrightarrow> (\<exists>n. node_at s x = fresh_node n)"

lemma allocate_in_block:
  assumes b: "busy s us c vs" and l: "last_node s < 15"
  shows "\<exists>x s'. allocate_node malloc s = Some (x, s') \<and> busy s' us c vs \<and> used s' us c = used s us c @ [x]
    \<and> node_ready s' x \<and> (\<forall>y. y \<noteq> x \<longrightarrow> node_at s' y = node_at s y)"
proof -
  let ?x = "node_addr c (nat (last_node s + 1))"
  let ?s = "s\<lparr>last_node := last_node s + 1, node_at := (node_at s)(?x := fresh_node (node_at s ?x))\<rparr>"
  have "allocate_node malloc s = Some (?x, ?s)"
    using busy_next [OF b] l by (auto simp: allocate_node_def Let_def BLOCK_TRANX_NODES_def)
  moreover have "busy ?s us c vs" using b l by (simp add: busy_def)
  moreover have "- 1 \<le> last_node s" using b by (simp add: busy_def)
  then have "nat (2 + last_node s) = Suc (nat (last_node s + 1))" by arith
  then have "used ?s us c = used s us c @ [?x]" by (simp add: used_def)
  moreover have "node_ready ?s ?x" by (auto simp: node_ready_def)
  ultimately show ?thesis by (intro exI [of _ ?x] exI [of _ ?s]) simp
qed

lemma allocate_next_block:
  assumes b: "busy s us c (v # vs)" and l: "last_node s = 15"
  shows "\<exists>x s'. allocate_node malloc s = Some (x, s') \<and> busy s' (us @ [c]) v vs
    \<and> used s' (us @ [c]) v = used s us c @ [x] \<and> node_ready s' x \<and> (\<forall>y. y \<noteq> x \<longrightarrow> node_at s' y = node_at s y)"
proof -
  have v: "v \<in> dom (block_next s)" "v \<noteq> 0"
    using b path_nonnull [of "block_next s" "first_block s" "us @ c # v # vs" 0] by (auto simp: busy_def blocks_def)
  let ?x = "node_addr v 0"
  let ?s = "s\<lparr>current_block := v, last_node := 0, node_at := (node_at s)(?x := fresh_node (node_at s ?x))\<rparr>"
  have "allocate_node malloc s = Some (?x, ?s)"
    using busy_next [OF b] v l by (auto simp: allocate_node_def Let_def BLOCK_TRANX_NODES_def)
  moreover have "busy ?s (us @ [c]) v vs" using b by (simp add: busy_def)
  moreover have "used ?s (us @ [c]) v = used s us c @ [?x]"
    using l by (simp add: used_def nodes_of_def BLOCK_TRANX_NODES_def)
  moreover have "node_ready ?s ?x" by (auto simp: node_ready_def)
  ultimately show ?thesis by (intro exI [of _ ?x] exI [of _ ?s]) simp
qed

lemma blocks_snoc:
  assumes b: "blocks s bs" and ne: "bs \<noteq> []" and v: "v \<noteq> 0" "card (dom (block_next s)) < 2 ^ 32 - 1"
    "\<forall>b \<in> dom (block_next s). block_range v \<inter> block_range b = {}"
    and s': "first_block s' = first_block s" "last_block s' = v" "block_num s' = block_num s + 1"
    "block_next s' = (block_next s)(v \<mapsto> 0, last bs \<mapsto> v)"
  shows "blocks s' (bs @ [v])"
proof -
  have p: "path (block_next s) (first_block s) bs 0" "distinct bs" "dom (block_next s) = set bs" "disjoint_blocks (set bs)"
    using b by (simp_all add: blocks_def)
  have n: "v \<notin> set bs" "length bs < 2 ^ 32 - 1" using v p(2,3) block_range_self by (auto simp: distinct_card)
  then have "path ((block_next s)(v \<mapsto> 0)) (first_block s) bs 0" using p by simp
  from path_redirect [OF this p(2) ne, of v] have "path (block_next s') (first_block s') bs v" by (simp add: s')
  moreover have "block_next s' v = Some 0" using n ne last_in_set [OF ne] by (auto simp: s')
  ultimately have "path (block_next s') (first_block s') (bs @ [v]) 0" using v(1) by auto
  moreover have "disjoint_blocks (set (bs @ [v]))"
    using p(3,4) v(3) by (auto simp: disjoint_blocks_def)
  moreover have "dom (block_next s') = set (bs @ [v])" using p(3) last_in_set [OF ne] by (auto simp: s')
  ultimately show ?thesis using p n b s' by (simp add: blocks_def)
qed

lemma allocate_new_block:
  assumes b: "busy s us c []" and l: "last_node s = 15" and m: "malloc_ok malloc"
  shows "\<exists>x s'. allocate_node malloc s = Some (x, s') \<and>
    (x = 0 \<and> s' = s \<or> (\<exists>v. busy s' (us @ [c]) v [] \<and> used s' (us @ [c]) v = used s us c @ [x] \<and> node_ready s' x
       \<and> (\<forall>y. y \<noteq> x \<longrightarrow> node_at s' y = node_at s y)))"
proof -
  let ?s1 = "s\<lparr>current_block := 0, last_node := - 1\<rparr>"
  have n: "block_next s c = Some 0" "c \<noteq> 0" "current_block s = c" "first_block s \<noteq> 0" "last_block s = c"
    "blocks s (us @ [c])"
    using busy_next [OF b] b by (auto simp: busy_def blocks_def)
  define v where "v = malloc ?s1"
  show ?thesis
  proof (cases "v = 0")
    case True
    have "s\<lparr>current_block := c, last_node := 15\<rparr> = s" using n(3) l by (cases s) simp
    then show ?thesis using True n l
      by (auto simp: allocate_node_def Let_def BLOCK_TRANX_NODES_def allocate_block_def v_def [symmetric])
  next
    case False
    then have v: "card (dom (block_next s)) < 2 ^ 32 - 1" "\<forall>b \<in> dom (block_next s). block_range v \<inter> block_range b = {}"
      using m [unfolded malloc_ok_def, rule_format, of ?s1] by (simp_all add: v_def)
    let ?x = "node_addr v 0"
    let ?s = "s\<lparr>current_block := v, last_node := 0, last_block := v, block_num := block_num s + 1,
        block_next := (block_next s)(v \<mapsto> 0, c \<mapsto> v), node_at := (node_at s)(?x := fresh_node (node_at s ?x))\<rparr>"
    have "v \<noteq> c" using v(2) n(1) block_range_self [of c] by auto
    then have "allocate_node malloc s = Some (?x, ?s)"
      using False n l by (auto simp: allocate_node_def Let_def BLOCK_TRANX_NODES_def allocate_block_def
          v_def [symmetric] set_block_next_def)
    moreover have "blocks ?s ((us @ [c]) @ [v])"
      by (rule blocks_snoc [OF n(6) _ False v]) simp_all
    then have "busy ?s (us @ [c]) v []" by (simp add: busy_def)
    moreover have "used ?s (us @ [c]) v = used s us c @ [?x]"
      using l by (simp add: used_def nodes_of_def BLOCK_TRANX_NODES_def)
    moreover have "node_ready ?s ?x" by (auto simp: node_ready_def)
    ultimately show ?thesis by (intro exI [of _ ?x] exI [of _ ?s]) auto
  qed
qed

lemma allocate_first_block:
  assumes b: "idle s" and m: "malloc_ok malloc"
  shows "\<exists>x s'. allocate_node malloc s = Some (x, s') \<and>
    (x = 0 \<and> s' = s \<or> (\<exists>v. busy s' [] v [] \<and> used s' [] v = [x] \<and> node_ready s' x
       \<and> (\<forall>y. y \<noteq> x \<longrightarrow> node_at s' y = node_at s y)))"
proof -
  define v where "v = malloc s"
  show ?thesis
  proof (cases "v = 0")
    case True
    have "s\<lparr>current_block := 0\<rparr> = s" using b by (cases s) (simp add: idle_def)
    then show ?thesis using True b
      by (auto simp: allocate_node_def Let_def BLOCK_TRANX_NODES_def allocate_block_def v_def [symmetric] idle_def)
  next
    case False
    let ?x = "node_addr v 0"
    let ?s = "s\<lparr>current_block := v, last_node := 0, first_block := v, last_block := v, block_num := 1,
        block_next := [v \<mapsto> 0], node_at := (node_at s)(?x := fresh_node (node_at s ?x))\<rparr>"
    have "allocate_node malloc s = Some (?x, ?s)"
      using False b by (auto simp: allocate_node_def Let_def BLOCK_TRANX_NODES_def allocate_block_def
          v_def [symmetric] idle_def)
    moreover have "busy ?s [] v []" using False by (simp add: busy_def blocks_def disjoint_blocks_def)
    moreover have "used ?s [] v = [?x]" by (simp add: used_def)
    moreover have "node_ready ?s ?x" by (auto simp: node_ready_def)
    ultimately show ?thesis by (intro exI [of _ ?x] exI [of _ ?s]) auto
  qed
qed

section \<open>Freeing\<close>

lemma restrict_UNIV: "m |` UNIV = m"
  by (simp add: restrict_map_def)

lemma free_blocks_loop_result:
  "path (block_next s) p ws 0 \<Longrightarrow> distinct ws \<Longrightarrow> block_num s = of_nat n \<Longrightarrow> length ws \<le> n \<Longrightarrow> n < 2 ^ 32 \<Longrightarrow>
   k = min (length ws) (n - unat (reserved_blocks s)) \<Longrightarrow>
   free_blocks_loop p s = Some (hd0 (drop k ws), s\<lparr>block_next := (block_next s) |` (- set (take k ws)),
     block_num := of_nat (n - k)\<rparr>)"
proof (induction ws arbitrary: p s n k)
  case Nil
  have "s\<lparr>block_next := block_next s, block_num := of_nat n\<rparr> = s" using Nil.prems(3) by (cases s) simp
  with Nil show ?case by (subst free_blocks_loop.simps) (simp add: restrict_UNIV)
next
  case (Cons w ws)
  from Cons.prems(1) obtain r where r: "p = w" "w \<noteq> 0" "block_next s w = Some r" "path (block_next s) r ws 0" by auto
  have lt: "reserved_blocks s < block_num s \<longleftrightarrow> unat (reserved_blocks s) < n"
    using Cons.prems(3,5) by (simp add: word_less_nat_alt unat_of_nat_small)
  show ?case
  proof (cases "unat (reserved_blocks s) < n")
    case False
    have "s\<lparr>block_next := block_next s, block_num := of_nat n\<rparr> = s" using Cons.prems(3) by (cases s) simp
    with False lt Cons.prems(6) r(1) show ?thesis by (subst free_blocks_loop.simps) (simp add: restrict_UNIV)
  next
    case True
    let ?s = "free_block w s" and ?k = "min (length ws) (n - 1 - unat (reserved_blocks s))"
    have k: "k = Suc ?k" using Cons.prems(6) True by simp
    have "path ((block_next s)(w := None)) r ws 0" using r(4) Cons.prems(2) by (subst path_update) simp_all
    moreover have bn: "block_next ?s = (block_next s)(w := None)" by (simp add: free_block_def)
    ultimately have pw: "path (block_next ?s) r ws 0" by (simp only: bn)
    have nm: "block_num ?s = of_nat (n - 1)" using True Cons.prems(3) by (simp add: free_block_def)
    have "?k = min (length ws) (n - 1 - unat (reserved_blocks ?s))" by (simp add: free_block_def)
    from Cons.IH [OF pw _ nm _ _ this] Cons.prems(2,4,5)
    have "free_blocks_loop r ?s = Some (hd0 (drop ?k ws), ?s\<lparr>block_next := (block_next ?s) |` (- set (take ?k ws)),
        block_num := of_nat (n - 1 - ?k)\<rparr>)" by simp
    moreover have "((block_next s)(w := None)) |` (- set (take ?k ws)) = block_next s |` (- insert w (set (take ?k ws)))"
      by (auto simp: restrict_map_def)
    ultimately show ?thesis using True lt r k
      by (subst free_blocks_loop.simps) (simp add: free_block_def)
  qed
qed

lemma free_blocks_result:
  assumes b: "busy s us c vs"
  defines "k \<equiv> min (length vs - 1) (length (us @ c # vs) - unat (reserved_blocks s))"
  shows "\<exists>s'. free_blocks s = Some s' \<and> busy s' us c (take 1 vs @ drop (Suc k) vs)
    \<and> last_node s' = last_node s \<and> node_at s' = node_at s \<and> reserved_blocks s' = reserved_blocks s"
proof (cases vs)
  case Nil
  then show ?thesis using b busy_next [OF b] by (auto simp: free_blocks_def)
next
  case (Cons v ws)
  let ?n = "length (us @ c # vs)"
  have p: "path (block_next s) (first_block s) ((us @ [c, v]) @ ws) 0" and d: "distinct (us @ c # v # ws)"
    and dm: "dom (block_next s) = set (us @ c # v # ws)" "block_num s = of_nat ?n" "?n < 2 ^ 32"
    "last_block s = last (v # ws)" "disjoint_blocks (set (us @ c # v # ws))"
    using b by (simp_all add: busy_def blocks_def Cons)
  have cn: "block_next s c = Some v" "current_block s = c" "c \<noteq> 0" using busy_next [OF b] by (simp_all add: Cons)
  have v: "block_next s v = Some (hd0 ws)" "v \<noteq> 0" "path (block_next s) (hd0 ws) ws 0" "v \<noteq> c"
    using p d path_hd0 by auto
  let ?bn = "block_next s |` (- set (take k ws))"
  let ?s1 = "s\<lparr>block_next := ?bn, block_num := of_nat (?n - k)\<rparr>"
  have loop: "free_blocks_loop (hd0 ws) s = Some (hd0 (drop k ws), ?s1)"
    using v(3) d dm(2,3) by (intro free_blocks_loop_result) (auto simp: k_def Cons)
  have keep: "?bn c = Some v" "?bn v = Some (hd0 ws)" using cn v d set_take_subset [of k ws] by (auto simp: restrict_map_def)
  let ?s = "?s1\<lparr>block_next := ?bn(v \<mapsto> hd0 (drop k ws)),
      last_block := if drop k ws = [] then v else last_block s\<rparr>"
  have nz: "hd0 (drop k ws) = 0 \<longleftrightarrow> drop k ws = []"
    using path_nonnull [OF v(3)] set_drop_subset [of k ws] by (cases "drop k ws") (auto intro: gr0I)
  have fb: "free_blocks s = Some ?s"
    using cn v loop keep nz by (auto simp: free_blocks_def set_block_next_def)
  have dd: "set (take k ws) \<inter> set (drop k ws) = {}" "distinct (drop k ws)"
    using d by (auto simp: set_take_disj_set_drop_if_distinct)
  have "path ?bn (first_block s) (us @ [c, v]) (hd0 ws)"
  proof -
    have "path (block_next s) (first_block s) (us @ [c, v]) (hd0 ws)" using p path_hd0 by auto
    then show ?thesis
      by (rule path_frame) (use d set_take_subset [of k ws] in \<open>auto simp: restrict_map_def\<close>)
  qed
  from path_redirect [OF this _, of "hd0 (drop k ws)"] d
  have pre: "path (block_next ?s) (first_block s) (us @ [c, v]) (hd0 (drop k ws))" by simp
  have "path (block_next s) (hd0 ws) (take k ws @ drop k ws) 0" using v(3) by simp
  then obtain q where "path (block_next s) q (drop k ws) 0" by (auto simp del: append_take_drop_id)
  moreover from this have "q = hd0 (drop k ws)" by (rule path_hd0)
  moreover have "\<forall>b \<in> set (drop k ws). block_next ?s b = block_next s b"
  proof
    fix b assume "b \<in> set (drop k ws)"
    then have "b \<noteq> v" "b \<notin> set (take k ws)" using d dd(1) set_drop_subset [of k ws] by auto
    then show "block_next ?s b = block_next s b" by (simp add: restrict_map_def)
  qed
  ultimately have "path (block_next ?s) (hd0 (drop k ws)) (drop k ws) 0" using path_frame by blast
  with pre have "path (block_next ?s) (first_block s) ((us @ [c, v]) @ drop k ws) 0"
    unfolding path_append [of _ _ "us @ [c, v]"] by blast
  then have pt: "path (block_next ?s) (first_block ?s) (us @ c # v # drop k ws) 0" by simp
  have "set ws = set (take k ws) \<union> set (drop k ws)" by (metis append_take_drop_id set_append)
  then have "dom (block_next ?s) = set (us @ c # v # drop k ws)"
    using dm(1) d dd(1) by (auto simp: restrict_map_def dom_def split: if_splits)
  moreover have "length (us @ c # v # drop k ws) = ?n - k" by (simp add: k_def Cons)
  moreover have "disjoint_blocks (set (us @ c # v # drop k ws))"
    using dm(5) by (rule disjoint_blocks_mono) (use set_drop_subset [of k ws] in auto)
  moreover have "last_block ?s = last (us @ c # v # drop k ws)"
    using dm(4) by (auto simp: last_drop)
  moreover have "distinct (us @ c # v # drop k ws)" using d dd(2) set_drop_subset [of k ws] by auto
  ultimately have "blocks ?s (us @ c # v # drop k ws)" using pt dm(3) by (simp add: blocks_def)
  then have "busy ?s us c (v # drop k ws)" using b by (simp add: busy_def)
  then show ?thesis using fb by (intro exI [of _ ?s]) (simp add: Cons)
qed

lemma free_blocks_bound:
  assumes "busy s us c vs"
  shows "\<exists>s' vs'. free_blocks s = Some s' \<and> busy s' us c vs' \<and> last_node s' = last_node s \<and> node_at s' = node_at s
    \<and> length us + 1 + length vs' \<le> max (unat (reserved_blocks s)) (length us + 2)
    \<and> min (length (us @ c # vs)) (unat (reserved_blocks s)) \<le> length us + 1 + length vs'"
proof -
  let ?k = "min (length vs - 1) (length (us @ c # vs) - unat (reserved_blocks s))"
  have "length us + 1 + length (take 1 vs @ drop (Suc ?k) vs) \<le> max (unat (reserved_blocks s)) (length us + 2)
    \<and> min (length (us @ c # vs)) (unat (reserved_blocks s)) \<le> length us + 1 + length (take 1 vs @ drop (Suc ?k) vs)"
    by (cases vs) auto
  with free_blocks_result [OF assms] show ?thesis by blast
qed

lemma free_all_result:
  assumes b: "busy s us c vs"
  shows "\<exists>s' vs'. free_all_nodes s = Some s' \<and> busy s' [] (hd (us @ [c])) vs' \<and> used s' [] (hd (us @ [c])) = []
    \<and> length vs' + 1 \<le> max (unat (reserved_blocks s)) 2
    \<and> min (length (us @ c # vs)) (unat (reserved_blocks s)) \<le> length vs' + 1"
proof -
  obtain ds where ds: "us @ c # vs = hd (us @ [c]) # ds" by (cases us) auto
  let ?s = "s\<lparr>current_block := hd (us @ [c]), last_node := - 1\<rparr>"
  have "blocks s (hd (us @ [c]) # ds)" using b ds by (simp add: busy_def)
  then have "busy ?s [] (hd (us @ [c])) ds" by (simp add: busy_def)
  moreover have "first_block s = hd (us @ [c])"
    using b path_hd0 [of "block_next s" "first_block s" "us @ c # vs"] ds by (simp add: busy_def blocks_def)
  ultimately show ?thesis using free_blocks_bound [of ?s "[]" "hd (us @ [c])" ds]
    unfolding ds
    by (auto simp: free_all_nodes_def used_def numeral_2_eq_2)
qed

lemma free_all_idle: "idle s \<Longrightarrow> free_all_nodes s = Some s"
  by (cases s) (simp add: free_all_nodes_def idle_def free_blocks_def)

lemma not_in_other_block:
  assumes "disjoint_blocks B" and "a \<in> B" and "b \<in> B" and "a \<noteq> b" and "i < 16"
  shows "\<not> (node_addr a 0 \<le> node_addr b i \<and> node_addr b i \<le> node_addr a BLOCK_TRANX_NODES)"
proof
  assume "node_addr a 0 \<le> node_addr b i \<and> node_addr b i \<le> node_addr a BLOCK_TRANX_NODES"
  then have "node_addr b i - 1 \<in> block_range a" "node_addr b i - 1 \<in> block_range b"
    using assms(5) by (auto simp: node_addr_def block_range_def BLOCK_SIZE_def NODE_SIZE_def BLOCK_TRANX_NODES_def)
  with assms show False using disjoint_blocksD by blast
qed

lemma find_block_result:
  "path (block_next s) p (xs @ b # ys) q \<Longrightarrow> block_next s (current_block s) = Some q \<Longrightarrow> q \<notin> set (xs @ b # ys) \<Longrightarrow>
   disjoint_blocks (set (xs @ [b])) \<Longrightarrow> distinct (xs @ [b]) \<Longrightarrow> i < 16 \<Longrightarrow>
   find_block_loop (node_addr b i) s p pr = Some (b, last (pr # xs))"
proof (induction xs arbitrary: p pr)
  case Nil
  then show ?case
    by (subst find_block_loop.simps) (auto simp: node_addr_def NODE_SIZE_def BLOCK_TRANX_NODES_def)
next
  case (Cons x xs)
  obtain n where n: "p = x" "block_next s x = Some n" "path (block_next s) n (xs @ b # ys) q"
    using Cons.prems(1) by auto
  have "\<not> (node_addr x 0 \<le> node_addr b i \<and> node_addr b i \<le> node_addr x BLOCK_TRANX_NODES)"
    using Cons.prems by (intro not_in_other_block) auto
  moreover have "find_block_loop (node_addr b i) s n x = Some (b, last (x # xs))"
    using Cons.prems n by (intro Cons.IH) (auto elim: disjoint_blocks_mono)
  ultimately show ?case using n Cons.prems by (subst find_block_loop.simps) auto
qed

lemma rotate_blocks:
  assumes b: "blocks s (xs @ ys)" and ne: "xs \<noteq> []" "ys \<noteq> []"
  shows "blocks (s\<lparr>first_block := hd ys, last_block := last xs,
      block_next := (block_next s)(last ys \<mapsto> first_block s, last xs \<mapsto> 0)\<rparr>) (ys @ xs)"
proof -
  have "path (block_next s) (first_block s) (xs @ ys) 0" "distinct (xs @ ys)" using b by (simp_all add: blocks_def)
  from path_rotate [OF this ne] have
    "path ((block_next s)(last ys \<mapsto> first_block s, last xs \<mapsto> 0)) (hd ys) (ys @ xs) 0"
    using ne(2) by (cases ys) simp_all
  then show ?thesis using b ne last_in_set [OF ne(1)] last_in_set [OF ne(2)]
    by (auto simp: blocks_def Un_commute Int_commute)
qed

text \<open>Freeing before a node drops whole blocks of 16 from the front of the nodes in use.\<close>

lemma used_blocks: "x \<in> set (used s us c) \<Longrightarrow> last_node s < 16 \<Longrightarrow>
    \<exists>xs b ys i. us @ [c] = xs @ b # ys \<and> x = node_addr b i \<and> i < 16
      \<and> (ys = [] \<longrightarrow> i < nat (last_node s + 1))"
proof -
  assume x: "x \<in> set (used s us c)" and l: "last_node s < 16"
  then consider i where "x = node_addr c i" "i < nat (last_node s + 1)"
    | b i where "b \<in> set us" "x = node_addr b i" "i < 16"
    by (auto simp: used_def nodes_of_def BLOCK_TRANX_NODES_def)
  then show ?thesis
  proof cases
    case 1
    then show ?thesis using l by (intro exI [of _ us] exI [of _ c] exI [of _ "[]"] exI [of _ i]) auto
  next
    case 2
    then obtain xs ys where "us = xs @ b # ys" using split_list by metis
    then show ?thesis using 2 by (intro exI [of _ xs] exI [of _ b] exI [of _ "ys @ [c]"] exI [of _ i]) simp
  qed
qed

lemma drop_used: "us @ [c] = xs @ us' @ [c] \<Longrightarrow> used s us' c = drop (16 * length xs) (used s us c)"
proof -
  have "length (concat (map nodes_of xs)) = 16 * length xs" for xs by (induction xs) simp_all
  moreover assume "us @ [c] = xs @ us' @ [c]"
  then have "us = xs @ us'" by simp
  ultimately show ?thesis by (simp add: used_def)
qed

lemma in_first_block:
  assumes "us' @ [c] = b # ys" and "i < 16" and "ys = [] \<longrightarrow> i < nat (last_node s + 1)" and "last_node s < 16"
  shows "node_addr b i \<in> set (take 16 (used s us' c))"
proof (cases us')
  case Nil
  then show ?thesis using assms by (simp add: used_def)
next
  case (Cons e es)
  then have "used s us' c = nodes_of b @ concat (map nodes_of es) @ map (node_addr c) [0..<nat (last_node s + 1)]"
    using assms(1) by (simp add: used_def)
  then show ?thesis using assms(2) by (auto simp: nodes_of_def BLOCK_TRANX_NODES_def)
qed

lemma not_in_later_blocks:
  assumes "distinct zs" and "x \<in> set (take n zs)"
  shows "x \<notin> set (drop n zs)"
  using assms set_take_disj_set_drop_if_distinct [of zs n n] by auto

text \<open>Freeing before a node drops whole blocks of 16 from the front of the nodes in use.\<close>

lemma free_nodes_before_result:
  assumes b: "busy s us c vs" and x: "x \<in> set (used s us c)"
  shows "\<exists>s' us' vs' i. free_nodes_before x s = Some (False, s') \<and> busy s' us' c vs'
    \<and> used s' us' c = drop (16 * i) (used s us c) \<and> x \<in> set (take 16 (used s' us' c)) \<and> node_at s' = node_at s"
proof -
  have l: "last_node s < 16" "blocks s (us @ c # vs)" "current_block s = c"
    using b by (simp_all add: busy_def)
  obtain xs e ys i where e: "us @ [c] = xs @ e # ys" "x = node_addr e i" "i < 16"
    "ys = [] \<longrightarrow> i < nat (last_node s + 1)" using used_blocks [OF x l(1)] by blast
  let ?us = "butlast (e # ys)"
  have us: "e # ys = ?us @ [c]" by (metis e(1) append_butlast_last_id last_appendR last_snoc list.distinct(1))
  have bl: "us @ c # vs = xs @ e # ys @ vs" using e(1) by (metis append.assoc append_Cons append_Nil)
  have p: "path (block_next s) (first_block s) (us @ [c]) (hd0 vs)" and d: "distinct (us @ c # vs)"
    "disjoint_blocks (set (us @ c # vs))"
    using l(2) path_hd0 by (auto simp: blocks_def)
  have q: "hd0 vs \<notin> set (us @ [c])"
    using path_nonnull [OF p] d(1) by (cases vs) auto
  have dd: "disjoint_blocks (set (xs @ [e]))" "distinct (xs @ [e])"
    using d unfolding bl by (auto elim: disjoint_blocks_mono)
  have "block_next s (current_block s) = Some (hd0 vs)" using busy_next [OF b] by simp
  from find_block_result [OF p [unfolded e(1)] this q [unfolded e(1)] dd e(3)]
  have find: "find_block_loop x s (first_block s) 0 = Some (e, last (0 # xs))" unfolding e(2) .
  have en: "e \<noteq> 0" using path_nonnull [OF p] unfolding e(1) by auto
  have used': "used s ?us c = drop (16 * length xs) (used s us c)"
    by (rule drop_used) (use e(1) us in simp)
  have first: "x \<in> set (take 16 (used s ?us c))"
    unfolding e(2) by (rule in_first_block [OF us [symmetric] e(3,4) l(1)])
  show ?thesis
  proof (cases "xs = []")
    case True
    have "us @ [c] = ?us @ [c]" using e(1) us True by simp
    then have "us = ?us" by simp
    moreover have "first_block s = e" using p e(1) True by simp
    ultimately show ?thesis
      using find en b first used' True
      by (intro exI [of _ s] exI [of _ ?us] exI [of _ vs] exI [of _ 0]) (simp add: free_nodes_before_def)
  next
    case False
    have es: "e # ys @ vs = ?us @ c # vs" using us by (metis append.assoc append_Cons append_Nil)
    have le: "last (e # ys @ vs) = last (c # vs)" unfolding es by (simp only: last_append list.distinct if_False)
    let ?s = "s\<lparr>first_block := e, last_block := last xs,
      block_next := (block_next s)(last (c # vs) \<mapsto> first_block s, last xs \<mapsto> 0)\<rparr>"
    have "blocks s (xs @ (e # ys @ vs))" using l(2) by (simp only: bl)
    from rotate_blocks [OF this False] have "blocks ?s ((e # ys @ vs) @ xs)" unfolding le by simp
    then have "blocks ?s (?us @ c # (vs @ xs))" unfolding es by simp
    then have bs: "busy ?s ?us c (vs @ xs)" using b by (simp add: busy_def)
    obtain s' ws where s': "free_blocks ?s = Some s'" "busy s' ?us c ws" "last_node s' = last_node s"
      "node_at s' = node_at s"
      using free_blocks_result [OF bs] by auto
    have lb: "last_block s = last (c # vs)" "last (c # vs) \<in> dom (block_next s)" "last xs \<in> dom (block_next s)"
      "first_block s \<noteq> e"
    proof -
      have dm: "dom (block_next s) = set (us @ c # vs)" "last_block s = last (us @ c # vs)"
        using l(2) by (simp_all only: blocks_def)
      show "last_block s = last (c # vs)" using dm(2) by simp
      show "last (c # vs) \<in> dom (block_next s)" unfolding dm(1) using last_in_set [of "c # vs"] by auto
      show "last xs \<in> dom (block_next s)" unfolding dm(1) bl using False by simp
      have "first_block s = hd xs" using p False unfolding e(1) by (cases xs) auto
      then show "first_block s \<noteq> e" using dd(2) False by (cases xs) auto
    qed
    have "free_nodes_before x s = Some (False, s')"
      using find en lb False s'(1)
      by (auto simp: free_nodes_before_def set_block_next_def split: if_splits)
    moreover have "used s' ?us c = used s ?us c" using s'(3) by (simp add: used_def)
    ultimately show ?thesis using s' used' first by metis
  qed
qed

lemma destroy_loop_result:
  "path (block_next s) p ws 0 \<Longrightarrow> distinct ws \<Longrightarrow> block_num s = of_nat n \<Longrightarrow> length ws \<le> n \<Longrightarrow>
   destroy_loop p s = Some (s\<lparr>block_next := (block_next s) |` (- set ws), block_num := of_nat (n - length ws)\<rparr>)"
proof (induction ws arbitrary: p s n)
  case Nil
  have "s\<lparr>block_next := block_next s, block_num := of_nat n\<rparr> = s" using Nil.prems(3) by (cases s) simp
  with Nil show ?case by (subst destroy_loop.simps) (simp add: restrict_UNIV)
next
  case (Cons w ws)
  from Cons.prems(1) obtain r where r: "p = w" "w \<noteq> 0" "block_next s w = Some r" "path (block_next s) r ws 0" by auto
  let ?s = "free_block w s"
  have "path ((block_next s)(w := None)) r ws 0" using r(4) Cons.prems(2) by (subst path_update) simp_all
  moreover have bn: "block_next ?s = (block_next s)(w := None)" by (simp add: free_block_def)
  ultimately have pw: "path (block_next ?s) r ws 0" by (simp only: bn)
  have nm: "block_num ?s = of_nat (n - 1)" using Cons.prems(3,4) by (simp add: free_block_def)
  from Cons.IH [OF pw _ nm] Cons.prems(2,4)
  have "destroy_loop r ?s = Some (?s\<lparr>block_next := (block_next ?s) |` (- set ws), block_num := of_nat (n - 1 - length ws)\<rparr>)"
    by simp
  moreover have "((block_next s)(w := None)) |` (- set ws) = block_next s |` (- insert w (set ws))"
    by (auto simp: restrict_map_def)
  ultimately show ?case using r by (subst destroy_loop.simps) (simp add: free_block_def)
qed

lemma destroy_result:
  assumes "blocks s bs"
  shows "\<exists>s'. destroy_tranx_alloc s = Some s' \<and> block_next s' = Map.empty \<and> block_num s' = 0"
proof -
  have "path (block_next s) (first_block s) bs 0" "distinct bs" "block_num s = of_nat (length bs)" "dom (block_next s) = set bs"
    using assms by (simp_all add: blocks_def)
  moreover from this(4) have "block_next s |` (- set bs) = Map.empty"
    by (auto simp: restrict_map_def fun_eq_iff)
  ultimately show ?thesis using destroy_loop_result [of s "first_block s" bs "length bs"]
    by (simp add: destroy_tranx_alloc_def)
qed

lemma destroy_idle: "idle s \<Longrightarrow> destroy_tranx_alloc s = Some s"
  by (simp add: destroy_tranx_alloc_def idle_def destroy_loop.simps)

section \<open>Reachable states\<close>

text \<open>
  The allocator together with the nodes its user holds, in the order of their allocation: the user may
  write to the nodes it holds, free all of them, or free those before one it holds.
\<close>

inductive reach :: "(tranx_alloc \<Rightarrow> ptr) \<Rightarrow> tranx_alloc \<Rightarrow> ptr list \<Rightarrow> bool" for malloc where
  r_init: "reach malloc (mk_tranx_alloc n m) []"
| r_allocate: "reach malloc s L \<Longrightarrow> allocate_node malloc s = Some (x, s') \<Longrightarrow>
    reach malloc s' (if x = 0 then L else L @ [x])"
| r_store: "reach malloc s L \<Longrightarrow> x \<in> set L \<Longrightarrow> reach malloc (s\<lparr>node_at := (node_at s)(x := n)\<rparr>) L"
| r_free_all: "reach malloc s L \<Longrightarrow> free_all_nodes s = Some s' \<Longrightarrow> reach malloc s' []"
| r_free_before: "reach malloc s L \<Longrightarrow> x \<in> set L \<Longrightarrow> free_nodes_before x s = Some (r, s') \<Longrightarrow>
    reach malloc s' (dropWhile (\<lambda>y. y \<noteq> x) L)"

inductive_cases reach_cases: "reach malloc s L"

definition held :: "tranx_alloc \<Rightarrow> ptr list \<Rightarrow> bool" where
  "held s L \<longleftrightarrow> idle s \<and> L = [] \<or> (\<exists>us c vs i. busy s us c vs \<and> L = drop i (used s us c))"

lemma dropWhile_drop:
  assumes "distinct zs" and "x \<in> set (drop j zs)"
  shows "dropWhile (\<lambda>y. y \<noteq> x) (drop j zs) = dropWhile (\<lambda>y. y \<noteq> x) zs"
proof -
  have "x \<notin> set (take j zs)" using assms set_take_disj_set_drop_if_distinct [of zs j j] by auto
  then have "dropWhile (\<lambda>y. y \<noteq> x) (take j zs @ drop j zs) = dropWhile (\<lambda>y. y \<noteq> x) (drop j zs)"
    by (intro dropWhile_append2) auto
  then show ?thesis by simp
qed

lemma held_append: "busy s us c vs \<Longrightarrow> busy s' us' c' vs' \<Longrightarrow> used s' us' c' = used s us c @ [x] \<Longrightarrow>
    i \<le> length (used s us c) \<Longrightarrow> held s' (drop i (used s us c) @ [x])"
  unfolding held_def by (intro disjI2 exI [of _ us'] exI [of _ c'] exI [of _ vs'] exI [of _ i]) simp

lemma used_nonnull: "x \<in> set (used s us c) \<Longrightarrow> x \<noteq> 0"
  by (auto simp: used_def nodes_of_def node_addr_def)

text \<open>One allocation.\<close>

lemma held_extend:
  assumes "busy s us c vs" and "busy s' us' c' vs'" and "used s' us' c' = used s us c @ [x]"
    and "L = drop i (used s us c)"
  shows "x \<noteq> 0 \<and> x \<notin> set L \<and> held s' (L @ [x])"
proof -
  have "distinct (used s us c @ [x])" using busy_used_distinct [OF assms(2)] assms(3) by simp
  moreover have "set L \<subseteq> set (used s us c)" using assms(4) set_drop_subset by metis
  moreover have "x \<noteq> 0" using used_nonnull [of x s' us' c'] assms(3) by simp
  moreover have "L @ [x] = drop (min i (length (used s us c))) (used s' us' c')"
    using assms(3,4) by (cases "i \<le> length (used s us c)") (simp_all add: min_def)
  then have "held s' (L @ [x])" using assms(2) unfolding held_def by blast
  ultimately show ?thesis by auto
qed

lemma held_allocate:
  assumes h: "held s L" and m: "malloc_ok malloc"
  shows "\<exists>x s'. allocate_node malloc s = Some (x, s')
    \<and> (x = 0 \<and> s' = s \<or> (x \<noteq> 0 \<and> x \<notin> set L \<and> held s' (L @ [x])) \<and> node_ready s' x
         \<and> (\<forall>y. y \<noteq> x \<longrightarrow> node_at s' y = node_at s y))"
proof (cases "idle s \<and> L = []")
  case True
  obtain x s' where a: "allocate_node malloc s = Some (x, s')"
    "x = 0 \<and> s' = s \<or> (\<exists>v. busy s' [] v [] \<and> used s' [] v = [x] \<and> node_ready s' x
       \<and> (\<forall>y. y \<noteq> x \<longrightarrow> node_at s' y = node_at s y))"
    using allocate_first_block [OF _ m] True by blast
  moreover have "x \<noteq> 0 \<and> held s' [x]" if "busy s' [] v []" "used s' [] v = [x]" for v
  proof -
    have "x \<noteq> 0" using used_nonnull [of x s' "[]" v] that(2) by simp
    moreover have "[x] = drop 0 (used s' [] v)" using that(2) by simp
    ultimately show ?thesis using that(1) unfolding held_def by blast
  qed
  ultimately show ?thesis using True by auto
next
  case False
  then obtain us c vs i where b: "busy s us c vs" "L = drop i (used s us c)" using h by (auto simp: held_def)
  have "last_node s < 15 \<or> last_node s = 15" using b(1) by (auto simp: busy_def)
  then consider (inside) "last_node s < 15" | (follow) v ws where "last_node s = 15" "vs = v # ws"
    | (full) "last_node s = 15" "vs = []"
    by (cases vs) blast+
  then show ?thesis
  proof cases
    case inside
    show ?thesis using allocate_in_block [OF b(1) inside, of malloc] held_extend [OF b(1) _ _ b(2)] by metis
  next
    case follow
    show ?thesis using allocate_next_block [OF b(1) [unfolded follow(2)] follow(1), of malloc] held_extend [OF b(1) _ _ b(2)] by metis
  next
    case full
    show ?thesis using allocate_new_block [OF b(1) [unfolded full(2)] full(1) m] held_extend [OF b(1) _ _ b(2)] by metis
  qed
qed

lemma held_free_before:
  assumes h: "held s L" and x: "x \<in> set L"
  shows "\<exists>s'. free_nodes_before x s = Some (False, s') \<and> held s' (dropWhile (\<lambda>y. y \<noteq> x) L) \<and> node_at s' = node_at s"
proof -
  obtain us c vs i where b: "busy s us c vs" and L: "L = drop i (used s us c)"
    using assms by (auto simp: held_def)
  have xu: "x \<in> set (used s us c)" using x L set_drop_subset by fast
  from free_nodes_before_result [OF b xu] obtain s' us' vs' j where f: "free_nodes_before x s = Some (False, s')"
    "busy s' us' c vs'" "used s' us' c = drop (16 * j) (used s us c)" "x \<in> set (take 16 (used s' us' c))"
    "node_at s' = node_at s" by blast
  have d: "distinct (used s us c)" by (rule busy_used_distinct [OF b])
  have "x \<in> set (drop (16 * j) (used s us c))" using in_set_takeD [OF f(4)] f(3) by simp
  then have "dropWhile (\<lambda>y. y \<noteq> x) L = dropWhile (\<lambda>y. y \<noteq> x) (used s' us' c)"
    using dropWhile_drop [OF d, of x i] dropWhile_drop [OF d, of x "16 * j"] x L f(3) by simp
  then have "\<exists>k. dropWhile (\<lambda>y. y \<noteq> x) L = drop k (used s' us' c)" using dropWhile_eq_drop by metis
  then have "held s' (dropWhile (\<lambda>y. y \<noteq> x) L)" using f(2) unfolding held_def by blast
  then show ?thesis using f by blast
qed

lemma held_free_all:
  assumes "held s L"
  shows "\<exists>s'. free_all_nodes s = Some s' \<and> held s' []"
proof (cases "idle s")
  case True
  then show ?thesis using free_all_idle by (auto simp: held_def)
next
  case False
  then obtain us c vs where "busy s us c vs" using assms by (auto simp: held_def)
  from free_all_result [OF this] obtain s' vs' where "free_all_nodes s = Some s'" "busy s' [] (hd (us @ [c])) vs'"
    "used s' [] (hd (us @ [c])) = []" by blast
  moreover from this(3) have "[] = drop 0 (used s' [] (hd (us @ [c])))" by simp
  ultimately show ?thesis unfolding held_def by blast
qed

lemma held_store: "held s L \<Longrightarrow> held (s\<lparr>node_at := m\<rparr>) L"
  by (auto simp: held_def idle_def busy_def used_def)

lemma reach_held:
  assumes "malloc_ok malloc"
  shows "reach malloc s L \<Longrightarrow> held s L"
proof (induction rule: reach.induct)
  case (r_init n m)
  then show ?case by (simp add: held_def idle_def mk_tranx_alloc_def)
next
  case (r_allocate s L x s')
  then show ?case using held_allocate [OF r_allocate.IH assms] by auto
next
  case (r_store s L x n)
  then show ?case by (simp add: held_store)
next
  case (r_free_all s L s')
  then show ?case using held_free_all by fastforce
next
  case (r_free_before s L x r s')
  then show ?case using held_free_before by fastforce
qed

section \<open>Properties\<close>

text \<open>
  C26. In every state the allocator can reach, whatever its user does with the nodes it holds: the nodes held
  are pairwise different; an allocation succeeds with a cleared node that is not in use and leaves the
  others alone, or fails and changes nothing; freeing before a node held succeeds; freeing all succeeds; and
  the destructor returns every block to the system.
\<close>

theorem allocator_safe:
  assumes "malloc_ok malloc" and "reach malloc s L"
  shows "distinct L
    \<and> (\<exists>x s'. allocate_node malloc s = Some (x, s') \<and>
         (x = 0 \<and> s' = s \<or> x \<noteq> 0 \<and> x \<notin> set L \<and> node_ready s' x \<and> (\<forall>y. y \<noteq> x \<longrightarrow> node_at s' y = node_at s y)))
    \<and> (\<forall>x \<in> set L. \<exists>s'. free_nodes_before x s = Some (False, s') \<and> node_at s' = node_at s)
    \<and> (\<exists>s'. free_all_nodes s = Some s')
    \<and> (\<exists>s'. destroy_tranx_alloc s = Some s' \<and> block_next s' = Map.empty \<and> block_num s' = 0)"
proof -
  have h: "held s L" by (rule reach_held [OF assms])
  have "distinct L \<and> (\<exists>s'. destroy_tranx_alloc s = Some s' \<and> block_next s' = Map.empty \<and> block_num s' = 0)"
  proof (cases "idle s \<and> L = []")
    case True
    then show ?thesis using destroy_idle by (auto simp: idle_def)
  next
    case False
    then obtain us c vs i where "busy s us c vs" "L = drop i (used s us c)" using h by (auto simp: held_def)
    then show ?thesis using busy_used_distinct destroy_result by (auto simp: busy_def)
  qed
  then show ?thesis using held_allocate [OF h assms(1)] held_free_before [OF h] held_free_all [OF h] by blast
qed

definition example_malloc :: "tranx_alloc \<Rightarrow> ptr" where
  "example_malloc s = (if dom (block_next s) = {} then 100000 else 0)"

definition example_node :: Tranx_node where
  "example_node = \<lparr>log_name = ''x'', thd_valid = True, log_pos = 7, thd = 1, tn_next = 2, hash_next = 3\<rparr>"

lemma example_malloc_ok: "malloc_ok example_malloc"
  by (auto simp: malloc_ok_def example_malloc_def)

definition example_busy :: "ptr \<times> tranx_alloc" where
  "example_busy = the (allocate_node example_malloc (mk_tranx_alloc 5 (\<lambda>_. example_node)))"

lemma example_allocates:
  "allocate_node example_malloc (mk_tranx_alloc 5 (\<lambda>_. example_node)) = Some (100008, snd example_busy)"
  by (simp add: example_busy_def allocate_node_def allocate_block_def mk_tranx_alloc_def BLOCK_TRANX_NODES_def
      example_malloc_def node_addr_def)

lemma example_reach: "reach example_malloc (snd example_busy) [100008]"
  using r_allocate [OF r_init example_allocates] by simp

lemma allocator_safe_witness:
  "\<exists>s'. free_nodes_before 100008 (snd example_busy) = Some (False, s')"
  using allocator_safe [OF example_malloc_ok example_reach] by auto

text \<open>
  Freeing all nodes gives memory back within bounds: in every reachable state it keeps at most the
  reserved blocks, or two when fewer are reserved, and it never goes below the reserve when that many
  blocks were there.
\<close>

theorem free_all_bounded:
  assumes "malloc_ok malloc" and "reach malloc s L"
  shows "\<exists>s'. free_all_nodes s = Some s' \<and> card (dom (block_next s')) \<le> max (unat (reserved_blocks s)) 2
    \<and> min (card (dom (block_next s))) (unat (reserved_blocks s)) \<le> card (dom (block_next s'))"
proof (cases "idle s")
  case True
  then show ?thesis using free_all_idle by (auto simp: idle_def)
next
  case False
  then obtain us c vs where "busy s us c vs" using reach_held [OF assms] by (auto simp: held_def)
  moreover have "card (dom (block_next s)) = length (us @ c # vs)" if "busy s us c vs" for s us c vs
    using that distinct_card [of "us @ c # vs"] by (simp add: busy_def blocks_def)
  ultimately show ?thesis using free_all_result [of s us c vs] by fastforce
qed

lemma example_blocks:
  "reserved_blocks (snd example_busy) = 2 \<and> dom (block_next (snd example_busy)) = {100000}"
  by (simp add: example_busy_def allocate_node_def allocate_block_def mk_tranx_alloc_def BLOCK_TRANX_NODES_def
      example_malloc_def Let_def)

lemma free_all_bounded_witness:
  "\<exists>s'. free_all_nodes (snd example_busy) = Some s' \<and> card (dom (block_next s')) \<in> {1, 2}"
proof -
  obtain s' where "free_all_nodes (snd example_busy) = Some s'" "card (dom (block_next s')) \<le> 2"
    "1 \<le> card (dom (block_next s'))"
    using free_all_bounded [OF example_malloc_ok example_reach] example_blocks by auto
  moreover from this(2,3) have "card (dom (block_next s')) \<in> {1, 2}" by auto
  ultimately show ?thesis by blast
qed

end
