(* ===== verification/Flat_Memory.thy ===== *)
theory Flat_Memory
  imports Prelude
begin

text \<open>
  Flat memory for the components that work on bytes in place: addresses are 64-bit words and memory is a map
  from addresses to bytes, so that pointer arithmetic and comparisons are those of the shipped build.
\<close>

section \<open>Memory\<close>

type_synonym addr = "64 word"
type_synonym memory = "addr \<Rightarrow> uchar"

definition memcpy :: "addr \<Rightarrow> addr \<Rightarrow> csize \<Rightarrow> memory \<Rightarrow> memory" where
  "memcpy to src n m = (\<lambda>a. if a - to < n then m (src + (a - to)) else m a)"

definition region :: "memory \<Rightarrow> nat \<Rightarrow> nat \<Rightarrow> uchar list" where
  "region m a n = map (\<lambda>i. m (of_nat (a + i))) [0..<n]"

definition bytes_at :: "memory \<Rightarrow> addr \<Rightarrow> csize \<Rightarrow> uchar list" where
  "bytes_at m p n = region m (unat p) (unat n)"

section \<open>Regions of memory\<close>

lemma length_region [simp]: "length (region m a n) = n"
  by (simp add: region_def)

lemma region_0 [simp]: "region m a 0 = []"
  by (simp add: region_def)

lemma region_append: "region m a (n + k) = region m a n @ region m (a + n) k"
proof -
  have "[0..<n + k] = [0..<n] @ [n..<n + k]" by (rule upt_add_eq_append) simp
  moreover have "[n..<n + k] = map (\<lambda>i. i + n) [0..<k]" by (simp only: map_add_upt add_0 add.commute)
  ultimately show ?thesis by (simp add: region_def o_def add.left_commute add.commute del: of_nat_add)
qed

lemma region_cong: "(\<And>i. a \<le> i \<Longrightarrow> i < a + n \<Longrightarrow> m (of_nat i) = m' (of_nat i)) \<Longrightarrow> region m a n = region m' a n"
  by (simp add: region_def del: of_nat_add)

lemma region_memcpy:
  assumes "unat to + unat n \<le> 2 ^ 64"
  shows "region (memcpy to src n m) (unat to) (unat n) = bytes_at m src n"
proof -
  have "memcpy to src n m (of_nat (unat to + i)) = m (of_nat (unat src + i))" if "i < unat n" for i
  proof -
    have "unat (of_nat i :: addr) = i" using that unat_less_2p [of n] by (intro unat_of_nat_small) simp
    then show ?thesis using that by (simp add: memcpy_def word_less_nat_alt)
  qed
  then show ?thesis by (simp add: bytes_at_def region_def)
qed

lemma memcpy_0 [simp]: "memcpy to src 0 m = m"
  by (simp add: memcpy_def fun_eq_iff)

lemma memcpy_outside:
  assumes "unat to + unat n \<le> 2 ^ 64" and "unat a < unat to \<or> unat to + unat n \<le> unat a"
  shows "memcpy to src n m a = m a"
proof -
  have "unat (a - to) = (if unat to \<le> unat a then unat a - unat to else unat a + 2 ^ 64 - unat to)"
    by (simp add: unat_sub_if_size word_size)
  then have "\<not> a - to < n" using assms unat_less_2p [of to] unat_less_2p [of a]
    by (auto simp: word_less_nat_alt)
  then show ?thesis by (simp add: memcpy_def)
qed

lemma region_memcpy_other:
  assumes "a + k \<le> unat to \<or> unat to + unat n \<le> a" and "a + k \<le> 2 ^ 64" and "unat to + unat n \<le> 2 ^ 64"
  shows "region (memcpy to src n m) a k = region m a k"
proof (rule region_cong)
  fix i assume "a \<le> i" "i < a + k"
  moreover from this have "unat (of_nat i :: addr) = i" using assms(2) by (intro unat_of_nat_small) simp
  ultimately show "memcpy to src n m (of_nat i) = m (of_nat i)" using assms by (intro memcpy_outside) auto
qed

lemma length_bytes_at [simp]: "length (bytes_at m p n) = unat n"
  by (simp add: bytes_at_def)

lemma region_split3:
  assumes "region m a (n + k + j) = x @ y @ z" and "length x = n" and "length y = k"
  shows "region m a n = x" and "region m (a + n) k = y" and "region m (a + (n + k)) j = z"
proof -
  have "region m a (n + k + j) = region m a n @ region m (a + n) k @ region m (a + (n + k)) j"
    by (simp add: region_append add.assoc)
  then show "region m a n = x" "region m (a + n) k = y" "region m (a + (n + k)) j = z"
    using assms by simp_all
qed

lemma region_split3_end:
  assumes "region m a (j + (n + k)) = z @ x @ y" and "length x = n" and "length y = k"
  shows "region m a j = z" and "region m (a + j) n = x" and "region m (a + (j + n)) k = y"
proof -
  have "length z = j" using arg_cong [OF assms(1), of length] assms(2,3) by simp
  moreover have "region m a (j + (n + k)) = region m a j @ region m (a + j) n @ region m (a + (j + n)) k"
    by (simp add: region_append add.assoc)
  ultimately show "region m a j = z" "region m (a + j) n = x" "region m (a + (j + n)) k = y"
    using assms by simp_all
qed

end
