(* ===== verification/Lifo_Buffer.thy ===== *)
theory Lifo_Buffer
  imports Simulation Flat_Memory "HOL-Library.Monad_Syntax"
begin

text \<open>
  The last-in-first-out buffers of the multi-range-read scans (\<open>sql_lifo_buffer.h\<close>): byte strings, or
  pairs of them, of fixed sizes stacked in memory of the user, from its start upwards
  (\<open>Forward_lifo_buffer\<close>) or from its end downwards (\<open>Backward_lifo_buffer\<close>). Addresses are 64-bit words and
  memory is a map from addresses to bytes, so that pointer arithmetic and comparisons are those of the
  shipped build; assertions, which it leaves out, have no effect. The virtual functions dispatch on the
  direction of the buffer.
\<close>

section \<open>Buffers\<close>

datatype enum_direction = BACKWARD | FORWARD

record Lifo_buffer =
  lb_type :: enum_direction
  size1 :: csize
  size2 :: csize
  write_ptr1 :: addr
  write_ptr2 :: addr
  read_ptr1 :: addr
  read_ptr2 :: addr
  lb_start :: addr
  lb_end :: addr
  lb_pos :: addr

subsection \<open>Forward\<close>

definition fw_used_size :: "Lifo_buffer \<Rightarrow> csize" where
  "fw_used_size b = lb_pos b - lb_start b"

definition fw_reset :: "Lifo_buffer \<Rightarrow> Lifo_buffer" where
  "fw_reset b = b\<lparr>lb_pos := lb_start b\<rparr>"

definition fw_end_of_space :: "Lifo_buffer \<Rightarrow> addr" where
  "fw_end_of_space b = lb_pos b"

definition fw_have_space_for :: "csize \<Rightarrow> Lifo_buffer \<Rightarrow> bool" where
  "fw_have_space_for bytes b \<longleftrightarrow> lb_pos b + bytes < lb_end b"

definition fw_write_bytes :: "addr \<Rightarrow> csize \<Rightarrow> Lifo_buffer \<times> memory \<Rightarrow> Lifo_buffer \<times> memory" where
  "fw_write_bytes data bytes = (\<lambda>(b, m). (b\<lparr>lb_pos := lb_pos b + bytes\<rparr>, memcpy (lb_pos b) data bytes m))"

definition fw_write :: "Lifo_buffer \<times> memory \<Rightarrow> Lifo_buffer \<times> memory" where
  "fw_write = (\<lambda>(b, m).
     let s = fw_write_bytes (write_ptr1 b) (size1 b) (b, m)
     in if size2 b \<noteq> 0 then fw_write_bytes (write_ptr2 b) (size2 b) s else s)"

definition fw_have_data :: "addr \<Rightarrow> csize \<Rightarrow> Lifo_buffer \<Rightarrow> bool" where
  "fw_have_data position bytes b \<longleftrightarrow> sint bytes \<le> sint (position - lb_start b)"

definition fw_read_bytes :: "addr \<Rightarrow> csize \<Rightarrow> addr \<times> addr" where
  "fw_read_bytes position bytes = (let position = position - bytes in (position, position))"

text \<open>Reads take and return the position and both data pointers; the flag is true at the end of the data.\<close>

definition fw_read_at :: "Lifo_buffer \<Rightarrow> addr \<times> addr \<times> addr \<Rightarrow> bool \<times> addr \<times> addr \<times> addr" where
  "fw_read_at b = (\<lambda>(position, ptr1, ptr2).
     if \<not> fw_have_data position (size1 b + size2 b) b then (True, position, ptr1, ptr2)
     else let (ptr2, position) = (if size2 b \<noteq> 0 then fw_read_bytes position (size2 b) else (ptr2, position));
              (ptr1, position) = fw_read_bytes position (size1 b)
          in (False, position, ptr1, ptr2))"

definition fw_read :: "Lifo_buffer \<Rightarrow> bool \<times> Lifo_buffer" where
  "fw_read b = (let (eof, position, ptr1, ptr2) = fw_read_at b (lb_pos b, read_ptr1 b, read_ptr2 b)
     in (eof, b\<lparr>lb_pos := position, read_ptr1 := ptr1, read_ptr2 := ptr2\<rparr>))"

definition fw_remove_unused_space :: "addr \<times> addr \<Rightarrow> Lifo_buffer \<Rightarrow> (addr \<times> addr) \<times> Lifo_buffer" where
  "fw_remove_unused_space unused b = (unused, b)"

definition fw_grow :: "addr \<Rightarrow> addr \<Rightarrow> Lifo_buffer \<Rightarrow> Lifo_buffer" where
  "fw_grow unused_start unused_end b = b\<lparr>lb_end := unused_end\<rparr>"

definition fw_used_area :: "Lifo_buffer \<Rightarrow> addr" where
  "fw_used_area b = lb_start b"

definition fw_get_pos :: "Lifo_buffer \<Rightarrow> addr" where
  "fw_get_pos b = lb_pos b"

subsection \<open>Backward\<close>

definition bw_used_size :: "Lifo_buffer \<Rightarrow> csize" where
  "bw_used_size b = lb_end b - lb_pos b"

definition bw_reset :: "Lifo_buffer \<Rightarrow> Lifo_buffer" where
  "bw_reset b = b\<lparr>lb_pos := lb_end b\<rparr>"

definition bw_end_of_space :: "Lifo_buffer \<Rightarrow> addr" where
  "bw_end_of_space b = lb_end b"

definition bw_have_space_for :: "csize \<Rightarrow> Lifo_buffer \<Rightarrow> bool" where
  "bw_have_space_for bytes b \<longleftrightarrow> lb_start b \<le> lb_pos b - bytes"

definition bw_write_bytes :: "addr \<Rightarrow> csize \<Rightarrow> Lifo_buffer \<times> memory \<Rightarrow> Lifo_buffer \<times> memory" where
  "bw_write_bytes data bytes = (\<lambda>(b, m).
     let b = b\<lparr>lb_pos := lb_pos b - bytes\<rparr> in (b, memcpy (lb_pos b) data bytes m))"

definition bw_write :: "Lifo_buffer \<times> memory \<Rightarrow> Lifo_buffer \<times> memory" where
  "bw_write = (\<lambda>(b, m).
     let s = (if write_ptr2 b \<noteq> 0 then bw_write_bytes (write_ptr2 b) (size2 b) (b, m) else (b, m))
     in bw_write_bytes (write_ptr1 b) (size1 b) s)"

definition bw_have_data :: "addr \<Rightarrow> csize \<Rightarrow> Lifo_buffer \<Rightarrow> bool" where
  "bw_have_data position bytes b \<longleftrightarrow> sint bytes \<le> sint (lb_end b - position)"

definition bw_read_bytes :: "addr \<Rightarrow> csize \<Rightarrow> addr \<times> addr" where
  "bw_read_bytes position bytes = (position, position + bytes)"

definition bw_read_at :: "Lifo_buffer \<Rightarrow> addr \<times> addr \<times> addr \<Rightarrow> bool \<times> addr \<times> addr \<times> addr" where
  "bw_read_at b = (\<lambda>(position, ptr1, ptr2).
     if \<not> bw_have_data position (size1 b + size2 b) b then (True, position, ptr1, ptr2)
     else let (ptr1, position) = bw_read_bytes position (size1 b);
              (ptr2, position) = (if size2 b \<noteq> 0 then bw_read_bytes position (size2 b) else (ptr2, position))
          in (False, position, ptr1, ptr2))"

definition bw_read :: "Lifo_buffer \<Rightarrow> bool \<times> Lifo_buffer" where
  "bw_read b = (let (eof, position, ptr1, ptr2) = bw_read_at b (lb_pos b, read_ptr1 b, read_ptr2 b)
     in (eof, b\<lparr>lb_pos := position, read_ptr1 := ptr1, read_ptr2 := ptr2\<rparr>))"

definition bw_remove_unused_space :: "addr \<times> addr \<Rightarrow> Lifo_buffer \<Rightarrow> (addr \<times> addr) \<times> Lifo_buffer" where
  "bw_remove_unused_space unused b = ((lb_start b, lb_pos b), b\<lparr>lb_start := lb_pos b\<rparr>)"

definition bw_grow :: "addr \<Rightarrow> addr \<Rightarrow> Lifo_buffer \<Rightarrow> Lifo_buffer" where
  "bw_grow unused_start unused_end b = b"

definition bw_used_area :: "Lifo_buffer \<Rightarrow> addr" where
  "bw_used_area b = lb_pos b"

definition bw_get_pos :: "Lifo_buffer \<Rightarrow> addr" where
  "bw_get_pos b = lb_pos b"

subsection \<open>The base class\<close>

definition dispatch :: "'f \<Rightarrow> 'f \<Rightarrow> Lifo_buffer \<Rightarrow> 'f" where
  "dispatch fw bw b = (case lb_type b of FORWARD \<Rightarrow> fw | BACKWARD \<Rightarrow> bw)"

definition used_size :: "Lifo_buffer \<Rightarrow> csize" where
  "used_size b = dispatch fw_used_size bw_used_size b b"

definition used_area :: "Lifo_buffer \<Rightarrow> addr" where
  "used_area b = dispatch fw_used_area bw_used_area b b"

definition lb_write :: "Lifo_buffer \<times> memory \<Rightarrow> Lifo_buffer \<times> memory" where
  "lb_write s = dispatch fw_write bw_write (fst s) s"

definition lb_read :: "Lifo_buffer \<Rightarrow> bool \<times> Lifo_buffer" where
  "lb_read b = dispatch fw_read bw_read b b"

definition lb_reset :: "Lifo_buffer \<Rightarrow> Lifo_buffer" where
  "lb_reset b = dispatch fw_reset bw_reset b b"

definition set_buffer_space :: "addr \<Rightarrow> addr \<Rightarrow> Lifo_buffer \<Rightarrow> Lifo_buffer" where
  "set_buffer_space start_arg end_arg b = lb_reset (b\<lparr>lb_start := start_arg, lb_end := end_arg\<rparr>)"

definition setup_writing :: "csize \<Rightarrow> csize \<Rightarrow> Lifo_buffer \<Rightarrow> Lifo_buffer" where
  "setup_writing len1 len2 b = b\<lparr>size1 := len1, size2 := len2\<rparr>"

definition setup_reading :: "csize \<Rightarrow> csize \<Rightarrow> Lifo_buffer \<Rightarrow> Lifo_buffer" where
  "setup_reading len1 len2 b = b"

definition can_write :: "Lifo_buffer \<Rightarrow> bool" where
  "can_write b = dispatch fw_have_space_for bw_have_space_for b (size1 b + size2 b) b"

definition lb_is_empty :: "Lifo_buffer \<Rightarrow> bool" where
  "lb_is_empty b \<longleftrightarrow> used_size b = 0"

text \<open>The library sort gets the area, the number of elements and their size; no size is a division by zero.\<close>

definition lb_sort :: "(addr \<Rightarrow> csize \<Rightarrow> csize \<Rightarrow> memory \<Rightarrow> memory) \<Rightarrow> Lifo_buffer \<Rightarrow> memory \<Rightarrow> memory option" where
  "lb_sort my_qsort2 b m =
     (let elem_size = size1 b + size2 b
      in if elem_size = 0 then None
         else let n_elements = used_size b div elem_size in Some (my_qsort2 (used_area b) n_elements elem_size m))"

subsection \<open>The iterator\<close>

record Lifo_buffer_iterator =
  li_pos :: addr
  li_read_ptr1 :: addr
  li_read_ptr2 :: addr

definition li_init :: "Lifo_buffer \<Rightarrow> Lifo_buffer_iterator \<Rightarrow> Lifo_buffer_iterator" where
  "li_init buf i = i\<lparr>li_pos := dispatch fw_get_pos bw_get_pos buf buf\<rparr>"

definition li_read :: "Lifo_buffer \<Rightarrow> Lifo_buffer_iterator \<Rightarrow> bool \<times> Lifo_buffer_iterator" where
  "li_read buf i =
     (let (eof, position, ptr1, ptr2) =
            dispatch fw_read_at bw_read_at buf buf (li_pos i, li_read_ptr1 i, li_read_ptr2 i)
      in (eof, i\<lparr>li_pos := position, li_read_ptr1 := ptr1, li_read_ptr2 := ptr2\<rparr>))"

section \<open>The contents of a buffer\<close>

definition esize :: "Lifo_buffer \<Rightarrow> nat" where
  "esize b = unat (size1 b) + unat (size2 b)"

definition capacity :: "Lifo_buffer \<Rightarrow> nat" where
  "capacity b = unat (lb_end b) - unat (lb_start b)"

text \<open>
  Buffers as the scans set them up: elements have a size, and space and sizes are those of objects in a flat
  address space, so that the pointer arithmetic does not wrap.
\<close>

definition lb_ok :: "Lifo_buffer \<Rightarrow> bool" where
  "lb_ok b \<longleftrightarrow> lb_start b \<le> lb_pos b \<and> lb_pos b \<le> lb_end b \<and> 0 < esize b \<and> esize b < 2 ^ 63 \<and> capacity b < 2 ^ 63
     \<and> esize b \<le> unat (lb_start b) \<and> unat (lb_end b) + esize b < 2 ^ 64"

type_synonym element = "uchar list \<times> uchar list"

definition flat :: "element list \<Rightarrow> uchar list" where
  "flat st = concat (map (\<lambda>(x, y). x @ y) st)"

definition of_size :: "Lifo_buffer \<Rightarrow> element \<Rightarrow> bool" where
  "of_size b e \<longleftrightarrow> length (fst e) = unat (size1 b) \<and> length (snd e) = unat (size2 b)"

text \<open>\<open>holds b m st\<close>: the used part of the space has the elements \<open>st\<close>, the next to be read first.\<close>

definition fw_holds :: "Lifo_buffer \<Rightarrow> memory \<Rightarrow> element list \<Rightarrow> bool" where
  "fw_holds b m st \<longleftrightarrow> region m (unat (lb_start b)) (unat (lb_pos b) - unat (lb_start b)) = flat (rev st)"

definition bw_holds :: "Lifo_buffer \<Rightarrow> memory \<Rightarrow> element list \<Rightarrow> bool" where
  "bw_holds b m st \<longleftrightarrow> region m (unat (lb_pos b)) (unat (lb_end b) - unat (lb_pos b)) = flat st"

definition holds :: "Lifo_buffer \<Rightarrow> memory \<Rightarrow> element list \<Rightarrow> bool" where
  "holds b m st \<longleftrightarrow> lb_ok b \<and> list_all (of_size b) st \<and> dispatch fw_holds bw_holds b b m st"

text \<open>The bytes that can be in use; a forward buffer never uses the last byte of its space.\<close>

definition limit :: "Lifo_buffer \<Rightarrow> nat" where
  "limit b = dispatch (capacity b - 1) (capacity b) b"

lemma flat_simps [simp]: "flat [] = []" "flat (e # st) = fst e @ snd e @ flat st" "flat (st @ st') = flat st @ flat st'"
  by (simp_all add: flat_def case_prod_beta)

lemma length_flat: "list_all (of_size b) st \<Longrightarrow> length (flat st) = length st * esize b"
  by (induction st) (simp_all add: of_size_def esize_def)

lemma list_all_rev: "list_all P (rev xs) = list_all P xs"
  by (simp add: list_all_iff)

lemma holds_used:
  assumes "holds b m st"
  shows "lb_type b = FORWARD \<Longrightarrow> unat (lb_pos b) = unat (lb_start b) + length st * esize b"
    and "lb_type b = BACKWARD \<Longrightarrow> unat (lb_end b) = unat (lb_pos b) + length st * esize b"
proof -
  have l: "lb_start b \<le> lb_pos b" "lb_pos b \<le> lb_end b" "length (flat st) = length st * esize b"
    "length (flat (rev st)) = length st * esize b"
    using assms length_flat [of b st] length_flat [of b "rev st"] by (auto simp: holds_def lb_ok_def list_all_rev)
  {
    assume "lb_type b = FORWARD"
    then have "unat (lb_pos b) - unat (lb_start b) = length (flat (rev st))"
      using assms by (auto simp: holds_def dispatch_def fw_holds_def dest: arg_cong [where f = length])
    then show "unat (lb_pos b) = unat (lb_start b) + length st * esize b" using l by (simp add: word_le_nat_alt)
  next
    assume "lb_type b = BACKWARD"
    then have "unat (lb_end b) - unat (lb_pos b) = length (flat st)"
      using assms by (auto simp: holds_def dispatch_def bw_holds_def dest: arg_cong [where f = length])
    then show "unat (lb_end b) = unat (lb_pos b) + length st * esize b" using l by (simp add: word_le_nat_alt)
  }
qed

lemma unat_esize: "lb_ok b \<Longrightarrow> unat (size1 b + size2 b) = esize b"
  by (simp add: lb_ok_def esize_def unat_word_ariths)

lemma sint_small:
  assumes "unat (v :: addr) < 2 ^ 63"
  shows "sint v = int (unat v)"
proof -
  have "int (unat v) < int (2 ^ 63)" using assms by (simp only: of_nat_less_iff)
  then have "- (2 ^ 63) \<le> uint v" "uint v < 2 ^ 63" by (simp_all add: order_trans [OF _ uint_ge_0])
  then have "signed_take_bit 63 (uint v) = uint v" by (rule signed_take_bit_int_eq_self)
  then show ?thesis by (simp add: sint_uint)
qed

lemma have_data_iff:
  assumes "lb_ok b"
  shows "lb_start b \<le> p \<Longrightarrow> p \<le> lb_end b \<Longrightarrow>
      fw_have_data p (size1 b + size2 b) b \<longleftrightarrow> esize b \<le> unat p - unat (lb_start b)"
    and "lb_start b \<le> p \<Longrightarrow> p \<le> lb_end b \<Longrightarrow>
      bw_have_data p (size1 b + size2 b) b \<longleftrightarrow> esize b \<le> unat (lb_end b) - unat p"
proof -
  have e: "sint (size1 b + size2 b) = int (esize b)"
    using assms sint_small [of "size1 b + size2 b"] unat_esize [OF assms] by (simp add: lb_ok_def)
  assume p: "lb_start b \<le> p" "p \<le> lb_end b"
  then have "sint (p - lb_start b) = int (unat p - unat (lb_start b))"
    "sint (lb_end b - p) = int (unat (lb_end b) - unat p)"
    using assms by (auto simp: sint_small unat_sub lb_ok_def capacity_def word_le_nat_alt)
  then show "fw_have_data p (size1 b + size2 b) b \<longleftrightarrow> esize b \<le> unat p - unat (lb_start b)"
    "bw_have_data p (size1 b + size2 b) b \<longleftrightarrow> esize b \<le> unat (lb_end b) - unat p"
    using e by (simp_all add: fw_have_data_def bw_have_data_def)
qed

lemma can_write_iff:
  assumes h: "holds b m st"
  shows "can_write b \<longleftrightarrow> (length st + 1) * esize b \<le> limit b"
proof -
  have ok: "lb_ok b" using h by (simp add: holds_def)
  have le: "unat (lb_start b) \<le> unat (lb_pos b)" "unat (lb_pos b) \<le> unat (lb_end b)"
    using ok by (simp_all add: lb_ok_def word_le_nat_alt)
  show ?thesis
  proof (cases "lb_type b")
    case FORWARD
    have "unat (lb_pos b + (size1 b + size2 b)) = unat (lb_pos b) + esize b"
      using ok le unat_esize [OF ok] by (simp add: lb_ok_def unat_word_ariths)
    then show ?thesis using holds_used(1) [OF h FORWARD] FORWARD le ok
      by (auto simp: can_write_def dispatch_def fw_have_space_for_def word_less_nat_alt limit_def capacity_def lb_ok_def)
  next
    case BACKWARD
    have "unat (lb_pos b - (size1 b + size2 b)) = unat (lb_pos b) - esize b"
      using ok le unat_esize [OF ok] by (simp add: lb_ok_def unat_sub word_le_nat_alt)
    then show ?thesis using holds_used(2) [OF h BACKWARD] BACKWARD le ok
      by (auto simp: can_write_def dispatch_def bw_have_space_for_def word_le_nat_alt limit_def capacity_def lb_ok_def)
  qed
qed

section \<open>Writing\<close>

definition outside :: "Lifo_buffer \<Rightarrow> addr \<Rightarrow> csize \<Rightarrow> bool" where
  "outside b p n \<longleftrightarrow> unat p + unat n \<le> 2 ^ 64 \<and> (unat p + unat n \<le> unat (lb_start b) \<or> unat (lb_end b) \<le> unat p)"

definition same_setup :: "Lifo_buffer \<Rightarrow> Lifo_buffer \<Rightarrow> bool" where
  "same_setup b b' \<longleftrightarrow> lb_type b' = lb_type b \<and> size1 b' = size1 b \<and> size2 b' = size2 b
     \<and> lb_start b' = lb_start b \<and> lb_end b' = lb_end b"

definition same_outside :: "Lifo_buffer \<Rightarrow> memory \<Rightarrow> memory \<Rightarrow> bool" where
  "same_outside b m m' \<longleftrightarrow> (\<forall>a. unat a < unat (lb_start b) \<or> unat (lb_end b) \<le> unat a \<longrightarrow> m' a = m a)"

definition sources :: "Lifo_buffer \<Rightarrow> bool" where
  "sources b \<longleftrightarrow> outside b (write_ptr1 b) (size1 b) \<and> outside b (write_ptr2 b) (size2 b)
     \<and> (size2 b \<noteq> 0 \<longrightarrow> write_ptr2 b \<noteq> 0)"

definition source_element :: "Lifo_buffer \<Rightarrow> memory \<Rightarrow> element" where
  "source_element b m = (bytes_at m (write_ptr1 b) (size1 b), bytes_at m (write_ptr2 b) (size2 b))"

lemma bytes_at_memcpy_outside:
  assumes "outside b p n" and "unat (lb_start b) \<le> unat to" and "unat to + unat k \<le> unat (lb_end b)"
  shows "bytes_at (memcpy to src k m) p n = bytes_at m p n"
  unfolding bytes_at_def using assms unat_less_2p [of "lb_end b"] by (intro region_memcpy_other) (auto simp: outside_def)

lemma memcpy_same_outside:
  assumes "unat (lb_start b) \<le> unat to" and "unat to + unat k \<le> unat (lb_end b)"
  shows "same_outside b m (memcpy to src k m)"
  unfolding same_outside_def using assms unat_less_2p [of "lb_end b"] by (auto intro!: memcpy_outside)

lemma same_outside_trans: "same_outside b m m' \<Longrightarrow> same_outside b m' m'' \<Longrightarrow> same_outside b m m''"
  by (simp add: same_outside_def)

text \<open>Two adjacent copies write the two parts of an element, in any order.\<close>

lemma copy_element:
  assumes s: "sources b" and le: "unat (lb_start b) \<le> unat a" "unat a + esize b \<le> unat (lb_end b)"
    and a2: "a2 = a + size1 b"
    and m': "m' = memcpy a2 (write_ptr2 b) (size2 b) (memcpy a (write_ptr1 b) (size1 b) m)
      \<or> m' = memcpy a (write_ptr1 b) (size1 b) (memcpy a2 (write_ptr2 b) (size2 b) m)"
  shows "region m' (unat a) (esize b) = fst (source_element b m) @ snd (source_element b m)" and "same_outside b m m'"
    and "\<And>i k. i + k \<le> unat a \<or> unat a + esize b \<le> i \<Longrightarrow> i + k \<le> 2 ^ 64 \<Longrightarrow> region m' i k = region m i k"
proof -
  have u2: "unat a2 = unat a + unat (size1 b)"
    using le unat_less_2p [of "lb_end b"] by (simp add: a2 esize_def unat_word_ariths)
  have o: "outside b (write_ptr1 b) (size1 b)" "outside b (write_ptr2 b) (size2 b)" using s by (simp_all add: sources_def)
  have lt: "unat a + esize b \<le> 2 ^ 64" "unat a + unat (size1 b) \<le> 2 ^ 64" "unat a2 + unat (size2 b) \<le> 2 ^ 64"
    using le unat_less_2p [of "lb_end b"] u2 by (simp_all add: esize_def)
  have "region m' (unat a) (unat (size1 b)) = bytes_at m (write_ptr1 b) (size1 b)"
    using m' o le u2 lt
    by (auto simp: region_memcpy region_memcpy_other bytes_at_memcpy_outside [of b] esize_def)
  moreover have "region m' (unat a2) (unat (size2 b)) = bytes_at m (write_ptr2 b) (size2 b)"
    using m' o le u2 lt
    by (auto simp: region_memcpy [OF lt(3), unfolded u2] region_memcpy_other bytes_at_memcpy_outside [of b] esize_def)
  ultimately show "region m' (unat a) (esize b) = fst (source_element b m) @ snd (source_element b m)"
    by (simp add: esize_def region_append u2 source_element_def)
  show "same_outside b m m'" using m' le u2
    by (auto simp: esize_def intro!: same_outside_trans [OF memcpy_same_outside memcpy_same_outside])
  show "region m' i k = region m i k" if "i + k \<le> unat a \<or> unat a + esize b \<le> i" "i + k \<le> 2 ^ 64" for i k
    using m' that le u2 lt by (auto simp: esize_def region_memcpy_other)
qed

lemma holds_write:
  assumes h: "holds b m st" and c: "can_write b" and s: "sources b"
  shows "\<exists>b' m'. lb_write (b, m) = (b', m') \<and> holds b' m' (source_element b m # st) \<and> same_setup b b'
    \<and> same_outside b m m'"
proof -
  have ok: "lb_ok b" using h by (simp add: holds_def)
  have c': "(length st + 1) * esize b \<le> limit b" using can_write_iff [OF h] c by simp
  have sz: "list_all (of_size b) st" "of_size b (source_element b m)"
    using h by (simp_all add: holds_def of_size_def source_element_def)
  have le: "unat (lb_start b) \<le> unat (lb_pos b)" "unat (lb_pos b) \<le> unat (lb_end b)"
    using ok by (simp_all add: lb_ok_def word_le_nat_alt)
  note lt = unat_less_2p [of "lb_end b"]
  show ?thesis
  proof (cases "lb_type b")
    case FORWARD
    let ?p = "lb_pos b" and ?e = "size1 b + size2 b"
    let ?m = "memcpy (?p + size1 b) (write_ptr2 b) (size2 b) (memcpy ?p (write_ptr1 b) (size1 b) m)"
    let ?b = "b\<lparr>lb_pos := ?p + ?e\<rparr>"
    have room: "unat ?p + esize b \<le> unat (lb_end b)"
      using c' FORWARD holds_used(1) [OF h FORWARD] le by (simp add: limit_def dispatch_def capacity_def)
    have w: "lb_write (b, m) = (?b, ?m)"
      using FORWARD by (auto simp: lb_write_def dispatch_def fw_write_def fw_write_bytes_def Let_def ac_simps)
    have up: "unat (?p + ?e) = unat ?p + esize b"
      using room lt unat_esize [OF ok] by (simp add: unat_word_ariths)
    note ce = copy_element [OF s le(1) room refl, of ?m m, simplified]
    have "region ?m (unat (lb_start b)) (unat ?p - unat (lb_start b)) = flat (rev st)"
      using ce(3) le lt h FORWARD by (simp add: holds_def dispatch_def fw_holds_def)
    then have "fw_holds ?b ?m (source_element b m # st)"
      using ce(1) le up region_append [of ?m "unat (lb_start b)" "unat ?p - unat (lb_start b)" "esize b"]
      by (simp add: fw_holds_def)
    moreover have "lb_ok ?b" using ok room up by (simp add: lb_ok_def esize_def capacity_def word_le_nat_alt)
    ultimately have "holds ?b ?m (source_element b m # st)"
      using sz FORWARD by (simp add: holds_def dispatch_def list_all_iff of_size_def)
    then show ?thesis using w ce(2) by (intro exI [of _ ?b] exI [of _ ?m]) (simp add: same_setup_def)
  next
    case BACKWARD
    let ?e = "size1 b + size2 b"
    let ?p = "lb_pos b - ?e"
    let ?m = "memcpy ?p (write_ptr1 b) (size1 b) (memcpy (?p + size1 b) (write_ptr2 b) (size2 b) m)"
    let ?b = "b\<lparr>lb_pos := ?p\<rparr>"
    have up: "unat (lb_start b) \<le> unat ?p" "unat ?p + esize b = unat (lb_pos b)"
      using c' BACKWARD holds_used(2) [OF h BACKWARD] le ok unat_esize [OF ok]
      by (auto simp: limit_def dispatch_def capacity_def unat_sub word_le_nat_alt lb_ok_def)
    have w: "lb_write (b, m) = (?b, ?m)"
      using BACKWARD s by (cases "size2 b = 0")
        (auto simp: lb_write_def dispatch_def bw_write_def bw_write_bytes_def Let_def sources_def algebra_simps)
    have room: "unat ?p + esize b \<le> unat (lb_end b)" using up le by simp
    note ce = copy_element [OF s up(1) room refl, of ?m m, simplified]
    have "region ?m (unat (lb_pos b)) (unat (lb_end b) - unat (lb_pos b)) = flat st"
      using ce(3) le lt up h BACKWARD by (simp add: holds_def dispatch_def bw_holds_def)
    moreover have "unat (lb_end b) - unat ?p = esize b + (unat (lb_end b) - unat (lb_pos b))" using up le by simp
    ultimately have "bw_holds ?b ?m (source_element b m # st)"
      using ce(1) up(2) region_append [of ?m "unat ?p" "esize b" "unat (lb_end b) - unat (lb_pos b)"]
      by (simp add: bw_holds_def)
    moreover have "lb_ok ?b" using ok room up by (simp add: lb_ok_def esize_def capacity_def word_le_nat_alt)
    ultimately have "holds ?b ?m (source_element b m # st)"
      using sz BACKWARD by (simp add: holds_def dispatch_def list_all_iff of_size_def)
    then show ?thesis using w ce(2) by (intro exI [of _ ?b] exI [of _ ?m]) (simp add: same_setup_def)
  qed
qed

section \<open>Reading\<close>

definition read_at :: "Lifo_buffer \<Rightarrow> addr \<times> addr \<times> addr \<Rightarrow> bool \<times> addr \<times> addr \<times> addr" where
  "read_at b = dispatch fw_read_at bw_read_at b b"

lemma lb_read_at:
  "lb_read b = (let (eof, position, ptr1, ptr2) = read_at b (lb_pos b, read_ptr1 b, read_ptr2 b)
     in (eof, b\<lparr>lb_pos := position, read_ptr1 := ptr1, read_ptr2 := ptr2\<rparr>))"
  by (simp add: lb_read_def read_at_def dispatch_def fw_read_def bw_read_def split: enum_direction.split)

lemma lb_ok_pos: "lb_ok (b\<lparr>lb_pos := p\<rparr>) \<Longrightarrow> lb_start b \<le> q \<Longrightarrow> q \<le> lb_end b \<Longrightarrow> lb_ok (b\<lparr>lb_pos := q\<rparr>)"
  by (simp add: lb_ok_def esize_def capacity_def)

lemma read_at_end:
  assumes h: "holds (b\<lparr>lb_pos := p\<rparr>) m []"
  shows "read_at b (p, r1, r2) = (True, p, r1, r2)"
proof -
  let ?b = "b\<lparr>lb_pos := p\<rparr>"
  have ok: "lb_ok ?b" using h by (simp add: holds_def)
  then have "lb_start ?b \<le> p" "p \<le> lb_end ?b" "0 < esize ?b" by (simp_all add: lb_ok_def)
  note have_data_iff [OF ok this(1,2)] this(3)
  then show ?thesis using holds_used [OF h]
    by (cases "lb_type b")
      (auto simp: read_at_def dispatch_def fw_read_at_def bw_read_at_def fw_have_data_def bw_have_data_def)
qed

lemma read_at_next:
  assumes h: "holds (b\<lparr>lb_pos := p\<rparr>) m (e # st)"
  shows "\<exists>p' r1' r2'. read_at b (p, r1, r2) = (False, p', r1', r2') \<and> holds (b\<lparr>lb_pos := p'\<rparr>) m st
    \<and> bytes_at m r1' (size1 b) = fst e \<and> bytes_at m r2' (size2 b) = snd e"
proof -
  let ?b = "b\<lparr>lb_pos := p\<rparr>"
  have ok: "lb_ok ?b" and sz: "of_size b e" "list_all (of_size b) st"
    using h by (simp_all add: holds_def of_size_def list_all_iff)
  then have le: "lb_start ?b \<le> p" "p \<le> lb_end ?b" by (simp_all add: lb_ok_def)
  note hd = have_data_iff [OF ok le] and lt = unat_less_2p [of "lb_end b"]
  have e2: "snd e = []" if "size2 b = 0" using sz(1) that by (simp add: of_size_def)
  have es: "esize ?b = unat (size1 b) + unat (size2 b)" "esize b = esize ?b" by (simp_all add: esize_def)
  show ?thesis
  proof (cases "lb_type b")
    case FORWARD
    let ?p2 = "p - size2 b" and ?p' = "p - size2 b - size1 b"
    have u: "unat p = unat (lb_start b) + length st * esize b + esize b"
      using holds_used(1) [OF h] FORWARD by (simp add: es)
    then have u2: "unat ?p2 = unat (lb_start b) + length st * esize b + unat (size1 b)"
      by (simp add: es unat_sub word_le_nat_alt)
    then have u': "unat ?p' = unat (lb_start b) + length st * esize b"
      by (simp add: es unat_sub word_le_nat_alt)
    have rd: "read_at b (p, r1, r2) = (False, ?p', ?p', if size2 b \<noteq> 0 then ?p2 else r2)"
      using hd(1) u FORWARD
      by (simp add: read_at_def dispatch_def fw_read_at_def fw_have_data_def fw_read_bytes_def Let_def es)
    have "region m (unat (lb_start b)) (length st * esize b + (unat (size1 b) + unat (size2 b)))
        = flat (rev st) @ fst e @ snd e"
      using h FORWARD u by (simp add: holds_def dispatch_def fw_holds_def es)
    note rg = region_split3_end [OF this]
    have "fw_holds (b\<lparr>lb_pos := ?p'\<rparr>) m st" using rg(1) sz(1) u' by (simp add: fw_holds_def of_size_def)
    moreover have "lb_ok (b\<lparr>lb_pos := ?p'\<rparr>)" using le u u' by (intro lb_ok_pos [OF ok]) (simp_all add: word_le_nat_alt)
    ultimately have "holds (b\<lparr>lb_pos := ?p'\<rparr>) m st"
      using sz(2) FORWARD by (simp add: holds_def dispatch_def list_all_iff of_size_def)
    moreover have "bytes_at m ?p' (size1 b) = fst e" using rg(2) sz(1) u' by (simp add: bytes_at_def of_size_def)
    moreover have "bytes_at m (if size2 b \<noteq> 0 then ?p2 else r2) (size2 b) = snd e"
      using rg(3) sz(1) u2 e2 by (auto simp: bytes_at_def of_size_def ac_simps)
    ultimately show ?thesis using rd by blast
  next
    case BACKWARD
    let ?p2 = "p + size1 b" and ?p' = "p + size1 b + size2 b"
    have u: "unat (lb_end b) = unat p + esize b + length st * esize b"
      using holds_used(2) [OF h] BACKWARD by (simp add: es)
    then have u2: "unat ?p2 = unat p + unat (size1 b)" using lt by (simp add: es unat_word_ariths)
    then have u': "unat ?p' = unat p + esize b" using u lt by (simp add: es unat_word_ariths)
    have ne: "?p' = p + size1 b" if "size2 b = 0" using that by simp
    have rd: "read_at b (p, r1, r2) = (False, ?p', p, if size2 b \<noteq> 0 then ?p2 else r2)"
      using hd(2) u BACKWARD
      by (simp add: read_at_def dispatch_def bw_read_at_def bw_have_data_def bw_read_bytes_def es)
    have "region m (unat p) (unat (size1 b) + unat (size2 b) + length st * esize b) = fst e @ snd e @ flat st"
      using h BACKWARD u by (simp add: holds_def dispatch_def bw_holds_def es add.assoc)
    note rg = region_split3 [OF this]
    have "bw_holds (b\<lparr>lb_pos := ?p'\<rparr>) m st" using rg(3) sz(1) u' u es by (simp add: bw_holds_def of_size_def)
    moreover have "lb_ok (b\<lparr>lb_pos := ?p'\<rparr>)" using le u u' by (intro lb_ok_pos [OF ok]) (simp_all add: word_le_nat_alt)
    ultimately have "holds (b\<lparr>lb_pos := ?p'\<rparr>) m st"
      using sz(2) BACKWARD by (simp add: holds_def dispatch_def list_all_iff of_size_def)
    moreover have "bytes_at m p (size1 b) = fst e" using rg(1) sz(1) by (simp add: bytes_at_def of_size_def)
    moreover have "bytes_at m (if size2 b \<noteq> 0 then ?p2 else r2) (size2 b) = snd e"
      using rg(2) sz(1) u2 e2 by (auto simp: bytes_at_def of_size_def)
    ultimately show ?thesis using rd by blast
  qed
qed

lemma holds_ignores [simp]:
  "holds (b\<lparr>read_ptr1 := r1\<rparr>) = holds b" "holds (b\<lparr>read_ptr2 := r2\<rparr>) = holds b"
  "holds (b\<lparr>write_ptr1 := w1\<rparr>) = holds b" "holds (b\<lparr>write_ptr2 := w2\<rparr>) = holds b"
  by (simp_all add: fun_eq_iff holds_def lb_ok_def esize_def capacity_def of_size_def dispatch_def fw_holds_def
      bw_holds_def list_all_iff split: enum_direction.split)

lemma lb_read_end: "holds b m [] \<Longrightarrow> lb_read b = (True, b)"
  using read_at_end [where b = b and p = "lb_pos b"] by (simp add: lb_read_at)

lemma lb_read_next:
  assumes "holds b m (e # st)"
  shows "\<exists>b'. lb_read b = (False, b') \<and> holds b' m st \<and> same_setup b b'
    \<and> bytes_at m (read_ptr1 b') (size1 b) = fst e \<and> bytes_at m (read_ptr2 b') (size2 b) = snd e"
proof -
  obtain p r1 r2 where r: "read_at b (lb_pos b, read_ptr1 b, read_ptr2 b) = (False, p, r1, r2)"
    "holds (b\<lparr>lb_pos := p\<rparr>) m st" "bytes_at m r1 (size1 b) = fst e" "bytes_at m r2 (size2 b) = snd e"
    using read_at_next [where b = b and p = "lb_pos b" and m = m and e = e and st = st] assms by force
  let ?b = "b\<lparr>lb_pos := p, read_ptr1 := r1, read_ptr2 := r2\<rparr>"
  have "lb_read b = (False, ?b)" "holds ?b m st" "same_setup b ?b"
    using r by (simp_all add: lb_read_at same_setup_def)
  then show ?thesis using r(3,4) by (intro exI [of _ ?b]) simp
qed

section \<open>The contract of the class\<close>

text \<open>
  What the class \<open>Lifo_buffer\<close> promises to the scans, whichever subclass provides it: room is decided by the
  number of elements, a write pushes the element at the write pointers, a read pops an element and sets the
  read pointers to it, and nothing outside the space of the buffer changes.
\<close>

locale lifo_class =
  fixes can :: "Lifo_buffer \<Rightarrow> bool"
    and put :: "Lifo_buffer \<times> memory \<Rightarrow> Lifo_buffer \<times> memory"
    and get :: "Lifo_buffer \<Rightarrow> bool \<times> Lifo_buffer"
    and rep :: "Lifo_buffer \<Rightarrow> memory \<Rightarrow> element list \<Rightarrow> bool"
  assumes room: "rep b m st \<Longrightarrow> can b \<longleftrightarrow> (length st + 1) * esize b \<le> limit b"
    and put: "rep b m st \<Longrightarrow> can b \<Longrightarrow> sources b \<Longrightarrow> \<exists>b' m'. put (b, m) = (b', m')
      \<and> rep b' m' (source_element b m # st) \<and> same_setup b b' \<and> same_outside b m m'"
    and get_end: "rep b m [] \<Longrightarrow> get b = (True, b)"
    and get_next: "rep b m (e # st) \<Longrightarrow> \<exists>b'. get b = (False, b') \<and> rep b' m st \<and> same_setup b b'
      \<and> bytes_at m (read_ptr1 b') (size1 b) = fst e \<and> bytes_at m (read_ptr2 b') (size2 b) = snd e"
    and ptrs: "rep (b\<lparr>write_ptr1 := w1, write_ptr2 := w2\<rparr>) m st = rep b m st"
begin

lemma not_room: "rep b m st \<Longrightarrow> \<not> (length st + 1) * esize b \<le> limit b \<Longrightarrow> \<not> can b"
  using room by blast

end

interpretation lifo: lifo_class can_write lb_write lb_read holds
  using can_write_iff holds_write lb_read_end lb_read_next by unfold_locales (blast | simp)+

section \<open>Programs\<close>

datatype lifo_cmd = Put addr addr | Get

datatype lifo_out = Stored | Full | Got "uchar list" "uchar list" | Eof

text \<open>The user of a buffer asks for room before it writes, and looks at the read pointers after a read.\<close>

fun lifo_step :: "lifo_cmd \<Rightarrow> Lifo_buffer \<times> memory \<Rightarrow> (lifo_out \<times> Lifo_buffer \<times> memory) option" where
  "lifo_step (Put p1 p2) (b, m) =
     (let b = b\<lparr>write_ptr1 := p1, write_ptr2 := p2\<rparr>
      in if can_write b then Some (Stored, lb_write (b, m)) else Some (Full, b, m))"
| "lifo_step Get (b, m) =
     (let (eof, b) = lb_read b
      in Some (if eof then Eof else Got (bytes_at m (read_ptr1 b) (size1 b)) (bytes_at m (read_ptr2 b) (size2 b)), b, m))"

text \<open>The specification: a stack with a bound, over the bytes outside the buffer, which never change.\<close>

fun stack_step :: "Lifo_buffer \<Rightarrow> memory \<Rightarrow> lifo_cmd \<Rightarrow> element list \<Rightarrow> (lifo_out \<times> element list) option" where
  "stack_step b m (Put p1 p2) st =
     (if sources (b\<lparr>write_ptr1 := p1, write_ptr2 := p2\<rparr>)
      then Some (if (length st + 1) * esize b \<le> limit b
                 then (Stored, (bytes_at m p1 (size1 b), bytes_at m p2 (size2 b)) # st) else (Full, st))
      else None)"
| "stack_step b m Get [] = Some (Eof, [])"
| "stack_step b m Get ((x, y) # st) = Some (Got x y, st)"

definition lifo_rel :: "Lifo_buffer \<Rightarrow> memory \<Rightarrow> nat \<Rightarrow> Lifo_buffer \<times> memory \<Rightarrow> element list \<Rightarrow> bool" where
  "lifo_rel b0 m0 k = (\<lambda>(b, m) st. holds b m st \<and> same_setup b0 b \<and> same_outside b0 m0 m)"

lemma same_setup_simps:
  assumes "same_setup b b'"
  shows "esize b' = esize b" "limit b' = limit b" "outside b' = outside b" "same_outside b' = same_outside b"
    "size1 b' = size1 b" "size2 b' = size2 b" "lb_start b' = lb_start b" "lb_end b' = lb_end b" "same_setup b' c = same_setup b c"
  using assms by (auto simp: same_setup_def esize_def limit_def capacity_def dispatch_def fun_eq_iff outside_def
      same_outside_def)

lemma same_setup_ptrs [simp]: "same_setup b (b'\<lparr>write_ptr1 := p1, write_ptr2 := p2\<rparr>) = same_setup b b'"
  by (simp add: same_setup_def)

lemma bytes_at_same_outside:
  assumes "same_outside b m m'" and "outside b p n"
  shows "bytes_at m' p n = bytes_at m p n"
  unfolding bytes_at_def
proof (rule region_cong)
  fix i assume i: "unat p \<le> i" "i < unat p + unat n"
  then have "unat (of_nat i :: addr) = i" using assms(2) by (intro unat_of_nat_small) (simp add: outside_def)
  then show "m' (of_nat i) = m (of_nat i)" using assms i by (auto simp: same_outside_def outside_def)
qed

lemma lifo_simulates:
  assumes R: "lifo_rel b0 m0 (Suc k) s st" and a: "stack_step b0 m0 c st = Some (x, st')"
  shows "\<exists>s'. lifo_step c s = Some (x, s') \<and> lifo_rel b0 m0 k s' st'"
proof -
  obtain b m where s: "s = (b, m)" by (cases s)
  have h: "holds b m st" "same_setup b0 b" "same_outside b0 m0 m" using R by (simp_all add: lifo_rel_def s)
  note eq = same_setup_simps [OF h(2)]
  show ?thesis
  proof (cases c)
    case (Put p1 p2)
    let ?b = "b\<lparr>write_ptr1 := p1, write_ptr2 := p2\<rparr>"
    have src: "sources (b0\<lparr>write_ptr1 := p1, write_ptr2 := p2\<rparr>)"
      and out: "(x, st') = (if (length st + 1) * esize b0 \<le> limit b0
          then (Stored, (bytes_at m0 p1 (size1 b0), bytes_at m0 p2 (size2 b0)) # st) else (Full, st))"
      using a Put by (auto split: if_splits)
    have hb: "holds ?b m st" using h(1) by simp
    have sb: "sources ?b" using src eq by (simp add: sources_def outside_def same_setup_simps)
    have se: "source_element ?b m = (bytes_at m0 p1 (size1 b0), bytes_at m0 p2 (size2 b0))"
      using src h(3) bytes_at_same_outside eq
      by (simp add: source_element_def sources_def outside_def bytes_at_same_outside)
    have lim: "can_write ?b \<longleftrightarrow> (length st + 1) * esize b0 \<le> limit b0"
      using lifo.room [OF hb] eq by (simp add: esize_def limit_def capacity_def dispatch_def)
    show ?thesis
    proof (cases "can_write ?b")
      case True
      obtain b' m' where w: "lb_write (?b, m) = (b', m')" "holds b' m' (source_element ?b m # st)"
        "same_setup ?b b'" "same_outside ?b m m'" using lifo.put [OF hb True sb] by blast
      have "same_setup b0 b'" using w(3) h(2) by (simp add: same_setup_def)
      moreover have "same_outside b0 m0 m'" using w(4) h(2,3) by (simp add: same_outside_def same_setup_def)
      ultimately show ?thesis using True lim out w(1,2) se
        by (auto simp: s Put lifo_rel_def Let_def)
    next
      case False
      then show ?thesis using lim out h by (simp add: s Put lifo_rel_def Let_def)
    qed
  next
    case Get
    show ?thesis
    proof (cases st)
      case Nil
      then show ?thesis using lifo.get_end [of b m] h a by (simp add: s Get lifo_rel_def)
    next
      case (Cons e es)
      then obtain b' where "lb_read b = (False, b')" "holds b' m es" "same_setup b b'"
        "bytes_at m (read_ptr1 b') (size1 b) = fst e" "bytes_at m (read_ptr2 b') (size2 b) = snd e"
        using lifo.get_next h(1) by blast
      then show ?thesis using a h Cons by (cases e) (auto simp: s Get lifo_rel_def same_setup_def)
    qed
  qed
qed

interpretation lifo_sim: simulation "lifo_rel b0 m0" lifo_step "stack_step b0 m0" for b0 m0
  by unfold_locales (rule lifo_simulates)

text \<open>A buffer as a scan sets it up.\<close>

definition fresh_buffer :: "enum_direction \<Rightarrow> csize \<Rightarrow> csize \<Rightarrow> addr \<Rightarrow> addr \<Rightarrow> Lifo_buffer \<Rightarrow> Lifo_buffer" where
  "fresh_buffer d len1 len2 start_arg end_arg b =
     set_buffer_space start_arg end_arg (setup_writing len1 len2 (b\<lparr>lb_type := d\<rparr>))"

definition space_ok :: "csize \<Rightarrow> csize \<Rightarrow> addr \<Rightarrow> addr \<Rightarrow> bool" where
  "space_ok len1 len2 start_arg end_arg \<longleftrightarrow>
     (let e = unat len1 + unat len2
      in start_arg \<le> end_arg \<and> 0 < e \<and> e < 2 ^ 63 \<and> unat end_arg - unat start_arg < 2 ^ 63
         \<and> e \<le> unat start_arg \<and> unat end_arg + e < 2 ^ 64)"

lemma fresh_holds: "space_ok len1 len2 s e \<Longrightarrow> holds (fresh_buffer d len1 len2 s e b) m []"
  by (cases d)
    (simp_all add: fresh_buffer_def set_buffer_space_def setup_writing_def lb_reset_def dispatch_def fw_reset_def bw_reset_def
      holds_def lb_ok_def esize_def capacity_def fw_holds_def bw_holds_def space_ok_def Let_def)

lemma refl_setup: "same_setup b b" "same_outside b m m"
  by (simp_all add: same_setup_def same_outside_def)

lemma lifo_run:
  assumes "holds b m st" and "run_cmds (stack_step b m) cs st = Some (outs, st')"
  shows "\<exists>b' m'. run_cmds lifo_step cs (b, m) = Some (outs, b', m') \<and> holds b' m' st' \<and> same_setup b b'
    \<and> same_outside b m m'"
  using lifo_sim.run_refines [of b m cs 0 "(b, m)" st outs st'] assms refl_setup by (auto simp: lifo_rel_def)

lemma empty_iff:
  assumes "holds b m st"
  shows "lb_is_empty b \<longleftrightarrow> st = []"
proof -
  have "lb_ok b" using assms by (simp add: holds_def)
  then have ok: "unat (lb_start b) \<le> unat (lb_pos b)" "unat (lb_pos b) \<le> unat (lb_end b)" "0 < esize b"
    by (simp_all add: lb_ok_def word_le_nat_alt)
  have "unat (used_size b) = length st * esize b"
    using holds_used [OF assms] ok by (cases "lb_type b")
      (simp_all add: used_size_def dispatch_def fw_used_size_def bw_used_size_def unat_sub word_le_nat_alt)
  then show ?thesis using ok(3) by (auto simp: lb_is_empty_def simp flip: unat_eq_0)
qed

text \<open>Reading a buffer, or walking over it with an iterator, until the end.\<close>

partial_function (option) drain :: "Lifo_buffer \<Rightarrow> memory \<Rightarrow> (element list \<times> Lifo_buffer) option" where
  "drain b m =
     (let (eof, b) = lb_read b
      in if eof then Some ([], b)
         else do {
           (es, b') \<leftarrow> drain b m;
           Some ((bytes_at m (read_ptr1 b) (size1 b), bytes_at m (read_ptr2 b) (size2 b)) # es, b') })"

partial_function (option) walk :: "Lifo_buffer \<Rightarrow> memory \<Rightarrow> Lifo_buffer_iterator \<Rightarrow> element list option" where
  "walk b m i =
     (let (eof, i) = li_read b i
      in if eof then Some []
         else do {
           es \<leftarrow> walk b m i;
           Some ((bytes_at m (li_read_ptr1 i) (size1 b), bytes_at m (li_read_ptr2 i) (size2 b)) # es) })"

lemma drain_all: "holds b m st \<Longrightarrow> \<exists>b'. drain b m = Some (st, b') \<and> holds b' m []"
proof (induction st arbitrary: b)
  case Nil
  then show ?case using lb_read_end [OF Nil] by (subst drain.simps) simp
next
  case (Cons e st)
  obtain b' where b': "lb_read b = (False, b')" "holds b' m st" "same_setup b b'"
    "bytes_at m (read_ptr1 b') (size1 b) = fst e" "bytes_at m (read_ptr2 b') (size2 b) = snd e"
    using lb_read_next [OF Cons.prems] by blast
  from Cons.IH [OF b'(2)] b' show ?case by (subst drain.simps) (auto simp: same_setup_def)
qed

lemma walk_all: "holds (b\<lparr>lb_pos := li_pos i\<rparr>) m st \<Longrightarrow> walk b m i = Some st"
proof (induction st arbitrary: i)
  case Nil
  then show ?case using read_at_end [where b = b and p = "li_pos i"]
    by (subst walk.simps) (simp add: li_read_def read_at_def)
next
  case (Cons e st)
  obtain p r1 r2 where "read_at b (li_pos i, li_read_ptr1 i, li_read_ptr2 i) = (False, p, r1, r2)"
    "holds (b\<lparr>lb_pos := p\<rparr>) m st" "bytes_at m r1 (size1 b) = fst e" "bytes_at m r2 (size2 b) = snd e"
    using read_at_next [OF Cons.prems] by blast
  moreover from Cons.IH [of "i\<lparr>li_pos := p, li_read_ptr1 := r1, li_read_ptr2 := r2\<rparr>"] this(2)
  have "walk b m (i\<lparr>li_pos := p, li_read_ptr1 := r1, li_read_ptr2 := r2\<rparr>) = Some st" by simp
  ultimately show ?case by (subst walk.simps) (simp add: li_read_def read_at_def)
qed

lemma walk_from_init: "holds b m st \<Longrightarrow> walk b m (li_init b i) = Some st"
  by (rule walk_all)
    (simp add: li_init_def dispatch_def fw_get_pos_def bw_get_pos_def split: enum_direction.split)

text \<open>A stack program that the specification accepts has no other result.\<close>

lemma run_from_fresh:
  assumes "space_ok len1 len2 s e" and "b0 = fresh_buffer d len1 len2 s e b"
    and "run_cmds (stack_step b0 m) cs [] = Some (outs, st)"
  shows "\<exists>b' m'. run_cmds lifo_step cs (b0, m) = Some (outs, b', m') \<and> holds b' m' st \<and> same_setup b0 b'
    \<and> same_outside b0 m m'"
  using lifo_run [OF _ assms(3)] fresh_holds [OF assms(1)] assms(2) by blast

section \<open>Adjacent buffers\<close>

lemma holds_other_space:
  assumes "holds b m st" and "same_outside c m m'"
    and "unat (lb_end c) \<le> unat (lb_start b) \<or> unat (lb_end b) \<le> unat (lb_start c)"
  shows "holds b m' st"
proof -
  have ok: "unat (lb_start b) \<le> unat (lb_pos b)" "unat (lb_pos b) \<le> unat (lb_end b)"
    using assms(1) by (simp_all add: holds_def lb_ok_def word_le_nat_alt)
  have "region m' i k = region m i k" if "unat (lb_start b) \<le> i" "i + k \<le> unat (lb_end b)" for i k
  proof (rule region_cong)
    fix j assume "i \<le> j" "j < i + k"
    moreover from this have "unat (of_nat j :: addr) = j"
      using that unat_less_2p [of "lb_end b"] by (intro unat_of_nat_small) simp
    ultimately show "m' (of_nat j) = m (of_nat j)" using assms(2,3) that by (auto simp: same_outside_def)
  qed
  then show ?thesis using assms(1) ok by (cases "lb_type b") (simp_all add: holds_def dispatch_def fw_holds_def bw_holds_def)
qed

lemma handover_holds:
  assumes f: "holds f m sf" "lb_type f = FORWARD" and b: "holds b m sb" "lb_type b = BACKWARD"
    and adj: "lb_end f = lb_start b" and e: "unat (lb_pos b) + esize f < 2 ^ 64" and cap: "unat (lb_pos b) - unat (lb_start f) < 2 ^ 63"
  shows "holds (fw_grow (lb_start b) (lb_pos b) f) m sf" and "holds (b\<lparr>lb_start := lb_pos b\<rparr>) m sb"
proof -
  have okf: "lb_ok f" and okb: "lb_ok b" using f(1) b(1) by (simp_all add: holds_def)
  have "lb_ok (fw_grow (lb_start b) (lb_pos b) f)"
    using okf okb adj e cap by (auto simp: lb_ok_def fw_grow_def esize_def capacity_def word_le_nat_alt)
  then show "holds (fw_grow (lb_start b) (lb_pos b) f) m sf" using f
    by (auto simp: holds_def dispatch_def fw_holds_def fw_grow_def list_all_iff of_size_def)
  have "lb_ok (b\<lparr>lb_start := lb_pos b\<rparr>)"
    using okb by (auto simp: lb_ok_def esize_def capacity_def word_le_nat_alt)
  then show "holds (b\<lparr>lb_start := lb_pos b\<rparr>) m sb" using b
    by (auto simp: holds_def dispatch_def bw_holds_def list_all_iff of_size_def)
qed

section \<open>Properties\<close>

text \<open>
  C23. Whatever the direction, a buffer is a bounded stack of elements: from an empty buffer, any program of
  guarded writes and reads returns what it returns on a stack of byte strings, and changes no byte outside the
  space of the buffer.
\<close>

theorem lifo_program:
  assumes "space_ok len1 len2 s e" and "b0 = fresh_buffer d len1 len2 s e b"
    and "run_cmds (stack_step b0 m) cs [] = Some (outs, st)"
  shows "\<exists>b' m'. run_cmds lifo_step cs (b0, m) = Some (outs, b', m') \<and> (lb_is_empty b' \<longleftrightarrow> st = [])
    \<and> same_outside b0 m m'"
  using run_from_fresh [OF assms] empty_iff by blast

definition example_memory :: memory where
  "example_memory = (\<lambda>a. ucast a)"

definition example_unset :: Lifo_buffer where
  "example_unset =
     \<lparr>lb_type = BACKWARD, size1 = 0, size2 = 0, write_ptr1 = 0, write_ptr2 = 0, read_ptr1 = 0, read_ptr2 = 0,
      lb_start = 0, lb_end = 0, lb_pos = 0\<rparr>"

lemma example_space: "space_ok 2 1 1000 1010" "space_ok 2 1 1010 1016"
  by (simp_all add: space_ok_def Let_def)

lemmas example_defs = example_memory_def example_unset_def fresh_buffer_def set_buffer_space_def setup_writing_def
  lb_reset_def dispatch_def fw_reset_def bw_reset_def sources_def outside_def esize_def capacity_def limit_def
  bytes_at_def region_def upt_rec

lemma example_run:
  "run_cmds (stack_step (fresh_buffer FORWARD 2 1 1000 1010 example_unset) example_memory)
     [Put 16 32, Put 17 33, Get, Put 18 34] [] = Some ([Stored, Stored, Got [17, 18] [33], Stored], [([18, 19], [34]), ([16, 17], [32])])"
  by (simp add: example_defs)

lemma lifo_program_witness:
  "\<exists>b m. run_cmds lifo_step [Put 16 32, Put 17 33, Get, Put 18 34]
       (fresh_buffer FORWARD 2 1 1000 1010 example_unset, example_memory)
     = Some ([Stored, Stored, Got [17, 18] [33], Stored], b, m)"
  using lifo_program [OF example_space(1) refl example_run] by blast

text \<open>
  Every element written is read in the end: after any program, reading until the end of the buffer stops
  with the elements left on the stack, the last written first, and empties the buffer; an iterator sees the
  same elements before.
\<close>

theorem everything_is_read:
  assumes "space_ok len1 len2 s e" and "b0 = fresh_buffer d len1 len2 s e b"
    and "run_cmds (stack_step b0 m) cs [] = Some (outs, st)"
  shows "\<exists>b' m' b''. run_cmds lifo_step cs (b0, m) = Some (outs, b', m') \<and> walk b' m' (li_init b' i) = Some st
    \<and> drain b' m' = Some (st, b'') \<and> lb_is_empty b''"
proof -
  obtain b' m' where r: "run_cmds lifo_step cs (b0, m) = Some (outs, b', m')" "holds b' m' st"
    using run_from_fresh [OF assms] by blast
  then show ?thesis using drain_all [OF r(2)] walk_from_init [OF r(2), of i] empty_iff by blast
qed

lemma everything_is_read_witness:
  "\<exists>b m b'. drain b m = Some ([([18, 19], [34]), ([16, 17], [32])], b') \<and> lb_is_empty b'"
  using everything_is_read [OF example_space(1) refl example_run, of undefined] by blast

text \<open>
  Space moves between adjacent buffers: when a backward buffer gives its unused space to the forward buffer
  below it, the forward buffer gains exactly these bytes, and whatever is written to it afterwards, both
  buffers keep their elements.
\<close>

theorem adjacent_buffers:
  assumes "holds f m sf" and "lb_type f = FORWARD" and "holds b m sb" and "lb_type b = BACKWARD"
    and "lb_end f = lb_start b" and "lb_start f < lb_end f"
    and "unat (lb_pos b) + esize f < 2 ^ 64" and "unat (lb_pos b) - unat (lb_start f) < 2 ^ 63"
    and "bw_remove_unused_space u b = ((us, ue), b')" and "f' = fw_grow us ue f"
    and "run_cmds (stack_step f' m) cs sf = Some (outs, st)"
  shows "limit f' = limit f + (unat (lb_pos b) - unat (lb_start b))
    \<and> (\<exists>f'' m' g h. run_cmds lifo_step cs (f', m) = Some (outs, f'', m')
         \<and> drain f'' m' = Some (st, g) \<and> drain b' m' = Some (sb, h))"
proof -
  have e: "us = lb_start b" "ue = lb_pos b" "b' = b\<lparr>lb_start := lb_pos b\<rparr>" "f' = fw_grow (lb_start b) (lb_pos b) f"
    using assms(9,10) by (auto simp: bw_remove_unused_space_def)
  have h: "holds f' m sf" "holds b' m sb"
    unfolding e by (rule handover_holds [OF assms(1-5,7,8)])+
  obtain f'' m' where r: "run_cmds lifo_step cs (f', m) = Some (outs, f'', m')" "holds f'' m' st" "same_outside f' m m'"
    using lifo_run [OF h(1) assms(11)] by blast
  have "holds b' m' sb" by (rule holds_other_space [OF h(2) r(3)]) (simp add: e fw_grow_def)
  moreover have "lb_start b \<le> lb_pos b" using assms(3) by (simp add: holds_def lb_ok_def)
  then have "limit f' = limit f + (unat (lb_pos b) - unat (lb_start b))"
    using assms(2,5,6) by (simp add: e limit_def dispatch_def fw_grow_def capacity_def word_le_nat_alt word_less_nat_alt)
  ultimately show ?thesis using r(1) drain_all [OF r(2)] drain_all by blast
qed

lemma adjacent_buffers_witness:
  "\<exists>f f' b m g h. limit f = 15 \<and> drain f' m = Some ([([16, 17], [32])], g) \<and> drain b m = Some ([], h)"
proof -
  let ?f = "fresh_buffer FORWARD 2 1 1000 1010 example_unset" and ?b = "fresh_buffer BACKWARD 2 1 1010 1016 example_unset"
  have h: "holds ?f example_memory []" "holds ?b example_memory []" by (rule fresh_holds [OF example_space(1)])
      (rule fresh_holds [OF example_space(2)])
  have fld: "lb_type ?f = FORWARD" "lb_type ?b = BACKWARD" "lb_end ?f = lb_start ?b" "lb_start ?f < lb_end ?f"
    "unat (lb_pos ?b) + esize ?f < 2 ^ 64" "unat (lb_pos ?b) - unat (lb_start ?f) < 2 ^ 63"
    "lb_start ?b = 1010" "lb_pos ?b = 1016" "limit ?f = 9"
    by (simp_all add: example_defs)
  have run: "run_cmds (stack_step (fw_grow 1010 1016 ?f) example_memory) [Put 16 32] [] = Some ([Stored], [([16, 17], [32])])"
    by (simp add: example_defs fw_grow_def)
  have rm: "bw_remove_unused_space (0, 0) ?b = ((1010, 1016), ?b\<lparr>lb_start := 1016\<rparr>)"
    by (simp add: bw_remove_unused_space_def fld)
  from adjacent_buffers [OF h(1) fld(1) h(2) fld(2-6) rm refl run] fld(7,8,9)
  have "limit (fw_grow 1010 1016 ?f) = 15" and "\<exists>f' m g h. drain f' m = Some ([([16, 17], [32])], g)
    \<and> drain (?b\<lparr>lb_start := 1016\<rparr>) m = Some ([], h)"
    by (simp_all only: unat_numeral) (simp, blast)
  then show ?thesis by blast
qed

text \<open>
  The two directions disagree at the boundary: when the space left is exactly the size of one element, a
  backward buffer takes it and a forward buffer, which compares the end of the element with the end of
  the space strictly, refuses it.
\<close>

theorem exact_fit:
  assumes "holds b m st" and "capacity b = (length st + 1) * esize b"
  shows "can_write b \<longleftrightarrow> lb_type b = BACKWARD"
proof -
  have "0 < capacity b" using assms by (simp add: holds_def lb_ok_def)
  then have "can_write b \<longleftrightarrow> capacity b \<le> limit b" "0 < capacity b"
    using can_write_iff [OF assms(1)] by (simp_all only: assms(2))
  then show ?thesis by (cases "lb_type b") (auto simp: limit_def dispatch_def)
qed

lemma exact_fit_witness:
  "\<not> can_write (fresh_buffer FORWARD 2 1 1000 1003 example_unset) \<and> can_write (fresh_buffer BACKWARD 2 1 1000 1003 example_unset)"
proof -
  have "space_ok 2 1 1000 1003" by (simp add: space_ok_def Let_def)
  note h = fresh_holds [OF this, of _ example_unset example_memory]
  show ?thesis using exact_fit [OF h, of FORWARD] exact_fit [OF h, of BACKWARD] by (simp add: example_defs)
qed

end
