(* ===== verification/Byte_Order.thy ===== *)
theory Byte_Order
  imports Flat_Memory
begin

text \<open>
  Reading and storing integers low byte first: the macros for any machine (\<open>byte_order_generic.h\<close>), here with the
  suffix \<open>_gen\<close>, and those the shipped build uses, which access memory by words of the machine
  (\<open>byte_order_generic_x86_64.h\<close>). The arguments of macros that store up to four bytes are taken as 32-bit
  values, the others as 64-bit values.
\<close>

section \<open>Machine words in memory\<close>

text \<open>An access to a word of the machine, which may be unaligned, reads or stores its bytes low byte first.\<close>

definition byte_at :: "memory \<Rightarrow> addr \<Rightarrow> nat \<Rightarrow> 'a::len word" where
  "byte_at m a i = ucast (m (a + of_nat i))"

definition load16 :: "memory \<Rightarrow> addr \<Rightarrow> uint16" where
  "load16 m a = byte_at m a 0 OR push_bit 8 (byte_at m a 1)"

definition load32 :: "memory \<Rightarrow> addr \<Rightarrow> uint32" where
  "load32 m a = byte_at m a 0 OR push_bit 8 (byte_at m a 1) OR push_bit 16 (byte_at m a 2) OR push_bit 24 (byte_at m a 3)"

definition load64 :: "memory \<Rightarrow> addr \<Rightarrow> ulonglong" where
  "load64 m a = ucast (load32 m a) OR push_bit 32 (ucast (load32 m (a + 4)))"

definition store8 :: "addr \<Rightarrow> uchar \<Rightarrow> memory \<Rightarrow> memory" where
  "store8 a v m = m(a := v)"

definition store16 :: "addr \<Rightarrow> uint16 \<Rightarrow> memory \<Rightarrow> memory" where
  "store16 a v m = store8 (a + 1) (ucast (drop_bit 8 v)) (store8 a (ucast v) m)"

definition store32 :: "addr \<Rightarrow> uint32 \<Rightarrow> memory \<Rightarrow> memory" where
  "store32 a v m = store16 (a + 2) (ucast (drop_bit 16 v)) (store16 a (ucast v) m)"

definition store64 :: "addr \<Rightarrow> ulonglong \<Rightarrow> memory \<Rightarrow> memory" where
  "store64 a v m = store32 (a + 4) (ucast (drop_bit 32 v)) (store32 a (ucast v) m)"

section \<open>The macros of the shipped build\<close>

definition sint2korr :: "memory \<Rightarrow> addr \<Rightarrow> 16 word" where "sint2korr m a = load16 m a"

definition sint3korr :: "memory \<Rightarrow> addr \<Rightarrow> 32 word" where
  "sint3korr m a =
     (if byte_at m a 2 AND (128 :: uint32) \<noteq> 0
      then push_bit 24 255 OR push_bit 16 (byte_at m a 2) OR push_bit 8 (byte_at m a 1) OR byte_at m a 0
      else push_bit 16 (byte_at m a 2) OR push_bit 8 (byte_at m a 1) OR byte_at m a 0)"

definition sint4korr :: "memory \<Rightarrow> addr \<Rightarrow> 32 word" where "sint4korr m a = load32 m a"

definition uint2korr :: "memory \<Rightarrow> addr \<Rightarrow> uint16" where "uint2korr m a = load16 m a"

definition uint3korr :: "memory \<Rightarrow> addr \<Rightarrow> uint32" where
  "uint3korr m a = byte_at m a 0 OR push_bit 8 (byte_at m a 1) OR push_bit 16 (byte_at m a 2)"

definition uint4korr :: "memory \<Rightarrow> addr \<Rightarrow> uint32" where "uint4korr m a = load32 m a"

definition uint5korr :: "memory \<Rightarrow> addr \<Rightarrow> ulonglong" where
  "uint5korr m p = (let a = ucast (load32 m p); b = byte_at m p 4 in a OR push_bit 32 b)"

definition uint6korr :: "memory \<Rightarrow> addr \<Rightarrow> ulonglong" where
  "uint6korr m p = (let a = ucast (load32 m p); b = ucast (load16 m (4 + p)) in a OR push_bit 32 b)"

definition uint8korr :: "memory \<Rightarrow> addr \<Rightarrow> ulonglong" where "uint8korr m a = load64 m a"

definition sint8korr :: "memory \<Rightarrow> addr \<Rightarrow> 64 word" where "sint8korr m a = load64 m a"

definition int2store :: "addr \<Rightarrow> uint \<Rightarrow> memory \<Rightarrow> memory" where "int2store t a m = store16 t (ucast a) m"

definition int3store :: "addr \<Rightarrow> uint \<Rightarrow> memory \<Rightarrow> memory" where
  "int3store t a m =
     store8 (t + 2) (ucast (drop_bit 16 a)) (store8 (t + 1) (ucast (drop_bit 8 a)) (store8 t (ucast a) m))"

definition int4store :: "addr \<Rightarrow> uint \<Rightarrow> memory \<Rightarrow> memory" where "int4store t a m = store32 t a m"

definition int5store :: "addr \<Rightarrow> ulonglong \<Rightarrow> memory \<Rightarrow> memory" where
  "int5store t a m = store8 (t + 4) (ucast (drop_bit 32 a)) (store32 t (ucast a) m)"

definition int6store :: "addr \<Rightarrow> ulonglong \<Rightarrow> memory \<Rightarrow> memory" where
  "int6store t a m = store16 (t + 4) (ucast (drop_bit 32 a)) (store32 t (ucast a) m)"

definition int8store :: "addr \<Rightarrow> ulonglong \<Rightarrow> memory \<Rightarrow> memory" where "int8store t a m = store64 t a m"

section \<open>The macros for any machine\<close>

definition sint2korr_gen :: "memory \<Rightarrow> addr \<Rightarrow> 16 word" where
  "sint2korr_gen m a = byte_at m a 0 OR push_bit 8 (byte_at m a 1)"

definition sint3korr_gen :: "memory \<Rightarrow> addr \<Rightarrow> 32 word" where
  "sint3korr_gen m a =
     (if byte_at m a 2 AND (128 :: uint32) \<noteq> 0
      then push_bit 24 255 OR push_bit 16 (byte_at m a 2) OR push_bit 8 (byte_at m a 1) OR byte_at m a 0
      else push_bit 16 (byte_at m a 2) OR push_bit 8 (byte_at m a 1) OR byte_at m a 0)"

definition sint4korr_gen :: "memory \<Rightarrow> addr \<Rightarrow> 32 word" where
  "sint4korr_gen m a =
     byte_at m a 0 OR push_bit 8 (byte_at m a 1) OR push_bit 16 (byte_at m a 2) OR push_bit 24 (byte_at m a 3)"

definition uint2korr_gen :: "memory \<Rightarrow> addr \<Rightarrow> uint16" where
  "uint2korr_gen m a = byte_at m a 0 OR push_bit 8 (byte_at m a 1)"

definition uint3korr_gen :: "memory \<Rightarrow> addr \<Rightarrow> uint32" where
  "uint3korr_gen m a = byte_at m a 0 OR push_bit 8 (byte_at m a 1) OR push_bit 16 (byte_at m a 2)"

definition uint4korr_gen :: "memory \<Rightarrow> addr \<Rightarrow> uint32" where
  "uint4korr_gen m a =
     byte_at m a 0 OR push_bit 8 (byte_at m a 1) OR push_bit 16 (byte_at m a 2) OR push_bit 24 (byte_at m a 3)"

definition uint5korr_gen :: "memory \<Rightarrow> addr \<Rightarrow> ulonglong" where
  "uint5korr_gen m a =
     ucast (byte_at m a 0 OR push_bit 8 (byte_at m a 1) OR push_bit 16 (byte_at m a 2)
       OR push_bit 24 (byte_at m a 3) :: uint32) OR push_bit 32 (byte_at m a 4)"

definition uint6korr_gen :: "memory \<Rightarrow> addr \<Rightarrow> ulonglong" where
  "uint6korr_gen m a =
     ucast (byte_at m a 0 OR push_bit 8 (byte_at m a 1) OR push_bit 16 (byte_at m a 2)
       OR push_bit 24 (byte_at m a 3) :: uint32) OR push_bit 32 (byte_at m a 4) OR push_bit 40 (byte_at m a 5)"

definition uint8korr_gen :: "memory \<Rightarrow> addr \<Rightarrow> ulonglong" where
  "uint8korr_gen m a =
     ucast (byte_at m a 0 OR push_bit 8 (byte_at m a 1) OR push_bit 16 (byte_at m a 2)
       OR push_bit 24 (byte_at m a 3) :: uint32)
     OR push_bit 32 (ucast (byte_at m a 4 OR push_bit 8 (byte_at m a 5) OR push_bit 16 (byte_at m a 6)
       OR push_bit 24 (byte_at m a 7) :: uint32))"

definition sint8korr_gen :: "memory \<Rightarrow> addr \<Rightarrow> 64 word" where "sint8korr_gen m a = uint8korr_gen m a"

definition int2store_gen :: "addr \<Rightarrow> uint \<Rightarrow> memory \<Rightarrow> memory" where
  "int2store_gen t a m = (let def_temp = a in store8 (t + 1) (ucast (drop_bit 8 def_temp)) (store8 t (ucast def_temp) m))"

definition int3store_gen :: "addr \<Rightarrow> uint \<Rightarrow> memory \<Rightarrow> memory" where
  "int3store_gen t a m =
     store8 (t + 2) (ucast (drop_bit 16 a)) (store8 (t + 1) (ucast (drop_bit 8 a)) (store8 t (ucast a) m))"

definition int4store_gen :: "addr \<Rightarrow> uint \<Rightarrow> memory \<Rightarrow> memory" where
  "int4store_gen t a m =
     store8 (t + 3) (ucast (drop_bit 24 a)) (store8 (t + 2) (ucast (drop_bit 16 a))
       (store8 (t + 1) (ucast (drop_bit 8 a)) (store8 t (ucast a) m)))"

definition int5store_gen :: "addr \<Rightarrow> ulonglong \<Rightarrow> memory \<Rightarrow> memory" where
  "int5store_gen t a m =
     store8 (t + 4) (ucast (drop_bit 32 a)) (store8 (t + 3) (ucast (drop_bit 24 a)) (store8 (t + 2) (ucast (drop_bit 16 a))
       (store8 (t + 1) (ucast (drop_bit 8 a)) (store8 t (ucast a) m))))"

definition int6store_gen :: "addr \<Rightarrow> ulonglong \<Rightarrow> memory \<Rightarrow> memory" where
  "int6store_gen t a m =
     store8 (t + 5) (ucast (drop_bit 40 a)) (store8 (t + 4) (ucast (drop_bit 32 a)) (store8 (t + 3) (ucast (drop_bit 24 a))
       (store8 (t + 2) (ucast (drop_bit 16 a)) (store8 (t + 1) (ucast (drop_bit 8 a)) (store8 t (ucast a) m)))))"

definition int8store_gen :: "addr \<Rightarrow> ulonglong \<Rightarrow> memory \<Rightarrow> memory" where
  "int8store_gen t a m =
     (let def_temp = ucast a; def_temp2 = ucast (drop_bit 32 a)
      in int4store_gen (t + 4) def_temp2 (int4store_gen t def_temp m))"

section \<open>Bytes and the numbers they denote\<close>

text \<open>\<open>le_nat\<close>: the number a byte string denotes low byte first; \<open>le_bytes n k\<close>: the low \<open>n\<close> bytes of \<open>k\<close>.\<close>

fun le_nat :: "uchar list \<Rightarrow> nat" where
  "le_nat [] = 0"
| "le_nat (b # bs) = unat b + 256 * le_nat bs"

fun le_bytes :: "nat \<Rightarrow> nat \<Rightarrow> uchar list" where
  "le_bytes 0 k = []"
| "le_bytes (Suc n) k = of_nat k # le_bytes n (k div 256)"

lemma length_le_bytes [simp]: "length (le_bytes n k) = n"
  by (induction n arbitrary: k) simp_all

lemma le_nat_bytes: "le_nat (le_bytes n k) = k mod 256 ^ n"
proof (induction n arbitrary: k)
  case (Suc n)
  have "unat (of_nat k :: uchar) = k mod 256" by (simp add: unsigned_of_nat take_bit_eq_mod)
  then show ?case using Suc by (simp add: mod_mult2_eq)
qed simp

lemma le_nat_less: "le_nat bs < 256 ^ length bs"
proof (induction bs)
  case (Cons b bs)
  have "unat b < 256" using unat_less_2p [of b] by simp
  then show ?case using Cons by simp
qed simp

definition bytes :: "memory \<Rightarrow> addr \<Rightarrow> nat \<Rightarrow> uchar list" where
  "bytes m a n = map (\<lambda>i. m (a + of_nat i)) [0..<n]"

lemma length_bytes [simp]: "length (bytes m a n) = n"
  by (simp add: bytes_def)

lemma bytes_Suc: "bytes m a (Suc n) = m a # bytes m (a + 1) n"
  by (simp add: bytes_def upt_conv_Cons del: upt_Suc) (simp add: map_Suc_upt [symmetric] ac_simps del: upt_Suc)

text \<open>Joining a byte above the bytes joined so far.\<close>

lemma or_push:
  fixes v w :: "'a::len word"
  assumes v: "unat v < 2 ^ n" and w: "unat w < 2 ^ (LENGTH('a) - n)" and n: "n \<le> LENGTH('a)"
  shows "unat (v OR push_bit n w) = unat v + 2 ^ n * unat w"
proof -
  have nb: "\<not> bit v i" if "n \<le> i" for i using v that by (rule unat_lt_2p_bit)
  have "v AND push_bit n w = 0" by (rule bit_eqI) (use nb in \<open>auto simp: bit_simps\<close>)
  then have s: "v OR push_bit n w = v + push_bit n w" by (simp add: disjunctive_add_eq_or)
  have "(unat w + 1) * 2 ^ n \<le> 2 ^ (LENGTH('a) - n) * 2 ^ n" using w by (intro mult_right_mono) simp_all
  then have le: "unat v + unat w * 2 ^ n < 2 ^ LENGTH('a)" using v n by (simp flip: power_add)
  have "unat (push_bit n w) = take_bit LENGTH('a) (unat w * 2 ^ n)"
    by (simp only: unsigned_push_bit_eq push_bit_eq_mult [of n "unat w"])
  then have "unat (push_bit n w) = unat w * 2 ^ n" using le by (simp add: take_bit_nat_eq_self)
  then show ?thesis using s le by (simp add: unat_word_ariths mult.commute)
qed

lemma unat_byte_at: "8 \<le> LENGTH('a) \<Longrightarrow> unat (byte_at m a i :: 'a::len word) = unat (m (a + of_nat i))"
proof -
  assume l: "8 \<le> LENGTH('a)"
  have "unat (m (a + of_nat i)) < 2 ^ 8" using unat_less_2p [of "m (a + of_nat i)"] by simp
  also have "\<dots> \<le> 2 ^ LENGTH('a)" using l by (rule power_increasing) simp
  finally show ?thesis unfolding byte_at_def by (rule unat_ucast_small)
qed

lemma byte_less: "unat (v :: uchar) < 256"
  using unat_less_2p [of v] by simp

lemma or_byte:
  fixes v :: "'a::len word"
  assumes "unat v < 2 ^ n" and "n + 8 \<le> LENGTH('a)"
  shows "unat (v OR push_bit n (byte_at m a i)) = unat v + 2 ^ n * unat (m (a + of_nat i))"
    and "unat (v OR push_bit n (byte_at m a i)) < 2 ^ (n + 8)"
proof -
  have u: "unat (byte_at m a i :: 'a word) = unat (m (a + of_nat i))" using assms(2) by (simp add: unat_byte_at)
  have "unat (byte_at m a i :: 'a word) < 2 ^ 8" using u byte_less by simp
  also have "\<dots> \<le> 2 ^ (LENGTH('a) - n)" using assms(2) by (intro power_increasing) simp_all
  finally show e: "unat (v OR push_bit n (byte_at m a i)) = unat v + 2 ^ n * unat (m (a + of_nat i))"
    using or_push [OF assms(1)] assms(2) u by simp
  have "unat v + 2 ^ n * unat (m (a + of_nat i)) < 2 ^ n * (unat (m (a + of_nat i)) + 1)" using assms(1) by simp
  also have "\<dots> \<le> 2 ^ n * 256" using byte_less [of "m (a + of_nat i)"] by (intro mult_left_mono) simp_all
  finally show "unat (v OR push_bit n (byte_at m a i)) < 2 ^ (n + 8)" by (simp add: e power_add)
qed

lemma bytes_simps: "bytes m a 0 = []" "bytes m a (Suc 0) = [m a]" "bytes m a 2 = [m a, m (a + 1)]"
  "bytes m a 3 = [m a, m (a + 1), m (a + 2)]" "bytes m a 4 = [m a, m (a + 1), m (a + 2), m (a + 3)]"
  "bytes m a 5 = [m a, m (a + 1), m (a + 2), m (a + 3), m (a + 4)]"
  "bytes m a 6 = [m a, m (a + 1), m (a + 2), m (a + 3), m (a + 4), m (a + 5)]"
  "bytes m a 7 = [m a, m (a + 1), m (a + 2), m (a + 3), m (a + 4), m (a + 5), m (a + 6)]"
  "bytes m a 8 = [m a, m (a + 1), m (a + 2), m (a + 3), m (a + 4), m (a + 5), m (a + 6), m (a + 7)]"
  by (simp_all add: bytes_def upt_rec)

lemma le_nat_append: "le_nat (xs @ ys) = le_nat xs + 256 ^ length xs * le_nat ys"
  by (induction xs) (simp_all add: algebra_simps)

lemma bytes_append: "bytes m a (n + k) = bytes m a n @ bytes m (a + of_nat n) k"
proof (induction n arbitrary: a)
  case (Suc n)
  then show ?case by (simp add: bytes_Suc ac_simps)
qed (simp add: bytes_def)

section \<open>What the readers return\<close>

lemma unat_load16: "unat (load16 m a) = le_nat (bytes m a 2)"
  using or_byte(1) [of "byte_at m a 0 :: uint16" 8 m a 1] byte_less [of "m a"]
  by (simp add: load16_def bytes_simps unat_byte_at)

lemma unat_bytes3:
  assumes "24 \<le> LENGTH('a)"
  shows "unat (byte_at m a 0 OR push_bit 8 (byte_at m a 1) OR push_bit 16 (byte_at m a 2) :: 'a::len word)
    = le_nat (bytes m a 3)"
proof -
  let ?v = "byte_at m a 0 OR push_bit 8 (byte_at m a 1) :: 'a word"
  have 0: "unat (byte_at m a 0 :: 'a word) = unat (m a)" using assms by (simp add: unat_byte_at)
  then have "unat (byte_at m a 0 :: 'a word) < 2 ^ 8" using byte_less [of "m a"] by simp
  note v = or_byte [OF this, of m a 1]
  then have "unat ?v < 2 ^ 16" using assms by simp
  from or_byte(1) [OF this, of m a 2] v(1) 0 assms show ?thesis by (simp add: bytes_simps or.assoc)
qed

lemma unat_load32: "unat (load32 m a) = le_nat (bytes m a 4)"
proof -
  let ?v = "byte_at m a 0 OR push_bit 8 (byte_at m a 1) OR push_bit 16 (byte_at m a 2) :: uint32"
  have v: "unat ?v = le_nat (bytes m a 3)" by (rule unat_bytes3) simp
  moreover have "unat ?v < 2 ^ 24" using v le_nat_less [of "bytes m a 3"] by simp
  from or_byte(1) [OF this, of m a 3] v show ?thesis
    using bytes_append [of m a 3 1] le_nat_append [of "bytes m a 3" "bytes m (a + 3) 1"]
    by (simp add: load32_def or.assoc bytes_simps(2))
qed

lemma unat_load32_ucast: "unat (ucast (load32 m a) :: ulonglong) = le_nat (bytes m a 4)"
  using unat_less_2p [of "load32 m a"] by (simp add: unat_ucast_small unat_load32)

lemma load32_less: "unat (ucast (load32 m a) :: ulonglong) < 2 ^ 32"
  using le_nat_less [of "bytes m a 4"] by (simp add: unat_load32_ucast)

lemma unat_load64: "unat (load64 m a) = le_nat (bytes m a 8)"
proof -
  have "unat (load64 m a) = unat (ucast (load32 m a) :: ulonglong) + 2 ^ 32 * unat (ucast (load32 m (a + 4)) :: ulonglong)"
    unfolding load64_def by (rule or_push) (use load32_less in simp_all)
  then show ?thesis using bytes_append [of m a 4 4] le_nat_append [of "bytes m a 4" "bytes m (a + 4) 4"]
    by (simp add: unat_load32_ucast)
qed

lemma unat_uint5korr: "unat (uint5korr m a) = le_nat (bytes m a 5)"
  using or_byte(1) [OF load32_less, of m a m a 4] bytes_append [of m a 4 1]
    le_nat_append [of "bytes m a 4" "bytes m (a + 4) 1"]
  by (simp add: uint5korr_def Let_def unat_load32_ucast bytes_simps(2))

lemma unat_uint6korr: "unat (uint6korr m a) = le_nat (bytes m a 6)"
proof -
  have l: "unat (ucast (load16 m (4 + a)) :: ulonglong) = le_nat (bytes m (4 + a) 2)"
    using unat_less_2p [of "load16 m (4 + a)"] by (simp add: unat_ucast_small unat_load16)
  then have "unat (ucast (load16 m (4 + a)) :: ulonglong) < 2 ^ (LENGTH(64) - 32)"
    using le_nat_less [of "bytes m (4 + a) 2"] by simp
  from or_push [OF load32_less this, of m a] l show ?thesis
    using bytes_append [of m a 4 2] le_nat_append [of "bytes m a 4" "bytes m (a + 4) 2"]
    by (simp add: uint6korr_def Let_def unat_load32_ucast add.commute [of a 4])
qed

text \<open>Four bytes joined in any order.\<close>

lemma unat_join:
  fixes b0 b1 b2 b3 :: uchar
  assumes "32 \<le> LENGTH('a)"
  shows "unat (ucast b0 OR push_bit 8 (ucast b1) :: 'a::len word) = le_nat [b0, b1]"
    and "unat (ucast b0 OR push_bit 8 (ucast b1) OR push_bit 16 (ucast b2) :: 'a word) = le_nat [b0, b1, b2]"
    and "unat (ucast b0 OR push_bit 8 (ucast b1) OR push_bit 16 (ucast b2) OR push_bit 24 (ucast b3) :: 'a word)
      = le_nat [b0, b1, b2, b3]"
proof -
  let ?m = "(\<lambda>a. b0)(1 := b1, 2 := b2, 3 := b3) :: memory"
  have m: "byte_at ?m 0 0 = ucast b0" "byte_at ?m 0 1 = ucast b1" "byte_at ?m 0 2 = ucast b2" "byte_at ?m 0 3 = ucast b3"
    by (simp_all add: byte_at_def)
  let ?v2 = "byte_at ?m 0 0 OR push_bit 8 (byte_at ?m 0 1) :: 'a word"
  let ?v3 = "byte_at ?m 0 0 OR push_bit 8 (byte_at ?m 0 1) OR push_bit 16 (byte_at ?m 0 2) :: 'a word"
  have 0: "unat (byte_at ?m 0 0 :: 'a word) = unat b0" using assms by (simp add: unat_byte_at)
  then have "unat (byte_at ?m 0 0 :: 'a word) < 2 ^ 8" using byte_less [of b0] by simp
  from or_byte(1) [OF this, of ?m 0 1] 0 assms have v2: "unat ?v2 = le_nat [b0, b1]" by simp
  then show "unat (ucast b0 OR push_bit 8 (ucast b1) :: 'a word) = le_nat [b0, b1]" by (simp only: m)
  have v3: "unat ?v3 = le_nat [b0, b1, b2]" using unat_bytes3 [of ?m 0, where 'a = 'a] assms by (simp add: bytes_simps)
  then show "unat (ucast b0 OR push_bit 8 (ucast b1) OR push_bit 16 (ucast b2) :: 'a word) = le_nat [b0, b1, b2]"
    by (simp only: m)
  have "unat ?v3 < 2 ^ 24" using v3 le_nat_less [of "[b0, b1, b2]"] by simp
  from or_byte(1) [OF this, of ?m 0 3] v3 assms
  have "unat (?v3 OR push_bit 24 (byte_at ?m 0 3)) = le_nat [b0, b1, b2, b3]" by simp
  then show "unat (ucast b0 OR push_bit 8 (ucast b1) OR push_bit 16 (ucast b2) OR push_bit 24 (ucast b3) :: 'a word)
    = le_nat [b0, b1, b2, b3]" by (simp only: m or.assoc)
qed

section \<open>What the stores write\<close>

fun put_bytes :: "addr \<Rightarrow> uchar list \<Rightarrow> memory \<Rightarrow> memory" where
  "put_bytes t [] m = m"
| "put_bytes t (b # bs) m = put_bytes (t + 1) bs (m(t := b))"

lemma put_bytes_append: "put_bytes t (xs @ ys) m = put_bytes (t + of_nat (length xs)) ys (put_bytes t xs m)"
  by (induction xs arbitrary: t m) (simp_all add: ac_simps)

lemma put_bytes_outside: "(\<And>i. i < length bs \<Longrightarrow> x \<noteq> t + of_nat i) \<Longrightarrow> put_bytes t bs m x = m x"
proof (induction bs arbitrary: t m)
  case (Cons b bs)
  have "put_bytes (t + 1) bs (m(t := b)) x = (m(t := b)) x"
    using Cons.prems [of "Suc _"] by (intro Cons.IH) (simp add: ac_simps)
  then show ?case using Cons.prems [of 0] by simp
qed simp

lemma bytes_put_bytes: "length bs \<le> 2 ^ 64 \<Longrightarrow> bytes (put_bytes t bs m) t (length bs) = bs"
proof (induction bs arbitrary: t m)
  case (Cons b bs)
  have "t \<noteq> t + 1 + of_nat i" if "i < length bs" for i
  proof
    assume "t = t + 1 + of_nat i"
    then have "(of_nat (Suc i) :: addr) = 0" by (simp add: ac_simps)
    then have "unat (of_nat (Suc i) :: addr) = 0" by simp
    then show False using that Cons.prems by (simp add: unat_of_nat_small del: of_nat_Suc)
  qed
  then have "put_bytes (t + 1) bs (m(t := b)) t = b" by (subst put_bytes_outside) auto
  then show ?case using Cons by (simp add: bytes_Suc)
qed (simp add: bytes_def)

text \<open>Memory with the bytes from an address on replaced.\<close>

definition overwrite :: "addr \<Rightarrow> uchar list \<Rightarrow> memory \<Rightarrow> memory" where
  "overwrite t bs m = (\<lambda>x. if unat (x - t) < length bs then bs ! unat (x - t) else m x)"

lemma put_bytes_overwrite: "length bs \<le> 2 ^ 64 \<Longrightarrow> put_bytes t bs m = overwrite t bs m"
proof
  fix x assume l: "length bs \<le> 2 ^ 64"
  show "put_bytes t bs m x = overwrite t bs m x"
  proof (cases "unat (x - t) < length bs")
    case True
    have "bytes (put_bytes t bs m) t (length bs) ! unat (x - t) = put_bytes t bs m x"
      using True by (simp add: bytes_def)
    then show ?thesis using True l by (simp add: bytes_put_bytes overwrite_def)
  next
    case False
    have "x \<noteq> t + of_nat i" if "i < length bs" for i
    proof
      assume "x = t + of_nat i"
      then have "unat (x - t) = i" using that l by (simp add: unat_of_nat_small)
      then show False using False that by simp
    qed
    then show ?thesis using False by (simp add: overwrite_def put_bytes_outside)
  qed
qed

lemma le_bytes_add: "le_bytes (n + k) v = le_bytes n v @ le_bytes k (v div 256 ^ n)"
  by (induction n arbitrary: v) (simp_all add: div_mult2_eq)

lemma of_nat_mod_256: "k mod 256 = j mod 256 \<Longrightarrow> (of_nat k :: uchar) = of_nat j"
  by (simp add: word_unat_eq_iff unsigned_of_nat take_bit_eq_mod)

lemma le_bytes_mod: "le_bytes n (v mod 256 ^ n) = le_bytes n v"
proof (induction n arbitrary: v)
  case (Suc n)
  have "v mod (256 * 256 ^ n) div 256 = v div 256 mod 256 ^ n" by (simp add: mod_mult2_eq div_mult2_eq)
  moreover have "(of_nat (v mod (256 * 256 ^ n)) :: uchar) = of_nat v"
    by (rule of_nat_mod_256) (simp add: mod_mult2_eq)
  ultimately show ?case using Suc by simp
qed simp

lemma le_bytes_numeral: "le_bytes (numeral k) v = of_nat v # le_bytes (pred_numeral k) (v div 256)"
  by (simp only: numeral_eq_Suc [of k] le_bytes.simps)

lemma ucast_drop_bit: "(ucast (drop_bit n v) :: uchar) = of_nat (unat v div 2 ^ n)" for v :: "'a::len word"
  by (simp flip: unat_drop_bit)

lemma ucast_uchar: "(ucast v :: uchar) = of_nat (unat v)" for v :: "'a::len word"
  by simp

lemma store16_put: "store16 t v m = put_bytes t (le_bytes 2 (unat v)) m"
  by (simp add: store16_def store8_def ucast_drop_bit le_bytes_numeral)

lemma unat_ucast_mod: "unat (ucast v :: 'b::len word) = unat v mod 2 ^ LENGTH('b)" for v :: "'a::len word"
  by (simp add: unsigned_ucast_eq take_bit_eq_mod)

lemma store32_put: "store32 t v m = put_bytes t (le_bytes 4 (unat v)) m"
proof -
  have "unat (ucast (drop_bit 16 v) :: uint16) = unat v div 256 ^ 2"
    using unat_less_2p [of v] by (simp add: unat_ucast_mod unat_drop_bit)
  moreover have "le_bytes 2 (unat (ucast v :: uint16)) = le_bytes 2 (unat v)"
    using le_bytes_mod [of 2 "unat v"] by (simp add: unat_ucast_mod)
  ultimately show ?thesis using le_bytes_add [of 2 2 "unat v"]
    by (simp add: store32_def store16_put put_bytes_append)
qed

lemma store64_put: "store64 t v m = put_bytes t (le_bytes 8 (unat v)) m"
proof -
  have "unat (ucast (drop_bit 32 v) :: uint32) = unat v div 256 ^ 4"
    using unat_less_2p [of v] by (simp add: unat_ucast_mod unat_drop_bit)
  moreover have "le_bytes 4 (unat (ucast v :: uint32)) = le_bytes 4 (unat v)"
    using le_bytes_mod [of 4 "unat v"] by (simp add: unat_ucast_mod)
  ultimately show ?thesis using le_bytes_add [of 4 4 "unat v"]
    by (simp add: store64_def store32_put put_bytes_append)
qed

lemma unat_mod_256: "(of_nat (unat (ucast v :: uint32)) :: uchar) = of_nat (unat v)" for v :: ulonglong
  by (rule of_nat_mod_256) (simp add: unat_ucast_mod mod_mod_cancel)

lemma stores_put:
  "int2store t a m = put_bytes t (le_bytes 2 (unat a)) m"
  "int3store t a m = put_bytes t (le_bytes 3 (unat a)) m"
  "int4store t a m = put_bytes t (le_bytes 4 (unat a)) m"
  "int5store t b m = put_bytes t (le_bytes 5 (unat b)) m"
  "int6store t b m = put_bytes t (le_bytes 6 (unat b)) m"
  "int8store t b m = put_bytes t (le_bytes 8 (unat b)) m"
proof -
  have low: "le_bytes 4 (unat (ucast b :: uint32)) = le_bytes 4 (unat b)"
    using le_bytes_mod [of 4 "unat b"] by (simp add: unat_ucast_mod)
  have low16: "le_bytes 2 (unat (ucast a :: uint16)) = le_bytes 2 (unat a)"
    using le_bytes_mod [of 2 "unat a"] by (simp add: unat_ucast_mod)
  have high: "unat (ucast (drop_bit 32 b) :: uint16) = unat b div 256 ^ 4 mod 256 ^ 2"
    by (simp add: unat_ucast_mod unat_drop_bit)
  show "int2store t a m = put_bytes t (le_bytes 2 (unat a)) m"
    by (simp add: int2store_def store16_put low16)
  show "int3store t a m = put_bytes t (le_bytes 3 (unat a)) m"
    by (simp add: int3store_def store8_def ucast_drop_bit le_bytes_numeral add.commute [of "numeral w" t for w] flip: div_mult2_eq)
  show "int4store t a m = put_bytes t (le_bytes 4 (unat a)) m"
    by (simp add: int4store_def store32_put)
  show "int5store t b m = put_bytes t (le_bytes 5 (unat b)) m"
    using le_bytes_add [of 4 1 "unat b"]
    by (simp add: int5store_def store8_def store32_put low ucast_drop_bit put_bytes_append)
  show "int6store t b m = put_bytes t (le_bytes 6 (unat b)) m"
    using le_bytes_add [of 4 2 "unat b"] le_bytes_mod [of 2 "unat b div 256 ^ 4"]
    by (simp add: int6store_def store16_put store32_put low high put_bytes_append)
  show "int8store t b m = put_bytes t (le_bytes 8 (unat b)) m"
    by (simp add: int8store_def store64_put)
qed

lemma stores_gen_put:
  "int2store_gen t a m = put_bytes t (le_bytes 2 (unat a)) m"
  "int3store_gen t a m = put_bytes t (le_bytes 3 (unat a)) m"
  "int4store_gen t a m = put_bytes t (le_bytes 4 (unat a)) m"
  "int5store_gen t b m = put_bytes t (le_bytes 5 (unat b)) m"
  "int6store_gen t b m = put_bytes t (le_bytes 6 (unat b)) m"
  by (simp_all add: int2store_gen_def int3store_gen_def int4store_gen_def int5store_gen_def int6store_gen_def Let_def
      store8_def ucast_drop_bit le_bytes_numeral add.commute [of "numeral w" t for w] flip: div_mult2_eq)

lemma int8store_gen_put: "int8store_gen t b m = put_bytes t (le_bytes 8 (unat b)) m"
proof -
  have "le_bytes 4 (unat (ucast b :: uint32)) = le_bytes 4 (unat b)"
    using le_bytes_mod [of 4 "unat b"] by (simp add: unat_ucast_mod)
  moreover have "unat (ucast (drop_bit 32 b) :: uint32) = unat b div 256 ^ 4"
    using unat_less_2p [of b] by (simp add: unat_ucast_mod unat_drop_bit)
  ultimately show ?thesis using le_bytes_add [of 4 4 "unat b"]
    by (simp add: int8store_gen_def Let_def stores_gen_put(3) put_bytes_append)
qed

section \<open>Signed readings\<close>

lemma bit_byte_at: "bit (byte_at m a i :: 'a::len word) n \<longleftrightarrow> n < LENGTH('a) \<and> bit (m (a + of_nat i)) n"
  by (simp add: byte_at_def bit_simps)

lemma high_bit: "(byte_at m a i :: uint32) AND 128 \<noteq> 0 \<longleftrightarrow> bit (m (a + of_nat i)) 7"
proof -
  have "(128 :: uint32) = 2 ^ 7" by simp
  then have "(byte_at m a i :: uint32) AND 128 \<noteq> 0 \<longleftrightarrow> bit (byte_at m a i :: uint32) 7"
    by (simp only: and_exp_eq_0_iff_not_bit not_not)
  then show ?thesis by (simp add: bit_byte_at)
qed

lemma uchar_bit_less: "bit (v :: uchar) n \<Longrightarrow> n < 8"
  using bit_imp_le_length [of v n] by simp

lemma uint3korr_bit_23: "bit (uint3korr m a) 23 \<longleftrightarrow> bit (m (a + 2)) 7"
  using bit_imp_le_length [of "m a" 23] bit_imp_le_length [of "m (a + 1)" 15]
  by (auto simp: uint3korr_def bit_simps bit_byte_at)

lemma sint3korr_extends: "sint3korr m a = signed_take_bit 23 (uint3korr m a)"
proof (rule bit_eqI)
  fix n assume "possible_bit TYPE(32 word) n"
  then have n: "n < 32" by simp
  have s: "sint3korr m a = (if bit (m (a + 2)) 7 then push_bit 24 255 OR uint3korr m a else uint3korr m a)"
    by (simp add: sint3korr_def high_bit uint3korr_def ac_simps)
  have "unat (uint3korr m a) < 2 ^ 24"
    using le_nat_less [of "bytes m a 3"] unat_bytes3 [of m a, where 'a = 32] by (simp add: uint3korr_def)
  then have z: "\<not> bit (uint3korr m a) n" if "24 \<le> n" using that by (rule unat_lt_2p_bit)
  have "push_bit 24 255 = push_bit 24 (mask 8 :: uint32)" by (simp add: mask_eq_exp_minus_1)
  then have "bit (push_bit 24 255 :: uint32) n \<longleftrightarrow> 24 \<le> n" using n by (auto simp only: bit_simps) auto
  then show "bit (sint3korr m a) n \<longleftrightarrow> bit (signed_take_bit 23 (uint3korr m a)) n"
    using s z n uint3korr_bit_23 [of m a] by (cases "n = 23") (auto simp: bit_simps min_def)
qed

section \<open>Properties\<close>

text \<open>
  The macros of the shipped build, which read and store words of the machine, agree with the portable ones on every
  memory, address and value.
\<close>

theorem byte_order_macros_agree:
  "sint2korr m a = sint2korr_gen m a \<and> sint3korr m a = sint3korr_gen m a \<and> sint4korr m a = sint4korr_gen m a
   \<and> sint8korr m a = sint8korr_gen m a \<and> uint2korr m a = uint2korr_gen m a \<and> uint3korr m a = uint3korr_gen m a
   \<and> uint4korr m a = uint4korr_gen m a \<and> uint5korr m a = uint5korr_gen m a \<and> uint6korr m a = uint6korr_gen m a
   \<and> uint8korr m a = uint8korr_gen m a
   \<and> int2store a v m = int2store_gen a v m \<and> int3store a v m = int3store_gen a v m
   \<and> int4store a v m = int4store_gen a v m \<and> int5store a w m = int5store_gen a w m
   \<and> int6store a w m = int6store_gen a w m \<and> int8store a w m = int8store_gen a w m"
proof -
  have "push_bit 32 (ucast (load16 m (4 + a)) :: ulonglong) = push_bit 32 (byte_at m a 4) OR push_bit 40 (byte_at m a 5)"
    by (rule bit_eqI) (auto simp: load16_def bit_simps bit_byte_at ac_simps dest: uchar_bit_less)
  then have "uint6korr m a = uint6korr_gen m a"
    by (simp add: uint6korr_def uint6korr_gen_def Let_def load32_def or.assoc)
  moreover have "uint8korr m a = uint8korr_gen m a"
    by (simp add: uint8korr_def uint8korr_gen_def load64_def load32_def byte_at_def add.assoc)
  ultimately show ?thesis
    by (simp add: stores_put stores_gen_put int8store_gen_put sint2korr_def sint2korr_gen_def load16_def
        sint3korr_def sint3korr_gen_def sint4korr_def sint4korr_gen_def load32_def sint8korr_def sint8korr_gen_def
        uint8korr_def uint2korr_def uint2korr_gen_def uint3korr_def uint3korr_gen_def uint4korr_def uint4korr_gen_def
        uint5korr_def uint5korr_gen_def Let_def)
qed

text \<open>
  A store writes the low bytes of its value, low byte first, and no other byte; reading what was stored gives the
  value back, truncated to the bytes stored, and a three-byte value with the sign of its highest bit.
\<close>

theorem little_endian_roundtrip:
  "int2store t v m = overwrite t (le_bytes 2 (unat v)) m \<and> int3store t v m = overwrite t (le_bytes 3 (unat v)) m
   \<and> int4store t v m = overwrite t (le_bytes 4 (unat v)) m \<and> int5store t w m = overwrite t (le_bytes 5 (unat w)) m
   \<and> int6store t w m = overwrite t (le_bytes 6 (unat w)) m \<and> int8store t w m = overwrite t (le_bytes 8 (unat w)) m
   \<and> unat (uint2korr (int2store t v m) t) = unat v mod 2 ^ 16 \<and> unat (uint3korr (int3store t v m) t) = unat v mod 2 ^ 24
   \<and> uint4korr (int4store t v m) t = v \<and> unat (uint5korr (int5store t w m) t) = unat w mod 2 ^ 40
   \<and> unat (uint6korr (int6store t w m) t) = unat w mod 2 ^ 48 \<and> uint8korr (int8store t w m) t = w
   \<and> sint3korr (int3store t v m) t = signed_take_bit 23 v"
proof -
  have rd: "bytes (put_bytes t (le_bytes n k) m) t n = le_bytes n k" if "n \<le> 8" for n k
    using bytes_put_bytes [of "le_bytes n k" t m] that by simp
  have 3: "unat (uint3korr (int3store t v m) t) = unat v mod 2 ^ 24"
    using unat_bytes3 [where 'a = 32] rd [of 3 "unat v"] by (simp add: uint3korr_def stores_put le_nat_bytes)
  have "unat (take_bit 24 v) = unat v mod 2 ^ 24" by (simp only: unsigned_take_bit_eq take_bit_eq_mod [of 24 "unat v"])
  then have "uint3korr (int3store t v m) t = take_bit 24 v" using 3 by (simp only: word_unat_eq_iff)
  then have "sint3korr (int3store t v m) t = signed_take_bit 23 v"
    by (simp add: sint3korr_extends signed_take_bit_take_bit)
  moreover have "uint4korr (int4store t v m) t = v"
    using unat_less_2p [of v] rd [of 4 "unat v"]
    by (simp add: word_unat_eq_iff uint4korr_def unat_load32 stores_put le_nat_bytes)
  moreover have "uint8korr (int8store t w m) t = w"
    using unat_less_2p [of w] rd [of 8 "unat w"]
    by (simp add: word_unat_eq_iff uint8korr_def unat_load64 stores_put le_nat_bytes)
  ultimately show ?thesis using 3 rd
    by (simp add: put_bytes_overwrite stores_put uint2korr_def unat_load16 unat_uint5korr unat_uint6korr le_nat_bytes)
qed

end
