(* ===== verification/Mi_Pack.thy ===== *)
theory Mi_Pack
  imports Byte_Order "HOL-Library.List_Lexorder"
begin

text \<open>
  Reading and storing integers high byte first (\<open>myisampack.h\<close>), the form of integer keys and file pointers in
  the MyISAM and Aria tables. Floating point values are taken as their bit patterns, \<open>long\<close> has 32 bits,
  and the shipped build stores row and file positions in eight bytes.
\<close>

section \<open>Readers\<close>

definition mi_sint1korr :: "memory \<Rightarrow> addr \<Rightarrow> 8 word" where "mi_sint1korr m a = byte_at m a 0"

definition mi_uint1korr :: "memory \<Rightarrow> addr \<Rightarrow> uint8" where "mi_uint1korr m a = byte_at m a 0"

definition mi_sint2korr :: "memory \<Rightarrow> addr \<Rightarrow> 16 word" where
  "mi_sint2korr m a = byte_at m a 1 OR push_bit 8 (byte_at m a 0)"

definition mi_sint3korr :: "memory \<Rightarrow> addr \<Rightarrow> 32 word" where
  "mi_sint3korr m a =
     (if byte_at m a 0 AND (128 :: uint32) \<noteq> 0
      then push_bit 24 255 OR push_bit 16 (byte_at m a 0) OR push_bit 8 (byte_at m a 1) OR byte_at m a 2
      else push_bit 16 (byte_at m a 0) OR push_bit 8 (byte_at m a 1) OR byte_at m a 2)"

definition mi_sint4korr :: "memory \<Rightarrow> addr \<Rightarrow> 32 word" where
  "mi_sint4korr m a =
     byte_at m a 3 OR push_bit 8 (byte_at m a 2) OR push_bit 16 (byte_at m a 1) OR push_bit 24 (byte_at m a 0)"

definition mi_uint2korr :: "memory \<Rightarrow> addr \<Rightarrow> uint16" where
  "mi_uint2korr m a = byte_at m a 1 OR push_bit 8 (byte_at m a 0)"

definition mi_uint3korr :: "memory \<Rightarrow> addr \<Rightarrow> uint32" where
  "mi_uint3korr m a = byte_at m a 2 OR push_bit 8 (byte_at m a 1) OR push_bit 16 (byte_at m a 0)"

definition mi_uint4korr :: "memory \<Rightarrow> addr \<Rightarrow> uint32" where
  "mi_uint4korr m a =
     byte_at m a 3 OR push_bit 8 (byte_at m a 2) OR push_bit 16 (byte_at m a 1) OR push_bit 24 (byte_at m a 0)"

definition mi_uint5korr :: "memory \<Rightarrow> addr \<Rightarrow> ulonglong" where
  "mi_uint5korr m a =
     ucast (byte_at m a 4 OR push_bit 8 (byte_at m a 3) OR push_bit 16 (byte_at m a 2)
       OR push_bit 24 (byte_at m a 1) :: uint32) OR push_bit 32 (byte_at m a 0)"

definition mi_uint6korr :: "memory \<Rightarrow> addr \<Rightarrow> ulonglong" where
  "mi_uint6korr m a =
     ucast (byte_at m a 5 OR push_bit 8 (byte_at m a 4) OR push_bit 16 (byte_at m a 3)
       OR push_bit 24 (byte_at m a 2) :: uint32)
     OR push_bit 32 (ucast (byte_at m a 1 OR push_bit 8 (byte_at m a 0) :: uint32))"

definition mi_uint7korr :: "memory \<Rightarrow> addr \<Rightarrow> ulonglong" where
  "mi_uint7korr m a =
     ucast (byte_at m a 6 OR push_bit 8 (byte_at m a 5) OR push_bit 16 (byte_at m a 4)
       OR push_bit 24 (byte_at m a 3) :: uint32)
     OR push_bit 32 (ucast (byte_at m a 2 OR push_bit 8 (byte_at m a 1) OR push_bit 16 (byte_at m a 0) :: uint32))"

definition mi_uint8korr :: "memory \<Rightarrow> addr \<Rightarrow> ulonglong" where
  "mi_uint8korr m a =
     ucast (byte_at m a 7 OR push_bit 8 (byte_at m a 6) OR push_bit 16 (byte_at m a 5)
       OR push_bit 24 (byte_at m a 4) :: uint32)
     OR push_bit 32 (ucast (byte_at m a 3 OR push_bit 8 (byte_at m a 2) OR push_bit 16 (byte_at m a 1)
       OR push_bit 24 (byte_at m a 0) :: uint32))"

definition mi_sint8korr :: "memory \<Rightarrow> addr \<Rightarrow> 64 word" where "mi_sint8korr m a = mi_uint8korr m a"

section \<open>Stores\<close>

definition mi_int1store :: "addr \<Rightarrow> uint \<Rightarrow> memory \<Rightarrow> memory" where "mi_int1store t a m = store8 t (ucast a) m"

definition mi_int2store :: "addr \<Rightarrow> uint \<Rightarrow> memory \<Rightarrow> memory" where
  "mi_int2store t a m = (let def_temp = a in store8 t (ucast (drop_bit 8 def_temp)) (store8 (t + 1) (ucast def_temp) m))"

definition mi_int3store :: "addr \<Rightarrow> uint \<Rightarrow> memory \<Rightarrow> memory" where
  "mi_int3store t a m =
     (let def_temp = a
      in store8 t (ucast (drop_bit 16 def_temp)) (store8 (t + 1) (ucast (drop_bit 8 def_temp))
           (store8 (t + 2) (ucast def_temp) m)))"

definition mi_int4store :: "addr \<Rightarrow> ulong \<Rightarrow> memory \<Rightarrow> memory" where
  "mi_int4store t a m =
     (let def_temp = a
      in store8 t (ucast (drop_bit 24 def_temp)) (store8 (t + 1) (ucast (drop_bit 16 def_temp))
           (store8 (t + 2) (ucast (drop_bit 8 def_temp)) (store8 (t + 3) (ucast def_temp) m))))"

definition mi_int5store :: "addr \<Rightarrow> ulonglong \<Rightarrow> memory \<Rightarrow> memory" where
  "mi_int5store t a m =
     (let def_temp = ucast a :: ulong; def_temp2 = ucast (drop_bit 32 a) :: ulong
      in store8 t (ucast def_temp2) (store8 (t + 1) (ucast (drop_bit 24 def_temp))
           (store8 (t + 2) (ucast (drop_bit 16 def_temp)) (store8 (t + 3) (ucast (drop_bit 8 def_temp))
             (store8 (t + 4) (ucast def_temp) m)))))"

definition mi_int6store :: "addr \<Rightarrow> ulonglong \<Rightarrow> memory \<Rightarrow> memory" where
  "mi_int6store t a m =
     (let def_temp = ucast a :: ulong; def_temp2 = ucast (drop_bit 32 a) :: ulong
      in store8 t (ucast (drop_bit 8 def_temp2)) (store8 (t + 1) (ucast def_temp2)
           (store8 (t + 2) (ucast (drop_bit 24 def_temp)) (store8 (t + 3) (ucast (drop_bit 16 def_temp))
             (store8 (t + 4) (ucast (drop_bit 8 def_temp)) (store8 (t + 5) (ucast def_temp) m))))))"

definition mi_int7store :: "addr \<Rightarrow> ulonglong \<Rightarrow> memory \<Rightarrow> memory" where
  "mi_int7store t a m =
     (let def_temp = ucast a :: ulong; def_temp2 = ucast (drop_bit 32 a) :: ulong
      in store8 t (ucast (drop_bit 16 def_temp2)) (store8 (t + 1) (ucast (drop_bit 8 def_temp2))
           (store8 (t + 2) (ucast def_temp2) (store8 (t + 3) (ucast (drop_bit 24 def_temp))
             (store8 (t + 4) (ucast (drop_bit 16 def_temp)) (store8 (t + 5) (ucast (drop_bit 8 def_temp))
               (store8 (t + 6) (ucast def_temp) m)))))))"

definition mi_int8store :: "addr \<Rightarrow> ulonglong \<Rightarrow> memory \<Rightarrow> memory" where
  "mi_int8store t a m =
     (let def_temp3 = ucast a; def_temp4 = ucast (drop_bit 32 a)
      in mi_int4store (t + 4) def_temp3 (mi_int4store (t + 0) def_temp4 m))"

text \<open>The bytes of a floating point value in the memory of the machine, which stores them low byte first.\<close>

definition float_byte :: "'a::len word \<Rightarrow> nat \<Rightarrow> uchar" where
  "float_byte v i = ucast (drop_bit (8 * i) v)"

definition mi_float4store :: "addr \<Rightarrow> 32 word \<Rightarrow> memory \<Rightarrow> memory" where
  "mi_float4store t a m =
     store8 (t + 3) (float_byte a 0) (store8 (t + 2) (float_byte a 1)
       (store8 (t + 1) (float_byte a 2) (store8 t (float_byte a 3) m)))"

definition mi_float4get :: "memory \<Rightarrow> addr \<Rightarrow> 32 word" where
  "mi_float4get m a =
     byte_at m a 3 OR push_bit 8 (byte_at m a 2) OR push_bit 16 (byte_at m a 1) OR push_bit 24 (byte_at m a 0)"

definition mi_float8store :: "addr \<Rightarrow> 64 word \<Rightarrow> memory \<Rightarrow> memory" where
  "mi_float8store t v m =
     store8 (t + 7) (float_byte v 0) (store8 (t + 6) (float_byte v 1) (store8 (t + 5) (float_byte v 2)
       (store8 (t + 4) (float_byte v 3) (store8 (t + 3) (float_byte v 4) (store8 (t + 2) (float_byte v 5)
         (store8 (t + 1) (float_byte v 6) (store8 t (float_byte v 7) m)))))))"

definition mi_float8get :: "memory \<Rightarrow> addr \<Rightarrow> 64 word" where
  "mi_float8get m a =
     byte_at m a 7 OR push_bit 8 (byte_at m a 6) OR push_bit 16 (byte_at m a 5) OR push_bit 24 (byte_at m a 4)
     OR push_bit 32 (byte_at m a 3) OR push_bit 40 (byte_at m a 2) OR push_bit 48 (byte_at m a 1)
     OR push_bit 56 (byte_at m a 0)"

definition mi_rowstore :: "addr \<Rightarrow> ulonglong \<Rightarrow> memory \<Rightarrow> memory" where "mi_rowstore t a m = mi_int8store t a m"

definition mi_rowkorr :: "memory \<Rightarrow> addr \<Rightarrow> ulonglong" where "mi_rowkorr m t = mi_uint8korr m t"

definition mi_sizestore :: "addr \<Rightarrow> ulonglong \<Rightarrow> memory \<Rightarrow> memory" where "mi_sizestore t a m = mi_int8store t a m"

definition mi_sizekorr :: "memory \<Rightarrow> addr \<Rightarrow> ulonglong" where "mi_sizekorr m t = mi_uint8korr m t"

section \<open>Byte strings as numbers, high byte first\<close>

definition be_nat :: "uchar list \<Rightarrow> nat" where "be_nat bs = le_nat (rev bs)"

definition be_bytes :: "nat \<Rightarrow> nat \<Rightarrow> uchar list" where "be_bytes n k = rev (le_bytes n k)"

lemma length_be_bytes [simp]: "length (be_bytes n k) = n"
  by (simp add: be_bytes_def)

lemma be_nat_bytes: "be_nat (be_bytes n k) = k mod 256 ^ n"
  by (simp add: be_nat_def be_bytes_def le_nat_bytes)

lemma be_nat_simps: "be_nat [] = 0" "be_nat (b # bs) = unat b * 256 ^ length bs + be_nat bs"
  by (simp_all add: be_nat_def le_nat_append)

lemma be_nat_less: "be_nat bs < 256 ^ length bs"
  using le_nat_less [of "rev bs"] by (simp add: be_nat_def)

lemma be_bytes_append: "be_bytes (n + k) v = be_bytes k (v div 256 ^ n) @ be_bytes n v"
  by (simp add: be_bytes_def le_bytes_add)

text \<open>Comparing equally long byte strings byte by byte, as \<open>memcmp\<close> does, compares the numbers.\<close>

lemma be_nat_order: "length xs = length ys \<Longrightarrow> xs < ys \<longleftrightarrow> be_nat xs < be_nat ys"
proof (induction xs ys rule: list_induct2)
  case (Cons x xs y ys)
  have *: "unat a * 256 ^ n + p < unat b * 256 ^ n + q" if "a < b" "p < 256 ^ n" for a b :: uchar and n p q
  proof -
    have "(unat a + 1) * 256 ^ n \<le> unat b * 256 ^ n" using that(1) by (intro mult_right_mono) (simp_all add: word_less_nat_alt)
    then show ?thesis using that(2) by simp
  qed
  consider "x < y" | "x = y" | "y < x" by (rule linorder_cases)
  then show ?case
  proof cases
    case 1
    then show ?thesis using * [of x y "be_nat xs" "length xs" "be_nat ys"] be_nat_less [of xs] Cons.hyps
      by (simp add: be_nat_simps Cons_less_Cons)
  next
    case 2
    then show ?thesis using Cons by (simp add: be_nat_simps Cons_less_Cons)
  next
    case 3
    then show ?thesis using * [of y x "be_nat ys" "length xs" "be_nat xs"] be_nat_less [of ys] Cons.hyps
      by (auto simp: be_nat_simps Cons_less_Cons)
  qed
qed simp

section \<open>What the stores write and the readers return\<close>

lemma be_bytes_numeral:
  "be_bytes 0 v = []" "be_bytes (Suc 0) v = [of_nat v]"
  "be_bytes (numeral k) v = be_bytes (pred_numeral k) (v div 256) @ [of_nat v]"
  by (simp_all add: be_bytes_def le_bytes_numeral)

lemma ucast_low: "(ucast (ucast a :: ulong) :: uchar) = of_nat (unat a)"
  "(ucast (drop_bit 8 (ucast a :: ulong)) :: uchar) = of_nat (unat a div 256)"
  "(ucast (drop_bit 16 (ucast a :: ulong)) :: uchar) = of_nat (unat a div 65536)"
  "(ucast (drop_bit 24 (ucast a :: ulong)) :: uchar) = of_nat (unat a div 16777216)" for a :: ulonglong
proof -
  have *: "(ucast (drop_bit n (ucast a :: ulong)) :: uchar) = ucast (drop_bit n a)" if "n \<le> 24" for n
    by (rule bit_eqI) (use that in \<open>auto simp: bit_simps\<close>)
  show "(ucast (ucast a :: ulong) :: uchar) = of_nat (unat a)"
    "(ucast (drop_bit 8 (ucast a :: ulong)) :: uchar) = of_nat (unat a div 256)"
    "(ucast (drop_bit 16 (ucast a :: ulong)) :: uchar) = of_nat (unat a div 65536)"
    "(ucast (drop_bit 24 (ucast a :: ulong)) :: uchar) = of_nat (unat a div 16777216)"
    using * [of 0] * [of 8] * [of 16] * [of 24] by (simp_all add: ucast_drop_bit)
qed

lemma mi_stores_put:
  "mi_int1store t v m = put_bytes t (be_bytes 1 (unat v)) m"
  "mi_int2store t v m = put_bytes t (be_bytes 2 (unat v)) m"
  "mi_int3store t v m = put_bytes t (be_bytes 3 (unat v)) m"
  "mi_int4store t v m = put_bytes t (be_bytes 4 (unat v)) m"
  by (simp_all add: mi_int1store_def mi_int2store_def mi_int3store_def mi_int4store_def Let_def store8_def
      ucast_drop_bit be_bytes_numeral fun_eq_iff add.commute [of "numeral w" t for w] flip: div_mult2_eq)

lemma mi_stores_put_wide:
  "mi_int5store t a m = put_bytes t (be_bytes 5 (unat a)) m"
  "mi_int6store t a m = put_bytes t (be_bytes 6 (unat a)) m"
  "mi_int7store t a m = put_bytes t (be_bytes 7 (unat a)) m"
proof -
  have d: "unat (drop_bit 32 a) = unat a div 4294967296" by (simp add: unat_drop_bit)
  show "mi_int5store t a m = put_bytes t (be_bytes 5 (unat a)) m"
    by (simp add: mi_int5store_def Let_def store8_def ucast_low d be_bytes_numeral fun_eq_iff
        add.commute [of "numeral w" t for w] flip: div_mult2_eq)
  show "mi_int6store t a m = put_bytes t (be_bytes 6 (unat a)) m"
    by (simp add: mi_int6store_def Let_def store8_def ucast_low d be_bytes_numeral fun_eq_iff
        add.commute [of "numeral w" t for w] flip: div_mult2_eq)
  show "mi_int7store t a m = put_bytes t (be_bytes 7 (unat a)) m"
    by (simp add: mi_int7store_def Let_def store8_def ucast_low d be_bytes_numeral fun_eq_iff
        add.commute [of "numeral w" t for w] flip: div_mult2_eq)
qed

lemma mi_int8store_put: "mi_int8store t a m = put_bytes t (be_bytes 8 (unat a)) m"
proof -
  have "be_bytes 4 (unat (ucast a :: ulong)) = be_bytes 4 (unat a)"
    using le_bytes_mod [of 4 "unat a"] by (simp add: unat_ucast_mod be_bytes_def)
  moreover have "unat (ucast (drop_bit 32 a) :: ulong) = unat a div 256 ^ 4"
    using unat_less_2p [of a] by (simp add: unat_ucast_mod unat_drop_bit)
  ultimately show ?thesis using be_bytes_append [of 4 4 "unat a"]
    by (simp add: mi_int8store_def Let_def mi_stores_put put_bytes_append)
qed

lemma le_nat_pair: "le_nat [b0, b1, b2, b3] < 2 ^ 32" "le_nat [b0, b1, b2] < 2 ^ 32" "le_nat [b0, b1] < 2 ^ 32"
  using le_nat_less [of "[b0, b1, b2, b3]"] le_nat_less [of "[b0, b1, b2]"] le_nat_less [of "[b0, b1]"] by simp_all

lemma unat_join_wide:
  assumes "unat lo = le_nat [b0, b1, b2, b3]" and "unat hi < 2 ^ 32"
  shows "unat (ucast (lo :: uint32) OR push_bit 32 hi :: ulonglong) = le_nat [b0, b1, b2, b3] + 2 ^ 32 * unat hi"
proof -
  have l: "unat (ucast lo :: ulonglong) = le_nat [b0, b1, b2, b3]"
    using unat_less_2p [of lo] assms(1) by (simp add: unat_ucast_small)
  then have "unat (ucast lo :: ulonglong) < 2 ^ 32" using le_nat_pair by simp
  from or_push [OF this, of hi] assms(2) l show ?thesis by simp
qed

lemma unat_ucast_wide: "unat (ucast (v :: uint32) :: ulonglong) = unat v"
  using unat_less_2p [of v] by (simp add: unat_ucast_small)

lemma mi_readers:
  "unat (mi_uint1korr m a) = be_nat (bytes m a 1)" "unat (mi_uint3korr m a) = be_nat (bytes m a 3)"
  "unat (mi_uint4korr m a) = be_nat (bytes m a 4)" "unat (mi_uint5korr m a) = be_nat (bytes m a 5)"
  "unat (mi_uint6korr m a) = be_nat (bytes m a 6)" "unat (mi_uint7korr m a) = be_nat (bytes m a 7)"
  "unat (mi_uint8korr m a) = be_nat (bytes m a 8)"
proof -
  note j = unat_join [where 'a = 32, simplified]
  show "unat (mi_uint1korr m a) = be_nat (bytes m a 1)"
    by (simp add: mi_uint1korr_def unat_byte_at be_nat_def bytes_simps)
  show "unat (mi_uint3korr m a) = be_nat (bytes m a 3)" "unat (mi_uint4korr m a) = be_nat (bytes m a 4)"
    by (simp_all add: mi_uint3korr_def mi_uint4korr_def byte_at_def be_nat_def bytes_simps j or.assoc)
  have w: "unat (byte_at m a 0 :: ulonglong) = unat (m a)" "unat (byte_at m a 0 :: ulonglong) < 2 ^ 32"
    using byte_less [of "m a"] by (simp_all add: unat_byte_at)
  show "unat (mi_uint5korr m a) = be_nat (bytes m a 5)"
    unfolding mi_uint5korr_def
    by (subst unat_join_wide [where ?b0.0 = "m (a + 4)" and ?b1.0 = "m (a + 3)" and ?b2.0 = "m (a + 2)" and ?b3.0 = "m (a + 1)"])
      (use w in \<open>simp_all add: byte_at_def j be_nat_def bytes_simps or.assoc\<close>)
  show "unat (mi_uint6korr m a) = be_nat (bytes m a 6)"
    unfolding mi_uint6korr_def
    by (subst unat_join_wide [where ?b0.0 = "m (a + 5)" and ?b1.0 = "m (a + 4)" and ?b2.0 = "m (a + 3)" and ?b3.0 = "m (a + 2)"])
      (use le_nat_pair(3) [of "m (a + 1)" "m a"] in
        \<open>simp_all add: byte_at_def j be_nat_def bytes_simps or.assoc unat_ucast_wide\<close>)
  show "unat (mi_uint7korr m a) = be_nat (bytes m a 7)"
    unfolding mi_uint7korr_def
    by (subst unat_join_wide [where ?b0.0 = "m (a + 6)" and ?b1.0 = "m (a + 5)" and ?b2.0 = "m (a + 4)" and ?b3.0 = "m (a + 3)"])
      (use le_nat_pair(2) [of "m (a + 2)" "m (a + 1)" "m a"] in
        \<open>simp_all add: byte_at_def j be_nat_def bytes_simps or.assoc unat_ucast_wide\<close>)
  show "unat (mi_uint8korr m a) = be_nat (bytes m a 8)"
    unfolding mi_uint8korr_def
    by (subst unat_join_wide [where ?b0.0 = "m (a + 7)" and ?b1.0 = "m (a + 6)" and ?b2.0 = "m (a + 5)" and ?b3.0 = "m (a + 4)"])
      (use le_nat_pair(1) [of "m (a + 3)" "m (a + 2)" "m (a + 1)" "m a"] in
        \<open>simp_all add: byte_at_def j be_nat_def bytes_simps or.assoc unat_ucast_wide\<close>)
qed

lemma mi_uint2korr_reads: "unat (mi_uint2korr m a) = be_nat (bytes m a 2)"
proof -
  have "mi_uint2korr m a = load16 (m(0 := m (a + 1), 1 := m a)) 0"
    by (simp add: mi_uint2korr_def load16_def byte_at_def)
  then show ?thesis by (simp add: unat_load16 be_nat_def bytes_simps)
qed

text \<open>The three-byte reader with a sign reads the bytes of the low-byte-first reader in reverse.\<close>

lemma mi_sint3korr_extends: "mi_sint3korr m a = signed_take_bit 23 (mi_uint3korr m a)"
proof -
  let ?m = "m(0 := m (a + 2), 1 := m (a + 1), 2 := m a)"
  have "mi_sint3korr m a = sint3korr ?m 0" "mi_uint3korr m a = uint3korr ?m 0"
    by (simp_all add: mi_sint3korr_def sint3korr_def mi_uint3korr_def uint3korr_def byte_at_def)
  then show ?thesis by (simp add: sint3korr_extends)
qed

lemma mi_float4: "mi_float4store t v m = mi_int4store t v m" "mi_float4get m a = mi_uint4korr m a"
  by (simp_all add: mi_float4store_def mi_int4store_def store8_def float_byte_def fun_eq_iff mi_float4get_def mi_uint4korr_def)

lemma mi_float8store: "mi_float8store t v m = mi_int8store t v m"
  unfolding mi_int8store_put
  by (simp add: mi_float8store_def store8_def float_byte_def ucast_drop_bit be_bytes_numeral fun_eq_iff
      add.commute [of "numeral w" t for w] flip: div_mult2_eq)

lemma mi_float8get: "mi_float8get m a = mi_uint8korr m a"
proof -
  have wide: "ucast (byte_at m a i OR push_bit 8 (byte_at m a j) OR push_bit 16 (byte_at m a k) OR push_bit 24 (byte_at m a l)
      :: uint32) = (byte_at m a i OR push_bit 8 (byte_at m a j) OR push_bit 16 (byte_at m a k) OR push_bit 24 (byte_at m a l)
      :: ulonglong)" for i j k l
    by (rule bit_eqI) (auto simp: bit_simps bit_byte_at dest: uchar_bit_less)
  show ?thesis
    unfolding mi_float8get_def mi_uint8korr_def wide
    by (simp add: push_bit_or push_bit_push_bit or.assoc)
qed

section \<open>Properties\<close>

text \<open>
  At every width, reading what was stored high byte first gives the value back, truncated to the bytes
  stored; a three-byte value is read with the sign of its highest bit, and no other byte changes.
\<close>

theorem mi_roundtrip:
  "unat (mi_uint1korr (mi_int1store t v m) t) = unat v mod 2 ^ 8
   \<and> unat (mi_uint2korr (mi_int2store t v m) t) = unat v mod 2 ^ 16
   \<and> unat (mi_uint3korr (mi_int3store t v m) t) = unat v mod 2 ^ 24
   \<and> mi_sint3korr (mi_int3store t v m) t = signed_take_bit 23 v
   \<and> mi_uint4korr (mi_int4store t v m) t = v
   \<and> unat (mi_uint5korr (mi_int5store t w m) t) = unat w mod 2 ^ 40
   \<and> unat (mi_uint6korr (mi_int6store t w m) t) = unat w mod 2 ^ 48
   \<and> unat (mi_uint7korr (mi_int7store t w m) t) = unat w mod 2 ^ 56
   \<and> mi_uint8korr (mi_int8store t w m) t = w \<and> mi_rowkorr (mi_rowstore t w m) t = w
   \<and> mi_float4get (mi_float4store t v m) t = v \<and> mi_float8get (mi_float8store t w m) t = w"
proof -
  have rd: "bytes (put_bytes t (be_bytes n k) m) t n = be_bytes n k" if "n \<le> 8" for n k
    using bytes_put_bytes [of "be_bytes n k" t m] that by simp
  note wr = mi_stores_put mi_stores_put_wide mi_int8store_put
  have 3: "unat (mi_uint3korr (mi_int3store t v m) t) = unat v mod 2 ^ 24"
    using rd by (simp add: mi_readers wr be_nat_bytes)
  have "unat (take_bit 24 v) = unat v mod 2 ^ 24" by (simp only: unsigned_take_bit_eq take_bit_eq_mod [of 24 "unat v"])
  then have "mi_uint3korr (mi_int3store t v m) t = take_bit 24 v" using 3 by (simp only: word_unat_eq_iff)
  then have "mi_sint3korr (mi_int3store t v m) t = signed_take_bit 23 v"
    by (simp add: mi_sint3korr_extends signed_take_bit_take_bit)
  moreover have "mi_uint4korr (mi_int4store t v m) t = v"
    using unat_less_2p [of v] rd by (simp add: word_unat_eq_iff mi_readers wr be_nat_bytes)
  moreover have "mi_uint8korr (mi_int8store t w m) t = w"
    using unat_less_2p [of w] rd by (simp add: word_unat_eq_iff mi_readers wr be_nat_bytes)
  ultimately show ?thesis using 3 rd
    by (simp add: mi_readers mi_uint2korr_reads wr be_nat_bytes mi_rowkorr_def mi_rowstore_def mi_float4 mi_float8store mi_float8get)
qed

text \<open>
  Keys keep their order: comparing stored keys byte by byte from the front gives the order of the
  unsigned values stored.
\<close>

theorem mi_keys_ordered:
  "(bytes (mi_int2store t v m) t 2 < bytes (mi_int2store t' v' m') t' 2 \<longleftrightarrow> unat v mod 2 ^ 16 < unat v' mod 2 ^ 16)
   \<and> (bytes (mi_int3store t v m) t 3 < bytes (mi_int3store t' v' m') t' 3 \<longleftrightarrow> unat v mod 2 ^ 24 < unat v' mod 2 ^ 24)
   \<and> (bytes (mi_int4store t v m) t 4 < bytes (mi_int4store t' v' m') t' 4 \<longleftrightarrow> v < v')
   \<and> (bytes (mi_int5store t w m) t 5 < bytes (mi_int5store t' w' m') t' 5 \<longleftrightarrow> unat w mod 2 ^ 40 < unat w' mod 2 ^ 40)
   \<and> (bytes (mi_int6store t w m) t 6 < bytes (mi_int6store t' w' m') t' 6 \<longleftrightarrow> unat w mod 2 ^ 48 < unat w' mod 2 ^ 48)
   \<and> (bytes (mi_int7store t w m) t 7 < bytes (mi_int7store t' w' m') t' 7 \<longleftrightarrow> unat w mod 2 ^ 56 < unat w' mod 2 ^ 56)
   \<and> (bytes (mi_int8store t w m) t 8 < bytes (mi_int8store t' w' m') t' 8 \<longleftrightarrow> w < w')"
proof -
  have rd: "bytes (put_bytes t (be_bytes n k) m) t n = be_bytes n k" if "n \<le> 8" for n k t m
    using bytes_put_bytes [of "be_bytes n k" t m] that by simp
  have lt: "be_bytes n k < be_bytes n l \<longleftrightarrow> k mod 256 ^ n < l mod 256 ^ n" for n k l
    by (simp add: be_nat_order be_nat_bytes)
  show ?thesis using unat_less_2p [of v] unat_less_2p [of v'] unat_less_2p [of w] unat_less_2p [of w']
    by (simp add: mi_stores_put mi_stores_put_wide mi_int8store_put rd lt word_less_nat_alt)
qed

end
