(* ===== verification/Binary_String.thy ===== *)
theory Binary_String
  imports Byte_Order "HOL-Library.Monad_Syntax"
begin

text \<open>
  The growing byte strings of the server (class \<open>Binary_string\<close> in \<open>sql_string.h\<close>). A string has a pointer into flat
  memory, the length of its contents, the length it may write to (0 for memory that belongs to somebody else) and
  a flag that says whether it owns a heap block. The functions that call the allocator are not in the repository;
  they are the parameters \<open>real_alloc\<close> and \<open>realloc_raw\<close>. A double free is the value \<open>None\<close>.
\<close>

section \<open>Strings and the heap\<close>

record hstate =
  mem :: memory
  live :: "addr \<Rightarrow> csize option"  \<comment> \<open>the heap blocks in use\<close>

record Binary_string =
  Ptr :: addr
  str_length :: uint32
  Alloced_length :: uint32
  extra_alloc :: uint32
  alloced :: bool
  thread_specific :: bool

type_synonym bstate = "Binary_string \<times> hstate"

text \<open>The functions that get memory take a length and return true on failure.\<close>

type_synonym alloc_fun = "csize \<Rightarrow> bstate \<Rightarrow> bool \<times> bstate"

definition poke :: "addr \<Rightarrow> uchar \<Rightarrow> hstate \<Rightarrow> hstate" where
  "poke p v h = h\<lparr>mem := (mem h)(p := v)\<rparr>"

definition my_free :: "addr \<Rightarrow> hstate \<Rightarrow> hstate option" where
  "my_free p h = (if p = 0 then Some h else map_option (\<lambda>_. h\<lparr>live := (live h)(p := None)\<rparr>) (live h p))"

definition index32 :: "addr \<Rightarrow> uint32 \<Rightarrow> addr" where
  "index32 p n = p + ucast n"

section \<open>Construction and destruction\<close>

definition init_private_data :: "Binary_string \<Rightarrow> Binary_string" where
  "init_private_data b = b\<lparr>Ptr := 0, Alloced_length := 0, extra_alloc := 0, str_length := 0, alloced := False,
     thread_specific := False\<rparr>"

definition free_buffer :: "bstate \<Rightarrow> bstate option" where
  "free_buffer = (\<lambda>(b, h). if alloced b then map_option (\<lambda>h. (b\<lparr>alloced := False\<rparr>, h)) (my_free (Ptr b) h) else Some (b, h))"

definition mk_string :: "Binary_string \<Rightarrow> Binary_string" where
  "mk_string b = init_private_data b"

definition mk_alloced :: "alloc_fun \<Rightarrow> csize \<Rightarrow> bstate \<Rightarrow> bstate" where
  "mk_alloced real_alloc length_arg = (\<lambda>(b, h). snd (real_alloc length_arg (init_private_data b, h)))"

definition mk_const :: "addr \<Rightarrow> csize \<Rightarrow> Binary_string \<Rightarrow> Binary_string" where
  "mk_const str len b = b\<lparr>Ptr := str, str_length := ucast len, Alloced_length := 0, extra_alloc := 0, alloced := False,
     thread_specific := False\<rparr>"

definition mk_buffer :: "addr \<Rightarrow> csize \<Rightarrow> Binary_string \<Rightarrow> Binary_string" where
  "mk_buffer str len b = b\<lparr>Ptr := str, str_length := ucast len, Alloced_length := ucast len, extra_alloc := 0,
     alloced := False, thread_specific := False\<rparr>"

definition mk_alias :: "Binary_string \<Rightarrow> Binary_string \<Rightarrow> Binary_string" where
  "mk_alias str b = b\<lparr>Ptr := Ptr str, str_length := str_length str, Alloced_length := Alloced_length str,
     extra_alloc := 0, alloced := False, thread_specific := False\<rparr>"

definition bs_free :: "bstate \<Rightarrow> bstate option" where
  "bs_free s = map_option (\<lambda>(b, h). (b\<lparr>Ptr := 0, str_length := 0, Alloced_length := 0, extra_alloc := 0\<rparr>, h)) (free_buffer s)"

definition destroy_string :: "bstate \<Rightarrow> bstate option" where
  "destroy_string s = bs_free s"

section \<open>Access\<close>

definition set_length :: "csize \<Rightarrow> Binary_string \<Rightarrow> Binary_string" where
  "set_length len b = b\<lparr>str_length := ucast len\<rparr>"

definition bs_is_empty :: "Binary_string \<Rightarrow> bool" where
  "bs_is_empty b \<longleftrightarrow> str_length b = 0"

definition bs_end :: "Binary_string \<Rightarrow> addr" where
  "bs_end b = index32 (Ptr b) (str_length b)"

definition contents :: "bstate \<Rightarrow> uchar list" where
  "contents = (\<lambda>(b, h). bytes_at (mem h) (Ptr b) (ucast (str_length b)))"

definition my_isascii :: "uchar \<Rightarrow> bool" where
  "my_isascii c \<longleftrightarrow> c AND NOT 127 = 0"

definition has_8bit_bytes :: "bstate \<Rightarrow> bool" where
  "has_8bit_bytes s \<longleftrightarrow> list_ex (\<lambda>c. \<not> my_isascii c) (contents s)"

definition bin_eq :: "Binary_string \<Rightarrow> bstate \<Rightarrow> bool" where
  "bin_eq other = (\<lambda>(b, h). str_length b = str_length other \<and>
     bytes_at (mem h) (Ptr b) (ucast (str_length b)) = bytes_at (mem h) (Ptr other) (ucast (str_length b)))"

definition set_thread_specific :: "Binary_string \<Rightarrow> Binary_string" where
  "set_thread_specific b = (if \<not> alloced b then b\<lparr>thread_specific := True\<rparr> else b)"

definition extra_allocation :: "csize \<Rightarrow> Binary_string \<Rightarrow> Binary_string" where
  "extra_allocation len b = b\<lparr>extra_alloc := ucast len\<rparr>"

definition mark_as_const :: "Binary_string \<Rightarrow> Binary_string" where
  "mark_as_const b = b\<lparr>Alloced_length := 0\<rparr>"

definition uses_buffer_owned_by :: "Binary_string \<Rightarrow> Binary_string \<Rightarrow> bool" where
  "uses_buffer_owned_by s b \<longleftrightarrow> alloced s \<and> Ptr s \<le> Ptr b \<and> Ptr b < index32 (Ptr s) (Alloced_length s)"

section \<open>Exchanging buffers\<close>

definition bs_swap :: "Binary_string \<Rightarrow> Binary_string \<Rightarrow> Binary_string \<times> Binary_string" where
  "bs_swap b s =
     (b\<lparr>Ptr := Ptr s, str_length := str_length s, Alloced_length := Alloced_length s, alloced := alloced s\<rparr>,
      s\<lparr>Ptr := Ptr b, str_length := str_length b, Alloced_length := Alloced_length b, alloced := alloced b\<rparr>)"

definition set_alloced :: "addr \<Rightarrow> csize \<Rightarrow> csize \<Rightarrow> bstate \<Rightarrow> bstate option" where
  "set_alloced str len alloced_length s = map_option (\<lambda>(b, h).
     (b\<lparr>Ptr := str, str_length := ucast len, Alloced_length := ucast alloced_length\<rparr>, h)) (free_buffer s)"

definition set_buffer :: "addr \<Rightarrow> csize \<Rightarrow> bstate \<Rightarrow> bstate option" where
  "set_buffer str arg_length s = set_alloced str arg_length arg_length s"

definition set_const :: "addr \<Rightarrow> csize \<Rightarrow> bstate \<Rightarrow> bstate option" where
  "set_const str len s = map_option (\<lambda>(b, h). (b\<lparr>Ptr := str, str_length := ucast len, Alloced_length := 0\<rparr>, h)) (free_buffer s)"

definition set_sub :: "Binary_string \<Rightarrow> csize \<Rightarrow> csize \<Rightarrow> bstate \<Rightarrow> bstate option" where
  "set_sub str offset len s = map_option (\<lambda>(b, h).
     let b = b\<lparr>Ptr := Ptr str + offset, str_length := ucast len, Alloced_length := 0\<rparr>
     in (if Alloced_length str \<noteq> 0
         then b\<lparr>Alloced_length := ucast ((ucast (Alloced_length str) :: csize) - offset)\<rparr> else b, h)) (free_buffer s)"

definition bs_reset :: "addr \<Rightarrow> csize \<Rightarrow> csize \<Rightarrow> bstate \<Rightarrow> bstate option" where
  "bs_reset ptr_arg length_arg alloced_length_arg s =
     map_option (\<lambda>(b, h). (b\<lparr>alloced := ptr_arg \<noteq> 0\<rparr>, h)) (set_alloced ptr_arg length_arg alloced_length_arg s)"

definition bs_release :: "Binary_string \<Rightarrow> addr \<times> Binary_string" where
  "bs_release b = (let old = Ptr b in (old, init_private_data b))"

definition set_buffer_if_not_allocated :: "addr \<Rightarrow> csize \<Rightarrow> Binary_string \<Rightarrow> Binary_string" where
  "set_buffer_if_not_allocated str arg_length b =
     (if \<not> alloced b then b\<lparr>Ptr := str, str_length := ucast arg_length, Alloced_length := ucast arg_length\<rparr> else b)"

text \<open>Assignment from a different string; assigning a string to itself does nothing.\<close>

definition bs_assign :: "Binary_string \<Rightarrow> bstate \<Rightarrow> bstate option" where
  "bs_assign s t = set_alloced (Ptr s) (ucast (str_length s)) (ucast (Alloced_length s)) t"

definition bs_move :: "Binary_string \<Rightarrow> bstate \<Rightarrow> (Binary_string \<times> bstate) option" where
  "bs_move s t = do {
     (b, h) \<leftarrow> set_alloced (Ptr s) (ucast (str_length s)) (ucast (Alloced_length s)) t;
     let b = b\<lparr>extra_alloc := extra_alloc s, alloced := alloced s, thread_specific := thread_specific s\<rparr>;
     Some (s\<lparr>alloced := False\<rparr>, b, h) }"

section \<open>Getting memory\<close>

definition bs_alloc :: "alloc_fun \<Rightarrow> csize \<Rightarrow> bstate \<Rightarrow> bool \<times> bstate" where
  "bs_alloc real_alloc arg_length = (\<lambda>(b, h).
     if arg_length \<le> ucast (Alloced_length b) \<and> Alloced_length b \<noteq> 0 then (False, b, h)
     else real_alloc arg_length (b, h))"

definition bs_realloc :: "alloc_fun \<Rightarrow> csize \<Rightarrow> bstate \<Rightarrow> bool \<times> bstate" where
  "bs_realloc realloc_raw arg_length s =
     (let (failed, b, h) = realloc_raw (arg_length + 1) s
      in if failed then (True, b, h) else (False, b, poke (Ptr b + arg_length) 0 h))"

definition realloc_with_extra :: "alloc_fun \<Rightarrow> csize \<Rightarrow> bstate \<Rightarrow> bool \<times> bstate" where
  "realloc_with_extra realloc_raw arg_length = (\<lambda>(b, h).
     let b = (if extra_alloc b < 4096 then b\<lparr>extra_alloc := extra_alloc b * 2 + 128\<rparr> else b);
         (failed, b, h) = realloc_raw (arg_length + ucast (extra_alloc b)) (b, h)
     in if failed then (True, b, h) else (False, b, poke (Ptr b + arg_length) 0 h))"

definition realloc_with_extra_if_needed :: "alloc_fun \<Rightarrow> csize \<Rightarrow> bstate \<Rightarrow> bool \<times> bstate" where
  "realloc_with_extra_if_needed realloc_raw arg_length = (\<lambda>(b, h).
     if arg_length < ucast (Alloced_length b) then (False, b, poke (Ptr b + arg_length) 0 h)
     else realloc_with_extra realloc_raw arg_length (b, h))"

definition bs_reserve :: "alloc_fun \<Rightarrow> csize \<Rightarrow> bstate \<Rightarrow> bool \<times> bstate" where
  "bs_reserve realloc_raw space_needed = (\<lambda>(b, h). bs_realloc realloc_raw (ucast (str_length b) + space_needed) (b, h))"

text \<open>The area to use is 0 when there is no memory.\<close>

definition prep_append :: "alloc_fun \<Rightarrow> uint32 \<Rightarrow> uint32 \<Rightarrow> bstate \<Rightarrow> addr \<times> bstate" where
  "prep_append realloc_raw arg_length step_alloc = (\<lambda>(b, h).
     let new_length = arg_length + str_length b;
         (failed, b, h) = (if Alloced_length b < new_length
                           then bs_realloc realloc_raw (ucast (new_length + step_alloc)) (b, h) else (False, b, h))
     in if failed then (0, b, h)
        else let old_length = str_length b; b = b\<lparr>str_length := str_length b + arg_length\<rparr>
             in (index32 (Ptr b) old_length, b, h))"

section \<open>Appending without a check\<close>

definition q_append_char :: "uchar \<Rightarrow> bstate \<Rightarrow> bstate" where
  "q_append_char c = (\<lambda>(b, h). (b\<lparr>str_length := str_length b + 1\<rparr>, poke (bs_end b) c h))"

definition q_append2b :: "uint32 \<Rightarrow> bstate \<Rightarrow> bstate" where
  "q_append2b n = (\<lambda>(b, h). (b\<lparr>str_length := str_length b + 2\<rparr>, h\<lparr>mem := int2store (bs_end b) n (mem h)\<rparr>))"

definition q_append_uint32 :: "uint32 \<Rightarrow> bstate \<Rightarrow> bstate" where
  "q_append_uint32 n = (\<lambda>(b, h). (b\<lparr>str_length := str_length b + 4\<rparr>, h\<lparr>mem := int4store (bs_end b) n (mem h)\<rparr>))"

definition q_append :: "addr \<Rightarrow> csize \<Rightarrow> bstate \<Rightarrow> bstate" where
  "q_append data data_len = (\<lambda>(b, h).
     (b\<lparr>str_length := str_length b + ucast data_len\<rparr>,
      if data_len \<noteq> 0 then h\<lparr>mem := memcpy (bs_end b) data data_len (mem h)\<rparr> else h))"

text \<open>The converter writes a wide character between two addresses and returns its length, or no positive number.\<close>

definition q_append_wc :: "('c \<Rightarrow> addr \<Rightarrow> addr \<Rightarrow> memory \<Rightarrow> cint \<times> memory) \<Rightarrow> csize \<Rightarrow> 'c \<Rightarrow> bstate \<Rightarrow> cint \<times> bstate" where
  "q_append_wc wc_mb mbmaxlen wc = (\<lambda>(b, h).
     let (mblen, m) = wc_mb wc (bs_end b) (bs_end b + mbmaxlen) (mem h); h = h\<lparr>mem := m\<rparr>
     in (mblen, if 0 < sint mblen then b\<lparr>str_length := str_length b + mblen\<rparr> else b, h))"

definition write_at_position :: "uint32 \<Rightarrow> uint32 \<Rightarrow> bstate \<Rightarrow> bstate" where
  "write_at_position position val = (\<lambda>(b, h). (b, h\<lparr>mem := int4store (index32 (Ptr b) position) val (mem h)\<rparr>))"

text \<open>The library writes a length in one to nine bytes and returns the address after it.\<close>

definition q_net_store_length :: "(addr \<Rightarrow> ulonglong \<Rightarrow> memory \<Rightarrow> addr \<times> memory) \<Rightarrow> ulonglong \<Rightarrow> bstate \<Rightarrow> bstate" where
  "q_net_store_length net_store_length len = (\<lambda>(b, h).
     let (pos, m) = net_store_length (bs_end b) len (mem h)
     in (b\<lparr>str_length := ucast (pos - Ptr b)\<rparr>, h\<lparr>mem := m\<rparr>))"

definition q_net_store_data :: "(addr \<Rightarrow> ulonglong \<Rightarrow> memory \<Rightarrow> addr \<times> memory) \<Rightarrow> addr \<Rightarrow> csize \<Rightarrow> bstate \<Rightarrow> bstate" where
  "q_net_store_data net_store_length data len s =
     q_append data (ucast (ucast len :: uint32)) (q_net_store_length net_store_length len s)"

section \<open>Appending\<close>

definition append_bytes :: "alloc_fun \<Rightarrow> addr \<Rightarrow> csize \<Rightarrow> bstate \<Rightarrow> bool \<times> bstate" where
  "append_bytes realloc_raw data count = (\<lambda>(b, h).
     if count = 0 then (False, b, h)
     else let (failed, s) = realloc_with_extra_if_needed realloc_raw (ucast (str_length b) + count) (b, h)
          in if failed then (True, s) else (False, q_append data count s))"

definition append_string :: "alloc_fun \<Rightarrow> Binary_string \<Rightarrow> bstate \<Rightarrow> bool \<times> bstate" where
  "append_string realloc_raw t s = append_bytes realloc_raw (Ptr t) (ucast (str_length t)) s"

definition append_char :: "alloc_fun \<Rightarrow> uchar \<Rightarrow> bstate \<Rightarrow> bool \<times> bstate" where
  "append_char realloc_raw chr = (\<lambda>(b, h).
     if str_length b < Alloced_length b then (False, q_append_char chr (b, h))
     else let (failed, s) = realloc_with_extra realloc_raw (ucast (str_length b + 1)) (b, h)
          in if failed then (True, s) else (False, q_append_char chr s))"

text \<open>The loop of \<open>append_hex\<close> reads each byte again for its second digit.\<close>

fun append_hex_loop :: "alloc_fun \<Rightarrow> (nat \<Rightarrow> uchar) \<Rightarrow> addr \<Rightarrow> nat \<Rightarrow> bstate \<Rightarrow> bool \<times> bstate" where
  "append_hex_loop realloc_raw dig_vec_lower src 0 s = (False, s)"
| "append_hex_loop realloc_raw dig_vec_lower src (Suc n) s =
     (let (failed, s) = append_char realloc_raw (dig_vec_lower (unat (drop_bit 4 (mem (snd s) src)))) s
      in if failed then (True, s)
         else let (failed, s) = append_char realloc_raw (dig_vec_lower (unat (mem (snd s) src AND 15))) s
              in if failed then (True, s) else append_hex_loop realloc_raw dig_vec_lower (src + 1) n s)"

definition append_hex :: "alloc_fun \<Rightarrow> (nat \<Rightarrow> uchar) \<Rightarrow> addr \<Rightarrow> uint32 \<Rightarrow> bstate \<Rightarrow> bool \<times> bstate" where
  "append_hex realloc_raw dig_vec_lower src srclen s = append_hex_loop realloc_raw dig_vec_lower src (unat srclen) s"

definition append_hex_uint32 :: "alloc_fun \<Rightarrow> (uint32 \<Rightarrow> bstate \<Rightarrow> bstate) \<Rightarrow> uint32 \<Rightarrow> bstate \<Rightarrow> bool \<times> bstate" where
  "append_hex_uint32 realloc_raw qs_append_hex_uint32 num s =
     (let (failed, s) = bs_reserve realloc_raw 8 s in if failed then (True, s) else (False, qs_append_hex_uint32 num s))"

definition append_with_step :: "alloc_fun \<Rightarrow> addr \<Rightarrow> uint32 \<Rightarrow> uint32 \<Rightarrow> bstate \<Rightarrow> bool \<times> bstate" where
  "append_with_step realloc_raw data arg_length step_alloc = (\<lambda>(b, h).
     let new_length = arg_length + str_length b;
         (failed, s) = (if Alloced_length b < new_length
                        then bs_realloc realloc_raw (ucast (new_length + step_alloc)) (b, h) else (False, b, h))
     in if failed then (True, s) else (False, q_append data (ucast arg_length) s))"

section \<open>Null-terminated strings\<close>

text \<open>The address of the empty string is a parameter; a failed reallocation is not noticed.\<close>

definition c_ptr :: "alloc_fun \<Rightarrow> addr \<Rightarrow> bstate \<Rightarrow> addr \<times> bstate" where
  "c_ptr realloc_raw empty_string = (\<lambda>(b, h).
     if Ptr b = 0 then (empty_string, b, h)
     else if \<not> alloced b \<and> mem h (bs_end b) = 0 then (Ptr b, b, h)
     else if str_length b < Alloced_length b then (Ptr b, b, poke (bs_end b) 0 h)
     else let (_, b, h) = bs_realloc realloc_raw (ucast (str_length b)) (b, h) in (Ptr b, b, h))"

definition c_ptr_safe :: "alloc_fun \<Rightarrow> bstate \<Rightarrow> addr \<times> bstate" where
  "c_ptr_safe realloc_raw = (\<lambda>(b, h).
     let (b, h) = (if Ptr b \<noteq> 0 \<and> str_length b < Alloced_length b then (b, poke (bs_end b) 0 h)
                   else snd (bs_realloc realloc_raw (ucast (str_length b)) (b, h)))
     in (Ptr b, b, h))"

section \<open>Strings with a buffer of their own\<close>

definition mk_string_buffer :: "addr \<Rightarrow> csize \<Rightarrow> Binary_string \<Rightarrow> Binary_string" where
  "mk_string_buffer buff buff_sz b = set_length 0 (mk_buffer buff buff_sz b)"

definition buffer_if_not_allocated :: "addr \<Rightarrow> csize \<Rightarrow> Binary_string \<Rightarrow> Binary_string" where
  "buffer_if_not_allocated buff buff_sz b =
     (let b = (if \<not> alloced b then b\<lparr>Ptr := buff, Alloced_length := ucast buff_sz\<rparr> else b)
      in b\<lparr>str_length := 0\<rparr>)"

end
