(* ===== verification/String_Append.thy ===== *)
theory String_Append
  imports Binary_String "HOL-Library.Sublist"
begin

text \<open>
  What appending to a \<open>Binary_string\<close> does to its contents and to the memory of others. The set \<open>U\<close> is the
  memory that is neither in the buffer of the string nor free for the allocator, such as the data appended.
\<close>

section \<open>Well-formed strings and the contract of the allocator\<close>

definition own :: "Binary_string \<Rightarrow> nat set" where
  "own b = {unat (Ptr b) ..< unat (Ptr b) + unat (Alloced_length b)}"

definition string_ok :: "addr set \<Rightarrow> Binary_string \<Rightarrow> bool" where
  "string_ok U b \<longleftrightarrow> (Alloced_length b \<noteq> 0 \<longrightarrow> str_length b \<le> Alloced_length b)
     \<and> unat (Ptr b) + unat (str_length b) \<le> 2 ^ 64 \<and> unat (Ptr b) + unat (Alloced_length b) \<le> 2 ^ 64
     \<and> (\<forall>a \<in> U. unat a \<notin> own b)"

definition same_on :: "addr set \<Rightarrow> hstate \<Rightarrow> hstate \<Rightarrow> bool" where
  "same_on U h h' \<longleftrightarrow> (\<forall>a \<in> U. mem h' a = mem h a)"

definition source_in :: "addr set \<Rightarrow> addr \<Rightarrow> csize \<Rightarrow> bool" where
  "source_in U p n \<longleftrightarrow> unat p + unat n \<le> 2 ^ 64 \<and> (\<forall>i < unat n. p + of_nat i \<in> U)"

text \<open>
  What the code relies on: growing a string either fails and changes nothing, or gives a buffer of at least the
  length asked for that has the contents, and never touches the memory of others.
\<close>

definition realloc_ok :: "addr set \<Rightarrow> alloc_fun \<Rightarrow> bool" where
  "realloc_ok U R \<longleftrightarrow> (\<forall>n b h. string_ok U b \<longrightarrow> unat (str_length b) < unat n \<longrightarrow>
     (case R n (b, h) of (failed, b', h') \<Rightarrow>
        if failed then b' = b \<and> h' = h
        else string_ok U b' \<and> unat n \<le> unat (Alloced_length b') \<and> str_length b' = str_length b
          \<and> contents (b', h') = contents (b, h) \<and> same_on U h h'))"

text \<open>The outcome of an operation that appends \<open>xs\<close> or fails.\<close>

definition appended :: "addr set \<Rightarrow> bstate \<Rightarrow> uchar list \<Rightarrow> bool \<times> bstate \<Rightarrow> bool" where
  "appended U s xs = (\<lambda>(failed, b', h').
     string_ok U b' \<and> same_on U (snd s) h' \<and> contents (b', h') = contents s @ (if failed then [] else xs))"

lemma same_on_trans: "same_on U h h' \<Longrightarrow> same_on U h' h'' \<Longrightarrow> same_on U h h''"
  by (simp add: same_on_def)

lemma same_on_refl [simp]: "same_on U h h"
  by (simp add: same_on_def)

lemma bytes_at_same_on: "same_on U h h' \<Longrightarrow> source_in U p n \<Longrightarrow> bytes_at (mem h') p n = bytes_at (mem h) p n"
  unfolding bytes_at_def region_def by (auto simp: same_on_def source_in_def)

lemma unat_ucast32 [simp]: "unat (ucast (v :: uint32) :: csize) = unat v"
  using unat_less_2p [of v] by (simp add: unat_ucast_small)

lemma region_upd_other:
  assumes "unat p < a \<or> a + k \<le> unat p" and "a + k \<le> 2 ^ 64"
  shows "region (m(p := v)) a k = region m a k"
proof (rule region_cong)
  fix i assume "a \<le> i" "i < a + k"
  moreover from this have "unat (of_nat i :: addr) = i" using assms(2) by (intro unat_of_nat_small) simp
  ultimately show "(m(p := v)) (of_nat i) = m (of_nat i)" using assms(1) by auto
qed

lemma unat_bs_end:
  assumes "string_ok U b" and "str_length b < Alloced_length b"
  shows "unat (bs_end b) = unat (Ptr b) + unat (str_length b)"
  using assms by (simp add: string_ok_def bs_end_def index32_def unat_word_ariths word_less_nat_alt)

lemma unat_at:
  assumes "string_ok U b" and "unat n < unat (Alloced_length b)"
  shows "unat (Ptr b + n) = unat (Ptr b) + unat n"
  using assms by (simp add: string_ok_def unat_word_ariths)

lemma contents_region: "contents (b, h) = region (mem h) (unat (Ptr b)) (unat (str_length b))"
  by (simp add: contents_def bytes_at_def)

lemma length_contents: "length (contents (b, h)) = unat (str_length b)"
  by (simp add: contents_region)

lemma poke_beyond:
  assumes "string_ok U b" and "unat (str_length b) \<le> unat n" and "unat n < unat (Alloced_length b)"
  shows "contents (b, poke (Ptr b + n) v h) = contents (b, h)" and "same_on U h (poke (Ptr b + n) v h)"
proof -
  note u = unat_at [OF assms(1,3)]
  show "contents (b, poke (Ptr b + n) v h) = contents (b, h)"
    using u assms by (simp add: contents_region poke_def region_upd_other string_ok_def)
  have "Ptr b + n \<notin> U" using assms u by (auto simp: string_ok_def own_def)
  then show "same_on U h (poke (Ptr b + n) v h)" by (auto simp: same_on_def poke_def)
qed

section \<open>The unchecked appends\<close>

lemma q_append_spec:
  assumes ok: "string_ok U b" and room: "unat (str_length b) + unat n \<le> unat (Alloced_length b)"
    and src: "source_in U data n" and n: "n \<noteq> 0"
  shows "appended U (b, h) (bytes_at (mem h) data n) (False, q_append data n (b, h))"
proof -
  have n0: "0 < unat n" using n by (simp add: unat_gt_0)
  have lt: "str_length b < Alloced_length b" using room n0 by (simp add: word_less_nat_alt)
  note e = unat_bs_end [OF ok lt]
  have a: "unat (Alloced_length b) < 2 ^ 32" using unat_less_2p [of "Alloced_length b"] by simp
  have un: "unat (ucast n :: uint32) = unat n" using room a by (intro unat_ucast_small) simp
  then have l: "unat (str_length b + ucast n) = unat (str_length b) + unat n" using room a by (simp add: unat_word_ariths)
  have p: "unat (Ptr b) + unat (Alloced_length b) \<le> 2 ^ 64" using ok by (simp add: string_ok_def)
  let ?m = "memcpy (bs_end b) data n (mem h)"
  have "region ?m (unat (Ptr b)) (unat (str_length b)) = region (mem h) (unat (Ptr b)) (unat (str_length b))"
    using e p room by (intro region_memcpy_other) simp_all
  moreover have "region ?m (unat (bs_end b)) (unat n) = bytes_at (mem h) data n"
    using e p room by (intro region_memcpy) simp
  ultimately have c: "region ?m (unat (Ptr b)) (unat (str_length b) + unat n)
      = region (mem h) (unat (Ptr b)) (unat (str_length b)) @ bytes_at (mem h) data n"
    by (simp add: region_append e)
  have "?m x = mem h x" if "x \<in> U" for x
    using that ok e p room by (intro memcpy_outside) (auto simp: string_ok_def own_def)
  then have "same_on U h (h\<lparr>mem := ?m\<rparr>)" by (simp add: same_on_def)
  moreover have "string_ok U (b\<lparr>str_length := str_length b + ucast n\<rparr>)"
    using ok room l by (simp add: string_ok_def own_def word_le_nat_alt)
  ultimately show ?thesis using c l n by (simp add: appended_def q_append_def contents_region)
qed

lemma q_append_char_spec:
  assumes ok: "string_ok U b" and lt: "str_length b < Alloced_length b"
  shows "appended U (b, h) [c] (False, q_append_char c (b, h))"
proof -
  note e = unat_bs_end [OF ok lt]
  have a: "unat (Alloced_length b) < 2 ^ 32" using unat_less_2p [of "Alloced_length b"] by simp
  have l: "unat (str_length b + 1) = unat (str_length b) + 1" using lt a by (simp add: unat_word_ariths word_less_nat_alt)
  have p: "unat (Ptr b) + unat (Alloced_length b) \<le> 2 ^ 64" using ok by (simp add: string_ok_def)
  have lt': "unat (str_length b) < unat (Alloced_length b)" using lt by (simp add: word_less_nat_alt)
  let ?m = "(mem h)(bs_end b := c)"
  have "region ?m (unat (Ptr b)) (unat (str_length b) + 1) = region (mem h) (unat (Ptr b)) (unat (str_length b)) @ [c]"
  proof -
    have "region ?m (unat (bs_end b)) 1 = [c]" by (simp add: region_def)
    then show ?thesis using region_append [of ?m "unat (Ptr b)" "unat (str_length b)" 1] e p lt'
      by (simp add: region_upd_other)
  qed
  moreover have "bs_end b \<notin> U" using ok e lt' by (auto simp: string_ok_def own_def)
  moreover have "string_ok U (b\<lparr>str_length := str_length b + 1\<rparr>)"
    using ok lt' l p by (simp add: string_ok_def own_def word_le_nat_alt)
  ultimately show ?thesis using l by (auto simp: appended_def q_append_char_def contents_region poke_def same_on_def)
qed

section \<open>Getting room\<close>

definition made_room :: "addr set \<Rightarrow> bstate \<Rightarrow> nat \<Rightarrow> bool \<times> bstate \<Rightarrow> bool" where
  "made_room U s n = (\<lambda>(failed, b', h'). string_ok U b' \<and> same_on U (snd s) h' \<and> contents (b', h') = contents s
     \<and> str_length b' = str_length (fst s) \<and> (\<not> failed \<longrightarrow> n < unat (Alloced_length b')))"

lemma realloc_okD:
  assumes "realloc_ok U R" and "string_ok U b" and "unat (str_length b) < unat n" and "R n (b, h) = (failed, b', h')"
  shows "failed \<Longrightarrow> b' = b \<and> h' = h"
    and "\<not> failed \<Longrightarrow> string_ok U b' \<and> unat n \<le> unat (Alloced_length b') \<and> str_length b' = str_length b
      \<and> contents (b', h') = contents (b, h) \<and> same_on U h h'"
  using assms by (auto simp: realloc_ok_def dest!: spec [of _ n] spec [of _ b] spec [of _ h])

lemma bs_realloc_spec:
  assumes R: "realloc_ok U R" and ok: "string_ok U b" and n: "unat (str_length b) \<le> unat n" "unat n < 2 ^ 63"
  shows "made_room U (b, h) (unat n) (bs_realloc R n (b, h))"
proof -
  have n1: "unat (n + 1) = unat n + 1" using n(2) by (simp add: unat_word_ariths)
  obtain failed b' h' where r: "R (n + 1) (b, h) = (failed, b', h')" by (cases "R (n + 1) (b, h)")
  have lt: "unat (str_length b) < unat (n + 1)" using n n1 by simp
  note d = realloc_okD [OF R ok lt r]
  show ?thesis
  proof (cases failed)
    case True
    then show ?thesis using d(1) r ok by (simp add: bs_realloc_def made_room_def)
  next
    case False
    note d' = d(2) [OF False]
    then have "unat (str_length b') \<le> unat n" "unat n < unat (Alloced_length b')" using n n1 by simp_all
    from poke_beyond [of U b', OF _ this] d' r False show ?thesis
      using n1 by (auto simp: bs_realloc_def made_room_def intro: same_on_trans)
  qed
qed

lemma realloc_with_extra_spec:
  assumes R: "realloc_ok U R" and ok: "string_ok U b" and n: "unat (str_length b) \<le> unat n" "unat n < 2 ^ 63"
  shows "made_room U (b, h) (unat n) (realloc_with_extra R n (b, h))"
proof -
  let ?b = "if extra_alloc b < 4096 then b\<lparr>extra_alloc := extra_alloc b * 2 + 128\<rparr> else b"
  have x: "0 < unat (extra_alloc ?b)" "unat (extra_alloc ?b) < 2 ^ 32"
    using unat_less_2p [of "extra_alloc ?b"] by (auto simp: word_less_nat_alt unat_word_ariths mod_if)
  then have nx: "unat (n + ucast (extra_alloc ?b)) = unat n + unat (extra_alloc ?b)" using n(2) by (simp add: unat_word_ariths)
  have ok': "string_ok U ?b" and c: "contents (?b, h) = contents (b, h)" "str_length ?b = str_length b"
    using ok by (simp_all add: string_ok_def own_def contents_def)
  obtain failed b' h' where r: "R (n + ucast (extra_alloc ?b)) (?b, h) = (failed, b', h')"
    by (cases "R (n + ucast (extra_alloc ?b)) (?b, h)")
  have lt: "unat (str_length ?b) < unat (n + ucast (extra_alloc ?b))" using n x nx c(2) by simp
  note d = realloc_okD [OF R ok' lt r]
  have eq: "realloc_with_extra R n (b, h) = (if failed then (True, b', h') else (False, b', poke (Ptr b' + n) 0 h'))"
    using r by (simp add: realloc_with_extra_def Let_def)
  show ?thesis
  proof (cases failed)
    case True
    then show ?thesis using d(1) ok' c by (simp only: eq made_room_def) simp
  next
    case False
    note d' = d(2) [OF False]
    then have "unat (str_length b') \<le> unat n" "unat n < unat (Alloced_length b')" using n nx c x by simp_all
    from poke_beyond [of U b', OF _ this] d' False c show ?thesis
      using nx x by (auto simp: eq made_room_def intro: same_on_trans)
  qed
qed

lemma realloc_if_needed_spec:
  assumes R: "realloc_ok U R" and ok: "string_ok U b" and n: "unat (str_length b) \<le> unat n" "unat n < 2 ^ 63"
  shows "made_room U (b, h) (unat n) (realloc_with_extra_if_needed R n (b, h))"
proof (cases "n < ucast (Alloced_length b)")
  case True
  then have "unat n < unat (Alloced_length b)" by (simp add: word_less_nat_alt)
  from poke_beyond [OF ok n(1) this] this ok True show ?thesis
    by (simp add: realloc_with_extra_if_needed_def made_room_def)
next
  case False
  then show ?thesis using realloc_with_extra_spec [OF assms] by (simp add: realloc_with_extra_if_needed_def)
qed

section \<open>The checked appends\<close>

lemma q_append_any:
  assumes "string_ok U b" and "unat (str_length b) + unat n \<le> unat (Alloced_length b)" and "source_in U data n"
  shows "appended U (b, h) (bytes_at (mem h) data n) (False, q_append data n (b, h))"
proof (cases "n = 0")
  case True
  then show ?thesis using assms(1) by (simp add: appended_def q_append_def bytes_at_def)
qed (rule q_append_spec [OF assms])

lemma append_after_room:
  assumes r: "made_room U (b, h) k (failed, b1, h1)" and k: "unat (str_length b) + unat n \<le> k + 1"
    and src: "source_in U data n"
  shows "appended U (b, h) (bytes_at (mem h) data n) (if failed then (True, b1, h1) else (False, q_append data n (b1, h1)))"
proof (cases failed)
  case True
  then show ?thesis using r by (simp add: made_room_def appended_def)
next
  case False
  then have "string_ok U b1" "unat (str_length b1) + unat n \<le> unat (Alloced_length b1)" "same_on U h h1"
    "contents (b1, h1) = contents (b, h)" using r k by (auto simp: made_room_def)
  from q_append_any [OF this(1,2) src, of h1] this(3,4) False bytes_at_same_on [OF this(3) src] show ?thesis
    by (auto simp: appended_def intro: same_on_trans)
qed

lemma append_bytes_spec:
  assumes R: "realloc_ok U R" and ok: "string_ok U b" and src: "source_in U data n" and n: "unat n < 2 ^ 62"
  shows "appended U (b, h) (bytes_at (mem h) data n) (append_bytes R data n (b, h))"
proof (cases "n = 0")
  case True
  then show ?thesis using ok by (simp add: append_bytes_def appended_def bytes_at_def)
next
  case False
  let ?k = "ucast (str_length b) + n"
  have k: "unat ?k = unat (str_length b) + unat n"
    using n unat_less_2p [of "str_length b"] by (simp add: unat_word_ariths)
  then have lt: "unat (str_length b) \<le> unat ?k" "unat ?k < 2 ^ 63" using n unat_less_2p [of "str_length b"] by simp_all
  obtain failed b1 h1 where r: "realloc_with_extra_if_needed R ?k (b, h) = (failed, b1, h1)"
    by (cases "realloc_with_extra_if_needed R ?k (b, h)")
  have "made_room U (b, h) (unat ?k) (failed, b1, h1)" using realloc_if_needed_spec [OF R ok lt, of h] r by simp
  from append_after_room [OF this _ src] k False r show ?thesis
    by (cases failed) (simp_all add: append_bytes_def)
qed

lemma append_char_spec:
  assumes R: "realloc_ok U R" and ok: "string_ok U b" and l: "unat (str_length b) < 2 ^ 32 - 1"
  shows "appended U (b, h) [c] (append_char R c (b, h))"
proof (cases "str_length b < Alloced_length b")
  case True
  then show ?thesis using q_append_char_spec [OF ok] by (simp add: append_char_def)
next
  case False
  let ?k = "ucast (str_length b + 1) :: csize"
  have k: "unat ?k = unat (str_length b) + 1" using l by (simp add: unat_word_ariths)
  then have lt: "unat (str_length b) \<le> unat ?k" "unat ?k < 2 ^ 63" using l by simp_all
  obtain failed b1 h1 where r: "realloc_with_extra R ?k (b, h) = (failed, b1, h1)"
    by (cases "realloc_with_extra R ?k (b, h)")
  have m: "made_room U (b, h) (unat ?k) (failed, b1, h1)" using realloc_with_extra_spec [OF R ok lt, of h] r by simp
  show ?thesis
  proof (cases failed)
    case True
    then show ?thesis using m r False by (simp add: made_room_def appended_def append_char_def)
  next
    case not_failed: False
    then have m': "string_ok U b1" "str_length b1 < Alloced_length b1" "same_on U h h1" "contents (b1, h1) = contents (b, h)"
      using m k by (auto simp: made_room_def word_less_nat_alt)
    from q_append_char_spec [OF m'(1,2), of h1 c] m'(3,4) not_failed r False show ?thesis
      by (auto simp: appended_def append_char_def intro: same_on_trans)
  qed
qed

lemma append_with_step_spec:
  assumes R: "realloc_ok U R" and ok: "string_ok U b" and src: "source_in U data (ucast n)"
    and nw: "unat (str_length b) + unat n + unat step < 2 ^ 32"
  shows "appended U (b, h) (bytes_at (mem h) data (ucast n)) (append_with_step R data n step (b, h))"
proof -
  let ?l = "n + str_length b"
  have l: "unat ?l = unat (str_length b) + unat n" "unat (?l + step) = unat (str_length b) + unat n + unat step"
    using nw by (simp_all add: unat_word_ariths)
  show ?thesis
  proof (cases "Alloced_length b < ?l")
    case True
    let ?k = "ucast (?l + step) :: csize"
    have k: "unat ?k = unat (str_length b) + unat n + unat step" using l by simp
    then have lt: "unat (str_length b) \<le> unat ?k" "unat ?k < 2 ^ 63" using nw by simp_all
    obtain failed b1 h1 where r: "bs_realloc R ?k (b, h) = (failed, b1, h1)" by (cases "bs_realloc R ?k (b, h)")
    have "made_room U (b, h) (unat ?k) (failed, b1, h1)" using bs_realloc_spec [OF R ok lt, of h] r by simp
    from append_after_room [OF this _ src] k r True show ?thesis
      by (cases failed) (simp_all add: append_with_step_def Let_def)
  next
    case False
    then have "unat (str_length b) + unat (ucast n :: csize) \<le> unat (Alloced_length b)"
      using l by (simp add: word_le_nat_alt not_less)
    from q_append_any [OF ok this src] False show ?thesis by (simp add: append_with_step_def)
  qed
qed

lemma appended_length: "appended U (b, h) xs (failed, b', h') \<Longrightarrow>
    unat (str_length b') = unat (str_length b) + (if failed then 0 else length xs)"
  using length_contents [of b' h'] length_contents [of b h] by (auto simp: appended_def)

section \<open>Hexadecimal digits\<close>

definition hex_digits :: "(nat \<Rightarrow> uchar) \<Rightarrow> uchar list \<Rightarrow> uchar list" where
  "hex_digits dig bs = concat (map (\<lambda>b. [dig (unat (drop_bit 4 b)), dig (unat (b AND 15))]) bs)"

text \<open>A failure leaves the digits appended so far.\<close>

definition grown :: "addr set \<Rightarrow> bstate \<Rightarrow> uchar list \<Rightarrow> bool \<times> bstate \<Rightarrow> uchar list \<Rightarrow> bool" where
  "grown U s xs = (\<lambda>(failed, b', h') ys. string_ok U b' \<and> same_on U (snd s) h' \<and> contents (b', h') = contents s @ ys
     \<and> prefix ys xs \<and> (\<not> failed \<longrightarrow> ys = xs))"

lemma grown_length: "grown U (b, h) xs (failed, b', h') ys \<Longrightarrow> unat (str_length b') = unat (str_length b) + length ys"
  using length_contents [of b' h'] length_contents [of b h] by (auto simp: grown_def)

lemma appended_grown: "appended U s xs t \<Longrightarrow> grown U s xs t (if fst t then [] else xs)"
  by (auto simp: appended_def grown_def)

lemma grown_step:
  assumes g: "grown U s xs (False, t) xs" and r: "grown U t ys u zs"
  shows "grown U s (xs @ ys) u (xs @ zs)"
  using assms by (auto simp: grown_def intro: same_on_trans)

lemma bytes_at_Suc: "bytes_at m p (of_nat (Suc n)) = m p # bytes_at m (p + 1) (of_nat n)" if "n < 2 ^ 64 - 1"
proof -
  have "unat (of_nat (Suc n) :: csize) = Suc n" "unat (of_nat n :: csize) = n"
    using that by (simp_all add: unat_of_nat_small del: of_nat_Suc)
  then show ?thesis by (simp add: bytes_at_def region_def upt_conv_Cons ac_simps del: upt_Suc of_nat_Suc)
      (simp add: map_Suc_upt [symmetric] ac_simps del: upt_Suc)
qed

lemma append_hex_loop_spec:
  assumes R: "realloc_ok U R"
  shows "string_ok U b \<Longrightarrow> \<forall>i < n. src + of_nat i \<in> U \<Longrightarrow> n < 2 ^ 32 \<Longrightarrow> unat (str_length b) + 2 * n < 2 ^ 32 \<Longrightarrow>
    \<exists>ys. grown U (b, h) (hex_digits dig (bytes_at (mem h) src (of_nat n))) (append_hex_loop R dig src n (b, h)) ys"
proof (induction n arbitrary: b h src)
  case 0
  then show ?case by (auto simp: grown_def hex_digits_def bytes_at_def)
next
  case (Suc n)
  let ?c = "dig (unat (drop_bit 4 (mem h src)))" and ?d = "dig (unat (mem h src AND 15))"
  have m: "mem h' src = mem h src" if "same_on U h h'" for h'
    using that Suc.prems(2) [rule_format, of 0] by (simp add: same_on_def)
  obtain f1 b1 h1 where 1: "append_char R ?c (b, h) = (f1, b1, h1)" by (cases "append_char R ?c (b, h)")
  have a1: "appended U (b, h) [?c] (f1, b1, h1)" using append_char_spec [OF R Suc.prems(1), of h ?c] Suc.prems(4) 1 by simp
  have full: "hex_digits dig (bytes_at (mem h) src (of_nat (Suc n)))
      = [?c] @ [?d] @ hex_digits dig (bytes_at (mem h) (src + 1) (of_nat n))"
    using Suc.prems(3) by (simp add: bytes_at_Suc hex_digits_def del: of_nat_Suc)
  show ?case
  proof (cases f1)
    case True
    then show ?thesis using a1 1 by (auto simp: appended_def grown_def)
  next
    case not1: False
    have s1: "same_on U h h1" "string_ok U b1" using a1 by (simp_all add: appended_def)
    have l1: "unat (str_length b1) = unat (str_length b) + 1" using appended_length [OF a1] not1 by simp
    obtain f2 b2 h2 where 2: "append_char R ?d (b1, h1) = (f2, b2, h2)" by (cases "append_char R ?d (b1, h1)")
    have a2: "appended U (b1, h1) [?d] (f2, b2, h2)"
      using append_char_spec [OF R s1(2), of h1 ?d] Suc.prems(4) l1 2 by simp
    show ?thesis
    proof (cases f2)
      case True
      have "grown U (b, h) ([?c] @ [?d] @ hex_digits dig (bytes_at (mem h) (src + 1) (of_nat n))) (True, b2, h2) ([?c] @ [])"
        using a1 a2 not1 True by (auto simp: appended_def grown_def intro: same_on_trans)
      then show ?thesis unfolding full using 1 2 not1 True m [OF s1(1)] by auto
    next
      case not2: False
      have s2: "same_on U h1 h2" "string_ok U b2" using a2 by (simp_all add: appended_def)
      have l2: "unat (str_length b2) = unat (str_length b) + 2" using appended_length [OF a2] not2 l1 by simp
      have u: "\<forall>i < n. src + 1 + of_nat i \<in> U" using Suc.prems(2) by (metis Suc_mono add.assoc of_nat_Suc)
      obtain ys where "grown U (b2, h2) (hex_digits dig (bytes_at (mem h2) (src + 1) (of_nat n)))
          (append_hex_loop R dig (src + 1) n (b2, h2)) ys"
        using Suc.IH [OF s2(2) u, of h2] Suc.prems(3,4) l2 by auto
      moreover have "unat (of_nat n :: csize) = n" using Suc.prems(3) by (intro unat_of_nat_small) simp
      then have "bytes_at (mem h2) (src + 1) (of_nat n) = bytes_at (mem h) (src + 1) (of_nat n)"
        using u same_on_trans [OF s1(1) s2(1)] by (auto simp: bytes_at_def region_def same_on_def)
      moreover have "grown U (b, h) ([?c] @ [?d]) (False, b2, h2) ([?c] @ [?d])"
        by (rule grown_step [where t = "(b1, h1)"])
          (use appended_grown [OF a1] appended_grown [OF a2] not1 not2 in simp_all)
      ultimately have g: "grown U (b2, h2) (hex_digits dig (bytes_at (mem h) (src + 1) (of_nat n)))
          (append_hex_loop R dig (src + 1) n (b2, h2)) ys" "grown U (b, h) ([?c] @ [?d]) (False, b2, h2) ([?c] @ [?d])"
        by simp_all
      have "grown U (b, h) (([?c] @ [?d]) @ hex_digits dig (bytes_at (mem h) (src + 1) (of_nat n)))
          (append_hex_loop R dig (src + 1) n (b2, h2)) (([?c] @ [?d]) @ ys)"
        by (rule grown_step [OF g(2,1)])
      then show ?thesis unfolding full using 1 2 not1 not2 m [OF s1(1)] by auto
    qed
  qed
qed

lemma append_hex_spec:
  assumes R: "realloc_ok U R" and ok: "string_ok U b" and src: "source_in U data (ucast n)"
    and l: "unat (str_length b) + 2 * unat n < 2 ^ 32"
  shows "\<exists>ys. grown U (b, h) (hex_digits dig (bytes_at (mem h) data (ucast n))) (append_hex R dig data n (b, h)) ys"
proof -
  have "(of_nat (unat n) :: csize) = ucast n" by (simp add: word_unat_eq_iff unat_of_nat_small)
  then show ?thesis
    using append_hex_loop_spec [OF R ok, of "unat n" data h dig] src l unat_less_2p [of n]
    by (simp add: append_hex_def source_in_def)
qed

section \<open>Programs of appends\<close>

datatype append_cmd =
    Append addr csize
  | Append_char uchar
  | Append_step addr uint32 uint32
  | Append_hex addr uint32

fun append_step :: "alloc_fun \<Rightarrow> (nat \<Rightarrow> uchar) \<Rightarrow> append_cmd \<Rightarrow> bstate \<Rightarrow> bool \<times> bstate" where
  "append_step R dig (Append p n) = append_bytes R p n"
| "append_step R dig (Append_char c) = append_char R c"
| "append_step R dig (Append_step p n k) = append_with_step R p n k"
| "append_step R dig (Append_hex p n) = append_hex R dig p n"

text \<open>The bytes a command appends, the length it may need, and the data it reads.\<close>

fun piece :: "(nat \<Rightarrow> uchar) \<Rightarrow> memory \<Rightarrow> append_cmd \<Rightarrow> uchar list" where
  "piece dig m (Append p n) = bytes_at m p n"
| "piece dig m (Append_char c) = [c]"
| "piece dig m (Append_step p n k) = bytes_at m p (ucast n)"
| "piece dig m (Append_hex p n) = hex_digits dig (bytes_at m p (ucast n))"

fun need :: "append_cmd \<Rightarrow> nat" where
  "need (Append p n) = unat n"
| "need (Append_char c) = 1"
| "need (Append_step p n k) = unat n + unat k"
| "need (Append_hex p n) = 2 * unat n"

fun reads_in :: "addr set \<Rightarrow> append_cmd \<Rightarrow> bool" where
  "reads_in U (Append p n) \<longleftrightarrow> source_in U p n"
| "reads_in U (Append_char c) \<longleftrightarrow> True"
| "reads_in U (Append_step p n k) \<longleftrightarrow> source_in U p (ucast n)"
| "reads_in U (Append_hex p n) \<longleftrightarrow> source_in U p (ucast n)"

text \<open>The program goes on after a failure.\<close>

fun run_appends :: "alloc_fun \<Rightarrow> (nat \<Rightarrow> uchar) \<Rightarrow> append_cmd list \<Rightarrow> bstate \<Rightarrow> bool list \<times> bstate" where
  "run_appends R dig [] s = ([], s)"
| "run_appends R dig (c # cs) s =
     (let (failed, s) = append_step R dig c s; (fs, s) = run_appends R dig cs s in (failed # fs, s))"

fun is_hex :: "append_cmd \<Rightarrow> bool" where
  "is_hex (Append_hex p n) = True"
| "is_hex c = False"

lemma append_step_spec:
  assumes R: "realloc_ok U R" and ok: "string_ok U b" and src: "reads_in U c"
    and l: "unat (str_length b) + need c < 2 ^ 32 - 1"
  shows "\<exists>ys. grown U (b, h) (piece dig (mem h) c) (append_step R dig c (b, h)) ys
    \<and> (fst (append_step R dig c (b, h)) \<and> \<not> is_hex c \<longrightarrow> ys = [])"
proof (cases c)
  case (Append p n)
  then show ?thesis using append_bytes_spec [OF R ok, of p n h] src l appended_grown by fastforce
next
  case (Append_char x)
  then show ?thesis using append_char_spec [OF R ok, of h x] l appended_grown by fastforce
next
  case (Append_step p n k)
  then show ?thesis using append_with_step_spec [OF R ok, of p n k h] src l appended_grown by fastforce
next
  case (Append_hex p n)
  then show ?thesis using append_hex_spec [OF R ok, of p n h dig] src l by auto
qed

lemma length_hex_digits [simp]: "length (hex_digits dig bs) = 2 * length bs"
  by (induction bs) (simp_all add: hex_digits_def)

lemma length_piece: "length (piece dig m c) \<le> need c"
  by (cases c) simp_all

lemma piece_same_on: "same_on U h h' \<Longrightarrow> reads_in U c \<Longrightarrow> piece dig (mem h') c = piece dig (mem h) c"
  by (cases c) (simp_all add: bytes_at_same_on)

lemma run_appends_spec:
  assumes R: "realloc_ok U R"
  shows "string_ok U b \<Longrightarrow> \<forall>c \<in> set cs. reads_in U c \<Longrightarrow>
    unat (str_length b) + sum_list (map need cs) < 2 ^ 32 - 1 \<Longrightarrow> run_appends R dig cs (b, h) = (fs, b', h') \<Longrightarrow>
    \<exists>ps. string_ok U b' \<and> same_on U h h' \<and> contents (b', h') = contents (b, h) @ concat ps
      \<and> list_all2 (\<lambda>(c, f) p. prefix p (piece dig (mem h) c) \<and> (\<not> f \<longrightarrow> p = piece dig (mem h) c) \<and> (f \<and> \<not> is_hex c \<longrightarrow> p = []))
          (zip cs fs) ps \<and> length fs = length cs"
proof (induction cs arbitrary: b h fs)
  case Nil
  then show ?case by auto
next
  case (Cons c cs)
  obtain f b1 h1 where 1: "append_step R dig c (b, h) = (f, b1, h1)" by (cases "append_step R dig c (b, h)")
  obtain p where p: "grown U (b, h) (piece dig (mem h) c) (f, b1, h1) p" "f \<and> \<not> is_hex c \<longrightarrow> p = []"
    using append_step_spec [OF R Cons.prems(1), of c h dig] Cons.prems(2,3) 1 by auto
  have g: "string_ok U b1" "same_on U h h1" "contents (b1, h1) = contents (b, h) @ p" "prefix p (piece dig (mem h) c)"
    "\<not> f \<longrightarrow> p = piece dig (mem h) c"
    using p(1) by (simp_all add: grown_def)
  obtain gs where 2: "run_appends R dig cs (b1, h1) = (gs, b', h')" "fs = f # gs"
    using Cons.prems(4) 1 by (cases "run_appends R dig cs (b1, h1)") simp
  have "length p \<le> need c" using g(4) length_piece [of dig "mem h" c] prefix_length_le order_trans by blast
  then have l: "unat (str_length b1) + sum_list (map need cs) < 2 ^ 32 - 1"
    using grown_length [OF p(1)] Cons.prems(3) by simp
  have rd: "\<forall>c \<in> set cs. reads_in U c" using Cons.prems(2) by simp
  obtain ps where ps: "string_ok U b'" "same_on U h1 h'" "contents (b', h') = contents (b1, h1) @ concat ps"
    "list_all2 (\<lambda>(c, f) p. prefix p (piece dig (mem h1) c) \<and> (\<not> f \<longrightarrow> p = piece dig (mem h1) c)
       \<and> (f \<and> \<not> is_hex c \<longrightarrow> p = [])) (zip cs gs) ps" "length gs = length cs"
    using Cons.IH [OF g(1) rd l 2(1)] by blast
  have eq: "piece dig (mem h1) c' = piece dig (mem h) c'" if "c' \<in> set cs" for c'
    using piece_same_on [OF g(2)] rd that by blast
  have "list_all2 (\<lambda>(c, f) p. prefix p (piece dig (mem h) c) \<and> (\<not> f \<longrightarrow> p = piece dig (mem h) c)
       \<and> (f \<and> \<not> is_hex c \<longrightarrow> p = [])) (zip cs gs) ps"
    by (rule list.rel_mono_strong [OF ps(4)]) (auto dest!: set_zip_leftD simp: eq)
  then show ?case using ps(1,2,3,5) g 2(2) p(2)
    by (intro exI [of _ "p # ps"]) (auto intro: same_on_trans)
qed

section \<open>An allocator\<close>

text \<open>For concrete strings: one block of 1000 bytes at a fixed address, away from the low memory of the user.\<close>

definition low_memory :: "addr set" where
  "low_memory = {a. a < 2 ^ 20}"

definition example_realloc :: alloc_fun where
  "example_realloc n = (\<lambda>(b, h).
     if n \<le> ucast (Alloced_length b) then (False, b, h)
     else if n \<le> 1000 then
       (False, b\<lparr>Ptr := 2 ^ 40, Alloced_length := 1000, alloced := True\<rparr>,
        h\<lparr>mem := memcpy (2 ^ 40) (Ptr b) (ucast (str_length b)) (mem h)\<rparr>)
     else (True, b, h))"

lemma example_realloc_ok: "realloc_ok low_memory example_realloc"
  unfolding realloc_ok_def
proof (intro allI impI)
  fix n b and h :: hstate assume ok: "string_ok low_memory b" and n: "unat (str_length b) < unat (n :: csize)"
  let ?A = "2 ^ 40 :: addr" and ?m = "memcpy (2 ^ 40) (Ptr b) (ucast (str_length b)) (mem h)"
  have uA: "unat ?A = 2 ^ 40" by simp
  have s: "unat (str_length b) < 1000" if "n \<le> 1000" using that n by (simp add: word_le_nat_alt)
  have "?m a = mem h a" if "a \<in> low_memory" "n \<le> 1000" for a
    using that(1) s [OF that(2)] uA by (intro memcpy_outside) (auto simp: low_memory_def word_less_nat_alt)
  moreover have "region ?m (unat ?A) (unat (ucast (str_length b) :: csize)) = bytes_at (mem h) (Ptr b) (ucast (str_length b))"
    if "n \<le> 1000" using s [OF that] uA by (intro region_memcpy) simp
  ultimately show "case example_realloc n (b, h) of (failed, b', h') \<Rightarrow>
      if failed then b' = b \<and> h' = h
      else string_ok low_memory b' \<and> unat n \<le> unat (Alloced_length b') \<and> str_length b' = str_length b
        \<and> contents (b', h') = contents (b, h) \<and> same_on low_memory h h'"
    using ok n s
    by (auto simp: example_realloc_def contents_def bytes_at_def string_ok_def own_def low_memory_def same_on_def
        word_le_nat_alt word_less_nat_alt)
qed

definition example_string :: Binary_string where
  "example_string = \<lparr>Ptr = 0, str_length = 0, Alloced_length = 0, extra_alloc = 0, alloced = False, thread_specific = False\<rparr>"

definition example_heap :: hstate where
  "example_heap = \<lparr>mem = (\<lambda>a. ucast a), live = Map.empty\<rparr>"

definition ascii_digit :: "nat \<Rightarrow> uchar" where
  "ascii_digit n = (if n < 10 then of_nat (48 + n) else of_nat (87 + n))"

lemma example_string_ok: "string_ok low_memory example_string"
  by (simp add: string_ok_def example_string_def own_def)

lemma low_source: "unat p + unat n < 2 ^ 20 \<Longrightarrow> source_in low_memory p n"
  by (auto simp: source_in_def low_memory_def word_less_nat_alt unat_word_ariths unat_of_nat_small)

section \<open>Properties\<close>



text \<open>
  \<open>append_with_step\<close> adds the lengths in 32 bits: when the sum wraps to a length that the buffer has, it asks
  for no memory, reports success, and writes over the byte just behind the buffer.
\<close>

theorem append_with_step_overflow:
  assumes "str_length b \<le> Alloced_length b" and "2 ^ 32 \<le> unat (str_length b) + unat n"
    and "n + str_length b \<le> Alloced_length b" and "unat (Ptr b) + unat (str_length b) + unat n \<le> 2 ^ 64"
  shows "\<exists>h'. append_with_step R data n step (b, h) = (False, b\<lparr>str_length := n + str_length b\<rparr>, h')
    \<and> mem h' (Ptr b + ucast (Alloced_length b)) = mem h (data + ucast (Alloced_length b - str_length b))"
proof -
  have n0: "(ucast n :: csize) \<noteq> 0" using assms(2) unat_less_2p [of "str_length b"] unat_eq_0 [of "ucast n :: csize"] by auto
  have lt: "unat (Alloced_length b - str_length b) < unat n"
    using assms(1,2) unat_less_2p [of "Alloced_length b"] by (simp add: unat_sub word_le_nat_alt)
  have d: "(Ptr b + ucast (Alloced_length b)) - bs_end b = (ucast (Alloced_length b - str_length b) :: addr)"
  proof -
    have "(ucast (Alloced_length b - str_length b) :: addr) = ucast (Alloced_length b) - ucast (str_length b)"
      using assms(1) by (simp add: word_unat_eq_iff unat_sub word_le_nat_alt)
    then show ?thesis by (simp add: bs_end_def index32_def)
  qed
  then have "memcpy (bs_end b) data (ucast n) (mem h) (Ptr b + ucast (Alloced_length b))
      = mem h (data + ucast (Alloced_length b - str_length b))"
    using lt by (simp add: memcpy_def word_less_nat_alt)
  moreover have "\<not> Alloced_length b < n + str_length b" using assms(3) by simp
  moreover have "(ucast (ucast n :: csize) :: uint32) = n" by (rule bit_eqI) (simp add: bit_simps)
  ultimately show ?thesis using n0
    by (simp add: append_with_step_def Let_def q_append_def add.commute)
qed

lemma append_with_step_overflow_witness:
  "\<exists>h'. append_with_step example_realloc 16 32 0 (example_string\<lparr>Ptr := 2 ^ 40, str_length := - 16, Alloced_length := - 8\<rparr>, example_heap)
     = (False, example_string\<lparr>Ptr := 2 ^ 40, Alloced_length := - 8, str_length := 16\<rparr>, h')
     \<and> mem h' (2 ^ 40 + ucast (- 8 :: uint32)) = 24"
  using append_with_step_overflow [of "example_string\<lparr>Ptr := 2 ^ 40, str_length := - 16, Alloced_length := - 8\<rparr>" 32
    example_realloc 16 0 example_heap]
  by (simp add: example_heap_def)

text \<open>
  The pointer \<open>c_ptr\<close> returns is the contents followed by a zero byte, and the contents do not change, unless
  memory was needed for the zero and refused: then the string is returned as it was, with no zero.
\<close>

theorem c_ptr_terminated:
  assumes "realloc_ok U R" and "string_ok U b" and "c_ptr R empty_string (b, h) = (p, b', h')"
  shows "if Ptr b = 0 then p = empty_string \<and> b' = b \<and> h' = h
    else p = Ptr b' \<and> contents (b', h') = contents (b, h) \<and> same_on U h h'
      \<and> (mem h' (bs_end b') = 0 \<or> b' = b \<and> h' = h \<and> fst (R (ucast (str_length b) + 1) (b, h)))"
proof -
  have l: "unat (ucast (str_length b) :: csize) < 2 ^ 63" using unat_less_2p [of "str_length b"] by simp
  show ?thesis
  proof (cases "Ptr b = 0 \<or> (\<not> alloced b \<and> mem h (bs_end b) = 0)")
    case True
    then show ?thesis using assms(3) by (auto simp: c_ptr_def)
  next
    case not_zero: False
    show ?thesis
    proof (cases "str_length b < Alloced_length b")
      case True
      then have "contents (b, poke (Ptr b + ucast (str_length b)) 0 h) = contents (b, h)"
        "same_on U h (poke (Ptr b + ucast (str_length b)) 0 h)"
        using poke_beyond [OF assms(2), of "ucast (str_length b)"] by (simp_all add: word_less_nat_alt)
      then show ?thesis using assms(3) not_zero True
        by (auto simp: c_ptr_def bs_end_def index32_def poke_def)
    next
      case False
      let ?n = "ucast (str_length b) + 1 :: csize"
      obtain failed b1 h1 where r: "R ?n (b, h) = (failed, b1, h1)" by (cases "R ?n (b, h)")
      have n: "unat ?n = unat (str_length b) + 1" using unat_less_2p [of "str_length b"] by (simp add: unat_word_ariths)
      then have "unat (str_length b) < unat ?n" by simp
      note d = realloc_okD [OF assms(1,2) this r]
      show ?thesis
      proof (cases failed)
        case True
        then show ?thesis using d(1) r assms(3) not_zero False by (auto simp: c_ptr_def bs_realloc_def)
      next
        case ok: False
        note d' = d(2) [OF ok]
        then have "unat (str_length b1) \<le> unat (ucast (str_length b) :: csize)"
          "unat (ucast (str_length b) :: csize) < unat (Alloced_length b1)" using n by simp_all
        from poke_beyond [of U b1, OF _ this] d' r ok assms(3) not_zero False show ?thesis
          by (auto simp: c_ptr_def bs_realloc_def bs_end_def index32_def poke_def same_on_def)
      qed
    qed
  qed
qed

lemma c_ptr_terminated_witness:
  "\<exists>p b h. c_ptr example_realloc 0 (example_string\<lparr>Ptr := 2 ^ 30, str_length := 3, Alloced_length := 0\<rparr>, example_heap) = (p, b, h)
     \<and> p = Ptr b \<and> mem h (bs_end b) = 0"
proof -
  let ?b = "example_string\<lparr>Ptr := 2 ^ 30, str_length := 3, Alloced_length := 0\<rparr>"
  obtain p b h where r: "c_ptr example_realloc 0 (?b, example_heap) = (p, b, h)"
    by (cases "c_ptr example_realloc 0 (?b, example_heap)")
  have "string_ok low_memory ?b" by (simp add: string_ok_def own_def example_string_def)
  from c_ptr_terminated [OF example_realloc_ok this r] r show ?thesis
    by (auto simp: example_realloc_def)
qed

end
