(* ===== verification/String_Owner.thy ===== *)
theory String_Owner
  imports Binary_String "HOL-Library.Multiset"
begin

text \<open>
  Who owns the heap blocks of a family of \<open>Binary_string\<close>s: programs of the operations that exchange buffers free
  every block once and lose none.
\<close>

section \<open>Owners\<close>

definition owned :: "Binary_string \<Rightarrow> addr multiset" where
  "owned b = (if alloced b then {#Ptr b#} else {#})"

definition owners :: "Binary_string list \<Rightarrow> addr multiset" where
  "owners bs = sum_mset (image_mset owned (mset bs))"

text \<open>The live blocks are the members of \<open>M\<close>, each once.\<close>

definition heap_is :: "hstate \<Rightarrow> addr multiset \<Rightarrow> bool" where
  "heap_is h M \<longleftrightarrow> finite (dom (live h)) \<and> mset_set (dom (live h)) = M \<and> 0 \<notin># M"

text \<open>
  What the code relies on: after asking for memory, successfully or not, a string owns a live block or none, and the
  other live blocks are still live.
\<close>

definition alloc_owns :: "alloc_fun \<Rightarrow> bool" where
  "alloc_owns R \<longleftrightarrow> (\<forall>n b h M. heap_is h (owned b + M) \<longrightarrow>
     (case R n (b, h) of (failed, b', h') \<Rightarrow> heap_is h' (owned b' + M)))"

section \<open>Operations on a family of strings\<close>

datatype own_cmd =
    Set_const nat addr csize
  | Set_buffer nat addr csize
  | Set_sub nat nat csize csize
  | Assign nat nat
  | Move nat nat
  | Swap nat nat
  | Release nat
  | Reset nat addr csize csize
  | Free nat
  | If_not_allocated nat addr csize
  | Alloc nat csize
  | Realloc nat csize
  | Char nat uchar

text \<open>The third component has the blocks \<open>release\<close> has handed out.\<close>

type_synonym own_state = "Binary_string list \<times> hstate \<times> addr list"

definition on_string :: "nat \<Rightarrow> (bstate \<Rightarrow> bstate option) \<Rightarrow> own_state \<Rightarrow> own_state option" where
  "on_string i f = (\<lambda>(bs, h, out). map_option (\<lambda>(b, h). (bs[i := b], h, out)) (f (bs ! i, h)))"

fun own_step :: "alloc_fun \<Rightarrow> alloc_fun \<Rightarrow> own_cmd \<Rightarrow> own_state \<Rightarrow> own_state option" where
  "own_step A R (Set_const i p n) s = on_string i (set_const p n) s"
| "own_step A R (Set_buffer i p n) s = on_string i (set_buffer p n) s"
| "own_step A R (Set_sub i j k n) s = on_string i (set_sub (fst s ! j) k n) s"
| "own_step A R (Assign i j) s = (if i = j then Some s else on_string i (bs_assign (fst s ! j)) s)"
| "own_step A R (Move i j) (bs, h, out) =
     map_option (\<lambda>(c, b, h). (bs[i := b, j := c], h, out)) (bs_move (bs ! j) (bs ! i, h))"
| "own_step A R (Swap i j) (bs, h, out) = (let (b, c) = bs_swap (bs ! i) (bs ! j) in Some (bs[i := b, j := c], h, out))"
| "own_step A R (Release i) (bs, h, out) =
     (let (p, b) = bs_release (bs ! i) in Some (bs[i := b], h, if alloced (bs ! i) then p # out else out))"
| "own_step A R (Reset i p n k) s = map_option (\<lambda>(bs, h, out). (bs, h, remove1 p out)) (on_string i (bs_reset p n k) s)"
| "own_step A R (Free i) s = on_string i bs_free s"
| "own_step A R (If_not_allocated i p n) (bs, h, out) = Some (bs[i := set_buffer_if_not_allocated p n (bs ! i)], h, out)"
| "own_step A R (Alloc i n) s = on_string i (\<lambda>t. Some (snd (bs_alloc A n t))) s"
| "own_step A R (Realloc i n) s = on_string i (\<lambda>t. Some (snd (bs_realloc R n t))) s"
| "own_step A R (Char i c) s = on_string i (\<lambda>t. Some (snd (append_char R c t))) s"

text \<open>What a caller must respect: strings that exist, no move to itself, and only blocks it was given.\<close>

fun allowed :: "own_cmd \<Rightarrow> own_state \<Rightarrow> bool" where
  "allowed (Set_const i p n) (bs, h, out) = (i < length bs)"
| "allowed (Set_buffer i p n) (bs, h, out) = (i < length bs)"
| "allowed (Set_sub i j k n) (bs, h, out) = (i < length bs \<and> j < length bs)"
| "allowed (Assign i j) (bs, h, out) = (i < length bs \<and> j < length bs)"
| "allowed (Move i j) (bs, h, out) = (i < length bs \<and> j < length bs \<and> i \<noteq> j)"
| "allowed (Swap i j) (bs, h, out) = (i < length bs \<and> j < length bs)"
| "allowed (Release i) (bs, h, out) = (i < length bs)"
| "allowed (Reset i p n k) (bs, h, out) = (i < length bs \<and> p \<in> set out)"
| "allowed (Free i) (bs, h, out) = (i < length bs)"
| "allowed (If_not_allocated i p n) (bs, h, out) = (i < length bs)"
| "allowed (Alloc i n) (bs, h, out) = (i < length bs)"
| "allowed (Realloc i n) (bs, h, out) = (i < length bs)"
| "allowed (Char i c) (bs, h, out) = (i < length bs)"

inductive reach :: "alloc_fun \<Rightarrow> alloc_fun \<Rightarrow> own_state \<Rightarrow> bool" for A R where
  r_start: "live h = Map.empty \<Longrightarrow> reach A R (map mk_string bs, h, [])"
| r_step: "reach A R s \<Longrightarrow> allowed c s \<Longrightarrow> own_step A R c s = Some s' \<Longrightarrow> reach A R s'"

fun destroy_all :: "Binary_string list \<Rightarrow> hstate \<Rightarrow> hstate option" where
  "destroy_all [] h = Some h"
| "destroy_all (b # bs) h = (case destroy_string (b, h) of None \<Rightarrow> None | Some (_, h) \<Rightarrow> destroy_all bs h)"

section \<open>The invariant\<close>

definition owned_inv :: "own_state \<Rightarrow> bool" where
  "owned_inv = (\<lambda>(bs, h, out). heap_is h (owners bs + mset out))"

lemma owners_update:
  assumes "i < length bs"
  shows "owners (bs[i := b]) = owned b + (owners bs - owned (bs ! i))" and "owned (bs ! i) \<subseteq># owners bs"
proof -
  have m: "mset bs = add_mset (bs ! i) (mset bs - {#bs ! i#})" using assms by simp
  then have "owners bs = owned (bs ! i) + sum_mset (image_mset owned (mset bs - {#bs ! i#}))"
    unfolding owners_def by (metis image_mset_add_mset sum_mset.insert)
  then show "owners (bs[i := b]) = owned b + (owners bs - owned (bs ! i))" "owned (bs ! i) \<subseteq># owners bs"
    using assms by (simp_all add: owners_def mset_update)
qed

lemma owners_split:
  assumes "i < length bs"
  obtains N where "owners bs = owned (bs ! i) + N" "\<And>b. owners (bs[i := b]) = owned b + N"
  using owners_update [OF assms] by (metis subset_mset.add_diff_inverse)

lemma owned_same [simp]:
  "owned (b\<lparr>str_length := n\<rparr>) = owned b" "owned (b\<lparr>Alloced_length := n\<rparr>) = owned b"
  "owned (b\<lparr>extra_alloc := n\<rparr>) = owned b" "owned (b\<lparr>thread_specific := t\<rparr>) = owned b"
  "owned (b\<lparr>alloced := False\<rparr>) = {#}"
  by (simp_all add: owned_def)

lemma heap_same [simp]: "heap_is (poke p v h) = heap_is h" "heap_is (h\<lparr>mem := m\<rparr>) = heap_is h"
  by (simp_all add: heap_is_def poke_def fun_eq_iff)

lemma free_buffer_owned:
  assumes "heap_is h (owned b + M)"
  shows "\<exists>h'. free_buffer (b, h) = Some (b\<lparr>alloced := False\<rparr>, h') \<and> heap_is h' M"
proof (cases "alloced b")
  case True
  then have m: "finite (dom (live h))" "mset_set (dom (live h)) = add_mset (Ptr b) M" "Ptr b \<noteq> 0" "0 \<notin># M"
    using assms by (auto simp: heap_is_def owned_def)
  then have "Ptr b \<in># mset_set (dom (live h))" by simp
  then have d: "Ptr b \<in> dom (live h)" using m(1) by simp
  moreover have "mset_set (dom (live h) - {Ptr b}) = M" using m d by (simp add: mset_set_Diff)
  ultimately show ?thesis using True m
    by (auto simp: free_buffer_def my_free_def heap_is_def)
next
  case False
  moreover from this have "b\<lparr>alloced := False\<rparr> = b" by (cases b) simp
  ultimately show ?thesis using assms by (simp add: free_buffer_def owned_def)
qed

text \<open>Replacing the buffer of a string that does not own the new one.\<close>

lemma unowned_update: "owned (b\<lparr>alloced := False, Ptr := p\<rparr>) = {#}" "\<not> alloced b \<Longrightarrow> owned b = {#}"
  by (simp_all add: owned_def)

lemma setters_owned:
  assumes "heap_is h (owned b + M)"
  shows "\<exists>b' h'. set_const p n (b, h) = Some (b', h') \<and> owned b' = {#} \<and> heap_is h' M"
    and "\<exists>b' h'. set_alloced p n k (b, h) = Some (b', h') \<and> owned b' = {#} \<and> Ptr b' = p \<and> heap_is h' M"
    and "\<exists>b' h'. set_sub s j n (b, h) = Some (b', h') \<and> owned b' = {#} \<and> heap_is h' M"
    and "\<exists>b' h'. bs_free (b, h) = Some (b', h') \<and> owned b' = {#} \<and> heap_is h' M"
proof -
  obtain h' where f: "free_buffer (b, h) = Some (b\<lparr>alloced := False\<rparr>, h')" "heap_is h' M"
    using free_buffer_owned [OF assms] by blast
  have o: "\<not> alloced c \<Longrightarrow> owned c = {#}" for c by (simp add: owned_def)
  show "\<exists>b' h'. set_const p n (b, h) = Some (b', h') \<and> owned b' = {#} \<and> heap_is h' M"
    "\<exists>b' h'. set_alloced p n k (b, h) = Some (b', h') \<and> owned b' = {#} \<and> Ptr b' = p \<and> heap_is h' M"
    "\<exists>b' h'. bs_free (b, h) = Some (b', h') \<and> owned b' = {#} \<and> heap_is h' M"
    using f by (simp_all add: set_const_def set_alloced_def bs_free_def o)
  show "\<exists>b' h'. set_sub s j n (b, h) = Some (b', h') \<and> owned b' = {#} \<and> heap_is h' M"
    using f by (cases "Alloced_length s = 0") (simp_all add: set_sub_def Let_def o)
qed

lemma on_string_inv:
  assumes inv: "owned_inv (bs, h, out)" and i: "i < length bs"
    and f: "\<And>M. heap_is h (owned (bs ! i) + M) \<Longrightarrow> \<exists>b' h'. f (bs ! i, h) = Some (b', h') \<and> heap_is h' (owned b' + M)"
  shows "\<exists>s'. on_string i f (bs, h, out) = Some s' \<and> owned_inv s'"
proof -
  obtain N where N: "owners bs = owned (bs ! i) + N" "\<And>b. owners (bs[i := b]) = owned b + N" using owners_split [OF i] by blast
  then obtain b' h' where "f (bs ! i, h) = Some (b', h')" "heap_is h' (owned b' + (N + mset out))"
    using f [of "N + mset out"] inv by (auto simp: owned_inv_def add.assoc)
  then show ?thesis using N(2) by (simp add: on_string_def owned_inv_def add.assoc)
qed

lemma alloc_ownsD: "alloc_owns R \<Longrightarrow> heap_is h (owned b + M) \<Longrightarrow> R n (b, h) = (failed, b', h') \<Longrightarrow> heap_is h' (owned b' + M)"
  by (fastforce simp: alloc_owns_def dest: spec [of _ n])

lemma bs_alloc_owned: "alloc_owns A \<Longrightarrow> heap_is h (owned b + M) \<Longrightarrow> bs_alloc A n (b, h) = (failed, b', h') \<Longrightarrow> heap_is h' (owned b' + M)"
  by (auto simp: bs_alloc_def split: if_splits dest: alloc_ownsD)

lemma bs_realloc_owned: "alloc_owns R \<Longrightarrow> heap_is h (owned b + M) \<Longrightarrow> bs_realloc R n (b, h) = (failed, b', h') \<Longrightarrow> heap_is h' (owned b' + M)"
  by (auto simp: bs_realloc_def Let_def split: if_splits prod.splits dest: alloc_ownsD)

lemma append_char_owned:
  assumes "alloc_owns R" and "heap_is h (owned b + M)" and "append_char R c (b, h) = (failed, b', h')"
  shows "heap_is h' (owned b' + M)"
proof -
  have q: "q_append_char c (b1, h1) = (b2, h2) \<Longrightarrow> heap_is h1 (owned b1 + M) \<Longrightarrow> heap_is h2 (owned b2 + M)" for b1 h1 b2 h2
    by (auto simp: q_append_char_def)
  have x: "heap_is h (owned (b\<lparr>extra_alloc := n\<rparr>) + M)" for n using assms(2) by simp
  have r: "realloc_with_extra R n (b, h) = (f, b1, h1) \<Longrightarrow> heap_is h1 (owned b1 + M)" for n f b1 h1
    using alloc_ownsD [OF assms(1,2)] alloc_ownsD [OF assms(1) x]
    by (auto simp: realloc_with_extra_def Let_def split: if_splits prod.splits)
  show ?thesis using assms(2,3) q r
    by (auto simp: append_char_def Let_def split: if_splits prod.splits)
qed

lemma moved_owned:
  assumes "heap_is h (owned b + M)"
  shows "\<exists>c' b' h'. bs_move c (b, h) = Some (c', b', h') \<and> owned c' = {#} \<and> owned b' = owned c \<and> heap_is h' M"
proof -
  obtain b1 h1 where f: "set_alloced (Ptr c) (ucast (str_length c)) (ucast (Alloced_length c)) (b, h) = Some (b1, h1)"
    "Ptr b1 = Ptr c" "heap_is h1 M"
    using setters_owned(2) [OF assms] by blast
  then show ?thesis by (simp add: bs_move_def Let_def) (simp add: owned_def)
qed

lemma two_owners:
  assumes "i < length bs" and "j < length bs" and "i \<noteq> j"
  obtains N where "owners bs = owned (bs ! i) + owned (bs ! j) + N" "\<And>b c. owners (bs[i := b, j := c]) = owned b + owned c + N"
proof -
  obtain N where N: "owners bs = owned (bs ! j) + N" "\<And>c. owners (bs[j := c]) = owned c + N"
    using owners_split [OF assms(2)] by blast
  have i: "i < length (bs[j := (bs ! j)\<lparr>alloced := False\<rparr>])" using assms by simp
  obtain K where K: "owners (bs[j := (bs ! j)\<lparr>alloced := False\<rparr>]) = owned (bs ! i) + K"
    "\<And>b. owners (bs[j := (bs ! j)\<lparr>alloced := False\<rparr>, i := b]) = owned b + K"
    using owners_split [OF i] assms(3) by (metis nth_list_update_neq)
  have "owners (bs[i := b, j := c]) = owned b + owned c + K" for b c
  proof -
    have j: "j < length (bs[i := b])" using assms by simp
    obtain J where J: "\<And>c. owners (bs[i := b, j := c]) = owned c + J" using owners_split [OF j] by blast
    have "owners (bs[i := b, j := (bs ! j)\<lparr>alloced := False\<rparr>]) = owned b + K"
      using K(2) [of b] assms(3) by (simp add: list_update_swap)
    then have "J = owned b + K" using J [of "(bs ! j)\<lparr>alloced := False\<rparr>"] by simp
    then show ?thesis using J [of c] by (simp add: ac_simps)
  qed
  from this [of "bs ! i" "bs ! j"] this show ?thesis by (intro that [of K]) simp_all
qed

lemma own_step_inv:
  assumes A: "alloc_owns A" and R: "alloc_owns R" and inv: "owned_inv s" and ok: "allowed c s"
  shows "\<exists>s'. own_step A R c s = Some s' \<and> owned_inv s'"
proof -
  obtain bs h out where s: "s = (bs, h, out)" by (cases s)
  note on = on_string_inv [OF inv [unfolded s]]
  show ?thesis
  proof (cases c)
    case (Set_const i p n)
    have "\<exists>b' h'. set_const p n (bs ! i, h) = Some (b', h') \<and> heap_is h' (owned b' + M)" if "heap_is h (owned (bs ! i) + M)" for M
      using setters_owned(1) [OF that, of p n] by auto
    then show ?thesis unfolding s using ok s Set_const on [of i "set_const p n"] by simp
  next
    case (Set_buffer i p n)
    have "\<exists>b' h'. set_buffer p n (bs ! i, h) = Some (b', h') \<and> heap_is h' (owned b' + M)" if "heap_is h (owned (bs ! i) + M)" for M
      using setters_owned(2) [OF that, of p n n] by (auto simp: set_buffer_def)
    then show ?thesis unfolding s using ok s Set_buffer on [of i "set_buffer p n"] by simp
  next
    case (Set_sub i j k n)
    have "\<exists>b' h'. set_sub (bs ! j) k n (bs ! i, h) = Some (b', h') \<and> heap_is h' (owned b' + M)"
      if "heap_is h (owned (bs ! i) + M)" for M
      using setters_owned(3) [OF that, of "bs ! j" k n] by auto
    then show ?thesis unfolding s using ok s Set_sub on [of i "set_sub (bs ! j) k n"] by simp
  next
    case (Assign i j)
    have "\<exists>b' h'. bs_assign (bs ! j) (bs ! i, h) = Some (b', h') \<and> heap_is h' (owned b' + M)"
      if "heap_is h (owned (bs ! i) + M)" for M
      using setters_owned(2) [OF that, of "Ptr (bs ! j)" "ucast (str_length (bs ! j))" "ucast (Alloced_length (bs ! j))"]
      by (auto simp: bs_assign_def)
    then show ?thesis unfolding s using ok inv s Assign on [of i "bs_assign (bs ! j)"] by simp
  next
    case (Move i j)
    then have ij: "i < length bs" "j < length bs" "i \<noteq> j" using ok s by simp_all
    obtain N where N: "owners bs = owned (bs ! i) + owned (bs ! j) + N"
      "\<And>b c. owners (bs[i := b, j := c]) = owned b + owned c + N" using two_owners [OF ij] by blast
    have "heap_is h (owned (bs ! i) + (owned (bs ! j) + N + mset out))"
      using inv N(1) s by (simp add: owned_inv_def ac_simps)
    from moved_owned [OF this, of "bs ! j"] obtain c' b' h' where m: "bs_move (bs ! j) (bs ! i, h) = Some (c', b', h')"
      "owned c' = {#}" "owned b' = owned (bs ! j)" "heap_is h' (owned (bs ! j) + N + mset out)" by blast
    have "owners (bs[i := b', j := c']) = owned (bs ! j) + N" by (simp only: N(2) m(2,3)) simp
    then have "owned_inv (bs[i := b', j := c'], h', out)" using m(4) by (simp add: owned_inv_def)
    moreover have "own_step A R c s = Some (bs[i := b', j := c'], h', out)" using m(1) by (simp add: Move s)
    ultimately show ?thesis by blast
  next
    case (Swap i j)
    then have ij: "i < length bs" "j < length bs" using ok s by simp_all
    have o: "owned (fst (bs_swap b c)) = owned c" "owned (snd (bs_swap b c)) = owned b" for b c
      by (simp_all add: bs_swap_def owned_def)
    show ?thesis
    proof (cases "i = j")
      case True
      have "snd (bs_swap b b) = b" for b by (cases b) (simp add: bs_swap_def)
      then show ?thesis unfolding s using Swap True inv s by (simp add: case_prod_beta)
    next
      case False
      obtain N where N: "owners bs = owned (bs ! i) + owned (bs ! j) + N"
        "\<And>b c. owners (bs[i := b, j := c]) = owned b + owned c + N" using two_owners [OF ij False] by blast
      let ?b = "fst (bs_swap (bs ! i) (bs ! j))" and ?c = "snd (bs_swap (bs ! i) (bs ! j))"
      have "owners (bs[i := ?b, j := ?c]) = owners bs" by (simp only: N o) (simp add: add.commute)
      then have "owned_inv (bs[i := ?b, j := ?c], h, out)" using inv s by (simp add: owned_inv_def)
      moreover have "own_step A R c s = Some (bs[i := ?b, j := ?c], h, out)" by (simp add: Swap s case_prod_beta)
      ultimately show ?thesis by blast
    qed
  next
    case (Release i)
    then have i: "i < length bs" using ok s by simp
    obtain N where N: "owners bs = owned (bs ! i) + N" "\<And>b. owners (bs[i := b]) = owned b + N"
      using owners_split [OF i] by blast
    have "owned (init_private_data (bs ! i)) = {#}" by (simp add: owned_def init_private_data_def)
    then show ?thesis unfolding s using Release inv s N
      by (auto simp: bs_release_def Let_def owned_inv_def owned_def split: if_splits)
  next
    case (Reset i p n k)
    then have i: "i < length bs" "p \<in> set out" using ok s by simp_all
    obtain N where N: "owners bs = owned (bs ! i) + N" "\<And>b. owners (bs[i := b]) = owned b + N"
      using owners_split [OF i(1)] by blast
    have h: "heap_is h (owned (bs ! i) + (N + mset out))" using inv s N(1) by (simp add: owned_inv_def ac_simps)
    obtain b1 h1 where f: "set_alloced p n k (bs ! i, h) = Some (b1, h1)" "Ptr b1 = p" "heap_is h1 (N + mset out)"
      using setters_owned(2) [OF h] by blast
    have p: "mset out = add_mset p (mset (remove1 p out))" "p \<noteq> 0"
      using i(2) f(3) by (auto simp: heap_is_def)
    have "owned (b1\<lparr>alloced := p \<noteq> 0\<rparr>) = {#p#}" using f(2) p(2) by (simp add: owned_def)
    then have "owners (bs[i := b1\<lparr>alloced := p \<noteq> 0\<rparr>]) + mset (remove1 p out) = N + mset out"
      by (simp only: N(2) p(1)) simp
    then have "owned_inv (bs[i := b1\<lparr>alloced := p \<noteq> 0\<rparr>], h1, remove1 p out)" using f(3) by (simp only: owned_inv_def prod.case)
    moreover have "own_step A R c s = Some (bs[i := b1\<lparr>alloced := p \<noteq> 0\<rparr>], h1, remove1 p out)"
      using f(1) by (simp add: Reset s on_string_def bs_reset_def)
    ultimately show ?thesis by blast
  next
    case (Free i)
    have "\<exists>b' h'. bs_free (bs ! i, h) = Some (b', h') \<and> heap_is h' (owned b' + M)" if "heap_is h (owned (bs ! i) + M)" for M
      using setters_owned(4) [OF that] by auto
    then show ?thesis unfolding s using ok s Free on [of i bs_free] by simp
  next
    case (If_not_allocated i p n)
    then have i: "i < length bs" using ok s by simp
    obtain N where N: "owners bs = owned (bs ! i) + N" "\<And>b. owners (bs[i := b]) = owned b + N"
      using owners_split [OF i] by blast
    have "owned (set_buffer_if_not_allocated p n (bs ! i)) = owned (bs ! i)"
      by (simp add: set_buffer_if_not_allocated_def owned_def)
    then show ?thesis unfolding s using If_not_allocated inv s N by (simp add: owned_inv_def)
  next
    case (Alloc i n)
    have "\<exists>b' h'. Some (snd (bs_alloc A n (bs ! i, h))) = Some (b', h') \<and> heap_is h' (owned b' + M)"
      if "heap_is h (owned (bs ! i) + M)" for M
      using bs_alloc_owned [OF A that] by (cases "bs_alloc A n (bs ! i, h)") auto
    then show ?thesis unfolding s using ok s Alloc on [of i "\<lambda>t. Some (snd (bs_alloc A n t))"] by simp
  next
    case (Realloc i n)
    have "\<exists>b' h'. Some (snd (bs_realloc R n (bs ! i, h))) = Some (b', h') \<and> heap_is h' (owned b' + M)"
      if "heap_is h (owned (bs ! i) + M)" for M
      using bs_realloc_owned [OF R that] by (cases "bs_realloc R n (bs ! i, h)") auto
    then show ?thesis unfolding s using ok s Realloc on [of i "\<lambda>t. Some (snd (bs_realloc R n t))"] by simp
  next
    case (Char i x)
    have "\<exists>b' h'. Some (snd (append_char R x (bs ! i, h))) = Some (b', h') \<and> heap_is h' (owned b' + M)"
      if "heap_is h (owned (bs ! i) + M)" for M
      using append_char_owned [OF R that] by (cases "append_char R x (bs ! i, h)") auto
    then show ?thesis unfolding s using ok s Char on [of i "\<lambda>t. Some (snd (append_char R x t))"] by simp
  qed
qed

lemma reach_inv:
  assumes "alloc_owns A" and "alloc_owns R"
  shows "reach A R s \<Longrightarrow> owned_inv s"
proof (induction rule: reach.induct)
  case (r_start h bs)
  have "owners (map mk_string bs) = {#}"
    by (induction bs) (simp_all add: owners_def mk_string_def init_private_data_def owned_def)
  then show ?case using r_start by (simp add: owned_inv_def heap_is_def)
next
  case (r_step s c s')
  then show ?case using own_step_inv [OF assms r_step.IH r_step.hyps(2)] by auto
qed

lemma destroy_all_owned: "heap_is h (owners bs + M) \<Longrightarrow> \<exists>h'. destroy_all bs h = Some h' \<and> heap_is h' M"
proof (induction bs arbitrary: h)
  case Nil
  then show ?case by (simp add: owners_def)
next
  case (Cons b bs)
  then have "heap_is h (owned b + (owners bs + M))" by (simp add: owners_def ac_simps)
  from setters_owned(4) [OF this] obtain b' h' where "bs_free (b, h) = Some (b', h')" "heap_is h' (owners bs + M)" by blast
  with Cons.IH show ?case by (simp add: destroy_string_def)
qed

section \<open>Properties\<close>

text \<open>
  C21. However buffers are allocated, moved, swapped, assigned, released and handed back among strings, no block
  is freed twice and none is lost: in every reachable state each allowed operation is defined, the blocks in
  use are exactly the pairwise different blocks that strings own and those handed out, and destroying the
  strings leaves only the latter.
\<close>

theorem strings_own_blocks:
  assumes "alloc_owns A" and "alloc_owns R" and "reach A R (bs, h, out)"
  shows "(allowed c (bs, h, out) \<longrightarrow> own_step A R c (bs, h, out) \<noteq> None)
    \<and> distinct out \<and> mset_set (dom (live h)) = owners bs + mset out
    \<and> (\<exists>h'. destroy_all bs h = Some h' \<and> dom (live h') = set out)"
proof -
  have inv: "owned_inv (bs, h, out)" by (rule reach_inv [OF assms])
  then have h: "heap_is h (owners bs + mset out)" by (simp add: owned_inv_def)
  obtain h' where h': "destroy_all bs h = Some h'" "heap_is h' (mset out)" using destroy_all_owned [OF h] by blast
  then have m: "mset_set (dom (live h')) = mset out" "finite (dom (live h'))" by (simp_all add: heap_is_def)
  then have "dom (live h') = set out" by (metis finite_set_mset_mset_set set_mset_mset)
  moreover from this have "distinct out" using m(2)
    by (simp add: distinct_count_atmost_1 m(1) [symmetric] count_mset_set')
  ultimately show ?thesis using own_step_inv [OF assms(1,2) inv, of c] h h'(1) by (auto simp: heap_is_def)
qed

definition example_alloc :: alloc_fun where
  "example_alloc n s =
     (case free_buffer s of None \<Rightarrow> (True, s)
      | Some (b, h) \<Rightarrow>
          if live h 4096 = None
          then (False, b\<lparr>Ptr := 4096, Alloced_length := ucast n, alloced := True\<rparr>, h\<lparr>live := (live h)(4096 \<mapsto> n)\<rparr>)
          else (True, b\<lparr>Ptr := 0, Alloced_length := 0\<rparr>, h))"

lemma example_alloc_owns: "alloc_owns example_alloc"
  unfolding alloc_owns_def
proof (intro allI impI)
  fix n b h M assume "heap_is h (owned b + M)"
  then obtain h1 where f: "free_buffer (b, h) = Some (b\<lparr>alloced := False\<rparr>, h1)" "heap_is h1 M" using free_buffer_owned by blast
  have "\<not> alloced c \<Longrightarrow> owned c = {#}" for c by (simp add: owned_def)
  moreover have "heap_is (h1\<lparr>live := (live h1)(4096 \<mapsto> n)\<rparr>) (add_mset 4096 M)" if "live h1 4096 = None"
    using f(2) that by (auto simp: heap_is_def domIff)
  ultimately show "case example_alloc n (b, h) of (failed, b', h') \<Rightarrow> heap_is h' (owned b' + M)"
    using f by (auto simp: example_alloc_def owned_def)
qed

definition example_empty :: Binary_string where
  "example_empty = \<lparr>Ptr = 0, str_length = 0, Alloced_length = 0, extra_alloc = 0, alloced = False, thread_specific = False\<rparr>"

definition example_state :: own_state where
  "example_state = the (own_step example_alloc example_alloc (Alloc 0 10)
     (map mk_string [example_empty, example_empty], \<lparr>mem = (\<lambda>a. 0), live = Map.empty\<rparr>, []))"

lemma owner_example_reach: "reach example_alloc example_alloc example_state"
proof -
  have 1: "reach example_alloc example_alloc (map mk_string [example_empty, example_empty], \<lparr>mem = (\<lambda>a. 0), live = Map.empty\<rparr>, [])"
    by (rule r_start) simp
  have 2: "own_step example_alloc example_alloc (Alloc 0 10)
     (map mk_string [example_empty, example_empty], \<lparr>mem = (\<lambda>a. 0), live = Map.empty\<rparr>, []) = Some example_state"
    by (simp add: example_state_def on_string_def)
  show ?thesis by (rule r_step [OF 1 _ 2]) simp
qed

lemma strings_own_blocks_witness:
  "own_step example_alloc example_alloc (Move 1 0) example_state \<noteq> None \<and> owned (fst example_state ! 0) = {#4096#}"
proof -
  obtain bs h out where s: "example_state = (bs, h, out)" by (cases example_state)
  have "allowed (Move 1 0) example_state \<and> owned (fst example_state ! 0) = {#4096#}"
    by (simp add: example_state_def on_string_def bs_alloc_def mk_string_def init_private_data_def example_empty_def
        example_alloc_def free_buffer_def owned_def)
  then show ?thesis
    using strings_own_blocks [OF example_alloc_owns example_alloc_owns owner_example_reach [unfolded s], of "Move 1 0"] s by simp
qed

end
