(* ===== verification/String_Text.thy ===== *)
theory String_Text
  imports Binary_String
begin

text \<open>
  The functions of class \<open>String\<close> in \<open>sql_string.h\<close> that compose text. Appending text with a conversion to the
  character set of the string is not in the repository; it is the parameter \<open>app\<close>, which takes the text and
  returns true on failure.
\<close>

type_synonym 's append_fun = "uchar list \<Rightarrow> 's \<Rightarrow> bool \<times> 's"

definition ascii :: "string \<Rightarrow> uchar list" where
  "ascii s = map (\<lambda>c. of_nat (of_char c)) s"

section \<open>Definitions\<close>

text \<open>The appends of a sequence, up to the first that fails, as \<open>||\<close> does.\<close>

fun append_all :: "'s append_fun \<Rightarrow> uchar list list \<Rightarrow> 's \<Rightarrow> bool \<times> 's" where
  "append_all app [] s = (False, s)"
| "append_all app (t # ts) s = (let (failed, s) = app t s in if failed then (True, s) else append_all app ts s)"

definition append_name_value :: "'s append_fun \<Rightarrow> uchar list \<Rightarrow> uchar list \<Rightarrow> uchar \<Rightarrow> 's \<Rightarrow> bool \<times> 's" where
  "append_name_value app name val quot s =
     append_all app ([name, ascii ''=''] @ (if quot \<noteq> 0 then [[quot]] else []) @ [val] @ (if quot \<noteq> 0 then [[quot]] else [])) s"

definition append_introducer_and_hex ::
    "'s append_fun \<Rightarrow> ('s \<Rightarrow> bool \<times> 's) \<Rightarrow> uchar list \<Rightarrow> 's \<Rightarrow> bool \<times> 's" where
  "append_introducer_and_hex app append_hex_digits cs_name s =
     (let (failed, s) = append_all app [ascii ''_'', cs_name, ascii '' 0x''] s
      in if failed then (True, s) else append_hex_digits s)"

text \<open>
  The digits of the number are a parameter. The static array has 14 zeros and the end mark; more of it than that
  is not defined.
\<close>

definition append_zerofill :: "'s append_fun \<Rightarrow> (uint \<Rightarrow> uchar list) \<Rightarrow> uint \<Rightarrow> uint \<Rightarrow> 's \<Rightarrow> (bool \<times> 's) option" where
  "append_zerofill app int10_to_str num width s =
     (let intbuff = int10_to_str num; len = of_nat (length intbuff) :: uint; zeros = ascii ''00000000000000'' @ [0]
      in if len < width then
           if length zeros < unat (width - len) then None
           else let (failed, s) = app (take (unat (width - len)) zeros) s
                in Some (if failed then (True, s) else app intbuff s)
         else Some (app intbuff s))"

fun flag_loop :: "'s append_fun \<Rightarrow> uint32 \<Rightarrow> uchar list list \<Rightarrow> nat \<Rightarrow> bool \<Rightarrow> 's \<Rightarrow> bool \<times> 's" where
  "flag_loop app flags names 0 added s = (False, s)"
| "flag_loop app flags names (Suc k) added s =
     (if flags AND push_bit k 1 \<noteq> 0 then
        let (failed, s) = (if added then app (ascii ''|'') s else (False, s))
        in if failed then (True, s)
           else let (failed, s) = app (if k < length names then names ! k else ascii ''?'') s
                in if failed then (True, s) else flag_loop app flags names k True s
      else flag_loop app flags names k added s)"

definition append_flag32_names :: "'s append_fun \<Rightarrow> uint32 \<Rightarrow> uchar list list \<Rightarrow> 's \<Rightarrow> bool \<times> 's" where
  "append_flag32_names app flags names s =
     (let (failed, s) = (if flags \<noteq> 0 then app (ascii ''('') s else (False, s))
      in if failed then (True, s)
         else let (failed, s) = flag_loop app flags names 32 False s
              in if failed then (True, s) else if flags \<noteq> 0 then app (ascii '')'') s else (False, s))"

definition escaped_wc_for_single_quote :: "ulong \<Rightarrow> ulong" where
  "escaped_wc_for_single_quote ch =
     (if ch = 0x5C then 0x5C else if ch = 0 then 0x30 else if ch = 0x27 then 0x27 else if ch = 0x0A then 0x6E
      else if ch = 0x0D then 0x72 else if ch = 0x1A then 0x5A else 0)"

section \<open>Flags\<close>

text \<open>What is printed: the names of the bits set, from the highest to the lowest.\<close>

definition flag_name :: "uchar list list \<Rightarrow> nat \<Rightarrow> uchar list" where
  "flag_name names k = (if k < length names then names ! k else ascii ''?'')"

definition set_bits_down :: "uint32 \<Rightarrow> nat \<Rightarrow> nat list" where
  "set_bits_down flags n = filter (bit flags) (rev [0..<n])"

fun joined :: "uchar list list \<Rightarrow> uchar list" where
  "joined [] = []"
| "joined [x] = x"
| "joined (x # y # xs) = x @ ascii ''|'' @ joined (y # xs)"

text \<open>An append that works: it has the text of the state grow.\<close>

definition appends_text :: "'s append_fun \<Rightarrow> ('s \<Rightarrow> uchar list) \<Rightarrow> bool" where
  "appends_text app txt \<longleftrightarrow> (\<forall>t s. \<not> fst (app t s) \<and> txt (snd (app t s)) = txt s @ t)"

lemma appends_textD:
  assumes "appends_text app txt"
  shows "\<exists>s'. app t s = (False, s') \<and> txt s' = txt s @ t"
proof -
  have "\<not> fst (app t s) \<and> txt (snd (app t s)) = txt s @ t" using assms by (simp add: appends_text_def)
  then show ?thesis by (cases "app t s") simp
qed

lemma set_bits_down_Suc: "set_bits_down flags (Suc k) = (if bit flags k then k # set_bits_down flags k else set_bits_down flags k)"
  by (simp add: set_bits_down_def)

lemma joined_Cons: "xs \<noteq> [] \<Longrightarrow> joined (x # xs) = x @ ascii ''|'' @ joined xs"
  by (cases xs) simp_all

lemma flag_loop_text:
  assumes app: "appends_text app txt"
  shows "k \<le> 32 \<Longrightarrow> \<exists>s'. flag_loop app flags names k added s = (False, s')
    \<and> txt s' = txt s @ (let ns = map (flag_name names) (set_bits_down flags k)
                        in if added \<and> ns \<noteq> [] then ascii ''|'' @ joined ns else joined ns)"
proof (induction k arbitrary: added s)
  case 0
  then show ?case by (simp add: set_bits_down_def)
next
  case (Suc k)
  have b: "flags AND 2 ^ k = 0 \<longleftrightarrow> \<not> bit flags k" by (rule and_exp_eq_0_iff_not_bit)
  show ?case
  proof (cases "bit flags k")
    case False
    then show ?thesis using Suc by (simp add: b set_bits_down_Suc)
  next
    case True
    obtain s1 where s1: "(if added then app (ascii ''|'') s else (False, s)) = (False, s1)"
      "txt s1 = txt s @ (if added then ascii ''|'' else [])"
      using appends_textD [OF app] by (cases added) auto
    obtain s2 where s2: "app (flag_name names k) s1 = (False, s2)" "txt s2 = txt s1 @ flag_name names k"
      using appends_textD [OF app] by blast
    obtain s3 where s3: "flag_loop app flags names k True s2 = (False, s3)"
      "txt s3 = txt s2 @ (let ns = map (flag_name names) (set_bits_down flags k)
         in if ns \<noteq> [] then ascii ''|'' @ joined ns else joined ns)"
      using Suc.IH [of True s2] Suc.prems by auto
    show ?thesis using True s1 s2 s3
      by (auto simp: b set_bits_down_Suc flag_name_def [symmetric] Let_def joined_Cons)
  qed
qed

section \<open>Properties\<close>

text \<open>
  When the appends succeed, a mask of flags is rendered as the names of its bits from the highest to the
  lowest, separated by bars in parentheses, with a question mark for a bit that has no name, and an empty mask
  as nothing.
\<close>

theorem flags_rendered:
  assumes "appends_text app txt"
  shows "\<exists>s'. append_flag32_names app flags names s = (False, s')
    \<and> txt s' = txt s @ (if flags = 0 then []
        else ascii ''('' @ joined (map (flag_name names) (set_bits_down flags 32)) @ ascii '')'')"
proof -
  obtain s1 where s1: "(if flags \<noteq> 0 then app (ascii ''('') s else (False, s)) = (False, s1)"
    "txt s1 = txt s @ (if flags \<noteq> 0 then ascii ''('' else [])"
    using appends_textD [OF assms] by (cases "flags = 0") auto
  obtain s2 where s2: "flag_loop app flags names 32 False s1 = (False, s2)"
    "txt s2 = txt s1 @ joined (map (flag_name names) (set_bits_down flags 32))"
    using flag_loop_text [OF assms, of 32 flags names False s1] by (auto simp: Let_def)
  obtain s3 where s3: "(if flags \<noteq> 0 then app (ascii '')'') s2 else (False, s2)) = (False, s3)"
    "txt s3 = txt s2 @ (if flags \<noteq> 0 then ascii '')'' else [])"
    using appends_textD [OF assms] by (cases "flags = 0") auto
  have "set_bits_down 0 32 = []" by (simp add: set_bits_down_def)
  then show ?thesis using s1 s2 s3
    by (cases "flags = 0") (auto simp: append_flag32_names_def Let_def)
qed

lemma flags_rendered_witness:
  "snd (append_flag32_names (\<lambda>t s. (False, s @ t)) 5 [ascii ''flag01'', ascii ''flag02'', ascii ''flag04''] [])
     = ascii ''(flag04|flag01)''"
proof -
  have a: "appends_text (\<lambda>t s. (False, s @ t)) (\<lambda>s. s)" by (simp add: appends_text_def)
  have "set_bits_down 5 32 = [2, 0]" by code_simp
  then show ?thesis
    using flags_rendered [OF a, of 5 "[ascii ''flag01'', ascii ''flag02'', ascii ''flag04'']" "[]"]
    by (auto simp: flag_name_def ascii_def)
qed

end
