(* ===== verification/Thread_Cache.thy ===== *)
theory Thread_Cache
  imports Prelude
begin

text \<open>
  The cache of idle threads (\<open>thread_cache.h\<close>) with its mutex and its two condition variables. A thread is a
  program counter; what it does between taking and releasing (or waiting on) the mutex is one function on the
  cache, and everything else, the acquisitions, the signals sent after the mutex is released, time-outs, spurious
  wake-ups and the unprotected increment of \<open>final_flush\<close>, is a step of its own.
\<close>

section \<open>The cache\<close>

type_synonym CONNECT = nat

record Thread_cache =
  conn_list :: "CONNECT list"  \<comment> \<open>\<open>I_List<CONNECT> list\<close>\<close>
  cached_thread_count :: ulong
  kill_cached_threads :: uint32

text \<open>The places where a thread takes the mutex, and where it stands.\<close>

datatype entry =
    Park_start
  | Park_wake bool  \<comment> \<open>back from \<open>mysql_cond_timedwait\<close>; the argument says whether it timed out\<close>
  | Enqueue_start CONNECT
  | Flush_start
  | Flush_wake
  | Size_start

datatype pc =
    Idle
  | Lock entry
  | Hold entry
  | Wait_thread  \<comment> \<open>waits on \<open>COND_thread_cache\<close>\<close>
  | Wait_flush  \<comment> \<open>waits on \<open>COND_flush_thread_cache\<close>\<close>
  | Signal_thread
  | Signal_flush
  | Final_load
  | Final_store uint32

datatype outcome = Quiet | Broadcast | Took CONNECT | Accepted CONNECT

section \<open>Operations\<close>

definition tc_init :: Thread_cache where
  "tc_init = \<lparr>conn_list = [], cached_thread_count = 0, kill_cached_threads = 0\<rparr>"

definition destroy_asserts :: "Thread_cache \<Rightarrow> bool" where
  "destroy_asserts s \<longleftrightarrow> cached_thread_count s = 0 \<and> conn_list s = []"

text \<open>\<open>while (cached_thread_count)\<close>, then the end of \<open>flush\<close>.\<close>

definition flush_loop :: "Thread_cache \<Rightarrow> Thread_cache \<times> pc \<times> outcome" where
  "flush_loop s =
     (if cached_thread_count s \<noteq> 0 then (s, Wait_flush, Broadcast)
      else (s\<lparr>kill_cached_threads := kill_cached_threads s - 1\<rparr>, Idle, Quiet))"

definition flush_start :: "Thread_cache \<Rightarrow> Thread_cache \<times> pc \<times> outcome" where
  "flush_start s = flush_loop (s\<lparr>kill_cached_threads := kill_cached_threads s + 1\<rparr>)"

definition tc_enqueue :: "CONNECT \<Rightarrow> Thread_cache \<Rightarrow> Thread_cache \<times> pc \<times> outcome" where
  "tc_enqueue c s =
     (if cached_thread_count s \<noteq> 0
      then (s\<lparr>conn_list := conn_list s @ [c], cached_thread_count := cached_thread_count s - 1\<rparr>, Signal_thread, Accepted c)
      else (s, Idle, Quiet))"

definition park_start :: "ulong \<Rightarrow> Thread_cache \<Rightarrow> Thread_cache \<times> pc \<times> outcome" where
  "park_start thread_cache_size s =
     (case conn_list s of
        c # cs \<Rightarrow> (s\<lparr>conn_list := cs, cached_thread_count := cached_thread_count s + 1\<rparr>, Idle, Took c)
      | [] \<Rightarrow>
          if cached_thread_count s < thread_cache_size \<and> kill_cached_threads s = 0
          then (s\<lparr>cached_thread_count := cached_thread_count s + 1\<rparr>, Wait_thread, Quiet)
          else (s, Idle, Quiet))"

definition park_wake :: "bool \<Rightarrow> Thread_cache \<Rightarrow> Thread_cache \<times> pc \<times> outcome" where
  "park_wake error s =
     (let flushed = kill_cached_threads s \<noteq> 0; leave = (if flushed then Signal_flush else Idle) in
      case conn_list s of
        c # cs \<Rightarrow> (s\<lparr>conn_list := cs\<rparr>, leave, Took c)
      | [] \<Rightarrow>
          if flushed \<or> error then (s\<lparr>cached_thread_count := cached_thread_count s - 1\<rparr>, leave, Quiet)
          else (s, Wait_thread, Quiet))"

definition tc_size :: "Thread_cache \<Rightarrow> ulong" where
  "tc_size s = cached_thread_count s"

fun run_entry :: "ulong \<Rightarrow> entry \<Rightarrow> Thread_cache \<Rightarrow> Thread_cache \<times> pc \<times> outcome" where
  "run_entry thread_cache_size Park_start s = park_start thread_cache_size s"
| "run_entry thread_cache_size (Park_wake error) s = park_wake error s"
| "run_entry thread_cache_size (Enqueue_start c) s = tc_enqueue c s"
| "run_entry thread_cache_size Flush_start s = flush_start s"
| "run_entry thread_cache_size Flush_wake s = flush_loop s"
| "run_entry thread_cache_size Size_start s = (s, Idle, Quiet)"

section \<open>Threads\<close>

text \<open>The last two fields record which connections \<open>enqueue\<close> has accepted and \<open>park\<close> has returned.\<close>

record world =
  cache :: Thread_cache
  thread_cache_size :: ulong
  owner :: "nat option"
  pcs :: "pc list"
  accepted :: "CONNECT list"
  served :: "CONNECT list"

datatype event =
    Call nat entry
  | Call_final nat
  | Acquire nat
  | Run nat
  | Signal nat "nat option"  \<comment> \<open>who is woken, if anybody waits\<close>
  | Load nat
  | Store nat
  | Timeout nat
  | Spurious nat
  | Resize ulong

fun is_call :: "entry \<Rightarrow> bool" where
  "is_call (Park_wake e) = False"
| "is_call Flush_wake = False"
| "is_call e = True"

fun wake :: "pc \<Rightarrow> pc" where
  "wake Wait_thread = Lock (Park_wake False)"
| "wake p = p"

definition goto :: "nat \<Rightarrow> pc \<Rightarrow> world \<Rightarrow> world" where
  "goto i p w = w\<lparr>pcs := (pcs w)[i := p]\<rparr>"

text \<open>A signal wakes one waiting thread, and is lost when no thread waits.\<close>

definition signal :: "pc \<Rightarrow> entry \<Rightarrow> nat option \<Rightarrow> world \<Rightarrow> world option" where
  "signal p e j w =
     (case j of
        None \<Rightarrow> if p \<in> set (pcs w) then None else Some w
      | Some k \<Rightarrow> if k < length (pcs w) \<and> pcs w ! k = p then Some (goto k (Lock e) w) else None)"

definition run_section :: "nat \<Rightarrow> entry \<Rightarrow> world \<Rightarrow> world" where
  "run_section i e w =
     (case run_entry (thread_cache_size w) e (cache w) of (s, p, n) \<Rightarrow>
        w\<lparr>cache := s, owner := None, pcs := (if n = Broadcast then map wake (pcs w) else pcs w)[i := p],
          accepted := (case n of Accepted c \<Rightarrow> accepted w @ [c] | _ \<Rightarrow> accepted w),
          served := (case n of Took c \<Rightarrow> served w @ [c] | _ \<Rightarrow> served w)\<rparr>)"

fun fire :: "event \<Rightarrow> world \<Rightarrow> world option" where
  "fire (Call i e) w = (if i < length (pcs w) \<and> pcs w ! i = Idle \<and> is_call e then Some (goto i (Lock e) w) else None)"
| "fire (Call_final i) w = (if i < length (pcs w) \<and> pcs w ! i = Idle then Some (goto i Final_load w) else None)"
| "fire (Acquire i) w =
     (if i < length (pcs w) \<and> owner w = None
      then case pcs w ! i of Lock e \<Rightarrow> Some (goto i (Hold e) (w\<lparr>owner := Some i\<rparr>)) | _ \<Rightarrow> None
      else None)"
| "fire (Run i) w =
     (if i < length (pcs w) then case pcs w ! i of Hold e \<Rightarrow> Some (run_section i e w) | _ \<Rightarrow> None else None)"
| "fire (Signal i j) w =
     (if i < length (pcs w)
      then case pcs w ! i of
             Signal_thread \<Rightarrow> signal Wait_thread (Park_wake False) j (goto i Idle w)
           | Signal_flush \<Rightarrow> signal Wait_flush Flush_wake j (goto i Idle w)
           | _ \<Rightarrow> None
      else None)"
| "fire (Load i) w =
     (if i < length (pcs w) \<and> pcs w ! i = Final_load
      then Some (goto i (Final_store (kill_cached_threads (cache w))) w) else None)"
| "fire (Store i) w =
     (if i < length (pcs w)
      then case pcs w ! i of
             Final_store v \<Rightarrow> Some (goto i (Lock Flush_start) (w\<lparr>cache := (cache w)\<lparr>kill_cached_threads := v + 1\<rparr>\<rparr>))
           | _ \<Rightarrow> None
      else None)"
| "fire (Timeout i) w =
     (if i < length (pcs w) \<and> pcs w ! i = Wait_thread then Some (goto i (Lock (Park_wake True)) w) else None)"
| "fire (Spurious i) w =
     (if i < length (pcs w)
      then case pcs w ! i of
             Wait_thread \<Rightarrow> Some (goto i (Lock (Park_wake False)) w)
           | Wait_flush \<Rightarrow> Some (goto i (Lock Flush_wake) w)
           | _ \<Rightarrow> None
      else None)"
| "fire (Resize n) w = Some (w\<lparr>thread_cache_size := n\<rparr>)"

fun fires :: "event list \<Rightarrow> world \<Rightarrow> world option" where
  "fires [] w = Some w"
| "fires (e # es) w = (case fire e w of None \<Rightarrow> None | Some w \<Rightarrow> fires es w)"

definition start :: "nat \<Rightarrow> ulong \<Rightarrow> world" where
  "start n sz = \<lparr>cache = tc_init, thread_cache_size = sz, owner = None, pcs = replicate n Idle, accepted = [], served = []\<rparr>"

text \<open>The runs whose every event satisfies a condition on the state before it.\<close>

inductive reach :: "(world \<Rightarrow> event \<Rightarrow> bool) \<Rightarrow> world \<Rightarrow> world \<Rightarrow> bool" for ok w0 where
  reach_start: "reach ok w0 w0"
| reach_step: "reach ok w0 w \<Longrightarrow> ok w e \<Longrightarrow> fire e w = Some w' \<Longrightarrow> reach ok w0 w'"

section \<open>Counting threads\<close>

definition num :: "(pc \<Rightarrow> bool) \<Rightarrow> pc list \<Rightarrow> nat" where
  "num P ps = length (filter P ps)"

lemma num_update: "i < length ps \<Longrightarrow> num P (ps[i := p]) + of_bool (P (ps ! i)) = num P ps + of_bool (P p)"
proof (induction ps arbitrary: i)
  case (Cons q ps)
  then show ?case by (cases i) (auto simp: num_def)
qed simp

lemma num_wake: "num P (map wake ps) = num (P \<circ> wake) ps"
  by (simp add: num_def filter_map)

lemma num_le: "num P ps \<le> length ps"
  by (simp add: num_def)

lemma num_mono: "(\<And>p. P p \<Longrightarrow> Q p) \<Longrightarrow> num P ps \<le> num Q ps"
  by (induction ps) (auto simp: num_def)

lemma num_0: "num P ps = 0 \<longleftrightarrow> (\<forall>p\<in>set ps. \<not> P p)"
  by (auto simp: num_def filter_empty_conv)

lemma num_pos: "i < length ps \<Longrightarrow> P (ps ! i) \<Longrightarrow> 0 < num P ps"
  using num_0 [of P ps] by (metis neq0_conv nth_mem)

lemma num_pos_iff: "0 < num P ps \<longleftrightarrow> (\<exists>i<length ps. P (ps ! i))"
  using num_0 [of P ps] by (metis in_set_conv_nth neq0_conv)

lemma num_or: "(\<And>p. \<not> (P p \<and> Q p)) \<Longrightarrow> num (\<lambda>p. P p \<or> Q p) ps = num P ps + num Q ps"
  by (induction ps) (auto simp: num_def)

section \<open>The invariant\<close>

text \<open>Threads on their way out of the first condition variable, and threads between the two ends of \<open>flush\<close>.\<close>

fun woken :: "pc \<Rightarrow> bool" where
  "woken (Lock (Park_wake e)) = True"
| "woken (Hold (Park_wake e)) = True"
| "woken p = False"

fun in_flush :: "pc \<Rightarrow> bool" where
  "in_flush Wait_flush = True"
| "in_flush (Lock Flush_wake) = True"
| "in_flush (Hold Flush_wake) = True"
| "in_flush p = False"

fun holds :: "pc \<Rightarrow> bool" where
  "holds (Hold e) = True"
| "holds p = False"

fun blocked :: "pc \<Rightarrow> bool" where
  "blocked Wait_thread = True"
| "blocked p = False"

fun signalling :: "pc \<Rightarrow> bool" where
  "signalling Signal_thread = True"
| "signalling p = False"

text \<open>
  The parameter is the number of increments of \<open>kill_cached_threads\<close> that are never undone: none, or the one of
  \<open>final_flush\<close>.
\<close>

definition mutex_inv :: "world \<Rightarrow> bool" where
  "mutex_inv w \<longleftrightarrow> (\<forall>i<length (pcs w). holds (pcs w ! i) \<longleftrightarrow> owner w = Some i) \<and>
     (\<forall>i. owner w = Some i \<longrightarrow> i < length (pcs w))"

definition count_inv :: "nat \<Rightarrow> world \<Rightarrow> bool" where
  "count_inv k w \<longleftrightarrow> k + length (pcs w) < 2 ^ 32 \<and>
     unat (cached_thread_count (cache w)) + length (conn_list (cache w)) = num blocked (pcs w) + num woken (pcs w) \<and>
     length (conn_list (cache w)) \<le> num woken (pcs w) + num signalling (pcs w) \<and>
     accepted w = served w @ conn_list (cache w) \<and>
     unat (kill_cached_threads (cache w)) = k + num in_flush (pcs w) \<and>
     (0 < num in_flush (pcs w) \<longrightarrow> num blocked (pcs w) = 0)"

lemma num_wake_simps [simp]:
  "num blocked (map wake ps) = 0" "num woken (map wake ps) = num woken ps + num blocked ps"
  "num signalling (map wake ps) = num signalling ps" "num in_flush (map wake ps) = num in_flush ps"
proof -
  have e: "blocked (wake p) = False" "woken (wake p) = (woken p \<or> blocked p)" "signalling (wake p) = signalling p"
    "in_flush (wake p) = in_flush p" for p by (cases p; simp)+
  have "\<not> (woken p \<and> blocked p)" for p by (cases p) auto
  then show "num blocked (map wake ps) = 0" "num woken (map wake ps) = num woken ps + num blocked ps"
    "num signalling (map wake ps) = num signalling ps" "num in_flush (map wake ps) = num in_flush ps"
    using num_or [of woken blocked ps] by (auto simp: num_wake comp_def e num_0)
qed

lemma wake_id: "\<not> blocked p \<Longrightarrow> wake p = p"
  by (cases p) auto

lemma holds_wake [simp]: "holds (wake p) = holds p"
  by (cases p) auto

lemma parked_le: "num blocked ps + num woken ps \<le> length ps"
proof -
  have "\<not> (blocked p \<and> woken p)" for p by (cases p) auto
  then show ?thesis using num_or [of blocked woken ps] num_le [of "\<lambda>p. blocked p \<or> woken p" ps] by simp
qed

text \<open>A thread moves: every count changes by the two program counters.\<close>

lemma counts_update:
  assumes "i < length ps" and "ps ! i = q"
  shows "num blocked (ps[i := p]) + of_bool (blocked q) = num blocked ps + of_bool (blocked p) \<and>
    num woken (ps[i := p]) + of_bool (woken q) = num woken ps + of_bool (woken p) \<and>
    num signalling (ps[i := p]) + of_bool (signalling q) = num signalling ps + of_bool (signalling p) \<and>
    num in_flush (ps[i := p]) + of_bool (in_flush q) = num in_flush ps + of_bool (in_flush p)"
  using num_update [OF assms(1)] unfolding assms(2) by blast

lemma mutex_goto:
  assumes "mutex_inv w" and "i < length (pcs w)" and "holds p = holds (pcs w ! i)"
  shows "mutex_inv (goto i p w)"
  using assms by (auto simp: mutex_inv_def goto_def nth_list_update)

lemma run_entry_released: "run_entry sz e s = (s', p, n) \<Longrightarrow> \<not> holds p"
  by (cases e) (auto simp: park_start_def park_wake_def tc_enqueue_def flush_start_def flush_loop_def Let_def
      split: if_splits list.splits)

lemma mutex_run:
  assumes "mutex_inv w" and "i < length (pcs w)" and "holds (pcs w ! i)"
  shows "mutex_inv (run_section i e w)"
proof -
  obtain s p n where r: "run_entry (thread_cache_size w) e (cache w) = (s, p, n)" by (metis prod_cases3)
  have "\<not> holds (pcs w ! j)" if "j < length (pcs w)" "j \<noteq> i" for j
    using assms that by (auto simp: mutex_inv_def)
  then show ?thesis
    using run_entry_released [OF r] assms(2) r
    by (auto simp: mutex_inv_def run_section_def nth_list_update)
qed

lemma mutex_signal:
  assumes "mutex_inv w" and "signal p e j w = Some w'" and "\<not> holds p"
  shows "mutex_inv w'"
  using assms by (auto simp: signal_def mutex_goto split: option.splits if_splits)

lemma fire_acquire:
  "fire (Acquire i) w = Some w' \<longleftrightarrow> (\<exists>e. i < length (pcs w) \<and> owner w = None \<and> pcs w ! i = Lock e \<and>
     w' = goto i (Hold e) (w\<lparr>owner := Some i\<rparr>))"
  by (cases "pcs w ! i") auto

lemma fire_run:
  "fire (Run i) w = Some w' \<longleftrightarrow> (\<exists>e. i < length (pcs w) \<and> pcs w ! i = Hold e \<and> w' = run_section i e w)"
  by (cases "pcs w ! i") auto

lemma fire_signal:
  "fire (Signal i j) w = Some w' \<longleftrightarrow> i < length (pcs w) \<and>
     (pcs w ! i = Signal_thread \<and> signal Wait_thread (Park_wake False) j (goto i Idle w) = Some w' \<or>
      pcs w ! i = Signal_flush \<and> signal Wait_flush Flush_wake j (goto i Idle w) = Some w')"
  by (cases "pcs w ! i") auto

lemma fire_store:
  "fire (Store i) w = Some w' \<longleftrightarrow> (\<exists>v. i < length (pcs w) \<and> pcs w ! i = Final_store v \<and>
     w' = goto i (Lock Flush_start) (w\<lparr>cache := (cache w)\<lparr>kill_cached_threads := v + 1\<rparr>\<rparr>))"
  by (cases "pcs w ! i") auto

lemma fire_spurious:
  "fire (Spurious i) w = Some w' \<longleftrightarrow> i < length (pcs w) \<and>
     (pcs w ! i = Wait_thread \<and> w' = goto i (Lock (Park_wake False)) w \<or>
      pcs w ! i = Wait_flush \<and> w' = goto i (Lock Flush_wake) w)"
  by (cases "pcs w ! i") auto

lemma fire_simple:
  "fire (Call i c) w = Some w' \<longleftrightarrow> i < length (pcs w) \<and> pcs w ! i = Idle \<and> is_call c \<and> w' = goto i (Lock c) w"
  "fire (Call_final i) w = Some w' \<longleftrightarrow> i < length (pcs w) \<and> pcs w ! i = Idle \<and> w' = goto i Final_load w"
  "fire (Load i) w = Some w' \<longleftrightarrow> i < length (pcs w) \<and> pcs w ! i = Final_load \<and>
     w' = goto i (Final_store (kill_cached_threads (cache w))) w"
  "fire (Timeout i) w = Some w' \<longleftrightarrow> i < length (pcs w) \<and> pcs w ! i = Wait_thread \<and>
     w' = goto i (Lock (Park_wake True)) w"
  "fire (Resize n) w = Some w' \<longleftrightarrow> w' = w\<lparr>thread_cache_size := n\<rparr>"
  by auto

lemma signal_iff:
  "signal p e j w = Some w' \<longleftrightarrow> j = None \<and> p \<notin> set (pcs w) \<and> w' = w \<or>
     (\<exists>k. j = Some k \<and> k < length (pcs w) \<and> pcs w ! k = p \<and> w' = goto k (Lock e) w)"
  by (auto simp: signal_def split: option.splits)

lemmas fire_iff = fire_acquire fire_run fire_signal fire_store fire_spurious fire_simple

lemma mutex_fire:
  assumes "mutex_inv w" and "fire e w = Some w'"
  shows "mutex_inv w'"
proof (cases e)
  case (Acquire i)
  then show ?thesis using assms unfolding Acquire fire_iff
    by (auto simp: mutex_inv_def goto_def nth_list_update split: if_splits)
next
  case (Run i)
  then show ?thesis using assms mutex_run unfolding Run fire_iff by fastforce
next
  case (Signal i j)
  then show ?thesis using assms mutex_goto [of w i Idle] mutex_signal [of "goto i Idle w"] unfolding Signal fire_iff
    by fastforce
next
  case (Store i)
  then show ?thesis using assms unfolding Store fire_iff
    by (fastforce simp: mutex_inv_def goto_def nth_list_update split: if_splits)
next
  case (Resize n)
  then show ?thesis using assms by (auto simp: mutex_inv_def)
qed (use assms mutex_goto in \<open>auto simp: fire_iff simp del: fire.simps\<close>)

lemma count_goto:
  assumes "count_inv k w" and "i < length (pcs w)" and "\<not> blocked p" and "in_flush p = in_flush (pcs w ! i)"
    and "woken p = (blocked (pcs w ! i) \<or> woken (pcs w ! i))" and "signalling p = signalling (pcs w ! i)"
  shows "count_inv k (goto i p w)"
proof -
  have x: "\<not> (blocked q \<and> woken q)" for q by (cases q) auto
  show ?thesis
    using assms counts_update [OF assms(2) refl, of p] x [of "pcs w ! i"]
    by (cases "blocked (pcs w ! i)"; cases "woken (pcs w ! i)") (auto simp: count_inv_def goto_def)
qed

text \<open>A signal to the first condition variable.\<close>

lemma count_signal_thread:
  assumes "count_inv k w" and "i < length (pcs w)" and "pcs w ! i = Signal_thread"
    and "signal Wait_thread (Park_wake False) j (goto i Idle w) = Some w'"
  shows "count_inv k w'"
proof (cases j)
  case None
  then have n: "num blocked (pcs w') = 0" "w' = goto i Idle w"
    using assms(4) by (auto simp: signal_iff num_0 elim!: blocked.elims(2))
  then show ?thesis using assms(1) counts_update [OF assms(2,3), of Idle]
    by (auto simp: count_inv_def goto_def)
next
  case (Some l)
  then have l: "l < length (pcs w)" "pcs w ! l = Wait_thread" "l \<noteq> i"
    "w' = goto l (Lock (Park_wake False)) (goto i Idle w)"
    using assms by (auto simp: signal_iff goto_def nth_list_update split: if_splits)
  have 1: "l < length ((pcs w)[i := Idle])" "(pcs w)[i := Idle] ! l = Wait_thread" using l by auto
  show ?thesis
    using assms(1) counts_update [OF assms(2,3), of Idle] counts_update [OF 1, of "Lock (Park_wake False)"] l(4)
    by (simp add: count_inv_def goto_def)
qed

lemma count_signal_flush:
  assumes "count_inv k w" and "i < length (pcs w)" and "pcs w ! i = Signal_flush"
    and "signal Wait_flush Flush_wake j (goto i Idle w) = Some w'"
  shows "count_inv k w'"
proof -
  have g: "count_inv k (goto i Idle w)" using assms by (intro count_goto) auto
  show ?thesis using assms(4) g by (auto simp: signal_iff intro!: count_goto)
qed

section \<open>Sections preserve the counts\<close>

lemma unat_plus_1: "unat v + 1 < 2 ^ LENGTH('a) \<Longrightarrow> unat (v + 1) = unat v + 1" for v :: "'a::len word"
  by (simp add: unat_word_ariths)

lemma unat_minus_1: "0 < unat v \<Longrightarrow> unat (v - 1) = unat v - 1" for v :: "'a::len word"
  by (subst unat_minus_one) auto

lemma count_park_start:
  assumes inv: "count_inv k w" and i: "i < length (pcs w)" "pcs w ! i = Hold Park_start"
  shows "count_inv k (run_section i Park_start w)"
proof -
  note c = counts_update [OF i] and p = inv [unfolded count_inv_def]
  have plus: "unat (cached_thread_count (cache w) + 1) = unat (cached_thread_count (cache w)) + 1"
    using p c [of Wait_thread] parked_le [of "(pcs w)[i := Wait_thread]"] unat_plus_1 [of "cached_thread_count (cache w)"] by simp
  show ?thesis
    using p c [of Idle] c [of Wait_thread] plus
    by (auto simp: count_inv_def run_section_def park_start_def split: list.splits)
qed

lemma count_park_wake:
  assumes inv: "count_inv k w" and i: "i < length (pcs w)" "pcs w ! i = Hold (Park_wake b)"
  shows "count_inv k (run_section i (Park_wake b) w)"
proof -
  note c = counts_update [OF i] and p = inv [unfolded count_inv_def]
  have "0 < num woken (pcs w)" using i by (auto intro: num_pos)
  then have minus: "conn_list (cache w) = [] \<Longrightarrow>
      unat (cached_thread_count (cache w) - 1) = unat (cached_thread_count (cache w)) - 1"
    using p unat_minus_1 [of "cached_thread_count (cache w)"] by simp
  show ?thesis
    using p c [of Idle] c [of Wait_thread] c [of Signal_flush] minus \<open>0 < num woken (pcs w)\<close>
    by (auto simp: count_inv_def run_section_def park_wake_def Let_def split: list.splits)
qed

lemma count_enqueue:
  assumes inv: "count_inv k w" and i: "i < length (pcs w)" "pcs w ! i = Hold (Enqueue_start c)"
  shows "count_inv k (run_section i (Enqueue_start c) w)"
proof -
  note c = counts_update [OF i] and p = inv [unfolded count_inv_def]
  have minus: "cached_thread_count (cache w) \<noteq> 0 \<Longrightarrow>
      0 < unat (cached_thread_count (cache w)) \<and>
      unat (cached_thread_count (cache w) - 1) = unat (cached_thread_count (cache w)) - 1"
    using unat_minus_1 [of "cached_thread_count (cache w)"] by (simp add: unat_gt_0)
  show ?thesis
    using p c [of Idle] c [of Signal_thread] minus
    by (auto simp: count_inv_def run_section_def tc_enqueue_def)
qed

lemma count_flush_start:
  assumes inv: "count_inv k w" and i: "i < length (pcs w)" "pcs w ! i = Hold Flush_start"
  shows "count_inv k (run_section i Flush_start w)"
proof -
  have w: "i < length (map wake (pcs w))" "map wake (pcs w) ! i = Hold Flush_start" using i by simp_all
  note p = inv [unfolded count_inv_def]
  have "num in_flush (pcs w) < length (pcs w)"
    using num_update [OF i(1), of in_flush Wait_flush] num_le [of in_flush "(pcs w)[i := Wait_flush]"] i by simp
  then have plus: "unat (kill_cached_threads (cache w) + 1) = unat (kill_cached_threads (cache w)) + 1"
    using p unat_plus_1 [of "kill_cached_threads (cache w)"] by simp
  show ?thesis
    using p counts_update [OF i, of Idle] counts_update [OF w, of Wait_flush] plus
    by (auto simp: count_inv_def run_section_def flush_start_def flush_loop_def)
qed

lemma count_flush_wake:
  assumes inv: "count_inv k w" and i: "i < length (pcs w)" "pcs w ! i = Hold Flush_wake"
  shows "count_inv k (run_section i Flush_wake w)"
proof -
  have w: "i < length (map wake (pcs w))" "map wake (pcs w) ! i = Hold Flush_wake" using i by simp_all
  note p = inv [unfolded count_inv_def]
  have "0 < num in_flush (pcs w)" using i by (auto intro: num_pos)
  then have minus: "unat (kill_cached_threads (cache w) - 1) = unat (kill_cached_threads (cache w)) - 1"
    using p unat_minus_1 [of "kill_cached_threads (cache w)"] by simp
  show ?thesis
    using p counts_update [OF i, of Idle] counts_update [OF w, of Wait_flush] minus \<open>0 < num in_flush (pcs w)\<close>
    by (auto simp: count_inv_def run_section_def flush_loop_def)
qed

lemma count_run:
  assumes "count_inv k w" and "i < length (pcs w)" and "pcs w ! i = Hold e"
  shows "count_inv k (run_section i e w)"
proof (cases e)
  case Size_start
  then show ?thesis
    using assms counts_update [OF assms(2,3), of Idle] by (auto simp: count_inv_def run_section_def)
qed (use assms count_park_start count_park_wake count_enqueue count_flush_start count_flush_wake in auto)

lemma count_owner [simp]: "count_inv k (w\<lparr>owner := x\<rparr>) = count_inv k w"
  by (simp add: count_inv_def)

lemma entry_kinds:
  "is_call c \<Longrightarrow> \<not> woken (Lock c)" "is_call c \<Longrightarrow> \<not> in_flush (Lock c)" "woken (Hold c) = woken (Lock c)"
  "in_flush (Hold c) = in_flush (Lock c)"
  by (cases c; simp)+

lemma count_fire:
  assumes inv: "count_inv k w" and f: "fire e w = Some w'" and "\<forall>i. e \<noteq> Store i"
  shows "count_inv k w'"
proof (cases e)
  case (Call i c)
  show ?thesis using f entry_kinds unfolding Call fire_iff by (auto intro!: count_goto [OF inv])
next
  case (Call_final i)
  show ?thesis using f unfolding Call_final fire_iff by (auto intro!: count_goto [OF inv])
next
  case (Acquire i)
  obtain c where c: "i < length (pcs w)" "pcs w ! i = Lock c" "w' = goto i (Hold c) (w\<lparr>owner := Some i\<rparr>)"
    using f unfolding Acquire fire_iff by blast
  show ?thesis unfolding c(3) by (rule count_goto) (use inv c entry_kinds in auto)
next
  case (Run i)
  then obtain c where c: "i < length (pcs w)" "pcs w ! i = Hold c" "w' = run_section i c w"
    using f unfolding Run fire_iff by blast
  show ?thesis unfolding c(3) by (rule count_run [OF inv c(1,2)])
next
  case (Signal i j)
  show ?thesis using f count_signal_thread [OF inv, of i j w'] count_signal_flush [OF inv, of i j w']
    unfolding Signal fire_iff by blast
next
  case (Load i)
  show ?thesis using f unfolding Load fire_iff by (auto intro!: count_goto [OF inv])
next
  case (Timeout i)
  show ?thesis using f unfolding Timeout fire_iff by (auto intro!: count_goto [OF inv])
next
  case (Spurious i)
  show ?thesis using f unfolding Spurious fire_iff by (auto intro!: count_goto [OF inv])
next
  case (Resize n)
  then show ?thesis using assms by (auto simp: count_inv_def)
qed (use assms in auto)

section \<open>Runs\<close>

definition tc_inv :: "nat \<Rightarrow> world \<Rightarrow> bool" where
  "tc_inv k w \<longleftrightarrow> mutex_inv w \<and> count_inv k w"

definition no_final :: "world \<Rightarrow> event \<Rightarrow> bool" where
  "no_final w e \<longleftrightarrow> (\<forall>i. e \<noteq> Store i)"

lemma start_inv: "n < 2 ^ 32 \<Longrightarrow> tc_inv 0 (start n sz)"
  by (simp add: tc_inv_def mutex_inv_def count_inv_def start_def tc_init_def num_def)

lemma tc_reach_inv:
  assumes "reach ok w0 w" and "tc_inv k w0" and "\<And>w e. ok w e \<Longrightarrow> no_final w e"
  shows "tc_inv k w"
  using assms(1)
proof induction
  case (reach_step w e w')
  then show ?case using mutex_fire [of w e w'] count_fire [of k w e w'] assms(3)
    by (simp add: tc_inv_def no_final_def)
qed (rule assms(2))

lemma length_pcs [simp]: "length (pcs (goto i p w)) = length (pcs w)" "length (pcs (run_section i c w)) = length (pcs w)"
  by (simp_all add: goto_def run_section_def split: prod.splits)

lemma fire_length: "fire e w = Some w' \<Longrightarrow> length (pcs w') = length (pcs w)"
  by (cases e) (auto simp: fire_iff signal_iff simp del: fire.simps)

end
