(* ===== verification/Thread_Cache_Live.thy ===== *)
theory Thread_Cache_Live
  imports Thread_Cache
begin

text \<open>
  What the thread cache promises: connections are served in order and never lost, a flush returns when it is the
  only one, and the two ways in which concurrent flushes go wrong.
\<close>

section \<open>One flush at a time\<close>

fun flushing :: "pc \<Rightarrow> bool" where
  "flushing (Lock Flush_start) = True"
| "flushing (Hold Flush_start) = True"
| "flushing p = in_flush p"

fun flush_blocked :: "pc \<Rightarrow> bool" where
  "flush_blocked Wait_flush = True"
| "flush_blocked p = False"

fun reporting :: "pc \<Rightarrow> bool" where
  "reporting Signal_flush = True"
| "reporting p = False"

text \<open>A flush is only called while no thread flushes.\<close>

definition one_flush :: "world \<Rightarrow> event \<Rightarrow> bool" where
  "one_flush w e \<longleftrightarrow> (\<forall>i. e \<noteq> Store i) \<and>
     ((\<exists>i. e = Call i Flush_start) \<longrightarrow> num flushing (pcs w) = 0)"

definition flush_inv :: "world \<Rightarrow> bool" where
  "flush_inv w \<longleftrightarrow> num flushing (pcs w) \<le> 1 \<and>
     (0 < num flush_blocked (pcs w) \<longrightarrow> 0 < num woken (pcs w) + num reporting (pcs w))"

lemma flush_updates:
  assumes "i < length ps" and "ps ! i = q"
  shows "num flushing (ps[i := p]) + of_bool (flushing q) = num flushing ps + of_bool (flushing p) \<and>
    num flush_blocked (ps[i := p]) + of_bool (flush_blocked q) = num flush_blocked ps + of_bool (flush_blocked p) \<and>
    num woken (ps[i := p]) + of_bool (woken q) = num woken ps + of_bool (woken p) \<and>
    num reporting (ps[i := p]) + of_bool (reporting q) = num reporting ps + of_bool (reporting p)"
  using num_update [OF assms(1)] unfolding assms(2) by blast

lemma flush_le: "num flush_blocked ps \<le> num in_flush ps" "num in_flush ps \<le> num flushing ps"
proof -
  show "num flush_blocked ps \<le> num in_flush ps" by (rule num_mono) (auto elim: flush_blocked.elims)
  have "flushing p" if "in_flush p" for p using that by (cases p rule: in_flush.cases) auto
  then show "num in_flush ps \<le> num flushing ps" by (rule num_mono)
qed

lemma flush_goto:
  assumes "flush_inv w" and "i < length (pcs w)" and "flushing p = flushing (pcs w ! i)"
    and "woken (pcs w ! i) \<Longrightarrow> woken p" and "\<not> reporting (pcs w ! i)" and "\<not> flush_blocked p"
  shows "flush_inv (goto i p w)"
  using assms flush_updates [OF assms(2) refl, of p]
  by (cases "woken (pcs w ! i)"; cases "flushing p") (auto simp: flush_inv_def goto_def)

lemma flush_wake_counts [simp]:
  "num flushing (map wake ps) = num flushing ps" "num flush_blocked (map wake ps) = num flush_blocked ps"
  "num reporting (map wake ps) = num reporting ps"
proof -
  have "flushing (wake p) = flushing p" "flush_blocked (wake p) = flush_blocked p" "reporting (wake p) = reporting p" for p
    by (cases p; simp)+
  then show "num flushing (map wake ps) = num flushing ps" "num flush_blocked (map wake ps) = num flush_blocked ps"
    "num reporting (map wake ps) = num reporting ps" by (simp_all add: num_wake comp_def)
qed

lemma flush_loop_inv:
  assumes inv: "count_inv k (run_section i c w)" and fl: "flush_inv w" and i: "i < length (pcs w)" "pcs w ! i = Hold c"
    and c: "c = Flush_start \<or> c = Flush_wake"
  shows "flush_inv (run_section i c w)"
proof (cases "cached_thread_count (cache w) = 0")
  case True
  then show ?thesis using fl flush_updates [OF i, of Idle] flush_le [of "pcs w"] c
    by (auto simp: flush_inv_def run_section_def flush_start_def flush_loop_def)
next
  case False
  have w: "i < length (map wake (pcs w))" "map wake (pcs w) ! i = Hold c" using i by simp_all
  let ?ps = "(map wake (pcs w))[i := Wait_flush]"
  have ps: "pcs (run_section i c w) = ?ps"
    "cached_thread_count (cache (run_section i c w)) = cached_thread_count (cache w)"
    using c False by (auto simp: run_section_def flush_start_def flush_loop_def)
  have "0 < num in_flush ?ps" using w by (intro num_pos [of i]) auto
  then have "unat (cached_thread_count (cache w)) \<le> num woken ?ps"
    using inv unfolding count_inv_def ps by simp
  then have "0 < num woken ?ps" using False unat_gt_0 [of "cached_thread_count (cache w)"] by linarith
  moreover have "num flushing ?ps \<le> 1" using flush_updates [OF w, of Wait_flush] fl c by (auto simp: flush_inv_def)
  ultimately show ?thesis by (simp add: flush_inv_def ps)
qed

lemma flush_park_wake:
  assumes inv: "count_inv k w" and fl: "flush_inv w" and i: "i < length (pcs w)" "pcs w ! i = Hold (Park_wake b)"
  shows "flush_inv (run_section i (Park_wake b) w)"
proof (cases "kill_cached_threads (cache w) = 0")
  case True
  then have "num flush_blocked (pcs w) = 0" using inv flush_le [of "pcs w"] by (auto simp: count_inv_def)
  then show ?thesis using fl True flush_updates [OF i, of Idle] flush_updates [OF i, of Wait_thread]
    by (auto simp: flush_inv_def run_section_def park_wake_def split: list.splits)
next
  case False
  then show ?thesis using fl flush_updates [OF i, of Signal_flush]
    by (auto simp: flush_inv_def run_section_def park_wake_def split: list.splits)
qed

lemma flush_run:
  assumes inv: "count_inv k w" and fl: "flush_inv w" and i: "i < length (pcs w)" "pcs w ! i = Hold c"
  shows "flush_inv (run_section i c w)"
proof (cases c)
  case Park_start
  then show ?thesis using fl flush_updates [OF i, of Idle] flush_updates [OF i, of Wait_thread]
    by (auto simp: flush_inv_def run_section_def park_start_def split: list.splits)
next
  case (Park_wake b)
  then show ?thesis using flush_park_wake [OF inv fl] i by simp
next
  case (Enqueue_start x)
  then show ?thesis using fl flush_updates [OF i, of Idle] flush_updates [OF i, of Signal_thread]
    by (auto simp: flush_inv_def run_section_def tc_enqueue_def)
next
  case Size_start
  then show ?thesis using fl flush_updates [OF i, of Idle] by (auto simp: flush_inv_def run_section_def)
qed (use flush_loop_inv [OF count_run [OF inv i] fl i] in auto)

lemma flush_signal_flush:
  assumes fl: "flush_inv w" and i: "i < length (pcs w)" "pcs w ! i = Signal_flush"
    and s: "signal Wait_flush Flush_wake j (goto i Idle w) = Some w'"
  shows "flush_inv w'"
proof (cases j)
  case None
  then have n: "num flush_blocked (pcs w') = 0" "w' = goto i Idle w"
    using s by (auto simp: signal_iff num_0 elim!: flush_blocked.elims(2))
  then show ?thesis using fl flush_updates [OF i, of Idle] by (auto simp: flush_inv_def goto_def)
next
  case (Some l)
  then have l: "l < length (pcs w)" "pcs w ! l = Wait_flush" "l \<noteq> i" "w' = goto l (Lock Flush_wake) (goto i Idle w)"
    using s i by (auto simp: signal_iff goto_def nth_list_update split: if_splits)
  have 1: "l < length ((pcs w)[i := Idle])" "(pcs w)[i := Idle] ! l = Wait_flush" using l by auto
  have "num flush_blocked (pcs w) \<le> 1" using fl flush_le [of "pcs w"] by (auto simp: flush_inv_def)
  then show ?thesis
    using fl flush_updates [OF i, of Idle] flush_updates [OF 1, of "Lock Flush_wake"] l(4)
    by (simp add: flush_inv_def goto_def)
qed

lemma entry_flushing: "flushing (Hold c) = flushing (Lock c)" "is_call c \<Longrightarrow> flushing (Lock c) = (c = Flush_start)"
  by (cases c; simp)+

lemma flush_fire:
  assumes inv: "count_inv k w" and fl: "flush_inv w" and f: "fire e w = Some w'" and one: "one_flush w e"
  shows "flush_inv w'"
proof (cases e)
  case (Call i c)
  then have c: "i < length (pcs w)" "pcs w ! i = Idle" "is_call c" "w' = goto i (Lock c) w"
    using f by (auto split: if_splits)
  show ?thesis using fl one c entry_kinds(1,2) [OF c(3)] entry_flushing(2) [OF c(3)] flush_updates [OF c(1,2), of "Lock c"] Call
    by (cases "c = Flush_start") (auto simp: flush_inv_def goto_def one_flush_def)
next
  case (Call_final i)
  show ?thesis using f unfolding Call_final fire_iff by (auto intro!: flush_goto [OF fl])
next
  case (Acquire i)
  obtain c where c: "i < length (pcs w)" "pcs w ! i = Lock c" "w' = goto i (Hold c) (w\<lparr>owner := Some i\<rparr>)"
    using f unfolding Acquire fire_iff by blast
  have "flush_inv (w\<lparr>owner := Some i\<rparr>)" using fl by (simp add: flush_inv_def)
  then show ?thesis unfolding c(3) by (rule flush_goto) (use c entry_kinds entry_flushing in auto)
next
  case (Run i)
  then obtain c where c: "i < length (pcs w)" "pcs w ! i = Hold c" "w' = run_section i c w"
    using f unfolding Run fire_iff by blast
  show ?thesis unfolding c(3) by (rule flush_run [OF inv fl c(1,2)])
next
  case (Signal i j)
  have "flush_inv w'" if i: "i < length (pcs w)" "pcs w ! i = Signal_thread"
    and s: "signal Wait_thread (Park_wake False) j (goto i Idle w) = Some w'"
  proof -
    have g: "flush_inv (goto i Idle w)" by (rule flush_goto [OF fl]) (use i in auto)
    show ?thesis using s by (auto simp: signal_iff intro!: g flush_goto [OF g])
  qed
  then show ?thesis using f flush_signal_flush [OF fl, of i j w'] unfolding Signal fire_iff by blast
next
  case (Load i)
  show ?thesis using f unfolding Load fire_iff by (auto intro!: flush_goto [OF fl])
next
  case (Store i)
  then show ?thesis using one by (simp add: one_flush_def)
next
  case (Timeout i)
  show ?thesis using f unfolding Timeout fire_iff by (auto intro!: flush_goto [OF fl])
next
  case (Spurious i)
  show ?thesis using f unfolding Spurious fire_iff by (auto intro!: flush_goto [OF fl])
next
  case (Resize n)
  then show ?thesis using f fl by (auto simp: flush_inv_def)
qed

lemma reach_flush_inv:
  assumes "reach one_flush w0 w" and "tc_inv k w0" and "flush_inv w0"
  shows "tc_inv k w \<and> flush_inv w"
  using assms(1)
proof induction
  case (reach_step w e w')
  then show ?case
    using mutex_fire [of w e w'] count_fire [of k w e w'] flush_fire [of k w e w']
    by (simp add: tc_inv_def one_flush_def)
qed (use assms in simp)

section \<open>The work left\<close>

text \<open>What threads do by themselves, without new calls, time-outs or spurious wake-ups.\<close>

fun internal :: "event \<Rightarrow> bool" where
  "internal (Acquire i) = True"
| "internal (Run i) = True"
| "internal (Signal i j) = True"
| "internal e = False"

fun weight :: "nat \<Rightarrow> pc \<Rightarrow> nat" where
  "weight n (Lock (Park_wake b)) = 9"
| "weight n (Hold (Park_wake b)) = 8"
| "weight n (Lock Flush_wake) = 3"
| "weight n (Hold Flush_wake) = 2"
| "weight n (Lock Flush_start) = 2 * n + 5"
| "weight n (Hold Flush_start) = 2 * n + 4"
| "weight n (Lock e) = 9"
| "weight n (Hold e) = 8"
| "weight n Wait_thread = 7"
| "weight n Wait_flush = 1"
| "weight n Signal_thread = 4"
| "weight n Signal_flush = 5"
| "weight n p = 0"

definition work :: "world \<Rightarrow> nat" where
  "work w = sum_list (map (weight (length (pcs w))) (pcs w))"

lemma weight_update:
  "i < length ps \<Longrightarrow> sum_list (map f (ps[i := p])) + f (ps ! i) = sum_list (map f ps) + (f p :: nat)"
proof (induction ps arbitrary: i)
  case (Cons q ps)
  then show ?case by (cases i) auto
qed simp

lemma work_goto: "i < length (pcs w) \<Longrightarrow> work (goto i p w) + weight (length (pcs w)) (pcs w ! i) = work w + weight (length (pcs w)) p"
  using weight_update [of i "pcs w" "weight (length (pcs w))" p] by (simp add: work_def goto_def)

lemma weight_wake: "sum_list (map (weight n) (map wake ps)) = sum_list (map (weight n) ps) + 2 * num blocked ps"
proof (induction ps)
  case (Cons p ps)
  then show ?case by (cases p) (auto simp: num_def)
qed (simp add: num_def)

lemma weight_acquire: "weight n (Hold c) < weight n (Lock c)"
  by (cases c) auto

lemma run_entry_weight:
  assumes "run_entry sz c s = (s', p, n)"
  shows "n \<noteq> Broadcast \<and> weight m p < weight m (Hold c) \<or>
    n = Broadcast \<and> p = Wait_flush \<and> (c = Flush_start \<or> c = Flush_wake)"
proof (cases c)
  case Park_start
  then show ?thesis using assms by (auto simp: park_start_def split: if_splits list.splits)
next
  case (Park_wake b)
  then show ?thesis using assms by (auto simp: park_wake_def Let_def split: if_splits list.splits)
qed (use assms in \<open>auto simp: tc_enqueue_def flush_start_def flush_loop_def split: if_splits\<close>)

lemma work_run:
  assumes inv: "count_inv k w" and i: "i < length (pcs w)" "pcs w ! i = Hold c"
  shows "work (run_section i c w) < work w"
proof -
  let ?f = "weight (length (pcs w))"
  obtain s p n where r: "run_entry (thread_cache_size w) c (cache w) = (s, p, n)" by (metis prod_cases3)
  have w: "i < length (map wake (pcs w))" "map wake (pcs w) ! i = Hold c" using i by simp_all
  have none: "num blocked (pcs w) = 0" if "c = Flush_wake"
    using inv num_pos [OF i(1), of in_flush] i(2) that by (simp add: count_inv_def)
  from run_entry_weight [OF r, of "length (pcs w)"] show ?thesis
  proof
    assume n: "n \<noteq> Broadcast \<and> ?f p < ?f (Hold c)"
    then have "work (run_section i c w) = sum_list (map ?f ((pcs w)[i := p]))" by (simp add: work_def run_section_def r)
    then show ?thesis using n weight_update [OF i(1), of ?f p] by (simp add: work_def i(2))
  next
    assume n: "n = Broadcast \<and> p = Wait_flush \<and> (c = Flush_start \<or> c = Flush_wake)"
    then have e: "work (run_section i c w) = sum_list (map ?f ((map wake (pcs w))[i := Wait_flush]))"
      by (simp add: work_def run_section_def r)
    have "sum_list (map ?f ((map wake (pcs w))[i := Wait_flush])) + ?f (Hold c) = work w + 2 * num blocked (pcs w) + 1"
      using weight_update [OF w(1), of ?f Wait_flush] weight_wake [of "length (pcs w)" "pcs w"]
      by (simp only: w(2) work_def weight.simps)
    then show ?thesis using n none num_le [of blocked "pcs w"] unfolding e by auto
  qed
qed

lemma work_internal:
  assumes inv: "count_inv k w" and f: "fire e w = Some w'" and e: "internal e"
  shows "work w' < work w"
proof (cases e)
  case (Acquire i)
  obtain c where c: "i < length (pcs w)" "pcs w ! i = Lock c" "w' = goto i (Hold c) (w\<lparr>owner := Some i\<rparr>)"
    using f unfolding Acquire fire_iff by blast
  then have "work w' = work (goto i (Hold c) w)" by (simp add: work_def goto_def)
  then show ?thesis
    using work_goto [OF c(1), of "Hold c"] weight_acquire [of "length (pcs w)" c] by (simp add: c(2))
next
  case (Run i)
  then obtain c where c: "i < length (pcs w)" "pcs w ! i = Hold c" "w' = run_section i c w"
    using f unfolding Run fire_iff by blast
  show ?thesis unfolding c(3) by (rule work_run [OF inv c(1,2)])
next
  case (Signal i j)
  have "work w' < work w" if i: "i < length (pcs w)" "pcs w ! i = q" and q: "4 \<le> weight (length (pcs w)) q"
    and b: "weight (length (pcs w)) (Lock b) \<le> weight (length (pcs w)) v + 2" and s: "signal v b j (goto i Idle w) = Some w'" for q v b
  proof -
    have g: "work (goto i Idle w) + weight (length (pcs w)) q = work w" using work_goto [OF i(1), of Idle] i(2) by simp
    show ?thesis
    proof (cases j)
      case None
      then show ?thesis using s g q by (auto simp: signal_iff)
    next
      case (Some l)
      then have l: "l < length (pcs (goto i Idle w))" "pcs (goto i Idle w) ! l = v" "w' = goto l (Lock b) (goto i Idle w)"
        using s by (auto simp: signal_iff)
      then show ?thesis using work_goto [OF l(1), of "Lock b"] g q b by simp
    qed
  qed
  note m = this
  have "i < length (pcs w) \<and>
     (pcs w ! i = Signal_thread \<and> signal Wait_thread (Park_wake False) j (goto i Idle w) = Some w' \<or>
      pcs w ! i = Signal_flush \<and> signal Wait_flush Flush_wake j (goto i Idle w) = Some w')"
    using f unfolding Signal fire_iff .
  then show ?thesis using m [of Signal_thread "Park_wake False" Wait_thread] m [of Signal_flush Flush_wake Wait_flush]
    by auto
qed (use e in simp_all)

lemma internal_final: "internal e \<Longrightarrow> no_final w e" "internal e \<Longrightarrow> one_flush w e"
  by (cases e; simp add: no_final_def one_flush_def)+

lemma work_fires:
  assumes "tc_inv k w" and "fires es w = Some w'" and "list_all internal es"
  shows "length es + work w' \<le> work w \<and> tc_inv k w' \<and> (flush_inv w \<longrightarrow> flush_inv w')"
  using assms
proof (induction es arbitrary: w)
  case (Cons e es)
  then obtain u where u: "fire e w = Some u" "fires es u = Some w'" by (auto split: option.splits)
  have "tc_inv k u" "flush_inv w \<longrightarrow> flush_inv u" "work u < work w"
    using Cons.prems u(1) mutex_fire [OF _ u(1)] count_fire [OF _ u(1)] flush_fire [OF _ _ u(1)] work_internal [OF _ u(1)]
      internal_final [of e w] by (auto simp: tc_inv_def no_final_def)
  then show ?case using Cons.IH [OF _ u(2)] Cons.prems(3) by auto
qed simp

section \<open>Quiet states\<close>

definition quiet :: "world \<Rightarrow> bool" where
  "quiet w \<longleftrightarrow> (\<forall>e. internal e \<longrightarrow> fire e w = None)"

fun stopped :: "pc \<Rightarrow> bool" where
  "stopped (Lock e) = False"
| "stopped (Hold e) = False"
| "stopped Signal_thread = False"
| "stopped Signal_flush = False"
| "stopped p = True"

lemma signal_possible: "\<exists>j. signal p e j w \<noteq> None"
proof (cases "p \<in> set (pcs w)")
  case True
  then obtain k where "k < length (pcs w)" "pcs w ! k = p" by (auto simp: in_set_conv_nth)
  then have "signal p e (Some k) w \<noteq> None" by (simp add: signal_def)
  then show ?thesis by blast
next
  case False
  then have "signal p e None w \<noteq> None" by (simp add: signal_def)
  then show ?thesis by blast
qed

lemma quiet_iff:
  assumes "mutex_inv w"
  shows "quiet w \<longleftrightarrow> (\<forall>p\<in>set (pcs w). stopped p)"
proof
  assume q: "quiet w"
  have hold: "\<not> holds (pcs w ! i)" if "i < length (pcs w)" for i
    using q [unfolded quiet_def, rule_format, of "Run i"] that by (cases "pcs w ! i") auto
  then have "owner w = None" using assms by (cases "owner w") (auto simp: mutex_inv_def)
  have "stopped (pcs w ! i)" if i: "i < length (pcs w)" for i
  proof (rule ccontr)
    assume "\<not> stopped (pcs w ! i)"
    then consider c where "pcs w ! i = Lock c" | "pcs w ! i = Signal_thread" | "pcs w ! i = Signal_flush"
      using hold [OF i] by (cases "pcs w ! i") auto
    then show False
    proof cases
      case 1
      then show False using q [unfolded quiet_def, rule_format, of "Acquire i"] i \<open>owner w = None\<close> by simp
    next
      case 2
      obtain j where "signal Wait_thread (Park_wake False) j (goto i Idle w) \<noteq> None" using signal_possible by blast
      then have "fire (Signal i j) w \<noteq> None" using 2 i by simp
      then show False using q unfolding quiet_def by (metis internal.simps(3))
    next
      case 3
      obtain j where "signal Wait_flush Flush_wake j (goto i Idle w) \<noteq> None" using signal_possible by blast
      then have "fire (Signal i j) w \<noteq> None" using 3 i by simp
      then show False using q unfolding quiet_def by (metis internal.simps(3))
    qed
  qed
  then show "\<forall>p\<in>set (pcs w). stopped p" by (auto simp: in_set_conv_nth)
next
  assume s: "\<forall>p\<in>set (pcs w). stopped p"
  have s': "stopped (pcs w ! i)" if "i < length (pcs w)" for i using s that by simp
  have "fire e w = None" if "internal e" for e
  proof (cases e)
    case (Acquire i)
    then show ?thesis using s' [of i] by (cases "pcs w ! i") auto
  next
    case (Run i)
    then show ?thesis using s' [of i] by (cases "pcs w ! i") auto
  next
    case (Signal i j)
    then show ?thesis using s' [of i] by (cases "pcs w ! i") auto
  qed (use that in simp_all)
  then show "quiet w" by (simp add: quiet_def)
qed

lemma quiet_reachable: "tc_inv k w \<Longrightarrow> \<exists>es w'. list_all internal es \<and> fires es w = Some w' \<and> quiet w'"
proof (induction "work w" arbitrary: w rule: less_induct)
  case less
  show ?case
  proof (cases "quiet w")
    case True
    then show ?thesis by (intro exI [of _ "[]"] exI [of _ w]) simp
  next
    case False
    then obtain e u where e: "internal e" "fire e w = Some u" by (auto simp: quiet_def)
    have "tc_inv k u" using work_fires [OF less.prems, of "[e]" u] e by simp
    then obtain es w' where "list_all internal es" "fires es u = Some w'" "quiet w'"
      using less.hyps [of u] work_internal [OF _ e(2,1)] less.prems by (auto simp: tc_inv_def)
    then show ?thesis using e by (intro exI [of _ "e # es"] exI [of _ w']) simp
  qed
qed

lemma stopped_kinds: "stopped p \<Longrightarrow> \<not> woken p \<and> \<not> signalling p \<and> \<not> reporting p"
  by (cases p) auto

lemma quiet_counts:
  assumes inv: "tc_inv k w" and q: "quiet w"
  shows "conn_list (cache w) = []" and "num woken (pcs w) = 0" and "num reporting (pcs w) = 0"
proof -
  have s: "\<not> woken p \<and> \<not> signalling p \<and> \<not> reporting p" if "p \<in> set (pcs w)" for p
    using inv q that quiet_iff stopped_kinds by (auto simp: tc_inv_def)
  then show w: "num woken (pcs w) = 0" and "num reporting (pcs w) = 0" by (auto simp: num_0)
  have "num signalling (pcs w) = 0" using s by (simp add: num_0)
  then show "conn_list (cache w) = []" using inv w by (simp add: tc_inv_def count_inv_def)
qed

section \<open>The final flush\<close>

text \<open>Once \<open>kill_cached_threads\<close> stays positive, a parked thread that nobody has woken is about to be.\<close>

fun flush_entry :: "pc \<Rightarrow> bool" where
  "flush_entry (Lock Flush_start) = True"
| "flush_entry (Hold Flush_start) = True"
| "flush_entry p = False"

definition draining :: "world \<Rightarrow> bool" where
  "draining w \<longleftrightarrow> 0 < num flush_entry (pcs w) \<or> num blocked (pcs w) \<le> num signalling (pcs w)"

lemma drain_updates:
  assumes "i < length ps" and "ps ! i = q"
  shows "num flush_entry (ps[i := p]) + of_bool (flush_entry q) = num flush_entry ps + of_bool (flush_entry p) \<and>
    num blocked (ps[i := p]) + of_bool (blocked q) = num blocked ps + of_bool (blocked p) \<and>
    num signalling (ps[i := p]) + of_bool (signalling q) = num signalling ps + of_bool (signalling p)"
  using num_update [OF assms(1)] unfolding assms(2) by blast

lemma drain_goto:
  assumes "draining w" and "i < length (pcs w)" and "flush_entry (pcs w ! i) \<Longrightarrow> flush_entry p"
    and "\<not> signalling (pcs w ! i)" and "\<not> blocked p"
  shows "draining (goto i p w)"
  using assms drain_updates [OF assms(2) refl, of p]
  by (cases "flush_entry p"; cases "flush_entry (pcs w ! i)") (auto simp: draining_def goto_def)

lemma drain_signal_thread:
  assumes d: "draining w" and i: "i < length (pcs w)" "pcs w ! i = Signal_thread"
    and s: "signal Wait_thread (Park_wake False) j (goto i Idle w) = Some w'"
  shows "draining w'"
proof (cases j)
  case None
  then have "num blocked (pcs w') = 0" using s by (auto simp: signal_iff num_0 elim!: blocked.elims(2))
  then show ?thesis by (simp add: draining_def)
next
  case (Some l)
  then have l: "l < length (pcs w)" "pcs w ! l = Wait_thread" "l \<noteq> i"
    "w' = goto l (Lock (Park_wake False)) (goto i Idle w)"
    using s i by (auto simp: signal_iff goto_def nth_list_update split: if_splits)
  have 1: "l < length ((pcs w)[i := Idle])" "(pcs w)[i := Idle] ! l = Wait_thread" using l by auto
  show ?thesis
    using d drain_updates [OF i, of Idle] drain_updates [OF 1, of "Lock (Park_wake False)"] l(4)
    by (auto simp: draining_def goto_def)
qed

lemma drain_run:
  assumes inv: "count_inv (Suc k) w" and d: "draining w" and i: "i < length (pcs w)" "pcs w ! i = Hold c"
  shows "draining (run_section i c w)"
proof -
  have kill: "kill_cached_threads (cache w) \<noteq> 0" using inv by (auto simp: count_inv_def)
  note u = drain_updates [OF i]
  have w: "i < length (map wake (pcs w))" "map wake (pcs w) ! i = Hold c" using i by simp_all
  show ?thesis
  proof (cases c)
    case Park_start
    then show ?thesis using d u [of Idle] kill
      by (auto simp: draining_def run_section_def park_start_def split: list.splits)
  next
    case (Park_wake b)
    then show ?thesis using d u [of Signal_flush] kill
      by (auto simp: draining_def run_section_def park_wake_def split: list.splits)
  next
    case (Enqueue_start x)
    then show ?thesis using d u [of Idle] u [of Signal_thread]
      by (auto simp: draining_def run_section_def tc_enqueue_def)
  next
    case Flush_start
    have "num blocked (pcs w) \<le> num signalling (pcs w)" if "cached_thread_count (cache w) = 0"
      using inv that by (simp add: count_inv_def)
    then show ?thesis using u [of Idle] drain_updates [OF w, of Wait_flush] Flush_start
      by (auto simp: draining_def run_section_def flush_start_def flush_loop_def)
  next
    case Flush_wake
    then show ?thesis using d u [of Idle] drain_updates [OF w, of Wait_flush]
      by (auto simp: draining_def run_section_def flush_loop_def)
  next
    case Size_start
    then show ?thesis using d u [of Idle] by (auto simp: draining_def run_section_def)
  qed
qed

lemma drain_fire:
  assumes inv: "count_inv (Suc k) w" and d: "draining w" and f: "fire e w = Some w'" and "no_final w e"
  shows "draining w'"
proof (cases e)
  case (Call i c)
  show ?thesis using f unfolding Call fire_iff by (auto intro!: drain_goto [OF d])
next
  case (Call_final i)
  show ?thesis using f unfolding Call_final fire_iff by (auto intro!: drain_goto [OF d])
next
  case (Acquire i)
  obtain c where c: "i < length (pcs w)" "pcs w ! i = Lock c" "w' = goto i (Hold c) (w\<lparr>owner := Some i\<rparr>)"
    using f unfolding Acquire fire_iff by blast
  have "draining (w\<lparr>owner := Some i\<rparr>)" using d by (simp add: draining_def)
  then show ?thesis unfolding c(3) by (rule drain_goto) (use c in \<open>cases c; auto\<close>)+
next
  case (Run i)
  then obtain c where c: "i < length (pcs w)" "pcs w ! i = Hold c" "w' = run_section i c w"
    using f unfolding Run fire_iff by blast
  show ?thesis unfolding c(3) by (rule drain_run [OF inv d c(1,2)])
next
  case (Signal i j)
  have "draining w'" if i: "i < length (pcs w)" "pcs w ! i = Signal_flush"
    and s: "signal Wait_flush Flush_wake j (goto i Idle w) = Some w'"
  proof -
    have g: "draining (goto i Idle w)" by (rule drain_goto [OF d]) (use i in auto)
    show ?thesis using s by (auto simp: signal_iff intro!: g drain_goto [OF g])
  qed
  then show ?thesis using f drain_signal_thread [OF d, of i j w'] unfolding Signal fire_iff by blast
next
  case (Load i)
  show ?thesis using f unfolding Load fire_iff by (auto intro!: drain_goto [OF d])
next
  case (Timeout i)
  show ?thesis using f unfolding Timeout fire_iff by (auto intro!: drain_goto [OF d])
next
  case (Spurious i)
  show ?thesis using f unfolding Spurious fire_iff by (auto intro!: drain_goto [OF d])
next
  case (Resize n)
  then show ?thesis using f d by (auto simp: draining_def)
qed (use \<open>no_final w e\<close> in \<open>simp add: no_final_def\<close>)

lemma final_store_inv:
  assumes inv: "tc_inv 0 w" and len: "length (pcs w) + 1 < 2 ^ 32" and none: "num flushing (pcs w) = 0"
    and f: "fires [Load i, Store i] w = Some w'"
  shows "tc_inv 1 w' \<and> flush_inv w' \<and> draining w'"
proof -
  have i: "i < length (pcs w)" "pcs w ! i = Final_load" using f by (auto split: if_splits)
  have k: "kill_cached_threads (cache w) = 0"
    using inv none flush_le [of "pcs w"] by (simp add: tc_inv_def count_inv_def unat_eq_0)
  have w': "w' = w\<lparr>cache := (cache w)\<lparr>kill_cached_threads := 1\<rparr>, pcs := (pcs w)[i := Lock Flush_start]\<rparr>"
    using f i k by (auto simp: goto_def)
  have h: "holds ((pcs w)[i := Lock Flush_start] ! j) = holds (pcs w ! j)" if "j < length (pcs w)" for j
    using that i by (auto simp: nth_list_update)
  have "0 < num flush_entry ((pcs w)[i := Lock Flush_start])" using i by (intro num_pos [of i]) auto
  then have "draining w'" by (simp add: draining_def w')
  moreover have "num flush_blocked (pcs w') = 0"
    using flush_updates [OF i, of "Lock Flush_start"] none flush_le [of "pcs w"] by (simp add: w')
  ultimately show ?thesis
    using inv len none h counts_update [OF i, of "Lock Flush_start"] flush_updates [OF i, of "Lock Flush_start"]
      flush_le [of "pcs w"]
    by (simp add: tc_inv_def mutex_inv_def count_inv_def flush_inv_def w')
qed

lemma reach_draining:
  assumes "reach one_flush w0 w" and "tc_inv (Suc k) w0" and "flush_inv w0" and "draining w0"
  shows "draining w"
  using assms(1)
proof induction
  case (reach_step w e w')
  then show ?case using drain_fire [of k w e w'] reach_flush_inv [OF reach_step.hyps(1) assms(2,3)]
    by (simp add: tc_inv_def one_flush_def no_final_def)
qed (use assms in simp)

section \<open>A flush nobody wakes\<close>

definition no_spurious :: "world \<Rightarrow> event \<Rightarrow> bool" where
  "no_spurious w e \<longleftrightarrow> (\<forall>i. e \<noteq> Store i \<and> e \<noteq> Spurious i)"

definition hung :: "nat \<Rightarrow> world \<Rightarrow> bool" where
  "hung h w \<longleftrightarrow> count_inv 0 w \<and> h < length (pcs w) \<and> pcs w ! h = Wait_flush \<and> num woken (pcs w) = 0 \<and>
     num reporting (pcs w) = 0"

lemma hung_facts:
  assumes "hung h w"
  shows "kill_cached_threads (cache w) \<noteq> 0" and "cached_thread_count (cache w) = 0" and "conn_list (cache w) = []"
    and "\<forall>p\<in>set (pcs w). \<not> blocked p \<and> \<not> woken p \<and> \<not> reporting p"
proof -
  have f: "0 < num in_flush (pcs w)" using assms by (intro num_pos [of h]) (auto simp: hung_def)
  then have b: "num blocked (pcs w) = 0" using assms by (simp add: hung_def count_inv_def)
  show "kill_cached_threads (cache w) \<noteq> 0" using f assms by (auto simp: hung_def count_inv_def)
  have "unat (cached_thread_count (cache w)) + length (conn_list (cache w)) = 0"
    using b assms by (simp add: hung_def count_inv_def)
  then show "cached_thread_count (cache w) = 0" "conn_list (cache w) = []" by (simp_all add: unat_eq_0)
  show "\<forall>p\<in>set (pcs w). \<not> blocked p \<and> \<not> woken p \<and> \<not> reporting p" using b assms by (simp add: hung_def num_0)
qed

lemma hung_move:
  assumes hung: "hung h w" and inv: "count_inv 0 w'" and ps: "pcs w' = (pcs w)[i := p]" and i: "i \<noteq> h"
    and p: "\<not> woken p" "\<not> reporting p"
  shows "hung h w'"
proof -
  have "\<forall>q\<in>set (pcs w'). \<not> woken q \<and> \<not> reporting q"
    using hung_facts(4) [OF hung] p set_update_subset_insert [of "pcs w" i p] unfolding ps by blast
  then show ?thesis using hung inv i by (auto simp: hung_def ps num_0)
qed

lemma hung_fire:
  assumes hung: "hung h w" and f: "fire e w = Some w'" and ok: "no_spurious w e"
  shows "hung h w'"
proof -
  have inv: "count_inv 0 w'"
    using count_fire [of 0 w e w'] hung f ok by (auto simp: hung_def no_spurious_def)
  note facts = hung_facts [OF hung]
  have at: "\<not> blocked (pcs w ! i) \<and> \<not> woken (pcs w ! i) \<and> \<not> reporting (pcs w ! i)" if "i < length (pcs w)" for i
    using facts(4) that by simp
  have h: "pcs w ! h = Wait_flush" using hung by (simp add: hung_def)
  show ?thesis
  proof (cases e)
    case (Call i c)
    then have c: "pcs w ! i = Idle" "is_call c" "w' = goto i (Lock c) w" using f by (auto split: if_splits)
    show ?thesis by (rule hung_move [OF hung inv, of i "Lock c"]) (use c h entry_kinds in \<open>auto simp: goto_def\<close>)
  next
    case (Call_final i)
    show ?thesis by (rule hung_move [OF hung inv, of i Final_load])
      (use f h in \<open>auto simp: Call_final goto_def split: if_splits\<close>)
  next
    case (Acquire i)
    obtain c where c: "i < length (pcs w)" "pcs w ! i = Lock c" "w' = goto i (Hold c) (w\<lparr>owner := Some i\<rparr>)"
      using f unfolding Acquire fire_iff by blast
    show ?thesis by (rule hung_move [OF hung inv, of i "Hold c"]) (use c h at [of i] entry_kinds in \<open>auto simp: goto_def\<close>)
  next
    case (Run i)
    obtain c where c: "i < length (pcs w)" "pcs w ! i = Hold c" "w' = run_section i c w"
      using f unfolding Run fire_iff by blast
    have "pcs w' = (pcs w)[i := Idle]"
      using c(2) at [OF c(1)] facts unfolding c(3)
      by (cases c) (auto simp: run_section_def park_start_def tc_enqueue_def flush_start_def flush_loop_def)
    then show ?thesis by (rule hung_move [OF hung inv]) (use c h in auto)
  next
    case (Signal i j)
    have i: "i < length (pcs w)" "pcs w ! i = Signal_thread" "signal Wait_thread (Park_wake False) j (goto i Idle w) = Some w'"
      using f at [of i] unfolding Signal fire_iff by auto
    have "w' = goto i Idle w"
    proof (cases j)
      case (Some l)
      then have "l < length (pcs w)" "blocked (pcs w ! l)"
        using i by (auto simp: signal_iff goto_def nth_list_update split: if_splits)
      then show ?thesis using at by blast
    qed (use i(3) in \<open>simp add: signal_iff\<close>)
    then show ?thesis by (intro hung_move [OF hung inv, of i Idle]) (use i h in \<open>auto simp: goto_def\<close>)
  next
    case (Load i)
    show ?thesis by (rule hung_move [OF hung inv, of i "Final_store (kill_cached_threads (cache w))"])
      (use f h in \<open>auto simp: Load goto_def split: if_splits\<close>)
  next
    case (Timeout i)
    then show ?thesis using f at [of i] unfolding Timeout fire_iff by auto
  next
    case (Resize n)
    then show ?thesis using f hung inv by (auto simp: hung_def)
  qed (use ok in \<open>auto simp: no_spurious_def\<close>)
qed

lemma reach_hung: "reach no_spurious w0 w \<Longrightarrow> hung h w0 \<Longrightarrow> hung h w"
  by (induction rule: reach.induct) (auto intro: hung_fire)

section \<open>Runs by evaluation\<close>

fun ok_run :: "(world \<Rightarrow> event \<Rightarrow> bool) \<Rightarrow> event list \<Rightarrow> world \<Rightarrow> bool" where
  "ok_run ok [] w = True"
| "ok_run ok (e # es) w = (ok w e \<and> (case fire e w of None \<Rightarrow> False | Some w \<Rightarrow> ok_run ok es w))"

lemma reach_trans: "reach ok w0 w \<Longrightarrow> reach ok w u \<Longrightarrow> reach ok w0 u"
  by (rotate_tac, induction rule: reach.induct) (auto intro: reach_step)

lemma reach_fires: "ok_run ok es w \<Longrightarrow> fires es w = Some w' \<Longrightarrow> reach ok w w'"
proof (induction es arbitrary: w)
  case (Cons e es)
  then obtain u where u: "ok w e" "fire e w = Some u" "ok_run ok es u" "fires es u = Some w'" by (auto split: option.splits)
  from reach_start u(1,2) have "reach ok w u" by (rule reach_step)
  then show ?case using Cons.IH [OF u(3,4)] by (rule reach_trans)
qed (simp add: reach_start)

lemma start_threads:
  "start 2 sz = \<lparr>cache = tc_init, thread_cache_size = sz, owner = None, pcs = [Idle, Idle], accepted = [], served = []\<rparr>"
  "start 3 sz = \<lparr>cache = tc_init, thread_cache_size = sz, owner = None, pcs = [Idle, Idle, Idle], accepted = [], served = []\<rparr>"
  by (simp_all add: start_def numeral_2_eq_2 numeral_3_eq_3)

lemmas tc_eval = start_threads tc_init_def goto_def run_section_def signal_def park_start_def park_wake_def tc_enqueue_def
  flush_start_def flush_loop_def no_final_def one_flush_def num_def mutex_inv_def All_less_Suc

section \<open>Properties\<close>

text \<open>
  C18. Any number of threads may park, time out, wake up spuriously, enqueue and flush, in any order. At every moment
  at most one thread is in a critical section, \<open>cached_thread_count\<close> and the connections in the queue together count
  the parked threads, so the count never underflows and every queued connection has a parked thread to serve it; the
  connections \<open>park\<close> has returned are exactly those \<open>enqueue\<close> has accepted, in the same order, without those
  still queued.
\<close>

theorem connections_in_order:
  assumes "reach no_final (start n sz) w" and "n < 2 ^ 32"
  shows "(\<forall>i j. i < n \<longrightarrow> j < n \<longrightarrow> holds (pcs w ! i) \<longrightarrow> holds (pcs w ! j) \<longrightarrow> i = j) \<and>
    unat (cached_thread_count (cache w)) + length (conn_list (cache w)) = num blocked (pcs w) + num woken (pcs w) \<and>
    accepted w = served w @ conn_list (cache w)"
proof -
  have inv: "tc_inv 0 w" by (rule tc_reach_inv [OF assms(1) start_inv [OF assms(2)]])
  have "length (pcs w) = n" using assms(1)
    by induction (simp_all add: start_def fire_length)
  then show ?thesis using inv by (auto simp: tc_inv_def mutex_inv_def count_inv_def)
qed

definition serve_events :: "event list" where
  "serve_events = [Call 0 Park_start, Acquire 0, Run 0, Call 1 (Enqueue_start 7), Acquire 1, Run 1]"

theorem connections_in_order_witness:
  "\<exists>w. fires serve_events (start 2 8) = Some w \<and> accepted w = [7] \<and> accepted w = served w @ conn_list (cache w)"
proof -
  obtain w where w: "fires serve_events (start 2 8) = Some w" "accepted w = [7]" by (simp add: serve_events_def tc_eval)
  have "ok_run no_final serve_events (start 2 8)" by (simp add: serve_events_def tc_eval)
  then have r: "reach no_final (start 2 8) w" using w(1) by (rule reach_fires)
  show ?thesis using connections_in_order [OF r] w by simp
qed

text \<open>
  C1. No wake-up is lost: from any state these calls can reach, the threads come to rest after at most \<open>work\<close>
  steps of their own, whatever the order of the steps, and when they rest every connection \<open>enqueue\<close> has accepted
  has been returned by \<open>park\<close>.
\<close>

theorem accepted_connections_served:
  assumes "reach no_final (start n sz) w" and "n < 2 ^ 32"
    and "fires es w = Some w'" and "list_all internal es"
  shows "length es + work w' \<le> work w \<and> (quiet w' \<longrightarrow> conn_list (cache w') = [] \<and> served w' = accepted w') \<and>
    (\<exists>ds u. list_all internal ds \<and> fires ds w' = Some u \<and> quiet u)"
proof -
  have inv: "tc_inv 0 w" by (rule tc_reach_inv [OF assms(1) start_inv [OF assms(2)]])
  have w: "length es + work w' \<le> work w" "tc_inv 0 w'" using work_fires [OF inv assms(3,4)] by simp_all
  have "conn_list (cache w') = [] \<and> served w' = accepted w'" if "quiet w'"
    using quiet_counts(1) [OF w(2) that] w(2) by (simp add: tc_inv_def count_inv_def)
  then show ?thesis using w(1) quiet_reachable [OF w(2)] by blast
qed

theorem accepted_connections_served_witness:
  "\<exists>w w'. fires serve_events (start 2 8) = Some w \<and> fires [Signal 1 (Some 0), Acquire 0, Run 0] w = Some w' \<and>
     quiet w' \<and> served w' = [7] \<and> served w' = accepted w'"
proof -
  obtain w w' where w: "fires serve_events (start 2 8) = Some w" "fires [Signal 1 (Some 0), Acquire 0, Run 0] w = Some w'"
    "pcs w' = [Idle, Idle]" "served w' = [7]" "mutex_inv w'"
    by (simp add: serve_events_def tc_eval)
  have "ok_run no_final serve_events (start 2 8)" by (simp add: serve_events_def tc_eval)
  then have r: "reach no_final (start 2 8) w" using w(1) by (rule reach_fires)
  have q: "quiet w'" using quiet_iff [OF w(5)] w(3) by simp
  show ?thesis using accepted_connections_served [OF r _ w(2)] w q by auto
qed

text \<open>
  C25. A flush returns if no other flush runs meanwhile: however the other calls interleave with it, once the
  threads are at rest no thread waits for the cache to drain and \<open>kill_cached_threads\<close> is back at zero.
\<close>

theorem flush_returns:
  assumes "reach one_flush (start n sz) w" and "n < 2 ^ 32" and "quiet w"
  shows "Wait_flush \<notin> set (pcs w) \<and> kill_cached_threads (cache w) = 0"
proof -
  have "tc_inv 0 w \<and> flush_inv w"
    by (rule reach_flush_inv [OF assms(1) start_inv [OF assms(2)]]) (simp add: flush_inv_def start_def num_def)
  then have inv: "tc_inv 0 w" "flush_inv w" by simp_all
  then have b: "num flush_blocked (pcs w) = 0"
    using quiet_counts(2,3) [OF inv(1) assms(3)] by (simp add: flush_inv_def)
  have "\<not> in_flush p" if "p \<in> set (pcs w)" for p
    using that b inv(1) assms(3) quiet_iff [of w] by (cases p rule: in_flush.cases) (auto simp: num_0 tc_inv_def)
  then have "num in_flush (pcs w) = 0" by (simp add: num_0)
  then have "unat (kill_cached_threads (cache w)) = 0" using inv(1) by (simp add: tc_inv_def count_inv_def)
  then show ?thesis using b by (auto simp: num_0 unat_eq_0)
qed

definition flush_events :: "event list" where
  "flush_events =
     [Call 0 Park_start, Acquire 0, Run 0, Call 1 Flush_start, Acquire 1, Run 1,
      Acquire 0, Run 0, Signal 0 (Some 1), Acquire 1, Run 1]"

theorem flush_returns_witness:
  "\<exists>w. fires flush_events (start 2 8) = Some w \<and> quiet w \<and> Wait_flush \<notin> set (pcs w)"
proof -
  obtain w where w: "fires flush_events (start 2 8) = Some w" "pcs w = [Idle, Idle]" "mutex_inv w"
    by (simp add: flush_events_def tc_eval)
  have "ok_run one_flush flush_events (start 2 8)" by (simp add: flush_events_def tc_eval)
  then have r: "reach one_flush (start 2 8) w" using w(1) by (rule reach_fires)
  have q: "quiet w" using quiet_iff [OF w(3)] w(2) by simp
  show ?thesis using flush_returns [OF r _ q] w(1) q by auto
qed

text \<open>
  \<open>final_flush\<close> keeps its promise when no other flush runs at the moment of its increment: from then on no thread
  parks any more, and whenever the threads are at rest the cache is empty, as \<open>destroy\<close> asserts.
\<close>

theorem final_flush_drains:
  assumes "reach no_final (start n sz) w" and "n + 1 < 2 ^ 32" and "num flushing (pcs w) = 0"
    and "fires [Load i, Store i] w = Some w1" and "reach one_flush w1 u"
  shows "kill_cached_threads (cache u) \<noteq> 0 \<and>
    (quiet u \<longrightarrow> destroy_asserts (cache u) \<and> Wait_thread \<notin> set (pcs u) \<and> Wait_flush \<notin> set (pcs u))"
proof -
  have inv: "tc_inv 0 w" by (rule tc_reach_inv [OF assms(1) start_inv]) (use assms(2) in simp_all)
  have len: "length (pcs w) = n" using assms(1) by induction (simp_all add: start_def fire_length)
  have w1: "tc_inv (Suc 0) w1" "flush_inv w1" "draining w1"
    using final_store_inv [OF inv _ assms(3,4)] assms(2) len by simp_all
  have u: "tc_inv (Suc 0) u" "flush_inv u" "draining u"
    using reach_flush_inv [OF assms(5) w1(1,2)] reach_draining [OF assms(5) w1] by simp_all
  then have k: "kill_cached_threads (cache u) \<noteq> 0" by (auto simp: tc_inv_def count_inv_def)
  moreover have "destroy_asserts (cache u) \<and> Wait_thread \<notin> set (pcs u) \<and> Wait_flush \<notin> set (pcs u)" if q: "quiet u"
  proof -
    note c = quiet_counts [OF u(1) q]
    have s: "\<not> flush_entry p \<and> \<not> signalling p" if "p \<in> set (pcs u)" for p
      using quiet_iff [of u] u(1) q that by (cases p rule: flush_entry.cases) (auto simp: tc_inv_def)
    then have e: "num flush_entry (pcs u) = 0" "num signalling (pcs u) = 0" by (simp_all add: num_0)
    then have "num blocked (pcs u) = 0" "num flush_blocked (pcs u) = 0"
      using u c by (simp_all add: draining_def flush_inv_def)
    moreover have "unat (cached_thread_count (cache u)) = num blocked (pcs u)"
      using u(1) c by (simp add: tc_inv_def count_inv_def)
    ultimately have "unat (cached_thread_count (cache u)) = 0" "\<forall>p\<in>set (pcs u). \<not> blocked p \<and> \<not> flush_blocked p"
      by (simp_all add: num_0)
    then show ?thesis using c(1) by (auto simp: destroy_asserts_def unat_eq_0)
  qed
  ultimately show ?thesis by blast
qed

theorem final_flush_drains_witness:
  "\<exists>w w1. fires [Call 0 Park_start, Acquire 0, Run 0, Call_final 1] (start 2 8) = Some w \<and>
     fires [Load 1, Store 1] w = Some w1 \<and> kill_cached_threads (cache w1) \<noteq> 0"
proof -
  let ?es = "[Call 0 Park_start, Acquire 0, Run 0, Call_final 1]"
  obtain w w1 where w: "fires ?es (start 2 8) = Some w" "fires [Load 1, Store 1] w = Some w1" "num flushing (pcs w) = 0"
    by (simp add: tc_eval)
  have "ok_run no_final ?es (start 2 8)" by (simp add: tc_eval)
  then have r: "reach no_final (start 2 8) w" using w(1) by (rule reach_fires)
  show ?thesis using final_flush_drains [OF r _ w(3,2) reach_start] w by auto
qed

text \<open>
  Two flushes at the same time can hang: the last thread that leaves the cache signals
  \<open>COND_flush_thread_cache\<close> once, which wakes one of them, and nobody wakes the other. The state below is reached with
  one parked thread and two flushes. The cache is empty and all threads are at rest, but the second flush waits; and
  whatever is called from then on, for ever, it goes on waiting unless it wakes up spuriously.
\<close>

definition hang_events :: "event list" where
  "hang_events =
     [Call 0 Park_start, Acquire 0, Run 0,
      Call 1 Flush_start, Acquire 1, Run 1, Call 2 Flush_start, Acquire 2, Run 2,
      Acquire 0, Run 0, Signal 0 (Some 1), Acquire 1, Run 1]"

theorem concurrent_flushes_hang:
  "\<exists>w. fires hang_events (start 3 8) = Some w \<and> quiet w \<and> pcs w = [Idle, Idle, Wait_flush] \<and>
     cached_thread_count (cache w) = 0 \<and> (\<forall>u. reach no_spurious w u \<longrightarrow> pcs u ! 2 = Wait_flush)"
proof -
  obtain w where w: "fires hang_events (start 3 8) = Some w" "mutex_inv w" "pcs w = [Idle, Idle, Wait_flush]"
    "cached_thread_count (cache w) = 0" "hung 2 w"
    by (simp add: hang_events_def tc_eval hung_def count_inv_def)
  then have "\<forall>u. reach no_spurious w u \<longrightarrow> pcs u ! 2 = Wait_flush"
    using reach_hung [of w _ 2] by (auto simp: hung_def)
  then show ?thesis using w quiet_iff [of w] by auto
qed

theorem concurrent_flushes_hang_witness:
  "\<exists>w u. fires hang_events (start 3 8) = Some w \<and> fires [Call 0 Park_start, Acquire 0, Run 0] w = Some u \<and>
     pcs u ! 2 = Wait_flush"
proof -
  obtain w where w: "fires hang_events (start 3 8) = Some w" "pcs w = [Idle, Idle, Wait_flush]"
    and r: "\<And>u. reach no_spurious w u \<Longrightarrow> pcs u ! 2 = Wait_flush"
    using concurrent_flushes_hang by blast
  let ?es = "[Call 0 Park_start, Acquire 0, Run 0]"
  obtain u where u: "fires ?es w = Some u" "ok_run no_spurious ?es w"
    using w(1) by (auto simp: hang_events_def tc_eval no_spurious_def)
  show ?thesis using w(1) u(1) r [OF reach_fires [OF u(2,1)]] by blast
qed

text \<open>
  \<open>final_flush\<close> increments \<open>kill_cached_threads\<close> without the mutex. When a flush runs between the read and the
  write of the increment, the increment is lost: in the run below \<open>final_flush\<close> has returned, the counter is zero
  and a thread parks.
\<close>

definition race_events :: "event list" where
  "race_events =
     [Call 0 Park_start, Acquire 0, Run 0,
      Call_final 1, Load 1, Call 2 Flush_start, Acquire 2, Run 2, Store 1,
      Acquire 0, Run 0, Signal 0 (Some 2), Acquire 2, Run 2, Acquire 1, Run 1,
      Call 0 Park_start, Acquire 0, Run 0]"

theorem final_flush_race:
  "\<exists>w. fires race_events (start 3 8) = Some w \<and> pcs w = [Wait_thread, Idle, Idle] \<and>
     kill_cached_threads (cache w) = 0 \<and> cached_thread_count (cache w) = 1"
  by (simp add: race_events_def tc_eval)

end
