(* ===== verification/Hash_Filo.thy ===== *)
theory Hash_Filo
  imports Heap_Path "HOL-Library.Monad_Syntax" "HOL-Library.Multiset"
begin

text \<open>
  \<open>hash_filo\<close> (\<open>hash_filo.h\<close>): a hash table of bounded size whose elements are also chained from the most to the
  least recently used one, which is dropped when the table is full. The hash table and the mutex are outside the
  repository; the table is a record of functions with a stated contract. Elements are addresses.
\<close>

section \<open>The hash table\<close>

text \<open>
  \<open>hash_delete\<close> and \<open>hash_free\<close> also return the elements they pass to the free function of the table.
\<close>

record ('h, 'k) hash_api =
  hash_init :: 'h
  hash_search :: "'h \<Rightarrow> 'k \<Rightarrow> ptr"
  hash_insert :: "ptr \<Rightarrow> 'h \<Rightarrow> bool \<times> 'h"
  hash_delete :: "ptr \<Rightarrow> 'h \<Rightarrow> ptr list \<times> 'h"
  hash_free :: "'h \<Rightarrow> ptr list \<times> 'h"
  hash_records :: "'h \<Rightarrow> ulong"

text \<open>
  The contract of \<open>hash.h\<close> for elements with different keys: \<open>mem\<close> gives the members of a table, \<open>fe\<close> says whether
  it has a free function.
\<close>

definition hash_ok :: "('h, 'k) hash_api \<Rightarrow> ('h \<Rightarrow> ptr set) \<Rightarrow> (ptr \<Rightarrow> 'k) \<Rightarrow> bool \<Rightarrow> bool" where
  "hash_ok api mem key_of fe \<longleftrightarrow>
     mem (hash_init api) = {} \<and>
     (\<forall>h. finite (mem h) \<and> (card (mem h) < 2 ^ 32 \<longrightarrow> unat (hash_records api h) = card (mem h))) \<and>
     (\<forall>h k. inj_on key_of (mem h) \<longrightarrow>
        (if k \<in> key_of ` mem h then hash_search api h k \<in> mem h \<and> key_of (hash_search api h k) = k
         else hash_search api h k = 0)) \<and>
     (\<forall>p h. (case hash_insert api p h of (failed, h') \<Rightarrow> mem h' = (if failed then mem h else insert p (mem h)))) \<and>
     (\<forall>p h. p \<in> mem h \<longrightarrow>
        (case hash_delete api p h of (ps, h') \<Rightarrow> mem h' = mem h - {p} \<and> ps = (if fe then [p] else []))) \<and>
     (\<forall>h. (case hash_free api h of (ps, h') \<Rightarrow> distinct ps \<and> set ps = (if fe then mem h else {})))"

section \<open>State\<close>

datatype mutex = Mutex_uninit | Mutex_free | Mutex_held

record 'h hash_filo =
  m_size :: uint
  free_element :: bool
  filo_init :: bool
  first_link :: ptr
  last_link :: ptr
  filo_lock :: mutex
  filo_cache :: 'h

text \<open>The links of the elements that are allocated, and the elements freed so far.\<close>

record filo_mem =
  next_used :: "ptr \<Rightarrow> ptr option"
  prev_used :: "ptr \<Rightarrow> ptr option"
  freed :: "ptr list"

type_synonym 'h filo_state = "'h hash_filo \<times> filo_mem"

definition set_next :: "ptr \<Rightarrow> ptr \<Rightarrow> filo_mem \<Rightarrow> filo_mem option" where
  "set_next p v m = (if next_used m p = None then None else Some (m\<lparr>next_used := (next_used m)(p \<mapsto> v)\<rparr>))"

definition set_prev :: "ptr \<Rightarrow> ptr \<Rightarrow> filo_mem \<Rightarrow> filo_mem option" where
  "set_prev p v m = (if prev_used m p = None then None else Some (m\<lparr>prev_used := (prev_used m)(p \<mapsto> v)\<rparr>))"

text \<open>The free function gives the memory of an element back; freeing it twice is undefined.\<close>

definition free_elem :: "ptr \<Rightarrow> filo_mem \<Rightarrow> filo_mem option" where
  "free_elem p m =
     (if next_used m p = None then None
      else Some (m\<lparr>next_used := (next_used m)(p := None), prev_used := (prev_used m)(p := None), freed := p # freed m\<rparr>))"

fun free_elems :: "ptr list \<Rightarrow> filo_mem \<Rightarrow> filo_mem option" where
  "free_elems [] m = Some m"
| "free_elems (p # ps) m = do { m \<leftarrow> free_elem p m; free_elems ps m }"

section \<open>Operations\<close>

fun mutex_lock :: "mutex \<Rightarrow> mutex option" where
  "mutex_lock Mutex_free = Some Mutex_held"
| "mutex_lock _ = None"

fun mutex_unlock :: "mutex \<Rightarrow> mutex option" where
  "mutex_unlock Mutex_held = Some Mutex_free"
| "mutex_unlock _ = None"

definition mk_hash_filo :: "'h \<Rightarrow> uint \<Rightarrow> bool \<Rightarrow> 'h hash_filo" where
  "mk_hash_filo zero size_arg free_arg =
     \<lparr>m_size = size_arg, free_element = free_arg, filo_init = False, first_link = 0, last_link = 0,
      filo_lock = Mutex_uninit, filo_cache = zero\<rparr>"

definition destroy_filo :: "('h, 'k) hash_api \<Rightarrow> 'h filo_state \<Rightarrow> filo_mem option" where
  "destroy_filo api = (\<lambda>(f, m).
     if filo_init f then free_elems (fst (hash_free api (filo_cache f))) m else Some m)"

definition filo_clear :: "('h, 'k) hash_api \<Rightarrow> bool \<Rightarrow> 'h filo_state \<Rightarrow> 'h filo_state option" where
  "filo_clear api locked = (\<lambda>(f, m). do {
     let f = (if filo_init f then f else f\<lparr>filo_init := True, filo_lock := Mutex_free\<rparr>);
     l \<leftarrow> (if locked then Some (filo_lock f) else mutex_lock (filo_lock f));
     let (ps, h) = hash_free api (filo_cache f);
     m \<leftarrow> free_elems ps m;
     let f = f\<lparr>first_link := 0, last_link := 0, filo_cache := hash_init api\<rparr>;
     l \<leftarrow> (if locked then Some l else mutex_unlock l);
     Some (f\<lparr>filo_lock := l\<rparr>, m) })"

definition filo_first :: "'h filo_state \<Rightarrow> ptr option" where
  "filo_first = (\<lambda>(f, m). if filo_lock f = Mutex_held then Some (first_link f) else None)"

definition filo_last :: "'h filo_state \<Rightarrow> ptr option" where
  "filo_last = (\<lambda>(f, m). if filo_lock f = Mutex_held then Some (last_link f) else None)"

text \<open>Taking an entry that is not the first one out of the used-chain.\<close>

definition filo_unlink :: "ptr \<Rightarrow> 'h filo_state \<Rightarrow> 'h filo_state option" where
  "filo_unlink entry = (\<lambda>(f, m).
     if entry = last_link f then do {
       p \<leftarrow> prev_used m (last_link f);
       m \<leftarrow> set_next p 0 m;
       Some (f\<lparr>last_link := p\<rparr>, m) }
     else do {
       n \<leftarrow> next_used m entry;
       p \<leftarrow> prev_used m entry;
       m \<leftarrow> set_prev n p m;
       m \<leftarrow> set_next p n m;
       Some (f, m) })"

definition filo_search :: "('h, 'k) hash_api \<Rightarrow> 'k \<Rightarrow> 'h filo_state \<Rightarrow> (ptr \<times> 'h filo_state) option" where
  "filo_search api key = (\<lambda>(f, m).
     if filo_lock f \<noteq> Mutex_held then None
     else
       let entry = hash_search api (filo_cache f) key in
       if entry \<noteq> 0 \<and> entry \<noteq> first_link f then do {
         (f, m) \<leftarrow> filo_unlink entry (f, m);
         m \<leftarrow> set_prev entry 0 m;
         m \<leftarrow> set_next entry (first_link f) m;
         m \<leftarrow> set_prev (first_link f) entry m;
         Some (entry, f\<lparr>first_link := entry\<rparr>, m) }
       else Some (entry, f, m))"

text \<open>Dropping the least recently used element of a full table.\<close>

definition filo_evict :: "('h, 'k) hash_api \<Rightarrow> 'h filo_state \<Rightarrow> 'h filo_state option" where
  "filo_evict api = (\<lambda>(f, m). do {
     let tmp = last_link f;
     p \<leftarrow> prev_used m tmp;
     let f = f\<lparr>last_link := p\<rparr>;
     (f, m) \<leftarrow> (if p \<noteq> 0 then do { m \<leftarrow> set_next p 0 m; Some (f, m) } else Some (f\<lparr>first_link := 0\<rparr>, m));
     let (ps, h) = hash_delete api tmp (filo_cache f);
     m \<leftarrow> free_elems ps m;
     Some (f\<lparr>filo_cache := h\<rparr>, m) })"

definition filo_add :: "('h, 'k) hash_api \<Rightarrow> ptr \<Rightarrow> 'h filo_state \<Rightarrow> (bool \<times> 'h filo_state) option" where
  "filo_add api entry = (\<lambda>(f, m).
     if m_size f = 0 then Some (True, f, m)
     else do {
       (f, m) \<leftarrow> (if hash_records api (filo_cache f) = m_size f then filo_evict api (f, m) else Some (f, m));
       let (failed, h) = hash_insert api entry (filo_cache f);
       let f = f\<lparr>filo_cache := h\<rparr>;
       if failed then do {
         m \<leftarrow> (if free_element f then free_elem entry m else Some m);
         Some (True, f, m) }
       else do {
         m \<leftarrow> set_prev entry 0 m;
         m \<leftarrow> set_next entry (first_link f) m;
         (f, m) \<leftarrow> (if first_link f \<noteq> 0 then do { m \<leftarrow> set_prev (first_link f) entry m; Some (f, m) }
                   else Some (f\<lparr>last_link := entry\<rparr>, m));
         Some (False, f\<lparr>first_link := entry\<rparr>, m) } })"

definition filo_size :: "'h filo_state \<Rightarrow> uint" where
  "filo_size = (\<lambda>(f, m). m_size f)"

definition filo_resize :: "('h, 'k) hash_api \<Rightarrow> uint \<Rightarrow> 'h filo_state \<Rightarrow> 'h filo_state option" where
  "filo_resize api new_size = (\<lambda>(f, m). do {
     l \<leftarrow> mutex_lock (filo_lock f);
     (f, m) \<leftarrow> filo_clear api True (f\<lparr>filo_lock := l, m_size := new_size\<rparr>, m);
     l \<leftarrow> mutex_unlock (filo_lock f);
     Some (f\<lparr>filo_lock := l\<rparr>, m) })"

section \<open>Chains of elements\<close>

text \<open>
  \<open>chained m xs\<close>: following \<open>next_used\<close> from the first element gives \<open>xs\<close>, following \<open>prev_used\<close> from the last
  one gives \<open>xs\<close> in reverse.
\<close>

definition chained :: "filo_mem \<Rightarrow> ptr list \<Rightarrow> bool" where
  "chained m xs \<longleftrightarrow> path (next_used m) (hd0 xs) xs 0 \<and> path (prev_used m) (hd0 (rev xs)) (rev xs) 0 \<and> distinct xs \<and>
     dom (next_used m) = dom (prev_used m)"

lemma chained_facts:
  assumes "chained m xs"
  shows "distinct xs" and "0 \<notin> set xs" and "set xs \<subseteq> dom (next_used m)" and "dom (next_used m) = dom (prev_used m)"
  using assms path_nonnull [of "next_used m" "hd0 xs" xs 0] path_dom [of "next_used m" "hd0 xs" xs 0]
  by (simp_all add: chained_def)

lemma chained_mem: "chained m xs \<Longrightarrow> p \<in> set xs \<Longrightarrow> p \<in> dom (next_used m) \<and> p \<in> dom (prev_used m) \<and> p \<noteq> 0"
  using chained_facts [of m xs] by (metis subsetD)

lemma set_next_Some: "p \<in> dom (next_used m) \<Longrightarrow> set_next p v m = Some (m\<lparr>next_used := (next_used m)(p \<mapsto> v)\<rparr>)"
  by (auto simp: set_next_def)

lemma set_prev_Some: "p \<in> dom (prev_used m) \<Longrightarrow> set_prev p v m = Some (m\<lparr>prev_used := (prev_used m)(p \<mapsto> v)\<rparr>)"
  by (auto simp: set_prev_def)

text \<open>Elements that are not in the chain do not matter.\<close>

lemma chained_free:
  assumes "chained m xs" and "p \<notin> set xs" and "p \<in> dom (next_used m)"
  shows "\<exists>m'. free_elem p m = Some m' \<and> chained m' xs \<and> freed m' = p # freed m \<and>
    dom (next_used m') = dom (next_used m) - {p}"
proof -
  have "path ((next_used m)(p := None)) (hd0 xs) xs 0" "path ((prev_used m)(p := None)) (hd0 (rev xs)) (rev xs) 0"
    using assms by (simp_all add: chained_def)
  moreover have "next_used m p \<noteq> None" using assms(3) by auto
  ultimately show ?thesis using assms(1) by (simp add: free_elem_def chained_def)
qed

lemma chained_frees:
  assumes "chained m xs" and "set ps \<inter> set xs = {}" and "set ps \<subseteq> dom (next_used m)" and "distinct ps"
  shows "\<exists>m'. free_elems ps m = Some m' \<and> chained m' xs \<and> mset (freed m') = mset ps + mset (freed m) \<and>
    dom (next_used m') = dom (next_used m) - set ps"
  using assms
proof (induction ps arbitrary: m)
  case (Cons p ps)
  obtain m1 where m1: "free_elem p m = Some m1" "chained m1 xs" "freed m1 = p # freed m"
    "dom (next_used m1) = dom (next_used m) - {p}"
    using chained_free [of m xs p] Cons.prems by auto
  have "set ps \<inter> set xs = {}" "set ps \<subseteq> dom (next_used m1)" "distinct ps" using Cons.prems m1(4) by auto
  from Cons.IH [OF m1(2) this] m1 show ?case by (auto simp: Diff_insert2 [symmetric])
qed simp

lemma chained_push:
  assumes "chained m xs" and "p \<notin> set xs" and "p \<in> dom (next_used m)" and "p \<noteq> 0"
  shows "\<exists>m1 m2 m3. set_prev p 0 m = Some m1 \<and> set_next p (hd0 xs) m1 = Some m2 \<and>
    (if xs = [] then m3 = m2 else set_prev (hd0 xs) p m2 = Some m3) \<and> chained m3 (p # xs) \<and> freed m3 = freed m \<and>
    dom (next_used m3) = dom (next_used m)"
proof -
  let ?m2 = "m\<lparr>prev_used := (prev_used m)(p \<mapsto> 0), next_used := (next_used m)(p \<mapsto> hd0 xs)\<rparr>"
  have d: "p \<in> dom (prev_used m)" using assms chained_facts(4) by simp
  have n: "path (next_used ?m2) p (p # xs) 0" using assms by (simp add: chained_def)
  have m2: "set_prev p 0 m = Some (m\<lparr>prev_used := (prev_used m)(p \<mapsto> 0)\<rparr>)"
    "set_next p (hd0 xs) (m\<lparr>prev_used := (prev_used m)(p \<mapsto> 0)\<rparr>) = Some ?m2"
    using assms d by (auto simp: set_next_def set_prev_def)
  show ?thesis
  proof (cases "xs = []")
    case True
    then have "chained ?m2 (p # xs)" using assms d by (auto simp: chained_def)
    then show ?thesis using m2 True assms by (intro exI [of _ ?m2] exI) auto
  next
    case False
    let ?m3 = "?m2\<lparr>prev_used := (prev_used m)(p \<mapsto> 0, hd0 xs \<mapsto> p)\<rparr>"
    have h: "hd0 xs \<in> dom (prev_used m)" "hd0 xs = last (rev xs)"
      using False subsetD [OF chained_facts(3) [OF assms(1)] hd_in_set [OF False]] chained_facts(4) [OF assms(1)]
      by (simp_all add: hd0_hd last_rev)
    have "path ((prev_used m)(p \<mapsto> 0, hd0 xs \<mapsto> p)) (hd0 (rev xs)) (rev xs @ [p]) 0"
      unfolding h(2) by (rule path_extend) (use assms False in \<open>auto simp: chained_def\<close>)
    then have "chained ?m3 (p # xs)" using n assms d h False by (auto simp: chained_def)
    moreover have "set_prev (hd0 xs) p ?m2 = Some ?m3" using h by (auto simp: set_prev_def)
    ultimately show ?thesis using m2 False assms by (intro exI [of _ ?m3] exI) auto
  qed
qed

text \<open>Taking out the last element, or one in the middle.\<close>

lemma chained_chop:
  assumes "chained m (xs @ [p])"
  shows "prev_used m p = Some (hd0 (rev xs))" and "xs \<noteq> [] \<Longrightarrow>
    \<exists>m'. set_next (hd0 (rev xs)) 0 m = Some m' \<and> chained m' xs \<and> freed m' = freed m \<and> dom (next_used m') = dom (next_used m)"
    and "xs = [] \<Longrightarrow> chained m xs"
proof -
  have n: "path (next_used m) (hd0 (xs @ [p])) (xs @ [p]) 0" and pr: "path (prev_used m) p (p # rev xs) 0" and d: "distinct (xs @ [p])"
    and dom: "dom (next_used m) = dom (prev_used m)"
    using assms by (simp_all add: chained_def)
  show p: "prev_used m p = Some (hd0 (rev xs))" using pr by (auto dest: path_hd0)
  show "chained m xs" if "xs = []" using that dom by (simp add: chained_def)
  assume ne: "xs \<noteq> []"
  have l: "hd0 (rev xs) = last xs" using ne by (rule hd0_rev)
  have "path ((next_used m)(last xs \<mapsto> 0)) (hd0 xs) xs 0" using path_remove [OF n d ne] ne by simp
  moreover have "path (prev_used m) (hd0 (rev xs)) (rev xs) 0" using pr p by simp
  moreover have "last xs \<in> dom (next_used m)" using chained_mem [OF assms, of "last xs"] ne by simp
  ultimately have "chained (m\<lparr>next_used := (next_used m)(last xs \<mapsto> 0)\<rparr>) xs \<and>
      set_next (last xs) 0 m = Some (m\<lparr>next_used := (next_used m)(last xs \<mapsto> 0)\<rparr>) \<and> last xs \<in> dom (next_used m)"
    using d dom by (auto simp: set_next_Some chained_def)
  then show "\<exists>m'. set_next (hd0 (rev xs)) 0 m = Some m' \<and> chained m' xs \<and> freed m' = freed m \<and>
      dom (next_used m') = dom (next_used m)"
    unfolding l by (intro exI [of _ "m\<lparr>next_used := (next_used m)(last xs \<mapsto> 0)\<rparr>"]) auto
qed

lemma chained_unlink:
  assumes c: "chained m (xs @ p # ys)" and ne: "xs \<noteq> []" "ys \<noteq> []"
  shows "next_used m p = Some (hd0 ys)" and "prev_used m p = Some (last xs)" and
    "\<exists>m1 m2. set_prev (hd0 ys) (last xs) m = Some m1 \<and> set_next (last xs) (hd0 ys) m1 = Some m2 \<and> chained m2 (xs @ ys) \<and>
       freed m2 = freed m \<and> dom (next_used m2) = dom (next_used m)"
proof -
  have n: "path (next_used m) (hd0 xs) (xs @ p # ys) 0" and d: "distinct (xs @ p # ys)"
    and pr: "path (prev_used m) (hd0 (rev ys)) (rev ys @ p # rev xs) 0" and dom: "dom (next_used m) = dom (prev_used m)"
    using c ne by (simp_all add: chained_def)
  have h: "hd0 (rev xs) = last xs" "last (rev ys) = hd0 ys" using ne hd0_rev [OF ne(1)] by (simp_all add: last_rev hd0_hd)
  show "next_used m p = Some (hd0 ys)" using n by (auto dest: path_hd0)
  show "prev_used m p = Some (last xs)" using path_next [OF pr] h by simp
  have n2: "path ((next_used m)(last xs \<mapsto> hd0 ys)) (hd0 xs) (xs @ ys) 0" using path_remove [OF n d ne(1)] .
  have d2: "distinct (rev ys @ p # rev xs)" using d by auto
  have p2: "path ((prev_used m)(hd0 ys \<mapsto> last xs)) (hd0 (rev ys)) (rev ys @ rev xs) 0"
    using path_remove [OF pr d2] ne h by simp
  have "last xs \<in> dom (next_used m)" "hd0 ys \<in> dom (prev_used m)"
    using chained_mem [OF c, of "last xs"] chained_mem [OF c, of "hd ys"] ne by (simp_all add: hd0_hd)
  then show "\<exists>m1 m2. set_prev (hd0 ys) (last xs) m = Some m1 \<and> set_next (last xs) (hd0 ys) m1 = Some m2 \<and>
      chained m2 (xs @ ys) \<and> freed m2 = freed m \<and> dom (next_used m2) = dom (next_used m)"
    using n2 p2 d dom ne by (auto simp: set_prev_Some set_next_Some chained_def)
qed

section \<open>The representation\<close>

text \<open>\<open>xs\<close> are the elements from the most to the least recently used one.\<close>

definition filo_rep :: "('h \<Rightarrow> ptr set) \<Rightarrow> (ptr \<Rightarrow> 'k) \<Rightarrow> 'h filo_state \<Rightarrow> ptr list \<Rightarrow> bool" where
  "filo_rep mem key_of = (\<lambda>(f, m) xs.
     chained m xs \<and> first_link f = hd0 xs \<and> last_link f = hd0 (rev xs) \<and> mem (filo_cache f) = set xs \<and>
     inj_on key_of (set xs) \<and> length xs \<le> unat (m_size f) \<and> free_element f \<and>
     (filo_init f \<longleftrightarrow> filo_lock f \<noteq> Mutex_uninit))"

lemma hash_ok_search:
  assumes "hash_ok api mem key_of fe" and "mem h = set xs" and "inj_on key_of (set xs)"
  shows "hash_search api h k = (case find (\<lambda>p. key_of p = k) xs of None \<Rightarrow> 0 | Some p \<Rightarrow> p)"
proof (cases "find (\<lambda>p. key_of p = k) xs")
  case None
  then have "k \<notin> key_of ` mem h" using assms(2) by (auto simp: find_None_iff)
  then show ?thesis using assms None by (auto simp: hash_ok_def)
next
  case (Some p)
  then have "p \<in> set xs" "key_of p = k" by (auto simp: find_Some_iff)
  then have "hash_search api h k \<in> mem h" "key_of (hash_search api h k) = key_of p"
    using assms unfolding hash_ok_def by (metis imageI)+
  then show ?thesis using Some assms(2,3) \<open>p \<in> set xs\<close> by (auto dest: inj_onD)
qed

lemma hash_ok_records:
  assumes "hash_ok api mem key_of fe" and "mem h = set xs" and "distinct xs" and "length xs < 2 ^ 32"
  shows "unat (hash_records api h) = length xs"
  using assms by (auto simp: hash_ok_def distinct_card)

definition to_front :: "ptr \<Rightarrow> ptr list \<Rightarrow> ptr list" where
  "to_front p xs = p # remove1 p xs"

lemma set_to_front: "p \<in> set xs \<Longrightarrow> distinct xs \<Longrightarrow> set (to_front p xs) = set xs \<and> length (to_front p xs) = length xs"
  using length_pos_if_in_set [of p xs] by (auto simp: to_front_def length_remove1)

lemma unlink_rep:
  assumes c: "chained m (as @ p # bs)" and fl: "last_link f = hd0 (rev (as @ p # bs))" and ne: "as \<noteq> []"
  shows "\<exists>m1. filo_unlink p (f, m) = Some (f\<lparr>last_link := hd0 (rev (as @ bs))\<rparr>, m1) \<and> chained m1 (as @ bs) \<and>
    freed m1 = freed m \<and> dom (next_used m1) = dom (next_used m)"
proof (cases "bs = []")
  case True
  then have "p = last_link f" using fl by simp
  then show ?thesis using chained_chop [of m as p] c ne True by (auto simp: filo_unlink_def)
next
  case False
  have d: "distinct (as @ p # bs)" using c by (simp add: chained_def)
  have "last_link f = last bs" using fl False by (simp add: hd0_rev)
  then have "p \<noteq> last_link f" "f = f\<lparr>last_link := hd0 (rev (as @ bs))\<rparr>" using d False by (auto simp: hd0_rev)
  then show ?thesis using chained_unlink [OF c ne False] by (auto simp: filo_unlink_def)
qed

definition lookup_key :: "(ptr \<Rightarrow> 'k) \<Rightarrow> 'k \<Rightarrow> ptr list \<Rightarrow> ptr" where
  "lookup_key key_of k xs = (case find (\<lambda>p. key_of p = k) xs of None \<Rightarrow> 0 | Some p \<Rightarrow> p)"

lemma lookup_key_mem:
  assumes "lookup_key key_of k xs \<noteq> 0"
  shows "lookup_key key_of k xs \<in> set xs"
proof (cases "find (\<lambda>p. key_of p = k) xs")
  case (Some p)
  then have "p \<in> set xs" by (auto simp: find_Some_iff)
  then show ?thesis using Some by (simp add: lookup_key_def)
qed (use assms in \<open>simp add: lookup_key_def\<close>)

lemma search_first:
  assumes "filo_lock f = Mutex_held" and "hash_search api (filo_cache f) k = p" and "p = 0 \<or> p = first_link f"
  shows "filo_search api k (f, m) = Some (p, f, m)"
  using assms by (auto simp: filo_search_def)

lemma search_moves:
  assumes c: "chained m (as @ p # bs)" and fl: "first_link f = hd0 as" "last_link f = hd0 (rev (as @ p # bs))"
    and ne: "as \<noteq> []" and s: "hash_search api (filo_cache f) k = p" and l: "filo_lock f = Mutex_held"
  shows "\<exists>m'. filo_search api k (f, m) = Some (p, f\<lparr>last_link := hd0 (rev (as @ bs)), first_link := p\<rparr>, m') \<and>
    chained m' (p # as @ bs) \<and> freed m' = freed m \<and> dom (next_used m') = dom (next_used m)"
proof -
  obtain m1 where m1: "filo_unlink p (f, m) = Some (f\<lparr>last_link := hd0 (rev (as @ bs))\<rparr>, m1)" "chained m1 (as @ bs)"
    "freed m1 = freed m" "dom (next_used m1) = dom (next_used m)" using unlink_rep [OF c fl(2) ne] by blast
  have d: "distinct (as @ p # bs)" using c by (simp add: chained_def)
  have p: "p \<in> dom (next_used m1)" "p \<noteq> 0" "p \<notin> set (as @ bs)" using chained_mem [OF c, of p] d m1(4) by auto
  obtain m2 m3 m4 where m4: "set_prev p 0 m1 = Some m2" "set_next p (hd0 as) m2 = Some m3" "set_prev (hd0 as) p m3 = Some m4"
    "chained m4 (p # as @ bs)" "freed m4 = freed m1" "dom (next_used m4) = dom (next_used m1)"
    using chained_push [OF m1(2) p(3,1,2)] ne by auto
  have "p \<noteq> first_link f" using d ne fl by (auto simp: hd0_hd)
  then show ?thesis using l s m1 m4 p fl by (simp add: filo_search_def Let_def)
qed

lemma search_rep:
  assumes ok: "hash_ok api mem key_of fe" and rep: "filo_rep mem key_of (f, m) xs" and l: "filo_lock f = Mutex_held"
  shows "\<exists>f' m'. filo_search api k (f, m) = Some (lookup_key key_of k xs, f', m') \<and>
    filo_rep mem key_of (f', m') (if lookup_key key_of k xs = 0 then xs else to_front (lookup_key key_of k xs) xs) \<and>
    freed m' = freed m \<and> dom (next_used m') = dom (next_used m) \<and> filo_lock f' = Mutex_held \<and> m_size f' = m_size f"
proof -
  let ?p = "lookup_key key_of k xs"
  have c: "chained m xs" and fl: "first_link f = hd0 xs" "last_link f = hd0 (rev xs)" and mem: "mem (filo_cache f) = set xs"
    using rep by (simp_all add: filo_rep_def)
  have s: "hash_search api (filo_cache f) k = ?p"
    using hash_ok_search [OF ok mem] rep by (simp add: filo_rep_def lookup_key_def)
  show ?thesis
  proof (cases "?p = 0 \<or> ?p = first_link f")
    case True
    have "to_front ?p xs = xs" if "?p \<noteq> 0" using True that fl by (cases xs) (auto simp: to_front_def)
    then show ?thesis using search_first [OF l s True] rep l by auto
  next
    case False
    then obtain as bs where xs: "xs = as @ ?p # bs" using lookup_key_mem [of key_of k xs] by (metis split_list)
    have "hd0 xs = ?p" if "as = []" using xs that by (metis append_Nil hd0_simps(2))
    then have ne: "as \<noteq> []" using False fl by auto
    have d: "?p \<notin> set as" using c xs unfolding chained_def by (metis distinct_append disjoint_insert(2) list.simps(15))
    have tf: "to_front ?p xs = ?p # as @ bs" using d by (subst (2) xs) (simp add: to_front_def remove1_append)
    obtain m' where m': "filo_search api k (f, m) = Some (?p, f\<lparr>last_link := hd0 (rev (as @ bs)), first_link := ?p\<rparr>, m')"
      "chained m' (?p # as @ bs)" "freed m' = freed m" "dom (next_used m') = dom (next_used m)"
      using search_moves [of m as ?p bs f api k] c fl ne s l unfolding xs [symmetric] by (metis hd0_append xs)
    have st: "set (?p # as @ bs) = set xs" "length (?p # as @ bs) = length xs" 
      using set_to_front [of ?p xs] lookup_key_mem [of key_of k xs] c False unfolding tf by (simp_all add: chained_def)
    have h: "hd0 (rev (as @ bs)) = hd0 (rev (?p # as @ bs))" using ne hd0_append [of "rev (as @ bs)" "[?p]"] by simp
    show ?thesis using m' rep l False st h unfolding tf
      by (intro exI [of _ "f\<lparr>last_link := hd0 (rev (as @ bs)), first_link := ?p\<rparr>"] exI [of _ m']) (simp add: filo_rep_def)
  qed
qed

text \<open>The state outside the chain that most operations keep.\<close>

definition same_setup :: "'h hash_filo \<Rightarrow> 'h hash_filo \<Rightarrow> bool" where
  "same_setup f f' \<longleftrightarrow> m_size f' = m_size f \<and> free_element f' = free_element f \<and> filo_init f' = filo_init f \<and>
     filo_lock f' = filo_lock f"

lemma hash_ok_results:
  assumes "hash_ok api mem key_of True"
  shows "p \<in> mem h \<Longrightarrow> mem (snd (hash_delete api p h)) = mem h - {p} \<and> fst (hash_delete api p h) = [p]"
    and "distinct (fst (hash_free api h)) \<and> set (fst (hash_free api h)) = mem h"
    and "mem (snd (hash_insert api p h)) = (if fst (hash_insert api p h) then mem h else insert p (mem h))"
    and "mem (hash_init api) = {}"
  using assms by (simp_all add: hash_ok_def split_beta)

lemma evict_rep:
  assumes ok: "hash_ok api mem key_of True" and rep: "filo_rep mem key_of (f, m) (ys @ [e])"
  shows "\<exists>f' m'. filo_evict api (f, m) = Some (f', m') \<and> filo_rep mem key_of (f', m') ys \<and> same_setup f f' \<and>
    freed m' = e # freed m \<and> dom (next_used m') = dom (next_used m) - {e}"
proof -
  have c: "chained m (ys @ [e])" and fl: "first_link f = hd0 (ys @ [e])" "last_link f = e"
    and mem: "mem (filo_cache f) = insert e (set ys)" and d: "e \<notin> set ys"
    using rep by (simp_all add: filo_rep_def chained_def)
  have e: "e \<in> dom (next_used m)" using chained_mem [OF c, of e] by simp
  let ?f1 = "f\<lparr>last_link := hd0 (rev ys), first_link := hd0 ys\<rparr>"
  have "\<exists>m1. (if hd0 (rev ys) \<noteq> 0 then do { m \<leftarrow> set_next (hd0 (rev ys)) 0 m; Some (f\<lparr>last_link := hd0 (rev ys)\<rparr>, m) }
      else Some (f\<lparr>last_link := hd0 (rev ys), first_link := 0\<rparr>, m)) = Some (?f1, m1) \<and>
      chained m1 ys \<and> freed m1 = freed m \<and> dom (next_used m1) = dom (next_used m)"
  proof (cases "ys = []")
    case True
    then show ?thesis using chained_chop(3) [OF c] by simp
  next
    case False
    then have "hd0 (rev ys) \<noteq> 0" "f\<lparr>last_link := hd0 (rev ys)\<rparr> = ?f1" using chained_mem [OF c, of "last ys"] fl
      by (simp_all add: hd0_rev)
    then show ?thesis using chained_chop(2) [OF c False] by auto
  qed
  then obtain m1 where m1: "(if hd0 (rev ys) \<noteq> 0 then do { m \<leftarrow> set_next (hd0 (rev ys)) 0 m; Some (f\<lparr>last_link := hd0 (rev ys)\<rparr>, m) }
      else Some (f\<lparr>last_link := hd0 (rev ys), first_link := 0\<rparr>, m)) = Some (?f1, m1)"
    "chained m1 ys" "freed m1 = freed m" "dom (next_used m1) = dom (next_used m)" by blast
  obtain h where h: "hash_delete api e (filo_cache f) = ([e], h)" "mem h = mem (filo_cache f) - {e}"
    using hash_ok_results(1) [OF ok, of e "filo_cache f"] mem by (metis insertI1 prod.collapse)
  obtain m2 where m2: "free_elem e m1 = Some m2" "chained m2 ys" "freed m2 = e # freed m1"
    "dom (next_used m2) = dom (next_used m1) - {e}" using chained_free [OF m1(2) d] e m1(4) by auto
  have "filo_evict api (f, m) = Some (?f1\<lparr>filo_cache := h\<rparr>, m2)"
    using m1(1) h(1) m2(1) chained_chop(1) [OF c] fl(2) by (simp add: filo_evict_def)
  then show ?thesis using m2 m1 h d mem rep
    by (intro exI [of _ "?f1\<lparr>filo_cache := h\<rparr>"] exI [of _ m2]) (auto simp: filo_rep_def same_setup_def)
qed

lemma insert_rep:
  assumes ok: "hash_ok api mem key_of True" and rep: "filo_rep mem key_of (f, m) xs" and room: "length xs < unat (m_size f)"
    and size: "hash_records api (filo_cache f) \<noteq> m_size f" and p: "p \<in> dom (next_used m)" "p \<noteq> 0" "key_of p \<notin> key_of ` set xs"
  shows "\<exists>failed f' m' ys. filo_add api p (f, m) = Some (failed, f', m') \<and>
    ys = (if failed then xs else p # xs) \<and> filo_rep mem key_of (f', m') ys \<and> same_setup f f' \<and>
    freed m' = (if failed then p # freed m else freed m) \<and>
    dom (next_used m') = (if failed then dom (next_used m) - {p} else dom (next_used m))"
proof -
  have c: "chained m xs" and fl: "first_link f = hd0 xs" "last_link f = hd0 (rev xs)" "free_element f" "m_size f \<noteq> 0"
    and n: "p \<notin> set xs"
    using rep room p by (auto simp: filo_rep_def)
  obtain failed h where h: "hash_insert api p (filo_cache f) = (failed, h)" by fastforce
  then have mem: "mem h = (if failed then set xs else insert p (set xs))"
    using hash_ok_results(3) [OF ok, of p "filo_cache f"] rep by (simp add: filo_rep_def)
  show ?thesis
  proof (cases failed)
    case True
    obtain m' where m': "free_elem p m = Some m'" "chained m' xs" "freed m' = p # freed m" "dom (next_used m') = dom (next_used m) - {p}"
      using chained_free [OF c n p(1)] by blast
    then have "filo_add api p (f, m) = Some (True, f\<lparr>filo_cache := h\<rparr>, m')"
      using size fl h True by (simp add: filo_add_def)
    then show ?thesis using m' mem True rep
      by (intro exI [of _ True] exI [of _ "f\<lparr>filo_cache := h\<rparr>"] exI [of _ m'] exI [of _ xs])
        (simp add: filo_rep_def same_setup_def)
  next
    case False
    obtain m1 m2 m3 where m3: "set_prev p 0 m = Some m1" "set_next p (hd0 xs) m1 = Some m2"
      "if xs = [] then m3 = m2 else set_prev (hd0 xs) p m2 = Some m3" "chained m3 (p # xs)" "freed m3 = freed m"
      "dom (next_used m3) = dom (next_used m)"
      using chained_push [OF c n p(1,2)] by blast
    have z: "hd0 xs = 0 \<longleftrightarrow> xs = []" using chained_facts(2) [OF c] by (cases xs) auto
    let ?f = "f\<lparr>filo_cache := h, last_link := hd0 (rev (p # xs)), first_link := p\<rparr>"
    have "filo_add api p (f, m) = Some (False, ?f, m3)"
      using size fl h False m3(1-3) z by (cases "xs = []") (simp_all add: filo_add_def)
    moreover have "inj_on key_of (set (p # xs))" using rep p by (auto simp: filo_rep_def)
    ultimately show ?thesis using m3 mem False rep room
      by (intro exI [of _ False] exI [of _ ?f] exI [of _ m3] exI [of _ "p # xs"]) (simp add: filo_rep_def same_setup_def)
  qed
qed

lemma rep_records:
  assumes "hash_ok api mem key_of True" and "filo_rep mem key_of (f, m) xs"
  shows "unat (hash_records api (filo_cache f)) = length xs"
proof -
  have "unat (m_size f) < 2 ^ 32" using unat_less_2p [of "m_size f"] by simp
  then show ?thesis using assms(2) by (intro hash_ok_records [OF assms(1)]) (auto simp: filo_rep_def chained_def)
qed

lemma add_rep:
  assumes ok: "hash_ok api mem key_of True" and rep: "filo_rep mem key_of (f, m) xs" and n: "m_size f \<noteq> 0"
    and p: "p \<in> dom (next_used m)" "p \<noteq> 0" "key_of p \<notin> key_of ` set xs"
  shows "\<exists>failed f' m' ys zs. filo_add api p (f, m) = Some (failed, f', m') \<and>
    zs = (if length xs = unat (m_size f) then butlast xs else xs) \<and> ys = (if failed then zs else p # zs) \<and>
    filo_rep mem key_of (f', m') ys \<and> same_setup f f' \<and>
    mset (freed m') + mset ys = mset (freed m) + mset xs + {#p#} \<and>
    dom (next_used m') \<subseteq> dom (next_used m)"
proof -
  have c: "chained m xs" "length xs \<le> unat (m_size f)" and mem: "mem (filo_cache f) = set xs"
    using rep by (simp_all add: filo_rep_def)
  have 1: "\<exists>failed f' m' ys. filo_add api p (g, k) = Some (failed, f', m') \<and>
      ys = (if failed then zs else p # zs) \<and> filo_rep mem key_of (f', m') ys \<and> same_setup g f' \<and>
      freed m' = (if failed then p # freed k else freed k) \<and>
      dom (next_used m') = (if failed then dom (next_used k) - {p} else dom (next_used k))"
    if "filo_rep mem key_of (g, k) zs" "length zs < unat (m_size g)" "p \<in> dom (next_used k)" "key_of p \<notin> key_of ` set zs" for g k zs
    by (rule insert_rep [OF ok that(1,2) _ that(3) p(2) that(4)]) (use rep_records [OF ok that(1)] that(2) in auto)
  show ?thesis
  proof (cases "length xs = unat (m_size f)")
    case False
    then have "length xs < unat (m_size f)" using c(2) by simp
    then show ?thesis using 1 [OF rep _ p(1,3)] False by fastforce
  next
    case True
    then have ne: "xs \<noteq> []" using n by (auto simp: unat_eq_0)
    then obtain zs e where xs: "xs = zs @ [e]" by (metis append_butlast_last_id)
    obtain g k where g: "filo_evict api (f, m) = Some (g, k)" "filo_rep mem key_of (g, k) zs" "same_setup f g"
      "freed k = e # freed m" "dom (next_used k) = dom (next_used m) - {e}"
      using evict_rep [OF ok] rep unfolding xs by blast
    have full: "hash_records api (filo_cache f) = m_size f" using True rep_records [OF ok rep] by (simp add: word_unat_eq_iff)
    have pe: "p \<noteq> e" "key_of p \<notin> key_of ` set zs" using p(3) by (auto simp: xs)
    have "length zs < unat (m_size g)" using True g(3) by (simp add: xs same_setup_def)
    with 1 [OF g(2) this _ pe(2)] p(1) pe(1) g(5) obtain failed f' m' ys where
      2: "filo_add api p (g, k) = Some (failed, f', m')" "ys = (if failed then zs else p # zs)" "filo_rep mem key_of (f', m') ys"
      "same_setup g f'" "freed m' = (if failed then p # freed k else freed k)"
      "dom (next_used m') = (if failed then dom (next_used k) - {p} else dom (next_used k))" by auto
    have nf: "hash_records api (filo_cache g) \<noteq> m_size g"
      using rep_records [OF ok g(2)] \<open>length zs < unat (m_size g)\<close> by auto
    have "filo_add api p (f, m) = filo_add api p (g, k)"
      using g(1,3) full nf n by (simp add: filo_add_def same_setup_def)
    moreover have "mset (freed m') + mset ys = mset (freed m) + mset xs + {#p#}" "same_setup f f'"
      "dom (next_used m') \<subseteq> dom (next_used m)" using 2 g by (auto simp: xs same_setup_def)
    ultimately show ?thesis using 2(1-3) True
      by (intro exI [of _ failed] exI [of _ f'] exI [of _ m'] exI [of _ ys] exI [of _ zs]) (simp add: xs)
  qed
qed

lemma clear_rep:
  assumes ok: "hash_ok api mem key_of True" and rep: "filo_rep mem key_of (f\<lparr>m_size := k\<rparr>, m) xs"
    and l: "if locked then filo_lock f = Mutex_held else filo_lock f \<noteq> Mutex_held"
  shows "\<exists>f' m'. filo_clear api locked (f, m) = Some (f', m') \<and> filo_rep mem key_of (f', m') [] \<and>
    mset (freed m') = mset xs + mset (freed m) \<and> dom (next_used m') = dom (next_used m) - set xs \<and>
    m_size f' = m_size f \<and> filo_lock f' = (if locked then Mutex_held else Mutex_free)"
proof -
  let ?ps = "fst (hash_free api (filo_cache f))"
  have ps: "distinct ?ps" "set ?ps = set xs"
    using hash_ok_results(2) [OF ok, of "filo_cache f"] rep by (simp_all add: filo_rep_def)
  have c: "chained m xs" using rep by (simp add: filo_rep_def)
  then have "chained m []" by (simp add: chained_def)
  moreover have "set ?ps \<subseteq> dom (next_used m)" using chained_facts(3) [OF c] ps by simp
  ultimately obtain m' where m': "free_elems ?ps m = Some m'" "chained m' []" "mset (freed m') = mset ?ps + mset (freed m)"
    "dom (next_used m') = dom (next_used m) - set ?ps" using chained_frees [of m "[]" ?ps] ps(1) by auto
  have mp: "mset ?ps = mset xs" using ps c by (simp add: chained_def set_eq_iff_mset_eq_distinct)
  let ?f = "(if filo_init f then f else f\<lparr>filo_init := True, filo_lock := Mutex_free\<rparr>)
    \<lparr>first_link := 0, last_link := 0, filo_cache := hash_init api, filo_lock := if locked then Mutex_held else Mutex_free\<rparr>"
  have i: "filo_init f \<longleftrightarrow> filo_lock f \<noteq> Mutex_uninit" using rep by (simp add: filo_rep_def)
  have "filo_clear api locked (f, m) = Some (?f, m')"
    using l i m'(1) by (cases "filo_lock f"; cases locked) (auto simp: filo_clear_def split_beta)
  then show ?thesis using m' mp ps rep i l hash_ok_results(4) [OF ok]
    by (intro exI [of _ ?f] exI [of _ m']) (auto simp: filo_rep_def)
qed

section \<open>Programs\<close>

datatype 'k filo_cmd =
    F_new ptr ptr ptr  \<comment> \<open>an element is allocated; its links hold garbage\<close>
  | F_lock
  | F_unlock
  | F_search 'k
  | F_add ptr
  | F_clear
  | F_resize uint
  | F_first
  | F_last

datatype filo_out = F_done | F_ptr ptr | F_bool bool

fun filo_step :: "('h, 'k) hash_api \<Rightarrow> 'k filo_cmd \<Rightarrow> 'h filo_state \<Rightarrow> (filo_out \<times> 'h filo_state) option" where
  "filo_step api (F_new p a b) (f, m) =
     (if p = 0 \<or> p \<in> dom (next_used m) \<or> p \<in> set (freed m) then None
      else Some (F_done, f, m\<lparr>next_used := (next_used m)(p \<mapsto> a), prev_used := (prev_used m)(p \<mapsto> b)\<rparr>))"
| "filo_step api F_lock (f, m) = map_option (\<lambda>l. (F_done, f\<lparr>filo_lock := l\<rparr>, m)) (mutex_lock (filo_lock f))"
| "filo_step api F_unlock (f, m) = map_option (\<lambda>l. (F_done, f\<lparr>filo_lock := l\<rparr>, m)) (mutex_unlock (filo_lock f))"
| "filo_step api (F_search k) s = map_option (\<lambda>(p, s). (F_ptr p, s)) (filo_search api k s)"
| "filo_step api (F_add p) s = map_option (\<lambda>(b, s). (F_bool b, s)) (filo_add api p s)"
| "filo_step api F_clear s = map_option (\<lambda>s. (F_done, s)) (filo_clear api False s)"
| "filo_step api (F_resize n) s = map_option (\<lambda>s. (F_done, s)) (filo_resize api n s)"
| "filo_step api F_first s = map_option (\<lambda>p. (F_ptr p, s)) (filo_first s)"
| "filo_step api F_last s = map_option (\<lambda>p. (F_ptr p, s)) (filo_last s)"

text \<open>
  What a caller must respect: the first call that takes the mutex comes after the first \<open>clear\<close>, the mutex is held
  where the code asserts it, and an element that is added is allocated, not in the cache, and has a key of its own.
\<close>

fun filo_allowed :: "('h \<Rightarrow> ptr set) \<Rightarrow> (ptr \<Rightarrow> 'k) \<Rightarrow> 'k filo_cmd \<Rightarrow> 'h filo_state \<Rightarrow> bool" where
  "filo_allowed mem key_of (F_new p a b) (f, m) = (p \<noteq> 0 \<and> p \<notin> dom (next_used m) \<and> p \<notin> set (freed m))"
| "filo_allowed mem key_of F_lock (f, m) = (filo_lock f = Mutex_free)"
| "filo_allowed mem key_of F_unlock (f, m) = (filo_lock f = Mutex_held)"
| "filo_allowed mem key_of (F_search k) (f, m) = (filo_lock f = Mutex_held)"
| "filo_allowed mem key_of (F_add p) (f, m) =
     (filo_lock f = Mutex_held \<and> p \<in> dom (next_used m) \<and> key_of p \<notin> key_of ` mem (filo_cache f))"
| "filo_allowed mem key_of F_clear (f, m) = (filo_lock f \<noteq> Mutex_held)"
| "filo_allowed mem key_of (F_resize n) (f, m) = (filo_lock f = Mutex_free)"
| "filo_allowed mem key_of F_first (f, m) = (filo_lock f = Mutex_held)"
| "filo_allowed mem key_of F_last (f, m) = (filo_lock f = Mutex_held)"

inductive filo_reach :: "('h, 'k) hash_api \<Rightarrow> ('h \<Rightarrow> ptr set) \<Rightarrow> (ptr \<Rightarrow> 'k) \<Rightarrow> 'h filo_state \<Rightarrow> bool" for api mem key_of where
  filo_start: "mem h = {} \<Longrightarrow>
    filo_reach api mem key_of (mk_hash_filo h n True, \<lparr>next_used = Map.empty, prev_used = Map.empty, freed = []\<rparr>)"
| filo_more: "filo_reach api mem key_of s \<Longrightarrow> filo_allowed mem key_of c s \<Longrightarrow> filo_step api c s = Some (x, s') \<Longrightarrow>
    filo_reach api mem key_of s'"

text \<open>
  The specification: a list of at most \<open>n\<close> elements, the most recently used one first. An addition to a full list
  drops the last element; it may fail for lack of memory. The elements given are those before and after the command.
\<close>

fun lru_step :: "(ptr \<Rightarrow> 'k) \<Rightarrow> nat \<Rightarrow> 'k filo_cmd \<Rightarrow> ptr list \<Rightarrow> filo_out \<Rightarrow> ptr list \<Rightarrow> bool" where
  "lru_step key_of n (F_search k) xs x ys \<longleftrightarrow> x = F_ptr (lookup_key key_of k xs) \<and>
     ys = (if lookup_key key_of k xs = 0 then xs else to_front (lookup_key key_of k xs) xs)"
| "lru_step key_of n (F_add p) xs x ys \<longleftrightarrow>
     (if n = 0 then x = F_bool True \<and> ys = []
      else let zs = (if length xs = n then butlast xs else xs) in
        x = F_bool False \<and> ys = p # zs \<or> x = F_bool True \<and> ys = zs)"
| "lru_step key_of n F_clear xs x ys \<longleftrightarrow> x = F_done \<and> ys = []"
| "lru_step key_of n (F_resize k) xs x ys \<longleftrightarrow> x = F_done \<and> ys = []"
| "lru_step key_of n F_first xs x ys \<longleftrightarrow> x = F_ptr (hd0 xs) \<and> ys = xs"
| "lru_step key_of n F_last xs x ys \<longleftrightarrow> x = F_ptr (hd0 (rev xs)) \<and> ys = xs"
| "lru_step key_of n c xs x ys \<longleftrightarrow> x = F_done \<and> ys = xs"

text \<open>The elements a command hands to the cache.\<close>

fun given :: "nat \<Rightarrow> 'k filo_cmd \<Rightarrow> ptr list" where
  "given n (F_add p) = (if n = 0 then [] else [p])"
| "given n c = []"

lemma resize_rep:
  assumes ok: "hash_ok api mem key_of True" and rep: "filo_rep mem key_of (f, m) xs" and l: "filo_lock f = Mutex_free"
  shows "\<exists>f' m'. filo_resize api n (f, m) = Some (f', m') \<and> filo_rep mem key_of (f', m') [] \<and>
    mset (freed m') = mset xs + mset (freed m) \<and> dom (next_used m') = dom (next_used m) - set xs"
proof -
  let ?g = "f\<lparr>filo_lock := Mutex_held, m_size := n\<rparr>"
  have "filo_rep mem key_of (?g\<lparr>m_size := m_size f\<rparr>, m) xs" using rep l by (simp add: filo_rep_def)
  from clear_rep [OF ok this, of True] obtain f' m' where c: "filo_clear api True (?g, m) = Some (f', m')"
    "filo_rep mem key_of (f', m') []" "mset (freed m') = mset xs + mset (freed m)"
    "dom (next_used m') = dom (next_used m) - set xs" "filo_lock f' = Mutex_held" by auto
  then show ?thesis using l
    by (intro exI [of _ "f'\<lparr>filo_lock := Mutex_free\<rparr>"] exI [of _ m']) (auto simp: filo_resize_def filo_rep_def)
qed

lemma step_add_rep:
  fixes key_of :: "ptr \<Rightarrow> 'k"
  assumes ok: "hash_ok api mem key_of True" and rep: "filo_rep mem key_of (f, m) xs"
    and p: "p \<in> dom (next_used m)" "p \<noteq> 0" "key_of p \<notin> key_of ` set xs"
  shows "\<exists>b f' m' ys. filo_add api p (f, m) = Some (b, f', m') \<and> lru_step key_of (unat (m_size f)) (F_add p) xs (F_bool b) ys \<and>
    filo_rep mem key_of (f', m') ys \<and>
    mset (freed m') + mset ys = mset (freed m) + mset xs + mset (given (unat (m_size f)) (F_add p :: 'k filo_cmd)) \<and>
    dom (next_used m') \<subseteq> dom (next_used m)"
proof (cases "m_size f = 0")
  case True
  then have "xs = []" using rep by (simp add: filo_rep_def)
  then show ?thesis using True rep
    by (intro exI [of _ True] exI [of _ f] exI [of _ m] exI [of _ xs]) (simp add: filo_add_def)
next
  case False
  then have "unat (m_size f) \<noteq> 0" by (simp add: unat_eq_0)
  moreover obtain failed f' m' ys zs where "filo_add api p (f, m) = Some (failed, f', m')"
    "zs = (if length xs = unat (m_size f) then butlast xs else xs)" "ys = (if failed then zs else p # zs)"
    "filo_rep mem key_of (f', m') ys" "mset (freed m') + mset ys = mset (freed m) + mset xs + {#p#}"
    "dom (next_used m') \<subseteq> dom (next_used m)"
    using add_rep [OF ok rep False p] by blast
  ultimately show ?thesis
    by (intro exI [of _ failed] exI [of _ f'] exI [of _ m'] exI [of _ ys]) (simp add: Let_def)
qed

lemma search_out:
  assumes "distinct xs"
  shows "mset (if lookup_key key_of k xs = 0 then xs else to_front (lookup_key key_of k xs) xs) = mset xs"
  using lookup_key_mem [of key_of k xs] by (simp add: to_front_def)

lemma step_rep:
  fixes key_of :: "ptr \<Rightarrow> 'k"
  assumes ok: "hash_ok api mem key_of True" and rep: "filo_rep mem key_of (f, m) xs" and allowed: "filo_allowed mem key_of c (f, m)"
    and nz: "0 \<notin> dom (next_used m)"
  shows "\<exists>x f' m' ys. filo_step api c (f, m) = Some (x, f', m') \<and> lru_step key_of (unat (m_size f)) c xs x ys \<and>
    filo_rep mem key_of (f', m') ys \<and>
    mset (freed m') + mset ys = mset (freed m) + mset xs + mset (given (unat (m_size f)) c) \<and> 0 \<notin> dom (next_used m')"
proof -
  have c: "chained m xs" and mem: "mem (filo_cache f) = set xs"
    using rep by (simp_all add: filo_rep_def)
  show ?thesis
  proof (cases c)
    case (F_new p a b)
    then have p: "p \<noteq> 0" "p \<notin> dom (next_used m)" "p \<notin> set (freed m)" using allowed by simp_all
    moreover have "p \<notin> set xs" using chained_mem [OF c] p(2) by blast
    ultimately show ?thesis using rep nz F_new by (auto simp: filo_rep_def chained_def)
  next
    case F_lock
    then show ?thesis using allowed rep nz by (auto simp: filo_rep_def)
  next
    case F_unlock
    then show ?thesis using allowed rep nz by (auto simp: filo_rep_def)
  next
    case (F_search k)
    then have l: "filo_lock f = Mutex_held" using allowed by simp
    define ys where "ys = (if lookup_key key_of k xs = 0 then xs else to_front (lookup_key key_of k xs) xs)"
    have "mset ys = mset xs" using search_out [of xs key_of k] c by (simp add: ys_def chained_def)
    moreover obtain f' m' where "filo_search api k (f, m) = Some (lookup_key key_of k xs, f', m')"
      "filo_rep mem key_of (f', m') ys" "freed m' = freed m" "dom (next_used m') = dom (next_used m)"
      using search_rep [OF ok rep l, of k] unfolding ys_def by blast
    ultimately show ?thesis using nz F_search ys_def
      by (intro exI [of _ "F_ptr (lookup_key key_of k xs)"] exI [of _ f'] exI [of _ m'] exI [of _ ys]) simp
  next
    case (F_add p)
    then have p: "p \<in> dom (next_used m)" "p \<noteq> 0" "key_of p \<notin> key_of ` set xs" using allowed mem nz by auto
    obtain b f' m' ys where a: "filo_add api p (f, m) = Some (b, f', m')"
      "lru_step key_of (unat (m_size f)) (F_add p) xs (F_bool b) ys" "filo_rep mem key_of (f', m') ys"
      "mset (freed m') + mset ys = mset (freed m) + mset xs + mset (given (unat (m_size f)) (F_add p :: 'k filo_cmd))"
      "dom (next_used m') \<subseteq> dom (next_used m)"
      using step_add_rep [OF ok rep p] by blast
    then have "0 \<notin> dom (next_used m')" using nz by blast
    then show ?thesis using a unfolding F_add
      by (intro exI [of _ "F_bool b"] exI [of _ f'] exI [of _ m'] exI [of _ ys]) simp
  next
    case F_clear
    then have "filo_rep mem key_of (f\<lparr>m_size := m_size f\<rparr>, m) xs" using rep by simp
    from clear_rep [OF ok this, of False] show ?thesis using F_clear allowed nz by auto
  next
    case (F_resize n)
    then show ?thesis using resize_rep [OF ok rep, of n] allowed nz by auto
  next
    case F_first
    then show ?thesis using allowed rep nz by (auto simp: filo_first_def filo_rep_def)
  next
    case F_last
    then show ?thesis using allowed rep nz by (auto simp: filo_last_def filo_rep_def)
  qed
qed

lemma reach_rep:
  assumes ok: "hash_ok api mem key_of True" and "filo_reach api mem key_of s"
  shows "0 \<notin> dom (next_used (snd s)) \<and> (\<exists>xs. filo_rep mem key_of s xs)"
  using assms(2)
proof induction
  case (filo_start h n)
  then show ?case by (auto simp: filo_rep_def mk_hash_filo_def chained_def)
next
  case (filo_more s c x s')
  then obtain f m xs where s: "s = (f, m)" "filo_rep mem key_of (f, m) xs" "0 \<notin> dom (next_used m)" by (cases s) auto
  obtain x' f' m' ys where "filo_step api c (f, m) = Some (x', f', m')" "filo_rep mem key_of (f', m') ys"
    "0 \<notin> dom (next_used m')"
    using step_rep [OF ok s(2) _ s(3), of c] filo_more.hyps(2) unfolding s(1) by blast
  then show ?case using filo_more.hyps(3) s(1) by auto
qed

section \<open>Properties\<close>

text \<open>
  C4. Over any hash table that keeps its contract, and whatever insertions it refuses, the cache is a list of at most
  \<open>m_size\<close> elements in the order of their last use: no operation of a caller that respects the asserts touches a freed
  element or fails, a search moves what it finds to the front, an addition to a full cache drops the least recently
  used element, and every element handed to the cache is either in it or has been freed exactly once.
\<close>

theorem filo_is_lru:
  assumes "hash_ok api mem key_of True" and "filo_reach api mem key_of s" and "filo_allowed mem key_of c s"
  shows "\<exists>xs x s' ys. filo_rep mem key_of s xs \<and> filo_step api c s = Some (x, s') \<and>
    lru_step key_of (unat (m_size (fst s))) c xs x ys \<and> filo_rep mem key_of s' ys \<and>
    mset (freed (snd s')) + mset ys = mset (freed (snd s)) + mset xs + mset (given (unat (m_size (fst s))) c)"
proof -
  obtain f m xs where s: "s = (f, m)" "filo_rep mem key_of (f, m) xs" "0 \<notin> dom (next_used m)"
    using reach_rep [OF assms(1,2)] by (cases s) auto
  obtain x f' m' ys where "filo_step api c (f, m) = Some (x, f', m')" "lru_step key_of (unat (m_size f)) c xs x ys"
    "filo_rep mem key_of (f', m') ys"
    "mset (freed m') + mset ys = mset (freed m) + mset xs + mset (given (unat (m_size f)) c)"
    using step_rep [OF assms(1) s(2) _ s(3), of c] assms(3) unfolding s(1) by blast
  then show ?thesis using s(1,2) by (intro exI [of _ xs] exI [of _ x] exI [of _ "(f', m')"] exI [of _ ys]) simp
qed

text \<open>A table that is a list, with the addresses as keys.\<close>

definition list_hash :: "(ptr list, ptr) hash_api" where
  "list_hash = \<lparr>hash_init = [], hash_search = (\<lambda>h k. lookup_key id k h), hash_insert = (\<lambda>p h. (False, p # h)),
     hash_delete = (\<lambda>p h. ([p], removeAll p h)), hash_free = (\<lambda>h. (remdups h, [])),
     hash_records = (\<lambda>h. of_nat (card (set h)))\<rparr>"

lemma list_hash_ok: "hash_ok list_hash set id True"
proof -
  have "lookup_key id k h = (if k \<in> set h then k else 0)" for k :: ptr and h
    by (induction h) (auto simp: lookup_key_def)
  then show ?thesis by (auto simp: hash_ok_def list_hash_def unat_of_nat_small)
qed

fun filo_run :: "('h, 'k) hash_api \<Rightarrow> ('h \<Rightarrow> ptr set) \<Rightarrow> (ptr \<Rightarrow> 'k) \<Rightarrow> 'k filo_cmd list \<Rightarrow> 'h filo_state \<Rightarrow> 'h filo_state option" where
  "filo_run api mem key_of [] s = Some s"
| "filo_run api mem key_of (c # cs) s =
     (if filo_allowed mem key_of c s then
        (case filo_step api c s of None \<Rightarrow> None | Some (x, s) \<Rightarrow> filo_run api mem key_of cs s)
      else None)"

lemma filo_run_reach:
  "filo_run api mem key_of cs s = Some s' \<Longrightarrow> filo_reach api mem key_of s \<Longrightarrow> filo_reach api mem key_of s'"
  by (induction cs arbitrary: s) (auto split: if_splits option.splits intro: filo_more)

definition full_cache :: "ptr list filo_state option" where
  "full_cache = filo_run list_hash set id
     [F_clear, F_new 1 0 0, F_new 2 0 0, F_new 3 0 0, F_lock, F_add 1, F_add 2, F_search 1]
     (mk_hash_filo [] 2 True, \<lparr>next_used = Map.empty, prev_used = Map.empty, freed = []\<rparr>)"

lemmas filo_eval = full_cache_def filo_clear_def mk_hash_filo_def list_hash_def filo_add_def filo_search_def filo_unlink_def
  filo_evict_def set_next_def set_prev_def free_elem_def lookup_key_def Let_def

theorem filo_is_lru_witness:
  "\<exists>s s' x. full_cache = Some s \<and> filo_step list_hash (F_add 3) s = Some (x, s') \<and> freed (snd s') = [2]"
proof -
  obtain s where s: "full_cache = Some s" "filo_allowed set id (F_add 3) s" "m_size (fst s) = 2" "freed (snd s) = []"
    and e: "case filo_step list_hash (F_add 3) s of None \<Rightarrow> False | Some (x, s') \<Rightarrow> freed (snd s') = [2]"
    by (simp add: filo_eval)
  have "filo_reach list_hash set id s"
    by (rule filo_run_reach [OF s(1) [unfolded full_cache_def] filo_start]) simp
  from filo_is_lru [OF list_hash_ok this s(2)] obtain x s' where x: "filo_step list_hash (F_add 3) s = Some (x, s')" by blast
  then have "freed (snd s') = [2]" using e by (simp del: filo_step.simps)
  then show ?thesis using s(1) x by blast
qed

end
