(* ===== verification/Sql_Plist.thy ===== *)
theory Sql_Plist
  imports Heap_Path Simulation "HOL-Library.Monad_Syntax"
begin

text \<open>
  \<open>I_P_List\<close> (\<open>sql_plist.h\<close>): the doubly linked list through fields of its elements, with policies for counting
  and for insertion at the end. An element has a pointer to the next element and a pointer to the pointer
  that points to it: the first field of a list or the next field of another element.
\<close>

section \<open>Lists and elements\<close>

datatype pslot = First nat | Next ptr

datatype counter_policy = Null_counter | Counter uint

datatype push_policy = No_push_back | Fast_push_back pslot

record I_P_List =
  m_first :: ptr
  m_count :: counter_policy
  m_push :: push_policy

record plist_heap =
  plists :: "nat \<Rightarrow> I_P_List option"
  pnext :: "ptr \<Rightarrow> ptr option"
  pprev :: "ptr \<Rightarrow> pslot option"

text \<open>The policies.\<close>

fun c_reset :: "counter_policy \<Rightarrow> counter_policy" where
  "c_reset Null_counter = Null_counter"
| "c_reset (Counter n) = Counter 0"

fun c_inc :: "counter_policy \<Rightarrow> counter_policy" where
  "c_inc Null_counter = Null_counter"
| "c_inc (Counter n) = Counter (n + 1)"

fun c_dec :: "counter_policy \<Rightarrow> counter_policy" where
  "c_dec Null_counter = Null_counter"
| "c_dec (Counter n) = Counter (n - 1)"

fun c_elements :: "counter_policy \<Rightarrow> uint option" where
  "c_elements Null_counter = None"
| "c_elements (Counter n) = Some n"

fun i_set_last :: "pslot \<Rightarrow> push_policy \<Rightarrow> push_policy" where
  "i_set_last s No_push_back = No_push_back"
| "i_set_last s (Fast_push_back t) = Fast_push_back s"

fun i_get_last :: "push_policy \<Rightarrow> pslot option" where
  "i_get_last No_push_back = None"
| "i_get_last (Fast_push_back t) = Some t"

text \<open>Memory accesses; a dead pointer is \<open>None\<close>.\<close>

fun load_slot :: "pslot \<Rightarrow> plist_heap \<Rightarrow> ptr option" where
  "load_slot (First l) h = map_option m_first (plists h l)"
| "load_slot (Next p) h = pnext h p"

fun store_slot :: "pslot \<Rightarrow> ptr \<Rightarrow> plist_heap \<Rightarrow> plist_heap option" where
  "store_slot (First l) v h = map_option (\<lambda>x. h\<lparr>plists := (plists h)(l \<mapsto> x\<lparr>m_first := v\<rparr>)\<rparr>) (plists h l)"
| "store_slot (Next p) v h = map_option (\<lambda>_. h\<lparr>pnext := (pnext h)(p \<mapsto> v)\<rparr>) (pnext h p)"

definition store_prev :: "ptr \<Rightarrow> pslot \<Rightarrow> plist_heap \<Rightarrow> plist_heap option" where
  "store_prev p s h = map_option (\<lambda>_. h\<lparr>pprev := (pprev h)(p \<mapsto> s)\<rparr>) (pprev h p)"

definition upd_list :: "nat \<Rightarrow> (I_P_List \<Rightarrow> I_P_List) \<Rightarrow> plist_heap \<Rightarrow> plist_heap option" where
  "upd_list l f h = map_option (\<lambda>x. h\<lparr>plists := (plists h)(l \<mapsto> f x)\<rparr>) (plists h l)"

definition set_last :: "nat \<Rightarrow> pslot \<Rightarrow> plist_heap \<Rightarrow> plist_heap option" where
  "set_last l s = upd_list l (\<lambda>x. x\<lparr>m_push := i_set_last s (m_push x)\<rparr>)"

definition inc :: "nat \<Rightarrow> plist_heap \<Rightarrow> plist_heap option" where
  "inc l = upd_list l (\<lambda>x. x\<lparr>m_count := c_inc (m_count x)\<rparr>)"

definition dec :: "nat \<Rightarrow> plist_heap \<Rightarrow> plist_heap option" where
  "dec l = upd_list l (\<lambda>x. x\<lparr>m_count := c_dec (m_count x)\<rparr>)"

section \<open>Operations\<close>

text \<open>The constructor; the flags choose the policies.\<close>

definition mk_plist :: "nat \<Rightarrow> bool \<Rightarrow> bool \<Rightarrow> plist_heap \<Rightarrow> plist_heap" where
  "mk_plist l counted fast h = h\<lparr>plists := (plists h)(l \<mapsto>
     \<lparr>m_first = 0, m_count = (if counted then Counter 0 else Null_counter),
      m_push = (if fast then Fast_push_back (First l) else No_push_back)\<rparr>)\<rparr>"

definition pl_empty :: "nat \<Rightarrow> plist_heap \<Rightarrow> plist_heap option" where
  "pl_empty l = upd_list l (\<lambda>x. x\<lparr>m_first := 0, m_count := c_reset (m_count x), m_push := i_set_last (First l) (m_push x)\<rparr>)"

definition pl_is_empty :: "nat \<Rightarrow> plist_heap \<Rightarrow> bool option" where
  "pl_is_empty l h = map_option (\<lambda>x. m_first x = 0) (plists h l)"

definition pl_front :: "nat \<Rightarrow> plist_heap \<Rightarrow> ptr option" where
  "pl_front l h = map_option m_first (plists h l)"

definition pl_push_front :: "nat \<Rightarrow> ptr \<Rightarrow> plist_heap \<Rightarrow> plist_heap option" where
  "pl_push_front l a h = do {
     f \<leftarrow> load_slot (First l) h;
     h \<leftarrow> store_slot (Next a) f h;
     h \<leftarrow> (if f \<noteq> 0 then store_prev f (Next a) h else set_last l (Next a) h);
     h \<leftarrow> store_slot (First l) a h;
     h \<leftarrow> store_prev a (First l) h;
     inc l h }"

definition pl_push_back :: "nat \<Rightarrow> ptr \<Rightarrow> plist_heap \<Rightarrow> plist_heap option" where
  "pl_push_back l a h = do {
     x \<leftarrow> plists h l;
     last \<leftarrow> i_get_last (m_push x);
     v \<leftarrow> load_slot last h;
     h \<leftarrow> store_slot (Next a) v h;
     h \<leftarrow> store_slot last a h;
     h \<leftarrow> store_prev a last h;
     h \<leftarrow> set_last l (Next a) h;
     inc l h }"

definition pl_insert_after :: "nat \<Rightarrow> ptr \<Rightarrow> ptr \<Rightarrow> plist_heap \<Rightarrow> plist_heap option" where
  "pl_insert_after l pos a h =
     (if pos = 0 then pl_push_front l a h
      else do {
        n \<leftarrow> load_slot (Next pos) h;
        h \<leftarrow> store_slot (Next a) n h;
        h \<leftarrow> store_prev a (Next pos) h;
        h \<leftarrow> store_slot (Next pos) a h;
        old_next \<leftarrow> load_slot (Next a) h;
        h \<leftarrow> (if old_next \<noteq> 0 then store_prev old_next (Next a) h else set_last l (Next a) h);
        inc l h })"

definition pl_remove :: "nat \<Rightarrow> ptr \<Rightarrow> plist_heap \<Rightarrow> plist_heap option" where
  "pl_remove l a h = do {
     next \<leftarrow> load_slot (Next a) h;
     pa \<leftarrow> pprev h a;
     h \<leftarrow> (if next \<noteq> 0 then store_prev next pa h else set_last l pa h);
     pa \<leftarrow> pprev h a;
     h \<leftarrow> store_slot pa next h;
     dec l h }"

definition pl_pop_front :: "nat \<Rightarrow> plist_heap \<Rightarrow> (ptr \<times> plist_heap) option" where
  "pl_pop_front l h = do {
     result \<leftarrow> pl_front l h;
     h \<leftarrow> (if result \<noteq> 0 then pl_remove l result h else Some h);
     Some (result, h) }"

text \<open>\<open>swap\<close>; for an empty \<open>rhs\<close> it is this list whose last pointer is set.\<close>

definition pl_swap :: "nat \<Rightarrow> nat \<Rightarrow> plist_heap \<Rightarrow> plist_heap option" where
  "pl_swap l rhs h = do {
     x \<leftarrow> plists h l;
     y \<leftarrow> plists h rhs;
     h \<leftarrow> upd_list l (\<lambda>x. x\<lparr>m_first := m_first y, m_push := m_push y\<rparr>) h;
     h \<leftarrow> upd_list rhs (\<lambda>y. y\<lparr>m_first := m_first x, m_push := m_push x\<rparr>) h;
     h \<leftarrow> (if m_first y \<noteq> 0 then store_prev (m_first y) (First l) h else set_last l (First l) h);
     h \<leftarrow> (if m_first x \<noteq> 0 then store_prev (m_first x) (First rhs) h else set_last l (First rhs) h);
     h \<leftarrow> upd_list l (\<lambda>z. z\<lparr>m_count := m_count y\<rparr>) h;
     upd_list rhs (\<lambda>z. z\<lparr>m_count := m_count x\<rparr>) h }"

definition pl_elements :: "nat \<Rightarrow> plist_heap \<Rightarrow> uint option" where
  "pl_elements l h = do { x \<leftarrow> plists h l; c_elements (m_count x) }"

text \<open>Iterators.\<close>

record plist_iter =
  it_list :: nat
  it_current :: ptr

definition it_init :: "nat \<Rightarrow> plist_heap \<Rightarrow> plist_iter option" where
  "it_init l h = map_option (\<lambda>f. \<lparr>it_list = l, it_current = f\<rparr>) (pl_front l h)"

definition it_post_inc :: "plist_iter \<Rightarrow> plist_heap \<Rightarrow> (ptr \<times> plist_iter) option" where
  "it_post_inc it h =
     (if it_current it \<noteq> 0
      then map_option (\<lambda>n. (it_current it, it\<lparr>it_current := n\<rparr>)) (load_slot (Next (it_current it)) h)
      else Some (0, it))"

definition it_pre_inc :: "plist_iter \<Rightarrow> plist_heap \<Rightarrow> (ptr \<times> plist_iter) option" where
  "it_pre_inc it h = map_option (\<lambda>n. (n, it\<lparr>it_current := n\<rparr>)) (load_slot (Next (it_current it)) h)"

definition it_rewind :: "plist_iter \<Rightarrow> plist_heap \<Rightarrow> plist_iter option" where
  "it_rewind it h = map_option (\<lambda>f. it\<lparr>it_current := f\<rparr>) (pl_front (it_list it) h)"

section \<open>Lists in the heap\<close>

text \<open>\<open>prevs s xs\<close> pairs every element with the slot that points to it.\<close>

fun prevs :: "(ptr \<Rightarrow> pslot option) \<Rightarrow> pslot \<Rightarrow> ptr list \<Rightarrow> bool" where
  "prevs m s [] = True"
| "prevs m s (x # xs) = (m x = Some s \<and> prevs m (Next x) xs)"

definition end_slot :: "pslot \<Rightarrow> ptr list \<Rightarrow> pslot" where
  "end_slot s xs = (if xs = [] then s else Next (last xs))"

definition list_fields :: "nat \<Rightarrow> bool \<Rightarrow> bool \<Rightarrow> ptr list \<Rightarrow> I_P_List" where
  "list_fields l c f xs =
     \<lparr>m_first = hd0 xs, m_count = (if c then Counter (of_nat (length xs)) else Null_counter),
      m_push = (if f then Fast_push_back (end_slot (First l) xs) else No_push_back)\<rparr>"

definition plist_rep :: "plist_heap \<Rightarrow> nat \<Rightarrow> bool \<Rightarrow> bool \<Rightarrow> ptr list \<Rightarrow> bool" where
  "plist_rep h l c f xs \<longleftrightarrow> plists h l = Some (list_fields l c f xs) \<and>
     path (pnext h) (hd0 xs) xs 0 \<and> prevs (pprev h) (First l) xs \<and> distinct xs"

lemma end_slot_simps [simp]: "end_slot s [] = s" "end_slot s (x # xs) = end_slot (Next x) xs" "end_slot s (xs @ [x]) = Next x"
  by (simp_all add: end_slot_def)

lemma end_slot_append [simp]: "end_slot s (xs @ ys) = end_slot (end_slot s xs) ys"
  by (simp add: end_slot_def)

lemma end_slot_ne: "xs \<noteq> [] \<Longrightarrow> end_slot s xs = Next (last xs)"
  by (simp add: end_slot_def)

lemma hd0_mid [simp]: "hd0 (xs @ b # ys) = (if xs = [] then b else hd0 xs)"
  by (cases xs) auto

lemma last_mem: "xs \<noteq> [] \<Longrightarrow> set xs \<subseteq> D \<Longrightarrow> last xs \<in> D"
  using last_in_set [of xs] by blast

lemma prevs_append [simp]: "prevs m s (xs @ ys) \<longleftrightarrow> prevs m s xs \<and> prevs m (end_slot s xs) ys"
  by (induction xs arbitrary: s) auto

lemma prevs_update [simp]: "a \<notin> set xs \<Longrightarrow> prevs (m(a := v)) s xs = prevs m s xs"
  by (induction xs arbitrary: s) auto

lemma prevs_frame: "prevs m s xs \<Longrightarrow> \<forall>x\<in>set xs. m' x = m x \<Longrightarrow> prevs m' s xs"
  by (induction xs arbitrary: s) auto

lemma prevs_dom: "prevs m s xs \<Longrightarrow> set xs \<subseteq> dom m"
  by (induction xs arbitrary: s) auto

lemma prevs_rehead: "prevs m s xs \<Longrightarrow> distinct xs \<Longrightarrow> prevs (if xs = [] then m else m(hd0 xs \<mapsto> t)) t xs"
  by (cases xs) auto

lemma path_insert:
  assumes "path m p (xs @ b # ys) 0" and "distinct (xs @ b # ys)" and "a \<notin> set (xs @ b # ys)" and "a \<noteq> 0"
  shows "path (m(a \<mapsto> hd0 ys, b \<mapsto> a)) p (xs @ b # a # ys) 0"
proof -
  obtain n where n: "path m p xs b" "m b = Some n" "path m n ys 0" "b \<noteq> 0" using assms(1) by auto
  then show ?thesis using assms path_hd0 [OF n(3)] by auto
qed

text \<open>What an operation on list \<open>l\<close> changes: the list and the elements of \<open>S\<close>.\<close>

definition touched :: "nat \<Rightarrow> ptr set \<Rightarrow> plist_heap \<Rightarrow> plist_heap \<Rightarrow> bool" where
  "touched l S h h' \<longleftrightarrow> (\<forall>m. m \<noteq> l \<longrightarrow> plists h' m = plists h m) \<and>
     (\<forall>p. p \<notin> S \<longrightarrow> pnext h' p = pnext h p \<and> pprev h' p = pprev h p) \<and>
     dom (pnext h') = dom (pnext h) \<and> dom (pprev h') = dom (pprev h)"

lemma touched_frame:
  assumes "plist_rep h m c f ys" and "touched l S h h'" and "m \<noteq> l" and "S \<inter> set ys = {}"
  shows "plist_rep h' m c f ys"
proof -
  have "\<forall>y\<in>set ys. pnext h' y = pnext h y" "\<forall>y\<in>set ys. pprev h' y = pprev h y"
    using assms(2,4) unfolding touched_def by blast+
  then show ?thesis using assms path_frame [of "pnext h"] prevs_frame [of "pprev h"]
    by (simp add: plist_rep_def touched_def)
qed

lemma rep_facts:
  assumes "plist_rep h l c f xs"
  shows "0 \<notin> set xs" and "set xs \<subseteq> dom (pnext h)" and "set xs \<subseteq> dom (pprev h)" and "distinct xs"
  using assms path_nonnull [of "pnext h" "hd0 xs" xs 0] path_dom [of "pnext h" "hd0 xs" xs 0] prevs_dom [of "pprev h" "First l" xs]
  by (simp_all add: plist_rep_def)

lemma rep_hd0: "plist_rep h l c f xs \<Longrightarrow> hd0 xs = 0 \<longleftrightarrow> xs = []"
  using rep_facts(1) [of h l c f xs] by (cases xs) auto

lemma store_prev_Some: "p \<in> dom (pprev h) \<Longrightarrow> store_prev p s h = Some (h\<lparr>pprev := (pprev h)(p \<mapsto> s)\<rparr>)"
  by (auto simp: store_prev_def)

lemma upd_list_Some: "plists h l = Some x \<Longrightarrow> upd_list l g h = Some (h\<lparr>plists := (plists h)(l \<mapsto> g x)\<rparr>)"
  by (simp add: upd_list_def)

lemma hd0_mem: "xs \<noteq> [] \<Longrightarrow> hd0 xs \<in> set xs"
  by (cases xs) auto

lemma list_fields_simps [simp]:
  "m_first (list_fields l c f xs) = hd0 xs"
  "m_count (list_fields l c f xs) = (if c then Counter (of_nat (length xs)) else Null_counter)"
  "m_push (list_fields l c f xs) = (if f then Fast_push_back (end_slot (First l) xs) else No_push_back)"
  by (simp_all add: list_fields_def)

lemma fields_eqI:
  "m_first x = hd0 xs \<Longrightarrow> m_count x = (if c then Counter (of_nat (length xs)) else Null_counter) \<Longrightarrow>
   m_push x = (if f then Fast_push_back (end_slot (First l) xs) else No_push_back) \<Longrightarrow> x = list_fields l c f xs"
  by (simp add: list_fields_def)

section \<open>What the operations do\<close>

lemma push_front_rep:
  assumes rep: "plist_rep h l c f xs" and a: "a \<in> dom (pnext h)" "a \<in> dom (pprev h)" "a \<noteq> 0" "a \<notin> set xs"
  shows "\<exists>h'. pl_push_front l a h = Some h' \<and> plist_rep h' l c f (a # xs) \<and> touched l (insert a (set xs)) h h'"
proof -
  note facts = rep_facts [OF rep]
  obtain va where va: "pnext h a = Some va" using a by auto
  obtain sa where sa: "pprev h a = Some sa" using a by auto
  have l: "plists h l = Some (list_fields l c f xs)" using rep by (simp add: plist_rep_def)
  let ?pp = "if xs = [] then pprev h else (pprev h)(hd0 xs \<mapsto> Next a)"
  let ?h = "\<lparr>plists = (plists h)(l \<mapsto> list_fields l c f (a # xs)), pnext = (pnext h)(a \<mapsto> hd0 xs), pprev = ?pp(a \<mapsto> First l)\<rparr>"
  have h0: "xs \<noteq> [] \<Longrightarrow> hd0 xs \<in> dom (pprev h)" "xs \<noteq> [] \<Longrightarrow> hd0 xs \<noteq> a" using facts a hd0_mem [of xs] by auto
  have "pl_push_front l a h = Some ?h"
  proof (cases "xs = []")
    case True
    then show ?thesis using l va sa
      by (simp add: pl_push_front_def set_last_def inc_def upd_list_def store_prev_def list_fields_def)
  next
    case False
    then obtain y where y: "pprev h (hd0 xs) = Some y" using h0 by auto
    show ?thesis using l va sa y False h0 rep_hd0 [OF rep]
      by (cases h) (simp add: pl_push_front_def set_last_def inc_def upd_list_def store_prev_def list_fields_def end_slot_def add.commute)
  qed
  moreover have "prevs (?pp(a \<mapsto> First l)) (First l) (a # xs)"
    using prevs_rehead [of "pprev h" "First l" xs "Next a"] rep a by (simp add: plist_rep_def)
  then have "plist_rep ?h l c f (a # xs)" using rep a by (simp add: plist_rep_def)
  moreover have "touched l (insert a (set xs)) h ?h" using va sa h0 hd0_mem [of xs] by (auto simp: touched_def)
  ultimately show ?thesis by blast
qed

lemma push_back_rep:
  assumes rep: "plist_rep h l c True xs" and a: "a \<in> dom (pnext h)" "a \<in> dom (pprev h)" "a \<noteq> 0" "a \<notin> set xs"
  shows "\<exists>h'. pl_push_back l a h = Some h' \<and> plist_rep h' l c True (xs @ [a]) \<and> touched l (insert a (set xs)) h h'"
proof -
  note facts = rep_facts [OF rep]
  obtain va where va: "pnext h a = Some va" using a by auto
  obtain sa where sa: "pprev h a = Some sa" using a by auto
  have l: "plists h l = Some (list_fields l c True xs)" using rep by (simp add: plist_rep_def)
  have p: "path (pnext h) (hd0 xs) xs 0" using rep by (simp add: plist_rep_def)
  let ?nx = "if xs = [] then (pnext h)(a \<mapsto> 0) else (pnext h)(a \<mapsto> 0, last xs \<mapsto> a)"
  let ?h = "\<lparr>plists = (plists h)(l \<mapsto> list_fields l c True (xs @ [a])), pnext = ?nx,
    pprev = (pprev h)(a \<mapsto> end_slot (First l) xs)\<rparr>"
  have "pl_push_back l a h = Some ?h"
  proof (cases "xs = []")
    case True
    then show ?thesis using l va sa
      by (simp add: pl_push_back_def set_last_def inc_def upd_list_def store_prev_def list_fields_def)
  next
    case False
    then have n: "pnext h (last xs) = Some 0" "last xs \<noteq> a"
      using p a path_last [of "pnext h" "hd0 xs" "butlast xs" "last xs" 0] last_in_set [OF False] by auto
    then show ?thesis using l va sa False
      by (cases h) (simp add: pl_push_back_def set_last_def inc_def upd_list_def store_prev_def list_fields_def end_slot_def
          hd0_hd add.commute)
  qed
  moreover have "path ?nx (hd0 (xs @ [a])) (xs @ [a]) 0"
    using path_extend [OF p facts(4), of a] a by (cases "xs = []") simp_all
  then have "plist_rep ?h l c True (xs @ [a])" using rep a facts by (simp add: plist_rep_def)
  moreover have "touched l (insert a (set xs)) h ?h"
  proof -
    have "last xs \<in> set xs \<and> (\<exists>v. pnext h (last xs) = Some v)" if "xs \<noteq> []"
      using last_in_set [OF that] last_mem [OF that facts(2)] by auto
    then show ?thesis using va sa by (auto simp: touched_def)
  qed
  ultimately show ?thesis by blast
qed

lemma insert_after_rep:
  assumes rep: "plist_rep h l c f (xs @ b # ys)" and a: "a \<in> dom (pnext h)" "a \<in> dom (pprev h)" "a \<noteq> 0" "a \<notin> set (xs @ b # ys)"
  shows "\<exists>h'. pl_insert_after l b a h = Some h' \<and> plist_rep h' l c f (xs @ b # a # ys) \<and>
    touched l (insert a (set (xs @ b # ys))) h h'"
proof -
  note facts = rep_facts [OF rep]
  have b: "b \<noteq> 0" "a \<noteq> b" "b \<in> dom (pnext h)" using facts a by auto
  have l: "plists h l = Some (list_fields l c f (xs @ b # ys))" and p: "path (pnext h) (hd0 (xs @ b # ys)) (xs @ b # ys) 0"
    and pr: "prevs (pprev h) (First l) xs" "pprev h b = Some (end_slot (First l) xs)" "prevs (pprev h) (Next b) ys"
    using rep by (simp_all add: plist_rep_def)
  have n: "pnext h b = Some (hd0 ys)" using path_next [OF p] .
  have y: "hd0 ys \<noteq> 0 \<longleftrightarrow> ys \<noteq> []" "ys \<noteq> [] \<Longrightarrow> hd0 ys \<in> dom (pprev h) \<and> hd0 ys \<noteq> a \<and> hd0 ys \<notin> set xs \<and> hd0 ys \<noteq> b"
    using facts a hd0_mem [of ys] by (cases ys; auto)+
  let ?pp = "(if ys = [] then (pprev h)(a \<mapsto> Next b) else (pprev h)(a \<mapsto> Next b, hd0 ys \<mapsto> Next a))"
  let ?h = "\<lparr>plists = (plists h)(l \<mapsto> list_fields l c f (xs @ b # a # ys)), pnext = (pnext h)(a \<mapsto> hd0 ys, b \<mapsto> a), pprev = ?pp\<rparr>"
  have "pl_insert_after l b a h = Some ?h"
  proof (cases "ys = []")
    case True
    then show ?thesis using l n a b y
      by (cases h) (auto simp: pl_insert_after_def set_last_def inc_def upd_list_def store_prev_def list_fields_def algebra_simps)
  next
    case False
    then show ?thesis using l n a b y
      by (cases h) (auto simp: pl_insert_after_def set_last_def inc_def upd_list_def store_prev_def list_fields_def
          end_slot_ne algebra_simps)
  qed
  moreover have "path (pnext ?h) (hd0 (xs @ b # a # ys)) (xs @ b # a # ys) 0"
    using path_insert [OF p facts(4) a(4,3)] by (cases xs) simp_all
  moreover have "prevs ?pp (Next a) ys" "prevs ?pp (First l) xs" "?pp a = Some (Next b)" "?pp b = Some (end_slot (First l) xs)"
    using prevs_rehead [of "(pprev h)(a \<mapsto> Next b)" "Next b" ys "Next a"] pr facts(4) a y b by (auto split: if_splits)
  then have "prevs ?pp (First l) (xs @ b # a # ys)" by simp
  then have "plist_rep ?h l c f (xs @ b # a # ys)" using calculation(2) facts(4) a by (simp add: plist_rep_def)
  moreover have "touched l (insert a (set (xs @ b # ys))) h ?h"
    using a b y hd0_mem [of ys] by (auto simp: touched_def)
  ultimately show ?thesis by blast
qed

lemma remove_rep:
  assumes rep: "plist_rep h l c f (xs @ a # ys)"
  shows "\<exists>h'. pl_remove l a h = Some h' \<and> plist_rep h' l c f (xs @ ys) \<and> touched l (set (xs @ a # ys)) h h'"
proof -
  note facts = rep_facts [OF rep]
  have l: "plists h l = Some (list_fields l c f (xs @ a # ys))" and p: "path (pnext h) (hd0 (xs @ a # ys)) (xs @ a # ys) 0"
    and pr: "prevs (pprev h) (First l) xs" "pprev h a = Some (end_slot (First l) xs)" "prevs (pprev h) (Next a) ys"
    using rep by (simp_all add: plist_rep_def)
  have n: "pnext h a = Some (hd0 ys)" using path_next [OF p] .
  have y: "hd0 ys \<noteq> 0 \<longleftrightarrow> ys \<noteq> []" "ys \<noteq> [] \<Longrightarrow> hd0 ys \<in> dom (pprev h) \<and> hd0 ys \<noteq> a \<and> hd0 ys \<notin> set xs"
    using facts hd0_mem [of ys] by (cases ys; auto)+
  have x: "xs \<noteq> [] \<Longrightarrow> last xs \<in> dom (pnext h)" using last_mem [of xs] facts(2) by simp
  let ?pp = "(if ys = [] then pprev h else (pprev h)(hd0 ys \<mapsto> end_slot (First l) xs))"
  let ?nx = "(if xs = [] then pnext h else (pnext h)(last xs \<mapsto> hd0 ys))"
  let ?h = "\<lparr>plists = (plists h)(l \<mapsto> list_fields l c f (xs @ ys)), pnext = ?nx, pprev = ?pp\<rparr>"
  have "pl_remove l a h = Some ?h"
    using l n pr(2) y x
    by (cases h; cases "xs = []"; cases "ys = []")
      (auto simp: pl_remove_def set_last_def dec_def upd_list_def store_prev_def list_fields_def end_slot_ne algebra_simps)
  moreover have "path ?nx (hd0 (xs @ ys)) (xs @ ys) 0"
    using path_remove [OF p facts(4)] p n by (cases "xs = []") (auto dest: path_hd0)
  moreover have "prevs ?pp (end_slot (First l) xs) ys" "prevs ?pp (First l) xs"
    using prevs_rehead [of "pprev h" "Next a" ys] pr facts(4) y by (auto split: if_splits)
  then have "prevs ?pp (First l) (xs @ ys)" by simp
  then have "plist_rep ?h l c f (xs @ ys)" using calculation(2) facts(4) by (simp add: plist_rep_def)
  moreover have "touched l (set (xs @ a # ys)) h ?h"
    using x y hd0_mem [of ys] last_in_set [of xs] by (auto simp: touched_def)
  ultimately show ?thesis by blast
qed

text \<open>Exchanging the contents of two lists, neither of which can insert at the end.\<close>

lemma swap_rep:
  assumes x: "plist_rep h l c False xs" and y: "plist_rep h r c False ys" and ne: "l \<noteq> r" and dis: "set xs \<inter> set ys = {}"
  shows "\<exists>h'. pl_swap l r h = Some h' \<and> plist_rep h' l c False ys \<and> plist_rep h' r c False xs \<and>
    (\<forall>m. m \<noteq> l \<longrightarrow> m \<noteq> r \<longrightarrow> plists h' m = plists h m) \<and> pnext h' = pnext h \<and>
    (\<forall>p. p \<notin> set xs \<union> set ys \<longrightarrow> pprev h' p = pprev h p) \<and> dom (pprev h') = dom (pprev h)"
proof -
  have l: "plists h l = Some (list_fields l c False xs)" "plists h r = Some (list_fields r c False ys)"
    and px: "prevs (pprev h) (First l) xs" "prevs (pprev h) (First r) ys" and d: "distinct xs" "distinct ys"
    using x y by (simp_all add: plist_rep_def)
  have hx: "hd0 xs \<noteq> 0 \<longleftrightarrow> xs \<noteq> []" "xs \<noteq> [] \<Longrightarrow> hd0 xs \<in> dom (pprev h) \<and> hd0 xs \<notin> set ys \<and> hd0 xs \<in> set xs"
    using rep_facts [OF x] hd0_mem [of xs] dis by (cases xs; auto)+
  have hy: "hd0 ys \<noteq> 0 \<longleftrightarrow> ys \<noteq> []" "ys \<noteq> [] \<Longrightarrow> hd0 ys \<in> dom (pprev h) \<and> hd0 ys \<notin> set xs \<and> hd0 ys \<in> set ys"
    using rep_facts [OF y] hd0_mem [of ys] dis by (cases ys; auto)+
  let ?py = "if ys = [] then pprev h else (pprev h)(hd0 ys \<mapsto> First l)"
  let ?pp = "if xs = [] then ?py else ?py(hd0 xs \<mapsto> First r)"
  let ?h = "\<lparr>plists = (plists h)(l \<mapsto> list_fields l c False ys, r \<mapsto> list_fields r c False xs), pnext = pnext h, pprev = ?pp\<rparr>"
  have "pl_swap l r h = Some ?h"
    using l hx hy ne
    by (cases h; cases "xs = []"; cases "ys = []")
      (auto simp: pl_swap_def set_last_def upd_list_def store_prev_def list_fields_def fun_upd_twist)
  moreover have "prevs ?py (First l) ys" using prevs_rehead [OF px(2) d(2), of "First l"] .
  then have "prevs ?pp (First l) ys" using hx by (cases "xs = []") simp_all
  moreover have "prevs ?py (First l) xs" using px(1) hy by (cases "ys = []") simp_all
  then have "prevs ?pp (First r) xs" using prevs_rehead [of ?py "First l" xs "First r"] d by simp
  ultimately show ?thesis using x y ne hx hy
    by (intro exI [of _ ?h]) (auto simp: plist_rep_def)
qed

section \<open>Programs over several lists\<close>

datatype plist_cmd =
    Push_front nat ptr
  | Push_back nat ptr
  | Insert_after nat ptr ptr
  | Remove nat ptr
  | Pop_front nat
  | Swap nat nat
  | Empty nat
  | Front nat
  | Is_empty nat
  | Elements nat

datatype plist_out = Done | Elem ptr | Bool bool | Number uint

fun plist_step :: "plist_cmd \<Rightarrow> plist_heap \<Rightarrow> (plist_out \<times> plist_heap) option" where
  "plist_step (Push_front l a) h = map_option (\<lambda>h. (Done, h)) (pl_push_front l a h)"
| "plist_step (Push_back l a) h = map_option (\<lambda>h. (Done, h)) (pl_push_back l a h)"
| "plist_step (Insert_after l p a) h = map_option (\<lambda>h. (Done, h)) (pl_insert_after l p a h)"
| "plist_step (Remove l a) h = map_option (\<lambda>h. (Done, h)) (pl_remove l a h)"
| "plist_step (Pop_front l) h = map_option (\<lambda>(p, h). (Elem p, h)) (pl_pop_front l h)"
| "plist_step (Swap l r) h = map_option (\<lambda>h. (Done, h)) (pl_swap l r h)"
| "plist_step (Empty l) h = map_option (\<lambda>h. (Done, h)) (pl_empty l h)"
| "plist_step (Front l) h = map_option (\<lambda>p. (Elem p, h)) (pl_front l h)"
| "plist_step (Is_empty l) h = map_option (\<lambda>b. (Bool b, h)) (pl_is_empty l h)"
| "plist_step (Elements l) h = map_option (\<lambda>n. (Number n, h)) (pl_elements l h)"

text \<open>
  The specification: sequences by the number of their list, with the policies of the list, and the set of elements
  that exist. A command is undefined for an element that is in a list already, and where a policy has no such function.
\<close>

record plist_spec =
  seqs :: "nat \<Rightarrow> (bool \<times> bool \<times> ptr list) option"
  elems :: "ptr set"

definition fresh :: "ptr \<Rightarrow> plist_spec \<Rightarrow> bool" where
  "fresh a s \<longleftrightarrow> a \<in> elems s \<and> (\<forall>l c f xs. seqs s l = Some (c, f, xs) \<longrightarrow> a \<notin> set xs)"

definition put :: "nat \<Rightarrow> bool \<times> bool \<times> ptr list \<Rightarrow> plist_spec \<Rightarrow> plist_spec" where
  "put l v s = s\<lparr>seqs := (seqs s)(l \<mapsto> v)\<rparr>"

fun insert_behind :: "ptr \<Rightarrow> ptr \<Rightarrow> ptr list \<Rightarrow> ptr list" where
  "insert_behind p a [] = []"
| "insert_behind p a (x # xs) = (if x = p then x # a # xs else x # insert_behind p a xs)"

fun plist_spec_step :: "plist_cmd \<Rightarrow> plist_spec \<Rightarrow> (plist_out \<times> plist_spec) option" where
  "plist_spec_step (Push_front l a) s = (case seqs s l of
     Some (c, f, xs) \<Rightarrow> if fresh a s then Some (Done, put l (c, f, a # xs) s) else None | None \<Rightarrow> None)"
| "plist_spec_step (Push_back l a) s = (case seqs s l of
     Some (c, f, xs) \<Rightarrow> if fresh a s \<and> f then Some (Done, put l (c, f, xs @ [a]) s) else None | None \<Rightarrow> None)"
| "plist_spec_step (Insert_after l p a) s = (case seqs s l of
     Some (c, f, xs) \<Rightarrow>
       if fresh a s \<and> (p = 0 \<or> p \<in> set xs)
       then Some (Done, put l (c, f, if p = 0 then a # xs else insert_behind p a xs) s) else None | None \<Rightarrow> None)"
| "plist_spec_step (Remove l a) s = (case seqs s l of
     Some (c, f, xs) \<Rightarrow> if a \<in> set xs then Some (Done, put l (c, f, remove1 a xs) s) else None | None \<Rightarrow> None)"
| "plist_spec_step (Pop_front l) s = (case seqs s l of
     Some (c, f, xs) \<Rightarrow> Some (Elem (hd0 xs), put l (c, f, tl xs) s) | None \<Rightarrow> None)"
| "plist_spec_step (Swap l r) s = (case (seqs s l, seqs s r) of
     (Some (c, f, xs), Some (d, g, ys)) \<Rightarrow>
       if l \<noteq> r \<and> c = d \<and> \<not> f \<and> \<not> g then Some (Done, put r (d, g, xs) (put l (c, f, ys) s)) else None | _ \<Rightarrow> None)"
| "plist_spec_step (Empty l) s = (case seqs s l of
     Some (c, f, xs) \<Rightarrow> Some (Done, put l (c, f, []) s) | None \<Rightarrow> None)"
| "plist_spec_step (Front l) s = (case seqs s l of Some (c, f, xs) \<Rightarrow> Some (Elem (hd0 xs), s) | None \<Rightarrow> None)"
| "plist_spec_step (Is_empty l) s = (case seqs s l of Some (c, f, xs) \<Rightarrow> Some (Bool (xs = []), s) | None \<Rightarrow> None)"
| "plist_spec_step (Elements l) s = (case seqs s l of
     Some (c, f, xs) \<Rightarrow> if c then Some (Number (of_nat (length xs)), s) else None | None \<Rightarrow> None)"

definition world_rep :: "plist_heap \<Rightarrow> plist_spec \<Rightarrow> bool" where
  "world_rep h s \<longleftrightarrow> (\<forall>l c f xs. seqs s l = Some (c, f, xs) \<longrightarrow> plist_rep h l c f xs) \<and>
     (\<forall>l m c f xs d g ys. seqs s l = Some (c, f, xs) \<longrightarrow> seqs s m = Some (d, g, ys) \<longrightarrow> l \<noteq> m \<longrightarrow> set xs \<inter> set ys = {}) \<and>
     elems s = dom (pnext h) \<and> dom (pprev h) = dom (pnext h) \<and> 0 \<notin> elems s"

lemma world_list: "world_rep h s \<Longrightarrow> seqs s l = Some (c, f, xs) \<Longrightarrow> plist_rep h l c f xs"
  unfolding world_rep_def by blast

lemma world_others:
  assumes "world_rep h s" and "seqs s l = Some (c, f, xs)" and "fresh a s"
    and "m \<noteq> l" and "seqs s m = Some (d, g, ys)"
  shows "insert a (set xs) \<inter> set ys = {}"
  using assms unfolding world_rep_def fresh_def by blast

lemma world_fresh:
  assumes "world_rep h s" and "fresh a s" and "seqs s l = Some (c, f, xs)"
  shows "a \<in> dom (pnext h)" and "a \<in> dom (pprev h)" and "a \<noteq> 0" and "a \<notin> set xs"
  using assms unfolding world_rep_def fresh_def by metis+

lemma world_put:
  assumes w: "world_rep h s" and l: "seqs s l = Some (c, f, xs)" and rep: "plist_rep h' l c f xs'" and t: "touched l S h h'"
    and S: "set xs' \<subseteq> S" "\<And>m d g ys. m \<noteq> l \<Longrightarrow> seqs s m = Some (d, g, ys) \<Longrightarrow> S \<inter> set ys = {}"
  shows "world_rep h' (put l (c, f, xs') s)"
proof -
  have keep: "plist_rep h' m d g ys" if "m \<noteq> l" "seqs s m = Some (d, g, ys)" for m d g ys
    by (rule touched_frame [OF world_list [OF w that(2)] t that(1) S(2) [OF that]])
  have dis: "set xs' \<inter> set ys = {}" if "m \<noteq> l" "seqs s m = Some (d, g, ys)" for m d g ys
    using S(1) S(2) [OF that] by blast
  have old: "set ys \<inter> set zs = {}"
    if "seqs s m = Some (d, g, ys)" "seqs s n = Some (d', g', zs)" "m \<noteq> n" for m n d g ys d' g' zs
    using w that unfolding world_rep_def by blast
  show ?thesis unfolding world_rep_def
  proof (intro conjI allI impI)
    fix m d g ys
    assume "seqs (put l (c, f, xs') s) m = Some (d, g, ys)"
    then show "plist_rep h' m d g ys" using rep keep by (cases "m = l") (auto simp: put_def)
  next
    fix m n d g ys d' g' zs
    assume "seqs (put l (c, f, xs') s) m = Some (d, g, ys)" "seqs (put l (c, f, xs') s) n = Some (d', g', zs)" "m \<noteq> n"
    then show "set ys \<inter> set zs = {}" using dis [of n d' g' zs] dis [of m d g ys] old [of m d g ys n d' g' zs]
      by (cases "m = l"; cases "n = l") (auto simp: put_def)
  qed (use w t in \<open>auto simp: world_rep_def touched_def put_def\<close>)
qed

lemma insert_behind_split: "p \<notin> set xs \<Longrightarrow> insert_behind p a (xs @ p # ys) = xs @ p # a # ys"
  by (induction xs) auto

lemma step_insert:
  assumes w: "world_rep h s" and sp: "plist_spec_step (Insert_after l p a) s = Some (x, s')"
  shows "\<exists>h'. plist_step (Insert_after l p a) h = Some (x, h') \<and> world_rep h' s'"
proof -
  obtain c f xs where l: "seqs s l = Some (c, f, xs)" "fresh a s" "p = 0 \<or> p \<in> set xs" "x = Done"
    "s' = put l (c, f, if p = 0 then a # xs else insert_behind p a xs) s"
    using sp by (auto split: option.splits if_splits)
  note fr = world_fresh [OF w l(2,1)]
  note oth = world_others [OF w l(1,2)]
  show ?thesis
  proof (cases "p = 0")
    case True
    obtain h' where h': "pl_push_front l a h = Some h'" "plist_rep h' l c f (a # xs)" "touched l (insert a (set xs)) h h'"
      using push_front_rep [OF world_list [OF w l(1)] fr] by blast
    have "world_rep h' (put l (c, f, a # xs) s)" by (rule world_put [OF w l(1) h'(2,3) _ oth]) auto
    then show ?thesis using h'(1) l True by (simp add: pl_insert_after_def)
  next
    case False
    then obtain as bs where xs: "xs = as @ p # bs" using l(3) by (metis split_list)
    have rep: "plist_rep h l c f (as @ p # bs)" using world_list [OF w l(1)] unfolding xs .
    obtain h' where h': "pl_insert_after l p a h = Some h'" "plist_rep h' l c f (as @ p # a # bs)"
      "touched l (insert a (set xs)) h h'"
      using insert_after_rep [OF rep] fr unfolding xs by blast
    have "p \<notin> set as" using rep_facts(4) [OF rep] by simp
    then have e: "insert_behind p a xs = as @ p # a # bs" by (simp add: xs insert_behind_split)
    have "world_rep h' (put l (c, f, as @ p # a # bs) s)"
      by (rule world_put [OF w l(1) h'(2,3) _ oth]) (auto simp: xs)
    then show ?thesis using h'(1) l False e by simp
  qed
qed

lemma world_remove:
  assumes w: "world_rep h s" and l: "seqs s l = Some (c, f, xs)" and a: "a \<in> set xs"
  shows "\<exists>h'. pl_remove l a h = Some h' \<and> world_rep h' (put l (c, f, remove1 a xs) s)"
proof -
  obtain as bs where xs: "xs = as @ a # bs" using a by (metis split_list)
  have rep: "plist_rep h l c f (as @ a # bs)" using world_list [OF w l] unfolding xs .
  obtain h' where h': "pl_remove l a h = Some h'" "plist_rep h' l c f (as @ bs)" "touched l (set xs) h h'"
    using remove_rep [OF rep] unfolding xs by blast
  have "a \<notin> set as" using rep_facts(4) [OF rep] by simp
  then have e: "remove1 a xs = as @ bs" by (simp add: xs remove1_append)
  have oth: "set xs \<inter> set ys = {}" if "m \<noteq> l" "seqs s m = Some (d, g, ys)" for m d g ys
    using w l that unfolding world_rep_def by blast
  have "world_rep h' (put l (c, f, as @ bs) s)" by (rule world_put [OF w l h'(2,3) _ oth]) (auto simp: xs)
  then show ?thesis using h'(1) e by simp
qed

lemma world_swap:
  assumes w: "world_rep h s" and l: "seqs s l = Some (c, False, xs)" "seqs s r = Some (c, False, ys)" and ne: "l \<noteq> r"
  shows "\<exists>h'. pl_swap l r h = Some h' \<and> world_rep h' (put r (c, False, xs) (put l (c, False, ys) s))"
proof -
  have dis: "set xs \<inter> set ys = {}" using w l ne unfolding world_rep_def by blast
  obtain h' where h': "pl_swap l r h = Some h'" "plist_rep h' l c False ys" "plist_rep h' r c False xs"
    "\<And>m. m \<noteq> l \<Longrightarrow> m \<noteq> r \<Longrightarrow> plists h' m = plists h m" "pnext h' = pnext h"
    "\<And>p. p \<notin> set xs \<union> set ys \<Longrightarrow> pprev h' p = pprev h p" "dom (pprev h') = dom (pprev h)"
    using swap_rep [OF world_list [OF w l(1)] world_list [OF w l(2)] ne dis] by blast
  let ?s = "put r (c, False, xs) (put l (c, False, ys) s)"
  have old: "set us \<inter> set vs = {}"
    if "seqs s m = Some (d, g, us)" "seqs s n = Some (d', g', vs)" "m \<noteq> n" for m n d g us d' g' vs
    using w that unfolding world_rep_def by blast
  have keep: "plist_rep h' m d g zs" if m: "m \<noteq> l" "m \<noteq> r" "seqs s m = Some (d, g, zs)" for m d g zs
  proof -
    have "\<forall>z\<in>set zs. pprev h' z = pprev h z" using old [OF m(3) l(1) m(1)] old [OF m(3) l(2) m(2)] h'(6) by blast
    then show ?thesis using world_list [OF w m(3)] h'(4) [OF m(1,2)] h'(5) prevs_frame [of "pprev h" "First m" zs "pprev h'"]
      by (simp add: plist_rep_def)
  qed
  define \<sigma> where "\<sigma> m = (if m = l then r else if m = r then l else m)" for m
  have was: "\<exists>d' g'. seqs s (\<sigma> m) = Some (d', g', zs)" if "seqs ?s m = Some (d, g, zs)" for m d g zs
    using that l by (cases "m = l"; cases "m = r") (auto simp: put_def \<sigma>_def)
  have inj: "m \<noteq> n \<Longrightarrow> \<sigma> m \<noteq> \<sigma> n" for m n using ne by (auto simp: \<sigma>_def)
  have "world_rep h' ?s" unfolding world_rep_def
  proof (intro conjI allI impI)
    fix m d g zs
    assume "seqs ?s m = Some (d, g, zs)"
    then show "plist_rep h' m d g zs" using h'(2,3) keep ne by (cases "m = l"; cases "m = r") (auto simp: put_def)
  next
    fix m n d g us d' g' vs
    assume "seqs ?s m = Some (d, g, us)" "seqs ?s n = Some (d', g', vs)" "m \<noteq> n"
    then show "set us \<inter> set vs = {}" using was old inj by metis
  qed (use w h' in \<open>auto simp: world_rep_def put_def\<close>)
  then show ?thesis using h'(1) by blast
qed

lemma world_empty:
  assumes w: "world_rep h s" and l: "seqs s l = Some (c, f, xs)"
  shows "\<exists>h'. pl_empty l h = Some h' \<and> world_rep h' (put l (c, f, []) s)"
proof -
  let ?h = "h\<lparr>plists := (plists h)(l \<mapsto> list_fields l c f [])\<rparr>"
  have p: "plists h l = Some (list_fields l c f xs)" using world_list [OF w l] by (simp add: plist_rep_def)
  have "pl_empty l h = Some ?h" using p by (simp add: pl_empty_def upd_list_def list_fields_def)
  moreover have "world_rep ?h (put l (c, f, []) s)"
    by (rule world_put [OF w l, where S = "{}"]) (auto simp: plist_rep_def touched_def)
  ultimately show ?thesis by blast
qed

lemma step_refines:
  assumes w: "world_rep h s" and sp: "plist_spec_step cmd s = Some (x, s')"
  shows "\<exists>h'. plist_step cmd h = Some (x, h') \<and> world_rep h' s'"
proof (cases cmd)
  case (Push_front l a)
  then have "plist_spec_step (Insert_after l 0 a) s = Some (x, s')" using sp by (auto split: option.splits if_splits)
  from step_insert [OF w this] show ?thesis using Push_front by (simp add: pl_insert_after_def)
next
  case (Push_back l a)
  then obtain c xs where l: "seqs s l = Some (c, True, xs)" "fresh a s" "x = Done" "s' = put l (c, True, xs @ [a]) s"
    using sp by (auto split: option.splits if_splits)
  obtain h' where h': "pl_push_back l a h = Some h'" "plist_rep h' l c True (xs @ [a])" "touched l (insert a (set xs)) h h'"
    using push_back_rep [OF world_list [OF w l(1)] world_fresh [OF w l(2,1)]] by blast
  have "world_rep h' (put l (c, True, xs @ [a]) s)"
    by (rule world_put [OF w l(1) h'(2,3) _ world_others [OF w l(1,2)]]) auto
  then show ?thesis using h'(1) l Push_back by simp
next
  case (Insert_after l p a)
  then show ?thesis using step_insert [OF w] sp by blast
next
  case (Remove l a)
  then obtain c f xs where l: "seqs s l = Some (c, f, xs)" "a \<in> set xs" "x = Done" "s' = put l (c, f, remove1 a xs) s"
    using sp by (auto split: option.splits if_splits)
  show ?thesis using world_remove [OF w l(1,2)] l Remove by auto
next
  case (Pop_front l)
  then obtain c f xs where l: "seqs s l = Some (c, f, xs)" "x = Elem (hd0 xs)" "s' = put l (c, f, tl xs) s"
    using sp by (auto split: option.splits)
  have rep: "plist_rep h l c f xs" using world_list [OF w l(1)] .
  then have fr: "pl_front l h = Some (hd0 xs)" by (simp add: plist_rep_def pl_front_def)
  show ?thesis
  proof (cases xs)
    case Nil
    then have "s' = s" using l by (cases s) (simp add: put_def fun_upd_idem)
    then show ?thesis using fr l w Pop_front Nil by (simp add: pl_pop_front_def)
  next
    case (Cons y ys)
    then have "hd0 xs \<noteq> 0" using rep_hd0 [OF rep] by simp
    then show ?thesis using world_remove [OF w l(1), of y] fr l Pop_front Cons by (auto simp: pl_pop_front_def)
  qed
next
  case (Swap l r)
  then obtain c xs ys where l: "seqs s l = Some (c, False, xs)" "seqs s r = Some (c, False, ys)" "l \<noteq> r" "x = Done"
    "s' = put r (c, False, xs) (put l (c, False, ys) s)"
    using sp by (auto split: option.splits if_splits)
  show ?thesis using world_swap [OF w l(1,2,3)] l Swap by auto
next
  case (Empty l)
  then obtain c f xs where l: "seqs s l = Some (c, f, xs)" "x = Done" "s' = put l (c, f, []) s"
    using sp by (auto split: option.splits)
  show ?thesis using world_empty [OF w l(1)] l Empty by auto
next
  case (Front l)
  then show ?thesis using w sp world_list [OF w, of l] by (auto simp: pl_front_def plist_rep_def split: option.splits)
next
  case (Is_empty l)
  then obtain c f xs where l: "seqs s l = Some (c, f, xs)" "x = Bool (xs = [])" "s' = s"
    using sp by (auto split: option.splits)
  have rep: "plist_rep h l c f xs" using world_list [OF w l(1)] .
  then have "pl_is_empty l h = Some (xs = [])" using rep_hd0 [OF rep] by (simp add: pl_is_empty_def plist_rep_def)
  then show ?thesis using w l Is_empty by simp
next
  case (Elements l)
  then show ?thesis using w sp world_list [OF w, of l]
    by (auto simp: pl_elements_def plist_rep_def split: option.splits if_splits)
qed

interpretation plist: simulation "\<lambda>k. world_rep" plist_step plist_spec_step
  by unfold_locales (rule step_refines)

section \<open>Visiting and removing\<close>

text \<open>
  The loop for which the post-increment saves the next element: it visits the elements and takes those out that
  satisfy a condition. It returns the elements visited.
\<close>

partial_function (option) visit_remove :: "(ptr \<Rightarrow> bool) \<Rightarrow> plist_iter \<Rightarrow> plist_heap \<Rightarrow> (ptr list \<times> plist_heap) option" where
  "visit_remove P it h = do {
     (p, it) \<leftarrow> it_post_inc it h;
     if p = 0 then Some ([], h)
     else do {
       h \<leftarrow> (if P p then pl_remove (it_list it) p h else Some h);
       (ps, h) \<leftarrow> visit_remove P it h;
       Some (p # ps, h) } }"

lemma visit_remove_rep:
  "plist_rep h l c f (xs @ ys) \<Longrightarrow>
   \<exists>h'. visit_remove P \<lparr>it_list = l, it_current = hd0 ys\<rparr> h = Some (ys, h') \<and>
     plist_rep h' l c f (xs @ filter (\<lambda>p. \<not> P p) ys) \<and> touched l (set (xs @ ys)) h h'"
proof (induction ys arbitrary: xs h)
  case Nil
  then show ?case by (subst visit_remove.simps) (simp add: it_post_inc_def touched_def)
next
  case (Cons y ys)
  have y: "y \<noteq> 0" using rep_facts(1) [OF Cons.prems] by simp
  have "path (pnext h) (hd0 (xs @ y # ys)) (xs @ y # ys) 0" using Cons.prems by (simp add: plist_rep_def)
  then have n: "pnext h y = Some (hd0 ys)" by (rule path_next)
  have inc: "it_post_inc \<lparr>it_list = l, it_current = y\<rparr> h = Some (y, \<lparr>it_list = l, it_current = hd0 ys\<rparr>)"
    using n y by (simp add: it_post_inc_def)
  show ?case
  proof (cases "P y")
    case True
    obtain h1 where h1: "pl_remove l y h = Some h1" "plist_rep h1 l c f (xs @ ys)" "touched l (set (xs @ y # ys)) h h1"
      using remove_rep [OF Cons.prems] by blast
    obtain h' where "visit_remove P \<lparr>it_list = l, it_current = hd0 ys\<rparr> h1 = Some (ys, h')"
      "plist_rep h' l c f (xs @ filter (\<lambda>p. \<not> P p) ys)" "touched l (set (xs @ ys)) h1 h'"
      using Cons.IH [OF h1(2)] by blast
    then show ?thesis using inc y True h1 by (subst visit_remove.simps) (auto simp: touched_def)
  next
    case False
    obtain h' where "visit_remove P \<lparr>it_list = l, it_current = hd0 ys\<rparr> h = Some (ys, h')"
      "plist_rep h' l c f ((xs @ [y]) @ filter (\<lambda>p. \<not> P p) ys)" "touched l (set ((xs @ [y]) @ ys)) h h'"
      using Cons.IH [of h "xs @ [y]"] Cons.prems by auto
    then show ?thesis using inc y False by (subst visit_remove.simps) auto
  qed
qed

section \<open>Properties\<close>

text \<open>
  C6. Programs over any number of lists, with any policies: whatever the specification on sequences returns, the lists
  return, no dead pointer is followed, and afterwards every list has the elements, the count and the end of its sequence.
\<close>

theorem plist_program:
  assumes "world_rep h s" and "run_cmds plist_spec_step cmds s = Some (xs, s')"
  shows "\<exists>h'. run_cmds plist_step cmds h = Some (xs, h') \<and> world_rep h' s'"
  using plist.run_refines [OF assms] .

text \<open>Two counted lists, one of which can insert at the end, and four elements.\<close>

definition example_heap :: plist_heap where
  "example_heap = mk_plist 0 True True (mk_plist 1 True False
     \<lparr>plists = Map.empty, pnext = [1 \<mapsto> 7, 2 \<mapsto> 7, 3 \<mapsto> 7, 4 \<mapsto> 7],
      pprev = [1 \<mapsto> Next 9, 2 \<mapsto> Next 9, 3 \<mapsto> Next 9, 4 \<mapsto> Next 9]\<rparr>)"

definition example_spec :: plist_spec where
  "example_spec = \<lparr>seqs = [0 \<mapsto> (True, True, []), 1 \<mapsto> (True, False, [])], elems = {1, 2, 3, 4}\<rparr>"

lemma example_world: "world_rep example_heap example_spec"
  by (auto simp: world_rep_def example_heap_def example_spec_def mk_plist_def plist_rep_def list_fields_def split: if_splits)

lemmas plist_eval = example_heap_def mk_plist_def pl_push_front_def pl_push_back_def pl_insert_after_def pl_remove_def
  pl_pop_front_def pl_front_def pl_elements_def set_last_def inc_def dec_def upd_list_def store_prev_def

theorem plist_program_witness:
  "\<exists>h'. run_cmds plist_step [Push_back 0 1, Push_back 0 2, Insert_after 0 1 3, Remove 0 2, Push_back 0 4, Pop_front 0, Elements 0]
     example_heap = Some ([Done, Done, Done, Done, Done, Elem 1, Number 2], h')"
proof -
  let ?cs = "[Push_back 0 1, Push_back 0 2, Insert_after 0 1 3, Remove 0 2, Push_back 0 4, Pop_front 0, Elements 0]"
  have "\<exists>s'. run_cmds plist_spec_step ?cs example_spec = Some ([Done, Done, Done, Done, Done, Elem 1, Number 2], s')"
    by (auto simp: example_spec_def put_def fresh_def split: if_splits)
  then show ?thesis using plist_program [OF example_world] by blast
qed

text \<open>
  The loop that reads an iterator until the end and removes some of the elements it reads ends, visits every element
  once and in order, and leaves the others in the list; elements of other lists are not touched.
\<close>

theorem visit_remove_all:
  assumes "plist_rep h l c f xs"
  shows "\<exists>it h'. it_init l h = Some it \<and> visit_remove P it h = Some (xs, h') \<and>
    plist_rep h' l c f (filter (\<lambda>p. \<not> P p) xs) \<and> touched l (set xs) h h'"
proof -
  have "it_init l h = Some \<lparr>it_list = l, it_current = hd0 xs\<rparr>"
    using assms by (simp add: it_init_def pl_front_def plist_rep_def)
  then show ?thesis using visit_remove_rep [of h l c f "[]" xs P] assms by auto
qed

theorem visit_remove_all_witness:
  "\<exists>h it h'. run_cmds plist_step [Push_back 0 1, Push_back 0 2, Push_back 0 3] example_heap = Some ([Done, Done, Done], h) \<and>
     it_init 0 h = Some it \<and> visit_remove (\<lambda>p. p = 2) it h = Some ([1, 2, 3], h') \<and> plist_rep h' 0 True True [1, 3]"
proof -
  let ?cs = "[Push_back 0 1, Push_back 0 2, Push_back 0 3]"
  have "run_cmds plist_spec_step ?cs example_spec = Some ([Done, Done, Done], put 0 (True, True, [1, 2, 3]) example_spec)"
    by (auto simp: example_spec_def put_def fresh_def split: if_splits)
  then obtain h where h: "run_cmds plist_step ?cs example_heap = Some ([Done, Done, Done], h)"
    "world_rep h (put 0 (True, True, [1, 2, 3]) example_spec)"
    using plist.run_refines [OF example_world] by blast
  have "plist_rep h 0 True True [1, 2, 3]" using world_list [OF h(2), of 0] by (simp add: put_def)
  from visit_remove_all [OF this, of "\<lambda>p. p = 2"] show ?thesis using h(1) by auto
qed

text \<open>
  \<open>swap\<close> as it is written does not work for lists that can insert at the end: when \<open>rhs\<close> gets empty, the end of
  this list is set to the first field of \<open>rhs\<close>, so the next element pushed back lands in \<open>rhs\<close>.
\<close>

lemma swap_moves_wrong_end:
  "\<exists>h. run_cmds plist_step [Push_back 2 1, Swap 0 2, Push_back 0 2, Front 0, Front 2] (mk_plist 2 True True example_heap) =
     Some ([Done, Done, Done, Elem 1, Elem 2], h)"
  by (simp add: plist_eval pl_swap_def)

end
