(* ===== verification/Sql_State.thy ===== *)
theory Sql_State
  imports Binary_String
begin

text \<open>
  The states and identities of conditions (\<open>sql_error.h\<close>). A class that inherits from another is a record that extends
  the record of its base, so a function of the base works on every extension and leaves the rest of the object
  alone. The array \<open>m_sqlstate\<close> is the list of its six bytes.
\<close>

section \<open>States\<close>

definition SQLSTATE_LENGTH :: nat where "SQLSTATE_LENGTH = 5"

record Sql_state =
  m_sqlstate :: "uchar list"

definition mk_state :: Sql_state where
  "mk_state = \<lparr>m_sqlstate = replicate (SQLSTATE_LENGTH + 1) 0\<rparr>"

text \<open>The copy of five bytes; \<open>None\<close> when the source has fewer. The byte behind them gets the end mark.\<close>

definition set_sqlstate :: "uchar list \<Rightarrow> 'a Sql_state_scheme \<Rightarrow> 'a Sql_state_scheme option" where
  "set_sqlstate sqlstate x =
     (if length sqlstate < SQLSTATE_LENGTH then None
      else Some (x\<lparr>m_sqlstate := (take SQLSTATE_LENGTH sqlstate @ drop SQLSTATE_LENGTH (m_sqlstate x)) [SQLSTATE_LENGTH := 0]\<rparr>))"

definition mk_state_from :: "uchar list \<Rightarrow> Sql_state option" where
  "mk_state_from sqlstate = set_sqlstate sqlstate mk_state"

definition copy_sqlstate :: "'b Sql_state_scheme \<Rightarrow> 'a Sql_state_scheme \<Rightarrow> 'a Sql_state_scheme" where
  "copy_sqlstate other x = x\<lparr>m_sqlstate := m_sqlstate other\<rparr>"

text \<open>\<open>strcmp\<close> compares the bytes before the end mark.\<close>

definition c_string :: "uchar list \<Rightarrow> uchar list" where
  "c_string bs = takeWhile (\<lambda>b. b \<noteq> 0) bs"

definition state_eq :: "'a Sql_state_scheme \<Rightarrow> 'b Sql_state_scheme \<Rightarrow> bool" where
  "state_eq x other \<longleftrightarrow> c_string (m_sqlstate x) = c_string (m_sqlstate other)"

definition has_sql_state :: "'a Sql_state_scheme \<Rightarrow> bool" where
  "has_sql_state x \<longleftrightarrow> m_sqlstate x ! 0 \<noteq> 0"

text \<open>The character \<open>'0'\<close> is 48; \<open>char\<close> is signed.\<close>

definition is_warning :: "'a Sql_state_scheme \<Rightarrow> bool" where
  "is_warning x \<longleftrightarrow> m_sqlstate x ! 0 = 48 \<and> m_sqlstate x ! 1 = 49"

definition is_not_found :: "'a Sql_state_scheme \<Rightarrow> bool" where
  "is_not_found x \<longleftrightarrow> m_sqlstate x ! 0 = 48 \<and> m_sqlstate x ! 1 = 50"

definition is_exception :: "'a Sql_state_scheme \<Rightarrow> bool" where
  "is_exception x \<longleftrightarrow> m_sqlstate x ! 0 \<noteq> 48 \<or> 50 <s m_sqlstate x ! 1"

definition is_sqlstate_completion :: "uchar list \<Rightarrow> bool" where
  "is_sqlstate_completion s \<longleftrightarrow> s ! 0 = 48 \<and> s ! 1 = 48"

section \<open>Error numbers and levels\<close>

record Sql_state_errno = Sql_state +
  m_sql_errno :: uint

definition mk_errno :: "uint \<Rightarrow> Sql_state_errno" where
  "mk_errno sql_errno = Sql_state.extend mk_state (Sql_state_errno.fields sql_errno)"

definition set_errno :: "uint \<Rightarrow> uchar list \<Rightarrow> 'a Sql_state_errno_scheme \<Rightarrow> 'a Sql_state_errno_scheme option" where
  "set_errno sql_errno sqlstate x = set_sqlstate sqlstate (x\<lparr>m_sql_errno := sql_errno\<rparr>)"

definition mk_state_errno :: "uint \<Rightarrow> uchar list \<Rightarrow> Sql_state_errno option" where
  "mk_state_errno sql_errno sqlstate =
     map_option (\<lambda>s. Sql_state.extend s (Sql_state_errno.fields sql_errno)) (mk_state_from sqlstate)"

definition clear_errno :: "'a Sql_state_errno_scheme \<Rightarrow> 'a Sql_state_errno_scheme" where
  "clear_errno x = x\<lparr>m_sql_errno := 0\<rparr>"

datatype enum_warning_level = WARN_LEVEL_NOTE | WARN_LEVEL_WARN | WARN_LEVEL_ERROR | WARN_LEVEL_END

record Sql_state_errno_level = Sql_state_errno +
  m_level :: enum_warning_level

definition mk_level :: "Sql_state_errno_level" where
  "mk_level = Sql_state_errno.extend (mk_errno 0) (Sql_state_errno_level.fields WARN_LEVEL_ERROR)"

definition mk_state_errno_level :: "uint \<Rightarrow> uchar list \<Rightarrow> enum_warning_level \<Rightarrow> Sql_state_errno_level option" where
  "mk_state_errno_level sqlerrno sqlstate level =
     map_option (\<lambda>s. Sql_state_errno.extend s (Sql_state_errno_level.fields level)) (mk_state_errno sqlerrno sqlstate)"

definition with_level :: "Sql_state_errno \<Rightarrow> enum_warning_level \<Rightarrow> Sql_state_errno_level" where
  "with_level state_errno level = Sql_state_errno.extend state_errno (Sql_state_errno_level.fields level)"

definition clear_level :: "'a Sql_state_errno_level_scheme \<Rightarrow> 'a Sql_state_errno_level_scheme" where
  "clear_level x = clear_errno (x\<lparr>m_level := WARN_LEVEL_ERROR\<rparr>)"

section \<open>Identities\<close>

text \<open>The identity of a user-defined condition is the address of its parse-time object, null for none.\<close>

record Sql_user_condition_identity =
  m_user_condition_value :: ptr

definition mk_ucid :: Sql_user_condition_identity where
  "mk_ucid = \<lparr>m_user_condition_value = 0\<rparr>"

definition mk_ucid_value :: "ptr \<Rightarrow> Sql_user_condition_identity" where
  "mk_ucid_value value = \<lparr>m_user_condition_value = value\<rparr>"

definition set_ucid :: "Sql_user_condition_identity \<Rightarrow> Sql_user_condition_identity \<Rightarrow> Sql_user_condition_identity" where
  "set_ucid ident u = u\<lparr>m_user_condition_value := m_user_condition_value ident\<rparr>"

definition clear_ucid :: "Sql_user_condition_identity \<Rightarrow> Sql_user_condition_identity" where
  "clear_ucid u = u\<lparr>m_user_condition_value := 0\<rparr>"

text \<open>The second base of the identity of a condition is a part of the record.\<close>

record Sql_condition_identity = Sql_state_errno_level +
  ucid :: Sql_user_condition_identity

definition mk_identity :: "Sql_state_errno_level \<Rightarrow> Sql_user_condition_identity \<Rightarrow> Sql_condition_identity" where
  "mk_identity st u = Sql_state_errno_level.extend st (Sql_condition_identity.fields u)"

definition mk_identity_level ::
    "Sql_state_errno \<Rightarrow> enum_warning_level \<Rightarrow> Sql_user_condition_identity \<Rightarrow> Sql_condition_identity" where
  "mk_identity_level st level u = mk_identity (with_level st level) u"

definition mk_identity_state ::
    "uint \<Rightarrow> uchar list \<Rightarrow> enum_warning_level \<Rightarrow> Sql_user_condition_identity \<Rightarrow> Sql_condition_identity option" where
  "mk_identity_state sqlerrno sqlstate level u =
     map_option (\<lambda>st. mk_identity st u) (mk_state_errno_level sqlerrno sqlstate level)"

definition clear_identity :: "'a Sql_condition_identity_scheme \<Rightarrow> 'a Sql_condition_identity_scheme" where
  "clear_identity x = (clear_level x)\<lparr>ucid := clear_ucid (ucid x)\<rparr>"

section \<open>Conditions\<close>

text \<open>The optional items; the character set of the strings, which never changes, is left out.\<close>

record Sql_condition_items =
  m_class_origin :: Binary_string
  m_subclass_origin :: Binary_string
  m_constraint_catalog :: Binary_string
  m_constraint_schema :: Binary_string
  m_constraint_name :: Binary_string
  m_catalog_name :: Binary_string
  m_schema_name :: Binary_string
  m_table_name :: Binary_string
  m_column_name :: Binary_string
  m_cursor_name :: Binary_string
  m_row_number :: ulong

definition mk_items :: "Sql_condition_items \<Rightarrow> Sql_condition_items" where
  "mk_items i =
     \<lparr>m_class_origin = mk_const 0 0 (m_class_origin i), m_subclass_origin = mk_const 0 0 (m_subclass_origin i),
      m_constraint_catalog = mk_const 0 0 (m_constraint_catalog i),
      m_constraint_schema = mk_const 0 0 (m_constraint_schema i),
      m_constraint_name = mk_const 0 0 (m_constraint_name i), m_catalog_name = mk_const 0 0 (m_catalog_name i),
      m_schema_name = mk_const 0 0 (m_schema_name i), m_table_name = mk_const 0 0 (m_table_name i),
      m_column_name = mk_const 0 0 (m_column_name i), m_cursor_name = mk_const 0 0 (m_cursor_name i),
      m_row_number = 0\<rparr>"

definition clear_items :: "Sql_condition_items \<Rightarrow> Sql_condition_items" where
  "clear_items i =
     i\<lparr>m_class_origin := set_length 0 (m_class_origin i), m_subclass_origin := set_length 0 (m_subclass_origin i),
       m_constraint_catalog := set_length 0 (m_constraint_catalog i),
       m_constraint_schema := set_length 0 (m_constraint_schema i),
       m_constraint_name := set_length 0 (m_constraint_name i), m_catalog_name := set_length 0 (m_catalog_name i),
       m_schema_name := set_length 0 (m_schema_name i), m_table_name := set_length 0 (m_table_name i),
       m_column_name := set_length 0 (m_column_name i), m_cursor_name := set_length 0 (m_cursor_name i),
       m_row_number := 0\<rparr>"

record Sql_condition = Sql_condition_identity +
  items :: Sql_condition_items
  m_message_text :: Binary_string
  m_mem_root :: ptr

text \<open>The bits of \<open>MYSQL_TIME_WARN_WARNINGS\<close> are the lowest four.\<close>

definition time_warn_level :: "uint \<Rightarrow> enum_warning_level" where
  "time_warn_level warnings = (if warnings AND 15 \<noteq> 0 then WARN_LEVEL_WARN else WARN_LEVEL_NOTE)"

text \<open>
  A constructor takes the raw memory of the strings, whose fields it does not all set. The functions with an
  assertion are \<open>None\<close> when it fails.
\<close>

definition mk_condition_parts :: "Sql_condition_identity \<Rightarrow> ptr \<Rightarrow> Sql_condition \<Rightarrow> Sql_condition" where
  "mk_condition_parts i root raw = Sql_condition_identity.extend i
     (Sql_condition.fields (mk_items (items raw)) (mk_string (m_message_text raw)) root)"

definition mk_condition :: "Sql_condition \<Rightarrow> Sql_condition" where
  "mk_condition raw = mk_condition_parts (mk_identity mk_level mk_ucid) 0 raw"

definition init_condition :: "ptr \<Rightarrow> Sql_condition \<Rightarrow> Sql_condition option" where
  "init_condition mem_root c =
     (if mem_root \<noteq> 0 \<and> m_mem_root c = 0 then Some (c\<lparr>m_mem_root := mem_root\<rparr>) else None)"

definition mk_condition_root :: "ptr \<Rightarrow> Sql_condition \<Rightarrow> Sql_condition option" where
  "mk_condition_root mem_root raw =
     (if mem_root \<noteq> 0 then Some (mk_condition_parts (mk_identity mk_level mk_ucid) mem_root raw) else None)"

definition mk_condition_user :: "ptr \<Rightarrow> Sql_user_condition_identity \<Rightarrow> Sql_condition \<Rightarrow> Sql_condition option" where
  "mk_condition_user mem_root u raw =
     (if mem_root \<noteq> 0 then Some (mk_condition_parts (mk_identity mk_level u) mem_root raw) else None)"

text \<open>\<open>set_builtin_message_text\<close> is a parameter: it is not in the header.\<close>

definition mk_condition_fixed :: "(ptr \<Rightarrow> Sql_condition \<Rightarrow> Sql_condition) \<Rightarrow> ptr \<Rightarrow> Sql_condition_identity \<Rightarrow> ptr \<Rightarrow>
    ulong \<Rightarrow> Sql_condition \<Rightarrow> Sql_condition option" where
  "mk_condition_fixed set_builtin_message_text mem_root i msg current_row_for_warning raw =
     (if m_sql_errno i \<noteq> 0 \<and> msg \<noteq> 0
      then let c = set_builtin_message_text msg (mk_condition_parts i mem_root raw)
           in Some (c\<lparr>items := (items c)\<lparr>m_row_number := current_row_for_warning\<rparr>\<rparr>)
      else None)"

definition clear_condition :: "Sql_condition \<Rightarrow> Sql_condition" where
  "clear_condition c = (clear_identity c)
     \<lparr>items := clear_items (items c), m_message_text := set_length 0 (m_message_text c)\<rparr>"

section \<open>The classes of states\<close>

text \<open>A valid state has five characters, each of them a digit or an upper-case letter.\<close>

definition valid_char :: "uchar \<Rightarrow> bool" where
  "valid_char c \<longleftrightarrow> 48 \<le> c \<and> c \<le> 57 \<or> 65 \<le> c \<and> c \<le> 90"

definition valid_sqlstate :: "uchar list \<Rightarrow> bool" where
  "valid_sqlstate s \<longleftrightarrow> length s = SQLSTATE_LENGTH \<and> list_all valid_char s"

definition state_ok :: "'a Sql_state_scheme \<Rightarrow> bool" where
  "state_ok x \<longleftrightarrow> length (m_sqlstate x) = SQLSTATE_LENGTH + 1 \<and> m_sqlstate x ! SQLSTATE_LENGTH = 0"

lemma valid_char_order: "valid_char c \<Longrightarrow> 50 <s c \<longleftrightarrow> c \<noteq> 48 \<and> c \<noteq> 49 \<and> c \<noteq> 50" for c :: uchar
proof -
  have "valid_char c \<longrightarrow> 50 <s c \<longleftrightarrow> c \<noteq> 48 \<and> c \<noteq> 49 \<and> c \<noteq> 50"
    by (rule byte_cases) code_simp
  then show "valid_char c \<Longrightarrow> 50 <s c \<longleftrightarrow> c \<noteq> 48 \<and> c \<noteq> 49 \<and> c \<noteq> 50" by simp
qed

lemma mk_state_ok [simp]: "state_ok mk_state"
  by (simp add: state_ok_def mk_state_def SQLSTATE_LENGTH_def nth_append replicate_app_Cons_same nth_Cons')

lemma set_sqlstate_ok:
  assumes "state_ok x" and "set_sqlstate s x = Some y"
  shows "state_ok y" and "m_sqlstate y = take 5 s @ [0]"
proof -
  have l: "length (m_sqlstate x) = 6" "5 \<le> length s"
    and y: "m_sqlstate y = (take 5 s @ drop 5 (m_sqlstate x)) [5 := 0]"
    using assms by (auto simp: state_ok_def set_sqlstate_def SQLSTATE_LENGTH_def split: if_splits)
  have "drop 5 (m_sqlstate x) = [m_sqlstate x ! 5]"
    using Cons_nth_drop_Suc [of 5 "m_sqlstate x"] l by simp
  then show state: "m_sqlstate y = take 5 s @ [0]" using y l by (simp add: list_update_append)
  show "state_ok y" using l by (simp add: state state_ok_def SQLSTATE_LENGTH_def nth_append)
qed

lemma c_string_valid: "list_all (\<lambda>b. b \<noteq> 0) s \<Longrightarrow> c_string (s @ [0]) = s"
  by (induction s) (simp_all add: c_string_def)

lemma valid_not_null: "list_all valid_char s \<Longrightarrow> list_all (\<lambda>b. b \<noteq> 0) s"
  by (auto simp: list_all_iff valid_char_def)

section \<open>Programs over an identity\<close>

datatype identity_cmd = Set_state "uchar list" | Set_errno uint "uchar list" | Copy_state Sql_state | Clear_identity

fun identity_step :: "identity_cmd \<Rightarrow> Sql_condition_identity \<Rightarrow> Sql_condition_identity option" where
  "identity_step (Set_state s) x = set_sqlstate s x"
| "identity_step (Set_errno e s) x = set_errno e s x"
| "identity_step (Copy_state o') x = Some (copy_sqlstate o' x)"
| "identity_step Clear_identity x = Some (clear_identity x)"

fun run_identity :: "identity_cmd list \<Rightarrow> Sql_condition_identity \<Rightarrow> Sql_condition_identity option" where
  "run_identity [] x = Some x"
| "run_identity (c # cs) x = (case identity_step c x of None \<Rightarrow> None | Some y \<Rightarrow> run_identity cs y)"

text \<open>What the commands promise: the sources are long enough, and a copied state is one a constructor has made.\<close>

fun identity_cmd_ok :: "identity_cmd \<Rightarrow> bool" where
  "identity_cmd_ok (Set_state s) = (5 \<le> length s)"
| "identity_cmd_ok (Set_errno e s) = (5 \<le> length s)"
| "identity_cmd_ok (Copy_state o') = state_ok o'"
| "identity_cmd_ok Clear_identity = True"

text \<open>The state and the number that a program leaves.\<close>

fun last_state :: "identity_cmd list \<Rightarrow> uchar list \<Rightarrow> uchar list" where
  "last_state [] v = v"
| "last_state (Set_state s # cs) v = last_state cs (take 5 s @ [0])"
| "last_state (Set_errno e s # cs) v = last_state cs (take 5 s @ [0])"
| "last_state (Copy_state o' # cs) v = last_state cs (m_sqlstate o')"
| "last_state (Clear_identity # cs) v = last_state cs v"

fun last_errno :: "identity_cmd list \<Rightarrow> uint \<Rightarrow> uint" where
  "last_errno [] v = v"
| "last_errno (Set_errno e s # cs) v = last_errno cs e"
| "last_errno (Clear_identity # cs) v = last_errno cs 0"
| "last_errno (Set_state s # cs) v = last_errno cs v"
| "last_errno (Copy_state o' # cs) v = last_errno cs v"

lemma identity_step_ok:
  assumes "state_ok x" and "identity_cmd_ok c"
  shows "\<exists>y. identity_step c x = Some y \<and> state_ok y \<and> m_sqlstate y = last_state [c] (m_sqlstate x) \<and>
    m_sql_errno y = last_errno [c] (m_sql_errno x)"
proof (cases c)
  case (Set_state s)
  then obtain y where y: "set_sqlstate s x = Some y" "m_sql_errno y = m_sql_errno x"
    using assms by (auto simp: set_sqlstate_def SQLSTATE_LENGTH_def)
  show ?thesis using set_sqlstate_ok [OF assms(1) y(1)] y Set_state by simp
next
  case (Set_errno e s)
  let ?x = "x\<lparr>m_sql_errno := e\<rparr>"
  obtain y where y: "set_sqlstate s ?x = Some y" "m_sql_errno y = e"
    using assms Set_errno by (auto simp: set_sqlstate_def SQLSTATE_LENGTH_def)
  have "state_ok ?x" using assms by (simp add: state_ok_def)
  from set_sqlstate_ok [OF this y(1)] show ?thesis using y Set_errno by (simp add: set_errno_def)
qed (use assms in \<open>simp_all add: copy_sqlstate_def clear_identity_def clear_level_def clear_errno_def state_ok_def\<close>)

lemma last_state_Cons: "last_state (c # cs) v = last_state cs (last_state [c] v)"
  by (cases c) simp_all

lemma last_errno_Cons: "last_errno (c # cs) v = last_errno cs (last_errno [c] v)"
  by (cases c) simp_all

lemma run_identity_ok:
  "state_ok x \<Longrightarrow> list_all identity_cmd_ok cs \<Longrightarrow> \<exists>y. run_identity cs x = Some y \<and> state_ok y \<and>
     m_sqlstate y = last_state cs (m_sqlstate x) \<and> m_sql_errno y = last_errno cs (m_sql_errno x)"
proof (induction cs arbitrary: x)
  case Nil
  then show ?case by simp
next
  case (Cons c cs)
  then obtain y where y: "identity_step c x = Some y" "state_ok y" "m_sqlstate y = last_state [c] (m_sqlstate x)"
    "m_sql_errno y = last_errno [c] (m_sql_errno x)"
    using identity_step_ok [of x c] by auto
  then show ?case using Cons.IH [OF y(2)] Cons.prems(2) y
    by (subst last_state_Cons, subst last_errno_Cons) simp
qed

section \<open>Properties\<close>

lemma set_valid: "state_ok x \<Longrightarrow> valid_sqlstate s \<Longrightarrow> set_sqlstate s x = Some y \<Longrightarrow> m_sqlstate y = s @ [0] \<and> length s = 5"
  using set_sqlstate_ok(2) [of x s y] by (simp add: valid_sqlstate_def SQLSTATE_LENGTH_def)

text \<open>Two valid states compare equal when they are.\<close>

lemma state_eq_valid:
  assumes "valid_sqlstate s" and "set_sqlstate s x = Some y" and "state_ok x"
    and "valid_sqlstate t" and "set_sqlstate t x' = Some z" and "state_ok x'"
  shows "state_eq y z \<longleftrightarrow> s = t"
  using set_valid [OF assms(3,1,2)] set_valid [OF assms(6,4,5)] assms(1,4)
  by (simp add: state_eq_def c_string_valid valid_not_null valid_sqlstate_def)

text \<open>
  A valid state is of exactly one class: it is an exception when it is neither a completion, a warning nor the
  state of a row that was not found, and no two of these three hold together.
\<close>

theorem sqlstate_classes:
  assumes "valid_sqlstate s" and "set_sqlstate s x = Some y" and "state_ok x"
  shows "(is_exception y \<longleftrightarrow> \<not> is_sqlstate_completion s \<and> \<not> is_warning y \<and> \<not> is_not_found y) \<and>
    \<not> (is_warning y \<and> is_not_found y) \<and> \<not> (is_sqlstate_completion s \<and> (is_warning y \<or> is_not_found y)) \<and> has_sql_state y"
proof -
  have y: "m_sqlstate y = s @ [0]" "length s = 5" using set_valid [OF assms(3,1,2)] by simp_all
  have i: "m_sqlstate y ! 0 = s ! 0" "m_sqlstate y ! 1 = s ! 1" using y by (simp_all add: nth_append)
  have c: "valid_char (s ! 0)" "valid_char (s ! 1)"
    using assms(1) y(2) by (simp_all add: valid_sqlstate_def list_all_length)
  have "s ! 0 \<noteq> 0" using c by (auto simp: valid_char_def)
  then show ?thesis using valid_char_order [OF c(2)]
    by (auto simp: is_exception_def is_sqlstate_completion_def is_warning_def is_not_found_def has_sql_state_def i
        simp del: One_nat_def)
qed

theorem sqlstate_classes_witness:
  "\<exists>y. set_sqlstate [52, 50, 83, 48, 50] mk_state = Some y \<and> is_exception y \<and> \<not> is_warning y \<and> has_sql_state y"
proof -
  have v: "valid_sqlstate [52, 50, 83, 48, 50]" by code_simp
  obtain y where y: "set_sqlstate [52, 50, 83, 48, 50] mk_state = Some y"
    by (simp add: set_sqlstate_def SQLSTATE_LENGTH_def)
  show ?thesis using sqlstate_classes [OF v y mk_state_ok] y
    by (auto simp: is_sqlstate_completion_def is_warning_def is_not_found_def set_sqlstate_def SQLSTATE_LENGTH_def)
qed

text \<open>
  C38. Whatever is set, copied and cleared, in any order, the state of an identity is a string of at most five
  characters: the byte behind them is the end mark. \<open>clear\<close> resets the number but not the state, which
  is still the one last set.
\<close>

theorem identity_program:
  assumes "state_ok x" and "list_all identity_cmd_ok cs"
  shows "\<exists>y. run_identity (cs @ [Clear_identity]) x = Some y \<and> state_ok y \<and> m_sql_errno y = 0 \<and>
    m_level y = WARN_LEVEL_ERROR \<and> m_sqlstate y = last_state cs (m_sqlstate x)"
proof -
  obtain y where y: "run_identity cs x = Some y" "state_ok y" "m_sqlstate y = last_state cs (m_sqlstate x)"
    using run_identity_ok [OF assms] by blast
  have "run_identity (cs @ [Clear_identity]) x = Some (clear_identity y)" if "run_identity cs x = Some y" for cs x
    using that by (induction cs arbitrary: x) (auto split: option.splits)
  then show ?thesis using y by (simp add: clear_identity_def clear_level_def clear_errno_def state_ok_def)
qed

theorem identity_program_witness:
  "\<exists>y. run_identity [Set_errno 1146 [52, 50, 83, 48, 50], Clear_identity] (mk_identity mk_level mk_ucid) = Some y \<and>
     m_sql_errno y = 0 \<and> m_sqlstate y = [52, 50, 83, 48, 50, 0]"
proof -
  have "state_ok (mk_identity mk_level mk_ucid)"
    using mk_state_ok by (simp add: state_ok_def mk_identity_def mk_level_def mk_errno_def Sql_state.defs Sql_state_errno.defs
        Sql_state_errno_level.defs)
  from identity_program [OF this, of "[Set_errno 1146 [52, 50, 83, 48, 50]]"] show ?thesis by auto
qed

end
