(* ===== verification/Diagnostics_Area.thy ===== *)
theory Diagnostics_Area
  imports Sql_State Sql_List Sql_Plist
begin

text \<open>
  The diagnostics area of a statement (\<open>sql_error.h\<close>) and its stack of warning infos. A \<open>Warning_info\<close> is an
  object with an address; the stack is an intrusive list through its link fields (\<open>Sql_Plist\<close>), and so are its conditions;
  the conditions marked for removal are a list of pointers (\<open>Sql_List\<close>). The number of a list is the
  address of its owner. The functions of both classes that the header only declares are parameters.
\<close>

section \<open>Warning infos\<close>

record Warning_info =
  m_warn_count :: "enum_warning_level \<Rightarrow> uint"
  m_current_statement_warn_count :: uint
  m_current_row_for_warning :: ulong
  m_warn_id :: ulonglong
  m_error_condition :: ptr
  m_allow_unlimited_warnings :: bool
  wi_initialized :: bool
  m_read_only :: bool

record wi_mem =
  wi_objs :: "ptr \<Rightarrow> Warning_info option"
  wi_links :: plist_heap  \<comment> \<open>\<open>m_next_in_da\<close>, \<open>m_prev_in_da\<close> and the stacks\<close>
  cond_links :: plist_heap  \<comment> \<open>\<open>next_in_wi\<close>, \<open>prev_in_wi\<close> and the lists \<open>m_warn_list\<close>\<close>
  marked :: Sql_List.heap  \<comment> \<open>the lists \<open>m_marked_sql_conditions\<close>\<close>

definition read_wi :: "(Warning_info \<Rightarrow> 'a) \<Rightarrow> ptr \<Rightarrow> wi_mem \<Rightarrow> 'a option" where
  "read_wi f p m = map_option f (wi_objs m p)"

definition upd_wi :: "(Warning_info \<Rightarrow> Warning_info) \<Rightarrow> ptr \<Rightarrow> wi_mem \<Rightarrow> wi_mem option" where
  "upd_wi f p m = map_option (\<lambda>w. m\<lparr>wi_objs := (wi_objs m)(p \<mapsto> f w)\<rparr>) (wi_objs m p)"

text \<open>The functions outside the header, each with the object it is called on.\<close>

record wi_code =
  x_clear :: "ulonglong \<Rightarrow> ptr \<Rightarrow> wi_mem \<Rightarrow> wi_mem option"
  x_has_message :: "uchar list \<Rightarrow> csize \<Rightarrow> ptr \<Rightarrow> wi_mem \<Rightarrow> bool"
  x_has_errno :: "uint \<Rightarrow> ptr \<Rightarrow> wi_mem \<Rightarrow> bool"
  x_mark :: "ptr \<Rightarrow> wi_mem \<Rightarrow> wi_mem option"
  x_remove_marked :: "ptr \<Rightarrow> wi_mem \<Rightarrow> wi_mem option"
  x_reserve :: "ptr \<Rightarrow> uint \<Rightarrow> ptr \<Rightarrow> wi_mem \<Rightarrow> wi_mem option"
  x_push :: "ptr \<Rightarrow> Sql_condition_identity \<Rightarrow> ptr \<Rightarrow> ulong \<Rightarrow> ptr \<Rightarrow> wi_mem \<Rightarrow> (ptr \<times> wi_mem) option"
  x_push_copy :: "ptr \<Rightarrow> ptr \<Rightarrow> ptr \<Rightarrow> wi_mem \<Rightarrow> (ptr \<times> wi_mem) option"
  x_append :: "ptr \<Rightarrow> ptr \<Rightarrow> ptr \<Rightarrow> wi_mem \<Rightarrow> wi_mem option"

definition wi_id :: "ptr \<Rightarrow> wi_mem \<Rightarrow> ulonglong option" where "wi_id = read_wi m_warn_id"

definition wi_set_id :: "ulonglong \<Rightarrow> ptr \<Rightarrow> wi_mem \<Rightarrow> wi_mem option" where
  "wi_set_id id_arg = upd_wi (\<lambda>w. w\<lparr>m_warn_id := id_arg\<rparr>)"

definition wi_opt_clear :: "wi_code \<Rightarrow> ulonglong \<Rightarrow> ptr \<Rightarrow> wi_mem \<Rightarrow> wi_mem option" where
  "wi_opt_clear X query_id p m = do {
     i \<leftarrow> wi_id p m;
     if query_id \<noteq> i then x_clear X query_id p m else Some m }"

definition wi_reset_for_next_command :: "ptr \<Rightarrow> wi_mem \<Rightarrow> wi_mem option" where
  "wi_reset_for_next_command = upd_wi (\<lambda>w. w\<lparr>m_current_statement_warn_count := 0\<rparr>)"

definition wi_unmark :: "ptr \<Rightarrow> wi_mem \<Rightarrow> wi_mem option" where
  "wi_unmark p m = map_option (\<lambda>h. m\<lparr>marked := h\<rparr>) (Sql_List.empty p (marked m))"

definition wi_mark_condition :: "allocator \<Rightarrow> ptr \<Rightarrow> ptr \<Rightarrow> wi_mem \<Rightarrow> wi_mem option" where
  "wi_mark_condition m_warn_root cond p m =
     map_option (\<lambda>(_, h). m\<lparr>marked := h\<rparr>) (Sql_List.push_back m_warn_root p cond (marked m))"

text \<open>The sum is computed in \<open>uint\<close>.\<close>

definition warn_count :: "ptr \<Rightarrow> wi_mem \<Rightarrow> ulong option" where
  "warn_count = read_wi (\<lambda>w. ucast (m_warn_count w WARN_LEVEL_NOTE + m_warn_count w WARN_LEVEL_ERROR + m_warn_count w WARN_LEVEL_WARN))"

definition error_count :: "ptr \<Rightarrow> wi_mem \<Rightarrow> ulong option" where
  "error_count = read_wi (\<lambda>w. ucast (m_warn_count w WARN_LEVEL_ERROR))"

definition cond_count :: "ptr \<Rightarrow> wi_mem \<Rightarrow> uint option" where
  "cond_count p m = pl_elements p (cond_links m)"

definition wi_is_empty :: "ptr \<Rightarrow> wi_mem \<Rightarrow> bool option" where
  "wi_is_empty p m = pl_is_empty p (cond_links m)"

definition wi_inc_row :: "ptr \<Rightarrow> wi_mem \<Rightarrow> wi_mem option" where
  "wi_inc_row = upd_wi (\<lambda>w. w\<lparr>m_current_row_for_warning := m_current_row_for_warning w + 1\<rparr>)"

definition wi_reset_row :: "cint \<Rightarrow> ptr \<Rightarrow> wi_mem \<Rightarrow> wi_mem option" where
  "wi_reset_row n = upd_wi (\<lambda>w. w\<lparr>m_current_row_for_warning := scast n\<rparr>)"

definition wi_set_row :: "ulong \<Rightarrow> ptr \<Rightarrow> wi_mem \<Rightarrow> (ulong \<times> wi_mem) option" where
  "wi_set_row row p m = do {
     old_row \<leftarrow> read_wi m_current_row_for_warning p m;
     m \<leftarrow> upd_wi (\<lambda>w. w\<lparr>m_current_row_for_warning := row\<rparr>) p m;
     Some (old_row, m) }"

definition wi_row :: "ptr \<Rightarrow> wi_mem \<Rightarrow> ulong option" where "wi_row = read_wi m_current_row_for_warning"

definition wi_statement_count :: "ptr \<Rightarrow> wi_mem \<Rightarrow> ulong option" where
  "wi_statement_count = read_wi (\<lambda>w. ucast (m_current_statement_warn_count w))"

definition wi_set_read_only :: "bool \<Rightarrow> ptr \<Rightarrow> wi_mem \<Rightarrow> wi_mem option" where
  "wi_set_read_only b = upd_wi (\<lambda>w. w\<lparr>m_read_only := b\<rparr>)"

definition wi_is_read_only :: "ptr \<Rightarrow> wi_mem \<Rightarrow> bool option" where "wi_is_read_only = read_wi m_read_only"

definition wi_error_condition :: "ptr \<Rightarrow> wi_mem \<Rightarrow> ptr option" where "wi_error_condition = read_wi m_error_condition"

definition wi_set_error_condition :: "ptr \<Rightarrow> ptr \<Rightarrow> wi_mem \<Rightarrow> wi_mem option" where
  "wi_set_error_condition c = upd_wi (\<lambda>w. w\<lparr>m_error_condition := c\<rparr>)"

definition wi_clear_error_condition :: "ptr \<Rightarrow> wi_mem \<Rightarrow> wi_mem option" where
  "wi_clear_error_condition = upd_wi (\<lambda>w. w\<lparr>m_error_condition := 0\<rparr>)"

section \<open>The status of the statement\<close>

datatype enum_diagnostics_status = DA_EMPTY | DA_OK | DA_EOF | DA_OK_BULK | DA_EOF_BULK | DA_ERROR | DA_DISABLED

record Diagnostics_area = Sql_state_errno +
  da_ucid :: Sql_user_condition_identity
  m_is_sent :: bool
  m_can_overwrite_status :: bool
  m_message :: "uchar list"
  m_affected_rows :: ulonglong
  m_last_insert_id :: ulonglong
  m_statement_warn_count :: uint
  m_status :: enum_diagnostics_status
  is_bulk_execution :: bool
  m_main_wi :: ptr
  m_wi_stack :: nat

definition set_overwrite_status :: "bool \<Rightarrow> Diagnostics_area \<Rightarrow> Diagnostics_area" where
  "set_overwrite_status b d = d\<lparr>m_can_overwrite_status := b\<rparr>"

definition is_sent :: "Diagnostics_area \<Rightarrow> bool" where "is_sent d = m_is_sent d"

definition set_is_sent :: "bool \<Rightarrow> Diagnostics_area \<Rightarrow> Diagnostics_area" where "set_is_sent b d = d\<lparr>m_is_sent := b\<rparr>"

text \<open>The overload without an identity calls the one with it, a parameter.\<close>

definition set_error_status ::
    "(uint \<Rightarrow> ptr \<Rightarrow> ptr \<Rightarrow> Sql_user_condition_identity \<Rightarrow> ptr \<Rightarrow> Diagnostics_area \<times> wi_mem \<Rightarrow> (Diagnostics_area \<times> wi_mem) option) \<Rightarrow>
     uint \<Rightarrow> ptr \<Rightarrow> ptr \<Rightarrow> ptr \<Rightarrow> Diagnostics_area \<times> wi_mem \<Rightarrow> (Diagnostics_area \<times> wi_mem) option" where
  "set_error_status set_status sql_errno msg sqlstate error_condition = set_status sql_errno msg sqlstate mk_ucid error_condition"

definition is_set :: "Diagnostics_area \<Rightarrow> bool" where "is_set d \<longleftrightarrow> m_status d \<noteq> DA_EMPTY"

definition is_error :: "Diagnostics_area \<Rightarrow> bool" where "is_error d \<longleftrightarrow> m_status d = DA_ERROR"

definition is_eof :: "Diagnostics_area \<Rightarrow> bool" where "is_eof d \<longleftrightarrow> m_status d = DA_EOF"

definition is_ok :: "Diagnostics_area \<Rightarrow> bool" where "is_ok d \<longleftrightarrow> m_status d = DA_OK"

definition is_disabled :: "Diagnostics_area \<Rightarrow> bool" where "is_disabled d \<longleftrightarrow> m_status d = DA_DISABLED"

definition set_bulk_execution :: "bool \<Rightarrow> Diagnostics_area \<Rightarrow> Diagnostics_area" where
  "set_bulk_execution bulk d = d\<lparr>is_bulk_execution := bulk\<rparr>"

definition is_bulk_op :: "Diagnostics_area \<Rightarrow> bool" where "is_bulk_op d = is_bulk_execution d"

definition da_message :: "Diagnostics_area \<Rightarrow> uchar list option" where
  "da_message d =
     (if m_status d = DA_ERROR \<or> m_status d = DA_OK \<or> m_status d = DA_OK_BULK \<or> m_status d = DA_EOF_BULK
      then Some (m_message d) else None)"

definition da_sql_errno :: "Diagnostics_area \<Rightarrow> uint option" where
  "da_sql_errno d = (if m_status d = DA_ERROR then Some (m_sql_errno d) else None)"

definition da_sqlstate :: "Diagnostics_area \<Rightarrow> uchar list option" where
  "da_sqlstate d = (if m_status d = DA_ERROR then Some (m_sqlstate d) else None)"

definition affected_rows :: "Diagnostics_area \<Rightarrow> ulonglong option" where
  "affected_rows d = (if m_status d = DA_OK \<or> m_status d = DA_OK_BULK then Some (m_affected_rows d) else None)"

text \<open>\<open>strmake\<close> copies a string into a buffer of a size; it is not in the header.\<close>

definition set_message :: "(uchar list \<Rightarrow> uchar list \<Rightarrow> nat \<Rightarrow> uchar list) \<Rightarrow> uchar list \<Rightarrow> Diagnostics_area \<Rightarrow> Diagnostics_area" where
  "set_message strmake msg d = d\<lparr>m_message := strmake (m_message d) msg (512 - 1)\<rparr>"

definition last_insert_id :: "Diagnostics_area \<Rightarrow> ulonglong option" where
  "last_insert_id d = (if m_status d = DA_OK \<or> m_status d = DA_OK_BULK then Some (m_last_insert_id d) else None)"

definition statement_warn_count :: "Diagnostics_area \<Rightarrow> uint option" where
  "statement_warn_count d =
     (if m_status d = DA_OK \<or> m_status d = DA_OK_BULK \<or> m_status d = DA_EOF \<or> m_status d = DA_EOF_BULK
      then Some (m_statement_warn_count d) else None)"

definition unsafe_statement_warn_count :: "Diagnostics_area \<Rightarrow> uint" where
  "unsafe_statement_warn_count d = m_statement_warn_count d"

definition get_error_condition_identity :: "Diagnostics_area \<Rightarrow> Sql_condition_identity option" where
  "get_error_condition_identity d =
     (if m_status d = DA_ERROR
      then Some (mk_identity_level (Sql_state_errno.truncate d) WARN_LEVEL_ERROR (da_ucid d)) else None)"

definition increment_warning :: "Diagnostics_area \<Rightarrow> Diagnostics_area" where
  "increment_warning d = (if m_status d \<noteq> DA_EMPTY then d\<lparr>m_statement_warn_count := m_statement_warn_count d + 1\<rparr> else d)"

definition da_init :: "(ptr \<Rightarrow> wi_mem \<Rightarrow> wi_mem option) \<Rightarrow> Diagnostics_area \<Rightarrow> wi_mem \<Rightarrow> wi_mem option" where
  "da_init init_wi d m = init_wi (m_main_wi d) m"

definition da_free_memory :: "(ptr \<Rightarrow> wi_mem \<Rightarrow> wi_mem option) \<Rightarrow> Diagnostics_area \<Rightarrow> wi_mem \<Rightarrow> wi_mem option" where
  "da_free_memory free_wi d m = free_wi (m_main_wi d) m"

section \<open>The stack\<close>

definition push_warning_info :: "Diagnostics_area \<Rightarrow> ptr \<Rightarrow> wi_mem \<Rightarrow> wi_mem option" where
  "push_warning_info d wi m = map_option (\<lambda>h. m\<lparr>wi_links := h\<rparr>) (pl_push_front (m_wi_stack d) wi (wi_links m))"

definition pop_warning_info :: "Diagnostics_area \<Rightarrow> wi_mem \<Rightarrow> wi_mem option" where
  "pop_warning_info d m = do {
     n \<leftarrow> pl_elements (m_wi_stack d) (wi_links m);
     if 0 < n then do {
       f \<leftarrow> pl_front (m_wi_stack d) (wi_links m);
       h \<leftarrow> pl_remove (m_wi_stack d) f (wi_links m);
       Some (m\<lparr>wi_links := h\<rparr>) }
     else None }"

definition get_warning_info :: "Diagnostics_area \<Rightarrow> wi_mem \<Rightarrow> ptr option" where
  "get_warning_info d m = pl_front (m_wi_stack d) (wi_links m)"

text \<open>The functions that call the function of the warning info at the front.\<close>

definition on_top :: "Diagnostics_area \<Rightarrow> (ptr \<Rightarrow> wi_mem \<Rightarrow> 'a option) \<Rightarrow> wi_mem \<Rightarrow> 'a option" where
  "on_top d f m = do { p \<leftarrow> get_warning_info d m; f p m }"

definition set_warning_info_id :: "Diagnostics_area \<Rightarrow> ulonglong \<Rightarrow> wi_mem \<Rightarrow> wi_mem option" where
  "set_warning_info_id d i = on_top d (wi_set_id i)"

definition warning_info_id :: "Diagnostics_area \<Rightarrow> wi_mem \<Rightarrow> ulonglong option" where
  "warning_info_id d = on_top d wi_id"

definition warning_info_changed :: "Diagnostics_area \<Rightarrow> ptr \<Rightarrow> wi_mem \<Rightarrow> bool option" where
  "warning_info_changed d wi m = do { i \<leftarrow> on_top d wi_id m; j \<leftarrow> wi_id wi m; Some (i \<noteq> j) }"

definition is_warning_info_empty :: "Diagnostics_area \<Rightarrow> wi_mem \<Rightarrow> bool option" where
  "is_warning_info_empty d = on_top d wi_is_empty"

definition da_statement_count :: "Diagnostics_area \<Rightarrow> wi_mem \<Rightarrow> ulong option" where
  "da_statement_count d = on_top d wi_statement_count"

definition has_message :: "wi_code \<Rightarrow> Diagnostics_area \<Rightarrow> uchar list \<Rightarrow> csize \<Rightarrow> wi_mem \<Rightarrow> bool option" where
  "has_message X d s n = on_top d (\<lambda>p m. Some (x_has_message X s n p m))"

definition has_errno :: "wi_code \<Rightarrow> Diagnostics_area \<Rightarrow> uint \<Rightarrow> wi_mem \<Rightarrow> bool option" where
  "has_errno X d e = on_top d (\<lambda>p m. Some (x_has_errno X e p m))"

definition reset_for_next_command :: "Diagnostics_area \<Rightarrow> wi_mem \<Rightarrow> wi_mem option" where
  "reset_for_next_command d = on_top d wi_reset_for_next_command"

definition clear_warning_info :: "wi_code \<Rightarrow> Diagnostics_area \<Rightarrow> ulonglong \<Rightarrow> wi_mem \<Rightarrow> wi_mem option" where
  "clear_warning_info X d i = on_top d (x_clear X i)"

definition opt_clear_warning_info :: "wi_code \<Rightarrow> Diagnostics_area \<Rightarrow> ulonglong \<Rightarrow> wi_mem \<Rightarrow> wi_mem option" where
  "opt_clear_warning_info X d i = on_top d (wi_opt_clear X i)"

definition set_current_row :: "Diagnostics_area \<Rightarrow> ulong \<Rightarrow> wi_mem \<Rightarrow> (ulong \<times> wi_mem) option" where
  "set_current_row d row = on_top d (wi_set_row row)"

definition current_row :: "Diagnostics_area \<Rightarrow> wi_mem \<Rightarrow> ulong option" where
  "current_row d = on_top d wi_row"

definition inc_current_row :: "Diagnostics_area \<Rightarrow> wi_mem \<Rightarrow> wi_mem option" where
  "inc_current_row d = on_top d wi_inc_row"

definition reset_current_row :: "Diagnostics_area \<Rightarrow> cint \<Rightarrow> wi_mem \<Rightarrow> wi_mem option" where
  "reset_current_row d n = on_top d (wi_reset_row n)"

definition is_warning_info_read_only :: "Diagnostics_area \<Rightarrow> wi_mem \<Rightarrow> bool option" where
  "is_warning_info_read_only d = on_top d wi_is_read_only"

definition set_warning_info_read_only :: "Diagnostics_area \<Rightarrow> bool \<Rightarrow> wi_mem \<Rightarrow> wi_mem option" where
  "set_warning_info_read_only d b = on_top d (wi_set_read_only b)"

definition da_error_count :: "Diagnostics_area \<Rightarrow> wi_mem \<Rightarrow> ulong option" where "da_error_count d = on_top d error_count"

definition da_warn_count :: "Diagnostics_area \<Rightarrow> wi_mem \<Rightarrow> ulong option" where "da_warn_count d = on_top d warn_count"

definition da_cond_count :: "Diagnostics_area \<Rightarrow> wi_mem \<Rightarrow> uint option" where "da_cond_count d = on_top d cond_count"

definition sql_conditions :: "Diagnostics_area \<Rightarrow> wi_mem \<Rightarrow> plist_iter option" where
  "sql_conditions d = on_top d (\<lambda>p m. it_init p (cond_links m))"

definition reserve_space :: "wi_code \<Rightarrow> Diagnostics_area \<Rightarrow> ptr \<Rightarrow> uint \<Rightarrow> wi_mem \<Rightarrow> wi_mem option" where
  "reserve_space X d thd n = on_top d (x_reserve X thd n)"

definition push_warning_copy :: "wi_code \<Rightarrow> Diagnostics_area \<Rightarrow> ptr \<Rightarrow> ptr \<Rightarrow> wi_mem \<Rightarrow> (ptr \<times> wi_mem) option" where
  "push_warning_copy X d thd cond = on_top d (x_push_copy X thd cond)"

definition push_warning_ucid :: "wi_code \<Rightarrow> Diagnostics_area \<Rightarrow> ptr \<Rightarrow> uint \<Rightarrow> uchar list \<Rightarrow> enum_warning_level \<Rightarrow>
    Sql_user_condition_identity \<Rightarrow> ptr \<Rightarrow> ulong \<Rightarrow> wi_mem \<Rightarrow> (ptr \<times> wi_mem) option" where
  "push_warning_ucid X d thd sql_errno_arg sqlstate level u msg row m = do {
     tmp \<leftarrow> mk_identity_state sql_errno_arg sqlstate level u;
     on_top d (x_push X thd tmp msg row) m }"

definition push_warning :: "wi_code \<Rightarrow> Diagnostics_area \<Rightarrow> ptr \<Rightarrow> uint \<Rightarrow> uchar list \<Rightarrow> enum_warning_level \<Rightarrow>
    ptr \<Rightarrow> wi_mem \<Rightarrow> (ptr \<times> wi_mem) option" where
  "push_warning X d thd sqlerrno sqlstate level msg m = push_warning_ucid X d thd sqlerrno sqlstate level mk_ucid msg 0 m"

definition da_mark :: "wi_code \<Rightarrow> Diagnostics_area \<Rightarrow> wi_mem \<Rightarrow> wi_mem option" where "da_mark X d = on_top d (x_mark X)"

definition da_unmark :: "Diagnostics_area \<Rightarrow> wi_mem \<Rightarrow> wi_mem option" where "da_unmark d = on_top d wi_unmark"

definition da_remove_marked :: "wi_code \<Rightarrow> Diagnostics_area \<Rightarrow> wi_mem \<Rightarrow> wi_mem option" where
  "da_remove_marked X d = on_top d (x_remove_marked X)"

definition da_error_condition :: "Diagnostics_area \<Rightarrow> wi_mem \<Rightarrow> ptr option" where
  "da_error_condition d = on_top d wi_error_condition"

definition copy_conditions_to :: "wi_code \<Rightarrow> Diagnostics_area \<Rightarrow> ptr \<Rightarrow> ptr \<Rightarrow> wi_mem \<Rightarrow> wi_mem option" where
  "copy_conditions_to X d thd dst_wi = on_top d (\<lambda>p. x_append X thd p dst_wi)"

definition copy_conditions_from :: "wi_code \<Rightarrow> Diagnostics_area \<Rightarrow> ptr \<Rightarrow> ptr \<Rightarrow> wi_mem \<Rightarrow> wi_mem option" where
  "copy_conditions_from X d thd src_wi = on_top d (x_append X thd src_wi)"

section \<open>Programs of handlers\<close>

datatype wi_cmd =
    Set_id ulonglong
  | Get_id
  | Changed ptr
  | Is_empty_wi
  | Statement_count
  | Has_message "uchar list" csize
  | Has_errno uint
  | Reset_for_next
  | Clear_wi ulonglong
  | Opt_clear ulonglong
  | Set_row ulong
  | Get_row
  | Inc_row
  | Reset_row cint
  | Is_read_only
  | Set_read_only bool
  | Error_count
  | Warn_count
  | Cond_count
  | Conditions
  | Reserve ptr uint
  | Push_copy ptr ptr
  | Push_warning ptr uint "uchar list" enum_warning_level ptr
  | Mark
  | Unmark
  | Remove_marked
  | Error_condition
  | Copy_to ptr ptr
  | Copy_from ptr ptr

datatype wi_out = Unit | Int32 uint | Int64 ulonglong | Flag bool | Adr ptr | Iter plist_iter

definition ret :: "('a \<Rightarrow> wi_out) \<Rightarrow> wi_mem \<Rightarrow> 'a option \<Rightarrow> (wi_out \<times> wi_mem) option" where
  "ret f m = map_option (\<lambda>v. (f v, m))"

definition done_with :: "wi_mem option \<Rightarrow> (wi_out \<times> wi_mem) option" where
  "done_with = map_option (\<lambda>m. (Unit, m))"

fun wi_call :: "wi_code \<Rightarrow> Diagnostics_area \<Rightarrow> wi_cmd \<Rightarrow> wi_mem \<Rightarrow> (wi_out \<times> wi_mem) option" where
  "wi_call X d (Set_id i) m = done_with (set_warning_info_id d i m)"
| "wi_call X d Get_id m = ret Int64 m (warning_info_id d m)"
| "wi_call X d (Changed q) m = ret Flag m (warning_info_changed d q m)"
| "wi_call X d Is_empty_wi m = ret Flag m (is_warning_info_empty d m)"
| "wi_call X d Statement_count m = ret Int32 m (da_statement_count d m)"
| "wi_call X d (Has_message s n) m = ret Flag m (has_message X d s n m)"
| "wi_call X d (Has_errno e) m = ret Flag m (has_errno X d e m)"
| "wi_call X d Reset_for_next m = done_with (reset_for_next_command d m)"
| "wi_call X d (Clear_wi i) m = done_with (clear_warning_info X d i m)"
| "wi_call X d (Opt_clear i) m = done_with (opt_clear_warning_info X d i m)"
| "wi_call X d (Set_row r) m = map_option (\<lambda>(v, m). (Int32 v, m)) (set_current_row d r m)"
| "wi_call X d Get_row m = ret Int32 m (current_row d m)"
| "wi_call X d Inc_row m = done_with (inc_current_row d m)"
| "wi_call X d (Reset_row n) m = done_with (reset_current_row d n m)"
| "wi_call X d Is_read_only m = ret Flag m (is_warning_info_read_only d m)"
| "wi_call X d (Set_read_only b) m = done_with (set_warning_info_read_only d b m)"
| "wi_call X d Error_count m = ret Int32 m (da_error_count d m)"
| "wi_call X d Warn_count m = ret Int32 m (da_warn_count d m)"
| "wi_call X d Cond_count m = ret Int32 m (da_cond_count d m)"
| "wi_call X d Conditions m = ret Iter m (sql_conditions d m)"
| "wi_call X d (Reserve thd n) m = done_with (reserve_space X d thd n m)"
| "wi_call X d (Push_copy thd c) m = map_option (\<lambda>(v, m). (Adr v, m)) (push_warning_copy X d thd c m)"
| "wi_call X d (Push_warning thd e s l msg) m = map_option (\<lambda>(v, m). (Adr v, m)) (push_warning X d thd e s l msg m)"
| "wi_call X d Mark m = done_with (da_mark X d m)"
| "wi_call X d Unmark m = done_with (da_unmark d m)"
| "wi_call X d Remove_marked m = done_with (da_remove_marked X d m)"
| "wi_call X d Error_condition m = ret Adr m (da_error_condition d m)"
| "wi_call X d (Copy_to thd q) m = done_with (copy_conditions_to X d thd q m)"
| "wi_call X d (Copy_from thd q) m = done_with (copy_conditions_from X d thd q m)"

datatype da_cmd = Call wi_cmd | Push_info ptr | Pop_info

fun da_step :: "wi_code \<Rightarrow> Diagnostics_area \<Rightarrow> da_cmd \<Rightarrow> wi_mem \<Rightarrow> (wi_out \<times> wi_mem) option" where
  "da_step X d (Call c) m = wi_call X d c m"
| "da_step X d (Push_info p) m = done_with (push_warning_info d p m)"
| "da_step X d Pop_info m = done_with (pop_warning_info d m)"

text \<open>
  A warning info that can be used: the object, its conditions and its marked conditions are there. Two states agree on it when
  all three are the same.
\<close>

definition wi_ok :: "wi_mem \<Rightarrow> ptr \<Rightarrow> bool" where
  "wi_ok m p \<longleftrightarrow> wi_objs m p \<noteq> None \<and> (\<exists>xs. plist_rep (cond_links m) p True True xs) \<and> (\<exists>ns. Sql_List.rep (marked m) p ns)"

definition wi_same :: "wi_mem \<Rightarrow> wi_mem \<Rightarrow> ptr \<Rightarrow> bool" where
  "wi_same m m' p \<longleftrightarrow> wi_objs m' p = wi_objs m p \<and>
     (\<forall>xs. plist_rep (cond_links m) p True True xs \<longrightarrow> plist_rep (cond_links m') p True True xs) \<and>
     (\<forall>ns. Sql_List.rep (marked m) p ns \<longrightarrow> Sql_List.rep (marked m') p ns)"

text \<open>A function that changes the warning infos of \<open>A\<close> at most, and does not change the stack.\<close>

definition wi_step :: "ptr set \<Rightarrow> wi_mem \<Rightarrow> wi_mem \<Rightarrow> bool" where
  "wi_step A m m' \<longleftrightarrow> wi_links m' = wi_links m \<and> (\<forall>q. q \<notin> A \<longrightarrow> wi_same m m' q) \<and> (\<forall>q. wi_ok m q \<longrightarrow> wi_ok m' q)"

text \<open>The contract of the functions outside the header: each returns, and changes the object it is called on.\<close>

definition wi_contract :: "wi_code \<Rightarrow> bool" where
  "wi_contract X \<longleftrightarrow> (\<forall>m p. wi_ok m p \<longrightarrow>
     (\<forall>i. \<exists>m'. x_clear X i p m = Some m' \<and> wi_step {p} m m') \<and>
     (\<exists>m'. x_mark X p m = Some m' \<and> wi_step {p} m m') \<and>
     (\<exists>m'. x_remove_marked X p m = Some m' \<and> wi_step {p} m m') \<and>
     (\<forall>thd n. \<exists>m'. x_reserve X thd n p m = Some m' \<and> wi_step {p} m m') \<and>
     (\<forall>thd i msg row. \<exists>c m'. x_push X thd i msg row p m = Some (c, m') \<and> wi_step {p} m m') \<and>
     (\<forall>thd c. \<exists>c' m'. x_push_copy X thd c p m = Some (c', m') \<and> wi_step {p} m m') \<and>
     (\<forall>thd src. wi_ok m src \<longrightarrow> (\<exists>m'. x_append X thd src p m = Some m' \<and> wi_step {p} m m')))"

text \<open>The commands that can be called when the warning infos of \<open>L\<close> exist, and the objects other than the front they change.\<close>

fun cmd_ok :: "ptr set \<Rightarrow> wi_cmd \<Rightarrow> bool" where
  "cmd_ok L (Changed q) = (q \<in> L)"
| "cmd_ok L (Push_warning thd e s l msg) = (5 \<le> length s)"
| "cmd_ok L (Copy_to thd q) = (q \<in> L)"
| "cmd_ok L (Copy_from thd q) = (q \<in> L)"
| "cmd_ok L _ = True"

fun cmd_target :: "wi_cmd \<Rightarrow> ptr set" where
  "cmd_target (Copy_to thd q) = {q}"
| "cmd_target _ = {}"

text \<open>The programs that pop what they push, over a stack \<open>st\<close>, and the warning infos they push or copy to.\<close>

inductive nested :: "ptr set \<Rightarrow> ptr list \<Rightarrow> da_cmd list \<Rightarrow> bool" for L where
  nested_Nil: "nested L st []"
| nested_Call: "cmd_ok L c \<Longrightarrow> nested L st cs \<Longrightarrow> nested L st (Call c # cs)"
| nested_Push: "v \<in> L \<Longrightarrow> v \<notin> set st \<Longrightarrow> nested L (v # st) body \<Longrightarrow> nested L st cs \<Longrightarrow>
    nested L st (Push_info v # body @ Pop_info # cs)"

fun reached :: "da_cmd \<Rightarrow> ptr set" where
  "reached (Call c) = cmd_target c"
| "reached (Push_info v) = {v}"
| "reached Pop_info = {}"

definition reaches :: "da_cmd list \<Rightarrow> ptr set" where "reaches cs = (\<Union>c \<in> set cs. reached c)"

definition da_ok :: "ptr set \<Rightarrow> Diagnostics_area \<Rightarrow> wi_mem \<Rightarrow> ptr list \<Rightarrow> bool" where
  "da_ok L d m st \<longleftrightarrow> plist_rep (wi_links m) (m_wi_stack d) True True st \<and> set st \<subseteq> L \<and>
     (\<forall>p\<in>L. wi_ok m p \<and> p \<noteq> 0 \<and> p \<in> dom (pnext (wi_links m)) \<and> p \<in> dom (pprev (wi_links m)))"

section \<open>Steps\<close>

lemma wi_same_refl [simp]: "wi_same m m p"
  by (simp add: wi_same_def)

lemma wi_same_trans: "wi_same m m' p \<Longrightarrow> wi_same m' m'' p \<Longrightarrow> wi_same m m'' p"
  by (simp add: wi_same_def)

lemma wi_step_refl [simp]: "wi_step A m m"
  by (simp add: wi_step_def)

lemma wi_step_mono: "wi_step A m m' \<Longrightarrow> A \<subseteq> B \<Longrightarrow> wi_step B m m'"
  by (auto simp: wi_step_def)

lemma wi_obj: "wi_ok m p \<Longrightarrow> \<exists>w. wi_objs m p = Some w"
  by (auto simp: wi_ok_def)

lemma upd_wi_step: "wi_ok m p \<Longrightarrow> \<exists>m'. upd_wi f p m = Some m' \<and> wi_step {p} m m'"
  by (auto simp: wi_ok_def upd_wi_def wi_step_def wi_same_def)

lemma read_wi_ok: "wi_ok m p \<Longrightarrow> \<exists>v. read_wi f p m = Some v"
  by (auto simp: wi_ok_def read_wi_def)

lemma wi_unmark_step:
  assumes "wi_ok m p"
  shows "\<exists>m'. wi_unmark p m = Some m' \<and> wi_step {p} m m'"
proof -
  obtain ns where "Sql_List.rep (marked m) p ns" using assms by (auto simp: wi_ok_def)
  from rep_empty [OF this] obtain h where h: "Sql_List.empty p (marked m) = Some h" "Sql_List.rep h p []"
    "touches {} {p} (marked m) h" by blast
  have "Sql_List.rep h q ns" if "Sql_List.rep (marked m) q ns" "q \<noteq> p" for q ns
    using rep_frame [OF that(1) h(3)] that(2) by simp
  then have "wi_step {p} m (m\<lparr>marked := h\<rparr>)"
    using h(2) by (fastforce simp: wi_step_def wi_same_def wi_ok_def)
  then show ?thesis using h by (simp add: wi_unmark_def)
qed

lemma on_top_front: "da_ok L d m (w # ws) \<Longrightarrow> on_top d f m = f w m"
  by (simp add: on_top_def get_warning_info_def pl_front_def da_ok_def plist_rep_def)

lemma da_ok_top: "da_ok L d m (w # ws) \<Longrightarrow> wi_ok m w"
  by (auto simp: da_ok_def)

lemma da_ok_step: "da_ok L d m st \<Longrightarrow> wi_step A m m' \<Longrightarrow> da_ok L d m' st"
  by (simp add: da_ok_def wi_step_def)

lemmas call_defs = set_warning_info_id_def warning_info_id_def warning_info_changed_def is_warning_info_empty_def
  da_statement_count_def has_message_def has_errno_def reset_for_next_command_def clear_warning_info_def
  opt_clear_warning_info_def set_current_row_def current_row_def inc_current_row_def reset_current_row_def
  is_warning_info_read_only_def set_warning_info_read_only_def da_error_count_def da_warn_count_def da_cond_count_def
  sql_conditions_def reserve_space_def push_warning_copy_def push_warning_ucid_def push_warning_def da_mark_def da_unmark_def
  da_remove_marked_def da_error_condition_def copy_conditions_to_def copy_conditions_from_def

lemmas wi_defs = wi_id_def wi_set_id_def wi_reset_for_next_command_def warn_count_def error_count_def
  wi_inc_row_def wi_reset_row_def wi_row_def wi_statement_count_def wi_set_read_only_def wi_is_read_only_def
  wi_error_condition_def

lemma identity_Some: "5 \<le> length s \<Longrightarrow> \<exists>i. mk_identity_state e s l u = Some i"
  by (simp add: mk_identity_state_def mk_state_errno_level_def mk_state_errno_def mk_state_from_def set_sqlstate_def
      SQLSTATE_LENGTH_def)

lemma contract_facts:
  assumes "wi_contract X" and "wi_ok m p"
  shows "\<exists>m'. x_clear X i p m = Some m' \<and> wi_step {p} m m'"
    and "\<exists>m'. x_mark X p m = Some m' \<and> wi_step {p} m m'"
    and "\<exists>m'. x_remove_marked X p m = Some m' \<and> wi_step {p} m m'"
    and "\<exists>m'. x_reserve X thd n p m = Some m' \<and> wi_step {p} m m'"
    and "\<exists>c m'. x_push X thd j msg row p m = Some (c, m') \<and> wi_step {p} m m'"
    and "\<exists>c' m'. x_push_copy X thd c p m = Some (c', m') \<and> wi_step {p} m m'"
    and "wi_ok m src \<Longrightarrow> \<exists>m'. x_append X thd src p m = Some m' \<and> wi_step {p} m m'"
  using assms unfolding wi_contract_def by blast+

lemma cond_facts:
  assumes "wi_ok m p"
  shows "\<exists>n. cond_count p m = Some n" and "\<exists>b. wi_is_empty p m = Some b" and "\<exists>it. it_init p (cond_links m) = Some it"
  using assms by (auto simp: wi_ok_def cond_count_def wi_is_empty_def pl_elements_def pl_is_empty_def it_init_def pl_front_def
      plist_rep_def)

lemma set_row_step: "wi_ok m p \<Longrightarrow> \<exists>v m'. wi_set_row r p m = Some (v, m') \<and> wi_step {p} m m'"
  using upd_wi_step [of m p "\<lambda>w. w\<lparr>m_current_row_for_warning := r\<rparr>"] read_wi_ok [of m p m_current_row_for_warning]
  by (auto simp: wi_set_row_def)

lemma opt_clear_step:
  assumes "wi_contract X" and "wi_ok m p"
  shows "\<exists>m'. wi_opt_clear X i p m = Some m' \<and> wi_step {p} m m'"
  using read_wi_ok [OF assms(2), of m_warn_id] contract_facts(1) [OF assms]
  by (auto simp: wi_opt_clear_def wi_id_def)

lemma ret_step: "\<exists>v. r = Some v \<Longrightarrow> \<exists>v m'. ret f m r = Some (v, m') \<and> wi_step A m m'"
  by (auto simp: ret_def)

lemma done_step: "\<exists>m'. r = Some m' \<and> wi_step {p} m m' \<Longrightarrow> \<exists>v m'. done_with r = Some (v, m') \<and> wi_step (insert p B) m m'"
  by (auto simp: done_with_def elim: wi_step_mono)

lemma call_step:
  assumes X: "wi_contract X" and d: "da_ok L d m (w # ws)" and c: "cmd_ok L c"
  shows "\<exists>v m'. wi_call X d c m = Some (v, m') \<and> wi_step (insert w (cmd_target c)) m m'"
proof -
  note w = da_ok_top [OF d]
  note top = on_top_front [OF d]
  have L: "wi_ok m q" if "q \<in> L" for q using d that by (simp add: da_ok_def)
  note upd = upd_wi_step [OF w] and rd = read_wi_ok [OF w]
  show ?thesis
  proof (cases c)
    case (Changed q)
    then show ?thesis using rd [of m_warn_id] read_wi_ok [OF L, of q m_warn_id] c
      by (auto simp: call_defs ret_def done_with_def top wi_id_def)
  next
    case (Push_warning thd e s l msg)
    then obtain i where i: "mk_identity_state e s l mk_ucid = Some i"
      using identity_Some [of s e l mk_ucid] c by auto
    then show ?thesis using Push_warning contract_facts(5) [OF X w, of thd i msg 0] by (auto simp: call_defs ret_def done_with_def top)
  next
    case (Copy_to thd q)
    then obtain m' where "x_append X thd w q m = Some m'" "wi_step {q} m m'"
      using contract_facts(7) [OF X L w, of q thd] c by auto
    then show ?thesis using Copy_to wi_step_mono [of "{q}" m m' "{w, q}"] by (auto simp: call_defs ret_def done_with_def top)
  next
    case (Copy_from thd q)
    then show ?thesis using contract_facts(7) [OF X w L, of q thd] c by (auto simp: call_defs ret_def done_with_def top)
  next
    case (Push_copy thd a)
    then show ?thesis using contract_facts(6) [OF X w, of thd a] by (auto simp: call_defs ret_def done_with_def top)
  next
    case (Set_row r)
    then show ?thesis using set_row_step [OF w, of r] by (auto simp: call_defs ret_def done_with_def top)
  next
    case (Clear_wi i)
    then show ?thesis using contract_facts(1) [OF X w, of i] by (auto simp: call_defs ret_def done_with_def top)
  next
    case (Opt_clear i)
    then show ?thesis using opt_clear_step [OF X w, of i] by (auto simp: call_defs ret_def done_with_def top)
  next
    case (Reserve thd n)
    then show ?thesis using contract_facts(4) [OF X w, of thd n] by (auto simp: call_defs ret_def done_with_def top)
  next
    case Mark
    then show ?thesis using contract_facts(2) [OF X w] by (auto simp: call_defs ret_def done_with_def top)
  next
    case Unmark
    then show ?thesis using wi_unmark_step [OF w] by (auto simp: call_defs ret_def done_with_def top)
  next
    case Remove_marked
    then show ?thesis using contract_facts(3) [OF X w] by (auto simp: call_defs ret_def done_with_def top)
  qed (simp only: wi_call.simps call_defs top wi_defs, rule ret_step done_step, (rule upd rd cond_facts [OF w] | simp), (rule subset_insertI | simp)?)+
qed

section \<open>Pushing and popping\<close>

lemma wi_ok_links [simp]: "wi_ok (m\<lparr>wi_links := h\<rparr>) p = wi_ok m p" "wi_same m (m\<lparr>wi_links := h\<rparr>) p"
  by (simp_all add: wi_ok_def wi_same_def)

lemma push_step:
  assumes d: "da_ok L d m st" and v: "v \<in> L" "v \<notin> set st"
  shows "\<exists>h. push_warning_info d v m = Some (m\<lparr>wi_links := h\<rparr>) \<and> da_ok L d (m\<lparr>wi_links := h\<rparr>) (v # st)"
proof -
  have rep: "plist_rep (wi_links m) (m_wi_stack d) True True st" using d by (simp add: da_ok_def)
  have a: "v \<in> dom (pnext (wi_links m))" "v \<in> dom (pprev (wi_links m))" "v \<noteq> 0" using d v(1) by (auto simp: da_ok_def)
  obtain h where h: "pl_push_front (m_wi_stack d) v (wi_links m) = Some h" "plist_rep h (m_wi_stack d) True True (v # st)"
    "touched (m_wi_stack d) (insert v (set st)) (wi_links m) h"
    using push_front_rep [OF rep a v(2)] by blast
  moreover have "da_ok L d (m\<lparr>wi_links := h\<rparr>) (v # st)" using d v(1) h by (simp add: da_ok_def touched_def)
  ultimately show ?thesis by (intro exI [of _ h]) (simp add: push_warning_info_def)
qed

lemma pop_step:
  assumes d: "da_ok L d m (v # st)" and L: "finite L" "card L < 2 ^ 32"
  shows "\<exists>h. pop_warning_info d m = Some (m\<lparr>wi_links := h\<rparr>) \<and> da_ok L d (m\<lparr>wi_links := h\<rparr>) st"
proof -
  have rep: "plist_rep (wi_links m) (m_wi_stack d) True True (v # st)" using d by (simp add: da_ok_def)
  have "length (v # st) = card (set (v # st))" using rep by (simp add: plist_rep_def distinct_card)
  also have "\<dots> \<le> card L" using d L(1) by (intro card_mono) (auto simp: da_ok_def)
  finally have n: "0 < (of_nat (length (v # st)) :: uint)"
    using L(2) unat_of_nat_small [of "length (v # st)", where 'a = 32] by (simp only: word_less_nat_alt) simp
  obtain h where h: "pl_remove (m_wi_stack d) v (wi_links m) = Some h" "plist_rep h (m_wi_stack d) True True st"
    "touched (m_wi_stack d) (set (v # st)) (wi_links m) h"
    using remove_rep [of "wi_links m" "m_wi_stack d" True True "[]" v st] rep by auto
  have "pl_elements (m_wi_stack d) (wi_links m) = Some (of_nat (length (v # st)))" "pl_front (m_wi_stack d) (wi_links m) = Some v"
    using rep by (simp_all add: plist_rep_def pl_elements_def pl_front_def)
  then have "pop_warning_info d m = Some (m\<lparr>wi_links := h\<rparr>)" using n h(1) by (simp add: pop_warning_info_def)
  moreover have "da_ok L d (m\<lparr>wi_links := h\<rparr>) st" using d h by (auto simp: da_ok_def touched_def)
  ultimately show ?thesis by blast
qed

lemma reaches_simps [simp]: "reaches [] = {}" "reaches (c # cs) = reached c \<union> reaches cs" "reaches (cs @ ds) = reaches cs \<union> reaches ds"
  by (auto simp: reaches_def)

lemma run_da_append:
  "run_cmds step cs m = Some (xs, m') \<Longrightarrow> run_cmds step ds m' = Some (ys, m'') \<Longrightarrow> run_cmds step (cs @ ds) m = Some (xs @ ys, m'')"
  by (simp add: run_cmds_append)

lemma nested_runs:
  assumes "nested L st cs" and "wi_contract X" and L: "finite L" "card L < 2 ^ 32"
  shows "da_ok L d m st \<Longrightarrow> st \<noteq> [] \<Longrightarrow> \<exists>xs m'. run_cmds (da_step X d) cs m = Some (xs, m') \<and> da_ok L d m' st \<and>
    (\<forall>q. q \<notin> insert (hd st) (reaches cs) \<longrightarrow> wi_same m m' q)"
  using assms(1)
proof (induction st cs arbitrary: m rule: nested.induct)
  case (nested_Nil st)
  then show ?case by simp
next
  case (nested_Call c st cs)
  then obtain w ws where st: "st = w # ws" by (cases st) auto
  obtain v m1 where m1: "wi_call X d c m = Some (v, m1)" "wi_step (insert w (cmd_target c)) m m1"
    using call_step [OF assms(2) _ nested_Call.hyps(1)] nested_Call.prems st by blast
  obtain xs m' where m': "run_cmds (da_step X d) cs m1 = Some (xs, m')" "da_ok L d m' st"
    "\<forall>q. q \<notin> insert w (reaches cs) \<longrightarrow> wi_same m1 m' q"
    using nested_Call.IH [OF da_ok_step [OF nested_Call.prems(1) m1(2)]] st by auto
  have "wi_same m m' q" if "q \<notin> insert w (reaches (Call c # cs))" for q
    using that m1(2) m'(3) wi_same_trans [of m m1 q m'] by (simp add: wi_step_def)
  then show ?case using m1 m' st by auto
next
  case (nested_Push v st body cs)
  obtain h1 where h1: "push_warning_info d v m = Some (m\<lparr>wi_links := h1\<rparr>)" "da_ok L d (m\<lparr>wi_links := h1\<rparr>) (v # st)"
    using push_step [OF nested_Push.prems(1) nested_Push.hyps(1,2)] by blast
  obtain xs m2 where m2: "run_cmds (da_step X d) body (m\<lparr>wi_links := h1\<rparr>) = Some (xs, m2)" "da_ok L d m2 (v # st)"
    "\<forall>q. q \<notin> insert v (reaches body) \<longrightarrow> wi_same (m\<lparr>wi_links := h1\<rparr>) m2 q"
    using nested_Push.IH(1) [OF h1(2)] by auto
  obtain h3 where h3: "pop_warning_info d m2 = Some (m2\<lparr>wi_links := h3\<rparr>)" "da_ok L d (m2\<lparr>wi_links := h3\<rparr>) st"
    using pop_step [OF m2(2) L] by blast
  obtain ys m4 where m4: "run_cmds (da_step X d) cs (m2\<lparr>wi_links := h3\<rparr>) = Some (ys, m4)" "da_ok L d m4 st"
    "\<forall>q. q \<notin> insert (hd st) (reaches cs) \<longrightarrow> wi_same (m2\<lparr>wi_links := h3\<rparr>) m4 q"
    using nested_Push.IH(2) [OF h3(2) nested_Push.prems(2)] by auto
  have run: "run_cmds (da_step X d) (Push_info v # body @ Pop_info # cs) m = Some (Unit # xs @ Unit # ys, m4)"
    using h1(1) h3(1) m4(1) run_da_append [OF m2(1), of "Pop_info # cs" "Unit # ys" m4] by (simp add: done_with_def)
  have "wi_same m m4 q" if q: "q \<notin> insert (hd st) (reaches (Push_info v # body @ Pop_info # cs))" for q
    using q m2(3) m4(3) by (auto simp: wi_same_def)
  then show ?case using run m4(2) by blast
qed

section \<open>Properties\<close>

text \<open>
  C11. A handler works on its own warning info: a program that pushes one, runs any calls and nested handlers and pops it
  returns, passes every assertion, follows no dead pointer, leaves the stack as it was, and every warning info
  that is not pushed or the destination of a copy in it is as before, with its conditions and marks.
\<close>

theorem handler_isolated:
  assumes "wi_contract X" and "finite L" and "card L < 2 ^ 32" and "da_ok L d m st" and "v \<in> L" and "v \<notin> set st"
    and "nested L (v # st) body"
  shows "\<exists>xs m'. run_cmds (da_step X d) (Push_info v # body @ [Pop_info]) m = Some (xs, m') \<and> da_ok L d m' st \<and>
    (\<forall>q. q \<notin> insert v (reaches body) \<longrightarrow> wi_same m m' q)"
proof -
  obtain h1 where h1: "push_warning_info d v m = Some (m\<lparr>wi_links := h1\<rparr>)" "da_ok L d (m\<lparr>wi_links := h1\<rparr>) (v # st)"
    using push_step [OF assms(4-6)] by blast
  obtain xs m2 where m2: "run_cmds (da_step X d) body (m\<lparr>wi_links := h1\<rparr>) = Some (xs, m2)" "da_ok L d m2 (v # st)"
    "\<forall>q. q \<notin> insert v (reaches body) \<longrightarrow> wi_same (m\<lparr>wi_links := h1\<rparr>) m2 q"
    using nested_runs [OF assms(7,1,2,3) h1(2)] by auto
  obtain h3 where h3: "pop_warning_info d m2 = Some (m2\<lparr>wi_links := h3\<rparr>)" "da_ok L d (m2\<lparr>wi_links := h3\<rparr>) st"
    using pop_step [OF m2(2) assms(2,3)] by blast
  have "run_cmds (da_step X d) (Push_info v # body @ [Pop_info]) m = Some (Unit # xs @ [Unit], m2\<lparr>wi_links := h3\<rparr>)"
    using h1(1) h3(1) run_da_append [OF m2(1), of "[Pop_info]" "[Unit]" "m2\<lparr>wi_links := h3\<rparr>"] by (simp add: done_with_def)
  moreover have "wi_same m (m2\<lparr>wi_links := h3\<rparr>) q" if "q \<notin> insert v (reaches body)" for q
    using that m2(3) by (auto simp: wi_same_def)
  ultimately show ?thesis using h3(2) by blast
qed

text \<open>Functions that keep the contract, and an area with one warning info on its stack and one to push.\<close>

definition example_code :: wi_code where
  "example_code = \<lparr>x_clear = (\<lambda>i. upd_wi (\<lambda>w. w\<lparr>m_warn_id := i, m_current_statement_warn_count := 0\<rparr>)),
     x_has_message = (\<lambda>s n p m. False), x_has_errno = (\<lambda>e p m. False), x_mark = (\<lambda>p m. Some m),
     x_remove_marked = wi_unmark, x_reserve = (\<lambda>thd n p m. Some m),
     x_push = (\<lambda>thd i msg row p m. map_option (Pair 0)
       (upd_wi (\<lambda>w. w\<lparr>m_current_statement_warn_count := m_current_statement_warn_count w + 1\<rparr>) p m)),
     x_push_copy = (\<lambda>thd c p m. Some (0, m)), x_append = (\<lambda>thd src p m. Some m)\<rparr>"

lemma example_contract: "wi_contract example_code"
  using upd_wi_step wi_unmark_step by (fastforce simp: wi_contract_def example_code_def)

definition example_wi :: Warning_info where
  "example_wi = \<lparr>m_warn_count = (\<lambda>_. 0), m_current_statement_warn_count = 3, m_current_row_for_warning = 5, m_warn_id = 9,
     m_error_condition = 0, m_allow_unlimited_warnings = False, wi_initialized = True, m_read_only = False\<rparr>"

definition example_mem :: wi_mem where
  "example_mem = \<lparr>wi_objs = [1 \<mapsto> example_wi, 2 \<mapsto> example_wi],
     wi_links = \<lparr>plists = [0 \<mapsto> list_fields 0 True True [1]], pnext = [1 \<mapsto> 0, 2 \<mapsto> 0],
       pprev = [1 \<mapsto> pslot.First 0, 2 \<mapsto> pslot.First 0]\<rparr>,
     cond_links = \<lparr>plists = [1 \<mapsto> list_fields 1 True True [], 2 \<mapsto> list_fields 2 True True []], pnext = Map.empty, pprev = Map.empty\<rparr>,
     marked = \<lparr>nodes = [end_of_list \<mapsto> end_node], lists = [1 \<mapsto> header 1 [], 2 \<mapsto> header 2 []]\<rparr>\<rparr>"

definition example_area :: Diagnostics_area where
  "example_area = Sql_state_errno.extend (mk_errno 0) (Diagnostics_area.fields mk_ucid False False [] 0 0 0 DA_EMPTY False 1 0)"

lemma example_da_ok: "da_ok {1, 2} example_area example_mem [1]"
proof -
  have "m_wi_stack example_area = 0" by (simp add: example_area_def Sql_state_errno.defs Diagnostics_area.defs)
  then show ?thesis
    by (auto simp: da_ok_def example_mem_def wi_ok_def plist_rep_def Sql_List.rep_def seg_def)
qed

theorem handler_isolated_witness:
  "\<exists>xs m'. run_cmds (da_step example_code example_area)
       [Push_info 2, Call Inc_row, Call (Push_warning 4 1146 [52, 50, 83, 48, 50] WARN_LEVEL_ERROR 8), Call (Clear_wi 7), Pop_info]
       example_mem = Some (xs, m') \<and> wi_objs m' 1 = Some example_wi"
proof -
  have "nested {1, 2} [2, 1] [Call Inc_row, Call (Push_warning 4 1146 [52, 50, 83, 48, 50] WARN_LEVEL_ERROR 8), Call (Clear_wi 7)]"
    by (intro nested_Call nested_Nil) simp_all
  then obtain xs m' where m': "run_cmds (da_step example_code example_area)
       [Push_info 2, Call Inc_row, Call (Push_warning 4 1146 [52, 50, 83, 48, 50] WARN_LEVEL_ERROR 8), Call (Clear_wi 7), Pop_info]
       example_mem = Some (xs, m')" "\<forall>q. q \<noteq> 2 \<longrightarrow> wi_same example_mem m' q"
    using handler_isolated [OF example_contract _ _ example_da_ok, of 2] by fastforce
  moreover have "wi_objs m' 1 = Some example_wi" using m'(2) by (simp add: wi_same_def example_mem_def)
  ultimately show ?thesis by blast
qed

end
