(* ===== verification/Sql_Charset.thy ===== *)
theory Sql_Charset
  imports String_Append
begin

text \<open>
  Strings with a character set (\<open>sql_string.h\<close>): the classes \<open>Charset\<close> and \<open>String\<close>. A character set is outside the
  repository: a record of the functions that the code calls. A pointer to one is an address, and the environment says
  which character set is there.
\<close>

section \<open>Character sets\<close>

record 'c charset_info =
  cs_mbminlen :: uint
  cs_mbmaxlen :: uint
  cs_use_mb :: bool
  cs_numchars :: "memory \<Rightarrow> addr \<Rightarrow> addr \<Rightarrow> csize"
  cs_lengthsp :: "memory \<Rightarrow> addr \<Rightarrow> csize \<Rightarrow> csize"
  cs_charpos :: "memory \<Rightarrow> addr \<Rightarrow> addr \<Rightarrow> csize \<Rightarrow> csize"
  cs_well_formed_end :: "memory \<Rightarrow> addr \<Rightarrow> addr \<Rightarrow> csize \<Rightarrow> addr"
  cs_scan_spaces :: "memory \<Rightarrow> addr \<Rightarrow> addr \<Rightarrow> csize"
  cs_wc_mb :: "'c \<Rightarrow> addr \<Rightarrow> addr \<Rightarrow> memory \<Rightarrow> cint \<times> memory"

record 'c cs_env =
  cs_at :: "ptr \<Rightarrow> 'c charset_info"
  my_charset_bin :: ptr
  my_charset_latin1 :: ptr
  my_charset_same :: "ptr \<Rightarrow> ptr \<Rightarrow> bool"

definition is_good_for_ft :: "'c cs_env \<Rightarrow> ptr \<Rightarrow> bool" where
  "is_good_for_ft E cs \<longleftrightarrow> cs \<noteq> my_charset_bin E \<and> cs_mbminlen (cs_at E cs) = 1"

definition can_have_collate_clause :: "'c cs_env \<Rightarrow> ptr \<Rightarrow> bool" where
  "can_have_collate_clause E cs \<longleftrightarrow> cs \<noteq> my_charset_bin E"

text \<open>The length of the well-formed prefix of a string, and the first position that a conversion complains about.\<close>

definition well_formed_prefix :: "'c charset_info \<Rightarrow> memory \<Rightarrow> addr \<Rightarrow> csize \<Rightarrow> csize \<Rightarrow> csize" where
  "well_formed_prefix cs m str len nchars = cs_well_formed_end cs m str (str + len) nchars - str"

definition most_important_error_pos :: "addr \<Rightarrow> addr \<Rightarrow> addr" where
  "most_important_error_pos well_formed_error_pos cannot_convert_error_pos =
     (if well_formed_error_pos \<noteq> 0 then well_formed_error_pos else cannot_convert_error_pos)"

definition check_if_only_end_space :: "'c charset_info \<Rightarrow> memory \<Rightarrow> addr \<Rightarrow> addr \<Rightarrow> bool" where
  "check_if_only_end_space cs m str en \<longleftrightarrow> str + cs_scan_spaces cs m str en = en"

section \<open>Versions of collations\<close>

definition latest_version :: ulong where "latest_version = 110002"

definition collation_changed_order :: "ulong \<Rightarrow> uint \<Rightarrow> bool" where
  "collation_changed_order v cs \<longleftrightarrow>
     (if v < 50048 \<and> (cs = 11 \<or> cs = 41 \<or> cs = 42 \<or> cs = 20 \<or> cs = 21 \<or> cs = 22 \<or> cs = 23 \<or> cs = 26) \<or>
         v < 50124 \<and> (cs = 33 \<or> cs = 35)
      then True
      else cs = 159 \<and>
        (100400 \<le> v \<and> v < 100429 \<or> 100500 \<le> v \<and> v < 100520 \<or> 100600 \<le> v \<and> v < 100613 \<or> 100700 \<le> v \<and> v < 100708 \<or>
         100800 \<le> v \<and> v < 100808 \<or> 100900 \<le> v \<and> v < 100906 \<or> 101000 \<le> v \<and> v < 101004 \<or> 101100 \<le> v \<and> v < 101103 \<or>
         110000 \<le> v \<and> v < 110002))"

text \<open>The numbers of the second page of the character sets UCS2, UTF8, UTF32, UTF16 and UTF8MB4.\<close>

definition upgrade_collation_id :: "ulong \<Rightarrow> uint \<Rightarrow> uint" where
  "upgrade_collation_id v cs =
     (if (50300 \<le> v \<and> v \<le> 50399) \<and> cs = 149 then 0x280
      else if (50300 \<le> v \<and> v \<le> 50399) \<and> cs = 213 then 0x240
      else if 50500 \<le> v \<and> v \<le> 50599 \<or> 100000 \<le> v \<and> v \<le> 100005 then
        (if cs = 149 then 0x280 else if cs = 213 then 0x240 else if cs = 214 then 0x2E0 else if cs = 215 then 0x2A0
         else if cs = 245 then 0x260 else cs)
      else cs)"

section \<open>Strings\<close>

record sql_string =
  m_charset :: ptr
  bin :: Binary_string

type_synonym sstate = "sql_string \<times> hstate"

text \<open>The functions of the base class on the part of the object.\<close>

definition on_bin :: "(bstate \<Rightarrow> 'r \<times> bstate) \<Rightarrow> sstate \<Rightarrow> 'r \<times> sstate" where
  "on_bin f = (\<lambda>(s, h). let (r, b, h) = f (bin s, h) in (r, s\<lparr>bin := b\<rparr>, h))"

definition with_bin :: "(bstate \<Rightarrow> bstate option) \<Rightarrow> sstate \<Rightarrow> sstate option" where
  "with_bin f = (\<lambda>(s, h). map_option (\<lambda>(b, h). (s\<lparr>bin := b\<rparr>, h)) (f (bin s, h)))"

definition set_charset :: "ptr \<Rightarrow> sstate \<Rightarrow> sstate" where
  "set_charset cs = (\<lambda>(s, h). (s\<lparr>m_charset := cs\<rparr>, h))"

definition mk_str :: "'c cs_env \<Rightarrow> Binary_string \<Rightarrow> sql_string" where
  "mk_str E raw = \<lparr>m_charset = my_charset_bin E, bin = mk_string raw\<rparr>"

definition mk_str_alloced :: "'c cs_env \<Rightarrow> alloc_fun \<Rightarrow> csize \<Rightarrow> bstate \<Rightarrow> sstate" where
  "mk_str_alloced E real_alloc n raw = (let (b, h) = mk_alloced real_alloc n raw in (\<lparr>m_charset = my_charset_bin E, bin = b\<rparr>, h))"

definition mk_str_const :: "addr \<Rightarrow> csize \<Rightarrow> ptr \<Rightarrow> Binary_string \<Rightarrow> sql_string" where
  "mk_str_const str len cs raw = \<lparr>m_charset = cs, bin = mk_const str len raw\<rparr>"

definition mk_str_buffer :: "addr \<Rightarrow> csize \<Rightarrow> ptr \<Rightarrow> Binary_string \<Rightarrow> sql_string" where
  "mk_str_buffer str len cs raw = \<lparr>m_charset = cs, bin = mk_buffer str len raw\<rparr>"

definition mk_str_alias :: "sql_string \<Rightarrow> Binary_string \<Rightarrow> sql_string" where
  "mk_str_alias str raw = \<lparr>m_charset = m_charset str, bin = mk_alias (bin str) raw\<rparr>"

definition mk_stack_string :: "addr \<Rightarrow> csize \<Rightarrow> ptr \<Rightarrow> Binary_string \<Rightarrow> sql_string" where
  "mk_stack_string buff buff_sz cs raw = \<lparr>m_charset = cs, bin = set_length 0 (mk_buffer buff buff_sz raw)\<rparr>"

definition str_set_sub :: "sql_string \<Rightarrow> csize \<Rightarrow> csize \<Rightarrow> sstate \<Rightarrow> sstate option" where
  "str_set_sub str offset n t = map_option (set_charset (m_charset str)) (with_bin (set_sub (bin str) offset n) t)"

definition str_set_buffer :: "addr \<Rightarrow> csize \<Rightarrow> ptr \<Rightarrow> sstate \<Rightarrow> sstate option" where
  "str_set_buffer str n cs t = map_option (set_charset cs) (with_bin (set_buffer str n) t)"

definition str_set_const :: "addr \<Rightarrow> csize \<Rightarrow> ptr \<Rightarrow> sstate \<Rightarrow> sstate option" where
  "str_set_const str n cs t = map_option (set_charset cs) (with_bin (set_const str n) t)"

definition str_set_buffer_if :: "addr \<Rightarrow> csize \<Rightarrow> ptr \<Rightarrow> sql_string \<Rightarrow> sql_string" where
  "str_set_buffer_if str n cs s = s\<lparr>bin := set_buffer_if_not_allocated str n (bin s), m_charset := cs\<rparr>"

text \<open>Functions that set the character set and call a function of the base that is outside the header.\<close>

definition set_number :: "'c cs_env \<Rightarrow> (bstate \<Rightarrow> bool \<times> bstate) \<Rightarrow> sstate \<Rightarrow> bool \<times> sstate" where
  "set_number E set_in_base t = on_bin set_in_base (set_charset (my_charset_latin1 E) t)"

definition copy_with :: "ptr \<Rightarrow> (bstate \<Rightarrow> bool \<times> bstate) \<Rightarrow> sstate \<Rightarrow> bool \<times> sstate" where
  "copy_with cs copy_in_base t = on_bin copy_in_base (set_charset cs t)"

definition str_reset :: "addr \<Rightarrow> csize \<Rightarrow> csize \<Rightarrow> ptr \<Rightarrow> sstate \<Rightarrow> sstate option" where
  "str_reset p n a cs t = map_option (set_charset cs) (with_bin (bs_reset p n a) t)"

text \<open>Assignment from a different string.\<close>

definition str_assign :: "sql_string \<Rightarrow> sstate \<Rightarrow> sstate option" where
  "str_assign s t = with_bin (bs_assign (bin s)) (set_charset (m_charset s) t)"

definition str_swap :: "sql_string \<Rightarrow> sql_string \<Rightarrow> sql_string \<times> sql_string" where
  "str_swap s t = (let (b, c) = bs_swap (bin s) (bin t)
     in (s\<lparr>m_charset := m_charset t, bin := b\<rparr>, t\<lparr>m_charset := m_charset s, bin := c\<rparr>))"

text \<open>
  The conversion that copies at most \<open>nchars\<close> characters takes the target, its size, the source and both character sets
  and returns the length written; it and the conversions of the other copies are parameters.
\<close>

definition copy_convert :: "'c cs_env \<Rightarrow> alloc_fun \<Rightarrow> (ptr \<Rightarrow> addr \<Rightarrow> csize \<Rightarrow> ptr \<Rightarrow> addr \<Rightarrow> uint \<Rightarrow> uint \<Rightarrow> memory \<Rightarrow> uint \<times> memory) \<Rightarrow>
    ptr \<Rightarrow> ptr \<Rightarrow> addr \<Rightarrow> csize \<Rightarrow> csize \<Rightarrow> sstate \<Rightarrow> bool \<times> sstate" where
  "copy_convert E real_alloc copier tocs fromcs src src_length nchars t =
     (let (failed, s, h) = on_bin (bs_alloc real_alloc (ucast (cs_mbmaxlen (cs_at E tocs)) * src_length)) t
      in if failed then (True, s, h)
         else let (n, m) = copier tocs (Ptr (bin s)) (ucast (Alloced_length (bin s))) fromcs src (ucast src_length) (ucast nchars) (mem h)
              in (False, s\<lparr>bin := (bin s)\<lparr>str_length := n\<rparr>, m_charset := tocs\<rparr>, h\<lparr>mem := m\<rparr>))"

text \<open>Appending a \<open>LEX_CSTRING\<close>, whose length must be that of the string; \<open>None\<close> when the assertion fails.\<close>

definition append_lex :: "(addr \<Rightarrow> memory \<Rightarrow> csize) \<Rightarrow> (addr \<Rightarrow> csize \<Rightarrow> sstate \<Rightarrow> bool \<times> sstate) \<Rightarrow> addr \<Rightarrow> csize \<Rightarrow> sstate \<Rightarrow> (bool \<times> sstate) option" where
  "append_lex strlen app str n = (\<lambda>(s, h).
     if n < 0xFFFFFFFF \<and> (n = 0 \<and> str = 0 \<or> n = strlen str (mem h))
     then Some (app str (ucast (ucast n :: uint32)) (s, h)) else None)"

text \<open>The character \<open>'?'\<close> is a value of the type of wide characters.\<close>

definition append_wc :: "'c cs_env \<Rightarrow> alloc_fun \<Rightarrow> 'c \<Rightarrow> 'c \<Rightarrow> sstate \<Rightarrow> bool \<times> sstate" where
  "append_wc E realloc_raw question wc = (\<lambda>(s, h).
     let cs = cs_at E (m_charset s); mx = ucast (cs_mbmaxlen cs);
         (failed, s, h) = on_bin (bs_reserve realloc_raw mx) (s, h)
     in if failed then (True, s, h)
        else let (mblen, s, h) = on_bin (q_append_wc (cs_wc_mb cs) mx wc) (s, h)
             in if 0 < sint mblen then (False, s, h)
                else if mblen = 0 \<and> wc \<noteq> question
                then let (n, s, h) = on_bin (q_append_wc (cs_wc_mb cs) mx question) (s, h) in (sint n \<le> 0, s, h)
                else (True, s, h))"

definition well_formed_length :: "'c cs_env \<Rightarrow> sstate \<Rightarrow> uint" where
  "well_formed_length E = (\<lambda>(s, h). ucast (well_formed_prefix (cs_at E (m_charset s)) (mem h) (Ptr (bin s))
     (ucast (str_length (bin s))) (ucast (str_length (bin s)))))"

definition chop :: "'c cs_env \<Rightarrow> sstate \<Rightarrow> sstate" where
  "chop E = (\<lambda>(s, h).
     if str_length (bin s) \<noteq> 0
     then let s = s\<lparr>bin := (bin s)\<lparr>str_length := str_length (bin s) - 1\<rparr>\<rparr>
          in (s\<lparr>bin := (bin s)\<lparr>str_length := well_formed_length E (s, h)\<rparr>\<rparr>, h)
     else (s, h))"

definition str_numchars :: "'c cs_env \<Rightarrow> sstate \<Rightarrow> uint" where
  "str_numchars E = (\<lambda>(s, h). ucast (cs_numchars (cs_at E (m_charset s)) (mem h) (Ptr (bin s)) (bs_end (bin s))))"

definition str_charpos :: "'c cs_env \<Rightarrow> 64 word \<Rightarrow> uint \<Rightarrow> sstate \<Rightarrow> cint" where
  "str_charpos E i offset = (\<lambda>(s, h). if sint i \<le> 0 then ucast i
     else ucast (cs_charpos (cs_at E (m_charset s)) (mem h) (index32 (Ptr (bin s)) offset) (bs_end (bin s)) i))"

definition str_lengthsp :: "'c cs_env \<Rightarrow> sstate \<Rightarrow> csize" where
  "str_lengthsp E = (\<lambda>(s, h). cs_lengthsp (cs_at E (m_charset s)) (mem h) (Ptr (bin s)) (ucast (str_length (bin s))))"

definition is_ascii :: "'c cs_env \<Rightarrow> sstate \<Rightarrow> bool" where
  "is_ascii E = (\<lambda>(s, h). if str_length (bin s) = 0 then True
     else if 1 < cs_mbminlen (cs_at E (m_charset s)) then False else \<not> has_8bit_bytes (bin s, h))"

definition can_be_safely_converted_to ::
    "'c cs_env \<Rightarrow> (addr \<Rightarrow> uint \<Rightarrow> ptr \<Rightarrow> ptr \<Rightarrow> memory \<Rightarrow> uint) \<Rightarrow> ptr \<Rightarrow> sstate \<Rightarrow> bool" where
  "can_be_safely_converted_to E conversion_errors tocs = (\<lambda>(s, h).
     let n = str_length (bin s) in
     if m_charset s = my_charset_bin E
     then well_formed_prefix (cs_at E tocs) (mem h) (Ptr (bin s)) (ucast n) (ucast n) = ucast n
     else conversion_errors (Ptr (bin s)) n (m_charset s) tocs (mem h) = 0)"

text \<open>The functions that choose between two that have no body in the header.\<close>

definition print_cs :: "'c cs_env \<Rightarrow> (sql_string \<Rightarrow> 's \<Rightarrow> 's) \<Rightarrow> (sql_string \<Rightarrow> ptr \<Rightarrow> 's \<Rightarrow> 's) \<Rightarrow> ptr \<Rightarrow> sql_string \<Rightarrow> 's \<Rightarrow> 's" where
  "print_cs E print print_with_conversion cs s = (if my_charset_same E (m_charset s) cs then print s else print_with_conversion s cs)"

definition append_for_single_quote_opt ::
    "'c cs_env \<Rightarrow> (addr \<Rightarrow> csize \<Rightarrow> sstate \<Rightarrow> bool \<times> sstate) \<Rightarrow> (addr \<Rightarrow> csize \<Rightarrow> ptr \<Rightarrow> sstate \<Rightarrow> bool \<times> sstate) \<Rightarrow>
     addr \<Rightarrow> csize \<Rightarrow> ptr \<Rightarrow> sstate \<Rightarrow> bool \<times> sstate" where
  "append_for_single_quote_opt E plain using_mb_wc str n cs t =
     (if m_charset (fst t) = my_charset_bin E \<or> cs = my_charset_bin E \<or> my_charset_same E (m_charset (fst t)) cs
      then plain str n t else using_mb_wc str n cs t)"

section \<open>What a character set promises\<close>

text \<open>
  Encoding a character writes at most \<open>mbmaxlen\<close> bytes and nothing else; \<open>enc\<close> is the encoding, and \<open>err\<close>
  the number returned for a character that has none.
\<close>

definition encodes :: "('c \<Rightarrow> uchar list option) \<Rightarrow> ('c \<Rightarrow> cint) \<Rightarrow> 'c charset_info \<Rightarrow> bool" where
  "encodes enc err cs \<longleftrightarrow> (\<forall>wc s m. let mx = unat (cs_mbmaxlen cs) in unat s + mx \<le> 2 ^ 64 \<longrightarrow>
     (case cs_wc_mb cs wc s (s + ucast (cs_mbmaxlen cs)) m of (n, m') \<Rightarrow>
        (\<forall>a. unat a < unat s \<or> unat s + mx \<le> unat a \<longrightarrow> m' a = m a) \<and>
        (case enc wc of
           Some bs \<Rightarrow> n = of_nat (length bs) \<and> 0 < length bs \<and> length bs \<le> mx \<and> region m' (unat s) (length bs) = bs
         | None \<Rightarrow> n = err wc \<and> sint n \<le> 0)))"

lemma encodesD:
  assumes "encodes enc err cs" and "unat s + unat (cs_mbmaxlen cs) \<le> 2 ^ 64"
    and "cs_wc_mb cs wc s (s + ucast (cs_mbmaxlen cs)) m = (n, m')"
  shows "unat a < unat s \<or> unat s + unat (cs_mbmaxlen cs) \<le> unat a \<Longrightarrow> m' a = m a"
    and "enc wc = Some bs \<Longrightarrow> n = of_nat (length bs) \<and> 0 < length bs \<and> length bs \<le> unat (cs_mbmaxlen cs) \<and>
      region m' (unat s) (length bs) = bs"
    and "enc wc = None \<Longrightarrow> n = err wc \<and> sint n \<le> 0"
proof -
  have all: "(\<forall>a. unat a < unat s \<or> unat s + unat (cs_mbmaxlen cs) \<le> unat a \<longrightarrow> m' a = m a) \<and>
    (case enc wc of
       Some bs \<Rightarrow> n = of_nat (length bs) \<and> 0 < length bs \<and> length bs \<le> unat (cs_mbmaxlen cs) \<and> region m' (unat s) (length bs) = bs
     | None \<Rightarrow> n = err wc \<and> sint n \<le> 0)"
    using assms(1) [unfolded encodes_def Let_def, rule_format, where wc = wc and s = s and m = m, OF assms(2)] assms(3) by simp
  show "unat a < unat s \<or> unat s + unat (cs_mbmaxlen cs) \<le> unat a \<Longrightarrow> m' a = m a" using all by blast
  show "enc wc = Some bs \<Longrightarrow> n = of_nat (length bs) \<and> 0 < length bs \<and> length bs \<le> unat (cs_mbmaxlen cs) \<and>
      region m' (unat s) (length bs) = bs"
    using all by simp
  show "enc wc = None \<Longrightarrow> n = err wc \<and> sint n \<le> 0" using all by auto
qed

text \<open>One character behind the contents of a string with room for it.\<close>

lemma q_append_wc_spec:
  assumes cs: "encodes enc err cs" and ok: "string_ok U b"
    and room: "unat (str_length b) + unat (cs_mbmaxlen cs) < unat (Alloced_length b)"
    and small: "unat (cs_mbmaxlen cs) < 2 ^ 31"
    and run: "q_append_wc (cs_wc_mb cs) (ucast (cs_mbmaxlen cs)) wc (b, h) = (n, b', h')"
  shows "(case enc wc of Some bs \<Rightarrow> 0 < sint n \<and> appended U (b, h) bs (False, b', h')
     | None \<Rightarrow> n = err wc \<and> sint n \<le> 0 \<and> b' = b \<and> appended U (b, h) [] (True, b', h'))"
proof -
  let ?mx = "unat (cs_mbmaxlen cs)"
  have lt: "str_length b < Alloced_length b" using room by (simp add: word_less_nat_alt)
  note e = unat_bs_end [OF ok lt]
  have p: "unat (Ptr b) + unat (Alloced_length b) \<le> 2 ^ 64" using ok by (simp add: string_ok_def)
  have space: "unat (bs_end b) + ?mx \<le> 2 ^ 64" using e p room by simp
  obtain m' where m': "cs_wc_mb cs wc (bs_end b) (bs_end b + ucast (cs_mbmaxlen cs)) (mem h) = (n, m')" "h' = h\<lparr>mem := m'\<rparr>"
    "b' = (if 0 < sint n then b\<lparr>str_length := str_length b + n\<rparr> else b)"
    using run by (auto simp: q_append_wc_def Let_def split: prod.splits)
  note d = encodesD [OF cs space m'(1)]
  have U: "same_on U h h'"
  proof -
    have "m' a = mem h a" if "a \<in> U" for a
      using that ok e p room by (intro d(1)) (auto simp: string_ok_def own_def)
    then show ?thesis by (simp add: same_on_def m'(2))
  qed
  have old: "region m' (unat (Ptr b)) (unat (str_length b)) = region (mem h) (unat (Ptr b)) (unat (str_length b))"
  proof (rule region_cong)
    fix i assume "unat (Ptr b) \<le> i" "i < unat (Ptr b) + unat (str_length b)"
    moreover from this have "unat (of_nat i :: addr) = i" using p room by (intro unat_of_nat_small) simp
    ultimately show "m' (of_nat i) = mem h (of_nat i)" using e by (intro d(1)) simp
  qed
  show ?thesis
  proof (cases "enc wc")
    case None
    then have "n = err wc" "sint n \<le> 0" using d(3) by blast+
    moreover from this have "b' = b" using m'(3) by simp
    ultimately show ?thesis using None U ok old m' by (simp add: appended_def contents_region)
  next
    case (Some bs)
    note f = d(2) [OF Some]
    have un: "unat n = length bs" using f small unat_of_nat_small [of "length bs", where 'a = 32] by simp
    have pos: "0 < sint n"
    proof -
      have "sint n = int (length bs)" using f small by (simp add: signed_of_nat signed_take_bit_int_eq_self)
      then show ?thesis using f by simp
    qed
    have a: "unat (Alloced_length b) < 2 ^ 32" using unat_less_2p [of "Alloced_length b"] by simp
    have l: "unat (str_length b + n) = unat (str_length b) + length bs" using un room a f by (simp add: unat_word_ariths)
    have "string_ok U (b\<lparr>str_length := str_length b + n\<rparr>)"
      using ok room l f by (simp add: string_ok_def own_def word_le_nat_alt)
    moreover have "region m' (unat (Ptr b)) (unat (str_length b) + length bs) =
        region (mem h) (unat (Ptr b)) (unat (str_length b)) @ bs"
      using f old by (simp add: region_append e)
    ultimately show ?thesis using Some pos U l m' by (simp add: appended_def contents_region)
  qed
qed

lemma appended_trans:
  assumes "made_room U (b, h) k (False, b1, h1)" and "appended U (b1, h1) xs r"
  shows "appended U (b, h) xs r"
  using assms by (auto simp: appended_def made_room_def intro: same_on_trans split: prod.splits)

section \<open>Text\<close>

lemma isascii_below: "my_isascii c \<longleftrightarrow> c < 128"
proof -
  have "my_isascii c = (c < 128)" by (rule byte_cases) code_simp
  then show ?thesis .
qed

text \<open>A string is of ASCII characters when it is empty or its bytes are below 128 and its characters may be one byte long.\<close>

lemma is_ascii_bytes:
  assumes "cs_mbminlen (cs_at E (m_charset s)) \<le> 1"
  shows "is_ascii E (s, h) \<longleftrightarrow> (\<forall>c \<in> set (contents (bin s, h)). c < 128)"
proof (cases "str_length (bin s) = 0")
  case True
  then have "contents (bin s, h) = []" by (simp add: contents_region)
  then show ?thesis using True by (simp add: is_ascii_def)
next
  case False
  then show ?thesis using assms
    by (auto simp: is_ascii_def has_8bit_bytes_def list_ex_iff isascii_below not_less not_le dest: leD)
qed

text \<open>\<open>chop\<close> removes at least one byte, so that repeating it empties the string.\<close>

definition prefix_inside :: "'c charset_info \<Rightarrow> bool" where
  "prefix_inside cs \<longleftrightarrow> (\<forall>m str len nchars. well_formed_prefix cs m str len nchars \<le> len)"

lemma chop_shorter:
  assumes "prefix_inside (cs_at E (m_charset s))" and "chop E (s, h) = (s', h')"
  shows "unat (str_length (bin s')) \<le> unat (str_length (bin s)) - 1" and "m_charset s' = m_charset s"
proof -
  show "m_charset s' = m_charset s" using assms(2) by (auto simp: chop_def Let_def split: if_splits)
  show "unat (str_length (bin s')) \<le> unat (str_length (bin s)) - 1"
  proof (cases "str_length (bin s) = 0")
    case True
    then show ?thesis using assms(2) by (simp add: chop_def)
  next
    case False
    let ?n = "str_length (bin s) - 1" and ?cs = "cs_at E (m_charset s)"
    let ?w = "well_formed_prefix ?cs (mem h) (Ptr (bin s)) (ucast ?n) (ucast ?n)"
    have "?w \<le> ucast ?n" using assms(1) by (simp add: prefix_inside_def)
    then have w: "unat ?w \<le> unat ?n" by (simp add: word_le_nat_alt)
    then have "unat (ucast ?w :: uint32) = unat ?w" using unat_less_2p [of ?n] by (intro unat_ucast_small) simp
    moreover have "unat ?n = unat (str_length (bin s)) - 1" using False by (simp add: unat_minus_one)
    moreover have "str_length (bin s') = ucast ?w" using assms(2) False by (auto simp: chop_def well_formed_length_def Let_def)
    ultimately show ?thesis using w by simp
  qed
qed

lemma chop_empties:
  "prefix_inside (cs_at E (m_charset s)) \<Longrightarrow> unat (str_length (bin s)) \<le> k \<Longrightarrow> ((chop E) ^^ k) (s, h) = (s', h') \<Longrightarrow>
   str_length (bin s') = 0"
proof (induction k arbitrary: s h)
  case 0
  then show ?case by (simp add: unat_eq_zero)
next
  case (Suc k)
  obtain t g where t: "chop E (s, h) = (t, g)" by (cases "chop E (s, h)")
  note c = chop_shorter [OF Suc.prems(1) t]
  show ?case using Suc.IH [of t g] Suc.prems c t by (simp add: funpow_swap1)
qed

section \<open>Properties\<close>

text \<open>
  C36. Appending a character fails exactly when there is no memory for the longest character, or when the character has
  no encoding and the question mark does not replace it: the character is malformed, is the question mark itself, or the
  character set has no question mark. When it fails, the contents are as they were; otherwise they are followed by the
  encoding of the character, or by that of the question mark when the character set has none for it. The memory of others
  is never touched.
\<close>

theorem append_wc_fallback:
  assumes "realloc_ok U R" and "string_ok U (bin s)" and "encodes enc err (cs_at E (m_charset s))"
    and "unat (str_length (bin s)) + unat (cs_mbmaxlen (cs_at E (m_charset s))) < 2 ^ 31"
    and "append_wc E R q wc (s, h) = (failed, s', h')"
  shows "(failed \<longleftrightarrow>
      fst (R (ucast (str_length (bin s)) + ucast (cs_mbmaxlen (cs_at E (m_charset s))) + 1) (bin s, h)) \<or>
      enc wc = None \<and> (err wc \<noteq> 0 \<or> wc = q \<or> enc q = None)) \<and>
    (\<exists>xs. appended U (bin s, h) xs (failed, bin s', h') \<and> m_charset s' = m_charset s \<and>
      (if failed then xs = [] else Some xs = (if enc wc = None then enc q else enc wc)))"
    (is "(failed \<longleftrightarrow> ?none \<or> ?lost) \<and> ?effect")
proof -
  let ?cs = "cs_at E (m_charset s)" and ?b = "bin s"
  let ?mx = "ucast (cs_mbmaxlen ?cs) :: csize" and ?n = "ucast (str_length ?b) + ucast (cs_mbmaxlen ?cs) :: csize"
  have n: "unat ?n = unat (str_length ?b) + unat (cs_mbmaxlen ?cs)" using assms(4) by (simp add: unat_word_ariths)
  obtain f b1 h1 where r: "bs_reserve R ?mx (?b, h) = (f, b1, h1)" by (cases "bs_reserve R ?mx (?b, h)")
  have room: "made_room U (?b, h) (unat ?n) (f, b1, h1)"
    using bs_realloc_spec [OF assms(1,2), of ?n h] n assms(4) r by (simp add: bs_reserve_def)
  have full: "f \<longleftrightarrow> ?none" using r by (auto simp: bs_reserve_def bs_realloc_def Let_def split: prod.splits if_splits)
  show ?thesis
  proof (cases f)
    case True
    then have "failed" "s' = s\<lparr>bin := b1\<rparr>" "h' = h1" using assms(5) r by (auto simp: append_wc_def on_bin_def Let_def)
    then show ?thesis using room full True by (auto simp: appended_def made_room_def)
  next
    case False
    then have room': "made_room U (?b, h) (unat ?n) (False, b1, h1)" using room by simp
    then have ok1: "string_ok U b1" "str_length b1 = str_length ?b" "unat ?n < unat (Alloced_length b1)"
      by (simp_all add: made_room_def)
    have sp: "unat (str_length b1) + unat (cs_mbmaxlen ?cs) < unat (Alloced_length b1)" "unat (cs_mbmaxlen ?cs) < 2 ^ 31"
      using ok1 n assms(4) by simp_all
    obtain k b2 h2 where w: "q_append_wc (cs_wc_mb ?cs) ?mx wc (b1, h1) = (k, b2, h2)"
      by (cases "q_append_wc (cs_wc_mb ?cs) ?mx wc (b1, h1)")
    note spec = q_append_wc_spec [OF assms(3) ok1(1) sp w]
    show ?thesis
    proof (cases "enc wc")
      case (Some bs)
      then have k: "0 < sint k" "appended U (b1, h1) bs (False, b2, h2)" using spec by simp_all
      then have "\<not> failed" "bin s' = b2" "h' = h2" "m_charset s' = m_charset s"
        using assms(5) r w False by (auto simp: append_wc_def on_bin_def Let_def)
      then show ?thesis using Some full \<open>\<not> f\<close> appended_trans [OF room' k(2)] by auto
    next
      case None
      then have k: "k = err wc" "sint k \<le> 0" "b2 = b1" "appended U (b1, h1) [] (True, b2, h2)"
        using spec by auto
      have quiet: "made_room U (?b, h) (unat ?n) (False, b2, h2)"
        using k room False by (auto simp: made_room_def appended_def intro: same_on_trans)
      show ?thesis
      proof (cases "err wc = 0 \<and> wc \<noteq> q")
        case False
        then have "failed" "bin s' = b2" "h' = h2" "m_charset s' = m_charset s"
          using assms(5) r w k \<open>\<not> f\<close> by (auto simp: append_wc_def on_bin_def Let_def)
        then show ?thesis using quiet \<open>enc wc = None\<close> \<open>\<not> (err wc = 0 \<and> wc \<noteq> q)\<close> by (auto simp: appended_def made_room_def)
      next
        case True
        obtain j b3 h3 where v: "q_append_wc (cs_wc_mb ?cs) ?mx q (b2, h2) = (j, b3, h3)"
          by (cases "q_append_wc (cs_wc_mb ?cs) ?mx q (b2, h2)")
        have res: "failed \<longleftrightarrow> sint j \<le> 0" "bin s' = b3" "h' = h3" "m_charset s' = m_charset s"
          using assms(5) r w k \<open>\<not> f\<close> True v by (auto simp: append_wc_def on_bin_def Let_def)
        have ok2: "string_ok U b2" "unat (str_length b2) + unat (cs_mbmaxlen ?cs) < unat (Alloced_length b2)"
          using ok1 sp k(3) by simp_all
        note spec2 = q_append_wc_spec [OF assms(3) ok2 sp(2) v]
        show ?thesis
        proof (cases "enc q")
          case (Some bs)
          then have "0 < sint j" "appended U (b2, h2) bs (False, b3, h3)" using spec2 by simp_all
          then show ?thesis using res True \<open>enc wc = None\<close> Some full \<open>\<not> f\<close> appended_trans [OF quiet] by auto
        next
          case None
          then have "sint j \<le> 0" "appended U (b2, h2) [] (True, b3, h3)" using spec2 by auto
          then show ?thesis using res \<open>enc wc = None\<close> None appended_trans [OF quiet] by auto
        qed
      qed
    qed
  qed
qed

text \<open>A character set for small numbers: one byte each, 63 for the question mark, and a heap to grow in.\<close>

definition example_cs :: "nat charset_info" where
  "example_cs = \<lparr>cs_mbminlen = 1, cs_mbmaxlen = 1, cs_use_mb = False, cs_numchars = (\<lambda>m s e. e - s), cs_lengthsp = (\<lambda>m s n. n),
     cs_charpos = (\<lambda>m s e i. i), cs_well_formed_end = (\<lambda>m s e n. e), cs_scan_spaces = (\<lambda>m s e. 0),
     cs_wc_mb = (\<lambda>wc s e m. if wc < 128 then (1, m(s := of_nat wc)) else (0, m))\<rparr>"

definition example_env :: "nat cs_env" where
  "example_env = \<lparr>cs_at = (\<lambda>p. example_cs), my_charset_bin = 1, my_charset_latin1 = 2, my_charset_same = (=)\<rparr>"

definition example_str :: sql_string where
  "example_str = \<lparr>m_charset = 2, bin = example_string\<rparr>"

lemma example_encodes: "encodes (\<lambda>wc. if wc < 128 then Some [of_nat wc] else None) (\<lambda>wc. 0) example_cs"
  by (auto simp: encodes_def example_cs_def region_def)

theorem append_wc_fallback_witness:
  "case append_wc example_env example_realloc 63 300 (example_str, example_heap) of (f, s, h) \<Rightarrow>
     \<not> f \<and> contents (bin s, h) = [63]"
proof -
  let ?enc = "\<lambda>wc. if wc < 128 then Some [of_nat wc :: uchar] else None"
  obtain f s h where r: "append_wc example_env example_realloc 63 300 (example_str, example_heap) = (f, s, h)"
    by (cases "append_wc example_env example_realloc 63 300 (example_str, example_heap)")
  have e: "encodes ?enc (\<lambda>wc. 0) (cs_at example_env (m_charset example_str))"
    using example_encodes by (simp add: example_env_def)
  have l: "unat (str_length (bin example_str)) + unat (cs_mbmaxlen (cs_at example_env (m_charset example_str))) < 2 ^ 31"
    by (simp add: example_str_def example_string_def example_env_def example_cs_def)
  have ok: "string_ok low_memory (bin example_str)" using example_string_ok by (simp add: example_str_def)
  have m: "\<not> fst (example_realloc (ucast (str_length (bin example_str)) +
      ucast (cs_mbmaxlen (cs_at example_env (m_charset example_str))) + 1) (bin example_str, example_heap))"
    by (simp add: example_realloc_def example_str_def example_string_def example_env_def example_cs_def)
  from append_wc_fallback [OF example_realloc_ok ok e l r] m
  have "\<not> f" "contents (bin s, h) = contents (bin example_str, example_heap) @ [63]" by (auto simp: appended_def)
  then show ?thesis using r by (simp add: contents_region example_str_def example_string_def)
qed

text \<open>The numbers of the second page are not on the first, and differ.\<close>

lemma page_change:
  fixes cs cs' :: uint and P Q :: bool
  defines "f \<equiv> \<lambda>cs. if P \<and> cs = 149 then 0x280 else if P \<and> cs = 213 then 0x240
    else if Q then (if cs = 149 then 0x280 else if cs = 213 then 0x240 else if cs = 214 then 0x2E0 else if cs = 215 then 0x2A0
      else if cs = 245 then 0x260 else cs) else (cs :: uint)"
  shows "f (f cs) = f cs" and "cs < 512 \<Longrightarrow> cs' < 512 \<Longrightarrow> f cs = f cs' \<Longrightarrow> cs = cs'"
  unfolding f_def by (cases P; cases Q; auto split: if_splits)+

text \<open>
  \<open>latest_version\<close> is the least version from which no collation has changed its order: from it on none has, and
  for the version before it one had. Upgrading a collation number a second time changes nothing, and different
  numbers of the first page stay different.
\<close>

theorem collation_versions:
  assumes "latest_version \<le> v"
  shows "\<not> collation_changed_order v cs \<and> (\<exists>cs. collation_changed_order (latest_version - 1) cs) \<and>
    upgrade_collation_id w (upgrade_collation_id w cs) = upgrade_collation_id w cs \<and>
    (cs < 512 \<longrightarrow> cs' < 512 \<longrightarrow> upgrade_collation_id w cs = upgrade_collation_id w cs' \<longrightarrow> cs = cs')"
proof (intro conjI impI)
  show "\<not> collation_changed_order v cs"
    using assms by (auto simp: collation_changed_order_def latest_version_def word_le_nat_alt word_less_nat_alt)
  show "\<exists>cs. collation_changed_order (latest_version - 1) cs"
    by (rule exI [of _ 159]) (simp add: collation_changed_order_def latest_version_def)
  show "upgrade_collation_id w (upgrade_collation_id w cs) = upgrade_collation_id w cs"
    unfolding upgrade_collation_id_def by (rule page_change(1))
  show "cs = cs'" if "cs < 512" "cs' < 512" "upgrade_collation_id w cs = upgrade_collation_id w cs'"
    using that(3) unfolding upgrade_collation_id_def by (rule page_change(2) [OF that(1,2)])
qed

theorem collation_versions_witness:
  "\<not> collation_changed_order 110002 159 \<and> upgrade_collation_id 50500 (upgrade_collation_id 50500 159) = 159"
proof -
  have "latest_version \<le> 110002" by (simp add: latest_version_def)
  from collation_versions [OF this, of 159 50500 159] show ?thesis by (simp add: upgrade_collation_id_def)
qed

end
