(* ===== verification/Mem_Root_Array.thy ===== *)
theory Mem_Root_Array
  imports Simulation "HOL-Library.Monad_Syntax"
begin

text \<open>
  \<open>Mem_root_array\<close> (\<open>mem_root_array.h\<close>): an array that grows on a memory root. The memory root gives blocks and takes none
  back. A cell of a block holds an object between its construction and its destruction; reading or destroying a cell
  that holds none, constructing in one that does, an access outside a block and a failed assertion are \<open>None\<close>.
\<close>

section \<open>Memory and objects\<close>

record 'v mem_root =
  cell :: "ptr \<Rightarrow> nat \<Rightarrow> 'v option"
  room :: "ptr \<Rightarrow> nat"  \<comment> \<open>the cells of a block\<close>
  next_block :: ptr
  requests :: nat

text \<open>The type of the elements and the memory: whether the \<open>k\<close>-th request for a number of bytes is granted.\<close>

record array_env =
  trivial :: bool  \<comment> \<open>\<open>has_trivial_destructor\<close>\<close>
  element_size :: csize
  grant :: "nat \<Rightarrow> csize \<Rightarrow> bool"

definition alloc_root :: "array_env \<Rightarrow> csize \<Rightarrow> 'v mem_root \<Rightarrow> ptr \<times> 'v mem_root" where
  "alloc_root E n r =
     (let k = requests r; r = r\<lparr>requests := k + 1\<rparr>; p = next_block r in
      if grant E k n
      then (p, r\<lparr>cell := (cell r)(p := \<lambda>i. None), room := (room r)(p := unat n div unat (element_size E)), next_block := p + 1\<rparr>)
      else (0, r))"

definition load :: "ptr \<Rightarrow> nat \<Rightarrow> 'v mem_root \<Rightarrow> 'v option" where
  "load p i r = (if i < room r p then cell r p i else None)"

definition put_cell :: "ptr \<Rightarrow> nat \<Rightarrow> 'v option \<Rightarrow> 'v mem_root \<Rightarrow> 'v mem_root" where
  "put_cell p i v r = r\<lparr>cell := (cell r)(p := (cell r p)(i := v))\<rparr>"

text \<open>An object without a destructor may be overwritten.\<close>

definition construct :: "array_env \<Rightarrow> ptr \<Rightarrow> nat \<Rightarrow> 'v \<Rightarrow> 'v mem_root \<Rightarrow> 'v mem_root option" where
  "construct E p i v r = (if i < room r p \<and> (trivial E \<or> cell r p i = None) then Some (put_cell p i (Some v) r) else None)"

definition destroy :: "ptr \<Rightarrow> nat \<Rightarrow> 'v mem_root \<Rightarrow> 'v mem_root option" where
  "destroy p i r = (if i < room r p \<and> cell r p i \<noteq> None then Some (put_cell p i None r) else None)"

section \<open>The array\<close>

record mem_root_array =
  m_root :: ptr
  m_array :: ptr
  m_size :: csize
  m_capacity :: csize

type_synonym 'v array_state = "mem_root_array \<times> 'v mem_root"

text \<open>A parameter \<open>const Element_type &\<close> is an object elsewhere or a cell, maybe of the array itself.\<close>

datatype 'v source = Outside 'v | Cell ptr nat

fun read_source :: "'v source \<Rightarrow> 'v mem_root \<Rightarrow> 'v option" where
  "read_source (Outside v) r = Some v"
| "read_source (Cell p i) r = load p i r"

definition mk_array :: "ptr \<Rightarrow> mem_root_array option" where
  "mk_array root = (if root \<noteq> 0 then Some \<lparr>m_root = root, m_array = 0, m_size = 0, m_capacity = 0\<rparr> else None)"

definition arr_at :: "csize \<Rightarrow> 'v array_state \<Rightarrow> 'v option" where
  "arr_at n = (\<lambda>(a, r). if n < m_size a then load (m_array a) (unat n) r else None)"

definition arr_back :: "'v array_state \<Rightarrow> 'v option" where
  "arr_back = (\<lambda>(a, r). arr_at (m_size a - 1) (a, r))"

definition is_empty :: "mem_root_array \<Rightarrow> bool" where "is_empty a \<longleftrightarrow> m_size a = 0"

fun destroy_loop :: "ptr \<Rightarrow> nat list \<Rightarrow> 'v mem_root \<Rightarrow> 'v mem_root option" where
  "destroy_loop p [] r = Some r"
| "destroy_loop p (ix # ixs) r = do { r \<leftarrow> destroy p ix r; destroy_loop p ixs r }"

definition chop :: "array_env \<Rightarrow> csize \<Rightarrow> 'v array_state \<Rightarrow> 'v array_state option" where
  "chop E pos = (\<lambda>(a, r).
     if pos < m_size a then do {
       r \<leftarrow> (if \<not> trivial E then destroy_loop (m_array a) [unat pos..<unat (m_size a)] r else Some r);
       Some (a\<lparr>m_size := pos\<rparr>, r) }
     else None)"

definition clear :: "array_env \<Rightarrow> 'v array_state \<Rightarrow> 'v array_state option" where
  "clear E = (\<lambda>(a, r). if \<not> is_empty a then chop E 0 (a, r) else Some (a, r))"

definition destroy_array :: "array_env \<Rightarrow> 'v array_state \<Rightarrow> 'v array_state option" where
  "destroy_array E s = clear E s"

fun move_loop :: "array_env \<Rightarrow> ptr \<Rightarrow> ptr \<Rightarrow> nat list \<Rightarrow> 'v mem_root \<Rightarrow> 'v mem_root option" where
  "move_loop E old new [] r = Some r"
| "move_loop E old new (ix # ixs) r = do {
     v \<leftarrow> load old ix r;
     r \<leftarrow> construct E new ix v r;
     r \<leftarrow> (if \<not> trivial E then destroy old ix r else Some r);
     move_loop E old new ixs r }"

definition reserve :: "array_env \<Rightarrow> csize \<Rightarrow> 'v array_state \<Rightarrow> (bool \<times> 'v array_state) option" where
  "reserve E n = (\<lambda>(a, r).
     if n \<le> m_capacity a then Some (False, a, r)
     else let (mem, r) = alloc_root E (n * element_size E) r in
       if mem = 0 then Some (True, a, r)
       else do {
         r \<leftarrow> move_loop E (m_array a) mem [0..<unat (m_size a)] r;
         Some (False, a\<lparr>m_array := mem, m_capacity := n\<rparr>, r) })"

definition push_back :: "array_env \<Rightarrow> 'v source \<Rightarrow> 'v array_state \<Rightarrow> (bool \<times> 'v array_state) option" where
  "push_back E element = (\<lambda>(a, r). do {
     (failed, a, r) \<leftarrow> (if m_capacity a = 0 then reserve E 20 (a, r) else Some (False, a, r));
     if failed then Some (True, a, r)
     else do {
       (failed, a, r) \<leftarrow> (if m_size a = m_capacity a then reserve E (m_capacity a * 2) (a, r) else Some (False, a, r));
       if failed then Some (True, a, r)
       else do {
         v \<leftarrow> read_source element r;
         r \<leftarrow> construct E (m_array a) (unat (m_size a)) v r;
         Some (False, a\<lparr>m_size := m_size a + 1\<rparr>, r) } } })"

definition pop_back :: "array_env \<Rightarrow> 'v array_state \<Rightarrow> 'v array_state option" where
  "pop_back E = (\<lambda>(a, r).
     if \<not> is_empty a then do {
       r \<leftarrow> (if \<not> trivial E then destroy (m_array a) (unat (m_size a - 1)) r else Some r);
       Some (a\<lparr>m_size := m_size a - 1\<rparr>, r) }
     else None)"

text \<open>The loops of \<open>resize\<close>; the first one does not look at what \<open>push_back\<close> returns.\<close>

partial_function (option) push_loop :: "array_env \<Rightarrow> csize \<Rightarrow> 'v source \<Rightarrow> 'v array_state \<Rightarrow> 'v array_state option" where
  "push_loop E n val s =
     (if n \<noteq> m_size (fst s) then do { (_, s) \<leftarrow> push_back E val s; push_loop E n val s } else Some s)"

partial_function (option) pop_loop :: "array_env \<Rightarrow> csize \<Rightarrow> 'v array_state \<Rightarrow> 'v array_state option" where
  "pop_loop E n s = (if n \<noteq> m_size (fst s) then do { s \<leftarrow> pop_back E s; pop_loop E n s } else Some s)"

definition resize :: "array_env \<Rightarrow> csize \<Rightarrow> 'v source \<Rightarrow> 'v array_state \<Rightarrow> 'v array_state option" where
  "resize E n val = (\<lambda>(a, r).
     if n = m_size a then Some (a, r)
     else if m_size a < n then do {
       (failed, s) \<leftarrow> reserve E n (a, r);
       if \<not> failed then push_loop E n val s else Some s }
     else do {
       (a, r) \<leftarrow> (if \<not> trivial E then pop_loop E n (a, r) else Some (a, r));
       Some (a\<lparr>m_size := n\<rparr>, r) })"

definition mk_array_sized :: "array_env \<Rightarrow> ptr \<Rightarrow> csize \<Rightarrow> 'v source \<Rightarrow> 'v mem_root \<Rightarrow> 'v array_state option" where
  "mk_array_sized E root n val r = resize E n val (\<lparr>m_root = root, m_array = 0, m_size = 0, m_capacity = 0\<rparr>, r)"

section \<open>Programs and their specification\<close>

datatype 'v array_cmd =
    Push_back 'v
  | Push_self csize
  | Pop_back
  | Chop csize
  | Clear
  | Reserve csize
  | Resize csize 'v
  | At csize
  | Back
  | Size
  | Is_empty

datatype 'v array_out = Done | Failed bool | Elem 'v | Number csize | Bool bool

fun array_step :: "array_env \<Rightarrow> 'v array_cmd \<Rightarrow> 'v array_state \<Rightarrow> ('v array_out \<times> 'v array_state) option" where
  "array_step E (Push_back v) s = map_option (\<lambda>(f, s). (Failed f, s)) (push_back E (Outside v) s)"
| "array_step E (Push_self i) s =
     (if i < m_size (fst s) then map_option (\<lambda>(f, s). (Failed f, s)) (push_back E (Cell (m_array (fst s)) (unat i)) s) else None)"
| "array_step E Pop_back s = map_option (\<lambda>s. (Done, s)) (pop_back E s)"
| "array_step E (Chop n) s = map_option (\<lambda>s. (Done, s)) (chop E n s)"
| "array_step E Clear s = map_option (\<lambda>s. (Done, s)) (clear E s)"
| "array_step E (Reserve n) s = map_option (\<lambda>(f, s). (Failed f, s)) (reserve E n s)"
| "array_step E (Resize n v) s = map_option (\<lambda>s. (Done, s)) (resize E n (Outside v) s)"
| "array_step E (At n) s = map_option (\<lambda>v. (Elem v, s)) (arr_at n s)"
| "array_step E Back s = map_option (\<lambda>v. (Elem v, s)) (arr_back s)"
| "array_step E Size s = Some (Number (m_size (fst s)), s)"
| "array_step E Is_empty s = Some (Bool (is_empty (fst s)), s)"

text \<open>
  The specification: the list of the elements with the capacity and the number of requests to the memory root. It is
  undefined where a size in bytes does not fit a word, and where an element of the array that has a destructor is
  pushed while the array must grow.
\<close>

record 'v array_spec =
  elems :: "'v list"
  cap :: nat
  reqs :: nat

definition spec_reserve :: "array_env \<Rightarrow> nat \<Rightarrow> 'v array_spec \<Rightarrow> (bool \<times> 'v array_spec) option" where
  "spec_reserve E n s =
     (if n \<le> cap s then Some (False, s)
      else if 2 ^ 64 \<le> n * unat (element_size E) then None
      else if grant E (reqs s) (of_nat (n * unat (element_size E))) then Some (False, s\<lparr>cap := n, reqs := reqs s + 1\<rparr>)
      else Some (True, s\<lparr>reqs := reqs s + 1\<rparr>))"

definition spec_push :: "array_env \<Rightarrow> 'v \<Rightarrow> 'v array_spec \<Rightarrow> (bool \<times> 'v array_spec) option" where
  "spec_push E v s = do {
     (failed, s) \<leftarrow> (if cap s = 0 then spec_reserve E 20 s else Some (False, s));
     if failed then Some (True, s)
     else do {
       (failed, s) \<leftarrow> (if length (elems s) = cap s then spec_reserve E (cap s * 2) s else Some (False, s));
       if failed then Some (True, s) else Some (False, s\<lparr>elems := elems s @ [v]\<rparr>) } }"

fun array_spec_step :: "array_env \<Rightarrow> 'v array_cmd \<Rightarrow> 'v array_spec \<Rightarrow> ('v array_out \<times> 'v array_spec) option" where
  "array_spec_step E (Push_back v) s = map_option (\<lambda>(f, s). (Failed f, s)) (spec_push E v s)"
| "array_spec_step E (Push_self i) s =
     (if unat i < length (elems s) \<and> (trivial E \<or> length (elems s) < cap s)
      then map_option (\<lambda>(f, s). (Failed f, s)) (spec_push E (elems s ! unat i) s) else None)"
| "array_spec_step E Pop_back s = (if elems s \<noteq> [] then Some (Done, s\<lparr>elems := butlast (elems s)\<rparr>) else None)"
| "array_spec_step E (Chop n) s = (if unat n < length (elems s) then Some (Done, s\<lparr>elems := take (unat n) (elems s)\<rparr>) else None)"
| "array_spec_step E Clear s = Some (Done, s\<lparr>elems := []\<rparr>)"
| "array_spec_step E (Reserve n) s = map_option (\<lambda>(f, s). (Failed f, s)) (spec_reserve E (unat n) s)"
| "array_spec_step E (Resize n v) s =
     (if unat n \<le> length (elems s) then Some (Done, s\<lparr>elems := take (unat n) (elems s)\<rparr>)
      else map_option (\<lambda>(f, s). (Done, if f then s else s\<lparr>elems := elems s @ replicate (unat n - length (elems s)) v\<rparr>))
        (spec_reserve E (unat n) s))"
| "array_spec_step E (At n) s = (if unat n < length (elems s) then Some (Elem (elems s ! unat n), s) else None)"
| "array_spec_step E Back s = (if elems s \<noteq> [] then Some (Elem (last (elems s)), s) else None)"
| "array_spec_step E Size s = Some (Number (of_nat (length (elems s))), s)"
| "array_spec_step E Is_empty s = Some (Bool (elems s = []), s)"

text \<open>
  The array has the elements in its block, in order, and with destructors no other object of the root is alive: each one
  constructed for the array is an element or was destroyed.
\<close>

definition array_rep :: "array_env \<Rightarrow> 'v array_state \<Rightarrow> 'v array_spec \<Rightarrow> bool" where
  "array_rep E = (\<lambda>(a, r) s.
     m_size a = of_nat (length (elems s)) \<and> m_capacity a = of_nat (cap s) \<and> length (elems s) \<le> cap s \<and>
     cap s * unat (element_size E) < 2 ^ 64 \<and> 0 < element_size E \<and> requests r = reqs s \<and> 0 < next_block r \<and>
     m_array a < next_block r \<and>
     (cap s \<noteq> 0 \<longrightarrow> room r (m_array a) = cap s) \<and>
     (\<forall>i < length (elems s). cell r (m_array a) i = Some (elems s ! i)) \<and>
     (\<not> trivial E \<longrightarrow> (\<forall>p i. cell r p i \<noteq> None \<longrightarrow> p = m_array a \<and> i < length (elems s))))"

section \<open>Loops\<close>

lemma put_cell_simps [simp]:
  "cell (put_cell p i v r) q = (if q = p then (cell r p)(i := v) else cell r q)" "room (put_cell p i v r) = room r"
  "next_block (put_cell p i v r) = next_block r" "requests (put_cell p i v r) = requests r"
  by (simp_all add: put_cell_def)

lemma root_eqI: "(\<And>p i. cell r p i = cell r' p i) \<Longrightarrow> room r = room r' \<Longrightarrow> next_block r = next_block r' \<Longrightarrow>
    requests r = requests r' \<Longrightarrow> r = (r' :: 'v mem_root)"
  by (cases r; cases r') (auto simp: fun_eq_iff)

lemma arr_destroy_result:
  "distinct ixs \<Longrightarrow> \<forall>i\<in>set ixs. i < room r p \<and> cell r p i \<noteq> None \<Longrightarrow> \<exists>r'. destroy_loop p ixs r = Some r' \<and>
     (\<forall>q i. cell r' q i = (if q = p \<and> i \<in> set ixs then None else cell r q i)) \<and>
     room r' = room r \<and> next_block r' = next_block r \<and> requests r' = requests r"
proof (induction ixs arbitrary: r)
  case Nil
  then show ?case by simp
next
  case (Cons ix ixs)
  let ?r = "put_cell p ix None r"
  have "\<forall>i\<in>set ixs. i < room ?r p \<and> cell ?r p i \<noteq> None" using Cons.prems by auto
  with Cons.IH [of ?r] Cons.prems(1) obtain r' where r': "destroy_loop p ixs ?r = Some r'"
    "\<forall>q i. cell r' q i = (if q = p \<and> i \<in> set ixs then None else cell ?r q i)"
    "room r' = room r" "next_block r' = next_block r" "requests r' = requests r" by auto
  moreover have "destroy p ix r = Some ?r" using Cons.prems by (simp add: destroy_def)
  ultimately show ?case by auto
qed

lemma move_loop_result:
  "distinct ixs \<Longrightarrow> old \<noteq> new \<Longrightarrow>
   \<forall>i\<in>set ixs. i < room r old \<and> i < room r new \<and> cell r old i \<noteq> None \<and> (trivial E \<or> cell r new i = None) \<Longrightarrow>
   \<exists>r'. move_loop E old new ixs r = Some r' \<and> (\<forall>q i. cell r' q i =
       (if q = new \<and> i \<in> set ixs then cell r old i else if q = old \<and> i \<in> set ixs \<and> \<not> trivial E then None else cell r q i)) \<and>
     room r' = room r \<and> next_block r' = next_block r \<and> requests r' = requests r"
proof (induction ixs arbitrary: r)
  case Nil
  then show ?case by simp
next
  case (Cons ix ixs)
  obtain v where v: "cell r old ix = Some v" using Cons.prems by auto
  let ?r1 = "put_cell new ix (Some v) r"
  let ?r = "if trivial E then ?r1 else put_cell old ix None ?r1"
  have "\<forall>i\<in>set ixs. i < room ?r old \<and> i < room ?r new \<and> cell ?r old i \<noteq> None \<and> (trivial E \<or> cell ?r new i = None)"
    using Cons.prems by auto
  then obtain r' where r': "move_loop E old new ixs ?r = Some r'"
    "\<forall>q i. cell r' q i = (if q = new \<and> i \<in> set ixs then cell ?r old i
       else if q = old \<and> i \<in> set ixs \<and> \<not> trivial E then None else cell ?r q i)"
    "room r' = room ?r" "next_block r' = next_block ?r" "requests r' = requests ?r"
    using Cons.IH [of ?r] Cons.prems(1,2) by (auto simp del: put_cell_simps)
  have "move_loop E old new (ix # ixs) r = Some r'"
    using Cons.prems v r'(1) by (cases "trivial E") (simp_all add: load_def construct_def destroy_def)
  then show ?case using r' Cons.prems(1,2) v by auto
qed

section \<open>What the operations do\<close>

lemma repD:
  assumes "array_rep E (a, r) s"
  shows "unat (m_size a) = length (elems s)" and "unat (m_capacity a) = cap s" and "length (elems s) < 2 ^ 64" and "cap s < 2 ^ 64"
    and "m_capacity a = 0 \<longleftrightarrow> cap s = 0" and "m_size a = m_capacity a \<longleftrightarrow> length (elems s) = cap s"
    and "m_size a = 0 \<longleftrightarrow> elems s = []"
proof -
  have e: "0 < unat (element_size E)" and c: "cap s * unat (element_size E) < 2 ^ 64" and l: "length (elems s) \<le> cap s"
    and w: "m_size a = of_nat (length (elems s))" "m_capacity a = of_nat (cap s)"
    using assms by (simp_all add: array_rep_def word_less_nat_alt)
  have "cap s * 1 \<le> cap s * unat (element_size E)" using e by (intro mult_le_mono2) simp
  then show cap: "cap s < 2 ^ 64" using c by linarith
  then show len: "length (elems s) < 2 ^ 64" using l by linarith
  show u: "unat (m_size a) = length (elems s)" "unat (m_capacity a) = cap s"
    using w cap len by (simp_all add: unat_of_nat_small)
  show "m_capacity a = 0 \<longleftrightarrow> cap s = 0" "m_size a = m_capacity a \<longleftrightarrow> length (elems s) = cap s" "m_size a = 0 \<longleftrightarrow> elems s = []"
    using u by (auto simp: word_unat_eq_iff)
qed

lemma rep_cells:
  assumes "array_rep E (a, r) s"
  shows "i < length (elems s) \<Longrightarrow> i < room r (m_array a) \<and> cell r (m_array a) i = Some (elems s ! i)"
    and "cap s \<noteq> 0 \<Longrightarrow> room r (m_array a) = cap s"
    and "\<not> trivial E \<Longrightarrow> cell r p i \<noteq> None \<Longrightarrow> p = m_array a \<and> i < length (elems s)"
  using assms by (auto simp: array_rep_def)

lemma reserve_rep:
  assumes rep: "array_rep E (a, r) s" and sp: "spec_reserve E (unat n) s = Some (f, s')"
  shows "\<exists>a' r'. reserve E n (a, r) = Some (f, a', r') \<and> array_rep E (a', r') s' \<and> elems s' = elems s \<and> (\<not> f \<longrightarrow> unat n \<le> cap s') \<and>
    (trivial E \<longrightarrow> (\<forall>i < length (elems s). load (m_array a) i r' = Some (elems s ! i))) \<and>
    (\<not> f \<longrightarrow> cap s < unat n \<longrightarrow> m_array a' \<noteq> m_array a) \<and> (f \<longrightarrow> a' = a)"
proof -
  note u = repD [OF rep] and cells = rep_cells [OF rep]
  have le: "n \<le> m_capacity a \<longleftrightarrow> unat n \<le> cap s" using u by (simp add: word_le_nat_alt)
  have pos: "0 < next_block r" "m_array a < next_block r" "requests r = reqs s" "0 < unat (element_size E)"
    using rep by (simp_all add: array_rep_def word_less_nat_alt)
  show ?thesis
  proof (cases "unat n \<le> cap s")
    case True
    then show ?thesis using sp rep le cells(1) by (simp add: spec_reserve_def reserve_def load_def)
  next
    case False
    then have small: "unat n * unat (element_size E) < 2 ^ 64" using sp by (auto simp: spec_reserve_def split: if_splits)
    then have bytes: "of_nat (unat n * unat (element_size E)) = n * element_size E"
      "unat (n * element_size E) = unat n * unat (element_size E)"
      by (simp_all add: unat_word_ariths)
    show ?thesis
    proof (cases "grant E (reqs s) (n * element_size E)")
      case no: False
      then have s': "f" "s' = s\<lparr>reqs := reqs s + 1\<rparr>" using sp False small bytes by (auto simp: spec_reserve_def split: if_splits)
      have "reserve E n (a, r) = Some (True, a, r\<lparr>requests := requests r + 1\<rparr>)"
        using no False le pos by (simp add: reserve_def alloc_root_def Let_def)
      moreover have "array_rep E (a, r\<lparr>requests := requests r + 1\<rparr>) s'" using rep s' by (simp add: array_rep_def)
      ultimately show ?thesis using s' cells(1) by (simp add: load_def)
    next
      case yes: True
      then have s': "\<not> f" "s' = s\<lparr>cap := unat n, reqs := reqs s + 1\<rparr>"
        using sp False small bytes by (auto simp: spec_reserve_def split: if_splits)
      let ?p = "next_block r"
      let ?r = "r\<lparr>requests := requests r + 1, cell := (cell r)(?p := \<lambda>i. None), room := (room r)(?p := unat n), next_block := ?p + 1\<rparr>"
      have alloc: "alloc_root E (n * element_size E) r = (?p, ?r)"
        using yes pos bytes by (simp add: alloc_root_def Let_def)
      have "length (elems s) \<le> cap s" using rep by (simp add: array_rep_def)
      then have len: "length (elems s) \<le> unat n" using False by simp
      have all: "\<forall>i\<in>set [0..<length (elems s)]. i < room ?r (m_array a) \<and> i < room ?r ?p \<and> cell ?r (m_array a) i \<noteq> None \<and>
          (trivial E \<or> cell ?r ?p i = None)"
        using cells(1) pos len by auto
      have ne: "m_array a \<noteq> ?p" using pos by simp
      from move_loop_result [OF distinct_upt ne all] obtain r' where r': "move_loop E (m_array a) ?p [0..<length (elems s)] ?r = Some r'"
        "\<forall>q i. cell r' q i = (if q = ?p \<and> i \<in> set [0..<length (elems s)] then cell ?r (m_array a) i
          else if q = m_array a \<and> i \<in> set [0..<length (elems s)] \<and> \<not> trivial E then None else cell ?r q i)"
        "room r' = room ?r" "next_block r' = next_block ?r" "requests r' = requests ?r" by blast
      let ?a = "a\<lparr>m_array := ?p, m_capacity := n\<rparr>"
      have run: "reserve E n (a, r) = Some (False, ?a, r')"
        using alloc r'(1) False le pos u(1) by (simp add: reserve_def)
      have alive: "\<not> trivial E \<longrightarrow> (\<forall>q i. cell r' q i \<noteq> None \<longrightarrow> q = ?p \<and> i < length (elems s))"
      proof (intro impI allI)
        fix q i
        assume nt: "\<not> trivial E" and live: "cell r' q i \<noteq> None"
        note e = r'(2) [rule_format, of q i]
        show "q = ?p \<and> i < length (elems s)"
        proof (cases "q = ?p")
          case True
          then have "i < length (elems s)" using e live by (cases "i < length (elems s)") simp_all
          then show ?thesis using True by simp
        next
          case False
          then have "\<not> (q = m_array a \<and> i < length (elems s))" "cell r q i \<noteq> None"
            using e live nt by (auto split: if_splits)
          then show ?thesis using cells(3) [OF nt] by blast
        qed
      qed
      have new: "\<forall>i < length (elems s). cell r' ?p i = Some (elems s ! i)" using r'(2) ne cells(1) by simp
      have "m_size a = of_nat (length (elems s))" "0 < element_size E" using rep by (simp_all add: array_rep_def)
      then have "array_rep E (?a, r') s'"
        using alive new s'(2) small len r'(3-5) pos by (simp add: array_rep_def)
      moreover have "load (m_array a) i r' = Some (elems s ! i)" if "trivial E" "i < length (elems s)" for i
        using r' that ne cells(1) [of i] by (simp add: load_def)
      ultimately show ?thesis using run s' ne by auto
    qed
  qed
qed

lemma append_rep:
  assumes rep: "array_rep E (a, r) s" and room: "length (elems s) < cap s"
  shows "\<exists>r'. construct E (m_array a) (unat (m_size a)) v r = Some r' \<and>
    array_rep E (a\<lparr>m_size := m_size a + 1\<rparr>, r') (s\<lparr>elems := elems s @ [v]\<rparr>)"
proof -
  note u = repD [OF rep] and cells = rep_cells [OF rep]
  let ?n = "length (elems s)"
  have r: "?n < room r (m_array a)" "trivial E \<or> cell r (m_array a) ?n = None"
    using room cells(2) cells(3) [of "m_array a" ?n] by auto
  have "array_rep E (a\<lparr>m_size := m_size a + 1\<rparr>, put_cell (m_array a) ?n (Some v) r) (s\<lparr>elems := elems s @ [v]\<rparr>)"
    using rep room by (auto simp: array_rep_def nth_append less_Suc_eq)
  then show ?thesis using r u(1) by (simp add: construct_def)
qed

text \<open>Pushing an object from elsewhere, or an element of the array that is still alive when it is copied.\<close>

lemma push_rep:
  assumes rep: "array_rep E (a, r) s" and sp: "spec_push E v s = Some (f, s')"
    and src: "src = Outside v \<or> (\<exists>i < length (elems s). src = Cell (m_array a) i \<and> v = elems s ! i \<and> (trivial E \<or> length (elems s) < cap s))"
  shows "\<exists>a' r'. push_back E src (a, r) = Some (f, a', r') \<and> array_rep E (a', r') s'"
proof -
  note u = repD [OF rep] and cells = rep_cells [OF rep]
  have le: "length (elems s) \<le> cap s" using rep by (simp add: array_rep_def)
  consider "cap s = 0" | "cap s \<noteq> 0" "length (elems s) = cap s" | "cap s \<noteq> 0" "length (elems s) < cap s" using le by linarith
  then show ?thesis
  proof cases
    case 1
    then have nil: "elems s = []" "src = Outside v" using le src by auto
    obtain g t where g: "spec_reserve E 20 s = Some (g, t)" using sp 1 by (cases "spec_reserve E 20 s") (auto simp: spec_push_def)
    obtain a1 r1 where r1: "reserve E 20 (a, r) = Some (g, a1, r1)" "array_rep E (a1, r1) t" "elems t = elems s" "\<not> g \<longrightarrow> 20 \<le> cap t"
      using reserve_rep [OF rep, of 20 g t] g by auto
    show ?thesis
    proof (cases g)
      case True
      then show ?thesis using sp g r1 1 u by (auto simp: spec_push_def push_back_def)
    next
      case False
      note u1 = repD [OF r1(2)]
      have l: "length (elems t) < cap t" using r1 nil False by simp
      obtain r2 where "construct E (m_array a1) (unat (m_size a1)) v r1 = Some r2"
        "array_rep E (a1\<lparr>m_size := m_size a1 + 1\<rparr>, r2) (t\<lparr>elems := elems t @ [v]\<rparr>)"
        using append_rep [OF r1(2) l] by blast
      then show ?thesis using sp g r1 1 u u1 False nil l by (auto simp: spec_push_def push_back_def)
    qed
  next
    case 2
    obtain g t where g: "spec_reserve E (cap s * 2) s = Some (g, t)"
      using sp 2 by (cases "spec_reserve E (cap s * 2) s") (auto simp: spec_push_def)
    have e: "0 < unat (element_size E)" using rep by (simp add: array_rep_def word_less_nat_alt)
    have "cap s * 2 * unat (element_size E) < 2 ^ 64" using g 2 by (auto simp: spec_reserve_def split: if_splits)
    moreover have "cap s * 2 * 1 \<le> cap s * 2 * unat (element_size E)" using e by (intro mult_le_mono2) simp
    ultimately have "cap s * 2 < 2 ^ 64" by linarith
    then have dbl: "unat (m_capacity a * 2) = cap s * 2" using u by (simp add: unat_word_ariths)
    obtain a1 r1 where r1: "reserve E (m_capacity a * 2) (a, r) = Some (g, a1, r1)" "array_rep E (a1, r1) t" "elems t = elems s"
      "\<not> g \<longrightarrow> cap s * 2 \<le> cap t" "trivial E \<longrightarrow> (\<forall>i < length (elems s). load (m_array a) i r1 = Some (elems s ! i))"
      using reserve_rep [OF rep, of "m_capacity a * 2" g t] g dbl by auto
    show ?thesis
    proof (cases g)
      case True
      then show ?thesis using sp g r1 2 u by (auto simp: spec_push_def push_back_def)
    next
      case False
      have l: "length (elems t) < cap t" using r1 2 False by simp
      have rd: "read_source src r1 = Some v" using src r1(5) 2 by auto
      obtain r2 where "construct E (m_array a1) (unat (m_size a1)) v r1 = Some r2"
        "array_rep E (a1\<lparr>m_size := m_size a1 + 1\<rparr>, r2) (t\<lparr>elems := elems t @ [v]\<rparr>)"
        using append_rep [OF r1(2) l] by blast
      then show ?thesis using sp g r1 2 u False rd by (auto simp: spec_push_def push_back_def)
    qed
  next
    case 3
    have rd: "read_source src r = Some v" using src cells(1) by (auto simp: load_def)
    obtain r2 where "construct E (m_array a) (unat (m_size a)) v r = Some r2"
      "array_rep E (a\<lparr>m_size := m_size a + 1\<rparr>, r2) (s\<lparr>elems := elems s @ [v]\<rparr>)"
      using append_rep [OF rep 3(2)] by blast
    then show ?thesis using sp 3 u rd by (auto simp: spec_push_def push_back_def)
  qed
qed

text \<open>A shorter array, whose memory differs in the cells beyond it only.\<close>

lemma shrink_rep:
  assumes rep: "array_rep E (a, r) s" and n: "unat n \<le> length (elems s)"
    and c: "\<forall>q i. cell r' q i = (if q = m_array a \<and> i \<in> set [unat n..<length (elems s)] \<and> \<not> trivial E then None else cell r q i)"
    and o: "room r' = room r" "next_block r' = next_block r" "requests r' = requests r"
  shows "array_rep E (a\<lparr>m_size := n\<rparr>, r') (s\<lparr>elems := take (unat n) (elems s)\<rparr>)"
proof -
  have w: "n = of_nat (length (take (unat n) (elems s)))" using n by (simp add: min_absorb2)
  have "\<not> trivial E \<longrightarrow> (\<forall>q i. cell r' q i \<noteq> None \<longrightarrow> q = m_array a \<and> i < unat n)"
  proof (intro impI allI)
    fix q i
    assume nt: "\<not> trivial E" and live: "cell r' q i \<noteq> None"
    note e = c [rule_format, of q i]
    then have "cell r q i \<noteq> None" using live by (auto split: if_splits)
    then have q: "q = m_array a" "i < length (elems s)" using rep_cells(3) [OF rep nt] by blast+
    then have "i < unat n" using e live nt by (cases "i < unat n") simp_all
    then show "q = m_array a \<and> i < unat n" using q by simp
  qed
  moreover have "\<forall>i < unat n. cell r' (m_array a) i = Some (elems s ! i)"
    using c rep_cells(1) [OF rep] n by simp
  moreover have "length (elems s) \<le> cap s" using rep by (simp add: array_rep_def)
  ultimately show ?thesis using rep n w o by (simp add: array_rep_def min_absorb2)
qed

lemma chop_rep:
  assumes rep: "array_rep E (a, r) s" and n: "unat n < length (elems s)"
  shows "\<exists>a' r'. chop E n (a, r) = Some (a', r') \<and> array_rep E (a', r') (s\<lparr>elems := take (unat n) (elems s)\<rparr>)"
proof -
  note u = repD [OF rep]
  have lt: "n < m_size a" using n u by (simp add: word_less_nat_alt)
  show ?thesis
  proof (cases "trivial E")
    case True
    have "array_rep E (a\<lparr>m_size := n\<rparr>, r) (s\<lparr>elems := take (unat n) (elems s)\<rparr>)"
      by (rule shrink_rep [OF rep]) (use n True in simp_all)
    then show ?thesis using True lt by (simp add: chop_def)
  next
    case False
    have "\<forall>i\<in>set [unat n..<length (elems s)]. i < room r (m_array a) \<and> cell r (m_array a) i \<noteq> None"
      using rep_cells(1) [OF rep] by auto
    from arr_destroy_result [OF distinct_upt this] obtain r' where
      r': "destroy_loop (m_array a) [unat n..<length (elems s)] r = Some r'"
      "\<forall>q i. cell r' q i = (if q = m_array a \<and> i \<in> set [unat n..<length (elems s)] then None else cell r q i)"
      "room r' = room r" "next_block r' = next_block r" "requests r' = requests r" by blast
    have "array_rep E (a\<lparr>m_size := n\<rparr>, r') (s\<lparr>elems := take (unat n) (elems s)\<rparr>)"
      by (rule shrink_rep [OF rep]) (use n r'(2-5) False in simp_all)
    then show ?thesis using False lt u(1) r'(1) by (simp add: chop_def)
  qed
qed

lemma pop_rep:
  assumes rep: "array_rep E (a, r) s" and ne: "elems s \<noteq> []"
  shows "\<exists>a' r'. pop_back E (a, r) = Some (a', r') \<and> array_rep E (a', r') (s\<lparr>elems := butlast (elems s)\<rparr>)"
proof -
  note u = repD [OF rep]
  have sz: "m_size a \<noteq> 0" using u ne by simp
  then have n: "unat (m_size a - 1) = length (elems s) - 1" using u by (simp add: unat_minus_one)
  have last: "[length (elems s) - 1..<length (elems s)] = [length (elems s) - 1]" using ne upt_rec [of "length (elems s) - 1" "length (elems s)"] by simp
  let ?r = "if trivial E then r else put_cell (m_array a) (length (elems s) - 1) None r"
  have c: "length (elems s) - 1 < room r (m_array a)" "cell r (m_array a) (length (elems s) - 1) \<noteq> None"
    using rep_cells(1) [OF rep, of "length (elems s) - 1"] ne by simp_all
  have "array_rep E (a\<lparr>m_size := m_size a - 1\<rparr>, ?r) (s\<lparr>elems := take (unat (m_size a - 1)) (elems s)\<rparr>)"
    by (rule shrink_rep [OF rep]) (use n last in simp_all)
  then show ?thesis using sz c n by (auto simp: pop_back_def is_empty_def destroy_def butlast_conv_take)
qed

lemma rep_same: "array_rep E u s \<Longrightarrow> elems s = xs \<Longrightarrow> array_rep E u (s\<lparr>elems := xs\<rparr>)"
  by (cases s) auto

lemma rep_same_size: "array_rep E (a, r) s \<Longrightarrow> m_size a = n \<Longrightarrow> array_rep E (a\<lparr>m_size := n\<rparr>, r) s"
  by (cases a) auto

lemma arr_clear_rep:
  assumes "array_rep E (a, r) s"
  shows "\<exists>a' r'. clear E (a, r) = Some (a', r') \<and> array_rep E (a', r') (s\<lparr>elems := []\<rparr>)"
proof (cases "elems s = []")
  case True
  then show ?thesis using rep_same [OF assms True] repD(7) [OF assms] by (simp add: clear_def is_empty_def)
next
  case False
  then show ?thesis using chop_rep [OF assms, of 0] repD(7) [OF assms] by (simp add: clear_def is_empty_def)
qed

lemma push_loop_rep:
  "array_rep E (a, r) s \<Longrightarrow> length (elems s) \<le> unat n \<Longrightarrow> unat n \<le> cap s \<Longrightarrow> \<exists>a' r'.
     push_loop E n (Outside v) (a, r) = Some (a', r') \<and>
     array_rep E (a', r') (s\<lparr>elems := elems s @ replicate (unat n - length (elems s)) v\<rparr>)"
proof (induction "unat n - length (elems s)" arbitrary: a r s)
  case 0
  then have "n = m_size a" using repD(1) [OF 0(2)] by (simp add: word_unat_eq_iff)
  then show ?case using 0 by (subst push_loop.simps) simp
next
  case (Suc k)
  have lt: "length (elems s) < cap s" "n \<noteq> m_size a" using Suc.hyps(2) Suc.prems repD(1) [OF Suc.prems(1)] by auto
  have k: "k = unat n - Suc (length (elems s))" "Suc (length (elems s)) \<le> unat n" using Suc.hyps(2) by simp_all
  have sp: "spec_push E v s = Some (False, s\<lparr>elems := elems s @ [v]\<rparr>)" using lt by (simp add: spec_push_def)
  obtain a1 r1 where r1: "push_back E (Outside v) (a, r) = Some (False, a1, r1)" "array_rep E (a1, r1) (s\<lparr>elems := elems s @ [v]\<rparr>)"
    using push_rep [OF Suc.prems(1) sp, of "Outside v"] by auto
  obtain a' r' where "push_loop E n (Outside v) (a1, r1) = Some (a', r')"
    "array_rep E (a', r') (s\<lparr>elems := (elems s @ [v]) @ replicate (unat n - (length (elems s) + 1)) v\<rparr>)"
    using Suc.hyps(1) [OF _ r1(2)] k Suc.prems(3) by auto
  moreover have "unat n - length (elems s) = Suc (unat n - (length (elems s) + 1))" using Suc.hyps(2) by simp
  ultimately show ?case using r1 lt by (subst push_loop.simps) auto
qed

lemma pop_loop_rep:
  "array_rep E (a, r) s \<Longrightarrow> unat n \<le> length (elems s) \<Longrightarrow> \<exists>a' r'. pop_loop E n (a, r) = Some (a', r') \<and> m_size a' = n \<and>
     array_rep E (a', r') (s\<lparr>elems := take (unat n) (elems s)\<rparr>)"
proof (induction "length (elems s)" arbitrary: a r s)
  case 0
  then have "n = m_size a" using repD(1) [OF 0(2)] by (simp add: word_unat_eq_iff)
  moreover have "array_rep E (a, r) (s\<lparr>elems := take (unat n) (elems s)\<rparr>)" using 0 by (intro rep_same) simp_all
  ultimately show ?case by (subst pop_loop.simps) simp
next
  case (Suc k)
  show ?case
  proof (cases "unat n = length (elems s)")
    case True
    then have "n = m_size a" using repD(1) [OF Suc.prems(1)] by (simp add: word_unat_eq_iff)
    then show ?thesis using Suc.prems True by (subst pop_loop.simps) simp
  next
    case False
    then have ne: "n \<noteq> m_size a" "elems s \<noteq> []" using repD(1) [OF Suc.prems(1)] Suc.hyps(2) by auto
    obtain a1 r1 where r1: "pop_back E (a, r) = Some (a1, r1)" "array_rep E (a1, r1) (s\<lparr>elems := butlast (elems s)\<rparr>)"
      using pop_rep [OF Suc.prems(1) ne(2)] by blast
    obtain a' r' where "pop_loop E n (a1, r1) = Some (a', r')" "m_size a' = n"
      "array_rep E (a', r') (s\<lparr>elems := take (unat n) (butlast (elems s))\<rparr>)"
      using Suc.hyps(1) [OF _ r1(2)] diff_Suc_1 [of k] Suc.hyps(2) [symmetric] Suc.prems False by auto
    moreover have "take (unat n) (butlast (elems s)) = take (unat n) (elems s)"
      using False Suc.prems(2) by (simp add: butlast_conv_take min_absorb1)
    ultimately show ?thesis using r1 ne by (subst pop_loop.simps) simp
  qed
qed

lemma arr_resize_rep:
  assumes rep: "array_rep E (a, r) s" and sp: "array_spec_step E (Resize n v) s = Some (x, s')"
  shows "\<exists>a' r'. resize E n (Outside v) (a, r) = Some (a', r') \<and> array_rep E (a', r') s'"
proof -
  note u = repD [OF rep]
  have lt: "m_size a < n \<longleftrightarrow> length (elems s) < unat n" "n = m_size a \<longleftrightarrow> unat n = length (elems s)"
    using u by (auto simp: word_less_nat_alt word_unat_eq_iff)
  consider "unat n = length (elems s)" | "unat n < length (elems s)" | "length (elems s) < unat n" by linarith
  then show ?thesis
  proof cases
    case 1
    then show ?thesis using sp rep lt by (auto simp: resize_def)
  next
    case 2
    then have s': "s' = s\<lparr>elems := take (unat n) (elems s)\<rparr>" using sp by simp
    show ?thesis
    proof (cases "trivial E")
      case True
      have "array_rep E (a\<lparr>m_size := n\<rparr>, r) s'" unfolding s'
        by (rule shrink_rep [OF rep]) (use 2 True in simp_all)
      then show ?thesis using 2 True lt by (simp add: resize_def)
    next
      case False
      obtain a1 r1 where "pop_loop E n (a, r) = Some (a1, r1)" "m_size a1 = n" "array_rep E (a1, r1) s'"
        using pop_loop_rep [OF rep, of n] 2 s' by auto
      moreover from this have "array_rep E (a1\<lparr>m_size := n\<rparr>, r1) s'" by (intro rep_same_size)
      ultimately show ?thesis using 2 False lt by (simp add: resize_def)
    qed
  next
    case 3
    then obtain f t where f: "spec_reserve E (unat n) s = Some (f, t)"
      "s' = (if f then t else t\<lparr>elems := elems t @ replicate (unat n - length (elems t)) v\<rparr>)"
      using sp by auto
    obtain a1 r1 where r1: "reserve E n (a, r) = Some (f, a1, r1)" "array_rep E (a1, r1) t" "elems t = elems s" "\<not> f \<longrightarrow> unat n \<le> cap t"
      using reserve_rep [OF rep f(1)] by blast
    then show ?thesis using push_loop_rep [OF r1(2), of n v] f 3 lt by (cases f) (auto simp: resize_def)
  qed
qed

lemma array_refines:
  assumes rep: "array_rep E u s" and sp: "array_spec_step E c s = Some (x, s')"
  shows "\<exists>u'. array_step E c u = Some (x, u') \<and> array_rep E u' s'"
proof -
  obtain a r where u: "u = (a, r)" by (cases u)
  note rep' = rep [unfolded u]
  note d = repD [OF rep'] and cells = rep_cells [OF rep']
  show ?thesis
  proof (cases c)
    case (Push_back v)
    then show ?thesis using sp push_rep [OF rep', of v] u by fastforce
  next
    case (Push_self i)
    then have i: "unat i < length (elems s)" "trivial E \<or> length (elems s) < cap s" using sp by (auto split: if_splits)
    then obtain f where f: "spec_push E (elems s ! unat i) s = Some (f, s')" "x = Failed f" using sp Push_self by auto
    have "i < m_size a" using i d by (simp add: word_less_nat_alt)
    then show ?thesis using push_rep [OF rep' f(1), of "Cell (m_array a) (unat i)"] i u Push_self f by fastforce
  next
    case Pop_back
    then show ?thesis using sp pop_rep [OF rep'] u by (auto split: if_splits)
  next
    case (Chop n)
    then show ?thesis using sp chop_rep [OF rep', of n] u by (auto split: if_splits)
  next
    case Clear
    then show ?thesis using sp arr_clear_rep [OF rep'] u by auto
  next
    case (Reserve n)
    then obtain f where f: "spec_reserve E (unat n) s = Some (f, s')" "x = Failed f" using sp by auto
    show ?thesis using reserve_rep [OF rep' f(1)] f(2) Reserve u by auto
  next
    case (Resize n v)
    have "x = Done" using sp Resize by (auto split: if_splits)
    then show ?thesis using arr_resize_rep [OF rep'] sp Resize u by fastforce
  next
    case (At n)
    then have n: "unat n < length (elems s)" "x = Elem (elems s ! unat n)" "s' = s" using sp by (auto split: if_splits)
    then show ?thesis using At rep u d cells(1) [OF n(1)] by (simp add: arr_at_def load_def word_less_nat_alt)
  next
    case Back
    then have n: "elems s \<noteq> []" "x = Elem (last (elems s))" "s' = s" using sp by (auto split: if_splits)
    then have m: "m_size a \<noteq> 0" "unat (m_size a - 1) = length (elems s) - 1" using d by (simp_all add: unat_minus_one)
    then have "m_size a - 1 < m_size a" using d n by (simp add: word_less_nat_alt)
    then show ?thesis using Back rep u n m cells(1) [of "length (elems s) - 1"]
      by (simp add: arr_back_def arr_at_def load_def last_conv_nth)
  next
    case Size
    then show ?thesis using sp rep u by (auto simp: array_rep_def)
  next
    case Is_empty
    then show ?thesis using sp rep u d by (auto simp: is_empty_def)
  qed
qed

interpretation array: simulation "\<lambda>k. array_rep E" "array_step E" "array_spec_step E"
  by unfold_locales (rule array_refines)

section \<open>Properties\<close>

text \<open>
  C7. Whatever the memory root refuses, a program over an array returns what it returns on a list, with the capacities the
  code asks for, and meets no dead object, no access outside a block and no failed assertion; afterwards the array has the
  elements of the list and, when they have destructors, they are the only objects alive: each object is destroyed once.
\<close>

theorem array_program:
  assumes "array_rep E u s" and "run_cmds (array_spec_step E) cmds s = Some (xs, s')"
  shows "\<exists>u'. run_cmds (array_step E) cmds u = Some (xs, u') \<and> array_rep E u' s'"
  using array.run_refines [OF assms] .

text \<open>A new array of 8-byte elements with destructors, in a root that refuses the second request.\<close>

definition example_env :: array_env where
  "example_env = \<lparr>trivial = False, element_size = 8, grant = (\<lambda>k n. k \<noteq> 1)\<rparr>"

definition example_root :: "nat mem_root" where
  "example_root = \<lparr>cell = (\<lambda>p i. None), room = (\<lambda>p. 0), next_block = 1, requests = 0\<rparr>"

definition example_array :: mem_root_array where
  "example_array = \<lparr>m_root = 1, m_array = 0, m_size = 0, m_capacity = 0\<rparr>"

lemma array_example_rep: "array_rep example_env (example_array, example_root) \<lparr>elems = [], cap = 0, reqs = 0\<rparr>"
  "array_rep (example_env\<lparr>grant := g\<rparr>) (example_array, example_root) \<lparr>elems = [], cap = 0, reqs = 0\<rparr>"
  by (simp_all add: array_rep_def example_env_def example_array_def example_root_def)

theorem array_program_witness:
  "\<exists>u'. run_cmds (array_step example_env) [Push_back 5, Push_back 6, Push_self 0, Pop_back, Reserve 30, Reserve 40, Resize 3 9, At 2, Size]
     (example_array, example_root) =
     Some ([Failed False, Failed False, Failed False, Done, Failed True, Failed False, Done, Elem 9, Number 3], u')"
proof -
  have "\<exists>s'. run_cmds (array_spec_step example_env)
     [Push_back 5, Push_back 6, Push_self 0, Pop_back, Reserve 30, Reserve 40, Resize 3 9, At 2, Size] \<lparr>elems = [], cap = 0, reqs = 0\<rparr> =
     Some ([Failed False, Failed False, Failed False, Done, Failed True, Failed False, Done, Elem 9, Number 3], s')"
    by (simp add: spec_push_def spec_reserve_def example_env_def)
  then show ?thesis using array_program [OF array_example_rep(1)] by blast
qed

text \<open>
  Pushing an element of the array onto a full array of elements with destructors reads an object that the
  growth of the array has just destroyed.
\<close>

theorem self_push_reads_dead:
  assumes "array_rep E (a, r) s" and "\<not> trivial E" and "length (elems s) = cap s" and "i < length (elems s)"
    and "spec_reserve E (cap s * 2) s = Some (False, t)"
  shows "push_back E (Cell (m_array a) i) (a, r) = None"
proof -
  note u = repD [OF assms(1)]
  have e: "0 < unat (element_size E)" using assms(1) by (simp add: array_rep_def word_less_nat_alt)
  have "cap s * 2 * unat (element_size E) < 2 ^ 64" using assms by (auto simp: spec_reserve_def split: if_splits)
  moreover have "cap s * 2 * 1 \<le> cap s * 2 * unat (element_size E)" using e by (intro mult_le_mono2) simp
  ultimately have "cap s * 2 < 2 ^ 64" by linarith
  then have dbl: "unat (m_capacity a * 2) = cap s * 2" using u by (simp add: unat_word_ariths)
  have c: "cap s \<noteq> 0" using assms by auto
  obtain a1 r1 where r1: "reserve E (m_capacity a * 2) (a, r) = Some (False, a1, r1)" "array_rep E (a1, r1) t"
    "m_array a1 \<noteq> m_array a"
    using reserve_rep [OF assms(1), of "m_capacity a * 2" False t] assms(5) dbl c by auto
  have "cell r1 (m_array a) i = None" using rep_cells(3) [OF r1(2) assms(2), of "m_array a" i] r1(3) by fastforce
  then show ?thesis using r1(1) u c assms(3) by (simp add: push_back_def load_def)
qed

text \<open>The same array in a root that refuses nothing, with room for the two elements it gets.\<close>

definition generous_env :: array_env where
  "generous_env = example_env\<lparr>grant := (\<lambda>k n. True)\<rparr>"

theorem self_push_reads_dead_witness:
  "\<exists>u. run_cmds (array_step generous_env) [Reserve 2, Push_back 5, Push_back 6] (example_array, example_root) =
     Some ([Failed False, Failed False, Failed False], u) \<and> array_step generous_env (Push_self 0) u = None"
proof -
  let ?s = "\<lparr>elems = [5, 6], cap = 2, reqs = 1\<rparr> :: nat array_spec"
  have "run_cmds (array_spec_step generous_env) [Reserve 2, Push_back 5, Push_back 6] \<lparr>elems = [], cap = 0, reqs = 0\<rparr> =
     Some ([Failed False, Failed False, Failed False], ?s)"
    by (simp add: spec_push_def spec_reserve_def example_env_def generous_env_def)
  then obtain a r where u: "run_cmds (array_step generous_env) [Reserve 2, Push_back 5, Push_back 6] (example_array, example_root) =
     Some ([Failed False, Failed False, Failed False], a, r)" "array_rep generous_env (a, r) ?s"
    using array.run_refines [OF array_example_rep(2) [of "\<lambda>k n. True", folded generous_env_def]] by fast
  have "spec_reserve generous_env (cap ?s * 2) ?s = Some (False, ?s\<lparr>cap := 4, reqs := 2\<rparr>)"
    by (simp add: spec_reserve_def example_env_def generous_env_def)
  from self_push_reads_dead [OF u(2) _ _ _ this, of 0] have "push_back generous_env (Cell (m_array a) 0) (a, r) = None"
    by (simp add: example_env_def generous_env_def)
  then show ?thesis using u(1) by (intro exI [of _ "(a, r)"]) simp
qed

text \<open>
  \<open>reserve\<close> does not check the size in bytes: for a number of elements whose size does not fit a word it gets a
  smaller block, reports success and takes the number as the capacity of the array.
\<close>

theorem reserve_overflow:
  assumes "array_rep E (a, r) s" and "elems s = []" and "2 ^ 64 \<le> unat n * unat (element_size E)"
    and "grant E (requests r) (n * element_size E)"
  shows "\<exists>a' r'. reserve E n (a, r) = Some (False, a', r') \<and> m_capacity a' = n \<and> room r' (m_array a') < unat n"
proof -
  note u = repD [OF assms(1)]
  have pos: "0 < next_block r" "0 < unat (element_size E)" "cap s * unat (element_size E) < 2 ^ 64"
    using assms(1) by (simp_all add: array_rep_def word_less_nat_alt)
  have "cap s < unat n"
  proof (rule ccontr)
    assume "\<not> cap s < unat n"
    then have "unat n * unat (element_size E) \<le> cap s * unat (element_size E)" by (intro mult_le_mono1) simp
    then show False using pos(3) assms(3) by linarith
  qed
  then have le: "\<not> n \<le> m_capacity a" using u by (simp add: word_le_nat_alt)
  have "unat (n * element_size E) < 2 ^ 64" using unat_less_2p [of "n * element_size E"] by simp
  also have "\<dots> \<le> unat n * unat (element_size E)" by (rule assms(3))
  finally have "unat (n * element_size E) div unat (element_size E) < unat n" using pos(2) by (simp add: less_mult_imp_div_less)
  then show ?thesis using le u(1) assms(2,4) pos(1) by (simp add: reserve_def alloc_root_def Let_def)
qed

theorem reserve_overflow_witness:
  "\<exists>a' r'. reserve example_env (2 ^ 61 + 1) (example_array, example_root) = Some (False, a', r') \<and> m_capacity a' = 2 ^ 61 + 1 \<and>
     room r' (m_array a') < 2 ^ 61 + 1"
  using reserve_overflow [OF array_example_rep(1), of "2 ^ 61 + 1"] by (simp add: example_env_def example_root_def)

end
