(* ===== verification/Ilist.thy ===== *)
theory Ilist
  imports Simulation "HOL-Library.Monad_Syntax"
begin

text \<open>
  \<open>ilist\<close> and \<open>sized_ilist\<close> (\<open>ilist.h\<close>): the list modelled after \<open>std::list\<close> whose elements derive from a node. The nodes
  form a ring with the sentinel of the list object, whose address is the address of the list. \<open>dbug\<close> says whether the build
  has \<open>DBUG_OFF\<close> undefined, which makes nodes outside a list null.
\<close>

section \<open>Nodes\<close>

record ring_heap =
  nx :: "ptr \<Rightarrow> ptr option"
  pv :: "ptr \<Rightarrow> ptr option"

definition set_nx :: "ptr \<Rightarrow> ptr \<Rightarrow> ring_heap \<Rightarrow> ring_heap option" where
  "set_nx p v h = map_option (\<lambda>_. h\<lparr>nx := (nx h)(p \<mapsto> v)\<rparr>) (nx h p)"

definition set_pv :: "ptr \<Rightarrow> ptr \<Rightarrow> ring_heap \<Rightarrow> ring_heap option" where
  "set_pv p v h = map_option (\<lambda>_. h\<lparr>pv := (pv h)(p \<mapsto> v)\<rparr>) (pv h p)"

definition mk_node :: "ptr \<Rightarrow> ring_heap \<Rightarrow> ring_heap" where
  "mk_node p h = h\<lparr>nx := (nx h)(p \<mapsto> 0), pv := (pv h)(p \<mapsto> 0)\<rparr>"

text \<open>An iterator is the address of its node; the assertions of the increments are \<open>None\<close>.\<close>

definition mk_iter :: "ptr \<Rightarrow> ptr option" where "mk_iter node = (if node \<noteq> 0 then Some node else None)"

definition it_incr :: "ptr \<Rightarrow> ring_heap \<Rightarrow> ptr option" where
  "it_incr it h = do { n \<leftarrow> nx h it; mk_iter n }"

definition it_post_incr :: "ptr \<Rightarrow> ring_heap \<Rightarrow> (ptr \<times> ptr) option" where
  "it_post_incr it h = do { n \<leftarrow> it_incr it h; Some (it, n) }"

definition it_decr :: "ptr \<Rightarrow> ring_heap \<Rightarrow> ptr option" where
  "it_decr it h = do { n \<leftarrow> pv h it; mk_iter n }"

definition it_post_decr :: "ptr \<Rightarrow> ring_heap \<Rightarrow> (ptr \<times> ptr) option" where
  "it_post_decr it h = do { n \<leftarrow> it_decr it h; Some (it, n) }"

definition it_eq :: "ptr \<Rightarrow> ptr \<Rightarrow> bool" where "it_eq lhs rhs \<longleftrightarrow> lhs = rhs"

definition it_ne :: "ptr \<Rightarrow> ptr \<Rightarrow> bool" where "it_ne lhs rhs \<longleftrightarrow> \<not> it_eq lhs rhs"

section \<open>The list\<close>

definition mk_ilist :: "ptr \<Rightarrow> ring_heap \<Rightarrow> ring_heap" where
  "mk_ilist l h = h\<lparr>nx := (nx h)(l \<mapsto> l), pv := (pv h)(l \<mapsto> l)\<rparr>"

definition list_begin :: "ptr \<Rightarrow> ring_heap \<Rightarrow> ptr option" where
  "list_begin l h = do { n \<leftarrow> nx h l; mk_iter n }"

definition list_end :: "ptr \<Rightarrow> ptr option" where "list_end l = mk_iter l"

definition front :: "ptr \<Rightarrow> ring_heap \<Rightarrow> ptr option" where "front l h = list_begin l h"

definition list_back :: "ptr \<Rightarrow> ring_heap \<Rightarrow> ptr option" where "list_back l h = do { e \<leftarrow> list_end l; it_decr e h }"

definition list_empty :: "ptr \<Rightarrow> ring_heap \<Rightarrow> bool option" where
  "list_empty l h = map_option (\<lambda>n. n = l) (nx h l)"

definition list_clear :: "ptr \<Rightarrow> ring_heap \<Rightarrow> ring_heap option" where
  "list_clear l h = do { h \<leftarrow> set_nx l l h; set_pv l l h }"

definition list_insert :: "ptr \<Rightarrow> ptr \<Rightarrow> ring_heap \<Rightarrow> (ptr \<times> ring_heap) option" where
  "list_insert pos val h = do {
     let curr = pos;
     prev \<leftarrow> pv h pos;
     h \<leftarrow> set_nx prev val h;
     h \<leftarrow> set_pv curr val h;
     h \<leftarrow> set_pv val prev h;
     h \<leftarrow> set_nx val curr h;
     it \<leftarrow> mk_iter val;
     Some (it, h) }"

definition list_erase :: "bool \<Rightarrow> ptr \<Rightarrow> ring_heap \<Rightarrow> (ptr \<times> ring_heap) option" where
  "list_erase dbug pos h = do {
     prev \<leftarrow> pv h pos;
     n \<leftarrow> nx h pos;
     h \<leftarrow> set_nx prev n h;
     h \<leftarrow> set_pv n prev h;
     h \<leftarrow> (if dbug then do { h \<leftarrow> set_pv pos 0 h; set_nx pos 0 h } else Some h);
     it \<leftarrow> mk_iter n;
     Some (it, h) }"

definition list_push_back :: "ptr \<Rightarrow> ptr \<Rightarrow> ring_heap \<Rightarrow> ring_heap option" where
  "list_push_back l val h = do { e \<leftarrow> list_end l; (_, h) \<leftarrow> list_insert e val h; Some h }"

definition list_pop_back :: "bool \<Rightarrow> ptr \<Rightarrow> ring_heap \<Rightarrow> ring_heap option" where
  "list_pop_back dbug l h = do { e \<leftarrow> list_end l; (_, h) \<leftarrow> list_erase dbug e h; Some h }"

definition list_push_front :: "ptr \<Rightarrow> ptr \<Rightarrow> ring_heap \<Rightarrow> ring_heap option" where
  "list_push_front l val h = do { b \<leftarrow> list_begin l h; (_, h) \<leftarrow> list_insert b val h; Some h }"

definition list_pop_front :: "bool \<Rightarrow> ptr \<Rightarrow> ring_heap \<Rightarrow> ring_heap option" where
  "list_pop_front dbug l h = do { b \<leftarrow> list_begin l h; (_, h) \<leftarrow> list_erase dbug b h; Some h }"

definition list_remove :: "bool \<Rightarrow> ptr \<Rightarrow> ring_heap \<Rightarrow> ring_heap option" where
  "list_remove dbug val h = do { it \<leftarrow> mk_iter val; (_, h) \<leftarrow> list_erase dbug it h; Some h }"

section \<open>The list with a size\<close>

record sized_state =
  ring :: ring_heap
  m_size :: csize

definition mk_sized :: "ptr \<Rightarrow> ring_heap \<Rightarrow> sized_state" where
  "mk_sized l h = \<lparr>ring = mk_ilist l h, m_size = 0\<rparr>"

definition on_ring :: "(ring_heap \<Rightarrow> ('r \<times> ring_heap) option) \<Rightarrow> sized_state \<Rightarrow> ('r \<times> sized_state) option" where
  "on_ring f s = map_option (\<lambda>(r, h). (r, s\<lparr>ring := h\<rparr>)) (f (ring s))"

definition sized_clear :: "ptr \<Rightarrow> sized_state \<Rightarrow> sized_state option" where
  "sized_clear l s = map_option (\<lambda>h. s\<lparr>ring := h, m_size := 0\<rparr>) (list_clear l (ring s))"

definition sized_insert :: "ptr \<Rightarrow> ptr \<Rightarrow> sized_state \<Rightarrow> (ptr \<times> sized_state) option" where
  "sized_insert pos val s = on_ring (list_insert pos val) (s\<lparr>m_size := m_size s + 1\<rparr>)"

definition sized_erase :: "bool \<Rightarrow> ptr \<Rightarrow> sized_state \<Rightarrow> (ptr \<times> sized_state) option" where
  "sized_erase dbug pos s = on_ring (list_erase dbug pos) (s\<lparr>m_size := m_size s - 1\<rparr>)"

definition sized_push_back :: "ptr \<Rightarrow> ptr \<Rightarrow> sized_state \<Rightarrow> sized_state option" where
  "sized_push_back l val s = do { e \<leftarrow> list_end l; (_, s) \<leftarrow> sized_insert e val s; Some s }"

definition sized_pop_back :: "bool \<Rightarrow> ptr \<Rightarrow> sized_state \<Rightarrow> sized_state option" where
  "sized_pop_back dbug l s = do { e \<leftarrow> list_end l; (_, s) \<leftarrow> sized_erase dbug e s; Some s }"

definition sized_push_front :: "ptr \<Rightarrow> ptr \<Rightarrow> sized_state \<Rightarrow> sized_state option" where
  "sized_push_front l val s = do { b \<leftarrow> list_begin l (ring s); (_, s) \<leftarrow> sized_insert b val s; Some s }"

definition sized_pop_front :: "bool \<Rightarrow> ptr \<Rightarrow> sized_state \<Rightarrow> sized_state option" where
  "sized_pop_front dbug l s = do { b \<leftarrow> list_begin l (ring s); (_, s) \<leftarrow> sized_erase dbug b s; Some s }"

definition sized_remove :: "bool \<Rightarrow> ptr \<Rightarrow> sized_state \<Rightarrow> sized_state option" where
  "sized_remove dbug val s = do { it \<leftarrow> mk_iter val; (_, s) \<leftarrow> sized_erase dbug it s; Some s }"

section \<open>Rings\<close>

fun linked :: "ring_heap \<Rightarrow> ptr list \<Rightarrow> bool" where
  "linked h [] = True"
| "linked h [a] = True"
| "linked h (a # b # cs) = (nx h a = Some b \<and> pv h b = Some a \<and> linked h (b # cs))"

definition is_ring :: "ring_heap \<Rightarrow> ptr \<Rightarrow> ptr list \<Rightarrow> bool" where
  "is_ring h l xs \<longleftrightarrow> linked h (l # xs @ [l]) \<and> distinct (l # xs) \<and> 0 \<notin> set (l # xs)"

lemma ring_linked_append: "linked h (xs @ [b] @ ys) \<longleftrightarrow> linked h (xs @ [b]) \<and> linked h (b # ys)"
proof (induction xs rule: induct_list012)
  case 1
  then show ?case by simp
next
  case (2 a)
  then show ?case by simp
next
  case (3 a b xs)
  then show ?case by simp
qed

lemma linked_two: "linked h (xs @ [a, b] @ ys) \<longleftrightarrow> linked h (xs @ [a]) \<and> nx h a = Some b \<and> pv h b = Some a \<and> linked h (b # ys)"
  using ring_linked_append [of h xs a "b # ys"] by simp

lemma ring_linked_frame:
  "linked h xs \<Longrightarrow> \<forall>x\<in>set (butlast xs). nx h' x = nx h x \<Longrightarrow> \<forall>x\<in>set (tl xs). pv h' x = pv h x \<Longrightarrow> linked h' xs"
proof (induction xs rule: induct_list012)
  case (3 a b xs)
  then show ?case by (cases xs) auto
qed simp_all

lemma linked_live: "linked h xs \<Longrightarrow> set (butlast xs) \<subseteq> dom (nx h) \<and> set (tl xs) \<subseteq> dom (pv h)"
proof (induction xs rule: induct_list012)
  case (3 a b xs)
  then show ?case by (cases xs) auto
qed simp_all

lemma ring_live: "is_ring h l xs \<Longrightarrow> set (l # xs) \<subseteq> dom (nx h) \<and> set (l # xs) \<subseteq> dom (pv h)"
  using linked_live [of h "l # xs @ [l]"] by (simp add: is_ring_def butlast_append)

text \<open>The ring around a place between two elements, where \<open>p\<close> and \<open>c\<close> may be the sentinel.\<close>

lemma ring_split:
  assumes "is_ring h l (xs @ ys)"
  defines "p \<equiv> last (l # xs)" and "c \<equiv> hd (ys @ [l])"
  shows "linked h (l # xs)" and "linked h (ys @ [l])" and "nx h p = Some c" and "pv h c = Some p"
proof -
  have "l # (xs @ ys) @ [l] = butlast (l # xs) @ [p, c] @ tl (ys @ [l])"
    using append_butlast_last_id [of "l # xs"] list.collapse [of "ys @ [l]"] by (simp add: p_def c_def)
  then have "linked h (butlast (l # xs) @ [p, c] @ tl (ys @ [l]))" using assms(1) by (simp add: is_ring_def)
  then have all: "linked h (butlast (l # xs) @ [p])" "nx h p = Some c" "pv h c = Some p" "linked h (c # tl (ys @ [l]))"
    unfolding linked_two by simp_all
  then show "nx h p = Some c" "pv h c = Some p" by simp_all
  show "linked h (l # xs)" using all(1) append_butlast_last_id [of "l # xs"] by (simp add: p_def)
  show "linked h (ys @ [l])" using all(4) list.collapse [of "ys @ [l]"] by (simp add: c_def)
qed

lemma ring_join:
  assumes "linked h (l # xs)" and "linked h (ys @ [l])" and "nx h (last (l # xs)) = Some (hd (ys @ [l]))"
    and "pv h (hd (ys @ [l])) = Some (last (l # xs))" and "distinct (l # xs @ ys)" and "0 \<notin> set (l # xs @ ys)"
  shows "is_ring h l (xs @ ys)"
proof -
  have e: "l # (xs @ ys) @ [l] = butlast (l # xs) @ [last (l # xs), hd (ys @ [l])] @ tl (ys @ [l])"
    using append_butlast_last_id [of "l # xs"] list.collapse [of "ys @ [l]"] by simp
  have "linked h (butlast (l # xs) @ [last (l # xs), hd (ys @ [l])] @ tl (ys @ [l]))"
    unfolding linked_two using assms(1-4) append_butlast_last_id [of "l # xs"] list.collapse [of "ys @ [l]"] by simp
  then have "linked h (l # (xs @ ys) @ [l])" by (simp only: e)
  then show ?thesis using assms(5,6) by (simp add: is_ring_def)
qed

section \<open>What the operations do\<close>

definition same_nodes :: "ring_heap \<Rightarrow> ring_heap \<Rightarrow> bool" where
  "same_nodes h h' \<longleftrightarrow> dom (nx h') = dom (nx h) \<and> dom (pv h') = dom (pv h)"

lemma last_in: "last (l # xs) \<in> set (l # xs)"
  using last_in_set [of "l # xs"] by simp

lemma hd_in: "hd (ys @ [l]) \<in> set (l # ys)"
  by (cases ys) simp_all

text \<open>Inserting before the place between \<open>xs\<close> and \<open>ys\<close>.\<close>

lemma insert_ring:
  assumes r: "is_ring h l (xs @ ys)" and v: "v \<in> dom (nx h)" "v \<in> dom (pv h)" "v \<noteq> 0" "v \<notin> set (l # xs @ ys)"
  shows "\<exists>h'. list_insert (hd (ys @ [l])) v h = Some (v, h') \<and> is_ring h' l (xs @ v # ys) \<and> same_nodes h h'"
proof -
  let ?p = "last (l # xs)" and ?c = "hd (ys @ [l])"
  note s = ring_split [OF r]
  have d: "distinct (l # xs @ ys)" "0 \<notin> set (l # xs @ ys)" using r by (simp_all add: is_ring_def)
  have ne: "?p \<noteq> v" "?c \<noteq> v" using v(4) last_in [of l xs] hd_in [of ys l] by auto
  let ?h = "h\<lparr>nx := (nx h)(?p \<mapsto> v, v \<mapsto> ?c), pv := (pv h)(?c \<mapsto> v, v \<mapsto> ?p)\<rparr>"
  obtain a where a: "nx h v = Some a" using v by auto
  obtain b where b: "pv h v = Some b" using v by auto
  have run: "list_insert ?c v h = Some (v, ?h)"
    using s(3,4) a b ne v(3) by (cases h) (simp add: list_insert_def set_nx_def set_pv_def mk_iter_def Let_def del: last.simps)
  have "linked ?h (l # xs)"
  proof (rule ring_linked_frame [OF s(1)])
    have "?p \<notin> set (butlast (l # xs))"
      using d(1) append_butlast_last_id [of "l # xs"] distinct_append [of "butlast (l # xs)" "[?p]"] by (simp del: butlast.simps last.simps)
    moreover have "v \<notin> set (butlast (l # xs))" using v(4) in_set_butlastD [of v "l # xs"] by (auto simp del: butlast.simps)
    ultimately show "\<forall>x\<in>set (butlast (l # xs)). nx ?h x = nx h x" by (auto simp del: butlast.simps last.simps)
    have "?c \<notin> set xs" using d(1) by (cases ys) auto
    then show "\<forall>x\<in>set (tl (l # xs)). pv ?h x = pv h x" using v(4) by auto
  qed
  moreover have "linked ?h (ys @ [l])"
  proof (rule ring_linked_frame [OF s(2)])
    have "?p \<notin> set ys" using d(1) last_in [of l xs] by auto
    then show "\<forall>x\<in>set (butlast (ys @ [l])). nx ?h x = nx h x" using v(4) by auto
    have "?c \<notin> set (tl (ys @ [l]))" using d(1) by (cases ys) auto
    then show "\<forall>x\<in>set (tl (ys @ [l])). pv ?h x = pv h x" using v(4) by (cases ys) auto
  qed
  ultimately have "is_ring ?h l (xs @ v # ys)"
  proof -
    assume l1: "linked ?h (l # xs)" and l2: "linked ?h (ys @ [l])"
    have "linked ?h (v # ys @ [l])" using l2 ne by (cases "ys @ [l]") auto
    then show ?thesis using l1 ne d v by (intro ring_join) (auto simp del: last.simps)
  qed
  moreover have "same_nodes h ?h" using s(3,4) a b by (auto simp: same_nodes_def)
  ultimately show ?thesis using run by blast
qed

text \<open>Erasing an element.\<close>

lemma erase_ring:
  assumes r: "is_ring h l (xs @ v # ys)"
  shows "\<exists>h'. list_erase dbug v h = Some (hd (ys @ [l]), h') \<and> is_ring h' l (xs @ ys) \<and> same_nodes h h'"
proof -
  let ?p = "last (l # xs)" and ?c = "hd (ys @ [l])"
  note s = ring_split [of h l xs "v # ys", OF r]
  have r': "is_ring h l ((xs @ [v]) @ ys)" using r by simp
  note t = ring_split [OF r']
  have d: "distinct (l # xs @ v # ys)" "0 \<notin> set (l # xs @ v # ys)" using r by (simp_all add: is_ring_def)
  have ne: "?p \<noteq> v" "?c \<noteq> v" using d(1) last_in [of l xs] hd_in [of ys l] by auto
  have nz: "?c \<noteq> 0" using d(2) by (cases ys) auto
  let ?cut = "h\<lparr>nx := (nx h)(?p \<mapsto> ?c), pv := (pv h)(?c \<mapsto> ?p)\<rparr>"
  let ?h = "if dbug then ?cut\<lparr>nx := (nx ?cut)(v \<mapsto> 0), pv := (pv ?cut)(v \<mapsto> 0)\<rparr> else ?cut"
  have facts: "pv h v = Some ?p" "nx h ?p = Some v" "nx h v = Some ?c" "pv h ?c = Some v"
    using s(3,4) t(3,4) by simp_all
  have run: "list_erase dbug v h = Some (?c, ?h)"
    using facts ne nz by (cases h) (simp add: list_erase_def set_nx_def set_pv_def mk_iter_def del: last.simps)
  have "linked ?h (l # xs)"
  proof (rule ring_linked_frame [OF s(1)])
    have "?p \<notin> set (butlast (l # xs))"
      using d(1) append_butlast_last_id [of "l # xs"] distinct_append [of "butlast (l # xs)" "[?p]"] by (simp del: butlast.simps last.simps)
    moreover have "v \<notin> set (butlast (l # xs))" using d(1) in_set_butlastD [of v "l # xs"] by (auto simp del: butlast.simps)
    ultimately show "\<forall>x\<in>set (butlast (l # xs)). nx ?h x = nx h x" by (auto simp del: butlast.simps last.simps)
    have "?c \<notin> set xs" using d(1) by (cases ys) auto
    then show "\<forall>x\<in>set (tl (l # xs)). pv ?h x = pv h x" using d(1) by auto
  qed
  moreover have "linked ?h (ys @ [l])"
  proof (rule ring_linked_frame [OF t(2)])
    have "?p \<notin> set ys" using d(1) last_in [of l xs] by auto
    then show "\<forall>x\<in>set (butlast (ys @ [l])). nx ?h x = nx h x" using d(1) by auto
    have "?c \<notin> set (tl (ys @ [l]))" using d(1) by (cases ys) auto
    then show "\<forall>x\<in>set (tl (ys @ [l])). pv ?h x = pv h x" using d(1) by (cases ys) auto
  qed
  moreover have "nx ?h ?p = Some ?c" "pv ?h ?c = Some ?p" using ne by (simp_all del: last.simps)
  ultimately have "is_ring ?h l (xs @ ys)" using d by (intro ring_join) auto
  moreover have "same_nodes h ?h" using facts by (auto simp: same_nodes_def)
  ultimately show ?thesis using run by blast
qed

lemma ring_begin: "is_ring h l xs \<Longrightarrow> list_begin l h = Some (hd (xs @ [l])) \<and> nx h l = Some (hd (xs @ [l]))"
  using ring_split(3) [of h l "[]" xs] by (cases xs) (auto simp: list_begin_def mk_iter_def is_ring_def)

lemma ring_back:
  assumes "is_ring h l xs" and "xs \<noteq> []"
  shows "list_back l h = Some (last xs)"
proof -
  have "l \<noteq> 0" "last xs \<noteq> 0" using assms last_in_set [OF assms(2)] by (cases "last xs = 0"; auto simp: is_ring_def)+
  then show ?thesis using ring_split(4) [of h l xs "[]"] assms by (simp add: list_back_def list_end_def it_decr_def mk_iter_def)
qed

lemma ring_next:
  assumes "is_ring h l (us @ p # vs)"
  shows "nx h p = Some (hd (vs @ [l]))"
  using ring_split(3) [of h l "us @ [p]" vs] assms by simp

lemma clear_ring: "is_ring h l xs \<Longrightarrow> \<exists>h'. list_clear l h = Some h' \<and> is_ring h' l [] \<and> same_nodes h h'"
  using ring_live [of h l xs] by (auto simp: list_clear_def set_nx_def set_pv_def is_ring_def same_nodes_def)

text \<open>Visiting the elements with an iterator.\<close>

partial_function (option) walk :: "ptr \<Rightarrow> ptr \<Rightarrow> ring_heap \<Rightarrow> ptr list option" where
  "walk l it h = (if it_ne it l then do { n \<leftarrow> it_incr it h; xs \<leftarrow> walk l n h; Some (it # xs) } else Some [])"

lemma walk_ring: "is_ring h l (us @ vs) \<Longrightarrow> walk l (hd (vs @ [l])) h = Some vs"
proof (induction vs arbitrary: us)
  case Nil
  then show ?case by (subst walk.simps) (simp add: it_ne_def it_eq_def)
next
  case (Cons v vs)
  have r: "is_ring h l ((us @ [v]) @ vs)" using Cons.prems by simp
  have "v \<noteq> l" "hd (vs @ [l]) \<noteq> 0" using Cons.prems by (cases vs; auto simp: is_ring_def)+
  then show ?case using ring_next [OF Cons.prems] Cons.IH [OF r]
    by (subst walk.simps) (simp add: it_ne_def it_eq_def it_incr_def mk_iter_def)
qed

section \<open>Programs\<close>

datatype ilist_cmd =
    Push_back ptr
  | Push_front ptr
  | Insert ptr ptr
  | Erase ptr
  | Remove ptr
  | Pop_front
  | Clear
  | Front
  | Back
  | Is_empty
  | Get_size
  | Visit

datatype ilist_out = Done | Node ptr | Bool bool | Number csize | Nodes "ptr list"

fun ilist_step :: "bool \<Rightarrow> ptr \<Rightarrow> ilist_cmd \<Rightarrow> sized_state \<Rightarrow> (ilist_out \<times> sized_state) option" where
  "ilist_step dbug l (Push_back a) s = map_option (\<lambda>s. (Done, s)) (sized_push_back l a s)"
| "ilist_step dbug l (Push_front a) s = map_option (\<lambda>s. (Done, s)) (sized_push_front l a s)"
| "ilist_step dbug l (Insert p a) s = map_option (\<lambda>(q, s). (Node q, s)) (sized_insert p a s)"
| "ilist_step dbug l (Erase p) s = map_option (\<lambda>(q, s). (Node q, s)) (sized_erase dbug p s)"
| "ilist_step dbug l (Remove p) s = map_option (\<lambda>s. (Done, s)) (sized_remove dbug p s)"
| "ilist_step dbug l Pop_front s = map_option (\<lambda>s. (Done, s)) (sized_pop_front dbug l s)"
| "ilist_step dbug l Clear s = map_option (\<lambda>s. (Done, s)) (sized_clear l s)"
| "ilist_step dbug l Front s = map_option (\<lambda>p. (Node p, s)) (front l (ring s))"
| "ilist_step dbug l Back s = map_option (\<lambda>p. (Node p, s)) (list_back l (ring s))"
| "ilist_step dbug l Is_empty s = map_option (\<lambda>b. (Bool b, s)) (list_empty l (ring s))"
| "ilist_step dbug l Get_size s = Some (Number (m_size s), s)"
| "ilist_step dbug l Visit s = do { b \<leftarrow> list_begin l (ring s); xs \<leftarrow> walk l b (ring s); Some (Nodes xs, s) }"

text \<open>The specification: a sequence of nodes of a pool; the position \<open>l\<close> is the end.\<close>

record ilist_spec =
  seq :: "ptr list"
  pool :: "ptr set"

fun split_at :: "ptr \<Rightarrow> ptr list \<Rightarrow> ptr list \<times> ptr list" where
  "split_at p [] = ([], [])"
| "split_at p (x # xs) = (if x = p then ([], x # xs) else map_prod ((#) x) id (split_at p xs))"

fun ilist_spec_step :: "ptr \<Rightarrow> ilist_cmd \<Rightarrow> ilist_spec \<Rightarrow> (ilist_out \<times> ilist_spec) option" where
  "ilist_spec_step l (Push_back a) s = (if a \<in> pool s \<and> a \<notin> set (seq s) then Some (Done, s\<lparr>seq := seq s @ [a]\<rparr>) else None)"
| "ilist_spec_step l (Push_front a) s = (if a \<in> pool s \<and> a \<notin> set (seq s) then Some (Done, s\<lparr>seq := a # seq s\<rparr>) else None)"
| "ilist_spec_step l (Insert p a) s =
     (if a \<in> pool s \<and> a \<notin> set (seq s) \<and> p \<in> set (l # seq s)
      then let (us, vs) = split_at p (seq s) in Some (Node a, s\<lparr>seq := us @ a # vs\<rparr>) else None)"
| "ilist_spec_step l (Erase p) s =
     (if p \<in> set (seq s)
      then let (us, vs) = split_at p (seq s) in Some (Node (hd (tl vs @ [l])), s\<lparr>seq := us @ tl vs\<rparr>) else None)"
| "ilist_spec_step l (Remove p) s = (if p \<in> set (seq s) then Some (Done, s\<lparr>seq := remove1 p (seq s)\<rparr>) else None)"
| "ilist_spec_step l Pop_front s = (if seq s \<noteq> [] then Some (Done, s\<lparr>seq := tl (seq s)\<rparr>) else None)"
| "ilist_spec_step l Clear s = Some (Done, s\<lparr>seq := []\<rparr>)"
| "ilist_spec_step l Front s = (if seq s \<noteq> [] then Some (Node (hd (seq s)), s) else None)"
| "ilist_spec_step l Back s = (if seq s \<noteq> [] then Some (Node (last (seq s)), s) else None)"
| "ilist_spec_step l Is_empty s = Some (Bool (seq s = []), s)"
| "ilist_spec_step l Get_size s = Some (Number (of_nat (length (seq s))), s)"
| "ilist_spec_step l Visit s = Some (Nodes (seq s), s)"

definition ilist_rep :: "ptr \<Rightarrow> sized_state \<Rightarrow> ilist_spec \<Rightarrow> bool" where
  "ilist_rep l s t \<longleftrightarrow> is_ring (ring s) l (seq t) \<and> m_size s = of_nat (length (seq t)) \<and>
     pool t \<subseteq> dom (nx (ring s)) \<and> pool t \<subseteq> dom (pv (ring s)) \<and> 0 \<notin> pool t \<and> l \<notin> pool t"

lemma split_at_in: "p \<in> set xs \<Longrightarrow> \<exists>us vs. split_at p xs = (us, p # vs) \<and> xs = us @ p # vs \<and> p \<notin> set us"
proof (induction xs)
  case (Cons x xs)
  show ?case
  proof (cases "x = p")
    case False
    then obtain us vs where "split_at p xs = (us, p # vs)" "xs = us @ p # vs" "p \<notin> set us" using Cons by auto
    then show ?thesis using False by (intro exI [of _ "x # us"] exI [of _ vs]) simp
  qed simp
qed simp

lemma split_at_out: "p \<notin> set xs \<Longrightarrow> split_at p xs = (xs, [])"
  by (induction xs) auto

lemma rep_insert:
  assumes rep: "ilist_rep l s t" and seq: "seq t = us @ vs" and a: "a \<in> pool t" "a \<notin> set (seq t)"
  shows "\<exists>s'. sized_insert (hd (vs @ [l])) a s = Some (a, s') \<and> ilist_rep l s' (t\<lparr>seq := us @ a # vs\<rparr>)"
proof -
  have r: "is_ring (ring s) l (us @ vs)" using rep seq by (simp add: ilist_rep_def)
  have v: "a \<in> dom (nx (ring s))" "a \<in> dom (pv (ring s))" "a \<noteq> 0" "a \<notin> set (l # us @ vs)"
    using rep a seq by (cases "a = 0"; auto simp: ilist_rep_def)+
  obtain h' where "list_insert (hd (vs @ [l])) a (ring s) = Some (a, h')" "is_ring h' l (us @ a # vs)" "same_nodes (ring s) h'"
    using insert_ring [OF r v] by blast
  then show ?thesis using rep seq by (auto simp: sized_insert_def on_ring_def ilist_rep_def same_nodes_def)
qed

lemma rep_erase:
  assumes rep: "ilist_rep l s t" and seq: "seq t = us @ p # vs"
  shows "\<exists>s'. sized_erase dbug p s = Some (hd (vs @ [l]), s') \<and> ilist_rep l s' (t\<lparr>seq := us @ vs\<rparr>)"
proof -
  have r: "is_ring (ring s) l (us @ p # vs)" using rep seq by (simp add: ilist_rep_def)
  obtain h' where "list_erase dbug p (ring s) = Some (hd (vs @ [l]), h')" "is_ring h' l (us @ vs)" "same_nodes (ring s) h'"
    using erase_ring [OF r] by blast
  then show ?thesis using rep seq by (auto simp: sized_erase_def on_ring_def ilist_rep_def same_nodes_def)
qed

lemma ring_refines:
  assumes rep: "ilist_rep l s t" and sp: "ilist_spec_step l c t = Some (x, t')"
  shows "\<exists>s'. ilist_step dbug l c s = Some (x, s') \<and> ilist_rep l s' t'"
proof -
  have r: "is_ring (ring s) l (seq t)" using rep by (simp add: ilist_rep_def)
  have l: "l \<noteq> 0" "l \<notin> set (seq t)" using r by (simp_all add: is_ring_def)
  note b = ring_begin [OF r]
  show ?thesis
  proof (cases c)
    case (Push_back a)
    then have a: "a \<in> pool t" "a \<notin> set (seq t)" "x = Done" "t' = t\<lparr>seq := seq t @ [a]\<rparr>" using sp by (auto split: if_splits)
    show ?thesis using rep_insert [OF rep _ a(1,2), of "seq t" "[]"] Push_back a l
      by (auto simp: sized_push_back_def list_end_def mk_iter_def)
  next
    case (Push_front a)
    then have a: "a \<in> pool t" "a \<notin> set (seq t)" "x = Done" "t' = t\<lparr>seq := a # seq t\<rparr>" using sp by (auto split: if_splits)
    show ?thesis using rep_insert [OF rep _ a(1,2), of "[]" "seq t"] Push_front a b
      by (auto simp: sized_push_front_def)
  next
    case (Insert p a)
    then have a: "a \<in> pool t" "a \<notin> set (seq t)" "p \<in> set (l # seq t)" using sp by (auto split: if_splits)
    show ?thesis
    proof (cases "p = l")
      case True
      then show ?thesis using rep_insert [OF rep _ a(1,2), of "seq t" "[]"] Insert a sp l by (auto simp: split_at_out)
    next
      case False
      then obtain us vs where q: "split_at p (seq t) = (us, p # vs)" "seq t = us @ p # vs" using split_at_in [of p "seq t"] a by auto
      show ?thesis using rep_insert [OF rep q(2) a(1,2)] Insert a sp q(1) by auto
    qed
  next
    case (Erase p)
    then have p: "p \<in> set (seq t)" using sp by (auto split: if_splits)
    then obtain us vs where q: "split_at p (seq t) = (us, p # vs)" "seq t = us @ p # vs" using split_at_in [of p "seq t"] by auto
    show ?thesis using rep_erase [OF rep q(2), of dbug] Erase p sp q(1) by auto
  next
    case (Remove p)
    then have p: "p \<in> set (seq t)" "x = Done" "t' = t\<lparr>seq := remove1 p (seq t)\<rparr>" using sp by (auto split: if_splits)
    then obtain us vs where q: "seq t = us @ p # vs" "p \<notin> set us" using split_at_in [of p "seq t"] by auto
    have "p \<noteq> 0" using r p(1) by (cases "p = 0") (auto simp: is_ring_def)
    moreover have "remove1 p (us @ p # vs) = us @ vs" using q(2) by (simp add: remove1_append)
    ultimately show ?thesis using rep_erase [OF rep q(1), of dbug] Remove p q(1) by (auto simp: sized_remove_def mk_iter_def)
  next
    case Pop_front
    then obtain y ys where y: "seq t = y # ys" "x = Done" "t' = t\<lparr>seq := ys\<rparr>" using sp by (cases "seq t") auto
    show ?thesis using rep_erase [OF rep, of "[]" y ys dbug] Pop_front y b by (auto simp: sized_pop_front_def)
  next
    case Clear
    then show ?thesis using clear_ring [OF r] rep sp
      by (auto simp: sized_clear_def ilist_rep_def same_nodes_def)
  next
    case Front
    then show ?thesis using b rep sp by (auto simp: front_def split: if_splits)
  next
    case Back
    then show ?thesis using ring_back [OF r] rep sp by (auto split: if_splits)
  next
    case Is_empty
    then show ?thesis using b rep sp l by (cases "seq t") (auto simp: list_empty_def)
  next
    case Get_size
    then show ?thesis using rep sp by (auto simp: ilist_rep_def)
  next
    case Visit
    then show ?thesis using b walk_ring [of "ring s" l "[]" "seq t"] r rep sp by auto
  qed
qed

interpretation ring: simulation "\<lambda>k. ilist_rep l" "ilist_step dbug l" "ilist_spec_step l"
  by unfold_locales (rule ring_refines)

section \<open>Properties\<close>

text \<open>
  C9. Programs of insertions, removals and reads return what they return on a sequence of nodes, in builds with and without
  the debugging code; visiting the list with an iterator ends and yields the elements in order, and the size is right.
\<close>

theorem ring_program:
  assumes "ilist_rep l s t" and "run_cmds (ilist_spec_step l) cmds t = Some (xs, t')"
  shows "\<exists>s'. run_cmds (ilist_step dbug l) cmds s = Some (xs, s') \<and> ilist_rep l s' t'"
  using ring.run_refines [OF assms] .

definition example_nodes :: ring_heap where
  "example_nodes = mk_node 2 (mk_node 3 (mk_node 4 \<lparr>nx = Map.empty, pv = Map.empty\<rparr>))"

lemma ring_example_rep: "ilist_rep 1 (mk_sized 1 example_nodes) \<lparr>seq = [], pool = {2, 3, 4}\<rparr>"
  by (auto simp: ilist_rep_def mk_sized_def mk_ilist_def example_nodes_def mk_node_def is_ring_def)

theorem ring_program_witness:
  "\<exists>s'. run_cmds (ilist_step True 1) [Push_back 2, Push_front 3, Insert 2 4, Visit, Erase 4, Get_size, Pop_front, Back]
     (mk_sized 1 example_nodes) = Some ([Done, Done, Node 4, Nodes [3, 4, 2], Node 2, Number 2, Done, Node 2], s')"
proof -
  have "\<exists>t'. run_cmds (ilist_spec_step 1) [Push_back 2, Push_front 3, Insert 2 4, Visit, Erase 4, Get_size, Pop_front, Back]
     \<lparr>seq = [], pool = {2, 3, 4}\<rparr> = Some ([Done, Done, Node 4, Nodes [3, 4, 2], Node 2, Number 2, Done, Node 2], t')"
    by simp
  then show ?thesis using ring_program [OF ring_example_rep] by blast
qed

text \<open>\<open>n\<close> increments of an iterator.\<close>

fun steps :: "nat \<Rightarrow> ptr \<Rightarrow> ring_heap \<Rightarrow> ptr option" where
  "steps 0 it h = Some it"
| "steps (Suc n) it h = do { it \<leftarrow> it_incr it h; steps n it h }"

text \<open>Increments that go from each element to the next and from the last to the first go round for ever.\<close>

lemma steps_round:
  assumes "\<And>i. i < length xs \<Longrightarrow> it_incr (xs ! i) h = Some (xs ! (Suc i mod length xs))" and "i < length xs"
  shows "steps n (xs ! i) h = Some (xs ! ((i + n) mod length xs))"
  using assms(2)
proof (induction n arbitrary: i)
  case (Suc n)
  have lt: "Suc i mod length xs < length xs" using Suc.prems by (intro mod_less_divisor) auto
  have "(Suc i mod length xs + n) mod length xs = (i + Suc n) mod length xs" by (simp add: mod_add_left_eq)
  then show ?case using assms(1) [OF Suc.prems] Suc.IH [OF lt] by simp
qed simp

lemma sized_pop_back_run:
  "l \<noteq> 0 \<Longrightarrow> list_erase dbug l (ring s) = Some (c, h) \<Longrightarrow>
    sized_pop_back dbug l s = Some (s\<lparr>m_size := m_size s - 1, ring := h\<rparr>)"
  by (simp add: sized_pop_back_def list_end_def mk_iter_def sized_erase_def on_ring_def)

text \<open>
  C37. \<open>pop_back\<close> erases the end mark instead of the last element: the size goes down, but in a release build every
  element, the last one included, is still linked, and an iterator that starts at the first goes round through all of
  them in order, over and over, and never gets to the end; in a debug build the list has no first element any more.
\<close>

theorem pop_back_erases_sentinel:
  assumes "ilist_rep l s t" and "seq t \<noteq> []"
  shows "\<exists>s'. sized_pop_back dbug l s = Some s' \<and> m_size s' = of_nat (length (seq t) - 1) \<and>
    (if dbug then list_begin l (ring s') = None
     else list_begin l (ring s') = Some (hd (seq t)) \<and>
       (\<forall>n. steps n (hd (seq t)) (ring s') = Some (seq t ! (n mod length (seq t)))))"
proof -
  let ?xs = "seq t" and ?h = "ring s"
  let ?p = "last (seq t)" and ?c = "hd (seq t)"
  have r: "is_ring ?h l ?xs" using assms(1) by (simp add: ilist_rep_def)
  have l: "l \<noteq> 0" "l \<notin> set ?xs" "distinct ?xs" using r by (simp_all add: is_ring_def)
  have io: "?p \<in> set ?xs" "?c \<in> set ?xs" using assms(2) by simp_all
  have nl: "?p \<noteq> l" "?c \<noteq> l" using io l by auto
  have nz: "q \<noteq> 0" if "q \<in> set ?xs" for q using r that by (cases "q = 0") (auto simp: is_ring_def)
  have f: "nx ?h l = Some ?c" "pv ?h l = Some ?p" "nx ?h ?p = Some l" "pv ?h ?c = Some l"
    using ring_split(3,4) [of ?h l "[]" ?xs] ring_split(3,4) [of ?h l ?xs "[]"] r assms(2) by simp_all
  let ?cut = "?h\<lparr>nx := (nx ?h)(?p \<mapsto> ?c), pv := (pv ?h)(?c \<mapsto> ?p)\<rparr>"
  let ?res = "if dbug then ?cut\<lparr>nx := (nx ?cut)(l \<mapsto> 0), pv := (pv ?cut)(l \<mapsto> 0)\<rparr> else ?cut"
  have run: "list_erase dbug l ?h = Some (?c, ?res)"
    using f nl nz [OF io(2)] by (cases "ring s") (simp add: list_erase_def set_nx_def set_pv_def mk_iter_def)
  have size: "m_size s - 1 = of_nat (length ?xs - 1)"
    using assms by (cases ?xs) (simp_all add: ilist_rep_def)
  have "sized_pop_back dbug l s = Some (s\<lparr>m_size := m_size s - 1, ring := ?res\<rparr>)"
    by (rule sized_pop_back_run [OF l(1) run])
  moreover have "dbug \<Longrightarrow> list_begin l ?res = None" by (simp add: list_begin_def mk_iter_def)
  moreover have "\<not> dbug \<Longrightarrow> list_begin l ?res = Some ?c" using f nl nz [OF io(2)] by (simp add: list_begin_def mk_iter_def)
  moreover have "steps n ?c ?res = Some (?xs ! (n mod length ?xs))" if nd: "\<not> dbug" for n
  proof -
    have "it_incr (?xs ! i) ?res = Some (?xs ! (Suc i mod length ?xs))" if i: "i < length ?xs" for i
    proof (cases "Suc i = length ?xs")
      case True
      then have "?xs ! i = ?p" "?xs ! (Suc i mod length ?xs) = ?c" using assms(2) by (simp_all add: last_conv_nth hd_conv_nth flip: True)
      then show ?thesis using nd io nz [OF io(2)] by (auto simp: it_incr_def mk_iter_def)
    next
      case False
      then have lt: "Suc i < length ?xs" using i by simp
      have e: "?xs = take i ?xs @ ?xs ! i # drop (Suc i) ?xs" using i by (rule id_take_nth_drop)
      have "nx ?h (?xs ! i) = Some (?xs ! Suc i)"
        using ring_next [of ?h l "take i ?xs" "?xs ! i" "drop (Suc i) ?xs"] r e lt by (simp add: hd_drop_conv_nth)
      moreover have "?xs ! i \<noteq> ?p" using i False assms(2) l(3) by (simp add: last_conv_nth nth_eq_iff_index_eq)
      ultimately show ?thesis using nd lt nz [of "?xs ! Suc i"] by (auto simp: it_incr_def mk_iter_def)
    qed
    from steps_round [OF this, of 0 n] show ?thesis using assms(2) by (simp add: hd_conv_nth)
  qed
  ultimately show ?thesis using size by (cases dbug) simp_all
qed

theorem pop_back_erases_sentinel_witness:
  "\<exists>s s'. run_cmds (ilist_step False 1) [Push_back 2, Push_back 3] (mk_sized 1 example_nodes) = Some ([Done, Done], s) \<and>
     sized_pop_back False 1 s = Some s' \<and> m_size s' = 1 \<and> (\<forall>n. steps n 2 (ring s') = Some ([2, 3] ! (n mod 2)))"
proof -
  have "run_cmds (ilist_spec_step 1) [Push_back 2, Push_back 3] \<lparr>seq = [], pool = {2, 3, 4}\<rparr> =
      Some ([Done, Done], \<lparr>seq = [2, 3], pool = {2, 3, 4}\<rparr>)" by simp
  then obtain s where s: "run_cmds (ilist_step False 1) [Push_back 2, Push_back 3] (mk_sized 1 example_nodes) = Some ([Done, Done], s)"
    "ilist_rep 1 s \<lparr>seq = [2, 3], pool = {2, 3, 4}\<rparr>"
    using ring.run_refines [OF ring_example_rep] by blast
  from pop_back_erases_sentinel [OF s(2), of False]
  obtain s' where "sized_pop_back False 1 s = Some s'" "m_size s' = 1" "\<forall>n. steps n 2 (ring s') = Some ([2, 3] ! (n mod 2))"
    by (auto simp: numeral_2_eq_2)
  then show ?thesis using s(1) by blast
qed

end
