(* ===== verification/Mdl_Key.thy ===== *)
theory Mdl_Key
  imports Prelude "HOL-Library.List_Lexorder"
begin

text \<open>
  Keys and requests of metadata locks (\<open>mdl.h\<close>): a key is a namespace, a database and an object name packed into a buffer of
  fixed size, each name with its end mark. \<open>strmake\<close>, \<open>my_hash_sort\<close> and the check of the case of names are outside the
  repository and are parameters; assertions, which the shipped build leaves out, have no effect.
\<close>

section \<open>Keys\<close>

type_synonym enum_mdl_namespace = "8 word"  \<comment> \<open>as a character of the key\<close>

definition BACKUP :: enum_mdl_namespace where "BACKUP = 0"
definition SCHEMA :: enum_mdl_namespace where "SCHEMA = 1"
definition TABLE :: enum_mdl_namespace where "TABLE = 2"
definition FUNCTION :: enum_mdl_namespace where "FUNCTION = 3"
definition PROCEDURE :: enum_mdl_namespace where "PROCEDURE = 4"
definition PACKAGE_BODY :: enum_mdl_namespace where "PACKAGE_BODY = 5"
definition TRIGGER :: enum_mdl_namespace where "TRIGGER = 6"
definition EVENT :: enum_mdl_namespace where "EVENT = 7"
definition USER_LOCK :: enum_mdl_namespace where "USER_LOCK = 8"
definition NAMESPACE_END :: enum_mdl_namespace where "NAMESPACE_END = 9"

definition NAME_LEN :: nat where "NAME_LEN = 64 * 3"

definition MAX_MDLKEY_LENGTH :: nat where "MAX_MDLKEY_LENGTH = 1 + NAME_LEN + 1 + NAME_LEN + 1"

text \<open>
  A C string argument is the list of its characters up to the end mark. \<open>strmake\<close> takes the place in the buffer, the
  string, the limit and the buffer to the place of the end mark and the buffer.
\<close>

record mdl_env =
  strmake :: "nat \<Rightarrow> uchar list \<Rightarrow> nat \<Rightarrow> uchar list \<Rightarrow> nat \<times> uchar list"
  my_hash_sort :: "uchar list \<Rightarrow> uint32"

record mdl_key =
  m_length :: uint16
  m_db_name_length :: uint16
  m_hash_value :: uint32
  m_ptr :: "uchar list"

definition key_length :: "mdl_key \<Rightarrow> uint" where "key_length k = ucast (m_length k)"

definition db_name :: "mdl_key \<Rightarrow> nat" where "db_name k = 1"

definition db_name_length :: "mdl_key \<Rightarrow> uint" where "db_name_length k = ucast (m_db_name_length k)"

definition obj_name :: "mdl_key \<Rightarrow> nat" where "obj_name k = unat (m_db_name_length k) + 2"

definition name_length :: "mdl_key \<Rightarrow> uint" where
  "name_length k = ucast (m_length k) - ucast (m_db_name_length k) - 3"

definition mdl_namespace :: "mdl_key \<Rightarrow> enum_mdl_namespace" where "mdl_namespace k = m_ptr k ! 0"

definition mdl_key_init :: "mdl_env \<Rightarrow> enum_mdl_namespace \<Rightarrow> uchar list \<Rightarrow> uchar list \<Rightarrow> mdl_key \<Rightarrow> mdl_key" where
  "mdl_key_init E mdl_namespace_arg db name_arg k =
     (let buf = (m_ptr k)[0 := mdl_namespace_arg];
          (db_end, buf) = strmake E 1 db NAME_LEN buf;
          db_len = (of_nat (db_end - 1) :: uint16);
          (name_end, buf) = strmake E (unat db_len + 2) name_arg NAME_LEN buf;
          len = (of_nat (name_end + 1) :: uint16)
      in k\<lparr>m_length := len, m_db_name_length := db_len,
           m_hash_value := my_hash_sort E (take (unat len - 1) (drop 1 buf)), m_ptr := buf\<rparr>)"

definition mdl_key_copy :: "mdl_key \<Rightarrow> mdl_key \<Rightarrow> mdl_key" where
  "mdl_key_copy rhs k =
     k\<lparr>m_ptr := take (unat (m_length rhs)) (m_ptr rhs) @ drop (unat (m_length rhs)) (m_ptr k),
       m_length := m_length rhs, m_db_name_length := m_db_name_length rhs, m_hash_value := m_hash_value rhs\<rparr>"

text \<open>\<open>memcmp\<close> on byte strings of one length; the sign of its result is what the code relies on.\<close>

fun memcmp :: "uchar list \<Rightarrow> uchar list \<Rightarrow> int" where
  "memcmp (a # as) (b # bs) = (if a < b then - 1 else if b < a then 1 else memcmp as bs)"
| "memcmp as bs = 0"

definition is_equal :: "mdl_key \<Rightarrow> mdl_key \<Rightarrow> bool" where
  "is_equal k rhs \<longleftrightarrow> m_length k = m_length rhs \<and>
     memcmp (take (unat (m_length k)) (m_ptr k)) (take (unat (m_length k)) (m_ptr rhs)) = 0"

definition cmp :: "mdl_key \<Rightarrow> mdl_key \<Rightarrow> int" where
  "cmp k rhs =
     (let n = unat (if m_length k < m_length rhs then m_length k else m_length rhs)
      in memcmp (take n (m_ptr k)) (take n (m_ptr rhs)))"

definition hash_value :: "mdl_key \<Rightarrow> uint32" where "hash_value k = m_hash_value k + scast (mdl_namespace k)"

definition tc_hash_value :: "mdl_key \<Rightarrow> uint32" where "tc_hash_value k = m_hash_value k"

text \<open>The C string at a place of the buffer.\<close>

definition c_string :: "mdl_key \<Rightarrow> nat \<Rightarrow> uchar list" where
  "c_string k p = takeWhile (\<lambda>c. c \<noteq> 0) (drop p (m_ptr k))"

section \<open>Requests and tickets\<close>

type_synonym enum_mdl_type = "cint"

definition MDL_NOT_INITIALIZED :: enum_mdl_type where "MDL_NOT_INITIALIZED = - 1"
definition MDL_INTENTION_EXCLUSIVE :: enum_mdl_type where "MDL_INTENTION_EXCLUSIVE = 0"
definition MDL_SHARED :: enum_mdl_type where "MDL_SHARED = 1"
definition MDL_SHARED_HIGH_PRIO :: enum_mdl_type where "MDL_SHARED_HIGH_PRIO = 2"
definition MDL_SHARED_READ :: enum_mdl_type where "MDL_SHARED_READ = 3"
definition MDL_SHARED_WRITE :: enum_mdl_type where "MDL_SHARED_WRITE = 4"
definition MDL_SHARED_UPGRADABLE :: enum_mdl_type where "MDL_SHARED_UPGRADABLE = 5"
definition MDL_SHARED_READ_ONLY :: enum_mdl_type where "MDL_SHARED_READ_ONLY = 6"
definition MDL_SHARED_NO_WRITE :: enum_mdl_type where "MDL_SHARED_NO_WRITE = 7"
definition MDL_SHARED_NO_READ_WRITE :: enum_mdl_type where "MDL_SHARED_NO_READ_WRITE = 8"
definition MDL_EXCLUSIVE :: enum_mdl_type where "MDL_EXCLUSIVE = 9"

datatype enum_mdl_duration = MDL_STATEMENT | MDL_TRANSACTION | MDL_EXPLICIT | MDL_DURATION_END

record mdl_request =
  mdl_type :: enum_mdl_type
  duration :: enum_mdl_duration
  next_in_list :: ptr
  prev_in_list :: ptr
  ticket :: ptr
  req_key :: mdl_key

definition request_default :: "mdl_request \<Rightarrow> mdl_request" where
  "request_default r = r\<lparr>mdl_type := MDL_NOT_INITIALIZED, ticket := 0\<rparr>"

definition request_copy :: "mdl_request \<Rightarrow> mdl_request \<Rightarrow> mdl_request" where
  "request_copy rhs r =
     r\<lparr>mdl_type := mdl_type rhs, duration := duration rhs, ticket := 0, req_key := mdl_key_copy (req_key rhs) (req_key r)\<rparr>"

definition request_assign :: "mdl_request \<Rightarrow> mdl_request \<Rightarrow> mdl_request" where
  "request_assign rhs r = r\<lparr>mdl_type := MDL_NOT_INITIALIZED, ticket := 0\<rparr>"

definition set_type :: "enum_mdl_type \<Rightarrow> mdl_request \<Rightarrow> mdl_request" where "set_type type_arg r = r\<lparr>mdl_type := type_arg\<rparr>"

definition move_from :: "mdl_request \<Rightarrow> mdl_request \<Rightarrow> mdl_request \<times> mdl_request" where
  "move_from from r =
     (r\<lparr>mdl_type := mdl_type from, duration := duration from, ticket := ticket from, next_in_list := next_in_list from,
        prev_in_list := prev_in_list from, req_key := mdl_key_copy (req_key from) (req_key r)\<rparr>,
      from\<lparr>ticket := 0\<rparr>)"

definition is_write_lock_request :: "mdl_request \<Rightarrow> bool" where
  "is_write_lock_request r \<longleftrightarrow> sint MDL_SHARED_WRITE \<le> sint (mdl_type r) \<and> mdl_type r \<noteq> MDL_SHARED_READ_ONLY"

definition is_upgradable_or_exclusive :: "enum_mdl_type \<Rightarrow> bool" where
  "is_upgradable_or_exclusive m_type \<longleftrightarrow>
     m_type = MDL_SHARED_UPGRADABLE \<or> m_type = MDL_SHARED_NO_WRITE \<or> m_type = MDL_SHARED_NO_READ_WRITE \<or> m_type = MDL_EXCLUSIVE"

section \<open>The bytes of a key\<close>

text \<open>
  What is documented of \<open>strmake\<close>: it copies the string up to the limit and ends it; it may fill the rest up to the limit
  and touches nothing else.
\<close>

definition strmake_ok :: "mdl_env \<Rightarrow> bool" where
  "strmake_ok E \<longleftrightarrow> (\<forall>d src n buf. d + n < length buf \<longrightarrow>
     (let (e, buf') = strmake E d src n buf in
        e = d + length (take n src) \<and> length buf' = length buf \<and> take (e + 1) buf' = take d buf @ take n src @ [0] \<and>
        drop (d + n + 1) buf' = drop (d + n + 1) buf))"

definition key_bytes :: "enum_mdl_namespace \<Rightarrow> uchar list \<Rightarrow> uchar list \<Rightarrow> uchar list" where
  "key_bytes ns db name = ns # take NAME_LEN db @ 0 # take NAME_LEN name @ [0]"

definition is_key :: "enum_mdl_namespace \<Rightarrow> uchar list \<Rightarrow> uchar list \<Rightarrow> mdl_key \<Rightarrow> bool" where
  "is_key ns db name k \<longleftrightarrow> take (length (key_bytes ns db name)) (m_ptr k) = key_bytes ns db name \<and>
     length (m_ptr k) = MAX_MDLKEY_LENGTH \<and> unat (m_length k) = length (key_bytes ns db name) \<and>
     unat (m_db_name_length k) = length (take NAME_LEN db)"

lemma key_bytes_length: "length (key_bytes ns db name) = length (take NAME_LEN db) + length (take NAME_LEN name) + 3"
  "length (key_bytes ns db name) \<le> MAX_MDLKEY_LENGTH"
  by (simp_all add: key_bytes_def MAX_MDLKEY_LENGTH_def)

lemma init_is_key:
  assumes "strmake_ok E" and len: "length (m_ptr k) = MAX_MDLKEY_LENGTH"
  shows "is_key ns db name (mdl_key_init E ns db name k)" and
    "m_hash_value (mdl_key_init E ns db name k) = my_hash_sort E (tl (key_bytes ns db name))"
proof -
  let ?b = "(m_ptr k)[0 := ns]" and ?d = "length (take NAME_LEN db)" and ?n = "length (take NAME_LEN name)"
  have small: "?d \<le> 192" "?n \<le> 192" by (simp_all add: NAME_LEN_def)
  obtain e b where b: "strmake E 1 db NAME_LEN ?b = (e, b)" by fastforce
  have b1: "e = 1 + ?d" "length b = MAX_MDLKEY_LENGTH" "take (e + 1) b = take 1 ?b @ take NAME_LEN db @ [0]"
    using assms(1) [unfolded strmake_ok_def, rule_format, of 1 NAME_LEN ?b db] b len by (auto simp: MAX_MDLKEY_LENGTH_def)
  have "take 1 ?b = [ns]" using len by (cases "m_ptr k") (simp_all add: MAX_MDLKEY_LENGTH_def)
  then have b2: "take (?d + 2) b = ns # take NAME_LEN db @ [0]" using b1 by simp
  obtain f c where c: "strmake E (?d + 2) name NAME_LEN b = (f, c)" by fastforce
  have room: "?d + 2 + NAME_LEN < length b" using small(1) b1(2) by (simp add: MAX_MDLKEY_LENGTH_def NAME_LEN_def)
  have c1: "f = ?d + 2 + ?n" "length c = MAX_MDLKEY_LENGTH" "take (f + 1) c = take (?d + 2) b @ take NAME_LEN name @ [0]"
    using assms(1) [unfolded strmake_ok_def, rule_format, OF room, of name] c b1(2) by (auto simp del: length_take)
  have c2: "take (f + 1) c = key_bytes ns db name" using b2 c1(3) by (simp add: key_bytes_def)
  have u: "unat (of_nat ?d :: uint16) = ?d" "unat (of_nat (f + 1) :: uint16) = f + 1"
    using small c1(1) by (intro unat_of_nat_small; simp)+
  have dl: "e - 1 = ?d" using b1(1) by simp
  have init: "mdl_key_init E ns db name k = k\<lparr>m_length := of_nat (f + 1), m_db_name_length := of_nat ?d,
      m_hash_value := my_hash_sort E (take f (drop 1 c)), m_ptr := c\<rparr>"
    using b c u dl by (simp add: mdl_key_init_def Let_def del: length_take of_nat_Suc of_nat_add)
  have fl: "f + 1 = length (key_bytes ns db name)" using c1(1) by (simp add: key_bytes_length)
  then show "is_key ns db name (mdl_key_init E ns db name k)"
    using c2 c1(2) u by (simp add: init is_key_def del: length_take of_nat_Suc of_nat_add)
  have "take f (drop 1 c) = drop 1 (take (f + 1) c)" by (simp add: take_drop)
  then show "m_hash_value (mdl_key_init E ns db name k) = my_hash_sort E (tl (key_bytes ns db name))"
    using c2 by (simp add: init drop_Suc)
qed

lemma key_split:
  assumes "is_key ns db name k"
  shows "\<exists>rest. m_ptr k = ns # take NAME_LEN db @ 0 # take NAME_LEN name @ 0 # rest"
proof -
  have "m_ptr k = key_bytes ns db name @ drop (length (key_bytes ns db name)) (m_ptr k)"
    using assms append_take_drop_id [of "length (key_bytes ns db name)" "m_ptr k"] by (simp add: is_key_def)
  then show ?thesis by (auto simp: key_bytes_def)
qed

lemma takeWhile_nul: "0 \<notin> set xs \<Longrightarrow> takeWhile (\<lambda>c. c \<noteq> 0) (xs @ 0 # ys) = xs" for xs :: "uchar list"
  by (induction xs) auto

lemma nul_free_take: "0 \<notin> set xs \<Longrightarrow> 0 \<notin> set (take n xs)"
  using set_take_subset [of n xs] by auto

section \<open>Comparing keys\<close>

lemma memcmp_take: "memcmp (take (min (length as) (length bs)) as) (take (min (length as) (length bs)) bs) = memcmp as bs"
  by (induction as bs rule: memcmp.induct) simp_all

lemma memcmp_names:
  "0 \<notin> set a \<Longrightarrow> 0 \<notin> set b \<Longrightarrow>
   memcmp (a @ 0 # xs) (b @ 0 # ys) = (if a < b then - 1 else if b < a then 1 else memcmp xs ys)"
proof (induction a arbitrary: b)
  case Nil
  then show ?case by (cases b) (auto simp: word_neq_0_conv)
next
  case (Cons c a)
  then show ?case by (cases b) (auto simp: word_neq_0_conv)
qed

lemma memcmp_zero_same: "length as = length bs \<Longrightarrow> memcmp as bs = 0 \<longleftrightarrow> as = bs"
  by (induction as bs rule: list_induct2) auto

lemma key_cmp:
  assumes k: "is_key ns db name k" "is_key ns' db' name' k'"
    and nul: "0 \<notin> set db" "0 \<notin> set name" "0 \<notin> set db'" "0 \<notin> set name'"
  shows "cmp k k' = memcmp (key_bytes ns db name) (key_bytes ns' db' name')"
    and "is_equal k k' \<longleftrightarrow> key_bytes ns db name = key_bytes ns' db' name'"
proof -
  let ?a = "key_bytes ns db name" and ?b = "key_bytes ns' db' name'"
  have u: "unat (m_length k) = length ?a" "unat (m_length k') = length ?b"
    "take (length ?a) (m_ptr k) = ?a" "take (length ?b) (m_ptr k') = ?b"
    using k by (simp_all add: is_key_def)
  have n: "unat (if m_length k < m_length k' then m_length k else m_length k') = min (length ?a) (length ?b)"
    using u by (auto simp: word_less_nat_alt min_def)
  have "take (min (length ?a) (length ?b)) (m_ptr k) = take (min (length ?a) (length ?b)) (take (length ?a) (m_ptr k))"
    "take (min (length ?a) (length ?b)) (m_ptr k') = take (min (length ?a) (length ?b)) (take (length ?b) (m_ptr k'))"
    by (simp_all add: min.absorb1 min.absorb2)
  then have "take (min (length ?a) (length ?b)) (m_ptr k) = take (min (length ?a) (length ?b)) ?a"
    "take (min (length ?a) (length ?b)) (m_ptr k') = take (min (length ?a) (length ?b)) ?b"
    by (simp_all only: u(3,4))
  then show "cmp k k' = memcmp ?a ?b" by (simp add: cmp_def n memcmp_take)
  have "is_equal k k' \<longleftrightarrow> length ?a = length ?b \<and> memcmp ?a (take (length ?a) (m_ptr k')) = 0"
    using u by (auto simp: is_equal_def word_unat_eq_iff)
  also have "\<dots> \<longleftrightarrow> length ?a = length ?b \<and> memcmp ?a ?b = 0" using u by metis
  also have "\<dots> \<longleftrightarrow> ?a = ?b" using memcmp_zero_same [of ?a ?b] by auto
  finally show "is_equal k k' \<longleftrightarrow> ?a = ?b" .
qed

lemma key_bytes_eq:
  assumes "0 \<notin> set db" "0 \<notin> set name" "0 \<notin> set db'" "0 \<notin> set name'"
  shows "key_bytes ns db name = key_bytes ns' db' name' \<longleftrightarrow>
    ns = ns' \<and> take NAME_LEN db = take NAME_LEN db' \<and> take NAME_LEN name = take NAME_LEN name'"
  using assms by (simp add: key_bytes_def separator_eq nul_free_take)

section \<open>Copies\<close>

lemma copy_is_key:
  assumes "is_key ns db name rhs" and "length (m_ptr k) = MAX_MDLKEY_LENGTH"
  shows "is_key ns db name (mdl_key_copy rhs k)"
  using assms key_bytes_length(2) [of ns db name] by (simp add: is_key_def mdl_key_copy_def)

lemma memcmp_same: "memcmp as as = 0"
  by (induction as) simp_all

text \<open>A request that is moved keeps its key and takes the ticket over.\<close>

lemma moved_request:
  assumes "is_key ns db name (req_key from)" and "length (m_ptr (req_key r)) = MAX_MDLKEY_LENGTH" and "move_from from r = (r', from')"
  shows "is_equal (req_key r') (req_key from') \<and> hash_value (req_key r') = hash_value (req_key from) \<and>
    ticket r' = ticket from \<and> ticket from' = 0 \<and> is_write_lock_request r' = is_write_lock_request from"
proof -
  have r: "req_key r' = mdl_key_copy (req_key from) (req_key r)" "req_key from' = req_key from" "ticket r' = ticket from"
    "ticket from' = 0" "mdl_type r' = mdl_type from" using assms(3) by (auto simp: move_from_def)
  have c: "is_key ns db name (req_key r')" using copy_is_key [OF assms(1,2)] r(1) by simp
  have "is_equal (req_key r') (req_key from)" using c assms(1) by (simp add: is_equal_def is_key_def memcmp_same word_unat_eq_iff)
  moreover have "mdl_namespace (req_key r') = mdl_namespace (req_key from)"
    using key_split [OF c] key_split [OF assms(1)] by (auto simp: mdl_namespace_def)
  moreover have "m_hash_value (req_key r') = m_hash_value (req_key from)" using r(1) by (simp add: mdl_key_copy_def)
  ultimately show ?thesis using r by (simp add: hash_value_def is_write_lock_request_def)
qed

section \<open>Properties\<close>

text \<open>
  A key gives back the namespace and the names it was made of, cut at the longest name; it never takes more than its
  buffer, whatever the lengths of the names.
\<close>

theorem key_roundtrip:
  fixes ns :: enum_mdl_namespace
  assumes "strmake_ok E" and "length (m_ptr k0) = MAX_MDLKEY_LENGTH" and "0 \<notin> set db" and "0 \<notin> set name"
  defines "k \<equiv> mdl_key_init E ns db name k0"
  shows "mdl_namespace k = ns \<and> c_string k (db_name k) = take NAME_LEN db \<and> c_string k (obj_name k) = take NAME_LEN name \<and>
    unat (db_name_length k) = length (take NAME_LEN db) \<and> unat (name_length k) = length (take NAME_LEN name) \<and>
    length (m_ptr k) = MAX_MDLKEY_LENGTH \<and> unat (key_length k) \<le> MAX_MDLKEY_LENGTH"
proof -
  let ?d = "length (take NAME_LEN db)" and ?n = "length (take NAME_LEN name)"
  have small: "?d \<le> 192" "?n \<le> 192" by (simp_all add: NAME_LEN_def)
  have key: "is_key ns db name k" unfolding k_def by (rule init_is_key [OF assms(1,2)])
  obtain rest where p: "m_ptr k = ns # take NAME_LEN db @ 0 # take NAME_LEN name @ 0 # rest" using key_split [OF key] by blast
  have u: "unat (m_length k) = ?d + ?n + 3" "unat (m_db_name_length k) = ?d" "length (m_ptr k) = MAX_MDLKEY_LENGTH"
    using key by (simp_all add: is_key_def key_bytes_length del: length_take)
  have w: "unat (ucast (m_length k) :: uint) = ?d + ?n + 3" "unat (ucast (m_db_name_length k) :: uint) = ?d"
    using u(1,2) unat_less_2p [of "m_length k"] unat_less_2p [of "m_db_name_length k"]
    by (simp_all add: unat_ucast_small del: length_take)
  have "(ucast (m_length k) :: uint) = of_nat (?d + ?n + 3)" "(ucast (m_db_name_length k) :: uint) = of_nat ?d"
    using w small by (simp_all add: word_unat_eq_iff unat_of_nat_small del: length_take of_nat_add)
  then have "name_length k = of_nat ?n" by (simp add: name_length_def del: length_take)
  moreover have "unat (of_nat ?n :: uint) = ?n" by (intro unat_of_nat_small) (simp add: NAME_LEN_def)
  ultimately have nl: "unat (name_length k) = ?n" by simp
  have "c_string k (obj_name k) = take NAME_LEN name"
  proof -
    have "drop (?d + 2) (m_ptr k) = take NAME_LEN name @ 0 # rest" unfolding p by (simp del: length_take)
    then show ?thesis using takeWhile_nul [OF nul_free_take [OF assms(4)]] u(2)
      by (simp add: c_string_def obj_name_def del: length_take)
  qed
  moreover have "c_string k (db_name k) = take NAME_LEN db"
    using takeWhile_nul [OF nul_free_take [OF assms(3)]] by (simp add: c_string_def db_name_def p)
  ultimately show ?thesis using p u nl w key_bytes_length(2) [of ns db name]
    by (simp add: mdl_namespace_def db_name_length_def key_length_def key_bytes_length(1) del: length_take)
qed

definition plain_env :: mdl_env where
  "plain_env = \<lparr>strmake = (\<lambda>d src n buf. (d + length (take n src), take d buf @ take n src @ 0 # drop (d + length (take n src) + 1) buf)),
     my_hash_sort = (\<lambda>bs. of_nat (sum_list (map unat bs)))\<rparr>"

definition empty_key :: mdl_key where
  "empty_key = \<lparr>m_length = 0, m_db_name_length = 0, m_hash_value = 0, m_ptr = replicate MAX_MDLKEY_LENGTH 7\<rparr>"

lemma plain_ok: "strmake_ok plain_env" "length (m_ptr empty_key) = MAX_MDLKEY_LENGTH"
  by (auto simp: strmake_ok_def plain_env_def empty_key_def Let_def min_def Suc_diff_le add.commute)

theorem key_roundtrip_witness:
  "c_string (mdl_key_init plain_env TABLE [116, 101] [97] empty_key) 1 = [116, 101] \<and>
   c_string (mdl_key_init plain_env TABLE [116, 101] (replicate 300 97) empty_key)
     (obj_name (mdl_key_init plain_env TABLE [116, 101] (replicate 300 97) empty_key)) = replicate 192 97"
  using key_roundtrip [OF plain_ok, of "[116, 101]" "[97]" TABLE] key_roundtrip [OF plain_ok, of "[116, 101]" "replicate 300 97" TABLE]
  by (simp add: db_name_def NAME_LEN_def)

text \<open>
  C19. Comparing keys up to the length of the shorter one orders them by namespace, then database, then object name, byte by
  byte: the end marks make no key a prefix of another, so that keys compare equal when they are equal, and then they have
  the same namespace, names and hash value.
\<close>

theorem cmp_lexicographic:
  fixes ns ns' :: enum_mdl_namespace
  assumes "strmake_ok E" and "length (m_ptr k0) = MAX_MDLKEY_LENGTH" and "length (m_ptr k0') = MAX_MDLKEY_LENGTH"
    and "0 \<notin> set db" and "0 \<notin> set name" and "0 \<notin> set db'" and "0 \<notin> set name'"
  defines "k \<equiv> mdl_key_init E ns db name k0" and "k' \<equiv> mdl_key_init E ns' db' name' k0'"
  shows "(cmp k k' < 0 \<longleftrightarrow> [[ns], take NAME_LEN db, take NAME_LEN name] < [[ns'], take NAME_LEN db', take NAME_LEN name']) \<and>
    (cmp k k' = 0 \<longleftrightarrow> is_equal k k') \<and>
    (is_equal k k' \<longleftrightarrow> ns = ns' \<and> take NAME_LEN db = take NAME_LEN db' \<and> take NAME_LEN name = take NAME_LEN name') \<and>
    (is_equal k k' \<longrightarrow> hash_value k = hash_value k')"
proof -
  note i = init_is_key [OF assms(1,2), of ns db name, folded k_def] and i' = init_is_key [OF assms(1,3), of ns' db' name', folded k'_def]
  note c = key_cmp [OF i(1) i'(1) assms(4-7)]
  note free = assms(4-7) [THEN nul_free_take, of NAME_LEN]
  have m: "memcmp (key_bytes ns db name) (key_bytes ns' db' name') =
      (if ns < ns' then - 1 else if ns' < ns then 1 else if take NAME_LEN db < take NAME_LEN db' then - 1
       else if take NAME_LEN db' < take NAME_LEN db then 1 else if take NAME_LEN name < take NAME_LEN name' then - 1
       else if take NAME_LEN name' < take NAME_LEN name then 1 else 0)"
    using free by (simp add: key_bytes_def memcmp_names)
  have e: "is_equal k k' \<longleftrightarrow> ns = ns' \<and> take NAME_LEN db = take NAME_LEN db' \<and> take NAME_LEN name = take NAME_LEN name'"
    using c(2) key_bytes_eq [OF assms(4-7)] by simp
  have "mdl_namespace k = ns" "mdl_namespace k' = ns'"
    using key_split [OF i(1)] key_split [OF i'(1)] by (auto simp: mdl_namespace_def)
  then have "is_equal k k' \<longrightarrow> hash_value k = hash_value k'"
    using i(2) i'(2) c(2) e by (metis hash_value_def)
  moreover have "cmp k k' = 0 \<longleftrightarrow> is_equal k k'" using c(1) m e by (auto split: if_splits)
  moreover have "cmp k k' < 0 \<longleftrightarrow> [[ns], take NAME_LEN db, take NAME_LEN name] < [[ns'], take NAME_LEN db', take NAME_LEN name']"
    using c(1) m by (auto split: if_splits)
  ultimately show ?thesis using e by blast
qed

theorem cmp_lexicographic_witness:
  "cmp (mdl_key_init plain_env TABLE [97] [98, 99] empty_key) (mdl_key_init plain_env TABLE [97, 98] [99] empty_key) < 0 \<and>
   \<not> is_equal (mdl_key_init plain_env TABLE [97] [98, 99] empty_key) (mdl_key_init plain_env TABLE [97, 98] [99] empty_key)"
  using cmp_lexicographic [OF plain_ok(1,2,2), of "[97]" "[98, 99]" "[97, 98]" "[99]" TABLE TABLE] by (simp add: NAME_LEN_def)

end
