(* ===== verification/Filesort_Buffer.thy ===== *)
theory Filesort_Buffer
  imports Simulation Byte_Order "HOL-Library.Monad_Syntax"
begin

text \<open>
  The buffer of filesort (\<open>filesort_utils.h\<close>): records grow from the start of one block of memory and the pointers to them
  from its end. Also the wrapper of arrays it is handed out as (\<open>Bounds_checked_array\<close> of \<open>sql_array.h\<close>). The allocation
  of the block is outside the repository; \<open>alloc_ok\<close> is what the header says of it.
\<close>

section \<open>Arrays with bounds\<close>

record bounds_checked_array =
  m_array :: addr
  m_size :: csize

definition bca_default :: bounds_checked_array where "bca_default = \<lparr>m_array = 0, m_size = 0\<rparr>"

definition mk_bca :: "addr \<Rightarrow> csize \<Rightarrow> bounds_checked_array" where
  "mk_bca el size_arg = \<lparr>m_array = el, m_size = size_arg\<rparr>"

definition bca_reset :: "bounds_checked_array \<Rightarrow> bounds_checked_array" where
  "bca_reset a = a\<lparr>m_array := 0, m_size := 0\<rparr>"

definition bca_reset_to :: "addr \<Rightarrow> csize \<Rightarrow> bounds_checked_array \<Rightarrow> bounds_checked_array" where
  "bca_reset_to array_arg size_arg a = a\<lparr>m_array := array_arg, m_size := size_arg\<rparr>"

text \<open>A failed assertion is \<open>None\<close>; \<open>k\<close> is the size of an element.\<close>

definition bca_resize :: "csize \<Rightarrow> bounds_checked_array \<Rightarrow> bounds_checked_array option" where
  "bca_resize new_size a = (if new_size \<le> m_size a then Some (a\<lparr>m_size := new_size\<rparr>) else None)"

definition bca_at :: "csize \<Rightarrow> csize \<Rightarrow> bounds_checked_array \<Rightarrow> addr option" where
  "bca_at k n a = (if n < m_size a then Some (m_array a + k * n) else None)"

definition bca_is_null :: "bounds_checked_array \<Rightarrow> bool" where "bca_is_null a \<longleftrightarrow> m_array a = 0"

definition bca_pop_front :: "csize \<Rightarrow> bounds_checked_array \<Rightarrow> bounds_checked_array option" where
  "bca_pop_front k a = (if 0 < m_size a then Some (a\<lparr>m_array := m_array a + k, m_size := m_size a - 1\<rparr>) else None)"

definition bca_begin :: "bounds_checked_array \<Rightarrow> addr" where "bca_begin a = m_array a"

definition bca_end :: "csize \<Rightarrow> bounds_checked_array \<Rightarrow> addr" where "bca_end k a = m_array a + k * m_size a"

definition bca_eq :: "bounds_checked_array \<Rightarrow> bounds_checked_array \<Rightarrow> bool" where
  "bca_eq a rhs \<longleftrightarrow> m_array a = m_array rhs \<and> m_size a = m_size rhs"

definition bca_ne :: "bounds_checked_array \<Rightarrow> bounds_checked_array \<Rightarrow> bool" where
  "bca_ne a rhs \<longleftrightarrow> m_array a \<noteq> m_array rhs \<or> m_size a \<noteq> m_size rhs"

text \<open>The elements are those of a list: popping the first moves every index by one and keeps the end.\<close>

lemma bca_pop_front_at:
  assumes "bca_pop_front k a = Some b"
  shows "bca_at k n b = (if n < m_size a - 1 then bca_at k (n + 1) a else None)" and "bca_end k b = bca_end k a"
proof -
  have b: "b = a\<lparr>m_array := m_array a + k, m_size := m_size a - 1\<rparr>" "0 < m_size a"
    using assms by (auto simp: bca_pop_front_def split: if_splits)
  have "n + 1 < m_size a" if "n < m_size a - 1" using that b(2) by uint_arith
  then show "bca_at k n b = (if n < m_size a - 1 then bca_at k (n + 1) a else None)"
    using b by (auto simp: bca_at_def algebra_simps)
  show "bca_end k b = bca_end k a" using b by (simp add: bca_end_def algebra_simps)
qed

lemma bca_ne_iff: "bca_ne a b \<longleftrightarrow> \<not> bca_eq a b"
  by (simp add: bca_ne_def bca_eq_def)

section \<open>The buffer\<close>

type_synonym longlong = "64 word"

record filesort_buffer =
  m_next_rec_ptr :: addr
  m_rawmem :: addr
  m_record_pointers :: addr
  m_sort_keys :: addr
  m_num_records :: uint
  m_record_length :: uint
  m_sort_length :: uint
  m_size_in_bytes :: csize
  m_idx :: longlong

definition mk_filesort_buffer :: filesort_buffer where
  "mk_filesort_buffer = \<lparr>m_next_rec_ptr = 0, m_rawmem = 0, m_record_pointers = 0, m_sort_keys = 0, m_num_records = 0,
     m_record_length = 0, m_sort_length = 0, m_size_in_bytes = 0, m_idx = 0\<rparr>"

definition init_next_record_pointer :: "filesort_buffer \<Rightarrow> filesort_buffer" where
  "init_next_record_pointer b = b\<lparr>m_idx := 0, m_next_rec_ptr := m_rawmem b, m_sort_keys := 0\<rparr>"

definition space_used_for_data :: "filesort_buffer \<Rightarrow> csize" where
  "space_used_for_data b = (if m_next_rec_ptr b \<noteq> 0 then m_next_rec_ptr b - m_rawmem b else 0)"

definition spaceleft :: "filesort_buffer \<Rightarrow> csize" where
  "spaceleft b =
     (let spaceused = (m_next_rec_ptr b - m_rawmem b) + m_idx b * 8
      in m_size_in_bytes b - spaceused)"

definition isfull :: "filesort_buffer \<Rightarrow> bool" where
  "isfull b = (if sint (m_idx b) < uint (m_num_records b) then False else spaceleft b < ucast (m_record_length b) + 8)"

definition get_next_record_pointer :: "filesort_buffer \<times> memory \<Rightarrow> addr \<times> filesort_buffer \<times> memory" where
  "get_next_record_pointer = (\<lambda>(b, m).
     let retval = m_next_rec_ptr b;
         m = store64 (m_record_pointers b + 8 * (- m_idx b)) (m_next_rec_ptr b) m;
         b = b\<lparr>m_idx := m_idx b + 1\<rparr>
     in (retval, b\<lparr>m_next_rec_ptr := m_next_rec_ptr b + ucast (m_record_length b)\<rparr>, m))"

definition adjust_next_record_pointer :: "uint \<Rightarrow> filesort_buffer \<Rightarrow> filesort_buffer" where
  "adjust_next_record_pointer val b = b\<lparr>m_next_rec_ptr := m_next_rec_ptr b - ucast (m_record_length b - val)\<rparr>"

definition sort_buffer_size :: "filesort_buffer \<Rightarrow> csize" where "sort_buffer_size b = m_size_in_bytes b"

definition is_allocated :: "filesort_buffer \<Rightarrow> bool" where "is_allocated b \<longleftrightarrow> m_rawmem b \<noteq> 0"

definition buffer_reset :: "filesort_buffer \<Rightarrow> filesort_buffer" where "buffer_reset b = b\<lparr>m_rawmem := 0\<rparr>"

definition get_sort_keys :: "filesort_buffer \<Rightarrow> addr" where
  "get_sort_keys b = (if m_idx b = 0 then 0 else m_record_pointers b + 8 * (1 - m_idx b))"

definition get_sorted_record :: "uint \<Rightarrow> filesort_buffer \<times> memory \<Rightarrow> addr" where
  "get_sorted_record ix = (\<lambda>(b, m). load64 m (m_sort_keys b + 8 * ucast ix))"

definition get_raw_buf :: "filesort_buffer \<Rightarrow> bounds_checked_array" where
  "get_raw_buf b = mk_bca (m_rawmem b) (m_size_in_bytes b)"

definition get_sort_length :: "filesort_buffer \<Rightarrow> uint" where "get_sort_length b = m_sort_length b"

definition set_sort_length :: "uint \<Rightarrow> filesort_buffer \<Rightarrow> filesort_buffer" where
  "set_sort_length val b = b\<lparr>m_sort_length := val\<rparr>"

text \<open>Division of a \<open>longlong\<close> by two, towards zero.\<close>

definition half :: "longlong \<Rightarrow> longlong" where
  "half x = (if 0 \<le> sint x then drop_bit 1 x else - drop_bit 1 (- x))"

partial_function (option) swap_loop :: "addr \<Rightarrow> longlong \<Rightarrow> longlong \<Rightarrow> memory \<Rightarrow> memory option" where
  "swap_loop keys count ix m =
     (if sint ix \<le> sint (half count)
      then let tmp = load64 m (keys + 8 * (count - ix));
               m = store64 (keys + 8 * (count - ix)) (load64 m (keys + 8 * ix)) m;
               m = store64 (keys + 8 * ix) tmp m
           in swap_loop keys count (ix + 1) m
      else Some m)"

definition reverse_record_pointers :: "filesort_buffer \<times> memory \<Rightarrow> (filesort_buffer \<times> memory) option" where
  "reverse_record_pointers = (\<lambda>(b, m).
     if sint (m_idx b) < 2 then Some (b, m)
     else let keys = get_sort_keys b; count = m_idx b - 1
          in map_option (\<lambda>m. (b, m)) (swap_loop keys count 0 m))"

partial_function (option) init_loop :: "filesort_buffer \<times> memory \<Rightarrow> (filesort_buffer \<times> memory) option" where
  "init_loop s =
     (if sint (m_idx (fst s)) < uint (m_num_records (fst s)) then init_loop (snd (get_next_record_pointer s)) else Some s)"

definition init_record_pointers :: "filesort_buffer \<times> memory \<Rightarrow> (filesort_buffer \<times> memory) option" where
  "init_record_pointers = (\<lambda>(b, m). do {
     s \<leftarrow> init_loop (init_next_record_pointer b, m);
     reverse_record_pointers s })"

section \<open>Memory\<close>

lemma region_bytes: "region m (unat a) n = bytes m a n"
  by (simp add: region_def bytes_def)

lemma region_put_same: "length bs \<le> 2 ^ 64 \<Longrightarrow> region (put_bytes t bs m) (unat t) (length bs) = bs"
  by (simp only: region_bytes bytes_put_bytes)

lemma region_put_other:
  assumes "unat t + length bs \<le> 2 ^ 64" and "a + k \<le> 2 ^ 64" and "a + k \<le> unat t \<or> unat t + length bs \<le> a"
  shows "region (put_bytes t bs m) a k = region m a k"
proof (rule region_cong)
  fix i assume i: "a \<le> i" "i < a + k"
  then have u: "unat (of_nat i :: addr) = i" using assms(2) by (intro unat_of_nat_small) simp
  show "put_bytes t bs m (of_nat i) = m (of_nat i)"
  proof (rule put_bytes_outside)
    fix j assume j: "j < length bs"
    have "unat (t + of_nat j) = unat t + j"
    proof -
      have "unat (of_nat (unat t + j) :: addr) = unat t + j" using j assms(1) by (intro unat_of_nat_small) simp
      then show ?thesis by simp
    qed
    then have "unat (of_nat i :: addr) \<noteq> unat (t + of_nat j)" using u i j assms(3) by linarith
    then show "of_nat i \<noteq> t + of_nat j" by metis
  qed
qed

lemma load64_store64: "load64 (store64 a v m) a = v"
proof -
  have "unat (load64 (store64 a v m) a) = le_nat (bytes (put_bytes a (le_bytes 8 (unat v)) m) a (length (le_bytes 8 (unat v))))"
    by (simp add: unat_load64 store64_put)
  also have "\<dots> = unat v" using unat_less_2p [of v] by (subst bytes_put_bytes) (simp_all add: le_nat_bytes)
  finally show ?thesis by (simp add: word_unat_eq_iff)
qed

lemma load64_cong: "region m (unat a) 8 = region m' (unat a) 8 \<Longrightarrow> load64 m a = load64 m' a"
  by (simp add: region_bytes word_unat_eq_iff unat_load64)

lemma region_slice:
  assumes "region m a n = region m' a n" and "j + k \<le> n"
  shows "region m (a + j) k = region m' (a + j) k"
proof (rule region_cong)
  fix i assume i: "a + j \<le> i" "i < a + j + k"
  obtain d where d: "i = a + d" "d < n" using that [of "i - a"] i assms(2) by linarith
  have "region m a n ! d = region m' a n ! d" using assms(1) by simp
  then show "m (of_nat i) = m' (of_nat i)" using d by (simp add: region_def del: of_nat_add)
qed

lemma region_store64_other:
  "unat t + 8 \<le> 2 ^ 64 \<Longrightarrow> a + k \<le> 2 ^ 64 \<Longrightarrow> a + k \<le> unat t \<or> unat t + 8 \<le> a \<Longrightarrow> region (store64 t v m) a k = region m a k"
  by (simp add: store64_put region_put_other)

text \<open>An array of pointers.\<close>

definition ptrs :: "memory \<Rightarrow> nat \<Rightarrow> nat \<Rightarrow> addr list" where
  "ptrs m a n = map (\<lambda>j. load64 m (of_nat (a + 8 * j))) [0..<n]"

lemma length_ptrs [simp]: "length (ptrs m a n) = n"
  by (simp add: ptrs_def)

lemma ptrs_0 [simp]: "ptrs m a 0 = []"
  by (simp add: ptrs_def)

lemma ptrs_Suc: "ptrs m a (Suc n) = load64 m (of_nat a) # ptrs m (a + 8) n"
  by (simp add: ptrs_def upt_conv_Cons del: upt_Suc) (simp add: map_Suc_upt [symmetric] ac_simps del: upt_Suc)

lemma nth_ptrs: "j < n \<Longrightarrow> ptrs m a n ! j = load64 m (of_nat (a + 8 * j))"
  by (simp add: ptrs_def del: of_nat_add)

lemma ptrs_cong:
  assumes "a + 8 * n \<le> 2 ^ 64" and "region m a (8 * n) = region m' a (8 * n)"
  shows "ptrs m a n = ptrs m' a n"
proof (rule nth_equalityI)
  fix j assume "j < length (ptrs m a n)"
  then have j: "j < n" by simp
  then have u: "unat (of_nat (a + 8 * j) :: addr) = a + 8 * j" using assms(1) by (intro unat_of_nat_small) simp
  have "region m (a + 8 * j) 8 = region m' (a + 8 * j) 8" using region_slice [OF assms(2), of "8 * j" 8] j by simp
  then have "load64 m (of_nat (a + 8 * j)) = load64 m' (of_nat (a + 8 * j))" using u by (intro load64_cong) (simp only:)
  then show "ptrs m a n ! j = ptrs m' a n ! j" using j by (simp only: nth_ptrs)
qed simp

lemma ptrs_store:
  assumes "a + 8 * n \<le> 2 ^ 64" and "j < n"
  shows "ptrs (store64 (of_nat (a + 8 * j)) v m) a n = (ptrs m a n)[j := v]"
proof (rule nth_equalityI)
  fix i assume "i < length (ptrs (store64 (of_nat (a + 8 * j)) v m) a n)"
  then have i: "i < n" by simp
  have u: "unat (of_nat (a + 8 * k) :: addr) = a + 8 * k" if "k < n" for k
    using that assms(1) by (intro unat_of_nat_small) simp
  show "ptrs (store64 (of_nat (a + 8 * j)) v m) a n ! i = (ptrs m a n)[j := v] ! i"
  proof (cases "i = j")
    case True
    then show ?thesis using i by (simp add: nth_ptrs load64_store64 del: of_nat_add)
  next
    case False
    then have "a + 8 * i + 8 \<le> a + 8 * j \<or> a + 8 * j + 8 \<le> a + 8 * i" by linarith
    then have "region (store64 (of_nat (a + 8 * j)) v m) (a + 8 * i) 8 = region m (a + 8 * i) 8"
      using u [OF i] u [OF assms(2)] i assms by (intro region_store64_other) (simp_all del: of_nat_add)
    then have "load64 (store64 (of_nat (a + 8 * j)) v m) (of_nat (a + 8 * i)) = load64 m (of_nat (a + 8 * i))"
      using u [OF i] by (intro load64_cong) (simp only:)
    then show ?thesis using False i by (simp add: nth_ptrs del: of_nat_add)
  qed
qed simp


section \<open>Reversing the pointers\<close>

lemma sint_nat: "n < 2 ^ 63 \<Longrightarrow> sint (of_nat n :: longlong) = int n"
  by (simp add: signed_of_nat signed_take_bit_int_eq_self)

lemma half_nat: "n < 2 ^ 63 \<Longrightarrow> sint (half (of_nat n)) = int (n div 2)"
proof -
  assume n: "n < 2 ^ 63"
  have u: "unat (drop_bit 1 (of_nat n :: longlong)) = n div 2" using n by (simp add: unat_drop_bit unat_of_nat_small)
  then have "drop_bit 1 (of_nat n :: longlong) = of_nat (n div 2)"
    using n by (simp add: word_unat_eq_iff unat_of_nat_small)
  then show ?thesis using n sint_nat [of n] sint_nat [of "n div 2"] by (simp add: half_def)
qed

definition swap :: "nat \<Rightarrow> nat \<Rightarrow> 'a list \<Rightarrow> 'a list" where
  "swap i j xs = xs[j := xs ! i, i := xs ! j]"

text \<open>The list with its middle part, from an index to the same distance from its end, reversed.\<close>

definition rev_mid :: "nat \<Rightarrow> 'a list \<Rightarrow> 'a list" where
  "rev_mid i xs = map (\<lambda>j. if i \<le> j \<and> j < length xs - i then xs ! (length xs - 1 - j) else xs ! j) [0..<length xs]"

lemma rev_mid_0: "rev_mid 0 xs = rev xs"
  by (rule nth_equalityI) (simp_all add: rev_mid_def rev_nth)

lemma rev_mid_end: "length xs \<le> 2 * i \<Longrightarrow> rev_mid i xs = xs"
  by (rule nth_equalityI) (auto simp: rev_mid_def)

lemma rev_mid_step:
  assumes "2 * i < length xs"
  shows "rev_mid (Suc i) (swap i (length xs - 1 - i) xs) = rev_mid i xs"
proof (rule nth_equalityI)
  fix j assume "j < length (rev_mid (Suc i) (swap i (length xs - 1 - i) xs))"
  then have j: "j < length xs" by (simp add: rev_mid_def swap_def)
  let ?n = "length xs"
  consider "j = i" | "j = ?n - 1 - i" "j \<noteq> i" | "j \<noteq> i" "j \<noteq> ?n - 1 - i" by blast
  then show "rev_mid (Suc i) (swap i (?n - 1 - i) xs) ! j = rev_mid i xs ! j"
  proof cases
    case 1
    moreover have "i < length xs - i" using assms by linarith
    ultimately show ?thesis using j by (simp add: rev_mid_def swap_def)
  next
    case 2
    then have "\<not> j < ?n - Suc i" "i \<le> j" "j < ?n - i" "?n - 1 - j = i" using assms by linarith+
    then show ?thesis using 2 j assms by (simp add: rev_mid_def swap_def)
  next
    case 3
    have "(i \<le> j \<and> j < ?n - i) = (Suc i \<le> j \<and> j < ?n - Suc i)" using 3 by linarith
    moreover have "?n - 1 - j \<noteq> i" "?n - 1 - j \<noteq> ?n - 1 - i" if "Suc i \<le> j" using 3 that j assms by linarith+
    ultimately show ?thesis using 3 j by (auto simp: rev_mid_def swap_def)
  qed
qed (simp add: rev_mid_def swap_def)

lemma region_store_in:
  assumes "a + 8 * n \<le> 2 ^ 64" and "l < n" and "b + k \<le> 2 ^ 64" and "b + k \<le> a \<or> a + 8 * n \<le> b"
  shows "region (store64 (of_nat (a + 8 * l)) v m) b k = region m b k"
proof -
  have u: "unat (of_nat (a + 8 * l) :: addr) = a + 8 * l" using assms(1,2) by (intro unat_of_nat_small) simp
  show ?thesis using assms u by (intro region_store64_other) linarith+
qed

lemma ptrs_swap:
  fixes m :: memory
  assumes "a + 8 * n \<le> 2 ^ 64" and "i < n" and "j < n"
  defines "m' \<equiv> store64 (of_nat (a + 8 * i)) (load64 m (of_nat (a + 8 * j)))
    (store64 (of_nat (a + 8 * j)) (load64 m (of_nat (a + 8 * i))) m)"
  shows "ptrs m' a n = swap i j (ptrs m a n)"
    and "b + k \<le> 2 ^ 64 \<Longrightarrow> b + k \<le> a \<or> a + 8 * n \<le> b \<Longrightarrow> region m' b k = region m b k"
proof -
  show "ptrs m' a n = swap i j (ptrs m a n)"
    using assms(1-3) by (simp only: m'_def ptrs_store swap_def nth_ptrs)
  assume "b + k \<le> 2 ^ 64" "b + k \<le> a \<or> a + 8 * n \<le> b"
  then show "region m' b k = region m b k" using assms(1-3) by (simp only: m'_def region_store_in)
qed

lemma swap_loop_reverses:
  assumes a: "a + 8 * n \<le> 2 ^ 64" and "0 < n" and "i \<le> n"
  shows "\<exists>m'. swap_loop (of_nat a) (of_nat (n - 1)) (of_nat i) m = Some m' \<and> ptrs m' a n = rev_mid i (ptrs m a n) \<and>
    (\<forall>b k. b + k \<le> 2 ^ 64 \<longrightarrow> b + k \<le> a \<or> a + 8 * n \<le> b \<longrightarrow> region m' b k = region m b k)"
  using assms(3)
proof (induction "n - i" arbitrary: i m rule: less_induct)
  case less
  have n: "n < 2 ^ 63" using a by simp
  have c: "sint (of_nat i :: longlong) \<le> sint (half (of_nat (n - 1))) \<longleftrightarrow> i \<le> (n - 1) div 2"
    using sint_nat [of i] half_nat [of "n - 1"] less.prems n by simp
  show ?case
  proof (cases "i \<le> (n - 1) div 2")
    case False
    then have "n \<le> 2 * i" by linarith
    then show ?thesis using False c by (subst swap_loop.simps) (simp add: rev_mid_end)
  next
    case True
    then have i: "2 * i < n" "i < n" "n - 1 - i < n" using assms(2) by linarith+
    let ?m = "store64 (of_nat (a + 8 * i)) (load64 m (of_nat (a + 8 * (n - 1 - i))))
      (store64 (of_nat (a + 8 * (n - 1 - i))) (load64 m (of_nat (a + 8 * i))) m)"
    have addr: "of_nat a + 8 * of_nat i = (of_nat (a + 8 * i) :: addr)"
      "of_nat a + 8 * (of_nat (n - 1) - of_nat i) = (of_nat (a + 8 * (n - 1 - i)) :: addr)"
      using i by (simp_all add: of_nat_diff)
    note s = ptrs_swap [OF a i(2,3), where m = m]
    have run: "swap_loop (of_nat a) (of_nat (n - 1)) (of_nat i) m = swap_loop (of_nat a) (of_nat (n - 1)) (of_nat (Suc i)) ?m"
      using True c by (subst swap_loop.simps) (simp only: Let_def addr if_True of_nat_Suc add.commute [of 1])
    have "n - Suc i < n - i" "Suc i \<le> n" using i by simp_all
    from less.hyps [OF this, of ?m] obtain m' where m':
      "swap_loop (of_nat a) (of_nat (n - 1)) (of_nat (Suc i)) ?m = Some m'" "ptrs m' a n = rev_mid (Suc i) (ptrs ?m a n)"
      "\<forall>b k. b + k \<le> 2 ^ 64 \<longrightarrow> b + k \<le> a \<or> a + 8 * n \<le> b \<longrightarrow> region m' b k = region ?m b k"
      by blast
    have "rev_mid (Suc i) (ptrs ?m a n) = rev_mid i (ptrs m a n)"
      unfolding s(1) using rev_mid_step [of i "ptrs m a n"] i(1) by (simp only: length_ptrs)
    then have "ptrs m' a n = rev_mid i (ptrs m a n)" by (simp only: m'(2))
    moreover have "region m' b k = region m b k" if "b + k \<le> 2 ^ 64" "b + k \<le> a \<or> a + 8 * n \<le> b" for b k
      using m'(3) that s(2) [OF that] by (simp only: simp_thms)
    ultimately show ?thesis unfolding run using m'(1) by blast
  qed
qed


section \<open>Buffers and the records in them\<close>

text \<open>
  An allocated buffer, as the header describes it: room for \<open>N\<close> records of \<open>R\<close> bytes and their pointers, the first pointer
  at the end of the block.
\<close>

definition alloc_ok :: "nat \<Rightarrow> nat \<Rightarrow> nat \<Rightarrow> filesort_buffer \<Rightarrow> bool" where
  "alloc_ok N R S b \<longleftrightarrow> unat (m_num_records b) = N \<and> unat (m_record_length b) = R \<and> unat (m_size_in_bytes b) = S \<and>
     m_rawmem b \<noteq> 0 \<and> unat (m_rawmem b) + S \<le> 2 ^ 64 \<and> S < 2 ^ 63 \<and> N * (R + 8) \<le> S \<and>
     m_record_pointers b = m_rawmem b + m_size_in_bytes b - 8"

abbreviation total :: "uchar list list \<Rightarrow> nat" where "total rs \<equiv> sum_list (map length rs)"

text \<open>Where the pointers of \<open>n\<close> records are.\<close>

abbreviation keys_at :: "filesort_buffer \<Rightarrow> nat \<Rightarrow> nat \<Rightarrow> nat" where
  "keys_at b S n \<equiv> unat (m_rawmem b) + S - 8 * n"

definition holds :: "memory \<Rightarrow> nat \<Rightarrow> nat \<Rightarrow> nat \<Rightarrow> uchar list \<Rightarrow> bool" where
  "holds m lo hi p r \<longleftrightarrow> lo \<le> p \<and> p + length r \<le> hi \<and> region m p (length r) = r"

definition fsb_rep :: "nat \<Rightarrow> nat \<Rightarrow> nat \<Rightarrow> filesort_buffer \<times> memory \<Rightarrow> uchar list list \<Rightarrow> bool" where
  "fsb_rep N R S = (\<lambda>(b, m) rs. alloc_ok N R S b \<and> unat (m_idx b) = length rs \<and>
     unat (m_next_rec_ptr b) = unat (m_rawmem b) + total rs \<and> total rs + 8 * length rs \<le> S \<and> (\<forall>r\<in>set rs. length r \<le> R) \<and>
     (\<exists>ps. ptrs m (keys_at b S (length rs)) (length rs) = rev (map of_nat ps) \<and>
       list_all2 (holds m (unat (m_rawmem b)) (unat (m_rawmem b) + total rs)) ps rs))"

definition spec_full :: "nat \<Rightarrow> nat \<Rightarrow> nat \<Rightarrow> uchar list list \<Rightarrow> bool" where
  "spec_full N R S rs \<longleftrightarrow> N \<le> length rs \<and> S < total rs + 8 * length rs + (R + 8)"

lemma total_le: "\<forall>r\<in>set rs. length r \<le> R \<Longrightarrow> total rs \<le> length rs * R"
  by (induction rs) fastforce+

lemma fsb_repD:
  assumes "fsb_rep N R S (b, m) rs"
  shows "alloc_ok N R S b" "unat (m_idx b) = length rs" "unat (m_next_rec_ptr b) = unat (m_rawmem b) + total rs"
    "total rs + 8 * length rs \<le> S" "\<forall>r\<in>set rs. length r \<le> R" "length rs < 2 ^ 60" "m_idx b = of_nat (length rs)"
    "m_next_rec_ptr b = of_nat (unat (m_rawmem b) + total rs)" "sint (m_idx b) = int (length rs)"
proof -
  show r: "alloc_ok N R S b" "unat (m_idx b) = length rs" "unat (m_next_rec_ptr b) = unat (m_rawmem b) + total rs"
    "total rs + 8 * length rs \<le> S" "\<forall>r\<in>set rs. length r \<le> R"
    using assms by (simp_all add: fsb_rep_def)
  show n: "length rs < 2 ^ 60" using r(1,4) by (simp add: alloc_ok_def)
  show i: "m_idx b = of_nat (length rs)" using r(2) n by (simp add: word_unat_eq_iff unat_of_nat_small)
  show "m_next_rec_ptr b = of_nat (unat (m_rawmem b) + total rs)"
    using r(3) unat_less_2p [of "m_next_rec_ptr b"] by (simp add: word_unat_eq_iff unat_of_nat_small del: of_nat_add)
  show "sint (m_idx b) = int (length rs)" using sint_nat [of "length rs"] n i by simp
qed

lemma spaceleft_rep:
  assumes "fsb_rep N R S (b, m) rs"
  shows "unat (spaceleft b) = S - (total rs + 8 * length rs)"
proof -
  note d = fsb_repD [OF assms]
  have s: "unat (m_size_in_bytes b) = S" "m_rawmem b = of_nat (unat (m_rawmem b))" "S < 2 ^ 63"
    using d(1) by (simp_all add: alloc_ok_def)
  have z: "m_size_in_bytes b = of_nat S" using s by (simp add: word_unat_eq_iff unat_of_nat_small)
  have "spaceleft b = of_nat S - of_nat (total rs + 8 * length rs)"
    unfolding spaceleft_def Let_def d(7,8) z by (simp add: algebra_simps)
  also have "\<dots> = of_nat (S - (total rs + 8 * length rs))" using d(4) by (simp only: of_nat_diff)
  finally show ?thesis using s(3) by (simp add: unat_of_nat_small)
qed

lemma isfull_rep:
  assumes "fsb_rep N R S (b, m) rs"
  shows "isfull b \<longleftrightarrow> spec_full N R S rs"
proof -
  note d = fsb_repD [OF assms]
  have n: "uint (m_num_records b) = int N" "unat (m_record_length b) = R" using d(1) by (auto simp: alloc_ok_def)
  have "R < 2 ^ 32" using n(2) unat_less_2p [of "m_record_length b"] by simp
  then have "unat (ucast (m_record_length b) + 8 :: csize) = R + 8"
    using n(2) by (simp add: unat_word_ariths unat_ucast_small)
  then show ?thesis using d(4) spaceleft_rep [OF assms] n(1) d(9)
    by (simp add: isfull_def spec_full_def word_less_nat_alt not_less) linarith
qed

text \<open>While the buffer is not full there is room for one more record and its pointer.\<close>

lemma not_full_room:
  assumes "fsb_rep N R S (b, m) rs" and "\<not> isfull b"
  shows "total rs + 8 * length rs + (R + 8) \<le> S"
proof (cases "N \<le> length rs")
  case True
  then show ?thesis using assms isfull_rep [OF assms(1)] by (simp add: spec_full_def)
next
  case False
  note d = fsb_repD [OF assms(1)]
  have "total rs + 8 * length rs \<le> length rs * (R + 8)" using total_le [OF d(5)] by (simp add: algebra_simps)
  moreover have "Suc (length rs) * (R + 8) \<le> N * (R + 8)" using False by (intro mult_le_mono1) simp
  moreover have "N * (R + 8) \<le> S" using d(1) by (simp add: alloc_ok_def)
  ultimately show ?thesis by simp
qed


lemma slot_addr:
  assumes "alloc_ok N R S b" and "8 * Suc n \<le> S"
  shows "m_record_pointers b + 8 * (- of_nat n) = of_nat (keys_at b S (Suc n))"
proof -
  have "unat (m_size_in_bytes b) = S" "S < 2 ^ 63" using assms(1) by (simp_all add: alloc_ok_def)
  then have z: "m_size_in_bytes b = of_nat S" by (simp add: word_unat_eq_iff unat_of_nat_small)
  have "8 * Suc n \<le> unat (m_rawmem b) + S" using assms(2) by simp
  then have "(of_nat (keys_at b S (Suc n)) :: addr) = of_nat (unat (m_rawmem b) + S) - of_nat (8 * Suc n)"
    by (simp only: of_nat_diff)
  moreover have "m_record_pointers b = m_rawmem b + of_nat S - 8" using assms(1) z by (simp add: alloc_ok_def)
  ultimately show ?thesis by (simp only:) (simp add: algebra_simps)
qed

lemma fsb_repI:
  assumes "alloc_ok N R S b" and "unat (m_idx b) = length rs" and "unat (m_next_rec_ptr b) = unat (m_rawmem b) + total rs"
    and "total rs + 8 * length rs \<le> S" and "\<forall>r\<in>set rs. length r \<le> R"
    and "ptrs m (keys_at b S (length rs)) (length rs) = rev (map of_nat ps)"
    and "list_all2 (holds m (unat (m_rawmem b)) (unat (m_rawmem b) + total rs)) ps rs"
  shows "fsb_rep N R S (b, m) rs"
  unfolding fsb_rep_def prod.case using assms by blast

text \<open>
  The protocol of the client: ask whether the buffer is full, take the place of the next record, write the record there and
  give back what it did not use.
\<close>

definition add_record :: "uchar list \<Rightarrow> filesort_buffer \<times> memory \<Rightarrow> bool \<times> filesort_buffer \<times> memory" where
  "add_record r = (\<lambda>(b, m).
     if isfull b then (True, b, m)
     else let (start, b, m) = get_next_record_pointer (b, m);
              m = put_bytes start r m
          in (False, adjust_next_record_pointer (of_nat (length r)) b, m))"

lemma holds_same: "holds m lo hi p r \<Longrightarrow> region m' p (length r) = region m p (length r) \<Longrightarrow> holds m' lo hi p r"
  by (simp add: holds_def)

lemma add_record_rep:
  assumes rep: "fsb_rep N R S (b, m) rs" and r: "length r \<le> R"
  shows "\<exists>s'. add_record r (b, m) = (spec_full N R S rs, s') \<and>
    fsb_rep N R S s' (if spec_full N R S rs then rs else rs @ [r])"
proof (cases "isfull b")
  case True
  then show ?thesis using rep isfull_rep [OF rep] by (simp add: add_record_def)
next
  case False
  note d = fsb_repD [OF rep] and room = not_full_room [OF rep False]
  let ?n = "length rs" and ?A = "unat (m_rawmem b)"
  let ?K = "keys_at b S (Suc ?n)"
  have al: "?A + S \<le> 2 ^ 64" "S < 2 ^ 63" "unat (m_record_length b) = R" using d(1) by (simp_all add: alloc_ok_def)
  obtain ps where ps: "ptrs m (keys_at b S ?n) ?n = rev (map of_nat ps)"
    "list_all2 (holds m ?A (?A + total rs)) ps rs" using rep by (auto simp: fsb_rep_def)
  let ?p = "?A + total rs"
  let ?m1 = "store64 (of_nat ?K) (of_nat ?p) m"
  let ?m2 = "put_bytes (of_nat ?p) r ?m1"
  let ?b = "b\<lparr>m_idx := m_idx b + 1, m_next_rec_ptr := m_next_rec_ptr b + ucast (m_record_length b)\<rparr>"
  let ?b2 = "adjust_next_record_pointer (of_nat (length r)) ?b"
  have run: "add_record r (b, m) = (False, ?b2, ?m2)"
    using False slot_addr [OF d(1), of ?n] room d(7,8)
    by (simp add: add_record_def get_next_record_pointer_def Let_def del: of_nat_add)
  have K: "?K + 8 = keys_at b S ?n" "?p + length r \<le> ?K" "?K + 8 * Suc ?n \<le> 2 ^ 64" "?p < 2 ^ 64" "?K < 2 ^ 64"
    using room r al by simp_all
  have u: "unat (of_nat ?K :: addr) = ?K" "unat (of_nat ?p :: addr) = ?p"
    using K by (intro unat_of_nat_small; simp)+
  have next_ptr: "m_next_rec_ptr ?b2 = of_nat (?A + total (rs @ [r]))"
  proof -
    have "length r < 2 ^ 32" "R < 2 ^ 32" using r al(3) unat_less_2p [of "m_record_length b"] by simp_all
    then have "unat (m_record_length b - of_nat (length r)) = R - length r"
      using r al(3) by (subst unat_sub_if_size) (simp add: unat_of_nat_small word_le_nat_alt)
    then have "(ucast (m_record_length b - of_nat (length r)) :: addr) = of_nat (R - length r)"
      "(ucast (m_record_length b) :: addr) = of_nat R"
      using al(3) \<open>R < 2 ^ 32\<close> by (simp_all add: word_unat_eq_iff unat_ucast_small unat_of_nat_small)
    then show ?thesis using r d(8) by (simp add: adjust_next_record_pointer_def of_nat_diff algebra_simps)
  qed
  have "?A + total (rs @ [r]) < 2 ^ 64" using K by simp
  then have nx: "unat (m_next_rec_ptr ?b2) = ?A + total (rs @ [r])" unfolding next_ptr by (intro unat_of_nat_small) simp
  have old: "region ?m2 a k = region m a k" if "a + k \<le> ?p \<or> ?K + 8 \<le> a" "a + k \<le> 2 ^ 64" for a k
  proof -
    have "region ?m2 a k = region ?m1 a k" using that K u by (intro region_put_other) auto
    also have "\<dots> = region m a k" using that K u by (intro region_store64_other) auto
    finally show ?thesis .
  qed
  have "ptrs ?m2 ?K (Suc ?n) = ptrs ?m1 ?K (Suc ?n)"
    using K u by (intro ptrs_cong region_put_other) auto
  also have "\<dots> = of_nat ?p # ptrs m (keys_at b S ?n) ?n"
  proof -
    have "ptrs ?m1 (?K + 8) ?n = ptrs m (?K + 8) ?n" using K u by (intro ptrs_cong region_store64_other) auto
    then show ?thesis using K(1) by (simp only: ptrs_Suc load64_store64)
  qed
  finally have pt: "ptrs ?m2 ?K (Suc ?n) = rev (map of_nat (ps @ [?p]))" using ps(1) by simp
  have la: "list_all2 (holds ?m2 ?A (?A + total (rs @ [r]))) (ps @ [?p]) (rs @ [r])"
  proof (rule list_all2_appendI)
    have keep: "holds ?m2 ?A (?A + total (rs @ [r])) p q" if "holds m ?A ?p p q" for p q
    proof -
      have "p + length q \<le> ?p" using that by (simp add: holds_def)
      then have "region ?m2 p (length q) = region m p (length q)" using K by (intro old) auto
      then show ?thesis using that by (simp add: holds_def)
    qed
    show "list_all2 (holds ?m2 ?A (?A + total (rs @ [r]))) ps rs"
      using ps(2) keep by (rule list_all2_mono)
    have "region ?m2 ?p (length r) = r" using region_put_same [of r "of_nat ?p" ?m1] K u by simp
    then show "list_all2 (holds ?m2 ?A (?A + total (rs @ [r]))) [?p] [r]" by (simp add: holds_def)
  qed
  have ix: "unat (m_idx ?b2) = Suc ?n"
  proof -
    have "m_idx ?b2 = of_nat (Suc ?n)" using d(7) by (simp add: adjust_next_record_pointer_def)
    then show ?thesis using d(6) by (simp add: unat_of_nat_small del: of_nat_Suc)
  qed
  have al2: "alloc_ok N R S ?b2" "m_rawmem ?b2 = m_rawmem b"
    using d(1) by (simp_all add: alloc_ok_def adjust_next_record_pointer_def)
  have "fsb_rep N R S (?b2, ?m2) (rs @ [r])"
  proof (rule fsb_repI [where ps = "ps @ [?p]"])
    show "unat (m_next_rec_ptr ?b2) = unat (m_rawmem ?b2) + total (rs @ [r])" using nx al2(2) by simp
    show "ptrs ?m2 (keys_at ?b2 S (length (rs @ [r]))) (length (rs @ [r])) = rev (map of_nat (ps @ [?p]))"
      using pt by (simp only: al2(2) length_append length_Cons list.size add_0_right add_Suc_right)
    show "list_all2 (holds ?m2 (unat (m_rawmem ?b2)) (unat (m_rawmem ?b2) + total (rs @ [r]))) (ps @ [?p]) (rs @ [r])"
      using la by (simp only: al2(2))
  qed (use al2 ix room r d(5) in auto)
  then show ?thesis using run False isfull_rep [OF rep] by simp
qed


lemma start_rep: "fsb_rep N R S (b, m) rs \<Longrightarrow> fsb_rep N R S (init_next_record_pointer b, m) []"
  by (simp add: fsb_rep_def init_next_record_pointer_def alloc_ok_def)

lemma sort_keys_addr:
  assumes "alloc_ok N R S b" and "m_idx b = of_nat n" and "0 < n" and "8 * n \<le> S"
  shows "get_sort_keys b = of_nat (keys_at b S n)"
proof -
  obtain k where k: "n = Suc k" using assms(3) by (cases n) auto
  have "S < 2 ^ 63" using assms(1) by (simp add: alloc_ok_def)
  then have "unat (m_idx b) = n" using assms by (simp add: unat_of_nat_small)
  then have "m_idx b \<noteq> 0" using assms(3) by auto
  then have "get_sort_keys b = m_record_pointers b + 8 * (- of_nat k)"
    using assms(2) k by (simp add: get_sort_keys_def algebra_simps)
  then show ?thesis using slot_addr [OF assms(1), of k] assms(4) k by simp
qed

lemma reverse_ptrs:
  assumes "alloc_ok N R S b" and "m_idx b = of_nat n" and "8 * n \<le> S"
  shows "\<exists>m'. reverse_record_pointers (b, m) = Some (b, m') \<and>
    ptrs m' (keys_at b S n) n = rev (ptrs m (keys_at b S n) n) \<and>
    (\<forall>a k. a + k \<le> keys_at b S n \<longrightarrow> region m' a k = region m a k)"
proof (cases "n < 2")
  case True
  have "n < 2 ^ 63" using True by simp
  then have i: "sint (m_idx b) < 2" using True assms(2) sint_nat [of n] by simp
  have "rev (ptrs m (keys_at b S n) n) = ptrs m (keys_at b S n) n"
  proof -
    have "n = 0 \<or> n = Suc 0" using True by linarith
    then show ?thesis by (auto simp: ptrs_Suc)
  qed
  then show ?thesis using i by (simp add: reverse_record_pointers_def)
next
  case False
  let ?K = "keys_at b S n"
  have S: "unat (m_rawmem b) + S \<le> 2 ^ 64" "S < 2 ^ 63" using assms(1) by (simp_all add: alloc_ok_def)
  then have K: "?K + 8 * n \<le> 2 ^ 64" using assms(3) by simp
  have "n < 2 ^ 63" using assms(3) S by simp
  then have i: "\<not> sint (m_idx b) < 2" using False assms(2) sint_nat [of n] by simp
  have idx: "m_idx b - 1 = of_nat (n - 1)" using assms(2) False by (simp add: of_nat_diff)
  have "0 < n" using False by simp
  from swap_loop_reverses [OF K this, of 0 m] obtain m' where m': "swap_loop (of_nat ?K) (of_nat (n - 1)) 0 m = Some m'"
    "ptrs m' ?K n = rev_mid 0 (ptrs m ?K n)"
    "\<forall>b k. b + k \<le> 2 ^ 64 \<longrightarrow> b + k \<le> ?K \<or> ?K + 8 * n \<le> b \<longrightarrow> region m' b k = region m b k" by auto
  have "reverse_record_pointers (b, m) = Some (b, m')"
    using i m'(1) sort_keys_addr [OF assms(1,2) \<open>0 < n\<close> assms(3)] idx by (simp add: reverse_record_pointers_def del: of_nat_diff)
  moreover have "region m' a k = region m a k" if "a + k \<le> ?K" for a k
    using m'(3) that K by (meson le_add1 le_trans order_trans)
  ultimately show ?thesis using m'(2) by (simp add: rev_mid_0)
qed

lemma rep_ptrs:
  assumes "fsb_rep N R S (b, m) rs"
  shows "\<exists>ps. ptrs m (keys_at b S (length rs)) (length rs) = rev (map of_nat ps) \<and>
    list_all2 (holds m (unat (m_rawmem b)) (unat (m_rawmem b) + total rs)) ps rs"
  using assms by (auto simp: fsb_rep_def)

lemma reverse_rep:
  assumes rep: "fsb_rep N R S (b, m) rs"
  shows "\<exists>s'. reverse_record_pointers (b, m) = Some s' \<and> fsb_rep N R S s' (rev rs)"
proof -
  note d = fsb_repD [OF rep]
  let ?A = "unat (m_rawmem b)"
  obtain ps where ps: "ptrs m (keys_at b S (length rs)) (length rs) = rev (map of_nat ps)"
    "list_all2 (holds m ?A (?A + total rs)) ps rs" using rep_ptrs [OF rep] by blast
  have room: "8 * length rs \<le> S" "?A + total rs \<le> keys_at b S (length rs)" using d(4) by simp_all
  obtain m' where m': "reverse_record_pointers (b, m) = Some (b, m')"
    "ptrs m' (keys_at b S (length rs)) (length rs) = rev (ptrs m (keys_at b S (length rs)) (length rs))"
    "\<forall>a k. a + k \<le> keys_at b S (length rs) \<longrightarrow> region m' a k = region m a k"
    using reverse_ptrs [OF d(1,7) room(1), of m] by blast
  have "list_all2 (holds m' ?A (?A + total rs)) ps rs"
    using ps(2)
  proof (rule list_all2_mono)
    fix p r assume h: "holds m ?A (?A + total rs) p r"
    then have "p + length r \<le> keys_at b S (length rs)" using room(2) by (simp add: holds_def)
    then show "holds m' ?A (?A + total rs) p r" using h m'(3) by (simp add: holds_def)
  qed
  then have "list_all2 (holds m' ?A (?A + total (rev rs))) (rev ps) (rev rs)" by (simp add: rev_map [symmetric])
  moreover have "ptrs m' (keys_at b S (length (rev rs))) (length (rev rs)) = rev (map of_nat (rev ps))"
    using m'(2) ps(1) by (simp add: rev_map)
  moreover have "total (rev rs) = total rs" by (simp add: rev_map [symmetric])
  ultimately have "fsb_rep N R S (b, m') (rev rs)"
    using d by (intro fsb_repI [where ps = "rev ps"]) (simp_all only: length_rev set_rev)
  then show ?thesis using m'(1) by blast
qed

text \<open>Reading the first bytes of a record through the array of sort keys.\<close>

definition read_key :: "nat \<Rightarrow> nat \<Rightarrow> filesort_buffer \<times> memory \<Rightarrow> uchar list" where
  "read_key ix k = (\<lambda>(b, m). region m (unat (load64 m (get_sort_keys b + 8 * of_nat ix))) k)"

lemma read_key_rep:
  assumes rep: "fsb_rep N R S (b, m) rs" and ix: "ix < length rs" and k: "k \<le> length (rev rs ! ix)"
  shows "read_key ix k (b, m) = take k (rev rs ! ix)"
proof -
  note d = fsb_repD [OF rep]
  let ?A = "unat (m_rawmem b)" and ?K = "keys_at b S (length rs)"
  obtain ps where ps: "ptrs m ?K (length rs) = rev (map of_nat ps)" "list_all2 (holds m ?A (?A + total rs)) ps rs"
    using rep_ptrs [OF rep] by blast
  have l: "length ps = length rs" using ps(2) by (rule list_all2_lengthD)
  let ?p = "rev ps ! ix"
  have la: "list_all2 (holds m ?A (?A + total rs)) (rev ps) (rev rs)" using ps(2) by simp
  have h: "holds m ?A (?A + total rs) ?p (rev rs ! ix)" using list_all2_nthD [OF la, of ix] ix l by (simp only: length_rev)
  have "0 < length rs" "8 * length rs \<le> S" using ix d(4) by linarith+
  then have addr: "get_sort_keys b = of_nat ?K" by (rule sort_keys_addr [OF d(1,7)])
  have "load64 m (of_nat (?K + 8 * ix)) = ptrs m ?K (length rs) ! ix" using ix by (simp only: nth_ptrs)
  also have "\<dots> = of_nat ?p" using ps(1) ix l by (simp add: rev_map)
  finally have "load64 m (get_sort_keys b + 8 * of_nat ix) = of_nat ?p" by (simp add: addr)
  moreover have "?p < 2 ^ 64"
  proof -
    have "?p \<le> ?A + total rs" using h by (simp add: holds_def)
    also have "\<dots> = unat (m_next_rec_ptr b)" using d(3) by simp
    finally show ?thesis using unat_less_2p [of "m_next_rec_ptr b"] by simp
  qed
  ultimately have "read_key ix k (b, m) = region m ?p k" by (simp add: read_key_def unat_of_nat_small)
  also have "\<dots> = take k (region m ?p (length (rev rs ! ix)))" using k by (simp add: region_def take_map)
  also have "\<dots> = take k (rev rs ! ix)" using h by (simp add: holds_def)
  finally show ?thesis .
qed

lemma used_rep:
  assumes rep: "fsb_rep N R S (b, m) rs"
  shows "space_used_for_data b = of_nat (total rs)"
proof -
  note d = fsb_repD [OF rep]
  have "m_rawmem b \<noteq> 0" using d(1) by (simp add: alloc_ok_def)
  then have "m_next_rec_ptr b \<noteq> 0" using d(3) by (auto simp: unat_eq_0 [symmetric] simp del: unat_eq_0)
  then show ?thesis using d(8) by (simp add: space_used_for_data_def)
qed


section \<open>Programs\<close>

datatype fsb_cmd =
    Add "uchar list"
  | Start
  | Reverse
  | Read_key nat nat
  | Is_full
  | Space_used
  | Space_left

datatype fsb_out = Done | Bool bool | Bytes "uchar list" | Size csize

fun fsb_step :: "fsb_cmd \<Rightarrow> filesort_buffer \<times> memory \<Rightarrow> (fsb_out \<times> filesort_buffer \<times> memory) option" where
  "fsb_step (Add r) s = (let (full, s) = add_record r s in Some (Bool full, s))"
| "fsb_step Start s = Some (Done, init_next_record_pointer (fst s), snd s)"
| "fsb_step Reverse s = map_option (\<lambda>s. (Done, s)) (reverse_record_pointers s)"
| "fsb_step (Read_key ix k) s = Some (Bytes (read_key ix k s), s)"
| "fsb_step Is_full s = Some (Bool (isfull (fst s)), s)"
| "fsb_step Space_used s = Some (Size (space_used_for_data (fst s)), s)"
| "fsb_step Space_left s = Some (Size (spaceleft (fst s)), s)"

text \<open>The specification: a list of records of at most \<open>R\<close> bytes, read back from the last.\<close>

fun fsb_spec_step :: "nat \<Rightarrow> nat \<Rightarrow> nat \<Rightarrow> fsb_cmd \<Rightarrow> uchar list list \<Rightarrow> (fsb_out \<times> uchar list list) option" where
  "fsb_spec_step N R S (Add r) rs =
     (if length r \<le> R then Some (Bool (spec_full N R S rs), if spec_full N R S rs then rs else rs @ [r]) else None)"
| "fsb_spec_step N R S Start rs = Some (Done, [])"
| "fsb_spec_step N R S Reverse rs = Some (Done, rev rs)"
| "fsb_spec_step N R S (Read_key ix k) rs =
     (if ix < length rs \<and> k \<le> length (rev rs ! ix) then Some (Bytes (take k (rev rs ! ix)), rs) else None)"
| "fsb_spec_step N R S Is_full rs = Some (Bool (spec_full N R S rs), rs)"
| "fsb_spec_step N R S Space_used rs = Some (Size (of_nat (total rs)), rs)"
| "fsb_spec_step N R S Space_left rs = Some (Size (of_nat (S - (total rs + 8 * length rs))), rs)"

lemma fsb_refines:
  assumes rep: "fsb_rep N R S s rs" and sp: "fsb_spec_step N R S c rs = Some (x, rs')"
  shows "\<exists>s'. fsb_step c s = Some (x, s') \<and> fsb_rep N R S s' rs'"
proof -
  obtain b m where s: "s = (b, m)" by fastforce
  note rep' = rep [unfolded s]
  show ?thesis
  proof (cases c)
    case (Add r)
    then have "length r \<le> R" "x = Bool (spec_full N R S rs)" "rs' = (if spec_full N R S rs then rs else rs @ [r])"
      using sp by (auto split: if_splits)
    then show ?thesis using add_record_rep [OF rep' \<open>length r \<le> R\<close>] Add s by auto
  next
    case Start
    then show ?thesis using start_rep [OF rep'] sp s by auto
  next
    case Reverse
    then show ?thesis using reverse_rep [OF rep'] sp s by auto
  next
    case (Read_key ix k)
    then show ?thesis using read_key_rep [OF rep', of ix k] rep sp s by (auto split: if_splits)
  next
    case Is_full
    then show ?thesis using isfull_rep [OF rep'] rep sp s by auto
  next
    case Space_used
    then show ?thesis using used_rep [OF rep'] rep sp s by auto
  next
    case Space_left
    have "spaceleft b = of_nat (S - (total rs + 8 * length rs))"
      using spaceleft_rep [OF rep'] unat_less_2p [of "spaceleft b"] by (simp add: word_unat_eq_iff unat_of_nat_small)
    then show ?thesis using Space_left rep sp s by auto
  qed
qed

interpretation filesort: simulation "\<lambda>k. fsb_rep N R S" fsb_step "fsb_spec_step N R S"
  by unfold_locales (rule fsb_refines)

text \<open>Filling the array with pointers to places of full records.\<close>

definition places :: "nat \<Rightarrow> nat \<Rightarrow> nat \<Rightarrow> addr list" where
  "places A R n = map (\<lambda>i. of_nat (A + i * R)) [0..<n]"

lemma init_loop_fills:
  assumes "alloc_ok N R S b" and "m_idx b = of_nat n" and "n \<le> N" and "m_next_rec_ptr b = of_nat (unat (m_rawmem b) + n * R)"
    and "ptrs m (keys_at b S n) n = rev (places (unat (m_rawmem b)) R n)"
  shows "\<exists>b' m'. init_loop (b, m) = Some (b', m') \<and> alloc_ok N R S b' \<and> m_idx b' = of_nat N \<and> m_rawmem b' = m_rawmem b \<and>
    ptrs m' (keys_at b S N) N = rev (places (unat (m_rawmem b)) R N)"
  using assms
proof (induction "N - n" arbitrary: n b m)
  case 0
  have al: "N * (R + 8) \<le> S" "S < 2 ^ 63" "uint (m_num_records b) = int N" using "0.prems"(1) by (auto simp: alloc_ok_def)
  have "N * 8 \<le> N * (R + 8)" by (intro mult_le_mono2) simp
  then have "N < 2 ^ 63" using al by linarith
  then have "\<not> sint (m_idx b) < uint (m_num_records b)" using 0 al(3) sint_nat [of N] by simp
  moreover have "n = N" using 0 by simp
  ultimately show ?case using "0.prems" by (subst init_loop.simps) simp
next
  case (Suc d)
  let ?A = "unat (m_rawmem b)"
  have al: "N * (R + 8) \<le> S" "S < 2 ^ 63" "?A + S \<le> 2 ^ 64" "uint (m_num_records b) = int N" "unat (m_record_length b) = R"
    using Suc.prems(1) by (auto simp: alloc_ok_def)
  have n: "n < N" using Suc.hyps(2) by simp
  then have "Suc n * (R + 8) \<le> N * (R + 8)" by (intro mult_le_mono1) simp
  moreover have "Suc n * 8 \<le> Suc n * (R + 8)" by (intro mult_le_mono2) simp
  ultimately have room: "Suc n * (R + 8) \<le> S" "8 * Suc n \<le> S" using al(1) by linarith+
  have lt: "sint (m_idx b) < uint (m_num_records b)" using n room al Suc.prems(2) sint_nat [of n] by simp
  let ?m = "store64 (of_nat (keys_at b S (Suc n))) (of_nat (?A + n * R)) m"
  let ?b = "b\<lparr>m_idx := m_idx b + 1, m_next_rec_ptr := m_next_rec_ptr b + ucast (m_record_length b)\<rparr>"
  have run: "snd (get_next_record_pointer (b, m)) = (?b, ?m)"
    using slot_addr [OF Suc.prems(1) room(2)] Suc.prems(2,4)
    by (simp add: get_next_record_pointer_def Let_def del: of_nat_add)
  have "R < 2 ^ 32" using al(5) unat_less_2p [of "m_record_length b"] by simp
  then have "(ucast (m_record_length b) :: addr) = of_nat R"
    using al(5) by (simp add: word_unat_eq_iff unat_ucast_small unat_of_nat_small)
  then have nx: "m_next_rec_ptr ?b = of_nat (?A + Suc n * R)" using Suc.prems(4) by (simp add: algebra_simps)
  have K: "keys_at b S (Suc n) + 8 = keys_at b S n" using room(2) by simp
  have u: "unat (of_nat (keys_at b S (Suc n)) :: addr) = keys_at b S (Suc n)"
    using al(3) room(2) by (intro unat_of_nat_small) simp
  have "ptrs ?m (keys_at b S n) n = ptrs m (keys_at b S n) n"
    using K u al(3) room(2) by (intro ptrs_cong region_store64_other) auto
  then have "ptrs ?m (keys_at b S (Suc n)) (Suc n) = of_nat (?A + n * R) # rev (places ?A R n)"
    using Suc.prems(5) by (simp only: ptrs_Suc load64_store64 K)
  also have "\<dots> = rev (places ?A R (Suc n))" by (simp add: places_def)
  finally have pt: "ptrs ?m (keys_at b S (Suc n)) (Suc n) = rev (places ?A R (Suc n))" .
  have "d = N - Suc n" "alloc_ok N R S ?b" "m_idx ?b = of_nat (Suc n)" "Suc n \<le> N" "m_rawmem ?b = m_rawmem b"
    using Suc.hyps(2) Suc.prems(1,2) n by (simp_all add: alloc_ok_def)
  from Suc.hyps(1) [OF this(1-4), of ?m] this(5) nx pt have
    "\<exists>b' m'. init_loop (?b, ?m) = Some (b', m') \<and> alloc_ok N R S b' \<and> m_idx b' = of_nat N \<and> m_rawmem b' = m_rawmem b \<and>
      ptrs m' (keys_at b S N) N = rev (places ?A R N)" by simp
  moreover have "init_loop (b, m) = init_loop (?b, ?m)" using lt run by (subst init_loop.simps) simp
  ultimately show ?case by simp
qed


section \<open>Properties\<close>

text \<open>
  C3. Records and pointers that grow towards each other in one block never overwrite each other: whatever the lengths of the
  records, a program that adds records while the buffer is not full, starts again, reverses and reads returns what it
  returns on a list of records; the buffer is never full before it has the records it was allocated for.
\<close>

theorem filesort_program:
  assumes "fsb_rep N R S s rs" and "run_cmds (fsb_spec_step N R S) cmds rs = Some (xs, rs')"
  shows "\<exists>s'. run_cmds fsb_step cmds s = Some (xs, s') \<and> fsb_rep N R S s' rs'"
  using filesort.run_refines [OF assms] .

text \<open>A block of 32 bytes for two records of four bytes: three shorter ones fit.\<close>

definition example_buffer :: filesort_buffer where
  "example_buffer = \<lparr>m_next_rec_ptr = 1000, m_rawmem = 1000, m_record_pointers = 1024, m_sort_keys = 0, m_num_records = 2,
     m_record_length = 4, m_sort_length = 4, m_size_in_bytes = 32, m_idx = 0\<rparr>"

lemma example_alloc: "alloc_ok 2 4 32 example_buffer"
  by (simp add: alloc_ok_def example_buffer_def)

lemma fsb_example_rep: "fsb_rep 2 4 32 (example_buffer, \<lambda>_. 0) []"
  using example_alloc by (simp add: fsb_rep_def) (simp add: example_buffer_def)

theorem filesort_program_witness:
  "\<exists>s'. run_cmds fsb_step [Add [1], Add [2, 3], Is_full, Add [4], Is_full, Add [5], Read_key 0 1, Read_key 1 2, Reverse, Read_key 0 1]
     (example_buffer, \<lambda>_. 0) =
     Some ([Bool False, Bool False, Bool False, Bool False, Bool True, Bool True, Bytes [4], Bytes [2, 3], Done, Bytes [1]], s')"
proof -
  have "\<exists>rs. run_cmds (fsb_spec_step 2 4 32)
     [Add [1], Add [2, 3], Is_full, Add [4], Is_full, Add [5], Read_key 0 1, Read_key 1 2, Reverse, Read_key 0 1] [] =
     Some ([Bool False, Bool False, Bool False, Bool False, Bool True, Bool True, Bytes [4], Bytes [2, 3], Done, Bytes [1]], rs)"
    by (simp add: spec_full_def)
  then show ?thesis using filesort_program [OF fsb_example_rep] by blast
qed

text \<open>
  \<open>init_record_pointers\<close> ends and leaves, in the array of sort keys, the addresses of the places for all the records of
  the buffer in the order of memory.
\<close>

theorem init_pointers_in_order:
  assumes "alloc_ok N R S b" and "0 < N"
  shows "\<exists>b' m'. init_record_pointers (b, m) = Some (b', m') \<and> unat (m_idx b') = N \<and>
    (\<forall>i<N. load64 m' (get_sort_keys b' + 8 * of_nat i) = m_rawmem b + of_nat i * ucast (m_record_length b))"
proof -
  let ?b = "init_next_record_pointer b" and ?A = "unat (m_rawmem b)"
  have al: "alloc_ok N R S ?b" "m_rawmem ?b = m_rawmem b" using assms(1) by (simp_all add: alloc_ok_def init_next_record_pointer_def)
  have start: "m_idx ?b = of_nat 0" "m_next_rec_ptr ?b = of_nat (unat (m_rawmem ?b) + 0 * R)"
    "ptrs m (keys_at ?b S 0) 0 = rev (places (unat (m_rawmem ?b)) R 0)"
    by (simp_all add: init_next_record_pointer_def places_def)
  from init_loop_fills [OF al(1) start(1) le0 start(2,3)] al(2) obtain b' m1 where l: "init_loop (?b, m) = Some (b', m1)"
    "alloc_ok N R S b'" "m_idx b' = of_nat N" "m_rawmem b' = m_rawmem b" "ptrs m1 (keys_at b' S N) N = rev (places ?A R N)" by auto
  have sz: "N * (R + 8) \<le> S" "S < 2 ^ 63" "unat (m_record_length b) = R" using assms(1) by (simp_all add: alloc_ok_def)
  have "N * 8 \<le> N * (R + 8)" by (intro mult_le_mono2) simp
  then have room: "8 * N \<le> S" using sz(1) by linarith
  obtain m' where m': "reverse_record_pointers (b', m1) = Some (b', m')"
    "ptrs m' (keys_at b' S N) N = rev (ptrs m1 (keys_at b' S N) N)"
    using reverse_ptrs [OF l(2,3) room, of m1] by blast
  have run: "init_record_pointers (b, m) = Some (b', m')" using l(1) m'(1) by (simp add: init_record_pointers_def)
  have R: "(ucast (m_record_length b) :: addr) = of_nat R"
    using sz(3) unat_less_2p [of "m_record_length b"] by (simp add: word_unat_eq_iff unat_ucast_small unat_of_nat_small)
  have "load64 m' (get_sort_keys b' + 8 * of_nat i) = m_rawmem b + of_nat i * ucast (m_record_length b)" if i: "i < N" for i
  proof -
    have "load64 m' (of_nat (keys_at b' S N + 8 * i)) = places ?A R N ! i"
      using i m'(2) l(5) by (metis nth_ptrs rev_rev_ident)
    also have "\<dots> = m_rawmem b + of_nat i * of_nat R" using i by (simp add: places_def)
    finally show ?thesis using sort_keys_addr [OF l(2,3) assms(2) room] R by simp
  qed
  moreover have "unat (m_idx b') = N" using l(3) room sz(2) by (simp add: unat_of_nat_small)
  ultimately show ?thesis using run by blast
qed

theorem init_pointers_in_order_witness:
  "\<exists>b' m'. init_record_pointers (example_buffer, \<lambda>_. 0) = Some (b', m') \<and> unat (m_idx b') = 2 \<and>
     load64 m' (get_sort_keys b') = 1000 \<and> load64 m' (get_sort_keys b' + 8) = 1004"
proof -
  obtain b' m' where w: "init_record_pointers (example_buffer, \<lambda>_. 0) = Some (b', m')" "unat (m_idx b') = 2"
    "\<forall>i<2. load64 m' (get_sort_keys b' + 8 * of_nat i) = m_rawmem example_buffer + of_nat i * ucast (m_record_length example_buffer)"
    using init_pointers_in_order [OF example_alloc, of "\<lambda>_. 0"] by auto
  show ?thesis using w(1,2) w(3) [rule_format, of 0] w(3) [rule_format, of 1] by (simp add: example_buffer_def)
qed

end
