(* ===== verification/Filesort_Records.thy ===== *)
theory Filesort_Records
  imports Filesort_Buffer
begin

text \<open>
  The records of filesort and the chunks they are merged from (\<open>sql_sort.h\<close>): descriptors of merge chunks, the lengths stored
  in packed records, and what \<open>Sort_param\<close> reads from a record. Assertions, which the shipped build leaves out, have no
  effect; the allocator is a parameter.
\<close>

section \<open>Merge chunks\<close>

record merge_chunk =
  m_current_key :: addr
  m_file_position :: ulonglong
  m_buffer_start :: addr
  m_buffer_end :: addr
  m_rowcount :: ulonglong
  m_mem_count :: ulonglong
  m_max_keys :: ulonglong

definition mk_merge_chunk :: merge_chunk where
  "mk_merge_chunk = \<lparr>m_current_key = 0, m_file_position = 0, m_buffer_start = 0, m_buffer_end = 0, m_rowcount = 0,
     m_mem_count = 0, m_max_keys = 0\<rparr>"

definition set_file_position :: "ulonglong \<Rightarrow> merge_chunk \<Rightarrow> merge_chunk" where
  "set_file_position val c = c\<lparr>m_file_position := val\<rparr>"

definition advance_file_position :: "ulonglong \<Rightarrow> merge_chunk \<Rightarrow> merge_chunk" where
  "advance_file_position val c = c\<lparr>m_file_position := m_file_position c + val\<rparr>"

definition set_buffer :: "addr \<Rightarrow> addr \<Rightarrow> merge_chunk \<Rightarrow> merge_chunk" where
  "set_buffer start end_ptr c = c\<lparr>m_buffer_start := start, m_buffer_end := end_ptr\<rparr>"

definition set_buffer_start :: "addr \<Rightarrow> merge_chunk \<Rightarrow> merge_chunk" where
  "set_buffer_start start c = c\<lparr>m_buffer_start := start\<rparr>"

definition set_buffer_end :: "addr \<Rightarrow> merge_chunk \<Rightarrow> merge_chunk" where
  "set_buffer_end end_ptr c = c\<lparr>m_buffer_end := end_ptr\<rparr>"

definition init_current_key :: "merge_chunk \<Rightarrow> merge_chunk" where
  "init_current_key c = c\<lparr>m_current_key := m_buffer_start c\<rparr>"

definition advance_current_key :: "uint \<Rightarrow> merge_chunk \<Rightarrow> merge_chunk" where
  "advance_current_key val c = c\<lparr>m_current_key := m_current_key c + ucast val\<rparr>"

definition decrement_rowcount :: "ulonglong \<Rightarrow> merge_chunk \<Rightarrow> merge_chunk" where
  "decrement_rowcount val c = c\<lparr>m_rowcount := m_rowcount c - val\<rparr>"

definition set_rowcount :: "ulonglong \<Rightarrow> merge_chunk \<Rightarrow> merge_chunk" where
  "set_rowcount val c = c\<lparr>m_rowcount := val\<rparr>"

definition set_mem_count :: "ulonglong \<Rightarrow> merge_chunk \<Rightarrow> merge_chunk" where
  "set_mem_count val c = c\<lparr>m_mem_count := val\<rparr>"

definition decrement_mem_count :: "merge_chunk \<Rightarrow> ulonglong \<times> merge_chunk" where
  "decrement_mem_count c = (let n = m_mem_count c - 1 in (n, c\<lparr>m_mem_count := n\<rparr>))"

definition set_max_keys :: "ulonglong \<Rightarrow> merge_chunk \<Rightarrow> merge_chunk" where
  "set_max_keys val c = c\<lparr>m_max_keys := val\<rparr>"

definition buffer_size :: "merge_chunk \<Rightarrow> csize" where "buffer_size c = m_buffer_end c - m_buffer_start c"

definition merge_freed_buff :: "merge_chunk \<Rightarrow> merge_chunk \<Rightarrow> bool \<times> merge_chunk" where
  "merge_freed_buff c mc =
     (if m_buffer_end mc = m_buffer_start c
      then (True, mc\<lparr>m_buffer_end := m_buffer_end c, m_max_keys := m_max_keys mc + m_max_keys c\<rparr>)
      else if m_buffer_start mc = m_buffer_end c
      then (True, mc\<lparr>m_buffer_start := m_buffer_start c, m_max_keys := m_max_keys mc + m_max_keys c\<rparr>)
      else (False, mc))"

text \<open>Chunks that lie one after another from an address to another.\<close>

fun tiles :: "nat \<Rightarrow> merge_chunk list \<Rightarrow> nat \<Rightarrow> bool" where
  "tiles lo [] hi = (lo = hi)"
| "tiles lo (c # cs) hi =
     (unat (m_buffer_start c) = lo \<and> lo < unat (m_buffer_end c) \<and> tiles (unat (m_buffer_end c)) cs hi)"

lemma tiles_append: "tiles lo (cs @ ds) hi \<longleftrightarrow> (\<exists>mid. tiles lo cs mid \<and> tiles mid ds hi)"
  by (induction cs arbitrary: lo) auto

lemma tiles_bounds:
  "tiles lo cs hi \<Longrightarrow> c \<in> set cs \<Longrightarrow> lo \<le> unat (m_buffer_start c) \<and> unat (m_buffer_start c) < unat (m_buffer_end c) \<and>
    unat (m_buffer_end c) \<le> hi"
proof (induction cs arbitrary: lo)
  case (Cons a cs)
  have le: "tiles l ds h \<Longrightarrow> l \<le> h" for l ds h by (induction ds arbitrary: l) fastforce+
  show ?case
  proof (cases "c = a")
    case True
    then show ?thesis using Cons.prems(1) le by auto
  next
    case False
    then show ?thesis using Cons.IH [of "unat (m_buffer_end a)"] Cons.prems by auto
  qed
qed simp

lemma tiles_le: "tiles lo cs hi \<Longrightarrow> lo \<le> hi"
  by (induction cs arbitrary: lo) fastforce+

text \<open>Only the last chunk ends where the memory ends, and only the first starts where it starts.\<close>

lemma tiles_last_end:
  assumes "tiles lo cs hi" and "c \<in> set cs"
  shows "unat (m_buffer_end c) = hi \<longleftrightarrow> c = last cs"
proof -
  obtain xs z where cs: "cs = xs @ [z]" using assms(2) by (cases cs rule: rev_cases) auto
  then obtain mid where m: "tiles lo xs mid" "unat (m_buffer_start z) = mid" "mid < unat (m_buffer_end z)" "unat (m_buffer_end z) = hi"
    using assms(1) by (auto simp: tiles_append)
  show ?thesis using m tiles_bounds [OF m(1), of c] assms(2) cs by auto
qed

lemma tiles_first_start: "tiles lo cs hi \<Longrightarrow> c \<in> set cs \<Longrightarrow> unat (m_buffer_start c) = lo \<longleftrightarrow> c = hd cs"
  using tiles_bounds [of "unat (m_buffer_end (hd cs))" "tl cs" hi c] by (cases cs) auto

text \<open>Merging with a neighbour.\<close>

lemma merge_left:
  assumes "tiles lo (us @ [a]) mid" and "unat (m_buffer_start c) = mid" and "mid < unat (m_buffer_end c)"
  shows "\<exists>e. merge_freed_buff c a = (True, e) \<and> tiles lo (us @ [e]) (unat (m_buffer_end c)) \<and> m_max_keys e = m_max_keys a + m_max_keys c"
  using assms by (auto simp: merge_freed_buff_def tiles_append word_unat_eq_iff intro: exI)

lemma merge_right:
  assumes "tiles (unat (m_buffer_end c)) (b # vs) hi" and "unat (m_buffer_start c) < unat (m_buffer_end c)"
  shows "\<exists>e. merge_freed_buff c b = (True, e) \<and> tiles (unat (m_buffer_start c)) (e # vs) hi \<and> m_max_keys e = m_max_keys b + m_max_keys c"
  using assms by (auto simp: merge_freed_buff_def word_unat_eq_iff)

section \<open>Lengths in records\<close>

definition addon_length_size :: uint where "addon_length_size = 2"

definition read_addon_length :: "memory \<Rightarrow> addr \<Rightarrow> uint" where
  "read_addon_length m p = addon_length_size + ucast (uint2korr m p)"

definition store_addon_length :: "addr \<Rightarrow> uint \<Rightarrow> memory \<Rightarrow> memory" where
  "store_addon_length p sz m = int2store p (sz - addon_length_size) m"

definition sortkey_length_size :: uint where "sortkey_length_size = 4"

definition read_sortkey_length :: "memory \<Rightarrow> addr \<Rightarrow> uint" where
  "read_sortkey_length m p = sortkey_length_size + uint4korr m p"

definition store_sortkey_length :: "addr \<Rightarrow> uint \<Rightarrow> memory \<Rightarrow> memory" where
  "store_sortkey_length p sz m = int4store p (sz - sortkey_length_size) m"

record addon_fields =
  m_field_descriptors :: bounds_checked_array
  m_addon_buf :: addr
  m_addon_buf_length :: uint
  m_using_packed_addons :: bool

definition mk_addon_fields :: "bounds_checked_array \<Rightarrow> addon_fields" where
  "mk_addon_fields arr =
     \<lparr>m_field_descriptors = arr, m_addon_buf = 0, m_addon_buf_length = 0, m_using_packed_addons = False\<rparr>"

definition addon_begin :: "addon_fields \<Rightarrow> addr" where "addon_begin a = bca_begin (m_field_descriptors a)"

definition addon_end :: "csize \<Rightarrow> addon_fields \<Rightarrow> addr" where "addon_end k a = bca_end k (m_field_descriptors a)"

definition allocate_addon_buf :: "(uint \<Rightarrow> addr) \<Rightarrow> uint \<Rightarrow> addon_fields \<Rightarrow> addr \<times> addon_fields" where
  "allocate_addon_buf my_malloc sz a =
     (let a = a\<lparr>m_addon_buf := my_malloc sz\<rparr>;
          a = (if m_addon_buf a \<noteq> 0 then a\<lparr>m_addon_buf_length := sz\<rparr> else a)
      in (m_addon_buf a, a))"

definition free_addon_buff :: "(addr \<Rightarrow> 'h \<Rightarrow> 'h) \<Rightarrow> addon_fields \<times> 'h \<Rightarrow> addon_fields \<times> 'h" where
  "free_addon_buff my_free = (\<lambda>(a, h). (a\<lparr>m_addon_buf := 0, m_addon_buf_length := 0\<rparr>, my_free (m_addon_buf a) h))"

definition set_using_packed_addons :: "bool \<Rightarrow> addon_fields \<Rightarrow> addon_fields" where
  "set_using_packed_addons val a = a\<lparr>m_using_packed_addons := val\<rparr>"

definition can_pack_addon_fields :: "uint \<Rightarrow> bool" where "can_pack_addon_fields record_length \<longleftrightarrow> record_length \<le> 0xFFFF"

record sort_keys = bounds_checked_array +
  m_using_packed_sortkeys :: bool
  size_of_packable_fields :: uint
  sort_length_with_original_values :: uint
  sort_length_with_memcmp_values :: uint
  parameters_computed :: bool

definition mk_sort_keys :: "addr \<Rightarrow> csize \<Rightarrow> sort_keys" where
  "mk_sort_keys arr count = bounds_checked_array.extend (mk_bca arr count)
     (sort_keys.fields False 0 0 0 False)"

definition set_using_packed_sortkeys :: "bool \<Rightarrow> sort_keys \<Rightarrow> sort_keys" where
  "set_using_packed_sortkeys val k = k\<lparr>m_using_packed_sortkeys := val\<rparr>"

definition set_size_of_packable_fields :: "uint \<Rightarrow> sort_keys \<Rightarrow> sort_keys" where
  "set_size_of_packable_fields len k = k\<lparr>size_of_packable_fields := len\<rparr>"

definition set_sort_length_with_original_values :: "uint \<Rightarrow> sort_keys \<Rightarrow> sort_keys" where
  "set_sort_length_with_original_values len k = k\<lparr>sort_length_with_original_values := len\<rparr>"

definition set_sort_length_with_memcmp_values :: "uint \<Rightarrow> sort_keys \<Rightarrow> sort_keys" where
  "set_sort_length_with_memcmp_values len k = k\<lparr>sort_length_with_memcmp_values := len\<rparr>"

definition increment_size_of_packable_fields :: "uint \<Rightarrow> sort_keys \<Rightarrow> sort_keys" where
  "increment_size_of_packable_fields len k = k\<lparr>size_of_packable_fields := size_of_packable_fields k + len\<rparr>"

definition increment_original_sort_length :: "uint \<Rightarrow> sort_keys \<Rightarrow> sort_keys" where
  "increment_original_sort_length len k = k\<lparr>sort_length_with_original_values := sort_length_with_original_values k + len\<rparr>"

definition set_parameters_computed :: "bool \<Rightarrow> sort_keys \<Rightarrow> sort_keys" where
  "set_parameters_computed val k = k\<lparr>parameters_computed := val\<rparr>"

section \<open>Parameters of a sort\<close>

text \<open>The part of \<open>Sort_param\<close> that its functions read; a null pointer is \<open>None\<close>.\<close>

record sort_param =
  rec_length :: uint
  sort_length :: uint
  ref_length :: uint
  addon_length :: uint
  res_length :: uint
  param_addon_fields :: "addon_fields option"
  param_sort_keys :: "sort_keys option"
  p_using_packed_addons :: bool
  p_using_packed_sortkeys :: bool
  m_packed_format :: bool

definition using_packed_addons :: "sort_param \<Rightarrow> bool" where "using_packed_addons P \<longleftrightarrow> p_using_packed_addons P"

definition using_packed_sortkeys :: "sort_param \<Rightarrow> bool" where "using_packed_sortkeys P \<longleftrightarrow> p_using_packed_sortkeys P"

definition using_addon_fields :: "sort_param \<Rightarrow> bool" where "using_addon_fields P \<longleftrightarrow> param_addon_fields P \<noteq> None"

definition get_result_length :: "sort_param \<Rightarrow> memory \<Rightarrow> addr \<Rightarrow> uint32" where
  "get_result_length P m plen = (if \<not> p_using_packed_addons P then res_length P else read_addon_length m plen)"

definition get_addon_length :: "sort_param \<Rightarrow> memory \<Rightarrow> addr \<Rightarrow> uint32" where
  "get_addon_length P m plen = (if using_packed_addons P then read_addon_length m plen else addon_length P)"

definition get_sort_length :: "sort_param \<Rightarrow> memory \<Rightarrow> addr \<Rightarrow> uint32" where
  "get_sort_length P m plen =
     (if using_packed_sortkeys P
      then read_sortkey_length m plen + (if using_addon_fields P then 0 else res_length P)
      else sort_length P)"

definition get_record_length :: "sort_param \<Rightarrow> memory \<Rightarrow> addr \<Rightarrow> uint" where
  "get_record_length P m plen =
     (if m_packed_format P
      then let sort_len = get_sort_length P m plen in sort_len + get_addon_length P m (plen + ucast sort_len)
      else rec_length P)"

definition get_rec_and_res_len :: "sort_param \<Rightarrow> memory \<Rightarrow> addr \<Rightarrow> uint \<times> uint" where
  "get_rec_and_res_len P m record_start =
     (if m_packed_format P
      then let sort_len = get_sort_length P m record_start;
               addon_len = get_addon_length P m (record_start + ucast sort_len)
           in (sort_len + addon_len, if using_addon_fields P then addon_len else res_length P)
      else (rec_length P, res_length P))"

text \<open>The comparison functions are outside the repository: \<open>packed\<close> and \<open>by_length\<close>.\<close>

definition get_compare_function :: "'f \<Rightarrow> (uint \<Rightarrow> 'f) \<Rightarrow> sort_param \<Rightarrow> 'f" where
  "get_compare_function packed by_length P = (if using_packed_sortkeys P then packed else by_length (sort_length P))"

definition get_compare_argument :: "addr \<Rightarrow> addr \<Rightarrow> sort_param \<Rightarrow> addr" where
  "get_compare_argument this_ptr sort_len P = (if using_packed_sortkeys P then this_ptr else sort_len)"


section \<open>The format of a record\<close>

text \<open>
  What is documented of the format: a sort key, with its length before it when keys are packed, then the reference of the
  row or the addon fields, with their length before them when they are packed.
\<close>

definition rest_bytes :: "sort_param \<Rightarrow> uchar list \<Rightarrow> uchar list" where
  "rest_bytes P a = (if using_packed_addons P then le_bytes 2 (length a) @ a else a)"

definition key_part :: "sort_param \<Rightarrow> uchar list \<Rightarrow> uchar list" where
  "key_part P k = (if using_packed_sortkeys P then le_bytes 4 (length k) @ k else k)"

definition stored :: "sort_param \<Rightarrow> uchar list \<Rightarrow> uchar list \<Rightarrow> uchar list" where
  "stored P k a = key_part P k @ rest_bytes P a"

definition write_record :: "sort_param \<Rightarrow> uchar list \<Rightarrow> uchar list \<Rightarrow> addr \<Rightarrow> memory \<Rightarrow> memory" where
  "write_record P k a p m =
     (let (p, m) =
            (if using_packed_sortkeys P
             then (p + 4 + of_nat (length k), put_bytes (p + 4) k (store_sortkey_length p (4 + of_nat (length k)) m))
             else (p + of_nat (length k), put_bytes p k m))
      in if using_packed_addons P then put_bytes (p + 2) a (store_addon_length p (2 + of_nat (length a)) m)
         else put_bytes p a m)"

text \<open>The lengths of a sort agree with the record.\<close>

definition record_fits :: "sort_param \<Rightarrow> uchar list \<Rightarrow> uchar list \<Rightarrow> bool" where
  "record_fits P k a \<longleftrightarrow>
     m_packed_format P = (using_packed_sortkeys P \<or> using_packed_addons P) \<and>
     (if using_packed_addons P then using_addon_fields P \<and> can_pack_addon_fields (of_nat (length (rest_bytes P a)))
      else length a = unat (res_length P)) \<and>
     (if using_addon_fields P then addon_length P = res_length P else addon_length P = 0) \<and>
     (using_packed_sortkeys P \<or> unat (sort_length P) = length k + (if using_addon_fields P then 0 else length a)) \<and>
     (m_packed_format P \<or> unat (rec_length P) = length k + length a) \<and>
     length (stored P k a) < 2 ^ 32"

lemma fitsD:
  assumes "record_fits P k a"
  shows "using_packed_addons P \<Longrightarrow> using_addon_fields P \<and> length a < 2 ^ 16"
    and "\<not> using_packed_addons P \<Longrightarrow> length a = unat (res_length P)"
    and "length k < 2 ^ 32" and "length (stored P k a) < 2 ^ 32"
proof -
  show l: "length (stored P k a) < 2 ^ 32" using assms by (simp add: record_fits_def)
  then show "length k < 2 ^ 32" by (auto simp: stored_def key_part_def split: if_splits)
  have "length (rest_bytes P a) < 2 ^ 32" using l by (simp add: stored_def)
  then have u: "unat (of_nat (length (rest_bytes P a)) :: uint) = length (rest_bytes P a)"
    by (intro unat_of_nat_small) simp
  assume pk: "using_packed_addons P"
  then have "(of_nat (length (rest_bytes P a)) :: uint) \<le> 0xFFFF"
    using assms by (simp add: record_fits_def can_pack_addon_fields_def)
  then have "length (rest_bytes P a) \<le> 0xFFFF" using u by (simp add: word_le_nat_alt)
  then show "using_addon_fields P \<and> length a < 2 ^ 16"
    using pk assms by (simp add: record_fits_def rest_bytes_def)
qed (use assms in \<open>simp add: record_fits_def\<close>)

lemma write_record_stored:
  assumes "record_fits P k a"
  shows "write_record P k a p m = put_bytes p (stored P k a) m"
proof -
  have k: "store_sortkey_length p (4 + of_nat (length k)) m = put_bytes p (le_bytes 4 (length k)) m" for p m
    using fitsD(3) [OF assms] by (simp add: store_sortkey_length_def sortkey_length_size_def stores_put unat_of_nat_small)
  have a: "store_addon_length p (2 + of_nat (length a)) m = put_bytes p (le_bytes 2 (length a)) m" if "using_packed_addons P" for p m
    using fitsD(1) [OF assms that] by (simp add: store_addon_length_def addon_length_size_def stores_put unat_of_nat_small)
  show ?thesis
    by (simp add: write_record_def stored_def key_part_def rest_bytes_def put_bytes_append k a add.assoc)
qed

lemma read_sortkey: "bytes m p 4 = le_bytes 4 n \<Longrightarrow> n < 2 ^ 32 \<Longrightarrow> read_sortkey_length m p = of_nat (4 + n)"
proof -
  assume b: "bytes m p 4 = le_bytes 4 n" and n: "n < 2 ^ 32"
  have "unat (uint4korr m p) = n" using n by (simp add: uint4korr_def unat_load32 b le_nat_bytes)
  then have "uint4korr m p = of_nat n" using n by (simp add: word_unat_eq_iff unat_of_nat_small)
  then show ?thesis by (simp add: read_sortkey_length_def sortkey_length_size_def)
qed

lemma read_addon: "bytes m p 2 = le_bytes 2 n \<Longrightarrow> n < 2 ^ 16 \<Longrightarrow> read_addon_length m p = of_nat (2 + n)"
proof -
  assume b: "bytes m p 2 = le_bytes 2 n" and n: "n < 2 ^ 16"
  have u: "unat (uint2korr m p) = n" using n by (simp add: uint2korr_def unat_load16 b le_nat_bytes)
  have "unat (ucast (uint2korr m p) :: uint) = n"
    using u unat_less_2p [of "uint2korr m p"] by (simp add: unat_ucast_small)
  then have "(ucast (uint2korr m p) :: uint) = of_nat n" using n by (simp add: word_unat_eq_iff unat_of_nat_small)
  then show ?thesis by (simp add: read_addon_length_def addon_length_size_def)
qed

lemma bytes_parts:
  assumes "bytes m p (length (xs @ ys)) = xs @ ys"
  shows "bytes m p (length xs) = xs" and "bytes m (p + of_nat (length xs)) (length ys) = ys"
  using assms by (simp_all add: bytes_append)


section \<open>Reading the lengths back\<close>

lemma of_nat_unat_word: "unat w = n \<Longrightarrow> w = of_nat n" for w :: "'a::len word"
  by (metis of_nat_unat unsigned_of_nat word_unat_eq_iff take_bit_nat_eq_self unsigned_less)

lemma sort_part:
  assumes f: "record_fits P k a" and b: "bytes m p (length (stored P k a)) = stored P k a"
  shows "get_sort_length P m p = of_nat (length (key_part P k) + (if using_addon_fields P then 0 else length a))"
proof (cases "using_packed_sortkeys P")
  case True
  have "bytes m p (length (key_part P k)) = key_part P k" using bytes_parts(1) [OF b [unfolded stored_def]] .
  then have "bytes m p 4 = le_bytes 4 (length k)"
    using True bytes_parts(1) [of m p "le_bytes 4 (length k)" k] by (simp add: key_part_def)
  then have r: "read_sortkey_length m p = of_nat (4 + length k)" using fitsD(3) [OF f] by (intro read_sortkey)
  have "res_length P = of_nat (length a)" if "\<not> using_addon_fields P"
  proof -
    have "\<not> using_packed_addons P" using fitsD(1) [OF f] that by blast
    then show ?thesis using fitsD(2) [OF f] by (intro of_nat_unat_word) simp
  qed
  then show ?thesis using True r by (simp add: get_sort_length_def key_part_def)
next
  case False
  then have "unat (sort_length P) = length (key_part P k) + (if using_addon_fields P then 0 else length a)"
    using f by (simp add: record_fits_def key_part_def)
  from of_nat_unat_word [OF this] show ?thesis using False by (simp only: get_sort_length_def if_False)
qed

lemma addon_part:
  assumes f: "record_fits P k a" and b: "bytes m p (length (stored P k a)) = stored P k a"
  shows "get_addon_length P m (p + of_nat (length (key_part P k))) = (if using_addon_fields P then of_nat (length (rest_bytes P a)) else 0)"
    and "get_result_length P m (p + of_nat (length (key_part P k))) = of_nat (length (rest_bytes P a))"
proof -
  let ?q = "p + of_nat (length (key_part P k))"
  have r: "bytes m ?q (length (rest_bytes P a)) = rest_bytes P a" using bytes_parts(2) [OF b [unfolded stored_def]] .
  have pk: "read_addon_length m ?q = of_nat (length (rest_bytes P a))" if "using_packed_addons P"
  proof -
    have "bytes m ?q 2 = le_bytes 2 (length a)"
      using r that bytes_parts(1) [of m ?q "le_bytes 2 (length a)" a] by (simp add: rest_bytes_def)
    then have "read_addon_length m ?q = of_nat (2 + length a)" using fitsD(1) [OF f that] by (intro read_addon) simp_all
    then show ?thesis using that by (simp add: rest_bytes_def)
  qed
  have np: "res_length P = of_nat (length (rest_bytes P a))" if "\<not> using_packed_addons P"
    using fitsD(2) [OF f that] that by (intro of_nat_unat_word) (simp add: rest_bytes_def)
  show "get_result_length P m ?q = of_nat (length (rest_bytes P a))"
    using pk np by (simp add: get_result_length_def using_packed_addons_def)
  show "get_addon_length P m ?q = (if using_addon_fields P then of_nat (length (rest_bytes P a)) else 0)"
    using pk np f fitsD(1) [OF f] by (auto simp: get_addon_length_def record_fits_def)
qed

lemma record_lengths:
  assumes f: "record_fits P k a" and b: "bytes m p (length (stored P k a)) = stored P k a"
  shows "get_record_length P m p = of_nat (length (stored P k a)) \<and>
    get_rec_and_res_len P m p = (of_nat (length (stored P k a)), of_nat (length (rest_bytes P a))) \<and>
    get_result_length P m (p + of_nat (length (key_part P k))) = of_nat (length (rest_bytes P a))"
proof -
  have res: "res_length P = of_nat (length (rest_bytes P a))" if "\<not> using_packed_addons P"
    using fitsD(2) [OF f that] that by (intro of_nat_unat_word) (simp add: rest_bytes_def)
  have len: "length (stored P k a) = length (key_part P k) + length (rest_bytes P a)" by (simp add: stored_def)
  show ?thesis
  proof (cases "m_packed_format P")
    case False
    then have "using_packed_addons P = False" "using_packed_sortkeys P = False" "unat (rec_length P) = length k + length a"
      using f by (auto simp: record_fits_def)
    then have "rec_length P = of_nat (length (stored P k a))"
      by (intro of_nat_unat_word) (simp add: stored_def key_part_def rest_bytes_def)
    then show ?thesis using False res addon_part(2) [OF f b] \<open>using_packed_addons P = False\<close>
      by (simp add: get_record_length_def get_rec_and_res_len_def)
  next
    case True
    note s = sort_part [OF f b] and ad = addon_part [OF f b]
    show ?thesis
    proof (cases "using_addon_fields P")
      case addons: True
      have "length (key_part P k) < 2 ^ 32" using fitsD(4) [OF f] len by simp
      then have "unat (of_nat (length (key_part P k)) :: uint) = length (key_part P k)" by (intro unat_of_nat_small) simp
      then have u: "(ucast (of_nat (length (key_part P k)) :: uint) :: addr) = of_nat (length (key_part P k))"
        using \<open>length (key_part P k) < 2 ^ 32\<close> by (simp add: word_unat_eq_iff unat_ucast_small unat_of_nat_small)
      have "get_addon_length P m (p + ucast (get_sort_length P m p)) = of_nat (length (rest_bytes P a))"
        using s ad(1) addons u by simp
      then show ?thesis using True s ad(2) addons len by (simp add: get_record_length_def get_rec_and_res_len_def Let_def)
    next
      case no: False
      have np: "\<not> using_packed_addons P" using no fitsD(1) [OF f] by blast
      have "get_addon_length P m q = 0" for q using np no f by (simp add: get_addon_length_def record_fits_def)
      moreover have "length (rest_bytes P a) = length a" using np by (simp add: rest_bytes_def)
      ultimately show ?thesis using True s ad(2) no len res [OF np]
        by (simp add: get_record_length_def get_rec_and_res_len_def Let_def)
    qed
  qed
qed

text \<open>The addresses of \<open>n\<close> records that follow one another, found by their lengths.\<close>

fun record_starts :: "sort_param \<Rightarrow> memory \<Rightarrow> addr \<Rightarrow> nat \<Rightarrow> addr list" where
  "record_starts P m p 0 = []"
| "record_starts P m p (Suc n) = p # record_starts P m (p + ucast (get_record_length P m p)) n"

abbreviation stored_pair :: "sort_param \<Rightarrow> uchar list \<times> uchar list \<Rightarrow> uchar list" where
  "stored_pair P x \<equiv> stored P (fst x) (snd x)"

lemma record_starts_found:
  "\<forall>x\<in>set xs. record_fits P (fst x) (snd x) \<Longrightarrow> bytes m p (total (map (stored_pair P) xs)) = concat (map (stored_pair P) xs) \<Longrightarrow>
   list_all2 (\<lambda>q x. bytes m q (length (stored_pair P x)) = stored_pair P x) (record_starts P m p (length xs)) xs"
proof (induction xs arbitrary: p)
  case (Cons x xs)
  let ?e = "stored_pair P x"
  have e: "concat (map (stored_pair P) (x # xs)) = ?e @ concat (map (stored_pair P) xs)" by simp
  have l: "length (concat (map (stored_pair P) xs)) = total (map (stored_pair P) xs)" by (simp add: length_concat)
  have "bytes m p (length (?e @ concat (map (stored_pair P) xs))) = ?e @ concat (map (stored_pair P) xs)"
    using Cons.prems(2) by (simp add: length_concat o_def)
  note parts = bytes_parts [OF this]
  have f: "record_fits P (fst x) (snd x)" using Cons.prems(1) by simp
  have "get_record_length P m p = of_nat (length ?e)" using record_lengths [OF f parts(1)] by simp
  moreover have "length ?e < 2 ^ 32" using fitsD(4) [OF f] .
  ultimately have nx: "(ucast (get_record_length P m p) :: addr) = of_nat (length ?e)"
    by (simp add: word_unat_eq_iff unat_ucast_small unat_of_nat_small)
  have "list_all2 (\<lambda>q x. bytes m q (length (stored_pair P x)) = stored_pair P x)
      (record_starts P m (p + of_nat (length ?e)) (length xs)) xs"
    using Cons.IH [of "p + of_nat (length ?e)"] Cons.prems(1) parts(2) l by simp
  then show ?case using parts(1) nx by simp
qed simp

section \<open>Properties\<close>

text \<open>
  C10. A record in the sort buffer, in any of the formats, gives its lengths back: found through the array of sort keys of a
  buffer that holds such records, its length is the length with which it was stored and its result length is that of the
  row reference or of the addon fields.
\<close>

theorem buffered_record_lengths:
  assumes "fsb_rep N R S (b, m) (map (stored_pair P) xs)" and "\<forall>x\<in>set xs. record_fits P (fst x) (snd x)" and "ix < length xs"
  defines "p \<equiv> load64 m (get_sort_keys b + 8 * of_nat ix)" and "x \<equiv> rev xs ! ix"
  shows "bytes m p (length (stored_pair P x)) = stored_pair P x \<and>
    get_record_length P m p = of_nat (length (stored_pair P x)) \<and>
    get_rec_and_res_len P m p = (of_nat (length (stored_pair P x)), of_nat (length (rest_bytes P (snd x))))"
proof -
  have e: "rev (map (stored_pair P) xs) ! ix = stored_pair P x" using assms(3) by (simp add: x_def rev_map)
  have "read_key ix (length (stored_pair P x)) (b, m) = stored_pair P x"
    using read_key_rep [OF assms(1), of ix "length (stored_pair P x)"] assms(3) e by simp
  then have "bytes m p (length (stored_pair P x)) = stored_pair P x" by (simp add: read_key_def p_def region_bytes)
  moreover have "x \<in> set xs" using assms(3) nth_mem [of ix "rev xs"] by (simp add: x_def)
  ultimately show ?thesis using record_lengths assms(2) by blast
qed

definition example_param :: sort_param where
  "example_param = \<lparr>rec_length = 20, sort_length = 0, ref_length = 6, addon_length = 9, res_length = 9,
     param_addon_fields = Some (mk_addon_fields (mk_bca 1 2)), param_sort_keys = Some (mk_sort_keys 1 1),
     p_using_packed_addons = True, p_using_packed_sortkeys = True, m_packed_format = True\<rparr>"

theorem buffered_record_lengths_witness:
  "\<exists>b m. run_cmds fsb_step [Add (stored example_param [7, 8] [9]), Add (stored example_param [5] [])]
     (example_buffer\<lparr>m_record_length := 20, m_size_in_bytes := 64, m_record_pointers := 1056\<rparr>, \<lambda>_. 0) =
       Some ([Bool False, Bool False], b, m) \<and>
     get_record_length example_param m (load64 m (get_sort_keys b + 8)) = 9 \<and>
     get_rec_and_res_len example_param m (load64 m (get_sort_keys b)) = (7, 2)"
proof -
  let ?b = "example_buffer\<lparr>m_record_length := 20, m_size_in_bytes := 64, m_record_pointers := 1056\<rparr>"
  let ?xs = "[([7, 8], [9]), ([5], [])] :: (uchar list \<times> uchar list) list"
  have al: "alloc_ok 2 20 64 ?b" by (simp add: alloc_ok_def example_buffer_def)
  then have rep: "fsb_rep 2 20 64 (?b, \<lambda>_. 0) []" by (simp add: fsb_rep_def) (simp add: example_buffer_def)
  have run: "run_cmds (fsb_spec_step 2 20 64) [Add (stored example_param [7, 8] [9]), Add (stored example_param [5] [])] [] =
      Some ([Bool False, Bool False], map (stored_pair example_param) ?xs)"
    by (simp add: spec_full_def stored_def key_part_def rest_bytes_def example_param_def using_packed_addons_def using_packed_sortkeys_def)
  obtain b m where r: "run_cmds fsb_step [Add (stored example_param [7, 8] [9]), Add (stored example_param [5] [])] (?b, \<lambda>_. 0) =
       Some ([Bool False, Bool False], b, m)" "fsb_rep 2 20 64 (b, m) (map (stored_pair example_param) ?xs)"
    using filesort.run_refines [OF rep run] by fast
  have fit: "\<forall>x\<in>set ?xs. record_fits example_param (fst x) (snd x)"
    by (simp add: record_fits_def stored_def key_part_def rest_bytes_def example_param_def using_packed_addons_def
        using_packed_sortkeys_def using_addon_fields_def can_pack_addon_fields_def)
  from buffered_record_lengths [OF r(2) fit, of 0] buffered_record_lengths [OF r(2) fit, of 1] r(1) show ?thesis
    by (simp add: stored_def key_part_def rest_bytes_def example_param_def using_packed_addons_def using_packed_sortkeys_def)
qed

text \<open>
  C31. A chunk that is used up can give its buffer to the chunk before it or after it, and to no other: the chunks that are
  left still lie one after another over the whole memory, with no gap and no overlap, and keep the number of keys that all
  of them had room for.
\<close>

theorem freed_buffer_kept:
  assumes "tiles lo (us @ c # vs) hi" and "d \<in> set us \<union> set vs"
  shows "(fst (merge_freed_buff c d) \<longleftrightarrow> us \<noteq> [] \<and> d = last us \<or> vs \<noteq> [] \<and> d = hd vs) \<and>
    (us \<noteq> [] \<and> d = last us \<longrightarrow>
       (let us' = butlast us @ [snd (merge_freed_buff c d)] in tiles lo (us' @ vs) hi \<and>
        sum_list (map m_max_keys (us' @ vs)) = sum_list (map m_max_keys (us @ c # vs)))) \<and>
    (vs \<noteq> [] \<and> d = hd vs \<longrightarrow>
       (let vs' = snd (merge_freed_buff c d) # tl vs in tiles lo (us @ vs') hi \<and>
        sum_list (map m_max_keys (us @ vs')) = sum_list (map m_max_keys (us @ c # vs))))"
proof -
  obtain mid where t: "tiles lo us mid" "unat (m_buffer_start c) = mid" "mid < unat (m_buffer_end c)" "tiles (unat (m_buffer_end c)) vs hi"
    using assms(1) by (auto simp: tiles_append)
  have ends: "m_buffer_end x = m_buffer_start c \<longleftrightarrow> x = last us" "m_buffer_start x \<noteq> m_buffer_end c" if "x \<in> set us" for x
    using tiles_last_end [OF t(1) that] tiles_bounds [OF t(1) that] t(2,3) by (auto simp: word_unat_eq_iff)
  have starts: "m_buffer_start x = m_buffer_end c \<longleftrightarrow> x = hd vs" "m_buffer_end x \<noteq> m_buffer_start c" if "x \<in> set vs" for x
    using tiles_first_start [OF t(4) that] tiles_bounds [OF t(4) that] t(2,3) by (auto simp: word_unat_eq_iff)
  have apart: "x \<noteq> y" if "x \<in> set us" "y \<in> set vs" for x y
    using tiles_bounds [OF t(1) that(1)] tiles_bounds [OF t(4) that(2)] t(3) by auto
  have iff: "fst (merge_freed_buff c d) \<longleftrightarrow> us \<noteq> [] \<and> d = last us \<or> vs \<noteq> [] \<and> d = hd vs"
  proof (cases "d \<in> set us")
    case True
    then show ?thesis using ends [OF True] apart [OF True hd_in_set [of vs]] by (auto simp: merge_freed_buff_def)
  next
    case False
    then have "d \<in> set vs" using assms(2) by blast
    then show ?thesis using starts [of d] False last_in_set [of us] by (auto simp: merge_freed_buff_def)
  qed
  moreover have "let us' = butlast us @ [snd (merge_freed_buff c d)] in tiles lo (us' @ vs) hi \<and>
      sum_list (map m_max_keys (us' @ vs)) = sum_list (map m_max_keys (us @ c # vs))" if "us \<noteq> []" "d = last us"
  proof -
    have u: "us = butlast us @ [d]" using that by simp
    then have "tiles lo (butlast us @ [d]) mid" using t(1) by simp
    from merge_left [OF this t(2,3)] obtain e where e: "merge_freed_buff c d = (True, e)"
      "tiles lo (butlast us @ [e]) (unat (m_buffer_end c))" "m_max_keys e = m_max_keys d + m_max_keys c" by blast
    have "map m_max_keys us = map m_max_keys (butlast us) @ [m_max_keys d]" by (subst u) simp
    then show ?thesis using e t(4) by (auto simp: Let_def tiles_append simp del: append.simps)
  qed
  moreover have "let vs' = snd (merge_freed_buff c d) # tl vs in tiles lo (us @ vs') hi \<and>
      sum_list (map m_max_keys (us @ vs')) = sum_list (map m_max_keys (us @ c # vs))" if "vs \<noteq> []" "d = hd vs"
  proof -
    have v: "vs = d # tl vs" using that by simp
    then have "tiles (unat (m_buffer_end c)) (d # tl vs) hi" using t(4) by simp
    from merge_right [OF this] t(2,3) obtain e where e: "merge_freed_buff c d = (True, e)" "tiles mid (e # tl vs) hi"
      "m_max_keys e = m_max_keys d + m_max_keys c" by auto
    have "map m_max_keys vs = m_max_keys d # map m_max_keys (tl vs)" by (subst v) simp
    then show ?thesis using e t(1) by (auto simp: Let_def tiles_append)
  qed
  ultimately show ?thesis by blast
qed

definition example_chunk :: "addr \<Rightarrow> addr \<Rightarrow> merge_chunk" where
  "example_chunk start end_ptr = set_max_keys 5 (set_buffer start end_ptr mk_merge_chunk)"

theorem freed_buffer_kept_witness:
  "fst (merge_freed_buff (example_chunk 16 32) (example_chunk 32 64)) \<and> \<not> fst (merge_freed_buff (example_chunk 16 32) (example_chunk 64 80)) \<and>
   tiles 16 [snd (merge_freed_buff (example_chunk 16 32) (example_chunk 32 64)), example_chunk 64 80] 80"
proof -
  have t: "tiles 16 ([] @ example_chunk 16 32 # [example_chunk 32 64, example_chunk 64 80]) 80"
    by (simp add: example_chunk_def set_buffer_def mk_merge_chunk_def set_max_keys_def)
  have ne: "example_chunk 64 80 \<noteq> example_chunk 32 64"
    by (simp add: example_chunk_def set_buffer_def mk_merge_chunk_def set_max_keys_def)
  show ?thesis
    using freed_buffer_kept [OF t, of "example_chunk 32 64"] freed_buffer_kept [OF t, of "example_chunk 64 80"] ne
    by (simp add: Let_def)
qed

end
