(* ===== verification/Lex_Input.thy ===== *)
theory Lex_Input
  imports Flat_Memory Simulation
begin

text \<open>
  The character stream of the SQL lexer (\<open>Lex_input_stream\<close> of \<open>sql_lex.h\<close>): the text of the query is read from one buffer and
  echoed, while the echo is on, to a second one. Both are byte strings in flat memory. The buffers are allocated and the
  tokens scanned outside the repository; the classification of spaces is a parameter.
\<close>

section \<open>The stream\<close>

datatype enum_comment_state = NO_COMMENT | PRESERVE_COMMENT | DISCARD_COMMENT

record lex_input_stream =
  lookahead_token :: cint
  m_ptr :: addr
  m_tok_start :: addr
  m_tok_end :: addr
  m_end_of_query :: addr
  m_tok_start_prev :: addr
  m_buf :: addr
  m_buf_length :: csize
  m_echo :: bool
  m_echo_saved :: bool
  m_cpp_buf :: addr
  m_cpp_ptr :: addr
  m_cpp_tok_start :: addr
  m_cpp_tok_start_prev :: addr
  m_cpp_tok_end :: addr
  m_body_utf8 :: addr
  m_body_utf8_ptr :: addr
  in_comment :: enum_comment_state
  in_comment_saved :: enum_comment_state

type_synonym lex_state = "lex_input_stream \<times> memory"

definition set_echo :: "bool \<Rightarrow> lex_input_stream \<Rightarrow> lex_input_stream" where
  "set_echo e s = s\<lparr>m_echo := e\<rparr>"

definition save_in_comment_state :: "lex_input_stream \<Rightarrow> lex_input_stream" where
  "save_in_comment_state s = s\<lparr>m_echo_saved := m_echo s, in_comment_saved := in_comment s\<rparr>"

definition restore_in_comment_state :: "lex_input_stream \<Rightarrow> lex_input_stream" where
  "restore_in_comment_state s = s\<lparr>m_echo := m_echo_saved s, in_comment := in_comment_saved s\<rparr>"

definition skip_binary :: "cint \<Rightarrow> lex_state \<Rightarrow> lex_state" where
  "skip_binary n = (\<lambda>(s, m).
     let (s, m) = (if m_echo s
                   then (s\<lparr>m_cpp_ptr := m_cpp_ptr s + scast n\<rparr>, memcpy (m_cpp_ptr s) (m_ptr s) (scast n) m)
                   else (s, m))
     in (s\<lparr>m_ptr := m_ptr s + scast n\<rparr>, m))"

definition yyGet :: "lex_state \<Rightarrow> uchar \<times> lex_state" where
  "yyGet = (\<lambda>(s, m).
     let c = m (m_ptr s); s = s\<lparr>m_ptr := m_ptr s + 1\<rparr>
     in (c, if m_echo s then (s\<lparr>m_cpp_ptr := m_cpp_ptr s + 1\<rparr>, m(m_cpp_ptr s := c)) else (s, m)))"

definition yyGetLast :: "lex_state \<Rightarrow> uchar" where "yyGetLast = (\<lambda>(s, m). m (m_ptr s - 1))"

definition yyPeek :: "lex_state \<Rightarrow> uchar" where "yyPeek = (\<lambda>(s, m). m (m_ptr s))"

definition yyPeekn :: "cint \<Rightarrow> lex_state \<Rightarrow> uchar" where "yyPeekn n = (\<lambda>(s, m). m (m_ptr s + scast n))"

definition yyUnget :: "lex_input_stream \<Rightarrow> lex_input_stream" where
  "yyUnget s = (let s = s\<lparr>m_ptr := m_ptr s - 1\<rparr> in if m_echo s then s\<lparr>m_cpp_ptr := m_cpp_ptr s - 1\<rparr> else s)"

definition yySkip :: "lex_state \<Rightarrow> lex_state" where
  "yySkip = (\<lambda>(s, m).
     if m_echo s
     then (s\<lparr>m_cpp_ptr := m_cpp_ptr s + 1, m_ptr := m_ptr s + 1\<rparr>, m(m_cpp_ptr s := m (m_ptr s)))
     else (s\<lparr>m_ptr := m_ptr s + 1\<rparr>, m))"

definition yySkipn :: "cint \<Rightarrow> lex_state \<Rightarrow> lex_state" where
  "yySkipn n = (\<lambda>(s, m).
     let (s, m) = (if m_echo s
                   then (s\<lparr>m_cpp_ptr := m_cpp_ptr s + scast n\<rparr>, memcpy (m_cpp_ptr s) (m_ptr s) (scast n) m)
                   else (s, m))
     in (s\<lparr>m_ptr := m_ptr s + scast n\<rparr>, m))"

definition yyUnput :: "uchar \<Rightarrow> lex_state \<Rightarrow> addr \<times> lex_state" where
  "yyUnput ch = (\<lambda>(s, m).
     let s = s\<lparr>m_ptr := m_ptr s - 1\<rparr>; m = m(m_ptr s := ch);
         s = (if m_echo s then s\<lparr>m_cpp_ptr := m_cpp_ptr s - 1\<rparr> else s)
     in (m_ptr s, s, m))"

definition eof_n :: "cint \<Rightarrow> lex_input_stream \<Rightarrow> bool" where
  "eof_n n s \<longleftrightarrow> m_ptr s + scast n \<ge> m_end_of_query s"

definition start_token :: "lex_input_stream \<Rightarrow> lex_input_stream" where
  "start_token s =
     (let s = s\<lparr>m_tok_start_prev := m_tok_start s\<rparr>;
          s = s\<lparr>m_tok_start := m_ptr s\<rparr>;
          s = s\<lparr>m_tok_end := m_ptr s\<rparr>;
          s = s\<lparr>m_cpp_tok_start_prev := m_cpp_tok_start s\<rparr>;
          s = s\<lparr>m_cpp_tok_start := m_cpp_ptr s\<rparr>
      in s\<lparr>m_cpp_tok_end := m_cpp_ptr s\<rparr>)"

definition restart_token :: "lex_input_stream \<Rightarrow> lex_input_stream" where
  "restart_token s = s\<lparr>m_tok_start := m_ptr s, m_cpp_tok_start := m_cpp_ptr s\<rparr>"

text \<open>A failed assertion is \<open>None\<close>.\<close>

definition yyLength :: "lex_input_stream \<Rightarrow> uint option" where
  "yyLength s = (if m_ptr s > m_tok_start s then Some (ucast (m_ptr s - m_tok_start s - 1)) else None)"

definition has_lookahead :: "lex_input_stream \<Rightarrow> bool" where "has_lookahead s \<longleftrightarrow> 0 \<le> sint (lookahead_token s)"

definition eof :: "lex_input_stream \<Rightarrow> bool" where "eof s \<longleftrightarrow> m_ptr s \<ge> m_end_of_query s"

definition get_tok_start :: "lex_input_stream \<Rightarrow> addr" where
  "get_tok_start s = (if has_lookahead s then m_tok_start_prev s else m_tok_start s)"

definition set_cpp_tok_start :: "addr \<Rightarrow> lex_input_stream \<Rightarrow> lex_input_stream" where
  "set_cpp_tok_start pos s = s\<lparr>m_cpp_tok_start := pos\<rparr>"

definition get_cpp_tok_start :: "lex_input_stream \<Rightarrow> addr" where
  "get_cpp_tok_start s = (if has_lookahead s then m_cpp_tok_start_prev s else m_cpp_tok_start s)"

partial_function (option) rtrim_loop :: "(uchar \<Rightarrow> bool) \<Rightarrow> memory \<Rightarrow> addr \<Rightarrow> addr \<Rightarrow> addr option" where
  "rtrim_loop my_isspace m lo p =
     (if p > lo \<and> my_isspace (m (p - 1)) then rtrim_loop my_isspace m lo (p - 1) else Some p)"

definition get_cpp_tok_end_rtrim :: "(uchar \<Rightarrow> bool) \<Rightarrow> lex_state \<Rightarrow> addr option" where
  "get_cpp_tok_end_rtrim my_isspace = (\<lambda>(s, m). rtrim_loop my_isspace m (m_cpp_buf s) (m_cpp_tok_end s))"

definition get_cpp_ptr_rtrim :: "(uchar \<Rightarrow> bool) \<Rightarrow> lex_state \<Rightarrow> addr option" where
  "get_cpp_ptr_rtrim my_isspace = (\<lambda>(s, m). rtrim_loop my_isspace m (m_cpp_buf s) (m_cpp_ptr s))"

definition body_utf8 :: "lex_input_stream \<Rightarrow> addr \<times> csize" where
  "body_utf8 s = (m_body_utf8 s, m_body_utf8_ptr s - m_body_utf8 s)"

section \<open>The text it stands for\<close>

text \<open>
  A stream stands for the text and for the trail of the characters read: for each, whether it was echoed. Positions of
  tokens are offsets; the null pointer is \<open>None\<close>.
\<close>

record lex_text =
  raw :: "uchar list"
  trail :: "bool list"
  t_echo :: bool
  t_echo_saved :: bool
  t_comment :: enum_comment_state
  t_comment_saved :: enum_comment_state
  t_lookahead :: bool
  t_start :: "nat option"
  t_end :: "nat option"
  t_prev :: "nat option"
  c_start :: "nat option"
  c_end :: "nat option"
  c_prev :: "nat option"

definition echoed :: "uchar list \<Rightarrow> bool list \<Rightarrow> uchar list" where
  "echoed xs es = map fst (filter snd (zip xs es))"

definition rtrim :: "('a \<Rightarrow> bool) \<Rightarrow> 'a list \<Rightarrow> 'a list" where
  "rtrim P xs = rev (dropWhile P (rev xs))"

lemma echoed_Nil [simp]: "echoed xs [] = []"
  by (simp add: echoed_def)

lemma echoed_append: "echoed xs (es @ fs) = echoed xs es @ echoed (drop (length es) xs) fs"
proof -
  have "zip (take (length es) xs) es = zip xs es"
    by (rule nth_equalityI) auto
  then show ?thesis by (simp add: echoed_def zip_append2)
qed

lemma echoed_replicate: "length es + n \<le> length xs \<Longrightarrow>
  echoed xs (es @ replicate n e) = echoed xs es @ (if e then take n (drop (length es) xs) else [])"
proof -
  assume "length es + n \<le> length xs"
  moreover have "n \<le> length ys \<Longrightarrow> echoed ys (replicate n e) = (if e then take n ys else [])" for ys
  proof (induction n arbitrary: ys)
    case (Suc n)
    then show ?case by (cases ys) (auto simp: echoed_def)
  qed simp
  ultimately show ?thesis by (simp add: echoed_append)
qed

lemma echoed_snoc: "length es < length xs \<Longrightarrow> echoed xs (es @ [e]) = echoed xs es @ (if e then [xs ! length es] else [])"
  using echoed_replicate [of es 1 xs e] by (simp add: take_Suc hd_drop_conv_nth)

lemma length_echoed: "length (echoed xs es) \<le> length es"
proof -
  have "length (echoed xs es) \<le> length (zip xs es)" by (simp add: echoed_def del: length_zip)
  then show ?thesis by simp
qed

lemma echoed_update: "length es \<le> i \<Longrightarrow> echoed (xs[i := c]) es = echoed xs es"
proof -
  assume "length es \<le> i"
  then have "zip (xs[i := c]) es = zip xs es" by (intro nth_equalityI) auto
  then show ?thesis by (simp add: echoed_def)
qed

section \<open>Memory\<close>

lemma region_update:
  assumes "a + n \<le> 2 ^ 64" and "i < n"
  shows "region (m(of_nat (a + i) := c)) a n = (region m a n)[i := c]"
proof (rule nth_equalityI)
  fix j assume "j < length (region (m(of_nat (a + i) := c)) a n)"
  then have j: "j < n" by simp
  have "unat (of_nat (a + i) :: addr) = a + i" "unat (of_nat (a + j) :: addr) = a + j"
    using assms j by (intro unat_of_nat_small; simp)+
  then have "(of_nat (a + j) :: addr) = of_nat (a + i) \<longleftrightarrow> j = i" by (metis add_left_cancel)
  then show "region (m(of_nat (a + i) := c)) a n ! j = (region m a n)[i := c] ! j"
    using j assms(2) by (simp add: region_def nth_list_update del: of_nat_add)
qed simp

lemma region_update_other:
  assumes "a + n \<le> 2 ^ 64" and "b < 2 ^ 64" and "b < a \<or> a + n \<le> b"
  shows "region (m(of_nat b := c)) a n = region m a n"
proof (rule region_cong)
  fix i assume i: "a \<le> i" "i < a + n"
  have "unat (of_nat i :: addr) = i" "unat (of_nat b :: addr) = b" using i assms by (intro unat_of_nat_small; simp)+
  then have "(of_nat i :: addr) \<noteq> of_nat b" using i assms(3) by (metis linorder_not_less)
  then show "(m(of_nat b := c)) (of_nat i) = m (of_nat i)" by simp
qed

lemma region_nth: "i < n \<Longrightarrow> region m a n ! i = m (of_nat (a + i))"
  by (simp add: region_def del: of_nat_add)

section \<open>Representation\<close>

definition place :: "nat \<Rightarrow> nat \<Rightarrow> nat option \<Rightarrow> addr \<Rightarrow> bool" where
  "place B n x p = (case x of None \<Rightarrow> p = 0 | Some k \<Rightarrow> k \<le> n \<and> p = of_nat (B + k))"

definition out_length :: "lex_text \<Rightarrow> nat" where "out_length a = length (echoed (raw a) (trail a))"

definition untouched :: "memory \<Rightarrow> memory \<Rightarrow> nat \<Rightarrow> nat \<Rightarrow> nat \<Rightarrow> bool" where
  "untouched m0 m B C n \<longleftrightarrow> (\<forall>x. unat x < B \<or> B + n \<le> unat x \<longrightarrow> unat x < C \<or> C + n \<le> unat x \<longrightarrow> m x = m0 x)"

definition lex_mem :: "memory \<Rightarrow> nat \<Rightarrow> nat \<Rightarrow> nat \<Rightarrow> nat \<Rightarrow> lex_state \<Rightarrow> lex_text \<Rightarrow> bool" where
  "lex_mem m0 B C n L = (\<lambda>(s, m) a.
     m_buf s = of_nat B \<and> m_cpp_buf s = of_nat C \<and> m_end_of_query s = of_nat (B + L) \<and> length (trail a) \<le> n \<and>
     region m B n = raw a \<and> region m C (out_length a) = echoed (raw a) (trail a) \<and>
     m_ptr s = of_nat (B + length (trail a)) \<and> m_cpp_ptr s = of_nat (C + out_length a) \<and>
     untouched m0 m B C n)"

definition lex_marks :: "nat \<Rightarrow> nat \<Rightarrow> nat \<Rightarrow> lex_input_stream \<Rightarrow> lex_text \<Rightarrow> bool" where
  "lex_marks B C n s a \<longleftrightarrow>
     m_echo s = t_echo a \<and> m_echo_saved s = t_echo_saved a \<and> in_comment s = t_comment a \<and> in_comment_saved s = t_comment_saved a \<and>
     has_lookahead s = t_lookahead a \<and>
     place B n (t_start a) (m_tok_start s) \<and> place B n (t_end a) (m_tok_end s) \<and> place B n (t_prev a) (m_tok_start_prev s) \<and>
     place C n (c_start a) (m_cpp_tok_start s) \<and> place C n (c_end a) (m_cpp_tok_end s) \<and>
     place C n (c_prev a) (m_cpp_tok_start_prev s)"

text \<open>Two buffers of \<open>n\<close> bytes that do not overlap, the first with the text up to \<open>L\<close>.\<close>

definition lex_room :: "nat \<Rightarrow> nat \<Rightarrow> nat \<Rightarrow> nat \<Rightarrow> bool" where
  "lex_room B C n L \<longleftrightarrow> 0 < B \<and> 0 < C \<and> B + n + 2 ^ 31 < 2 ^ 64 \<and> C + n < 2 ^ 64 \<and> (B + n \<le> C \<or> C + n \<le> B) \<and> L \<le> n"

definition lex_rep :: "memory \<Rightarrow> nat \<Rightarrow> nat \<Rightarrow> nat \<Rightarrow> nat \<Rightarrow> lex_state \<Rightarrow> lex_text \<Rightarrow> bool" where
  "lex_rep m0 B C n L s a \<longleftrightarrow> lex_room B C n L \<and> lex_mem m0 B C n L s a \<and> lex_marks B C n (fst s) a"

lemma out_length_le: "out_length a \<le> length (trail a)"
  by (simp add: out_length_def length_echoed)

lemma lex_memD:
  assumes "lex_mem m0 B C n L (s, m) a"
  shows "m_buf s = of_nat B" "m_cpp_buf s = of_nat C" "m_end_of_query s = of_nat (B + L)" "length (trail a) \<le> n"
    "region m B n = raw a" "region m C (out_length a) = echoed (raw a) (trail a)"
    "m_ptr s = of_nat (B + length (trail a))" "m_cpp_ptr s = of_nat (C + out_length a)" "untouched m0 m B C n" "length (raw a) = n"
proof -
  show raw: "region m B n = raw a" using assms by (simp add: lex_mem_def)
  then show "length (raw a) = n" by (metis length_region)
qed (use assms in \<open>simp_all add: lex_mem_def del: of_nat_add\<close>)

lemma lex_read: "lex_mem m0 B C n L (s, m) a \<Longrightarrow> i < n \<Longrightarrow> m (of_nat (B + i)) = raw a ! i"
  using lex_memD(5) [of m0 B C n L s m a] by (metis region_nth)

section \<open>Reading and going back\<close>

lemma memcpy_1: "memcpy to src 1 m = m(to := m src)"
proof
  fix x :: addr
  have "x - to < 1 \<longleftrightarrow> x = to" by (simp add: word_less_nat_alt unat_eq_0)
  then show "memcpy to src 1 m x = (m(to := m src)) x" by (simp add: memcpy_def)
qed

lemma yySkip_skipn: "yySkip s = yySkipn 1 s"
  by (cases s) (simp add: yySkip_def yySkipn_def memcpy_1 fun_upd_def)

lemma yyGet_skipn: "yyGet s = (yyPeek s, yySkipn 1 s)"
  by (cases s) (simp add: yyGet_def yyPeek_def yySkipn_def memcpy_1 Let_def)

lemma skip_binary_skipn: "skip_binary n s = yySkipn n s"
  by (simp add: skip_binary_def yySkipn_def)

lemma scast_pos:
  fixes n :: cint
  assumes "0 \<le> sint n"
  shows "(scast n :: addr) = of_nat (nat (sint n))" and "nat (sint n) < 2 ^ 31"
proof -
  have "sint n < 2 ^ 31" using sint_lt [of n] by simp
  then show "nat (sint n) < 2 ^ 31" using assms by simp
  have "(scast n :: addr) = of_int (sint n)" by simp
  also have "\<dots> = of_nat (nat (sint n))" using assms by simp
  finally show "(scast n :: addr) = of_nat (nat (sint n))" .
qed

lemma skipn_rep:
  assumes rep: "lex_rep m0 B C n L s a" and k: "0 \<le> sint k" "length (trail a) + nat (sint k) \<le> n"
  shows "lex_rep m0 B C n L (yySkipn k s) (a\<lparr>trail := trail a @ replicate (nat (sint k)) (t_echo a)\<rparr>)"
proof -
  obtain st m where s: "s = (st, m)" by fastforce
  let ?k = "nat (sint k)" and ?p = "length (trail a)" and ?o = "out_length a"
  have room: "lex_room B C n L" and mem: "lex_mem m0 B C n L (st, m) a" and marks: "lex_marks B C n st a"
    using rep s by (auto simp: lex_rep_def)
  note r = room [unfolded lex_room_def] and c = scast_pos [OF k(1)]
  have o: "?o \<le> ?p" by (rule out_length_le)
  have u: "unat (of_nat (C + ?o) :: addr) = C + ?o" "unat (of_nat ?k :: addr) = ?k" "unat (of_nat (B + ?p) :: addr) = B + ?p"
    using r o k(2) c(2) by (intro unat_of_nat_small; simp)+
  have e: "t_echo a = m_echo st" using marks by (simp add: lex_marks_def)
  have mm: "region m B n = raw a" "region m C ?o = echoed (raw a) (trail a)" "m_ptr st = of_nat (B + ?p)"
    "m_cpp_ptr st = of_nat (C + ?o)" using lex_memD [OF mem] by blast+
  let ?a = "a\<lparr>trail := trail a @ replicate ?k (t_echo a)\<rparr>"
  have out: "echoed (raw a) (trail ?a) = echoed (raw a) (trail a) @ (if t_echo a then take ?k (drop ?p (raw a)) else [])"
    using k(2) lex_memD(10) [OF mem] by (simp add: echoed_replicate)
  have ol: "out_length ?a = ?o + (if t_echo a then ?k else 0)"
    using out k(2) lex_memD(10) [OF mem] by (simp add: out_length_def)
  show ?thesis
  proof (cases "t_echo a")
    case False
    then show ?thesis using s e room mem marks c(1) out ol k(2)
      by (simp add: yySkipn_def lex_rep_def lex_mem_def lex_marks_def has_lookahead_def)
  next
    case True
    let ?m = "memcpy (of_nat (C + ?o)) (of_nat (B + ?p)) (of_nat ?k) m"
    have fits: "unat (of_nat (C + ?o) :: addr) + unat (of_nat ?k :: addr) \<le> 2 ^ 64" using u r o k(2) by simp
    have "region ?m B n = region m B n"
      using u r o k(2) by (intro region_memcpy_other) auto
    moreover have "region ?m C (?o + ?k) = echoed (raw a) (trail a) @ take ?k (drop ?p (raw a))"
    proof -
      have "region ?m C ?o = region m C ?o" using u r o k(2) by (intro region_memcpy_other) auto
      moreover have "region ?m (C + ?o) ?k = region m (B + ?p) ?k"
        using region_memcpy [OF fits, of "of_nat (B + ?p)" m] u by (simp add: bytes_at_def del: of_nat_add)
      moreover have "region m (B + ?p) ?k = take ?k (drop ?p (region m B n))"
      proof -
        have "n = ?p + (?k + (n - ?p - ?k))" using k(2) by simp
        then have "region m B n = region m B ?p @ region m (B + ?p) ?k @ region m (B + ?p + ?k) (n - ?p - ?k)"
          by (metis region_append)
        then show ?thesis by simp
      qed
      ultimately show ?thesis using mm by (simp add: region_append)
    qed
    moreover have "?m x = m x" if "unat x < C \<or> C + n \<le> unat x" for x
      using that u r o k(2) fits by (intro memcpy_outside) auto
    then have "untouched m0 ?m B C n" using lex_memD(9) [OF mem] by (simp add: untouched_def)
    ultimately show ?thesis using s e room mem marks c(1) out ol k(2) True
      by (simp add: yySkipn_def lex_rep_def lex_mem_def lex_marks_def has_lookahead_def algebra_simps)
  qed
qed

lemma unget_rep:
  assumes rep: "lex_rep m0 B C n L (s, m) a" and t: "trail a \<noteq> []" "last (trail a) = t_echo a"
  shows "lex_rep m0 B C n L (yyUnget s, m) (a\<lparr>trail := butlast (trail a)\<rparr>)"
proof -
  have room: "lex_room B C n L" and mem: "lex_mem m0 B C n L (s, m) a" and marks: "lex_marks B C n s a"
    using rep by (auto simp: lex_rep_def)
  note mm = lex_memD [OF mem]
  let ?es = "butlast (trail a)" and ?a = "a\<lparr>trail := butlast (trail a)\<rparr>"
  have tr: "trail a = ?es @ [t_echo a]" using t append_butlast_last_id [of "trail a"] by simp
  have l: "length (trail a) = Suc (length ?es)" using t(1) by simp
  have e: "echoed (raw a) (trail a) = echoed (raw a) ?es @ (if t_echo a then [raw a ! length ?es] else [])"
  proof -
    have "echoed (raw a) (trail a) = echoed (raw a) (?es @ [t_echo a])" using tr by (rule arg_cong)
    also have "\<dots> = echoed (raw a) ?es @ (if t_echo a then [raw a ! length ?es] else [])"
      using mm(4,10) l by (intro echoed_snoc) linarith
    finally show ?thesis .
  qed
  have o: "out_length a = out_length ?a + (if t_echo a then 1 else 0)" unfolding out_length_def e by simp
  have "region m C (out_length ?a) = echoed (raw a) ?es"
  proof -
    have "take (out_length ?a) (region m C (out_length a)) = echoed (raw a) ?es"
      unfolding mm(6) e by (simp add: out_length_def)
    then show ?thesis unfolding o by (simp add: region_append)
  qed
  then show ?thesis using room marks mm l o
    by (auto simp: lex_rep_def lex_mem_def lex_marks_def yyUnget_def has_lookahead_def Let_def simp del: length_butlast)
qed

lemma unput_rep:
  assumes rep: "lex_rep m0 B C n L (s, m) a" and t: "trail a \<noteq> []" "last (trail a) = t_echo a"
  shows "\<exists>p s'. yyUnput ch (s, m) = (p, s') \<and> p = of_nat (B + length (trail a) - 1) \<and>
    lex_rep m0 B C n L s' (a\<lparr>raw := (raw a)[length (trail a) - 1 := ch], trail := butlast (trail a)\<rparr>)"
proof -
  let ?p = "length (trail a) - 1" and ?es = "butlast (trail a)"
  let ?a = "a\<lparr>trail := ?es\<rparr>" and ?b = "a\<lparr>raw := (raw a)[?p := ch], trail := ?es\<rparr>"
  have "lex_rep m0 B C n L (yyUnget s, m) ?a" by (rule unget_rep [OF assms])
  then have room: "lex_room B C n L" and mem: "lex_mem m0 B C n L (yyUnget s, m) ?a" and marks: "lex_marks B C n (yyUnget s) ?a"
    by (auto simp: lex_rep_def)
  note mm = lex_memD [OF mem] and r = room [unfolded lex_room_def]
  have old: "length (trail a) \<le> n" using rep by (auto simp: lex_rep_def lex_mem_def)
  have p: "?p < n" "B + length (trail a) - 1 = B + ?p" using t(1) old by (cases "trail a"; simp)+
  have ptr: "m_ptr (yyUnget s) = of_nat (B + ?p)" using mm(7) by simp
  let ?m = "m(of_nat (B + ?p) := ch)"
  have run: "yyUnput ch (s, m) = (of_nat (B + ?p), yyUnget s, ?m)"
    using ptr by (simp add: yyUnput_def yyUnget_def Let_def del: of_nat_add split: if_splits)
  have "region ?m B n = (raw a)[?p := ch]" using region_update [of B n ?p m ch] r p mm(5) by (simp del: of_nat_add)
  moreover have out: "echoed ((raw a)[?p := ch]) ?es = echoed (raw a) ?es" by (rule echoed_update) simp
  moreover have "out_length ?b = out_length ?a" using out by (simp add: out_length_def)
  moreover have "region ?m C (out_length ?a) = region m C (out_length ?a)"
  proof (intro region_update_other)
    have o: "out_length ?a \<le> n" using out_length_le [of ?a] mm(4) by linarith
    show "C + out_length ?a \<le> 2 ^ 64" using o r by linarith
    show "B + ?p < 2 ^ 64" using p(1) r by linarith
    show "B + ?p < C \<or> C + out_length ?a \<le> B + ?p" using o p(1) r by linarith
  qed
  moreover have "untouched m0 ?m B C n"
  proof -
    have "unat (of_nat (B + ?p) :: addr) = B + ?p" using r p by (intro unat_of_nat_small) simp
    then have "x \<noteq> of_nat (B + ?p)" if "unat x < B \<or> B + n \<le> unat x" for x :: addr using that p(1) by (metis add_less_cancel_left le_add1 linorder_not_less)
    then show ?thesis using mm(9) by (simp add: untouched_def del: of_nat_add)
  qed
  ultimately have "lex_rep m0 B C n L (yyUnget s, ?m) ?b" using room marks mm
    by (simp add: lex_rep_def lex_mem_def lex_marks_def del: of_nat_add)
  then show ?thesis using run p(2) by auto
qed

section \<open>Trailing spaces\<close>

lemma rtrim_snoc: "rtrim P (xs @ [x]) = (if P x then rtrim P xs else xs @ [x])"
  by (simp add: rtrim_def)

lemma length_rtrim: "length (rtrim P xs) \<le> length xs"
  by (simp add: rtrim_def length_dropWhile_le [of P "rev xs", simplified])

lemma rtrim_loop_finds:
  "region m C (length xs) = xs \<Longrightarrow> C + length xs < 2 ^ 64 \<Longrightarrow>
   rtrim_loop P m (of_nat C) (of_nat (C + length xs)) = Some (of_nat (C + length (rtrim P xs)))"
proof (induction xs rule: rev_induct)
  case Nil
  then show ?case by (subst rtrim_loop.simps) (simp add: rtrim_def)
next
  case (snoc x xs)
  have u: "unat (of_nat C :: addr) = C" "unat (of_nat (C + length (xs @ [x])) :: addr) = C + length (xs @ [x])"
    using snoc.prems(2) by (intro unat_of_nat_small; simp)+
  have "region m C (length xs) = xs" "m (of_nat (C + length xs)) = x"
    using snoc.prems(1) region_append [of m C "length xs" 1] by (simp_all add: region_def del: of_nat_add)
  moreover have "of_nat (C + length (xs @ [x])) > (of_nat C :: addr)" unfolding word_less_nat_alt u by simp
  moreover have "of_nat (C + length (xs @ [x])) - 1 = (of_nat (C + length xs) :: addr)" by simp
  moreover have "C + length xs < 2 ^ 64" using snoc.prems(2) by simp
  ultimately show ?case using snoc.IH
    by (subst rtrim_loop.simps) (simp add: rtrim_snoc del: of_nat_add of_nat_Suc length_append)
qed

section \<open>Programs\<close>

definition seen :: "addr \<Rightarrow> addr \<Rightarrow> nat option" where
  "seen base p = (if p = 0 then None else Some (unat (p - base)))"

lemma place_seen:
  assumes "place B n x p" and "0 < B" and "B + n < 2 ^ 64"
  shows "seen (of_nat B) p = x"
proof (cases x)
  case None
  then show ?thesis using assms(1) by (simp add: place_def seen_def)
next
  case (Some k)
  then have k: "k \<le> n" "p = of_nat (B + k)" using assms(1) by (auto simp: place_def)
  have "unat (of_nat (B + k) :: addr) = B + k" "unat (of_nat k :: addr) = k" using k(1) assms(3) by (intro unat_of_nat_small; simp)+
  moreover have "p - of_nat B = of_nat k" "p \<noteq> 0 \<longleftrightarrow> unat p \<noteq> 0" using k(2) by (simp_all add: unat_eq_0)
  ultimately show ?thesis using k(2) assms(2) Some by (simp add: seen_def del: of_nat_add)
qed

datatype lex_cmd =
    Set_echo bool
  | Save_comment
  | Restore_comment
  | Skip_binary cint
  | Get
  | Get_last
  | Peek
  | Peekn cint
  | Unget
  | Skip
  | Skipn cint
  | Unput uchar
  | Eof_n cint
  | Eof
  | Start_token
  | Restart_token
  | Set_cpp_tok_start nat
  | Token_length
  | Tok_start
  | Tok_end
  | Position
  | Cpp_tok_start
  | Cpp_tok_end
  | Cpp_position
  | Cpp_tok_end_rtrim
  | Cpp_position_rtrim

datatype lex_out = Done | Chr uchar | Flag bool | Len uint | Place "nat option"

fun lex_step :: "(uchar \<Rightarrow> bool) \<Rightarrow> lex_cmd \<Rightarrow> lex_state \<Rightarrow> (lex_out \<times> lex_state) option" where
  "lex_step sp (Set_echo e) (s, m) = Some (Done, set_echo e s, m)"
| "lex_step sp Save_comment (s, m) = Some (Done, save_in_comment_state s, m)"
| "lex_step sp Restore_comment (s, m) = Some (Done, restore_in_comment_state s, m)"
| "lex_step sp (Skip_binary k) (s, m) = Some (Done, skip_binary k (s, m))"
| "lex_step sp Get (s, m) = (let (c, s') = yyGet (s, m) in Some (Chr c, s'))"
| "lex_step sp Get_last (s, m) = Some (Chr (yyGetLast (s, m)), s, m)"
| "lex_step sp Peek (s, m) = Some (Chr (yyPeek (s, m)), s, m)"
| "lex_step sp (Peekn k) (s, m) = Some (Chr (yyPeekn k (s, m)), s, m)"
| "lex_step sp Unget (s, m) = Some (Done, yyUnget s, m)"
| "lex_step sp Skip (s, m) = Some (Done, yySkip (s, m))"
| "lex_step sp (Skipn k) (s, m) = Some (Done, yySkipn k (s, m))"
| "lex_step sp (Unput ch) (s, m) = (let (p, s') = yyUnput ch (s, m) in Some (Place (seen (m_buf s) p), s'))"
| "lex_step sp (Eof_n k) (s, m) = Some (Flag (eof_n k s), s, m)"
| "lex_step sp Eof (s, m) = Some (Flag (eof s), s, m)"
| "lex_step sp Start_token (s, m) = Some (Done, start_token s, m)"
| "lex_step sp Restart_token (s, m) = Some (Done, restart_token s, m)"
| "lex_step sp (Set_cpp_tok_start k) (s, m) = Some (Done, set_cpp_tok_start (m_cpp_buf s + of_nat k) s, m)"
| "lex_step sp Token_length (s, m) = map_option (\<lambda>l. (Len l, s, m)) (yyLength s)"
| "lex_step sp Tok_start (s, m) = Some (Place (seen (m_buf s) (get_tok_start s)), s, m)"
| "lex_step sp Tok_end (s, m) = Some (Place (seen (m_buf s) (m_tok_end s)), s, m)"
| "lex_step sp Position (s, m) = Some (Place (seen (m_buf s) (m_ptr s)), s, m)"
| "lex_step sp Cpp_tok_start (s, m) = Some (Place (seen (m_cpp_buf s) (get_cpp_tok_start s)), s, m)"
| "lex_step sp Cpp_tok_end (s, m) = Some (Place (seen (m_cpp_buf s) (m_cpp_tok_end s)), s, m)"
| "lex_step sp Cpp_position (s, m) = Some (Place (seen (m_cpp_buf s) (m_cpp_ptr s)), s, m)"
| "lex_step sp Cpp_tok_end_rtrim (s, m) =
     map_option (\<lambda>p. (Place (seen (m_cpp_buf s) p), s, m)) (get_cpp_tok_end_rtrim sp (s, m))"
| "lex_step sp Cpp_position_rtrim (s, m) =
     map_option (\<lambda>p. (Place (seen (m_cpp_buf s) p), s, m)) (get_cpp_ptr_rtrim sp (s, m))"

text \<open>
  What a program means on the text. Going back is defined when the last character was read with the echo as it is now, as
  the comments of the source ask for.
\<close>

definition read_on :: "nat \<Rightarrow> lex_text \<Rightarrow> lex_text" where
  "read_on k a = a\<lparr>trail := trail a @ replicate k (t_echo a)\<rparr>"

definition can_unget :: "lex_text \<Rightarrow> bool" where
  "can_unget a \<longleftrightarrow> trail a \<noteq> [] \<and> last (trail a) = t_echo a"

definition can_read :: "cint \<Rightarrow> nat \<Rightarrow> lex_text \<Rightarrow> bool" where
  "can_read k n a \<longleftrightarrow> 0 \<le> sint k \<and> length (trail a) + nat (sint k) \<le> n"

fun lex_spec :: "(uchar \<Rightarrow> bool) \<Rightarrow> nat \<Rightarrow> nat \<Rightarrow> lex_cmd \<Rightarrow> lex_text \<Rightarrow> (lex_out \<times> lex_text) option" where
  "lex_spec sp n L (Set_echo e) a = Some (Done, a\<lparr>t_echo := e\<rparr>)"
| "lex_spec sp n L Save_comment a = Some (Done, a\<lparr>t_echo_saved := t_echo a, t_comment_saved := t_comment a\<rparr>)"
| "lex_spec sp n L Restore_comment a = Some (Done, a\<lparr>t_echo := t_echo_saved a, t_comment := t_comment_saved a\<rparr>)"
| "lex_spec sp n L (Skip_binary k) a = (if can_read k n a then Some (Done, read_on (nat (sint k)) a) else None)"
| "lex_spec sp n L Get a = (if length (trail a) < n then Some (Chr (raw a ! length (trail a)), read_on 1 a) else None)"
| "lex_spec sp n L Get_last a = (if trail a \<noteq> [] then Some (Chr (raw a ! (length (trail a) - 1)), a) else None)"
| "lex_spec sp n L Peek a = (if length (trail a) < n then Some (Chr (raw a ! length (trail a)), a) else None)"
| "lex_spec sp n L (Peekn k) a =
     (if 0 \<le> sint k \<and> length (trail a) + nat (sint k) < n then Some (Chr (raw a ! (length (trail a) + nat (sint k))), a) else None)"
| "lex_spec sp n L Unget a = (if can_unget a then Some (Done, a\<lparr>trail := butlast (trail a)\<rparr>) else None)"
| "lex_spec sp n L Skip a = (if length (trail a) < n then Some (Done, read_on 1 a) else None)"
| "lex_spec sp n L (Skipn k) a = (if can_read k n a then Some (Done, read_on (nat (sint k)) a) else None)"
| "lex_spec sp n L (Unput ch) a =
     (if can_unget a
      then Some (Place (Some (length (trail a) - 1)), a\<lparr>raw := (raw a)[length (trail a) - 1 := ch], trail := butlast (trail a)\<rparr>)
      else None)"
| "lex_spec sp n L (Eof_n k) a = (if 0 \<le> sint k then Some (Flag (L \<le> length (trail a) + nat (sint k)), a) else None)"
| "lex_spec sp n L Eof a = Some (Flag (L \<le> length (trail a)), a)"
| "lex_spec sp n L Start_token a =
     Some (Done, a\<lparr>t_prev := t_start a, t_start := Some (length (trail a)), t_end := Some (length (trail a)),
       c_prev := c_start a, c_start := Some (out_length a), c_end := Some (out_length a)\<rparr>)"
| "lex_spec sp n L Restart_token a = Some (Done, a\<lparr>t_start := Some (length (trail a)), c_start := Some (out_length a)\<rparr>)"
| "lex_spec sp n L (Set_cpp_tok_start k) a = (if k \<le> n then Some (Done, a\<lparr>c_start := Some k\<rparr>) else None)"
| "lex_spec sp n L Token_length a =
     (case t_start a of None \<Rightarrow> None
      | Some k \<Rightarrow> if k < length (trail a) then Some (Len (of_nat (length (trail a) - k - 1)), a) else None)"
| "lex_spec sp n L Tok_start a = Some (Place (if t_lookahead a then t_prev a else t_start a), a)"
| "lex_spec sp n L Tok_end a = Some (Place (t_end a), a)"
| "lex_spec sp n L Position a = Some (Place (Some (length (trail a))), a)"
| "lex_spec sp n L Cpp_tok_start a = Some (Place (if t_lookahead a then c_prev a else c_start a), a)"
| "lex_spec sp n L Cpp_tok_end a = Some (Place (c_end a), a)"
| "lex_spec sp n L Cpp_position a = Some (Place (Some (out_length a)), a)"
| "lex_spec sp n L Cpp_tok_end_rtrim a =
     (case c_end a of None \<Rightarrow> None
      | Some k \<Rightarrow> if k \<le> out_length a then Some (Place (Some (length (rtrim sp (take k (echoed (raw a) (trail a)))))), a) else None)"
| "lex_spec sp n L Cpp_position_rtrim a = Some (Place (Some (length (rtrim sp (echoed (raw a) (trail a))))), a)"

lemma read_on_rep:
  "lex_rep m0 B C n L s a \<Longrightarrow> can_read k n a \<Longrightarrow> lex_rep m0 B C n L (yySkipn k s) (read_on (nat (sint k)) a)"
  by (simp add: skipn_rep can_read_def read_on_def)

lemma read_one_rep:
  "lex_rep m0 B C n L s a \<Longrightarrow> length (trail a) < n \<Longrightarrow> lex_rep m0 B C n L (yySkipn 1 s) (read_on 1 a)"
  using read_on_rep [of m0 B C n L s a 1] by (simp add: can_read_def)

lemma place_Some: "k \<le> n \<Longrightarrow> place B n (Some k) (of_nat (B + k))"
  by (simp add: place_def)

lemma rep_seen:
  assumes "lex_rep m0 B C n L (s, m) a"
  shows "seen (m_buf s) (m_ptr s) = Some (length (trail a))" "seen (m_cpp_buf s) (m_cpp_ptr s) = Some (out_length a)"
    "seen (m_buf s) (get_tok_start s) = (if t_lookahead a then t_prev a else t_start a)" "seen (m_buf s) (m_tok_end s) = t_end a"
    "seen (m_cpp_buf s) (get_cpp_tok_start s) = (if t_lookahead a then c_prev a else c_start a)"
    "seen (m_cpp_buf s) (m_cpp_tok_end s) = c_end a"
proof -
  have room: "lex_room B C n L" and mem: "lex_mem m0 B C n L (s, m) a" and marks: "lex_marks B C n s a"
    using assms by (auto simp: lex_rep_def)
  note mm = lex_memD [OF mem]
  have fit: "0 < B" "B + n < 2 ^ 64" "0 < C" "C + n < 2 ^ 64" using room by (auto simp: lex_room_def)
  have "place B n (Some (length (trail a))) (m_ptr s)" "place C n (Some (out_length a)) (m_cpp_ptr s)"
    using mm(4,7,8) out_length_le [of a] by (simp_all only: place_Some le_trans)
  then show "seen (m_buf s) (m_ptr s) = Some (length (trail a))" "seen (m_cpp_buf s) (m_cpp_ptr s) = Some (out_length a)"
    using mm(1,2) fit place_seen by metis+
  show "seen (m_buf s) (get_tok_start s) = (if t_lookahead a then t_prev a else t_start a)" "seen (m_buf s) (m_tok_end s) = t_end a"
    using marks mm(1) fit(1,2) place_seen by (auto simp: lex_marks_def get_tok_start_def)
  show "seen (m_cpp_buf s) (get_cpp_tok_start s) = (if t_lookahead a then c_prev a else c_start a)"
    "seen (m_cpp_buf s) (m_cpp_tok_end s) = c_end a"
    using marks mm(2) fit(3,4) place_seen by (auto simp: lex_marks_def get_cpp_tok_start_def)
qed

lemma rep_eof:
  assumes "lex_rep m0 B C n L (s, m) a" and "0 \<le> sint k"
  shows "eof_n k s \<longleftrightarrow> L \<le> length (trail a) + nat (sint k)"
proof -
  have room: "lex_room B C n L" and mem: "lex_mem m0 B C n L (s, m) a" using assms by (auto simp: lex_rep_def)
  note mm = lex_memD [OF mem] and c = scast_pos [OF assms(2)] and r = room [unfolded lex_room_def]
  have "m_ptr s + scast k = of_nat (B + length (trail a) + nat (sint k))" using mm(7) c(1) by simp
  moreover have "unat (of_nat (B + length (trail a) + nat (sint k)) :: addr) = B + length (trail a) + nat (sint k)"
    using r mm(4) c(2) by (intro unat_of_nat_small) simp
  moreover have "unat (of_nat (B + L) :: addr) = B + L" using r by (intro unat_of_nat_small) simp
  ultimately show ?thesis using mm(3) by (simp add: eof_n_def word_le_nat_alt del: of_nat_add)
qed

lemma rep_eof0: "lex_rep m0 B C n L (s, m) a \<Longrightarrow> eof s \<longleftrightarrow> L \<le> length (trail a)"
  using rep_eof [of m0 B C n L s m a 0] by (simp add: eof_def eof_n_def)

lemma rep_length:
  assumes "lex_rep m0 B C n L (s, m) a" and "t_start a = Some k" and "k < length (trail a)"
  shows "yyLength s = Some (of_nat (length (trail a) - k - 1))"
proof -
  let ?p = "length (trail a)"
  have room: "lex_room B C n L" and mem: "lex_mem m0 B C n L (s, m) a" and marks: "lex_marks B C n s a"
    using assms by (auto simp: lex_rep_def)
  note mm = lex_memD [OF mem] and r = room [unfolded lex_room_def]
  have k: "m_tok_start s = of_nat (B + k)" using marks assms(2) by (auto simp: lex_marks_def place_def)
  have "unat (of_nat (B + ?p) :: addr) = B + ?p" "unat (of_nat (B + k) :: addr) = B + k"
    using r mm(4) assms(3) by (intro unat_of_nat_small; simp)+
  then have "m_ptr s > m_tok_start s" using assms(3) mm(7) k by (simp add: word_less_nat_alt del: of_nat_add)
  moreover have "m_ptr s - m_tok_start s - 1 = of_nat (?p - k - 1)" using mm(7) k assms(3) by (simp add: of_nat_diff)
  moreover have "(ucast (of_nat i :: addr) :: uint) = of_nat i" for i by (simp add: unsigned_of_nat word_of_nat_eq_iff)
  ultimately show ?thesis by (simp add: yyLength_def)
qed

lemma rep_rtrim:
  assumes "lex_rep m0 B C n L (s, m) a" and "k \<le> out_length a"
  shows "rtrim_loop sp m (m_cpp_buf s) (of_nat (C + k)) = Some (of_nat (C + length (rtrim sp (take k (echoed (raw a) (trail a))))))"
    and "seen (m_cpp_buf s) (of_nat (C + length (rtrim sp (take k (echoed (raw a) (trail a)))))) =
      Some (length (rtrim sp (take k (echoed (raw a) (trail a)))))"
proof -
  let ?xs = "take k (echoed (raw a) (trail a))"
  have room: "lex_room B C n L" and mem: "lex_mem m0 B C n L (s, m) a" using assms by (auto simp: lex_rep_def)
  note mm = lex_memD [OF mem] and r = room [unfolded lex_room_def]
  have k: "length ?xs = k" "k \<le> n" using assms(2) out_length_le [of a] mm(4) by (simp_all add: out_length_def)
  have "take k (region m C (k + (out_length a - k))) = ?xs" using mm(6) assms(2) by simp
  then have "region m C (length ?xs) = ?xs" unfolding region_append k by simp
  moreover have "C + length ?xs < 2 ^ 64" using k r by linarith
  ultimately have "rtrim_loop sp m (of_nat C) (of_nat (C + length ?xs)) = Some (of_nat (C + length (rtrim sp ?xs)))"
    by (rule rtrim_loop_finds)
  then show "rtrim_loop sp m (m_cpp_buf s) (of_nat (C + k)) = Some (of_nat (C + length (rtrim sp ?xs)))"
    by (simp only: k mm(2))
  have "length (rtrim sp ?xs) \<le> n" using length_rtrim [of sp ?xs] k by linarith
  moreover have "0 < C" "C + n < 2 ^ 64" using r by blast+
  ultimately show "seen (m_cpp_buf s) (of_nat (C + length (rtrim sp ?xs))) = Some (length (rtrim sp ?xs))"
    unfolding mm(2) using place_seen place_Some by blast
qed

lemma marks_rep:
  assumes "lex_rep m0 B C n L (s, m) a" and "lex_marks B C n s' a'"
    and "m_ptr s' = m_ptr s" "m_cpp_ptr s' = m_cpp_ptr s" "m_buf s' = m_buf s" "m_cpp_buf s' = m_cpp_buf s" "m_end_of_query s' = m_end_of_query s"
    and "raw a' = raw a" "trail a' = trail a"
  shows "lex_rep m0 B C n L (s', m) a'"
  using assms by (simp add: lex_rep_def lex_mem_def out_length_def)

lemma rep_marks: "lex_rep m0 B C n L (s, m) a \<Longrightarrow> lex_marks B C n s a"
  by (simp add: lex_rep_def)

lemma rep_read: "lex_rep m0 B C n L (s, m) a \<Longrightarrow> i < n \<Longrightarrow> m (of_nat (B + i)) = raw a ! i"
  using lex_read by (auto simp: lex_rep_def)

lemma rep_ptr:
  assumes "lex_rep m0 B C n L (s, m) a"
  shows "m_ptr s = of_nat (B + length (trail a))" "m_buf s = of_nat B" "m_cpp_buf s = of_nat C" "m_cpp_ptr s = of_nat (C + out_length a)"
    "length (trail a) \<le> n" "out_length a \<le> n"
  using assms lex_memD [of m0 B C n L s m a] out_length_le [of a] by (auto simp: lex_rep_def simp del: of_nat_add)

lemma lex_refines_read:
  assumes rep: "lex_rep m0 B C n L (s, m) a" and spec: "lex_spec sp n L c a = Some (x, a')"
    and c: "c \<in> {Get, Get_last, Peek, Skip, Unget} \<union> range Peekn \<union> range Skipn \<union> range Skip_binary \<union> range Unput"
  shows "\<exists>s'. lex_step sp c (s, m) = Some (x, s') \<and> lex_rep m0 B C n L s' a'"
proof -
  note p = rep_ptr [OF rep] and rd = rep_read [OF rep]
  have peek: "m (m_ptr s) = raw a ! length (trail a)" if "length (trail a) < n" using rd [OF that] p(1) by simp
  have last: "m (m_ptr s - 1) = raw a ! (length (trail a) - 1)" if "trail a \<noteq> []"
  proof -
    have "m_ptr s - 1 = of_nat (B + (length (trail a) - 1))" using that p(1) by (cases "trail a") auto
    moreover have "length (trail a) - 1 < n" using that p(5) by (cases "trail a") auto
    ultimately show ?thesis using rd by simp
  qed
  have peekn: "m (m_ptr s + scast k) = raw a ! (length (trail a) + nat (sint k))"
    if "0 \<le> sint k" "length (trail a) + nat (sint k) < n" for k :: cint
  proof -
    have "m_ptr s + scast k = of_nat (B + (length (trail a) + nat (sint k)))"
      using p(1) scast_pos(1) [OF that(1)] by (simp add: ac_simps)
    then show ?thesis using rd [OF that(2)] by simp
  qed
  from c consider "c = Get" | "c = Get_last" | "c = Peek" | "c = Skip" | "c = Unget" | k where "c = Peekn k" | k where "c = Skipn k"
    | k where "c = Skip_binary k" | ch where "c = Unput ch" by blast
  then show ?thesis
  proof cases
    case 1
    then show ?thesis using spec peek read_one_rep [OF rep] by (auto simp: yyGet_skipn yyPeek_def split: if_splits)
  next
    case 2
    then show ?thesis using spec last rep by (auto simp: yyGetLast_def split: if_splits)
  next
    case 3
    then show ?thesis using spec peek rep by (auto simp: yyPeek_def split: if_splits)
  next
    case 4
    then show ?thesis using spec read_one_rep [OF rep] by (auto simp: yySkip_skipn split: if_splits)
  next
    case 5
    then show ?thesis using spec unget_rep [OF rep] by (auto simp: can_unget_def split: if_splits)
  next
    case (6 k)
    then show ?thesis using spec peekn rep by (auto simp: yyPeekn_def split: if_splits)
  next
    case (7 k)
    then show ?thesis using spec read_on_rep [OF rep] by (auto split: if_splits)
  next
    case (8 k)
    then show ?thesis using spec read_on_rep [OF rep] by (auto simp: skip_binary_skipn split: if_splits)
  next
    case (9 ch)
    then have cu: "trail a \<noteq> []" "last (trail a) = t_echo a" "x = Place (Some (length (trail a) - 1))"
      "a' = a\<lparr>raw := (raw a)[length (trail a) - 1 := ch], trail := butlast (trail a)\<rparr>"
      using spec by (auto simp: can_unget_def split: if_splits)
    obtain q s' where u: "yyUnput ch (s, m) = (q, s')" "q = of_nat (B + length (trail a) - 1)" "lex_rep m0 B C n L s' a'"
      using unput_rep [OF rep cu(1,2)] cu(4) by blast
    have "place B n (Some (length (trail a) - 1)) q" using u(2) cu(1) p(5) by (cases "trail a") (auto simp: place_def)
    then have "seen (m_buf s) q = Some (length (trail a) - 1)"
      using place_seen p(2) rep by (auto simp: lex_rep_def lex_room_def)
    then show ?thesis using u cu(3) 9 by auto
  qed
qed

lemma lex_refines:
  assumes rep: "lex_rep m0 B C n L s a" and spec: "lex_spec sp n L c a = Some (x, a')"
  shows "\<exists>s'. lex_step sp c s = Some (x, s') \<and> lex_rep m0 B C n L s' a'"
proof -
  obtain st m where s: "s = (st, m)" by fastforce
  note rep = rep [unfolded s]
  note p = rep_ptr [OF rep] and marks = rep_marks [OF rep, unfolded lex_marks_def] and see = rep_seen [OF rep]
  have pl: "place B n (Some (length (trail a))) (m_ptr st)" "place C n (Some (out_length a)) (m_cpp_ptr st)"
    using p by (simp_all only: place_Some)
  have full: "take (out_length a) (echoed (raw a) (trail a)) = echoed (raw a) (trail a)" by (simp add: out_length_def)
  have "\<exists>s'. lex_step sp c (st, m) = Some (x, s') \<and> lex_rep m0 B C n L s' a'"
  proof (cases c)
    case (Set_echo e)
    then show ?thesis using spec marks marks_rep [OF rep, of "set_echo e st" a'] by (auto simp: set_echo_def lex_marks_def has_lookahead_def)
  next
    case Save_comment
    then show ?thesis using spec marks marks_rep [OF rep, of "save_in_comment_state st" a']
      by (auto simp: save_in_comment_state_def lex_marks_def has_lookahead_def)
  next
    case Restore_comment
    then show ?thesis using spec marks marks_rep [OF rep, of "restore_in_comment_state st" a']
      by (auto simp: restore_in_comment_state_def lex_marks_def has_lookahead_def)
  next
    case Start_token
    then show ?thesis using spec marks pl marks_rep [OF rep, of "start_token st" a']
      by (auto simp: start_token_def lex_marks_def has_lookahead_def Let_def)
  next
    case Restart_token
    then show ?thesis using spec marks pl marks_rep [OF rep, of "restart_token st" a']
      by (auto simp: restart_token_def lex_marks_def has_lookahead_def)
  next
    case (Set_cpp_tok_start k)
    then have "place C n (Some k) (m_cpp_buf st + of_nat k)" using spec p(3) by (simp add: place_def split: if_splits)
    then show ?thesis using Set_cpp_tok_start spec marks marks_rep [OF rep, of "set_cpp_tok_start (m_cpp_buf st + of_nat k) st" a']
      by (auto simp: set_cpp_tok_start_def lex_marks_def has_lookahead_def split: if_splits)
  next
    case (Eof_n k)
    then show ?thesis using spec rep rep_eof [OF rep] by (auto split: if_splits)
  next
    case Eof
    then show ?thesis using spec rep rep_eof0 [OF rep] by auto
  next
    case Token_length
    then show ?thesis using spec rep rep_length [OF rep] by (auto split: option.splits if_splits)
  next
    case Cpp_tok_end_rtrim
    then obtain k where k: "c_end a = Some k" "k \<le> out_length a" "a' = a"
      "x = Place (Some (length (rtrim sp (take k (echoed (raw a) (trail a))))))" using spec by (auto split: option.splits if_splits)
    have "m_cpp_tok_end st = of_nat (C + k)" using marks k(1) by (auto simp: place_def)
    then show ?thesis using Cpp_tok_end_rtrim rep_rtrim [OF rep k(2), of sp] k rep by (simp add: get_cpp_tok_end_rtrim_def del: of_nat_add)
  next
    case Cpp_position_rtrim
    then have "x = Place (Some (length (rtrim sp (echoed (raw a) (trail a)))))" "a' = a" using spec by auto
    then show ?thesis using Cpp_position_rtrim rep_rtrim [OF rep order_refl, of sp] rep p(4) full
      by (simp add: get_cpp_ptr_rtrim_def del: of_nat_add)
  qed (use lex_refines_read [OF rep spec] spec rep see in auto)
  then show ?thesis using s by simp
qed

text \<open>A stream keeps the contract of a step, whatever the number of steps left.\<close>

interpretation lexer: simulation "\<lambda>k. lex_rep m0 B C n L" "lex_step sp" "lex_spec sp n L"
  by unfold_locales (rule lex_refines)

section \<open>Properties\<close>

text \<open>
  C5. A program of reads, steps back, echo switches and token marks returns on the two buffers what it returns on the text
  and the trail of the characters read; \<open>eof\<close> with a count says whether at most that many characters are left.
\<close>

theorem lex_program:
  assumes "lex_rep m0 B C n L s a" and "run_cmds (lex_spec sp n L) cs a = Some (xs, a')"
  shows "\<exists>s'. run_cmds (lex_step sp) cs s = Some (xs, s') \<and> lex_rep m0 B C n L s' a'"
  using lexer.run_refines [OF assms] .

definition example_stream :: lex_input_stream where
  "example_stream = \<lparr>lookahead_token = - 1, m_ptr = 100, m_tok_start = 0, m_tok_end = 0, m_end_of_query = 105, m_tok_start_prev = 0,
     m_buf = 100, m_buf_length = 5, m_echo = True, m_echo_saved = False, m_cpp_buf = 200, m_cpp_ptr = 200,
     m_cpp_tok_start = 0, m_cpp_tok_start_prev = 0, m_cpp_tok_end = 0, m_body_utf8 = 0, m_body_utf8_ptr = 0,
     in_comment = NO_COMMENT, in_comment_saved = NO_COMMENT\<rparr>"

text \<open>The text is \<open>a # b \<space>\<close> and the end mark.\<close>

definition example_memory :: memory where
  "example_memory = (\<lambda>_. 0)(100 := 97, 101 := 35, 102 := 98, 103 := 32)"

definition example_text :: lex_text where
  "example_text = \<lparr>raw = [97, 35, 98, 32, 0, 0], trail = [], t_echo = True, t_echo_saved = False, t_comment = NO_COMMENT,
     t_comment_saved = NO_COMMENT, t_lookahead = False, t_start = None, t_end = None, t_prev = None, c_start = None, c_end = None,
     c_prev = None\<rparr>"

lemma lex_example_rep: "lex_rep example_memory 100 200 6 5 (example_stream, example_memory) example_text"
  by (simp add: lex_rep_def lex_room_def lex_mem_def lex_marks_def example_stream_def example_memory_def example_text_def
      region_def upt_rec out_length_def untouched_def has_lookahead_def place_def)

definition example_program :: "lex_cmd list" where
  "example_program = [Start_token, Get, Set_echo False, Get, Set_echo True, Get, Skip, Eof, Eof_n 1, Cpp_position, Cpp_position_rtrim, Unget,
     Peek, Token_length]"

lemma example_spec_run:
  "\<exists>b. run_cmds (lex_spec (\<lambda>c. c = 32) 6 5) example_program example_text =
     Some ([Done, Chr 97, Done, Chr 35, Done, Chr 98, Done, Flag False, Flag True, Place (Some 3), Place (Some 2), Done, Chr 32, Len 2], b) \<and>
     echoed (raw b) (trail b) = [97, 98]"
  by (simp add: example_program_def example_text_def read_on_def can_unget_def out_length_def echoed_def rtrim_def)

theorem lex_program_witness:
  "\<exists>s'. run_cmds (lex_step (\<lambda>c. c = 32)) example_program (example_stream, example_memory) =
     Some ([Done, Chr 97, Done, Chr 35, Done, Chr 98, Done, Flag False, Flag True, Place (Some 3), Place (Some 2), Done, Chr 32, Len 2], s')"
  using lex_program [OF lex_example_rep] example_spec_run by blast

text \<open>
  C12. The preprocessed buffer always holds exactly the characters that were read with the echo on and not given back, in
  their order; it never holds more than were read, so that a buffer as long as the text is enough, and nothing outside the
  two buffers is written.
\<close>

theorem preprocessed_text:
  assumes "lex_rep m0 B C n L s a" and "run_cmds (lex_spec sp n L) cs a = Some (xs, a')"
  shows "\<exists>s' m'. run_cmds (lex_step sp) cs s = Some (xs, s', m') \<and>
    region m' C (unat (m_cpp_ptr s' - m_cpp_buf s')) = map fst (filter snd (zip (raw a') (trail a'))) \<and>
    unat (m_cpp_ptr s' - m_cpp_buf s') \<le> unat (m_ptr s' - m_buf s') \<and> unat (m_ptr s' - m_buf s') = length (trail a') \<and>
    length (trail a') \<le> n \<and> region m' B n = raw a' \<and> untouched m0 m' B C n"
proof -
  obtain s' m' where r: "run_cmds (lex_step sp) cs s = Some (xs, s', m')" "lex_rep m0 B C n L (s', m') a'"
    using lexer.run_refines [OF assms] by (metis prod.exhaust)
  then have room: "lex_room B C n L" and mem: "lex_mem m0 B C n L (s', m') a'" by (auto simp: lex_rep_def)
  note mm = lex_memD [OF mem]
  have o: "out_length a' \<le> length (trail a')" by (rule out_length_le)
  have "m_cpp_ptr s' - m_cpp_buf s' = of_nat (out_length a')" "m_ptr s' - m_buf s' = of_nat (length (trail a'))"
    using mm(1,2,7,8) by simp_all
  moreover have "unat (of_nat (out_length a') :: addr) = out_length a'" "unat (of_nat (length (trail a')) :: addr) = length (trail a')"
    using o mm(4) room by (intro unat_of_nat_small; simp add: lex_room_def)+
  ultimately show ?thesis using r(1) mm(4,5,6,9) o by (auto simp: echoed_def)
qed

theorem preprocessed_text_witness:
  "\<exists>xs s' m'. run_cmds (lex_step (\<lambda>c. c = 32)) example_program (example_stream, example_memory) = Some (xs, s', m') \<and>
     region m' 200 2 = [97, 98]"
proof -
  obtain xs b where b: "run_cmds (lex_spec (\<lambda>c. c = 32) 6 5) example_program example_text = Some (xs, b)" "echoed (raw b) (trail b) = [97, 98]"
    using example_spec_run by blast
  obtain s' m' where r: "run_cmds (lex_step (\<lambda>c. c = 32)) example_program (example_stream, example_memory) = Some (xs, s', m')"
    "region m' 200 (unat (m_cpp_ptr s' - m_cpp_buf s')) = echoed (raw b) (trail b)"
    using preprocessed_text [OF lex_example_rep b(1)] by (auto simp: echoed_def)
  have "unat (m_cpp_ptr s' - m_cpp_buf s') = length (region m' 200 (unat (m_cpp_ptr s' - m_cpp_buf s')))" by simp
  also have "\<dots> = 2" unfolding r(2) b(2) by simp
  finally show ?thesis using r b(2) by auto
qed

text \<open>
  Going back after the echo was switched off leaves the character in the preprocessed buffer: read again with the echo
  on, it is there twice.
\<close>

theorem unget_after_echo_change:
  assumes "lex_rep m0 B C n L (s, m) a" and "t_echo a" and "length (trail a) < n" and "out_length a + 2 \<le> n"
  shows "\<exists>s' m'. run_cmds (lex_step sp) [Get, Set_echo False, Unget, Set_echo True, Get] (s, m) =
      Some ([Chr (raw a ! length (trail a)), Done, Done, Done, Chr (raw a ! length (trail a))], s', m') \<and>
    m_ptr s' = m_ptr s + 1 \<and> m_cpp_ptr s' = m_cpp_ptr s + 2 \<and>
    region m' C (out_length a + 2) = echoed (raw a) (trail a) @ [raw a ! length (trail a), raw a ! length (trail a)]"
proof -
  let ?c = "raw a ! length (trail a)" and ?o = "out_length a"
  have room: "lex_room B C n L" and mem: "lex_mem m0 B C n L (s, m) a" and e: "m_echo s"
    using assms(1,2) by (auto simp: lex_rep_def lex_marks_def)
  note mm = lex_memD [OF mem] and r = room [unfolded lex_room_def]
  have c: "m (m_ptr s) = ?c" using lex_read [OF mem assms(3)] mm(7) by simp
  let ?m1 = "m(of_nat (C + ?o) := ?c)"
  let ?m2 = "?m1(of_nat (C + (?o + 1)) := ?c)"
  have ptr: "m_cpp_ptr s = of_nat (C + ?o)" "m_cpp_ptr s + 1 = of_nat (C + (?o + 1))" using mm(8) by simp_all
  have fit: "C + (?o + 2) \<le> 2 ^ 64" using r assms(4) by linarith
  have "region m C (?o + 2) = echoed (raw a) (trail a) @ region m (C + ?o) 2" by (simp only: region_append mm(6))
  moreover have "region ?m2 C (?o + 2) = (region m C (?o + 2))[?o := ?c, ?o + 1 := ?c]"
  proof -
    have "region ?m2 C (?o + 2) = (region ?m1 C (?o + 2))[?o + 1 := ?c]" by (rule region_update [OF fit]) simp
    also have "region ?m1 C (?o + 2) = (region m C (?o + 2))[?o := ?c]" by (rule region_update [OF fit]) simp
    finally show ?thesis .
  qed
  ultimately have "region ?m2 C (?o + 2) = echoed (raw a) (trail a) @ [?c, ?c]"
    by (simp add: list_update_append out_length_def [symmetric] region_def upt_rec)
  moreover have "yyGet (s, m) = (?c, s\<lparr>m_ptr := m_ptr s + 1, m_cpp_ptr := m_cpp_ptr s + 1\<rparr>, ?m1)"
    using e c ptr by (simp add: yyGet_def Let_def)
  moreover have "yyGet (s\<lparr>m_cpp_ptr := m_cpp_ptr s + 1, m_echo := True\<rparr>, ?m1) =
      (?c, s\<lparr>m_ptr := m_ptr s + 1, m_cpp_ptr := m_cpp_ptr s + 1 + 1, m_echo := True\<rparr>, ?m2)"
    using c ptr by (simp add: yyGet_def Let_def add.commute)
  ultimately show ?thesis by (simp add: set_echo_def yyUnget_def)
qed

theorem unget_after_echo_change_witness:
  "\<exists>s' m'. run_cmds (lex_step (\<lambda>c. c = 32)) [Get, Set_echo False, Unget, Set_echo True, Get] (example_stream, example_memory) =
     Some ([Chr 97, Done, Done, Done, Chr 97], s', m') \<and> region m' 200 2 = [97, 97]"
proof -
  have p: "t_echo example_text" "length (trail example_text) < 6" "out_length example_text + 2 \<le> 6"
    and v: "raw example_text ! length (trail example_text) = 97" "out_length example_text = 0" "echoed (raw example_text) (trail example_text) = []"
    by (simp_all add: example_text_def out_length_def)
  from unget_after_echo_change [OF lex_example_rep p, of "\<lambda>c. c = 32"] show ?thesis
    unfolding v append_Nil add_0 by blast
qed

end
