(* ===== verification/Statement_Flags.thy ===== *)
theory Statement_Flags
  imports Simulation "HOL-Library.Monad_Syntax"
begin

text \<open>
  What a statement is known to do that matters for the binary log (\<open>Query_tables_list\<close> of \<open>sql_lex.h\<close>): the reasons why it is
  unsafe to log as a statement, whether it is a row injection, and the kinds of tables it accesses, as bits of two words.
  The table of unsafe combinations is filled outside the repository and is a parameter.
\<close>

section \<open>Flags\<close>

datatype enum_binlog_stmt_unsafe =
    BINLOG_STMT_UNSAFE_LIMIT
  | BINLOG_STMT_UNSAFE_INSERT_DELAYED
  | BINLOG_STMT_UNSAFE_SYSTEM_TABLE
  | BINLOG_STMT_UNSAFE_AUTOINC_COLUMNS
  | BINLOG_STMT_UNSAFE_UDF
  | BINLOG_STMT_UNSAFE_SYSTEM_VARIABLE
  | BINLOG_STMT_UNSAFE_SYSTEM_FUNCTION
  | BINLOG_STMT_UNSAFE_NONTRANS_AFTER_TRANS
  | BINLOG_STMT_UNSAFE_MULTIPLE_ENGINES_AND_SELF_LOGGING_ENGINE
  | BINLOG_STMT_UNSAFE_MIXED_STATEMENT
  | BINLOG_STMT_UNSAFE_INSERT_IGNORE_SELECT
  | BINLOG_STMT_UNSAFE_INSERT_SELECT_UPDATE
  | BINLOG_STMT_UNSAFE_WRITE_AUTOINC_SELECT
  | BINLOG_STMT_UNSAFE_REPLACE_SELECT
  | BINLOG_STMT_UNSAFE_CREATE_IGNORE_SELECT
  | BINLOG_STMT_UNSAFE_CREATE_REPLACE_SELECT
  | BINLOG_STMT_UNSAFE_CREATE_SELECT_AUTOINC
  | BINLOG_STMT_UNSAFE_UPDATE_IGNORE
  | BINLOG_STMT_UNSAFE_INSERT_TWO_KEYS
  | BINLOG_STMT_UNSAFE_AUTOINC_NOT_FIRST
  | BINLOG_STMT_UNSAFE_AUTOINC_LOCK_MODE
  | BINLOG_STMT_UNSAFE_SKIP_LOCKED

text \<open>The numbers of the enumerators.\<close>

primrec unsafe_number :: "enum_binlog_stmt_unsafe \<Rightarrow> nat" where
  "unsafe_number BINLOG_STMT_UNSAFE_LIMIT = 0"
| "unsafe_number BINLOG_STMT_UNSAFE_INSERT_DELAYED = 1"
| "unsafe_number BINLOG_STMT_UNSAFE_SYSTEM_TABLE = 2"
| "unsafe_number BINLOG_STMT_UNSAFE_AUTOINC_COLUMNS = 3"
| "unsafe_number BINLOG_STMT_UNSAFE_UDF = 4"
| "unsafe_number BINLOG_STMT_UNSAFE_SYSTEM_VARIABLE = 5"
| "unsafe_number BINLOG_STMT_UNSAFE_SYSTEM_FUNCTION = 6"
| "unsafe_number BINLOG_STMT_UNSAFE_NONTRANS_AFTER_TRANS = 7"
| "unsafe_number BINLOG_STMT_UNSAFE_MULTIPLE_ENGINES_AND_SELF_LOGGING_ENGINE = 8"
| "unsafe_number BINLOG_STMT_UNSAFE_MIXED_STATEMENT = 9"
| "unsafe_number BINLOG_STMT_UNSAFE_INSERT_IGNORE_SELECT = 10"
| "unsafe_number BINLOG_STMT_UNSAFE_INSERT_SELECT_UPDATE = 11"
| "unsafe_number BINLOG_STMT_UNSAFE_WRITE_AUTOINC_SELECT = 12"
| "unsafe_number BINLOG_STMT_UNSAFE_REPLACE_SELECT = 13"
| "unsafe_number BINLOG_STMT_UNSAFE_CREATE_IGNORE_SELECT = 14"
| "unsafe_number BINLOG_STMT_UNSAFE_CREATE_REPLACE_SELECT = 15"
| "unsafe_number BINLOG_STMT_UNSAFE_CREATE_SELECT_AUTOINC = 16"
| "unsafe_number BINLOG_STMT_UNSAFE_UPDATE_IGNORE = 17"
| "unsafe_number BINLOG_STMT_UNSAFE_INSERT_TWO_KEYS = 18"
| "unsafe_number BINLOG_STMT_UNSAFE_AUTOINC_NOT_FIRST = 19"
| "unsafe_number BINLOG_STMT_UNSAFE_AUTOINC_LOCK_MODE = 20"
| "unsafe_number BINLOG_STMT_UNSAFE_SKIP_LOCKED = 21"

definition BINLOG_STMT_UNSAFE_COUNT :: nat where "BINLOG_STMT_UNSAFE_COUNT = 22"

definition BINLOG_STMT_UNSAFE_ALL_FLAGS :: uint32 where
  "BINLOG_STMT_UNSAFE_ALL_FLAGS = push_bit BINLOG_STMT_UNSAFE_COUNT 1 - 1"

definition BINLOG_STMT_TYPE_ROW_INJECTION :: nat where "BINLOG_STMT_TYPE_ROW_INJECTION = BINLOG_STMT_UNSAFE_COUNT"

datatype enum_stmt_accessed_table =
    STMT_READS_TRANS_TABLE
  | STMT_READS_NON_TRANS_TABLE
  | STMT_READS_TEMP_TRANS_TABLE
  | STMT_READS_TEMP_NON_TRANS_TABLE
  | STMT_WRITES_TRANS_TABLE
  | STMT_WRITES_NON_TRANS_TABLE
  | STMT_WRITES_TEMP_TRANS_TABLE
  | STMT_WRITES_TEMP_NON_TRANS_TABLE

primrec access_number :: "enum_stmt_accessed_table \<Rightarrow> nat" where
  "access_number STMT_READS_TRANS_TABLE = 0"
| "access_number STMT_READS_NON_TRANS_TABLE = 1"
| "access_number STMT_READS_TEMP_TRANS_TABLE = 2"
| "access_number STMT_READS_TEMP_NON_TRANS_TABLE = 3"
| "access_number STMT_WRITES_TRANS_TABLE = 4"
| "access_number STMT_WRITES_NON_TRANS_TABLE = 5"
| "access_number STMT_WRITES_TEMP_TRANS_TABLE = 6"
| "access_number STMT_WRITES_TEMP_NON_TRANS_TABLE = 7"

record stmt_flags =
  binlog_stmt_flags :: uint32
  stmt_accessed_table_flag :: uint32

definition get_stmt_unsafe_flags :: "stmt_flags \<Rightarrow> uint32" where
  "get_stmt_unsafe_flags q = binlog_stmt_flags q AND BINLOG_STMT_UNSAFE_ALL_FLAGS"

definition is_stmt_unsafe :: "stmt_flags \<Rightarrow> bool" where "is_stmt_unsafe q \<longleftrightarrow> get_stmt_unsafe_flags q \<noteq> 0"

definition is_stmt_unsafe_type :: "enum_binlog_stmt_unsafe \<Rightarrow> stmt_flags \<Rightarrow> bool" where
  "is_stmt_unsafe_type unsafe q \<longleftrightarrow> binlog_stmt_flags q AND push_bit (unsafe_number unsafe) 1 \<noteq> 0"

definition set_stmt_unsafe :: "enum_binlog_stmt_unsafe \<Rightarrow> stmt_flags \<Rightarrow> stmt_flags" where
  "set_stmt_unsafe unsafe_type q = q\<lparr>binlog_stmt_flags := binlog_stmt_flags q OR push_bit (unsafe_number unsafe_type) 1\<rparr>"

text \<open>A failed assertion is \<open>None\<close>.\<close>

definition set_stmt_unsafe_flags :: "uint32 \<Rightarrow> stmt_flags \<Rightarrow> stmt_flags option" where
  "set_stmt_unsafe_flags flags q =
     (if flags AND NOT BINLOG_STMT_UNSAFE_ALL_FLAGS = 0 then Some (q\<lparr>binlog_stmt_flags := binlog_stmt_flags q OR flags\<rparr>) else None)"

definition clear_stmt_unsafe :: "stmt_flags \<Rightarrow> stmt_flags" where
  "clear_stmt_unsafe q = q\<lparr>binlog_stmt_flags := binlog_stmt_flags q AND NOT BINLOG_STMT_UNSAFE_ALL_FLAGS\<rparr>"

definition is_stmt_row_injection :: "stmt_flags \<Rightarrow> bool" where
  "is_stmt_row_injection q \<longleftrightarrow> binlog_stmt_flags q AND push_bit BINLOG_STMT_TYPE_ROW_INJECTION 1 \<noteq> 0"

definition set_stmt_row_injection :: "stmt_flags \<Rightarrow> stmt_flags" where
  "set_stmt_row_injection q = q\<lparr>binlog_stmt_flags := binlog_stmt_flags q OR push_bit BINLOG_STMT_TYPE_ROW_INJECTION 1\<rparr>"

definition set_stmt_accessed_table :: "enum_stmt_accessed_table \<Rightarrow> stmt_flags \<Rightarrow> stmt_flags" where
  "set_stmt_accessed_table accessed_table q =
     q\<lparr>stmt_accessed_table_flag := stmt_accessed_table_flag q OR push_bit (access_number accessed_table) 1\<rparr>"

definition stmt_accessed_table :: "enum_stmt_accessed_table \<Rightarrow> stmt_flags \<Rightarrow> bool" where
  "stmt_accessed_table accessed_table q \<longleftrightarrow> stmt_accessed_table_flag q AND push_bit (access_number accessed_table) 1 \<noteq> 0"

definition stmt_accessed_non_trans_temp_table :: "stmt_flags \<Rightarrow> bool" where
  "stmt_accessed_non_trans_temp_table q \<longleftrightarrow>
     stmt_accessed_table_flag q AND (push_bit (access_number STMT_READS_TEMP_NON_TRANS_TABLE) 1 OR
       push_bit (access_number STMT_WRITES_TEMP_NON_TRANS_TABLE) 1) \<noteq> 0"

definition stmt_accessed_trans_temp_table :: "stmt_flags \<Rightarrow> bool" where
  "stmt_accessed_trans_temp_table q \<longleftrightarrow>
     stmt_accessed_table_flag q AND (push_bit (access_number STMT_READS_TEMP_TRANS_TABLE) 1 OR
       push_bit (access_number STMT_WRITES_TEMP_TRANS_TABLE) 1) \<noteq> 0"

definition stmt_accessed_temp_table :: "stmt_flags \<Rightarrow> bool" where
  "stmt_accessed_temp_table q \<longleftrightarrow> stmt_accessed_non_trans_temp_table q \<or> stmt_accessed_trans_temp_table q"

definition stmt_writes_to_non_temp_table :: "stmt_flags \<Rightarrow> bool" where
  "stmt_writes_to_non_temp_table q \<longleftrightarrow>
     stmt_accessed_table_flag q AND (push_bit (access_number STMT_WRITES_TRANS_TABLE) 1 OR
       push_bit (access_number STMT_WRITES_NON_TRANS_TABLE) 1) \<noteq> 0"

section \<open>Mixed statements\<close>

definition BINLOG_DIRECT_ON :: uint where "BINLOG_DIRECT_ON = 0xF0"
definition BINLOG_DIRECT_OFF :: uint where "BINLOG_DIRECT_OFF = 0xF"
definition TRX_CACHE_EMPTY :: uint where "TRX_CACHE_EMPTY = 0x33"
definition TRX_CACHE_NOT_EMPTY :: uint where "TRX_CACHE_NOT_EMPTY = 0xCC"
definition IL_LT_REPEATABLE :: uint where "IL_LT_REPEATABLE = 0xAA"
definition IL_GTE_REPEATABLE :: uint where "IL_GTE_REPEATABLE = 0x55"
definition ISO_REPEATABLE_READ :: uint where "ISO_REPEATABLE_READ = 2"

text \<open>A place of the table outside its bounds is \<open>None\<close>.\<close>

definition at_map :: "uint list \<Rightarrow> uint32 \<Rightarrow> uint option" where
  "at_map xs i = (if unat i < length xs then Some (xs ! unat i) else None)"

definition is_mixed_stmt_unsafe :: "uint list \<Rightarrow> bool \<Rightarrow> bool \<Rightarrow> bool \<Rightarrow> uint \<Rightarrow> stmt_flags \<Rightarrow> bool option" where
  "is_mixed_stmt_unsafe binlog_unsafe_map in_multi_stmt_transaction_mode binlog_direct trx_cache_is_not_empty tx_isolation q = do {
     unsafe \<leftarrow> (if in_multi_stmt_transaction_mode
       then let condition = (if binlog_direct then BINLOG_DIRECT_ON else BINLOG_DIRECT_OFF) AND
                  (if trx_cache_is_not_empty then TRX_CACHE_NOT_EMPTY else TRX_CACHE_EMPTY) AND
                  (if ISO_REPEATABLE_READ \<le> tx_isolation then IL_GTE_REPEATABLE else IL_LT_REPEATABLE)
            in map_option (\<lambda>w. w AND condition \<noteq> 0) (at_map binlog_unsafe_map (stmt_accessed_table_flag q))
       else Some False);
     Some (if stmt_accessed_table STMT_WRITES_NON_TRANS_TABLE q \<and> stmt_accessed_table STMT_READS_TRANS_TABLE q \<and>
              tx_isolation < ISO_REPEATABLE_READ then True
           else if stmt_accessed_table STMT_WRITES_TEMP_NON_TRANS_TABLE q \<and> stmt_accessed_table STMT_READS_TRANS_TABLE q \<and>
              tx_isolation < ISO_REPEATABLE_READ then True
           else unsafe) }"

section \<open>Sets of flags\<close>

lemma and_single: "w AND 2 ^ k \<noteq> 0 \<longleftrightarrow> bit w k" for w :: uint32
  by (simp add: and_exp_eq_0_iff_not_bit)

lemma bit_single: "bit (2 ^ k :: uint32) i \<longleftrightarrow> i = k \<and> i < 32"
  by (auto simp: bit_simps)

lemma all_flags_mask: "BINLOG_STMT_UNSAFE_ALL_FLAGS = mask 22"
  by (simp add: BINLOG_STMT_UNSAFE_ALL_FLAGS_def BINLOG_STMT_UNSAFE_COUNT_def mask_eq_decr_exp push_bit_eq_mult)

lemma unsafe_number_less: "unsafe_number u < 22"
  by (cases u) simp_all

lemma unsafe_number_inj: "unsafe_number u = unsafe_number v \<longleftrightarrow> u = v"
  by (cases u; cases v) simp_all

lemma access_number_less: "access_number t < 8"
  by (cases t) simp_all

lemma access_number_inj: "access_number t = access_number u \<longleftrightarrow> t = u"
  by (cases t; cases u) simp_all

lemma unsafe_number_other [simp]: "unsafe_number u \<noteq> 22" "22 \<noteq> unsafe_number u"
  using unsafe_number_less [of u] by simp_all

text \<open>The reasons, whether it is a row injection, and the kinds of tables.\<close>

record stmt_facts =
  reasons :: "enum_binlog_stmt_unsafe set"
  row_injection :: bool
  accessed :: "enum_stmt_accessed_table set"

definition flags_rep :: "stmt_flags \<Rightarrow> stmt_facts \<Rightarrow> bool" where
  "flags_rep q a \<longleftrightarrow>
     (\<forall>i. bit (binlog_stmt_flags q) i \<longleftrightarrow> (\<exists>u\<in>reasons a. i = unsafe_number u) \<or> i = 22 \<and> row_injection a) \<and>
     (\<forall>i. bit (stmt_accessed_table_flag q) i \<longleftrightarrow> (\<exists>t\<in>accessed a. i = access_number t))"

lemma rep_reason: "flags_rep q a \<Longrightarrow> bit (binlog_stmt_flags q) (unsafe_number u) \<longleftrightarrow> u \<in> reasons a"
  using unsafe_number_less [of u] by (auto simp: flags_rep_def unsafe_number_inj)

lemma rep_row: "flags_rep q a \<Longrightarrow> bit (binlog_stmt_flags q) 22 \<longleftrightarrow> row_injection a"
  using unsafe_number_less by (auto simp: flags_rep_def)

lemma rep_access: "flags_rep q a \<Longrightarrow> bit (stmt_accessed_table_flag q) (access_number t) \<longleftrightarrow> t \<in> accessed a"
  by (auto simp: flags_rep_def access_number_inj)

lemma rep_access_small: "flags_rep q a \<Longrightarrow> unat (stmt_accessed_table_flag q) < 256"
proof -
  assume "flags_rep q a"
  then have "take_bit 8 (stmt_accessed_table_flag q) = stmt_accessed_table_flag q"
    using access_number_less by (intro bit_word_eqI) (auto simp: flags_rep_def bit_simps)
  then show ?thesis by (simp add: take_bit_same_iff)
qed

lemma mask_bit: "bit (mask 22 :: uint32) i \<longleftrightarrow> i < 22"
  by (auto simp: bit_simps)

lemma rep_unsafe_flags:
  assumes "flags_rep q a"
  shows "bit (get_stmt_unsafe_flags q) i \<longleftrightarrow> (\<exists>u\<in>reasons a. i = unsafe_number u)"
  using assms unsafe_number_less
  by (auto simp: get_stmt_unsafe_flags_def all_flags_mask flags_rep_def bit_and_iff mask_bit)

lemma rep_is_unsafe: "flags_rep q a \<Longrightarrow> is_stmt_unsafe q \<longleftrightarrow> reasons a \<noteq> {}"
proof -
  assume r: "flags_rep q a"
  have "get_stmt_unsafe_flags q = 0 \<longleftrightarrow> (\<forall>i. \<not> bit (get_stmt_unsafe_flags q) i)"
    by (metis bit_0_eq bot_apply bot_bool_def bit_word_eqI)
  then show ?thesis using rep_unsafe_flags [OF r] by (auto simp: is_stmt_unsafe_def)
qed

lemma and_pair: "w AND (2 ^ j OR 2 ^ k) \<noteq> 0 \<longleftrightarrow> bit w j \<or> bit w k" for w :: uint32
  using and_single [of w j] and_single [of w k] by (auto simp: bit.conj_disj_distrib or_eq_0_iff)

section \<open>Programs\<close>

datatype flag_cmd =
    Set_unsafe enum_binlog_stmt_unsafe
  | Set_unsafe_all "enum_binlog_stmt_unsafe list"
  | Clear_unsafe
  | Set_row_injection
  | Set_accessed enum_stmt_accessed_table
  | Is_unsafe
  | Is_unsafe_type enum_binlog_stmt_unsafe
  | Unsafe_flags
  | Is_row_injection
  | Accessed enum_stmt_accessed_table
  | Accessed_temp
  | Accessed_trans_temp
  | Accessed_non_trans_temp
  | Writes_non_temp

datatype flag_out = Done | Bool bool | Reasons "enum_binlog_stmt_unsafe set"

definition reasons_word :: "enum_binlog_stmt_unsafe list \<Rightarrow> uint32" where
  "reasons_word us = foldr (\<lambda>u w. push_bit (unsafe_number u) 1 OR w) us 0"

fun flag_step :: "flag_cmd \<Rightarrow> stmt_flags \<Rightarrow> (flag_out \<times> stmt_flags) option" where
  "flag_step (Set_unsafe u) q = Some (Done, set_stmt_unsafe u q)"
| "flag_step (Set_unsafe_all us) q = map_option (\<lambda>q. (Done, q)) (set_stmt_unsafe_flags (reasons_word us) q)"
| "flag_step Clear_unsafe q = Some (Done, clear_stmt_unsafe q)"
| "flag_step Set_row_injection q = Some (Done, set_stmt_row_injection q)"
| "flag_step (Set_accessed t) q = Some (Done, set_stmt_accessed_table t q)"
| "flag_step Is_unsafe q = Some (Bool (is_stmt_unsafe q), q)"
| "flag_step (Is_unsafe_type u) q = Some (Bool (is_stmt_unsafe_type u q), q)"
| "flag_step Unsafe_flags q = Some (Reasons {u. bit (get_stmt_unsafe_flags q) (unsafe_number u)}, q)"
| "flag_step Is_row_injection q = Some (Bool (is_stmt_row_injection q), q)"
| "flag_step (Accessed t) q = Some (Bool (stmt_accessed_table t q), q)"
| "flag_step Accessed_temp q = Some (Bool (stmt_accessed_temp_table q), q)"
| "flag_step Accessed_trans_temp q = Some (Bool (stmt_accessed_trans_temp_table q), q)"
| "flag_step Accessed_non_trans_temp q = Some (Bool (stmt_accessed_non_trans_temp_table q), q)"
| "flag_step Writes_non_temp q = Some (Bool (stmt_writes_to_non_temp_table q), q)"

fun flag_spec :: "flag_cmd \<Rightarrow> stmt_facts \<Rightarrow> (flag_out \<times> stmt_facts) option" where
  "flag_spec (Set_unsafe u) a = Some (Done, a\<lparr>reasons := insert u (reasons a)\<rparr>)"
| "flag_spec (Set_unsafe_all us) a = Some (Done, a\<lparr>reasons := reasons a \<union> set us\<rparr>)"
| "flag_spec Clear_unsafe a = Some (Done, a\<lparr>reasons := {}\<rparr>)"
| "flag_spec Set_row_injection a = Some (Done, a\<lparr>row_injection := True\<rparr>)"
| "flag_spec (Set_accessed t) a = Some (Done, a\<lparr>accessed := insert t (accessed a)\<rparr>)"
| "flag_spec Is_unsafe a = Some (Bool (reasons a \<noteq> {}), a)"
| "flag_spec (Is_unsafe_type u) a = Some (Bool (u \<in> reasons a), a)"
| "flag_spec Unsafe_flags a = Some (Reasons (reasons a), a)"
| "flag_spec Is_row_injection a = Some (Bool (row_injection a), a)"
| "flag_spec (Accessed t) a = Some (Bool (t \<in> accessed a), a)"
| "flag_spec Accessed_temp a =
     Some (Bool (accessed a \<inter> {STMT_READS_TEMP_TRANS_TABLE, STMT_READS_TEMP_NON_TRANS_TABLE, STMT_WRITES_TEMP_TRANS_TABLE,
       STMT_WRITES_TEMP_NON_TRANS_TABLE} \<noteq> {}), a)"
| "flag_spec Accessed_trans_temp a = Some (Bool (accessed a \<inter> {STMT_READS_TEMP_TRANS_TABLE, STMT_WRITES_TEMP_TRANS_TABLE} \<noteq> {}), a)"
| "flag_spec Accessed_non_trans_temp a =
     Some (Bool (accessed a \<inter> {STMT_READS_TEMP_NON_TRANS_TABLE, STMT_WRITES_TEMP_NON_TRANS_TABLE} \<noteq> {}), a)"
| "flag_spec Writes_non_temp a = Some (Bool (accessed a \<inter> {STMT_WRITES_TRANS_TABLE, STMT_WRITES_NON_TRANS_TABLE} \<noteq> {}), a)"

lemma bit_reasons_word: "bit (reasons_word us) i \<longleftrightarrow> (\<exists>u\<in>set us. i = unsafe_number u)"
proof (induction us)
  case (Cons u us)
  have "unsafe_number u < 32" using unsafe_number_less [of u] by simp
  then show ?case using Cons by (auto simp: reasons_word_def bit_or_iff bit_single)
qed (simp add: reasons_word_def)

lemma reasons_word_fits: "reasons_word us AND NOT BINLOG_STMT_UNSAFE_ALL_FLAGS = 0"
proof (rule bit_word_eqI)
  fix i
  show "bit (reasons_word us AND NOT BINLOG_STMT_UNSAFE_ALL_FLAGS) i = bit (0 :: uint32) i"
    using unsafe_number_less by (auto simp: bit_and_iff bit_not_iff bit_reasons_word all_flags_mask mask_bit)
qed

lemma flags_refine:
  assumes rep: "flags_rep q a" and spec: "flag_spec c a = Some (x, a')"
  shows "\<exists>q'. flag_step c q = Some (x, q') \<and> flags_rep q' a'"
proof (cases c)
  case (Set_unsafe u)
  have "unsafe_number u < 32" using unsafe_number_less [of u] by simp
  then show ?thesis using Set_unsafe rep spec by (auto simp: flags_rep_def set_stmt_unsafe_def bit_or_iff bit_single)
next
  case (Set_unsafe_all us)
  then show ?thesis using rep spec reasons_word_fits [of us]
    by (auto simp: set_stmt_unsafe_flags_def flags_rep_def bit_or_iff bit_reasons_word)
next
  case Clear_unsafe
  have "bit (binlog_stmt_flags q AND NOT (mask 22)) i \<longleftrightarrow> i = 22 \<and> row_injection a" for i
    using rep unsafe_number_less bit_imp_le_length [of "binlog_stmt_flags q" i]
    by (auto simp: flags_rep_def bit_and_iff bit_not_iff mask_bit)
  then show ?thesis using Clear_unsafe rep spec by (auto simp: clear_stmt_unsafe_def all_flags_mask flags_rep_def)
next
  case Set_row_injection
  have "bit (push_bit BINLOG_STMT_TYPE_ROW_INJECTION 1 :: uint32) i \<longleftrightarrow> i = 22" for i
    using bit_single [of 22 i] by (auto simp: BINLOG_STMT_TYPE_ROW_INJECTION_def BINLOG_STMT_UNSAFE_COUNT_def)
  then show ?thesis using Set_row_injection rep spec
    by (auto simp: flags_rep_def set_stmt_row_injection_def bit_or_iff simp del: push_bit_of_1)
next
  case (Set_accessed t)
  have "access_number t < 32" using access_number_less [of t] by simp
  then show ?thesis using Set_accessed rep spec by (auto simp: flags_rep_def set_stmt_accessed_table_def bit_or_iff bit_single)
next
  case Is_row_injection
  have "is_stmt_row_injection q \<longleftrightarrow> bit (binlog_stmt_flags q) 22" using and_single [of "binlog_stmt_flags q" 22]
    by (simp add: is_stmt_row_injection_def BINLOG_STMT_TYPE_ROW_INJECTION_def BINLOG_STMT_UNSAFE_COUNT_def)
  then show ?thesis using Is_row_injection spec rep rep_row [OF rep] by auto
next
  case Unsafe_flags
  then show ?thesis using rep spec by (auto simp: rep_unsafe_flags [OF rep] unsafe_number_inj)
qed (use spec rep rep_is_unsafe [OF rep] rep_reason [OF rep] rep_access [OF rep] in
     \<open>auto simp: is_stmt_unsafe_type_def and_single stmt_accessed_table_def stmt_accessed_temp_table_def stmt_accessed_trans_temp_table_def
        stmt_accessed_non_trans_temp_table_def stmt_writes_to_non_temp_table_def and_pair simp del: access_number.simps\<close>)

interpretation flags: simulation "\<lambda>k. flags_rep" flag_step flag_spec
  by unfold_locales (rule flags_refine)

section \<open>The eight situations\<close>

text \<open>The options and the isolation level of a statement, as the number of one bit of the table.\<close>

definition situation :: "bool \<Rightarrow> bool \<Rightarrow> uint \<Rightarrow> nat" where
  "situation direct not_empty lev =
     (if direct then 4 else 0) + (if not_empty then 2 else 0) + (if ISO_REPEATABLE_READ \<le> lev then 0 else 1)"

lemma situation_bit:
  "(if direct then BINLOG_DIRECT_ON else BINLOG_DIRECT_OFF) AND (if not_empty then TRX_CACHE_NOT_EMPTY else TRX_CACHE_EMPTY) AND
   (if ISO_REPEATABLE_READ \<le> lev then IL_GTE_REPEATABLE else IL_LT_REPEATABLE) = 2 ^ situation direct not_empty lev"
  by (simp add: situation_def BINLOG_DIRECT_ON_def BINLOG_DIRECT_OFF_def TRX_CACHE_NOT_EMPTY_def TRX_CACHE_EMPTY_def
      IL_GTE_REPEATABLE_def IL_LT_REPEATABLE_def)

section \<open>Properties\<close>

text \<open>
  C27. The two groups of bits of a statement never disturb one another: a program that marks a statement as unsafe or as a row
  injection, clears the reasons and notes the tables it accesses answers every question as sets of reasons and tables do.
\<close>

theorem flags_program:
  assumes "flags_rep q a" and "run_cmds flag_spec cs a = Some (xs, a')"
  shows "\<exists>q'. run_cmds flag_step cs q = Some (xs, q') \<and> flags_rep q' a'"
  using flags.run_refines [OF assms] .

lemma no_flags_rep: "flags_rep \<lparr>binlog_stmt_flags = 0, stmt_accessed_table_flag = 0\<rparr> \<lparr>reasons = {}, row_injection = False, accessed = {}\<rparr>"
  by (simp add: flags_rep_def)

theorem flags_program_witness:
  "\<exists>q. run_cmds flag_step [Set_row_injection, Set_unsafe BINLOG_STMT_UNSAFE_SKIP_LOCKED, Is_unsafe, Clear_unsafe, Is_unsafe,
       Is_row_injection, Set_accessed STMT_WRITES_TEMP_TRANS_TABLE, Accessed_temp, Writes_non_temp]
     \<lparr>binlog_stmt_flags = 0, stmt_accessed_table_flag = 0\<rparr> =
     Some ([Done, Done, Bool True, Done, Bool False, Bool True, Done, Bool True, Bool False], q)"
proof -
  have "\<exists>a. run_cmds flag_spec [Set_row_injection, Set_unsafe BINLOG_STMT_UNSAFE_SKIP_LOCKED, Is_unsafe, Clear_unsafe, Is_unsafe,
       Is_row_injection, Set_accessed STMT_WRITES_TEMP_TRANS_TABLE, Accessed_temp, Writes_non_temp]
     \<lparr>reasons = {}, row_injection = False, accessed = {}\<rparr> =
     Some ([Done, Done, Bool True, Done, Bool False, Bool True, Done, Bool True, Bool False], a)" by simp
  then show ?thesis using flags_program [OF no_flags_rep] by blast
qed

text \<open>
  Whether a mixed statement is unsafe is always decided inside the table of combinations: the two options and the
  isolation level choose one of eight bits, a different one for each situation, and below repeatable read a write to a
  non-transactional table after a read of a transactional one is unsafe whatever the table says.
\<close>

theorem mixed_decision:
  assumes "flags_rep q a" and "length binlog_unsafe_map = 256"
  shows "is_mixed_stmt_unsafe binlog_unsafe_map multi direct not_empty lev q =
      Some (accessed a \<inter> {STMT_WRITES_NON_TRANS_TABLE, STMT_WRITES_TEMP_NON_TRANS_TABLE} \<noteq> {} \<and>
              STMT_READS_TRANS_TABLE \<in> accessed a \<and> lev < ISO_REPEATABLE_READ \<or>
            multi \<and> bit (binlog_unsafe_map ! unat (stmt_accessed_table_flag q)) (situation direct not_empty lev)) \<and>
    unat (stmt_accessed_table_flag q) < 256 \<and>
    (situation direct not_empty lev = situation direct' not_empty' lev' \<longleftrightarrow>
       direct = direct' \<and> not_empty = not_empty' \<and> (lev < ISO_REPEATABLE_READ \<longleftrightarrow> lev' < ISO_REPEATABLE_READ))"
proof -
  have small: "unat (stmt_accessed_table_flag q) < 256" by (rule rep_access_small [OF assms(1)])
  have acc: "stmt_accessed_table t q \<longleftrightarrow> t \<in> accessed a" for t
    using rep_access [OF assms(1)] by (simp add: stmt_accessed_table_def and_single del: access_number.simps)
  have "is_mixed_stmt_unsafe binlog_unsafe_map multi direct not_empty lev q =
      Some (accessed a \<inter> {STMT_WRITES_NON_TRANS_TABLE, STMT_WRITES_TEMP_NON_TRANS_TABLE} \<noteq> {} \<and>
              STMT_READS_TRANS_TABLE \<in> accessed a \<and> lev < ISO_REPEATABLE_READ \<or>
            multi \<and> bit (binlog_unsafe_map ! unat (stmt_accessed_table_flag q)) (situation direct not_empty lev))"
    using small assms(2) unfolding is_mixed_stmt_unsafe_def situation_bit Let_def acc by (auto simp: at_map_def and_single)
  moreover have "situation direct not_empty lev = situation direct' not_empty' lev' \<longleftrightarrow>
      direct = direct' \<and> not_empty = not_empty' \<and> (lev < ISO_REPEATABLE_READ \<longleftrightarrow> lev' < ISO_REPEATABLE_READ)"
    by (cases direct; cases not_empty; cases direct'; cases not_empty') (auto simp: situation_def not_le [symmetric])
  ultimately show ?thesis using small by blast
qed

theorem mixed_decision_witness:
  "is_mixed_stmt_unsafe (replicate 256 4) True False True 3 \<lparr>binlog_stmt_flags = 0, stmt_accessed_table_flag = 0\<rparr> = Some True \<and>
   is_mixed_stmt_unsafe (replicate 256 4) True True True 3 \<lparr>binlog_stmt_flags = 0, stmt_accessed_table_flag = 0\<rparr> = Some False"
  using mixed_decision [OF no_flags_rep, of "replicate 256 4" True False True 3]
    mixed_decision [OF no_flags_rep, of "replicate 256 4" True True True 3]
  by (simp add: situation_def ISO_REPEATABLE_READ_def bit_iff_odd)

end
