(* ===== verification/Query_Tables.thy ===== *)
theory Query_Tables
  imports Sql_I_List Simulation Heap_Path
begin

text \<open>
  The global list of the tables of a statement (\<open>Query_tables_list\<close> of \<open>sql_lex.h\<close>): tables linked through \<open>next_global\<close>, with
  the cell where the next table goes and, once the statement needs prelocking, the cell after its own last table. Heap
  cells and their chains are those of \<open>Sql_I_List\<close>; \<open>First_cell\<close> is the field \<open>query_tables\<close> of a list and \<open>Link_cell\<close> the field
  \<open>next_global\<close> of a table.
\<close>

section \<open>The list\<close>

record query_tables_list =
  query_tables_last :: icell
  query_tables_own_last :: "icell option"

record qheap =
  qmem :: iheap
  prev_global :: "ptr \<Rightarrow> icell option"
  qlists :: "nat \<Rightarrow> query_tables_list option"

definition set_query_tables_list :: "nat \<Rightarrow> nat \<Rightarrow> qheap \<Rightarrow> qheap option" where
  "set_query_tables_list this state h = do {
     l \<leftarrow> qlists h state;
     t \<leftarrow> cells (qmem h) (First_cell state);
     m \<leftarrow> set_cell (First_cell this) t (qmem h);
     Some (h\<lparr>qmem := m, qlists := (qlists h)(this \<mapsto> l)\<rparr>) }"

definition add_to_query_tables :: "nat \<Rightarrow> ptr \<Rightarrow> qheap \<Rightarrow> qheap option" where
  "add_to_query_tables this table h = do {
     l \<leftarrow> qlists h this;
     _ \<leftarrow> cells (qmem h) (Link_cell table);
     h \<leftarrow> Some (h\<lparr>prev_global := (prev_global h)(table := Some (query_tables_last l))\<rparr>);
     m \<leftarrow> set_cell (query_tables_last l) table (qmem h);
     Some (h\<lparr>qmem := m, qlists := (qlists h)(this \<mapsto> l\<lparr>query_tables_last := Link_cell table\<rparr>)\<rparr>) }"

definition requires_prelocking :: "nat \<Rightarrow> qheap \<Rightarrow> bool option" where
  "requires_prelocking this h = map_option (\<lambda>l. query_tables_own_last l \<noteq> None) (qlists h this)"

definition mark_as_requiring_prelocking :: "nat \<Rightarrow> icell option \<Rightarrow> qheap \<Rightarrow> qheap option" where
  "mark_as_requiring_prelocking this tables_own_last h =
     map_option (\<lambda>l. h\<lparr>qlists := (qlists h)(this \<mapsto> l\<lparr>query_tables_own_last := tables_own_last\<rparr>)\<rparr>) (qlists h this)"

definition first_not_own_table :: "nat \<Rightarrow> qheap \<Rightarrow> ptr option" where
  "first_not_own_table this h = do {
     l \<leftarrow> qlists h this;
     (case query_tables_own_last l of None \<Rightarrow> Some 0 | Some c \<Rightarrow> cells (qmem h) c) }"

definition chop_off_not_own_tables :: "nat \<Rightarrow> qheap \<Rightarrow> qheap option" where
  "chop_off_not_own_tables this h = do {
     l \<leftarrow> qlists h this;
     (case query_tables_own_last l of None \<Rightarrow> Some h
      | Some c \<Rightarrow> do {
          m \<leftarrow> set_cell c 0 (qmem h);
          Some (h\<lparr>qmem := m, qlists := (qlists h)(this \<mapsto> l\<lparr>query_tables_last := c, query_tables_own_last := None\<rparr>)\<rparr>) }) }"

text \<open>The table whose link field is the last cell; before the first one there is no table.\<close>

definition last_table :: "nat \<Rightarrow> qheap \<Rightarrow> ptr option" where
  "last_table this h = do {
     l \<leftarrow> qlists h this;
     t \<leftarrow> cells (qmem h) (First_cell this);
     (if t \<noteq> 0 then (case query_tables_last l of Link_cell e \<Rightarrow> Some e | First_cell _ \<Rightarrow> None) else Some 0) }"

section \<open>The tables it stands for\<close>

text \<open>The tables of the statement itself, those added for prelocking, and all that were ever added.\<close>

record statement_tables =
  own :: "ptr list"
  extra :: "ptr list option"
  used :: "ptr set"

definition all_tables :: "statement_tables \<Rightarrow> ptr list" where
  "all_tables a = own a @ (case extra a of None \<Rightarrow> [] | Some es \<Rightarrow> es)"

text \<open>
  The list may use the tables of a set whose link fields are null until they are added; what the heap has besides these
  tables and the list is that of another heap.
\<close>

definition tables_rep :: "ptr set \<Rightarrow> qheap \<Rightarrow> nat \<Rightarrow> qheap \<Rightarrow> statement_tables \<Rightarrow> bool" where
  "tables_rep T g this h a \<longleftrightarrow>
     chain (qmem h) (First_cell this) (all_tables a) 0 \<and> distinct (all_tables a) \<and> set (all_tables a) \<subseteq> used a \<and> used a \<subseteq> T \<and> 0 \<notin> T \<and>
     qlists h this = Some \<lparr>query_tables_last = last_cell (First_cell this) (all_tables a),
       query_tables_own_last = map_option (\<lambda>_. last_cell (First_cell this) (own a)) (extra a)\<rparr> \<and>
     (\<forall>t\<in>T - used a. cells (qmem h) (Link_cell t) = Some 0) \<and>
     (\<forall>i<length (all_tables a). prev_global h (all_tables a ! i) = Some (last_cell (First_cell this) (take i (all_tables a)))) \<and>
     (\<forall>c. c \<notin> insert (First_cell this) (Link_cell ` T) \<longrightarrow> cells (qmem h) c = cells (qmem g) c) \<and>
     (\<forall>q. q \<noteq> this \<longrightarrow> qlists h q = qlists g q)"

lemma chain_prefix: "chain h c (es @ fs) q \<Longrightarrow> \<exists>r. chain h c es r \<and> cells h (last_cell c es) = Some r \<and> r = (case fs of [] \<Rightarrow> q | f # _ \<Rightarrow> f)"
proof (induction es arbitrary: c)
  case Nil
  then show ?case by (cases fs) auto
qed auto

datatype tables_cmd = Add ptr | Mark_here | Mark_after ptr | Unmark | Chop | Requires | First_not_own | Last_table

datatype tables_out = Done | Bool bool | Table ptr

fun tables_step :: "nat \<Rightarrow> tables_cmd \<Rightarrow> qheap \<Rightarrow> (tables_out \<times> qheap) option" where
  "tables_step this (Add t) h = map_option (\<lambda>h. (Done, h)) (add_to_query_tables this t h)"
| "tables_step this Mark_here h = do {
     l \<leftarrow> qlists h this;
     map_option (\<lambda>h. (Done, h)) (mark_as_requiring_prelocking this (Some (query_tables_last l)) h) }"
| "tables_step this (Mark_after t) h = map_option (\<lambda>h. (Done, h)) (mark_as_requiring_prelocking this (Some (Link_cell t)) h)"
| "tables_step this Unmark h = map_option (\<lambda>h. (Done, h)) (mark_as_requiring_prelocking this None h)"
| "tables_step this Chop h = map_option (\<lambda>h. (Done, h)) (chop_off_not_own_tables this h)"
| "tables_step this Requires h = map_option (\<lambda>b. (Bool b, h)) (requires_prelocking this h)"
| "tables_step this First_not_own h = map_option (\<lambda>t. (Table t, h)) (first_not_own_table this h)"
| "tables_step this Last_table h = map_option (\<lambda>t. (Table t, h)) (last_table this h)"

fun tables_spec :: "ptr set \<Rightarrow> tables_cmd \<Rightarrow> statement_tables \<Rightarrow> (tables_out \<times> statement_tables) option" where
  "tables_spec T (Add t) a =
     (if t \<in> T - used a
      then Some (Done, (case extra a of None \<Rightarrow> a\<lparr>own := own a @ [t], used := insert t (used a)\<rparr>
                        | Some es \<Rightarrow> a\<lparr>extra := Some (es @ [t]), used := insert t (used a)\<rparr>))
      else None)"
| "tables_spec T Mark_here a = Some (Done, a\<lparr>own := all_tables a, extra := Some []\<rparr>)"
| "tables_spec T (Mark_after t) a =
     (if t \<in> set (all_tables a)
      then Some (Done, a\<lparr>own := takeWhile (\<lambda>u. u \<noteq> t) (all_tables a) @ [t], extra := Some (tl (dropWhile (\<lambda>u. u \<noteq> t) (all_tables a)))\<rparr>)
      else None)"
| "tables_spec T Unmark a = Some (Done, a\<lparr>own := all_tables a, extra := None\<rparr>)"
| "tables_spec T Chop a = Some (Done, a\<lparr>extra := None\<rparr>)"
| "tables_spec T Requires a = Some (Bool (extra a \<noteq> None), a)"
| "tables_spec T First_not_own a = Some (Table (case extra a of None \<Rightarrow> 0 | Some es \<Rightarrow> hd0 es), a)"
| "tables_spec T Last_table a = Some (Table (if all_tables a = [] then 0 else last (all_tables a)), a)"

lemma tables_repD:
  assumes "tables_rep T g this h a"
  shows "chain (qmem h) (First_cell this) (all_tables a) 0" "distinct (all_tables a)" "set (all_tables a) \<subseteq> used a" "used a \<subseteq> T" "0 \<notin> T"
    "qlists h this = Some \<lparr>query_tables_last = last_cell (First_cell this) (all_tables a),
       query_tables_own_last = map_option (\<lambda>_. last_cell (First_cell this) (own a)) (extra a)\<rparr>"
    "t \<in> T - used a \<Longrightarrow> cells (qmem h) (Link_cell t) = Some 0"
  using assms by (auto simp: tables_rep_def)

text \<open>Marking changes only where the own tables end.\<close>

lemma tables_mark_rep:
  assumes "tables_rep T g this h a" and "all_tables b = all_tables a" and "used b = used a"
    and "c = map_option (\<lambda>_. last_cell (First_cell this) (own b)) (extra b)"
  shows "\<exists>h'. mark_as_requiring_prelocking this c h = Some h' \<and> tables_rep T g this h' b"
  using assms by (auto simp: tables_rep_def mark_as_requiring_prelocking_def)

lemma tables_add_rep:
  assumes rep: "tables_rep T g this h a" and t: "t \<in> T - used a" and b: "all_tables b = all_tables a @ [t]" "used b = insert t (used a)"
    "map_option (\<lambda>_. last_cell (First_cell this) (own b)) (extra b) = map_option (\<lambda>_. last_cell (First_cell this) (own a)) (extra a)"
  shows "\<exists>h'. add_to_query_tables this t h = Some h' \<and> tables_rep T g this h' b"
proof -
  let ?es = "all_tables a" and ?c = "last_cell (First_cell this) (all_tables a)"
  note r = tables_repD [OF rep]
  have lc: "cells (qmem h) (Link_cell t) = Some 0" using r(7) [OF t] .
  have lastc: "cells (qmem h) ?c = Some 0" using chain_last [OF r(1)] .
  have fresh: "t \<notin> set ?es" "t \<noteq> 0" "t \<in> T" "t \<notin> used a" using t r(3,5) by (auto intro: ccontr)
  have cin: "?c \<in> insert (First_cell this) (Link_cell ` used a)" using last_cell_in [of "First_cell this" ?es] r(3) by auto
  let ?m = "(qmem h)\<lparr>cells := (cells (qmem h))(?c \<mapsto> t)\<rparr>"
  have "chain ?m (First_cell this) (?es @ [t]) 0"
    by (rule chain_extend [OF r(1,2)]) (use lc fresh in auto)
  moreover have "add_to_query_tables this t h = Some (h\<lparr>prev_global := (prev_global h)(t := Some ?c), qmem := ?m,
      qlists := (qlists h)(this \<mapsto> \<lparr>query_tables_last = Link_cell t,
        query_tables_own_last = map_option (\<lambda>_. last_cell (First_cell this) (own a)) (extra a)\<rparr>)\<rparr>)"
    using r(6) lc lastc by (simp add: add_to_query_tables_def set_cell_def)
  moreover have "?c \<noteq> Link_cell u" if "u \<in> T - insert t (used a)" for u using cin that by auto
  moreover have "?c \<in> insert (First_cell this) (Link_cell ` T)" using cin r(4) by auto
  ultimately show ?thesis using rep fresh b cin
    by (auto simp: tables_rep_def nth_append less_Suc_eq)
qed

lemma tables_chop_rep:
  assumes rep: "tables_rep T g this h a"
  shows "\<exists>h'. chop_off_not_own_tables this h = Some h' \<and> tables_rep T g this h' (a\<lparr>extra := None\<rparr>)"
proof (cases "extra a")
  case None
  then have e: "a\<lparr>extra := None\<rparr> = a" by (cases a) simp
  show ?thesis unfolding e using rep tables_repD(6) [OF rep] None by (simp add: chop_off_not_own_tables_def)
next
  case (Some es)
  let ?c = "last_cell (First_cell this) (own a)"
  note r = tables_repD [OF rep]
  have all: "all_tables a = own a @ es" "all_tables (a\<lparr>extra := None\<rparr>) = own a" using Some by (simp_all add: all_tables_def)
  obtain q where q: "chain (qmem h) (First_cell this) (own a) q" "cells (qmem h) ?c = Some q"
    using chain_prefix r(1) unfolding all by blast
  let ?m = "(qmem h)\<lparr>cells := (cells (qmem h))(?c \<mapsto> 0)\<rparr>"
  have cin: "?c \<in> insert (First_cell this) (Link_cell ` used a)" using last_cell_in [of "First_cell this" "own a"] r(3) all by auto
  have "chain ?m (First_cell this) (own a @ []) 0"
    by (rule chain_extend [OF q(1)]) (use r(2) all in auto)
  moreover have "chop_off_not_own_tables this h = Some (h\<lparr>qmem := ?m,
      qlists := (qlists h)(this \<mapsto> \<lparr>query_tables_last = ?c, query_tables_own_last = None\<rparr>)\<rparr>)"
    using r(6) q(2) Some by (simp add: chop_off_not_own_tables_def set_cell_def)
  moreover have "?c \<noteq> Link_cell u" if "u \<in> T - used a" for u using cin that by auto
  moreover have "?c \<in> insert (First_cell this) (Link_cell ` T)" using cin r(4) by auto
  moreover have "\<forall>i<length (own a). prev_global h (own a ! i) = Some (last_cell (First_cell this) (take i (own a)))"
  proof (intro allI impI)
    fix i assume i: "i < length (own a)"
    then have "prev_global h (all_tables a ! i) = Some (last_cell (First_cell this) (take i (all_tables a)))"
      using rep all by (simp add: tables_rep_def)
    then show "prev_global h (own a ! i) = Some (last_cell (First_cell this) (take i (own a)))" using i all by (simp add: nth_append)
  qed
  ultimately show ?thesis using rep all by (auto simp: tables_rep_def)
qed

lemma tables_refine:
  assumes rep: "tables_rep T g this h a" and spec: "tables_spec T c a = Some (x, a')"
  shows "\<exists>h'. tables_step this c h = Some (x, h') \<and> tables_rep T g this h' a'"
proof (cases c)
  case (Add t)
  then have t: "t \<in> T - used a" "x = Done" using spec by (auto split: if_splits)
  have b: "all_tables a' = all_tables a @ [t]" "used a' = insert t (used a)"
    "map_option (\<lambda>_. last_cell (First_cell this) (own a')) (extra a') = map_option (\<lambda>_. last_cell (First_cell this) (own a)) (extra a)"
    using spec Add t by (auto simp: all_tables_def split: option.splits)
  then show ?thesis using tables_add_rep [OF rep t(1) b] Add t(2) by auto
next
  case Mark_here
  have "\<exists>h'. mark_as_requiring_prelocking this (Some (last_cell (First_cell this) (all_tables a))) h = Some h' \<and>
      tables_rep T g this h' (a\<lparr>own := all_tables a, extra := Some []\<rparr>)"
    by (rule tables_mark_rep [OF rep]) (simp_all add: all_tables_def)
  then show ?thesis using Mark_here spec tables_repD(6) [OF rep] by auto
next
  case (Mark_after t)
  then have t: "t \<in> set (all_tables a)" "x = Done" using spec by (auto split: if_splits)
  let ?xs = "takeWhile (\<lambda>u. u \<noteq> t) (all_tables a)" and ?ys = "dropWhile (\<lambda>u. u \<noteq> t) (all_tables a)"
  have "?ys \<noteq> []" "hd ?ys = t" using t(1) hd_dropWhile [of "\<lambda>u. u \<noteq> t" "all_tables a"] by (auto simp: dropWhile_eq_Nil_conv)
  then have "?xs @ [t] @ tl ?ys = all_tables a" by (metis append_Cons append_Nil list.collapse takeWhile_dropWhile_id)
  then have "\<exists>h'. mark_as_requiring_prelocking this (Some (Link_cell t)) h = Some h' \<and>
      tables_rep T g this h' (a\<lparr>own := ?xs @ [t], extra := Some (tl ?ys)\<rparr>)"
    by (intro tables_mark_rep [OF rep]) (simp_all add: all_tables_def)
  then show ?thesis using Mark_after spec t by auto
next
  case Unmark
  have "\<exists>h'. mark_as_requiring_prelocking this None h = Some h' \<and> tables_rep T g this h' (a\<lparr>own := all_tables a, extra := None\<rparr>)"
    by (rule tables_mark_rep [OF rep]) (simp_all add: all_tables_def)
  then show ?thesis using Unmark spec by auto
next
  case Chop
  then show ?thesis using spec tables_chop_rep [OF rep] by auto
next
  case Requires
  then show ?thesis using spec rep tables_repD(6) [OF rep] by (auto simp: requires_prelocking_def)
next
  case First_not_own
  have "cells (qmem h) (last_cell (First_cell this) (own a)) = Some (hd0 es)" if "extra a = Some es" for es
    using that chain_prefix [of "qmem h" "First_cell this" "own a" es 0] tables_repD(1) [OF rep]
    by (auto simp: all_tables_def hd0_def)
  then show ?thesis using First_not_own spec rep tables_repD(6) [OF rep]
    by (cases "extra a") (auto simp: first_not_own_table_def)
next
  case Last_table
  have "cells (qmem h) (First_cell this) = Some (hd0 (all_tables a))"
    using chain_prefix [of "qmem h" "First_cell this" "[]" "all_tables a" 0] tables_repD(1) [OF rep] by (simp add: hd0_def)
  moreover have "0 \<notin> set (all_tables a)" using tables_repD(3-5) [OF rep] by blast
  then have "hd0 (all_tables a) = 0 \<longleftrightarrow> all_tables a = []" by (cases "all_tables a") auto
  ultimately show ?thesis using Last_table spec rep tables_repD(6) [OF rep]
    by (auto simp: last_table_def last_cell_def)
qed

interpretation statement_tables: simulation "\<lambda>k. tables_rep T g this" "tables_step this" "tables_spec T"
  by unfold_locales (rule tables_refine)

section \<open>Properties\<close>

text \<open>
  C8. A program that adds tables, marks where those of the statement end and cuts the others off again returns what it
  returns on the sequences of own and other tables; after a cut the list ends with the last own table, to which the next
  table is added, and nothing but the list and its tables is touched.
\<close>

theorem tables_program:
  assumes "tables_rep T g this h a" and "run_cmds (tables_spec T) cs a = Some (xs, a')"
  shows "\<exists>h'. run_cmds (tables_step this) cs h = Some (xs, h') \<and> tables_rep T g this h' a'"
  using statement_tables.run_refines [OF assms] .

definition two_lists :: qheap where
  "two_lists = \<lparr>qmem = \<lparr>cells = (\<lambda>_. Some 0), ilists = (\<lambda>_. None)\<rparr>, prev_global = (\<lambda>_. None),
     qlists = [1 \<mapsto> \<lparr>query_tables_last = First_cell 1, query_tables_own_last = None\<rparr>,
               2 \<mapsto> \<lparr>query_tables_last = First_cell 2, query_tables_own_last = None\<rparr>]\<rparr>"

definition no_tables :: statement_tables where "no_tables = \<lparr>own = [], extra = None, used = {}\<rparr>"

lemma two_lists_rep: "0 \<notin> T \<Longrightarrow> tables_rep T two_lists 1 two_lists no_tables"
  by (simp add: tables_rep_def two_lists_def no_tables_def all_tables_def)

definition prelocking_program :: "tables_cmd list" where
  "prelocking_program = [Add 10, Add 11, Mark_here, First_not_own, Add 12, First_not_own, Last_table, Chop, Last_table, Requires, Add 13, Last_table]"

lemma prelocking_spec_run:
  "run_cmds (tables_spec {10, 11, 12, 13}) prelocking_program no_tables =
     Some ([Done, Done, Done, Table 0, Done, Table 12, Table 12, Done, Table 11, Bool False, Done, Table 13],
       \<lparr>own = [10, 11, 13], extra = None, used = {13, 12, 11, 10}\<rparr>)"
  by (simp add: prelocking_program_def no_tables_def all_tables_def)

theorem tables_program_witness:
  "\<exists>h. run_cmds (tables_step 1) prelocking_program two_lists =
     Some ([Done, Done, Done, Table 0, Done, Table 12, Table 12, Done, Table 11, Bool False, Done, Table 13], h) \<and>
     chain (qmem h) (First_cell 1) [10, 11, 13] 0"
proof -
  have "tables_rep {10, 11, 12, 13} two_lists 1 two_lists no_tables" by (rule two_lists_rep) simp
  from tables_program [OF this prelocking_spec_run] show ?thesis by (auto simp: tables_rep_def all_tables_def)
qed

text \<open>
  C28. A copy of a list taken before a nested statement and assigned back after it restores the list, its tables and the end of
  its own tables, whatever program over other tables ran in the same list in between, also when the list was empty and its
  last cell is its own field.
\<close>

theorem backup_restored:
  assumes rep: "tables_rep T g this h a" and backup: "backup \<noteq> this" "cells (qmem h) (First_cell backup) \<noteq> None"
    and copied: "set_query_tables_list backup this h = Some h1"
    and nested: "tables_rep T' h1 this h2 b" "T \<inter> T' = {}" and prevs: "\<forall>t\<in>T. prev_global h2 t = prev_global h t"
    and run: "run_cmds (tables_spec T') cs b = Some (xs, b')"
  shows "\<exists>h3 h4. run_cmds (tables_step this) cs h2 = Some (xs, h3) \<and> set_query_tables_list this backup h3 = Some h4 \<and>
    chain (qmem h4) (First_cell this) (all_tables a) 0 \<and> qlists h4 this = qlists h this \<and>
    (\<forall>t\<in>T. cells (qmem h4) (Link_cell t) = cells (qmem h) (Link_cell t))"
proof -
  note r = tables_repD [OF rep]
  obtain h3 where h3: "run_cmds (tables_step this) cs h2 = Some (xs, h3)" "tables_rep T' h1 this h3 b'"
    using statement_tables.run_refines [OF nested(1) run] by blast
  obtain t where t: "cells (qmem h) (First_cell this) = Some t" using chain_first [OF r(1)] by blast
  obtain l where l: "qlists h this = Some l" using r(6) by blast
  have h1: "cells (qmem h1) = (cells (qmem h))(First_cell backup \<mapsto> t)" "qlists h1 = (qlists h)(backup \<mapsto> l)"
    using copied t l backup(2) by (auto simp: set_query_tables_list_def set_cell_def)
  have same: "cells (qmem h3) (First_cell backup) = Some t" "qlists h3 backup = Some l"
    "\<forall>t\<in>T. cells (qmem h3) (Link_cell t) = cells (qmem h) (Link_cell t)"
    using h3(2) backup(1) nested(2) h1 by (auto simp: tables_rep_def)
  have "cells (qmem h3) (First_cell this) \<noteq> None" using chain_first [OF tables_repD(1) [OF h3(2)]] .
  then obtain h4 where h4: "set_query_tables_list this backup h3 = Some h4" "cells (qmem h4) = (cells (qmem h3))(First_cell this \<mapsto> t)"
    "qlists h4 this = Some l" using same(1,2) by (auto simp: set_query_tables_list_def set_cell_def)
  have "chain (qmem h4) (First_cell this) (all_tables a) 0"
    by (rule chain_frame [OF r(1)]) (use h4 same(3) t r(3,4) in auto)
  then show ?thesis using h3(1) h4 same(3) l by auto
qed

definition one_table :: qheap where
  "one_table = two_lists\<lparr>qmem := \<lparr>cells = (\<lambda>_. Some 0)(First_cell 1 \<mapsto> 10), ilists = (\<lambda>_. None)\<rparr>, prev_global := [10 \<mapsto> First_cell 1],
     qlists := (qlists two_lists)(1 \<mapsto> \<lparr>query_tables_last = Link_cell 10, query_tables_own_last = None\<rparr>)\<rparr>"

definition copied_list :: qheap where
  "copied_list = one_table\<lparr>qmem := \<lparr>cells = (cells (qmem one_table))(First_cell 2 \<mapsto> 10), ilists = (\<lambda>_. None)\<rparr>,
     qlists := (qlists one_table)(2 \<mapsto> \<lparr>query_tables_last = Link_cell 10, query_tables_own_last = None\<rparr>)\<rparr>"

definition reset_list :: qheap where
  "reset_list = copied_list\<lparr>qmem := \<lparr>cells = (cells (qmem copied_list))(First_cell 1 \<mapsto> 0), ilists = (\<lambda>_. None)\<rparr>,
     qlists := (qlists copied_list)(1 \<mapsto> \<lparr>query_tables_last = First_cell 1, query_tables_own_last = None\<rparr>)\<rparr>"

lemmas example_lists = one_table_def copied_list_def reset_list_def two_lists_def

theorem backup_restored_witness:
  "\<exists>h3 h4. run_cmds (tables_step 1) [Add 11, Last_table] reset_list = Some ([Done, Table 11], h3) \<and>
     set_query_tables_list 1 2 h3 = Some h4 \<and> chain (qmem h4) (First_cell 1) [10] 0"
proof -
  have rep: "tables_rep {10} two_lists 1 one_table \<lparr>own = [10], extra = None, used = {10}\<rparr>"
    by (auto simp: tables_rep_def all_tables_def example_lists)
  have nested: "tables_rep {11} copied_list 1 reset_list no_tables"
    by (auto simp: tables_rep_def all_tables_def no_tables_def example_lists)
  have copied: "set_query_tables_list 2 1 one_table = Some copied_list"
    by (simp add: set_query_tables_list_def set_cell_def example_lists)
  have run: "run_cmds (tables_spec {11}) [Add 11, Last_table] no_tables = Some ([Done, Table 11], \<lparr>own = [11], extra = None, used = {11}\<rparr>)"
    by (simp add: no_tables_def all_tables_def)
  have side: "(2::nat) \<noteq> 1" "cells (qmem one_table) (First_cell 2) \<noteq> None" "{10} \<inter> {11} = ({} :: ptr set)"
    "\<forall>t\<in>{10}. prev_global reset_list t = prev_global one_table t" by (simp_all add: example_lists)
  have own: "all_tables \<lparr>own = [10], extra = None, used = {10}\<rparr> = [10]" by (simp add: all_tables_def)
  show ?thesis
    using backup_restored [OF rep side(1,2) copied nested side(3,4) run] unfolding own by blast
qed

end
