(* ===== verification/Xid.thy ===== *)
theory Xid
  imports Byte_Order "HOL-Library.Monad_Syntax"
begin

text \<open>
  Identifiers of distributed transactions (\<open>struct xid_t\<close> of \<open>handler.h\<close>) and their text in the binary log (\<open>serialize_xid\<close> of
  \<open>log_event.h\<close>). A \<open>long\<close> has 32 bits in the shipped build, also that of the server number, so that the transaction number
  stands at byte 12 of the data. The table of hexadecimal digits is outside the repository.
\<close>

section \<open>Identifiers\<close>

type_synonym clong = "32 word"
type_synonym my_xid = "64 word"

definition XIDDATASIZE :: nat where "XIDDATASIZE = 128"

text \<open>\<open>MySQLXid\<close>.\<close>

definition MYSQL_XID_PREFIX :: "uchar list" where "MYSQL_XID_PREFIX = [77, 121, 83, 81, 76, 88, 105, 100]"

definition MYSQL_XID_PREFIX_LEN :: nat where "MYSQL_XID_PREFIX_LEN = 8"

definition MYSQL_XID_OFFSET :: nat where "MYSQL_XID_OFFSET = MYSQL_XID_PREFIX_LEN + 4"

definition MYSQL_XID_GTRID_LEN :: nat where "MYSQL_XID_GTRID_LEN = MYSQL_XID_OFFSET + 8"

record xid =
  formatID :: clong
  gtrid_length :: clong
  bqual_length :: clong
  data :: "uchar list"

text \<open>\<open>memcpy\<close> into the data of an identifier; writing past its end is \<open>None\<close>.\<close>

definition put_data :: "nat \<Rightarrow> uchar list \<Rightarrow> xid \<Rightarrow> xid option" where
  "put_data p bs x =
     (if p + length bs \<le> length (data x) then Some (x\<lparr>data := take p (data x) @ bs @ drop (p + length bs) (data x)\<rparr>) else None)"

definition xid_is_null :: "xid \<Rightarrow> bool" where "xid_is_null x \<longleftrightarrow> formatID x = - 1"

definition xid_null :: "xid \<Rightarrow> xid" where "xid_null x = x\<lparr>formatID := - 1\<rparr>"

definition eq_parts :: "xid \<Rightarrow> clong \<Rightarrow> clong \<Rightarrow> uchar list \<Rightarrow> bool" where
  "eq_parts x g b d \<longleftrightarrow> \<not> xid_is_null x \<and> g = gtrid_length x \<and> b = bqual_length x \<and>
     take (unat (scast (g + b) :: csize)) d = take (unat (scast (g + b) :: csize)) (data x)"

definition xid_eq :: "xid \<Rightarrow> xid \<Rightarrow> bool" where
  "xid_eq x y \<longleftrightarrow> \<not> xid_is_null y \<and> eq_parts x (gtrid_length y) (bqual_length y) (data y)"

definition xid_key_length :: "xid \<Rightarrow> uint" where "xid_key_length x = 4 + 4 + gtrid_length x + bqual_length x"

definition xid_length :: "xid \<Rightarrow> uint" where "xid_length x = 4 + xid_key_length x"

text \<open>A copy that breaks off inside the fields or leaves the struct is \<open>None\<close>.\<close>

definition set_xid :: "xid \<Rightarrow> xid \<Rightarrow> xid option" where
  "set_xid y x =
     (let n = unat (xid_length y) in
      if 12 \<le> n \<and> n - 12 \<le> length (data y)
      then put_data 0 (take (n - 12) (data y)) (x\<lparr>formatID := formatID y, gtrid_length := gtrid_length y, bqual_length := bqual_length y\<rparr>)
      else None)"

text \<open>The lengths are those of the byte strings; they are tested as integers first.\<close>

definition set_parts :: "clong \<Rightarrow> uchar list \<Rightarrow> uchar list \<Rightarrow> xid \<Rightarrow> xid option" where
  "set_parts f g b x = do {
     x \<leftarrow> Some (x\<lparr>formatID := f, gtrid_length := of_nat (length g)\<rparr>);
     x \<leftarrow> (if gtrid_length x \<noteq> 0 then put_data 0 g x else Some x);
     x \<leftarrow> Some (x\<lparr>bqual_length := of_nat (length b)\<rparr>);
     (if bqual_length x \<noteq> 0 then put_data (length g) b x else Some x) }"

definition set_data :: "clong \<Rightarrow> clong \<Rightarrow> uchar list \<Rightarrow> xid \<Rightarrow> xid option" where
  "set_data g b d x =
     put_data 0 (take (unat (scast (g + b) :: csize)) d) (x\<lparr>formatID := 1, gtrid_length := g, bqual_length := b\<rparr>)"

definition set_my_xid :: "my_xid \<Rightarrow> ulong \<Rightarrow> xid \<Rightarrow> xid option" where
  "set_my_xid n trx_server_id x = do {
     x \<leftarrow> Some (x\<lparr>formatID := 1\<rparr>);
     x \<leftarrow> set_data (of_nat MYSQL_XID_PREFIX_LEN) 0 MYSQL_XID_PREFIX x;
     x \<leftarrow> put_data MYSQL_XID_PREFIX_LEN (le_bytes 4 (unat trx_server_id)) x;
     x \<leftarrow> put_data MYSQL_XID_OFFSET (le_bytes 8 (unat n)) x;
     Some (x\<lparr>gtrid_length := of_nat MYSQL_XID_GTRID_LEN\<rparr>) }"

definition quick_get_my_xid :: "xid \<Rightarrow> my_xid" where
  "quick_get_my_xid x = of_nat (le_nat (take 8 (drop MYSQL_XID_OFFSET (data x))))"

definition get_my_xid :: "xid \<Rightarrow> my_xid" where
  "get_my_xid x =
     (if gtrid_length x = of_nat MYSQL_XID_GTRID_LEN \<and> bqual_length x = 0 \<and> take MYSQL_XID_PREFIX_LEN (data x) = MYSQL_XID_PREFIX
      then quick_get_my_xid x else 0)"

definition get_trx_server_id :: "xid \<Rightarrow> ulong" where
  "get_trx_server_id x = of_nat (le_nat (take 4 (drop MYSQL_XID_PREFIX_LEN (data x))))"

text \<open>The bytes at the key of an identifier, by which it is hashed: the lengths and the data.\<close>

definition key_bytes :: "xid \<Rightarrow> uchar list" where
  "key_bytes x = take (unat (xid_key_length x)) (le_bytes 4 (unat (gtrid_length x)) @ le_bytes 4 (unat (bqual_length x)) @ data x)"

text \<open>What recovery notes of a transaction; the place in the binary log starts out of reach.\<close>

record xid_recovery_member =
  m_xid :: my_xid
  in_engine_prepare :: uint
  decided_to_commit :: bool
  binlog_coord :: "uint \<times> ulonglong"
  full_xid :: ptr
  m_server_id :: ulong

definition mk_recovery_member :: "my_xid \<Rightarrow> uint \<Rightarrow> bool \<Rightarrow> ptr \<Rightarrow> ulong \<Rightarrow> xid_recovery_member" where
  "mk_recovery_member xid_arg prepare_arg decided_arg full_xid_arg server_id_arg =
     \<lparr>m_xid = xid_arg, in_engine_prepare = prepare_arg, decided_to_commit = decided_arg, binlog_coord = (- 1, - 1),
      full_xid = full_xid_arg, m_server_id = server_id_arg\<rparr>"

section \<open>The text of an identifier\<close>

text \<open>The decimal digits that \<open>sprintf\<close> writes for \<open>%lu\<close>.\<close>

fun decimal :: "nat \<Rightarrow> uchar list" where
  "decimal n = (if n < 10 then [of_nat (48 + n)] else decimal (n div 10) @ [of_nat (48 + n mod 10)])"

declare decimal.simps [simp del]

text \<open>
  The loop writes two digits for each byte of the data from \<open>i\<close> up to \<open>n\<close>; it gives back where it stopped. Reading past the
  end of the data is \<open>None\<close>.
\<close>

partial_function (option) hex_loop ::
  "(uchar \<Rightarrow> uchar) \<Rightarrow> uchar list \<Rightarrow> clong \<Rightarrow> cint \<Rightarrow> addr \<Rightarrow> memory \<Rightarrow> (cint \<times> addr \<times> memory) option" where
  "hex_loop dig dat n i c m =
     (if sint i < sint n
      then (if unat i < length dat
            then hex_loop dig dat n (i + 1) (c + 2)
              (m(c := dig (drop_bit 4 (dat ! unat i)), c + 1 := dig (dat ! unat i AND 0x0f)))
            else None)
      else Some (i, c, m))"

definition serialize_xid :: "(uchar \<Rightarrow> uchar) \<Rightarrow> addr \<Rightarrow> clong \<Rightarrow> clong \<Rightarrow> clong \<Rightarrow> uchar list \<Rightarrow> memory \<Rightarrow> (addr \<times> memory) option" where
  "serialize_xid dig buf fmt gln bln dat m = do {
     m \<leftarrow> Some (put_bytes buf [88, 39] m);
     (i, c, m) \<leftarrow> hex_loop dig dat gln 0 (buf + 2) m;
     m \<leftarrow> Some (put_bytes c [39, 44, 88, 39] m);
     (i, c, m) \<leftarrow> hex_loop dig dat (gln + bln) i (c + 4) m;
     m \<leftarrow> Some (m(c := 39));
     m \<leftarrow> Some (put_bytes (c + 1) (44 # decimal (unat fmt) @ [0]) m);
     Some (buf, m) }"

definition ser_buf_size :: nat where "ser_buf_size = 8 + 2 * XIDDATASIZE + 4 * 4 + 1"

definition serialize :: "(uchar \<Rightarrow> uchar) \<Rightarrow> addr \<Rightarrow> xid \<Rightarrow> memory \<Rightarrow> (addr \<times> memory) option" where
  "serialize dig buf_arg x m = serialize_xid dig buf_arg (formatID x) (gtrid_length x) (bqual_length x) (data x) m"

section \<open>Valid identifiers\<close>

definition xid_ok :: "xid \<Rightarrow> bool" where
  "xid_ok x \<longleftrightarrow> length (data x) = XIDDATASIZE \<and> unat (gtrid_length x) + unat (bqual_length x) \<le> XIDDATASIZE"

abbreviation parts_length :: "xid \<Rightarrow> nat" where "parts_length x \<equiv> unat (gtrid_length x) + unat (bqual_length x)"

lemma sint_nat32: "k < 2 ^ 31 \<Longrightarrow> sint (of_nat k :: 32 word) = int k"
  by (simp add: signed_of_nat signed_take_bit_int_eq_self)

lemma scast_small: "unat (n :: 32 word) < 2 ^ 31 \<Longrightarrow> unat (scast n :: csize) = unat n"
proof -
  assume n: "unat n < 2 ^ 31"
  then have "sint n = int (unat n)" using sint_nat32 [of "unat n"] by simp
  then have "(scast n :: csize) = of_nat (unat n)" by (metis of_int_sint of_int_of_nat_eq)
  then show ?thesis using n by (simp add: unat_ucast_small)
qed

lemma lengths_ok:
  assumes "xid_ok x"
  shows "unat (gtrid_length x + bqual_length x) = parts_length x" "unat (scast (gtrid_length x + bqual_length x) :: csize) = parts_length x"
    "unat (xid_key_length x) = 8 + parts_length x" "unat (xid_length x) = 12 + parts_length x" "parts_length x \<le> length (data x)"
proof -
  have le: "parts_length x \<le> 128" using assms by (simp add: xid_ok_def XIDDATASIZE_def)
  have w: "gtrid_length x + bqual_length x = of_nat (parts_length x)" by simp
  show s: "unat (gtrid_length x + bqual_length x) = parts_length x" unfolding w by (rule unat_of_nat_small) (use le in simp)
  then show "unat (scast (gtrid_length x + bqual_length x) :: csize) = parts_length x"
    using le by (simp add: scast_small)
  have "xid_key_length x = of_nat (8 + parts_length x)" "xid_length x = of_nat (12 + parts_length x)"
    by (simp_all add: xid_key_length_def xid_length_def)
  moreover have "unat (of_nat (8 + parts_length x) :: uint) = 8 + parts_length x" "unat (of_nat (12 + parts_length x) :: uint) = 12 + parts_length x"
    using le by (intro unat_of_nat_small; simp)+
  ultimately show "unat (xid_key_length x) = 8 + parts_length x" "unat (xid_length x) = 12 + parts_length x" by metis+
  show "parts_length x \<le> length (data x)" using assms by (simp add: xid_ok_def)
qed

lemma le_bytes_inj: "le_bytes n i = le_bytes n j \<Longrightarrow> i < 256 ^ n \<Longrightarrow> j < 256 ^ n \<Longrightarrow> i = j"
  by (metis le_nat_bytes mod_less)

lemma key_bytes_ok:
  assumes "xid_ok x"
  shows "key_bytes x = le_bytes 4 (unat (gtrid_length x)) @ le_bytes 4 (unat (bqual_length x)) @ take (parts_length x) (data x)"
  using lengths_ok(3) [OF assms] by (simp add: key_bytes_def)

lemma xid_eq_ok:
  assumes "xid_ok x" "xid_ok y"
  shows "xid_eq x y \<longleftrightarrow> \<not> xid_is_null x \<and> \<not> xid_is_null y \<and> key_bytes x = key_bytes y"
proof -
  have "key_bytes x = key_bytes y \<longleftrightarrow> gtrid_length x = gtrid_length y \<and> bqual_length x = bqual_length y \<and>
      take (parts_length x) (data x) = take (parts_length y) (data y)"
    using le_bytes_inj [of 4 "unat (gtrid_length x)" "unat (gtrid_length y)"] le_bytes_inj [of 4 "unat (bqual_length x)" "unat (bqual_length y)"]
      unat_less_2p [of "gtrid_length x"] unat_less_2p [of "gtrid_length y"] unat_less_2p [of "bqual_length x"] unat_less_2p [of "bqual_length y"]
    unfolding key_bytes_ok [OF assms(1)] key_bytes_ok [OF assms(2)] by (auto simp: word_unat_eq_iff)
  then show ?thesis using lengths_ok(2) [OF assms(2)] by (auto simp: xid_eq_def eq_parts_def)
qed

lemma put_data_length: "put_data p bs x = Some y \<Longrightarrow> length (data y) = length (data x)"
  by (auto simp: put_data_def split: if_splits)

lemma set_xid_copies:
  assumes "xid_ok y" and "length (data x) = XIDDATASIZE"
  shows "\<exists>z. set_xid y x = Some z \<and> xid_ok z \<and> formatID z = formatID y \<and> key_bytes z = key_bytes y"
proof -
  let ?z = "x\<lparr>formatID := formatID y, gtrid_length := gtrid_length y, bqual_length := bqual_length y,
    data := take (parts_length y) (data y) @ drop (parts_length y) (data x)\<rparr>"
  note l = lengths_ok [OF assms(1)]
  have "set_xid y x = Some ?z"
    using assms l by (simp add: set_xid_def put_data_def Let_def xid_ok_def)
  moreover have z: "xid_ok ?z" using assms by (simp add: xid_ok_def)
  moreover have "key_bytes ?z = key_bytes y"
    unfolding key_bytes_ok [OF z] key_bytes_ok [OF assms(1)] using assms l by (simp add: xid_ok_def)
  ultimately show ?thesis by auto
qed

lemma set_parts_ok:
  assumes "length (data x) = XIDDATASIZE" and "length g + length b \<le> XIDDATASIZE"
  shows "\<exists>z. set_parts f g b x = Some z \<and> xid_ok z \<and> formatID z = f \<and> gtrid_length z = of_nat (length g) \<and>
    bqual_length z = of_nat (length b) \<and> take (length g + length b) (data z) = g @ b"
proof -
  let ?z = "x\<lparr>formatID := f, gtrid_length := of_nat (length g), bqual_length := of_nat (length b),
    data := g @ b @ drop (length g + length b) (data x)\<rparr>"
  have u: "unat (of_nat (length g) :: clong) = length g" "unat (of_nat (length b) :: clong) = length b"
    using assms(2) by (intro unat_of_nat_small; simp add: XIDDATASIZE_def)+
  have nz: "(of_nat (length g) :: clong) = 0 \<longleftrightarrow> g = []" "(of_nat (length b) :: clong) = 0 \<longleftrightarrow> b = []"
    by (simp_all add: word_unat_eq_iff u del: of_nat_eq_0_iff)
  have "set_parts f g b x = Some ?z"
  proof -
    have s: "take (length g) (g @ drop (length g) (data x)) = g"
      "drop (length g + length b) (g @ drop (length g) (data x)) = drop (length g + length b) (data x)"
      by (simp_all add: add.commute)
    have l: "length g \<le> length (data x)" "length g + length b \<le> length (g @ drop (length g) (data x))" using assms by simp_all
    show ?thesis unfolding set_parts_def put_data_def by (cases "g = []"; cases "b = []") (use s l in \<open>simp_all add: nz\<close>)
  qed
  moreover have "xid_ok ?z" using assms u by (simp add: xid_ok_def)
  ultimately show ?thesis by auto
qed

section \<open>Identifiers of the server's own transactions\<close>

definition own_data :: "my_xid \<Rightarrow> ulong \<Rightarrow> uchar list" where
  "own_data n sid = MYSQL_XID_PREFIX @ le_bytes 4 (unat sid) @ le_bytes 8 (unat n)"

lemma length_own_data: "length (own_data n sid) = 20"
  by (simp add: own_data_def MYSQL_XID_PREFIX_def)

lemma set_my_xid_data:
  assumes "length (data x) = XIDDATASIZE"
  shows "set_my_xid n sid x = Some (x\<lparr>formatID := 1, gtrid_length := 20, bqual_length := 0, data := own_data n sid @ drop 20 (data x)\<rparr>)"
proof -
  have "take (unat (scast (of_nat MYSQL_XID_PREFIX_LEN + 0 :: clong) :: csize)) MYSQL_XID_PREFIX = MYSQL_XID_PREFIX"
    by (simp add: MYSQL_XID_PREFIX_LEN_def MYSQL_XID_PREFIX_def)
  then show ?thesis using assms
    by (simp add: set_my_xid_def set_data_def put_data_def own_data_def MYSQL_XID_PREFIX_LEN_def MYSQL_XID_OFFSET_def
        MYSQL_XID_GTRID_LEN_def XIDDATASIZE_def) (simp add: MYSQL_XID_PREFIX_def)
qed

lemma own_data_read:
  assumes "take 20 (data x) = own_data n sid"
  shows "take MYSQL_XID_PREFIX_LEN (data x) = MYSQL_XID_PREFIX" "quick_get_my_xid x = n" "get_trx_server_id x = sid"
proof -
  have t: "take k (drop j (data x)) = take k (drop j (own_data n sid))" if "j + k \<le> 20" for j k
  proof -
    have "take k (drop j (data x)) = take k (drop j (take 20 (data x)))" using that by (simp add: drop_take min_def)
    then show ?thesis using assms by simp
  qed
  show "take MYSQL_XID_PREFIX_LEN (data x) = MYSQL_XID_PREFIX"
    using t [of 0 8] by (simp add: MYSQL_XID_PREFIX_LEN_def own_data_def MYSQL_XID_PREFIX_def)
  have "take 8 (drop 12 (data x)) = le_bytes 8 (unat n)" using t [of 12 8] by (simp add: own_data_def MYSQL_XID_PREFIX_def)
  then show "quick_get_my_xid x = n" using unat_less_2p [of n]
    by (simp add: quick_get_my_xid_def MYSQL_XID_OFFSET_def MYSQL_XID_PREFIX_LEN_def le_nat_bytes)
  have "take 4 (drop 8 (data x)) = le_bytes 4 (unat sid)" using t [of 8 4] by (simp add: own_data_def MYSQL_XID_PREFIX_def)
  then show "get_trx_server_id x = sid" using unat_less_2p [of sid]
    by (simp add: get_trx_server_id_def MYSQL_XID_PREFIX_LEN_def le_nat_bytes)
qed

section \<open>What the text says\<close>

definition hex :: "(uchar \<Rightarrow> uchar) \<Rightarrow> uchar \<Rightarrow> uchar list" where
  "hex dig b = [dig (drop_bit 4 b), dig (b AND 0x0f)]"

definition xid_text :: "(uchar \<Rightarrow> uchar) \<Rightarrow> xid \<Rightarrow> uchar list" where
  "xid_text dig x =
     [88, 39] @ concat (map (hex dig) (take (unat (gtrid_length x)) (data x))) @ [39, 44, 88, 39] @
     concat (map (hex dig) (take (unat (bqual_length x)) (drop (unat (gtrid_length x)) (data x)))) @ [39, 44] @ decimal (unat (formatID x))"

lemma decimal_length: "n < 10 ^ Suc k \<Longrightarrow> length (decimal n) \<le> Suc k"
proof (induction k arbitrary: n)
  case (Suc k)
  then show ?case by (subst decimal.simps) (auto simp: less_mult_imp_div_less)
qed (subst decimal.simps, simp)

definition decimal_value :: "uchar list \<Rightarrow> nat" where "decimal_value ds = foldl (\<lambda>v d. 10 * v + (unat d - 48)) 0 ds"

lemma decimal_value: "decimal_value (decimal n) = n"
proof (induction n rule: decimal.induct)
  case (1 n)
  have d: "unat (of_nat (48 + k) :: uchar) = 48 + k" if "k < 10" for k using that by (intro unat_of_nat_small) simp
  show ?case
  proof (cases "n < 10")
    case True
    then show ?thesis using d [of n] by (subst decimal.simps) (simp add: decimal_value_def del: of_nat_add)
  next
    case False
    then show ?thesis using 1 d [of "n mod 10"] by (subst decimal.simps) (simp add: decimal_value_def del: of_nat_add)
  qed
qed

lemma hex_loop_writes:
  assumes "k \<le> length dat" and "k < 2 ^ 31" and "j \<le> k"
  shows "hex_loop dig dat (of_nat k) (of_nat j) c m =
    Some (of_nat k, c + of_nat (2 * (k - j)), put_bytes c (concat (map (hex dig) (drop j (take k dat)))) m)"
  using assms
proof (induction "k - j" arbitrary: j c m)
  case 0
  then show ?case by (subst hex_loop.simps) simp
next
  case (Suc d)
  then have j: "j < k" by simp
  then have "unat (of_nat j :: cint) = j" using Suc.prems by (intro unat_of_nat_small) simp
  moreover have "sint (of_nat j :: cint) < sint (of_nat k :: cint)" using j Suc.prems by (simp add: sint_nat32)
  moreover have "drop j (take k dat) = dat ! j # drop (Suc j) (take k dat)"
    using j Suc.prems(1) by (simp add: Cons_nth_drop_Suc [symmetric])
  moreover have "hex_loop dig dat (of_nat k) (of_nat (Suc j)) (c + 2) m' =
    Some (of_nat k, c + 2 + of_nat (2 * (k - Suc j)), put_bytes (c + 2) (concat (map (hex dig) (drop (Suc j) (take k dat)))) m')" for m'
    using Suc j by (intro Suc.hyps) auto
  moreover have "c + 2 + of_nat (2 * (k - Suc j)) = c + of_nat (2 * (k - j))"
  proof -
    have "2 + 2 * (k - Suc j) = 2 * (k - j)" using j by simp
    then have "(2 + of_nat (2 * (k - Suc j)) :: addr) = of_nat (2 * (k - j))" by (metis of_nat_add of_nat_numeral)
    then show ?thesis by (simp add: add.assoc del: of_nat_mult of_nat_diff)
  qed
  moreover have "(of_nat j + 1 :: cint) = of_nat (Suc j)" by simp
  ultimately show ?case using j Suc.prems(1)
    by (subst hex_loop.simps) (simp add: hex_def put_bytes_append add.commute [of 2 c] del: of_nat_Suc of_nat_mult of_nat_diff)
qed

lemma length_hexes [simp]: "length (concat (map (hex dig) bs)) = 2 * length bs"
  by (induction bs) (simp_all add: hex_def)

lemma text_fits:
  assumes "xid_ok x"
  shows "length (xid_text dig x) + 1 \<le> ser_buf_size"
proof -
  have "length (decimal (unat (formatID x))) \<le> Suc 9" using unat_less_2p [of "formatID x"] by (intro decimal_length) simp
  moreover have "unat (gtrid_length x) + unat (bqual_length x) \<le> 128" using assms by (simp add: xid_ok_def XIDDATASIZE_def)
  ultimately show ?thesis by (simp add: xid_text_def ser_buf_size_def XIDDATASIZE_def)
qed

lemma serialize_text:
  assumes "xid_ok x"
  shows "serialize dig buf x m = Some (buf, put_bytes buf (xid_text dig x @ [0]) m)"
proof -
  let ?g = "unat (gtrid_length x)" and ?b = "unat (bqual_length x)"
  have le: "?g + ?b \<le> length (data x)" "length (data x) = 128" using assms by (simp_all add: xid_ok_def XIDDATASIZE_def)
  have w: "gtrid_length x = of_nat ?g" "gtrid_length x + bqual_length x = of_nat (?g + ?b)" "(0 :: cint) = of_nat 0" by simp_all
  have l1: "hex_loop dig (data x) (gtrid_length x) 0 c m' =
      Some (gtrid_length x, c + of_nat (2 * ?g), put_bytes c (concat (map (hex dig) (take ?g (data x)))) m')" for c m'
    using hex_loop_writes [of ?g "data x" 0 dig c m'] le w(1,3) by (simp del: of_nat_mult)
  have l2: "hex_loop dig (data x) (gtrid_length x + bqual_length x) (gtrid_length x) c m' =
      Some (gtrid_length x + bqual_length x, c + of_nat (2 * ?b), put_bytes c (concat (map (hex dig) (take ?b (drop ?g (data x))))) m')" for c m'
    using hex_loop_writes [of "?g + ?b" "data x" ?g dig c m'] le w(1,2) by (simp add: drop_take del: of_nat_mult of_nat_add)
  show ?thesis using le
    by (simp add: serialize_def serialize_xid_def l1 l2 xid_text_def put_bytes_append add.assoc)
qed

text \<open>What is documented of the digits: they are different, and none is a quote.\<close>

definition digits_ok :: "(uchar \<Rightarrow> uchar) \<Rightarrow> bool" where
  "digits_ok dig \<longleftrightarrow> (\<forall>i j. i < 16 \<longrightarrow> j < 16 \<longrightarrow> dig i = dig j \<longrightarrow> i = j) \<and> (\<forall>i. i < 16 \<longrightarrow> dig i \<noteq> 39)"

lemma nibbles: "drop_bit 4 b < (16 :: uchar)" "b AND 0x0f < (16 :: uchar)"
  "drop_bit 4 a = drop_bit 4 b \<Longrightarrow> a AND 0x0f = b AND 0x0f \<Longrightarrow> a = (b :: uchar)"
proof -
  have m: "(0x0f :: uchar) = mask 4" by (simp add: mask_eq_decr_exp)
  show "drop_bit 4 b < (16 :: uchar)" using unat_less_2p [of b] by (simp add: word_less_nat_alt unat_drop_bit)
  show "b AND 0x0f < (16 :: uchar)" by (rule byte_cases) code_simp
  assume "drop_bit 4 a = drop_bit 4 b" "a AND 0x0f = b AND 0x0f"
  then have "push_bit 4 (drop_bit 4 a) + take_bit 4 a = push_bit 4 (drop_bit 4 b) + take_bit 4 b"
    by (simp add: m take_bit_eq_mask)
  then show "a = b" by (simp add: bits_ident)
qed

lemma hex_eq: "digits_ok dig \<Longrightarrow> hex dig a = hex dig b \<Longrightarrow> a = b"
  using nibbles(1,2) [of a] nibbles(1,2) [of b] nibbles(3) [of a b] by (simp add: hex_def digits_ok_def)

lemma hexes_eq: "digits_ok dig \<Longrightarrow> concat (map (hex dig) xs) = concat (map (hex dig) ys) \<Longrightarrow> xs = ys"
proof (induction xs arbitrary: ys)
  case Nil
  then show ?case by (cases ys) (simp_all add: hex_def)
next
  case (Cons x xs)
  then obtain y ys' where ys: "ys = y # ys'" by (cases ys) (simp_all add: hex_def)
  have "length (hex dig x) = length (hex dig y)" by (simp add: hex_def)
  moreover have "hex dig x @ concat (map (hex dig) xs) = hex dig y @ concat (map (hex dig) ys')" using Cons.prems(2) ys by simp
  ultimately have "hex dig x = hex dig y" "concat (map (hex dig) xs) = concat (map (hex dig) ys')"
    using append_eq_append_conv by blast+
  then show ?case using hex_eq [OF Cons.prems(1)] Cons.IH [OF Cons.prems(1)] ys by blast
qed

lemma hexes_free: "digits_ok dig \<Longrightarrow> 39 \<notin> set (concat (map (hex dig) xs))"
proof (induction xs)
  case (Cons x xs)
  then show ?case using nibbles(1,2) [of x] unfolding digits_ok_def by (simp add: hex_def)
qed simp

lemma text_eq:
  assumes "digits_ok dig" "xid_ok x" "xid_ok y"
  shows "xid_text dig x = xid_text dig y \<longleftrightarrow> formatID x = formatID y \<and> key_bytes x = key_bytes y"
proof
  let ?g = "\<lambda>x. take (unat (gtrid_length x)) (data x)"
  let ?b = "\<lambda>x. take (unat (bqual_length x)) (drop (unat (gtrid_length x)) (data x))"
  have parts: "take (parts_length z) (data z) = ?g z @ ?b z" for z by (simp add: take_add)
  have len: "length (?g z) = unat (gtrid_length z)" "length (?b z) = unat (bqual_length z)" if "xid_ok z" for z
    using that by (auto simp: xid_ok_def min_def)
  note kx = key_bytes_ok [OF assms(2), unfolded parts] and ky = key_bytes_ok [OF assms(3), unfolded parts]
  {
    assume "xid_text dig x = xid_text dig y"
    then have e: "concat (map (hex dig) (?g x)) @ 39 # [44, 88, 39] @ concat (map (hex dig) (?b x)) @ [39, 44] @ decimal (unat (formatID x)) =
        concat (map (hex dig) (?g y)) @ 39 # [44, 88, 39] @ concat (map (hex dig) (?b y)) @ [39, 44] @ decimal (unat (formatID y))"
      by (simp add: xid_text_def)
    note sep = separator_eq [OF hexes_free [OF assms(1)] hexes_free [OF assms(1)], THEN iffD1]
    have g: "concat (map (hex dig) (?g x)) = concat (map (hex dig) (?g y))"
      and r: "concat (map (hex dig) (?b x)) @ 39 # 44 # decimal (unat (formatID x)) = concat (map (hex dig) (?b y)) @ 39 # 44 # decimal (unat (formatID y))"
      using sep [OF e] by simp_all
    have b: "concat (map (hex dig) (?b x)) = concat (map (hex dig) (?b y))" and d: "decimal (unat (formatID x)) = decimal (unat (formatID y))"
      using sep [OF r] by simp_all
    have "?g x = ?g y" "?b x = ?b y" using hexes_eq [OF assms(1)] g b by blast+
    moreover from this have "unat (gtrid_length x) = unat (gtrid_length y)" "unat (bqual_length x) = unat (bqual_length y)"
      using len assms(2,3) by metis+
    moreover have "formatID x = formatID y" using decimal_value d by (metis word_unat_eq_iff)
    ultimately show "formatID x = formatID y \<and> key_bytes x = key_bytes y" unfolding kx ky by simp
  next
    assume a: "formatID x = formatID y \<and> key_bytes x = key_bytes y"
    then have "le_bytes 4 (unat (gtrid_length x)) = le_bytes 4 (unat (gtrid_length y))"
      "le_bytes 4 (unat (bqual_length x)) = le_bytes 4 (unat (bqual_length y))" "?g x @ ?b x = ?g y @ ?b y"
      unfolding kx ky by simp_all
    moreover from this have "unat (gtrid_length x) = unat (gtrid_length y)" "unat (bqual_length x) = unat (bqual_length y)"
      using le_bytes_inj [of 4] unat_less_2p [of "gtrid_length x"] unat_less_2p [of "gtrid_length y"] unat_less_2p [of "bqual_length x"]
        unat_less_2p [of "bqual_length y"] by simp_all
    moreover from this have "length (?g x) = length (?g y)" using len(1) assms(2,3) by metis
    ultimately have "?g x = ?g y" "?b x = ?b y" by simp_all
    then show "xid_text dig x = xid_text dig y" using a by (simp add: xid_text_def)
  }
qed

section \<open>Properties\<close>

text \<open>
  C34. On valid identifiers equality is that of the bytes by which they are hashed, a partial equivalence that no null identifier
  is part of; a copy is equal to what was copied.
\<close>

theorem xid_equality:
  assumes "xid_ok x" and "xid_ok y" and "xid_ok z" and "length (data w) = XIDDATASIZE"
  shows "(xid_eq x y \<longleftrightarrow> \<not> xid_is_null x \<and> \<not> xid_is_null y \<and> key_bytes x = key_bytes y) \<and>
    (xid_eq x y \<longrightarrow> xid_eq y x) \<and> (xid_eq x y \<and> xid_eq y z \<longrightarrow> xid_eq x z) \<and> \<not> xid_eq x (xid_null y) \<and> \<not> xid_eq (xid_null y) x \<and>
    (\<exists>c. set_xid x w = Some c \<and> xid_ok c \<and> (xid_eq c x \<longleftrightarrow> \<not> xid_is_null x))"
proof -
  have nully: "xid_ok (xid_null y)" "xid_is_null (xid_null y)" using assms(2) by (simp_all add: xid_ok_def xid_null_def xid_is_null_def)
  obtain c where c: "set_xid x w = Some c" "xid_ok c" "formatID c = formatID x" "key_bytes c = key_bytes x"
    using set_xid_copies [OF assms(1,4)] by blast
  then have "xid_eq c x \<longleftrightarrow> \<not> xid_is_null x" using xid_eq_ok [OF c(2) assms(1)] by (auto simp: xid_is_null_def)
  then show ?thesis using c(1,2) nully xid_eq_ok [OF assms(1,2)] xid_eq_ok [OF assms(2,1)] xid_eq_ok [OF assms(2,3)] xid_eq_ok [OF assms(1,3)]
      xid_eq_ok [OF assms(1) nully(1)] xid_eq_ok [OF nully(1) assms(1)] by auto
qed

definition blank_xid :: xid where
  "blank_xid = \<lparr>formatID = - 1, gtrid_length = 0, bqual_length = 0, data = replicate XIDDATASIZE 0\<rparr>"

definition example_xid :: xid where
  "example_xid = \<lparr>formatID = 1, gtrid_length = 2, bqual_length = 1, data = [97, 98, 99] @ replicate 125 0\<rparr>"

lemma example_xids_ok: "xid_ok blank_xid" "xid_ok example_xid" "length (data blank_xid) = XIDDATASIZE"
  by (simp_all add: xid_ok_def blank_xid_def example_xid_def XIDDATASIZE_def)

theorem xid_equality_witness:
  "\<exists>c. set_xid example_xid blank_xid = Some c \<and> xid_eq c example_xid \<and> \<not> xid_eq example_xid (xid_null example_xid)"
  using xid_equality [OF example_xids_ok(2,2,2,3)] by (auto simp: xid_is_null_def example_xid_def)

text \<open>
  C17. The identifier of a transaction of the server gives its number and the number of the server back; one that was set from
  parts counts as such if and only if it has no branch and a global part of the same length and prefix, so that a part which
  a client chooses that way is taken for the server's.
\<close>

theorem own_xid_recognised:
  assumes "length (data x) = XIDDATASIZE" and "length g + length b \<le> XIDDATASIZE"
  shows "(\<exists>y. set_my_xid n sid x = Some y \<and> xid_ok y \<and> get_my_xid y = n \<and> get_trx_server_id y = sid \<and> xid_length y = 32) \<and>
    (\<exists>z. set_parts f g b x = Some z \<and> xid_ok z \<and>
       (b \<noteq> [] \<or> length g \<noteq> MYSQL_XID_GTRID_LEN \<or> take MYSQL_XID_PREFIX_LEN g \<noteq> MYSQL_XID_PREFIX \<longrightarrow> get_my_xid z = 0) \<and>
       (b = [] \<and> g = own_data n sid \<longrightarrow> get_my_xid z = n))"
proof -
  let ?y = "x\<lparr>formatID := 1, gtrid_length := 20, bqual_length := 0, data := own_data n sid @ drop 20 (data x)\<rparr>"
  have y: "xid_ok ?y" "take 20 (data ?y) = own_data n sid"
    using assms(1) by (simp_all add: xid_ok_def XIDDATASIZE_def length_own_data)
  have gt: "of_nat MYSQL_XID_GTRID_LEN = (20 :: clong)" "MYSQL_XID_GTRID_LEN = 20"
    by (simp_all add: MYSQL_XID_GTRID_LEN_def MYSQL_XID_OFFSET_def MYSQL_XID_PREFIX_LEN_def)
  have one: "\<exists>y. set_my_xid n sid x = Some y \<and> xid_ok y \<and> get_my_xid y = n \<and> get_trx_server_id y = sid \<and> xid_length y = 32"
    using set_my_xid_data [OF assms(1), of n sid] own_data_read [OF y(2)] y(1) gt(1)
    by (simp add: get_my_xid_def xid_length_def xid_key_length_def)
  obtain z where z: "set_parts f g b x = Some z" "xid_ok z" "gtrid_length z = of_nat (length g)" "bqual_length z = of_nat (length b)"
    "take (length g + length b) (data z) = g @ b" using set_parts_ok [OF assms, of f] by blast
  have u: "unat (of_nat (length g) :: clong) = length g" "unat (of_nat (length b) :: clong) = length b"
    using assms(2) by (intro unat_of_nat_small; simp add: XIDDATASIZE_def)+
  have "gtrid_length z = 20 \<longleftrightarrow> length g = 20" "bqual_length z = 0 \<longleftrightarrow> b = []"
    using z(3,4) u by (simp_all add: word_unat_eq_iff del: of_nat_eq_0_iff)
  moreover have "take MYSQL_XID_PREFIX_LEN (data z) = take MYSQL_XID_PREFIX_LEN g" if "length g = 20" "b = []"
  proof -
    have "take 20 (data z) = g" using z(5) that by simp
    then have "take 8 (take 20 (data z)) = take 8 g" by simp
    then show ?thesis by (simp add: MYSQL_XID_PREFIX_LEN_def min_def)
  qed
  ultimately have m: "get_my_xid z = (if length g = 20 \<and> b = [] \<and> take MYSQL_XID_PREFIX_LEN g = MYSQL_XID_PREFIX then quick_get_my_xid z else 0)"
    by (auto simp: get_my_xid_def gt(1))
  have "get_my_xid z = n" if "b = []" "g = own_data n sid"
  proof -
    have "take 20 (data z) = own_data n sid" using z(5) that length_own_data [of n sid] by simp
    then have "quick_get_my_xid z = n" by (rule own_data_read(2))
    then show ?thesis using m that length_own_data [of n sid] by (simp add: own_data_def MYSQL_XID_PREFIX_LEN_def MYSQL_XID_PREFIX_def)
  qed
  then show ?thesis using one z(1,2) m gt(2) by auto
qed

theorem own_xid_recognised_witness:
  "(\<exists>y. set_my_xid 77 3 blank_xid = Some y \<and> get_my_xid y = 77 \<and> get_trx_server_id y = 3) \<and>
   (\<exists>z. set_parts 5 [97, 98] [99] blank_xid = Some z \<and> get_my_xid z = 0)"
  using own_xid_recognised [OF example_xids_ok(3), of "[97, 98]" "[99]" 77 3 5] by (auto simp: XIDDATASIZE_def)

text \<open>
  C22. The text of a valid identifier, with its end mark, fits in the buffer reserved for it, nothing outside the buffer is
  written, and only identifiers with the same format, lengths and parts have the same text.
\<close>

theorem serialized_xid:
  assumes "xid_ok x" and "digits_ok dig"
  shows "\<exists>m'. serialize dig buf x m = Some (buf, m') \<and>
    bytes m' buf (length (xid_text dig x) + 1) = xid_text dig x @ [0] \<and> length (xid_text dig x) + 1 \<le> ser_buf_size \<and>
    (\<forall>a. (\<forall>i < ser_buf_size. a \<noteq> buf + of_nat i) \<longrightarrow> m' a = m a) \<and>
    (\<forall>y. xid_ok y \<longrightarrow> (xid_text dig y = xid_text dig x \<longleftrightarrow> formatID y = formatID x \<and> key_bytes y = key_bytes x))"
proof -
  let ?t = "xid_text dig x @ [0]"
  have fits: "length ?t \<le> ser_buf_size" using text_fits [OF assms(1), of dig] by simp
  have "bytes (put_bytes buf ?t m) buf (length ?t) = ?t"
    by (rule bytes_put_bytes) (use fits in \<open>simp add: ser_buf_size_def XIDDATASIZE_def\<close>)
  moreover have "put_bytes buf ?t m a = m a" if "\<forall>i < ser_buf_size. a \<noteq> buf + of_nat i" for a
    by (rule put_bytes_outside) (use that fits in auto)
  ultimately show ?thesis using serialize_text [OF assms(1), of dig buf m] fits text_eq [OF assms(2) _ assms(1)] by simp
qed

definition hex_digit :: "uchar \<Rightarrow> uchar" where "hex_digit d = (if d < 10 then 48 + d else 87 + d)"

lemma hex_digits_ok: "digits_ok hex_digit"
proof -
  have all: "list_all (\<lambda>i. hex_digit (of_nat i) \<noteq> 39 \<and> list_all (\<lambda>j. hex_digit (of_nat i) = hex_digit (of_nat j) \<longrightarrow> i = j) [0..<16]) [0..<16]"
    by code_simp
  have "hex_digit i \<noteq> 39" "hex_digit i = hex_digit j \<longrightarrow> i = j" if "i < 16" "j < 16" for i j
  proof -
    have ij: "unat i < 16" "unat j < 16" using that by (simp_all add: word_less_nat_alt)
    note a = all_below [OF all ij(1)]
    from a show "hex_digit i \<noteq> 39" by simp
    have "list_all (\<lambda>j. hex_digit i = hex_digit (of_nat j) \<longrightarrow> unat i = j) [0..<16]" using a by simp
    from all_below [OF this ij(2)] show "hex_digit i = hex_digit j \<longrightarrow> i = j" by (simp add: word_unat_eq_iff)
  qed
  then show ?thesis unfolding digits_ok_def by blast
qed

theorem serialized_xid_witness:
  "\<exists>m'. serialize hex_digit 1000 example_xid (\<lambda>_. 255) = Some (1000, m') \<and>
     bytes m' 1000 16 = [88, 39, 54, 49, 54, 50, 39, 44, 88, 39, 54, 51, 39, 44, 49, 0] \<and> m' 1300 = 255"
proof -
  have t: "xid_text hex_digit example_xid = [88, 39, 54, 49, 54, 50, 39, 44, 88, 39, 54, 51, 39, 44, 49]"
    by (simp add: xid_text_def example_xid_def hex_def hex_digit_def decimal.simps)
  have "\<forall>i < ser_buf_size. (1300 :: addr) \<noteq> 1000 + of_nat i"
  proof (intro allI impI notI)
    fix i assume i: "i < ser_buf_size" "(1300 :: addr) = 1000 + of_nat i"
    then have "(of_nat i :: addr) = 300" by (simp add: algebra_simps)
    moreover have "unat (of_nat i :: addr) = i" using i(1) by (intro unat_of_nat_small) (simp add: ser_buf_size_def XIDDATASIZE_def)
    ultimately show False using i(1) by (simp add: ser_buf_size_def XIDDATASIZE_def)
  qed
  moreover have "length [88, 39, 54, 49, 54, 50, 39, 44, 88, 39, 54, 51, 39, 44, 49 :: uchar] + 1 = 16" by simp
  ultimately show ?thesis using serialized_xid [OF example_xids_ok(2) hex_digits_ok, of 1000 "\<lambda>_. 255"]
    unfolding t by (metis append_Cons append_Nil)
qed

end
