(* ===== verification/Auto_Increment.thy ===== *)
theory Auto_Increment
  imports Heap_Path Simulation "HOL-Library.Monad_Syntax"
begin

text \<open>
  Generated ids of a statement: the intervals of auto-increment values and their lists (\<open>structs.h\<close>), and what a session keeps
  for \<open>LAST_INSERT_ID()\<close> and \<open>SET INSERT_ID\<close> (\<open>THD\<close> of \<open>sql_class.h\<close>, \<open>handler.h\<close>). Intervals live in a heap, so that lists can share
  them; \<open>append\<close>, which allocates, is outside the repository and a parameter.
\<close>

section \<open>Intervals\<close>

definition ULONGLONG_MAX :: ulonglong where "ULONGLONG_MAX = NOT 0"

record interval =
  interval_min :: ulonglong
  interval_values :: ulonglong
  interval_max :: ulonglong
  following :: ptr

definition replace_interval :: "ulonglong \<Rightarrow> ulonglong \<Rightarrow> ulonglong \<Rightarrow> interval \<Rightarrow> interval" where
  "replace_interval start val incr v =
     v\<lparr>interval_min := start, interval_values := val,
       interval_max := (if val = ULONGLONG_MAX then val else start + val * incr)\<rparr>"

definition mk_interval :: "ulonglong \<Rightarrow> ulonglong \<Rightarrow> ulonglong \<Rightarrow> interval" where
  "mk_interval start val incr =
     replace_interval start val incr \<lparr>interval_min = 0, interval_values = 0, interval_max = 0, following = 0\<rparr>"

definition no_interval :: interval where "no_interval = mk_interval 0 0 0"

text \<open>The result says whether merging failed.\<close>

definition merge_if_contiguous :: "ulonglong \<Rightarrow> ulonglong \<Rightarrow> ulonglong \<Rightarrow> interval \<Rightarrow> bool \<times> interval" where
  "merge_if_contiguous start val incr v =
     (if interval_max v = start
      then (False,
        if val = ULONGLONG_MAX then v\<lparr>interval_values := val, interval_max := val\<rparr>
        else v\<lparr>interval_values := interval_values v + val, interval_max := start + val * incr\<rparr>)
      else (True, v))"

section \<open>Lists of intervals\<close>

record intervals_list =
  head :: ptr
  tail :: ptr
  current :: ptr
  elements :: uint

record iv_heap =
  ivs :: "ptr \<Rightarrow> interval option"
  iv_lists :: "nat \<Rightarrow> intervals_list option"

text \<open>The constructor leaves the tail as it was.\<close>

definition mk_intervals_list :: "ptr \<Rightarrow> intervals_list" where
  "mk_intervals_list t = \<lparr>head = 0, tail = t, current = 0, elements = 0\<rparr>"

definition set_members :: "nat \<Rightarrow> intervals_list \<Rightarrow> iv_heap \<Rightarrow> iv_heap option" where
  "set_members this m h =
     (case iv_lists h this of None \<Rightarrow> None | Some _ \<Rightarrow> Some (h\<lparr>iv_lists := (iv_lists h)(this \<mapsto> m)\<rparr>))"

definition empty_no_free :: "nat \<Rightarrow> iv_heap \<Rightarrow> iv_heap option" where
  "empty_no_free this h = set_members this \<lparr>head = 0, tail = 0, current = 0, elements = 0\<rparr> h"

text \<open>Deleting an interval that is not allocated is \<open>None\<close>.\<close>

partial_function (option) empty_loop :: "ptr \<Rightarrow> (ptr \<Rightarrow> interval option) \<Rightarrow> (ptr \<Rightarrow> interval option) option" where
  "empty_loop i m = (if i = 0 then Some m else do { v \<leftarrow> m i; empty_loop (following v) (m(i := None)) })"

definition empty_list :: "nat \<Rightarrow> iv_heap \<Rightarrow> iv_heap option" where
  "empty_list this h = do {
     l \<leftarrow> iv_lists h this;
     m \<leftarrow> empty_loop (head l) (ivs h);
     empty_no_free this (h\<lparr>ivs := m\<rparr>) }"

definition copy_shallow :: "nat \<Rightarrow> nat \<Rightarrow> iv_heap \<Rightarrow> iv_heap option" where
  "copy_shallow this dli h = do {
     _ \<leftarrow> iv_lists h this;
     l \<leftarrow> iv_lists h dli;
     Some (h\<lparr>iv_lists := (iv_lists h)(this \<mapsto> l)\<rparr>) }"

definition swap_lists :: "nat \<Rightarrow> nat \<Rightarrow> iv_heap \<Rightarrow> iv_heap option" where
  "swap_lists this dli h = do {
     l \<leftarrow> iv_lists h dli;
     h \<leftarrow> copy_shallow dli this h;
     set_members this l h }"

definition get_next :: "nat \<Rightarrow> iv_heap \<Rightarrow> (ptr \<times> iv_heap) option" where
  "get_next this h = do {
     l \<leftarrow> iv_lists h this;
     let tmp = current l;
     (if current l \<noteq> 0
      then do {
        v \<leftarrow> ivs h (current l);
        Some (tmp, h\<lparr>iv_lists := (iv_lists h)(this \<mapsto> l\<lparr>current := following v\<rparr>)\<rparr>) }
      else Some (tmp, h)) }"

definition list_minimum :: "nat \<Rightarrow> iv_heap \<Rightarrow> ulonglong option" where
  "list_minimum this h = do {
     l \<leftarrow> iv_lists h this;
     (if head l \<noteq> 0 then map_option interval_min (ivs h (head l)) else Some 0) }"

definition list_maximum :: "nat \<Rightarrow> iv_heap \<Rightarrow> ulonglong option" where
  "list_maximum this h = do {
     l \<leftarrow> iv_lists h this;
     (if head l \<noteq> 0 then map_option interval_max (ivs h (tail l)) else Some 0) }"

definition nb_elements :: "nat \<Rightarrow> iv_heap \<Rightarrow> uint option" where
  "nb_elements this h = map_option elements (iv_lists h this)"

section \<open>The ids of a statement\<close>

record insert_ids =
  first_in_prev_stmt :: ulonglong
  first_in_prev_stmt_for_binlog :: ulonglong
  first_in_cur_stmt :: ulonglong
  depends_on_prev :: bool

definition record_first_successful_insert_id :: "ulonglong \<Rightarrow> insert_ids \<Rightarrow> insert_ids" where
  "record_first_successful_insert_id id_arg s =
     (if first_in_cur_stmt s = 0 then s\<lparr>first_in_cur_stmt := id_arg\<rparr> else s)"

definition read_first_successful_insert_id :: "insert_ids \<Rightarrow> ulonglong \<times> insert_ids" where
  "read_first_successful_insert_id s =
     (let s = (if \<not> depends_on_prev s
               then s\<lparr>first_in_prev_stmt_for_binlog := first_in_prev_stmt s, depends_on_prev := True\<rparr> else s)
      in (first_in_prev_stmt s, s))"

text \<open>The list \<open>forced\<close> is \<open>auto_inc_intervals_forced\<close>.\<close>

definition force_one_auto_inc_interval ::
  "(nat \<Rightarrow> ulonglong \<Rightarrow> ulonglong \<Rightarrow> ulonglong \<Rightarrow> iv_heap \<Rightarrow> iv_heap option) \<Rightarrow> nat \<Rightarrow> ulonglong \<Rightarrow> iv_heap \<Rightarrow> iv_heap option" where
  "force_one_auto_inc_interval append_interval forced next_id h = do {
     h \<leftarrow> empty_list forced h;
     append_interval forced next_id ULONGLONG_MAX 0 h }"

record row_ids =
  next_insert_id :: ulonglong
  insert_id_for_cur_row :: ulonglong

definition set_next_insert_id :: "ulonglong \<Rightarrow> row_ids \<Rightarrow> row_ids" where
  "set_next_insert_id i r = r\<lparr>next_insert_id := i\<rparr>"

definition restore_auto_increment :: "ulonglong \<Rightarrow> row_ids \<Rightarrow> row_ids" where
  "restore_auto_increment prev_insert_id r =
     r\<lparr>next_insert_id := (if 0 < prev_insert_id then prev_insert_id else insert_id_for_cur_row r)\<rparr>"

section \<open>Merged intervals\<close>

definition ids :: "ulonglong \<Rightarrow> interval \<Rightarrow> ulonglong list" where
  "ids incr v = map (\<lambda>k. interval_min v + of_nat k * incr) [0..<unat (interval_values v)]"

definition valid_interval :: "ulonglong \<Rightarrow> interval \<Rightarrow> bool" where
  "valid_interval incr v \<longleftrightarrow> interval_values v \<noteq> ULONGLONG_MAX \<and> interval_max v = interval_min v + interval_values v * incr"

lemma mk_interval_sel [simp]:
  "interval_min (mk_interval s n i) = s" "interval_values (mk_interval s n i) = n" "following (mk_interval s n i) = 0"
  by (simp_all add: mk_interval_def replace_interval_def)

lemma mk_interval_valid: "n \<noteq> ULONGLONG_MAX \<Longrightarrow> valid_interval incr (mk_interval s n incr)"
  by (simp add: valid_interval_def mk_interval_def replace_interval_def)

text \<open>Reservations are merged from the left until one does not follow.\<close>

fun merge_run :: "ulonglong \<Rightarrow> (ulonglong \<times> ulonglong) list \<Rightarrow> interval \<Rightarrow> (ulonglong \<times> ulonglong) list \<times> interval" where
  "merge_run incr [] v = ([], v)"
| "merge_run incr ((s, n) # rs) v =
     (let (failed, v') = merge_if_contiguous s n incr v in if failed then ((s, n) # rs, v) else merge_run incr rs v')"

lemma merge_ids:
  assumes v: "valid_interval incr v" and s: "interval_max v = s"
    and room: "unat (interval_values v) + unat n < unat ULONGLONG_MAX"
  defines "w \<equiv> snd (merge_if_contiguous s n incr v)"
  shows "valid_interval incr w" "ids incr w = ids incr v @ ids incr (mk_interval s n incr)"
    "unat (interval_values w) = unat (interval_values v) + unat n" "interval_min w = interval_min v"
proof -
  have n: "n \<noteq> ULONGLONG_MAX" using room by auto
  have w: "w = v\<lparr>interval_values := interval_values v + n, interval_max := s + n * incr\<rparr>"
    using s n by (simp add: w_def merge_if_contiguous_def)
  have "unat ULONGLONG_MAX < 2 ^ 64" using unat_less_2p [of ULONGLONG_MAX] by simp
  then have u: "unat (interval_values v + n) = unat (interval_values v) + unat n"
    using room by (simp add: unat_word_ariths)
  show "unat (interval_values w) = unat (interval_values v) + unat n" "interval_min w = interval_min v"
    using u by (simp_all add: w)
  have "interval_values v + n \<noteq> ULONGLONG_MAX" using u room by auto
  then show "valid_interval incr w" using v s by (simp add: w valid_interval_def algebra_simps)
  have "map (\<lambda>k. interval_min v + of_nat k * incr) [unat (interval_values v)..<unat (interval_values v) + unat n] =
      map (\<lambda>k. s + of_nat k * incr) [0..<unat n]"
    using v s by (intro nth_equalityI) (auto simp: valid_interval_def algebra_simps)
  then show "ids incr w = ids incr v @ ids incr (mk_interval s n incr)"
    using upt_add_eq_append [of 0 "unat (interval_values v)" "unat n"] by (simp add: ids_def w u)
qed

lemma merge_run_ids:
  assumes "valid_interval incr v"
    and "unat (interval_values v) + sum_list (map (\<lambda>(s, n). unat n) rs) < unat ULONGLONG_MAX"
    and "merge_run incr rs v = (rest, w)"
  shows "\<exists>merged. rs = merged @ rest \<and> ids incr w = ids incr v @ concat (map (\<lambda>(s, n). ids incr (mk_interval s n incr)) merged) \<and>
    valid_interval incr w \<and> interval_min w = interval_min v \<and> (\<forall>s n rs'. rest = (s, n) # rs' \<longrightarrow> s \<noteq> interval_max w)"
  using assms
proof (induction rs arbitrary: v)
  case Nil
  then show ?case by simp
next
  case (Cons r rs)
  obtain s n where r: "r = (s, n)" by (cases r)
  show ?case
  proof (cases "interval_max v = s")
    case True
    have room: "unat (interval_values v) + unat n < unat ULONGLONG_MAX" using Cons.prems(2) r by simp
    let ?v = "snd (merge_if_contiguous s n incr v)"
    note m = merge_ids [OF Cons.prems(1) True room]
    have run: "merge_run incr rs ?v = (rest, w)" using Cons.prems(3) True by (simp add: r merge_if_contiguous_def)
    have "unat (interval_values ?v) + sum_list (map (\<lambda>(s, n). unat n) rs) < unat ULONGLONG_MAX"
      using Cons.prems(2) m(3) r by simp
    from Cons.IH [OF m(1) this run] obtain merged where "rs = merged @ rest"
      "ids incr w = ids incr ?v @ concat (map (\<lambda>(s, n). ids incr (mk_interval s n incr)) merged)"
      "valid_interval incr w" "interval_min w = interval_min ?v" "\<forall>s n rs'. rest = (s, n) # rs' \<longrightarrow> s \<noteq> interval_max w" by blast
    then show ?thesis using m(2,4) r by (intro exI [of _ "r # merged"]) simp
  next
    case False
    then have "rest = r # rs" "w = v" using Cons.prems(3) by (auto simp: r merge_if_contiguous_def)
    then show ?thesis using Cons.prems(1) False r by (intro exI [of _ "[]"]) auto
  qed
qed

section \<open>Lists that share intervals\<close>

abbreviation links :: "(ptr \<Rightarrow> interval option) \<Rightarrow> ptr \<Rightarrow> ptr option" where
  "links m \<equiv> \<lambda>p. map_option following (m p)"

lemma empty_loop_path:
  "path (links m) i bs 0 \<Longrightarrow> distinct bs \<Longrightarrow> empty_loop i m = Some (\<lambda>p. if p \<in> set bs then None else m p)"
proof (induction bs arbitrary: i m)
  case Nil
  then show ?case by (simp add: empty_loop.simps)
next
  case (Cons b bs)
  then obtain v where v: "i = b" "b \<noteq> 0" "m b = Some v" "path (links m) (following v) bs 0" by auto
  have "path (links (m(b := None))) (following v) bs 0" by (rule path_frame [OF v(4)]) (use Cons.prems(2) in auto)
  then have "empty_loop (following v) (m(b := None)) = Some (\<lambda>p. if p \<in> set bs then None else (m(b := None)) p)"
    using Cons.prems(2) by (intro Cons.IH) auto
  then show ?case using v(1-3) by (subst empty_loop.simps) (auto simp: fun_eq_iff)
qed

text \<open>The intervals of each list, how many of them were taken, and the intervals that were deleted.\<close>

record interval_lists =
  members :: "nat \<Rightarrow> ptr list"
  taken :: "nat \<Rightarrow> nat"
  freed :: "ptr set"

definition list_rep :: "(ptr \<Rightarrow> interval option) \<Rightarrow> intervals_list \<Rightarrow> ptr list \<Rightarrow> nat \<Rightarrow> bool" where
  "list_rep m l bs k \<longleftrightarrow> path (links m) (head l) bs 0 \<and> distinct bs \<and> k \<le> length bs \<and>
     current l = hd0 (drop k bs) \<and> elements l = of_nat (length bs) \<and> (bs \<noteq> [] \<longrightarrow> tail l = last bs)"

definition intervals_rep :: "nat set \<Rightarrow> iv_heap \<Rightarrow> iv_heap \<Rightarrow> interval_lists \<Rightarrow> bool" where
  "intervals_rep L g h a \<longleftrightarrow>
     (\<forall>q\<in>L. \<exists>l. iv_lists h q = Some l \<and> list_rep (ivs h) l (members a q) (taken a q)) \<and>
     (\<forall>q. q \<notin> L \<longrightarrow> iv_lists h q = iv_lists g q) \<and> ivs h = (\<lambda>p. if p \<in> freed a then None else ivs g p)"

datatype intervals_cmd = Empty nat | Forget nat | Copy nat nat | Swap nat nat | Get_next nat | Minimum nat | Maximum nat | Elements nat

datatype intervals_out = Done | Interval ptr | Value ulonglong | Count uint

fun intervals_step :: "intervals_cmd \<Rightarrow> iv_heap \<Rightarrow> (intervals_out \<times> iv_heap) option" where
  "intervals_step (Empty q) h = map_option (Pair Done) (empty_list q h)"
| "intervals_step (Forget q) h = map_option (Pair Done) (empty_no_free q h)"
| "intervals_step (Copy q r) h = map_option (Pair Done) (copy_shallow q r h)"
| "intervals_step (Swap q r) h = map_option (Pair Done) (swap_lists q r h)"
| "intervals_step (Get_next q) h = map_option (\<lambda>(p, h). (Interval p, h)) (get_next q h)"
| "intervals_step (Minimum q) h = map_option (\<lambda>x. (Value x, h)) (list_minimum q h)"
| "intervals_step (Maximum q) h = map_option (\<lambda>x. (Value x, h)) (list_maximum q h)"
| "intervals_step (Elements q) h = map_option (\<lambda>x. (Count x, h)) (nb_elements q h)"

text \<open>Only a list that shares no interval with another can be emptied.\<close>

fun intervals_spec :: "nat set \<Rightarrow> iv_heap \<Rightarrow> intervals_cmd \<Rightarrow> interval_lists \<Rightarrow> (intervals_out \<times> interval_lists) option" where
  "intervals_spec L g (Empty q) a =
     (if q \<in> L \<and> (\<forall>r\<in>L - {q}. set (members a r) \<inter> set (members a q) = {})
      then Some (Done, a\<lparr>members := (members a)(q := []), taken := (taken a)(q := 0), freed := freed a \<union> set (members a q)\<rparr>)
      else None)"
| "intervals_spec L g (Forget q) a =
     (if q \<in> L then Some (Done, a\<lparr>members := (members a)(q := []), taken := (taken a)(q := 0)\<rparr>) else None)"
| "intervals_spec L g (Copy q r) a =
     (if q \<in> L \<and> r \<in> L
      then Some (Done, a\<lparr>members := (members a)(q := members a r), taken := (taken a)(q := taken a r)\<rparr>) else None)"
| "intervals_spec L g (Swap q r) a =
     (if q \<in> L \<and> r \<in> L
      then Some (Done, a\<lparr>members := (members a)(r := members a q, q := members a r), taken := (taken a)(r := taken a q, q := taken a r)\<rparr>)
      else None)"
| "intervals_spec L g (Get_next q) a =
     (if q \<in> L
      then (if taken a q < length (members a q)
            then Some (Interval (members a q ! taken a q), a\<lparr>taken := (taken a)(q := taken a q + 1)\<rparr>)
            else Some (Interval 0, a))
      else None)"
| "intervals_spec L g (Minimum q) a =
     (if q \<in> L then Some (Value (case members a q of [] \<Rightarrow> 0 | b # _ \<Rightarrow> interval_min (the (ivs g b))), a) else None)"
| "intervals_spec L g (Maximum q) a =
     (if q \<in> L then Some (Value (if members a q = [] then 0 else interval_max (the (ivs g (last (members a q))))), a) else None)"
| "intervals_spec L g (Elements q) a = (if q \<in> L then Some (Count (of_nat (length (members a q))), a) else None)"

lemma intervals_repD:
  assumes "intervals_rep L g h a" and "q \<in> L"
  obtains l where "iv_lists h q = Some l" "list_rep (ivs h) l (members a q) (taken a q)"
  using assms by (auto simp: intervals_rep_def)

lemma list_rep_empty: "list_rep m \<lparr>head = 0, tail = 0, current = 0, elements = 0\<rparr> [] 0"
  by (simp add: list_rep_def)

lemma list_rep_frame: "list_rep m l bs k \<Longrightarrow> \<forall>b\<in>set bs. m' b = m b \<Longrightarrow> list_rep m' l bs k"
  by (auto simp: list_rep_def intro: path_frame)

text \<open>A list holds allocated intervals, whose contents are those of the initial heap.\<close>

lemma list_rep_content:
  assumes "intervals_rep L g h a" and "list_rep (ivs h) l bs k" and "b \<in> set bs"
  shows "b \<noteq> 0" "ivs h b = Some (the (ivs g b))"
proof -
  have p: "path (links (ivs h)) (head l) bs 0" using assms(2) by (simp add: list_rep_def)
  show "b \<noteq> 0" using path_nonnull [OF p] assms(3) by metis
  obtain v where "ivs h b = Some v" using path_dom [OF p] assms(3) by (auto simp: dom_def)
  then show "ivs h b = Some (the (ivs g b))" using assms(1) by (auto simp: intervals_rep_def split: if_splits)
qed

lemma intervals_empty:
  assumes rep: "intervals_rep L g h a" and q: "q \<in> L" and alone: "\<forall>r\<in>L - {q}. set (members a r) \<inter> set (members a q) = {}"
  shows "\<exists>h'. empty_list q h = Some h' \<and>
    intervals_rep L g h' (a\<lparr>members := (members a)(q := []), taken := (taken a)(q := 0), freed := freed a \<union> set (members a q)\<rparr>)"
proof -
  obtain l where l: "iv_lists h q = Some l" "list_rep (ivs h) l (members a q) (taken a q)" using intervals_repD [OF rep q] .
  let ?m = "\<lambda>p. if p \<in> set (members a q) then None else ivs h p"
  have "empty_loop (head l) (ivs h) = Some ?m" using l(2) by (intro empty_loop_path) (simp_all add: list_rep_def)
  then have e: "empty_list q h = Some (h\<lparr>ivs := ?m, iv_lists := (iv_lists h)(q \<mapsto> \<lparr>head = 0, tail = 0, current = 0, elements = 0\<rparr>)\<rparr>)"
    using l(1) by (simp add: empty_list_def empty_no_free_def set_members_def)
  have "\<exists>l. iv_lists h r = Some l \<and> list_rep ?m l (members a r) (taken a r)" if "r \<in> L" "r \<noteq> q" for r
  proof -
    note r = that
    obtain l where l: "iv_lists h r = Some l" "list_rep (ivs h) l (members a r) (taken a r)" using intervals_repD [OF rep r(1)] .
    have "set (members a r) \<inter> set (members a q) = {}" using alone r by blast
    then have "\<forall>b\<in>set (members a r). ?m b = ivs h b" by auto
    then have "list_rep ?m l (members a r) (taken a r)" by (rule list_rep_frame [OF l(2)])
    with l(1) show ?thesis by (rule_tac x = l in exI) (rule conjI)
  qed
  then have "intervals_rep L g (h\<lparr>ivs := ?m, iv_lists := (iv_lists h)(q \<mapsto> \<lparr>head = 0, tail = 0, current = 0, elements = 0\<rparr>)\<rparr>)
      (a\<lparr>members := (members a)(q := []), taken := (taken a)(q := 0), freed := freed a \<union> set (members a q)\<rparr>)"
    using rep q by (auto simp: intervals_rep_def list_rep_empty fun_eq_iff)
  then show ?thesis using e by blast
qed

lemma intervals_next:
  assumes rep: "intervals_rep L g h a" and q: "q \<in> L"
  shows "\<exists>h'. get_next q h = Some ((if taken a q < length (members a q) then members a q ! taken a q else 0), h') \<and>
    intervals_rep L g h' (if taken a q < length (members a q) then a\<lparr>taken := (taken a)(q := taken a q + 1)\<rparr> else a)"
proof -
  obtain l where l: "iv_lists h q = Some l" "list_rep (ivs h) l (members a q) (taken a q)" using intervals_repD [OF rep q] .
  let ?bs = "members a q" and ?k = "taken a q"
  show ?thesis
  proof (cases "?k < length ?bs")
    case True
    let ?b = "?bs ! ?k"
    have d: "drop ?k ?bs = ?b # drop (Suc ?k) ?bs" using True by (simp add: Cons_nth_drop_Suc)
    have b: "?b \<in> set ?bs" using True by simp
    note c = list_rep_content [OF rep l(2) b]
    have "path (links (ivs h)) (head l) (take ?k ?bs @ ?b # drop (Suc ?k) ?bs) 0"
      using l(2) id_take_nth_drop [OF True] by (simp add: list_rep_def)
    then have nx: "following (the (ivs g ?b)) = hd0 (drop (Suc ?k) ?bs)" using path_next c(2) by fastforce
    have cur: "current l = ?b" using l(2) d by (simp add: list_rep_def)
    have "list_rep (ivs h) (l\<lparr>current := following (the (ivs g ?b))\<rparr>) ?bs (Suc ?k)"
      using l(2) True nx by (simp add: list_rep_def)
    then show ?thesis using rep q l(1) c cur True by (auto simp: get_next_def intervals_rep_def Let_def)
  next
    case False
    then have "current l = 0" using l(2) by (simp add: list_rep_def)
    then show ?thesis using rep l(1) False by (simp add: get_next_def)
  qed
qed

lemma intervals_refine:
  assumes rep: "intervals_rep L g h a" and spec: "intervals_spec L g c a = Some (x, a')"
  shows "\<exists>h'. intervals_step c h = Some (x, h') \<and> intervals_rep L g h' a'"
proof (cases c)
  case (Empty q)
  then show ?thesis using spec intervals_empty [OF rep, of q] by (auto split: if_splits)
next
  case (Forget q)
  then have q: "q \<in> L" using spec by (auto split: if_splits)
  then obtain l where "iv_lists h q = Some l" using intervals_repD [OF rep] by metis
  then show ?thesis using Forget spec rep q
    by (auto simp: empty_no_free_def set_members_def intervals_rep_def list_rep_empty)
next
  case (Copy q r)
  then have q: "q \<in> L" "r \<in> L" using spec by (auto split: if_splits)
  obtain l k where "iv_lists h q = Some l" "iv_lists h r = Some k" using q intervals_repD [OF rep] by metis
  then show ?thesis using Copy spec rep q by (auto simp: copy_shallow_def intervals_rep_def)
next
  case (Swap q r)
  then have q: "q \<in> L" "r \<in> L" using spec by (auto split: if_splits)
  obtain l k where "iv_lists h q = Some l" "iv_lists h r = Some k" using q intervals_repD [OF rep] by metis
  then show ?thesis using Swap spec rep q by (auto simp: swap_lists_def set_members_def copy_shallow_def intervals_rep_def)
next
  case (Get_next q)
  then show ?thesis using spec intervals_next [OF rep, of q] by (auto split: if_splits)
next
  case (Minimum q)
  then have q: "q \<in> L" using spec by (auto split: if_splits)
  obtain l where l: "iv_lists h q = Some l" "list_rep (ivs h) l (members a q) (taken a q)" using intervals_repD [OF rep q] .
  have "head l = hd0 (members a q)" using l(2) path_hd0 by (auto simp: list_rep_def)
  then show ?thesis using Minimum spec rep q l(1) list_rep_content [OF rep l(2)]
    by (cases "members a q") (auto simp: list_minimum_def)
next
  case (Maximum q)
  then have q: "q \<in> L" using spec by (auto split: if_splits)
  obtain l where l: "iv_lists h q = Some l" "list_rep (ivs h) l (members a q) (taken a q)" using intervals_repD [OF rep q] .
  have "head l = hd0 (members a q)" "members a q \<noteq> [] \<Longrightarrow> tail l = last (members a q)" using l(2) path_hd0 by (auto simp: list_rep_def)
  moreover have "members a q \<noteq> [] \<Longrightarrow> hd0 (members a q) \<noteq> 0" using list_rep_content(1) [OF rep l(2)] by (simp add: hd0_hd)
  ultimately show ?thesis using Maximum spec rep q l(1) list_rep_content(2) [OF rep l(2) last_in_set]
    by (cases "members a q = []") (auto simp: list_maximum_def)
next
  case (Elements q)
  then have q: "q \<in> L" using spec by (auto split: if_splits)
  obtain l where "iv_lists h q = Some l" "list_rep (ivs h) l (members a q) (taken a q)" using intervals_repD [OF rep q] .
  then show ?thesis using Elements spec rep q by (auto simp: nb_elements_def list_rep_def)
qed

interpretation interval_lists: simulation "\<lambda>k. intervals_rep L g" intervals_step "intervals_spec L g"
  by unfold_locales (rule intervals_refine)

section \<open>The ids as a history\<close>

text \<open>\<open>Assign\<close> is a store to the id of the previous statement by code outside, as \<open>SET LAST_INSERT_ID\<close> makes it; \<open>Binlog\<close> is what
  a statement-based binary log stores with the statement, if anything.\<close>

datatype ids_cmd = Record ulonglong | Read | Assign ulonglong | Binlog | First_id

fun ids_step :: "ids_cmd \<Rightarrow> insert_ids \<Rightarrow> (ulonglong option \<times> insert_ids) option" where
  "ids_step (Record i) s = Some (None, record_first_successful_insert_id i s)"
| "ids_step Read s = (case read_first_successful_insert_id s of (v, s) \<Rightarrow> Some (Some v, s))"
| "ids_step (Assign v) s = Some (None, s\<lparr>first_in_prev_stmt := v\<rparr>)"
| "ids_step Binlog s = Some (if depends_on_prev s then Some (first_in_prev_stmt_for_binlog s) else None, s)"
| "ids_step First_id s = Some (Some (first_in_cur_stmt s), s)"

fun assigned :: "ulonglong \<Rightarrow> ids_cmd list \<Rightarrow> ulonglong" where
  "assigned v [] = v"
| "assigned v (Assign w # cs) = assigned w cs"
| "assigned v (_ # cs) = assigned v cs"

fun first_success :: "ids_cmd list \<Rightarrow> ulonglong" where
  "first_success [] = 0"
| "first_success (Record i # cs) = (if i = 0 then first_success cs else i)"
| "first_success (_ # cs) = first_success cs"

text \<open>What a command answers after a history of commands.\<close>

definition answer :: "ulonglong \<Rightarrow> ids_cmd list \<Rightarrow> ids_cmd \<Rightarrow> ulonglong option" where
  "answer v cs c =
     (case c of Record _ \<Rightarrow> None | Assign _ \<Rightarrow> None
      | Read \<Rightarrow> Some (assigned v cs)
      | Binlog \<Rightarrow> (if Read \<in> set cs then Some (assigned v (takeWhile (\<lambda>d. d \<noteq> Read) cs)) else None)
      | First_id \<Rightarrow> Some (first_success cs))"

lemma assigned_snoc: "assigned v (cs @ [c]) = (case c of Assign w \<Rightarrow> w | _ \<Rightarrow> assigned v cs)"
  by (induction v cs rule: assigned.induct) (auto split: ids_cmd.split)

lemma first_success_snoc:
  "first_success (cs @ [c]) = (if first_success cs = 0 then (case c of Record i \<Rightarrow> i | _ \<Rightarrow> 0) else first_success cs)"
  by (induction cs rule: first_success.induct) (auto split: ids_cmd.split)

definition ids_rep :: "ulonglong \<Rightarrow> insert_ids \<Rightarrow> ids_cmd list \<Rightarrow> bool" where
  "ids_rep v s cs \<longleftrightarrow> first_in_prev_stmt s = assigned v cs \<and> first_in_cur_stmt s = first_success cs \<and>
     depends_on_prev s = (Read \<in> set cs) \<and>
     (Read \<in> set cs \<longrightarrow> first_in_prev_stmt_for_binlog s = assigned v (takeWhile (\<lambda>d. d \<noteq> Read) cs))"

lemma takeWhile_snoc: "takeWhile P (xs @ [x]) = (if list_all P xs then xs @ (if P x then [x] else []) else takeWhile P xs)"
  by (induction xs) auto

lemma ids_refine:
  assumes "ids_rep v s cs"
  shows "\<exists>s'. ids_step c s = Some (answer v cs c, s') \<and> ids_rep v s' (cs @ [c])"
proof -
  have reads: "list_all (\<lambda>d. d \<noteq> Read) cs \<longleftrightarrow> Read \<notin> set cs" by (auto simp: list_all_iff)
  have "takeWhile (\<lambda>d. d \<noteq> Read) cs = cs" if "Read \<notin> set cs" using that by (auto simp: takeWhile_eq_all_conv)
  then show ?thesis using assms
    by (cases c) (auto simp: ids_rep_def answer_def assigned_snoc first_success_snoc takeWhile_snoc reads
      record_first_successful_insert_id_def read_first_successful_insert_id_def)
qed

interpretation statement_ids: simulation "\<lambda>k. ids_rep v" ids_step "\<lambda>c cs. Some (answer v cs c, cs @ [c])"
  by unfold_locales (use ids_refine in auto)

lemma history_run:
  "run_cmds (\<lambda>c cs. Some (answer v cs c, cs @ [c])) ds cs =
     Some (map (\<lambda>i. answer v (cs @ take i ds) (ds ! i)) [0..<length ds], cs @ ds)"
proof (induction ds arbitrary: cs)
  case (Cons d ds)
  have "map (\<lambda>i. answer v (cs @ take i (d # ds)) ((d # ds) ! i)) [0..<length (d # ds)] =
      answer v cs d # map (\<lambda>i. answer v ((cs @ [d]) @ take i ds) (ds ! i)) [0..<length ds]"
    by (simp only: length_Cons upt_conv_Cons [OF zero_less_Suc] list.map map_Suc_upt [symmetric] map_map comp_def) simp
  then show ?case by (simp add: Cons.IH del: upt_Suc)
qed simp

section \<open>Properties\<close>

text \<open>
  C13. A program that copies, swaps, empties and reads lists of intervals, some of them sharing their intervals, returns what it
  returns on the sequences of intervals: every list gives its intervals in order from the first one on and then no more, and
  emptying a list that shares none deletes its intervals, each once, and no other.
\<close>

theorem intervals_program:
  assumes "intervals_rep L g h a" and "run_cmds (intervals_spec L g) cs a = Some (xs, a')"
  shows "\<exists>h'. run_cmds intervals_step cs h = Some (xs, h') \<and> intervals_rep L g h' a'"
  using interval_lists.run_refines [OF assms] .

definition two_intervals :: iv_heap where
  "two_intervals =
     \<lparr>ivs = [10 \<mapsto> (mk_interval 1 2 1)\<lparr>following := 20\<rparr>, 20 \<mapsto> mk_interval 7 3 1],
      iv_lists = [1 \<mapsto> \<lparr>head = 10, tail = 20, current = 10, elements = 2\<rparr>, 2 \<mapsto> mk_intervals_list 99]\<rparr>"

definition intervals_of_two :: interval_lists where
  "intervals_of_two = \<lparr>members = (\<lambda>_. [])(1 := [10, 20]), taken = (\<lambda>_. 0), freed = {}\<rparr>"

definition taking_program :: "intervals_cmd list" where
  "taking_program = [Get_next 1, Swap 1 2, Get_next 2, Get_next 2, Elements 2, Minimum 2, Maximum 2, Elements 1, Empty 2, Minimum 2]"

lemma taking_spec_run:
  "\<exists>a. run_cmds (intervals_spec {1, 2} two_intervals) taking_program intervals_of_two =
     Some ([Interval 10, Done, Interval 20, Interval 0, Count 2, Value 1, Value 10, Count 0, Done, Value 0], a) \<and> freed a = {10, 20}"
  by (auto simp: taking_program_def two_intervals_def intervals_of_two_def mk_interval_def replace_interval_def ULONGLONG_MAX_def)

theorem intervals_program_witness:
  "\<exists>h. run_cmds intervals_step taking_program two_intervals =
     Some ([Interval 10, Done, Interval 20, Interval 0, Count 2, Value 1, Value 10, Count 0, Done, Value 0], h) \<and>
     ivs h 10 = None \<and> ivs h 20 = None"
proof -
  have "intervals_rep {1, 2} two_intervals two_intervals intervals_of_two"
    by (auto simp: intervals_rep_def list_rep_def two_intervals_def intervals_of_two_def mk_intervals_list_def)
  from intervals_program [OF this] taking_spec_run show ?thesis by (fastforce simp: intervals_rep_def)
qed

text \<open>
  Reservations merged into an interval, with a step \<open>incr\<close>, add their ids to those of the interval in the order of the
  reservations, also when the ids wrap around; merging stops only at a reservation that does not start where the interval ends.
\<close>

theorem merged_ids:
  assumes "valid_interval incr v"
    and "unat (interval_values v) + sum_list (map (\<lambda>(s, n). unat n) rs) < unat ULONGLONG_MAX"
  shows "\<exists>merged rest w. merge_run incr rs v = (rest, w) \<and> rs = merged @ rest \<and>
    ids incr w = ids incr v @ concat (map (\<lambda>(s, n). ids incr (mk_interval s n incr)) merged) \<and>
    (\<forall>s n rs'. rest = (s, n) # rs' \<longrightarrow> s \<noteq> interval_min w + interval_values w * incr)"
proof -
  obtain rest w where run: "merge_run incr rs v = (rest, w)" by fastforce
  from merge_run_ids [OF assms run] show ?thesis by (auto simp: valid_interval_def run)
qed

theorem merged_ids_witness:
  "\<exists>w. merge_run 2 [(5, 2), (9, 1), (12, 1)] (mk_interval 1 2 2) = ([(12, 1)], w) \<and> ids 2 w = [1, 3, 5, 7, 9]"
proof -
  have run: "fst (merge_run 2 [(5, 2), (9, 1), (12, 1)] (mk_interval 1 2 2)) = [(12, 1)]"
    by (simp add: merge_if_contiguous_def mk_interval_def replace_interval_def ULONGLONG_MAX_def)
  have "(2 :: ulonglong) \<noteq> ULONGLONG_MAX" by (simp add: ULONGLONG_MAX_def)
  note valid = mk_interval_valid [OF this, of 2 1]
  have "\<exists>merged rest w. merge_run 2 [(5, 2), (9, 1), (12, 1)] (mk_interval 1 2 2) = (rest, w) \<and> [(5, 2), (9, 1), (12, 1)] = merged @ rest \<and>
      ids 2 w = ids 2 (mk_interval 1 2 2) @ concat (map (\<lambda>(s, n). ids 2 (mk_interval s n 2)) merged) \<and>
      (\<forall>s n rs'. rest = (s, n) # rs' \<longrightarrow> s \<noteq> interval_min w + interval_values w * 2)"
    by (rule merged_ids [OF valid]) (simp add: ULONGLONG_MAX_def unsigned_minus_1_eq_mask mask_eq_exp_minus_1)
  then obtain merged rest w where m: "merge_run 2 [(5, 2), (9, 1), (12, 1)] (mk_interval 1 2 2) = (rest, w)"
    "[(5, 2), (9, 1), (12, 1)] = merged @ rest"
    "ids 2 w = ids 2 (mk_interval 1 2 2) @ concat (map (\<lambda>(s, n). ids 2 (mk_interval s n 2)) merged)" by blast
  have rest: "rest = [(12, 1)]" using run m(1) by simp
  then have "merged = [(5, 2), (9, 1)]" using m(2) by (simp add: Cons_eq_append_conv)
  then show ?thesis using m(1,3) rest by (simp add: ids_def upt_rec)
qed

text \<open>
  C30. Whatever a statement does, and whoever assigns \<open>LAST_INSERT_ID\<close> meanwhile, a read gives the id assigned last, the statement
  keeps the first nonzero id that was recorded, and the binary log stores the id that stood at the first read, if there was one.
\<close>

theorem last_insert_ids:
  assumes "\<not> depends_on_prev s" and "first_in_cur_stmt s = 0"
  shows "\<exists>s'. run_cmds ids_step cs s =
    Some (map (\<lambda>i. answer (first_in_prev_stmt s) (take i cs) (cs ! i)) [0..<length cs], s')"
proof -
  have "ids_rep (first_in_prev_stmt s) s []" using assms by (simp add: ids_rep_def)
  from statement_ids.run_refines [OF this history_run] show ?thesis by auto
qed

theorem last_insert_ids_witness:
  "\<exists>s'. run_cmds ids_step [Binlog, Record 0, Assign 5, Read, Assign 6, Record 8, Read, Record 9, Binlog, First_id]
     \<lparr>first_in_prev_stmt = 3, first_in_prev_stmt_for_binlog = 1, first_in_cur_stmt = 0, depends_on_prev = False\<rparr> =
     Some ([None, None, None, Some 5, None, None, Some 6, None, Some 5, Some 8], s')"
  using last_insert_ids [of "\<lparr>first_in_prev_stmt = 3, first_in_prev_stmt_for_binlog = 1, first_in_cur_stmt = 0, depends_on_prev = False\<rparr>"
      "[Binlog, Record 0, Assign 5, Read, Assign 6, Record 8, Read, Record 9, Binlog, First_id]"]
  by (simp add: upt_rec answer_def)

text \<open>
  However often \<open>SET INSERT_ID\<close> is given, one endless interval that starts at the last id is left: it is taken once, and every
  interval forced before is deleted. Appending to an empty list is assumed to allocate an interval at \<open>b\<close> and make it the list.
\<close>

theorem forced_interval:
  assumes alloc: "\<And>h s n i. \<exists>l. iv_lists h q = Some l \<and> head l = 0 \<and> current l = 0 \<and> elements l = 0 \<Longrightarrow> ivs h b = None \<Longrightarrow>
      append_interval q s n i h =
        Some (h\<lparr>ivs := (ivs h)(b \<mapsto> mk_interval s n i),
          iv_lists := (iv_lists h)(q \<mapsto> \<lparr>head = b, tail = b, current = b, elements = 1\<rparr>)\<rparr>)"
    and b: "b \<noteq> 0" and rep: "intervals_rep {q} g h a" "ivs h b = None \<or> b \<in> set (members a q)"
  shows "\<exists>h'. force_one_auto_inc_interval append_interval q i h = Some h' \<and>
    ivs h' = (\<lambda>p. if p = b then Some (mk_interval i ULONGLONG_MAX 0) else if p \<in> set (members a q) then None else ivs h p) \<and>
    (\<exists>h''. get_next q h' = Some (b, h'') \<and> get_next q h'' = Some (0, h'')) \<and> nb_elements q h' = Some 1"
proof -
  obtain l where l: "iv_lists h q = Some l" "list_rep (ivs h) l (members a q) (taken a q)"
    using intervals_repD [OF rep(1)] by blast
  let ?m = "\<lambda>p. if p \<in> set (members a q) then None else ivs h p"
  let ?h = "h\<lparr>ivs := ?m, iv_lists := (iv_lists h)(q \<mapsto> \<lparr>head = 0, tail = 0, current = 0, elements = 0\<rparr>)\<rparr>"
  have "empty_loop (head l) (ivs h) = Some ?m" using l(2) by (intro empty_loop_path) (simp_all add: list_rep_def)
  then have e: "empty_list q h = Some ?h" using l(1) by (simp add: empty_list_def empty_no_free_def set_members_def)
  have "append_interval q i ULONGLONG_MAX 0 ?h =
      Some (?h\<lparr>ivs := ?m(b \<mapsto> mk_interval i ULONGLONG_MAX 0),
        iv_lists := (iv_lists ?h)(q \<mapsto> \<lparr>head = b, tail = b, current = b, elements = 1\<rparr>)\<rparr>)"
    using alloc [of ?h i ULONGLONG_MAX 0] rep(2) by auto
  then show ?thesis using e b
    by (auto simp: force_one_auto_inc_interval_def get_next_def nb_elements_def Let_def fun_eq_iff)
qed

definition append_at :: "ptr \<Rightarrow> nat \<Rightarrow> ulonglong \<Rightarrow> ulonglong \<Rightarrow> ulonglong \<Rightarrow> iv_heap \<Rightarrow> iv_heap option" where
  "append_at b q s n i h =
     Some (h\<lparr>ivs := (ivs h)(b \<mapsto> mk_interval s n i), iv_lists := (iv_lists h)(q \<mapsto> \<lparr>head = b, tail = b, current = b, elements = 1\<rparr>)\<rparr>)"

theorem forced_interval_witness:
  "\<exists>h. force_one_auto_inc_interval (append_at 30) 1 8 two_intervals = Some h \<and> nb_elements 1 h = Some 1 \<and>
     ivs h = [30 \<mapsto> mk_interval 8 ULONGLONG_MAX 0]"
proof -
  have rep: "intervals_rep {1} two_intervals two_intervals intervals_of_two" "ivs two_intervals 30 = None \<or> 30 \<in> set (members intervals_of_two 1)"
    by (auto simp: intervals_rep_def list_rep_def two_intervals_def intervals_of_two_def)
  have c: "(\<lambda>p. if p = 30 then Some (mk_interval 8 ULONGLONG_MAX 0) else if p \<in> set (members intervals_of_two 1) then None
      else ivs two_intervals p) = [30 \<mapsto> mk_interval 8 ULONGLONG_MAX 0]"
    by (auto simp: two_intervals_def intervals_of_two_def)
  from forced_interval [OF _ _ rep, of "append_at 30" 8] show ?thesis unfolding c by (auto simp: append_at_def)
qed

end
