(* ===== verification/Ddl_Options.thy ===== *)
theory Ddl_Options
  imports Simulation "HOL-Library.Monad_Syntax"
begin

text \<open>
  The options of a data definition statement (\<open>DDL_options_st\<close> of \<open>structs.h\<close>): an enumeration used as a set of flags. Objects are
  numbered, because \<open>operator|\<close> changes its left operand.
\<close>

section \<open>Flags\<close>

datatype ddl_option =
  OPT_IF_NOT_EXISTS | OPT_LIKE | OPT_OR_REPLACE | OPT_OR_REPLACE_SLAVE_GENERATED | OPT_IF_EXISTS | OPT_CREATE_SELECT

definition OPT_NONE :: uint where "OPT_NONE = 0"

fun option_value :: "ddl_option \<Rightarrow> uint" where
  "option_value OPT_IF_NOT_EXISTS = 2"
| "option_value OPT_LIKE = 4"
| "option_value OPT_OR_REPLACE = 16"
| "option_value OPT_OR_REPLACE_SLAVE_GENERATED = 32"
| "option_value OPT_IF_EXISTS = 64"
| "option_value OPT_CREATE_SELECT = 128"

type_synonym ddl_objects = "nat \<Rightarrow> uint option"

definition set_options :: "nat \<Rightarrow> uint \<Rightarrow> ddl_objects \<Rightarrow> ddl_objects option" where
  "set_options this v h = (case h this of None \<Rightarrow> None | Some _ \<Rightarrow> Some (h(this \<mapsto> v)))"

definition init_none :: "nat \<Rightarrow> ddl_objects \<Rightarrow> ddl_objects option" where
  "init_none this = set_options this OPT_NONE"

definition set_from :: "nat \<Rightarrow> nat \<Rightarrow> ddl_objects \<Rightarrow> ddl_objects option" where
  "set_from this other h = do { v \<leftarrow> h other; set_options this v h }"

definition create_like_options :: "nat \<Rightarrow> ddl_objects \<Rightarrow> uint option" where
  "create_like_options this h =
     map_option (\<lambda>v. v AND (option_value OPT_IF_NOT_EXISTS OR option_value OPT_OR_REPLACE)) (h this)"

definition if_not_exists :: "nat \<Rightarrow> ddl_objects \<Rightarrow> bool option" where
  "if_not_exists this h = map_option (\<lambda>v. v AND option_value OPT_IF_NOT_EXISTS \<noteq> 0) (h this)"

definition or_replace :: "nat \<Rightarrow> ddl_objects \<Rightarrow> bool option" where
  "or_replace this h = map_option (\<lambda>v. v AND option_value OPT_OR_REPLACE \<noteq> 0) (h this)"

definition or_replace_slave_generated :: "nat \<Rightarrow> ddl_objects \<Rightarrow> bool option" where
  "or_replace_slave_generated this h = map_option (\<lambda>v. v AND option_value OPT_OR_REPLACE_SLAVE_GENERATED \<noteq> 0) (h this)"

definition like :: "nat \<Rightarrow> ddl_objects \<Rightarrow> bool option" where
  "like this h = map_option (\<lambda>v. v AND option_value OPT_LIKE \<noteq> 0) (h this)"

definition if_exists :: "nat \<Rightarrow> ddl_objects \<Rightarrow> bool option" where
  "if_exists this h = map_option (\<lambda>v. v AND option_value OPT_IF_EXISTS \<noteq> 0) (h this)"

definition is_create_select :: "nat \<Rightarrow> ddl_objects \<Rightarrow> bool option" where
  "is_create_select this h = map_option (\<lambda>v. v AND option_value OPT_CREATE_SELECT \<noteq> 0) (h this)"

definition add_options :: "nat \<Rightarrow> uint \<Rightarrow> ddl_objects \<Rightarrow> ddl_objects option" where
  "add_options this other h = map_option (\<lambda>v. h(this \<mapsto> v OR other)) (h this)"

definition add_from :: "nat \<Rightarrow> nat \<Rightarrow> ddl_objects \<Rightarrow> ddl_objects option" where
  "add_from this other h = do { v \<leftarrow> h other; add_options this v h }"

text \<open>Both operators return a copy of the object.\<close>

definition or_objects :: "nat \<Rightarrow> nat \<Rightarrow> ddl_objects \<Rightarrow> (uint \<times> ddl_objects) option" where
  "or_objects this other h = do { h \<leftarrow> add_from this other h; v \<leftarrow> h this; Some (v, h) }"

definition or_assign :: "nat \<Rightarrow> uint \<Rightarrow> ddl_objects \<Rightarrow> (uint \<times> ddl_objects) option" where
  "or_assign this other h = do { h \<leftarrow> add_options this other h; v \<leftarrow> h this; Some (v, h) }"

section \<open>Sets of options\<close>

definition flag :: "bool \<Rightarrow> uint \<Rightarrow> uint" where "flag P x = (if P then x else 0)"

definition encode :: "ddl_option set \<Rightarrow> uint" where
  "encode S = flag (OPT_IF_NOT_EXISTS \<in> S) 2 OR flag (OPT_LIKE \<in> S) 4 OR flag (OPT_OR_REPLACE \<in> S) 16 OR
     flag (OPT_OR_REPLACE_SLAVE_GENERATED \<in> S) 32 OR flag (OPT_IF_EXISTS \<in> S) 64 OR flag (OPT_CREATE_SELECT \<in> S) 128"

lemma flag_or: "flag (P \<or> Q) x = flag P x OR flag Q x"
  by (simp add: flag_def)

lemma encode_union: "encode (S \<union> T) = encode S OR encode T"
  by (simp add: encode_def flag_or ac_simps)

lemma encode_empty [simp]: "encode {} = 0"
  by (simp add: encode_def flag_def)

lemma encode_single: "encode {p} = option_value p"
  by (cases p) (simp_all add: encode_def flag_def)

lemma encode_test: "encode S AND option_value p \<noteq> 0 \<longleftrightarrow> p \<in> S"
  by (cases p) (simp_all add: encode_def bit.conj_disj_distrib2 flag_def)

lemma encode_like:
  "encode S AND (option_value OPT_IF_NOT_EXISTS OR option_value OPT_OR_REPLACE) = encode (S \<inter> {OPT_IF_NOT_EXISTS, OPT_OR_REPLACE})"
  by (simp add: encode_def bit.conj_disj_distrib2 flag_def)

definition options_rep :: "ddl_objects \<Rightarrow> (nat \<Rightarrow> ddl_option set option) \<Rightarrow> bool" where
  "options_rep h a \<longleftrightarrow> (\<forall>q. h q = map_option encode (a q))"

datatype ddl_cmd =
  Init nat "ddl_option set" | Copy nat nat | Add nat ddl_option | Add_all nat nat | Or nat nat | Or_option nat ddl_option
  | Has nat ddl_option | Create_like nat

datatype ddl_out = Done | Bool bool | Options uint

fun ddl_step :: "ddl_cmd \<Rightarrow> ddl_objects \<Rightarrow> (ddl_out \<times> ddl_objects) option" where
  "ddl_step (Init q S) h = map_option (Pair Done) (if S = {} then init_none q h else set_options q (encode S) h)"
| "ddl_step (Copy q r) h = map_option (Pair Done) (set_from q r h)"
| "ddl_step (Add q p) h = map_option (Pair Done) (add_options q (option_value p) h)"
| "ddl_step (Add_all q r) h = map_option (Pair Done) (add_from q r h)"
| "ddl_step (Or q r) h = map_option (\<lambda>(v, h). (Options v, h)) (or_objects q r h)"
| "ddl_step (Or_option q p) h = map_option (\<lambda>(v, h). (Options v, h)) (or_assign q (option_value p) h)"
| "ddl_step (Has q p) h = map_option (\<lambda>b. (Bool b, h))
     ((case p of OPT_IF_NOT_EXISTS \<Rightarrow> if_not_exists | OPT_LIKE \<Rightarrow> like | OPT_OR_REPLACE \<Rightarrow> or_replace
       | OPT_OR_REPLACE_SLAVE_GENERATED \<Rightarrow> or_replace_slave_generated | OPT_IF_EXISTS \<Rightarrow> if_exists | OPT_CREATE_SELECT \<Rightarrow> is_create_select) q h)"
| "ddl_step (Create_like q) h = map_option (\<lambda>v. (Options v, h)) (create_like_options q h)"

fun ddl_spec :: "ddl_cmd \<Rightarrow> (nat \<Rightarrow> ddl_option set option) \<Rightarrow> (ddl_out \<times> (nat \<Rightarrow> ddl_option set option)) option" where
  "ddl_spec (Init q S) a = map_option (\<lambda>_. (Done, a(q \<mapsto> S))) (a q)"
| "ddl_spec (Copy q r) a = do { _ \<leftarrow> a q; S \<leftarrow> a r; Some (Done, a(q \<mapsto> S)) }"
| "ddl_spec (Add q p) a = map_option (\<lambda>S. (Done, a(q \<mapsto> insert p S))) (a q)"
| "ddl_spec (Add_all q r) a = do { S \<leftarrow> a q; T \<leftarrow> a r; Some (Done, a(q \<mapsto> S \<union> T)) }"
| "ddl_spec (Or q r) a = do { S \<leftarrow> a q; T \<leftarrow> a r; Some (Options (encode (S \<union> T)), a(q \<mapsto> S \<union> T)) }"
| "ddl_spec (Or_option q p) a = map_option (\<lambda>S. (Options (encode (insert p S)), a(q \<mapsto> insert p S))) (a q)"
| "ddl_spec (Has q p) a = map_option (\<lambda>S. (Bool (p \<in> S), a)) (a q)"
| "ddl_spec (Create_like q) a = map_option (\<lambda>S. (Options (encode (S \<inter> {OPT_IF_NOT_EXISTS, OPT_OR_REPLACE})), a)) (a q)"

lemma encode_insert: "encode (insert p S) = encode S OR option_value p"
  using encode_union [of S "{p}"] by (simp add: encode_single)

lemmas option_ops = init_none_def set_options_def set_from_def create_like_options_def if_not_exists_def or_replace_def
  or_replace_slave_generated_def like_def if_exists_def is_create_select_def add_options_def add_from_def or_objects_def or_assign_def

lemma encode_has:
  "encode S AND 2 \<noteq> 0 \<longleftrightarrow> OPT_IF_NOT_EXISTS \<in> S" "encode S AND 4 \<noteq> 0 \<longleftrightarrow> OPT_LIKE \<in> S"
  "encode S AND 16 \<noteq> 0 \<longleftrightarrow> OPT_OR_REPLACE \<in> S" "encode S AND 32 \<noteq> 0 \<longleftrightarrow> OPT_OR_REPLACE_SLAVE_GENERATED \<in> S"
  "encode S AND 64 \<noteq> 0 \<longleftrightarrow> OPT_IF_EXISTS \<in> S" "encode S AND 128 \<noteq> 0 \<longleftrightarrow> OPT_CREATE_SELECT \<in> S"
  using encode_test [of S OPT_IF_NOT_EXISTS] encode_test [of S OPT_LIKE] encode_test [of S OPT_OR_REPLACE]
    encode_test [of S OPT_OR_REPLACE_SLAVE_GENERATED] encode_test [of S OPT_IF_EXISTS] encode_test [of S OPT_CREATE_SELECT]
  by simp_all

lemma ddl_refine:
  assumes rep: "options_rep h a" and spec: "ddl_spec c a = Some (x, a')"
  shows "\<exists>h'. ddl_step c h = Some (x, h') \<and> options_rep h' a'"
proof -
  have h: "h q = map_option encode (a q)" for q using rep by (simp add: options_rep_def)
  show ?thesis
  proof (cases c)
    case (Has q p)
    then show ?thesis using spec rep h [of q] encode_has by (cases p) (auto simp: option_ops)
  next
    case (Create_like q)
    then show ?thesis using spec rep h [of q] encode_like by (auto simp: option_ops)
  next
    case (Init q S)
    then show ?thesis using spec h by (auto simp: option_ops options_rep_def OPT_NONE_def)
  next
    case (Copy q r)
    then show ?thesis using spec h by (auto simp: option_ops options_rep_def split: bind_splits)
  next
    case (Add q p)
    then show ?thesis using spec h by (auto simp: option_ops options_rep_def encode_insert)
  next
    case (Add_all q r)
    then show ?thesis using spec h by (auto simp: option_ops options_rep_def encode_union split: bind_splits)
  next
    case (Or q r)
    then show ?thesis using spec h by (auto simp: option_ops options_rep_def encode_union split: bind_splits)
  next
    case (Or_option q p)
    then show ?thesis using spec h by (auto simp: option_ops options_rep_def encode_insert)
  qed
qed

interpretation ddl_options: simulation "\<lambda>k. options_rep" ddl_step ddl_spec
  by unfold_locales (rule ddl_refine)

section \<open>Properties\<close>

text \<open>
  A program that sets, copies, joins and asks options answers as sets of options do; \<open>a | b\<close> gives their union and leaves it in
  the object \<open>a\<close> as well.
\<close>

theorem ddl_options_program:
  assumes "options_rep h a" and "run_cmds ddl_spec cs a = Some (xs, a')"
  shows "\<exists>h'. run_cmds ddl_step cs h = Some (xs, h') \<and> options_rep h' a'"
  using ddl_options.run_refines [OF assms] .

theorem ddl_options_program_witness:
  "\<exists>h'. run_cmds ddl_step [Add 1 OPT_LIKE, Add 2 OPT_OR_REPLACE, Or 1 2, Has 1 OPT_OR_REPLACE, Has 2 OPT_LIKE, Create_like 1] [1 \<mapsto> 0, 2 \<mapsto> 0] =
     Some ([Done, Done, Options 20, Bool True, Bool False, Options 16], h')"
proof -
  have rep: "options_rep [1 \<mapsto> 0, 2 \<mapsto> 0] [1 \<mapsto> {}, 2 \<mapsto> {}]" by (simp add: options_rep_def)
  have run: "run_cmds ddl_spec [Add 1 OPT_LIKE, Add 2 OPT_OR_REPLACE, Or 1 2, Has 1 OPT_OR_REPLACE, Has 2 OPT_LIKE, Create_like 1] [1 \<mapsto> {}, 2 \<mapsto> {}] =
      Some ([Done, Done, Options 20, Bool True, Bool False, Options 16], [1 \<mapsto> {OPT_LIKE, OPT_OR_REPLACE}, 2 \<mapsto> {OPT_OR_REPLACE}])"
    by (auto simp: encode_def flag_def fun_eq_iff)
  from ddl_options_program [OF rep run] show ?thesis by blast
qed

end
