(* ===== verification/Date_Mode.thy ===== *)
theory Date_Mode
  imports Prelude
begin

text \<open>
  The modes of temporal conversions (\<open>sql_basic_types.h\<close>): flags for the conversion of types, a mode for the rounding of fractions, and
  their mixture, as three types with conversions between them. An assertion that fails is \<open>None\<close>. The complement operators, whose
  result depends on the compiler's type for enumerations, are left out.
\<close>

section \<open>Conversion flags\<close>

datatype date_conv_mode_t = Date_conv_mode (conv_value: uint)

definition CONV_NONE :: uint where "CONV_NONE = 0"
definition FUZZY_DATES :: uint where "FUZZY_DATES = 1"
definition TIME_ONLY :: uint where "TIME_ONLY = 4"
definition INTERVAL_hhmmssff :: uint where "INTERVAL_hhmmssff = 8"
definition INTERVAL_DAY :: uint where "INTERVAL_DAY = 16"
definition RANGE0_LAST :: uint where "RANGE0_LAST = INTERVAL_DAY"
definition NO_ZERO_IN_DATE :: uint where "NO_ZERO_IN_DATE = push_bit 23 1"
definition NO_ZERO_DATE :: uint where "NO_ZERO_DATE = push_bit 24 1"
definition INVALID_DATES :: uint where "INVALID_DATES = push_bit 25 1"

definition CONV_KNOWN_MODES :: uint where
  "CONV_KNOWN_MODES = FUZZY_DATES OR TIME_ONLY OR INTERVAL_hhmmssff OR INTERVAL_DAY OR NO_ZERO_IN_DATE OR NO_ZERO_DATE OR INVALID_DATES"

definition mk_conv :: "ulonglong \<Rightarrow> date_conv_mode_t" where "mk_conv fuzzydate = Date_conv_mode (ucast fuzzydate)"

definition conv_ull :: "date_conv_mode_t \<Rightarrow> ulonglong" where "conv_ull m = ucast (conv_value m)"

definition conv_bool :: "date_conv_mode_t \<Rightarrow> bool" where "conv_bool m \<longleftrightarrow> conv_value m \<noteq> 0"

definition conv_and :: "date_conv_mode_t \<Rightarrow> date_conv_mode_t \<Rightarrow> date_conv_mode_t" where
  "conv_and a b = mk_conv (ucast (conv_value a AND conv_value b))"

definition conv_and_ull :: "date_conv_mode_t \<Rightarrow> ulonglong \<Rightarrow> date_conv_mode_t" where
  "conv_and_ull a other = mk_conv (ucast (conv_value a) AND other)"

definition conv_or :: "date_conv_mode_t \<Rightarrow> date_conv_mode_t \<Rightarrow> date_conv_mode_t" where
  "conv_or a b = mk_conv (ucast (conv_value a OR conv_value b))"

text \<open>The assignment operators return the new value of their left operand.\<close>

definition conv_and_assign :: "date_conv_mode_t \<Rightarrow> date_conv_mode_t \<Rightarrow> date_conv_mode_t" where
  "conv_and_assign a b = Date_conv_mode (conv_value a AND conv_value b)"

definition conv_or_assign :: "date_conv_mode_t \<Rightarrow> date_conv_mode_t \<Rightarrow> date_conv_mode_t" where
  "conv_or_assign a b = Date_conv_mode (conv_value a OR conv_value b)"

section \<open>Rounding modes\<close>

datatype time_round_mode_t = Time_round_mode (round_value: uint)

definition FRAC_NONE :: uint where "FRAC_NONE = 0"
definition FRAC_TRUNCATE :: uint where "FRAC_TRUNCATE = push_bit 1 RANGE0_LAST"
definition FRAC_ROUND :: uint where "FRAC_ROUND = push_bit 2 RANGE0_LAST"
definition ROUND_KNOWN_MODES :: uint where "ROUND_KNOWN_MODES = FRAC_TRUNCATE OR FRAC_ROUND"

definition mk_round :: "ulonglong \<Rightarrow> time_round_mode_t option" where
  "mk_round m =
     (if m = ucast FRAC_NONE \<or> m = ucast FRAC_TRUNCATE \<or> m = ucast FRAC_ROUND then Some (Time_round_mode (ucast m)) else None)"

definition round_ull :: "time_round_mode_t \<Rightarrow> ulonglong" where "round_ull m = ucast (round_value m)"

definition round_mode :: "time_round_mode_t \<Rightarrow> uint" where "round_mode m = round_value m"

definition round_eq :: "time_round_mode_t \<Rightarrow> time_round_mode_t \<Rightarrow> bool" where "round_eq a b \<longleftrightarrow> round_value a = round_value b"

section \<open>Mixtures\<close>

datatype date_mode_t = Date_mode (mode_value: uint)

definition mk_mode :: "ulonglong \<Rightarrow> date_mode_t" where "mk_mode fuzzydate = Date_mode (ucast fuzzydate)"

definition mode_ull :: "date_mode_t \<Rightarrow> ulonglong" where "mode_ull m = ucast (mode_value m)"

definition mode_bool :: "date_mode_t \<Rightarrow> bool" where "mode_bool m \<longleftrightarrow> mode_value m \<noteq> 0"

definition mode_conv :: "date_mode_t \<Rightarrow> date_conv_mode_t" where
  "mode_conv m = mk_conv (ucast (mode_value m) AND ucast CONV_KNOWN_MODES)"

definition mode_round :: "date_mode_t \<Rightarrow> time_round_mode_t option" where
  "mode_round m = mk_round (ucast (mode_value m) AND ucast ROUND_KNOWN_MODES)"

definition mode_not :: "date_mode_t \<Rightarrow> bool" where "mode_not m \<longleftrightarrow> mode_value m = 0"

definition mode_and :: "date_mode_t \<Rightarrow> date_mode_t \<Rightarrow> date_mode_t" where
  "mode_and a b = mk_mode (ucast (mode_value a AND mode_value b))"

definition mode_and_ull :: "date_mode_t \<Rightarrow> ulonglong \<Rightarrow> date_mode_t" where
  "mode_and_ull a other = mk_mode (ucast (mode_value a) AND other)"

definition mode_or :: "date_mode_t \<Rightarrow> date_mode_t \<Rightarrow> date_mode_t" where
  "mode_or a b = mk_mode (ucast (mode_value a OR mode_value b))"

definition mode_and_assign :: "date_mode_t \<Rightarrow> date_mode_t \<Rightarrow> date_mode_t" where
  "mode_and_assign a b = Date_mode (mode_value a AND mode_value b)"

definition mode_or_assign :: "date_mode_t \<Rightarrow> date_mode_t \<Rightarrow> date_mode_t" where
  "mode_or_assign a b = Date_mode (mode_value a OR mode_value b)"

definition mode_or_assign_conv :: "date_mode_t \<Rightarrow> date_conv_mode_t \<Rightarrow> date_mode_t" where
  "mode_or_assign_conv a b = Date_mode (ucast (ucast (mode_value a) OR conv_ull b))"

definition mode_or_conv :: "date_mode_t \<Rightarrow> date_conv_mode_t \<Rightarrow> date_mode_t" where
  "mode_or_conv a b = mk_mode (mode_ull a OR conv_ull b)"

definition conv_or_round :: "date_conv_mode_t \<Rightarrow> time_round_mode_t \<Rightarrow> date_mode_t" where
  "conv_or_round a b = mk_mode (conv_ull a OR round_ull b)"

definition conv_or_mode :: "date_conv_mode_t \<Rightarrow> date_mode_t \<Rightarrow> date_mode_t" where
  "conv_or_mode a b = mk_mode (conv_ull a OR mode_ull b)"

definition mode_and_conv :: "date_mode_t \<Rightarrow> date_conv_mode_t \<Rightarrow> date_conv_mode_t" where
  "mode_and_conv a b = mk_conv (mode_ull a AND conv_ull b)"

definition conv_and_mode :: "date_conv_mode_t \<Rightarrow> date_mode_t \<Rightarrow> date_conv_mode_t" where
  "conv_and_mode a b = mk_conv (conv_ull a AND mode_ull b)"

definition sql_mode_and_conv :: "ulonglong \<Rightarrow> date_conv_mode_t \<Rightarrow> date_conv_mode_t" where
  "sql_mode_and_conv a b = mk_conv (a AND conv_ull b)"

definition TIME_NO_ZEROS :: date_conv_mode_t where
  "TIME_NO_ZEROS = mk_conv (ucast (NO_ZERO_DATE OR NO_ZERO_IN_DATE))"

definition TIME_MODE_FOR_XXX_TO_DATE :: date_conv_mode_t where
  "TIME_MODE_FOR_XXX_TO_DATE = mk_conv (ucast (NO_ZERO_IN_DATE OR NO_ZERO_DATE OR INVALID_DATES))"

definition TIME_FUZZY_DATES :: date_conv_mode_t where "TIME_FUZZY_DATES = mk_conv (ucast FUZZY_DATES)"
definition TIME_TIME_ONLY :: date_conv_mode_t where "TIME_TIME_ONLY = mk_conv (ucast TIME_ONLY)"
definition TIME_INVALID_DATES :: date_conv_mode_t where "TIME_INVALID_DATES = mk_conv (ucast INVALID_DATES)"

section \<open>All values are 32 bits wide\<close>

lemma ucast_up_down: "ucast (ucast v :: ulonglong) = v" for v :: uint
  by (rule bit_word_eqI) (simp add: bit_simps)

lemma ucast_and: "(ucast (v AND w) :: 'b::len word) = ucast v AND ucast w" for v w :: "'a::len word"
  by (simp add: unsigned_and_eq)

lemma ucast_or: "(ucast (v OR w) :: 'b::len word) = ucast v OR ucast w" for v w :: "'a::len word"
  by (simp add: unsigned_or_eq)

lemma mask_values:
  "CONV_KNOWN_MODES = 0x380001D" "ROUND_KNOWN_MODES = 0x60" "FRAC_NONE = 0" "FRAC_TRUNCATE = 0x20" "FRAC_ROUND = 0x40"
  by (simp_all add: CONV_KNOWN_MODES_def ROUND_KNOWN_MODES_def FRAC_NONE_def FRAC_TRUNCATE_def FRAC_ROUND_def RANGE0_LAST_def
    FUZZY_DATES_def TIME_ONLY_def INTERVAL_hhmmssff_def INTERVAL_DAY_def NO_ZERO_IN_DATE_def NO_ZERO_DATE_def INVALID_DATES_def)

lemma mode_conv_value: "mode_conv m = Date_conv_mode (mode_value m AND CONV_KNOWN_MODES)"
  by (simp add: mode_conv_def mk_conv_def ucast_up_down flip: ucast_and)

lemma ucast_inj: "(ucast v :: ulonglong) = ucast w \<longleftrightarrow> v = w" for v w :: uint
  by (metis ucast_up_down)

lemma mk_round_value:
  "mk_round (ucast v) = (if v = FRAC_NONE \<or> v = FRAC_TRUNCATE \<or> v = FRAC_ROUND then Some (Time_round_mode v) else None)"
  by (simp add: mk_round_def ucast_inj ucast_up_down)

lemma mode_round_value: "mode_round m = mk_round (ucast (mode_value m AND ROUND_KNOWN_MODES))"
  by (simp add: mode_round_def flip: ucast_and)

lemma conv_or_round_value: "conv_or_round c r = Date_mode (conv_value c OR round_value r)"
  by (simp add: conv_or_round_def mk_mode_def conv_ull_def round_ull_def ucast_up_down flip: ucast_or)

lemma mk_round_Some: "mk_round x = Some r \<Longrightarrow> round_value r \<in> {FRAC_NONE, FRAC_TRUNCATE, FRAC_ROUND}"
  by (auto simp: mk_round_def ucast_up_down split: if_splits)

lemma and_known: "v AND NOT K = 0 \<Longrightarrow> v AND K = v" for v K :: uint
  by (metis and.comm_neutral bit.compl_one bit.conj_disj_distrib or.right_neutral bit.disj_cancel_right)

text \<open>The two rounding bits.\<close>

lemma rounding_bits:
  "v AND ROUND_KNOWN_MODES \<in> {FRAC_NONE, FRAC_TRUNCATE, FRAC_ROUND} \<longleftrightarrow> v AND FRAC_TRUNCATE = 0 \<or> v AND FRAC_ROUND = 0" for v :: uint
proof -
  have "FRAC_TRUNCATE = push_bit 5 1" "FRAC_ROUND = push_bit 6 1" by (simp_all add: mask_values)
  moreover have "v AND push_bit k 1 = (if bit v k then push_bit k 1 else 0)" for k :: nat
    by (rule bit_word_eqI) (auto simp: bit_simps)
  ultimately have "v AND FRAC_TRUNCATE = (if bit v 5 then FRAC_TRUNCATE else 0)" "v AND FRAC_ROUND = (if bit v 6 then FRAC_ROUND else 0)" by metis+
  moreover have "v AND ROUND_KNOWN_MODES = (v AND FRAC_TRUNCATE) OR (v AND FRAC_ROUND)"
    by (simp add: ROUND_KNOWN_MODES_def bit.conj_disj_distrib)
  ultimately show ?thesis by (simp add: mask_values)
qed

section \<open>Properties\<close>

text \<open>
  A mixture of known conversion flags and a rounding mode gives both back; a mixture of known flags is the union of its two
  parts, unless it demands truncation and rounding, for which the assertion fails.
\<close>

theorem date_mode_parts:
  assumes "conv_value c AND NOT CONV_KNOWN_MODES = 0" and "mk_round x = Some r"
    and "mode_value m AND NOT (CONV_KNOWN_MODES OR ROUND_KNOWN_MODES) = 0"
  shows "mode_conv (conv_or_round c r) = c \<and> mode_round (conv_or_round c r) = Some r \<and>
    (case mode_round m of None \<Rightarrow> mode_value m AND FRAC_TRUNCATE \<noteq> 0 \<and> mode_value m AND FRAC_ROUND \<noteq> 0
     | Some q \<Rightarrow> conv_or_round (mode_conv m) q = m)"
proof -
  have K: "conv_value c AND CONV_KNOWN_MODES = conv_value c" using and_known [OF assms(1)] .
  have r: "round_value r \<in> {FRAC_NONE, FRAC_TRUNCATE, FRAC_ROUND}" using mk_round_Some [OF assms(2)] .
  have "round_value r AND CONV_KNOWN_MODES = 0" "round_value r AND ROUND_KNOWN_MODES = round_value r" using r by (auto simp: mask_values)
  moreover have "conv_value c AND ROUND_KNOWN_MODES = conv_value c AND (CONV_KNOWN_MODES AND ROUND_KNOWN_MODES)"
    by (metis K and.assoc)
  then have "conv_value c AND ROUND_KNOWN_MODES = 0" by (simp add: mask_values)
  ultimately have parts: "(conv_value c OR round_value r) AND CONV_KNOWN_MODES = conv_value c"
    "(conv_value c OR round_value r) AND ROUND_KNOWN_MODES = round_value r"
    using K by (simp_all add: bit.conj_disj_distrib2)
  have "mode_conv (conv_or_round c r) = c" "mode_round (conv_or_round c r) = Some r"
    using parts r by (auto simp: mode_conv_value mode_round_value conv_or_round_value mk_round_value)
  moreover have "(mode_value m AND CONV_KNOWN_MODES) OR (mode_value m AND ROUND_KNOWN_MODES) = mode_value m"
    using and_known [OF assms(3)] by (simp add: bit.conj_disj_distrib)
  then have "conv_or_round (mode_conv m) (Time_round_mode (mode_value m AND ROUND_KNOWN_MODES)) = m"
    by (simp add: conv_or_round_value mode_conv_value)
  ultimately show ?thesis using rounding_bits [of "mode_value m"]
    by (auto simp: mode_round_value mk_round_value)
qed

theorem date_mode_parts_witness:
  "mode_conv (conv_or_round (Date_conv_mode 5) (Time_round_mode 0x40)) = Date_conv_mode 5 \<and>
   mode_round (Date_mode 0x61) = None"
proof -
  have c: "conv_value (Date_conv_mode 5) AND NOT CONV_KNOWN_MODES = 0" by (simp add: mask_values)
  have r: "mk_round 0x40 = Some (Time_round_mode 0x40)" by (simp add: mk_round_def mask_values)
  have m: "mode_value (Date_mode 0x61) AND NOT (CONV_KNOWN_MODES OR ROUND_KNOWN_MODES) = 0" by (simp add: mask_values)
  have "mode_round (Date_mode 0x61) = None" by (simp add: mode_round_value mk_round_def mask_values)
  with date_mode_parts [OF c r m] show ?thesis by simp
qed

end
