(* ===== verification/Temporal.thy ===== *)
theory Temporal
  imports Date_Mode Sql_Type_Int "HOL-Library.Signed_Division" "HOL-Library.Monad_Syntax"
begin

text \<open>
  Temporal values (\<open>mysql_time.h\<close>, \<open>my_time.h\<close>, \<open>sql_time.h\<close>, \<open>sql_type.h\<close>): seconds with six fractional digits, times, timestamps and
  what \<open>EXTRACT\<close> takes out of them. A \<open>long\<close> has 32 bits. An assertion that fails is \<open>None\<close>. Functions of other files are the fields
  of a record of parameters.
\<close>

section \<open>Values\<close>

type_synonym clong = "32 word"

datatype timestamp_type =
  MYSQL_TIMESTAMP_NONE | MYSQL_TIMESTAMP_ERROR | MYSQL_TIMESTAMP_DATE | MYSQL_TIMESTAMP_DATETIME | MYSQL_TIMESTAMP_TIME

record mysql_time =
  year :: uint
  month :: uint
  day :: uint
  hour :: uint
  minute :: uint
  second :: uint
  second_part :: ulong
  t_neg :: bool
  time_type :: timestamp_type

record sec6 =
  m_sec :: ulonglong
  m_usec :: ulong
  m_neg :: bool
  m_truncated :: bool

record sec9 = sec6 +
  m_nsec :: ulong

record timeval =
  tv_sec :: clong
  tv_usec :: clong

definition TIMESTAMP_MAX_YEAR :: uint where "TIMESTAMP_MAX_YEAR = 2038"
definition YY_PART_YEAR :: uint where "YY_PART_YEAR = 70"
definition TIMESTAMP_MIN_YEAR :: uint where "TIMESTAMP_MIN_YEAR = 1900 + YY_PART_YEAR - 1"
definition MYSQL_TIME_WARN_OUT_OF_RANGE :: cint where "MYSQL_TIME_WARN_OUT_OF_RANGE = 2"
definition MYSQL_TIME_NOTE_TRUNCATED :: cint where "MYSQL_TIME_NOTE_TRUNCATED = 16"
definition TIME_MAX_INTERVAL_HOUR :: ulong where "TIME_MAX_INTERVAL_HOUR = 87649415"
definition TIME_MAX_HOUR :: uint where "TIME_MAX_HOUR = 838"
definition TIME_MAX_MINUTE :: uint where "TIME_MAX_MINUTE = 59"
definition TIME_MAX_SECOND :: uint where "TIME_MAX_SECOND = 59"
definition TIME_MAX_SECOND_PART :: ulong where "TIME_MAX_SECOND_PART = 999999"
definition TIME_SECOND_PART_DIGITS :: uint where "TIME_SECOND_PART_DIGITS = 6"
definition TIME_MAX_VALUE_SECONDS :: clong where
  "TIME_MAX_VALUE_SECONDS = TIME_MAX_HOUR * 3600 + TIME_MAX_MINUTE * 60 + TIME_MAX_SECOND"

section \<open>Functions of other files\<close>

text \<open>Those that write a value or a warning take the old one and return the new one.\<close>

record time_env =
  log_10_int :: "nat \<Rightarrow> ulonglong"
  set_zero_time :: "timestamp_type \<Rightarrow> mysql_time"
  check_time_range :: "mysql_time \<Rightarrow> uint \<Rightarrow> cint \<Rightarrow> bool \<times> mysql_time \<times> cint"
  number_to_time_only :: "bool \<Rightarrow> ulonglong \<Rightarrow> ulong \<Rightarrow> ulong \<Rightarrow> mysql_time \<Rightarrow> cint \<Rightarrow> bool \<times> mysql_time \<times> cint"
  number_to_datetime_or_date :: "longlong \<Rightarrow> ulong \<Rightarrow> ulonglong \<Rightarrow> mysql_time \<Rightarrow> cint \<Rightarrow> longlong \<times> mysql_time \<times> cint"
  time_round_or_set_max :: "uint \<Rightarrow> mysql_time \<Rightarrow> cint \<Rightarrow> mysql_time \<times> cint"
  time_round_or_set_max_nsec :: "uint \<Rightarrow> ulong \<Rightarrow> mysql_time \<Rightarrow> cint \<Rightarrow> mysql_time \<times> cint"
  current_date :: mysql_time
  calc_time_diff :: "mysql_time \<Rightarrow> mysql_time \<Rightarrow> mysql_time"

section \<open>Fractions\<close>

definition fraction_divisor :: "time_env \<Rightarrow> uint \<Rightarrow> ulonglong option" where
  "fraction_divisor E digits =
     (let i = unat (TIME_SECOND_PART_DIGITS - digits) in if i < 20 then Some (log_10_int E i) else None)"

definition sec_part_shift :: "time_env \<Rightarrow> longlong \<Rightarrow> uint \<Rightarrow> longlong option" where
  "sec_part_shift E p digits = do {
     d \<leftarrow> fraction_divisor E digits;
     (if d = 0 then None else Some (word_of_int (sint p sdiv sint d))) }"

definition sec_part_unshift :: "time_env \<Rightarrow> longlong \<Rightarrow> uint \<Rightarrow> longlong option" where
  "sec_part_unshift E p digits = do { d \<leftarrow> fraction_divisor E digits; Some (p * d) }"

definition my_time_fraction_remainder :: "time_env \<Rightarrow> clong \<Rightarrow> uint \<Rightarrow> clong option" where
  "my_time_fraction_remainder E nr decimals = do {
     d \<leftarrow> fraction_divisor E decimals;
     let d = (ucast d :: clong);
     (if d = 0 then None else Some (word_of_int (sint nr smod sint d))) }"

definition my_datetime_trunc :: "time_env \<Rightarrow> uint \<Rightarrow> mysql_time \<Rightarrow> mysql_time option" where
  "my_datetime_trunc E decimals t = do {
     r \<leftarrow> my_time_fraction_remainder E (second_part t) decimals;
     Some (t\<lparr>second_part := second_part t - r\<rparr>) }"

definition my_time_trunc :: "time_env \<Rightarrow> uint \<Rightarrow> mysql_time \<Rightarrow> mysql_time option" where
  "my_time_trunc E decimals t = do {
     r \<leftarrow> my_time_fraction_remainder E (second_part t) decimals;
     let t = t\<lparr>second_part := second_part t - r\<rparr>;
     Some (if second_part t = 0 \<and> t_neg t \<and> hour t = 0 \<and> minute t = 0 \<and> second t = 0 then t\<lparr>t_neg := False\<rparr> else t) }"

definition my_timeval_trunc :: "time_env \<Rightarrow> uint \<Rightarrow> timeval \<Rightarrow> timeval option" where
  "my_timeval_trunc E decimals v = do {
     r \<leftarrow> my_time_fraction_remainder E (tv_usec v) decimals;
     Some (v\<lparr>tv_usec := tv_usec v - r\<rparr>) }"

section \<open>Tests and conversions of values\<close>

definition validate_timestamp_range :: "mysql_time \<Rightarrow> bool" where
  "validate_timestamp_range t \<longleftrightarrow>
     \<not> ((TIMESTAMP_MAX_YEAR < year t \<or> year t < TIMESTAMP_MIN_YEAR) \<or>
        (year t = TIMESTAMP_MAX_YEAR \<and> (1 < month t \<or> 19 < day t)) \<or>
        (year t = TIMESTAMP_MIN_YEAR \<and> (month t < 12 \<or> day t < 31)))"

definition datetime_to_date :: "mysql_time \<Rightarrow> mysql_time option" where
  "datetime_to_date t =
     (if time_type t \<in> {MYSQL_TIMESTAMP_DATE, MYSQL_TIMESTAMP_DATETIME} \<and> \<not> t_neg t
      then Some (t\<lparr>second_part := 0, hour := 0, minute := 0, second := 0, time_type := MYSQL_TIMESTAMP_DATE\<rparr>) else None)"

definition date_to_datetime :: "mysql_time \<Rightarrow> mysql_time option" where
  "date_to_datetime t =
     (if time_type t \<in> {MYSQL_TIMESTAMP_DATE, MYSQL_TIMESTAMP_DATETIME} \<and> \<not> t_neg t
      then Some (t\<lparr>time_type := MYSQL_TIMESTAMP_DATETIME\<rparr>) else None)"

definition non_zero_hhmmssuu :: "mysql_time \<Rightarrow> bool" where
  "non_zero_hhmmssuu t \<longleftrightarrow> hour t \<noteq> 0 \<or> minute t \<noteq> 0 \<or> second t \<noteq> 0 \<or> second_part t \<noteq> 0"

definition non_zero_YYMMDD :: "mysql_time \<Rightarrow> bool" where
  "non_zero_YYMMDD t \<longleftrightarrow> year t \<noteq> 0 \<or> month t \<noteq> 0 \<or> day t \<noteq> 0"

definition non_zero_date :: "mysql_time \<Rightarrow> bool" where
  "non_zero_date t \<longleftrightarrow> non_zero_YYMMDD t \<or> (time_type t = MYSQL_TIMESTAMP_DATETIME \<and> non_zero_hhmmssuu t)"

definition is_valid_temporal :: "mysql_time \<Rightarrow> bool option" where
  "is_valid_temporal t =
     (if time_type t = MYSQL_TIMESTAMP_ERROR then None else Some (time_type t \<noteq> MYSQL_TIMESTAMP_NONE))"

definition make_fuzzy_date :: "time_env \<Rightarrow> date_conv_mode_t \<Rightarrow> mysql_time" where
  "make_fuzzy_date E fuzzydate =
     set_zero_time E
       (if \<not> conv_bool (conv_and fuzzydate TIME_FUZZY_DATES) then MYSQL_TIMESTAMP_NONE
        else if conv_bool (conv_and fuzzydate TIME_TIME_ONLY) then MYSQL_TIMESTAMP_TIME else MYSQL_TIMESTAMP_DATETIME)"

definition make_from_out_of_range :: "mysql_time \<Rightarrow> mysql_time \<times> cint" where
  "make_from_out_of_range t = (t\<lparr>time_type := MYSQL_TIMESTAMP_NONE\<rparr>, MYSQL_TIME_WARN_OUT_OF_RANGE)"

definition has_valid_mmssff :: "mysql_time \<Rightarrow> bool" where
  "has_valid_mmssff t \<longleftrightarrow> minute t \<le> TIME_MAX_MINUTE \<and> second t \<le> TIME_MAX_SECOND \<and> second_part t \<le> TIME_MAX_SECOND_PART"

definition has_zero_YYYYMM :: "mysql_time \<Rightarrow> bool" where "has_zero_YYYYMM t \<longleftrightarrow> year t = 0 \<and> month t = 0"

definition has_zero_YYYYMMDD :: "mysql_time \<Rightarrow> bool" where "has_zero_YYYYMMDD t \<longleftrightarrow> year t = 0 \<and> month t = 0 \<and> day t = 0"

definition time_hhmmssff_set_max :: "uint \<Rightarrow> mysql_time \<Rightarrow> mysql_time" where
  "time_hhmmssff_set_max max_hour t =
     t\<lparr>hour := max_hour, minute := TIME_MAX_MINUTE, second := TIME_MAX_SECOND, second_part := TIME_MAX_SECOND_PART\<rparr>"

definition fraction_remainder :: "time_env \<Rightarrow> uint \<Rightarrow> mysql_time \<Rightarrow> clong option" where
  "fraction_remainder E dec t = my_time_fraction_remainder E (second_part t) dec"

section \<open>Adding nanoseconds\<close>

definition sec6_add_nanoseconds :: "uint \<Rightarrow> sec6 \<Rightarrow> (bool \<times> sec6) option" where
  "sec6_add_nanoseconds nanoseconds s =
     (if 1000000000 < nanoseconds then None
      else if nanoseconds < 500 then Some (False, s)
      else let s = s\<lparr>m_usec := m_usec s + (nanoseconds + 500) div 1000\<rparr>
           in if m_usec s < 1000000 then Some (False, s) else Some (True, s\<lparr>m_usec := m_usec s mod 1000000\<rparr>))"

definition add_nanoseconds_ssff :: "uint \<Rightarrow> mysql_time \<Rightarrow> (bool \<times> mysql_time) option" where
  "add_nanoseconds_ssff nanoseconds t =
     (if 1000000000 < nanoseconds then None
      else if nanoseconds < 500 then Some (False, t)
      else let t = t\<lparr>second_part := second_part t + (nanoseconds + 500) div 1000\<rparr>
           in if second_part t < 1000000 then Some (False, t)
              else let t = t\<lparr>second_part := second_part t mod 1000000\<rparr>
                   in if second t < 59 then Some (False, t\<lparr>second := second t + 1\<rparr>)
                      else Some (True, t\<lparr>second := 0\<rparr>))"

definition add_nanoseconds_mmssff :: "uint \<Rightarrow> mysql_time \<Rightarrow> (bool \<times> mysql_time) option" where
  "add_nanoseconds_mmssff nanoseconds t = do {
     (over, t) \<leftarrow> add_nanoseconds_ssff nanoseconds t;
     (if \<not> over then Some (False, t)
      else if minute t < 59 then Some (False, t\<lparr>minute := minute t + 1\<rparr>)
      else Some (True, t\<lparr>minute := 0\<rparr>)) }"

text \<open>The fraction of a timestamp is signed.\<close>

definition add_nanoseconds_usec :: "uint \<Rightarrow> timeval \<Rightarrow> (bool \<times> timeval) option" where
  "add_nanoseconds_usec nanoseconds v =
     (if 1000000000 < nanoseconds then None
      else if nanoseconds < 500 then Some (False, v)
      else let v = v\<lparr>tv_usec := tv_usec v + (nanoseconds + 500) div 1000\<rparr>
           in if tv_usec v <s 1000000 then Some (False, v)
              else Some (True, v\<lparr>tv_usec := word_of_int (sint (tv_usec v) smod 1000000)\<rparr>))"

section \<open>Rounding carries\<close>

lemma unat_le: "v \<le> w \<longleftrightarrow> unat v \<le> unat w" for v w :: "'a::len word"
  by (rule word_le_nat_alt)

lemma unat_add_small: "unat v + unat w < 2 ^ LENGTH('a) \<Longrightarrow> unat (v + w) = unat v + unat w" for v w :: "'a::len word"
  by (simp add: unat_word_ariths)

lemma nanos_micros:
  fixes ns :: uint
  assumes "unat ns \<le> 1000000000"
  shows "unat ((ns + 500) div 1000) = (unat ns + 500) div 1000" "(unat ns + 500) div 1000 \<le> 1000000"
  using assms by (simp_all add: unat_div_distrib unat_add_small word_le_nat_alt)

text \<open>Adding to a fraction, whatever word holds it.\<close>

lemma micros_carry:
  fixes v :: uint
  assumes ns: "unat ns \<le> 1000000000" and v: "unat v < 1000000"
  defines "w \<equiv> v + (ns + 500) div 1000"
  shows "unat w = unat v + (unat ns + 500) div 1000" "unat w < 2000000"
    "unat (w mod 1000000) = (if w < 1000000 then unat w else unat w - 1000000)"
proof -
  show w: "unat w = unat v + (unat ns + 500) div 1000"
    using nanos_micros [OF ns] v by (simp add: w_def unat_add_small)
  then show w2: "unat w < 2000000" using nanos_micros [OF ns] v by simp
  have "unat w mod 1000000 = unat w - 1000000" if "1000000 \<le> unat w" using w2 that by (simp add: mod_if)
  then show "unat (w mod 1000000) = (if w < 1000000 then unat w else unat w - 1000000)"
    by (simp add: unat_mod_distrib word_less_nat_alt)
qed

definition microseconds :: "mysql_time \<Rightarrow> nat" where
  "microseconds t = (unat (minute t) * 60 + unat (second t)) * 1000000 + unat (second_part t)"

definition rounded :: "uint \<Rightarrow> nat" where "rounded ns = (unat ns + 500) div 1000"

lemma valid_nat:
  "has_valid_mmssff t \<longleftrightarrow> unat (minute t) \<le> 59 \<and> unat (second t) \<le> 59 \<and> unat (second_part t) \<le> 999999"
  by (simp add: has_valid_mmssff_def TIME_MAX_MINUTE_def TIME_MAX_SECOND_def TIME_MAX_SECOND_PART_def word_le_nat_alt)

lemma unat_inc: "unat v < 59 \<Longrightarrow> unat (v + 1) = unat v + 1" for v :: uint
  by (simp add: unat_add_small)

lemma ssff_carry:
  assumes t: "has_valid_mmssff t" and ns: "unat ns \<le> 1000000000"
  shows "\<exists>over s p. add_nanoseconds_ssff ns t = Some (over, t\<lparr>second := s, second_part := p\<rparr>) \<and>
    unat s \<le> 59 \<and> unat p \<le> 999999 \<and>
    (if over then 60000000 else 0) + unat s * 1000000 + unat p = unat (second t) * 1000000 + unat (second_part t) + rounded ns"
proof (cases "ns < 500")
  case True
  then have zero: "rounded ns = 0" by (simp add: rounded_def word_less_nat_alt)
  show ?thesis
      by (rule exI [of _ False], rule exI [of _ "second t"], rule exI [of _ "second_part t"])
        (use zero True t ns in \<open>simp add: add_nanoseconds_ssff_def valid_nat linorder_not_less word_le_nat_alt\<close>)
next
  case False
  let ?w = "second_part t + (ns + 500) div 1000"
  have v: "unat (second_part t) < 1000000" "unat (second t) \<le> 59" using t by (simp_all add: valid_nat)
  note m = micros_carry [OF ns v(1)]
  consider (none) "unat ?w < 1000000" | (second) "1000000 \<le> unat ?w" "unat (second t) < 59" | (minute) "1000000 \<le> unat ?w" "unat (second t) = 59"
    using v(2) by linarith
  then show ?thesis
  proof cases
    case none
    show ?thesis
      by (rule exI [of _ False], rule exI [of _ "second t"], rule exI [of _ ?w])
        (use none False ns v m(1) in \<open>simp add: add_nanoseconds_ssff_def linorder_not_less word_less_nat_alt word_le_nat_alt rounded_def\<close>)
  next
    case second
    show ?thesis
      by (rule exI [of _ False], rule exI [of _ "second t + 1"], rule exI [of _ "?w mod 1000000"])
        (use second False ns m in \<open>simp add: add_nanoseconds_ssff_def linorder_not_less word_less_nat_alt word_le_nat_alt rounded_def unat_inc\<close>)
  next
    case minute
    show ?thesis
      by (rule exI [of _ True], rule exI [of _ 0], rule exI [of _ "?w mod 1000000"])
        (use minute False ns m in \<open>simp add: add_nanoseconds_ssff_def linorder_not_less word_less_nat_alt word_le_nat_alt rounded_def\<close>)
  qed
qed

lemma mmssff_carry:
  assumes t: "has_valid_mmssff t" and ns: "unat ns \<le> 1000000000"
  shows "\<exists>over m s p. add_nanoseconds_mmssff ns t = Some (over, t\<lparr>minute := m, second := s, second_part := p\<rparr>) \<and>
    has_valid_mmssff (t\<lparr>minute := m, second := s, second_part := p\<rparr>) \<and>
    (if over then 3600000000 else 0) + microseconds (t\<lparr>minute := m, second := s, second_part := p\<rparr>) = microseconds t + rounded ns"
proof -
  obtain over s p where a: "add_nanoseconds_ssff ns t = Some (over, t\<lparr>second := s, second_part := p\<rparr>)" "unat s \<le> 59" "unat p \<le> 999999"
    "(if over then 60000000 else 0) + unat s * 1000000 + unat p = unat (second t) * 1000000 + unat (second_part t) + rounded ns"
    using ssff_carry [OF t ns] by blast
  have v: "unat (minute t) \<le> 59" using t by (simp add: valid_nat)
  have swap: "t\<lparr>second := s, second_part := p, minute := m\<rparr> = t\<lparr>minute := m, second := s, second_part := p\<rparr>" for m by simp
  consider (none) "\<not> over" | (minute) over "unat (minute t) < 59" | (hour) over "unat (minute t) = 59" using v by linarith
  then show ?thesis
  proof cases
    case none
    show ?thesis
      by (rule exI [of _ False], rule exI [of _ "minute t"], rule exI [of _ s], rule exI [of _ p])
        (use none a v in \<open>simp add: add_nanoseconds_mmssff_def valid_nat microseconds_def\<close>)
  next
    case minute
    show ?thesis
      by (rule exI [of _ False], rule exI [of _ "minute t + 1"], rule exI [of _ s], rule exI [of _ p])
        (use minute a in \<open>simp add: add_nanoseconds_mmssff_def valid_nat microseconds_def word_less_nat_alt unat_inc\<close>)
  next
    case hour
    show ?thesis
      by (rule exI [of _ True], rule exI [of _ 0], rule exI [of _ s], rule exI [of _ p])
        (use hour a in \<open>simp add: add_nanoseconds_mmssff_def valid_nat microseconds_def word_less_nat_alt\<close>)
  qed
qed

lemma sec6_carry:
  assumes "unat (m_usec s) < 1000000" and ns: "unat ns \<le> 1000000000"
  shows "\<exists>over u. sec6_add_nanoseconds ns s = Some (over, s\<lparr>m_usec := u\<rparr>) \<and> unat u < 1000000 \<and>
    (if over then 1000000 else 0) + unat u = unat (m_usec s) + rounded ns"
proof (cases "ns < 500")
  case True
  then have zero: "rounded ns = 0" by (simp add: rounded_def word_less_nat_alt)
  show ?thesis
      by (rule exI [of _ False], rule exI [of _ "m_usec s"])
        (use zero True assms in \<open>simp add: sec6_add_nanoseconds_def linorder_not_less word_le_nat_alt\<close>)
next
  case False
  let ?w = "m_usec s + (ns + 500) div 1000"
  note m = micros_carry [OF ns assms(1)]
  show ?thesis
  proof (cases "?w < 1000000")
    case True
    show ?thesis
      by (rule exI [of _ False], rule exI [of _ ?w])
        (use True False ns m(1) in \<open>simp add: sec6_add_nanoseconds_def linorder_not_less word_less_nat_alt word_le_nat_alt rounded_def\<close>)
  next
    case over: False
    show ?thesis
      by (rule exI [of _ True], rule exI [of _ "?w mod 1000000"])
        (use over False ns m in \<open>simp add: sec6_add_nanoseconds_def linorder_not_less word_less_nat_alt word_le_nat_alt rounded_def\<close>)
  qed
qed

lemma sint_small32: "unat v < 2 ^ 31 \<Longrightarrow> sint v = int (unat v)" for v :: clong
  by (simp add: sint_uint signed_take_bit_int_eq_self_iff uint_nat del: of_nat_unat)

lemma sint_small64: "unat v < 2 ^ 63 \<Longrightarrow> sint v = int (unat v)" for v :: longlong
  by (simp add: sint_uint signed_take_bit_int_eq_self_iff uint_nat del: of_nat_unat)

lemma smod_nat: "int a smod int b = int (a mod b)"
  by (cases "a = 0"; cases "b = 0") (simp_all add: smod_int_alt_def sgn_if zmod_int)

lemma sdiv_nat: "int a sdiv int b = int (a div b)"
  by (cases "a = 0"; cases "b = 0") (simp_all add: signed_divide_int_def sgn_if zdiv_int)

lemma timeval_carry:
  assumes "unat (tv_usec v) < 1000000" and ns: "unat ns \<le> 1000000000"
  shows "\<exists>over u. add_nanoseconds_usec ns v = Some (over, v\<lparr>tv_usec := u\<rparr>) \<and> unat u < 1000000 \<and>
    (if over then 1000000 else 0) + unat u = unat (tv_usec v) + rounded ns"
proof (cases "ns < 500")
  case True
  then have zero: "rounded ns = 0" by (simp add: rounded_def word_less_nat_alt)
  show ?thesis
      by (rule exI [of _ False], rule exI [of _ "tv_usec v"])
        (use zero True assms in \<open>simp add: add_nanoseconds_usec_def linorder_not_less word_le_nat_alt\<close>)
next
  case False
  let ?w = "tv_usec v + (ns + 500) div 1000"
  note m = micros_carry [OF ns assms(1)]
  have w: "sint ?w = int (unat ?w)" by (rule sint_small32) (use m(2) in simp)
  have lt: "?w <s 1000000 \<longleftrightarrow> unat ?w < 1000000" using w by (simp add: word_sless_alt uint_nat del: of_nat_unat)
  show ?thesis
  proof (cases "unat ?w < 1000000")
    case True
    show ?thesis
      by (rule exI [of _ False], rule exI [of _ ?w])
        (use True False ns m(1) lt in \<open>simp add: add_nanoseconds_usec_def linorder_not_less word_less_nat_alt word_le_nat_alt rounded_def\<close>)
  next
    case over: False
    have "unat ?w mod 1000000 = unat ?w - 1000000" using over m(2) by (simp add: mod_if)
    then have r: "word_of_int (sint ?w smod 1000000) = (of_nat (unat ?w - 1000000) :: clong)"
      using smod_nat [of "unat ?w" 1000000] w by (simp del: of_nat_diff)
    define u :: clong where "u = word_of_int (sint ?w smod 1000000)"
    have "unat u = unat ?w - 1000000" unfolding u_def r by (rule unat_of_nat_small) (use m(2) in simp)
    moreover have "add_nanoseconds_usec ns v = Some (True, v\<lparr>tv_usec := u\<rparr>)"
      using False ns over lt by (simp add: add_nanoseconds_usec_def linorder_not_less word_less_nat_alt word_le_nat_alt u_def)
    ultimately show ?thesis
      by (rule_tac exI [of _ True], rule_tac exI [of _ u]) (use m(1,2) over in \<open>simp add: rounded_def\<close>)
  qed
qed

section \<open>Cut fractions\<close>

definition powers_of_ten :: "time_env \<Rightarrow> bool" where
  "powers_of_ten E \<longleftrightarrow> (\<forall>i<20. log_10_int E i = 10 ^ i)"

lemma fraction_divisor_power:
  assumes "powers_of_ten E" and "digits \<le> TIME_SECOND_PART_DIGITS"
  shows "fraction_divisor E digits = Some (of_nat (10 ^ (6 - unat digits)))"
proof -
  have "unat (TIME_SECOND_PART_DIGITS - digits) = 6 - unat digits"
    using assms(2) by (simp add: TIME_SECOND_PART_DIGITS_def word_le_nat_alt unat_sub)
  then show ?thesis using assms(1) by (simp add: fraction_divisor_def powers_of_ten_def Let_def)
qed

lemma power_of_ten_bounds: "0 < (10::nat) ^ (6 - d)" "(10::nat) ^ (6 - d) \<le> 1000000"
  using power_increasing [of "6 - d" 6 "10::nat"] by simp_all

lemma nat_word_small:
  assumes "n \<le> 1000000"
  shows "unat (of_nat n :: clong) = n" "unat (of_nat n :: ulonglong) = n" "(ucast (of_nat n :: ulonglong) :: clong) = of_nat n"
proof -
  show v: "unat (of_nat n :: clong) = n" by (rule unat_of_nat_small) (use assms in simp)
  show u: "unat (of_nat n :: ulonglong) = n" by (rule unat_of_nat_small) (use assms in simp)
  show "(ucast (of_nat n :: ulonglong) :: clong) = of_nat n"
    by (rule word_unat_eq_iff [THEN iffD2]) (use unat_ucast_small [of "of_nat n :: ulonglong", where 'b = 32] u v assms in simp)
qed

lemma fraction_remainder_mod:
  assumes "powers_of_ten E" and "decimals \<le> TIME_SECOND_PART_DIGITS" and nr: "unat nr \<le> 999999"
  shows "my_time_fraction_remainder E nr decimals = Some (of_nat (unat nr mod 10 ^ (6 - unat decimals)))"
proof -
  define n :: nat where "n = 10 ^ (6 - unat decimals)"
  have b: "0 < n" "n \<le> 1000000" using power_of_ten_bounds [of "unat decimals"] by (simp_all add: n_def)
  note w = nat_word_small [OF b(2)]
  have d: "(of_nat n :: clong) \<noteq> 0" using w(1) b(1) by (metis less_irrefl unat_0)
  have "sint (of_nat n :: clong) = int n" using sint_small32 [of "of_nat n"] w(1) b(2) by simp
  moreover have "sint nr = int (unat nr)" by (rule sint_small32) (use nr in simp)
  ultimately have "sint nr smod sint (of_nat n :: clong) = int (unat nr mod n)" by (simp only: smod_nat)
  moreover have "fraction_divisor E decimals = Some (of_nat n)" unfolding n_def by (rule fraction_divisor_power [OF assms(1,2)])
  ultimately show ?thesis using d w(3) unfolding n_def [symmetric]
    by (simp only: my_time_fraction_remainder_def bind.bind_lunit Let_def if_False of_int_of_nat_eq)
qed

lemma unat_minus_mod:
  fixes v :: clong
  assumes "unat v \<le> 999999"
  shows "unat (v - of_nat (unat v mod n)) = unat v div n * n"
proof -
  have "unat v mod n \<le> unat v" by (rule mod_less_eq_dividend)
  moreover have "unat (of_nat (unat v mod n) :: clong) = unat v mod n"
    by (rule nat_word_small) (use assms calculation in linarith)
  ultimately have "unat (v - of_nat (unat v mod n)) = unat v - unat v mod n" by (simp add: unat_sub word_le_nat_alt)
  then show ?thesis by (simp add: minus_mod_eq_div_mult)
qed

lemma time_trunc_cut:
  assumes "powers_of_ten E" and "decimals \<le> TIME_SECOND_PART_DIGITS" and t: "unat (second_part t) \<le> 999999"
  shows "\<exists>p. my_time_trunc E decimals t = Some (t\<lparr>second_part := p, t_neg := t_neg t \<and> non_zero_hhmmssuu (t\<lparr>second_part := p\<rparr>)\<rparr>) \<and>
    unat p = unat (second_part t) div 10 ^ (6 - unat decimals) * 10 ^ (6 - unat decimals)"
  using unat_minus_mod [OF t, of "10 ^ (6 - unat decimals)"]
  by (auto simp: my_time_trunc_def fraction_remainder_mod [OF assms] non_zero_hhmmssuu_def Let_def
      intro!: exI [of _ "second_part t - of_nat (unat (second_part t) mod 10 ^ (6 - unat decimals))"])

section \<open>Properties\<close>

text \<open>
  C33. Adding nanoseconds to the minutes, seconds and microseconds of a valid time adds the microseconds nearest to them and keeps
  the time valid; the result says whether an hour is to be carried, and nothing is lost. Seconds and timestamps behave alike.
\<close>

theorem nanoseconds_carried:
  assumes "unat ns \<le> 1000000000"
    and "has_valid_mmssff t" and "unat (m_usec s) < 1000000" and "unat (tv_usec v) < 1000000"
  shows "(\<exists>over m c p. add_nanoseconds_mmssff ns t = Some (over, t\<lparr>minute := m, second := c, second_part := p\<rparr>) \<and>
      has_valid_mmssff (t\<lparr>minute := m, second := c, second_part := p\<rparr>) \<and>
      (if over then 3600000000 else 0) + microseconds (t\<lparr>minute := m, second := c, second_part := p\<rparr>) = microseconds t + rounded ns) \<and>
    (\<exists>over u. sec6_add_nanoseconds ns s = Some (over, s\<lparr>m_usec := u\<rparr>) \<and> unat u < 1000000 \<and>
      (if over then 1000000 else 0) + unat u = unat (m_usec s) + rounded ns) \<and>
    (\<exists>over u. add_nanoseconds_usec ns v = Some (over, v\<lparr>tv_usec := u\<rparr>) \<and> unat u < 1000000 \<and>
      (if over then 1000000 else 0) + unat u = unat (tv_usec v) + rounded ns)"
  using mmssff_carry [OF assms(2,1)] sec6_carry [OF assms(3,1)] timeval_carry [OF assms(4,1)] by simp

definition last_microsecond :: mysql_time where
  "last_microsecond = \<lparr>year = 0, month = 0, day = 0, hour = 838, minute = 59, second = 59, second_part = 999999, t_neg = True,
     time_type = MYSQL_TIMESTAMP_TIME\<rparr>"

theorem nanoseconds_carried_witness:
  "\<exists>t. add_nanoseconds_mmssff 500 last_microsecond = Some (True, t) \<and> microseconds t = 0"
proof -
  have ns: "unat (500 :: uint) \<le> 1000000000" and t: "has_valid_mmssff last_microsecond"
    by (simp_all add: valid_nat last_microsecond_def)
  have r: "rounded 500 = 1" "microseconds last_microsecond = 3599999999" by (simp_all add: rounded_def microseconds_def last_microsecond_def)
  have s: "unat (m_usec \<lparr>m_sec = 0, m_usec = 0, m_neg = False, m_truncated = False\<rparr>) < 1000000" by simp
  have v: "unat (tv_usec \<lparr>tv_sec = 0, tv_usec = 0\<rparr>) < 1000000" by simp
  obtain over m c p where a: "add_nanoseconds_mmssff 500 last_microsecond = Some (over, last_microsecond\<lparr>minute := m, second := c, second_part := p\<rparr>)"
    "has_valid_mmssff (last_microsecond\<lparr>minute := m, second := c, second_part := p\<rparr>)"
    "(if over then 3600000000 else 0) + microseconds (last_microsecond\<lparr>minute := m, second := c, second_part := p\<rparr>) = 3600000000"
    using nanoseconds_carried [OF ns t s v] unfolding r by auto
  have "microseconds (last_microsecond\<lparr>minute := m, second := c, second_part := p\<rparr>) < 3600000000"
    using a(2) by (simp add: valid_nat microseconds_def)
  with a(1,3) show ?thesis by (auto split: if_splits)
qed

text \<open>
  Cutting the fraction of a time keeps its leading digits, as shifting them out and back does, and drops the sign of a
  time that becomes zero and of no other.
\<close>

theorem fractions_cut:
  assumes "powers_of_ten E" and "decimals \<le> TIME_SECOND_PART_DIGITS" and "unat (second_part t) \<le> 999999"
  shows "\<exists>p. my_time_trunc E decimals t = Some (t\<lparr>second_part := p, t_neg := t_neg t \<and> non_zero_hhmmssuu (t\<lparr>second_part := p\<rparr>)\<rparr>) \<and>
    my_datetime_trunc E decimals t = Some (t\<lparr>second_part := p\<rparr>) \<and>
    unat p = unat (second_part t) div 10 ^ (6 - unat decimals) * 10 ^ (6 - unat decimals) \<and>
    Option.bind (sec_part_shift E (ucast (second_part t)) decimals) (\<lambda>q. sec_part_unshift E q decimals) = Some (ucast p)"
proof -
  define n :: nat where "n = 10 ^ (6 - unat decimals)"
  obtain p where p: "my_time_trunc E decimals t = Some (t\<lparr>second_part := p, t_neg := t_neg t \<and> non_zero_hhmmssuu (t\<lparr>second_part := p\<rparr>)\<rparr>)"
    "unat p = unat (second_part t) div n * n" using time_trunc_cut [OF assms] unfolding n_def by blast
  have "my_datetime_trunc E decimals t = Some (t\<lparr>second_part := p\<rparr>)"
    using p(2) unat_minus_mod [OF assms(3), of n]
    by (simp add: my_datetime_trunc_def fraction_remainder_mod [OF assms] word_unat_eq_iff flip: n_def)
  moreover have "Option.bind (sec_part_shift E (ucast (second_part t)) decimals) (\<lambda>q. sec_part_unshift E q decimals) = Some (ucast p)"
  proof -
    have b: "0 < n" "n \<le> 1000000" using power_of_ten_bounds [of "unat decimals"] by (simp_all add: n_def)
    note w = nat_word_small [OF b(2)]
    have f: "fraction_divisor E decimals = Some (of_nat n)" unfolding n_def by (rule fraction_divisor_power [OF assms(1,2)])
    have d: "(of_nat n :: longlong) \<noteq> 0" using w(2) b(1) by (metis less_irrefl unat_0)
    have u: "unat (ucast (second_part t) :: longlong) = unat (second_part t)" by (rule unat_ucast_small) (use assms(3) in simp)
    have "sint (ucast (second_part t) :: longlong) = int (unat (second_part t))" "sint (of_nat n :: longlong) = int n"
      using sint_small64 [of "ucast (second_part t)"] sint_small64 [of "of_nat n"] assms(3) b(2) w(2) u by simp_all
    then have "sint (ucast (second_part t) :: longlong) sdiv sint (of_nat n :: longlong) = int (unat (second_part t) div n)"
      by (simp only: sdiv_nat)
    then have "sec_part_shift E (ucast (second_part t)) decimals = Some (of_nat (unat (second_part t) div n))"
      using d f by (simp only: sec_part_shift_def bind.bind_lunit if_False of_int_of_nat_eq)
    moreover have "(ucast p :: longlong) = of_nat (unat p)" by (simp add: word_unat_eq_iff unat_ucast_small)
    ultimately show ?thesis using p(2) f
      by (simp only: sec_part_unshift_def bind.bind_lunit of_nat_mult)
  qed
  ultimately show ?thesis using p unfolding n_def by blast
qed

text \<open>
  An environment to try the conversions in: numbers are read as \<open>hhhmmss\<close> and as \<open>YYYYMMDDhhmmss\<close> and refused, with a warning,
  when a field is out of its range.
\<close>

definition sample_number_to_time_only :: "bool \<Rightarrow> ulonglong \<Rightarrow> ulong \<Rightarrow> ulong \<Rightarrow> mysql_time \<Rightarrow> cint \<Rightarrow> bool \<times> mysql_time \<times> cint" where
  "sample_number_to_time_only n nr p mx t w =
     (let k = unat nr;
          u = \<lparr>year = 0, month = 0, day = 0, hour = of_nat (k div 10000), minute = of_nat (k div 100 mod 100),
               second = of_nat (k mod 100), second_part = p, t_neg = n, time_type = MYSQL_TIMESTAMP_TIME\<rparr>
      in if k div 10000 \<le> unat mx \<and> has_valid_mmssff u then (False, u, w) else (True, t, MYSQL_TIME_WARN_OUT_OF_RANGE))"

definition sample_number_to_datetime_or_date :: "longlong \<Rightarrow> ulong \<Rightarrow> ulonglong \<Rightarrow> mysql_time \<Rightarrow> cint \<Rightarrow> longlong \<times> mysql_time \<times> cint" where
  "sample_number_to_datetime_or_date nr p f t w =
     (let k = unat nr;
          u = \<lparr>year = of_nat (k div 10 ^ 10), month = of_nat (k div 10 ^ 8 mod 100), day = of_nat (k div 10 ^ 6 mod 100),
               hour = of_nat (k div 10000 mod 100), minute = of_nat (k div 100 mod 100), second = of_nat (k mod 100),
               second_part = p, t_neg = False, time_type = MYSQL_TIMESTAMP_DATETIME\<rparr>
      in if month u \<le> 12 \<and> day u < 32 \<and> hour u < 24 \<and> has_valid_mmssff u then (nr, u, w)
         else (- 1, t, MYSQL_TIME_WARN_OUT_OF_RANGE))"

definition sample_env :: time_env where
  "sample_env =
     \<lparr>log_10_int = (\<lambda>i. 10 ^ i),
      set_zero_time = (\<lambda>y. \<lparr>year = 0, month = 0, day = 0, hour = 0, minute = 0, second = 0, second_part = 0, t_neg = False, time_type = y\<rparr>),
      check_time_range = (\<lambda>t dec w. (838 < hour t, if 838 < hour t then time_hhmmssff_set_max 838 t else t, if 838 < hour t then 2 else w)),
      number_to_time_only = sample_number_to_time_only, number_to_datetime_or_date = sample_number_to_datetime_or_date,
      time_round_or_set_max = (\<lambda>dec t w. (t\<lparr>second_part := 0\<rparr>, w)), time_round_or_set_max_nsec = (\<lambda>dec n t w. (t\<lparr>second_part := 0\<rparr>, w)),
      current_date = last_microsecond, calc_time_diff = (\<lambda>a b. last_microsecond)\<rparr>"

theorem fractions_cut_witness:
  "\<exists>t p. my_time_trunc sample_env 3 last_microsecond = Some t \<and> unat (second_part t) = 999000 \<and> t_neg t \<and>
    my_datetime_trunc sample_env 3 last_microsecond = Some (last_microsecond\<lparr>second_part := p\<rparr>)"
proof -
  have e: "powers_of_ten sample_env" by (simp add: powers_of_ten_def sample_env_def)
  have d: "(3 :: uint) \<le> TIME_SECOND_PART_DIGITS" by (simp add: TIME_SECOND_PART_DIGITS_def)
  have p: "unat (second_part last_microsecond) \<le> 999999" by (simp add: last_microsecond_def)
  from fractions_cut [OF e d p] show ?thesis
    by (auto simp: last_microsecond_def non_zero_hhmmssuu_def)
qed

text \<open>
  A date with a proper month and day counts as one of a timestamp if and only if it lies between the last day of 1969 and
  19 January 2038.
\<close>

definition date_number :: "mysql_time \<Rightarrow> nat" where
  "date_number t = (unat (year t) * 100 + unat (month t)) * 100 + unat (day t)"

theorem timestamp_range:
  assumes "unat (month t) \<in> {1..12}" and "unat (day t) \<in> {1..31}"
  shows "validate_timestamp_range t \<longleftrightarrow> 19691231 \<le> date_number t \<and> date_number t \<le> 20380119"
proof -
  have n: "validate_timestamp_range t \<longleftrightarrow> \<not> ((2038 < unat (year t) \<or> unat (year t) < 1969) \<or>
      (unat (year t) = 2038 \<and> (1 < unat (month t) \<or> 19 < unat (day t))) \<or> (unat (year t) = 1969 \<and> (unat (month t) < 12 \<or> unat (day t) < 31)))"
    by (simp add: validate_timestamp_range_def TIMESTAMP_MAX_YEAR_def TIMESTAMP_MIN_YEAR_def YY_PART_YEAR_def
      word_less_nat_alt word_unat_eq_iff)
  consider "unat (year t) < 1969" | "unat (year t) = 1969" | "1969 < unat (year t)" "unat (year t) < 2038" | "unat (year t) = 2038"
    | "2038 < unat (year t)" by linarith
  then show ?thesis using assms unfolding n date_number_def by cases auto
qed

theorem timestamp_range_witness:
  "\<not> validate_timestamp_range (last_microsecond\<lparr>year := 2038, month := 1, day := 20\<rparr>)"
  using timestamp_range [of "last_microsecond\<lparr>year := 2038, month := 1, day := 20\<rparr>"] by (simp add: date_number_def)

end
