(* ===== verification/Time_Values.thy ===== *)
theory Time_Values
  imports Temporal
begin

text \<open>
  \<open>Sec6\<close>, \<open>Extract_source\<close> and \<open>Time\<close> of \<open>sql_type.h\<close> and the comparison of timestamps: conversions between numbers, seconds and times.
  A constructor takes the old contents of the object it fills where a function of another file could see them.
\<close>

section \<open>Seconds\<close>

definition sec6_of_int :: "Longlong_hybrid \<Rightarrow> sec6" where
  "sec6_of_int nr = \<lparr>m_sec = hybrid_abs nr, m_usec = 0, m_neg = neg nr, m_truncated = False\<rparr>"

definition sec6_zero :: sec6 where "sec6_zero = \<lparr>m_sec = 0, m_usec = 0, m_neg = False, m_truncated = False\<rparr>"

definition to_interval_hhmmssff_only :: "time_env \<Rightarrow> sec6 \<Rightarrow> mysql_time \<Rightarrow> cint \<Rightarrow> bool \<times> mysql_time \<times> cint" where
  "to_interval_hhmmssff_only E s to warn = number_to_time_only E (m_neg s) (m_sec s) (m_usec s) TIME_MAX_INTERVAL_HOUR to warn"

definition to_datetime_or_date ::
  "time_env \<Rightarrow> sec6 \<Rightarrow> date_conv_mode_t \<Rightarrow> mysql_time \<Rightarrow> cint \<Rightarrow> (bool \<times> mysql_time \<times> cint) option" where
  "to_datetime_or_date E s flags to warn =
     (if m_neg s then Some (True, to, MYSQL_TIME_WARN_OUT_OF_RANGE)
      else let (r, to, warn) = number_to_datetime_or_date E (m_sec s) (m_usec s) (conv_ull (conv_and flags TIME_MODE_FOR_XXX_TO_DATE)) to warn;
               rc = (r = - 1)
           in if warn \<noteq> 0 \<or> \<not> rc then Some (rc, to, warn) else None)"

definition to_datetime_or_to_interval_hhmmssff ::
  "time_env \<Rightarrow> sec6 \<Rightarrow> mysql_time \<Rightarrow> cint \<Rightarrow> (bool \<times> mysql_time \<times> cint) option" where
  "to_datetime_or_to_interval_hhmmssff E s to warn =
     (if 999999995959 < m_sec s \<and> m_sec s \<le> 99991231235959 \<and> \<not> m_neg s
      then to_datetime_or_date E s TIME_INVALID_DATES to warn
      else if ucast TIME_MAX_INTERVAL_HOUR < m_sec s div 10000 then Some (True, to, MYSQL_TIME_WARN_OUT_OF_RANGE)
      else Some (to_interval_hhmmssff_only E s to warn))"

definition to_datetime_or_time ::
  "time_env \<Rightarrow> sec6 \<Rightarrow> date_conv_mode_t \<Rightarrow> mysql_time \<Rightarrow> cint \<Rightarrow> (bool \<times> mysql_time \<times> cint) option" where
  "to_datetime_or_time E s mode to warn =
     (let (rc, to, warn) =
        (if 9999999 < m_sec s \<and> m_sec s \<le> 99991231235959 \<and> \<not> m_neg s
         then (case number_to_datetime_or_date E (m_sec s) (m_usec s) (conv_ull (conv_and mode TIME_MODE_FOR_XXX_TO_DATE)) to warn of
                 (r, to, warn) \<Rightarrow> (r <s 0, to, warn))
         else number_to_time_only E (m_neg s) (m_sec s) (m_usec s) TIME_MAX_HOUR to warn)
      in if warn \<noteq> 0 \<or> \<not> rc then Some (rc, to, warn) else None)"

text \<open>\<open>check_time_range\<close> gets a warning that was never set.\<close>

definition sec_to_time :: "time_env \<Rightarrow> uint \<Rightarrow> cint \<Rightarrow> sec6 \<Rightarrow> (bool \<times> mysql_time) option" where
  "sec_to_time E dec unused s =
     (let t = (set_zero_time E MYSQL_TIMESTAMP_TIME)\<lparr>t_neg := m_neg s\<rparr>
      in if scast TIME_MAX_VALUE_SECONDS < m_sec s
         then (case check_time_range E (t\<lparr>hour := TIME_MAX_HOUR + 1\<rparr>) dec unused of (_, t, _) \<Rightarrow> Some (True, t))
         else if m_usec s \<le>s TIME_MAX_SECOND_PART
         then Some (False, t\<lparr>hour := ucast (m_sec s div 3600), minute := ucast (m_sec s mod 3600) div 60,
                second := ucast (m_sec s) mod 60, second_part := m_usec s\<rparr>)
         else None)"

definition sec6_trunc :: "time_env \<Rightarrow> uint \<Rightarrow> sec6 \<Rightarrow> sec6 option" where
  "sec6_trunc E dec s = do { r \<leftarrow> my_time_fraction_remainder E (m_usec s) dec; Some (s\<lparr>m_usec := m_usec s - r\<rparr>) }"

definition sec9_trunc :: "time_env \<Rightarrow> uint \<Rightarrow> sec9 \<Rightarrow> sec9 option" where
  "sec9_trunc E dec s = do {
     s \<leftarrow> Some (s\<lparr>m_nsec := 0\<rparr>);
     r \<leftarrow> my_time_fraction_remainder E (m_usec s) dec;
     Some (s\<lparr>m_usec := m_usec s - r\<rparr>) }"

section \<open>The source of EXTRACT\<close>

definition is_valid_extract_source_slow :: "mysql_time \<Rightarrow> bool option" where
  "is_valid_extract_source_slow t =
     map_option (\<lambda>v. v \<and> hour t < 24 \<and> (has_zero_YYYYMM t \<or> time_type t \<noteq> MYSQL_TIMESTAMP_TIME)) (is_valid_temporal t)"

definition time_to_daytime_interval :: "mysql_time \<Rightarrow> mysql_time option" where
  "time_to_daytime_interval t =
     (if time_type t = MYSQL_TIMESTAMP_TIME \<and> has_zero_YYYYMMDD t
      then Some (t\<lparr>day := hour t div 24, hour := hour t mod 24\<rparr>) else None)"

definition extract_source :: "mysql_time \<Rightarrow> mysql_time option" where
  "extract_source t = do {
     t \<leftarrow> (if time_type t = MYSQL_TIMESTAMP_TIME then time_to_daytime_interval t else Some t);
     ok \<leftarrow> (if time_type t = MYSQL_TIMESTAMP_NONE then Some True else is_valid_extract_source_slow t);
     (if ok then Some t else None) }"

definition extract_sign :: "mysql_time \<Rightarrow> cint" where "extract_sign t = (if t_neg t then - 1 else 1)"
definition extract_day :: "mysql_time \<Rightarrow> cint" where "extract_day t = day t * extract_sign t"
definition extract_hour :: "mysql_time \<Rightarrow> cint" where "extract_hour t = hour t * extract_sign t"
definition extract_minute :: "mysql_time \<Rightarrow> cint" where "extract_minute t = minute t * extract_sign t"
definition extract_second :: "mysql_time \<Rightarrow> cint" where "extract_second t = second t * extract_sign t"
definition extract_microsecond :: "mysql_time \<Rightarrow> cint" where "extract_microsecond t = second_part t * extract_sign t"
definition year_month :: "mysql_time \<Rightarrow> uint" where "year_month t = year t * 100 + month t"
definition quarter :: "mysql_time \<Rightarrow> uint" where "quarter t = (month t + 2) div 3"

definition second_microsecond :: "mysql_time \<Rightarrow> longlong" where
  "second_microsecond t = scast (extract_second t) * 1000000 + scast (extract_microsecond t)"

definition day_hour :: "mysql_time \<Rightarrow> longlong" where
  "day_hour t = scast (extract_day t) * 100 + scast (extract_hour t)"

definition day_minute :: "mysql_time \<Rightarrow> longlong" where "day_minute t = day_hour t * 100 + scast (extract_minute t)"
definition day_second :: "mysql_time \<Rightarrow> longlong" where "day_second t = day_minute t * 100 + scast (extract_second t)"

definition day_microsecond :: "mysql_time \<Rightarrow> longlong" where
  "day_microsecond t = day_second t * 1000000 + scast (extract_microsecond t)"

definition hour_minute :: "mysql_time \<Rightarrow> cint" where "hour_minute t = extract_hour t * 100 + extract_minute t"
definition hour_second :: "mysql_time \<Rightarrow> cint" where "hour_second t = hour_minute t * 100 + extract_second t"

definition hour_microsecond :: "mysql_time \<Rightarrow> longlong" where
  "hour_microsecond t = scast (hour_second t) * 1000000 + scast (extract_microsecond t)"

definition minute_second :: "mysql_time \<Rightarrow> cint" where "minute_second t = extract_minute t * 100 + extract_second t"

definition minute_microsecond :: "mysql_time \<Rightarrow> longlong" where
  "minute_microsecond t = scast (minute_second t) * 1000000 + scast (extract_microsecond t)"

section \<open>Times\<close>

datatype datetime_to_time_mode_t =
  DATETIME_TO_TIME_DISALLOW | DATETIME_TO_TIME_YYYYMMDD_000000DD_MIX_TO_HOURS | DATETIME_TO_TIME_YYYYMMDD_TRUNCATE
  | DATETIME_TO_TIME_YYYYMMDD_00000000_ONLY | DATETIME_TO_TIME_MINUS_CURRENT_DATE

definition is_valid_time_slow :: "mysql_time \<Rightarrow> bool" where
  "is_valid_time_slow t \<longleftrightarrow> time_type t = MYSQL_TIMESTAMP_TIME \<and> has_zero_YYYYMMDD t \<and> has_valid_mmssff t"

definition is_valid_value_slow :: "mysql_time \<Rightarrow> bool" where
  "is_valid_value_slow t \<longleftrightarrow> time_type t = MYSQL_TIMESTAMP_NONE \<or> is_valid_time_slow t"

definition hhmmssff_copy :: "mysql_time \<Rightarrow> mysql_time \<Rightarrow> mysql_time" where
  "hhmmssff_copy from t = t\<lparr>hour := hour from, minute := minute from, second := second from, second_part := second_part from\<rparr>"

definition is_valid_time :: "mysql_time \<Rightarrow> bool option" where
  "is_valid_time t = (if is_valid_value_slow t then Some (time_type t = MYSQL_TIMESTAMP_TIME) else None)"

definition datetime_to_time_mix_to_hours :: "uint \<Rightarrow> uint \<Rightarrow> uint \<Rightarrow> mysql_time \<Rightarrow> cint \<Rightarrow> mysql_time \<times> cint" where
  "datetime_to_time_mix_to_hours from_year from_month from_day t warn =
     (if from_year \<noteq> 0 \<or> from_month \<noteq> 0 then (t, warn OR MYSQL_TIME_NOTE_TRUNCATED)
      else (t\<lparr>hour := hour t + from_day * 24\<rparr>, warn))"

definition datetime_to_time_minus_current_date :: "time_env \<Rightarrow> mysql_time \<Rightarrow> mysql_time option" where
  "datetime_to_time_minus_current_date E t =
     (case check_time_range E (calc_time_diff E t (current_date E)) TIME_SECOND_PART_DIGITS 0 of (_, t, _) \<Rightarrow>
        if is_valid_time t = Some True then Some t else None)"

definition valid_datetime_to_valid_time ::
  "time_env \<Rightarrow> datetime_to_time_mode_t \<Rightarrow> mysql_time \<Rightarrow> cint \<Rightarrow> (mysql_time \<times> cint) option" where
  "valid_datetime_to_valid_time E opt t warn =
     (if time_type t \<in> {MYSQL_TIMESTAMP_DATE, MYSQL_TIMESTAMP_DATETIME} \<and> day t < 32 \<and> hour t < 24
      then do {
        (t, warn) \<leftarrow>
          (if opt = DATETIME_TO_TIME_MINUS_CURRENT_DATE
           then map_option (\<lambda>t. (t, warn)) (datetime_to_time_minus_current_date E t)
           else let (t, warn) =
                  (if opt = DATETIME_TO_TIME_YYYYMMDD_000000DD_MIX_TO_HOURS
                   then datetime_to_time_mix_to_hours (year t) (month t) (day t) t warn else (t, warn))
                in Some (t\<lparr>year := 0, month := 0, day := 0, time_type := MYSQL_TIMESTAMP_TIME\<rparr>, warn));
        (if is_valid_time_slow t then Some (t, warn) else None) }
      else None)"

definition valid_MYSQL_TIME_to_valid_value ::
  "time_env \<Rightarrow> datetime_to_time_mode_t \<Rightarrow> mysql_time \<Rightarrow> cint \<Rightarrow> (mysql_time \<times> cint) option" where
  "valid_MYSQL_TIME_to_valid_value E opt t warn =
     (case time_type t of
        MYSQL_TIMESTAMP_NONE \<Rightarrow> Some (t, warn)
      | MYSQL_TIMESTAMP_ERROR \<Rightarrow> Some (set_zero_time E MYSQL_TIMESTAMP_TIME, warn)
      | MYSQL_TIMESTAMP_TIME \<Rightarrow> (if is_valid_time_slow t then Some (t, warn) else None)
      | _ \<Rightarrow>
          (if opt = DATETIME_TO_TIME_YYYYMMDD_00000000_ONLY \<and> (year t \<noteq> 0 \<or> month t \<noteq> 0 \<or> day t \<noteq> 0)
           then Some (make_from_out_of_range t)
           else if opt = DATETIME_TO_TIME_DISALLOW then Some (make_from_out_of_range t)
           else valid_datetime_to_valid_time E opt t warn))"

definition xxx_to_time_result_to_valid_value ::
  "time_env \<Rightarrow> datetime_to_time_mode_t \<Rightarrow> mysql_time \<Rightarrow> cint \<Rightarrow> (mysql_time \<times> cint) option" where
  "xxx_to_time_result_to_valid_value E opt t warn =
     (if time_type t = MYSQL_TIMESTAMP_ERROR then None else valid_MYSQL_TIME_to_valid_value E opt t warn)"

definition adjust_time_range_or_invalidate :: "time_env \<Rightarrow> mysql_time \<Rightarrow> cint \<Rightarrow> (mysql_time \<times> cint) option" where
  "adjust_time_range_or_invalidate E t warn =
     (case check_time_range E t TIME_SECOND_PART_DIGITS warn of (rc, t, warn) \<Rightarrow>
        let t = (if rc then t\<lparr>time_type := MYSQL_TIMESTAMP_NONE\<rparr> else t)
        in if is_valid_value_slow t then Some (t, warn) else None)"

definition time_of_mysql_time :: "time_env \<Rightarrow> datetime_to_time_mode_t \<Rightarrow> mysql_time \<Rightarrow> mysql_time option" where
  "time_of_mysql_time E opt ltime =
     (if is_valid_temporal ltime = Some True then map_option fst (valid_MYSQL_TIME_to_valid_value E opt ltime 0) else None)"

definition time_of_sec6 ::
  "time_env \<Rightarrow> datetime_to_time_mode_t \<Rightarrow> sec6 \<Rightarrow> mysql_time \<Rightarrow> cint \<Rightarrow> (mysql_time \<times> cint) option" where
  "time_of_sec6 E opt nr this warn = do {
     (rc, t, warn) \<leftarrow> to_datetime_or_time E nr TIME_INVALID_DATES this warn;
     xxx_to_time_result_to_valid_value E opt (if rc then t\<lparr>time_type := MYSQL_TIMESTAMP_NONE\<rparr> else t) warn }"

definition checked :: "mysql_time \<Rightarrow> mysql_time option" where
  "checked t = (if is_valid_value_slow t then Some t else None)"

definition time_trunc :: "time_env \<Rightarrow> uint \<Rightarrow> mysql_time \<Rightarrow> mysql_time option" where
  "time_trunc E dec t = do {
     v \<leftarrow> is_valid_time t;
     t \<leftarrow> (if v then my_time_trunc E dec t else Some t);
     checked t }"

definition time_of_hybrid ::
  "time_env \<Rightarrow> datetime_to_time_mode_t \<Rightarrow> Longlong_hybrid \<Rightarrow> uint \<Rightarrow> mysql_time \<Rightarrow> cint \<Rightarrow> (mysql_time \<times> cint) option" where
  "time_of_hybrid E opt nr dec this warn = do {
     (t, warn) \<leftarrow> time_of_sec6 E opt (sec6_of_int nr) this warn;
     t \<leftarrow> time_trunc E dec t;
     Some (t, warn) }"

definition time_ceiling :: "time_env \<Rightarrow> mysql_time \<Rightarrow> cint \<Rightarrow> (mysql_time \<times> cint) option" where
  "time_ceiling E t warn = do {
     v \<leftarrow> is_valid_time t;
     (t, warn) \<leftarrow>
       (if v then (if t_neg t then map_option (\<lambda>t. (t, warn)) (my_time_trunc E 0 t)
                   else if second_part t \<noteq> 0 then Some (time_round_or_set_max_nsec E 0 999999999 t warn) else Some (t, warn))
        else Some (t, warn));
     t \<leftarrow> checked t;
     Some (t, warn) }"

definition time_floor :: "time_env \<Rightarrow> mysql_time \<Rightarrow> cint \<Rightarrow> (mysql_time \<times> cint) option" where
  "time_floor E t warn = do {
     v \<leftarrow> is_valid_time t;
     (t, warn) \<leftarrow>
       (if v then (if \<not> t_neg t then map_option (\<lambda>t. (t, warn)) (my_time_trunc E 0 t)
                   else if second_part t \<noteq> 0 then Some (time_round_or_set_max_nsec E 0 999999999 t warn) else Some (t, warn))
        else Some (t, warn));
     t \<leftarrow> checked t;
     Some (t, warn) }"

definition time_round :: "time_env \<Rightarrow> uint \<Rightarrow> mysql_time \<Rightarrow> cint \<Rightarrow> (mysql_time \<times> cint) option" where
  "time_round E dec t warn = do {
     v \<leftarrow> is_valid_time t;
     (t, warn) \<leftarrow> Some (if v then time_round_or_set_max E dec t warn else (t, warn));
     t \<leftarrow> checked t;
     Some (t, warn) }"

definition time_fraction_remainder :: "time_env \<Rightarrow> uint \<Rightarrow> mysql_time \<Rightarrow> clong option" where
  "time_fraction_remainder E dec t = (if is_valid_time t = Some True then fraction_remainder E dec t else None)"

definition time_round_to :: "time_env \<Rightarrow> uint \<Rightarrow> time_round_mode_t \<Rightarrow> mysql_time \<Rightarrow> cint \<Rightarrow> (mysql_time \<times> cint) option" where
  "time_round_to E dec mode t warn =
     (if round_mode mode = FRAC_NONE
      then (if time_fraction_remainder E dec t = Some 0 then map_option (\<lambda>t. (t, warn)) (time_trunc E dec t) else None)
      else if round_mode mode = FRAC_TRUNCATE then map_option (\<lambda>t. (t, warn)) (time_trunc E dec t)
      else if round_mode mode = FRAC_ROUND then time_round E dec t warn
      else Some (t, warn))"

definition to_seconds_abs :: "mysql_time \<Rightarrow> longlong option" where
  "to_seconds_abs t = (if is_valid_time_slow t then Some (ucast (hour t * 3600 + minute t * 60 + second t)) else None)"

definition to_seconds :: "mysql_time \<Rightarrow> longlong option" where
  "to_seconds t = map_option (\<lambda>s. if t_neg t then - s else s) (to_seconds_abs t)"

definition copy_to_mysql_time :: "mysql_time \<Rightarrow> mysql_time \<Rightarrow> (bool \<times> mysql_time) option" where
  "copy_to_mysql_time t ltime =
     (if time_type t = MYSQL_TIMESTAMP_NONE then Some (True, ltime\<lparr>time_type := MYSQL_TIMESTAMP_NONE\<rparr>)
      else if is_valid_time_slow t then Some (False, t) else None)"

section \<open>Timestamps\<close>

definition mk_timeval :: "clong \<Rightarrow> ulong \<Rightarrow> timeval option" where
  "mk_timeval sec usec = (if usec < 1000000 then Some \<lparr>tv_sec = sec, tv_usec = usec\<rparr> else None)"

definition timestamp_cmp :: "timeval \<Rightarrow> timeval \<Rightarrow> cint" where
  "timestamp_cmp a b =
     (if tv_sec a <s tv_sec b then - 1 else if tv_sec b <s tv_sec a then 1
      else if tv_usec a <s tv_usec b then - 1 else if tv_usec b <s tv_usec a then 1 else 0)"

definition timestamp_fraction_remainder :: "time_env \<Rightarrow> uint \<Rightarrow> timeval \<Rightarrow> clong option" where
  "timestamp_fraction_remainder E dec v = my_time_fraction_remainder E (tv_usec v) dec"

definition timestamp_trunc :: "time_env \<Rightarrow> uint \<Rightarrow> timeval \<Rightarrow> timeval option" where
  "timestamp_trunc E dec v = my_timeval_trunc E dec v"

section \<open>Valid times\<close>

definition good_time :: "mysql_time \<Rightarrow> bool" where
  "good_time t \<longleftrightarrow> time_type t = MYSQL_TIMESTAMP_NONE \<or> (is_valid_time_slow t \<and> hour t \<le> TIME_MAX_HOUR)"

definition good_datetime :: "mysql_time \<Rightarrow> bool" where
  "good_datetime t \<longleftrightarrow> time_type t \<in> {MYSQL_TIMESTAMP_DATE, MYSQL_TIMESTAMP_DATETIME} \<and> day t < 32 \<and> hour t < 24 \<and> has_valid_mmssff t"

text \<open>
  What the source relies on of the functions of other files, at the arguments it passes. The comments on
  \<open>valid_MYSQL_TIME_to_valid_value\<close>, \<open>valid_datetime_to_valid_time\<close> and \<open>xxx_to_time_result_to_valid_value\<close> in \<open>sql_type.h\<close> say
  that \<open>number_to_xxx\<close> return only valid values within the supported range of their type, with days below 32 and hours below
  24 in a datetime, and \<open>to_datetime_or_time\<close> asserts that they warn when they fail. The numbers are those it passes: a time
  is asked for with at most \<open>TIME_MAX_HOUR\<close> hours, a datetime of a number of eight to fourteen digits. The other
  parameter is the table of powers of ten. Nothing is asked of the functions that round up.
\<close>

definition time_contract :: "time_env \<Rightarrow> bool" where
  "time_contract E \<longleftrightarrow> powers_of_ten E \<and>
     (\<forall>n s p t w. unat p \<le> 999999 \<longrightarrow> (case number_to_time_only E n s p TIME_MAX_HOUR t w of (rc, u, w') \<Rightarrow>
        if rc then w' \<noteq> 0 else is_valid_time_slow u \<and> hour u \<le> TIME_MAX_HOUR)) \<and>
     (\<forall>s p t w. 9999999 < s \<and> s \<le> 99991231235959 \<and> unat p \<le> 999999 \<longrightarrow>
        (case number_to_datetime_or_date E s p (conv_ull (conv_and TIME_INVALID_DATES TIME_MODE_FOR_XXX_TO_DATE)) t w of (r, u, w') \<Rightarrow>
           if r <s 0 then w' \<noteq> 0 else good_datetime u))"

lemma time_contractD:
  assumes "time_contract E"
  shows "powers_of_ten E"
    "unat p \<le> 999999 \<Longrightarrow> number_to_time_only E sg s p TIME_MAX_HOUR t w = (rc, u, w') \<Longrightarrow>
      if rc then w' \<noteq> 0 else is_valid_time_slow u \<and> hour u \<le> TIME_MAX_HOUR"
    "9999999 < s \<Longrightarrow> s \<le> 99991231235959 \<Longrightarrow> unat p \<le> 999999 \<Longrightarrow>
      number_to_datetime_or_date E s p (conv_ull (conv_and TIME_INVALID_DATES TIME_MODE_FOR_XXX_TO_DATE)) t w = (r, u, w') \<Longrightarrow>
      if r <s 0 then w' \<noteq> 0 else good_datetime u"
proof -
  note c1 = assms [unfolded time_contract_def]
  note c2 = conjunct2 [OF c1]
  show "powers_of_ten E" by (rule conjunct1 [OF c1])
  show "if rc then w' \<noteq> 0 else is_valid_time_slow u \<and> hour u \<le> TIME_MAX_HOUR"
    if "unat p \<le> 999999" "number_to_time_only E sg s p TIME_MAX_HOUR t w = (rc, u, w')"
    using conjunct1 [OF c2, rule_format, OF that(1), of sg s t w] that(2) by simp
  show "if r <s 0 then w' \<noteq> 0 else good_datetime u"
    if "9999999 < s" "s \<le> 99991231235959" "unat p \<le> 999999"
      "number_to_datetime_or_date E s p (conv_ull (conv_and TIME_INVALID_DATES TIME_MODE_FOR_XXX_TO_DATE)) t w = (r, u, w')"
    using conjunct2 [OF c2, rule_format, OF conjI [OF that(1) conjI [OF that(2,3)]], of t w] that(4) by simp
qed

lemma good_time_valid: "good_time t \<Longrightarrow> is_valid_value_slow t"
  by (auto simp: good_time_def is_valid_value_slow_def)

lemma good_time_is_valid:
  assumes "good_time t"
  shows "is_valid_time t = Some (time_type t = MYSQL_TIMESTAMP_TIME)"
    "time_type t = MYSQL_TIMESTAMP_TIME \<Longrightarrow> is_valid_time_slow t \<and> hour t \<le> TIME_MAX_HOUR" "checked t = Some t"
  using assms by (auto simp: is_valid_time_def good_time_valid checked_def good_time_def)

text \<open>Days mixed into hours stay in the range of times.\<close>

lemma mixed_hours:
  fixes h d :: uint
  assumes "h < 24" and "d < 32"
  shows "h + d * 24 \<le> TIME_MAX_HOUR"
proof -
  have "unat h < 24" "unat d < 32" using assms by (simp_all add: word_less_nat_alt)
  moreover from this have "unat (d * 24) = unat d * 24" by (simp add: unat_word_ariths)
  ultimately have "unat (h + d * 24) = unat h + unat d * 24" by (simp add: unat_add_small)
  then show ?thesis using \<open>unat h < 24\<close> \<open>unat d < 32\<close> by (simp add: TIME_MAX_HOUR_def word_le_nat_alt)
qed

lemma small_hours: "h < 24 \<Longrightarrow> h \<le> TIME_MAX_HOUR" for h :: uint
  by (simp add: TIME_MAX_HOUR_def word_less_nat_alt word_le_nat_alt)

text \<open>
  The time that a value stands for: a date or datetime without a time is undefined in the modes that refuse it; otherwise its
  date is dropped, or its days count as hours when year and month are zero and the mode mixes them.
\<close>

definition time_spec :: "datetime_to_time_mode_t \<Rightarrow> mysql_time \<Rightarrow> mysql_time" where
  "time_spec opt t =
     (if time_type t \<notin> {MYSQL_TIMESTAMP_DATE, MYSQL_TIMESTAMP_DATETIME} then t
      else if opt = DATETIME_TO_TIME_DISALLOW \<or> (opt = DATETIME_TO_TIME_YYYYMMDD_00000000_ONLY \<and> non_zero_YYMMDD t)
      then t\<lparr>time_type := MYSQL_TIMESTAMP_NONE\<rparr>
      else t\<lparr>year := 0, month := 0, day := 0,
              hour := (if opt = DATETIME_TO_TIME_YYYYMMDD_000000DD_MIX_TO_HOURS \<and> year t = 0 \<and> month t = 0
                       then of_nat (24 * unat (day t) + unat (hour t)) else hour t),
              time_type := MYSQL_TIMESTAMP_TIME\<rparr>)"

lemma datetime_to_time_spec:
  assumes t: "good_datetime t" and opt: "opt \<noteq> DATETIME_TO_TIME_MINUS_CURRENT_DATE" "opt \<noteq> DATETIME_TO_TIME_DISALLOW"
    "opt = DATETIME_TO_TIME_YYYYMMDD_00000000_ONLY \<Longrightarrow> \<not> non_zero_YYMMDD t"
  shows "\<exists>w'. valid_datetime_to_valid_time E opt t w = Some (time_spec opt t, w') \<and> good_time (time_spec opt t)"
proof -
  have m: "24 * d + h \<le> TIME_MAX_HOUR" if "h < 24" "d < 32" for h d :: uint
    using mixed_hours [OF that] by (simp add: add.commute mult.commute)
  show ?thesis using t opt m small_hours
    by (auto simp: valid_datetime_to_valid_time_def datetime_to_time_mix_to_hours_def good_datetime_def good_time_def time_spec_def
      is_valid_time_slow_def has_zero_YYYYMMDD_def has_valid_mmssff_def add.commute mult.commute)
qed

lemma to_time_spec:
  assumes t: "good_datetime t \<or> good_time t" and opt: "opt \<noteq> DATETIME_TO_TIME_MINUS_CURRENT_DATE"
  shows "\<exists>w'. valid_MYSQL_TIME_to_valid_value E opt t w = Some (time_spec opt t, w') \<and> good_time (time_spec opt t)"
proof (cases "good_datetime t")
  case True
  then have d: "time_type t = MYSQL_TIMESTAMP_DATE \<or> time_type t = MYSQL_TIMESTAMP_DATETIME" by (auto simp: good_datetime_def)
  show ?thesis
  proof (cases "opt = DATETIME_TO_TIME_DISALLOW \<or> (opt = DATETIME_TO_TIME_YYYYMMDD_00000000_ONLY \<and> non_zero_YYMMDD t)")
    case True
    then show ?thesis using d
      by (auto simp: valid_MYSQL_TIME_to_valid_value_def time_spec_def make_from_out_of_range_def good_time_def non_zero_YYMMDD_def)
  next
    case False
    then show ?thesis using d datetime_to_time_spec [OF True opt, of E w]
      by (auto simp: valid_MYSQL_TIME_to_valid_value_def non_zero_YYMMDD_def)
  qed
next
  case False
  then show ?thesis using t by (auto simp: valid_MYSQL_TIME_to_valid_value_def good_time_def is_valid_time_slow_def time_spec_def)
qed

text \<open>A time cut to its first \<open>d\<close> digits of a second; a time that becomes zero loses its sign.\<close>

definition cut :: "nat \<Rightarrow> mysql_time \<Rightarrow> mysql_time" where
  "cut d t =
     (if time_type t = MYSQL_TIMESTAMP_TIME
      then let u = t\<lparr>second_part := of_nat (unat (second_part t) div 10 ^ (6 - d) * 10 ^ (6 - d))\<rparr>
           in u\<lparr>t_neg := t_neg t \<and> non_zero_hhmmssuu u\<rparr>
      else t)"

lemma trunc_is_cut:
  assumes E: "powers_of_ten E" and t: "good_time t" and d: "dec \<le> TIME_SECOND_PART_DIGITS"
  shows "time_trunc E dec t = Some (cut (unat dec) t)" "good_time (cut (unat dec) t)"
    "time_type t = MYSQL_TIMESTAMP_TIME \<Longrightarrow> my_time_trunc E dec t = Some (cut (unat dec) t)"
proof -
  note g = good_time_is_valid [OF t]
  have both: "my_time_trunc E dec t = Some (cut (unat dec) t) \<and> good_time (cut (unat dec) t)" if time: "time_type t = MYSQL_TIMESTAMP_TIME"
  proof -
    have v: "has_valid_mmssff t" using g(2) [OF time] by (simp add: is_valid_time_slow_def)
    then have "unat (second_part t) \<le> 999999" by (simp add: valid_nat)
    from time_trunc_cut [OF E d this] obtain p where
      p: "my_time_trunc E dec t = Some (t\<lparr>second_part := p, t_neg := t_neg t \<and> non_zero_hhmmssuu (t\<lparr>second_part := p\<rparr>)\<rparr>)"
      "unat p = unat (second_part t) div 10 ^ (6 - unat dec) * 10 ^ (6 - unat dec)" by blast
    have "of_nat (unat p) = p" by simp
    then have "p = of_nat (unat (second_part t) div 10 ^ (6 - unat dec) * 10 ^ (6 - unat dec))" by (simp only: p(2))
    then have c: "cut (unat dec) t = t\<lparr>second_part := p, t_neg := t_neg t \<and> non_zero_hhmmssuu (t\<lparr>second_part := p\<rparr>)\<rparr>"
      using time by (simp add: cut_def Let_def)
    have "unat p \<le> unat (second_part t)" using p(2) by (simp add: div_times_less_eq_dividend)
    then have "good_time (cut (unat dec) t)"
      using v g(2) [OF time] by (simp add: c good_time_def is_valid_time_slow_def has_zero_YYYYMMDD_def valid_nat)
    with p(1) c show ?thesis by simp
  qed
  show "time_type t = MYSQL_TIMESTAMP_TIME \<Longrightarrow> my_time_trunc E dec t = Some (cut (unat dec) t)" using both by simp
  show good: "good_time (cut (unat dec) t)" using both t by (cases "time_type t = MYSQL_TIMESTAMP_TIME") (simp_all add: cut_def)
  show "time_trunc E dec t = Some (cut (unat dec) t)"
  proof (cases "time_type t = MYSQL_TIMESTAMP_TIME")
    case True
    then show ?thesis using both g(1) good_time_is_valid(3) [OF good] by (simp add: time_trunc_def)
  next
    case False
    then show ?thesis using g(1,3) by (simp add: time_trunc_def cut_def)
  qed
qed

text \<open>
  What a number is read as: from eight to fourteen digits without a sign as a datetime, otherwise as a time; undefined when it
  cannot be read.
\<close>

definition number_value :: "time_env \<Rightarrow> Longlong_hybrid \<Rightarrow> mysql_time \<Rightarrow> cint \<Rightarrow> mysql_time" where
  "number_value E nr t w =
     (let s = of_int \<bar>hval nr\<bar>;
          (rc, t, w) =
            (if 9999999 < hval nr \<and> hval nr \<le> 99991231235959
             then (case number_to_datetime_or_date E s 0 (conv_ull (conv_and TIME_INVALID_DATES TIME_MODE_FOR_XXX_TO_DATE)) t w of
                     (r, t, w) \<Rightarrow> (r <s 0, t, w))
             else number_to_time_only E (hval nr < 0) s 0 TIME_MAX_HOUR t w)
      in if rc then t\<lparr>time_type := MYSQL_TIMESTAMP_NONE\<rparr> else t)"

lemma hybrid_is_number:
  "hybrid_abs nr = of_int \<bar>hval nr\<bar>" "neg nr \<longleftrightarrow> hval nr < 0"
  "(9999999 < hybrid_abs nr \<and> hybrid_abs nr \<le> 99991231235959 \<and> \<not> neg nr) \<longleftrightarrow> (9999999 < hval nr \<and> hval nr \<le> 99991231235959)"
proof -
  show "hybrid_abs nr = of_int \<bar>hval nr\<bar>" 
  proof -
    have "of_int (uint (hybrid_abs nr)) = hybrid_abs nr" by simp
    then show ?thesis by (simp only: hybrid_abs_value)
  qed
  show n: "neg nr \<longleftrightarrow> hval nr < 0" using uint_bound [of "h_value nr"] by (simp add: neg_def hval_def word_sless_alt)
  show "(9999999 < hybrid_abs nr \<and> hybrid_abs nr \<le> 99991231235959 \<and> \<not> neg nr) \<longleftrightarrow> (9999999 < hval nr \<and> hval nr \<le> 99991231235959)"
    using n by (auto simp: word_less_def word_le_def hybrid_abs_value)
qed

lemma number_to_time_spec:
  assumes E: "time_contract E" and opt: "opt \<noteq> DATETIME_TO_TIME_MINUS_CURRENT_DATE"
  shows "\<exists>w'. time_of_sec6 E opt (sec6_of_int nr) t0 w = Some (time_spec opt (number_value E nr t0 w), w') \<and>
    good_time (time_spec opt (number_value E nr t0 w))"
proof -
  have zero: "unat (0 :: ulong) \<le> 999999" by simp
  have "\<exists>rc t w'. to_datetime_or_time E (sec6_of_int nr) TIME_INVALID_DATES t0 w = Some (rc, t, w') \<and>
      (\<not> rc \<longrightarrow> good_datetime t \<or> good_time t) \<and> number_value E nr t0 w = (if rc then t\<lparr>time_type := MYSQL_TIMESTAMP_NONE\<rparr> else t)"
  proof (cases "9999999 < hybrid_abs nr \<and> hybrid_abs nr \<le> 99991231235959 \<and> \<not> neg nr")
    case True
    obtain r u v where n: "number_to_datetime_or_date E (hybrid_abs nr) 0
        (conv_ull (conv_and TIME_INVALID_DATES TIME_MODE_FOR_XXX_TO_DATE)) t0 w = (r, u, v)" by (metis prod_cases3)
    have "number_value E nr t0 w = (if r <s 0 then u\<lparr>time_type := MYSQL_TIMESTAMP_NONE\<rparr> else u)"
      using True [unfolded hybrid_is_number(3)] n unfolding number_value_def hybrid_is_number(1) [symmetric] by simp
    with time_contractD(3) [OF E _ _ zero n] True n show ?thesis
      by (auto simp: to_datetime_or_time_def sec6_of_int_def split: if_splits)
  next
    case False
    obtain r u v where n: "number_to_time_only E (neg nr) (hybrid_abs nr) 0 TIME_MAX_HOUR t0 w = (r, u, v)" by (metis prod_cases3)
    have "number_value E nr t0 w = (if r then u\<lparr>time_type := MYSQL_TIMESTAMP_NONE\<rparr> else u)"
      using False [unfolded hybrid_is_number(3)] n
      unfolding number_value_def hybrid_is_number(1) [symmetric] hybrid_is_number(2) [symmetric] by (simp del: de_Morgan_conj)
    with time_contractD(2) [OF E zero n] False n show ?thesis
      by (cases r) (auto simp: to_datetime_or_time_def sec6_of_int_def good_time_def Let_def simp del: de_Morgan_conj)
  qed
  then obtain rc t w' where r: "to_datetime_or_time E (sec6_of_int nr) TIME_INVALID_DATES t0 w = Some (rc, t, w')"
    "\<not> rc \<Longrightarrow> good_datetime t \<or> good_time t" "number_value E nr t0 w = (if rc then t\<lparr>time_type := MYSQL_TIMESTAMP_NONE\<rparr> else t)"
    by blast
  have g: "good_datetime (number_value E nr t0 w) \<or> good_time (number_value E nr t0 w)" using r(2,3) by (simp add: good_time_def)
  then have "time_type (number_value E nr t0 w) \<noteq> MYSQL_TIMESTAMP_ERROR"
    by (auto simp: good_datetime_def good_time_def is_valid_time_slow_def)
  then show ?thesis using to_time_spec [OF g opt, of E w'] r(1,3)
    by (simp add: time_of_sec6_def xxx_to_time_result_to_valid_value_def)
qed

section \<open>Programs on a time\<close>

datatype time_cmd = Trunc uint | Ceiling | Floor | Round uint | Round_to uint time_round_mode_t

fun time_step :: "time_env \<Rightarrow> time_cmd \<Rightarrow> mysql_time \<times> cint \<Rightarrow> (mysql_time \<times> cint) option" where
  "time_step E (Trunc d) (t, w) = map_option (\<lambda>t. (t, w)) (time_trunc E d t)"
| "time_step E Ceiling (t, w) = time_ceiling E t w"
| "time_step E Floor (t, w) = time_floor E t w"
| "time_step E (Round d) (t, w) = time_round E d t w"
| "time_step E (Round_to d m) (t, w) = time_round_to E d m t w"

fun run_time :: "time_env \<Rightarrow> time_cmd list \<Rightarrow> mysql_time \<times> cint \<Rightarrow> (mysql_time \<times> cint) option" where
  "run_time E [] x = Some x"
| "run_time E (c # cs) x = Option.bind (time_step E c x) (run_time E cs)"

text \<open>
  The commands that do not round up, on the value itself: a cut to some digits, or nothing to do. The rest calls functions of
  other files, and is \<open>None\<close>, like a cut to more than six digits and a mode that finds digits it was told not to expect.
\<close>

definition cut_to :: "uint \<Rightarrow> mysql_time \<Rightarrow> mysql_time option" where
  "cut_to d t = (if d \<le> TIME_SECOND_PART_DIGITS then Some (cut (unat d) t) else None)"

fun cut_step :: "time_cmd \<Rightarrow> mysql_time \<Rightarrow> mysql_time option" where
  "cut_step (Trunc d) t = cut_to d t"
| "cut_step Ceiling t =
     (if time_type t = MYSQL_TIMESTAMP_NONE then Some t else if t_neg t then Some (cut 0 t)
      else if second_part t = 0 then Some t else None)"
| "cut_step Floor t =
     (if time_type t = MYSQL_TIMESTAMP_NONE then Some t else if \<not> t_neg t then Some (cut 0 t)
      else if second_part t = 0 then Some t else None)"
| "cut_step (Round d) t = (if time_type t = MYSQL_TIMESTAMP_NONE then Some t else None)"
| "cut_step (Round_to d m) t =
     (if round_mode m = FRAC_TRUNCATE then cut_to d t
      else if round_mode m = FRAC_ROUND then (if time_type t = MYSQL_TIMESTAMP_NONE then Some t else None)
      else if round_mode m = FRAC_NONE \<and> time_type t = MYSQL_TIMESTAMP_TIME \<and> unat (second_part t) mod 10 ^ (6 - unat d) = 0
      then cut_to d t else None)"

fun run_cut :: "time_cmd list \<Rightarrow> mysql_time \<Rightarrow> mysql_time option" where
  "run_cut [] t = Some t"
| "run_cut (c # cs) t = Option.bind (cut_step c t) (run_cut cs)"

lemma step_cut:
  assumes E: "powers_of_ten E" and t: "good_time t" and c: "cut_step c t = Some u"
  shows "time_step E c (t, w) = Some (u, w) \<and> good_time u"
proof -
  note g = good_time_is_valid [OF t] and cut = trunc_is_cut [OF E t]
  have zero: "(0 :: uint) \<le> TIME_SECOND_PART_DIGITS" by simp
  have kind: "time_type t = MYSQL_TIMESTAMP_NONE \<or> time_type t = MYSQL_TIMESTAMP_TIME"
    using t by (auto simp: good_time_def is_valid_time_slow_def)
  note whole = cut [OF zero, simplified]
  show ?thesis
  proof (cases c)
    case (Trunc d)
    then show ?thesis using c cut [of d] by (auto simp: cut_to_def split: if_splits)
  next
    case (Round_to d m)
    consider (truncate) "round_mode m = FRAC_TRUNCATE" "cut_to d t = Some u"
      | (round) "round_mode m = FRAC_ROUND" "time_type t = MYSQL_TIMESTAMP_NONE" "u = t"
      | (none) "round_mode m = FRAC_NONE" "time_type t = MYSQL_TIMESTAMP_TIME" "unat (second_part t) mod 10 ^ (6 - unat d) = 0" "cut_to d t = Some u"
      using c Round_to by (auto split: if_splits)
    then show ?thesis
    proof cases
      case truncate
      then show ?thesis using Round_to cut [of d] by (auto simp: cut_to_def time_round_to_def mask_values split: if_splits)
    next
      case round
      then show ?thesis using Round_to t g by (auto simp: time_round_to_def time_round_def mask_values)
    next
      case none
      have d: "d \<le> TIME_SECOND_PART_DIGITS" using none(4) by (auto simp: cut_to_def split: if_splits)
      have "unat (second_part t) \<le> 999999" using g(2) [OF none(2)] by (simp add: is_valid_time_slow_def valid_nat)
      from fraction_remainder_mod [OF E d this] none(1-3) g(1)
      have "time_fraction_remainder E d t = Some 0" by (simp add: time_fraction_remainder_def fraction_remainder_def)
      then show ?thesis using Round_to none d cut [OF d] by (auto simp: cut_to_def time_round_to_def)
    qed
  qed (use c t g kind whole good_time_is_valid(3) [OF whole(2)] in
    \<open>auto simp: time_ceiling_def time_floor_def time_round_def split: if_splits\<close>)
qed

lemma run_cut_run:
  "powers_of_ten E \<Longrightarrow> good_time t \<Longrightarrow> run_cut cs t = Some v \<Longrightarrow> run_time E cs (t, w) = Some (v, w) \<and> good_time v"
proof (induction cs arbitrary: t)
  case (Cons c cs)
  then obtain u where u: "cut_step c t = Some u" "run_cut cs u = Some v" by (auto split: bind_splits)
  then show ?case using step_cut [OF Cons.prems(1,2) u(1), of w] Cons.IH [of u] Cons.prems(1) by simp
qed simp

section \<open>Signed fields\<close>

definition sign_of :: "mysql_time \<Rightarrow> int" where "sign_of t = (if t_neg t then - 1 else 1)"

lemma signed_fields:
  "extract_day t = of_int (sign_of t * int (unat (day t)))" "extract_hour t = of_int (sign_of t * int (unat (hour t)))"
  "extract_minute t = of_int (sign_of t * int (unat (minute t)))" "extract_second t = of_int (sign_of t * int (unat (second t)))"
  "extract_microsecond t = of_int (sign_of t * int (unat (second_part t)))"
  by (simp_all add: extract_day_def extract_hour_def extract_minute_def extract_second_def extract_microsecond_def
    extract_sign_def sign_of_def)

lemma sint_of_int32: "- (2 ^ 31) \<le> z \<Longrightarrow> z < 2 ^ 31 \<Longrightarrow> sint (of_int z :: cint) = z"
  by (simp add: signed_of_int signed_take_bit_int_eq_self)

lemma sint_of_int64: "- (2 ^ 63) \<le> z \<Longrightarrow> z < 2 ^ 63 \<Longrightarrow> sint (of_int z :: longlong) = z"
  by (simp add: signed_of_int signed_take_bit_int_eq_self)

lemma scast_of_int: "- (2 ^ 31) \<le> z \<Longrightarrow> z < 2 ^ 31 \<Longrightarrow> scast (of_int z :: cint) = (of_int z :: longlong)"
  using sint_of_int32 [of z] by (metis of_int_sint scast_eq)

text \<open>The fields as digits of one number.\<close>

definition digits :: "mysql_time \<Rightarrow> nat" where
  "digits t = (((unat (day t) * 100 + unat (hour t)) * 100 + unat (minute t)) * 100 + unat (second t)) * 1000000 + unat (second_part t)"

definition small_fields :: "mysql_time \<Rightarrow> bool" where
  "small_fields t \<longleftrightarrow> unat (day t) < 100 \<and> unat (hour t) < 24 \<and> unat (minute t) \<le> 59 \<and> unat (second t) \<le> 59 \<and> unat (second_part t) \<le> 999999"

lemma cut_number: "n = a * c + b \<Longrightarrow> b < c \<Longrightarrow> n div c = a \<and> n mod c = b" for n :: nat
  by simp

lemma digit_parts:
  assumes "small_fields t"
  defines "d \<equiv> unat (day t)" and "h \<equiv> unat (hour t)" and "m \<equiv> unat (minute t)" and "s \<equiv> unat (second t)" and "u \<equiv> unat (second_part t)"
  shows "digits t div 10 ^ 12 = d \<and> digits t mod 10 ^ 12 = ((h * 100 + m) * 100 + s) * 1000000 + u"
    "digits t div 10 ^ 10 = d * 100 + h \<and> digits t mod 10 ^ 10 = (m * 100 + s) * 1000000 + u"
    "digits t div 10 ^ 8 = (d * 100 + h) * 100 + m \<and> digits t mod 10 ^ 8 = s * 1000000 + u"
    "digits t div 10 ^ 6 = ((d * 100 + h) * 100 + m) * 100 + s \<and> digits t mod 10 ^ 6 = u"
    "digits t mod 10 ^ 12 div 10 ^ 8 = h * 100 + m" "digits t mod 10 ^ 12 div 10 ^ 6 = (h * 100 + m) * 100 + s"
    "digits t mod 10 ^ 10 div 10 ^ 6 = m * 100 + s"
proof -
  have b: "d < 100" "h < 24" "m \<le> 59" "s \<le> 59" "u \<le> 999999" using assms(1) by (simp_all add: small_fields_def d_def h_def m_def s_def u_def)
  have n: "digits t = (((d * 100 + h) * 100 + m) * 100 + s) * 1000000 + u" by (simp add: digits_def d_def h_def m_def s_def u_def)
  show twelve: "digits t div 10 ^ 12 = d \<and> digits t mod 10 ^ 12 = ((h * 100 + m) * 100 + s) * 1000000 + u"
    by (rule cut_number) (use b in \<open>simp_all add: n\<close>)
  show ten: "digits t div 10 ^ 10 = d * 100 + h \<and> digits t mod 10 ^ 10 = (m * 100 + s) * 1000000 + u"
    by (rule cut_number) (use b in \<open>simp_all add: n\<close>)
  show "digits t div 10 ^ 8 = (d * 100 + h) * 100 + m \<and> digits t mod 10 ^ 8 = s * 1000000 + u"
    by (rule cut_number) (use b in \<open>simp_all add: n\<close>)
  show "digits t div 10 ^ 6 = ((d * 100 + h) * 100 + m) * 100 + s \<and> digits t mod 10 ^ 6 = u"
    by (rule cut_number) (use b in \<open>simp_all add: n\<close>)
  have "(digits t mod 10 ^ 12) div 10 ^ 8 = h * 100 + m \<and> (digits t mod 10 ^ 12) mod 10 ^ 8 = s * 1000000 + u"
    by (rule cut_number) (use b twelve in simp_all)
  then show "digits t mod 10 ^ 12 div 10 ^ 8 = h * 100 + m" by simp
  have "(digits t mod 10 ^ 12) div 10 ^ 6 = (h * 100 + m) * 100 + s \<and> (digits t mod 10 ^ 12) mod 10 ^ 6 = u"
    by (rule cut_number) (use b twelve in simp_all)
  then show "digits t mod 10 ^ 12 div 10 ^ 6 = (h * 100 + m) * 100 + s" by simp
  have "(digits t mod 10 ^ 10) div 10 ^ 6 = m * 100 + s \<and> (digits t mod 10 ^ 10) mod 10 ^ 6 = u"
    by (rule cut_number) (use b ten in simp_all)
  then show "digits t mod 10 ^ 10 div 10 ^ 6 = m * 100 + s" by simp
qed

text \<open>The extracted words as words of integers.\<close>

lemma extract_words:
  assumes "small_fields t"
  defines "d \<equiv> sign_of t * int (unat (day t))" and "h \<equiv> sign_of t * int (unat (hour t))" and "m \<equiv> sign_of t * int (unat (minute t))"
    and "s \<equiv> sign_of t * int (unat (second t))" and "u \<equiv> sign_of t * int (unat (second_part t))"
  shows "day_hour t = of_int (d * 100 + h)" "day_minute t = of_int ((d * 100 + h) * 100 + m)"
    "day_second t = of_int (((d * 100 + h) * 100 + m) * 100 + s)"
    "day_microsecond t = of_int ((((d * 100 + h) * 100 + m) * 100 + s) * 1000000 + u)"
    "hour_minute t = of_int (h * 100 + m)" "hour_second t = of_int ((h * 100 + m) * 100 + s)"
    "hour_microsecond t = of_int (((h * 100 + m) * 100 + s) * 1000000 + u)"
    "minute_second t = of_int (m * 100 + s)" "minute_microsecond t = of_int ((m * 100 + s) * 1000000 + u)"
    "second_microsecond t = of_int (s * 1000000 + u)"
    "\<bar>d\<bar> < 100 \<and> \<bar>h\<bar> < 24 \<and> \<bar>m\<bar> \<le> 59 \<and> \<bar>s\<bar> \<le> 59 \<and> \<bar>u\<bar> \<le> 999999"
proof -
  show b: "\<bar>d\<bar> < 100 \<and> \<bar>h\<bar> < 24 \<and> \<bar>m\<bar> \<le> 59 \<and> \<bar>s\<bar> \<le> 59 \<and> \<bar>u\<bar> \<le> 999999"
    using assms(1) by (simp add: small_fields_def d_def h_def m_def s_def u_def sign_of_def abs_mult del: of_nat_unat)
  have f: "extract_day t = of_int d" "extract_hour t = of_int h" "extract_minute t = of_int m" "extract_second t = of_int s"
    "extract_microsecond t = of_int u" by (simp_all only: signed_fields d_def h_def m_def s_def u_def)
  have small: "scast (of_int z :: cint) = (of_int z :: longlong)" if "\<bar>z\<bar> \<le> 999999" for z
    by (rule scast_of_int) (use that in auto)
  have c: "scast (of_int d :: cint) = (of_int d :: longlong)" "scast (of_int h :: cint) = (of_int h :: longlong)"
    "scast (of_int m :: cint) = (of_int m :: longlong)" "scast (of_int s :: cint) = (of_int s :: longlong)"
    "scast (of_int u :: cint) = (of_int u :: longlong)"
    using small [of d] small [of h] small [of m] small [of s] small [of u] b by simp_all
  show dh: "day_hour t = of_int (d * 100 + h)" by (simp add: day_hour_def f c)
  show dm: "day_minute t = of_int ((d * 100 + h) * 100 + m)" by (simp add: day_minute_def dh f c)
  show ds: "day_second t = of_int (((d * 100 + h) * 100 + m) * 100 + s)" by (simp add: day_second_def dm f c)
  show "day_microsecond t = of_int ((((d * 100 + h) * 100 + m) * 100 + s) * 1000000 + u)" by (simp add: day_microsecond_def ds f c)
  show hm: "hour_minute t = of_int (h * 100 + m)" by (simp add: hour_minute_def f)
  show hs: "hour_second t = of_int ((h * 100 + m) * 100 + s)" by (simp add: hour_second_def hm f)
  show ms: "minute_second t = of_int (m * 100 + s)" by (simp add: minute_second_def f)
  have "scast (of_int ((h * 100 + m) * 100 + s) :: cint) = (of_int ((h * 100 + m) * 100 + s) :: longlong)"
    by (rule small) (use b in \<open>simp add: abs_le_iff abs_less_iff\<close>)
  then show "hour_microsecond t = of_int (((h * 100 + m) * 100 + s) * 1000000 + u)" by (simp only: hour_microsecond_def hs f c) simp
  have "scast (of_int (m * 100 + s) :: cint) = (of_int (m * 100 + s) :: longlong)" by (rule small) (use b in \<open>simp add: abs_le_iff abs_less_iff\<close>)
  then show "minute_microsecond t = of_int ((m * 100 + s) * 1000000 + u)" by (simp only: minute_microsecond_def ms f c) simp
  show "second_microsecond t = of_int (s * 1000000 + u)" by (simp add: second_microsecond_def f c)
qed

lemma signed_bound:
  assumes "n < 2 ^ k"
  shows "- (2 ^ k) \<le> sign_of t * int n" "sign_of t * int n < 2 ^ k"
proof -
  have n: "int n < 2 ^ k" using assms by (metis of_nat_less_iff of_nat_numeral of_nat_power)
  have z: "(0 :: int) < 2 ^ k" "0 \<le> int n" by simp_all
  have s: "sign_of t * int n = int n \<or> sign_of t * int n = - int n" by (simp add: sign_of_def)
  show "- (2 ^ k) \<le> sign_of t * int n" using n z s by linarith
  show "sign_of t * int n < 2 ^ k" using n z s by linarith
qed

lemma sint_value64: "w = (of_int z :: longlong) \<Longrightarrow> z = sign_of t * int n \<Longrightarrow> n < 2 ^ 63 \<Longrightarrow> sint w = sign_of t * int n"
  using signed_bound [of n 63 t] sint_of_int64 by metis

lemma sint_value32: "w = (of_int z :: cint) \<Longrightarrow> z = sign_of t * int n \<Longrightarrow> n < 2 ^ 31 \<Longrightarrow> sint w = sign_of t * int n"
  using signed_bound [of n 31 t] sint_of_int32 by metis

lemma extract_values:
  assumes t: "small_fields t"
  shows "sint (day_microsecond t) = sign_of t * int (digits t)" "sint (day_second t) = sign_of t * int (digits t div 10 ^ 6)"
    "sint (day_minute t) = sign_of t * int (digits t div 10 ^ 8)" "sint (day_hour t) = sign_of t * int (digits t div 10 ^ 10)"
    "sint (hour_microsecond t) = sign_of t * int (digits t mod 10 ^ 12)"
    "sint (hour_second t) = sign_of t * int (digits t mod 10 ^ 12 div 10 ^ 6)"
    "sint (hour_minute t) = sign_of t * int (digits t mod 10 ^ 12 div 10 ^ 8)"
    "sint (minute_microsecond t) = sign_of t * int (digits t mod 10 ^ 10)"
    "sint (minute_second t) = sign_of t * int (digits t mod 10 ^ 10 div 10 ^ 6)"
    "sint (second_microsecond t) = sign_of t * int (digits t mod 10 ^ 8)"
proof -
  note w = extract_words [OF t]
  note p = digit_parts [OF t]
  have b: "unat (day t) < 100" "unat (hour t) < 24" "unat (minute t) \<le> 59" "unat (second t) \<le> 59" "unat (second_part t) \<le> 999999"
    using t by (simp_all add: small_fields_def)
  note eqs = p(5-7) p(1-4) [THEN conjunct1] p(1-4) [THEN conjunct2]
  show "sint (day_microsecond t) = sign_of t * int (digits t)"
    by (rule sint_value64 [OF w(4)]) (use b in \<open>simp_all only: digits_def\<close>, simp_all add: algebra_simps)
  show "sint (day_second t) = sign_of t * int (digits t div 10 ^ 6)"
    by (rule sint_value64 [OF w(3)]) (use b in \<open>simp_all only: eqs\<close>, simp_all add: algebra_simps)
  show "sint (day_minute t) = sign_of t * int (digits t div 10 ^ 8)"
    by (rule sint_value64 [OF w(2)]) (use b in \<open>simp_all only: eqs\<close>, simp_all add: algebra_simps)
  show "sint (day_hour t) = sign_of t * int (digits t div 10 ^ 10)"
    by (rule sint_value64 [OF w(1)]) (use b in \<open>simp_all only: eqs\<close>, simp_all add: algebra_simps)
  show "sint (hour_microsecond t) = sign_of t * int (digits t mod 10 ^ 12)"
    by (rule sint_value64 [OF w(7)]) (use b in \<open>simp_all only: eqs\<close>, simp_all add: algebra_simps)
  show "sint (hour_second t) = sign_of t * int (digits t mod 10 ^ 12 div 10 ^ 6)"
    unfolding p(6) by (rule sint_value32 [OF w(6)]) (use b in \<open>simp_all add: algebra_simps\<close>)
  show "sint (hour_minute t) = sign_of t * int (digits t mod 10 ^ 12 div 10 ^ 8)"
    unfolding p(5) by (rule sint_value32 [OF w(5)]) (use b in \<open>simp_all add: algebra_simps\<close>)
  show "sint (minute_microsecond t) = sign_of t * int (digits t mod 10 ^ 10)"
    by (rule sint_value64 [OF w(9)]) (use b in \<open>simp_all only: eqs\<close>, simp_all add: algebra_simps)
  show "sint (minute_second t) = sign_of t * int (digits t mod 10 ^ 10 div 10 ^ 6)"
    unfolding p(7) by (rule sint_value32 [OF w(8)]) (use b in \<open>simp_all add: algebra_simps\<close>)
  show "sint (second_microsecond t) = sign_of t * int (digits t mod 10 ^ 8)"
    by (rule sint_value64 [OF w(10)]) (use b in \<open>simp_all only: eqs\<close>, simp_all add: algebra_simps)
qed

section \<open>Seconds as times\<close>

lemma ucast32_unat: "unat v < 2 ^ 32 \<Longrightarrow> unat (ucast v :: uint) = unat v" for v :: ulonglong
  by (rule unat_ucast_small) simp

lemma seconds_fields:
  fixes n :: ulonglong
  assumes "unat n \<le> 3020399"
  defines "h \<equiv> ucast (n div 3600) :: uint" and "m \<equiv> ucast (n mod 3600) div 60 :: uint" and "s \<equiv> ucast n mod 60 :: uint"
  shows "unat h = unat n div 3600" "unat m = unat n mod 3600 div 60" "unat s = unat n mod 60" "ucast (h * 3600 + m * 60 + s) = n"
proof -
  show h: "unat h = unat n div 3600"
    unfolding h_def by (subst ucast32_unat) (use assms(1) in \<open>simp_all add: unat_div_distrib\<close>)
  have "unat (ucast (n mod 3600) :: uint) = unat n mod 3600" by (subst ucast32_unat) (use assms(1) in \<open>simp_all add: unat_mod_distrib\<close>)
  then show m: "unat m = unat n mod 3600 div 60" by (simp add: m_def unat_div_distrib)
  have "unat (ucast n :: uint) = unat n" by (rule ucast32_unat) (use assms(1) in simp)
  then show s: "unat s = unat n mod 60" by (simp add: s_def unat_mod_distrib)
  have "unat n mod 3600 mod 60 = unat n mod 60" by (simp add: mod_mod_cancel)
  then have total: "unat h * 3600 + unat m * 60 + unat s = unat n"
    unfolding h m s by (metis div_mult_mod_eq add.assoc)
  have a: "unat (h * 3600) = unat h * 3600" "unat (m * 60) = unat m * 60"
    using total assms(1) by (simp_all add: unat_word_ariths)
  have "unat (h * 3600 + m * 60) = unat h * 3600 + unat m * 60"
    unfolding a [symmetric] by (rule unat_add_small) (use total assms(1) a in simp)
  moreover from this have "unat (h * 3600 + m * 60 + s) = unat n"
    using total assms(1) by (simp add: unat_add_small)
  ultimately show "ucast (h * 3600 + m * 60 + s) = n"
    using unat_ucast_small [of "h * 3600 + m * 60 + s", where 'b = 64] assms(1) by (simp add: word_unat_eq_iff)
qed

section \<open>Properties\<close>


lemma sample_contract: "time_contract sample_env"
proof -
  have small: "unat (of_nat k :: uint) = k" if "k < 2 ^ 32" for k :: nat by (rule unat_of_nat_small) (use that in simp)
  have time: "if rc then w' \<noteq> 0 else is_valid_time_slow u \<and> hour u \<le> TIME_MAX_HOUR"
    if "sample_number_to_time_only n s p TIME_MAX_HOUR t w = (rc, u, w')" for n s p t w rc u w'
    using that small [of "unat s div 10000"]
    by (auto simp: sample_number_to_time_only_def Let_def is_valid_time_slow_def has_zero_YYYYMMDD_def MYSQL_TIME_WARN_OUT_OF_RANGE_def
      TIME_MAX_HOUR_def has_valid_mmssff_def word_le_nat_alt split: if_splits)
  have date: "if r <s 0 then w' \<noteq> 0 else good_datetime u"
    if s: "s \<le> 99991231235959" and r: "sample_number_to_datetime_or_date s p f t w = (r, u, w')" for s p f t w r u w'
  proof -
    have "sint s = int (unat s)" by (rule sint_small64) (use s in \<open>simp add: word_le_nat_alt\<close>)
    then have "\<not> s <s 0" by (simp add: word_sless_alt)
    with r show ?thesis
      by (auto simp: sample_number_to_datetime_or_date_def Let_def good_datetime_def MYSQL_TIME_WARN_OUT_OF_RANGE_def has_valid_mmssff_def
        split: if_splits)
  qed
  have f: "number_to_time_only sample_env = sample_number_to_time_only"
    "number_to_datetime_or_date sample_env = sample_number_to_datetime_or_date" by (simp_all add: sample_env_def)
  have "powers_of_ten sample_env" by (simp add: powers_of_ten_def sample_env_def)
  then show ?thesis unfolding time_contract_def f using time date by (blast intro: case_prodI2')
qed

text \<open>The last second of the 31st of no month, as a datetime with a fraction and as a number.\<close>

definition day_of_month :: mysql_time where
  "day_of_month = \<lparr>year = 0, month = 0, day = 31, hour = 23, minute = 59, second = 59, second_part = 512345, t_neg = False,
     time_type = MYSQL_TIMESTAMP_DATETIME\<rparr>"


text \<open>
  C29. The numbers extracted from a valid time, whose hours become days and hours, or from a valid datetime, are the digits of its
  fields under its sign, at every pair of units, and no word overflows; the fields of the time can be read off them.
\<close>

theorem extracted_digits:
  assumes "good_datetime t \<or> (good_time t \<and> time_type t = MYSQL_TIMESTAMP_TIME)"
  shows "\<exists>x. extract_source t = Some x \<and>
    sint (day_microsecond x) = sign_of t * int (digits x) \<and> sint (day_second x) = sign_of t * int (digits x div 10 ^ 6) \<and>
    sint (day_minute x) = sign_of t * int (digits x div 10 ^ 8) \<and> sint (day_hour x) = sign_of t * int (digits x div 10 ^ 10) \<and>
    sint (hour_microsecond x) = sign_of t * int (digits x mod 10 ^ 12) \<and>
    sint (hour_second x) = sign_of t * int (digits x mod 10 ^ 12 div 10 ^ 6) \<and>
    sint (hour_minute x) = sign_of t * int (digits x mod 10 ^ 12 div 10 ^ 8) \<and>
    sint (minute_microsecond x) = sign_of t * int (digits x mod 10 ^ 10) \<and>
    sint (minute_second x) = sign_of t * int (digits x mod 10 ^ 10 div 10 ^ 6) \<and>
    sint (second_microsecond x) = sign_of t * int (digits x mod 10 ^ 8) \<and>
    digits x div 10 ^ 12 * 24 + digits x div 10 ^ 10 mod 100 = unat (day t) * 24 + unat (hour t) \<and>
    digits x div 10 ^ 8 mod 100 = unat (minute t) \<and> digits x div 10 ^ 6 mod 100 = unat (second t) \<and>
    digits x mod 10 ^ 6 = unat (second_part t)"
proof -
  obtain x where x: "extract_source t = Some x" "small_fields x" "sign_of x = sign_of t"
    "unat (day x) * 24 + unat (hour x) = unat (day t) * 24 + unat (hour t)" "minute x = minute t" "second x = second t"
    "second_part x = second_part t"
  proof (cases "time_type t = MYSQL_TIMESTAMP_TIME")
    case True
    then have t: "has_zero_YYYYMMDD t" "has_valid_mmssff t" "unat (hour t) \<le> 838"
      using assms by (auto simp: good_datetime_def good_time_def is_valid_time_slow_def TIME_MAX_HOUR_def word_le_nat_alt)
    let ?x = "t\<lparr>day := hour t div 24, hour := hour t mod 24\<rparr>"
    have u: "unat (hour t div 24) = unat (hour t) div 24" "unat (hour t mod 24) = unat (hour t) mod 24"
      by (simp_all add: unat_div_distrib unat_mod_distrib)
    have "extract_source t = Some ?x"
      using True t(1) u by (simp add: extract_source_def time_to_daytime_interval_def is_valid_extract_source_slow_def is_valid_temporal_def
        has_zero_YYYYMMDD_def has_zero_YYYYMM_def word_less_nat_alt)
    moreover have "small_fields ?x" using t u by (simp add: small_fields_def valid_nat)
    ultimately show ?thesis using that [of ?x] t(1) u by (simp add: sign_of_def has_zero_YYYYMMDD_def)
  next
    case False
    then have t: "good_datetime t" using assms by blast
    then have "extract_source t = Some t" using False
      by (auto simp: extract_source_def is_valid_extract_source_slow_def is_valid_temporal_def good_datetime_def)
    moreover have "small_fields t" using t by (simp add: small_fields_def good_datetime_def valid_nat word_less_nat_alt)
    ultimately show ?thesis using that [of t] by simp
  qed
  have h: "unat (hour x) < 100" "unat (minute x) < 100" "unat (second x) < 100" using x(2) by (simp_all add: small_fields_def)
  have e: "(a * 100 + b) mod 100 = b" if "b < 100" for a b :: nat using that by simp
  note p = digit_parts(1-4) [OF x(2), THEN conjunct1]
  have m: "digits x div 10 ^ 10 mod 100 = unat (hour x)" unfolding p by (rule e [OF h(1)])
  have n: "digits x div 10 ^ 8 mod 100 = unat (minute x)" unfolding p by (rule e [OF h(2)])
  have "digits x div 10 ^ 6 mod 100 = unat (second x)" unfolding p by (rule e [OF h(3)])
  then have parts: "digits x div 10 ^ 12 * 24 + digits x div 10 ^ 10 mod 100 = unat (day t) * 24 + unat (hour t)"
    "digits x div 10 ^ 8 mod 100 = unat (minute t)" "digits x div 10 ^ 6 mod 100 = unat (second t)" "digits x mod 10 ^ 6 = unat (second_part t)"
    using m n p(1) digit_parts(4) [OF x(2), THEN conjunct2] x(4-7) by simp_all
  show ?thesis by (intro exI [of _ x] conjI x(1) parts extract_values [OF x(2), unfolded x(3)])
qed

theorem extracted_digits_witness:
  "\<exists>x. extract_source last_microsecond = Some x \<and> sint (day_microsecond x) = - int (digits x) \<and>
     digits x div 10 ^ 12 * 24 + digits x div 10 ^ 10 mod 100 = 838 \<and> sint (second_microsecond x) = - int (digits x mod 10 ^ 8)"
proof -
  have "good_time last_microsecond \<and> time_type last_microsecond = MYSQL_TIMESTAMP_TIME"
    by (simp add: last_microsecond_def good_time_def is_valid_time_slow_def has_zero_YYYYMMDD_def valid_nat TIME_MAX_HOUR_def)
  then have "good_datetime last_microsecond \<or> (good_time last_microsecond \<and> time_type last_microsecond = MYSQL_TIMESTAMP_TIME)" ..
  from extracted_digits [OF this] show ?thesis by (auto simp: sign_of_def last_microsecond_def)
qed

text \<open>
  What \<open>sec_to_time\<close> in \<open>sql_type.h\<close> relies on: a zeroed time, and \<open>check_time_range\<close> setting a time that is too large to the
  largest, as the comment there says, for at most six digits.
\<close>

definition range_contract :: "time_env \<Rightarrow> bool" where
  "range_contract E \<longleftrightarrow>
     set_zero_time E MYSQL_TIMESTAMP_TIME = \<lparr>year = 0, month = 0, day = 0, hour = 0, minute = 0, second = 0, second_part = 0, t_neg = False,
       time_type = MYSQL_TIMESTAMP_TIME\<rparr> \<and>
     (\<forall>t d w. is_valid_time_slow t \<and> d \<le> TIME_SECOND_PART_DIGITS \<longrightarrow>
        (case check_time_range E t d w of (_, u, _) \<Rightarrow> is_valid_time_slow u \<and> hour u \<le> TIME_MAX_HOUR))"

text \<open>
  Seconds in the range of times become a valid time with their sign and fraction that gives the same seconds back; more
  seconds give what \<open>check_time_range\<close> makes of 839 hours, with an error.
\<close>

theorem seconds_roundtrip:
  assumes "range_contract E" and "unat (m_usec s) \<le> 999999" and "dec \<le> TIME_SECOND_PART_DIGITS"
  shows "\<exists>rc t. sec_to_time E dec unused s = Some (rc, t) \<and> is_valid_time_slow t \<and> hour t \<le> TIME_MAX_HOUR \<and>
    rc = (3020399 < unat (m_sec s)) \<and>
    (\<not> rc \<longrightarrow> to_seconds t = Some (if m_neg s then - m_sec s else m_sec s) \<and> second_part t = m_usec s \<and> t_neg t = m_neg s)"
proof -
  have mx: "scast TIME_MAX_VALUE_SECONDS = (3020399 :: ulonglong)"
    by (simp add: TIME_MAX_VALUE_SECONDS_def TIME_MAX_HOUR_def TIME_MAX_MINUTE_def TIME_MAX_SECOND_def)
  let ?z = "(set_zero_time E MYSQL_TIMESTAMP_TIME)\<lparr>t_neg := m_neg s\<rparr>"
  note z = conjunct1 [OF assms(1) [unfolded range_contract_def]]
  show ?thesis
  proof (cases "3020399 < unat (m_sec s)")
    case True
    obtain rc u w where u: "check_time_range E (?z\<lparr>hour := TIME_MAX_HOUR + 1\<rparr>) dec unused = (rc, u, w)" by (metis prod_cases3)
    have "is_valid_time_slow (?z\<lparr>hour := TIME_MAX_HOUR + 1\<rparr>)" by (simp add: z is_valid_time_slow_def has_zero_YYYYMMDD_def valid_nat)
    then have "is_valid_time_slow u \<and> hour u \<le> TIME_MAX_HOUR"
      using assms(1) [unfolded range_contract_def, THEN conjunct2, rule_format, OF conjI [OF _ assms(3)],
        of "?z\<lparr>hour := TIME_MAX_HOUR + 1\<rparr>" unused] u by simp
    then show ?thesis using True u mx
      by (auto simp: sec_to_time_def word_less_nat_alt)
  next
    case False
    then have n: "unat (m_sec s) \<le> 3020399" by simp
    note f = seconds_fields [OF n]
    let ?t = "?z\<lparr>hour := ucast (m_sec s div 3600), minute := ucast (m_sec s mod 3600) div 60, second := ucast (m_sec s) mod 60, second_part := m_usec s\<rparr>"
    have "sint (m_usec s) = int (unat (m_usec s))" by (rule sint_small32) (use assms(2) in simp)
    then have "m_usec s \<le>s TIME_MAX_SECOND_PART" using assms(2)
      by (simp add: word_sle_eq TIME_MAX_SECOND_PART_def uint_nat del: of_nat_unat)
    then have r: "sec_to_time E dec unused s = Some (False, ?t)"
      using n mx by (simp add: sec_to_time_def word_less_nat_alt)
    have "unat (m_sec s) mod 3600 div 60 < 60" by (simp add: div_less_iff_less_mult)
    then have v: "is_valid_time_slow ?t"
      using f(2,3) assms(2) by (simp add: z is_valid_time_slow_def has_zero_YYYYMMDD_def valid_nat less_Suc_eq_le [symmetric] flip: numeral_eq_Suc)
    have "hour ?t \<le> TIME_MAX_HOUR" using f(1) n by (simp add: TIME_MAX_HOUR_def word_le_nat_alt)
    then show ?thesis using r v f(4) False by (simp add: to_seconds_def to_seconds_abs_def z ex_bool_eq)
  qed
qed

lemma sample_range: "range_contract sample_env"
  by (auto simp: range_contract_def sample_env_def is_valid_time_slow_def has_zero_YYYYMMDD_def
    valid_nat time_hhmmssff_set_max_def TIME_MAX_HOUR_def TIME_MAX_MINUTE_def TIME_MAX_SECOND_def TIME_MAX_SECOND_PART_def linorder_not_less)

theorem seconds_roundtrip_witness:
  "\<exists>t. sec_to_time sample_env 6 0 \<lparr>m_sec = 3020399, m_usec = 5, m_neg = True, m_truncated = False\<rparr> = Some (False, t) \<and>
     to_seconds t = Some (- 3020399)"
  using seconds_roundtrip [OF sample_range, of "\<lparr>m_sec = 3020399, m_usec = 5, m_neg = True, m_truncated = False\<rparr>" 6 0]
  by (auto simp: TIME_SECOND_PART_DIGITS_def)

text \<open>
  Rounding an undefined time leaves it undefined in the modes that truncate and round; in the mode without rounding an
  assertion on its fraction fails.
\<close>

theorem undefined_time_rounded:
  assumes "time_type t = MYSQL_TIMESTAMP_NONE"
  shows "time_trunc E dec t = Some t \<and> time_round E dec t w = Some (t, w) \<and>
    time_round_to E dec (Time_round_mode FRAC_TRUNCATE) t w = Some (t, w) \<and> time_round_to E dec (Time_round_mode FRAC_ROUND) t w = Some (t, w) \<and>
    time_round_to E dec (Time_round_mode FRAC_NONE) t w = None"
  using assms by (simp add: time_trunc_def time_round_def time_round_to_def time_fraction_remainder_def is_valid_time_def
    is_valid_value_slow_def checked_def round_mode_def mask_values)

theorem undefined_time_rounded_witness:
  "time_round_to sample_env 6 (Time_round_mode FRAC_NONE) (last_microsecond\<lparr>time_type := MYSQL_TIMESTAMP_NONE\<rparr>) 0 = None"
  using undefined_time_rounded [of "last_microsecond\<lparr>time_type := MYSQL_TIMESTAMP_NONE\<rparr>"] by simp

end
