(* ===== verification/Spec2Isabelle.thy ===== *)
theory Spec2Isabelle
  imports Prelude My_Bit Bit_Store My_Bitmap Sql_Bitmap Privilege Psi_Core Psi_File Psi_Socket Sql_Type_Int Select_Limit
    Simulation Sql_List Sql_List_Iter Sql_List_Sort Sql_Ilink Sql_I_List Heap_Path Tranx_Alloc
    Flat_Memory Lifo_Buffer Byte_Order Mi_Pack Binary_String String_Append String_Owner String_Text
    Thread_Cache Thread_Cache_Live Hash_Filo Sql_Plist
    Sql_State Diagnostics_Area Sql_Charset Mem_Root_Array Ilist
    Mdl_Key Filesort_Buffer Filesort_Records
    Lex_Input Statement_Flags Query_Tables Xid
    Auto_Increment Ddl_Options Date_Mode Temporal Time_Values
begin

text \<open>
  A verification development for the C and C++ code that LUHUT ships. LUHUT is a Windows tray
  application (Flutter, \<open>lib/\<close> and \<open>windows/runner/\<close>) that manages a bundled MariaDB, nginx and PHP;
  the only code in C under \<open>src/bin\<close> is the set of MariaDB server headers under
  \<open>bin/mysql/include/mysql\<close>, which hold the inline data structures, codecs and instrumentation
  wrappers of the server. Their inline code is what this library models.

  \<^bold>\<open>Parts and theories.\<close>
  \<^item> \<open>Prelude\<close>: the C integer types of the shipped 64-bit Windows build (\<open>int\<close> and \<open>long\<close> have 32
    bits, \<open>size_t\<close> and \<open>long long\<close> 64), and the lemmas on words the components share.
  \<^item> \<open>My_Bit\<close> (\<open>my_bit.h\<close>): logarithms, population counts, rounding and the search for the lowest set
    bit, each equal to its arithmetic meaning. The search loop is a partial function that is proved to
    return on every input.
  \<^item> \<open>Bit_Store\<close>: the contract of a store of bits as the locales \<open>bit_store\<close> and \<open>bit_algebra\<close>;
    \<open>My_Bitmap\<close> (\<open>my_bitmap.h\<close>) and \<open>Sql_Bitmap\<close> (\<open>sql_bitmap.h\<close>) provide it, so that programs of set and clear
    calls refine sets in both. \<open>Sql_Bitmap\<close> also has the iterator; its fuel is the number of members
    plus one, which is proved to be enough to reach the end mark.
  \<^item> \<open>Privilege\<close> (\<open>privilege.h\<close>): the privilege bits, the masks of the levels, the conversions between the
    bits and the forms stored in the grant tables, and the requirements of statements and variables.
  \<^item> \<open>Psi_Core\<close>, \<open>Psi_File\<close> (\<open>mysql_file.h\<close>), \<open>Psi_Socket\<close> (\<open>mysql_socket.h\<close>): the wrappers that report
    every file and socket call to the performance schema. The state has the world, the trace of
    notifications and the stream structs; \<open>Psi_Core\<close> has the contract of a wrapped call as the
    locale \<open>psi_call\<close>. The two copies of a call, in the branches with and without a locker, are separate. The operating system and the instrumentation service are parameters.
  \<^item> \<open>Sql_Type_Int\<close> (\<open>sql_type_int.h\<close>): integers with null, signedness or sign, related to the
    mathematical integer they denote. \<open>Select_Limit\<close> (\<open>sql_limit.h\<close>): the row counters of LIMIT.
  \<^item> \<open>Simulation\<close>: machines that run commands and the contract of a refinement step; \<open>Sql_List\<close>,
    \<open>Sql_List_Iter\<close>, \<open>Sql_List_Sort\<close> (\<open>sql_list.h\<close>): the single linked list of the server over an explicit heap
    in which pointers to pointers are slots, its iterators and the bubble sort, refined to lists of values.
    \<open>Sql_Ilink\<close> and \<open>Sql_I_List\<close> (\<open>sql_list.h\<close>): the intrusive doubly linked list with its iterator and the list
    linked through a field of its elements.
  \<^item> \<open>Heap_Path\<close>: paths through next fields and their surgery (redirect, rotate); \<open>Tranx_Alloc\<close>
    (\<open>semisync_master.h\<close>): the node allocator of semi-synchronous replication, with the states its users can
    reach as an inductive relation and an invariant over them.
  \<^item> \<open>Flat_Memory\<close>: memory as bytes at 64-bit addresses. \<open>Lifo_Buffer\<close> (\<open>sql_lifo_buffer.h\<close>): the two
    buffers of the multi-range-read scans, refined to stacks of byte strings through the contract of their
    base class. \<open>Byte_Order\<close> (\<open>byte_order_generic.h\<close>, \<open>byte_order_generic_x86_64.h\<close>) and \<open>Mi_Pack\<close>
    (\<open>myisampack.h\<close>): the integer codecs, low byte first and high byte first.
  \<^item> \<open>Binary_String\<close> (\<open>sql_string.h\<close>): growing byte strings over flat memory, with the allocator as a parameter
    that may refuse; \<open>String_Append\<close>: their contents under programs of appends, overflow of the lengths and
    end marks; \<open>String_Owner\<close>: who owns which heap block, as an inductive relation over programs of moves,
    swaps and releases; \<open>String_Text\<close>: text composed from appends.
  \<^item> \<open>Sql_Plist\<close> (\<open>sql_plist.h\<close>): the list through fields of its elements with its counting and insertion
    policies, refined to a family of disjoint sequences.
  \<^item> \<open>Sql_State\<close> (\<open>sql_error.h\<close>): SQL states, error numbers, levels and identities of conditions, with record
    extension for inheritance. \<open>Diagnostics_Area\<close> (\<open>sql_error.h\<close>): the status of a statement and its stack of warning
    infos, composed of the lists of \<open>Sql_Plist\<close> and \<open>Sql_List\<close>; the functions outside the header have a contract, and
    programs that pop what they push are an inductive predicate.
  \<^item> \<open>Sql_Charset\<close> (\<open>sql_string.h\<close>): strings with a character set, which is a record of functions; wide characters
    and their fallback over the appends of \<open>String_Append\<close>, and the versions and numbers of collations.
  \<^item> \<open>Hash_Filo\<close> (\<open>hash_filo.h\<close>): the cache of hash entries in the order of their last use, over any hash table
    that keeps its contract, refined to a bounded list; the elements freed are recorded.
  \<^item> \<open>Mem_Root_Array\<close> (\<open>mem_root_array.h\<close>): arrays that grow on a memory root which may refuse; cells are alive between
    the construction and the destruction of their object, so that the refinement to lists also shows that objects are
    destroyed once. \<open>Ilist\<close> (\<open>ilist.h\<close>): the ring of nodes around a sentinel and its sized variant, refined to
    sequences, in builds with and without assertions.
  \<^item> \<open>Mdl_Key\<close> (\<open>mdl.h\<close>): the keys of metadata locks as bytes in a buffer of fixed size, their comparison and the
    requests that carry them.
  \<^item> \<open>Filesort_Buffer\<close> (\<open>filesort_utils.h\<close>, \<open>sql_array.h\<close>): records and pointers that grow towards each other in one block
    of memory, refined to lists of records. \<open>Filesort_Records\<close> (\<open>sql_sort.h\<close>): the formats of the records in that buffer and the
    buffers of chunks that are merged.
  \<^item> \<open>Lex_Input\<close> (\<open>sql_lex.h\<close>): the character stream of the lexer over two buffers, refined to the text and the trail of the
    characters read. \<open>Statement_Flags\<close> and \<open>Query_Tables\<close> (\<open>sql_lex.h\<close>): what a statement is known to do that matters for
    the binary log, and the list of its tables with those added for prelocking.
  \<^item> \<open>Xid\<close> (\<open>handler.h\<close>, \<open>log_event.h\<close>): identifiers of distributed transactions, their equality and their text.
  \<^item> \<open>Auto_Increment\<close> (\<open>structs.h\<close>, \<open>sql_class.h\<close>, \<open>handler.h\<close>): intervals of generated ids, lists that share them, refined to
    sequences of intervals, and the ids of \<open>LAST_INSERT_ID()\<close> as a function of the history of a statement. \<open>Ddl_Options\<close>
    (\<open>structs.h\<close>): the options of data definition statements, refined to sets.
  \<^item> \<open>Date_Mode\<close> (\<open>sql_basic_types.h\<close>): the modes of temporal conversions. \<open>Temporal\<close> (\<open>mysql_time.h\<close>, \<open>my_time.h\<close>, \<open>sql_time.h\<close>,
    \<open>sql_type.h\<close>): fractions of seconds, how rounding carries and the range of timestamps. \<open>Time_Values\<close> (\<open>sql_type.h\<close>): times made of
    dates, integers and seconds, which stay valid when they are cut, and the numbers that \<open>EXTRACT\<close> takes out of them. The functions
    of other files are a record of parameters; the contract of those that read numbers is what the comments and assertions of
    \<open>sql_type.h\<close> say of them, and nothing is claimed of rounding up and of the difference to the current date, which they do.
  \<^item> \<open>Thread_Cache\<close> (\<open>thread_cache.h\<close>): the cache of idle threads with its mutex and condition variables. Threads
    are program counters that interleave; a critical section is one step, an acquisition, a signal sent after the
    release, a time-out, a spurious wake-up and the unprotected increment are steps of their own.
    \<open>Thread_Cache_Live\<close>: order, lost wake-ups, termination of flushes and the ways concurrent flushes go wrong. The
    queue of connections is the list that \<open>Sql_Ilink\<close> proves the intrusive list to be.

  \<^bold>\<open>Conventions.\<close> A C integer is a word of its width. A null or dead pointer access is the value
  \<open>None\<close>; loops over pointers are partial functions into \<open>option\<close>, so a result \<open>Some\<close> also states that
  the loop ends. Code outside the repository (allocators, system calls, comparison functions) is an
  argument of the definitions; what is assumed of it is a named hypothesis of the theorem.

  \<^bold>\<open>Lemma groups.\<close> Each component has lemmas on its own data first (bits of words, chains of nodes,
  traces), then one lemma per operation, then an interpretation of the contract it provides, and last
  its properties with a witness at concrete data.

  \<^bold>\<open>Not modelled.\<close> The other MariaDB headers: most only declare functions and classes whose code is in the
  shipped binaries, and the large ones (\<open>sql_class.h\<close>, \<open>item.h\<close>, \<open>field.h\<close>) depend on virtual functions
  defined there. The extern functions of \<open>my_bitmap.h\<close>, the character sets and the conversions of text, decimals and items to
  temporal values are not in the repository; what the code relies on of them is a named hypothesis. The Dart and C++ application code is window, tray and process glue.
\<close>

end
